(* ===== verification/Prelude.thy ===== *)
theory Prelude
  imports Main "HOL-Library.Word"
begin

text \<open>
  Shared vocabulary of the development: the machine integers of the C code, byte order on
  the little-endian x86-64 target, byte-addressed packet memory with its read and write
  lemmas, the result type of operations that may abort the process, and generic list facts.

  A C object in memory is a function from offsets to bytes (\<open>buf\<close>). A 16-bit or 32-bit field is
  read and written little-endian, because that is what a plain C load or store does on the
  target; \<open>htons\<close> and \<open>htonl\<close> swap the bytes, so a field stored through them is in
  network order.
\<close>

unbundle bit_operations_syntax

section \<open>Machine integers\<close>

type_synonym u8 = "8 word"
type_synonym u16 = "16 word"
type_synonym u32 = "32 word"
type_synonym u64 = "64 word"

named_theorems buf_simps \<open>reads of packet memory after writes\<close>
named_theorems op_defs \<open>definitions of small operations that proofs unfold together\<close>

definition bswap16 :: "u16 \<Rightarrow> u16" where
  "bswap16 x = (push_bit 8 (x AND 0x00ff)) OR (drop_bit 8 (x AND 0xff00))"

definition bswap32 :: "u32 \<Rightarrow> u32" where
  "bswap32 x = (push_bit 24 (x AND 0x000000ff)) OR (push_bit 8 (x AND 0x0000ff00))
     OR (drop_bit 8 (x AND 0x00ff0000)) OR (drop_bit 24 (x AND 0xff000000))"

abbreviation htons :: "u16 \<Rightarrow> u16" where "htons \<equiv> bswap16"
abbreviation ntohs :: "u16 \<Rightarrow> u16" where "ntohs \<equiv> bswap16"
abbreviation htonl :: "u32 \<Rightarrow> u32" where "htonl \<equiv> bswap32"
abbreviation ntohl :: "u32 \<Rightarrow> u32" where "ntohl \<equiv> bswap32"

text \<open>The byte masks of the C macros, bit by bit.\<close>

lemma byte_mask_bit: "bit (push_bit k (mask 8) :: 'a::len word) n \<longleftrightarrow> n < LENGTH('a) \<and> k \<le> n \<and> n < k + 8"
  by (auto simp only: bit_push_bit_iff bit_mask_iff possible_bit_word)

lemma byte_masks16:
  "(0x00ff :: u16) = push_bit 0 (mask 8)" "(0xff00 :: u16) = push_bit 8 (mask 8)"
  by (simp_all add: mask_eq_exp_minus_1 push_bit_eq_mult)

lemma byte_masks32:
  "(0x000000ff :: u32) = push_bit 0 (mask 8)" "(0x0000ff00 :: u32) = push_bit 8 (mask 8)"
  "(0x00ff0000 :: u32) = push_bit 16 (mask 8)" "(0xff000000 :: u32) = push_bit 24 (mask 8)"
  by (simp_all add: mask_eq_exp_minus_1 push_bit_eq_mult)

lemma bit_byte_masks16:
  "bit (0x00ff :: u16) n \<longleftrightarrow> n < 8" "bit (0xff00 :: u16) n \<longleftrightarrow> 8 \<le> n \<and> n < 16"
  unfolding byte_masks16 byte_mask_bit by auto

lemma bit_byte_masks32:
  "bit (0x000000ff :: u32) n \<longleftrightarrow> n < 8" "bit (0x0000ff00 :: u32) n \<longleftrightarrow> 8 \<le> n \<and> n < 16"
  "bit (0x00ff0000 :: u32) n \<longleftrightarrow> 16 \<le> n \<and> n < 24"
  "bit (0xff000000 :: u32) n \<longleftrightarrow> 24 \<le> n \<and> n < 32"
  unfolding byte_masks32 byte_mask_bit by auto

lemma bswap16_bit: "bit (bswap16 x) n \<longleftrightarrow> n < 16 \<and> (if n < 8 then bit x (8 + n) else bit x (n - 8))"
  unfolding bswap16_def bit_or_iff bit_push_bit_iff bit_drop_bit_eq bit_and_iff o_def bit_byte_masks16
  using bit_imp_le_length[of x "8 + n"]
  by auto

lemma bswap16_eq: "bswap16 x = push_bit 8 x OR drop_bit 8 x"
  by (rule bit_word_eqI)
   (auto simp: bswap16_bit bit_push_bit_iff bit_drop_bit_eq bit_or_iff dest: bit_imp_le_length)

lemma bswap16_bswap16 [simp]: "bswap16 (bswap16 x) = x"
  by (rule bit_word_eqI) (auto simp: bswap16_bit)

lemma bswap32_bit: "bit (bswap32 x) n \<longleftrightarrow> n < 32 \<and>
    (if n < 8 then bit x (24 + n) else if n < 16 then bit x (8 + n)
     else if n < 24 then bit x (n - 8) else bit x (n - 24))"
  unfolding bswap32_def bit_or_iff bit_push_bit_iff bit_drop_bit_eq bit_and_iff o_def bit_byte_masks32
  using bit_imp_le_length[of x "24 + n"]
  by auto

lemma bswap32_bswap32 [simp]: "bswap32 (bswap32 x) = x"
proof (rule bit_word_eqI)
  fix n assume n: "n < LENGTH(32)"
  then have "n < 8 \<or> 8 \<le> n \<and> n < 16 \<or> 16 \<le> n \<and> n < 24 \<or> 24 \<le> n \<and> n < 32" by auto
  then show "bit (bswap32 (bswap32 x)) n = bit x n"
    by (elim disjE) (auto simp: bswap32_bit)
qed

lemma bswap16_inj: "bswap16 x = bswap16 y \<longleftrightarrow> x = y"
  by (metis bswap16_bswap16)

section \<open>Packet memory\<close>

type_synonym buf = "nat \<Rightarrow> u8"

definition le16 :: "u16 \<Rightarrow> u8 list" where
  "le16 x = [ucast x, ucast (drop_bit 8 x)]"

definition le32 :: "u32 \<Rightarrow> u8 list" where
  "le32 x = [ucast x, ucast (drop_bit 8 x), ucast (drop_bit 16 x), ucast (drop_bit 24 x)]"

definition of_le16 :: "u8 \<Rightarrow> u8 \<Rightarrow> u16" where
  "of_le16 a b = ucast a OR push_bit 8 (ucast b)"

definition of_le32 :: "u8 \<Rightarrow> u8 \<Rightarrow> u8 \<Rightarrow> u8 \<Rightarrow> u32" where
  "of_le32 a b c d = ucast a OR push_bit 8 (ucast b) OR push_bit 16 (ucast c)
     OR push_bit 24 (ucast d)"

definition rd16 :: "buf \<Rightarrow> nat \<Rightarrow> u16" where
  "rd16 m p = of_le16 (m p) (m (p + 1))"

definition rd32 :: "buf \<Rightarrow> nat \<Rightarrow> u32" where
  "rd32 m p = of_le32 (m p) (m (p + 1)) (m (p + 2)) (m (p + 3))"

definition rd_bytes :: "buf \<Rightarrow> nat \<Rightarrow> nat \<Rightarrow> u8 list" where
  "rd_bytes m p n = map (\<lambda>i. m (p + i)) [0..<n]"

definition wr_bytes :: "nat \<Rightarrow> u8 list \<Rightarrow> buf \<Rightarrow> buf" where
  "wr_bytes p bs m = (\<lambda>i. if p \<le> i \<and> i < p + length bs then bs ! (i - p) else m i)"

definition wr8 :: "nat \<Rightarrow> u8 \<Rightarrow> buf \<Rightarrow> buf" where
  "wr8 p v m = wr_bytes p [v] m"

definition wr16 :: "nat \<Rightarrow> u16 \<Rightarrow> buf \<Rightarrow> buf" where
  "wr16 p v m = wr_bytes p (le16 v) m"

definition wr32 :: "nat \<Rightarrow> u32 \<Rightarrow> buf \<Rightarrow> buf" where
  "wr32 p v m = wr_bytes p (le32 v) m"

lemma length_le16 [simp]: "length (le16 x) = 2"
  by (simp add: le16_def)

lemma length_le32 [simp]: "length (le32 x) = 4"
  by (simp add: le32_def)

lemma length_rd_bytes [simp]: "length (rd_bytes m p n) = n"
  by (simp add: rd_bytes_def)

lemma of_le16_le16 [simp]: "of_le16 (ucast x) (ucast (drop_bit 8 x)) = x"
proof (rule bit_word_eqI)
  fix n assume "n < LENGTH(16)"
  then show "bit (of_le16 (ucast x) (ucast (drop_bit 8 x))) n = bit x n"
    by (auto simp: of_le16_def bit_or_iff bit_push_bit_iff bit_ucast_iff bit_drop_bit_eq)
qed

lemma of_le32_le32 [simp]:
  "of_le32 (ucast x) (ucast (drop_bit 8 x)) (ucast (drop_bit 16 x)) (ucast (drop_bit 24 x)) = x"
proof (rule bit_word_eqI)
  fix n assume n: "n < LENGTH(32)"
  then have "n < 8 \<or> 8 \<le> n \<and> n < 16 \<or> 16 \<le> n \<and> n < 24 \<or> 24 \<le> n \<and> n < 32" by auto
  then show "bit (of_le32 (ucast x) (ucast (drop_bit 8 x)) (ucast (drop_bit 16 x))
      (ucast (drop_bit 24 x))) n = bit x n"
    by (elim disjE) (auto simp: of_le32_def bit_or_iff bit_push_bit_iff bit_ucast_iff
        bit_drop_bit_eq)
qed

lemma wr_bytes_out: "i < p \<or> p + length bs \<le> i \<Longrightarrow> wr_bytes p bs m i = m i"
  by (auto simp: wr_bytes_def)

lemma wr_bytes_in: "i < length bs \<Longrightarrow> wr_bytes p bs m (p + i) = bs ! i"
  by (simp add: wr_bytes_def)

lemma rd_bytes_wr_same [buf_simps]: "n = length bs \<Longrightarrow> rd_bytes (wr_bytes p bs m) p n = bs"
  by (rule nth_equalityI) (auto simp: rd_bytes_def wr_bytes_def)

lemma rd_bytes_wr_disj [buf_simps]:
  "q + n \<le> p \<or> p + length bs \<le> q \<Longrightarrow> rd_bytes (wr_bytes p bs m) q n = rd_bytes m q n"
  by (auto simp: rd_bytes_def wr_bytes_def)

lemma rd16_wr16_same [buf_simps]: "rd16 (wr16 p v m) p = v"
  by (simp add: rd16_def wr16_def wr_bytes_def le16_def)

lemma rd32_wr32_same [buf_simps]: "rd32 (wr32 p v m) p = v"
  by (simp add: rd32_def wr32_def wr_bytes_def le32_def)

lemma rd16_wr_bytes [buf_simps]:
  "q + 2 \<le> p \<or> p + length bs \<le> q \<Longrightarrow> rd16 (wr_bytes p bs m) q = rd16 m q"
  by (auto simp: rd16_def wr_bytes_def)

lemma rd32_wr_bytes [buf_simps]:
  "q + 4 \<le> p \<or> p + length bs \<le> q \<Longrightarrow> rd32 (wr_bytes p bs m) q = rd32 m q"
  by (auto simp: rd32_def wr_bytes_def)

lemma rd8_wr8_same [buf_simps]: "wr8 p v m p = v"
  by (simp add: wr8_def wr_bytes_def)

lemma rd8_wr_bytes [buf_simps]: "q < p \<or> p + length bs \<le> q \<Longrightarrow> wr_bytes p bs m q = m q"
  by (rule wr_bytes_out)

lemma rd16_wr8 [buf_simps]: "q + 2 \<le> p \<or> p + 1 \<le> q \<Longrightarrow> rd16 (wr8 p v m) q = rd16 m q"
  unfolding wr8_def by (rule rd16_wr_bytes) simp

lemma rd16_wr16 [buf_simps]: "q + 2 \<le> p \<or> p + 2 \<le> q \<Longrightarrow> rd16 (wr16 p v m) q = rd16 m q"
  unfolding wr16_def by (rule rd16_wr_bytes) simp

lemma rd16_wr32 [buf_simps]: "q + 2 \<le> p \<or> p + 4 \<le> q \<Longrightarrow> rd16 (wr32 p v m) q = rd16 m q"
  unfolding wr32_def by (rule rd16_wr_bytes) simp

lemma rd32_wr8 [buf_simps]: "q + 4 \<le> p \<or> p + 1 \<le> q \<Longrightarrow> rd32 (wr8 p v m) q = rd32 m q"
  unfolding wr8_def by (rule rd32_wr_bytes) simp

lemma rd32_wr16 [buf_simps]: "q + 4 \<le> p \<or> p + 2 \<le> q \<Longrightarrow> rd32 (wr16 p v m) q = rd32 m q"
  unfolding wr16_def by (rule rd32_wr_bytes) simp

lemma rd32_wr32 [buf_simps]: "q + 4 \<le> p \<or> p + 4 \<le> q \<Longrightarrow> rd32 (wr32 p v m) q = rd32 m q"
  unfolding wr32_def by (rule rd32_wr_bytes) simp

lemma rd8_wr8 [buf_simps]: "q < p \<or> p + 1 \<le> q \<Longrightarrow> wr8 p v m q = m q"
  unfolding wr8_def by (rule wr_bytes_out) simp

lemma rd8_wr16 [buf_simps]: "q < p \<or> p + 2 \<le> q \<Longrightarrow> wr16 p v m q = m q"
  unfolding wr16_def by (rule wr_bytes_out) simp

lemma rd8_wr32 [buf_simps]: "q < p \<or> p + 4 \<le> q \<Longrightarrow> wr32 p v m q = m q"
  unfolding wr32_def by (rule wr_bytes_out) simp

lemma rd_bytes_wr8 [buf_simps]:
  "q + n \<le> p \<or> p + 1 \<le> q \<Longrightarrow> rd_bytes (wr8 p v m) q n = rd_bytes m q n"
  unfolding wr8_def by (rule rd_bytes_wr_disj) simp

lemma rd_bytes_wr16 [buf_simps]:
  "q + n \<le> p \<or> p + 2 \<le> q \<Longrightarrow> rd_bytes (wr16 p v m) q n = rd_bytes m q n"
  unfolding wr16_def by (rule rd_bytes_wr_disj) simp

lemma rd_bytes_wr32 [buf_simps]:
  "q + n \<le> p \<or> p + 4 \<le> q \<Longrightarrow> rd_bytes (wr32 p v m) q n = rd_bytes m q n"
  unfolding wr32_def by (rule rd_bytes_wr_disj) simp

lemma rd_bytes_cong:
  "(\<And>i. p \<le> i \<Longrightarrow> i < p + n \<Longrightarrow> m i = m' i) \<Longrightarrow> rd_bytes m p n = rd_bytes m' p n"
  by (simp add: rd_bytes_def)

section \<open>Operations that may abort\<close>

text \<open>
  \<open>RteExit\<close> is \<open>rte_exit(EXIT_FAILURE, ...)\<close>; the others are accesses for which C gives no
  meaning and on which the process is considered lost: a dereference of \<open>NULL\<close>, a write past
  the data room of an mbuf, a use of a TCP control block as a UDP one, a shift or an index
  by a negative descriptor, and a string function applied to an array without a zero byte. An operation that
  may abort returns \<open>Inl\<close> the fault, or \<open>Inr\<close> its return value and the new state.
\<close>

datatype fault = RteExit string | NullDeref | MbufOverflow | TypeConfusion | BadFd | Unterminated

type_synonym ('a, 's) res = "fault + ('a \<times> 's)"

definition bindE :: "('a, 's) res \<Rightarrow> ('a \<Rightarrow> 's \<Rightarrow> ('b, 's) res) \<Rightarrow> ('b, 's) res" where
  "bindE m k = (case m of Inl e \<Rightarrow> Inl e | Inr (a, s) \<Rightarrow> k a s)"

lemma bindE_simps [simp]:
  "bindE (Inl e) k = Inl e"
  "bindE (Inr (a, s)) k = k a s"
  by (simp_all add: bindE_def)

lemma bindE_Inr_iff:
  "bindE m k = Inr r \<longleftrightarrow> (\<exists>a s. m = Inr (a, s) \<and> k a s = Inr r)"
  by (auto simp: bindE_def split: sum.splits)

lemma bindE_InrE [elim!]:
  assumes "bindE m k = Inr r"
  obtains a s where "m = Inr (a, s)" "k a s = Inr r"
  using assms by (auto simp: bindE_Inr_iff)

section \<open>Words and lists\<close>

lemma unat_and_mask: "unat (x AND (2 ^ k - 1) :: 'a::len word) = unat x mod 2 ^ k"
proof -
  have "x AND (2 ^ k - 1) = take_bit k x"
    by (metis take_bit_eq_mask mask_eq_exp_minus_1)
  then have "unat (x AND (2 ^ k - 1)) = unat (take_bit k x)" by simp
  also have "... = take_bit k (unat x)" by (rule unsigned_take_bit_eq)
  also have "... = unat x mod 2 ^ k" by (simp only: take_bit_eq_mod)
  finally show ?thesis .
qed

lemma unat_add_mod_pow2:
  "k \<le> LENGTH('a) \<Longrightarrow> unat (x + y :: 'a::len word) mod 2 ^ k = (unat x + unat y) mod 2 ^ k"
  by (simp add: unat_word_ariths mod_mod_cancel le_imp_power_dvd)

lemma unat_of_nat_small: "n < 2 ^ LENGTH('a) \<Longrightarrow> unat (of_nat n :: 'a::len word) = n"
  by (simp add: unat_of_nat)

lemma unat_sub_add_le: "unat y \<le> unat (x :: 'a::len word) \<Longrightarrow> unat (x - y) = unat x - unat y"
  by (simp add: unat_sub word_le_nat_alt)

lemma unat_lt2p: "unat (x :: 'a::len word) < 2 ^ LENGTH('a)"
  by (rule unsigned_less)

lemma unat_bounds:
  "unat (a :: u8) \<le> 255" "unat (b :: u16) \<le> 65535" "unat (c :: u32) \<le> 4294967295"
  using unat_lt2p [of a] unat_lt2p [of b] unat_lt2p [of c] by simp_all

lemma unat_ucast_wider:
  "LENGTH('a) \<le> LENGTH('b) \<Longrightarrow> unat (ucast (x :: 'a::len word) :: 'b::len word) = unat x"
  by (simp add: unsigned_ucast_eq take_bit_nat_eq_self order_less_le_trans [OF unat_lt2p])

lemma unat_drop_bit: "unat (drop_bit n x :: 'a::len word) = unat x div 2 ^ n"
  by (subst unsigned_drop_bit_eq) (simp add: drop_bit_eq_div take_bit_nat_eq_self unat_lt2p)

lemma map_nth_append_upt:
  "map (\<lambda>i. (xs @ ys) ! i) [0..<length xs] = xs"
  by (rule nth_equalityI) (auto simp: nth_append)

lemma find_Some_iff2:
  "find P xs = Some x \<Longrightarrow> x \<in> set xs \<and> P x"
  by (auto simp: find_Some_iff)

lemma find_None_iff2: "find P xs = None \<longleftrightarrow> (\<forall>x\<in>set xs. \<not> P x)"
  by (auto simp: find_None_iff)

lemma sint_signed_take_bit: "sint (w :: u32) = signed_take_bit 31 (int (unat w))"
  by (simp add: sint_uint)

lemma sint_small:
  assumes "unat (w :: u32) < 2 ^ 31"
  shows "sint w = int (unat w)"
proof -
  have "signed_take_bit 31 (int n) = int n" if "n < 2 ^ 31" for n
    using that by (simp add: signed_take_bit_int_eq_self_iff)
  then show ?thesis unfolding sint_signed_take_bit using assms by blast
qed

lemma sint_nonneg:
  assumes "0 \<le> sint (w :: u32)"
  shows "sint w = int (unat w)"
proof (rule sint_small, rule ccontr)
  assume "\<not> unat w < 2 ^ 31"
  then have "unat w div 2 ^ 31 = 1" using unsigned_less [of w, where 'a = nat] by (intro div_nat_eqI) simp_all
  moreover have "bit (int n) 31" if "n div 2 ^ 31 = 1" for n
    using that zdiv_int [of n "2 ^ 31"] by (simp add: bit_iff_odd)
  ultimately show False using assms unfolding sint_signed_take_bit signed_take_bit_nonnegative_iff by blast
qed

lemma unat_pow2:
  assumes "k < 32"
  shows "unat (2 ^ k :: u32) = 2 ^ k"
proof -
  have "(2 :: nat) ^ k < 2 ^ LENGTH(32)" using assms by (intro power_strict_increasing) auto
  then have "unat (of_nat (2 ^ k) :: u32) = 2 ^ k" by (rule unat_of_nat_small)
  then show ?thesis by (metis of_nat_numeral of_nat_power)
qed

section \<open>Numbers as text\<close>

text \<open>The conversions \<open>%x\<close> and \<open>%d\<close> of \<open>snprintf\<close>.\<close>

definition show_digit :: "nat \<Rightarrow> char" where
  "show_digit d = char_of (if d < 10 then 48 + d else 87 + d)"

function show_base :: "nat \<Rightarrow> nat \<Rightarrow> string" where
  "show_base b n = (if b \<le> 1 \<or> n < b then [show_digit n] else show_base b (n div b) @ [show_digit (n mod b)])"
  by pat_completeness auto
termination by (relation "measure snd") auto

declare show_base.simps [simp del]

end
