(* ===== verification/Ring_Refine.thy ===== *)
theory Ring_Refine
  imports Ring
begin

text \<open>
  The ring as a bounded FIFO queue: the quiescent-state invariant \<open>ring_wf\<close>, the queue
  \<open>ring_elems\<close> a ring stands for, and what each operation does to it.
\<close>

definition ring_wf :: "'a rte_ring \<Rightarrow> bool" where
  "ring_wf r \<longleftrightarrow>
     (\<exists>k<32. unat (rsize r) = 2 ^ k) \<and> rmask r = rsize r - 1
     \<and> length (rslots r) = unat (rsize r) \<and> unat (rcapacity r) < unat (rsize r)
     \<and> ht_head (rprod r) = ht_tail (rprod r) \<and> ht_head (rcons r) = ht_tail (rcons r)
     \<and> unat (ht_tail (rprod r) - ht_tail (rcons r)) \<le> unat (rcapacity r)"

definition ring_used :: "'a rte_ring \<Rightarrow> nat" where
  "ring_used r = unat (ht_tail (rprod r) - ht_tail (rcons r))"

definition ring_cap :: "'a rte_ring \<Rightarrow> nat" where
  "ring_cap r = unat (rcapacity r)"

definition ring_elems :: "'a rte_ring \<Rightarrow> 'a list" where
  "ring_elems r = map (\<lambda>i. rslots r ! ((unat (ht_tail (rcons r)) + i) mod unat (rsize r)))
     [0..<ring_used r]"

lemma length_ring_elems [simp]: "length (ring_elems r) = ring_used r"
  by (simp add: ring_elems_def)

lemma ring_used_le_cap: "ring_wf r \<Longrightarrow> ring_used r \<le> ring_cap r"
  by (simp add: ring_wf_def ring_used_def ring_cap_def)

section \<open>Copy loops\<close>

lemma length_store_seq [simp]: "length (store_seq idx xs ring) = length ring"
  by (induction idx xs ring rule: store_seq.induct) auto

lemma store_seq_eq:
  "idx + length xs \<le> length ring \<Longrightarrow>
   store_seq idx xs ring = take idx ring @ xs @ drop (idx + length xs) ring"
proof (induction idx xs ring rule: store_seq.induct)
  case (1 idx ring)
  then show ?case by simp
next
  case (2 idx x xs ring)
  then have "store_seq (Suc idx) xs (ring[idx := x])
      = take (Suc idx) (ring[idx := x]) @ xs @ drop (Suc idx + length xs) (ring[idx := x])"
    by simp
  moreover have "take (Suc idx) (ring[idx := x]) = take idx ring @ [x]"
    using 2 by (simp add: take_Suc_conv_app_nth)
  ultimately show ?case by simp
qed

lemma store_unrolled_eq_seq: "store_unrolled idx xs ring = store_seq idx xs ring"
  by (induction idx xs ring rule: store_unrolled.induct) (auto simp: eval_nat_numeral)

lemma load_seq_eq: "load_seq idx n ring = map (\<lambda>i. ring ! (idx + i)) [0..<n]"
proof (induction n arbitrary: idx)
  case 0
  then show ?case by simp
next
  case (Suc n)
  then show ?case by (simp add: upt_conv_Cons map_Suc_upt [symmetric] del: upt_Suc)
qed

lemma load_unrolled_eq_seq: "load_unrolled idx n ring = load_seq idx n ring"
proof (induction n arbitrary: idx rule: less_induct)
  case (less n)
  show ?case
  proof (cases "4 \<le> n")
    case True
    then obtain m where m: "n = m + 4" by (metis add.commute le_Suc_ex)
    have "load_seq idx (m + 4) ring = ring ! idx # ring ! (idx + 1) # ring ! (idx + 2)
        # ring ! (idx + 3) # load_seq (idx + 4) m ring"
      by (simp add: eval_nat_numeral)
    with less.IH[of m "idx + 4"] m show ?thesis
      by (subst load_unrolled.simps) simp
  next
    case False
    then have "n = 0 \<or> n = 1 \<or> n = 2 \<or> n = 3" by auto
    then show ?thesis by (subst load_unrolled.simps) (auto simp: eval_nat_numeral)
  qed
qed

section \<open>Slots\<close>

lemma ring_wf_size:
  assumes "ring_wf r"
  obtains k where "k < 32" "unat (rsize r) = 2 ^ k" "rmask r = 2 ^ k - 1" "0 < unat (rsize r)"
    "unat (rsize r) \<le> 2 ^ 31"
proof -
  obtain k where k: "k < 32" "unat (rsize r) = 2 ^ k"
    using assms by (auto simp: ring_wf_def)
  have "rsize r = 2 ^ k"
    by (metis k(2) of_nat_numeral of_nat_power of_nat_unat ucast_id)
  then have "rmask r = 2 ^ k - 1" using assms by (simp add: ring_wf_def)
  moreover have "(2::nat) ^ k \<le> 2 ^ 31" using k by (intro power_increasing) auto
  ultimately show thesis using k that by simp
qed

lemma slot_index:
  assumes "ring_wf r"
  shows "unat (h AND rmask r) = unat h mod unat (rsize r)"
  using assms by (elim ring_wf_size) (simp add: unat_and_mask)

lemma unat_add_mod_size:
  assumes "ring_wf r"
  shows "unat (a + b :: u32) mod unat (rsize r) = (unat a + unat b) mod unat (rsize r)"
  using assms by (elim ring_wf_size) (simp add: unat_add_mod_pow2)

lemma mod_add_inj:
  fixes a i j s :: nat
  assumes "(a + i) mod s = (a + j) mod s" "i < s" "j < s"
  shows "i = j"
proof (rule ccontr)
  have False if "x < y" "y < s" "(a + x) mod s = (a + y) mod s" for x y
  proof -
    have "s dvd y - x" using that mod_eq_dvd_iff_nat[of "a + x" "a + y" s] by simp
    then show False using that by (auto dest: dvd_imp_le)
  qed
  moreover assume "i \<noteq> j"
  ultimately show False using assms by (metis linorder_neqE_nat)
qed


lemma mod_add_split:
  fixes p i s :: nat
  assumes "p < s" "i < s"
  shows "(p + i) mod s = (if p + i < s then p + i else p + i - s)"
  using assms by (simp add: mod_if)

section \<open>What the copy loops store and load\<close>

text \<open>Storing \<open>xs\<close> at position \<open>p\<close> of the slots, wrapping at their end.\<close>

definition wrap_store :: "nat \<Rightarrow> 'a list \<Rightarrow> 'a list \<Rightarrow> 'a list" where
  "wrap_store p xs slots =
    (let k = length slots - p in
     if p + length xs < length slots then take p slots @ xs @ drop (p + length xs) slots
     else drop k xs @ drop (length xs - k) (take p slots @ take k xs))"

lemma length_wrap_store:
  "p < length slots \<Longrightarrow> length xs \<le> length slots \<Longrightarrow> length (wrap_store p xs slots) = length slots"
  by (auto simp: wrap_store_def Let_def)

lemma wrap_store_new:
  assumes "p < length slots" "length xs \<le> length slots" "i < length xs"
  shows "wrap_store p xs slots ! ((p + i) mod length slots) = xs ! i"
proof -
  have "(p + i) mod length slots = (if p + i < length slots then p + i else p + i - length slots)"
    using assms by (intro mod_add_split) auto
  then show ?thesis using assms by (auto simp: wrap_store_def Let_def nth_append)
qed

lemma wrap_store_old:
  assumes "p < length slots" "length xs \<le> length slots" "j < length slots"
    "\<And>i. i < length xs \<Longrightarrow> j \<noteq> (p + i) mod length slots"
  shows "wrap_store p xs slots ! j = slots ! j"
proof -
  have n: "j \<noteq> (if p + i < length slots then p + i else p + i - length slots)"
    if "i < length xs" for i
    using assms(4)[OF that] mod_add_split[of p "length slots" i] assms that by simp
  have a: "j < p \<or> p + length xs \<le> j"
  proof (rule ccontr)
    assume "\<not> ?thesis"
    then have "p \<le> j" "j - p < length xs" by auto
    then show False using n[of "j - p"] assms(3) by simp
  qed
  have b: "j < p \<and> length xs - (length slots - p) \<le> j" if w: "\<not> p + length xs < length slots"
  proof (rule conjI)
    show j: "j < p" using a w assms(3) by linarith
    show "length xs - (length slots - p) \<le> j"
    proof (rule ccontr)
      assume "\<not> ?thesis"
      then have "j + length slots - p < length xs" using assms(1) by linarith
      then show False using n[of "j + length slots - p"] j assms(1) by simp
    qed
  qed
  show ?thesis
    using assms(1-3) a b by (auto simp: wrap_store_def Let_def nth_append)
qed

lemma fast_path_iff:
  assumes "ring_wf r" "unat n \<le> unat (rsize r)"
  shows "(h AND rmask r) + n < rsize r \<longleftrightarrow> unat h mod unat (rsize r) + unat n < unat (rsize r)"
proof -
  obtain k where k: "0 < unat (rsize r)" "unat (rsize r) \<le> 2 ^ 31"
    using assms(1) by (elim ring_wf_size)
  then have p: "unat h mod unat (rsize r) < unat (rsize r)" by simp
  have "unat ((h AND rmask r) + n) = (unat h mod unat (rsize r) + unat n) mod 2 ^ 32"
    by (simp add: slot_index [OF assms(1)] unat_word_ariths)
  moreover have "unat (rsize r) \<le> 2147483648" using k by simp
  then have "unat h mod unat (rsize r) + unat n < 2 ^ 32"
    using p assms(2) by simp
  ultimately have "unat ((h AND rmask r) + n) = unat h mod unat (rsize r) + unat n"
    by simp
  then show ?thesis by (simp add: word_less_nat_alt)
qed

lemma ENQUEUE_PTRS_eq:
  assumes "ring_wf r" "unat n \<le> unat (rsize r)" "unat n \<le> length objs"
  shows "ENQUEUE_PTRS r h objs n
    = wrap_store (unat h mod unat (rsize r)) (take (unat n) objs) (rslots r)"
proof -
  have s: "0 < unat (rsize r)" "length (rslots r) = unat (rsize r)"
    using assms by (auto simp: ring_wf_def)
  then have p: "unat h mod unat (rsize r) < unat (rsize r)" by simp
  show ?thesis
    using assms s p
    by (simp add: ENQUEUE_PTRS_def wrap_store_def Let_def fast_path_iff slot_index
        store_unrolled_eq_seq store_seq_eq min_absorb2)
qed

lemma DEQUEUE_PTRS_eq:
  assumes "ring_wf r" "unat n \<le> unat (rsize r)"
  shows "DEQUEUE_PTRS r h n = map (\<lambda>i. rslots r ! ((unat h + i) mod unat (rsize r))) [0..<unat n]"
proof -
  define s where "s = unat (rsize r)"
  define p where "p = unat h mod s"
  have p: "p < s" using assms by (auto simp: ring_wf_def s_def p_def)
  have n: "unat n \<le> s" using assms by (simp add: s_def)
  have m: "(unat h + i) mod s = (if p + i < s then p + i else p + i - s)" if "i < unat n" for i
  proof -
    have "(unat h + i) mod s = (p + i) mod s" by (simp add: p_def mod_add_left_eq)
    then show ?thesis using that p n by (simp add: mod_add_split)
  qed
  have eq: "DEQUEUE_PTRS r h n = (if p + unat n < s
      then map (\<lambda>i. rslots r ! (p + i)) [0..<unat n]
      else map (\<lambda>i. rslots r ! (p + i)) [0..<s - p] @ map (\<lambda>i. rslots r ! i) [0..<unat n - (s - p)])"
    using assms by (simp add: DEQUEUE_PTRS_def Let_def fast_path_iff slot_index p_def s_def
        load_unrolled_eq_seq load_seq_eq)
  have len: "length (DEQUEUE_PTRS r h n) = unat n"
    using n p by (auto simp: eq)
  show ?thesis
  proof (rule nth_equalityI)
    fix i assume "i < length (DEQUEUE_PTRS r h n)"
    then have i: "i < unat n" by (simp add: len)
    then show "DEQUEUE_PTRS r h n ! i
        = map (\<lambda>i. rslots r ! ((unat h + i) mod unat (rsize r))) [0..<unat n] ! i"
      using p n by (auto simp: eq nth_append m s_def [symmetric] intro!: arg_cong [where f = "(!) (rslots r)"])
  qed (simp add: len)
qed

section \<open>Moving the heads\<close>

lemma move_prod_head_eq: "move_prod_head r is_sp n b = move_prod_head_iter is_sp n b r"
proof -
  have "fst (move_prod_head_iter is_sp n b r)"
    by (auto simp: move_prod_head_iter_def Let_def rte_atomic32_cmpset_def)
  then show ?thesis
    unfolding move_prod_head_def by (subst while_unfold) (auto simp: case_prod_beta)
qed

lemma move_cons_head_eq: "move_cons_head r is_sc n b = move_cons_head_iter is_sc n b r"
proof -
  have "fst (move_cons_head_iter is_sc n b r)"
    by (auto simp: move_cons_head_iter_def Let_def rte_atomic32_cmpset_def)
  then show ?thesis
    unfolding move_cons_head_def by (subst while_unfold) (auto simp: case_prod_beta)
qed

lemma update_tail_eq [simp]: "ht_tail ht = old \<Longrightarrow> update_tail ht old new single = ht\<lparr>ht_tail := new\<rparr>"
  by (simp add: update_tail_def while_unfold)

lemma free_entries_eq:
  assumes "ring_wf r"
  shows "unat (rcapacity r + ht_tail (rcons r) - ht_head (rprod r)) = ring_cap r - ring_used r"
proof -
  have "rcapacity r + ht_tail (rcons r) - ht_head (rprod r)
      = rcapacity r - (ht_tail (rprod r) - ht_tail (rcons r))"
    using assms by (simp add: ring_wf_def)
  moreover have "unat (rcapacity r - (ht_tail (rprod r) - ht_tail (rcons r)))
      = ring_cap r - ring_used r"
    using assms by (simp add: ring_wf_def ring_cap_def ring_used_def unat_sub_add_le)
  ultimately show ?thesis by metis
qed

section \<open>Enqueue and dequeue on the queue\<close>

lemma cons_side_entries:
  assumes "ring_wf r"
  shows "unat (ht_tail (rprod r) - ht_head (rcons r)) = ring_used r"
  using assms by (simp add: ring_wf_def ring_used_def)

text \<open>How many of \<open>n\<close> objects an operation moves, when \<open>avail\<close> are possible.\<close>

definition moved :: "rte_ring_queue_behavior \<Rightarrow> nat \<Rightarrow> nat \<Rightarrow> nat" where
  "moved b n avail = (if n \<le> avail then n else if b = RTE_RING_QUEUE_FIXED then 0 else avail)"

lemma moved_le: "moved b n avail \<le> n" "moved b n avail \<le> avail"
  by (auto simp: moved_def)

definition ring_push :: "'a rte_ring \<Rightarrow> 'a list \<Rightarrow> u32 \<Rightarrow> 'a rte_ring" where
  "ring_push r objs n =
     r\<lparr>rslots := wrap_store (unat (ht_tail (rprod r)) mod unat (rsize r)) (take (unat n) objs) (rslots r),
       rprod := (rprod r)\<lparr>ht_head := ht_tail (rprod r) + n, ht_tail := ht_tail (rprod r) + n\<rparr>\<rparr>"

definition ring_pop :: "'a rte_ring \<Rightarrow> u32 \<Rightarrow> 'a rte_ring" where
  "ring_pop r n =
     r\<lparr>rcons := (rcons r)\<lparr>ht_head := ht_tail (rcons r) + n, ht_tail := ht_tail (rcons r) + n\<rparr>\<rparr>"

lemma ring_cap_less: "ring_wf r \<Longrightarrow> ring_cap r < 2 ^ 31"
proof -
  assume wf: "ring_wf r"
  then have "unat (rsize r) \<le> 2 ^ 31" by (elim ring_wf_size)
  moreover have "ring_cap r < unat (rsize r)" using wf by (simp add: ring_wf_def ring_cap_def)
  ultimately show ?thesis by linarith
qed

lemma ring_push_wf:
  assumes wf: "ring_wf r" and n: "unat n \<le> ring_cap r - ring_used r" "unat n \<le> length objs"
  shows "ring_wf (ring_push r objs n)" "ring_used (ring_push r objs n) = ring_used r + unat n"
    "ring_cap (ring_push r objs n) = ring_cap r"
    "ring_elems (ring_push r objs n) = ring_elems r @ take (unat n) objs"
proof -
  let ?s = "unat (rsize r)" let ?c = "unat (ht_tail (rcons r))"
  have le: "ring_used r + unat n \<le> ring_cap r" using n ring_used_le_cap [OF wf] by simp
  have cs: "ring_cap r < ?s" "length (rslots r) = ?s" "0 < ?s"
    using wf by (auto simp: ring_wf_def ring_cap_def)
  have used: "unat (ht_tail (rprod r) + n - ht_tail (rcons r)) = ring_used r + unat n"
  proof -
    have "ht_tail (rprod r) + n - ht_tail (rcons r) = (ht_tail (rprod r) - ht_tail (rcons r)) + n"
      by simp
    moreover have "unat ((ht_tail (rprod r) - ht_tail (rcons r)) + n) = ring_used r + unat n"
      using le ring_cap_less [OF wf] by (simp add: unat_word_ariths ring_used_def)
    ultimately show ?thesis by metis
  qed
  have len: "length (wrap_store (unat (ht_tail (rprod r)) mod ?s) (take (unat n) objs) (rslots r)) = ?s"
    using cs le n by (subst length_wrap_store) auto
  show u: "ring_used (ring_push r objs n) = ring_used r + unat n"
    by (simp add: ring_used_def ring_push_def used)
  show c: "ring_cap (ring_push r objs n) = ring_cap r"
    by (simp add: ring_cap_def ring_push_def)
  show "ring_wf (ring_push r objs n)"
    using wf le len by (auto simp: ring_wf_def ring_push_def used ring_cap_def)
  show "ring_elems (ring_push r objs n) = ring_elems r @ take (unat n) objs"
  proof (rule nth_equalityI)
    show "length (ring_elems (ring_push r objs n)) = length (ring_elems r @ take (unat n) objs)"
      using n by (simp add: u)
  next
    fix i assume "i < length (ring_elems (ring_push r objs n))"
    then have i: "i < ring_used r + unat n" by (simp add: u)
    have pt: "unat (ht_tail (rprod r)) mod ?s = (?c + ring_used r) mod ?s"
    proof -
      have "ht_tail (rprod r) = ht_tail (rcons r) + (ht_tail (rprod r) - ht_tail (rcons r))" by simp
      then show ?thesis
        using unat_add_mod_size [OF wf, of "ht_tail (rcons r)" "ht_tail (rprod r) - ht_tail (rcons r)"]
        by (simp add: ring_used_def)
    qed
    have slot: "(unat (ht_tail (rprod r)) mod ?s + j) mod ?s = (?c + (ring_used r + j)) mod ?s" for j
      by (simp add: pt mod_add_left_eq add.assoc)
    have el: "ring_elems (ring_push r objs n) ! i
        = wrap_store (unat (ht_tail (rprod r)) mod ?s) (take (unat n) objs) (rslots r) ! ((?c + i) mod ?s)"
      using i u by (simp add: ring_elems_def) (simp add: ring_push_def)
    show "ring_elems (ring_push r objs n) ! i = (ring_elems r @ take (unat n) objs) ! i"
    proof (cases "i < ring_used r")
      case True
      have "(?c + i) mod ?s \<noteq> (?c + (ring_used r + j)) mod ?s" if "j < unat n" for j
        using mod_add_inj [of ?c i ?s "ring_used r + j"] True that le cs by auto
      then have "ring_elems (ring_push r objs n) ! i = rslots r ! ((?c + i) mod ?s)"
        using cs le n unfolding el
        by (subst wrap_store_old) (auto simp: slot)
      then show ?thesis using True by (simp add: ring_elems_def nth_append)
    next
      case False
      then obtain j where j: "i = ring_used r + j" "j < unat n"
        using i by (metis add_less_cancel_left le_Suc_ex not_less)
      have "(?c + i) mod ?s = (unat (ht_tail (rprod r)) mod ?s + j) mod ?s"
        by (simp add: slot j(1))
      with el have "ring_elems (ring_push r objs n) ! i = take (unat n) objs ! j"
        using cs le n j wrap_store_new [of "unat (ht_tail (rprod r)) mod ?s" "rslots r" "take (unat n) objs" j]
        by simp
      then show ?thesis using j by (simp add: nth_append)
    qed
  qed
qed

lemma ring_pop_wf:
  assumes wf: "ring_wf r" and n: "unat n \<le> ring_used r"
  shows "ring_wf (ring_pop r n)" "ring_used (ring_pop r n) = ring_used r - unat n"
    "ring_cap (ring_pop r n) = ring_cap r"
    "ring_elems (ring_pop r n) = drop (unat n) (ring_elems r)"
proof -
  let ?s = "unat (rsize r)" let ?c = "unat (ht_tail (rcons r))"
  have used: "unat (ht_tail (rprod r) - (ht_tail (rcons r) + n)) = ring_used r - unat n"
  proof -
    have "ht_tail (rprod r) - (ht_tail (rcons r) + n) = (ht_tail (rprod r) - ht_tail (rcons r)) - n"
      by simp
    moreover have "unat ((ht_tail (rprod r) - ht_tail (rcons r)) - n) = ring_used r - unat n"
      using n by (simp add: unat_sub_add_le ring_used_def)
    ultimately show ?thesis by metis
  qed
  show u: "ring_used (ring_pop r n) = ring_used r - unat n"
    by (simp add: ring_used_def ring_pop_def used)
  show "ring_cap (ring_pop r n) = ring_cap r"
    by (simp add: ring_cap_def ring_pop_def)
  show "ring_wf (ring_pop r n)"
    using wf ring_used_le_cap [OF wf] by (simp add: ring_wf_def ring_pop_def used ring_cap_def)
  have slot: "(unat (ht_tail (rcons r) + n) + i) mod ?s = (?c + (unat n + i)) mod ?s" for i
  proof -
    have "(unat (ht_tail (rcons r) + n) + i) mod ?s = (unat (ht_tail (rcons r) + n) mod ?s + i) mod ?s"
      by (simp only: mod_add_left_eq)
    also have "\<dots> = ((?c + unat n) mod ?s + i) mod ?s"
      by (simp only: unat_add_mod_size [OF wf])
    finally show ?thesis by (simp only: mod_add_left_eq add.assoc)
  qed
  show "ring_elems (ring_pop r n) = drop (unat n) (ring_elems r)"
    by (rule nth_equalityI)
       (use n in \<open>auto simp: u ring_elems_def\<close>, simp add: ring_pop_def slot)
qed

lemma do_enqueue_eq:
  fixes r :: "'a rte_ring" and b :: rte_ring_queue_behavior
  assumes wf: "ring_wf r" and len: "length objs < 2 ^ 32"
  defines "k \<equiv> moved b (length objs) (ring_cap r - ring_used r)"
  shows "do_enqueue r objs b is_sp =
    (of_nat k, of_nat (ring_cap r - ring_used r - k),
     if k = 0 then r else ring_push r objs (of_nat k))"
proof -
  define fe where "fe = rcapacity r + ht_tail (rcons r) - ht_head (rprod r)"
  have fe: "unat fe = ring_cap r - ring_used r"
    using free_entries_eq [OF wf] by (simp add: fe_def)
  have fe': "fe = of_nat (ring_cap r - ring_used r)"
    by (metis fe of_nat_unat ucast_id)
  have gt: "of_nat (length objs) > fe \<longleftrightarrow> ring_cap r - ring_used r < length objs"
    using len fe by (simp add: word_less_nat_alt unat_of_nat_small)
  have kl: "k \<le> length objs" "k \<le> ring_cap r - ring_used r"
    by (simp_all add: k_def moved_le)
  have k32: "k < 2 ^ 32" "k \<le> unat (rsize r)" "unat (of_nat k :: u32) = k"
    using kl len ring_cap_less [OF wf] wf
    by (auto simp: ring_wf_def ring_cap_def unat_of_nat_small)
  have z: "(of_nat k :: u32) = 0 \<longleftrightarrow> k = 0"
    using k32(3) by (auto simp del: of_nat_0 simp: unat_eq_zero [symmetric])
  have n: "(if of_nat (length objs) > fe then if b = RTE_RING_QUEUE_FIXED then 0 else fe
            else of_nat (length objs)) = (of_nat k :: u32)"
    unfolding gt by (auto simp: k_def moved_def fe')
  have sub: "fe - of_nat k = of_nat (ring_cap r - ring_used r - k)"
    by (simp only: fe' of_nat_diff [OF kl(2)])
  have heads: "ht_head (rprod r) = ht_tail (rprod r)" using wf by (simp add: ring_wf_def)
  have store: "ENQUEUE_PTRS (r\<lparr>rprod := h\<rparr>) (ht_tail (rprod r)) objs (of_nat k)
    = wrap_store (unat (ht_tail (rprod r)) mod unat (rsize r)) (take k objs) (rslots r)" for h
  proof -
    have "ENQUEUE_PTRS (r\<lparr>rprod := h\<rparr>) (ht_tail (rprod r)) objs (of_nat k)
        = ENQUEUE_PTRS r (ht_tail (rprod r)) objs (of_nat k)"
      by (simp add: ENQUEUE_PTRS_def Let_def)
    then show ?thesis using wf k32 kl by (simp add: ENQUEUE_PTRS_eq)
  qed
  have iter: "move_prod_head_iter is_sp (of_nat (length objs)) b r =
    (True, of_nat k, ht_tail (rprod r), ht_tail (rprod r) + of_nat k, fe,
     if k = 0 then r else r\<lparr>rprod := (rprod r)\<lparr>ht_head := ht_tail (rprod r) + of_nat k\<rparr>\<rparr>)"
    unfolding move_prod_head_iter_def Let_def fe_def [symmetric] n
    by (simp add: z heads rte_atomic32_cmpset_def)
  show ?thesis
    unfolding do_enqueue_def move_prod_head_eq iter
    by (simp add: Let_def z sub store k32 ring_push_def) (simp add: fe')
qed

lemma do_dequeue_eq:
  fixes r :: "'a rte_ring" and b :: rte_ring_queue_behavior and n :: u32
  assumes wf: "ring_wf r"
  defines "k \<equiv> moved b (unat n) (ring_used r)"
  shows "do_dequeue r n b is_sc =
    (take k (ring_elems r), of_nat (ring_used r - k), if k = 0 then r else ring_pop r (of_nat k))"
proof -
  define en where "en = ht_tail (rprod r) - ht_head (rcons r)"
  have en: "unat en = ring_used r"
    using cons_side_entries [OF wf] by (simp add: en_def)
  have en': "en = of_nat (ring_used r)"
    by (metis en of_nat_unat ucast_id)
  have gt: "n > en \<longleftrightarrow> ring_used r < unat n"
    using en by (simp add: word_less_nat_alt)
  have kl: "k \<le> unat n" "k \<le> ring_used r"
    by (simp_all add: k_def moved_le)
  have k32: "k < 2 ^ 32" "k \<le> unat (rsize r)" "unat (of_nat k :: u32) = k"
    using kl ring_used_le_cap [OF wf] ring_cap_less [OF wf] wf
    by (auto simp: ring_wf_def ring_cap_def unat_of_nat_small)
  have z: "(of_nat k :: u32) = 0 \<longleftrightarrow> k = 0"
    using k32(3) by (auto simp del: of_nat_0 simp: unat_eq_zero [symmetric])
  have m: "(if n > en then if b = RTE_RING_QUEUE_FIXED then 0 else en else n) = (of_nat k :: u32)"
    unfolding gt by (auto simp: k_def moved_def en')
  have sub: "en - of_nat k = of_nat (ring_used r - k)"
    by (simp only: en' of_nat_diff [OF kl(2)])
  have heads: "ht_head (rcons r) = ht_tail (rcons r)" using wf by (simp add: ring_wf_def)
  have load: "DEQUEUE_PTRS (r\<lparr>rcons := h\<rparr>) (ht_tail (rcons r)) (of_nat k) = take k (ring_elems r)" for h
  proof -
    have "DEQUEUE_PTRS (r\<lparr>rcons := h\<rparr>) (ht_tail (rcons r)) (of_nat k)
        = DEQUEUE_PTRS r (ht_tail (rcons r)) (of_nat k)"
      by (simp add: DEQUEUE_PTRS_def Let_def)
    also have "\<dots> = map (\<lambda>i. rslots r ! ((unat (ht_tail (rcons r)) + i) mod unat (rsize r))) [0..<k]"
      using wf k32 by (simp add: DEQUEUE_PTRS_eq)
    also have "\<dots> = take k (ring_elems r)"
      using kl by (simp add: ring_elems_def take_map)
    finally show ?thesis .
  qed
  have iter: "move_cons_head_iter is_sc n b r =
    (True, of_nat k, ht_tail (rcons r), ht_tail (rcons r) + of_nat k, en,
     if k = 0 then r else r\<lparr>rcons := (rcons r)\<lparr>ht_head := ht_tail (rcons r) + of_nat k\<rparr>\<rparr>)"
    unfolding move_cons_head_iter_def Let_def en_def [symmetric] m
    by (simp add: z heads rte_atomic32_cmpset_def)
  show ?thesis
    unfolding do_dequeue_def move_cons_head_eq iter
    by (simp add: Let_def z sub load k32 ring_pop_def) (simp add: en')
qed

end
