(* ===== verification/Queue.thy ===== *)
theory Queue
  imports Prelude
begin

text \<open>
  The interface of the bounded queues the stack is built on, as a locale: the ring of
  \<open>librte_ring\<close> and the shared-memory FIFO of \<open>librte_kni\<close> both provide it (the interpretations
  are in \<open>Ring_Queue\<close> and \<open>Kni_Fifo\<close>).  Its client lemma is the FIFO law of a whole run of puts
  and gets.
\<close>

datatype 'a qop = Put "'a list" | Get nat

text \<open>Running a list of operations: what was accepted, what was delivered, and the queue.\<close>

fun qrun :: "('q \<Rightarrow> 'a list \<Rightarrow> nat \<times> 'q) \<Rightarrow> ('q \<Rightarrow> nat \<Rightarrow> 'a list \<times> 'q) \<Rightarrow> 'a qop list \<Rightarrow> 'q
    \<Rightarrow> 'a list \<times> 'a list \<times> 'q" where
  "qrun put get [] q = ([], [], q)"
| "qrun put get (Put xs # ops) q =
    (let (n, q) = put q xs; (acc, del, q) = qrun put get ops q in (take n xs @ acc, del, q))"
| "qrun put get (Get n # ops) q =
    (let (ys, q) = get q n; (acc, del, q) = qrun put get ops q in (acc, ys @ del, q))"

fun qop_size :: "'a qop \<Rightarrow> nat" where
  "qop_size (Put xs) = length xs"
| "qop_size (Get n) = n"

locale bounded_queue =
  fixes put :: "'q \<Rightarrow> 'a list \<Rightarrow> nat \<times> 'q"
    and get :: "'q \<Rightarrow> nat \<Rightarrow> 'a list \<times> 'q"
    and elems :: "'q \<Rightarrow> 'a list"
    and cap :: "'q \<Rightarrow> nat"
    and inv :: "'q \<Rightarrow> bool"
    and lim :: nat
  assumes bounded: "inv q \<Longrightarrow> length (elems q) \<le> cap q"
    and put_law: "inv q \<Longrightarrow> length xs < lim \<Longrightarrow> put q xs = (n, q') \<Longrightarrow>
      n \<le> length xs \<and> elems q' = elems q @ take n xs \<and> inv q' \<and> cap q' = cap q"
    and put_room: "inv q \<Longrightarrow> length xs < lim \<Longrightarrow> put q xs = (n, q') \<Longrightarrow>
      length (elems q) + length xs \<le> cap q \<Longrightarrow> n = length xs"
    and get_law: "inv q \<Longrightarrow> n < lim \<Longrightarrow> get q n = (ys, q') \<Longrightarrow>
      length ys \<le> n \<and> elems q = ys @ elems q' \<and> inv q' \<and> cap q' = cap q"
    and get_avail: "inv q \<Longrightarrow> n < lim \<Longrightarrow> get q n = (ys, q') \<Longrightarrow>
      n \<le> length (elems q) \<Longrightarrow> length ys = n"
begin

lemma fifo_run:
  "inv q \<Longrightarrow> (\<And>op. op \<in> set ops \<Longrightarrow> qop_size op < lim) \<Longrightarrow> qrun put get ops q = (acc, del, q') \<Longrightarrow>
   elems q @ acc = del @ elems q' \<and> inv q' \<and> cap q' = cap q"
proof (induction ops arbitrary: q acc del)
  case Nil
  then show ?case by simp
next
  case (Cons op ops)
  show ?case
  proof (cases op)
    case (Put xs)
    obtain n q1 where p: "put q xs = (n, q1)" by fastforce
    obtain acc1 del1 where r: "qrun put get ops q1 = (acc1, del1, q')"
      using Cons.prems(3) Put p by (auto split: prod.splits)
    have l: "elems q1 = elems q @ take n xs" "inv q1" "cap q1 = cap q"
      using put_law [OF Cons.prems(1) _ p] Cons.prems(2) [of op] Put by auto
    have "elems q1 @ acc1 = del1 @ elems q' \<and> inv q' \<and> cap q' = cap q1"
      using l(2) Cons.prems(2) r by (intro Cons.IH) auto
    then show ?thesis using l Cons.prems(3) Put p r by auto
  next
    case (Get n)
    obtain ys q1 where p: "get q n = (ys, q1)" by fastforce
    obtain acc1 del1 where r: "qrun put get ops q1 = (acc1, del1, q')"
      using Cons.prems(3) Get p by (auto split: prod.splits)
    have l: "elems q = ys @ elems q1" "inv q1" "cap q1 = cap q"
      using get_law [OF Cons.prems(1) _ p] Cons.prems(2) [of op] Get by auto
    have "elems q1 @ acc1 = del1 @ elems q' \<and> inv q' \<and> cap q' = cap q1"
      using l(2) Cons.prems(2) r by (intro Cons.IH) auto
    then show ?thesis using l Cons.prems(3) Get p r by auto
  qed
qed

lemma put_get_one:
  assumes "inv q" "elems q = []" "1 < lim" "1 \<le> cap q"
    and p: "put q [x] = (n, q1)" and g: "get q1 1 = (ys, q2)"
  shows "ys = [x] \<and> elems q2 = []"
proof -
  have n: "n = 1" using put_room [OF assms(1) _ p] assms by simp
  have q1: "elems q1 = [x]" "inv q1" using put_law [OF assms(1) _ p] n assms by auto
  have "length ys = 1" using get_avail [OF q1(2) _ g] q1 assms by simp
  moreover have "[x] = ys @ elems q2" using get_law [OF q1(2) _ g] q1 assms by auto
  ultimately show ?thesis by (cases ys) auto
qed

end

text \<open>A queue whose puts and gets move as much as they can.\<close>

locale burst_queue = bounded_queue put get elems cap inv lim
  for put :: "'q \<Rightarrow> 'a list \<Rightarrow> nat \<times> 'q" and get elems cap inv lim +
  assumes put_burst: "inv q \<Longrightarrow> length xs < lim \<Longrightarrow>
      fst (put q xs) = min (length xs) (cap q - length (elems q))"
    and get_burst: "inv q \<Longrightarrow> n < lim \<Longrightarrow> fst (get q n) = take n (elems q)"
begin

lemma put_burst_eq:
  "inv q \<Longrightarrow> length xs < lim \<Longrightarrow> elems (snd (put q xs)) = elems q @ take (cap q - length (elems q)) xs"
proof -
  assume i: "inv q" "length xs < lim"
  obtain n q' where p: "put q xs = (n, q')" by fastforce
  have "n = min (length xs) (cap q - length (elems q))" using put_burst [OF i] p by simp
  then show ?thesis using put_law [OF i p] p by (simp add: min_def)
qed

lemma get_burst_eq: "inv q \<Longrightarrow> n < lim \<Longrightarrow> elems (snd (get q n)) = drop n (elems q)"
proof -
  assume i: "inv q" "n < lim"
  obtain ys q' where p: "get q n = (ys, q')" by fastforce
  have y: "ys = take n (elems q)" using get_burst [OF i] p by simp
  have "elems q = ys @ elems q'" using get_law [OF i p] by simp
  then have "take n (elems q) @ elems q' = take n (elems q) @ drop n (elems q)"
    using y by (metis append_take_drop_id)
  then show ?thesis using p by (simp only: same_append_eq snd_conv)
qed

end

end
