(* ===== verification/Kni_Fifo.thy ===== *)
theory Kni_Fifo
  imports Ring_Refine Queue
begin

text \<open>
  The single-reader single-writer FIFO shared between the stack and the kernel module
  (\<open>lib/librte_kni/rte_kni_fifo.h\<close>), and its refinement to the queue interface.
\<close>

record 'a rte_kni_fifo =
  f_write :: u32
  f_read :: u32
  f_len :: u32
  f_elem_size :: u32
  f_buffer :: "'a list"

text \<open>\<open>kni_fifo_init\<close> panics (\<open>None\<close>) on a size that is not a power of two.\<close>

definition kni_fifo_init :: "'a list \<Rightarrow> u32 \<Rightarrow> 'a rte_kni_fifo option" where
  "kni_fifo_init buffer sz =
    (if sz AND (sz - 1) \<noteq> 0 then None
     else Some \<lparr>f_write = 0, f_read = 0, f_len = sz, f_elem_size = 8, f_buffer = buffer\<rparr>)"

fun kni_fifo_put_loop :: "u32 \<Rightarrow> u32 \<Rightarrow> 'a list \<Rightarrow> u32 \<Rightarrow> 'a list \<Rightarrow> nat \<Rightarrow> nat \<times> u32 \<times> 'a list" where
  "kni_fifo_put_loop len fifo_read [] fifo_write buffer i = (i, fifo_write, buffer)"
| "kni_fifo_put_loop len fifo_read (d # data) fifo_write buffer i =
    (let new_write = (fifo_write + 1) AND (len - 1)
     in if new_write = fifo_read then (i, fifo_write, buffer)
        else kni_fifo_put_loop len fifo_read data new_write (buffer[unat fifo_write := d]) (Suc i))"

definition kni_fifo_put :: "'a rte_kni_fifo \<Rightarrow> 'a list \<Rightarrow> nat \<times> 'a rte_kni_fifo" where
  "kni_fifo_put fifo data =
    (case kni_fifo_put_loop (f_len fifo) (f_read fifo) data (f_write fifo) (f_buffer fifo) 0 of
       (i, fifo_write, buffer) \<Rightarrow> (i, fifo\<lparr>f_buffer := buffer, f_write := fifo_write\<rparr>))"

fun kni_fifo_get_loop :: "u32 \<Rightarrow> u32 \<Rightarrow> 'a list \<Rightarrow> nat \<Rightarrow> u32 \<Rightarrow> 'a list \<times> u32" where
  "kni_fifo_get_loop len fifo_write buffer 0 new_read = ([], new_read)"
| "kni_fifo_get_loop len fifo_write buffer (Suc n) new_read =
    (if new_read = fifo_write then ([], new_read)
     else case kni_fifo_get_loop len fifo_write buffer n ((new_read + 1) AND (len - 1)) of
       (xs, r) \<Rightarrow> (buffer ! unat new_read # xs, r))"

definition kni_fifo_get :: "'a rte_kni_fifo \<Rightarrow> nat \<Rightarrow> 'a list \<times> 'a rte_kni_fifo" where
  "kni_fifo_get fifo num =
    (case kni_fifo_get_loop (f_len fifo) (f_write fifo) (f_buffer fifo) num (f_read fifo) of
       (xs, new_read) \<Rightarrow> (xs, fifo\<lparr>f_read := new_read\<rparr>))"

definition kni_fifo_count :: "'a rte_kni_fifo \<Rightarrow> u32" where
  "kni_fifo_count fifo = (f_len fifo + f_write fifo - f_read fifo) AND (f_len fifo - 1)"

definition kni_fifo_free_count :: "'a rte_kni_fifo \<Rightarrow> u32" where
  "kni_fifo_free_count fifo = (f_read fifo - f_write fifo - 1) AND (f_len fifo - 1)"

section \<open>Invariant and queue view\<close>

definition fifo_wf :: "'a rte_kni_fifo \<Rightarrow> bool" where
  "fifo_wf f \<longleftrightarrow> (\<exists>k<32. f_len f = 2 ^ k) \<and> f_write f < f_len f \<and> f_read f < f_len f
     \<and> unat (f_len f) \<le> length (f_buffer f)"

definition span :: "nat \<Rightarrow> nat \<Rightarrow> nat \<Rightarrow> nat" where
  "span s w r = (if r \<le> w then w - r else w + s - r)"

definition slice :: "'a list \<Rightarrow> nat \<Rightarrow> nat \<Rightarrow> nat \<Rightarrow> 'a list" where
  "slice buffer s w r = map (\<lambda>i. buffer ! ((r + i) mod s)) [0..<span s w r]"

definition fifo_elems :: "'a rte_kni_fifo \<Rightarrow> 'a list" where
  "fifo_elems f = slice (f_buffer f) (unat (f_len f)) (unat (f_write f)) (unat (f_read f))"

definition fifo_cap :: "'a rte_kni_fifo \<Rightarrow> nat" where
  "fifo_cap f = unat (f_len f) - 1"

lemma length_slice [simp]: "length (slice b s w r) = span s w r"
  by (simp add: slice_def)

lemma span_less: "w < s \<Longrightarrow> r < s \<Longrightarrow> span s w r < s"
  by (auto simp: span_def)

lemma span_next_write:
  "w < s \<Longrightarrow> r < s \<Longrightarrow> (w + 1) mod s \<noteq> r \<Longrightarrow> span s ((w + 1) mod s) r = Suc (span s w r)"
  by (auto simp: span_def mod_if)

lemma span_full: "w < s \<Longrightarrow> r < s \<Longrightarrow> (w + 1) mod s = r \<longleftrightarrow> span s w r = s - 1"
  by (auto simp: span_def mod_if)

lemma span_next_read:
  "w < s \<Longrightarrow> r < s \<Longrightarrow> r \<noteq> w \<Longrightarrow> Suc (span s w ((r + 1) mod s)) = span s w r"
  by (auto simp: span_def mod_if)

lemma span_0_iff: "w < s \<Longrightarrow> r < s \<Longrightarrow> span s w r = 0 \<longleftrightarrow> r = w"
  by (auto simp: span_def)

lemma write_slot: "w < s \<Longrightarrow> r < s \<Longrightarrow> (r + span s w r) mod s = w"
  by (auto simp: span_def)

lemma slice_write:
  assumes "w < s" "r < s" "(w + 1) mod s \<noteq> r" "s \<le> length b"
  shows "slice (b[w := d]) s ((w + 1) mod s) r = slice b s w r @ [d]"
proof (rule nth_equalityI)
  show "length (slice (b[w := d]) s ((w + 1) mod s) r) = length (slice b s w r @ [d])"
    using span_next_write [OF assms(1-3)] by simp
next
  fix i assume "i < length (slice (b[w := d]) s ((w + 1) mod s) r)"
  then have i: "i < Suc (span s w r)" using span_next_write [OF assms(1-3)] by simp
  have el: "slice (b[w := d]) s ((w + 1) mod s) r ! i = b[w := d] ! ((r + i) mod s)"
    using i span_next_write [OF assms(1-3)] unfolding slice_def by (simp del: upt_Suc)
  show "slice (b[w := d]) s ((w + 1) mod s) r ! i = (slice b s w r @ [d]) ! i"
  proof (cases "i = span s w r")
    case True
    then show ?thesis using el assms by (simp add: write_slot nth_append)
  next
    case False
    have "(r + i) mod s \<noteq> w"
      using mod_add_inj [of r i s "span s w r"] False i assms write_slot [of w s r]
        span_less [of w s r] by auto
    then show ?thesis using el False i by (simp add: slice_def nth_append)
  qed
qed

lemma slice_read:
  assumes "w < s" "r < s" "r \<noteq> w"
  shows "slice b s w r = b ! r # slice b s w ((r + 1) mod s)"
proof (rule nth_equalityI)
  show "length (slice b s w r) = length (b ! r # slice b s w ((r + 1) mod s))"
    using span_next_read [OF assms] by simp
next
  fix i assume "i < length (slice b s w r)"
  then have i: "i < span s w r" by simp
  show "slice b s w r ! i = (b ! r # slice b s w ((r + 1) mod s)) ! i"
  proof (cases i)
    case 0
    then show ?thesis using i assms by (simp add: slice_def)
  next
    case (Suc j)
    have "((r + 1) mod s + j) mod s = (r + i) mod s"
      by (simp add: Suc mod_add_left_eq)
    moreover have "j < span s w ((r + 1) mod s)"
      using i Suc span_next_read [OF assms] by simp
    ultimately show ?thesis using i Suc by (simp add: slice_def)
  qed
qed

lemma next_index:
  assumes "k < 32" "x < (2 ^ k :: u32)"
  shows "unat ((x + 1) AND (2 ^ k - 1)) = (unat x + 1) mod 2 ^ k"
  using assms by (simp add: unat_and_mask unat_add_mod_pow2)

lemma put_loop_spec:
  assumes "k < 32" "fw < (2 ^ k :: u32)" "rd < 2 ^ k" "2 ^ k \<le> length b"
    and "kni_fifo_put_loop (2 ^ k) rd data fw b i = (n, fw', b')"
  shows "n = i + min (length data) (2 ^ k - 1 - span (2 ^ k) (unat fw) (unat rd))
    \<and> slice b' (2 ^ k) (unat fw') (unat rd)
        = slice b (2 ^ k) (unat fw) (unat rd) @ take (n - i) data
    \<and> fw' < 2 ^ k \<and> length b' = length b"
  using assms(2,4,5)
proof (induction data arbitrary: fw b i)
  case Nil
  then show ?case by simp
next
  case (Cons d data)
  let ?s = "2 ^ k :: nat" and ?nw = "(fw + 1) AND (2 ^ k - 1)"
  have w: "unat fw < ?s" "unat rd < ?s"
    using Cons.prems(1) assms(1,3) by (simp_all add: word_less_nat_alt unat_pow2)
  have nw: "unat ?nw = (unat fw + 1) mod ?s" by (rule next_index [OF assms(1) Cons.prems(1)])
  have full: "?nw = rd \<longleftrightarrow> span ?s (unat fw) (unat rd) = ?s - 1"
    using span_full [OF w] nw by (metis word_unat_eq_iff)
  have less: "span ?s (unat fw) (unat rd) < ?s" using w by (rule span_less)
  show ?case
  proof (cases "?nw = rd")
    case True
    then show ?thesis using Cons.prems full by (simp add: Let_def)
  next
    case False
    have r: "kni_fifo_put_loop (2 ^ k) rd data ?nw (b[unat fw := d]) (Suc i) = (n, fw', b')"
      using Cons.prems(3) False by (simp add: Let_def)
    have nwl: "?nw < 2 ^ k"
      using nw assms(1) by (simp add: word_less_nat_alt unat_pow2)
    have ne: "(unat fw + 1) mod ?s \<noteq> unat rd" using False nw by (metis word_unat_eq_iff)
    have IH: "n = Suc i + min (length data) (?s - 1 - span ?s (unat ?nw) (unat rd))
      \<and> slice b' ?s (unat fw') (unat rd)
          = slice (b[unat fw := d]) ?s (unat ?nw) (unat rd) @ take (n - Suc i) data
      \<and> fw' < 2 ^ k \<and> length b' = length (b[unat fw := d])"
      using nwl Cons.prems(2) r by (intro Cons.IH) simp_all
    have sp: "span ?s (unat ?nw) (unat rd) = Suc (span ?s (unat fw) (unat rd))"
      unfolding nw using w ne by (rule span_next_write)
    have sl: "slice (b[unat fw := d]) ?s (unat ?nw) (unat rd) = slice b ?s (unat fw) (unat rd) @ [d]"
      unfolding nw using w ne Cons.prems(2) by (rule slice_write)
    have nf: "span ?s (unat fw) (unat rd) < ?s - 1"
      using False full less by linarith
    have cnt: "n = i + min (length (d # data)) (?s - 1 - span ?s (unat fw) (unat rd))"
      using IH sp nf by simp
    then have "n - i = Suc (n - Suc i)" using nf by simp
    then show ?thesis using IH sl cnt by simp
  qed
qed

lemma get_loop_spec:
  assumes "k < 32" "fw < (2 ^ k :: u32)" "rd < 2 ^ k"
    and "kni_fifo_get_loop (2 ^ k) fw b n rd = (xs, rd')"
  shows "xs = take n (slice b (2 ^ k) (unat fw) (unat rd))
    \<and> slice b (2 ^ k) (unat fw) (unat rd) = xs @ slice b (2 ^ k) (unat fw) (unat rd') \<and> rd' < 2 ^ k"
  using assms(3,4)
proof (induction n arbitrary: rd xs)
  case 0
  then show ?case by simp
next
  case (Suc n)
  let ?s = "2 ^ k :: nat" and ?nr = "(rd + 1) AND (2 ^ k - 1)"
  have w: "unat fw < ?s" "unat rd < ?s"
    using Suc.prems(1) assms(1,2) by (simp_all add: word_less_nat_alt unat_pow2)
  show ?case
  proof (cases "rd = fw")
    case True
    then have "slice b ?s (unat fw) (unat rd) = []" by (simp add: slice_def span_def)
    then show ?thesis using Suc.prems True by simp
  next
    case False
    obtain ys where r: "kni_fifo_get_loop (2 ^ k) fw b n ?nr = (ys, rd')" "xs = b ! unat rd # ys"
      using Suc.prems(2) False by (auto split: prod.splits)
    have nr: "unat ?nr = (unat rd + 1) mod ?s" by (rule next_index [OF assms(1) Suc.prems(1)])
    have "?nr < 2 ^ k" using nr assms(1) by (simp add: word_less_nat_alt unat_pow2)
    from Suc.IH [OF this r(1)]
    have IH: "ys = take n (slice b ?s (unat fw) (unat ?nr))"
      "slice b ?s (unat fw) (unat ?nr) = ys @ slice b ?s (unat fw) (unat rd')" "rd' < 2 ^ k"
      by blast+
    have "slice b ?s (unat fw) (unat rd) = b ! unat rd # slice b ?s (unat fw) (unat ?nr)"
      unfolding nr using w False by (intro slice_read) (auto simp: word_unat_eq_iff)
    then show ?thesis using IH r by (metis append_Cons take_Suc_Cons)
  qed
qed

lemma fifo_wfE:
  assumes "fifo_wf f"
  obtains k where "k < 32" "f_len f = 2 ^ k" "unat (f_len f) = 2 ^ k" "f_write f < 2 ^ k"
    "f_read f < 2 ^ k" "2 ^ k \<le> length (f_buffer f)"
    "unat (f_write f) < 2 ^ k" "unat (f_read f) < 2 ^ k"
  using assms by (auto simp: fifo_wf_def unat_pow2 word_less_nat_alt)

lemma kni_fifo_put_law:
  assumes "fifo_wf f" "kni_fifo_put f data = (n, f')"
  shows "n = min (length data) (fifo_cap f - length (fifo_elems f))
    \<and> fifo_elems f' = fifo_elems f @ take n data \<and> fifo_wf f' \<and> fifo_cap f' = fifo_cap f"
proof -
  obtain k where k: "k < 32" "f_len f = 2 ^ k" "unat (f_len f) = 2 ^ k" "f_write f < 2 ^ k"
    "f_read f < 2 ^ k" "2 ^ k \<le> length (f_buffer f)"
    using assms(1) by (elim fifo_wfE)
  obtain fw' b' where r: "kni_fifo_put_loop (2 ^ k) (f_read f) data (f_write f) (f_buffer f) 0 = (n, fw', b')"
    and f': "f' = f\<lparr>f_buffer := b', f_write := fw'\<rparr>"
    using assms(2) k by (auto simp: kni_fifo_put_def split: prod.splits)
  from put_loop_spec [OF k(1,4,5,6) r] show ?thesis
    using k f' by (auto simp: fifo_wf_def fifo_cap_def fifo_elems_def unat_pow2)
qed

lemma kni_fifo_get_law:
  assumes "fifo_wf f" "kni_fifo_get f n = (xs, f')"
  shows "xs = take n (fifo_elems f) \<and> fifo_elems f = xs @ fifo_elems f' \<and> fifo_wf f'
    \<and> fifo_cap f' = fifo_cap f"
proof -
  obtain k where k: "k < 32" "f_len f = 2 ^ k" "unat (f_len f) = 2 ^ k" "f_write f < 2 ^ k"
    "f_read f < 2 ^ k" "2 ^ k \<le> length (f_buffer f)"
    using assms(1) by (elim fifo_wfE)
  obtain rd' where r: "kni_fifo_get_loop (2 ^ k) (f_write f) (f_buffer f) n (f_read f) = (xs, rd')"
    and f': "f' = f\<lparr>f_read := rd'\<rparr>"
    using assms(2) k by (auto simp: kni_fifo_get_def split: prod.splits)
  from get_loop_spec [OF k(1,4,5) r]
  have "xs = take n (slice (f_buffer f) (2 ^ k) (unat (f_write f)) (unat (f_read f)))"
    "slice (f_buffer f) (2 ^ k) (unat (f_write f)) (unat (f_read f))
      = xs @ slice (f_buffer f) (2 ^ k) (unat (f_write f)) (unat rd')" "rd' < 2 ^ k"
    by blast+
  then show ?thesis
    using k f' unfolding fifo_wf_def fifo_cap_def fifo_elems_def by (simp add: unat_pow2) metis
qed

lemma fifo_used_less: "fifo_wf f \<Longrightarrow> length (fifo_elems f) \<le> fifo_cap f"
  by (elim fifo_wfE) (use span_less in \<open>fastforce simp: fifo_elems_def fifo_cap_def\<close>)

interpretation kni: burst_queue kni_fifo_put kni_fifo_get fifo_elems fifo_cap fifo_wf "2 ^ 32"
proof (unfold_locales, goal_cases)
  case (1 q)
  then show ?case by (rule fifo_used_less)
next
  case (2 q xs n q')
  from kni_fifo_put_law [OF 2(1,3)] show ?case by simp
next
  case (3 q xs n q')
  from kni_fifo_put_law [OF 3(1,3)] 3(4) show ?case by simp
next
  case (4 q n ys q')
  from kni_fifo_get_law [OF 4(1,3)] have "ys = take n (fifo_elems q)"
    "fifo_elems q = ys @ fifo_elems q'" "fifo_wf q'" "fifo_cap q' = fifo_cap q" by blast+
  then show ?case by (metis length_take min.cobounded2)
next
  case (5 q n ys q')
  from kni_fifo_get_law [OF 5(1,3)] have "ys = take n (fifo_elems q)" by blast
  with 5(4) show ?case by simp
next
  case (6 q xs)
  obtain n q' where e: "kni_fifo_put q xs = (n, q')" by fastforce
  from kni_fifo_put_law [OF 6(1) e] e show ?case by simp
next
  case (7 q n)
  obtain ys q' where e: "kni_fifo_get q n = (ys, q')" by fastforce
  from kni_fifo_get_law [OF 7(1) e] e show ?case by (metis fst_conv)
qed

section \<open>Counts\<close>

lemma free_slots:
  assumes "w < (s :: nat)" "r < s"
  shows "((s - 1 - span s w r) + (w + 1)) mod s = r"
proof (cases "r \<le> w")
  case True
  then have "(s - 1 - span s w r) + (w + 1) = r + s" using assms by (simp add: span_def)
  then show ?thesis using assms by simp
next
  case False
  then have "(s - 1 - span s w r) + (w + 1) = r" using assms by (simp add: span_def)
  then show ?thesis using assms by simp
qed

lemma kni_fifo_free_count_eq:
  assumes "fifo_wf f"
  shows "unat (kni_fifo_free_count f) = fifo_cap f - length (fifo_elems f)"
proof -
  obtain k where k: "k < 32" "f_len f = 2 ^ k" "unat (f_len f) = 2 ^ k"
    "unat (f_write f) < 2 ^ k" "unat (f_read f) < 2 ^ k"
    using assms by (elim fifo_wfE)
  let ?x = "f_read f - f_write f - 1" and ?s = "2 ^ k :: nat"
  have "(?x + f_write f + 1) = f_read f" by simp
  then have "(unat ?x + (unat (f_write f) + 1)) mod ?s = unat (f_read f)"
    using k unat_add_mod_pow2 [of k ?x "f_write f + 1"] unat_add_mod_pow2 [of k "f_write f" 1]
    by (simp add: add.assoc) (metis mod_add_right_eq mod_less add_Suc_right)
  moreover have "unat (kni_fifo_free_count f) = unat ?x mod ?s"
    using k by (simp add: kni_fifo_free_count_def unat_and_mask)
  ultimately have *: "(unat (kni_fifo_free_count f) + (unat (f_write f) + 1)) mod ?s = unat (f_read f)"
    "unat (kni_fifo_free_count f) < ?s"
    using mod_add_left_eq [of "unat ?x" ?s "unat (f_write f) + 1"] by simp_all
  have "((?s - 1 - span ?s (unat (f_write f)) (unat (f_read f))) + (unat (f_write f) + 1)) mod ?s
      = unat (f_read f)"
    using k(4,5) by (rule free_slots)
  then have "unat (kni_fifo_free_count f) = ?s - 1 - span ?s (unat (f_write f)) (unat (f_read f))"
    (is "?c = ?d")
  proof -
    assume d: "(?d + (unat (f_write f) + 1)) mod ?s = unat (f_read f)"
    have "((unat (f_write f) + 1) + ?c) mod ?s = ((unat (f_write f) + 1) + ?d) mod ?s"
      using d *(1) by (simp only: add.commute)
    moreover note *(2)
    moreover have "?d < ?s" using *(2) by linarith
    ultimately show "?c = ?d" by (rule mod_add_inj)
  qed
  then show ?thesis by (simp only: fifo_cap_def fifo_elems_def length_slice k(3))
qed

end
