(* ===== verification/Ring_Queue.thy ===== *)
theory Ring_Queue
  imports Ring_Refine Queue
begin

text \<open>
  The ring provides the queue interface, in the burst form (moves what fits) and the bulk form
  (all or nothing), and a ring fresh from \<open>rte_ring_init\<close> is a well-formed empty queue.
\<close>

definition ring_put_burst :: "'a rte_ring \<Rightarrow> 'a list \<Rightarrow> nat \<times> 'a rte_ring" where
  "ring_put_burst r objs = (case rte_ring_mp_enqueue_burst r objs of (n, _, r') \<Rightarrow> (unat n, r'))"

definition ring_get_burst :: "'a rte_ring \<Rightarrow> nat \<Rightarrow> 'a list \<times> 'a rte_ring" where
  "ring_get_burst r n = (case rte_ring_mc_dequeue_burst r (of_nat n) of (xs, _, r') \<Rightarrow> (xs, r'))"

definition ring_put_bulk :: "'a rte_ring \<Rightarrow> 'a list \<Rightarrow> nat \<times> 'a rte_ring" where
  "ring_put_bulk r objs = (case rte_ring_mp_enqueue_bulk r objs of (n, _, r') \<Rightarrow> (unat n, r'))"

definition ring_get_bulk :: "'a rte_ring \<Rightarrow> nat \<Rightarrow> 'a list \<times> 'a rte_ring" where
  "ring_get_bulk r n = (case rte_ring_mc_dequeue_bulk r (of_nat n) of (xs, _, r') \<Rightarrow> (xs, r'))"

section \<open>The operations as functions of the queue\<close>

lemma moved_variable: "moved RTE_RING_QUEUE_VARIABLE n avail = min n avail"
  by (simp add: moved_def)

lemma moved_fixed: "moved RTE_RING_QUEUE_FIXED n avail = (if n \<le> avail then n else 0)"
  by (simp add: moved_def)

lemma unat_of_nat_moved:
  "n < 2 ^ 32 \<Longrightarrow> unat (of_nat (moved b n avail) :: u32) = moved b n avail"
  using moved_le(1) [of b n avail] by (intro unat_of_nat_small) simp

lemma do_enqueue_law:
  assumes wf: "ring_wf r" and len: "length objs < 2 ^ 32"
    and e: "do_enqueue r objs b sp = (n, fr, r')"
  shows "unat n = moved b (length objs) (ring_cap r - ring_used r)
    \<and> ring_elems r' = ring_elems r @ take (unat n) objs \<and> ring_wf r'
    \<and> ring_cap r' = ring_cap r \<and> ring_used r' = ring_used r + unat n"
proof -
  let ?k = "moved b (length objs) (ring_cap r - ring_used r)"
  have k: "unat (of_nat ?k :: u32) = ?k" by (rule unat_of_nat_moved [OF len])
  have le: "?k \<le> ring_cap r - ring_used r" "?k \<le> length objs" by (rule moved_le)+
  have n: "n = of_nat ?k" "r' = (if ?k = 0 then r else ring_push r objs (of_nat ?k))"
    using e do_enqueue_eq [OF wf len, of b sp] by simp_all
  show ?thesis
    using n k le wf ring_push_wf [OF wf, of "of_nat ?k" objs] by (cases "?k = 0") auto
qed

lemma do_dequeue_law:
  assumes wf: "ring_wf r" and e: "do_dequeue r n b sc = (xs, av, r')"
  shows "xs = take (moved b (unat n) (ring_used r)) (ring_elems r)
    \<and> ring_elems r = xs @ ring_elems r' \<and> ring_wf r' \<and> ring_cap r' = ring_cap r
    \<and> length xs = moved b (unat n) (ring_used r)"
proof -
  let ?k = "moved b (unat n) (ring_used r)"
  have k: "unat (of_nat ?k :: u32) = ?k"
    using unsigned_less [of n] by (intro unat_of_nat_moved) simp
  have le: "?k \<le> ring_used r" by (rule moved_le)
  have n: "xs = take ?k (ring_elems r)" "r' = (if ?k = 0 then r else ring_pop r (of_nat ?k))"
    using e do_dequeue_eq [OF wf, of n b sc] by simp_all
  show ?thesis
    using n k le wf ring_pop_wf [OF wf, of "of_nat ?k"] by (cases "?k = 0") auto
qed

lemmas ring_op_defs =
  rte_ring_mp_enqueue_burst_def rte_ring_mp_enqueue_bulk_def rte_ring_mc_dequeue_burst_def
  rte_ring_mc_dequeue_bulk_def ring_put_burst_def ring_get_burst_def ring_put_bulk_def
  ring_get_bulk_def

lemma put_via_do_enqueue:
  assumes "ring_wf q" "length xs < 2 ^ 32"
    and "(case do_enqueue q xs b sp of (n, _, r') \<Rightarrow> (unat n, r')) = (n, q')"
  shows "n = moved b (length xs) (ring_cap q - ring_used q)"
    and "ring_elems q' = ring_elems q @ take n xs" "ring_wf q'" "ring_cap q' = ring_cap q"
proof -
  obtain m fr r' where e: "do_enqueue q xs b sp = (m, fr, r')" by (metis prod_cases3)
  then have "n = unat m" "q' = r'" using assms(3) by auto
  then show "n = moved b (length xs) (ring_cap q - ring_used q)"
    "ring_elems q' = ring_elems q @ take n xs" "ring_wf q'" "ring_cap q' = ring_cap q"
    using do_enqueue_law [OF assms(1,2) e] by simp_all
qed

lemma get_via_do_dequeue:
  assumes "ring_wf q" "n < 2 ^ 32"
    and "(case do_dequeue q (of_nat n) b sc of (ys, _, r') \<Rightarrow> (ys, r')) = (ys, q')"
  shows "ys = take (moved b n (ring_used q)) (ring_elems q)"
    and "length ys = moved b n (ring_used q)"
    and "ring_elems q = ys @ ring_elems q'" "ring_wf q'" "ring_cap q' = ring_cap q"
proof -
  obtain zs av r' where e: "do_dequeue q (of_nat n) b sc = (zs, av, r')" by (metis prod_cases3)
  then have q: "ys = zs" "q' = r'" using assms(3) by auto
  have u: "unat (of_nat n :: u32) = n" using assms(2) by (intro unat_of_nat_small) simp
  show "ys = take (moved b n (ring_used q)) (ring_elems q)" "length ys = moved b n (ring_used q)"
    "ring_elems q = ys @ ring_elems q'" "ring_wf q'" "ring_cap q' = ring_cap q"
    using do_dequeue_law [OF assms(1) e] q u by metis+
qed

lemmas put_bulk_law = put_via_do_enqueue [where b = RTE_RING_QUEUE_FIXED and sp = False,
    folded ring_put_bulk_def [unfolded rte_ring_mp_enqueue_bulk_def]]
lemmas put_burst_law = put_via_do_enqueue [where b = RTE_RING_QUEUE_VARIABLE and sp = False,
    folded ring_put_burst_def [unfolded rte_ring_mp_enqueue_burst_def]]
lemmas get_bulk_law = get_via_do_dequeue [where b = RTE_RING_QUEUE_FIXED and sc = False,
    folded ring_get_bulk_def [unfolded rte_ring_mc_dequeue_bulk_def]]
lemmas get_burst_law = get_via_do_dequeue [where b = RTE_RING_QUEUE_VARIABLE and sc = False,
    folded ring_get_burst_def [unfolded rte_ring_mc_dequeue_burst_def]]

interpretation ring_bulk: bounded_queue ring_put_bulk ring_get_bulk ring_elems ring_cap ring_wf
  "2 ^ 32"
proof (unfold_locales, goal_cases)
  case (1 q)
  then show ?case by (simp add: ring_used_le_cap)
next
  case (2 q xs n q')
  from put_bulk_law [OF this] show ?case by (simp add: moved_le)
next
  case (3 q xs n q')
  from 3(4) have "ring_used q + length xs \<le> ring_cap q" by simp
  then have "length xs \<le> ring_cap q - ring_used q" by arith
  with put_bulk_law(1) [OF 3(1-3)] show ?case by (simp add: moved_def)
next
  case (4 q n ys q')
  from get_bulk_law [OF this] show ?case by (simp add: moved_le)
next
  case (5 q n ys q')
  from get_bulk_law(2) [OF 5(1-3)] 5(4) show ?case by (simp add: moved_def)
qed

interpretation ring_burst: burst_queue ring_put_burst ring_get_burst ring_elems ring_cap ring_wf
  "2 ^ 32"
proof (unfold_locales, goal_cases)
  case (1 q)
  then show ?case by (simp add: ring_used_le_cap)
next
  case (2 q xs n q')
  from put_burst_law [OF this] show ?case by (simp add: moved_le)
next
  case (3 q xs n q')
  from 3(4) have "ring_used q + length xs \<le> ring_cap q" by simp
  then have "length xs \<le> ring_cap q - ring_used q" by arith
  with put_burst_law(1) [OF 3(1-3)] show ?case by (simp add: moved_def)
next
  case (4 q n ys q')
  from get_burst_law [OF this] show ?case by (simp add: moved_le)
next
  case (5 q n ys q')
  from get_burst_law(2) [OF 5(1-3)] 5(4) show ?case by (simp add: moved_def)
next
  case (6 q xs)
  obtain n q' where e: "ring_put_burst q xs = (n, q')" by fastforce
  from put_burst_law(1) [OF 6 e] e show ?case by (simp add: moved_variable)
next
  case (7 q n)
  obtain ys q' where e: "ring_get_burst q n = (ys, q')" by fastforce
  from get_burst_law(1) [OF 7 e] e show ?case by (simp add: moved_variable min_def)
qed

section \<open>Initialisation\<close>

lemma bit_of_top:
  fixes x :: u32
  assumes "2 ^ k \<le> unat x" "unat x < 2 ^ Suc k"
  shows "bit x k"
proof -
  have "unat x div 2 ^ k = 1"
    using assms by (intro div_nat_eqI) auto
  then have "bit (unat x) k" by (simp add: bit_iff_odd)
  then show ?thesis by (simp add: bit_unsigned_iff)
qed

lemma pow2_bracket:
  fixes n :: nat assumes "0 < n" "n < 2 ^ 32"
  obtains k where "k < 32" "2 ^ k \<le> n" "n < 2 ^ Suc k"
proof -
  obtain k where k: "2 ^ k \<le> n" "n < 2 ^ Suc k"
    using ex_power_ivl1 [of 2 n] assms by auto
  have "(2::nat) ^ k < 2 ^ 32" using k assms by linarith
  then have "k < 32" by (rule power_less_imp_less_exp [rotated]) simp
  then show thesis using k that by blast
qed

lemma POWEROF2_pow2:
  assumes "POWEROF2 x" "x \<noteq> 0"
  obtains k where "k < 32" "unat x = 2 ^ k"
proof -
  have pos: "0 < unat x" "unat x < 2 ^ 32"
    using assms(2) unsigned_less [of x] by (auto simp: unat_gt_0)
  obtain k where k: "k < 32" "2 ^ k \<le> unat x" "unat x < 2 ^ Suc k"
    using pow2_bracket [OF pos] .
  have "unat x = 2 ^ k"
  proof (rule ccontr)
    assume "unat x \<noteq> 2 ^ k"
    moreover have "unat (x - 1) = unat x - 1" using pos by (simp add: unat_minus_one assms(2))
    ultimately have "bit (x - 1) k" "bit x k"
      using k by (auto intro!: bit_of_top)
    then have "bit ((x - 1) AND x) k" by (simp add: bit_and_iff)
    then show False using assms(1) by (simp add: POWEROF2_def)
  qed
  then show thesis using k(1) that by blast
qed

text \<open>A ring of a power-of-two size is empty and holds one object less than its size.\<close>

lemma rte_ring_init_pow2:
  assumes "rte_ring_init junk name count flags = (0, r)" "flags AND RING_F_EXACT_SZ = 0" "count \<noteq> 0"
  shows "ring_wf r \<and> ring_elems r = [] \<and> ring_cap r = unat count - 1 \<and> rname r = name"
proof -
  have p: "POWEROF2 count" "length name < RTE_MEMZONE_NAMESIZE"
    using assms(1,2) by (auto simp: rte_ring_init_def Let_def EINVAL_def ENAMETOOLONG_def
        split: if_splits)
  obtain k where k: "k < 32" "unat count = 2 ^ k" by (rule POWEROF2_pow2 [OF p(1) assms(3)])
  have r: "rsize r = count" "rmask r = count - 1" "rcapacity r = count - 1"
    "length (rslots r) = unat count" "ht_head (rprod r) = 0" "ht_tail (rprod r) = 0"
    "ht_head (rcons r) = 0" "ht_tail (rcons r) = 0" "rname r = name"
    using assms(1,2) p by (auto simp: rte_ring_init_def Let_def EINVAL_def ENAMETOOLONG_def
        rte_ring_reset_def RTE_MEMZONE_NAMESIZE_def split: if_splits)
  have c: "unat (count - 1) = unat count - 1" using assms(3) by (simp add: unat_minus_one)
  show ?thesis
    using r k c by (auto simp: ring_wf_def ring_elems_def ring_used_def ring_cap_def)
qed

lemma rte_ring_init_ok:
  "length name < RTE_MEMZONE_NAMESIZE \<Longrightarrow> POWEROF2 count \<Longrightarrow> count \<le> RTE_RING_SZ_MASK \<Longrightarrow>
   flags AND RING_F_EXACT_SZ = 0 \<Longrightarrow> fst (rte_ring_init junk name count flags) = 0"
  by (auto simp: rte_ring_init_def Let_def dest: leD)

section \<open>Queries\<close>

lemma ring_count_eq:
  assumes "ring_wf r"
  shows "unat (rte_ring_count r) = ring_used r"
proof -
  have "unat ((ht_tail (rprod r) - ht_tail (rcons r)) AND rmask r) = ring_used r mod unat (rsize r)"
    by (simp add: slot_index [OF assms] ring_used_def)
  also have "\<dots> = ring_used r"
    using assms ring_used_le_cap [OF assms] by (intro mod_less) (simp add: ring_wf_def ring_cap_def)
  finally show ?thesis
    using ring_used_le_cap [OF assms]
    by (auto simp: rte_ring_count_def Let_def word_less_nat_alt ring_cap_def)
qed

lemma ring_free_count_eq:
  "ring_wf r \<Longrightarrow> unat (rte_ring_free_count r) = ring_cap r - ring_used r"
  using ring_used_le_cap [of r]
  by (simp add: rte_ring_free_count_def ring_cap_def ring_count_eq unat_sub_add_le)

lemma ring_empty_iff: "ring_wf r \<Longrightarrow> rte_ring_empty r \<longleftrightarrow> ring_elems r = []"
  using ring_count_eq [of r] unfolding rte_ring_empty_def
  by (metis length_0_conv length_ring_elems unat_eq_zero)

lemma ring_full_iff: "ring_wf r \<Longrightarrow> rte_ring_full r \<longleftrightarrow> length (ring_elems r) = ring_cap r"
  using ring_free_count_eq [of r] ring_used_le_cap [of r] unfolding rte_ring_full_def
  by (metis diff_is_0_eq le_antisym length_ring_elems diff_self_eq_0 unat_eq_zero)

section \<open>One object at a time\<close>

lemma mp_enqueue_law:
  assumes "ring_wf r" "rte_ring_mp_enqueue r x = (ret, r')"
  shows "ring_wf r' \<and> ring_cap r' = ring_cap r
    \<and> (if length (ring_elems r) < ring_cap r then ret = 0 \<and> ring_elems r' = ring_elems r @ [x]
       else ret = - ENOBUFS \<and> ring_elems r' = ring_elems r)"
proof -
  obtain n fr q where e: "do_enqueue r [x] RTE_RING_QUEUE_FIXED False = (n, fr, q)"
    by (metis prod_cases3)
  have len: "length [x] < 2 ^ 32" by simp
  have q: "ret = (if n \<noteq> 0 then 0 else - ENOBUFS)" "r' = q"
    using assms(2) e by (auto simp: rte_ring_mp_enqueue_def rte_ring_mp_enqueue_bulk_def)
  have l: "unat n = moved RTE_RING_QUEUE_FIXED 1 (ring_cap r - ring_used r)"
    "ring_elems q = ring_elems r @ take (unat n) [x]" "ring_wf q" "ring_cap q = ring_cap r"
    using do_enqueue_law [OF assms(1) len e] by simp_all
  have "n = 0 \<longleftrightarrow> unat n = 0" by (simp add: unat_eq_zero)
  then show ?thesis using q l by (auto simp: moved_def)
qed

lemma mc_dequeue_law:
  assumes "ring_wf r" "rte_ring_mc_dequeue r = (ret, x, r')"
  shows "ring_wf r' \<and> ring_cap r' = ring_cap r
    \<and> (case ring_elems r of [] \<Rightarrow> ret = - ENOENT \<and> x = None \<and> ring_elems r' = []
       | y # ys \<Rightarrow> ret = 0 \<and> x = Some y \<and> ring_elems r' = ys)"
proof -
  obtain xs av q where e: "do_dequeue r 1 RTE_RING_QUEUE_FIXED False = (xs, av, q)"
    by (metis prod_cases3)
  have l: "xs = take (moved RTE_RING_QUEUE_FIXED 1 (ring_used r)) (ring_elems r)"
    "ring_elems r = xs @ ring_elems q" "ring_wf q" "ring_cap q = ring_cap r"
    using do_dequeue_law [OF assms(1) e] unfolding unat_1 by blast+
  show ?thesis
  proof (cases "ring_elems r")
    case Nil
    then show ?thesis
      using l(2-4) assms(2) e
      by (auto simp: rte_ring_mc_dequeue_def rte_ring_mc_dequeue_bulk_def first_obj_def)
  next
    case (Cons y ys)
    then have "1 \<le> ring_used r"
      by (metis Suc_le_mono One_nat_def le0 length_Cons length_ring_elems)
    then have "moved RTE_RING_QUEUE_FIXED 1 (ring_used r) = 1" by (simp add: moved_def)
    with l(1) have "xs = take 1 (y # ys)" by (simp only: Cons)
    then have "xs = [y]" by simp
    then show ?thesis
      using l(2-4) assms(2) e Cons
      by (auto simp: rte_ring_mc_dequeue_def rte_ring_mc_dequeue_bulk_def first_obj_def)
  qed
qed

section \<open>Properties\<close>

text \<open>A ring of four slots whose free-running indices are about to wrap past \<open>2 ^ 32\<close>.\<close>

definition wrapping_ring :: "nat rte_ring" where
  "wrapping_ring = \<lparr>rname = ''w'', rflags = 0, rsize = 4, rmask = 3, rcapacity = 3,
     rprod = \<lparr>ht_head = 0xfffffffe, ht_tail = 0xfffffffe, ht_single = False\<rparr>,
     rcons = \<lparr>ht_head = 0xfffffffe, ht_tail = 0xfffffffe, ht_single = False\<rparr>,
     rmemzone = None, rslots = [0, 0, 0, 0]\<rparr>"

lemma wrapping_ring_wf: "ring_wf wrapping_ring"
  unfolding ring_wf_def wrapping_ring_def by (simp, rule exI [of _ 2], simp)

text \<open>C3. First in, first out over any run: whatever sequence of burst enqueues and dequeues runs
  on a well-formed ring, the objects delivered followed by those still queued are the objects
  queued at the start followed by the objects accepted, in order; nothing is lost, duplicated
  or reordered, across wrap-around of the slots and of the 32-bit indices.\<close>

theorem ring_fifo_run:
  assumes "ring_wf r" "\<forall>op\<in>set ops. qop_size op < 2 ^ 32"
    and "qrun ring_put_burst ring_get_burst ops r = (acc, del, r')"
  shows "ring_elems r @ acc = del @ ring_elems r' \<and> ring_wf r' \<and> ring_cap r' = ring_cap r"
  using ring_burst.fifo_run assms by blast

lemma ring_fifo_run_witness:
  "case qrun ring_put_burst ring_get_burst [Put [1, 2, 3, 4], Get 2, Put [5, 6], Get 9] wrapping_ring of
     (acc, del, r') \<Rightarrow> ring_elems wrapping_ring @ acc = del @ ring_elems r'
       \<and> acc = [1, 2, 3, 5, 6] \<and> del = [1, 2, 3, 5, 6]"
proof -
  obtain acc del r' where q: "qrun ring_put_burst ring_get_burst
      [Put [1, 2, 3, 4], Get 2, Put [5, 6], Get 9] wrapping_ring = (acc, del, r')"
    by (rule prod_cases3)
  have v: "(case qrun ring_put_burst ring_get_burst
      [Put [1, 2, 3, 4], Get 2, Put [5, 6], Get 9] wrapping_ring of
       (acc, del, r') \<Rightarrow> acc = [1, 2, 3, 5, 6] \<and> del = [1, 2, 3, 5, 6])"
    by code_simp
  show ?thesis
    using ring_fifo_run [OF wrapping_ring_wf _ q] v q by simp
qed

text \<open>All or nothing: a bulk enqueue stores the whole request exactly when the free slots
  suffice and otherwise leaves the ring unchanged and returns 0; a bulk dequeue delivers the
  requested number of objects from the front exactly when that many are queued and otherwise
  delivers none.\<close>

theorem ring_bulk_all_or_nothing:
  assumes "ring_wf r" "List.length objs < 2 ^ 32"
  shows "(case rte_ring_mp_enqueue_bulk r objs of (k, free_space, r') \<Rightarrow>
        if List.length (ring_elems r) + List.length objs \<le> ring_cap r
        then unat k = List.length objs \<and> ring_elems r' = ring_elems r @ objs \<and> ring_wf r'
        else k = 0 \<and> r' = r)
    \<and> (case rte_ring_mc_dequeue_bulk r n of (xs, available, r') \<Rightarrow>
        if unat n \<le> List.length (ring_elems r)
        then xs = take (unat n) (ring_elems r) \<and> ring_elems r' = drop (unat n) (ring_elems r) \<and> ring_wf r'
        else xs = [] \<and> r' = r)"
proof (rule conjI)
  obtain k fr r' where e: "do_enqueue r objs RTE_RING_QUEUE_FIXED False = (k, fr, r')"
    by (rule prod_cases3)
  have "ring_used r + List.length objs \<le> ring_cap r \<longleftrightarrow> List.length objs \<le> ring_cap r - ring_used r"
    using ring_used_le_cap [OF assms(1)] by arith
  then show "case rte_ring_mp_enqueue_bulk r objs of (k, free_space, r') \<Rightarrow>
        if List.length (ring_elems r) + List.length objs \<le> ring_cap r
        then unat k = List.length objs \<and> ring_elems r' = ring_elems r @ objs \<and> ring_wf r'
        else k = 0 \<and> r' = r"
    using do_enqueue_law [OF assms e] do_enqueue_eq [OF assms, of RTE_RING_QUEUE_FIXED False] e
    by (auto simp: rte_ring_mp_enqueue_bulk_def moved_def)
next
  obtain xs av r' where e: "do_dequeue r n RTE_RING_QUEUE_FIXED False = (xs, av, r')"
    by (rule prod_cases3)
  show "case rte_ring_mc_dequeue_bulk r n of (xs, available, r') \<Rightarrow>
        if unat n \<le> List.length (ring_elems r)
        then xs = take (unat n) (ring_elems r) \<and> ring_elems r' = drop (unat n) (ring_elems r) \<and> ring_wf r'
        else xs = [] \<and> r' = r"
  proof (cases "unat n \<le> ring_used r")
    case True
    then have "moved RTE_RING_QUEUE_FIXED (unat n) (ring_used r) = unat n" by (simp add: moved_def)
    then have "xs = take (unat n) (ring_elems r)" "ring_elems r = xs @ ring_elems r'" "ring_wf r'"
      using do_dequeue_law [OF assms(1) e] by metis+
    then have "ring_elems r' = drop (unat n) (ring_elems r)"
      by (metis append_take_drop_id same_append_eq)
    then show ?thesis
      using e True \<open>xs = take (unat n) (ring_elems r)\<close> \<open>ring_wf r'\<close>
      by (simp add: rte_ring_mc_dequeue_bulk_def)
  next
    case False
    then show ?thesis
      using do_dequeue_eq [OF assms(1), of n RTE_RING_QUEUE_FIXED False] e
      by (simp add: rte_ring_mc_dequeue_bulk_def moved_def)
  qed
qed

lemma ring_bulk_all_or_nothing_witness:
  "(case rte_ring_mp_enqueue_bulk wrapping_ring [7, 8] of (k, free_space, r') \<Rightarrow>
      unat k = 2 \<and> ring_elems r' = [7, 8] \<and> ring_wf r')"
proof -
  have e: "ring_elems wrapping_ring = []" "ring_cap wrapping_ring = 3"
    by (simp_all add: wrapping_ring_def ring_elems_def ring_used_def ring_cap_def)
  show ?thesis
    using ring_bulk_all_or_nothing [OF wrapping_ring_wf, of "[7, 8]" 1] e
    by (auto split: prod.splits)
qed

text \<open>The lock-free path changes nothing when no other thread interferes: the
  multi-producer and multi-consumer operations, whose head moves by a compare-and-set loop and
  whose tail waits its turn, terminate and compute exactly what the single-producer and
  single-consumer operations compute.\<close>

theorem ring_mp_sp_same:
  assumes "ring_wf r" "List.length objs < 2 ^ 32"
  shows "rte_ring_mp_enqueue_bulk r objs = rte_ring_sp_enqueue_bulk r objs
    \<and> rte_ring_mp_enqueue_burst r objs = rte_ring_sp_enqueue_burst r objs
    \<and> rte_ring_enqueue_burst r objs = rte_ring_sp_enqueue_burst r objs
    \<and> rte_ring_mc_dequeue_bulk r n = rte_ring_sc_dequeue_bulk r n
    \<and> rte_ring_mc_dequeue_burst r n = rte_ring_sc_dequeue_burst r n
    \<and> rte_ring_dequeue_burst r n = rte_ring_sc_dequeue_burst r n"
  unfolding rte_ring_mp_enqueue_bulk_def rte_ring_sp_enqueue_bulk_def rte_ring_mp_enqueue_burst_def
    rte_ring_sp_enqueue_burst_def rte_ring_enqueue_burst_def rte_ring_mc_dequeue_bulk_def
    rte_ring_sc_dequeue_bulk_def rte_ring_mc_dequeue_burst_def rte_ring_sc_dequeue_burst_def
    rte_ring_dequeue_burst_def do_enqueue_eq [OF assms] do_dequeue_eq [OF assms(1)]
  by blast

lemma ring_mp_sp_same_witness:
  "rte_ring_mp_enqueue_burst wrapping_ring [1, 2] = rte_ring_sp_enqueue_burst wrapping_ring [1, 2]"
  using ring_mp_sp_same [OF wrapping_ring_wf, of "[1, 2]" 1] by simp

text \<open>\<open>rte_ring_init\<close> with a non-zero size accepts it exactly when it is a power of two not
  above the limit and the name fits, and then yields a well-formed, empty ring that holds one
  object less than its size.\<close>

theorem rte_ring_init_correct:
  assumes "flags AND RING_F_EXACT_SZ = 0" "count \<noteq> 0"
  shows "case rte_ring_init junk name count flags of (ret, r) \<Rightarrow>
    (ret = 0 \<longleftrightarrow> List.length name < RTE_MEMZONE_NAMESIZE \<and> POWEROF2 count \<and> count \<le> RTE_RING_SZ_MASK)
    \<and> (ret \<noteq> 0 \<or> ring_wf r \<and> ring_elems r = [] \<and> ring_cap r = unat count - 1 \<and> rname r = name
         \<and> ht_single (rprod r) = (flags AND RING_F_SP_ENQ \<noteq> 0))"
proof -
  obtain ret r where e: "rte_ring_init junk name count flags = (ret, r)" by fastforce
  have "ret = 0 \<longleftrightarrow> List.length name < RTE_MEMZONE_NAMESIZE \<and> POWEROF2 count \<and> count \<le> RTE_RING_SZ_MASK"
    using e assms(1) by (auto simp: rte_ring_init_def Let_def EINVAL_def ENAMETOOLONG_def split: if_splits)
  moreover have "ret = 0 \<Longrightarrow> ht_single (rprod r) = (flags AND RING_F_SP_ENQ \<noteq> 0)"
    using e assms(1) by (auto simp: rte_ring_init_def Let_def EINVAL_def ENAMETOOLONG_def
        rte_ring_reset_def split: if_splits)
  ultimately show ?thesis using rte_ring_init_pow2 [of junk name count flags r] e assms by auto
qed

lemma rte_ring_init_correct_witness:
  "case rte_ring_init (0 :: nat) ''out ring'' 1024 3 of (ret, r) \<Rightarrow> ring_wf r \<and> ring_cap r = 1023"
proof -
  have f: "(3 :: u32) AND RING_F_EXACT_SZ = 0" by (simp add: RING_F_EXACT_SZ_def)
  have "fst (rte_ring_init (0 :: nat) ''out ring'' 1024 3) = 0" using f
    by (intro rte_ring_init_ok) (simp_all add: RTE_MEMZONE_NAMESIZE_def POWEROF2_def RTE_RING_SZ_MASK_def)
  then show ?thesis
    using rte_ring_init_correct [OF f, where count = 1024 and junk = "0 :: nat" and name = "''out ring''"] by (auto split: prod.splits)
qed

text \<open>Size 0 passes the power-of-two test: \<open>rte_ring_init\<close> reports success for a ring without
  any slot that claims \<open>2 ^ 32 - 1\<close> free entries, so the first enqueue is accepted and stores
  outside the ring.\<close>

theorem rte_ring_init_zero_size:
  "case rte_ring_init (0 :: nat) ''r'' 0 0 of (ret, r) \<Rightarrow>
     ret = 0 \<and> rslots r = [] \<and> rte_ring_free_count r = 0xffffffff
     \<and> fst (rte_ring_sp_enqueue r 7) = 0"
  by code_simp

text \<open>The counters agree with the queue: on a well-formed ring \<open>rte_ring_count\<close> and
  \<open>rte_ring_free_count\<close> are the number of queued objects and of free slots, and the empty and
  full tests hold exactly for the empty and the full queue.\<close>

lemma ring_counts:
  assumes "ring_wf r"
  shows "unat (rte_ring_count r) = List.length (ring_elems r)
    \<and> unat (rte_ring_free_count r) = ring_cap r - List.length (ring_elems r)
    \<and> (rte_ring_empty r \<longleftrightarrow> ring_elems r = [])
    \<and> (rte_ring_full r \<longleftrightarrow> List.length (ring_elems r) = ring_cap r)"
  using ring_count_eq [OF assms] ring_free_count_eq [OF assms] ring_empty_iff [OF assms]
    ring_full_iff [OF assms] by simp

lemma ring_counts_witness: "rte_ring_empty wrapping_ring \<and> unat (rte_ring_free_count wrapping_ring) = 3"
  using ring_counts [OF wrapping_ring_wf]
  by (simp add: wrapping_ring_def ring_elems_def ring_used_def ring_cap_def)

end
