(* ===== verification/Eal.thy ===== *)
theory Eal
  imports Ring_Queue
begin

text \<open>
  The services of the environment abstraction layer the stack allocates from: the heap
  (\<open>rte_malloc.c\<close>), the named memory zones (\<open>eal_common_memzone.c\<close>), the packet buffer pool,
  and on top of them the creation and release of rings (\<open>rte_ring.c\<close>).

  Whether the heap can satisfy a request is the environment's choice: \<open>malloc_ok s n sz\<close> says
  whether the \<open>n\<close>-th request, of \<open>sz\<close> bytes, succeeds.  A block is named by the number of the
  request that returned it, so no two blocks share a name; \<open>live\<close> counts the blocks not yet
  freed.  Everything else is state the C code keeps.
\<close>

section \<open>State\<close>

record mbuf =
  m_id :: nat
  pkt_len :: u32
  data_len :: u16
  mdata :: buf

record rte_memzone =
  mz_name :: string
  mz_addr :: nat
  mz_len :: nat

record eal =
  malloc_ok :: "nat \<Rightarrow> nat \<Rightarrow> bool"
  mallocs :: nat
  live :: int
  mz_max :: nat
  memzones :: "rte_memzone list"
  ring_list :: "(nat \<times> nat) list"
  rte_errno :: int
  pool :: "mbuf list"

section \<open>Heap\<close>

text \<open>\<open>malloc_heap_alloc\<close> is the environment; it is asked once per request that reaches it.\<close>

definition malloc_heap_alloc :: "nat \<Rightarrow> 'z eal_scheme \<Rightarrow> nat option \<times> 'z eal_scheme" where
  "malloc_heap_alloc sz s =
    (let n = mallocs s; s' = s\<lparr>mallocs := Suc n\<rparr>
     in if malloc_ok s n sz then (Some n, s'\<lparr>live := live s + 1\<rparr>) else (None, s'))"

definition rte_malloc :: "nat \<Rightarrow> 'z eal_scheme \<Rightarrow> nat option \<times> 'z eal_scheme" where
  "rte_malloc sz s = (if sz = 0 then (None, s) else malloc_heap_alloc sz s)"

definition rte_free :: "nat option \<Rightarrow> 'z eal_scheme \<Rightarrow> 'z eal_scheme" where
  "rte_free addr s = (case addr of None \<Rightarrow> s | Some _ \<Rightarrow> s\<lparr>live := live s - 1\<rparr>)"

section \<open>Memory zones\<close>

definition ENOMEM :: int where "ENOMEM = 12"
definition EEXIST :: int where "EEXIST = 17"
definition ENOSPC :: int where "ENOSPC = 28"
definition SIZE_MAX :: nat where "SIZE_MAX = 2 ^ 64 - 1"
definition RTE_CACHE_LINE_SIZE :: nat where "RTE_CACHE_LINE_SIZE = 64"

definition rte_is_power_of_2 :: "u32 \<Rightarrow> bool" where
  "rte_is_power_of_2 n \<longleftrightarrow> n \<noteq> 0 \<and> (n AND (n - 1)) = 0"

definition RTE_ALIGN_CEIL :: "nat \<Rightarrow> nat \<Rightarrow> nat" where
  "RTE_ALIGN_CEIL v a = ((v + (a - 1)) div a) * a"

text \<open>A zone name is shorter than \<open>RTE_MEMZONE_NAMESIZE\<close>, so \<open>strncmp\<close> over that many bytes
  compares the whole names.\<close>

definition memzone_lookup :: "string \<Rightarrow> 'z eal_scheme \<Rightarrow> rte_memzone option" where
  "memzone_lookup name s =
    find (\<lambda>mz. take RTE_MEMZONE_NAMESIZE name = take RTE_MEMZONE_NAMESIZE (mz_name mz)) (memzones s)"

text \<open>
  \<open>memzone_reserve_aligned_thread_unsafe\<close>.  The socket is any socket (\<open>SOCKET_ID_ANY\<close> after the
  NUMA test); the contiguity flag only restricts where the heap may find the block.  A request
  of length 0 without a bound takes the biggest free block, whose size the heap chooses:
  \<open>biggest\<close>.
\<close>

definition memzone_reserve_aligned ::
  "nat \<Rightarrow> string \<Rightarrow> nat \<Rightarrow> u32 \<Rightarrow> u32 \<Rightarrow> 'z eal_scheme \<Rightarrow> rte_memzone option \<times> 'z eal_scheme" where
  "memzone_reserve_aligned biggest name len align bound s =
    (if mz_max s \<le> List.length (memzones s) then (None, s\<lparr>rte_errno := ENOSPC\<rparr>)
     else if List.length name > RTE_MEMZONE_NAMESIZE - 1 then (None, s\<lparr>rte_errno := ENAMETOOLONG\<rparr>)
     else if memzone_lookup name s \<noteq> None then (None, s\<lparr>rte_errno := EEXIST\<rparr>)
     else if align \<noteq> 0 \<and> \<not> rte_is_power_of_2 align then (None, s\<lparr>rte_errno := EINVAL\<rparr>)
     else if len > SIZE_MAX - (RTE_CACHE_LINE_SIZE - 1) then (None, s\<lparr>rte_errno := EINVAL\<rparr>)
     else
      let len = RTE_ALIGN_CEIL len RTE_CACHE_LINE_SIZE;
          requested_len = max RTE_CACHE_LINE_SIZE len
      in if bound \<noteq> 0 \<and> (requested_len > unat bound \<or> \<not> rte_is_power_of_2 bound)
         then (None, s\<lparr>rte_errno := EINVAL\<rparr>)
         else
          let requested_len = (if len = 0 \<and> bound = 0 then biggest
                               else if len = 0 then unat bound else requested_len)
          in case malloc_heap_alloc requested_len s of
               (None, s) \<Rightarrow> (None, s\<lparr>rte_errno := ENOMEM\<rparr>)
             | (Some a, s) \<Rightarrow>
                 let mz = \<lparr>mz_name = name, mz_addr = a, mz_len = requested_len\<rparr>
                 in (Some mz, s\<lparr>memzones := memzones s @ [mz]\<rparr>))"

text \<open>\<open>rte_memzone_free\<close> finds the descriptor by its place in the table; zones are disjoint
  blocks, so the block address identifies it.\<close>

definition rte_memzone_free :: "nat option \<Rightarrow> 'z eal_scheme \<Rightarrow> int \<times> 'z eal_scheme" where
  "rte_memzone_free mz s =
    (case mz of
       None \<Rightarrow> (- EINVAL, s)
     | Some a \<Rightarrow>
        (case find (\<lambda>z. mz_addr z = a) (memzones s) of
           None \<Rightarrow> (- EINVAL, s)
         | Some z \<Rightarrow>
            (0, rte_free (Some a) (s\<lparr>memzones := filter (\<lambda>z. mz_addr z \<noteq> a) (memzones s)\<rparr>))))"

section \<open>Packet buffers\<close>

definition NUM_MBUFS :: nat where "NUM_MBUFS = 4095"
definition RTE_MBUF_DEFAULT_DATAROOM :: nat where "RTE_MBUF_DEFAULT_DATAROOM = 2048"

text \<open>\<open>rte_pktmbuf_alloc\<close> takes a buffer and resets its lengths; the data keep what they held.
  Which of the free buffers it is does not matter to any statement: the list gives the one freed last, the
  ring of the pool would give the one freed first.\<close>

definition rte_pktmbuf_alloc :: "'z eal_scheme \<Rightarrow> mbuf option \<times> 'z eal_scheme" where
  "rte_pktmbuf_alloc s =
    (case pool s of
       [] \<Rightarrow> (None, s)
     | m # ms \<Rightarrow> (Some (m\<lparr>pkt_len := 0, data_len := 0\<rparr>), s\<lparr>pool := ms\<rparr>))"

definition rte_pktmbuf_free :: "mbuf \<Rightarrow> 'z eal_scheme \<Rightarrow> 'z eal_scheme" where
  "rte_pktmbuf_free m s = s\<lparr>pool := m # pool s\<rparr>"

section \<open>Creating and releasing rings\<close>

definition RTE_RING_MZ_PREFIX :: string where "RTE_RING_MZ_PREFIX = ''RG_''"

text \<open>\<open>sizeof(struct rte_tailq_entry)\<close> is 24; the zone is aligned as \<open>struct rte_ring\<close>, 64.\<close>

definition rte_ring_create ::
  "'a \<Rightarrow> string \<Rightarrow> u32 \<Rightarrow> u32 \<Rightarrow> 'z eal_scheme \<Rightarrow> 'a rte_ring option \<times> 'z eal_scheme" where
  "rte_ring_create junk name requested_count flags s =
    (let count = (if flags AND RING_F_EXACT_SZ \<noteq> 0 then rte_align32pow2 (requested_count + 1)
                  else requested_count);
         ring_size = rte_ring_get_memsize count
     in if ring_size < 0 then (None, s\<lparr>rte_errno := ring_size\<rparr>)
        else
         let mz_name = RTE_RING_MZ_PREFIX @ name
         in if List.length mz_name \<ge> RTE_MEMZONE_NAMESIZE then (None, s\<lparr>rte_errno := ENAMETOOLONG\<rparr>)
            else case rte_malloc 24 s of
               (None, s) \<Rightarrow> (None, s\<lparr>rte_errno := ENOMEM\<rparr>)
             | (Some te, s) \<Rightarrow>
                (case memzone_reserve_aligned 0 mz_name (nat ring_size) 64 0 s of
                   (None, s) \<Rightarrow> (None, rte_free (Some te) s)
                 | (Some mz, s) \<Rightarrow>
                    let (_, r) = rte_ring_init junk name requested_count flags
                    in (Some (r\<lparr>rmemzone := Some (mz_addr mz)\<rparr>),
                        s\<lparr>ring_list := ring_list s @ [(te, mz_addr mz)]\<rparr>)))"

definition rte_ring_free :: "'a rte_ring option \<Rightarrow> 'z eal_scheme \<Rightarrow> 'z eal_scheme" where
  "rte_ring_free r s =
    (case r of
       None \<Rightarrow> s
     | Some r \<Rightarrow>
        (case rmemzone r of
           None \<Rightarrow> s
         | Some a \<Rightarrow>
            (case rte_memzone_free (Some a) s of
               (ret, s) \<Rightarrow>
                 if ret \<noteq> 0 then s
                 else case find (\<lambda>(te, data). data = a) (ring_list s) of
                        None \<Rightarrow> s
                      | Some (te, _) \<Rightarrow>
                          rte_free (Some te) (s\<lparr>ring_list := remove1 (te, a) (ring_list s)\<rparr>))))"

section \<open>What the allocators leave alone\<close>

text \<open>The allocators change the bookkeeping of the heap, the zones and the ring list only.\<close>

definition eal_frame :: "'z eal_scheme \<Rightarrow> 'z eal_scheme \<Rightarrow> bool" where
  "eal_frame s s' \<longleftrightarrow> eal.more s' = eal.more s \<and> malloc_ok s' = malloc_ok s \<and> mz_max s' = mz_max s
     \<and> pool s' = pool s \<and> mallocs s \<le> mallocs s'"

lemma eal_frame_refl [simp]: "eal_frame s s"
  by (simp add: eal_frame_def)

lemma eal_frame_trans: "eal_frame s1 s2 \<Longrightarrow> eal_frame s2 s3 \<Longrightarrow> eal_frame s1 s3"
  by (simp add: eal_frame_def)

lemma eal_frame_upd [simp]:
  "eal_frame s (s'\<lparr>live := a\<rparr>) \<longleftrightarrow> eal_frame s s'"
  "eal_frame s (s'\<lparr>memzones := b\<rparr>) \<longleftrightarrow> eal_frame s s'"
  "eal_frame s (s'\<lparr>ring_list := c\<rparr>) \<longleftrightarrow> eal_frame s s'"
  "eal_frame s (s'\<lparr>rte_errno := d\<rparr>) \<longleftrightarrow> eal_frame s s'"
  by (simp_all add: eal_frame_def)

lemma malloc_heap_alloc_frame: "malloc_heap_alloc n s = (r, s') \<Longrightarrow> eal_frame s s'"
  by (auto simp: malloc_heap_alloc_def Let_def eal_frame_def split: if_splits)

lemma rte_malloc_frame: "rte_malloc n s = (r, s') \<Longrightarrow> eal_frame s s'"
  by (auto simp: rte_malloc_def malloc_heap_alloc_frame split: if_splits)

lemma rte_free_frame [simp]: "eal_frame s (rte_free a s') \<longleftrightarrow> eal_frame s s'"
  by (simp add: rte_free_def split: option.splits)

lemma memzone_reserve_frame:
  assumes "memzone_reserve_aligned big n l al bd s = (r, s')"
  shows "eal_frame s s'"
proof -
  obtain a s1 where "malloc_heap_alloc (if RTE_ALIGN_CEIL l RTE_CACHE_LINE_SIZE = 0 \<and> bd = 0 then big
      else if RTE_ALIGN_CEIL l RTE_CACHE_LINE_SIZE = 0 then unat bd
      else max RTE_CACHE_LINE_SIZE (RTE_ALIGN_CEIL l RTE_CACHE_LINE_SIZE)) s = (a, s1)" by fastforce
  then show ?thesis
    using assms malloc_heap_alloc_frame unfolding memzone_reserve_aligned_def Let_def
    by (fastforce split: if_splits option.splits)
qed

lemma rte_ring_create_frame:
  assumes "rte_ring_create j n c f s = (r, s')"
  shows "eal_frame s s'"
proof -
  let ?sz = "rte_ring_get_memsize (if f AND RING_F_EXACT_SZ \<noteq> 0 then rte_align32pow2 (c + 1) else c)"
  obtain te s1 where m: "rte_malloc 24 s = (te, s1)" by fastforce
  obtain mz s2 where z: "memzone_reserve_aligned 0 (RTE_RING_MZ_PREFIX @ n) (nat ?sz) 64 0 s1 = (mz, s2)"
    by fastforce
  have f: "eal_frame s s1" "eal_frame s s2"
    using rte_malloc_frame [OF m] memzone_reserve_frame [OF z] eal_frame_trans by blast+
  show ?thesis
    using assms m z f unfolding rte_ring_create_def Let_def
    by (cases te; cases mz) (auto split: if_splits prod.splits)
qed

lemma rte_memzone_free_frame: "rte_memzone_free a s = (r, s') \<Longrightarrow> eal_frame s s'"
  by (auto simp: rte_memzone_free_def split: option.splits)

lemma rte_ring_free_frame: "eal_frame s (rte_ring_free r s)"
proof -
  obtain ret s1 where z: "rte_memzone_free (case r of None \<Rightarrow> None | Some r \<Rightarrow> rmemzone r) s = (ret, s1)"
    by fastforce
  show ?thesis
    using z rte_memzone_free_frame [OF z]
    by (auto simp: rte_ring_free_def split: option.splits prod.splits)
qed

section \<open>Rings by name\<close>

text \<open>A created ring is a fresh one with the name's zone; the name must be unused.\<close>

lemma memzone_lookup_None:
  "memzone_lookup name s = None \<longleftrightarrow>
    (\<forall>mz\<in>set (memzones s). take RTE_MEMZONE_NAMESIZE (mz_name mz) \<noteq> take RTE_MEMZONE_NAMESIZE name)"
  by (auto simp: memzone_lookup_def find_None_iff)

lemma rte_ring_create_taken:
  assumes "memzone_lookup (RTE_RING_MZ_PREFIX @ name) s \<noteq> None"
  shows "fst (rte_ring_create j name c f s) = None"
proof -
  obtain te s1 where m: "rte_malloc 24 s = (te, s1)" by fastforce
  have "memzones s1 = memzones s"
    using m by (auto simp: rte_malloc_def malloc_heap_alloc_def Let_def split: if_splits)
  then have "memzone_lookup (RTE_RING_MZ_PREFIX @ name) s1 \<noteq> None"
    using assms by (simp add: memzone_lookup_def)
  then show ?thesis
    using m by (simp add: rte_ring_create_def Let_def memzone_reserve_aligned_def split: option.splits)
qed

lemma memzone_reserve_ok:
  assumes "malloc_ok s = (\<lambda>_ _. True)" "memzone_lookup name s = None" "List.length (memzones s) < mz_max s"
    and "List.length name < RTE_MEMZONE_NAMESIZE" "0 < len" "len \<le> 2 ^ 40"
  obtains n where "memzone_reserve_aligned big name len 64 0 s
      = (Some \<lparr>mz_name = name, mz_addr = mallocs s, mz_len = n\<rparr>,
         s\<lparr>mallocs := Suc (mallocs s), live := live s + 1,
           memzones := memzones s @ [\<lparr>mz_name = name, mz_addr = mallocs s, mz_len = n\<rparr>]\<rparr>)"
proof -
  let ?n = "max RTE_CACHE_LINE_SIZE (RTE_ALIGN_CEIL len RTE_CACHE_LINE_SIZE)"
  have "RTE_ALIGN_CEIL len RTE_CACHE_LINE_SIZE \<noteq> 0"
    using assms(5) by (simp add: RTE_ALIGN_CEIL_def RTE_CACHE_LINE_SIZE_def div_greater_zero_iff)
  moreover have "rte_is_power_of_2 64" by code_simp
  ultimately show thesis
    using that [of ?n] assms
    by (simp add: memzone_reserve_aligned_def malloc_heap_alloc_def Let_def RTE_MEMZONE_NAMESIZE_def
        RTE_CACHE_LINE_SIZE_def SIZE_MAX_def not_less not_le)
qed

lemma align_bounds:
  fixes u :: int
  assumes "0 \<le> u" "u < 4294967296"
  shows "0 < (384 + u * 8 + 63) div 64 * 64 \<and> (384 + u * 8 + 63) div 64 * 64 \<le> 1099511627776"
proof -
  let ?x = "384 + u * 8 + 63"
  have "1 \<le> ?x div 64" using zdiv_mono1 [of 64 ?x 64] assms(1) by simp
  moreover have "?x div 64 * 64 \<le> ?x"
    using pos_mod_sign [of 64 ?x] div_mult_mod_eq [of ?x 64] by linarith
  ultimately show ?thesis using assms(2) by linarith
qed

lemma rte_ring_memsize_bounds:
  "POWEROF2 c \<Longrightarrow> c \<le> RTE_RING_SZ_MASK \<Longrightarrow>
    0 < nat (rte_ring_get_memsize c) \<and> nat (rte_ring_get_memsize c) \<le> 2 ^ 40 \<and> \<not> rte_ring_get_memsize c < 0"
proof -
  assume a: "POWEROF2 c" "c \<le> RTE_RING_SZ_MASK"
  have "0 \<le> uint c" "uint c < 2 ^ 32" using uint_lt2p [of c] by simp_all
  moreover have "\<not> RTE_RING_SZ_MASK < c" using a(2) by simp
  ultimately have e: "rte_ring_get_memsize c = ((384 + uint c * 8 + 63) div 64) * 64"
    using a(1) by (simp add: rte_ring_get_memsize_def Let_def)
  have "0 < rte_ring_get_memsize c \<and> rte_ring_get_memsize c \<le> 2 ^ 40"
    unfolding e using align_bounds [of "uint c"] \<open>0 \<le> uint c\<close> \<open>uint c < 2 ^ 32\<close>
    by (simp only: semiring_numeral_class.power_numeral power_numeral Num.pow.simps Num.sqr.simps) simp
  then show ?thesis by (simp add: nat_le_iff)
qed

lemma rte_ring_create_ok:
  assumes "malloc_ok s = (\<lambda>_ _. True)" "memzone_lookup (RTE_RING_MZ_PREFIX @ name) s = None"
    and "List.length (memzones s) < mz_max s" "List.length name < 29"
    and "POWEROF2 c" "c \<noteq> 0" "c \<le> RTE_RING_SZ_MASK" "f AND RING_F_EXACT_SZ = 0"
  obtains r mz where "rte_ring_create j name c f s = (Some r,
      s\<lparr>mallocs := mallocs s + 2, live := live s + 2, memzones := memzones s @ [mz],
        ring_list := ring_list s @ [(mallocs s, mz_addr mz)]\<rparr>)"
    "mz_name mz = RTE_RING_MZ_PREFIX @ name" "mz_addr mz = Suc (mallocs s)" "rmemzone r = Some (mz_addr mz)"
    "ring_wf r" "ring_elems r = []" "ring_cap r = unat c - 1"
proof -
  have len: "List.length (RTE_RING_MZ_PREFIX @ name) < RTE_MEMZONE_NAMESIZE"
    using assms(4) by (simp add: RTE_RING_MZ_PREFIX_def RTE_MEMZONE_NAMESIZE_def)
  let ?s1 = "s\<lparr>mallocs := Suc (mallocs s), live := live s + 1\<rparr>"
  have m: "rte_malloc 24 s = (Some (mallocs s), ?s1)"
    using assms(1) by (simp add: rte_malloc_def malloc_heap_alloc_def Let_def)
  note sz = rte_ring_memsize_bounds [OF assms(5,7)]
  obtain n where z: "memzone_reserve_aligned 0 (RTE_RING_MZ_PREFIX @ name) (nat (rte_ring_get_memsize c)) 64 0 ?s1
      = (Some \<lparr>mz_name = RTE_RING_MZ_PREFIX @ name, mz_addr = mallocs ?s1, mz_len = n\<rparr>,
         ?s1\<lparr>mallocs := Suc (mallocs ?s1), live := live ?s1 + 1,
           memzones := memzones ?s1 @ [\<lparr>mz_name = RTE_RING_MZ_PREFIX @ name, mz_addr = mallocs ?s1, mz_len = n\<rparr>]\<rparr>)"
    by (rule memzone_reserve_ok [of ?s1 "RTE_RING_MZ_PREFIX @ name" "nat (rte_ring_get_memsize c)" 0])
      (use assms(1-3) len sz in \<open>simp_all add: memzone_lookup_def\<close>)
  have nl: "List.length name < RTE_MEMZONE_NAMESIZE" using assms(4) by (simp add: RTE_MEMZONE_NAMESIZE_def)
  obtain ret r where i: "rte_ring_init j name c f = (ret, r)" by fastforce
  then have "ret = 0" using rte_ring_init_ok [OF nl assms(5,7,8), of j] by simp
  note wf = rte_ring_init_pow2 [OF i [unfolded this] assms(8,6)]
  show thesis
    by (rule that [of "r\<lparr>rmemzone := Some (Suc (mallocs s))\<rparr>"
          "\<lparr>mz_name = RTE_RING_MZ_PREFIX @ name, mz_addr = Suc (mallocs s), mz_len = n\<rparr>"])
      (use m z i wf sz len assms(8) in \<open>simp_all add: rte_ring_create_def Let_def ring_wf_def ring_elems_def
        ring_cap_def ring_used_def\<close>)
qed

text \<open>Every block the zones and the ring list name was handed out.\<close>

definition eal_wf :: "'z eal_scheme \<Rightarrow> bool" where
  "eal_wf s \<longleftrightarrow> (\<forall>mz\<in>set (memzones s). mz_addr mz < mallocs s)
     \<and> (\<forall>(te, a)\<in>set (ring_list s). te < mallocs s \<and> a < mallocs s)"

lemma rte_ring_free_created:
  assumes "eal_wf s" "mz_addr mz = Suc (mallocs s)" "rmemzone r = Some (mz_addr mz)"
  shows "rte_ring_free (Some r) (s\<lparr>mallocs := mallocs s + 2, live := live s + 2, memzones := memzones s @ [mz],
        ring_list := ring_list s @ [(mallocs s, mz_addr mz)]\<rparr>) = s\<lparr>mallocs := mallocs s + 2\<rparr>"
proof -
  have z: "find (\<lambda>z. mz_addr z = Suc (mallocs s)) (memzones s) = None"
    "filter (\<lambda>z. mz_addr z \<noteq> Suc (mallocs s)) (memzones s) = memzones s"
    using assms(1) by (auto simp: find_None_iff eal_wf_def intro!: filter_True)
  have l: "find (\<lambda>(te, data). data = Suc (mallocs s)) (ring_list s) = None"
    using assms(1) by (auto simp: find_None_iff eal_wf_def)
  have n: "(mallocs s, Suc (mallocs s)) \<notin> set (ring_list s)"
    using assms(1) by (auto simp: eal_wf_def)
  have app: "find P (xs @ [x]) = (if P x then Some x else None)" if "find P xs = None" for P and x :: 'c and xs
    using that by (induction xs) auto
  show ?thesis
    using z l n assms(2,3)
    by (simp add: rte_ring_free_def rte_memzone_free_def rte_free_def app remove1_append)
qed

section \<open>Properties\<close>

text \<open>The life of a named ring: while the heap has memory and the name is free,
  \<open>rte_ring_create\<close> returns an empty ring with room for one entry less than its size; as long as it
  exists the name cannot be used again, and the failed attempt leaks nothing; \<open>rte_ring_free\<close> gives
  back the zone, the list entry and the name.\<close>

theorem rte_ring_create_free:
  assumes "malloc_ok s = (\<lambda>_ _. True)" "memzone_lookup (RTE_RING_MZ_PREFIX @ name) s = None"
    and "List.length (memzones s) + 1 < mz_max s" "List.length name < 29"
    and "POWEROF2 c" "c \<noteq> 0" "c \<le> RTE_RING_SZ_MASK" "f AND RING_F_EXACT_SZ = 0" "eal_wf s"
  shows "\<exists>r s' s''. rte_ring_create j name c f s = (Some r, s') \<and> ring_wf r \<and> ring_elems r = []
    \<and> ring_cap r = unat c - 1
    \<and> rte_ring_create j name c f s' = (None, s'') \<and> live s'' = live s' \<and> memzones s'' = memzones s'
    \<and> memzones (rte_ring_free (Some r) s') = memzones s \<and> live (rte_ring_free (Some r) s') = live s
    \<and> ring_list (rte_ring_free (Some r) s') = ring_list s"
proof -
  obtain r mz where c: "rte_ring_create j name c f s = (Some r,
      s\<lparr>mallocs := mallocs s + 2, live := live s + 2, memzones := memzones s @ [mz],
        ring_list := ring_list s @ [(mallocs s, mz_addr mz)]\<rparr>)"
    "mz_name mz = RTE_RING_MZ_PREFIX @ name" "mz_addr mz = Suc (mallocs s)" "rmemzone r = Some (mz_addr mz)"
    "ring_wf r" "ring_elems r = []" "ring_cap r = unat c - 1"
    by (rule rte_ring_create_ok [OF assms(1,2) _ assms(4-8), where j = j]) (use assms(3) in simp)
  let ?s = "s\<lparr>mallocs := mallocs s + 2, live := live s + 2, memzones := memzones s @ [mz],
        ring_list := ring_list s @ [(mallocs s, mz_addr mz)]\<rparr>"
  have len: "List.length (RTE_RING_MZ_PREFIX @ name) < RTE_MEMZONE_NAMESIZE"
    using assms(4) by (simp add: RTE_RING_MZ_PREFIX_def RTE_MEMZONE_NAMESIZE_def)
  have taken: "memzone_lookup (RTE_RING_MZ_PREFIX @ name) ?s \<noteq> None"
    unfolding memzone_lookup_None using c(2) by auto
  have m: "rte_malloc 24 ?s = (Some (mallocs s + 2), ?s\<lparr>mallocs := mallocs s + 3, live := live s + 3\<rparr>)"
    using assms(1) by (simp add: rte_malloc_def malloc_heap_alloc_def Let_def)
  have "memzone_reserve_aligned 0 (RTE_RING_MZ_PREFIX @ name) (nat (rte_ring_get_memsize c)) 64 0
      (?s\<lparr>mallocs := mallocs s + 3, live := live s + 3\<rparr>)
      = (None, ?s\<lparr>mallocs := mallocs s + 3, live := live s + 3, rte_errno := EEXIST\<rparr>)"
    using taken assms(3) len
    by (simp add: memzone_reserve_aligned_def memzone_lookup_def RTE_MEMZONE_NAMESIZE_def)
  then have "rte_ring_create j name c f ?s
      = (None, ?s\<lparr>mallocs := mallocs s + 3, live := live s + 2, rte_errno := EEXIST\<rparr>)"
    using m len rte_ring_memsize_bounds [OF assms(5,7)] assms(8)
    by (simp add: rte_ring_create_def Let_def rte_free_def)
  then show ?thesis
    using c rte_ring_free_created [OF assms(9) c(3,4)] by (intro exI) (auto simp del: eal.update_convs)
qed

lemma rte_ring_create_free_witness:
  "\<exists>r s'. rte_ring_create (0 :: nat) ''out ring'' 1024 3 \<lparr>malloc_ok = (\<lambda>_ _. True), mallocs = 0, live = 0,
     mz_max = 2560, memzones = [], ring_list = [], rte_errno = 0, pool = []\<rparr> = (Some r, s')
    \<and> ring_cap r = 1023 \<and> live (rte_ring_free (Some r) s') = 0"
  using rte_ring_create_free [of "\<lparr>malloc_ok = (\<lambda>_ _. True), mallocs = 0, live = 0,
     mz_max = 2560, memzones = [], ring_list = [], rte_errno = 0, pool = []\<rparr>" "''out ring''" 1024 3 "0 :: nat"]
  by (fastforce simp: memzone_lookup_def POWEROF2_def RTE_RING_SZ_MASK_def RING_F_EXACT_SZ_def eal_wf_def)

end
