(* ===== verification/State.thy ===== *)
theory State
  imports Eal
begin

text \<open>
  The state of the user-space TCP/IP stack (\<open>2.4_ustack/tcp_from_king.c\<close>): the C structures as
  records, the static variables as fields of \<open>stack\<close>, the lazily allocated singletons, and the
  layout of the packet headers.

  Lists linked through \<open>prev\<close>/\<open>next\<close> are HOL lists from the head (theory \<open>Dll\<close> relates the two);
  an object that is reached through a pointer kept elsewhere has the address of its block
  (\<open>h_addr\<close>, \<open>s_addr\<close>).  Objects queued in a ring are owned by the ring, so the ring holds their
  values.  Locks are omitted: a step of the model is a critical section of the code.
  \<open>pthread_cond_signal\<close> records the address of the signalled object in \<open>signalled\<close>.

  Memory contents the code does not determine are fields of the state that no operation
  writes: \<open>beyond\<close> (bytes after the end of a heap block), \<open>junk_frag\<close>, \<open>junk_rcv_nxt\<close> and \<open>junk_protocol\<close>
  (fresh heap memory that is not cleared), \<open>rand_seq\<close> (the value of \<open>rand_r\<close>).  \<open>overread\<close> counts the bytes
  read past the end of a heap block.
\<close>

section \<open>Structures\<close>

type_synonym mac = "u8 list"

record arp_entry =
  a_ip :: u32
  hwaddr :: mac
  arp_type :: u8

record arp_table =
  arp_entries :: "arp_entry list"
  arp_count :: int

record offload =
  ol_sip :: u32
  ol_dip :: u32
  ol_sport :: u16
  ol_dport :: u16
  ol_protocol :: int
  ol_data :: "u8 list"
  ol_length :: u16

record localhost =
  h_addr :: nat
  h_fd :: int
  localip :: u32
  localmac :: mac
  localport :: u16
  h_protocol :: u8
  h_sndbuf :: "offload rte_ring option"
  h_rcvbuf :: "offload rte_ring option"

datatype NG_TCP_STATUS = NG_TCP_STATUS_CLOSED | NG_TCP_STATUS_LISTEN | NG_TCP_STATUS_SYN_RCVD
  | NG_TCP_STATUS_SYN_SENT | NG_TCP_STATUS_ESTABLISHED | NG_TCP_STATUS_FIN_WAIT_1
  | NG_TCP_STATUS_FIN_WAIT_2 | NG_TCP_STATUS_CLOSING | NG_TCP_STATUS_TIME_WAIT
  | NG_TCP_STATUS_CLOSE_WAIT | NG_TCP_STATUS_LAST_ACK

record ng_tcp_fragment =
  f_sport :: u16
  f_dport :: u16
  seqnum :: u32
  acknum :: u32
  hdrlen_off :: u8
  tcp_flags :: u8
  windows :: u16
  f_cksum :: u16
  tcp_urp :: u16
  optlen :: int
  f_option :: "u32 list"
  f_data :: "u8 list option"
  f_length :: u32

record ng_tcp_stream =
  s_addr :: nat
  s_fd :: int
  s_dip :: u32
  s_localmac :: mac
  s_dport :: u16
  s_protocol :: u8
  s_sport :: u16
  s_sip :: u32
  snd_nxt :: u32
  rcv_nxt :: u32
  s_status :: NG_TCP_STATUS
  s_sndbuf :: "ng_tcp_fragment rte_ring option"
  s_rcvbuf :: "ng_tcp_fragment rte_ring option"

record ng_tcp_table =
  tcb_count :: int
  tcb_set :: "ng_tcp_stream list"

record inout_ring =
  ring_in :: "mbuf rte_ring option"
  ring_out :: "mbuf rte_ring option"

record stack = eal +
  arpt :: "arp_table option"
  gLocalIp :: u32
  gSrcMac :: mac
  rInst :: "inout_ring option"
  tInst :: "ng_tcp_table option"
  lhost :: "localhost list"
  fd_table :: "u8 list"
  signalled :: "nat list"
  overread :: nat
  beyond :: "nat \<Rightarrow> u8"
  junk_frag :: ng_tcp_fragment
  junk_rcv_nxt :: u32
  junk_protocol :: int
  rand_seq :: "nat \<Rightarrow> u32"

text \<open>The block sizes of the structures (x86-64).\<close>

abbreviation (input) sizeof_arp_table :: nat where "sizeof_arp_table \<equiv> 16"
abbreviation (input) sizeof_arp_entry :: nat where "sizeof_arp_entry \<equiv> 32"
abbreviation (input) sizeof_inout_ring :: nat where "sizeof_inout_ring \<equiv> 16"
abbreviation (input) sizeof_ng_tcp_table :: nat where "sizeof_ng_tcp_table \<equiv> 16"
abbreviation (input) sizeof_offload :: nat where "sizeof_offload \<equiv> 32"
abbreviation (input) sizeof_localhost :: nat where "sizeof_localhost \<equiv> 144"
abbreviation (input) sizeof_ng_tcp_stream :: nat where "sizeof_ng_tcp_stream \<equiv> 160"
abbreviation (input) sizeof_ng_tcp_fragment :: nat where "sizeof_ng_tcp_fragment \<equiv> 80"

definition BURST_SIZE :: nat where "BURST_SIZE = 32"
definition RING_SIZE :: u32 where "RING_SIZE = 1024"

definition RTE_TCP_FIN_FLAG :: u8 where "RTE_TCP_FIN_FLAG = 0x01"
definition RTE_TCP_SYN_FLAG :: u8 where "RTE_TCP_SYN_FLAG = 0x02"
definition RTE_TCP_PSH_FLAG :: u8 where "RTE_TCP_PSH_FLAG = 0x08"
definition RTE_TCP_ACK_FLAG :: u8 where "RTE_TCP_ACK_FLAG = 0x10"
definition TCP_INITIAL_WINDOW :: u16 where "TCP_INITIAL_WINDOW = 14600"
definition TCP_OPTION_LENGTH :: nat where "TCP_OPTION_LENGTH = 10"
definition TCP_MAX_SEQ :: u32 where "TCP_MAX_SEQ = 4294967295"

abbreviation (input) IPPROTO_ICMP :: u8 where "IPPROTO_ICMP \<equiv> 1"
abbreviation (input) IPPROTO_TCP :: u8 where "IPPROTO_TCP \<equiv> 6"
abbreviation (input) IPPROTO_UDP :: u8 where "IPPROTO_UDP \<equiv> 17"
abbreviation (input) RTE_ETHER_TYPE_IPV4 :: u16 where "RTE_ETHER_TYPE_IPV4 \<equiv> 0x0800"
abbreviation (input) RTE_ETHER_TYPE_ARP :: u16 where "RTE_ETHER_TYPE_ARP \<equiv> 0x0806"
abbreviation (input) RTE_ARP_OP_REQUEST :: u16 where "RTE_ARP_OP_REQUEST \<equiv> 1"

definition zero_fragment :: ng_tcp_fragment where
  "zero_fragment = \<lparr>f_sport = 0, f_dport = 0, seqnum = 0, acknum = 0, hdrlen_off = 0, tcp_flags = 0,
     windows = 0, f_cksum = 0, tcp_urp = 0, optlen = 0, f_option = replicate TCP_OPTION_LENGTH 0,
     f_data = None, f_length = 0\<rparr>"

definition zero_offload :: offload where
  "zero_offload = \<lparr>ol_sip = 0, ol_dip = 0, ol_sport = 0, ol_dport = 0, ol_protocol = 0,
     ol_data = [], ol_length = 0\<rparr>"

section \<open>Header layout\<close>

text \<open>Offsets from the start of the frame: Ethernet, then ARP or IPv4 at 14, then UDP or TCP at 34
  (the code takes the transport header at \<open>iphdr + 1\<close>, whatever the header length field says).\<close>

abbreviation (input) eth_d_addr :: nat where "eth_d_addr \<equiv> 0"
abbreviation (input) eth_s_addr :: nat where "eth_s_addr \<equiv> 6"
abbreviation (input) eth_ether_type :: nat where "eth_ether_type \<equiv> 12"

abbreviation (input) arp_hardware :: nat where "arp_hardware \<equiv> 14"
abbreviation (input) arp_protocol :: nat where "arp_protocol \<equiv> 16"
abbreviation (input) arp_hlen :: nat where "arp_hlen \<equiv> 18"
abbreviation (input) arp_plen :: nat where "arp_plen \<equiv> 19"
abbreviation (input) arp_opcode :: nat where "arp_opcode \<equiv> 20"
abbreviation (input) arp_sha :: nat where "arp_sha \<equiv> 22"
abbreviation (input) arp_sip :: nat where "arp_sip \<equiv> 28"
abbreviation (input) arp_tha :: nat where "arp_tha \<equiv> 32"
abbreviation (input) arp_tip :: nat where "arp_tip \<equiv> 38"

abbreviation (input) ip_hdr :: nat where "ip_hdr \<equiv> 14"
abbreviation (input) ip_version_ihl :: nat where "ip_version_ihl \<equiv> 14"
abbreviation (input) ip_type_of_service :: nat where "ip_type_of_service \<equiv> 15"
abbreviation (input) ip_total_length :: nat where "ip_total_length \<equiv> 16"
abbreviation (input) ip_packet_id :: nat where "ip_packet_id \<equiv> 18"
abbreviation (input) ip_fragment_offset :: nat where "ip_fragment_offset \<equiv> 20"
abbreviation (input) ip_time_to_live :: nat where "ip_time_to_live \<equiv> 22"
abbreviation (input) ip_next_proto_id :: nat where "ip_next_proto_id \<equiv> 23"
abbreviation (input) ip_hdr_checksum :: nat where "ip_hdr_checksum \<equiv> 24"
abbreviation (input) ip_src_addr :: nat where "ip_src_addr \<equiv> 26"
abbreviation (input) ip_dst_addr :: nat where "ip_dst_addr \<equiv> 30"

abbreviation (input) l4_hdr :: nat where "l4_hdr \<equiv> 34"
abbreviation (input) udp_src_port :: nat where "udp_src_port \<equiv> 34"
abbreviation (input) udp_dst_port :: nat where "udp_dst_port \<equiv> 36"
abbreviation (input) udp_dgram_len :: nat where "udp_dgram_len \<equiv> 38"
abbreviation (input) udp_dgram_cksum :: nat where "udp_dgram_cksum \<equiv> 40"
abbreviation (input) udp_payload :: nat where "udp_payload \<equiv> 42"

abbreviation (input) tcp_src_port :: nat where "tcp_src_port \<equiv> 34"
abbreviation (input) tcp_dst_port :: nat where "tcp_dst_port \<equiv> 36"
abbreviation (input) tcp_sent_seq :: nat where "tcp_sent_seq \<equiv> 38"
abbreviation (input) tcp_recv_ack :: nat where "tcp_recv_ack \<equiv> 42"
abbreviation (input) tcp_data_off :: nat where "tcp_data_off \<equiv> 46"
abbreviation (input) tcp_tcp_flags :: nat where "tcp_tcp_flags \<equiv> 47"
abbreviation (input) tcp_rx_win :: nat where "tcp_rx_win \<equiv> 48"
abbreviation (input) tcp_cksum :: nat where "tcp_cksum \<equiv> 50"
abbreviation (input) tcp_tcp_urp :: nat where "tcp_tcp_urp \<equiv> 52"
abbreviation (input) tcp_payload :: nat where "tcp_payload \<equiv> 54"

section \<open>Memory and rings\<close>

text \<open>Reading \<open>n\<close> bytes of a heap block that holds \<open>data\<close>.\<close>

definition heap_read :: "u8 list \<Rightarrow> nat \<Rightarrow> stack \<Rightarrow> u8 list \<times> stack" where
  "heap_read data n s =
    (take n data @ map (\<lambda>i. beyond s i) [0..<n - List.length data],
     s\<lparr>overread := overread s + (n - List.length data)\<rparr>)"

text \<open>Ring operations through a pointer that may be \<open>NULL\<close>.\<close>

definition ring_mp_enqueue :: "'a rte_ring option \<Rightarrow> 'a \<Rightarrow> fault + (int \<times> 'a rte_ring)" where
  "ring_mp_enqueue r x = (case r of None \<Rightarrow> Inl NullDeref | Some r \<Rightarrow> Inr (rte_ring_mp_enqueue r x))"

definition ring_mc_dequeue ::
  "'a rte_ring option \<Rightarrow> fault + (int \<times> 'a option \<times> 'a rte_ring)" where
  "ring_mc_dequeue r = (case r of None \<Rightarrow> Inl NullDeref | Some r \<Rightarrow> Inr (rte_ring_mc_dequeue r))"

section \<open>Singletons\<close>

definition ringInstance :: "stack \<Rightarrow> (inout_ring, stack) res" where
  "ringInstance s =
    (case rInst s of
       Some r \<Rightarrow> Inr (r, s)
     | None \<Rightarrow>
        (case rte_malloc sizeof_inout_ring s of
           (None, s) \<Rightarrow> Inl NullDeref
         | (Some _, s) \<Rightarrow>
            let r = \<lparr>ring_in = None, ring_out = None\<rparr> in Inr (r, s\<lparr>rInst := Some r\<rparr>)))"

definition tcpInstance :: "stack \<Rightarrow> (ng_tcp_table, stack) res" where
  "tcpInstance s =
    (case tInst s of
       Some t \<Rightarrow> Inr (t, s)
     | None \<Rightarrow>
        (case rte_malloc sizeof_ng_tcp_table s of
           (None, s) \<Rightarrow> Inl NullDeref
         | (Some _, s) \<Rightarrow>
            let t = \<lparr>tcb_count = 0, tcb_set = []\<rparr> in Inr (t, s\<lparr>tInst := Some t\<rparr>)))"

text \<open>Sending a frame to the transmit ring: the burst enqueue whose result is ignored.\<close>

definition ring_out_enqueue :: "mbuf \<Rightarrow> stack \<Rightarrow> (unit, stack) res" where
  "ring_out_enqueue m s =
    bindE (ringInstance s) (\<lambda>ring s.
      case ring_out ring of
        None \<Rightarrow> Inl NullDeref
      | Some r \<Rightarrow>
          (case rte_ring_mp_enqueue_burst r [m] of
             (_, _, r) \<Rightarrow> Inr ((), s\<lparr>rInst := Some (ring\<lparr>ring_out := Some r\<rparr>)\<rparr>)))"

text \<open>Writing a control block back through its pointer.\<close>

definition put_stream :: "ng_tcp_stream \<Rightarrow> stack \<Rightarrow> stack" where
  "put_stream st s =
    s\<lparr>tInst := map_option (\<lambda>t. t\<lparr>tcb_set :=
       map (\<lambda>x. if s_addr x = s_addr st then st else x) (tcb_set t)\<rparr>) (tInst s)\<rparr>"

definition put_host :: "localhost \<Rightarrow> stack \<Rightarrow> stack" where
  "put_host h s = s\<lparr>lhost := map (\<lambda>x. if h_addr x = h_addr h then h else x) (lhost s)\<rparr>"

definition streams :: "stack \<Rightarrow> ng_tcp_stream list" where
  "streams s = (case tInst s of None \<Rightarrow> [] | Some t \<Rightarrow> tcb_set t)"

text \<open>What the heap does to the other state: only the allocation counters move.\<close>

lemma eal_frame_fields:
  fixes s s' :: stack
  assumes "eal_frame s s'"
  shows "arpt s' = arpt s" "tInst s' = tInst s" "rInst s' = rInst s" "lhost s' = lhost s"
    "fd_table s' = fd_table s" "gSrcMac s' = gSrcMac s" "gLocalIp s' = gLocalIp s"
    "signalled s' = signalled s" "overread s' = overread s" "beyond s' = beyond s"
    "junk_frag s' = junk_frag s" "junk_rcv_nxt s' = junk_rcv_nxt s" "rand_seq s' = rand_seq s"
    "pool s' = pool s" "malloc_ok s' = malloc_ok s" "mz_max s' = mz_max s" "mallocs s \<le> mallocs s'"
    "junk_protocol s' = junk_protocol s"
  using assms by (cases s; cases s'; simp add: eal_frame_def)+

lemma rte_malloc_fields [simp]:
  fixes s :: stack
  assumes "rte_malloc n s = (r, s')"
  shows "arpt s' = arpt s" "tInst s' = tInst s" "rInst s' = rInst s" "lhost s' = lhost s"
    "fd_table s' = fd_table s" "gSrcMac s' = gSrcMac s" "gLocalIp s' = gLocalIp s"
    "signalled s' = signalled s" "overread s' = overread s" "beyond s' = beyond s"
    "junk_frag s' = junk_frag s" "junk_rcv_nxt s' = junk_rcv_nxt s" "rand_seq s' = rand_seq s"
    "pool s' = pool s" "malloc_ok s' = malloc_ok s" "mz_max s' = mz_max s" "mallocs s \<le> mallocs s'"
    "junk_protocol s' = junk_protocol s"
  using rte_malloc_frame [OF assms] by (rule eal_frame_fields)+

lemma rte_malloc_zones [simp]:
  "rte_malloc n s = (r, s') \<Longrightarrow> memzones s' = memzones s"
  "rte_malloc n s = (r, s') \<Longrightarrow> ring_list s' = ring_list s"
  by (auto simp: rte_malloc_def malloc_heap_alloc_def Let_def split: if_splits)

section \<open>Rings that hold one more object\<close>

lemma mp_burst_one:
  assumes "ring_wf r" "ring_used r < ring_cap r" "rte_ring_mp_enqueue_burst r [m] = (n, fr, r')"
  shows "ring_wf r'" "ring_elems r' = ring_elems r @ [m]" "ring_cap r' = ring_cap r"
    "ring_used r' = Suc (ring_used r)"
proof -
  have e: "do_enqueue r [m] RTE_RING_QUEUE_VARIABLE False = (n, fr, r')"
    using assms(3) by (simp add: rte_ring_mp_enqueue_burst_def)
  have k: "moved RTE_RING_QUEUE_VARIABLE (List.length [m]) (ring_cap r - ring_used r) = 1"
    using assms(2) by (simp add: moved_def)
  have "unat n = 1" using do_enqueue_law [OF assms(1) _ e] unfolding k by simp
  then show "ring_wf r'" "ring_elems r' = ring_elems r @ [m]" "ring_cap r' = ring_cap r"
    "ring_used r' = Suc (ring_used r)"
    using do_enqueue_law [OF assms(1) _ e] by simp_all
qed

definition out_ring :: "stack \<Rightarrow> mbuf rte_ring option" where
  "out_ring s = (case rInst s of None \<Rightarrow> None | Some ri \<Rightarrow> ring_out ri)"

definition out_room :: "nat \<Rightarrow> stack \<Rightarrow> bool" where
  "out_room n s \<longleftrightarrow> (case out_ring s of None \<Rightarrow> False | Some r \<Rightarrow> ring_wf r \<and> ring_used r + n \<le> ring_cap r)"

definition out_frames :: "stack \<Rightarrow> mbuf list" where
  "out_frames s = (case out_ring s of None \<Rightarrow> [] | Some r \<Rightarrow> ring_elems r)"

lemma ring_out_enqueue_ok:
  assumes "out_room (Suc n) s"
  obtains ri where "ring_out_enqueue m s = Inr ((), s\<lparr>rInst := Some ri\<rparr>)"
    "out_room n (s\<lparr>rInst := Some ri\<rparr>)" "out_frames (s\<lparr>rInst := Some ri\<rparr>) = out_frames s @ [m]"
proof -
  obtain ri0 r where r: "rInst s = Some ri0" "ring_out ri0 = Some r" "ring_wf r"
    "ring_used r + Suc n \<le> ring_cap r"
    using assms by (auto simp: out_room_def out_ring_def split: option.splits)
  obtain k fr r' where e: "rte_ring_mp_enqueue_burst r [m] = (k, fr, r')" by (rule prod_cases3)
  have l: "ring_wf r'" "ring_elems r' = ring_elems r @ [m]" "ring_cap r' = ring_cap r"
    "ring_used r' = Suc (ring_used r)"
    using mp_burst_one [OF r(3) _ e] r(4) by simp_all
  show thesis
    by (rule that [of "ri0\<lparr>ring_out := Some r'\<rparr>"])
      (use r e l in \<open>simp_all add: ring_out_enqueue_def ringInstance_def out_room_def out_ring_def
        out_frames_def\<close>)
qed

section \<open>A running stack\<close>

text \<open>A state of the stack as \<open>main\<close> leaves it: both rings created, the tables allocated and
  empty, no sockets; the theorems are applied to it, and to states it evolves into.\<close>

definition demo_mbuf :: "nat \<Rightarrow> mbuf" where
  "demo_mbuf i = \<lparr>m_id = i, pkt_len = 0, data_len = 0, mdata = (\<lambda>_. 0)\<rparr>"

definition demo_pool :: "mbuf list" where
  "demo_pool = map demo_mbuf [0..<300]"

definition demo_ring :: "'a \<Rightarrow> 'a rte_ring" where
  "demo_ring x = snd (rte_ring_init x ''ring'' 1024 3)"

definition demo_stack :: stack where
  "demo_stack = \<lparr>malloc_ok = (\<lambda>_ _. True), mallocs = 10, live = 10, mz_max = 2560, memzones = [],
     ring_list = [], rte_errno = 0, pool = demo_pool,
     arpt = Some \<lparr>arp_entries = [], arp_count = 0\<rparr>, gLocalIp = 0x7700a8c0,
     gSrcMac = [2, 0, 0, 0, 0, 1],
     rInst = Some \<lparr>ring_in = Some (demo_ring (demo_mbuf 0)), ring_out = Some (demo_ring (demo_mbuf 0))\<rparr>,
     tInst = Some \<lparr>tcb_count = 0, tcb_set = []\<rparr>, lhost = [], fd_table = replicate 1024 0,
     signalled = [], overread = 0, beyond = (\<lambda>_. 0), junk_frag = zero_fragment, junk_rcv_nxt = 0, junk_protocol = 0,
     rand_seq = (\<lambda>_. 0)\<rparr>"

lemma length_demo_pool [simp]: "List.length demo_pool = 300"
  unfolding demo_pool_def length_map length_upt by simp

lemma demo_stack_simps [simp]:
  "malloc_ok demo_stack = (\<lambda>_ _. True)" "mallocs demo_stack = 10" "live demo_stack = 10"
  "mz_max demo_stack = 2560" "memzones demo_stack = []" "ring_list demo_stack = []"
  "pool demo_stack = demo_pool" "arpt demo_stack = Some \<lparr>arp_entries = [], arp_count = 0\<rparr>"
  "gLocalIp demo_stack = 0x7700a8c0" "gSrcMac demo_stack = [2, 0, 0, 0, 0, 1]"
  "tInst demo_stack = Some \<lparr>tcb_count = 0, tcb_set = []\<rparr>" "lhost demo_stack = []"
  "fd_table demo_stack = replicate 1024 0" "signalled demo_stack = []" "overread demo_stack = 0"
  "junk_frag demo_stack = zero_fragment" "rand_seq demo_stack = (\<lambda>_. 0)"
  by (simp_all only: demo_stack_def eal.simps stack.simps)

lemma demo_ring_wf: "ring_wf (demo_ring x)" "ring_elems (demo_ring x) = []" "ring_cap (demo_ring x) = 1023"
proof -
  have "fst (rte_ring_init x ''ring'' 1024 3) = 0"
    by (rule rte_ring_init_ok)
      (simp_all add: RTE_MEMZONE_NAMESIZE_def POWEROF2_def RTE_RING_SZ_MASK_def RING_F_EXACT_SZ_def)
  then have i: "rte_ring_init x ''ring'' 1024 3 = (0, demo_ring x)"
    by (simp add: demo_ring_def prod_eq_iff)
  show "ring_wf (demo_ring x)" "ring_elems (demo_ring x) = []" "ring_cap (demo_ring x) = 1023"
    using rte_ring_init_pow2 [OF i] by (simp_all add: RING_F_EXACT_SZ_def)
qed

lemma ring_used_0: "ring_elems r = [] \<Longrightarrow> ring_used r = 0"
  by (metis length_ring_elems list.size(3))

lemma demo_stack_room: "n \<le> 1023 \<Longrightarrow> out_room n demo_stack"
  using demo_ring_wf [of "demo_mbuf 0"] ring_used_0 [of "demo_ring (demo_mbuf 0)"]
  by (simp add: out_room_def out_ring_def demo_stack_def)

end
