(* ===== verification/Kni.thy ===== *)
theory Kni
  imports Kni_Fifo State
begin

text \<open>
  The kernel network interface (\<open>lib/librte_kni/rte_kni.c\<close>) and the part of the Ethernet device layer
  (\<open>lib/librte_ethdev/rte_ethdev.c\<close>) its requests reach: moving packets between the stack and the
  kernel module over the shared FIFOs, answering the kernel's requests, and the handlers.

  A FIFO carries buffer pointers; in the model it carries the buffers they point to, and the
  translation between virtual and physical addresses (\<open>va2pa\<close>) names the same buffer.  The FIFO
  counters are 32 bits wide and 1024 slots long, so the \<open>unsigned\<close> results are natural numbers here.
  A driver operation that may fail is a function from the number of the call to its result;
  an operation the driver does not offer is \<open>None\<close> (or \<open>False\<close>).
\<close>

declare rte_malloc_fields [simp del] rte_malloc_zones [simp del]

section \<open>Ethernet devices\<close>

record eth_dev =
  dev_started :: bool
  promiscuous :: bool
  mac_addr0 :: mac
  dev_removed :: bool
  lsc :: bool
  op_dev_start :: "(nat \<Rightarrow> int) option"
  op_dev_stop :: bool
  op_link_update :: bool
  op_promiscuous :: bool
  op_mac_addr_set :: "(nat \<Rightarrow> int) option"
  dev_calls :: nat

text \<open>The ports in use, by number; the others fail \<open>rte_eth_dev_is_valid_port\<close>.\<close>

type_synonym ports = "u16 \<Rightarrow> eth_dev option"

definition ENODEV :: int where "ENODEV = 19"
definition EIO :: int where "EIO = 5"
definition ENOTSUP :: int where "ENOTSUP = 95"

definition rte_eth_dev_is_valid_port :: "u16 \<Rightarrow> ports \<Rightarrow> bool" where
  "rte_eth_dev_is_valid_port port_id ps \<longleftrightarrow> ps port_id \<noteq> None"

definition eth_err :: "eth_dev \<Rightarrow> int \<Rightarrow> int" where
  "eth_err dev ret = (if ret = 0 then 0 else if dev_removed dev then - EIO else ret)"

definition rte_eth_dev_start :: "u16 \<Rightarrow> ports \<Rightarrow> int \<times> ports" where
  "rte_eth_dev_start port_id ps =
    (case ps port_id of
       None \<Rightarrow> (- EINVAL, ps)
     | Some dev \<Rightarrow>
        (case op_dev_start dev of
           None \<Rightarrow> (- ENOTSUP, ps)
         | Some dev_start \<Rightarrow>
            if dev_started dev then (0, ps)
            else
             let diag = dev_start (dev_calls dev); dev = dev\<lparr>dev_calls := Suc (dev_calls dev)\<rparr>
             in if diag = 0 then
                  let dev = dev\<lparr>dev_started := True\<rparr>
                  in (if \<not> lsc dev \<and> \<not> op_link_update dev then - ENOTSUP else 0, ps(port_id \<mapsto> dev))
                else (eth_err dev diag, ps(port_id \<mapsto> dev))))"

definition rte_eth_dev_stop :: "u16 \<Rightarrow> ports \<Rightarrow> ports" where
  "rte_eth_dev_stop port_id ps =
    (case ps port_id of
       None \<Rightarrow> ps
     | Some dev \<Rightarrow> if \<not> op_dev_stop dev \<or> \<not> dev_started dev then ps
                   else ps(port_id \<mapsto> dev\<lparr>dev_started := False\<rparr>))"

definition rte_eth_promiscuous_enable :: "u16 \<Rightarrow> ports \<Rightarrow> ports" where
  "rte_eth_promiscuous_enable port_id ps =
    (case ps port_id of
       None \<Rightarrow> ps
     | Some dev \<Rightarrow> if op_promiscuous dev then ps(port_id \<mapsto> dev\<lparr>promiscuous := True\<rparr>) else ps)"

definition rte_eth_promiscuous_disable :: "u16 \<Rightarrow> ports \<Rightarrow> ports" where
  "rte_eth_promiscuous_disable port_id ps =
    (case ps port_id of
       None \<Rightarrow> ps
     | Some dev \<Rightarrow> if op_promiscuous dev then ps(port_id \<mapsto> dev\<lparr>promiscuous := False\<rparr>) else ps)"

definition rte_is_valid_assigned_ether_addr :: "mac \<Rightarrow> bool" where
  "rte_is_valid_assigned_ether_addr ea \<longleftrightarrow> (ea ! 0) AND 1 = 0 \<and> \<not> (\<forall>b\<in>set ea. b = 0)"

definition rte_eth_dev_default_mac_addr_set :: "u16 \<Rightarrow> mac \<Rightarrow> ports \<Rightarrow> int \<times> ports" where
  "rte_eth_dev_default_mac_addr_set port_id addr ps =
    (case ps port_id of
       None \<Rightarrow> (- ENODEV, ps)
     | Some dev \<Rightarrow>
        if \<not> rte_is_valid_assigned_ether_addr addr then (- EINVAL, ps)
        else case op_mac_addr_set dev of
          None \<Rightarrow> (- ENOTSUP, ps)
        | Some mac_addr_set \<Rightarrow>
            let ret = mac_addr_set (dev_calls dev); dev = dev\<lparr>dev_calls := Suc (dev_calls dev)\<rparr>
            in if ret < 0 then (ret, ps(port_id \<mapsto> dev))
               else (0, ps(port_id \<mapsto> dev\<lparr>mac_addr0 := addr\<rparr>)))"

section \<open>The device and its requests\<close>

definition MAX_MBUF_BURST_NUM :: nat where "MAX_MBUF_BURST_NUM = 32"
definition KNI_FIFO_COUNT_MAX :: u32 where "KNI_FIFO_COUNT_MAX = 1024"

text \<open>The union of a request is the argument of its kind; \<open>Req_other\<close> has an unknown \<open>req_id\<close>.\<close>

datatype kni_req =
    RTE_KNI_REQ_CHANGE_MTU u32
  | RTE_KNI_REQ_CFG_NETWORK_IF u8
  | RTE_KNI_REQ_CHANGE_MAC_ADDR mac
  | RTE_KNI_REQ_CHANGE_PROMISC u8
  | Req_other u32

record rte_kni_ops =
  ops_port_id :: u16
  change_mtu :: "(u16 \<Rightarrow> u32 \<Rightarrow> ports \<Rightarrow> int \<times> ports) option"
  config_network_if :: "(u16 \<Rightarrow> u8 \<Rightarrow> ports \<Rightarrow> int \<times> ports) option"
  config_mac_address :: "(u16 \<Rightarrow> mac \<Rightarrow> ports \<Rightarrow> int \<times> ports) option"
  config_promiscusity :: "(u16 \<Rightarrow> u8 \<Rightarrow> ports \<Rightarrow> int \<times> ports) option"

text \<open>\<open>kni_zones\<close> are the zones \<open>m_tx_q\<close>, \<open>m_rx_q\<close>, \<open>m_alloc_q\<close>, \<open>m_free_q\<close>, \<open>m_req_q\<close>, \<open>m_resp_q\<close> and
  \<open>m_sync_addr\<close>, in this order; \<open>sync_req\<close> and \<open>sync_result\<close> are the request in the memory at \<open>sync_addr\<close>.\<close>

record rte_kni =
  kni_name :: string
  group_id :: u16
  mbuf_size :: u32
  kni_zones :: "nat list"
  tx_q :: "mbuf rte_kni_fifo"
  rx_q :: "mbuf rte_kni_fifo"
  alloc_q :: "mbuf rte_kni_fifo"
  free_q :: "mbuf rte_kni_fifo"
  req_q :: "nat rte_kni_fifo"
  resp_q :: "nat rte_kni_fifo"
  sync_addr :: nat
  sync_req :: kni_req
  sync_result :: int
  kni_ops :: rte_kni_ops

definition UINT16_MAX :: u16 where "UINT16_MAX = 65535"

definition kni_config_mac_address :: "u16 \<Rightarrow> mac \<Rightarrow> ports \<Rightarrow> int \<times> ports" where
  "kni_config_mac_address port_id mac_addr ps =
    (if \<not> rte_eth_dev_is_valid_port port_id ps then (- EINVAL, ps)
     else rte_eth_dev_default_mac_addr_set port_id mac_addr ps)"

definition kni_config_promiscusity :: "u16 \<Rightarrow> u8 \<Rightarrow> ports \<Rightarrow> int \<times> ports" where
  "kni_config_promiscusity port_id to_on ps =
    (if \<not> rte_eth_dev_is_valid_port port_id ps then (- EINVAL, ps)
     else (0, if to_on \<noteq> 0 then rte_eth_promiscuous_enable port_id ps
              else rte_eth_promiscuous_disable port_id ps))"

text \<open>The actions of one request: the new \<open>req->result\<close> and the ports.\<close>

definition kni_do_request :: "rte_kni_ops \<Rightarrow> kni_req \<Rightarrow> int \<Rightarrow> ports \<Rightarrow> int \<times> ports" where
  "kni_do_request ops req result ps =
    (case req of
       RTE_KNI_REQ_CHANGE_MTU new_mtu \<Rightarrow>
         (case change_mtu ops of None \<Rightarrow> (result, ps) | Some f \<Rightarrow> f (ops_port_id ops) new_mtu ps)
     | RTE_KNI_REQ_CFG_NETWORK_IF if_up \<Rightarrow>
         (case config_network_if ops of None \<Rightarrow> (result, ps) | Some f \<Rightarrow> f (ops_port_id ops) if_up ps)
     | RTE_KNI_REQ_CHANGE_MAC_ADDR mac_addr \<Rightarrow>
         (case config_mac_address ops of
            Some f \<Rightarrow> f (ops_port_id ops) mac_addr ps
          | None \<Rightarrow> if ops_port_id ops \<noteq> UINT16_MAX then kni_config_mac_address (ops_port_id ops) mac_addr ps
                    else (result, ps))
     | RTE_KNI_REQ_CHANGE_PROMISC to_on \<Rightarrow>
         (case config_promiscusity ops of
            Some f \<Rightarrow> f (ops_port_id ops) to_on ps
          | None \<Rightarrow> if ops_port_id ops \<noteq> UINT16_MAX then kni_config_promiscusity (ops_port_id ops) to_on ps
                    else (result, ps))
     | Req_other req_id \<Rightarrow> (- EINVAL, ps))"

definition rte_kni_handle_request :: "rte_kni option \<Rightarrow> ports \<Rightarrow> int \<times> rte_kni option \<times> ports" where
  "rte_kni_handle_request kni ps =
    (case kni of
       None \<Rightarrow> (-1, None, ps)
     | Some kni \<Rightarrow>
        (case kni_fifo_get (req_q kni) 1 of
           ([], q) \<Rightarrow> (0, Some (kni\<lparr>req_q := q\<rparr>), ps)
         | (req # _, q) \<Rightarrow>
            let kni = kni\<lparr>req_q := q\<rparr>
            in if req \<noteq> sync_addr kni then (-1, Some kni, ps)
               else case kni_do_request (kni_ops kni) (sync_req kni) (sync_result kni) ps of
                 (result, ps) \<Rightarrow>
                   (case kni_fifo_put (resp_q kni) [req] of
                      (n, q) \<Rightarrow> (if n \<noteq> 1 then -1 else 0,
                         Some (kni\<lparr>sync_result := result, resp_q := q\<rparr>), ps))))"

section \<open>Packets\<close>

fun free_all :: "mbuf list \<Rightarrow> 'z eal_scheme \<Rightarrow> 'z eal_scheme" where
  "free_all [] s = s"
| "free_all (m # ms) s = free_all ms (rte_pktmbuf_free m s)"

definition kni_free_mbufs :: "rte_kni \<Rightarrow> 'z eal_scheme \<Rightarrow> rte_kni \<times> 'z eal_scheme" where
  "kni_free_mbufs kni s =
    (case kni_fifo_get (free_q kni) MAX_MBUF_BURST_NUM of
       (pkts, q) \<Rightarrow> (kni\<lparr>free_q := q\<rparr>, free_all pkts s))"

definition rte_kni_tx_burst :: "rte_kni \<Rightarrow> mbuf list \<Rightarrow> 'z eal_scheme \<Rightarrow> nat \<times> rte_kni \<times> 'z eal_scheme" where
  "rte_kni_tx_burst kni mbufs s =
    (let num = min (unat (kni_fifo_free_count (rx_q kni))) (List.length mbufs)
     in case kni_fifo_put (rx_q kni) (take num mbufs) of
          (ret, q) \<Rightarrow>
            (case kni_free_mbufs (kni\<lparr>rx_q := q\<rparr>) s of (kni, s) \<Rightarrow> (ret, kni, s)))"

fun alloc_some :: "nat \<Rightarrow> 'z eal_scheme \<Rightarrow> mbuf list \<times> 'z eal_scheme" where
  "alloc_some 0 s = ([], s)"
| "alloc_some (Suc n) s =
    (case rte_pktmbuf_alloc s of
       (None, s) \<Rightarrow> ([], s)
     | (Some m, s) \<Rightarrow> (case alloc_some n s of (ms, s) \<Rightarrow> (m # ms, s)))"

text \<open>The pool is configured (\<open>kni->pktmbuf_pool\<close> is the pool \<open>main\<close> created).\<close>

definition kni_allocate_mbufs :: "rte_kni \<Rightarrow> 'z eal_scheme \<Rightarrow> rte_kni \<times> 'z eal_scheme" where
  "kni_allocate_mbufs kni s =
    (let allocq_free = (f_read (alloc_q kni) - f_write (alloc_q kni) - 1) AND (of_nat MAX_MBUF_BURST_NUM - 1)
     in case alloc_some (unat allocq_free) s of
          (pkts, s) \<Rightarrow>
            if pkts = [] then (kni, s)
            else case kni_fifo_put (alloc_q kni) pkts of
              (ret, q) \<Rightarrow>
                (kni\<lparr>alloc_q := q\<rparr>,
                 if ret < List.length pkts \<and> ret < MAX_MBUF_BURST_NUM then free_all (drop ret pkts) s else s))"

definition rte_kni_rx_burst :: "rte_kni \<Rightarrow> nat \<Rightarrow> 'z eal_scheme \<Rightarrow> mbuf list \<times> rte_kni \<times> 'z eal_scheme" where
  "rte_kni_rx_burst kni num s =
    (case kni_fifo_get (tx_q kni) num of
       (mbufs, q) \<Rightarrow>
         let kni = kni\<lparr>tx_q := q\<rparr>
         in case (if mbufs \<noteq> [] then kni_allocate_mbufs kni s else (kni, s)) of
              (kni, s) \<Rightarrow> (mbufs, kni, s))"

section \<open>Creating the device\<close>

text \<open>The zone names, truncated by \<open>snprintf\<close>, in the order of the reservations.\<close>

definition kni_mz_names :: "string \<Rightarrow> string list" where
  "kni_mz_names name =
    map (\<lambda>q. take (RTE_MEMZONE_NAMESIZE - 1) (q @ name))
      [''kni_tx_'', ''kni_rx_'', ''kni_alloc_'', ''kni_free_'', ''kni_req_'', ''kni_resp_'', ''kni_sync_'']"

definition KNI_FIFO_SIZE :: nat where "KNI_FIFO_SIZE = 8208"

fun free_zones :: "nat list \<Rightarrow> 'z eal_scheme \<Rightarrow> 'z eal_scheme" where
  "free_zones [] s = s"
| "free_zones (a # as) s = free_zones as (snd (rte_memzone_free (Some a) s))"

text \<open>\<open>kni_reserve_mz\<close>: the zones reserved so far are kept latest first, the order in which the cascade
  of labels frees them when a reservation fails.\<close>

fun kni_reserve_from :: "nat list \<Rightarrow> string list \<Rightarrow> 'z eal_scheme \<Rightarrow> nat list option \<times> 'z eal_scheme" where
  "kni_reserve_from zs [] s = (Some (rev zs), s)"
| "kni_reserve_from zs (name # names) s =
    (case memzone_reserve_aligned 0 name KNI_FIFO_SIZE 64 0 s of
       (None, s) \<Rightarrow> (None, free_zones zs s)
     | (Some mz, s) \<Rightarrow> kni_reserve_from (mz_addr mz # zs) names s)"

definition kni_reserve_mz :: "string \<Rightarrow> 'z eal_scheme \<Rightarrow> nat list option \<times> 'z eal_scheme" where
  "kni_reserve_mz name s = kni_reserve_from [] (kni_mz_names name) s"

definition kni_release_mz :: "rte_kni \<Rightarrow> 'z eal_scheme \<Rightarrow> 'z eal_scheme" where
  "kni_release_mz kni s = free_zones (kni_zones kni) s"

record rte_kni_conf =
  conf_name :: string
  conf_group_id :: u16
  conf_mbuf_size :: u32

definition zero_ops :: rte_kni_ops where
  "zero_ops = \<lparr>ops_port_id = 0, change_mtu = None, config_network_if = None, config_mac_address = None,
     config_promiscusity = None\<rparr>"

definition fresh_fifo :: "'a \<Rightarrow> 'a rte_kni_fifo" where
  "fresh_fifo junk = the (kni_fifo_init (replicate (unat KNI_FIFO_COUNT_MAX) junk) KNI_FIFO_COUNT_MAX)"

text \<open>
  \<open>rte_kni_alloc\<close>, with the open kernel device \<open>kni_fd\<close>, the answer \<open>ioctl_ret\<close> of the kernel to
  \<open>RTE_KNI_IOCTL_CREATE\<close>, the names of the devices in the list, and \<open>junk\<close> for the memory of the new
  zones.  The new device is appended to the list by its name.
\<close>

definition rte_kni_alloc ::
  "int \<Rightarrow> int \<Rightarrow> mbuf \<Rightarrow> rte_kni_conf option \<Rightarrow> rte_kni_ops option \<Rightarrow> string list \<Rightarrow> 'z eal_scheme
     \<Rightarrow> rte_kni option \<times> string list \<times> 'z eal_scheme" where
  "rte_kni_alloc kni_fd ioctl_ret junk conf ops kni_list s =
    (case conf of
       None \<Rightarrow> (None, kni_list, s)
     | Some conf \<Rightarrow>
        if conf_name conf = [] \<or> kni_fd < 0 \<or> conf_name conf \<in> set kni_list then (None, kni_list, s)
        else case rte_malloc 24 s of
          (None, s) \<Rightarrow> (None, kni_list, s)
        | (Some te, s) \<Rightarrow>
           (case rte_malloc 208 s of
              (None, s) \<Rightarrow> (None, kni_list, rte_free (Some te) s)
            | (Some a, s) \<Rightarrow>
               (case kni_reserve_mz (conf_name conf) s of
                  (None, s) \<Rightarrow> (None, kni_list, rte_free (Some te) (rte_free (Some a) s))
                | (Some zones, s) \<Rightarrow>
                   let kni = \<lparr>kni_name = conf_name conf, group_id = conf_group_id conf,
                              mbuf_size = conf_mbuf_size conf, kni_zones = zones,
                              tx_q = fresh_fifo junk, rx_q = fresh_fifo junk, alloc_q = fresh_fifo junk,
                              free_q = fresh_fifo junk, req_q = fresh_fifo 0, resp_q = fresh_fifo 0,
                              sync_addr = zones ! 6, sync_req = Req_other 0, sync_result = 0,
                              kni_ops = (case ops of Some ops \<Rightarrow> ops
                                         | None \<Rightarrow> zero_ops\<lparr>ops_port_id := UINT16_MAX\<rparr>)\<rparr>
                   in if ioctl_ret < 0
                      then (None, kni_list, rte_free (Some te) (rte_free (Some a) (kni_release_mz kni s)))
                      else case kni_allocate_mbufs kni s of
                             (kni, s) \<Rightarrow> (Some kni, kni_list @ [conf_name conf], s))))"

definition kni_has_ops :: "rte_kni_ops \<Rightarrow> bool" where
  "kni_has_ops ops \<longleftrightarrow> change_mtu ops \<noteq> None \<or> config_network_if ops \<noteq> None
     \<or> config_mac_address ops \<noteq> None \<or> config_promiscusity ops \<noteq> None"

definition rte_kni_register_handlers :: "rte_kni option \<Rightarrow> rte_kni_ops option \<Rightarrow> int \<times> rte_kni option" where
  "rte_kni_register_handlers kni ops =
    (case (ops, kni) of
       (None, _) \<Rightarrow> (-1, kni)
     | (_, None) \<Rightarrow> (-1, kni)
     | (Some ops, Some k) \<Rightarrow>
         if kni_has_ops (kni_ops k) then (-1, kni) else (0, Some (k\<lparr>kni_ops := ops\<rparr>)))"

definition rte_kni_unregister_handlers :: "rte_kni option \<Rightarrow> int \<times> rte_kni option" where
  "rte_kni_unregister_handlers kni =
    (case kni of
       None \<Rightarrow> (-1, None)
     | Some k \<Rightarrow> (0, Some (k\<lparr>kni_ops := zero_ops\<rparr>)))"

section \<open>Failure leaks nothing\<close>

lemma free_one_zone:
  assumes "memzones s = xs @ z # ys" "mz_addr z \<notin> mz_addr ` set (xs @ ys)"
  shows "rte_memzone_free (Some (mz_addr z)) s = (0, s\<lparr>memzones := xs @ ys, live := live s - 1\<rparr>)"
proof -
  have "find (\<lambda>y. mz_addr y = mz_addr z) (xs @ z # ys) = Some z"
    using assms(2) by (induction xs) auto
  moreover have "filter (\<lambda>y. mz_addr y \<noteq> mz_addr z) us = us" if "set us \<subseteq> set (xs @ ys)" for us
    using assms(2) that by (intro filter_True) (metis imageI subsetD)
  ultimately show ?thesis using assms(1) by (simp add: rte_memzone_free_def rte_free_def)
qed

lemma free_zones_latest_first:
  assumes "memzones s = zs @ zs'" "distinct (map mz_addr (zs @ zs'))"
  shows "memzones (free_zones (rev (map mz_addr zs')) s) = zs
    \<and> live (free_zones (rev (map mz_addr zs')) s) = live s - int (List.length zs')"
  using assms
proof (induction zs' arbitrary: s rule: rev_induct)
  case (snoc z zs')
  let ?s = "s\<lparr>memzones := zs @ zs', live := live s - 1\<rparr>"
  have "rte_memzone_free (Some (mz_addr z)) s = (0, ?s)"
    using free_one_zone [of s "zs @ zs'" z "[]"] snoc.prems by auto
  moreover have "memzones (free_zones (rev (map mz_addr zs')) ?s) = zs
    \<and> live (free_zones (rev (map mz_addr zs')) ?s) = live ?s - int (List.length zs')"
    by (rule snoc.IH) (use snoc.prems(2) in auto)
  ultimately show ?case by simp
qed simp

lemma free_zones_in_order:
  assumes "memzones s = zs @ zs'" "distinct (map mz_addr (zs @ zs'))"
  shows "memzones (free_zones (map mz_addr zs') s) = zs
    \<and> live (free_zones (map mz_addr zs') s) = live s - int (List.length zs')"
  using assms
proof (induction zs' arbitrary: s)
  case (Cons z zs')
  let ?s = "s\<lparr>memzones := zs @ zs', live := live s - 1\<rparr>"
  have "rte_memzone_free (Some (mz_addr z)) s = (0, ?s)"
    using free_one_zone [of s zs z zs'] Cons.prems by auto
  moreover have "memzones (free_zones (map mz_addr zs') ?s) = zs
    \<and> live (free_zones (map mz_addr zs') ?s) = live ?s - int (List.length zs')"
    by (rule Cons.IH) (use Cons.prems(2) in auto)
  ultimately show ?case by simp
qed simp

text \<open>A reservation either fails and changes nothing, or appends one zone with a fresh address.\<close>

lemma malloc_heap_alloc_cases:
  "malloc_heap_alloc n s = (r, s') \<Longrightarrow> memzones s' = memzones s \<and> mallocs s' = Suc (mallocs s)
    \<and> (case r of None \<Rightarrow> live s' = live s | Some a \<Rightarrow> a = mallocs s \<and> live s' = live s + 1)"
  by (auto simp: malloc_heap_alloc_def Let_def split: if_splits)

lemma memzone_reserve_cases:
  assumes "memzone_reserve_aligned big n l al bd s = (r, s')"
  shows "(r = None \<longrightarrow> memzones s' = memzones s \<and> live s' = live s)
    \<and> (\<forall>mz. r = Some mz \<longrightarrow> memzones s' = memzones s @ [mz] \<and> mz_addr mz = mallocs s
        \<and> mallocs s' = Suc (mallocs s) \<and> live s' = live s + 1)
    \<and> mallocs s \<le> mallocs s'"
proof (cases "\<exists>e. (r, s') = (None, s\<lparr>rte_errno := e\<rparr>)")
  case True
  then show ?thesis by auto
next
  case False
  let ?len = "RTE_ALIGN_CEIL l RTE_CACHE_LINE_SIZE"
  let ?n = "if ?len = 0 \<and> bd = 0 then big else if ?len = 0 then unat bd else max RTE_CACHE_LINE_SIZE ?len"
  obtain a s1 where h: "malloc_heap_alloc ?n s = (a, s1)" by fastforce
  have "(r, s') = (case a of None \<Rightarrow> (None, s1\<lparr>rte_errno := ENOMEM\<rparr>)
     | Some a \<Rightarrow> (Some \<lparr>mz_name = n, mz_addr = a, mz_len = ?n\<rparr>,
         s1\<lparr>memzones := memzones s1 @ [\<lparr>mz_name = n, mz_addr = a, mz_len = ?n\<rparr>]\<rparr>))"
    using assms False unfolding memzone_reserve_aligned_def Let_def h prod.case
    by (simp only: split: if_split_asm) blast+
  then show ?thesis using malloc_heap_alloc_cases [OF h] by (cases a) auto
qed

lemma reserve_from_cases:
  assumes "kni_reserve_from (rev (map mz_addr zs')) names s = (r, s')"
    and "memzones s = zs @ zs'" "distinct (map mz_addr (zs @ zs'))" "\<forall>z\<in>set (zs @ zs'). mz_addr z < mallocs s"
  shows "(r = None \<longrightarrow> memzones s' = zs \<and> live s' = live s - int (List.length zs'))
    \<and> (\<forall>as. r = Some as \<longrightarrow> (\<exists>new. memzones s' = zs @ zs' @ new \<and> as = map mz_addr (zs' @ new)
          \<and> List.length new = List.length names \<and> live s' = live s + int (List.length names)
          \<and> distinct (map mz_addr (zs @ zs' @ new))))"
  using assms
proof (induction names arbitrary: s zs')
  case Nil
  then show ?case by auto
next
  case (Cons n names)
  obtain mz s1 where e: "memzone_reserve_aligned 0 n KNI_FIFO_SIZE 64 0 s = (mz, s1)" by fastforce
  note c = memzone_reserve_cases [OF e]
  show ?case
  proof (cases mz)
    case None
    then have r: "r = None" "s' = free_zones (rev (map mz_addr zs')) s1" using Cons.prems(1) e by simp_all
    have "memzones s1 = zs @ zs'" "live s1 = live s" using c None Cons.prems(2) by simp_all
    then show ?thesis using free_zones_latest_first [of s1 zs zs'] Cons.prems(3) r by simp
  next
    case (Some z)
    have s1: "memzones s1 = zs @ zs' @ [z]" "mz_addr z = mallocs s" "mallocs s1 = Suc (mallocs s)" "live s1 = live s + 1"
      using c Some Cons.prems(2) by auto
    have "kni_reserve_from (rev (map mz_addr (zs' @ [z]))) names s1 = (r, s')"
      using Cons.prems(1) e Some by simp
    moreover have "memzones s1 = zs @ (zs' @ [z])" "distinct (map mz_addr (zs @ (zs' @ [z])))"
      "\<forall>x\<in>set (zs @ (zs' @ [z])). mz_addr x < mallocs s1"
      using s1 Cons.prems(3,4) by (auto intro: less_SucI)
    ultimately have IH: "(r = None \<longrightarrow> memzones s' = zs \<and> live s' = live s1 - int (List.length (zs' @ [z])))
      \<and> (\<forall>as. r = Some as \<longrightarrow> (\<exists>new. memzones s' = zs @ (zs' @ [z]) @ new \<and> as = map mz_addr ((zs' @ [z]) @ new)
          \<and> List.length new = List.length names \<and> live s' = live s1 + int (List.length names)
          \<and> distinct (map mz_addr (zs @ (zs' @ [z]) @ new))))"
      by (rule Cons.IH)
    show ?thesis
    proof (intro conjI impI allI)
      assume "r = None"
      then show "memzones s' = zs" "live s' = live s - int (List.length zs')" using IH s1(4) by simp_all
    next
      fix as assume "r = Some as"
      then obtain new where "memzones s' = zs @ (zs' @ [z]) @ new" "as = map mz_addr ((zs' @ [z]) @ new)"
        "List.length new = List.length names" "live s' = live s1 + int (List.length names)"
        "distinct (map mz_addr (zs @ (zs' @ [z]) @ new))"
        using IH by blast
      then show "\<exists>new. memzones s' = zs @ zs' @ new \<and> as = map mz_addr (zs' @ new)
          \<and> List.length new = List.length (n # names) \<and> live s' = live s + int (List.length (n # names))
          \<and> distinct (map mz_addr (zs @ zs' @ new))"
        using s1(4) by (intro exI [of _ "z # new"]) simp
    qed
  qed
qed

definition zones_wf :: "'z eal_scheme \<Rightarrow> bool" where
  "zones_wf s \<longleftrightarrow> distinct (map mz_addr (memzones s)) \<and> (\<forall>z\<in>set (memzones s). mz_addr z < mallocs s)"

lemma kni_reserve_mz_cases:
  assumes "kni_reserve_mz name s = (r, s')" "zones_wf s"
  shows "(r = None \<longrightarrow> memzones s' = memzones s \<and> live s' = live s)
    \<and> (\<forall>as. r = Some as \<longrightarrow> (\<exists>new. memzones s' = memzones s @ new \<and> as = map mz_addr new
          \<and> List.length new = 7 \<and> live s' = live s + 7 \<and> distinct (map mz_addr (memzones s @ new))))"
proof -
  have l: "List.length (kni_mz_names name) = 7" by (simp add: kni_mz_names_def)
  have k: "kni_reserve_from (rev (map mz_addr [])) (kni_mz_names name) s = (r, s')"
    using assms(1) by (simp add: kni_reserve_mz_def)
  have "memzones s = memzones s @ []" "distinct (map mz_addr (memzones s @ []))"
    "\<forall>z\<in>set (memzones s @ []). mz_addr z < mallocs s"
    using assms(2) by (simp_all add: zones_wf_def)
  from reserve_from_cases [OF k this] show ?thesis by (simp add: l)
qed

text \<open>The heap alone: a request adds one live block or none.\<close>

lemma rte_malloc_cases:
  "rte_malloc n s = (r, s') \<Longrightarrow> memzones s' = memzones s \<and> mallocs s \<le> mallocs s'
    \<and> live s' = live s + (if r = None then 0 else 1)"
  by (auto simp: rte_malloc_def malloc_heap_alloc_def Let_def split: if_splits)

text \<open>\<open>rte_kni_alloc\<close> undoes whatever it reserved when a later step fails, including the refusal of the
  kernel after all seven zones exist.\<close>

lemma rte_kni_alloc_fails:
  assumes "rte_kni_alloc fd ret junk conf ops l s = (None, l', s')" "zones_wf s"
  shows "l' = l \<and> memzones s' = memzones s \<and> live s' = live s"
proof (cases conf)
  case None
  then show ?thesis using assms(1) by (simp add: rte_kni_alloc_def)
next
  case conf: (Some c)
  obtain te s1 where m1: "rte_malloc 24 s = (te, s1)" by fastforce
  obtain a s2 where m2: "rte_malloc 208 s1 = (a, s2)" by fastforce
  obtain z s3 where m3: "kni_reserve_mz (conf_name c) s2 = (z, s3)" by fastforce
  note h1 = rte_malloc_cases [OF m1] and h2 = rte_malloc_cases [OF m2]
  have "zones_wf s2" using assms(2) h1 h2 by (fastforce simp: zones_wf_def)
  note h3 = kni_reserve_mz_cases [OF m3 this]
  show ?thesis
  proof (cases z)
    case None
    then show ?thesis
      using assms(1) conf m1 m2 m3 h1 h2 h3
      by (auto simp: rte_kni_alloc_def rte_free_def Let_def split: if_splits option.splits)
  next
    case (Some zs)
    obtain new where n: "memzones s3 = memzones s2 @ new" "zs = map mz_addr new" "List.length new = 7"
      "live s3 = live s2 + 7" "distinct (map mz_addr (memzones s2 @ new))"
      using h3 Some by auto
    have "memzones (free_zones zs s3) = memzones s2 \<and> live (free_zones zs s3) = live s2"
      using free_zones_in_order [OF n(1,5)] n(2-4) by simp
    then show ?thesis
      using assms(1) conf m1 m2 m3 h1 h2 Some
      by (auto simp: rte_kni_alloc_def rte_free_def kni_release_mz_def Let_def
          split: if_splits option.splits prod.splits)
  qed
qed

end
