(* ===== verification/Fd.thy ===== *)
theory Fd
  imports State
begin

text \<open>
  The descriptor bitmap (\<open>get_fd_frombitmap\<close>, \<open>set_fd_frombitmap\<close>) and its contract as an
  allocator of numbers, and the lookups of sockets by descriptor, address and port.
\<close>

section \<open>The bitmap\<close>

definition DEFAULT_FD_NUM :: nat where "DEFAULT_FD_NUM = 3"
definition MAX_FD_COUNT :: nat where "MAX_FD_COUNT = 1024"

text \<open>The mask \<open>0x1 << k\<close>.\<close>

definition fd_mask :: "nat \<Rightarrow> u8" where
  "fd_mask k = push_bit k 1"

function get_fd_loop :: "nat \<Rightarrow> u8 list \<Rightarrow> int \<times> u8 list" where
  "get_fd_loop fd table =
    (if fd < MAX_FD_COUNT then
       (if (table ! (fd div 8)) AND fd_mask (fd mod 8) = 0
        then (int fd, table[fd div 8 := (table ! (fd div 8)) OR fd_mask (fd mod 8)])
        else get_fd_loop (Suc fd) table)
     else (-1, table))"
  by pat_completeness auto
termination by (relation "measure (\<lambda>(fd, _). MAX_FD_COUNT - fd)") auto

declare get_fd_loop.simps [simp del]

definition get_fd_frombitmap :: "u8 list \<Rightarrow> int \<times> u8 list" where
  "get_fd_frombitmap table = get_fd_loop DEFAULT_FD_NUM table"

text \<open>A negative descriptor makes the C code shift by a negative amount.\<close>

definition set_fd_frombitmap :: "int \<Rightarrow> u8 list \<Rightarrow> fault + (int \<times> u8 list)" where
  "set_fd_frombitmap fd table =
    (if fd \<ge> int MAX_FD_COUNT then Inr (-1, table)
     else if fd < 0 then Inl BadFd
     else let n = nat fd
          in Inr (0, table[n div 8 := (table ! (n div 8)) AND NOT (fd_mask (n mod 8))]))"

section \<open>The bitmap as a set\<close>

definition fd_used :: "u8 list \<Rightarrow> nat set" where
  "fd_used table = {n. n < MAX_FD_COUNT \<and> bit (table ! (n div 8)) (n mod 8)}"

definition fd_wf :: "u8 list \<Rightarrow> bool" where
  "fd_wf table \<longleftrightarrow> List.length table = MAX_FD_COUNT"

lemma bit_one_shift: "bit (fd_mask k) j \<longleftrightarrow> j = k \<and> k < 8"
  by (auto simp only: fd_mask_def bit_push_bit_iff bit_1_iff possible_bit_word len_num0 len_bit0 len_num1)

lemma bit_test:
  assumes "k < 8"
  shows "(x AND fd_mask k) = 0 \<longleftrightarrow> \<not> bit x k"
proof
  assume "x AND fd_mask k = 0"
  then have "\<not> bit (x AND fd_mask k) k" by simp
  then show "\<not> bit x k" using assms by (simp add: bit_and_iff bit_one_shift)
next
  assume "\<not> bit x k"
  then show "x AND fd_mask k = 0"
    by (intro bit_word_eqI) (auto simp: bit_and_iff bit_one_shift)
qed

lemma div_mod_8: "m div 8 = n div 8 \<Longrightarrow> m mod 8 = n mod 8 \<Longrightarrow> m = (n :: nat)"
  by (metis div_mult_mod_eq)

lemma fd_index: "fd_wf t \<Longrightarrow> n < MAX_FD_COUNT \<Longrightarrow> n div 8 < List.length t"
  by (simp add: fd_wf_def)

lemma fd_used_set:
  assumes "fd_wf t" "n < MAX_FD_COUNT"
  shows "fd_used (t[n div 8 := (t ! (n div 8)) OR fd_mask (n mod 8)]) = insert n (fd_used t)"
proof (rule set_eqI)
  fix m
  show "m \<in> fd_used (t[n div 8 := (t ! (n div 8)) OR fd_mask (n mod 8)]) \<longleftrightarrow> m \<in> insert n (fd_used t)"
    using fd_index [OF assms] assms(2) div_mod_8 [of m n]
    by (cases "m div 8 = n div 8") (auto simp: fd_used_def bit_or_iff bit_one_shift)
qed

lemma fd_used_clear:
  assumes "fd_wf t" "n < MAX_FD_COUNT"
  shows "fd_used (t[n div 8 := (t ! (n div 8)) AND NOT (fd_mask (n mod 8))]) = fd_used t - {n}"
proof (rule set_eqI)
  fix m
  have "m mod 8 < LENGTH(8)" by simp
  then show "m \<in> fd_used (t[n div 8 := (t ! (n div 8)) AND NOT (fd_mask (n mod 8))]) \<longleftrightarrow> m \<in> fd_used t - {n}"
    using fd_index [OF assms] assms(2) div_mod_8 [of m n]
    by (cases "m div 8 = n div 8")
      (auto simp: fd_used_def bit_and_iff bit_not_iff bit_one_shift bit_1_iff)
qed

lemma get_fd_loop_spec:
  assumes "fd_wf t"
  shows "case get_fd_loop fd t of (r, t') \<Rightarrow>
    (r = -1 \<and> t' = t \<and> {fd..<MAX_FD_COUNT} \<subseteq> fd_used t)
    \<or> (\<exists>n. r = int n \<and> fd \<le> n \<and> n < MAX_FD_COUNT \<and> n \<notin> fd_used t \<and> {fd..<n} \<subseteq> fd_used t
         \<and> t' = t[n div 8 := (t ! (n div 8)) OR fd_mask (n mod 8)])"
  using assms
proof (induction fd t rule: get_fd_loop.induct)
  case (1 fd t)
  show ?case
  proof (cases "fd < MAX_FD_COUNT")
    case False
    then show ?thesis by (subst get_fd_loop.simps) simp
  next
    case less: True
    show ?thesis
    proof (cases "(t ! (fd div 8)) AND fd_mask (fd mod 8) = 0")
      case True
      then have "fd \<notin> fd_used t" by (simp add: bit_test fd_used_def)
      then show ?thesis using less True by (subst get_fd_loop.simps) simp
    next
      case False
      then have u: "fd \<in> fd_used t" using less by (simp add: bit_test fd_used_def)
      have r: "get_fd_loop fd t = get_fd_loop (Suc fd) t"
        using less False by (subst get_fd_loop.simps) simp
      obtain res t' where e: "get_fd_loop (Suc fd) t = (res, t')" by fastforce
      have ext: "{fd..<n} \<subseteq> fd_used t" if "{Suc fd..<n} \<subseteq> fd_used t" for n
        using that u by (metis Suc_leI atLeastLessThan_iff le_neq_implies_less subset_iff)
      show ?thesis
        using 1(1) [OF less False 1(2)] ext unfolding r e by (auto dest: Suc_leD)
    qed
  qed
qed

section \<open>Allocators of numbers\<close>

locale id_allocator =
  fixes alloc :: "'s \<Rightarrow> int \<times> 's"
    and release :: "nat \<Rightarrow> 's \<Rightarrow> 's"
    and used :: "'s \<Rightarrow> nat set"
    and ids :: "nat set"
    and inv :: "'s \<Rightarrow> bool"
  assumes finite_ids: "finite ids"
    and alloc_law: "inv s \<Longrightarrow> alloc s = (r, s') \<Longrightarrow>
      inv s' \<and> (if ids \<subseteq> used s then r = -1 \<and> s' = s
        else \<exists>n. r = int n \<and> n \<in> ids \<and> n \<notin> used s \<and> used s' = insert n (used s))"
    and release_law: "inv s \<Longrightarrow> n \<in> ids \<Longrightarrow> inv (release n s) \<and> used (release n s) = used s - {n}"
begin

fun allocs :: "nat \<Rightarrow> 's \<Rightarrow> int list \<times> 's" where
  "allocs 0 s = ([], s)"
| "allocs (Suc k) s = (case alloc s of (r, s) \<Rightarrow> case allocs k s of (rs, s) \<Rightarrow> (r # rs, s))"

text \<open>Allocations that succeed are pairwise distinct and were free.\<close>

lemma allocs_distinct:
  "inv s \<Longrightarrow> allocs k s = (rs, s') \<Longrightarrow>
    distinct (filter (\<lambda>r. r \<noteq> -1) rs) \<and> inv s'
    \<and> (\<forall>r\<in>set rs. r \<noteq> -1 \<longrightarrow> r \<ge> 0 \<and> nat r \<in> ids \<and> nat r \<notin> used s \<and> nat r \<in> used s')
    \<and> used s \<subseteq> used s'"
proof (induction k arbitrary: s rs)
  case 0
  then show ?case by auto
next
  case (Suc k)
  obtain r s1 where a: "alloc s = (r, s1)" by fastforce
  obtain rs1 where rs: "allocs k s1 = (rs1, s')" "rs = r # rs1"
    using Suc.prems(2) a by (auto split: prod.splits)
  note l = alloc_law [OF Suc.prems(1) a]
  have IH: "distinct (filter (\<lambda>r. r \<noteq> -1) rs1)" "inv s'"
    "\<forall>r\<in>set rs1. r \<noteq> -1 \<longrightarrow> r \<ge> 0 \<and> nat r \<in> ids \<and> nat r \<notin> used s1 \<and> nat r \<in> used s'"
    "used s1 \<subseteq> used s'"
    using Suc.IH [OF _ rs(1)] l by blast+
  show ?case
  proof (cases "ids \<subseteq> used s")
    case True
    then show ?thesis using l IH rs(2) by simp
  next
    case False
    then obtain n where n: "r = int n" "n \<in> ids" "n \<notin> used s" "used s1 = insert n (used s)"
      using l by auto
    have "int n \<notin> set rs1" using IH(3) n(4) by force
    then show ?thesis using IH n rs(2) by auto
  qed
qed

end

definition fd_release :: "nat \<Rightarrow> u8 list \<Rightarrow> u8 list" where
  "fd_release n t = (case set_fd_frombitmap (int n) t of Inl _ \<Rightarrow> t | Inr (_, t') \<Rightarrow> t')"

interpretation fds: id_allocator get_fd_frombitmap fd_release fd_used
  "{DEFAULT_FD_NUM..<MAX_FD_COUNT}" fd_wf
proof (unfold_locales, goal_cases)
  case 1
  then show ?case by simp
next
  case (2 s r s')
  have "case get_fd_loop DEFAULT_FD_NUM s of (r, t') \<Rightarrow>
    (r = -1 \<and> t' = s \<and> {DEFAULT_FD_NUM..<MAX_FD_COUNT} \<subseteq> fd_used s)
    \<or> (\<exists>n. r = int n \<and> DEFAULT_FD_NUM \<le> n \<and> n < MAX_FD_COUNT \<and> n \<notin> fd_used s \<and> {DEFAULT_FD_NUM..<n} \<subseteq> fd_used s
         \<and> t' = s[n div 8 := (s ! (n div 8)) OR fd_mask (n mod 8)])"
    by (rule get_fd_loop_spec [OF 2(1)])
  then consider "r = -1" "s' = s" "{DEFAULT_FD_NUM..<MAX_FD_COUNT} \<subseteq> fd_used s"
    | n where "r = int n" "n \<in> {DEFAULT_FD_NUM..<MAX_FD_COUNT}" "n \<notin> fd_used s"
        "s' = s[n div 8 := (s ! (n div 8)) OR fd_mask (n mod 8)]"
    using 2(2) by (auto simp: get_fd_frombitmap_def)
  then show ?case
  proof cases
    case 1
    then show ?thesis using 2(1) by simp
  next
    case (2 n)
    then have "\<not> {DEFAULT_FD_NUM..<MAX_FD_COUNT} \<subseteq> fd_used s" "fd_used s' = insert n (fd_used s)" "fd_wf s'"
      using \<open>fd_wf s\<close> fd_used_set [of s n] by (auto simp: fd_wf_def)
    then show ?thesis using 2 by auto
  qed
next
  case (3 s n)
  then show ?case
    using fd_used_clear [of s n] by (auto simp: fd_release_def set_fd_frombitmap_def Let_def fd_wf_def)
qed

section \<open>Sockets by descriptor, address and port\<close>

datatype hostinfo = Host localhost | Stream ng_tcp_stream

definition get_accept_tcb :: "u16 \<Rightarrow> stack \<Rightarrow> (ng_tcp_stream option, stack) res" where
  "get_accept_tcb dport s =
    bindE (tcpInstance s) (\<lambda>table s.
      Inr (find (\<lambda>apt. dport = s_dport apt \<and> s_fd apt = -1) (tcb_set table), s))"

definition get_hostinfo_fromfd :: "int \<Rightarrow> stack \<Rightarrow> (hostinfo option, stack) res" where
  "get_hostinfo_fromfd sockfd s =
    (case find (\<lambda>host. sockfd = h_fd host) (lhost s) of
       Some host \<Rightarrow> Inr (Some (Host host), s)
     | None \<Rightarrow>
        bindE (tcpInstance s) (\<lambda>table s.
          Inr (map_option Stream (find (\<lambda>stream. sockfd = s_fd stream) (tcb_set table)), s)))"

definition get_hostinfo_fromip_port :: "u32 \<Rightarrow> u16 \<Rightarrow> u8 \<Rightarrow> stack \<Rightarrow> localhost option" where
  "get_hostinfo_fromip_port dip port proto s =
    find (\<lambda>host. dip = localip host \<and> port = localport host \<and> proto = h_protocol host) (lhost s)"

section \<open>Properties\<close>

text \<open>Descriptor allocation: \<open>get_fd_frombitmap\<close> returns the least free descriptor from 3 and
  marks it and nothing else as used, or \<open>-1\<close> with the bitmap unchanged exactly when all of
  3..1023 are in use.\<close>

lemma get_fd_least:
  assumes "fd_wf t" "get_fd_frombitmap t = (r, t')"
  shows "(r = -1 \<and> t' = t \<and> {3..<1024} \<subseteq> fd_used t)
    \<or> (\<exists>n. r = int n \<and> 3 \<le> n \<and> n < 1024 \<and> n \<notin> fd_used t \<and> {3..<n} \<subseteq> fd_used t
         \<and> fd_used t' = insert n (fd_used t))"
  using get_fd_loop_spec [OF assms(1), of DEFAULT_FD_NUM] assms(2) fd_used_set [OF assms(1)]
  by (auto simp: get_fd_frombitmap_def DEFAULT_FD_NUM_def MAX_FD_COUNT_def)

lemma get_fd_least_witness:
  "fst (get_fd_frombitmap (0x1f # replicate 1023 0)) = 5"
proof -
  let ?t = "0x1f # replicate 1023 0 :: u8 list"
  obtain r t' where e: "get_fd_frombitmap ?t = (r, t')" by fastforce
  have w: "fd_wf ?t" by (simp add: fd_wf_def MAX_FD_COUNT_def)
  have u: "3 \<in> fd_used ?t" "4 \<in> fd_used ?t" "5 \<notin> fd_used ?t" "{3..<5} \<subseteq> {3, 4 :: nat}"
    by (auto simp: fd_used_def MAX_FD_COUNT_def)
  have "5 \<in> {3..<1024 :: nat}" by simp
  then obtain n where n: "r = int n" "3 \<le> n" "n < 1024" "n \<notin> fd_used ?t" "{3..<n} \<subseteq> fd_used ?t"
    using get_fd_least [OF w e] u(3) by blast
  have "n \<le> 5"
  proof (rule ccontr)
    assume "\<not> n \<le> 5"
    then have "5 \<in> {3..<n}" by simp
    then show False using n(5) u(3) by blast
  qed
  moreover have "n \<noteq> 3" "n \<noteq> 4" using n(4) u by blast+
  ultimately have "n = 5" using n(2) by linarith
  then show ?thesis using e n(1) by simp
qed

text \<open>Descriptors are unique: any number of allocations in a row return pairwise distinct
  descriptors that were free before and are marked afterwards (\<open>-1\<close> once none is left).\<close>

theorem fd_allocs_distinct:
  assumes "fd_wf t" "fds.allocs k t = (rs, t')"
  shows "distinct (filter (\<lambda>r. r \<noteq> -1) rs)
    \<and> (\<forall>r\<in>set rs. r = -1 \<or> (3 \<le> r \<and> r < 1024 \<and> nat r \<notin> fd_used t \<and> nat r \<in> fd_used t'))"
  using fds.allocs_distinct [OF assms] by (auto simp: DEFAULT_FD_NUM_def MAX_FD_COUNT_def)

lemma fd_allocs_distinct_witness:
  "case fds.allocs 3 (replicate 1024 0) of (rs, t') \<Rightarrow> distinct (filter (\<lambda>r. r \<noteq> -1) rs)"
proof -
  obtain rs t' where e: "fds.allocs 3 (replicate 1024 0) = (rs, t')" by fastforce
  have "fd_wf (replicate 1024 0)" by (simp add: fd_wf_def MAX_FD_COUNT_def)
  from fd_allocs_distinct [OF this e] show ?thesis using e by simp
qed

text \<open>Releasing a descriptor that was just allocated restores the set of used descriptors, and
  releasing frees exactly the given descriptor.\<close>

theorem fd_release_roundtrip:
  assumes "fd_wf t" "get_fd_frombitmap t = (int n, t')"
  shows "\<exists>t''. set_fd_frombitmap (int n) t' = Inr (0, t'') \<and> fd_used t'' = fd_used t \<and> fd_wf t''"
proof -
  have n: "n < MAX_FD_COUNT" "n \<notin> fd_used t" "fd_used t' = insert n (fd_used t)" "fd_wf t'"
    using fds.alloc_law [OF assms] by (auto split: if_splits)
  let ?t = "t'[n div 8 := (t' ! (n div 8)) AND NOT (fd_mask (n mod 8))]"
  have "set_fd_frombitmap (int n) t' = Inr (0, ?t)" using n(1) by (simp add: set_fd_frombitmap_def Let_def)
  moreover have "fd_used ?t = fd_used t" using fd_used_clear [OF n(4,1)] n(2,3) by auto
  moreover have "fd_wf ?t" using n(4) by (simp add: fd_wf_def)
  ultimately show ?thesis by blast
qed

lemma fd_release_roundtrip_witness:
  "\<exists>t''. set_fd_frombitmap 3 (snd (get_fd_frombitmap (replicate 1024 0))) = Inr (0, t'')
     \<and> fd_used t'' = fd_used (replicate 1024 0)"
proof -
  have w: "fd_wf (replicate 1024 0)" by (simp add: fd_wf_def MAX_FD_COUNT_def)
  have "fst (get_fd_frombitmap (replicate 1024 0)) = int 3"
    by (simp add: get_fd_frombitmap_def get_fd_loop.simps [of 3] DEFAULT_FD_NUM_def MAX_FD_COUNT_def fd_mask_def)
  then have "get_fd_frombitmap (replicate 1024 0) = (int 3, snd (get_fd_frombitmap (replicate 1024 0)))"
    by (simp add: prod_eq_iff)
  from fd_release_roundtrip [OF w this] show ?thesis by auto
qed

end
