(* ===== verification/Arp.thy ===== *)
theory Arp
  imports State
begin

text \<open>
  The ARP table and the ARP requests of the stack (\<open>arp_table_instance\<close>, \<open>ng_get_dst_macaddr\<close>,
  \<open>ng_arp_entry_insert\<close>, \<open>ng_encode_arp_pkt\<close>, \<open>ng_send_arp\<close>, \<open>arp_request_timer_cb\<close>).  The table is
  a map from addresses to hardware addresses in which the first binding of an address stays.
\<close>

section \<open>Operations\<close>

definition arp_table_instance :: "stack \<Rightarrow> (arp_table, stack) res" where
  "arp_table_instance s =
    (case arpt s of
       Some t \<Rightarrow> Inr (t, s)
     | None \<Rightarrow>
        (case rte_malloc sizeof_arp_table s of
           (None, s) \<Rightarrow> Inl (RteExit ''rte_malloc arp table failed'')
         | (Some _, s) \<Rightarrow>
            let t = \<lparr>arp_entries = [], arp_count = 0\<rparr> in Inr (t, s\<lparr>arpt := Some t\<rparr>)))"

fun arp_search :: "u32 \<Rightarrow> int \<Rightarrow> arp_entry list \<Rightarrow> mac option" where
  "arp_search dip count [] = None"
| "arp_search dip count (iter # next) =
    (if count = 0 then None
     else if dip = a_ip iter then Some (hwaddr iter) else arp_search dip (count - 1) next)"

definition ng_get_dst_macaddr :: "u32 \<Rightarrow> stack \<Rightarrow> (mac option, stack) res" where
  "ng_get_dst_macaddr dip s =
    bindE (arp_table_instance s) (\<lambda>table s.
      Inr (arp_search dip (arp_count table) (arp_entries table), s))"

definition ng_arp_entry_insert :: "u32 \<Rightarrow> mac \<Rightarrow> stack \<Rightarrow> (int, stack) res" where
  "ng_arp_entry_insert ip mac s =
    bindE (arp_table_instance s) (\<lambda>table s.
    bindE (ng_get_dst_macaddr ip s) (\<lambda>hwaddr s.
      if hwaddr = None then
        (case rte_malloc sizeof_arp_entry s of
           (None, s) \<Rightarrow> Inr (1, s)
         | (Some _, s) \<Rightarrow>
            let entry = \<lparr>a_ip = ip, hwaddr = mac, arp_type = 0\<rparr>;
                table = table\<lparr>arp_entries := entry # arp_entries table,
                              arp_count := arp_count table + 1\<rparr>
            in Inr (1, s\<lparr>arpt := Some table\<rparr>))
      else Inr (0, s)))"

definition gDefaultArpMac :: mac where
  "gDefaultArpMac = [0xFF, 0xFF, 0xFF, 0xFF, 0xFF, 0xFF]"

definition ng_encode_arp_pkt :: "buf \<Rightarrow> u16 \<Rightarrow> mac \<Rightarrow> u32 \<Rightarrow> u32 \<Rightarrow> mac \<Rightarrow> buf" where
  "ng_encode_arp_pkt msg opcode dst_mac arg_sip arg_dip src_mac =
    (let msg = wr_bytes eth_s_addr src_mac msg;
         msg = (if dst_mac = gDefaultArpMac then wr_bytes eth_d_addr (replicate 6 0) msg
                else wr_bytes eth_d_addr dst_mac msg);
         msg = wr16 eth_ether_type (htons RTE_ETHER_TYPE_ARP) msg;
         msg = wr16 arp_hardware (htons 1) msg;
         msg = wr16 arp_protocol (htons RTE_ETHER_TYPE_IPV4) msg;
         msg = wr8 arp_hlen 6 msg;
         msg = wr8 arp_plen 4 msg;
         msg = wr16 arp_opcode (htons opcode) msg;
         msg = wr_bytes arp_sha src_mac msg;
         msg = wr_bytes arp_tha dst_mac msg;
         msg = wr32 arp_sip arg_sip msg;
         msg = wr32 arp_tip arg_dip msg
     in msg)"

definition ng_send_arp :: "u16 \<Rightarrow> mac \<Rightarrow> u32 \<Rightarrow> u32 \<Rightarrow> stack \<Rightarrow> (mbuf, stack) res" where
  "ng_send_arp opcode dst_mac arg_sip arg_dip s =
    (case rte_pktmbuf_alloc s of
       (None, s) \<Rightarrow> Inl (RteExit ''ng_send_arp rte_pktmbuf_alloc'')
     | (Some mbuf, s) \<Rightarrow>
        let total_length = 14 + 28;
            mbuf = mbuf\<lparr>pkt_len := total_length, data_len := ucast total_length\<rparr>
        in Inr (mbuf\<lparr>mdata := ng_encode_arp_pkt (mdata mbuf) opcode dst_mac arg_sip arg_dip (gSrcMac s)\<rparr>, s))"

text \<open>The timer callback: one request for every host address of the /24 network.\<close>

definition arp_request_one :: "nat \<Rightarrow> stack \<Rightarrow> (unit, stack) res" where
  "arp_request_one i s =
    (let dstip = (gLocalIp s AND 0x00FFFFFF) OR (0xFF000000 AND push_bit 24 (of_nat i))
     in bindE (ng_get_dst_macaddr dstip s) (\<lambda>dstmac s.
        bindE (case dstmac of
                 None \<Rightarrow> ng_send_arp RTE_ARP_OP_REQUEST gDefaultArpMac (gLocalIp s) dstip s
               | Some mac \<Rightarrow> ng_send_arp RTE_ARP_OP_REQUEST mac (gLocalIp s) dstip s) (\<lambda>arpbuf s.
        ring_out_enqueue arpbuf s)))"

fun arp_request_loop :: "nat list \<Rightarrow> stack \<Rightarrow> (unit, stack) res" where
  "arp_request_loop [] s = Inr ((), s)"
| "arp_request_loop (i # is) s = bindE (arp_request_one i s) (\<lambda>_ s. arp_request_loop is s)"

definition arp_request_timer_cb :: "stack \<Rightarrow> (unit, stack) res" where
  "arp_request_timer_cb s = bindE (ringInstance s) (\<lambda>_ s. arp_request_loop [1..<255] s)"

section \<open>The table as a map\<close>

definition arp_wf :: "arp_table \<Rightarrow> bool" where
  "arp_wf t \<longleftrightarrow> arp_count t = int (List.length (arp_entries t)) \<and> distinct (map a_ip (arp_entries t))"

definition arp_map :: "arp_entry list \<Rightarrow> u32 \<rightharpoonup> mac" where
  "arp_map es = map_of (map (\<lambda>e. (a_ip e, hwaddr e)) es)"

definition arp_lookup :: "stack \<Rightarrow> u32 \<rightharpoonup> mac" where
  "arp_lookup s = (case arpt s of None \<Rightarrow> Map.empty | Some t \<Rightarrow> arp_map (arp_entries t))"

definition arp_inv :: "stack \<Rightarrow> bool" where
  "arp_inv s \<longleftrightarrow> (\<forall>t. arpt s = Some t \<longrightarrow> arp_wf t)"

lemma arp_search_map:
  "count = int (List.length es) \<Longrightarrow> arp_search ip count es = arp_map es ip"
  by (induction es arbitrary: count) (auto simp: arp_map_def)

text \<open>What the heap does to the other state: only the allocation counters move.\<close>

lemma rte_malloc_total:
  "malloc_ok s = (\<lambda>_ _. True) \<Longrightarrow> 0 < n \<Longrightarrow> \<exists>a s'. rte_malloc n s = (Some a, s')"
  by (simp add: rte_malloc_def malloc_heap_alloc_def Let_def)

lemma ng_get_dst_macaddr_eq:
  assumes "arp_inv s" "ng_get_dst_macaddr ip s = Inr (r, s')"
  shows "r = arp_lookup s ip" "arp_inv s'" "arp_lookup s' = arp_lookup s" "arpt s' \<noteq> None"
    "rInst s' = rInst s" "tInst s' = tInst s" "lhost s' = lhost s" "fd_table s' = fd_table s"
    "pool s' = pool s" "gSrcMac s' = gSrcMac s" "gLocalIp s' = gLocalIp s" "malloc_ok s' = malloc_ok s"
  using assms
  by (auto simp: ng_get_dst_macaddr_def arp_table_instance_def arp_inv_def arp_wf_def arp_lookup_def
      arp_search_map Let_def arp_map_def split: option.splits prod.splits)

lemma ng_get_dst_macaddr_known:
  "arpt s = Some t \<Longrightarrow> arp_inv s \<Longrightarrow> ng_get_dst_macaddr ip s = Inr (arp_lookup s ip, s)"
  by (simp add: ng_get_dst_macaddr_def arp_table_instance_def arp_inv_def arp_wf_def arp_lookup_def
      arp_search_map)

lemma arp_table_instance_eq:
  assumes "arp_inv s" "arp_table_instance s = Inr (t, s1)"
  shows "arpt s1 = Some t" "arp_wf t" "arp_lookup s = arp_map (arp_entries t)"
    "malloc_ok s1 = malloc_ok s" "arp_inv s1" "arp_lookup s1 = arp_lookup s"
  using assms by (auto simp: arp_table_instance_def arp_inv_def arp_wf_def arp_lookup_def
        arp_map_def Let_def split: option.splits prod.splits)

lemma arp_table_instance_mem:
  "malloc_ok s = (\<lambda>_ _. True) \<Longrightarrow> \<exists>t s1. arp_table_instance s = Inr (t, s1)"
  using rte_malloc_total [of s sizeof_arp_table] by (cases "arpt s") (auto simp: arp_table_instance_def Let_def)

lemma arp_map_None: "arp_map es k = None \<longleftrightarrow> k \<notin> a_ip ` set es"
  by (force simp: arp_map_def map_of_eq_None_iff)

lemma ng_arp_entry_insert_eq:
  assumes "arp_inv s" "ng_arp_entry_insert ip mac s = Inr (r, s')"
  shows "arp_inv s' \<and> malloc_ok s' = malloc_ok s
    \<and> (if arp_lookup s ip = None then r = 1 \<and> (arp_lookup s' = (arp_lookup s)(ip \<mapsto> mac) \<or> arp_lookup s' = arp_lookup s)
       else r = 0 \<and> arp_lookup s' = arp_lookup s)"
proof -
  obtain t s1 where t: "arp_table_instance s = Inr (t, s1)"
    using assms(2) by (auto simp: ng_arp_entry_insert_def)
  note s1 = arp_table_instance_eq(1-4) [OF assms(1) t] and i1 = arp_table_instance_eq(5,6) [OF assms(1) t]
  have g: "ng_get_dst_macaddr ip s1 = Inr (arp_lookup s ip, s1)"
    using ng_get_dst_macaddr_known [OF s1(1) i1(1)] i1(2) by simp
  show ?thesis
  proof (cases "arp_lookup s ip")
    case None
    then have n: "ip \<notin> a_ip ` set (arp_entries t)"
      using s1(3) by (simp add: arp_map_None)
    obtain a s2 where m: "rte_malloc sizeof_arp_entry s1 = (a, s2)" by fastforce
    show ?thesis
    proof (cases a)
      case None
      then show ?thesis
        using assms(2) t g m \<open>arp_lookup s ip = None\<close> s1 i1 rte_malloc_fields [OF m]
        by (auto simp: ng_arp_entry_insert_def arp_inv_def arp_lookup_def)
    next
      case (Some b)
      then show ?thesis
        using assms(2) t g m \<open>arp_lookup s ip = None\<close> s1 n rte_malloc_fields [OF m]
        by (auto simp: ng_arp_entry_insert_def arp_inv_def arp_lookup_def arp_wf_def arp_map_def Let_def)
    qed
  next
    case (Some m)
    then show ?thesis
      using assms(2) t g s1 i1 by (auto simp: ng_arp_entry_insert_def)
  qed
qed

lemma ng_arp_entry_insert_mem:
  assumes "arp_inv s" "malloc_ok s = (\<lambda>_ _. True)"
  shows "\<exists>r s'. ng_arp_entry_insert ip mac s = Inr (r, s')
    \<and> arp_lookup s' = (if arp_lookup s ip = None then (arp_lookup s)(ip \<mapsto> mac) else arp_lookup s)"
proof -
  obtain t s1 where t: "arp_table_instance s = Inr (t, s1)"
    using arp_table_instance_mem [OF assms(2)] by blast
  note s1 = arp_table_instance_eq [OF assms(1) t]
  have g: "ng_get_dst_macaddr ip s1 = Inr (arp_lookup s ip, s1)"
    using ng_get_dst_macaddr_known [OF s1(1,5)] s1(6) by simp
  obtain a s2 where m: "rte_malloc sizeof_arp_entry s1 = (Some a, s2)"
    using rte_malloc_total [of s1 sizeof_arp_entry] s1(4) assms(2) by auto
  show ?thesis
    using t g m s1(3,6) by (auto simp: ng_arp_entry_insert_def Let_def arp_lookup_def arp_map_def)
qed

section \<open>First binding wins\<close>

text \<open>The interface of a table in which the first binding of a key stays, and its consequence for
  a sequence of insertions.\<close>

locale write_once_map =
  fixes look :: "'s \<Rightarrow> 'k \<rightharpoonup> 'v"
    and ins :: "'k \<Rightarrow> 'v \<Rightarrow> 's \<Rightarrow> 's"
    and inv :: "'s \<Rightarrow> bool"
  assumes ins_inv: "inv s \<Longrightarrow> inv (ins k v s)"
    and look_ins: "inv s \<Longrightarrow> look (ins k v s) = (if look s k = None then (look s)(k \<mapsto> v) else look s)"
begin

lemma look_fold:
  "inv s \<Longrightarrow> look (fold (\<lambda>(k, v). ins k v) kvs s) = map_of kvs ++ look s
    \<and> inv (fold (\<lambda>(k, v). ins k v) kvs s)"
proof (induction kvs arbitrary: s)
  case Nil
  then show ?case by simp
next
  case (Cons kv kvs)
  obtain k v where kv: "kv = (k, v)" by fastforce
  have i: "inv (ins k v s)" using Cons.prems by (rule ins_inv)
  have "map_of kvs ++ look (ins k v s) = map_of (kv # kvs) ++ look s"
    using Cons.prems by (auto simp: kv look_ins map_add_def fun_eq_iff split: option.splits)
  then show ?case using Cons.IH [OF i] kv by (simp add: fun_upd_def)
qed

end

definition arp_add :: "u32 \<Rightarrow> mac \<Rightarrow> stack \<Rightarrow> stack" where
  "arp_add ip mac s = (case ng_arp_entry_insert ip mac s of Inl _ \<Rightarrow> s | Inr (_, s') \<Rightarrow> s')"

definition arp_ready :: "stack \<Rightarrow> bool" where
  "arp_ready s \<longleftrightarrow> arp_inv s \<and> malloc_ok s = (\<lambda>_ _. True)"

interpretation arp: write_once_map arp_lookup arp_add arp_ready
proof (unfold_locales, goal_cases)
  case (1 s k v)
  then obtain r s' where e: "ng_arp_entry_insert k v s = Inr (r, s')"
    using ng_arp_entry_insert_mem [of s k v] by (auto simp: arp_ready_def)
  then show ?case
    using 1 ng_arp_entry_insert_eq [OF _ e] by (simp add: arp_ready_def arp_add_def)
next
  case (2 s k v)
  then show ?case
    using ng_arp_entry_insert_mem [of s k v] by (auto simp: arp_ready_def arp_add_def)
qed

text \<open>Insertions one after another, and lookups, while memory is there.\<close>

fun arp_insert_all :: "(u32 \<times> mac) list \<Rightarrow> stack \<Rightarrow> (unit, stack) res" where
  "arp_insert_all [] s = Inr ((), s)"
| "arp_insert_all ((ip, mac) # kvs) s = bindE (ng_arp_entry_insert ip mac s) (\<lambda>_ s. arp_insert_all kvs s)"

lemma arp_insert_all_ready:
  "arp_ready s \<Longrightarrow> arp_insert_all kvs s = Inr ((), fold (\<lambda>(ip, mac). arp_add ip mac) kvs s)"
proof (induction kvs arbitrary: s)
  case (Cons kv kvs)
  obtain ip mac where kv: "kv = (ip, mac)" by fastforce
  obtain r s' where e: "ng_arp_entry_insert ip mac s = Inr (r, s')"
    using ng_arp_entry_insert_mem [of s ip mac] Cons.prems by (auto simp: arp_ready_def)
  have "arp_ready (arp_add ip mac s)" by (rule arp.ins_inv [OF Cons.prems])
  from Cons.IH [OF this] show ?case by (simp add: kv e arp_add_def)
qed simp

lemma ng_get_dst_macaddr_ready:
  assumes "arp_ready s"
  shows "\<exists>s'. ng_get_dst_macaddr ip s = Inr (arp_lookup s ip, s')"
proof -
  obtain t s1 where "arp_table_instance s = Inr (t, s1)"
    using arp_table_instance_mem [of s] assms by (auto simp: arp_ready_def)
  then obtain r s' where "ng_get_dst_macaddr ip s = Inr (r, s')" by (simp add: ng_get_dst_macaddr_def)
  then show ?thesis using ng_get_dst_macaddr_eq(1) assms by (auto simp: arp_ready_def)
qed

section \<open>ARP frames\<close>

text \<open>The fields of an ARP frame, read back from the bytes.\<close>

record arp_frame =
  af_dst :: mac
  af_src :: mac
  af_ether_type :: u16
  af_opcode :: u16
  af_sha :: mac
  af_sip :: u32
  af_tha :: mac
  af_tip :: u32
  af_fixed :: "u16 \<times> u16 \<times> u8 \<times> u8"

definition decode_arp :: "buf \<Rightarrow> arp_frame" where
  "decode_arp m = \<lparr>af_dst = rd_bytes m eth_d_addr 6, af_src = rd_bytes m eth_s_addr 6,
     af_ether_type = ntohs (rd16 m eth_ether_type), af_opcode = ntohs (rd16 m arp_opcode),
     af_sha = rd_bytes m arp_sha 6, af_sip = rd32 m arp_sip,
     af_tha = rd_bytes m arp_tha 6, af_tip = rd32 m arp_tip,
     af_fixed = (ntohs (rd16 m arp_hardware), ntohs (rd16 m arp_protocol), m arp_hlen, m arp_plen)\<rparr>"

definition arp_request_of :: "mac \<Rightarrow> u32 \<Rightarrow> u32 \<Rightarrow> mac option \<Rightarrow> arp_frame" where
  "arp_request_of src own target known =
    \<lparr>af_dst = (case known of None \<Rightarrow> replicate 6 0 | Some m \<Rightarrow> if m = gDefaultArpMac then replicate 6 0 else m),
     af_src = src, af_ether_type = RTE_ETHER_TYPE_ARP, af_opcode = RTE_ARP_OP_REQUEST,
     af_sha = src, af_sip = own, af_tha = (case known of None \<Rightarrow> gDefaultArpMac | Some m \<Rightarrow> m),
     af_tip = target, af_fixed = (1, RTE_ETHER_TYPE_IPV4, 6, 4)\<rparr>"

lemma length_gDefaultArpMac [simp]: "List.length gDefaultArpMac = 6"
  by (simp add: gDefaultArpMac_def)

lemma decode_encode_arp:
  assumes "List.length src = 6" "List.length dst = 6"
  shows "decode_arp (ng_encode_arp_pkt m opc dst si di src) =
    \<lparr>af_dst = (if dst = gDefaultArpMac then replicate 6 0 else dst), af_src = src,
     af_ether_type = RTE_ETHER_TYPE_ARP, af_opcode = opc, af_sha = src, af_sip = si, af_tha = dst,
     af_tip = di, af_fixed = (1, RTE_ETHER_TYPE_IPV4, 6, 4)\<rparr>"
  using assms by (simp add: decode_arp_def ng_encode_arp_pkt_def Let_def buf_simps)

definition host_ip :: "stack \<Rightarrow> nat \<Rightarrow> u32" where
  "host_ip s i = (gLocalIp s AND 0x00FFFFFF) OR (0xFF000000 AND push_bit 24 (of_nat i))"

definition macs_ok :: "stack \<Rightarrow> bool" where
  "macs_ok s \<longleftrightarrow> List.length (gSrcMac s) = 6 \<and> (\<forall>m\<in>ran (arp_lookup s). List.length m = 6)"

lemma arp_request_one_ok:
  assumes "arpt s = Some t" "arp_inv s" "macs_ok s" "out_room (Suc n) s" "pool s = mb # ms"
  obtains ri m where
    "arp_request_one i s = Inr ((), s\<lparr>pool := ms, rInst := Some ri\<rparr>)"
    "out_room n (s\<lparr>pool := ms, rInst := Some ri\<rparr>)"
    "out_frames (s\<lparr>pool := ms, rInst := Some ri\<rparr>) = out_frames s @ [m]"
    "decode_arp (mdata m) = arp_request_of (gSrcMac s) (gLocalIp s) (host_ip s i) (arp_lookup s (host_ip s i))"
    "m_id m = m_id mb \<and> data_len m = 42 \<and> pkt_len m = 42"
proof -
  let ?ip = "host_ip s i" and ?s1 = "s\<lparr>pool := ms\<rparr>"
  let ?dst = "case arp_lookup s ?ip of None \<Rightarrow> gDefaultArpMac | Some m \<Rightarrow> m"
  let ?m = "mb\<lparr>pkt_len := 42, data_len := 42,
    mdata := ng_encode_arp_pkt (mdata mb) RTE_ARP_OP_REQUEST ?dst (gLocalIp s) ?ip (gSrcMac s)\<rparr>"
  have g: "ng_get_dst_macaddr ?ip s = Inr (arp_lookup s ?ip, s)"
    by (rule ng_get_dst_macaddr_known [OF assms(1,2)])
  have snd: "ng_send_arp RTE_ARP_OP_REQUEST ?dst (gLocalIp s) ?ip s = Inr (?m, ?s1)"
    using assms(5) by (simp add: ng_send_arp_def rte_pktmbuf_alloc_def Let_def)
  have dl: "List.length ?dst = 6"
    using assms(3) by (auto simp: macs_ok_def ran_def split: option.splits)
  have room: "out_room (Suc n) ?s1" using assms(4) by (simp add: out_room_def out_ring_def)
  obtain ri where ri: "ring_out_enqueue ?m ?s1 = Inr ((), ?s1\<lparr>rInst := Some ri\<rparr>)"
    "out_room n (?s1\<lparr>rInst := Some ri\<rparr>)" "out_frames (?s1\<lparr>rInst := Some ri\<rparr>) = out_frames ?s1 @ [?m]"
    by (rule ring_out_enqueue_ok [OF room])
  have one: "arp_request_one i s = Inr ((), s\<lparr>pool := ms, rInst := Some ri\<rparr>)"
    using g snd ri(1) by (cases "arp_lookup s ?ip") (simp_all add: arp_request_one_def Let_def host_ip_def)
  have dec: "decode_arp (mdata ?m) = arp_request_of (gSrcMac s) (gLocalIp s) ?ip (arp_lookup s ?ip)"
    using decode_encode_arp [of "gSrcMac s" ?dst] dl assms(3)
    by (auto simp: macs_ok_def arp_request_of_def split: option.splits)
  show thesis
    by (rule that [OF one _ _ dec]) (use ri in \<open>simp_all add: out_frames_def out_ring_def\<close>)
qed

lemma arp_request_loop_ok:
  assumes "arpt s = Some t" "arp_inv s" "macs_ok s" "out_room (List.length is) s"
    and "List.length is \<le> List.length (pool s)"
  shows "\<exists>s' ms. arp_request_loop is s = Inr ((), s') \<and> out_frames s' = out_frames s @ ms
    \<and> map (decode_arp \<circ> mdata) ms
        = map (\<lambda>i. arp_request_of (gSrcMac s) (gLocalIp s) (host_ip s i) (arp_lookup s (host_ip s i))) is
    \<and> pool s' = drop (List.length is) (pool s)"
  using assms
proof (induction "is" arbitrary: s)
  case Nil
  then show ?case by simp
next
  case (Cons i "is")
  obtain mb mbs where p: "pool s = mb # mbs" using Cons.prems(5) by (cases "pool s") auto
  have room: "out_room (Suc (List.length is)) s" using Cons.prems(4) by simp
  obtain ri m where o: "arp_request_one i s = Inr ((), s\<lparr>pool := mbs, rInst := Some ri\<rparr>)"
    "out_room (List.length is) (s\<lparr>pool := mbs, rInst := Some ri\<rparr>)"
    "out_frames (s\<lparr>pool := mbs, rInst := Some ri\<rparr>) = out_frames s @ [m]"
    "decode_arp (mdata m) = arp_request_of (gSrcMac s) (gLocalIp s) (host_ip s i) (arp_lookup s (host_ip s i))"
    by (rule arp_request_one_ok [OF Cons.prems(1-3) room p])
  let ?s = "s\<lparr>pool := mbs, rInst := Some ri\<rparr>"
  have l: "arp_lookup ?s = arp_lookup s" "host_ip ?s = host_ip s"
    by (simp_all add: arp_lookup_def host_ip_def fun_eq_iff)
  have pre: "arpt ?s = Some t" "arp_inv ?s" "macs_ok ?s" "List.length is \<le> List.length (pool ?s)"
    using Cons.prems p l by (simp_all add: arp_inv_def macs_ok_def)
  obtain s' ms where IH: "arp_request_loop is ?s = Inr ((), s')" "out_frames s' = out_frames ?s @ ms"
    "map (decode_arp \<circ> mdata) ms
        = map (\<lambda>i. arp_request_of (gSrcMac ?s) (gLocalIp ?s) (host_ip ?s i) (arp_lookup ?s (host_ip ?s i))) is"
    "pool s' = drop (List.length is) (pool ?s)"
    using Cons.IH [OF pre(1-3) o(2) pre(4)] by blast
  have "out_frames s' = out_frames s @ (m # ms)" using IH(2) o(3) by simp
  then show ?case
    using IH o(1,4) p l by (intro exI [of _ s'] exI [of _ "m # ms"]) (simp add: o_def)
qed

section \<open>Properties\<close>

text \<open>C26. ARP lookup after insertion, on a well-formed table or none and as long as every request to the heap is
  granted: any sequence of \<open>ng_arp_entry_insert\<close> calls succeeds, and afterwards \<open>ng_get_dst_macaddr\<close> of any
  address returns the hardware address it returned before them, if it had one, else the one first inserted
  for the address, else nothing; the table is well formed (its count is its length and no address occurs
  twice).\<close>

theorem arp_first_binding_wins:
  assumes "arp_inv s" "malloc_ok s = (\<lambda>_ _. True)"
  shows "\<exists>s'. arp_insert_all kvs s = Inr ((), s') \<and> arp_inv s'
    \<and> (\<forall>ip. \<exists>old s0 s1. ng_get_dst_macaddr ip s = Inr (old, s0)
        \<and> ng_get_dst_macaddr ip s' = Inr (case old of Some mac \<Rightarrow> Some mac | None \<Rightarrow> map_of kvs ip, s1))"
proof -
  let ?s = "fold (\<lambda>(ip, mac). arp_add ip mac) kvs s"
  have r: "arp_ready s" using assms by (simp add: arp_ready_def)
  have l: "arp_lookup ?s = map_of kvs ++ arp_lookup s" "arp_ready ?s" using arp.look_fold [OF r] by auto
  have "arp_lookup ?s ip = (case arp_lookup s ip of Some mac \<Rightarrow> Some mac | None \<Rightarrow> map_of kvs ip)" for ip
    by (simp add: l(1) map_add_def split: option.split)
  then show ?thesis
    using arp_insert_all_ready [OF r] l(2) ng_get_dst_macaddr_ready [OF r] ng_get_dst_macaddr_ready [OF l(2)]
    by (intro exI [of _ ?s]) (metis arp_ready_def)
qed

lemma arp_first_binding_wins_witness:
  "\<exists>s' s1. arp_insert_all [(7, [1]), (8, [2]), (7, [3])] demo_stack = Inr ((), s')
    \<and> ng_get_dst_macaddr 7 s' = Inr (Some [1], s1)"
proof -
  let ?kvs = "[(7, [1]), (8, [2]), (7, [3])] :: (u32 \<times> mac) list"
  obtain s' where s': "arp_insert_all ?kvs demo_stack = Inr ((), s')"
    "\<And>ip. \<exists>old s0 s1. ng_get_dst_macaddr ip demo_stack = Inr (old, s0)
        \<and> ng_get_dst_macaddr ip s' = Inr (case old of Some mac \<Rightarrow> Some mac | None \<Rightarrow> map_of ?kvs ip, s1)"
    using arp_first_binding_wins [of demo_stack ?kvs] by (auto simp: arp_inv_def arp_wf_def)
  obtain old s0 s1 where "ng_get_dst_macaddr 7 demo_stack = Inr (old, s0)"
    "ng_get_dst_macaddr 7 s' = Inr (case old of Some mac \<Rightarrow> Some mac | None \<Rightarrow> map_of ?kvs 7, s1)"
    using s'(2) [of 7] by blast
  moreover have "old = None"
    using ng_get_dst_macaddr_eq(1) [of demo_stack 7 old s0] calculation(1)
    by (auto simp: arp_inv_def arp_wf_def arp_lookup_def arp_map_def)
  ultimately show ?thesis using s'(1) by simp
qed

text \<open>\<open>ng_get_dst_macaddr\<close> is the lookup of the table's map (its counted loop never stops
  before the end of the list), and it changes neither the table nor any other state when the
  table exists.\<close>

lemma ng_get_dst_macaddr_correct:
  assumes "arpt s = Some t" "arp_wf t"
  shows "ng_get_dst_macaddr a s = Inr (map_of (map (\<lambda>e. (a_ip e, hwaddr e)) (arp_entries t)) a, s)"
  using ng_get_dst_macaddr_known [OF assms(1)] assms by (simp add: arp_inv_def arp_lookup_def arp_map_def)

lemma ng_get_dst_macaddr_correct_witness:
  "ng_get_dst_macaddr 5 (demo_stack\<lparr>arpt := Some \<lparr>arp_entries = [\<lparr>a_ip = 5, hwaddr = [9], arp_type = 0\<rparr>],
      arp_count = 1\<rparr>\<rparr>)
    = Inr (Some [9], demo_stack\<lparr>arpt := Some \<lparr>arp_entries = [\<lparr>a_ip = 5, hwaddr = [9], arp_type = 0\<rparr>],
      arp_count = 1\<rparr>\<rparr>)"
  by (subst ng_get_dst_macaddr_correct [of _ "\<lparr>arp_entries = [\<lparr>a_ip = 5, hwaddr = [9], arp_type = 0\<rparr>],
      arp_count = 1\<rparr>"]) (simp_all add: arp_wf_def)

text \<open>An ARP frame carries what it was built from: decoding the bytes of \<open>ng_encode_arp_pkt\<close>
  gives the operation, the sender and target addresses and the fixed fields of Ethernet/IPv4
  ARP, with an all-zero Ethernet destination when the target hardware address is the broadcast
  placeholder; the bytes after the 42 of the frame are untouched.\<close>

theorem arp_encode_decode:
  assumes "List.length src = 6" "List.length dst = 6"
  shows "decode_arp (ng_encode_arp_pkt m opc dst si di src) =
    \<lparr>af_dst = (if dst = gDefaultArpMac then replicate 6 0 else dst), af_src = src,
     af_ether_type = RTE_ETHER_TYPE_ARP, af_opcode = opc, af_sha = src, af_sip = si, af_tha = dst,
     af_tip = di, af_fixed = (1, RTE_ETHER_TYPE_IPV4, 6, 4)\<rparr>
    \<and> (\<forall>i\<ge>42. ng_encode_arp_pkt m opc dst si di src i = m i)"
  using decode_encode_arp [OF assms] assms by (simp add: ng_encode_arp_pkt_def Let_def buf_simps)

lemma arp_encode_decode_witness:
  "af_tip (decode_arp (ng_encode_arp_pkt (\<lambda>_. 0) 1 gDefaultArpMac 3 4 [1, 2, 3, 4, 5, 6])) = 4"
proof -
  have "List.length [1, 2, 3, 4, 5, 6 :: u8] = 6" by simp
  from arp_encode_decode [OF this length_gDefaultArpMac] show ?thesis by simp
qed

text \<open>The ARP timer asks for the whole network: with room for 254 frames in the transmit ring
  and 254 buffers in the pool, \<open>arp_request_timer_cb\<close> returns having appended exactly one
  request for each host address 1..254 of the /24 network of \<open>gLocalIp\<close>, in order, each
  addressed to the known hardware address of the host if there is one.\<close>

theorem arp_timer_requests:
  assumes "arpt s = Some t" "arp_inv s" "macs_ok s" "out_room 254 s" "254 \<le> List.length (pool s)"
  shows "\<exists>s' ms. arp_request_timer_cb s = Inr ((), s') \<and> out_frames s' = out_frames s @ ms
    \<and> map (decode_arp \<circ> mdata) ms = map (\<lambda>i. arp_request_of (gSrcMac s) (gLocalIp s)
        (host_ip s i) (arp_lookup s (host_ip s i))) [1..<255]"
proof -
  have "ringInstance s = Inr (the (rInst s), s)"
    using assms(4) by (cases "rInst s") (simp_all add: ringInstance_def out_room_def out_ring_def)
  then show ?thesis
    using arp_request_loop_ok [of s t "[1..<255]"] assms by (auto simp: arp_request_timer_cb_def)
qed

lemma arp_timer_requests_witness:
  "\<exists>s' ms. arp_request_timer_cb demo_stack = Inr ((), s') \<and> out_frames s' = out_frames demo_stack @ ms
    \<and> List.length ms = 254"
proof -
  have "\<exists>s' ms. arp_request_timer_cb demo_stack = Inr ((), s') \<and> out_frames s' = out_frames demo_stack @ ms
    \<and> map (decode_arp \<circ> mdata) ms = map (\<lambda>i. arp_request_of (gSrcMac demo_stack) (gLocalIp demo_stack)
        (host_ip demo_stack i) (arp_lookup demo_stack (host_ip demo_stack i))) [1..<255]"
  proof (rule arp_timer_requests)
    show "arpt demo_stack = Some \<lparr>arp_entries = [], arp_count = 0\<rparr>" by simp
    show "arp_inv demo_stack" by (simp add: arp_inv_def arp_wf_def)
    show "macs_ok demo_stack" by (simp add: macs_ok_def arp_lookup_def arp_map_def)
    show "out_room 254 demo_stack" by (rule demo_stack_room) simp
    show "254 \<le> List.length (pool demo_stack)" by simp
  qed
  then obtain s' ms where r: "arp_request_timer_cb demo_stack = Inr ((), s')"
    "out_frames s' = out_frames demo_stack @ ms"
    and m: "map (decode_arp \<circ> mdata) ms = map (\<lambda>i. arp_request_of (gSrcMac demo_stack)
        (gLocalIp demo_stack) (host_ip demo_stack i) (arp_lookup demo_stack (host_ip demo_stack i))) [1..<255]"
    by blast
  have "List.length ms = List.length [1..<255 :: nat]" using m by (rule map_eq_imp_length_eq)
  then have "List.length ms = 254" unfolding length_upt by simp
  then show ?thesis using r by blast
qed

end
