(* ===== verification/Cksum.thy ===== *)
theory Cksum
  imports Prelude
begin

text \<open>
  The Internet checksum as \<open>rte_ip.h\<close> computes it, with the unrolled summing loop, the two
  carry folds, the pseudo header of UDP and TCP, and the variant over chained buffers.  A
  range of memory is the list of its bytes; 16-bit words are read little-endian, as the target
  does.

  The lemmas relate the machine computation to sums of natural numbers modulo 65535
  (\<open>ones_comp\<close> is the representative in 1..65535 of a non-zero sum).
\<close>

section \<open>The computation\<close>

fun raw_cksum4 :: "u8 list \<Rightarrow> u32 \<Rightarrow> u8 list \<times> u32" where
  "raw_cksum4 (a # b # c # d # e # f # g # h # bs) acc =
     raw_cksum4 bs (acc + ucast (of_le16 a b) + ucast (of_le16 c d) + ucast (of_le16 e f)
       + ucast (of_le16 g h))"
| "raw_cksum4 bs acc = (bs, acc)"

fun raw_cksum1 :: "u8 list \<Rightarrow> u32 \<Rightarrow> u32" where
  "raw_cksum1 (a # b # bs) acc = raw_cksum1 bs (acc + ucast (of_le16 a b))"
| "raw_cksum1 [a] acc = acc + ucast a"
| "raw_cksum1 [] acc = acc"

definition rte_raw_cksum_sum :: "u8 list \<Rightarrow> u32 \<Rightarrow> u32" where
  "rte_raw_cksum_sum bs acc = (case raw_cksum4 bs acc of (bs, acc) \<Rightarrow> raw_cksum1 bs acc)"

definition rte_raw_cksum_reduce :: "u32 \<Rightarrow> u16" where
  "rte_raw_cksum_reduce acc =
    (let acc = drop_bit 16 (acc AND 0xffff0000) + (acc AND 0xffff);
         acc = drop_bit 16 (acc AND 0xffff0000) + (acc AND 0xffff)
     in ucast acc)"

definition rte_raw_cksum :: "u8 list \<Rightarrow> u16" where
  "rte_raw_cksum bs = rte_raw_cksum_reduce (rte_raw_cksum_sum bs 0)"

text \<open>A header is given by the memory that holds it and its offset.\<close>

definition rte_ipv4_cksum :: "buf \<Rightarrow> nat \<Rightarrow> u16" where
  "rte_ipv4_cksum m ip =
    (let cksum = rte_raw_cksum (rd_bytes m ip 20) in if cksum = 0xffff then cksum else NOT cksum)"

definition PKT_TX_TCP_SEG :: u64 where "PKT_TX_TCP_SEG = push_bit 50 1"

definition psd_header :: "u32 \<Rightarrow> u32 \<Rightarrow> u8 \<Rightarrow> u16 \<Rightarrow> u8 list" where
  "psd_header src dst proto len = le32 src @ le32 dst @ [0, proto] @ le16 len"

definition rte_ipv4_phdr_cksum :: "buf \<Rightarrow> nat \<Rightarrow> u64 \<Rightarrow> u16" where
  "rte_ipv4_phdr_cksum m ip ol_flags =
    rte_raw_cksum (psd_header (rd32 m (ip + 12)) (rd32 m (ip + 16)) (m (ip + 9))
      (if ol_flags AND PKT_TX_TCP_SEG \<noteq> 0 then 0 else htons (ntohs (rd16 m (ip + 2)) - 20)))"

definition rte_ipv4_udptcp_cksum :: "buf \<Rightarrow> nat \<Rightarrow> nat \<Rightarrow> u16" where
  "rte_ipv4_udptcp_cksum m ip l4 =
    (let l3_len = unat (ntohs (rd16 m (ip + 2)))
     in if l3_len < 20 then 0
        else
         let l4_len = l3_len - 20;
             cksum = ucast (rte_raw_cksum (rd_bytes m l4 l4_len)) :: u32;
             cksum = cksum + ucast (rte_ipv4_phdr_cksum m ip 0);
             cksum = drop_bit 16 (cksum AND 0xffff0000) + (cksum AND 0xffff);
             cksum = NOT cksum AND 0xffff;
             cksum = (if cksum = 0 then 0xffff else cksum)
         in ucast cksum)"

text \<open>
  \<open>rte_raw_cksum_mbuf\<close>: the buffer is the list of the contents of its segments.  The acc of a
  segment that starts at an odd position is byte-swapped after a truncation to 16 bits.
\<close>

fun skip_segs :: "u8 list list \<Rightarrow> nat \<Rightarrow> u8 list list \<times> nat" where
  "skip_segs [] off = ([], off)"
| "skip_segs (seg # segs) off =
    (if off < List.length seg then (seg # segs, off) else skip_segs segs (off - List.length seg))"

fun cksum_segs :: "u8 list \<Rightarrow> u8 list list \<Rightarrow> nat \<Rightarrow> nat \<Rightarrow> u32 \<Rightarrow> u32" where
  "cksum_segs bs segs done len acc =
    (let tmp = rte_raw_cksum_sum bs 0;
         tmp = (if odd done then ucast (bswap16 (ucast tmp)) else tmp);
         acc = acc + tmp;
         done = done + List.length bs
     in if done = len then acc
        else case segs of
               [] \<Rightarrow> acc
             | seg # segs \<Rightarrow> cksum_segs (take (len - done) seg) segs done len acc)"

declare cksum_segs.simps [simp del]

definition rte_raw_cksum_mbuf :: "u8 list list \<Rightarrow> nat \<Rightarrow> nat \<Rightarrow> u16 option" where
  "rte_raw_cksum_mbuf segs off len =
    (if off + len \<le> List.length (hd segs) then Some (rte_raw_cksum (take len (drop off (hd segs))))
     else if off + len > List.length (concat segs) then None
     else case skip_segs segs off of
            ([], off) \<Rightarrow> None
          | (seg # segs, off) \<Rightarrow>
             let bs = drop off seg
             in if List.length bs \<ge> len then Some (rte_raw_cksum (take len bs))
                else Some (rte_raw_cksum_reduce (cksum_segs bs segs 0 len 0)))"

section \<open>Sums of words\<close>

fun word_sum :: "u8 list \<Rightarrow> nat" where
  "word_sum (a # b # bs) = unat (of_le16 a b) + word_sum bs"
| "word_sum [a] = unat a"
| "word_sum [] = 0"

lemma raw_cksum_sum_seq: "rte_raw_cksum_sum bs acc = raw_cksum1 bs acc"
  unfolding rte_raw_cksum_sum_def
  by (induction bs acc rule: raw_cksum4.induct) simp_all

lemma word_sum_le: "word_sum bs \<le> 65535 * ((List.length bs + 1) div 2)"
proof (induction bs rule: word_sum.induct)
  case (1 a b bs)
  show ?case using 1 unat_bounds(2) [of "of_le16 a b"] by simp
next
  case (2 a)
  show ?case using unat_bounds(1) [of a] by simp
next
  case 3
  then show ?case by simp
qed

lemma raw_cksum1_sum: "unat s + word_sum bs < 2 ^ 32 \<Longrightarrow> unat (raw_cksum1 bs s) = unat s + word_sum bs"
proof (induction bs arbitrary: s rule: word_sum.induct)
  case (1 a b bs)
  have "unat (s + ucast (of_le16 a b)) = unat s + unat (of_le16 a b)"
    using 1(2) by (simp add: unat_word_ariths unat_ucast_wider)
  then show ?case using 1 by simp
next
  case (2 a)
  then show ?case by (simp add: unat_word_ariths unat_ucast_wider)
next
  case 3
  then show ?case by simp
qed

lemma raw_cksum_sum_eq:
  "word_sum bs < 2 ^ 32 \<Longrightarrow> unat (rte_raw_cksum_sum bs 0) = word_sum bs"
  unfolding raw_cksum_sum_seq by (subst raw_cksum1_sum) simp_all

section \<open>Folding carries\<close>

definition ones_comp :: "nat \<Rightarrow> nat" where
  "ones_comp s = (if s = 0 then 0 else (s - 1) mod 65535 + 1)"

lemma ones_comp_le: "ones_comp s \<le> 65535"
  using mod_less_divisor [of 65535 "s - 1"] by (simp add: ones_comp_def Suc_le_eq)

lemma ones_comp_mod: "ones_comp s mod 65535 = s mod 65535"
  by (cases s) (simp_all add: ones_comp_def mod_Suc_eq)

lemma ones_comp_0_iff [simp]: "ones_comp s = 0 \<longleftrightarrow> s = 0"
  by (simp add: ones_comp_def)

lemma ones_comp_unique:
  assumes "r \<le> 65535" "r mod 65535 = s mod 65535" "r = 0 \<longleftrightarrow> s = 0"
  shows "r = ones_comp s"
proof (cases "s = 0")
  case True
  then show ?thesis using assms by simp
next
  case False
  then have "0 < r" "0 < ones_comp s" using assms by (auto simp: ones_comp_def)
  moreover have "ones_comp s \<le> 65535" "r mod 65535 = ones_comp s mod 65535"
    using assms by (simp_all only: ones_comp_le ones_comp_mod)
  ultimately have "r mod 65535 = ones_comp s mod 65535" "r \<noteq> 0" "ones_comp s \<noteq> 0"
    "r \<le> 65535" "ones_comp s \<le> 65535" using assms(1) False by auto
  then show ?thesis by (cases "r = 65535"; cases "ones_comp s = 65535") auto
qed

lemma ones_comp_add: "ones_comp (ones_comp a + ones_comp b) = ones_comp (a + b)"
proof (rule ones_comp_unique)
  show "ones_comp (ones_comp a + ones_comp b) \<le> 65535" by (rule ones_comp_le)
  have "(ones_comp a + ones_comp b) mod 65535 = (a + b) mod 65535"
    by (metis mod_add_cong ones_comp_mod)
  then show "ones_comp (ones_comp a + ones_comp b) mod 65535 = (a + b) mod 65535"
    by (simp only: ones_comp_mod)
qed simp

lemma mask16_hi: "drop_bit 16 (x AND 0xffff0000) = drop_bit 16 (x :: u32)"
proof (rule bit_word_eqI)
  fix n assume "n < LENGTH(32)"
  have m: "(0xffff0000 :: u32) = push_bit 16 (mask 16)"
    by (simp add: mask_eq_exp_minus_1 push_bit_eq_mult)
  show "bit (drop_bit 16 (x AND 0xffff0000)) n = bit (drop_bit 16 x) n"
    using bit_imp_le_length [of x "16 + n"]
    unfolding m by (auto simp: bit_drop_bit_eq bit_and_iff bit_push_bit_iff bit_mask_iff)
qed

definition fold16 :: "nat \<Rightarrow> nat" where
  "fold16 s = s div 65536 + s mod 65536"

lemma fold16_mod: "fold16 s mod 65535 = s mod 65535"
proof -
  have "s = 65535 * (s div 65536) + fold16 s"
    by (simp add: fold16_def)
  then show ?thesis by (metis mod_mult_self4)
qed

lemma fold16_0_iff [simp]: "fold16 s = 0 \<longleftrightarrow> s = 0"
  by (auto simp: fold16_def)

lemma unat_and_ffff: "unat (x AND 0xffff :: u32) = unat x mod 65536"
  using unat_and_mask [of x 16] by simp

lemma unat_fold: "unat (drop_bit 16 (x AND 0xffff0000) + (x AND 0xffff) :: u32) = fold16 (unat x)"
proof -
  have h: "unat (drop_bit 16 x) = unat x div 65536"
    unfolding unat_drop_bit by simp
  have "unat x div 65536 < 65536" "unat x mod 65536 < 65536"
    using unat_bounds(3) [of x] by simp_all
  then show ?thesis
    unfolding mask16_hi unat_word_ariths h unat_and_ffff fold16_def by simp
qed

lemma fold16_small: "s \<le> 131070 \<Longrightarrow> fold16 s = ones_comp s"
proof (rule ones_comp_unique)
  assume s: "s \<le> 131070"
  show "fold16 s \<le> 65535"
  proof (cases "s < 65536")
    case True
    then show ?thesis by (simp add: fold16_def)
  next
    case False
    then have "s div 65536 = 1" "s mod 65536 = s - 65536" using s by (simp_all add: mod_if div_if)
    then show ?thesis using s by (simp add: fold16_def)
  qed
qed (simp_all add: fold16_mod)

lemma reduce_eq: "unat (rte_raw_cksum_reduce s) = ones_comp (unat s)"
proof -
  have "unat s div 65536 < 65536" using unat_bounds(3) [of s] by simp
  then have le: "fold16 (unat s) \<le> 131070"
    using mod_less_divisor [of 65536 "unat s"] unfolding fold16_def by linarith
  have "unat (rte_raw_cksum_reduce s) = fold16 (fold16 (unat s)) mod 65536"
    unfolding rte_raw_cksum_reduce_def Let_def unsigned_ucast_eq take_bit_eq_mod unat_fold by simp
  also have "\<dots> = ones_comp (fold16 (unat s))"
    using fold16_small [OF le] ones_comp_le [of "fold16 (unat s)"] by simp
  also have "\<dots> = ones_comp (unat s)"
    by (rule ones_comp_unique) (simp_all add: ones_comp_le ones_comp_mod fold16_mod)
  finally show ?thesis .
qed

lemma raw_cksum_eq:
  "word_sum bs < 2 ^ 32 \<Longrightarrow> unat (rte_raw_cksum bs) = ones_comp (word_sum bs)"
  by (simp add: rte_raw_cksum_def reduce_eq raw_cksum_sum_eq)

lemma word_sum_small: "List.length bs \<le> 65536 \<Longrightarrow> word_sum bs < 2 ^ 32"
  using word_sum_le [of bs] by simp

section \<open>Words of a range of memory\<close>

lemma word_sum_append: "even (List.length xs) \<Longrightarrow> word_sum (xs @ ys) = word_sum xs + word_sum ys"
  by (induction xs rule: word_sum.induct) simp_all

lemma rd_bytes_add: "rd_bytes m p (a + b) = rd_bytes m p a @ rd_bytes m (p + a) b"
  by (rule nth_equalityI) (auto simp: rd_bytes_def nth_append)

lemma rd_bytes_2: "rd_bytes m p 2 = [m p, m (p + 1)]"
  by (simp add: rd_bytes_def numeral_2_eq_2)

lemma word_sum_rd16: "word_sum (rd_bytes m p 2) = unat (rd16 m p)"
  by (simp add: rd_bytes_2 rd16_def)

text \<open>A range with one word at an even offset singled out.\<close>

lemma word_sum_split:
  assumes "even k" "k + 2 \<le> n"
  shows "word_sum (rd_bytes m p n)
    = word_sum (rd_bytes m p k) + unat (rd16 m (p + k)) + word_sum (rd_bytes m (p + k + 2) (n - k - 2))"
proof -
  obtain j where j: "n = (k + 2) + j" using assms(2) le_Suc_ex by blast
  have "rd_bytes m p n = (rd_bytes m p k @ rd_bytes m (p + k) 2) @ rd_bytes m (p + (k + 2)) j"
    unfolding j rd_bytes_add ..
  then show ?thesis
    using assms(1) j by (simp add: word_sum_append word_sum_rd16 add.assoc)
qed

lemma word_sum_wr16:
  assumes "even k" "k + 2 \<le> n" "rd16 m (p + k) = 0"
  shows "word_sum (rd_bytes (wr16 (p + k) v m) p n) = word_sum (rd_bytes m p n) + unat v"
  unfolding word_sum_split [OF assms(1,2)] using assms(3) by (simp add: buf_simps)

section \<open>The IPv4 header checksum\<close>

lemma ones_comp_full: "s mod 65535 = 0 \<Longrightarrow> s \<noteq> 0 \<Longrightarrow> ones_comp s = 65535"
  by (rule sym, rule ones_comp_unique) simp_all

lemma unat_not16: "unat (NOT x :: u16) = 65535 - unat x"
proof -
  have "NOT x = - x - 1" by (simp add: not_eq_complement)
  then have "NOT x = 0xffff - x" by simp
  then show ?thesis using unat_bounds(2) [of x] by (simp add: unat_sub_add_le)
qed

lemma header_sum_verifies:
  assumes "s < 2 ^ 32" "c = (if ones_comp s = 65535 then 65535 else 65535 - ones_comp s)"
  shows "(s + c) mod 65535 = 0 \<and> s + c \<noteq> 0"
proof -
  have "(ones_comp s + c) mod 65535 = 0"
    using assms(2) ones_comp_le [of s] by simp
  then have "(s + c) mod 65535 = 0" using ones_comp_mod [of s] by (metis mod_add_left_eq)
  moreover have "s + c \<noteq> 0" using assms(2) by (cases "s = 0") (auto simp: ones_comp_def)
  ultimately show ?thesis by blast
qed

lemma unat_ipv4_cksum:
  "unat (rte_ipv4_cksum m ip) =
    (let s = ones_comp (word_sum (rd_bytes m ip 20)) in if s = 65535 then 65535 else 65535 - s)"
proof -
  have e: "unat (rte_raw_cksum (rd_bytes m ip 20)) = ones_comp (word_sum (rd_bytes m ip 20))"
    by (rule raw_cksum_eq [OF word_sum_small]) simp
  have "rte_raw_cksum (rd_bytes m ip 20) = 0xffff \<longleftrightarrow> ones_comp (word_sum (rd_bytes m ip 20)) = 65535"
    unfolding e [symmetric] by (simp add: word_unat_eq_iff)
  then show ?thesis by (simp add: rte_ipv4_cksum_def Let_def unat_not16 e)
qed

section \<open>The UDP and TCP checksum\<close>

definition l4_length :: "buf \<Rightarrow> nat \<Rightarrow> nat" where
  "l4_length m ip = unat (ntohs (rd16 m (ip + 2))) - 20"

definition psd_bytes :: "buf \<Rightarrow> nat \<Rightarrow> u8 list" where
  "psd_bytes m ip = psd_header (rd32 m (ip + 12)) (rd32 m (ip + 16)) (m (ip + 9))
     (htons (ntohs (rd16 m (ip + 2)) - 20))"

definition l4_sum :: "buf \<Rightarrow> nat \<Rightarrow> nat \<Rightarrow> nat" where
  "l4_sum m ip l4 = word_sum (rd_bytes m l4 (l4_length m ip)) + word_sum (psd_bytes m ip)"

lemma length_psd_bytes [simp]: "List.length (psd_bytes m ip) = 12"
  by (simp add: psd_bytes_def psd_header_def)

lemma unat_not_and32:
  assumes "unat x \<le> 65535"
  shows "unat (NOT x AND 0xffff :: u32) = 65535 - unat x"
proof -
  have "NOT x = - x - 1" by (simp add: not_eq_complement)
  then have "NOT x = 0xffffffff - x" by simp
  then have "unat (NOT x) = 4294967295 - unat x"
    using unat_bounds(3) [of x] by (simp add: unat_sub_add_le)
  also have "\<dots> = (65535 - unat x) + 65536 * 65535" using assms by simp
  finally have e: "unat (NOT x) = (65535 - unat x) + 65536 * 65535" .
  have "65535 - unat x < 65536" by simp
  then show ?thesis unfolding unat_and_ffff e by (simp only: mod_mult_self2 mod_less)
qed

lemma unat_udptcp_cksum:
  assumes "20 \<le> unat (ntohs (rd16 m (ip + 2)))"
  shows "unat (rte_ipv4_udptcp_cksum m ip l4) =
    (let s = ones_comp (l4_sum m ip l4) in if s = 65535 then 65535 else 65535 - s)"
proof -
  let ?a = "word_sum (rd_bytes m l4 (l4_length m ip))" and ?b = "word_sum (psd_bytes m ip)"
  let ?x = "ucast (rte_raw_cksum (rd_bytes m l4 (l4_length m ip))) :: u32"
  let ?y = "ucast (rte_ipv4_phdr_cksum m ip 0) :: u32"
  let ?f = "drop_bit 16 ((?x + ?y) AND 0xffff0000) + ((?x + ?y) AND 0xffff)"
  have len: "l4_length m ip \<le> 65536"
    using unat_bounds(2) [of "ntohs (rd16 m (ip + 2))"] by (simp add: l4_length_def)
  have x: "unat ?x = ones_comp ?a"
    using raw_cksum_eq [OF word_sum_small] len by (simp add: unat_ucast_wider)
  have y: "unat ?y = ones_comp ?b"
    using raw_cksum_eq [OF word_sum_small, of "psd_bytes m ip"] length_psd_bytes [of m ip]
    by (simp add: unat_ucast_wider rte_ipv4_phdr_cksum_def psd_bytes_def)
  have xy: "unat (?x + ?y) = ones_comp ?a + ones_comp ?b"
    using ones_comp_le [of ?a] ones_comp_le [of ?b] by (simp add: unat_word_ariths x y)
  have f: "unat ?f = ones_comp (l4_sum m ip l4)"
    unfolding unat_fold xy l4_sum_def
    using ones_comp_le [of ?a] ones_comp_le [of ?b] fold16_small ones_comp_add by simp
  have n: "unat (NOT ?f AND 0xffff) = 65535 - ones_comp (l4_sum m ip l4)"
    using f ones_comp_le by (subst unat_not_and32) simp_all
  have z: "NOT ?f AND 0xffff = 0 \<longleftrightarrow> ones_comp (l4_sum m ip l4) = 65535"
    using n ones_comp_le [of "l4_sum m ip l4"] by (auto simp: word_unat_eq_iff)
  have r: "rte_ipv4_udptcp_cksum m ip l4
      = ucast (if NOT ?f AND 0xffff = 0 then 0xffff else NOT ?f AND 0xffff)"
    using assms by (simp only: rte_ipv4_udptcp_cksum_def Let_def l4_length_def not_less [symmetric] if_False)
  show ?thesis
    using n z ones_comp_le [of "l4_sum m ip l4"] unfolding r Let_def
    by (auto simp: unsigned_ucast_eq take_bit_eq_mod)
qed

lemma l4_sum_wr16:
  assumes "even k" "k + 2 \<le> l4_length m ip" "ip + 20 \<le> l4" "rd16 m (l4 + k) = 0"
  shows "l4_sum (wr16 (l4 + k) v m) ip l4 = l4_sum m ip l4 + unat v"
proof -
  have "l4_length (wr16 (l4 + k) v m) ip = l4_length m ip"
    using assms(3) by (simp add: l4_length_def buf_simps)
  moreover have "psd_bytes (wr16 (l4 + k) v m) ip = psd_bytes m ip"
    using assms(3) by (simp add: psd_bytes_def buf_simps)
  ultimately show ?thesis using assms by (simp add: l4_sum_def word_sum_wr16)
qed

lemma l4_sum_small: "l4_sum m ip l4 < 2 ^ 32"
proof -
  have "List.length (rd_bytes m l4 (l4_length m ip)) \<le> 65515"
    using unat_bounds(2) [of "ntohs (rd16 m (ip + 2))"] by (simp add: l4_length_def)
  then have "word_sum (rd_bytes m l4 (l4_length m ip)) \<le> 65535 * 32758"
    using word_sum_le [of "rd_bytes m l4 (l4_length m ip)"] by simp
  moreover have "word_sum (psd_bytes m ip) \<le> 65535 * 6"
    using word_sum_le [of "psd_bytes m ip"] by simp
  ultimately show ?thesis by (simp add: l4_sum_def)
qed

section \<open>Chained buffers\<close>

definition even_segs :: "u8 list list \<Rightarrow> bool" where
  "even_segs segs \<longleftrightarrow> (\<forall>seg\<in>set segs. even (List.length seg))"

lemma cksum_segs_even:
  assumes "even_segs segs" "even done" "even (List.length bs) \<or> done + List.length bs = len"
    and "done + List.length bs \<le> len" "len \<le> done + List.length (bs @ concat segs)"
    and "unat acc + word_sum (take (len - done) (bs @ concat segs)) < 2 ^ 32"
  shows "unat (cksum_segs bs segs done len acc)
    = unat acc + word_sum (take (len - done) (bs @ concat segs))"
  using assms
proof (induction segs arbitrary: bs "done" acc)
  case Nil
  then have d: "done + List.length bs = len" by simp
  then have t: "take (len - done) bs = bs" by simp
  then have w: "word_sum bs < 2 ^ 32" "unat acc + word_sum bs < 2 ^ 32" using Nil by simp_all
  show ?case
    using Nil(2) d t w by (subst cksum_segs.simps) (simp add: Let_def unat_word_ariths raw_cksum_sum_eq)
next
  case (Cons seg segs)
  show ?case
  proof (cases "done + List.length bs = len")
    case True
    then have t: "take (len - done) (bs @ concat (seg # segs)) = bs" by auto
    then have "word_sum bs < 2 ^ 32" "unat acc + word_sum bs < 2 ^ 32" using Cons.prems(6) by simp_all
    then show ?thesis
      using Cons.prems(2) True t by (subst cksum_segs.simps) (simp add: Let_def unat_word_ariths raw_cksum_sum_eq)
  next
    case False
    let ?d = "done + List.length bs" and ?s = "take (len - (done + List.length bs)) seg"
    have e: "even (List.length bs)" "even ?d" using Cons.prems(2,3) False by auto
    have split: "take (len - done) (bs @ concat (seg # segs)) = bs @ take (len - ?d) (?s @ concat segs)"
      using Cons.prems(4) by (auto simp: take_append min_def)
    have ws: "word_sum (take (len - done) (bs @ concat (seg # segs)))
        = word_sum bs + word_sum (take (len - ?d) (?s @ concat segs))"
      unfolding split using e by (simp add: word_sum_append)
    have b: "word_sum bs < 2 ^ 32" "unat acc + word_sum bs < 2 ^ 32"
      using Cons.prems(6) ws by linarith+
    let ?acc = "acc + rte_raw_cksum_sum bs 0"
    have a: "unat ?acc = unat acc + word_sum bs"
      using b by (simp add: unat_word_ariths raw_cksum_sum_eq)
    have r: "cksum_segs bs (seg # segs) done len acc = cksum_segs ?s segs ?d len ?acc"
      using Cons.prems(2) False by (subst cksum_segs.simps) (simp add: Let_def)
    have "unat (cksum_segs ?s segs ?d len ?acc)
        = unat ?acc + word_sum (take (len - ?d) (?s @ concat segs))"
    proof (rule Cons.IH)
      show "even_segs segs" "even ?d" using Cons.prems(1) e by (auto simp: even_segs_def)
      show "even (List.length ?s) \<or> ?d + List.length ?s = len"
        using Cons.prems(1,4) by (auto simp: even_segs_def min_def)
      show "?d + List.length ?s \<le> len" using Cons.prems(4) by simp
      show "len \<le> ?d + List.length (?s @ concat segs)" using Cons.prems(4,5) by auto
      show "unat ?acc + word_sum (take (len - ?d) (?s @ concat segs)) < 2 ^ 32"
        using Cons.prems(6) ws a by linarith
    qed
    then show ?thesis using r a ws by simp
  qed
qed

lemma mod65535_ne:
  assumes "(w :: nat) \<le> 65535" "v \<le> 65535" "w \<noteq> v" "\<not> (w = 0 \<and> v = 65535)" "\<not> (w = 65535 \<and> v = 0)"
  shows "(s + w) mod 65535 \<noteq> (s + v) mod 65535"
proof
  assume "(s + w) mod 65535 = (s + v) mod 65535"
  then have "w mod 65535 = v mod 65535" by (simp add: nat_mod_eq_iff)
  then show False using assms by (cases "w = 65535"; cases "v = 65535") auto
qed

lemma skip_segs_spec:
  "off < List.length (concat segs) \<Longrightarrow> even_segs segs \<Longrightarrow> even off \<Longrightarrow>
   \<exists>seg segs' off'. skip_segs segs off = (seg # segs', off') \<and> off' < List.length seg
     \<and> drop off (concat segs) = drop off' seg @ concat segs' \<and> even (List.length seg)
     \<and> even_segs segs' \<and> even off'"
proof (induction segs off rule: skip_segs.induct)
  case (1 off)
  then show ?case by simp
next
  case (2 seg segs off)
  then show ?case by (auto simp: even_segs_def)
qed

lemma mbuf_hard_case:
  assumes "even_segs segs" "even (List.length bs)" "List.length bs \<le> len"
    and "len \<le> List.length (bs @ concat segs)" "len \<le> 65536"
  shows "rte_raw_cksum_reduce (cksum_segs bs segs 0 len 0)
    = rte_raw_cksum (take len (bs @ concat segs))"
proof -
  let ?t = "take len (bs @ concat segs)"
  have w: "word_sum ?t < 2 ^ 32" using assms(5) by (intro word_sum_small) simp
  have "unat (cksum_segs bs segs 0 len 0) = unat (0 :: u32) + word_sum (take (len - 0) (bs @ concat segs))"
    using assms w by (intro cksum_segs_even) simp_all
  then have "unat (rte_raw_cksum_reduce (cksum_segs bs segs 0 len 0)) = ones_comp (word_sum ?t)"
    by (simp add: reduce_eq)
  then show ?thesis using raw_cksum_eq [OF w] by (metis word_unat_eq_iff)
qed

lemma ipv4_cksum_stored:
  assumes "rd16 m (ip + 10) = 0"
  shows "rte_raw_cksum (rd_bytes (wr16 (ip + 10) (rte_ipv4_cksum m ip) m) ip 20) = 0xffff"
proof -
  let ?s = "word_sum (rd_bytes m ip 20)" and ?m = "wr16 (ip + 10) (rte_ipv4_cksum m ip) m"
  have s: "?s < 2 ^ 32" by (rule word_sum_small) simp
  have "word_sum (rd_bytes ?m ip 20) = ?s + unat (rte_ipv4_cksum m ip)"
    using assms by (intro word_sum_wr16) simp_all
  moreover have "(?s + unat (rte_ipv4_cksum m ip)) mod 65535 = 0 \<and> ?s + unat (rte_ipv4_cksum m ip) \<noteq> 0"
    by (rule header_sum_verifies [OF s]) (simp add: unat_ipv4_cksum Let_def)
  moreover have "unat (rte_raw_cksum (rd_bytes ?m ip 20)) = ones_comp (word_sum (rd_bytes ?m ip 20))"
    by (rule raw_cksum_eq [OF word_sum_small]) simp
  ultimately have "unat (rte_raw_cksum (rd_bytes ?m ip 20)) = 65535" by (simp add: ones_comp_full)
  then show ?thesis by (simp add: word_unat_eq_iff)
qed

lemma udptcp_cksum_stored:
  assumes "even k" "k + 2 \<le> l4_length m ip" "ip + 20 \<le> l4" "rd16 m (l4 + k) = 0"
  shows "l4_sum (wr16 (l4 + k) (rte_ipv4_udptcp_cksum m ip l4) m) ip l4 mod 65535 = 0
    \<and> rte_ipv4_udptcp_cksum m ip l4 \<noteq> 0"
proof -
  have l: "20 \<le> unat (ntohs (rd16 m (ip + 2)))" using assms(2) by (simp add: l4_length_def)
  have c: "unat (rte_ipv4_udptcp_cksum m ip l4)
      = (if ones_comp (l4_sum m ip l4) = 65535 then 65535 else 65535 - ones_comp (l4_sum m ip l4))"
    using unat_udptcp_cksum [OF l] by (simp add: Let_def)
  have "unat (rte_ipv4_udptcp_cksum m ip l4) \<noteq> 0"
    unfolding c using ones_comp_le [of "l4_sum m ip l4"] by auto
  moreover have "(l4_sum m ip l4 + unat (rte_ipv4_udptcp_cksum m ip l4)) mod 65535 = 0"
    using header_sum_verifies [OF l4_sum_small c] by blast
  ultimately show ?thesis using l4_sum_wr16 [OF assms] by (auto simp: unat_eq_zero)
qed

section \<open>Properties\<close>

text \<open>The unrolled summing loop and the two carry folds compute the plain sum of the 16-bit
  words modulo 65535: for a buffer of at most 64 KiB, \<open>rte_raw_cksum\<close> is the ones' complement
  sum of its words, so no carry is lost and 0 is the checksum of an all-zero sum only.\<close>

theorem rte_raw_cksum_value:
  "List.length bs \<le> 65536 \<Longrightarrow> unat (rte_raw_cksum bs) = ones_comp (word_sum bs)"
  by (rule raw_cksum_eq [OF word_sum_small])

lemma rte_raw_cksum_value_witness:
  "unat (rte_raw_cksum [0xff, 0xff, 0x01, 0x00, 0x02]) = ones_comp (word_sum [0xff, 0xff, 0x01, 0x00, 0x02])"
  by (rule rte_raw_cksum_value) simp

text \<open>A header whose checksum field was zero verifies once \<open>rte_ipv4_cksum\<close> is stored in the
  field: the raw checksum of its 20 bytes is then 0xffff, whatever the other fields hold.\<close>

theorem rte_ipv4_cksum_verifies:
  assumes "rd16 m (ip + 10) = 0"
  shows "rte_raw_cksum (rd_bytes (wr16 (ip + 10) (rte_ipv4_cksum m ip) m) ip 20) = 0xffff"
  using assms by (rule ipv4_cksum_stored)

lemma rte_ipv4_cksum_verifies_witness:
  "rte_raw_cksum (rd_bytes (wr16 (14 + 10) (rte_ipv4_cksum (\<lambda>i. if i = 14 then 0x45 else 0) 14)
     (\<lambda>i. if i = 14 then 0x45 else 0)) 14 20) = 0xffff"
  by (rule rte_ipv4_cksum_verifies) (simp add: rd16_def of_le16_def)

text \<open>C29. The UDP and TCP checksum verifies: when the checksum field (at an even offset \<open>k\<close> of
  the transport header) was zero, storing \<open>rte_ipv4_udptcp_cksum\<close> makes the sum of the segment
  and its pseudo header divisible by 65535, and the stored value is never 0 (which in UDP
  means that no checksum was computed).\<close>

theorem udptcp_cksum_verifies:
  assumes "even k" "k + 2 \<le> l4_length m ip" "ip + 20 \<le> l4" "rd16 m (l4 + k) = 0"
  shows "l4_sum (wr16 (l4 + k) (rte_ipv4_udptcp_cksum m ip l4) m) ip l4 mod 65535 = 0
    \<and> rte_ipv4_udptcp_cksum m ip l4 \<noteq> 0"
  using assms by (rule udptcp_cksum_stored)

lemma udptcp_cksum_verifies_witness:
  "l4_sum (wr16 (20 + 6) (rte_ipv4_udptcp_cksum (\<lambda>i. if i = 3 then 28 else 0) 0 20)
      (\<lambda>i. if i = 3 then 28 else 0)) 0 20 mod 65535 = 0
    \<and> rte_ipv4_udptcp_cksum (\<lambda>i. if i = 3 then 28 else 0) 0 20 \<noteq> 0"
  by (rule udptcp_cksum_verifies)
    (simp_all add: l4_length_def rd16_def of_le16_def bswap16_eq push_bit_eq_mult)

text \<open>The checksum detects the corruption of any one aligned 16-bit word, except the
  exchange of 0x0000 and 0xffff (the two zeros of ones' complement).\<close>

lemma rte_raw_cksum_detects:
  assumes "even (List.length xs)" "List.length (xs @ a # b # ys) \<le> 65536"
    and "of_le16 a b \<noteq> of_le16 c d" "{of_le16 a b, of_le16 c d} \<noteq> {0, 0xffff}"
  shows "rte_raw_cksum (xs @ a # b # ys) \<noteq> rte_raw_cksum (xs @ c # d # ys)"
proof
  let ?w = "of_le16 a b" and ?v = "of_le16 c d" and ?r = "word_sum xs + word_sum ys"
  assume eq: "rte_raw_cksum (xs @ a # b # ys) = rte_raw_cksum (xs @ c # d # ys)"
  have "word_sum (xs @ a # b # ys) = ?r + unat ?w" "word_sum (xs @ c # d # ys) = ?r + unat ?v"
    using assms(1) by (simp_all add: word_sum_append)
  moreover have "unat (rte_raw_cksum (xs @ a # b # ys)) = ones_comp (word_sum (xs @ a # b # ys))"
    "unat (rte_raw_cksum (xs @ c # d # ys)) = ones_comp (word_sum (xs @ c # d # ys))"
    using assms(2) by (auto intro!: raw_cksum_eq word_sum_small)
  ultimately have "ones_comp (?r + unat ?w) = ones_comp (?r + unat ?v)" using eq by simp
  then have "(?r + unat ?w) mod 65535 = (?r + unat ?v) mod 65535" by (metis ones_comp_mod)
  moreover have "unat ?w \<noteq> unat ?v" "\<not> (unat ?w = 0 \<and> unat ?v = 65535)"
    "\<not> (unat ?w = 65535 \<and> unat ?v = 0)"
    using assms(3,4) by (auto simp: word_unat_eq_iff insert_commute)
  ultimately show False using mod65535_ne unat_bounds(2) by blast
qed

lemma rte_raw_cksum_detects_witness:
  "rte_raw_cksum ([1, 2] @ 3 # 4 # [5]) \<noteq> rte_raw_cksum ([1, 2] @ 3 # 5 # [5])"
  by (rule rte_raw_cksum_detects) (simp_all add: of_le16_def push_bit_eq_mult doubleton_eq_iff)

text \<open>Over a chained buffer whose segments all have even lengths, \<open>rte_raw_cksum_mbuf\<close> is the
  checksum of the contiguous bytes, for any even offset and any length inside the buffer.\<close>

theorem rte_raw_cksum_mbuf_even:
  assumes "even_segs segs" "even off" "off + len \<le> List.length (concat segs)" "len \<le> 65536"
    and "0 < len"
  shows "rte_raw_cksum_mbuf segs off len = Some (rte_raw_cksum (take len (drop off (concat segs))))"
proof (cases "off + len \<le> List.length (hd segs)")
  case True
  then obtain seg rest where segs: "segs = seg # rest" using assms(3,5) by (cases segs) auto
  have "take len (drop off (seg @ concat rest)) = take len (drop off seg)" using True segs by simp
  then show ?thesis using True segs by (simp add: rte_raw_cksum_mbuf_def)
next
  case False
  obtain seg segs' off' where s: "skip_segs segs off = (seg # segs', off')" "off' < List.length seg"
    "drop off (concat segs) = drop off' seg @ concat segs'" "even (List.length seg)"
    "even_segs segs'" "even off'"
    using skip_segs_spec [of off segs] assms by auto
  show ?thesis
  proof (cases "len \<le> List.length (drop off' seg)")
    case True
    then show ?thesis using False s(1,3) assms(3) by (simp add: rte_raw_cksum_mbuf_def Let_def)
  next
    case short: False
    have "len \<le> List.length (drop off (concat segs))" using assms(3) by simp
    then have "rte_raw_cksum_reduce (cksum_segs (drop off' seg) segs' 0 len 0)
        = rte_raw_cksum (take len (drop off' seg @ concat segs'))"
      using short s assms(4) by (intro mbuf_hard_case) simp_all
    then show ?thesis using False short s(1,3) assms(3) by (simp add: rte_raw_cksum_mbuf_def Let_def)
  qed
qed

lemma rte_raw_cksum_mbuf_even_witness:
  "rte_raw_cksum_mbuf [[1, 2], [3, 4, 5, 6]] 0 5 = Some (rte_raw_cksum (take 5 (drop 0 (concat [[1, 2], [3, 4, 5, 6]]))))"
  by (rule rte_raw_cksum_mbuf_even) (simp_all add: even_segs_def)

text \<open>With a segment of odd length before it, the sum of a segment loses its carries: the
  sum is truncated to 16 bits before its bytes are swapped, so the result is not the checksum
  of the packet.\<close>

theorem rte_raw_cksum_mbuf_odd_segment:
  "rte_raw_cksum_mbuf [[0], [0xff, 0xff, 0x01, 0x00]] 0 5
    \<noteq> Some (rte_raw_cksum (concat [[0], [0xff, 0xff, 0x01, 0x00]]))"
  by code_simp

end
