(* ===== verification/Frame.thy ===== *)
theory Frame
  imports State Cksum
begin

text \<open>
  The Ethernet and IPv4 headers both encoders of the stack write
  (\<open>ng_encode_udp_apppkt\<close>, \<open>ng_encode_tcp_apppkt\<close>), the decoding of the fields they share, and the
  checks a receiver makes on a frame.
\<close>

definition encode_eth_ip :: "mac \<Rightarrow> mac \<Rightarrow> u16 \<Rightarrow> u8 \<Rightarrow> u32 \<Rightarrow> u32 \<Rightarrow> buf \<Rightarrow> buf" where
  "encode_eth_ip srcmac dstmac total_len proto sip dip msg =
    (let msg = wr_bytes eth_s_addr srcmac msg;
         msg = wr_bytes eth_d_addr dstmac msg;
         msg = wr16 eth_ether_type (htons RTE_ETHER_TYPE_IPV4) msg;
         msg = wr8 ip_version_ihl 0x45 msg;
         msg = wr8 ip_type_of_service 0 msg;
         msg = wr16 ip_total_length (htons (total_len - 14)) msg;
         msg = wr16 ip_packet_id 0 msg;
         msg = wr16 ip_fragment_offset 0 msg;
         msg = wr8 ip_time_to_live 64 msg;
         msg = wr8 ip_next_proto_id proto msg;
         msg = wr32 ip_src_addr sip msg;
         msg = wr32 ip_dst_addr dip msg;
         msg = wr16 ip_hdr_checksum 0 msg;
         msg = wr16 ip_hdr_checksum (rte_ipv4_cksum msg ip_hdr) msg
     in msg)"

record ip_frame =
  if_dst :: mac
  if_src :: mac
  if_ether_type :: u16
  if_version_ihl :: u8
  if_total_length :: u16
  if_ttl :: u8
  if_proto :: u8
  if_sip :: u32
  if_dip :: u32

definition decode_ip :: "buf \<Rightarrow> ip_frame" where
  "decode_ip m = \<lparr>if_dst = rd_bytes m eth_d_addr 6, if_src = rd_bytes m eth_s_addr 6,
     if_ether_type = ntohs (rd16 m eth_ether_type), if_version_ihl = m ip_version_ihl,
     if_total_length = ntohs (rd16 m ip_total_length), if_ttl = m ip_time_to_live,
     if_proto = m ip_next_proto_id, if_sip = rd32 m ip_src_addr, if_dip = rd32 m ip_dst_addr\<rparr>"

definition ip_header_ok :: "buf \<Rightarrow> bool" where
  "ip_header_ok m \<longleftrightarrow> rte_raw_cksum (rd_bytes m ip_hdr 20) = 0xffff"

definition l4_ok :: "buf \<Rightarrow> bool" where
  "l4_ok m \<longleftrightarrow> l4_sum m ip_hdr l4_hdr mod 65535 = 0"

text \<open>The headers occupy the first 34 bytes and depend on nothing else.\<close>

definition same_headers :: "buf \<Rightarrow> buf \<Rightarrow> bool" where
  "same_headers m m' \<longleftrightarrow> (\<forall>i<34. m i = m' i)"

lemma same_headers_refl [simp]: "same_headers m m"
  by (simp add: same_headers_def)

lemma same_headers_wr [simp]:
  "34 \<le> p \<Longrightarrow> same_headers (wr_bytes p bs m) m' \<longleftrightarrow> same_headers m m'"
  "34 \<le> p \<Longrightarrow> same_headers (wr8 p a m) m' \<longleftrightarrow> same_headers m m'"
  "34 \<le> p \<Longrightarrow> same_headers (wr16 p b m) m' \<longleftrightarrow> same_headers m m'"
  "34 \<le> p \<Longrightarrow> same_headers (wr32 p c m) m' \<longleftrightarrow> same_headers m m'"
  by (auto simp: same_headers_def wr8_def wr16_def wr32_def wr_bytes_def)

lemma same_headers_reads:
  assumes "same_headers m m'"
  shows "decode_ip m = decode_ip m'" "ip_header_ok m = ip_header_ok m'"
    "rd16 m ip_total_length = rd16 m' ip_total_length" "rd32 m ip_src_addr = rd32 m' ip_src_addr"
    "rd32 m ip_dst_addr = rd32 m' ip_dst_addr" "m ip_next_proto_id = m' ip_next_proto_id"
    "l4_length m ip_hdr = l4_length m' ip_hdr"
proof -
  have b: "rd_bytes m p n = rd_bytes m' p n" if "p + n \<le> 34" for p n
    using assms that by (intro rd_bytes_cong) (auto simp: same_headers_def)
  have h: "\<And>i. i < 34 \<Longrightarrow> m i = m' i" using assms by (simp add: same_headers_def)
  have r: "rd16 m p = rd16 m' p" if "p + 2 \<le> 34" for p
    using that by (simp add: rd16_def h)
  have r4: "rd32 m p = rd32 m' p" if "p + 4 \<le> 34" for p
    using that by (simp add: rd32_def h)
  show "decode_ip m = decode_ip m'" by (simp add: decode_ip_def b h r r4)
  show "ip_header_ok m = ip_header_ok m'" by (simp add: ip_header_ok_def b)
  show "rd16 m ip_total_length = rd16 m' ip_total_length" by (simp add: r)
  show "rd32 m ip_src_addr = rd32 m' ip_src_addr" "rd32 m ip_dst_addr = rd32 m' ip_dst_addr"
    by (simp_all add: r4)
  show "m ip_next_proto_id = m' ip_next_proto_id" by (simp add: h)
  show "l4_length m ip_hdr = l4_length m' ip_hdr" by (simp add: l4_length_def r)
qed

lemma encode_eth_ip_reads:
  assumes "List.length srcmac = 6" "List.length dstmac = 6"
  shows "decode_ip (encode_eth_ip srcmac dstmac total_len proto sip dip msg) =
      \<lparr>if_dst = dstmac, if_src = srcmac, if_ether_type = RTE_ETHER_TYPE_IPV4, if_version_ihl = 0x45,
       if_total_length = total_len - 14, if_ttl = 64, if_proto = proto, if_sip = sip, if_dip = dip\<rparr>"
    and "ip_header_ok (encode_eth_ip srcmac dstmac total_len proto sip dip msg)"
    and "34 \<le> i \<Longrightarrow> encode_eth_ip srcmac dstmac total_len proto sip dip msg i = msg i"
proof -
  show "decode_ip (encode_eth_ip srcmac dstmac total_len proto sip dip msg) =
      \<lparr>if_dst = dstmac, if_src = srcmac, if_ether_type = RTE_ETHER_TYPE_IPV4, if_version_ihl = 0x45,
       if_total_length = total_len - 14, if_ttl = 64, if_proto = proto, if_sip = sip, if_dip = dip\<rparr>"
    using assms by (simp add: decode_ip_def encode_eth_ip_def Let_def buf_simps)
  show "ip_header_ok (encode_eth_ip srcmac dstmac total_len proto sip dip msg)"
    unfolding ip_header_ok_def encode_eth_ip_def Let_def
    using ipv4_cksum_stored [of _ ip_hdr] by (simp add: buf_simps)
  show "34 \<le> i \<Longrightarrow> encode_eth_ip srcmac dstmac total_len proto sip dip msg i = msg i"
    using assms by (simp add: encode_eth_ip_def Let_def buf_simps)
qed

lemma encode_eth_ip_length:
  "rd16 (encode_eth_ip srcmac dstmac total_len proto sip dip msg) ip_total_length = htons (total_len - 14)"
  by (simp add: encode_eth_ip_def Let_def buf_simps)

text \<open>Storing the transport checksum last makes the segment verify.\<close>

lemma l4_cksum_last:
  assumes "even k" "k + 2 \<le> l4_length m ip_hdr" "rd16 m (l4_hdr + k) = 0"
  shows "l4_ok (wr16 (l4_hdr + k) (rte_ipv4_udptcp_cksum m ip_hdr l4_hdr) m)"
  using udptcp_cksum_stored [of k m ip_hdr l4_hdr] assms by (simp add: l4_ok_def)

end
