(* ===== verification/Udp.thy ===== *)
theory Udp
  imports Fd Arp Frame
begin

text \<open>
  The UDP side of the protocol thread: a received datagram becomes an \<open>offload\<close> in the receive
  ring of the socket it is addressed to (\<open>udp_process\<close>), and an \<open>offload\<close> taken from a send ring
  becomes a frame in the transmit ring, or is put back while the hardware address of its
  destination is asked for (\<open>udp_out\<close>, \<open>ng_udp_pkt\<close>, \<open>ng_encode_udp_apppkt\<close>).
\<close>

section \<open>Receiving\<close>

text \<open>Subtraction on \<open>size_t\<close>.\<close>

definition size_sub :: "nat \<Rightarrow> nat \<Rightarrow> nat" where
  "size_sub a b = (if b \<le> a then a - b else 2 ^ 64 + a - b)"

definition udp_process :: "mbuf \<Rightarrow> stack \<Rightarrow> (int, stack) res" where
  "udp_process udpmbuf s =
    (let b = mdata udpmbuf
     in case get_hostinfo_fromip_port (rd32 b ip_dst_addr) (rd16 b udp_dst_port) (b ip_next_proto_id) s of
          None \<Rightarrow> Inr (-3, rte_pktmbuf_free udpmbuf s)
        | Some host \<Rightarrow>
           (case rte_malloc sizeof_offload s of
              (None, s) \<Rightarrow> Inr (-1, rte_pktmbuf_free udpmbuf s)
            | (Some ol_addr, s) \<Rightarrow>
               let len = ntohs (rd16 b udp_dgram_len);
                   data_len = size_sub (unat len) 8
               in case rte_malloc data_len s of
                    (None, s) \<Rightarrow> Inr (-2, rte_free (Some ol_addr) (rte_pktmbuf_free udpmbuf s))
                  | (Some _, s) \<Rightarrow>
                     let ol = \<lparr>ol_sip = rd32 b ip_src_addr, ol_dip = rd32 b ip_dst_addr,
                               ol_sport = rd16 b udp_src_port, ol_dport = rd16 b udp_dst_port,
                               ol_protocol = 17, ol_data = rd_bytes b udp_payload data_len,
                               ol_length = len\<rparr>
                     in case ring_mp_enqueue (h_rcvbuf host) ol of
                          Inl e \<Rightarrow> Inl e
                        | Inr (_, r) \<Rightarrow>
                            let s = put_host (host\<lparr>h_rcvbuf := Some r\<rparr>) s;
                                s = s\<lparr>signalled := signalled s @ [h_addr host]\<rparr>
                            in Inr (0, rte_pktmbuf_free udpmbuf s)))"

section \<open>Sending\<close>

definition ng_encode_udp_apppkt ::
  "buf \<Rightarrow> u32 \<Rightarrow> u32 \<Rightarrow> u16 \<Rightarrow> u16 \<Rightarrow> mac \<Rightarrow> mac \<Rightarrow> u8 list \<Rightarrow> u16 \<Rightarrow> stack \<Rightarrow> (buf, stack) res" where
  "ng_encode_udp_apppkt msg sip dip sport dport srcmac dstmac data total_len s =
    (let msg = encode_eth_ip srcmac dstmac total_len IPPROTO_UDP sip dip msg;
         msg = wr16 udp_src_port sport msg;
         msg = wr16 udp_dst_port dport msg;
         udplen = total_len - 14 - 20;
         msg = wr16 udp_dgram_len (htons udplen) msg
     in if udp_payload + unat udplen > RTE_MBUF_DEFAULT_DATAROOM then Inl MbufOverflow
        else case heap_read data (unat udplen) s of
          (bytes, s) \<Rightarrow>
            let msg = wr_bytes udp_payload bytes msg;
                msg = wr16 udp_dgram_cksum 0 msg;
                msg = wr16 udp_dgram_cksum (rte_ipv4_udptcp_cksum msg ip_hdr l4_hdr) msg
            in Inr (msg, s))"

definition ng_udp_pkt ::
  "u32 \<Rightarrow> u32 \<Rightarrow> u16 \<Rightarrow> u16 \<Rightarrow> mac \<Rightarrow> mac \<Rightarrow> u8 list \<Rightarrow> u16 \<Rightarrow> stack \<Rightarrow> (mbuf, stack) res" where
  "ng_udp_pkt sip dip sport dport srcmac dstmac data len s =
    (let total_len = ucast len + 42 :: u32
     in case rte_pktmbuf_alloc s of
          (None, s) \<Rightarrow> Inl (RteExit ''rte_pktmbuf_alloc'')
        | (Some mbuf, s) \<Rightarrow>
            let mbuf = mbuf\<lparr>pkt_len := total_len, data_len := ucast total_len\<rparr>
            in bindE (ng_encode_udp_apppkt (mdata mbuf) sip dip sport dport srcmac dstmac data
                        (ucast total_len) s) (\<lambda>pktdata s.
               Inr (mbuf\<lparr>mdata := pktdata\<rparr>, s)))"

definition udp_out_one :: "localhost \<Rightarrow> stack \<Rightarrow> (localhost, stack) res" where
  "udp_out_one host s =
    (case ring_mc_dequeue (h_sndbuf host) of
       Inl e \<Rightarrow> Inl e
     | Inr (nb_snd, None, r) \<Rightarrow> Inr (host, s)
     | Inr (nb_snd, Some ol, r) \<Rightarrow>
         bindE (ng_get_dst_macaddr (ol_dip ol) s) (\<lambda>dstmac s.
           case dstmac of
             None \<Rightarrow>
               bindE (ng_send_arp RTE_ARP_OP_REQUEST gDefaultArpMac (ol_sip ol) (ol_dip ol) s) (\<lambda>arpbuf s.
               bindE (ring_out_enqueue arpbuf s) (\<lambda>_ s.
                 Inr (host\<lparr>h_sndbuf := Some (snd (rte_ring_mp_enqueue r ol))\<rparr>, s)))
           | Some mac \<Rightarrow>
               bindE (ng_udp_pkt (ol_sip ol) (ol_dip ol) (ol_sport ol) (ol_dport ol)
                        (localmac host) mac (ol_data ol) (ol_length ol) s) (\<lambda>udpbuf s.
               bindE (ring_out_enqueue udpbuf s) (\<lambda>_ s.
                 Inr (host\<lparr>h_sndbuf := Some r\<rparr>, s)))))"

fun udp_out_loop :: "localhost list \<Rightarrow> stack \<Rightarrow> (localhost list, stack) res" where
  "udp_out_loop [] s = Inr ([], s)"
| "udp_out_loop (host # next) s =
    bindE (udp_out_one host s) (\<lambda>host s.
    bindE (udp_out_loop next s) (\<lambda>next s. Inr (host # next, s)))"

definition udp_out :: "stack \<Rightarrow> (int, stack) res" where
  "udp_out s = bindE (udp_out_loop (lhost s) s) (\<lambda>hosts s. Inr (0, s\<lparr>lhost := hosts\<rparr>))"

section \<open>UDP frames\<close>

text \<open>The transport fields of a UDP frame, read back from the bytes.\<close>

record udp_frame =
  uf_sport :: u16
  uf_dport :: u16
  uf_dgram_length :: u16
  uf_payload :: "u8 list"

definition decode_udp :: "buf \<Rightarrow> udp_frame" where
  "decode_udp m = \<lparr>uf_sport = rd16 m udp_src_port, uf_dport = rd16 m udp_dst_port,
     uf_dgram_length = ntohs (rd16 m udp_dgram_len),
     uf_payload = rd_bytes m udp_payload (unat (ntohs (rd16 m udp_dgram_len)) - 8)\<rparr>"

text \<open>A datagram of at most 1998 bytes fits the data room with the 8 bytes copied too many.\<close>

lemma udp_total_len:
  assumes "unat len \<le> 1998"
  shows "unat (ucast (ucast len + 42 :: u32) :: u16) = unat (len :: u16) + 42"
    "unat ((ucast (ucast len + 42 :: u32) :: u16) - 14 - 20) = unat len + 8"
    "unat ((ucast (ucast len + 42 :: u32) :: u16) - 14) = unat len + 28"
proof -
  have "unat (ucast len + 42 :: u32) = unat len + 42"
    using assms by (simp add: unat_word_ariths unat_ucast_wider)
  then show t: "unat (ucast (ucast len + 42 :: u32) :: u16) = unat len + 42"
    using assms by (simp add: unsigned_ucast_eq take_bit_eq_mod)
  show "unat ((ucast (ucast len + 42 :: u32) :: u16) - 14) = unat len + 28"
    using t by (subst unat_sub_add_le) simp_all
  then show "unat ((ucast (ucast len + 42 :: u32) :: u16) - 14 - 20) = unat len + 8"
    by (subst unat_sub_add_le) simp_all
qed

lemma ng_encode_udp_spec:
  assumes "List.length srcmac = 6" "List.length dstmac = 6" "unat len \<le> 1998"
    and tlen: "tlen = ucast (ucast len + 42 :: u32)" and data: "List.length data = unat len"
  shows "\<exists>m. ng_encode_udp_apppkt msg sip dip sport dport srcmac dstmac data tlen s
      = Inr (m, s\<lparr>overread := overread s + 8\<rparr>)
    \<and> decode_ip m = \<lparr>if_dst = dstmac, if_src = srcmac, if_ether_type = RTE_ETHER_TYPE_IPV4,
         if_version_ihl = 0x45, if_total_length = len + 28, if_ttl = 64, if_proto = IPPROTO_UDP,
         if_sip = sip, if_dip = dip\<rparr>
    \<and> decode_udp m = \<lparr>uf_sport = sport, uf_dport = dport, uf_dgram_length = len + 8, uf_payload = data\<rparr>
    \<and> ip_header_ok m \<and> l4_ok m"
proof -
  note u = udp_total_len [OF assms(3), folded tlen]
  have l: "tlen - 14 = len + 28" "tlen - 14 - 20 = len + 8"
    using u assms(3) by (simp_all add: word_unat_eq_iff unat_word_ariths)
  have l28: "len + 28 - 20 = len + 8" by simp
  have ul: "unat (len + 28) = unat len + 28" "unat (len + 8) = unat len + 8"
    using assms(3) by (simp_all add: unat_word_ariths)
  let ?h = "encode_eth_ip srcmac dstmac tlen IPPROTO_UDP sip dip msg"
  let ?m0 = "wr16 udp_dgram_len (htons (len + 8)) (wr16 udp_dst_port dport (wr16 udp_src_port sport ?h))"
  let ?bytes = "data @ map (beyond s) [0..<8]"
  let ?m1 = "wr16 udp_dgram_cksum 0 (wr_bytes udp_payload ?bytes ?m0)"
  let ?m = "wr16 udp_dgram_cksum (rte_ipv4_udptcp_cksum ?m1 ip_hdr l4_hdr) ?m1"
  have "heap_read data (unat (len + 8)) s = (?bytes, s\<lparr>overread := overread s + 8\<rparr>)"
    using data by (simp add: heap_read_def ul)
  then have e: "ng_encode_udp_apppkt msg sip dip sport dport srcmac dstmac data tlen s
      = Inr (?m, s\<lparr>overread := overread s + 8\<rparr>)"
    using assms(3) by (simp only: ng_encode_udp_apppkt_def Let_def l l28 ul) (simp add: RTE_MBUF_DEFAULT_DATAROOM_def)
  have sh: "same_headers ?m ?h" by simp
  have l4: "l4_length ?m1 ip_hdr = unat len + 8"
    using same_headers_reads(7) [of ?m1 ?h] by (simp add: l4_length_def encode_eth_ip_length l ul)
  have "l4_ok (wr16 (l4_hdr + 6) (rte_ipv4_udptcp_cksum ?m1 ip_hdr l4_hdr) ?m1)"
    by (rule l4_cksum_last) (simp_all add: l4 buf_simps)
  then have ok: "l4_ok ?m" by simp
  have pay: "rd_bytes ?m udp_payload (unat len) = data"
    using data by (intro nth_equalityI) (simp_all add: rd_bytes_def wr16_def wr_bytes_def nth_append)
  have "decode_udp ?m = \<lparr>uf_sport = sport, uf_dport = dport, uf_dgram_length = len + 8, uf_payload = data\<rparr>"
    using pay by (simp add: decode_udp_def buf_simps ul)
  then show ?thesis
    using e ok same_headers_reads(1,2) [OF sh] encode_eth_ip_reads [OF assms(1,2)] l(1) by auto
qed

section \<open>What the operations do\<close>

lemma ring_mp_enqueue_some:
  assumes "ring_wf r" "ring_mp_enqueue (Some r) x = Inr (ret, r')"
  shows "ring_wf r'" "ring_cap r' = ring_cap r"
    "ring_elems r' = (if List.length (ring_elems r) < ring_cap r then ring_elems r @ [x] else ring_elems r)"
  using mp_enqueue_law [OF assms(1), of x ret r'] assms(2)
  by (simp_all add: ring_mp_enqueue_def split: if_splits)

lemma ring_mc_dequeue_some:
  assumes "ring_wf r" "ring_elems r = x # xs"
  obtains r' where "ring_mc_dequeue (Some r) = Inr (0, Some x, r')" "ring_wf r'" "ring_elems r' = xs"
    "ring_cap r' = ring_cap r"
proof -
  obtain ret y r' where e: "rte_ring_mc_dequeue r = (ret, y, r')" by (rule prod_cases3)
  show thesis
    by (rule that [of r']) (use mc_dequeue_law [OF assms(1) e] assms(2) e in \<open>simp_all add: ring_mc_dequeue_def\<close>)
qed

definition datagram_of :: "buf \<Rightarrow> offload" where
  "datagram_of b = \<lparr>ol_sip = rd32 b ip_src_addr, ol_dip = rd32 b ip_dst_addr,
     ol_sport = rd16 b udp_src_port, ol_dport = rd16 b udp_dst_port, ol_protocol = 17,
     ol_data = rd_bytes b udp_payload (unat (ntohs (rd16 b udp_dgram_len)) - 8),
     ol_length = ntohs (rd16 b udp_dgram_len)\<rparr>"

lemma rte_malloc_live:
  "rte_malloc n s = (r, s') \<Longrightarrow> live s' = live s + (if r = None then 0 else 1)"
  by (auto simp: rte_malloc_def malloc_heap_alloc_def Let_def split: if_splits)

lemma udp_process_frame:
  assumes "udp_process m s = Inr (ret, s')"
  shows "pool s' = m # pool s \<and> ret \<in> {0, -1, -2, -3}
    \<and> (ret \<noteq> 0 \<longrightarrow> lhost s' = lhost s \<and> live s' = live s \<and> signalled s' = signalled s)"
proof -
  let ?b = "mdata m"
  let ?n = "size_sub (unat (ntohs (rd16 ?b udp_dgram_len))) 8"
  note d = assms [unfolded udp_process_def Let_def]
  show ?thesis
  proof (cases "get_hostinfo_fromip_port (rd32 ?b ip_dst_addr) (rd16 ?b udp_dst_port) (?b ip_next_proto_id) s")
    case None
    then show ?thesis using d by (auto simp: rte_pktmbuf_free_def)
  next
    case (Some host)
    obtain a1 s1 where m1: "rte_malloc sizeof_offload s = (a1, s1)" by fastforce
    obtain a2 s2 where m2: "rte_malloc ?n s1 = (a2, s2)" by fastforce
    note f = rte_malloc_fields [OF m1] rte_malloc_fields [OF m2] rte_malloc_live [OF m1]
      rte_malloc_live [OF m2]
    show ?thesis
    proof (cases a1)
      case None
      then show ?thesis using d Some m1 f by (auto simp: rte_pktmbuf_free_def)
    next
      case a1: (Some x)
      show ?thesis
      proof (cases a2)
        case None
        then show ?thesis using d Some m1 m2 a1 f by (auto simp: rte_pktmbuf_free_def rte_free_def)
      next
        case a2: (Some y)
        show ?thesis
          using d Some m1 m2 a1 a2 f
          by (simp add: rte_pktmbuf_free_def put_host_def split: sum.splits prod.splits) auto
      qed
    qed
  qed
qed

lemma ng_udp_pkt_ok:
  assumes "List.length srcmac = 6" "List.length dstmac = 6" "unat len \<le> 1998"
    and "List.length data = unat len" "pool s = mb # ms"
  obtains m where "ng_udp_pkt sip dip sport dport srcmac dstmac data len s
      = Inr (m, s\<lparr>pool := ms, overread := overread s + 8\<rparr>)"
    "decode_ip (mdata m) = \<lparr>if_dst = dstmac, if_src = srcmac, if_ether_type = RTE_ETHER_TYPE_IPV4,
         if_version_ihl = 0x45, if_total_length = len + 28, if_ttl = 64, if_proto = IPPROTO_UDP,
         if_sip = sip, if_dip = dip\<rparr>"
    "decode_udp (mdata m) = \<lparr>uf_sport = sport, uf_dport = dport, uf_dgram_length = len + 8, uf_payload = data\<rparr>"
    "ip_header_ok (mdata m)" "l4_ok (mdata m)" "m_id m = m_id mb" "unat (data_len m) = unat len + 42"
proof -
  let ?s = "s\<lparr>pool := ms\<rparr>"
  obtain b where b: "ng_encode_udp_apppkt (mdata mb) sip dip sport dport srcmac dstmac data
      (ucast (ucast len + 42 :: u32)) ?s = Inr (b, ?s\<lparr>overread := overread s + 8\<rparr>)"
    "decode_ip b = \<lparr>if_dst = dstmac, if_src = srcmac, if_ether_type = RTE_ETHER_TYPE_IPV4,
         if_version_ihl = 0x45, if_total_length = len + 28, if_ttl = 64, if_proto = IPPROTO_UDP,
         if_sip = sip, if_dip = dip\<rparr>"
    "decode_udp b = \<lparr>uf_sport = sport, uf_dport = dport, uf_dgram_length = len + 8, uf_payload = data\<rparr>"
    "ip_header_ok b" "l4_ok b"
    using ng_encode_udp_spec [OF assms(1-3) refl assms(4), of "mdata mb" sip dip sport dport ?s] by auto
  show thesis
    by (rule that [of "mb\<lparr>pkt_len := ucast len + 42, data_len := ucast (ucast len + 42 :: u32), mdata := b\<rparr>"])
      (use b assms(5) udp_total_len(1) [OF assms(3)] in
        \<open>simp_all add: ng_udp_pkt_def rte_pktmbuf_alloc_def Let_def del: unsigned_ucast_eq\<close>)
qed

lemma ng_send_arp_ok:
  assumes "pool s = mb # ms" "List.length (gSrcMac s) = 6" "List.length dst = 6"
  obtains m where "ng_send_arp opc dst si di s = Inr (m, s\<lparr>pool := ms\<rparr>)"
    "decode_arp (mdata m) = \<lparr>af_dst = (if dst = gDefaultArpMac then replicate 6 0 else dst),
       af_src = gSrcMac s, af_ether_type = RTE_ETHER_TYPE_ARP, af_opcode = opc, af_sha = gSrcMac s,
       af_sip = si, af_tha = dst, af_tip = di, af_fixed = (1, RTE_ETHER_TYPE_IPV4, 6, 4)\<rparr>"
proof -
  let ?m = "mb\<lparr>pkt_len := 42, data_len := 42, mdata := ng_encode_arp_pkt (mdata mb) opc dst si di (gSrcMac s)\<rparr>"
  show thesis
    by (rule that [of ?m])
      (use assms decode_encode_arp [OF assms(2,3)] in \<open>simp_all add: ng_send_arp_def rte_pktmbuf_alloc_def Let_def\<close>)
qed

text \<open>A socket with empty rings and a datagram for it, to instantiate the properties.\<close>

definition demo_host :: localhost where
  "demo_host = \<lparr>h_addr = 20, h_fd = 3, localip = 5, localmac = [2, 0, 0, 0, 0, 1], localport = 7,
     h_protocol = IPPROTO_UDP, h_sndbuf = Some (demo_ring zero_offload),
     h_rcvbuf = Some (demo_ring zero_offload)\<rparr>"

definition demo_datagram :: "u16 \<Rightarrow> mbuf" where
  "demo_datagram len = (demo_mbuf 9)\<lparr>mdata := wr16 udp_dgram_len (htons len) (wr16 udp_dst_port 7
     (wr8 ip_next_proto_id IPPROTO_UDP (wr32 ip_dst_addr 5 (\<lambda>_. 0))))\<rparr>"

definition demo_bound :: stack where
  "demo_bound = demo_stack\<lparr>lhost := [demo_host]\<rparr>"

definition demo_offload :: offload where
  "demo_offload = \<lparr>ol_sip = 5, ol_dip = 9, ol_sport = 7, ol_dport = 8, ol_protocol = 17,
     ol_data = [104, 105], ol_length = 2\<rparr>"

text \<open>The stack once it knows the hardware address of a host.\<close>

definition demo_known :: "u32 \<Rightarrow> stack" where
  "demo_known a = demo_stack\<lparr>arpt := Some \<lparr>arp_entries = [\<lparr>a_ip = a, hwaddr = [6, 5, 4, 3, 2, 1],
     arp_type = 0\<rparr>], arp_count = 1\<rparr>\<rparr>"

lemma demo_known_facts:
  "arpt (demo_known a) = Some \<lparr>arp_entries = [\<lparr>a_ip = a, hwaddr = [6, 5, 4, 3, 2, 1], arp_type = 0\<rparr>],
     arp_count = 1\<rparr>"
  "arp_wf \<lparr>arp_entries = [\<lparr>a_ip = a, hwaddr = [6, 5, 4, 3, 2, 1], arp_type = 0\<rparr>], arp_count = 1\<rparr>"
  "arp_lookup (demo_known a) a = Some [6, 5, 4, 3, 2, 1]" "pool (demo_known a) = demo_pool"
  "out_room 1 (demo_known a)"
  using demo_stack_room [of 1]
  by (simp_all add: demo_known_def arp_wf_def arp_lookup_def arp_map_def out_room_def out_ring_def)

lemma demo_queue:
  obtains r where "ring_wf r" "ring_elems r = [x]"
proof -
  obtain ret r where e: "rte_ring_mp_enqueue (demo_ring x) x = (ret, r)" by fastforce
  show thesis
    by (rule that [of r]) (use mp_enqueue_law [OF demo_ring_wf(1) e] demo_ring_wf(2,3) [of x]
        ring_used_0 [of "demo_ring x"] in simp_all)
qed

lemma demo_datagram_host:
  fixes b len defines "b \<equiv> mdata (demo_datagram len)"
  shows "get_hostinfo_fromip_port (rd32 b ip_dst_addr) (rd16 b udp_dst_port) (b ip_next_proto_id) demo_bound
      = Some demo_host"
    and "ntohs (rd16 b udp_dgram_len) = len"
  by (simp_all add: b_def demo_datagram_def get_hostinfo_fromip_port_def demo_bound_def demo_host_def buf_simps)

lemma udp_process_deliver:
  fixes m s
  defines "b \<equiv> mdata m"
  assumes "get_hostinfo_fromip_port (rd32 b ip_dst_addr) (rd16 b udp_dst_port) (b ip_next_proto_id) s = Some host"
    and "h_rcvbuf host = Some r" "ring_wf r" "malloc_ok s = (\<lambda>_ _. True)"
    and "9 \<le> unat (ntohs (rd16 b udp_dgram_len))"
  shows "\<exists>s' r'. udp_process m s = Inr (0, s') \<and> signalled s' = signalled s @ [h_addr host] \<and> ring_wf r'
    \<and> lhost s' = map (\<lambda>x. if h_addr x = h_addr host then host\<lparr>h_rcvbuf := Some r'\<rparr> else x) (lhost s)
    \<and> ring_elems r' = (if List.length (ring_elems r) < ring_cap r then ring_elems r @ [datagram_of b]
                       else ring_elems r)"
proof -
  obtain a1 s1 where m1: "rte_malloc sizeof_offload s = (Some a1, s1)"
    using rte_malloc_total [of s sizeof_offload] assms(5) by auto
  have sz: "size_sub (unat (ntohs (rd16 b udp_dgram_len))) 8 = unat (ntohs (rd16 b udp_dgram_len)) - 8"
    using assms(6) by (simp add: size_sub_def)
  obtain a2 s2 where m2: "rte_malloc (unat (ntohs (rd16 b udp_dgram_len)) - 8) s1 = (Some a2, s2)"
    using rte_malloc_total [of s1 "unat (ntohs (rd16 b udp_dgram_len)) - 8"] assms(5,6) m1 by auto
  obtain ret r' where e: "ring_mp_enqueue (Some r) (datagram_of b) = Inr (ret, r')"
    unfolding ring_mp_enqueue_def by (cases "rte_ring_mp_enqueue r (datagram_of b)") simp
  have "udp_process m s = Inr (0, rte_pktmbuf_free m ((put_host (host\<lparr>h_rcvbuf := Some r'\<rparr>) s2)
      \<lparr>signalled := signalled s2 @ [h_addr host]\<rparr>))"
    using assms(2,3) m1 m2 e sz
    by (simp add: udp_process_def Let_def b_def [symmetric] datagram_of_def put_host_def)
  then show ?thesis
    using ring_mp_enqueue_some [OF assms(4) e] m1 m2
    by (auto simp: rte_pktmbuf_free_def put_host_def)
qed

lemma udp_out_one_known:
  assumes "h_sndbuf host = Some r" "ring_wf r" "ring_elems r = ol # rest"
    and "arpt s = Some t" "arp_wf t" "arp_lookup s (ol_dip ol) = Some mac"
    and "List.length mac = 6" "List.length (localmac host) = 6"
    and "unat (ol_length ol) \<le> 1998" "List.length (ol_data ol) = unat (ol_length ol)"
    and "pool s = mb # ms" "out_room 1 s"
  shows "\<exists>s' r' m. udp_out_one host s = Inr (host\<lparr>h_sndbuf := Some r'\<rparr>, s') \<and> ring_elems r' = rest
    \<and> out_frames s' = out_frames s @ [m] \<and> live s' = live s
    \<and> if_dst (decode_ip (mdata m)) = mac \<and> if_dip (decode_ip (mdata m)) = ol_dip ol
    \<and> if_sip (decode_ip (mdata m)) = ol_sip ol \<and> if_proto (decode_ip (mdata m)) = IPPROTO_UDP
    \<and> decode_udp (mdata m) = \<lparr>uf_sport = ol_sport ol, uf_dport = ol_dport ol,
         uf_dgram_length = ol_length ol + 8, uf_payload = ol_data ol\<rparr>
    \<and> ip_header_ok (mdata m) \<and> l4_ok (mdata m)"
proof -
  obtain r' where r': "ring_mc_dequeue (Some r) = Inr (0, Some ol, r')" "ring_elems r' = rest"
    by (rule ring_mc_dequeue_some [OF assms(2,3)])
  have g: "ng_get_dst_macaddr (ol_dip ol) s = Inr (Some mac, s)"
    using ng_get_dst_macaddr_known [OF assms(4)] assms(4-6) by (simp add: arp_inv_def)
  obtain m where m: "ng_udp_pkt (ol_sip ol) (ol_dip ol) (ol_sport ol) (ol_dport ol) (localmac host) mac
      (ol_data ol) (ol_length ol) s = Inr (m, s\<lparr>pool := ms, overread := overread s + 8\<rparr>)"
    "if_dst (decode_ip (mdata m)) = mac" "if_dip (decode_ip (mdata m)) = ol_dip ol"
    "if_sip (decode_ip (mdata m)) = ol_sip ol" "if_proto (decode_ip (mdata m)) = IPPROTO_UDP"
    "decode_udp (mdata m) = \<lparr>uf_sport = ol_sport ol, uf_dport = ol_dport ol,
         uf_dgram_length = ol_length ol + 8, uf_payload = ol_data ol\<rparr>"
    "ip_header_ok (mdata m)" "l4_ok (mdata m)"
    by (rule ng_udp_pkt_ok [OF assms(8,7,9,10,11), where sip = "ol_sip ol" and dip = "ol_dip ol"
        and sport = "ol_sport ol" and dport = "ol_dport ol"]) simp
  let ?s = "s\<lparr>pool := ms, overread := overread s + 8\<rparr>"
  have room: "out_room (Suc 0) ?s" using assms(12) by (simp add: out_room_def out_ring_def)
  obtain ri where "ring_out_enqueue m ?s = Inr ((), ?s\<lparr>rInst := Some ri\<rparr>)"
    "out_frames (?s\<lparr>rInst := Some ri\<rparr>) = out_frames ?s @ [m]"
    by (rule ring_out_enqueue_ok [OF room])
  then have "udp_out_one host s = Inr (host\<lparr>h_sndbuf := Some r'\<rparr>, ?s\<lparr>rInst := Some ri\<rparr>)"
    "out_frames (?s\<lparr>rInst := Some ri\<rparr>) = out_frames s @ [m]"
    using assms(1) r'(1) g m(1) by (simp_all add: udp_out_one_def out_frames_def out_ring_def)
  then show ?thesis using r'(2) m(2-8) by (intro exI) auto
qed

section \<open>Properties\<close>

text \<open>Every received UDP packet gives its buffer back exactly once, whatever happens: on
  delivery, on an unknown destination (\<open>-3\<close>) and on either allocation failure (\<open>-1\<close>, \<open>-2\<close>); on
  the error paths no socket changes, nobody is woken and no heap block leaks.\<close>

theorem udp_process_buffer_returned:
  assumes "udp_process m s = Inr (ret, s')"
  shows "pool s' = m # pool s \<and> ret \<in> {0, -1, -2, -3}
    \<and> (ret \<noteq> 0 \<longrightarrow> lhost s' = lhost s \<and> live s' = live s \<and> signalled s' = signalled s)"
  using assms by (rule udp_process_frame)

lemma udp_process_buffer_returned_witness:
  "pool (snd (sum.projr (udp_process (demo_mbuf 7) demo_stack))) = demo_mbuf 7 # demo_pool"
proof -
  have e: "udp_process (demo_mbuf 7) demo_stack = Inr (-3, rte_pktmbuf_free (demo_mbuf 7) demo_stack)"
    by (simp add: udp_process_def get_hostinfo_fromip_port_def)
  from udp_process_buffer_returned [OF e] e show ?thesis by simp
qed

text \<open>Delivery: a datagram with at least one byte of payload, addressed to a bound socket, is
  queued at the end of that socket's receive ring with its addresses, ports and exactly its
  payload bytes (unless the ring is full, when it is dropped silently); the socket's waiter is
  woken and no other socket changes.\<close>

theorem udp_process_delivers:
  fixes m s
  defines "b \<equiv> mdata m"
  assumes "get_hostinfo_fromip_port (rd32 b ip_dst_addr) (rd16 b udp_dst_port) (b ip_next_proto_id) s = Some host"
    and "h_rcvbuf host = Some r" "ring_wf r" "malloc_ok s = (\<lambda>_ _. True)"
    and "9 \<le> unat (ntohs (rd16 b udp_dgram_len))"
  shows "\<exists>s' r'. udp_process m s = Inr (0, s') \<and> signalled s' = signalled s @ [h_addr host]
    \<and> lhost s' = map (\<lambda>x. if h_addr x = h_addr host then host\<lparr>h_rcvbuf := Some r'\<rparr> else x) (lhost s)
    \<and> ring_elems r' = (if List.length (ring_elems r) < ring_cap r then ring_elems r @ [datagram_of b]
                       else ring_elems r)"
  using udp_process_deliver [OF assms(2-) [unfolded b_def]] unfolding b_def by blast

lemma udp_process_delivers_witness:
  "\<exists>s'. udp_process (demo_datagram 12) demo_bound = Inr (0, s') \<and> signalled s' = [20]"
proof -
  have "\<exists>s' r'. udp_process (demo_datagram 12) demo_bound = Inr (0, s')
    \<and> signalled s' = signalled demo_bound @ [h_addr demo_host]
    \<and> lhost s' = map (\<lambda>x. if h_addr x = h_addr demo_host then demo_host\<lparr>h_rcvbuf := Some r'\<rparr> else x) (lhost demo_bound)
    \<and> ring_elems r' = (if List.length (ring_elems (demo_ring zero_offload)) < ring_cap (demo_ring zero_offload)
        then ring_elems (demo_ring zero_offload) @ [datagram_of (mdata (demo_datagram 12))]
        else ring_elems (demo_ring zero_offload))"
    by (rule udp_process_delivers)
      (simp_all add: demo_datagram_host demo_ring_wf, simp_all add: demo_host_def demo_bound_def)
  then show ?thesis by (auto simp: demo_bound_def demo_host_def)
qed

text \<open>A datagram without payload is never delivered: its length field is 8, the stack asks the
  heap for 0 bytes, which always fails, and the packet is dropped with \<open>-2\<close>.\<close>

theorem udp_empty_datagram_dropped:
  fixes m s
  defines "b \<equiv> mdata m"
  assumes "get_hostinfo_fromip_port (rd32 b ip_dst_addr) (rd16 b udp_dst_port) (b ip_next_proto_id) s = Some host"
    and "ntohs (rd16 b udp_dgram_len) = 8" "malloc_ok s = (\<lambda>_ _. True)"
  shows "\<exists>s'. udp_process m s = Inr (-2, s') \<and> lhost s' = lhost s"
proof -
  obtain a1 s1 where m1: "rte_malloc sizeof_offload s = (Some a1, s1)"
    using rte_malloc_total [of s sizeof_offload] assms(4) by auto
  have z: "rte_malloc (size_sub 8 8) s1 = (None, s1)" by (simp add: size_sub_def rte_malloc_def)
  show ?thesis
    using assms(2,3) m1 z
    by (simp add: udp_process_def Let_def b_def [symmetric] rte_pktmbuf_free_def rte_free_def)
qed

lemma udp_empty_datagram_dropped_witness:
  "\<exists>s'. udp_process (demo_datagram 8) demo_bound = Inr (-2, s') \<and> lhost s' = [demo_host]"
proof -
  have "\<exists>s'. udp_process (demo_datagram 8) demo_bound = Inr (-2, s') \<and> lhost s' = lhost demo_bound"
    by (rule udp_empty_datagram_dropped [OF demo_datagram_host(1)])
      (simp_all add: demo_datagram_host, simp add: demo_bound_def)
  then show ?thesis by (simp add: demo_bound_def)
qed

text \<open>A UDP frame carries what it was built from: for a datagram of at most 1998 bytes whose
  data block has exactly its length, the encoded frame has the given hardware addresses, IP
  addresses, ports and payload, consistent IP and UDP lengths, and valid header and datagram
  checksums; but building it reads 8 bytes past the end of the data block.\<close>

theorem udp_encode_decode:
  assumes "List.length srcmac = 6" "List.length dstmac = 6" "unat len \<le> 1998"
    and "List.length data = unat len"
  shows "\<exists>m. ng_encode_udp_apppkt msg sip dip sport dport srcmac dstmac data (ucast (ucast len + 42 :: u32)) s
      = Inr (m, s\<lparr>overread := overread s + 8\<rparr>)
    \<and> decode_ip m = \<lparr>if_dst = dstmac, if_src = srcmac, if_ether_type = RTE_ETHER_TYPE_IPV4,
         if_version_ihl = 0x45, if_total_length = len + 28, if_ttl = 64, if_proto = IPPROTO_UDP,
         if_sip = sip, if_dip = dip\<rparr>
    \<and> decode_udp m = \<lparr>uf_sport = sport, uf_dport = dport, uf_dgram_length = len + 8, uf_payload = data\<rparr>
    \<and> ip_header_ok m \<and> l4_ok m"
  by (rule ng_encode_udp_spec [OF assms(1-3) refl assms(4)])

lemma udp_encode_decode_witness:
  "\<exists>m s'. ng_encode_udp_apppkt (\<lambda>_. 0) 1 2 3 4 [1, 2, 3, 4, 5, 6] [6, 5, 4, 3, 2, 1] [104, 105]
      (ucast (ucast (2 :: u16) + 42 :: u32)) demo_stack = Inr (m, s')
    \<and> uf_payload (decode_udp m) = [104, 105] \<and> l4_ok m"
  using udp_encode_decode [of "[1, 2, 3, 4, 5, 6]" "[6, 5, 4, 3, 2, 1]" 2 "[104, 105]" "\<lambda>_. 0" 1 2 3 4 demo_stack]
  by fastforce

text \<open>Sending to a known neighbour: \<open>udp_out\<close> takes the oldest datagram of a socket and appends one
  frame to the transmit ring that carries it, with valid checksums; neither the datagram's
  descriptor nor its data block is freed, so the number of live heap blocks stays the same and
  two blocks leak for every datagram sent.\<close>

theorem udp_out_sends:
  assumes "h_sndbuf host = Some r" "ring_wf r" "ring_elems r = ol # rest"
    and "arpt s = Some t" "arp_wf t" "arp_lookup s (ol_dip ol) = Some mac"
    and "List.length mac = 6" "List.length (localmac host) = 6"
    and "unat (ol_length ol) \<le> 1998" "List.length (ol_data ol) = unat (ol_length ol)"
    and "pool s = mb # ms" "out_room 1 s"
  shows "\<exists>s' r' m. udp_out_one host s = Inr (host\<lparr>h_sndbuf := Some r'\<rparr>, s') \<and> ring_elems r' = rest
    \<and> out_frames s' = out_frames s @ [m] \<and> live s' = live s
    \<and> if_dst (decode_ip (mdata m)) = mac \<and> if_dip (decode_ip (mdata m)) = ol_dip ol
    \<and> decode_udp (mdata m) = \<lparr>uf_sport = ol_sport ol, uf_dport = ol_dport ol,
         uf_dgram_length = ol_length ol + 8, uf_payload = ol_data ol\<rparr>
    \<and> ip_header_ok (mdata m) \<and> l4_ok (mdata m)"
  using udp_out_one_known [OF assms] by blast

lemma udp_out_sends_witness:
  "\<exists>host s' m. udp_out_one host (demo_known 9) = Inr (host\<lparr>h_sndbuf := h_sndbuf (fst (sum.projr
      (udp_out_one host (demo_known 9))))\<rparr>, s') \<and> out_frames s' = out_frames (demo_known 9) @ [m]
    \<and> uf_payload (decode_udp (mdata m)) = [104, 105]"
proof -
  obtain r where r: "ring_wf r" "ring_elems r = [demo_offload]" by (rule demo_queue)
  let ?h = "demo_host\<lparr>h_sndbuf := Some r\<rparr>"
  obtain mb ms where p: "demo_pool = mb # ms" by (cases demo_pool) (auto dest: arg_cong [of _ _ List.length])
  have "\<exists>s' r' m. udp_out_one ?h (demo_known 9) = Inr (?h\<lparr>h_sndbuf := Some r'\<rparr>, s') \<and> ring_elems r' = []
    \<and> out_frames s' = out_frames (demo_known 9) @ [m] \<and> live s' = live (demo_known 9)
    \<and> if_dst (decode_ip (mdata m)) = [6, 5, 4, 3, 2, 1] \<and> if_dip (decode_ip (mdata m)) = ol_dip demo_offload
    \<and> decode_udp (mdata m) = \<lparr>uf_sport = ol_sport demo_offload, uf_dport = ol_dport demo_offload,
         uf_dgram_length = ol_length demo_offload + 8, uf_payload = ol_data demo_offload\<rparr>
    \<and> ip_header_ok (mdata m) \<and> l4_ok (mdata m)"
    by (rule udp_out_sends [where r = r and mb = mb and ms = ms])
      (use r p demo_known_facts in \<open>simp_all add: demo_host_def demo_offload_def\<close>)
  then obtain s' r' m where w: "udp_out_one ?h (demo_known 9) = Inr (?h\<lparr>h_sndbuf := Some r'\<rparr>, s')"
    "out_frames s' = out_frames (demo_known 9) @ [m]"
    "uf_payload (decode_udp (mdata m)) = [104, 105]"
    by (auto simp: demo_offload_def)
  show ?thesis by (rule exI [of _ ?h]) (use w in auto)
qed

text \<open>Sending to an unknown neighbour: the datagram is not lost; \<open>udp_out\<close> broadcasts one ARP
  request for its destination and puts the datagram back at the end of the send ring.\<close>

theorem udp_out_resolves:
  assumes "h_sndbuf host = Some r" "ring_wf r" "ring_elems r = ol # rest"
    and "arpt s = Some t" "arp_wf t" "arp_lookup s (ol_dip ol) = None"
    and "List.length (gSrcMac s) = 6" "pool s = mb # ms" "out_room 1 s"
  shows "\<exists>s' r' m. udp_out_one host s = Inr (host\<lparr>h_sndbuf := Some r'\<rparr>, s') \<and> ring_elems r' = rest @ [ol]
    \<and> out_frames s' = out_frames s @ [m]
    \<and> decode_arp (mdata m) = arp_request_of (gSrcMac s) (ol_sip ol) (ol_dip ol) None"
proof -
  obtain r' where r': "ring_mc_dequeue (Some r) = Inr (0, Some ol, r')" "ring_wf r'" "ring_elems r' = rest"
    "ring_cap r' = ring_cap r"
    by (rule ring_mc_dequeue_some [OF assms(2,3)])
  have g: "ng_get_dst_macaddr (ol_dip ol) s = Inr (None, s)"
    using ng_get_dst_macaddr_known [OF assms(4)] assms(4-6) by (simp add: arp_inv_def)
  obtain m where m: "ng_send_arp RTE_ARP_OP_REQUEST gDefaultArpMac (ol_sip ol) (ol_dip ol) s = Inr (m, s\<lparr>pool := ms\<rparr>)"
    "decode_arp (mdata m) = arp_request_of (gSrcMac s) (ol_sip ol) (ol_dip ol) None"
    by (rule ng_send_arp_ok [OF assms(8,7) length_gDefaultArpMac]) (simp add: arp_request_of_def)
  let ?s = "s\<lparr>pool := ms\<rparr>"
  have room: "out_room (Suc 0) ?s" using assms(9) by (simp add: out_room_def out_ring_def)
  obtain ri where ri: "ring_out_enqueue m ?s = Inr ((), ?s\<lparr>rInst := Some ri\<rparr>)"
    "out_frames (?s\<lparr>rInst := Some ri\<rparr>) = out_frames ?s @ [m]"
    by (rule ring_out_enqueue_ok [OF room])
  obtain ret r'' where e: "rte_ring_mp_enqueue r' ol = (ret, r'')" by fastforce
  have "List.length (ring_elems r') < ring_cap r'"
    using ring_used_le_cap [OF assms(2)] length_ring_elems [of r] assms(3) r'(3,4) by simp
  then have "ring_elems r'' = rest @ [ol]" using mp_enqueue_law [OF r'(2) e] r'(3) by simp
  moreover have "udp_out_one host s = Inr (host\<lparr>h_sndbuf := Some r''\<rparr>, ?s\<lparr>rInst := Some ri\<rparr>)"
    "out_frames (?s\<lparr>rInst := Some ri\<rparr>) = out_frames s @ [m]"
    using assms(1) r'(1) g m(1) ri e by (simp_all add: udp_out_one_def out_frames_def out_ring_def)
  ultimately show ?thesis using m(2) by (intro exI) auto
qed

lemma udp_out_resolves_witness:
  "\<exists>host s' m. (\<exists>h. udp_out_one host demo_stack = Inr (h, s')) \<and> out_frames s' = out_frames demo_stack @ [m]
    \<and> af_tip (decode_arp (mdata m)) = 9"
proof -
  obtain r where r: "ring_wf r" "ring_elems r = [demo_offload]" by (rule demo_queue)
  let ?h = "demo_host\<lparr>h_sndbuf := Some r\<rparr>"
  obtain mb ms where p: "demo_pool = mb # ms" by (cases demo_pool) (auto dest: arg_cong [of _ _ List.length])
  have "\<exists>s' r' m. udp_out_one ?h demo_stack = Inr (?h\<lparr>h_sndbuf := Some r'\<rparr>, s') \<and> ring_elems r' = [] @ [demo_offload]
    \<and> out_frames s' = out_frames demo_stack @ [m]
    \<and> decode_arp (mdata m) = arp_request_of (gSrcMac demo_stack) (ol_sip demo_offload) (ol_dip demo_offload) None"
    by (rule udp_out_resolves [where r = r and mb = mb and ms = ms
          and t = "\<lparr>arp_entries = [], arp_count = 0\<rparr>"])
      (use r p demo_stack_room [of 1] in \<open>simp_all add: demo_host_def arp_wf_def arp_lookup_def arp_map_def\<close>)
  then obtain s' r' m where w: "udp_out_one ?h demo_stack = Inr (?h\<lparr>h_sndbuf := Some r'\<rparr>, s')"
    "out_frames s' = out_frames demo_stack @ [m]" "af_tip (decode_arp (mdata m)) = 9"
    by (auto simp: demo_offload_def arp_request_of_def)
  show ?thesis by (rule exI [of _ ?h]) (use w in blast)
qed

end
