(* ===== verification/Tcp.thy ===== *)
theory Tcp
  imports Udp "HOL-Library.Char_ord"
begin

text \<open>
  The TCP side of the protocol thread: the control-block table (\<open>ng_tcp_stream_search\<close>,
  \<open>ng_tcp_stream_create\<close>), the handlers of the server states, segment reception
  (\<open>ng_tcp_process\<close>) and transmission (\<open>ng_tcp_out\<close>, \<open>ng_tcp_pkt\<close>, \<open>ng_encode_tcp_apppkt\<close>).

  A handler gets the control block it works on and returns it as updated; every assignment to
  it is also made in the table (\<open>put_stream\<close>), because later calls search the table.
\<close>

section \<open>Control blocks\<close>

definition ng_tcp_stream_search ::
  "u32 \<Rightarrow> u32 \<Rightarrow> u16 \<Rightarrow> u16 \<Rightarrow> stack \<Rightarrow> (ng_tcp_stream option, stack) res" where
  "ng_tcp_stream_search sip dip sport dport s =
    bindE (tcpInstance s) (\<lambda>table s.
      Inr (case find (\<lambda>iter. s_sip iter = sip \<and> s_dip iter = dip \<and> s_sport iter = sport
                        \<and> s_dport iter = dport) (tcb_set table) of
             Some iter \<Rightarrow> Some iter
           | None \<Rightarrow> find (\<lambda>iter. s_dport iter = dport \<and> s_status iter = NG_TCP_STATUS_LISTEN)
                       (tcb_set table), s))"

definition ring_name :: "string \<Rightarrow> u32 \<Rightarrow> u16 \<Rightarrow> string" where
  "ring_name prefix sip sport = take 31 (prefix @ show_base 16 (unat sip) @ show_base 10 (unat sport))"

text \<open>\<open>rand_r\<close> is seeded with the time; its value is the environment's, one per control block.\<close>

definition ng_tcp_stream_create ::
  "u32 \<Rightarrow> u32 \<Rightarrow> u16 \<Rightarrow> u16 \<Rightarrow> stack \<Rightarrow> ng_tcp_stream option \<times> stack" where
  "ng_tcp_stream_create sip dip sport dport s =
    (case rte_malloc sizeof_ng_tcp_stream s of
       (None, s) \<Rightarrow> (None, s)
     | (Some a, s) \<Rightarrow>
        let (snd, s) = rte_ring_create zero_fragment (ring_name ''sndbuf'' sip sport) RING_SIZE 0 s;
            (rcv, s) = rte_ring_create zero_fragment (ring_name ''rcvbuf'' sip sport) RING_SIZE 0 s
        in (Some \<lparr>s_addr = a, s_fd = -1, s_dip = dip, s_localmac = gSrcMac s, s_dport = dport,
                 s_protocol = IPPROTO_TCP, s_sport = sport, s_sip = sip,
                 snd_nxt = rand_seq s a mod TCP_MAX_SEQ, rcv_nxt = junk_rcv_nxt s,
                 s_status = NG_TCP_STATUS_LISTEN, s_sndbuf = snd, s_rcvbuf = rcv\<rparr>, s))"

definition ll_add_stream :: "ng_tcp_stream \<Rightarrow> stack \<Rightarrow> stack" where
  "ll_add_stream st s = s\<lparr>tInst := map_option (\<lambda>t. t\<lparr>tcb_set := st # tcb_set t\<rparr>) (tInst s)\<rparr>"

definition ll_remove_stream :: "ng_tcp_stream \<Rightarrow> stack \<Rightarrow> stack" where
  "ll_remove_stream st s =
    s\<lparr>tInst := map_option (\<lambda>t. t\<lparr>tcb_set := filter (\<lambda>x. s_addr x \<noteq> s_addr st) (tcb_set t)\<rparr>) (tInst s)\<rparr>"

section \<open>Handlers\<close>

definition flag :: "buf \<Rightarrow> u8 \<Rightarrow> bool" where
  "flag b f \<longleftrightarrow> b tcp_tcp_flags AND f \<noteq> 0"

definition ng_tcp_handle_listen :: "ng_tcp_stream \<Rightarrow> buf \<Rightarrow> stack \<Rightarrow> (int, stack) res" where
  "ng_tcp_handle_listen stream b s =
    (if flag b RTE_TCP_SYN_FLAG \<and> s_status stream = NG_TCP_STATUS_LISTEN then
       bindE (tcpInstance s) (\<lambda>table s.
         case ng_tcp_stream_create (rd32 b ip_src_addr) (rd32 b ip_dst_addr) (rd16 b tcp_src_port)
                (rd16 b tcp_dst_port) s of
           (None, s) \<Rightarrow> Inl NullDeref
         | (Some syn, s) \<Rightarrow>
             let s = ll_add_stream syn s
             in case rte_malloc sizeof_ng_tcp_fragment s of
                  (None, s) \<Rightarrow> Inr (-1, s)
                | (Some _, s) \<Rightarrow>
                    let acknum = ntohl (rd32 b tcp_sent_seq) + 1;
                        fragment = zero_fragment\<lparr>f_sport := rd16 b tcp_dst_port,
                          f_dport := rd16 b tcp_src_port, seqnum := snd_nxt syn, acknum := acknum,
                          tcp_flags := RTE_TCP_SYN_FLAG OR RTE_TCP_ACK_FLAG,
                          windows := TCP_INITIAL_WINDOW, hdrlen_off := 0x50, f_data := None,
                          f_length := 0\<rparr>;
                        syn = syn\<lparr>rcv_nxt := acknum\<rparr>
                    in case ring_mp_enqueue (s_sndbuf syn) fragment of
                         Inl e \<Rightarrow> Inl e
                       | Inr (_, r) \<Rightarrow>
                           Inr (0, put_stream (syn\<lparr>s_sndbuf := Some r,
                                     s_status := NG_TCP_STATUS_SYN_RCVD\<rparr>) s))
     else Inr (0, s))"

definition ng_tcp_handle_syn_rcvd :: "ng_tcp_stream \<Rightarrow> buf \<Rightarrow> stack \<Rightarrow> (int, stack) res" where
  "ng_tcp_handle_syn_rcvd stream b s =
    (if flag b RTE_TCP_ACK_FLAG \<and> s_status stream = NG_TCP_STATUS_SYN_RCVD then
       let s = put_stream (stream\<lparr>s_status := NG_TCP_STATUS_ESTABLISHED\<rparr>) s
       in bindE (ng_tcp_stream_search 0 0 0 (s_dport stream) s) (\<lambda>listener s.
            case listener of
              None \<Rightarrow> Inl (RteExit ''ng_tcp_stream_search failed'')
            | Some listener \<Rightarrow> Inr (0, s\<lparr>signalled := signalled s @ [s_addr listener]\<rparr>))
     else Inr (0, s))"

text \<open>The stream handlers that update the stream return (return value, stream).\<close>

definition ng_tcp_enqueue_recvbuffer ::
  "ng_tcp_stream \<Rightarrow> buf \<Rightarrow> int \<Rightarrow> stack \<Rightarrow> (int \<times> ng_tcp_stream, stack) res" where
  "ng_tcp_enqueue_recvbuffer stream b tcplen s =
    (case rte_malloc sizeof_ng_tcp_fragment s of
       (None, s) \<Rightarrow> Inr ((-1, stream), s)
     | (Some frag_addr, s) \<Rightarrow>
        let rfragment = zero_fragment\<lparr>f_dport := ntohs (rd16 b tcp_dst_port),
              f_sport := ntohs (rd16 b tcp_src_port)\<rparr>;
            hdrlen = unat (drop_bit 4 (b tcp_data_off));
            payloadlen = tcplen - int hdrlen * 4;
            enq = (\<lambda>rfragment s.
              case ring_mp_enqueue (s_rcvbuf stream) rfragment of
                Inl e \<Rightarrow> Inl e
              | Inr (_, r) \<Rightarrow>
                  let stream = stream\<lparr>s_rcvbuf := Some r\<rparr>; s = put_stream stream s
                  in Inr ((0, stream), s\<lparr>signalled := signalled s @ [s_addr stream]\<rparr>))
        in if payloadlen > 0 then
             (case rte_malloc (nat payloadlen + 1) s of
                (None, s) \<Rightarrow> Inr ((-1, stream), rte_free (Some frag_addr) s)
              | (Some _, s) \<Rightarrow>
                  enq (rfragment\<lparr>f_data := Some (rd_bytes b (l4_hdr + hdrlen * 4) (nat payloadlen) @ [0]),
                         f_length := of_int payloadlen\<rparr>) s)
           else enq (rfragment\<lparr>f_length := 0, f_data := None\<rparr>) s)"

definition ng_tcp_send_ackpkt ::
  "ng_tcp_stream \<Rightarrow> buf \<Rightarrow> stack \<Rightarrow> (int \<times> ng_tcp_stream, stack) res" where
  "ng_tcp_send_ackpkt stream b s =
    (case rte_malloc sizeof_ng_tcp_fragment s of
       (None, s) \<Rightarrow> Inr ((-1, stream), s)
     | (Some _, s) \<Rightarrow>
        let ackfrag = zero_fragment\<lparr>f_dport := rd16 b tcp_src_port, f_sport := rd16 b tcp_dst_port,
              acknum := rcv_nxt stream, seqnum := snd_nxt stream, tcp_flags := RTE_TCP_ACK_FLAG,
              windows := TCP_INITIAL_WINDOW, hdrlen_off := 0x50, f_data := None, f_length := 0\<rparr>
        in case ring_mp_enqueue (s_sndbuf stream) ackfrag of
             Inl e \<Rightarrow> Inl e
           | Inr (_, r) \<Rightarrow>
               let stream = stream\<lparr>s_sndbuf := Some r\<rparr>
               in Inr ((0, stream), put_stream stream s))"

definition ng_tcp_handle_established ::
  "ng_tcp_stream \<Rightarrow> buf \<Rightarrow> int \<Rightarrow> stack \<Rightarrow> (int, stack) res" where
  "ng_tcp_handle_established stream b tcplen s =
    bindE (if flag b RTE_TCP_PSH_FLAG then
             bindE (ng_tcp_enqueue_recvbuffer stream b tcplen s) (\<lambda>(_, stream) s.
               let hdrlen = unat (drop_bit 4 (b tcp_data_off));
                   payloadlen = tcplen - int hdrlen * 4;
                   stream = stream\<lparr>rcv_nxt := rcv_nxt stream + of_int payloadlen,
                                   snd_nxt := ntohl (rd32 b tcp_recv_ack)\<rparr>
               in bindE (ng_tcp_send_ackpkt stream b (put_stream stream s)) (\<lambda>(_, stream) s. Inr (stream, s)))
           else Inr (stream, s)) (\<lambda>stream s.
    if flag b RTE_TCP_FIN_FLAG then
      let stream = stream\<lparr>s_status := NG_TCP_STATUS_CLOSE_WAIT\<rparr>; s = put_stream stream s
      in bindE (ng_tcp_enqueue_recvbuffer stream b (uint (drop_bit 4 (b tcp_data_off))) s) (\<lambda>(_, stream) s.
           let stream = stream\<lparr>rcv_nxt := rcv_nxt stream + 1, snd_nxt := ntohl (rd32 b tcp_recv_ack)\<rparr>
           in bindE (ng_tcp_send_ackpkt stream b (put_stream stream s)) (\<lambda>_ s. Inr (0, s)))
    else Inr (0, s))"

text \<open>The nested tests of \<open>ng_tcp_handle_close_wait\<close> have an empty body.\<close>

definition ng_tcp_handle_close_wait :: "ng_tcp_stream \<Rightarrow> buf \<Rightarrow> stack \<Rightarrow> (int, stack) res" where
  "ng_tcp_handle_close_wait stream b s = Inr (0, s)"

definition ng_tcp_handle_last_ack :: "ng_tcp_stream \<Rightarrow> buf \<Rightarrow> stack \<Rightarrow> (int, stack) res" where
  "ng_tcp_handle_last_ack stream b s =
    (if flag b RTE_TCP_ACK_FLAG \<and> s_status stream = NG_TCP_STATUS_LAST_ACK then
       let stream = stream\<lparr>s_status := NG_TCP_STATUS_CLOSED\<rparr>; s = put_stream stream s
       in bindE (tcpInstance s) (\<lambda>table s.
            let s = ll_remove_stream stream s;
                s = rte_ring_free (s_sndbuf stream) s;
                s = rte_ring_free (s_rcvbuf stream) s
            in Inr (0, rte_free (Some (s_addr stream)) s))
     else Inr (0, s))"

section \<open>Receiving a segment\<close>

definition ng_tcp_dispatch :: "ng_tcp_stream \<Rightarrow> buf \<Rightarrow> stack \<Rightarrow> (int, stack) res" where
  "ng_tcp_dispatch stream b s =
    (case s_status stream of
       NG_TCP_STATUS_CLOSED \<Rightarrow> Inr (0, s)
     | NG_TCP_STATUS_LISTEN \<Rightarrow> ng_tcp_handle_listen stream b s
     | NG_TCP_STATUS_SYN_RCVD \<Rightarrow> ng_tcp_handle_syn_rcvd stream b s
     | NG_TCP_STATUS_SYN_SENT \<Rightarrow> Inr (0, s)
     | NG_TCP_STATUS_ESTABLISHED \<Rightarrow>
         ng_tcp_handle_established stream b (uint (ntohs (rd16 b ip_total_length)) - 20) s
     | NG_TCP_STATUS_FIN_WAIT_1 \<Rightarrow> Inr (0, s)
     | NG_TCP_STATUS_FIN_WAIT_2 \<Rightarrow> Inr (0, s)
     | NG_TCP_STATUS_CLOSING \<Rightarrow> Inr (0, s)
     | NG_TCP_STATUS_TIME_WAIT \<Rightarrow> Inr (0, s)
     | NG_TCP_STATUS_CLOSE_WAIT \<Rightarrow> ng_tcp_handle_close_wait stream b s
     | NG_TCP_STATUS_LAST_ACK \<Rightarrow> ng_tcp_handle_last_ack stream b s)"

definition ng_tcp_process :: "mbuf \<Rightarrow> stack \<Rightarrow> (int, stack) res" where
  "ng_tcp_process tcpmbuf s =
    (let tcpcksum = rd16 (mdata tcpmbuf) tcp_cksum;
         b = wr16 tcp_cksum 0 (mdata tcpmbuf);
         tcpmbuf = tcpmbuf\<lparr>mdata := b\<rparr>;
         cksum = rte_ipv4_udptcp_cksum b ip_hdr l4_hdr
     in if cksum \<noteq> tcpcksum then Inr (-1, rte_pktmbuf_free tcpmbuf s)
        else bindE (ng_tcp_stream_search (rd32 b ip_src_addr) (rd32 b ip_dst_addr)
                      (rd16 b tcp_src_port) (rd16 b tcp_dst_port) s) (\<lambda>stream s.
          case stream of
            None \<Rightarrow> Inr (-2, rte_pktmbuf_free tcpmbuf s)
          | Some stream \<Rightarrow>
              bindE (ng_tcp_dispatch stream b s) (\<lambda>_ s. Inr (0, rte_pktmbuf_free tcpmbuf s))))"

section \<open>Sending segments\<close>

definition tcp_total_len :: "ng_tcp_fragment \<Rightarrow> u32" where
  "tcp_total_len fragment = f_length fragment + 14 + 20 + 20 + of_int (optlen fragment) * 4"

definition ng_encode_tcp_apppkt ::
  "buf \<Rightarrow> u32 \<Rightarrow> u32 \<Rightarrow> mac \<Rightarrow> mac \<Rightarrow> ng_tcp_fragment \<Rightarrow> stack \<Rightarrow> (buf, stack) res" where
  "ng_encode_tcp_apppkt msg sip dip srcmac dstmac fragment s =
    (let total_len = tcp_total_len fragment;
         msg = encode_eth_ip srcmac dstmac (ucast total_len) IPPROTO_TCP sip dip msg;
         msg = wr16 tcp_src_port (f_sport fragment) msg;
         msg = wr16 tcp_dst_port (f_dport fragment) msg;
         msg = wr32 tcp_sent_seq (htonl (seqnum fragment)) msg;
         msg = wr32 tcp_recv_ack (htonl (acknum fragment)) msg;
         msg = wr8 tcp_data_off (hdrlen_off fragment) msg;
         msg = wr16 tcp_rx_win (windows fragment) msg;
         msg = wr16 tcp_tcp_urp (tcp_urp fragment) msg;
         msg = wr8 tcp_tcp_flags (tcp_flags fragment) msg;
         finish = (\<lambda>msg s.
           let msg = wr16 tcp_cksum 0 msg;
               msg = wr16 tcp_cksum (rte_ipv4_udptcp_cksum msg ip_hdr l4_hdr) msg
           in Inr (msg, s))
     in case f_data fragment of
          None \<Rightarrow> finish msg s
        | Some data \<Rightarrow>
            let payload = int tcp_payload + optlen fragment * 4
            in if optlen fragment < 0 \<or> payload + uint (f_length fragment) > int RTE_MBUF_DEFAULT_DATAROOM
               then Inl MbufOverflow
               else case heap_read data (unat (f_length fragment)) s of
                      (bytes, s) \<Rightarrow> finish (wr_bytes (nat payload) bytes msg) s)"

definition ng_tcp_pkt ::
  "u32 \<Rightarrow> u32 \<Rightarrow> mac \<Rightarrow> mac \<Rightarrow> ng_tcp_fragment \<Rightarrow> stack \<Rightarrow> (mbuf, stack) res" where
  "ng_tcp_pkt sip dip srcmac dstmac fragment s =
    (let total_len = tcp_total_len fragment
     in case rte_pktmbuf_alloc s of
          (None, s) \<Rightarrow> Inl (RteExit ''ng_tcp_pkt rte_pktmbuf_alloc'')
        | (Some mbuf, s) \<Rightarrow>
            let mbuf = mbuf\<lparr>pkt_len := total_len, data_len := ucast total_len\<rparr>
            in bindE (ng_encode_tcp_apppkt (mdata mbuf) sip dip srcmac dstmac fragment s) (\<lambda>pktdata s.
               Inr (mbuf\<lparr>mdata := pktdata\<rparr>, s)))"

definition free_fragment :: "ng_tcp_fragment \<Rightarrow> stack \<Rightarrow> stack" where
  "free_fragment fragment s =
    (let s = (case f_data fragment of None \<Rightarrow> s | Some _ \<Rightarrow> rte_free (Some 0) s) in rte_free (Some 0) s)"

definition tcp_out_one :: "ng_tcp_stream \<Rightarrow> stack \<Rightarrow> (ng_tcp_stream, stack) res" where
  "tcp_out_one stream s =
    (case s_sndbuf stream of
       None \<Rightarrow> Inr (stream, s)
     | Some r \<Rightarrow>
        (case rte_ring_mc_dequeue r of
           (nb_snd, None, r) \<Rightarrow> Inr (stream, s)
         | (nb_snd, Some fragment, r) \<Rightarrow>
            bindE (ng_get_dst_macaddr (s_sip stream) s) (\<lambda>dstmac s.
              case dstmac of
                None \<Rightarrow>
                  bindE (ng_send_arp RTE_ARP_OP_REQUEST gDefaultArpMac (s_dip stream) (s_sip stream) s) (\<lambda>arpbuf s.
                  bindE (ring_out_enqueue arpbuf s) (\<lambda>_ s.
                    Inr (stream\<lparr>s_sndbuf := Some (snd (rte_ring_mp_enqueue r fragment))\<rparr>, s)))
              | Some mac \<Rightarrow>
                  bindE (ng_tcp_pkt (s_dip stream) (s_sip stream) (s_localmac stream) mac fragment s) (\<lambda>tcpbuf s.
                  bindE (ring_out_enqueue tcpbuf s) (\<lambda>_ s.
                    Inr (stream\<lparr>s_sndbuf := Some r\<rparr>, free_fragment fragment s))))))"

fun tcp_out_loop :: "ng_tcp_stream list \<Rightarrow> stack \<Rightarrow> (ng_tcp_stream list, stack) res" where
  "tcp_out_loop [] s = Inr ([], s)"
| "tcp_out_loop (stream # next) s =
    bindE (tcp_out_one stream s) (\<lambda>stream s.
    bindE (tcp_out_loop next s) (\<lambda>next s. Inr (stream # next, s)))"

definition ng_tcp_out :: "stack \<Rightarrow> (int, stack) res" where
  "ng_tcp_out s =
    bindE (tcpInstance s) (\<lambda>table s.
    bindE (tcp_out_loop (tcb_set table) s) (\<lambda>tcbs s.
      Inr (0, s\<lparr>tInst := Some (table\<lparr>tcb_set := tcbs\<rparr>)\<rparr>)))"

end
