(* ===== verification/Socket.thy ===== *)
theory Socket
  imports Tcp
begin

text \<open>
  The socket interface the application threads call: \<open>nsocket\<close>, \<open>nbind\<close>, \<open>nlisten\<close>, \<open>naccept\<close>, \<open>nsend\<close>,
  \<open>nrecv\<close>, \<open>nrecvfrom\<close>, \<open>nsendto\<close>, \<open>nclose\<close>.

  A call that waits on a condition variable returns \<open>Blocks\<close> and leaves the state alone; the thread
  repeats it when it is signalled.  A buffer of the caller is a memory \<open>buf\<close> and a length; what a
  call stores into the caller's memory is returned as a list of bytes.
\<close>

section \<open>Types\<close>

datatype 'a wait = Done 'a | Blocks

definition SOCK_STREAM :: int where "SOCK_STREAM = 1"
definition SOCK_DGRAM :: int where "SOCK_DGRAM = 2"

record sockaddr_in =
  sin_port :: u16
  sin_addr :: u32

text \<open>The prefix \<open>fd\<close> ... \<open>protocol\<close> of \<open>struct localhost\<close> and \<open>struct ng_tcp_stream\<close> has the same layout, so
  the protocol can be read through either type.\<close>

fun hostinfo_protocol :: "hostinfo \<Rightarrow> u8" where
  "hostinfo_protocol (Host h) = h_protocol h"
| "hostinfo_protocol (Stream st) = s_protocol st"

text \<open>Reading \<open>n\<close> bytes at an offset of a heap block that holds \<open>data\<close>.\<close>

definition heap_read_at :: "u8 list \<Rightarrow> nat \<Rightarrow> nat \<Rightarrow> stack \<Rightarrow> u8 list \<times> stack" where
  "heap_read_at data off n s =
    (map (\<lambda>i. if i < List.length data then data ! i else beyond s (i - List.length data)) [off..<off + n],
     s\<lparr>overread := overread s + List.length (filter (\<lambda>i. \<not> i < List.length data) [off..<off + n])\<rparr>)"

section \<open>Creating a socket\<close>

definition zero_host :: localhost where
  "zero_host = \<lparr>h_addr = 0, h_fd = 0, localip = 0, localmac = replicate 6 0, localport = 0,
     h_protocol = 0, h_sndbuf = None, h_rcvbuf = None\<rparr>"

definition zero_stream :: ng_tcp_stream where
  "zero_stream = \<lparr>s_addr = 0, s_fd = 0, s_dip = 0, s_localmac = replicate 6 0, s_dport = 0, s_protocol = 0,
     s_sport = 0, s_sip = 0, snd_nxt = 0, rcv_nxt = 0, s_status = NG_TCP_STATUS_CLOSED,
     s_sndbuf = None, s_rcvbuf = None\<rparr>"

definition RING_F_SP_SC :: u32 where "RING_F_SP_SC = 3"

definition nsocket_udp :: "int \<Rightarrow> stack \<Rightarrow> (int, stack) res" where
  "nsocket_udp fd s =
    (case rte_malloc sizeof_localhost s of
       (None, s) \<Rightarrow> Inr (-1, s)
     | (Some a, s) \<Rightarrow>
        (case rte_ring_create zero_offload ''recv buffer'' RING_SIZE RING_F_SP_SC s of
           (None, s) \<Rightarrow> Inr (-1, rte_free (Some a) s)
         | (Some rcvb, s) \<Rightarrow>
            (case rte_ring_create zero_offload ''send buffer'' RING_SIZE RING_F_SP_SC s of
               (None, s) \<Rightarrow> Inr (-1, rte_free (Some a) (rte_ring_free (Some rcvb) s))
             | (Some sndb, s) \<Rightarrow>
                let host = zero_host\<lparr>h_addr := a, h_fd := fd, h_protocol := IPPROTO_UDP,
                      h_rcvbuf := Some rcvb, h_sndbuf := Some sndb\<rparr>
                in Inr (fd, s\<lparr>lhost := host # lhost s\<rparr>))))"

definition nsocket_tcp :: "int \<Rightarrow> stack \<Rightarrow> (int, stack) res" where
  "nsocket_tcp fd s =
    (case rte_malloc sizeof_ng_tcp_stream s of
       (None, s) \<Rightarrow> Inr (-1, s)
     | (Some a, s) \<Rightarrow>
        (case rte_ring_create zero_fragment ''tcp recv buffer'' RING_SIZE RING_F_SP_SC s of
           (None, s) \<Rightarrow> Inr (-1, rte_free (Some a) s)
         | (Some rcvb, s) \<Rightarrow>
            (case rte_ring_create zero_fragment ''tcp send buffer'' RING_SIZE RING_F_SP_SC s of
               (None, s) \<Rightarrow> Inr (-1, rte_free (Some a) (rte_ring_free (Some rcvb) s))
             | (Some sndb, s) \<Rightarrow>
                let stream = zero_stream\<lparr>s_addr := a, s_fd := fd, s_protocol := IPPROTO_TCP,
                      s_rcvbuf := Some rcvb, s_sndbuf := Some sndb\<rparr>
                in bindE (tcpInstance s) (\<lambda>table s. Inr (fd, ll_add_stream stream s)))))"

definition nsocket :: "int \<Rightarrow> int \<Rightarrow> int \<Rightarrow> stack \<Rightarrow> (int, stack) res" where
  "nsocket domain stype protocol s =
    (case get_fd_frombitmap (fd_table s) of
       (fd, t) \<Rightarrow>
         let s = s\<lparr>fd_table := t\<rparr>
         in if stype = SOCK_DGRAM then nsocket_udp fd s
            else if stype = SOCK_STREAM then nsocket_tcp fd s
            else Inr (fd, s))"

section \<open>Binding, listening, accepting\<close>

definition nbind :: "int \<Rightarrow> sockaddr_in \<Rightarrow> stack \<Rightarrow> (int, stack) res" where
  "nbind sockfd laddr s =
    bindE (get_hostinfo_fromfd sockfd s) (\<lambda>hostinfo s.
      case hostinfo of
        None \<Rightarrow> Inr (-1, s)
      | Some (Host host) \<Rightarrow>
          if h_protocol host = IPPROTO_UDP
          then Inr (0, put_host (host\<lparr>localport := sin_port laddr, localip := sin_addr laddr,
                 localmac := gSrcMac s\<rparr>) s)
          else if h_protocol host = IPPROTO_TCP then Inl TypeConfusion
          else Inr (0, s)
      | Some (Stream stream) \<Rightarrow>
          if s_protocol stream = IPPROTO_UDP then Inl TypeConfusion
          else if s_protocol stream = IPPROTO_TCP
          then Inr (0, put_stream (stream\<lparr>s_dport := sin_port laddr, s_dip := sin_addr laddr,
                 s_localmac := gSrcMac s, s_status := NG_TCP_STATUS_CLOSED\<rparr>) s)
          else Inr (0, s))"

definition nlisten :: "int \<Rightarrow> int \<Rightarrow> stack \<Rightarrow> (int, stack) res" where
  "nlisten sockfd backlog s =
    bindE (get_hostinfo_fromfd sockfd s) (\<lambda>hostinfo s.
      case hostinfo of
        None \<Rightarrow> Inr (-1, s)
      | Some (Host host) \<Rightarrow> if h_protocol host = IPPROTO_TCP then Inl TypeConfusion else Inr (0, s)
      | Some (Stream stream) \<Rightarrow>
          if s_protocol stream = IPPROTO_TCP
          then Inr (0, put_stream (stream\<lparr>s_status := NG_TCP_STATUS_LISTEN\<rparr>) s)
          else Inr (0, s))"

text \<open>\<open>naccept\<close> returns the descriptor and the address of the peer.\<close>

definition naccept :: "int \<Rightarrow> stack \<Rightarrow> ((int \<times> sockaddr_in option) wait, stack) res" where
  "naccept sockfd s =
    bindE (get_hostinfo_fromfd sockfd s) (\<lambda>hostinfo s.
      case hostinfo of
        None \<Rightarrow> Inr (Done (-1, None), s)
      | Some (Host host) \<Rightarrow>
          if h_protocol host = IPPROTO_TCP then Inl TypeConfusion else Inr (Done (-1, None), s)
      | Some (Stream stream) \<Rightarrow>
          if s_protocol stream = IPPROTO_TCP then
            bindE (get_accept_tcb (s_dport stream) s) (\<lambda>apt s.
              case apt of
                None \<Rightarrow> Inr (Blocks, s)
              | Some apt \<Rightarrow>
                  (case get_fd_frombitmap (fd_table s) of
                     (fd, t) \<Rightarrow>
                       let apt = apt\<lparr>s_fd := fd\<rparr>;
                           s = put_stream apt (s\<lparr>fd_table := t\<rparr>)
                       in Inr (Done (s_fd apt, Some \<lparr>sin_port = s_sport apt, sin_addr = s_sip apt\<rparr>), s)))
          else Inr (Done (-1, None), s))"

section \<open>Stream data\<close>

definition nsend :: "int \<Rightarrow> buf \<Rightarrow> nat \<Rightarrow> stack \<Rightarrow> (int, stack) res" where
  "nsend sockfd ubuf len s =
    bindE (get_hostinfo_fromfd sockfd s) (\<lambda>hostinfo s.
      case hostinfo of
        None \<Rightarrow> Inr (-1, s)
      | Some (Host host) \<Rightarrow> if h_protocol host = IPPROTO_TCP then Inl TypeConfusion else Inr (0, s)
      | Some (Stream stream) \<Rightarrow>
          if s_protocol stream = IPPROTO_TCP then
            (case rte_malloc sizeof_ng_tcp_fragment s of
               (None, s) \<Rightarrow> Inr (-2, s)
             | (Some fa, s) \<Rightarrow>
                let fragment = zero_fragment\<lparr>f_dport := s_sport stream, f_sport := s_dport stream,
                      acknum := rcv_nxt stream, seqnum := snd_nxt stream,
                      tcp_flags := RTE_TCP_ACK_FLAG OR RTE_TCP_PSH_FLAG, windows := TCP_INITIAL_WINDOW,
                      hdrlen_off := 0x50\<rparr>
                in case rte_malloc ((len + 1) mod 2 ^ 64) s of
                     (None, s) \<Rightarrow> Inr (-1, rte_free (Some fa) s)
                   | (Some da, s) \<Rightarrow>
                      let fragment = fragment\<lparr>f_data := Some (rd_bytes ubuf 0 len @ [0]), f_length := of_nat len\<rparr>;
                          length = uint (f_length fragment)
                      in case ring_mp_enqueue (s_sndbuf stream) fragment of
                           Inl e \<Rightarrow> Inl e
                         | Inr (_, r) \<Rightarrow> Inr (length, put_stream (stream\<lparr>s_sndbuf := Some r\<rparr>) s))
          else Inr (0, s))"

text \<open>\<open>nrecv\<close> returns its return value and the bytes stored into the buffer of the caller.\<close>

definition nrecv :: "int \<Rightarrow> nat \<Rightarrow> stack \<Rightarrow> ((int \<times> u8 list) wait, stack) res" where
  "nrecv sockfd len s =
    bindE (get_hostinfo_fromfd sockfd s) (\<lambda>hostinfo s.
      case hostinfo of
        None \<Rightarrow> Inr (Done (-1, []), s)
      | Some (Host host) \<Rightarrow> if h_protocol host = IPPROTO_TCP then Inl TypeConfusion else Inr (Done (0, []), s)
      | Some (Stream stream) \<Rightarrow>
          if s_protocol stream = IPPROTO_TCP then
            (case ring_mc_dequeue (s_rcvbuf stream) of
               Inl e \<Rightarrow> Inl e
             | Inr (nb_rcv, None, r) \<Rightarrow> Inr (Blocks, s)
             | Inr (nb_rcv, Some fragment, r) \<Rightarrow>
                 let n = unat (f_length fragment); taken = put_stream (stream\<lparr>s_rcvbuf := Some r\<rparr>) s
                 in if n > len then
                      (case f_data fragment of
                         None \<Rightarrow> Inl NullDeref
                       | Some data \<Rightarrow>
                          (case heap_read data len s of
                             (bytes, s) \<Rightarrow>
                             (case heap_read_at data len (n - len) s of
                                (rest, s) \<Rightarrow>
                                  let fragment = fragment\<lparr>f_data := Some (rest @ drop (n - len) data),
                                        f_length := f_length fragment - of_nat len\<rparr>;
                                      (_, r) = rte_ring_mp_enqueue r fragment
                                  in Inr (Done (uint (f_length fragment), bytes),
                                          put_stream (stream\<lparr>s_rcvbuf := Some r\<rparr>) s))))
                    else if n = 0 then Inr (Done (0, []), rte_free (Some 0) taken)
                    else (case f_data fragment of
                            None \<Rightarrow> Inl NullDeref
                          | Some data \<Rightarrow>
                             (case heap_read data n taken of
                                (bytes, s) \<Rightarrow>
                                  Inr (Done (int n, bytes), rte_free (Some 0) (rte_free (Some 0) s)))))
          else Inr (Done (0, []), s))"

section \<open>Datagrams\<close>

text \<open>Both calls take the host information for a \<open>struct localhost\<close> without looking at the protocol.\<close>

definition nrecvfrom :: "int \<Rightarrow> nat \<Rightarrow> stack \<Rightarrow> ((int \<times> sockaddr_in option \<times> u8 list) wait, stack) res" where
  "nrecvfrom sockfd len s =
    bindE (get_hostinfo_fromfd sockfd s) (\<lambda>hostinfo s.
      case hostinfo of
        None \<Rightarrow> Inr (Done (-1, None, []), s)
      | Some (Stream stream) \<Rightarrow> Inl TypeConfusion
      | Some (Host host) \<Rightarrow>
          (case ring_mc_dequeue (h_rcvbuf host) of
             Inl e \<Rightarrow> Inl e
           | Inr (nb, None, r) \<Rightarrow> Inr (Blocks, s)
           | Inr (nb, Some ol, r) \<Rightarrow>
               let saddr = \<lparr>sin_port = ol_sport ol, sin_addr = ol_sip ol\<rparr>;
                   n = unat (ol_length ol)
               in if len < n then
                    (case heap_read (ol_data ol) len s of
                       (bytes, s) \<Rightarrow>
                       (case rte_malloc (n - len) s of
                          (None, s) \<Rightarrow> Inl NullDeref
                        | (Some ptr, s) \<Rightarrow>
                           (case heap_read_at (ol_data ol) len (n - len) s of
                              (rest, s) \<Rightarrow>
                                let ol = ol\<lparr>ol_length := ol_length ol - of_nat len, ol_data := rest\<rparr>;
                                    s = rte_free (Some 0) s;
                                    (_, r) = rte_ring_mp_enqueue r ol
                                in Inr (Done (int len, Some saddr, bytes),
                                        put_host (host\<lparr>h_rcvbuf := Some r\<rparr>) s))))
                  else
                    (case heap_read (ol_data ol) n s of
                       (bytes, s) \<Rightarrow>
                         Inr (Done (int n, Some saddr, bytes),
                              rte_free (Some 0) (rte_free (Some 0) (put_host (host\<lparr>h_rcvbuf := Some r\<rparr>) s))))))"

definition nsendto :: "int \<Rightarrow> buf \<Rightarrow> nat \<Rightarrow> sockaddr_in \<Rightarrow> stack \<Rightarrow> (int, stack) res" where
  "nsendto sockfd ubuf len daddr s =
    bindE (get_hostinfo_fromfd sockfd s) (\<lambda>hostinfo s.
      case hostinfo of
        None \<Rightarrow> Inr (-1, s)
      | Some (Stream stream) \<Rightarrow> Inl TypeConfusion
      | Some (Host host) \<Rightarrow>
          (case rte_malloc sizeof_offload s of
             (None, s) \<Rightarrow> Inr (-1, s)
           | (Some oa, s) \<Rightarrow>
              let ol = \<lparr>ol_sip = localip host, ol_dip = sin_addr daddr, ol_sport = localport host,
                    ol_dport = sin_port daddr, ol_protocol = junk_protocol s, ol_data = [],
                    ol_length = of_nat len\<rparr>
              in case rte_malloc len s of
                   (None, s) \<Rightarrow> Inr (-1, rte_free (Some oa) s)
                 | (Some da, s) \<Rightarrow>
                    let ol = ol\<lparr>ol_data := rd_bytes ubuf 0 len\<rparr>
                    in case ring_mp_enqueue (h_sndbuf host) ol of
                         Inl e \<Rightarrow> Inl e
                       | Inr (_, r) \<Rightarrow> Inr (int len, put_host (host\<lparr>h_sndbuf := Some r\<rparr>) s)))"

section \<open>Closing\<close>

definition set_fd :: "int \<Rightarrow> stack \<Rightarrow> (unit, stack) res" where
  "set_fd fd s = (case set_fd_frombitmap fd (fd_table s) of
     Inl e \<Rightarrow> Inl e | Inr (_, t) \<Rightarrow> Inr ((), s\<lparr>fd_table := t\<rparr>))"

definition ll_remove_host :: "localhost \<Rightarrow> stack \<Rightarrow> stack" where
  "ll_remove_host h s = s\<lparr>lhost := filter (\<lambda>x. h_addr x \<noteq> h_addr h) (lhost s)\<rparr>"

definition nclose_udp :: "int \<Rightarrow> localhost \<Rightarrow> stack \<Rightarrow> (int, stack) res" where
  "nclose_udp fd host s =
    (let s = ll_remove_host host s;
         s = rte_ring_free (h_rcvbuf host) s;
         s = rte_ring_free (h_sndbuf host) s;
         s = rte_free (Some (h_addr host)) s
     in bindE (set_fd fd s) (\<lambda>_ s. Inr (0, s)))"

definition nclose_tcp :: "int \<Rightarrow> ng_tcp_stream \<Rightarrow> stack \<Rightarrow> (int, stack) res" where
  "nclose_tcp fd stream s =
    (if s_status stream \<noteq> NG_TCP_STATUS_LISTEN then
       (case rte_malloc sizeof_ng_tcp_fragment s of
          (None, s) \<Rightarrow> Inr (-1, s)
        | (Some _, s) \<Rightarrow>
           let fragment = (junk_frag s)\<lparr>f_data := None, f_length := 0, f_sport := s_dport stream,
                 f_dport := s_sport stream, seqnum := snd_nxt stream, acknum := rcv_nxt stream,
                 tcp_flags := RTE_TCP_FIN_FLAG OR RTE_TCP_ACK_FLAG, windows := TCP_INITIAL_WINDOW,
                 hdrlen_off := 0x50\<rparr>
           in case ring_mp_enqueue (s_sndbuf stream) fragment of
                Inl e \<Rightarrow> Inl e
              | Inr (_, r) \<Rightarrow>
                  bindE (set_fd fd (put_stream (stream\<lparr>s_sndbuf := Some r,
                           s_status := NG_TCP_STATUS_LAST_ACK\<rparr>) s)) (\<lambda>_ s. Inr (0, s)))
     else
       bindE (tcpInstance s) (\<lambda>table s.
         Inr (0, rte_free (Some (s_addr stream)) (ll_remove_stream stream s))))"

definition nclose :: "int \<Rightarrow> stack \<Rightarrow> (int, stack) res" where
  "nclose fd s =
    bindE (get_hostinfo_fromfd fd s) (\<lambda>hostinfo s.
      case hostinfo of
        None \<Rightarrow> Inr (-1, s)
      | Some (Host host) \<Rightarrow>
          if h_protocol host = IPPROTO_UDP then nclose_udp fd host s
          else if h_protocol host = IPPROTO_TCP then Inl TypeConfusion else Inr (0, s)
      | Some (Stream stream) \<Rightarrow>
          if s_protocol stream = IPPROTO_UDP then Inl TypeConfusion
          else if s_protocol stream = IPPROTO_TCP then nclose_tcp fd stream s else Inr (0, s))"

end
