(* ===== verification/Pkt.thy ===== *)
theory Pkt
  imports Kni Socket
begin

text \<open>
  The threads that move packets (\<open>2.4_ustack/tcp_from_king.c\<close>): the worker \<open>pkt_process\<close>, which takes
  bursts from the input ring and hands each packet to UDP, TCP or the kernel; the receive and
  transmit halves of the loop of \<open>main\<close>; and the start-up of \<open>main\<close> up to its loop, with the port
  (\<open>ng_init_port\<close>), the kernel interface (\<open>ng_alloc_kni\<close>) and its handler (\<open>ng_config_network_if\<close>).

  The endless loops are their bodies, iterated.  \<open>nic_tx\<close> are the buffers the driver has accepted for
  transmission and not yet released; how many of a burst it accepts, what it receives, and the
  outcomes of the driver's and the kernel's calls are arguments.
\<close>

section \<open>State\<close>

record app =
  stk :: stack
  global_kni :: "rte_kni option"
  eth_ports :: ports
  kni_names :: "string list"
  nic_tx :: "mbuf list"

definition gDpdkPortId :: u16 where "gDpdkPortId = 0"
definition MAX_PACKET_SIZE :: u32 where "MAX_PACKET_SIZE = 2048"

text \<open>Running an operation of the stack inside the application.\<close>

definition on_stack :: "(stack \<Rightarrow> ('a, stack) res) \<Rightarrow> app \<Rightarrow> ('a, app) res" where
  "on_stack f a = (case f (stk a) of Inl e \<Rightarrow> Inl e | Inr (x, s) \<Rightarrow> Inr (x, a\<lparr>stk := s\<rparr>))"

section \<open>The worker\<close>

definition kni_tx :: "mbuf list \<Rightarrow> app \<Rightarrow> (nat, app) res" where
  "kni_tx mbufs a =
    (case global_kni a of
       None \<Rightarrow> Inl NullDeref
     | Some kni \<Rightarrow>
        (case rte_kni_tx_burst kni mbufs (stk a) of
           (n, kni, s) \<Rightarrow> Inr (n, a\<lparr>global_kni := Some kni, stk := s\<rparr>)))"

text \<open>
  Packet \<open>i\<close> of the burst \<open>mbufs\<close>.  \<open>ng_tcp_process\<close> clears the checksum field in the buffer, so the
  burst (an array of pointers) shows the cleared field afterwards.
\<close>

definition pkt_process_one :: "nat \<Rightarrow> mbuf list \<Rightarrow> app \<Rightarrow> (mbuf list, app) res" where
  "pkt_process_one i mbufs a =
    (let m = mbufs ! i; b = mdata m
     in if rd16 b eth_ether_type = htons RTE_ETHER_TYPE_IPV4 then
          bindE (on_stack (ng_arp_entry_insert (rd32 b ip_src_addr) (rd_bytes b eth_s_addr 6)) a) (\<lambda>_ a.
            if b ip_next_proto_id = IPPROTO_UDP then
              bindE (on_stack (udp_process m) a) (\<lambda>_ a. Inr (mbufs, a))
            else if b ip_next_proto_id = IPPROTO_TCP then
              bindE (on_stack (ng_tcp_process m) a) (\<lambda>_ a. Inr (mbufs[i := m\<lparr>mdata := wr16 tcp_cksum 0 b\<rparr>], a))
            else bindE (kni_tx mbufs a) (\<lambda>_ a. Inr (mbufs, a)))
        else bindE (kni_tx mbufs a) (\<lambda>_ a. Inr (mbufs, a)))"

fun pkt_process_loop :: "nat list \<Rightarrow> mbuf list \<Rightarrow> app \<Rightarrow> (mbuf list, app) res" where
  "pkt_process_loop [] mbufs a = Inr (mbufs, a)"
| "pkt_process_loop (i # is) mbufs a =
    bindE (pkt_process_one i mbufs a) (\<lambda>mbufs a. pkt_process_loop is mbufs a)"

definition pkt_process_burst :: "mbuf list \<Rightarrow> app \<Rightarrow> (mbuf list, app) res" where
  "pkt_process_burst mbufs a = pkt_process_loop [0..<List.length mbufs] mbufs a"

definition ring_in_dequeue :: "nat \<Rightarrow> stack \<Rightarrow> (mbuf list, stack) res" where
  "ring_in_dequeue n s =
    bindE (ringInstance s) (\<lambda>ring s.
      case ring_in ring of
        None \<Rightarrow> Inl NullDeref
      | Some r \<Rightarrow>
          (case rte_ring_mc_dequeue_burst r (of_nat n) of
             (ms, _, r) \<Rightarrow> Inr (ms, s\<lparr>rInst := Some (ring\<lparr>ring_in := Some r\<rparr>)\<rparr>)))"

text \<open>One turn of the worker's loop.\<close>

definition pkt_process :: "app \<Rightarrow> (unit, app) res" where
  "pkt_process a =
    bindE (on_stack (ring_in_dequeue BURST_SIZE) a) (\<lambda>mbufs a.
    bindE (pkt_process_burst mbufs a) (\<lambda>_ a.
      (case rte_kni_handle_request (global_kni a) (eth_ports a) of
         (_, kni, ps) \<Rightarrow>
           let a = a\<lparr>global_kni := kni, eth_ports := ps\<rparr>
           in bindE (on_stack udp_out a) (\<lambda>_ a.
              bindE (on_stack ng_tcp_out a) (\<lambda>_ a. Inr ((), a))))))"

section \<open>The loop of main\<close>

definition main_rx :: "mbuf list \<Rightarrow> app \<Rightarrow> (unit, app) res" where
  "main_rx rx a =
    (if List.length rx > BURST_SIZE then Inl (RteExit ''Error receiving from eth'')
     else if rx = [] then Inr ((), a)
     else bindE (on_stack ringInstance a) (\<lambda>ring a.
       case ring_in ring of
         None \<Rightarrow> Inl NullDeref
       | Some r \<Rightarrow>
          (case rte_ring_sp_enqueue_burst r rx of
             (_, _, r) \<Rightarrow> Inr ((), a\<lparr>stk := (stk a)\<lparr>rInst := Some (ring\<lparr>ring_in := Some r\<rparr>)\<rparr>\<rparr>))))"

text \<open>\<open>rte_eth_tx_burst\<close>: the driver takes the first \<open>accepted\<close> buffers of the burst.\<close>

definition rte_eth_tx_burst :: "nat \<Rightarrow> mbuf list \<Rightarrow> app \<Rightarrow> app" where
  "rte_eth_tx_burst accepted tx a = a\<lparr>nic_tx := nic_tx a @ take accepted tx\<rparr>"

definition main_tx :: "nat \<Rightarrow> app \<Rightarrow> (unit, app) res" where
  "main_tx accepted a =
    bindE (on_stack ringInstance a) (\<lambda>ring a.
      case ring_out ring of
        None \<Rightarrow> Inl NullDeref
      | Some r \<Rightarrow>
         (case rte_ring_sc_dequeue_burst r (of_nat BURST_SIZE) of
            (tx, _, r) \<Rightarrow>
              let a = a\<lparr>stk := (stk a)\<lparr>rInst := Some (ring\<lparr>ring_out := Some r\<rparr>)\<rparr>\<rparr>
              in if tx \<noteq> [] then
                   let a = rte_eth_tx_burst accepted tx a
                   in Inr ((), a\<lparr>stk := free_all tx (stk a)\<rparr>)
                 else Inr ((), a)))"

text \<open>One turn: \<open>expired\<close> says whether the timer resolution has passed; the ARP timer is due then
  (its period, one second, is shorter).\<close>

definition main_loop :: "mbuf list \<Rightarrow> nat \<Rightarrow> bool \<Rightarrow> app \<Rightarrow> (unit, app) res" where
  "main_loop rx accepted expired a =
    bindE (main_rx rx a) (\<lambda>_ a.
    bindE (main_tx accepted a) (\<lambda>_ a.
      if expired then on_stack arp_request_timer_cb a else Inr ((), a)))"

section \<open>Start-up\<close>

definition ng_config_network_if :: "u16 \<Rightarrow> u8 \<Rightarrow> ports \<Rightarrow> int \<times> ports" where
  "ng_config_network_if port_id if_up ps =
    (if \<not> rte_eth_dev_is_valid_port port_id ps then (- EINVAL, ps)
     else if if_up \<noteq> 0 then
       let ps = rte_eth_dev_stop port_id ps
       in case rte_eth_dev_start port_id ps of (ret, ps) \<Rightarrow> (0, ps)
     else (0, rte_eth_dev_stop port_id ps))"

text \<open>What the calls of \<open>main\<close> outside the program return.\<close>

record main_env =
  eal_init_ret :: int
  pool_created :: bool
  kni_init_ret :: int
  nb_sys_ports :: nat
  rxq_setup_ret :: int
  txq_setup_ret :: int
  kni_dev_fd :: int
  kni_ioctl_ret :: int
  zone_junk :: mbuf

definition ng_init_port :: "main_env \<Rightarrow> app \<Rightarrow> (unit, app) res" where
  "ng_init_port env a =
    (if nb_sys_ports env = 0 then Inl (RteExit ''No Supported eth found'')
     else if rxq_setup_ret env < 0 then Inl (RteExit ''Could not setup RX queue'')
     else if txq_setup_ret env < 0 then Inl (RteExit ''Could not setup TX queue'')
     else case rte_eth_dev_start gDpdkPortId (eth_ports a) of
       (ret, ps) \<Rightarrow>
         if ret < 0 then Inl (RteExit ''Could not start'')
         else Inr ((), a\<lparr>eth_ports := rte_eth_promiscuous_enable gDpdkPortId ps\<rparr>))"

text \<open>The name is \<open>vEth\<close> and the port number, 0.\<close>

definition ng_alloc_kni :: "main_env \<Rightarrow> app \<Rightarrow> (rte_kni, app) res" where
  "ng_alloc_kni env a =
    (let conf = \<lparr>conf_name = ''vEth0'', conf_group_id = gDpdkPortId, conf_mbuf_size = MAX_PACKET_SIZE\<rparr>;
         ops = zero_ops\<lparr>ops_port_id := gDpdkPortId, config_network_if := Some ng_config_network_if\<rparr>
     in case rte_kni_alloc (kni_dev_fd env) (kni_ioctl_ret env) (zone_junk env) (Some conf) (Some ops)
               (kni_names a) (stk a) of
          (None, _) \<Rightarrow> Inl (RteExit ''Failed to create kni for port'')
        | (Some kni, names, s) \<Rightarrow> Inr (kni, a\<lparr>kni_names := names, stk := s\<rparr>))"

definition main_rings :: "main_env \<Rightarrow> app \<Rightarrow> (unit, app) res" where
  "main_rings env a =
    bindE (on_stack ringInstance a) (\<lambda>ring a.
      case (if ring_in ring = None
            then rte_ring_create (zone_junk env) ''in ring'' RING_SIZE RING_F_SP_SC (stk a)
            else (ring_in ring, stk a)) of
        (rin, s) \<Rightarrow>
          (case (if ring_out ring = None
                 then rte_ring_create (zone_junk env) ''out ring'' RING_SIZE RING_F_SP_SC s
                 else (ring_out ring, s)) of
             (rout, s) \<Rightarrow>
               Inr ((), a\<lparr>stk := s\<lparr>rInst := Some \<lparr>ring_in = rin, ring_out = rout\<rparr>\<rparr>\<rparr>)))"

text \<open>\<open>main\<close> up to the launch of the threads; \<open>rte_eth_macaddr_get\<close> copies the address of the port.\<close>

definition main_init :: "main_env \<Rightarrow> app \<Rightarrow> (unit, app) res" where
  "main_init env a =
    (if eal_init_ret env < 0 then Inl (RteExit ''Error with EAL init'')
     else if \<not> pool_created env then Inl (RteExit ''Could not create mbuf pool'')
     else if kni_init_ret env = -1 then Inl (RteExit ''kni init failed'')
     else bindE (ng_init_port env a) (\<lambda>_ a.
          bindE (ng_alloc_kni env a) (\<lambda>kni a.
            let a = a\<lparr>global_kni := Some kni\<rparr>;
                a = (case eth_ports a gDpdkPortId of
                       None \<Rightarrow> a
                     | Some dev \<Rightarrow> a\<lparr>stk := (stk a)\<lparr>gSrcMac := mac_addr0 dev\<rparr>\<rparr>)
            in main_rings env a)))"

end
