(* ===== verification/Tcp_Machine.thy ===== *)
theory Tcp_Machine
  imports Tcp
begin

text \<open>
  The state machine of the control blocks: \<open>tcb_step\<close> lists the moves a received segment may make
  on the statuses of the table, and the handlers are shown to make no other.
\<close>

section \<open>Statuses of the table\<close>

type_synonym tcbs = "(nat \<times> NG_TCP_STATUS) list"

definition statuses :: "stack \<Rightarrow> tcbs" where
  "statuses s = map (\<lambda>x. (s_addr x, s_status x)) (streams s)"

definition set_status :: "nat \<Rightarrow> NG_TCP_STATUS \<Rightarrow> tcbs \<Rightarrow> tcbs" where
  "set_status a t l = map (\<lambda>(b, u). if b = a then (a, t) else (b, u)) l"

definition drop_tcb :: "nat \<Rightarrow> tcbs \<Rightarrow> tcbs" where
  "drop_tcb a l = filter (\<lambda>(b, u). b \<noteq> a) l"

inductive tcb_step :: "tcbs \<Rightarrow> tcbs \<Rightarrow> bool" where
  stay: "tcb_step l l"
| syn: "(a, NG_TCP_STATUS_LISTEN) \<in> set l \<Longrightarrow> b \<notin> fst ` set l \<Longrightarrow>
    tcb_step l ((b, NG_TCP_STATUS_SYN_RCVD) # l)"
| syn_no_memory: "(a, NG_TCP_STATUS_LISTEN) \<in> set l \<Longrightarrow> b \<notin> fst ` set l \<Longrightarrow>
    tcb_step l ((b, NG_TCP_STATUS_LISTEN) # l)"
| established: "(a, NG_TCP_STATUS_SYN_RCVD) \<in> set l \<Longrightarrow>
    tcb_step l (set_status a NG_TCP_STATUS_ESTABLISHED l)"
| fin: "(a, NG_TCP_STATUS_ESTABLISHED) \<in> set l \<Longrightarrow>
    tcb_step l (set_status a NG_TCP_STATUS_CLOSE_WAIT l)"
| last_ack: "(a, NG_TCP_STATUS_LAST_ACK) \<in> set l \<Longrightarrow> tcb_step l (drop_tcb a l)"

inductive_cases tcb_stepE: "tcb_step l l'"

text \<open>The table is well formed: every block has its own address, already allocated.\<close>

definition tcb_wf :: "stack \<Rightarrow> bool" where
  "tcb_wf s \<longleftrightarrow> distinct (map fst (statuses s)) \<and> (\<forall>a\<in>fst ` set (statuses s). a < mallocs s)"

text \<open>A handler's copy of a control block agrees with the table on its status.\<close>

definition agrees :: "ng_tcp_stream \<Rightarrow> stack \<Rightarrow> bool" where
  "agrees st s \<longleftrightarrow> (s_addr st, s_status st) \<in> set (statuses s) \<and> distinct (map fst (statuses s))"

lemma set_status_same:
  "(a, t) \<in> set l \<Longrightarrow> distinct (map fst l) \<Longrightarrow> set_status a t l = l"
  unfolding set_status_def by (rule map_idI) (auto dest: eq_key_imp_eq_value)

lemma statuses_put: "statuses (put_stream st s) = set_status (s_addr st) (s_status st) (statuses s)"
  by (auto simp: statuses_def put_stream_def streams_def set_status_def split: option.splits)

lemma fst_set_status [simp]: "map fst (set_status a t l) = map fst l"
  by (auto simp: set_status_def)

lemma in_set_status: "(a, u) \<in> set l \<Longrightarrow> (a, t) \<in> set (set_status a t l)"
  by (force simp: set_status_def)

lemma agrees_put:
  assumes "agrees st s" "s_addr st' = s_addr st"
  shows "agrees st' (put_stream st' s)"
    and "s_status st' = s_status st \<Longrightarrow> statuses (put_stream st' s) = statuses s"
  using assms in_set_status [of "s_addr st" "s_status st"] set_status_same
  by (auto simp: agrees_def statuses_put)

lemma streams_cong: "tInst s' = tInst s \<Longrightarrow> streams s' = streams s"
  by (simp add: streams_def)

lemma statuses_cong: "tInst s' = tInst s \<Longrightarrow> statuses s' = statuses s"
  by (simp add: statuses_def streams_def)

lemma agrees_cong: "tInst s' = tInst s \<Longrightarrow> agrees st s' \<longleftrightarrow> agrees st s"
  using statuses_cong [of s' s] by (simp add: agrees_def)

lemma tcpInstance_cases:
  assumes "tcpInstance s = Inr (t, s')"
  obtains (old) "tInst s = Some t" "s' = s"
    | (new) a s1 where "tInst s = None" "rte_malloc sizeof_ng_tcp_table s = (Some a, s1)"
        "t = \<lparr>tcb_count = 0, tcb_set = []\<rparr>" "s' = s1\<lparr>tInst := Some t\<rparr>"
  using assms by (cases "tInst s") (auto simp: tcpInstance_def Let_def split: option.splits prod.splits)

lemma tcpInstance_table:
  assumes "tcpInstance s = Inr (t, s')"
  shows "tInst s' = Some t" "tcb_set t = streams s" "streams s' = streams s" "statuses s' = statuses s"
    "tInst s = Some t \<Longrightarrow> s' = s"
proof -
  show "tInst s' = Some t" using assms by (cases rule: tcpInstance_cases) auto
  show s: "tcb_set t = streams s" using assms
    by (cases rule: tcpInstance_cases) (auto simp: streams_def)
  show s': "streams s' = streams s" using s \<open>tInst s' = Some t\<close> by (simp add: streams_def)
  show "statuses s' = statuses s" using s' by (simp add: statuses_def)
  show "tInst s = Some t \<Longrightarrow> s' = s" using assms by (cases rule: tcpInstance_cases) auto
qed

lemma tcpInstance_fields:
  assumes "tcpInstance s = Inr (t, s')"
  shows "memzones s' = memzones s" "lhost s' = lhost s" "fd_table s' = fd_table s" "arpt s' = arpt s"
    "pool s' = pool s" "signalled s' = signalled s" "rInst s' = rInst s" "mallocs s \<le> mallocs s'"
    "gSrcMac s' = gSrcMac s" "junk_frag s' = junk_frag s" "malloc_ok s' = malloc_ok s"
  using assms by (cases rule: tcpInstance_cases; simp)+

lemmas tcpInstance_eq = tcpInstance_table tcpInstance_fields

section \<open>The handlers on the statuses\<close>

lemma search_eq:
  assumes "ng_tcp_stream_search si di sp dp s = Inr (r, s')"
  shows "statuses s' = statuses s" "streams s' = streams s" "mallocs s \<le> mallocs s'" "pool s' = pool s"
    "r = Some st \<Longrightarrow> st \<in> set (streams s)"
    "r = Some st \<Longrightarrow> tInst s' = tInst s \<and> s' = s"
proof -
  obtain t where t: "tcpInstance s = Inr (t, s')"
    and r: "r = (case find (\<lambda>iter. s_sip iter = si \<and> s_dip iter = di \<and> s_sport iter = sp \<and> s_dport iter = dp)
          (tcb_set t) of Some iter \<Rightarrow> Some iter
        | None \<Rightarrow> find (\<lambda>iter. s_dport iter = dp \<and> s_status iter = NG_TCP_STATUS_LISTEN) (tcb_set t))"
    using assms by (auto simp: ng_tcp_stream_search_def)
  note e = tcpInstance_eq [OF t]
  show "statuses s' = statuses s" "streams s' = streams s" "mallocs s \<le> mallocs s'" "pool s' = pool s"
    using e by auto
  show mem: "r = Some st \<Longrightarrow> st \<in> set (streams s)"
    using r e(2) by (auto split: option.splits dest: find_Some_iff2)
  show "r = Some st \<Longrightarrow> tInst s' = tInst s \<and> s' = s"
  proof -
    assume "r = Some st"
    then have "streams s \<noteq> []" using mem by auto
    then obtain t' where "tInst s = Some t'" by (auto simp: streams_def split: option.splits)
    then show ?thesis using t by (auto simp: tcpInstance_def)
  qed
qed

lemma agrees_mem: "st \<in> set (streams s) \<Longrightarrow> tcb_wf s \<Longrightarrow> agrees st s"
  by (auto simp: agrees_def tcb_wf_def statuses_def)

lemma put_stream_fields [simp]:
  "pool (put_stream st s) = pool s" "mallocs (put_stream st s) = mallocs s"
  "signalled (put_stream st s) = signalled s"
  by (simp_all add: put_stream_def)

lemma enqueue_recvbuffer_eq:
  assumes "ng_tcp_enqueue_recvbuffer st b n s = Inr ((r, st'), s')" "agrees st s"
  shows "statuses s' = statuses s \<and> agrees st' s' \<and> s_addr st' = s_addr st \<and> s_status st' = s_status st
    \<and> rcv_nxt st' = rcv_nxt st \<and> snd_nxt st' = snd_nxt st \<and> s_sndbuf st' = s_sndbuf st
    \<and> pool s' = pool s \<and> mallocs s \<le> mallocs s'"
proof -
  obtain a s1 where m1: "rte_malloc sizeof_ng_tcp_fragment s = (a, s1)" by fastforce
  let ?n = "nat (n - int (unat (drop_bit 4 (b tcp_data_off))) * 4) + 1"
  obtain a2 s2 where m2: "rte_malloc ?n s1 = (a2, s2)" by fastforce
  note f = rte_malloc_fields [OF m1] rte_malloc_fields [OF m2]
  have ag: "agrees st s1" "agrees st s2" "statuses s1 = statuses s" "statuses s2 = statuses s"
    using assms(2) f agrees_cong [of s1 s] agrees_cong [of s2 s1] statuses_cong [of s1 s] statuses_cong [of s2 s1]
    by auto
  let ?done = "\<lambda>sx. \<exists>ring. st' = st\<lparr>s_rcvbuf := ring\<rparr>
    \<and> s' = (put_stream st' sx)\<lparr>signalled := signalled (put_stream st' sx) @ [s_addr st']\<rparr>"
  have fin: ?thesis if which: "sx = s1 \<or> sx = s2" and upd: "?done sx" for sx
  proof -
    have sx: "agrees st sx" "statuses sx = statuses s" "pool sx = pool s" "mallocs s \<le> mallocs sx"
      using which ag f by auto
    obtain ring where r: "st' = st\<lparr>s_rcvbuf := ring\<rparr>"
      "s' = (put_stream st' sx)\<lparr>signalled := signalled (put_stream st' sx) @ [s_addr st']\<rparr>"
      using upd by blast
    have "tInst s' = tInst (put_stream st' sx)" using r(2) by simp
    then have "statuses s' = statuses (put_stream st' sx)" "agrees st' s' = agrees st' (put_stream st' sx)"
      by (rule statuses_cong, rule agrees_cong)
    moreover have "s_addr st' = s_addr st" "s_status st' = s_status st" using r(1) by simp_all
    ultimately show ?thesis
      using r agrees_put [OF sx(1), of st'] sx by simp
  qed
  show ?thesis
  proof (cases a)
    case None
    then have "st' = st" "s' = s1" using assms(1) m1 by (simp_all add: ng_tcp_enqueue_recvbuffer_def)
    then show ?thesis using ag f by simp
  next
    case a: (Some x)
    show ?thesis
    proof (cases "n - int (unat (drop_bit 4 (b tcp_data_off))) * 4 > 0")
      case False
      then have "?done s1" using assms(1) m1 a
        by (auto simp: ng_tcp_enqueue_recvbuffer_def Let_def split: sum.splits prod.splits)
      then show ?thesis by (rule fin [OF disjI1 [OF refl]])
    next
      case pos: True
      show ?thesis
      proof (cases a2)
        case None
        then have "st' = st" "s' = rte_free (Some x) s2"
          using assms(1) m1 m2 a pos by (simp_all add: ng_tcp_enqueue_recvbuffer_def Let_def)
        then show ?thesis
          using ag f statuses_cong [of s' s2] agrees_cong [of s' s2] by (simp add: rte_free_def)
      next
        case (Some y)
        then have "?done s2" using assms(1) m1 m2 a pos
          by (auto simp: ng_tcp_enqueue_recvbuffer_def Let_def split: sum.splits prod.splits)
        then show ?thesis by (rule fin [OF disjI2 [OF refl]])
      qed
    qed
  qed
qed

lemma send_ackpkt_eq:
  assumes "ng_tcp_send_ackpkt st b s = Inr ((r, st'), s')" "agrees st s"
  shows "statuses s' = statuses s \<and> agrees st' s' \<and> s_addr st' = s_addr st \<and> s_status st' = s_status st
    \<and> rcv_nxt st' = rcv_nxt st \<and> snd_nxt st' = snd_nxt st \<and> pool s' = pool s \<and> mallocs s \<le> mallocs s'"
proof -
  obtain a s1 where m1: "rte_malloc sizeof_ng_tcp_fragment s = (a, s1)" by fastforce
  note f = rte_malloc_fields [OF m1]
  have ag: "agrees st s1" "statuses s1 = statuses s"
    using assms(2) f agrees_cong [of s1 s] statuses_cong [of s1 s] by auto
  consider "st' = st" "s' = s1" | ring where "st' = st\<lparr>s_sndbuf := ring\<rparr>" "s' = put_stream st' s1"
    using assms(1) m1 unfolding ng_tcp_send_ackpkt_def Let_def
    by (cases a) (auto split: sum.splits prod.splits)
  then show ?thesis
  proof cases
    case 1
    then show ?thesis using ag f by auto
  next
    case (2 ring)
    then show ?thesis using agrees_put [OF ag(1), of st'] ag f by auto
  qed
qed

end
