(* ===== verification/Tcp_Refine.thy ===== *)
theory Tcp_Refine
  imports Tcp_Machine
begin

text \<open>
  Reception of a segment refines the abstract machine of the control blocks.
\<close>

lemma tcb_wf_le: "statuses s' = statuses s \<Longrightarrow> mallocs s \<le> mallocs s' \<Longrightarrow> tcb_wf s \<Longrightarrow> tcb_wf s'"
  by (auto simp: tcb_wf_def)

lemma tcb_wf_set_status:
  "statuses s' = set_status a t (statuses s) \<Longrightarrow> mallocs s \<le> mallocs s' \<Longrightarrow> tcb_wf s \<Longrightarrow> tcb_wf s'"
proof -
  assume a: "statuses s' = set_status a t (statuses s)" "mallocs s \<le> mallocs s'" "tcb_wf s"
  have "fst ` set (set_status a t (statuses s)) = fst ` set (statuses s)"
    by (metis fst_set_status list.set_map)
  then show "tcb_wf s'" using a by (auto simp: tcb_wf_def)
qed

lemma handle_established_eq:
  assumes "ng_tcp_handle_established st b n s = Inr (r, s')" "agrees st s"
  shows "statuses s' = (if flag b RTE_TCP_FIN_FLAG
      then set_status (s_addr st) NG_TCP_STATUS_CLOSE_WAIT (statuses s) else statuses s)"
    "mallocs s \<le> mallocs s'" "pool s' = pool s"
proof -
  obtain st1 s1 where p: "(if flag b RTE_TCP_PSH_FLAG then
             bindE (ng_tcp_enqueue_recvbuffer st b n s) (\<lambda>(_, stream) s.
               let hdrlen = unat (drop_bit 4 (b tcp_data_off));
                   payloadlen = n - int hdrlen * 4;
                   stream = stream\<lparr>rcv_nxt := rcv_nxt stream + of_int payloadlen,
                                   snd_nxt := ntohl (rd32 b tcp_recv_ack)\<rparr>
               in bindE (ng_tcp_send_ackpkt stream b (put_stream stream s)) (\<lambda>(_, stream) s. Inr (stream, s)))
           else Inr (st, s)) = Inr (st1, s1)"
    and q: "(if flag b RTE_TCP_FIN_FLAG then
      let stream = st1\<lparr>s_status := NG_TCP_STATUS_CLOSE_WAIT\<rparr>; s = put_stream stream s1
      in bindE (ng_tcp_enqueue_recvbuffer stream b (uint (drop_bit 4 (b tcp_data_off))) s) (\<lambda>(_, stream) s.
           let stream = stream\<lparr>rcv_nxt := rcv_nxt stream + 1, snd_nxt := ntohl (rd32 b tcp_recv_ack)\<rparr>
           in bindE (ng_tcp_send_ackpkt stream b (put_stream stream s)) (\<lambda>_ s. Inr (0, s)))
    else Inr (0, s1)) = Inr (r, s')"
    using assms(1) unfolding ng_tcp_handle_established_def by blast
  have 1: "agrees st1 s1 \<and> s_addr st1 = s_addr st \<and> statuses s1 = statuses s \<and> mallocs s \<le> mallocs s1
      \<and> pool s1 = pool s"
  proof (cases "flag b RTE_TCP_PSH_FLAG")
    case False
    then show ?thesis using p assms(2) by auto
  next
    case True
    then obtain r2 st2 s2 r3 where e: "ng_tcp_enqueue_recvbuffer st b n s = Inr ((r2, st2), s2)"
      and a: "ng_tcp_send_ackpkt (st2\<lparr>rcv_nxt := rcv_nxt st2 + of_int (n - int (unat (drop_bit 4 (b tcp_data_off))) * 4),
          snd_nxt := ntohl (rd32 b tcp_recv_ack)\<rparr>) b (put_stream (st2\<lparr>rcv_nxt := rcv_nxt st2
          + of_int (n - int (unat (drop_bit 4 (b tcp_data_off))) * 4), snd_nxt := ntohl (rd32 b tcp_recv_ack)\<rparr>) s2)
          = Inr ((r3, st1), s1)"
      using p by (auto simp: Let_def)
    let ?st = "st2\<lparr>rcv_nxt := rcv_nxt st2 + of_int (n - int (unat (drop_bit 4 (b tcp_data_off))) * 4),
        snd_nxt := ntohl (rd32 b tcp_recv_ack)\<rparr>"
    note E = enqueue_recvbuffer_eq [OF e assms(2)]
    have ag: "agrees ?st (put_stream ?st s2)" "statuses (put_stream ?st s2) = statuses s2"
      using agrees_put [of st2 s2 ?st] E by simp_all
    show ?thesis using send_ackpkt_eq [OF a ag(1)] E ag(2) by simp
  qed
  have 2: "statuses s' = (if flag b RTE_TCP_FIN_FLAG
      then set_status (s_addr st1) NG_TCP_STATUS_CLOSE_WAIT (statuses s1) else statuses s1)
      \<and> mallocs s1 \<le> mallocs s' \<and> pool s' = pool s1"
  proof (cases "flag b RTE_TCP_FIN_FLAG")
    case False
    then show ?thesis using q by auto
  next
    case True
    let ?st = "st1\<lparr>s_status := NG_TCP_STATUS_CLOSE_WAIT\<rparr>"
    have ag: "agrees ?st (put_stream ?st s1)" using agrees_put(1) [of st1 s1 ?st] 1 by simp
    obtain r2 st2 s2 r3 where e: "ng_tcp_enqueue_recvbuffer ?st b (uint (drop_bit 4 (b tcp_data_off))) (put_stream ?st s1)
        = Inr ((r2, st2), s2)"
      and a: "ng_tcp_send_ackpkt (st2\<lparr>rcv_nxt := rcv_nxt st2 + 1, snd_nxt := ntohl (rd32 b tcp_recv_ack)\<rparr>) b
          (put_stream (st2\<lparr>rcv_nxt := rcv_nxt st2 + 1, snd_nxt := ntohl (rd32 b tcp_recv_ack)\<rparr>) s2) = Inr (r3, s')"
      using q True by (auto simp: Let_def)
    let ?st3 = "st2\<lparr>rcv_nxt := rcv_nxt st2 + 1, snd_nxt := ntohl (rd32 b tcp_recv_ack)\<rparr>"
    note E = enqueue_recvbuffer_eq [OF e ag]
    have ag3: "agrees ?st3 (put_stream ?st3 s2)" "statuses (put_stream ?st3 s2) = statuses s2"
      using agrees_put [of st2 s2 ?st3] E by simp_all
    obtain r4 st4 where r3: "r3 = (r4, st4)" by fastforce
    show ?thesis
      using send_ackpkt_eq [OF a [unfolded r3] ag3(1)] E ag3(2) True by (simp add: statuses_put)
  qed
  show "statuses s' = (if flag b RTE_TCP_FIN_FLAG
      then set_status (s_addr st) NG_TCP_STATUS_CLOSE_WAIT (statuses s) else statuses s)"
    "mallocs s \<le> mallocs s'" "pool s' = pool s"
    using 1 2 by simp_all
qed

lemma handle_syn_rcvd_eq:
  assumes "ng_tcp_handle_syn_rcvd st b s = Inr (r, s')" "s_status st = NG_TCP_STATUS_SYN_RCVD"
  shows "statuses s' = (if flag b RTE_TCP_ACK_FLAG
      then set_status (s_addr st) NG_TCP_STATUS_ESTABLISHED (statuses s) else statuses s)"
    "mallocs s \<le> mallocs s'" "pool s' = pool s"
proof -
  let ?s = "put_stream (st\<lparr>s_status := NG_TCP_STATUS_ESTABLISHED\<rparr>) s"
  have *: "statuses s' = (if flag b RTE_TCP_ACK_FLAG
      then set_status (s_addr st) NG_TCP_STATUS_ESTABLISHED (statuses s) else statuses s)
      \<and> mallocs s \<le> mallocs s' \<and> pool s' = pool s"
  proof (cases "flag b RTE_TCP_ACK_FLAG")
    case False
    then show ?thesis using assms(1) by (simp add: ng_tcp_handle_syn_rcvd_def)
  next
    case True
    then obtain l s1 where l: "ng_tcp_stream_search 0 0 0 (s_dport st) ?s = Inr (Some l, s1)"
      and s': "s' = s1\<lparr>signalled := signalled s1 @ [s_addr l]\<rparr>"
      using assms by (auto simp: ng_tcp_handle_syn_rcvd_def Let_def split: option.splits)
    have s1: "s1 = ?s" using search_eq(6) [OF l] by simp
    have "tInst s' = tInst ?s" using s' s1 by simp
    then have "statuses s' = statuses ?s" by (rule statuses_cong)
    then show ?thesis using True s' s1 by (simp add: statuses_put)
  qed
  then show "statuses s' = (if flag b RTE_TCP_ACK_FLAG
      then set_status (s_addr st) NG_TCP_STATUS_ESTABLISHED (statuses s) else statuses s)"
    "mallocs s \<le> mallocs s'" "pool s' = pool s" by blast+
qed

lemma rte_malloc_addr: "rte_malloc n s = (Some a, s') \<Longrightarrow> a = mallocs s \<and> mallocs s' = Suc (mallocs s)"
  by (auto simp: rte_malloc_def malloc_heap_alloc_def Let_def split: if_splits)

lemma stream_create_eq:
  assumes "ng_tcp_stream_create si di sp dp s = (Some st, s')"
  shows "eal_frame s s'" "s_addr st = mallocs s" "mallocs s < mallocs s'"
    "s_status st = NG_TCP_STATUS_LISTEN" "s_fd st = -1" "s_protocol st = IPPROTO_TCP"
    "s_sip st = si" "s_dip st = di" "s_sport st = sp" "s_dport st = dp" "s_localmac st = gSrcMac s"
proof -
  obtain a s1 where m: "rte_malloc sizeof_ng_tcp_stream s = (Some a, s1)"
    using assms by (auto simp: ng_tcp_stream_create_def split: prod.splits option.splits)
  obtain r1 s2 where c1: "rte_ring_create zero_fragment (ring_name ''sndbuf'' si sp) RING_SIZE 0 s1 = (r1, s2)"
    by fastforce
  obtain r2 s3 where c2: "rte_ring_create zero_fragment (ring_name ''rcvbuf'' si sp) RING_SIZE 0 s2 = (r2, s3)"
    by fastforce
  note fr = rte_malloc_frame [OF m] rte_ring_create_frame [OF c1] rte_ring_create_frame [OF c2]
  have e: "s' = s3" "s_addr st = a" "s_status st = NG_TCP_STATUS_LISTEN" "s_fd st = -1"
    "s_protocol st = IPPROTO_TCP" "s_sip st = si" "s_dip st = di" "s_sport st = sp" "s_dport st = dp"
    "s_localmac st = gSrcMac s3"
    using assms m c1 c2 by (auto simp: ng_tcp_stream_create_def)
  show "eal_frame s s'" using fr e(1) eal_frame_trans by blast
  then show "s_localmac st = gSrcMac s" using e(1,10) eal_frame_fields(6) by simp
  show "s_addr st = mallocs s" using e rte_malloc_addr [OF m] by simp
  have "mallocs s1 \<le> mallocs s3" using fr(2,3) by (simp add: eal_frame_def)
  then show "mallocs s < mallocs s'" using e(1) rte_malloc_addr [OF m] by simp
qed (use assms in \<open>auto simp: ng_tcp_stream_create_def split: prod.splits option.splits\<close>)

lemma statuses_add: "tInst s \<noteq> None \<Longrightarrow> statuses (ll_add_stream st s) = (s_addr st, s_status st) # statuses s"
  by (auto simp: statuses_def ll_add_stream_def streams_def)

lemma set_status_Cons: "set_status a t ((a, u) # l) = (a, t) # set_status a t l"
  by (simp add: set_status_def)

lemma set_status_fresh: "a \<notin> fst ` set l \<Longrightarrow> set_status a t l = l"
  unfolding set_status_def by (rule map_idI) force

lemma handle_listen_eq:
  assumes "ng_tcp_handle_listen st b s = Inr (r, s')" "tInst s = Some t" "tcb_wf s"
  shows "(statuses s' = statuses s \<or> statuses s' = (mallocs s, NG_TCP_STATUS_SYN_RCVD) # statuses s
      \<or> statuses s' = (mallocs s, NG_TCP_STATUS_LISTEN) # statuses s)
    \<and> tcb_wf s' \<and> pool s' = pool s"
proof (cases "flag b RTE_TCP_SYN_FLAG \<and> s_status st = NG_TCP_STATUS_LISTEN")
  case False
  have "s' = s" using assms(1) unfolding ng_tcp_handle_listen_def if_not_P [OF False] by simp
  then show ?thesis using assms(3) by simp
next
  case True
  have tc: "tcpInstance s = Inr (t, s)" using assms(2) by (simp add: tcpInstance_def)
  obtain syn s1 where c: "ng_tcp_stream_create (rd32 b ip_src_addr) (rd32 b ip_dst_addr) (rd16 b tcp_src_port)
      (rd16 b tcp_dst_port) s = (Some syn, s1)"
    using assms(1) True tc by (auto simp: ng_tcp_handle_listen_def split: prod.splits option.splits)
  note C = stream_create_eq [OF c]
  have t1: "tInst s1 = Some t" "pool s1 = pool s" using eal_frame_fields [OF C(1)] assms(2) by simp_all
  let ?s2 = "ll_add_stream syn s1"
  have st2: "statuses ?s2 = (mallocs s, NG_TCP_STATUS_LISTEN) # statuses s"
    using statuses_add [of s1 syn] t1 C statuses_cong [of s1 s] assms(2) by simp
  have fresh: "mallocs s \<notin> fst ` set (statuses s)" using assms(3) by (auto simp: tcb_wf_def)
  obtain a s3 where m: "rte_malloc sizeof_ng_tcp_fragment ?s2 = (a, s3)" by fastforce
  note f = rte_malloc_fields [OF m]
  have st3: "statuses s3 = (mallocs s, NG_TCP_STATUS_LISTEN) # statuses s"
    using statuses_cong [of s3 ?s2] f st2 by simp
  have le: "mallocs s1 \<le> mallocs s3" using f(17) by (simp add: ll_add_stream_def)
  have wf: "tcb_wf s3" using st3 fresh assms(3) le C(3) by (auto simp: tcb_wf_def)
  show ?thesis
  proof (cases a)
    case None
    then have "s' = s3"
      using assms(1) True tc c m by (simp add: ng_tcp_handle_listen_def Let_def)
    then show ?thesis using st3 wf f t1 by (simp add: ll_add_stream_def)
  next
    case (Some x)
    then obtain ring where "s' = put_stream (syn\<lparr>rcv_nxt := ntohl (rd32 b tcp_sent_seq) + 1,
        s_sndbuf := Some ring, s_status := NG_TCP_STATUS_SYN_RCVD\<rparr>) s3"
      using assms(1) True tc c m
      by (auto simp: ng_tcp_handle_listen_def Let_def split: sum.splits prod.splits)
    moreover define st4 where "st4 = syn\<lparr>rcv_nxt := ntohl (rd32 b tcp_sent_seq) + 1,
        s_sndbuf := Some ring, s_status := NG_TCP_STATUS_SYN_RCVD\<rparr>"
    ultimately have st4: "s_addr st4 = mallocs s" "s_status st4 = NG_TCP_STATUS_SYN_RCVD" "s' = put_stream st4 s3"
      using C(2) by simp_all
    have "statuses s' = (mallocs s, NG_TCP_STATUS_SYN_RCVD) # statuses s"
      using st3 st4 set_status_fresh [OF fresh] by (simp add: statuses_put set_status_Cons)
    then show ?thesis using wf st3 st4 f t1 by (auto simp: tcb_wf_def ll_add_stream_def)
  qed
qed

lemma drop_set_status: "drop_tcb a (set_status a t l) = drop_tcb a l"
  by (induction l) (auto simp: drop_tcb_def set_status_def)

lemma handle_last_ack_eq:
  assumes "ng_tcp_handle_last_ack st b s = Inr (r, s')" "s_status st = NG_TCP_STATUS_LAST_ACK" "tcb_wf s"
  shows "statuses s' = (if flag b RTE_TCP_ACK_FLAG then drop_tcb (s_addr st) (statuses s) else statuses s)"
    "mallocs s \<le> mallocs s'" "pool s' = pool s"
proof -
  let ?st = "st\<lparr>s_status := NG_TCP_STATUS_CLOSED\<rparr>"
  have *: "statuses s' = (if flag b RTE_TCP_ACK_FLAG then drop_tcb (s_addr st) (statuses s) else statuses s)
    \<and> mallocs s \<le> mallocs s' \<and> pool s' = pool s"
  proof (cases "flag b RTE_TCP_ACK_FLAG")
    case False
    then show ?thesis using assms(1) by (simp add: ng_tcp_handle_last_ack_def)
  next
    case True
    then obtain t s1 where t: "tcpInstance (put_stream ?st s) = Inr (t, s1)"
      and s': "s' = rte_free (Some (s_addr st)) (rte_ring_free (s_rcvbuf st) (rte_ring_free (s_sndbuf st)
        (ll_remove_stream ?st s1)))"
      using assms(1,2) by (auto simp: ng_tcp_handle_last_ack_def Let_def)
    note T = tcpInstance_eq [OF t]
    let ?s2 = "ll_remove_stream ?st s1"
    have "eal_frame ?s2 s'"
      unfolding s' rte_free_frame
      by (rule eal_frame_trans [OF rte_ring_free_frame rte_ring_free_frame])
    note f = eal_frame_fields [OF this]
    have "statuses s' = statuses ?s2" by (rule statuses_cong [OF f(2)])
    also have "\<dots> = drop_tcb (s_addr st) (statuses s1)"
      using T(1) by (auto simp: statuses_def ll_remove_stream_def streams_def drop_tcb_def filter_map o_def
          intro!: arg_cong [where f = "map _"] filter_cong)
    also have "\<dots> = drop_tcb (s_addr st) (statuses s)"
      unfolding T(4) statuses_put by (simp add: drop_set_status)
    finally show ?thesis using True f T by (simp add: ll_remove_stream_def)
  qed
  then show "statuses s' = (if flag b RTE_TCP_ACK_FLAG then drop_tcb (s_addr st) (statuses s) else statuses s)"
    "mallocs s \<le> mallocs s'" "pool s' = pool s" by blast+
qed

section \<open>Refinement\<close>

lemma tcb_wf_drop:
  "statuses s' = drop_tcb a (statuses s) \<Longrightarrow> mallocs s \<le> mallocs s' \<Longrightarrow> tcb_wf s \<Longrightarrow> tcb_wf s'"
  by (force simp: tcb_wf_def drop_tcb_def distinct_map intro: inj_on_subset)

text \<open>One handler call is one step of the machine.\<close>

lemma dispatch_step:
  assumes "ng_tcp_dispatch st b s = Inr (r, s')" "tInst s = Some t" "tcb_wf s" "st \<in> set (streams s)"
  shows "tcb_step (statuses s) (statuses s') \<and> tcb_wf s' \<and> pool s' = pool s"
proof -
  have ag: "agrees st s" by (rule agrees_mem [OF assms(4,3)])
  have mem: "(s_addr st, s_status st) \<in> set (statuses s)" using ag by (simp add: agrees_def)
  have quiet: ?thesis if "s' = s" using that assms(3) by (simp add: tcb_step.stay)
  show ?thesis
  proof (cases "s_status st")
    case NG_TCP_STATUS_LISTEN
    then have "ng_tcp_handle_listen st b s = Inr (r, s')" using assms(1) by (simp add: ng_tcp_dispatch_def)
    note e = handle_listen_eq [OF this assms(2,3)]
    have "mallocs s \<notin> fst ` set (statuses s)" using assms(3) by (auto simp: tcb_wf_def)
    then show ?thesis
      using e mem NG_TCP_STATUS_LISTEN by (auto intro: tcb_step.intros)
  next
    case NG_TCP_STATUS_SYN_RCVD
    then have "ng_tcp_handle_syn_rcvd st b s = Inr (r, s')" using assms(1) by (simp add: ng_tcp_dispatch_def)
    note e = handle_syn_rcvd_eq [OF this NG_TCP_STATUS_SYN_RCVD]
    show ?thesis
      using e mem NG_TCP_STATUS_SYN_RCVD tcb_wf_le [OF _ e(2) assms(3)] tcb_wf_set_status [OF _ e(2) assms(3)]
      by (auto intro: tcb_step.intros split: if_splits)
  next
    case NG_TCP_STATUS_ESTABLISHED
    then obtain n where "ng_tcp_handle_established st b n s = Inr (r, s')"
      using assms(1) by (simp add: ng_tcp_dispatch_def)
    note e = handle_established_eq [OF this ag]
    show ?thesis
      using e mem NG_TCP_STATUS_ESTABLISHED tcb_wf_le [OF _ e(2) assms(3)] tcb_wf_set_status [OF _ e(2) assms(3)]
      by (auto intro: tcb_step.intros split: if_splits)
  next
    case NG_TCP_STATUS_LAST_ACK
    then have "ng_tcp_handle_last_ack st b s = Inr (r, s')" using assms(1) by (simp add: ng_tcp_dispatch_def)
    note e = handle_last_ack_eq [OF this NG_TCP_STATUS_LAST_ACK assms(3)]
    show ?thesis
      using e mem NG_TCP_STATUS_LAST_ACK tcb_wf_le [OF _ e(2) assms(3)] tcb_wf_drop [OF _ e(2) assms(3)]
      by (auto intro: tcb_step.intros split: if_splits)
  qed (use assms(1) quiet in \<open>auto simp: ng_tcp_dispatch_def ng_tcp_handle_close_wait_def\<close>)
qed

lemma tcb_wf_eq: "tcb_wf s' \<Longrightarrow> tInst s'' = tInst s' \<Longrightarrow> mallocs s'' = mallocs s' \<Longrightarrow> tcb_wf s''"
  using statuses_cong [of s'' s'] by (simp add: tcb_wf_def)

lemma rte_pktmbuf_free_fields [simp]:
  fixes s :: stack
  shows "tInst (rte_pktmbuf_free m s) = tInst s" "mallocs (rte_pktmbuf_free m s) = mallocs s"
    "pool (rte_pktmbuf_free m s) = m # pool s" "rInst (rte_pktmbuf_free m s) = rInst s"
    "lhost (rte_pktmbuf_free m s) = lhost s" "signalled (rte_pktmbuf_free m s) = signalled s"
    "live (rte_pktmbuf_free m s) = live s"
  by (simp_all add: rte_pktmbuf_free_def)

lemma process_step:
  assumes "ng_tcp_process m s = Inr (r, s')" "tcb_wf s"
  shows "tcb_step (statuses s) (statuses s') \<and> tcb_wf s'
    \<and> pool s' = m\<lparr>mdata := wr16 tcp_cksum 0 (mdata m)\<rparr> # pool s"
proof -
  let ?b = "wr16 tcp_cksum 0 (mdata m)"
  let ?m = "m\<lparr>mdata := ?b\<rparr>"
  consider (bad) "s' = rte_pktmbuf_free ?m s"
    | (none) s1 where "ng_tcp_stream_search (rd32 ?b ip_src_addr) (rd32 ?b ip_dst_addr)
                      (rd16 ?b tcp_src_port) (rd16 ?b tcp_dst_port) s = Inr (None, s1)" "s' = rte_pktmbuf_free ?m s1"
    | (some) st s1 r1 s2 where "ng_tcp_stream_search (rd32 ?b ip_src_addr) (rd32 ?b ip_dst_addr)
                      (rd16 ?b tcp_src_port) (rd16 ?b tcp_dst_port) s = Inr (Some st, s1)"
        "ng_tcp_dispatch st ?b s1 = Inr (r1, s2)" "s' = rte_pktmbuf_free ?m s2"
    using assms(1) by (auto simp: ng_tcp_process_def Let_def split: if_splits option.splits)
  then show ?thesis
  proof cases
    case bad
    then show ?thesis using assms(2) statuses_cong [of s' s] tcb_wf_eq [OF assms(2), of s']
      by (simp add: tcb_step.stay)
  next
    case none
    note e = search_eq [OF none(1)]
    have "tcb_wf s1" by (rule tcb_wf_le [OF e(1,3) assms(2)])
    then show ?thesis using none(2) e statuses_cong [of s' s1] tcb_wf_eq [of s1 s']
      by (simp add: tcb_step.stay)
  next
    case some
    note e = search_eq [OF some(1)]
    have s1: "s1 = s" "st \<in> set (streams s)" using e(5,6) by auto
    then obtain t where "tInst s = Some t" by (cases "tInst s") (auto simp: streams_def)
    from dispatch_step [OF some(2) [unfolded s1(1)] this assms(2) s1(2)]
    show ?thesis using some(3) statuses_cong [of s' s2] tcb_wf_eq [of s2 s'] by simp
  qed
qed

end
