(* ===== verification/Tcp_Props.thy ===== *)
theory Tcp_Props
  imports Tcp_Refine
begin

text \<open>
  What the TCP side guarantees for one segment: the checksum test, the creation of a control
  block for a SYN, the handshake, the delivery of data and its acknowledgement, and the frames
  it sends.
\<close>

section \<open>The checksum test\<close>

lemma wr16_restore: "wr16 p (rd16 m p) (wr16 p v m) = m"
proof
  fix i
  have b: "ucast (of_le16 a b) = a" "ucast (drop_bit 8 (of_le16 a b)) = b" for a b
    by (rule bit_word_eqI, auto simp: of_le16_def bit_or_iff bit_push_bit_iff bit_ucast_iff bit_drop_bit_eq
        dest: bit_imp_le_length)+
  show "wr16 p (rd16 m p) (wr16 p v m) i = m i"
    by (auto simp: wr16_def wr_bytes_def rd16_def le16_def b less_Suc_eq nth_Cons split: nat.splits)
qed

lemma ones_comp_neg_unique:
  assumes "(s + c) mod 65535 = 0" "(s + d) mod 65535 = 0" "0 < c" "c \<le> 65535" "0 < d" "d \<le> (65535 :: nat)"
  shows "c = d"
proof -
  have *: "d = c" if "(s + c) mod 65535 = 0" "(s + d) mod 65535 = 0" "c \<le> d" "0 < c" "d \<le> 65535" for c d :: nat
  proof -
    have "65535 dvd s + c" "65535 dvd s + d" using that(1,2) by (auto simp only: mod_eq_0_iff_dvd)
    then have "65535 dvd (s + d) - (s + c)" by (rule dvd_diff_nat [rotated])
    then have "65535 dvd d - c" by simp
    moreover have "d - c < 65535" using that by linarith
    ultimately have "d - c = 0" by (meson nat_dvd_not_less neq0_conv)
    then show ?thesis using that(3) by simp
  qed
  show ?thesis using * [of c d] * [of d c] assms by (cases "c \<le> d") simp_all
qed

lemma cksum_test_iff:
  assumes "18 \<le> l4_length m ip_hdr"
  defines "b \<equiv> wr16 tcp_cksum 0 m"
  shows "rte_ipv4_udptcp_cksum b ip_hdr l4_hdr = rd16 m tcp_cksum \<longleftrightarrow> l4_ok m \<and> rd16 m tcp_cksum \<noteq> 0"
proof -
  let ?c = "rd16 m tcp_cksum" and ?v = "rte_ipv4_udptcp_cksum b ip_hdr l4_hdr"
  have len: "l4_length b ip_hdr = l4_length m ip_hdr"
    by (simp add: b_def l4_length_def buf_simps)
  have z: "rd16 b (l4_hdr + 16) = 0" by (simp add: b_def buf_simps)
  have "l4_sum (wr16 (l4_hdr + 16) ?c b) ip_hdr l4_hdr = l4_sum b ip_hdr l4_hdr + unat ?c"
    by (rule l4_sum_wr16) (use len assms(1) z in simp_all)
  then have m: "l4_sum m ip_hdr l4_hdr = l4_sum b ip_hdr l4_hdr + unat ?c"
    by (simp add: b_def wr16_restore)
  have st: "l4_sum (wr16 (l4_hdr + 16) ?v b) ip_hdr l4_hdr mod 65535 = 0 \<and> ?v \<noteq> 0"
    by (rule udptcp_cksum_stored) (use len assms(1) z in simp_all)
  have "l4_sum (wr16 (l4_hdr + 16) ?v b) ip_hdr l4_hdr = l4_sum b ip_hdr l4_hdr + unat ?v"
    by (rule l4_sum_wr16) (use len assms(1) z in simp_all)
  then have v: "(l4_sum b ip_hdr l4_hdr + unat ?v) mod 65535 = 0" "0 < unat ?v" "unat ?v \<le> 65535"
    using st unat_bounds(2) [of ?v] by (auto simp: unat_gt_0)
  show ?thesis
  proof
    assume "?v = ?c"
    then show "l4_ok m \<and> ?c \<noteq> 0" using v m st by (simp add: l4_ok_def)
  next
    assume a: "l4_ok m \<and> ?c \<noteq> 0"
    then have "unat ?v = unat ?c"
      using ones_comp_neg_unique [OF v(1) _ v(2,3), of "unat ?c"] m unat_bounds(2) [of ?c]
      by (simp add: l4_ok_def unat_gt_0)
    then show "?v = ?c" by (simp only: word_unat_eq_iff)
  qed
qed

lemma process_bad: "rte_ipv4_udptcp_cksum (wr16 tcp_cksum 0 (mdata m)) ip_hdr l4_hdr \<noteq> rd16 (mdata m) tcp_cksum \<Longrightarrow>
    ng_tcp_process m s = Inr (-1, rte_pktmbuf_free (m\<lparr>mdata := wr16 tcp_cksum 0 (mdata m)\<rparr>) s)"
  by (simp add: ng_tcp_process_def Let_def)

lemma process_good_ret:
  assumes "rte_ipv4_udptcp_cksum (wr16 tcp_cksum 0 (mdata m)) ip_hdr l4_hdr = rd16 (mdata m) tcp_cksum"
    and "ng_tcp_process m s = Inr (r, s')"
  shows "r \<noteq> -1"
  using assms by (auto simp: ng_tcp_process_def Let_def split: option.splits)

section \<open>Opening a connection\<close>

lemma length_show_base: "2 \<le> b \<Longrightarrow> n < b ^ Suc k \<Longrightarrow> List.length (show_base b n) \<le> Suc k"
proof (induction k arbitrary: n)
  case 0
  then show ?case by (subst show_base.simps) simp
next
  case (Suc k)
  show ?case
  proof (cases "n < b")
    case True
    then show ?thesis by (subst show_base.simps) simp
  next
    case False
    have "n div b < b ^ Suc k" using Suc.prems by (simp add: div_less_iff_less_mult mult.commute)
    then show ?thesis using Suc.IH [OF Suc.prems(1)] Suc.prems(1) False by (subst show_base.simps) simp
  qed
qed

lemma ring_name_eq:
  assumes "List.length p = 6"
  shows "ring_name p si sp = p @ show_base 16 (unat si) @ show_base 10 (unat sp)"
    and "List.length (ring_name p si sp) < 29"
proof -
  have "List.length (show_base 16 (unat si)) \<le> Suc 7"
    by (rule length_show_base) (use unat_bounds(3) [of si] in simp_all)
  moreover have "List.length (show_base 10 (unat sp)) \<le> Suc 4"
    by (rule length_show_base) (use unat_bounds(2) [of sp] in simp_all)
  ultimately show "ring_name p si sp = p @ show_base 16 (unat si) @ show_base 10 (unat sp)"
    "List.length (ring_name p si sp) < 29"
    using assms by (simp_all add: ring_name_def)
qed

definition buf_names_free :: "u32 \<Rightarrow> u16 \<Rightarrow> stack \<Rightarrow> bool" where
  "buf_names_free si sp s \<longleftrightarrow>
    memzone_lookup (RTE_RING_MZ_PREFIX @ ring_name ''sndbuf'' si sp) s = None
    \<and> memzone_lookup (RTE_RING_MZ_PREFIX @ ring_name ''rcvbuf'' si sp) s = None"

definition name_taken :: "u32 \<Rightarrow> u16 \<Rightarrow> stack \<Rightarrow> bool" where
  "name_taken si sp s \<longleftrightarrow> memzone_lookup (RTE_RING_MZ_PREFIX @ ring_name ''sndbuf'' si sp) s \<noteq> None"

definition fresh_buf :: "'a rte_ring option \<Rightarrow> bool" where
  "fresh_buf r \<longleftrightarrow> (case r of None \<Rightarrow> False | Some r \<Rightarrow> ring_wf r \<and> ring_elems r = [] \<and> ring_cap r = 1023)"

lemma RING_SIZE_facts: "POWEROF2 RING_SIZE" "RING_SIZE \<noteq> 0" "RING_SIZE \<le> RTE_RING_SZ_MASK"
  "(0 :: u32) AND RING_F_EXACT_SZ = 0" "unat RING_SIZE - 1 = 1023"
  by (simp_all add: RING_SIZE_def POWEROF2_def RTE_RING_SZ_MASK_def)

lemma stream_create_ok:
  assumes "malloc_ok s = (\<lambda>_ _. True)" "buf_names_free si sp s" "List.length (memzones s) + 1 < mz_max s"
  obtains st s' where "ng_tcp_stream_create si di sp dp s = (Some st, s')"
    "fresh_buf (s_sndbuf st)" "fresh_buf (s_rcvbuf st)" "malloc_ok s' = (\<lambda>_ _. True)"
    "snd_nxt st = rand_seq s (mallocs s) mod TCP_MAX_SEQ"
    "name_taken si sp s'"
proof -
  let ?s1 = "s\<lparr>mallocs := Suc (mallocs s), live := live s + 1\<rparr>"
  have m: "rte_malloc sizeof_ng_tcp_stream s = (Some (mallocs s), ?s1)"
    using assms(1) by (simp add: rte_malloc_def malloc_heap_alloc_def Let_def del: rte_malloc_fields)
  have n: "List.length (ring_name ''sndbuf'' si sp) < 29" "List.length (ring_name ''rcvbuf'' si sp) < 29"
    by (simp_all add: ring_name_eq(2))
  have p1: "malloc_ok ?s1 = (\<lambda>_ _. True)" "memzone_lookup (RTE_RING_MZ_PREFIX @ ring_name ''sndbuf'' si sp) ?s1 = None"
    "List.length (memzones ?s1) < mz_max ?s1"
    using assms by (simp_all add: buf_names_free_def memzone_lookup_def)
  obtain r1 mz1 where c1: "rte_ring_create zero_fragment (ring_name ''sndbuf'' si sp) RING_SIZE 0 ?s1 = (Some r1,
      ?s1\<lparr>mallocs := mallocs ?s1 + 2, live := live ?s1 + 2, memzones := memzones ?s1 @ [mz1],
        ring_list := ring_list ?s1 @ [(mallocs ?s1, mz_addr mz1)]\<rparr>)"
    "mz_name mz1 = RTE_RING_MZ_PREFIX @ ring_name ''sndbuf'' si sp" "mz_addr mz1 = Suc (mallocs ?s1)"
    "rmemzone r1 = Some (mz_addr mz1)" "ring_wf r1" "ring_elems r1 = []" "ring_cap r1 = unat RING_SIZE - 1"
    by (rule rte_ring_create_ok [OF p1 n(1) RING_SIZE_facts(1-4), where j = zero_fragment])
  let ?s2 = "?s1\<lparr>mallocs := mallocs ?s1 + 2, live := live ?s1 + 2, memzones := memzones ?s1 @ [mz1],
        ring_list := ring_list ?s1 @ [(mallocs ?s1, mz_addr mz1)]\<rparr>"
  have p2: "memzone_lookup (RTE_RING_MZ_PREFIX @ ring_name ''rcvbuf'' si sp) ?s2 = None"
    "malloc_ok ?s2 = (\<lambda>_ _. True)" "List.length (memzones ?s2) < mz_max ?s2"
    using assms c1(2) ring_name_eq(1) [of "''sndbuf''" si sp] ring_name_eq(1) [of "''rcvbuf''" si sp]
    by (simp_all add: buf_names_free_def memzone_lookup_None RTE_RING_MZ_PREFIX_def RTE_MEMZONE_NAMESIZE_def
        del: rte_malloc_zones rte_malloc_fields)
  obtain r2 mz2 where c2: "rte_ring_create zero_fragment (ring_name ''rcvbuf'' si sp) RING_SIZE 0 ?s2 = (Some r2,
      ?s2\<lparr>mallocs := mallocs ?s2 + 2, live := live ?s2 + 2, memzones := memzones ?s2 @ [mz2],
        ring_list := ring_list ?s2 @ [(mallocs ?s2, mz_addr mz2)]\<rparr>)"
    "mz_name mz2 = RTE_RING_MZ_PREFIX @ ring_name ''rcvbuf'' si sp" "mz_addr mz2 = Suc (mallocs ?s2)"
    "rmemzone r2 = Some (mz_addr mz2)" "ring_wf r2" "ring_elems r2 = []" "ring_cap r2 = unat RING_SIZE - 1"
    by (rule rte_ring_create_ok [OF p2(2,1,3) n(2) RING_SIZE_facts(1-4), where j = zero_fragment])
  let ?s3 = "?s2\<lparr>mallocs := mallocs ?s2 + 2, live := live ?s2 + 2, memzones := memzones ?s2 @ [mz2],
        ring_list := ring_list ?s2 @ [(mallocs ?s2, mz_addr mz2)]\<rparr>"
  have taken: "name_taken si sp ?s3"
    using c1(2) by (auto simp: name_taken_def memzone_lookup_None simp del: rte_malloc_zones rte_malloc_fields)
  show thesis
    by (rule that [of "\<lparr>s_addr = mallocs s, s_fd = -1, s_dip = di, s_localmac = gSrcMac s, s_dport = dp,
                 s_protocol = IPPROTO_TCP, s_sport = sp, s_sip = si,
                 snd_nxt = rand_seq s (mallocs s) mod TCP_MAX_SEQ, rcv_nxt = junk_rcv_nxt s,
                 s_status = NG_TCP_STATUS_LISTEN, s_sndbuf = Some r1, s_rcvbuf = Some r2\<rparr>" ?s3])
      (use m c1 c2 assms(1) RING_SIZE_facts(5) taken in
        \<open>simp_all add: ng_tcp_stream_create_def fresh_buf_def del: rte_malloc_zones rte_malloc_fields\<close>)
qed

text \<open>The answer to a SYN.\<close>

definition synack_of :: "buf \<Rightarrow> u32 \<Rightarrow> ng_tcp_fragment" where
  "synack_of b iss = zero_fragment\<lparr>f_sport := rd16 b tcp_dst_port, f_dport := rd16 b tcp_src_port,
     seqnum := iss, acknum := ntohl (rd32 b tcp_sent_seq) + 1,
     tcp_flags := RTE_TCP_SYN_FLAG OR RTE_TCP_ACK_FLAG, windows := TCP_INITIAL_WINDOW,
     hdrlen_off := 0x50, f_data := None, f_length := 0\<rparr>"

lemma streams_put: "streams (put_stream st s) = map (\<lambda>x. if s_addr x = s_addr st then st else x) (streams s)"
  by (simp add: put_stream_def streams_def split: option.splits)

lemma streams_ll_add: "tInst s \<noteq> None \<Longrightarrow> streams (ll_add_stream st s) = st # streams s"
  by (auto simp: ll_add_stream_def streams_def)

lemma buf_enqueue:
  assumes "fresh_buf r"
  obtains r' ret where "ring_mp_enqueue r x = Inr (ret, r')" "ring_wf r'" "ring_elems r' = [x]" "ring_cap r' = 1023"
proof -
  obtain q where q: "r = Some q" "ring_wf q" "ring_elems q = []" "ring_cap q = 1023"
    using assms by (auto simp: fresh_buf_def split: option.splits)
  obtain ret r' where e: "ring_mp_enqueue (Some q) x = Inr (ret, r')"
    unfolding ring_mp_enqueue_def by (cases "rte_ring_mp_enqueue q x") simp
  show thesis
    by (rule that [of ret r']) (use ring_mp_enqueue_some [OF q(2) e] q e ring_used_0 in simp_all)
qed

lemma handle_listen_syn:
  assumes "flag b RTE_TCP_SYN_FLAG" "s_status st = NG_TCP_STATUS_LISTEN" "tInst s = Some t" "tcb_wf s"
    and "malloc_ok s = (\<lambda>_ _. True)" "buf_names_free (rd32 b ip_src_addr) (rd16 b tcp_src_port) s"
    and "List.length (memzones s) + 1 < mz_max s"
  obtains s' syn r where "ng_tcp_handle_listen st b s = Inr (0, s')" "streams s' = syn # streams s"
    "s_status syn = NG_TCP_STATUS_SYN_RCVD" "s_fd syn = -1" "s_addr syn = mallocs s"
    "s_sip syn = rd32 b ip_src_addr" "s_dip syn = rd32 b ip_dst_addr"
    "s_sport syn = rd16 b tcp_src_port" "s_dport syn = rd16 b tcp_dst_port"
    "rcv_nxt syn = ntohl (rd32 b tcp_sent_seq) + 1" "s_sndbuf syn = Some r" "ring_wf r"
    "ring_elems r = [synack_of b (snd_nxt syn)]" "fresh_buf (s_rcvbuf syn)"
    "snd_nxt syn = rand_seq s (mallocs s) mod TCP_MAX_SEQ" "pool s' = pool s" "signalled s' = signalled s"
    "malloc_ok s' = (\<lambda>_ _. True)"
    "name_taken (rd32 b ip_src_addr) (rd16 b tcp_src_port) s'"
proof -
  have tc: "tcpInstance s = Inr (t, s)" using assms(3) by (simp add: tcpInstance_def)
  obtain syn s1 where c: "ng_tcp_stream_create (rd32 b ip_src_addr) (rd32 b ip_dst_addr) (rd16 b tcp_src_port)
      (rd16 b tcp_dst_port) s = (Some syn, s1)" "fresh_buf (s_sndbuf syn)" "fresh_buf (s_rcvbuf syn)"
      "malloc_ok s1 = (\<lambda>_ _. True)" "snd_nxt syn = rand_seq s (mallocs s) mod TCP_MAX_SEQ"
      "name_taken (rd32 b ip_src_addr) (rd16 b tcp_src_port) s1"
    by (rule stream_create_ok [OF assms(5-7)])
  note C = stream_create_eq [OF c(1)]
  have t1: "tInst s1 = Some t" "pool s1 = pool s" "signalled s1 = signalled s" "streams s1 = streams s"
    using eal_frame_fields [OF C(1)] assms(3) streams_cong [of s1 s] by simp_all
  let ?s2 = "ll_add_stream syn s1"
  have "malloc_ok ?s2 = (\<lambda>_ _. True)" using c(4) by (simp add: ll_add_stream_def)
  then obtain a s3 where m: "rte_malloc sizeof_ng_tcp_fragment ?s2 = (Some a, s3)"
    using rte_malloc_total [of ?s2 sizeof_ng_tcp_fragment] by auto
  note f = rte_malloc_fields [OF m]
  obtain r ret where r: "ring_mp_enqueue (s_sndbuf syn) (synack_of b (snd_nxt syn)) = Inr (ret, r)" "ring_wf r"
    "ring_elems r = [synack_of b (snd_nxt syn)]" "ring_cap r = 1023"
    by (rule buf_enqueue [OF c(2)])
  let ?syn = "syn\<lparr>rcv_nxt := ntohl (rd32 b tcp_sent_seq) + 1, s_sndbuf := Some r,
      s_status := NG_TCP_STATUS_SYN_RCVD\<rparr>"
  have h: "ng_tcp_handle_listen st b s = Inr (0, put_stream ?syn s3)"
    using assms(1,2) tc c(1) m r(1) by (simp add: ng_tcp_handle_listen_def Let_def synack_of_def)
  have "streams s3 = syn # streams s"
    using streams_cong [of s3 ?s2] f streams_ll_add [of s1 syn] t1 by simp
  moreover have "\<forall>x\<in>set (streams s). s_addr x \<noteq> s_addr ?syn"
    using assms(4) C(2) by (auto simp: tcb_wf_def statuses_def)
  ultimately have "streams (put_stream ?syn s3) = ?syn # streams s"
    by (auto simp: streams_put intro: map_idI)
  moreover have "memzones (put_stream ?syn s3) = memzones s1" "malloc_ok (put_stream ?syn s3) = (\<lambda>_ _. True)"
    using rte_malloc_zones(1) [OF m] f c(4) by (simp_all add: put_stream_def ll_add_stream_def)
  moreover from this(1) have "name_taken (rd32 b ip_src_addr) (rd16 b tcp_src_port) (put_stream ?syn s3)"
    using c(6) by (simp add: name_taken_def memzone_lookup_def)
  ultimately show thesis
    using that [OF h, of ?syn r] C c r f t1 by (simp add: ll_add_stream_def)
qed

section \<open>Data on an open connection\<close>

definition seg_hdrlen :: "buf \<Rightarrow> nat" where
  "seg_hdrlen b = unat (drop_bit 4 (b tcp_data_off)) * 4"

definition seg_payload :: "buf \<Rightarrow> nat \<Rightarrow> u8 list" where
  "seg_payload b n = rd_bytes b (l4_hdr + seg_hdrlen b) n"

definition data_of :: "buf \<Rightarrow> nat \<Rightarrow> ng_tcp_fragment" where
  "data_of b n = zero_fragment\<lparr>f_dport := ntohs (rd16 b tcp_dst_port), f_sport := ntohs (rd16 b tcp_src_port),
     f_data := Some (seg_payload b n @ [0]), f_length := of_nat n\<rparr>"

definition ack_of :: "buf \<Rightarrow> ng_tcp_stream \<Rightarrow> ng_tcp_fragment" where
  "ack_of b st = zero_fragment\<lparr>f_dport := rd16 b tcp_src_port, f_sport := rd16 b tcp_dst_port,
     acknum := rcv_nxt st, seqnum := snd_nxt st, tcp_flags := RTE_TCP_ACK_FLAG,
     windows := TCP_INITIAL_WINDOW, hdrlen_off := 0x50, f_data := None, f_length := 0\<rparr>"

text \<open>A buffer with room for another fragment.\<close>

definition has_room :: "'a rte_ring option \<Rightarrow> bool" where
  "has_room r \<longleftrightarrow> (case r of None \<Rightarrow> False | Some r \<Rightarrow> ring_wf r \<and> ring_used r < ring_cap r)"

definition elems :: "'a rte_ring option \<Rightarrow> 'a list" where
  "elems r = (case r of None \<Rightarrow> [] | Some r \<Rightarrow> ring_elems r)"

lemma room_enqueue:
  assumes "has_room r"
  obtains ret r' where "ring_mp_enqueue r x = Inr (ret, r')" "ring_wf r'" "ring_elems r' = elems r @ [x]"
proof -
  obtain q where q: "r = Some q" "ring_wf q" "ring_used q < ring_cap q"
    using assms by (auto simp: has_room_def split: option.splits)
  obtain ret r' where e: "ring_mp_enqueue (Some q) x = Inr (ret, r')"
    unfolding ring_mp_enqueue_def by (cases "rte_ring_mp_enqueue q x") simp
  show thesis
    by (rule that [of ret r']) (use ring_mp_enqueue_some [OF q(2) e] q e in \<open>simp_all add: elems_def\<close>)
qed

lemma enqueue_recvbuffer_data:
  assumes "n = int (seg_hdrlen b) + int k" "0 < k" "has_room (s_rcvbuf st)" "malloc_ok s = (\<lambda>_ _. True)"
  obtains s' r where "ng_tcp_enqueue_recvbuffer st b n s = Inr ((0, st\<lparr>s_rcvbuf := Some r\<rparr>), s')"
    "ring_wf r" "ring_elems r = elems (s_rcvbuf st) @ [data_of b k]" "malloc_ok s' = malloc_ok s"
    "streams s' = map (\<lambda>x. if s_addr x = s_addr st then st\<lparr>s_rcvbuf := Some r\<rparr> else x) (streams s)"
    "signalled s' = signalled s @ [s_addr st]" "pool s' = pool s" "lhost s' = lhost s"
proof -
  obtain a1 s1 where m1: "rte_malloc sizeof_ng_tcp_fragment s = (Some a1, s1)"
    using rte_malloc_total [of s sizeof_ng_tcp_fragment] assms(4) by auto
  note f1 = rte_malloc_fields [OF m1]
  obtain a2 s2 where m2: "rte_malloc (k + 1) s1 = (Some a2, s2)"
    using rte_malloc_total [of s1 "k + 1"] assms(4) f1 by auto
  note f2 = rte_malloc_fields [OF m2]
  obtain ret r where r: "ring_mp_enqueue (s_rcvbuf st) (data_of b k) = Inr (ret, r)" "ring_wf r"
    "ring_elems r = elems (s_rcvbuf st) @ [data_of b k]"
    by (rule room_enqueue [OF assms(3)])
  let ?st = "st\<lparr>s_rcvbuf := Some r\<rparr>"
  have e: "ng_tcp_enqueue_recvbuffer st b n s = Inr ((0, ?st), (put_stream ?st s2)
      \<lparr>signalled := signalled (put_stream ?st s2) @ [s_addr st]\<rparr>)"
    using m1 m2 r(1) assms(2) unfolding assms(1) seg_hdrlen_def
    by (simp add: ng_tcp_enqueue_recvbuffer_def Let_def data_of_def seg_payload_def seg_hdrlen_def
        del: rte_malloc_fields)
  have "streams (s\<lparr>signalled := x\<rparr>) = streams s" for s and x by (rule streams_cong) simp
  moreover have "streams s2 = streams s" by (rule streams_cong) (use f1 f2 in simp)
  ultimately show thesis
    by (intro that [OF e r(2,3)]) (use f1 f2 in \<open>simp_all add: streams_put, simp_all add: put_stream_def\<close>)
qed

lemma send_ackpkt_ok:
  assumes "has_room (s_sndbuf st)" "malloc_ok s = (\<lambda>_ _. True)"
  obtains s' r where "ng_tcp_send_ackpkt st b s = Inr ((0, st\<lparr>s_sndbuf := Some r\<rparr>), s')"
    "ring_wf r" "ring_elems r = elems (s_sndbuf st) @ [ack_of b st]" "malloc_ok s' = malloc_ok s"
    "streams s' = map (\<lambda>x. if s_addr x = s_addr st then st\<lparr>s_sndbuf := Some r\<rparr> else x) (streams s)"
    "signalled s' = signalled s" "pool s' = pool s" "lhost s' = lhost s"
proof -
  obtain a1 s1 where m1: "rte_malloc sizeof_ng_tcp_fragment s = (Some a1, s1)"
    using rte_malloc_total [of s sizeof_ng_tcp_fragment] assms(2) by auto
  note f1 = rte_malloc_fields [OF m1]
  obtain ret r where r: "ring_mp_enqueue (s_sndbuf st) (ack_of b st) = Inr (ret, r)" "ring_wf r"
    "ring_elems r = elems (s_sndbuf st) @ [ack_of b st]"
    by (rule room_enqueue [OF assms(1)])
  let ?st = "st\<lparr>s_sndbuf := Some r\<rparr>"
  have e: "ng_tcp_send_ackpkt st b s = Inr ((0, ?st), put_stream ?st s1)"
    using m1 r(1) by (simp add: ng_tcp_send_ackpkt_def Let_def ack_of_def)
  have "streams s1 = streams s" by (rule streams_cong) (use f1 in simp)
  then show thesis
    by (intro that [OF e r(2,3)]) (use f1 in \<open>simp_all add: streams_put, simp_all add: put_stream_def\<close>)
qed

lemma handle_established_data:
  assumes "flag b RTE_TCP_PSH_FLAG" "\<not> flag b RTE_TCP_FIN_FLAG"
    and "n = int (seg_hdrlen b) + int k" "0 < k" "has_room (s_rcvbuf st)" "has_room (s_sndbuf st)"
    and "malloc_ok s = (\<lambda>_ _. True)"
  obtains s' st' where "ng_tcp_handle_established st b n s = Inr (0, s')"
    "streams s' = map (\<lambda>x. if s_addr x = s_addr st then st' else x) (streams s)"
    "rcv_nxt st' = rcv_nxt st + of_nat k" "snd_nxt st' = ntohl (rd32 b tcp_recv_ack)"
    "s_status st' = s_status st" "s_addr st' = s_addr st"
    "elems (s_rcvbuf st') = elems (s_rcvbuf st) @ [data_of b k]"
    "elems (s_sndbuf st') = elems (s_sndbuf st) @ [ack_of b st']"
    "signalled s' = signalled s @ [s_addr st]" "pool s' = pool s" "lhost s' = lhost s"
    "s_fd st' = s_fd st" "s_protocol st' = s_protocol st" "\<forall>r. s_rcvbuf st' = Some r \<longrightarrow> ring_wf r"
proof -
  obtain s1 r1 where e1: "ng_tcp_enqueue_recvbuffer st b n s = Inr ((0, st\<lparr>s_rcvbuf := Some r1\<rparr>), s1)"
    "ring_wf r1" "ring_elems r1 = elems (s_rcvbuf st) @ [data_of b k]" "malloc_ok s1 = malloc_ok s"
    "streams s1 = map (\<lambda>x. if s_addr x = s_addr st then st\<lparr>s_rcvbuf := Some r1\<rparr> else x) (streams s)"
    "signalled s1 = signalled s @ [s_addr st]" "pool s1 = pool s" "lhost s1 = lhost s"
    by (rule enqueue_recvbuffer_data [OF assms(3-5,7)])
  define st2 where "st2 = st\<lparr>s_rcvbuf := Some r1, rcv_nxt := rcv_nxt st + of_nat k,
      snd_nxt := ntohl (rd32 b tcp_recv_ack)\<rparr>"
  have st2: "s_addr st2 = s_addr st" "rcv_nxt st2 = rcv_nxt st + of_nat k" "s_status st2 = s_status st"
    "snd_nxt st2 = ntohl (rd32 b tcp_recv_ack)" "s_sndbuf st2 = s_sndbuf st" "s_rcvbuf st2 = Some r1"
    "s_fd st2 = s_fd st" "s_protocol st2 = s_protocol st"
    by (simp_all add: st2_def)
  have room: "has_room (s_sndbuf st2)" "malloc_ok (put_stream st2 s1) = (\<lambda>_ _. True)"
    using assms(6,7) e1(4) st2 by (simp_all add: put_stream_def)
  obtain s3 r2 where e2: "ng_tcp_send_ackpkt st2 b (put_stream st2 s1) = Inr ((0, st2\<lparr>s_sndbuf := Some r2\<rparr>), s3)"
    "ring_wf r2" "ring_elems r2 = elems (s_sndbuf st2) @ [ack_of b st2]"
    "malloc_ok s3 = malloc_ok (put_stream st2 s1)"
    "streams s3 = map (\<lambda>x. if s_addr x = s_addr st2 then st2\<lparr>s_sndbuf := Some r2\<rparr> else x) (streams (put_stream st2 s1))"
    "signalled s3 = signalled (put_stream st2 s1)" "pool s3 = pool (put_stream st2 s1)"
    "lhost s3 = lhost (put_stream st2 s1)"
    by (rule send_ackpkt_ok [OF room])
  let ?st = "st2\<lparr>s_sndbuf := Some r2\<rparr>"
  have n: "n - int (unat (drop_bit 4 (b tcp_data_off))) * 4 = int k"
    using assms(3) by (simp only: seg_hdrlen_def)
  have "st\<lparr>s_rcvbuf := Some r1, rcv_nxt := rcv_nxt (st\<lparr>s_rcvbuf := Some r1\<rparr>) + of_int (int k),
      snd_nxt := ntohl (rd32 b tcp_recv_ack)\<rparr> = st2"
    by (simp add: st2_def)
  then have h: "ng_tcp_handle_established st b n s = Inr (0, s3)"
    using assms(1,2) e1(1) e2(1) by (simp only: ng_tcp_handle_established_def Let_def bindE_simps if_True if_False
        case_prod_conv n)
  have "streams s3 = map (\<lambda>x. if s_addr x = s_addr st then ?st else x) (streams s)"
    using e2(5) e1(5) st2(1) by (simp add: streams_put o_def if_distrib cong: if_cong)
  then show thesis
    by (intro that [OF h, of ?st]) (use st2 e1 e2 in \<open>simp_all add: elems_def ack_of_def put_stream_def\<close>)
qed

section \<open>Reaching the handler\<close>

text \<open>A segment whose checksum holds, and the control block it is for.\<close>

definition valid_segment :: "buf \<Rightarrow> bool" where
  "valid_segment b \<longleftrightarrow> 18 \<le> l4_length b ip_hdr \<and> l4_ok b \<and> rd16 b tcp_cksum \<noteq> 0"

definition exact_stream :: "buf \<Rightarrow> stack \<Rightarrow> ng_tcp_stream option" where
  "exact_stream b s = find (\<lambda>x. s_sip x = rd32 b ip_src_addr \<and> s_dip x = rd32 b ip_dst_addr
     \<and> s_sport x = rd16 b tcp_src_port \<and> s_dport x = rd16 b tcp_dst_port) (streams s)"

definition listening_stream :: "buf \<Rightarrow> stack \<Rightarrow> ng_tcp_stream option" where
  "listening_stream b s = find (\<lambda>x. s_dport x = rd16 b tcp_dst_port \<and> s_status x = NG_TCP_STATUS_LISTEN) (streams s)"

text \<open>Clearing the checksum field changes no other field.\<close>

lemma clear_cksum_fields:
  fixes m defines "b \<equiv> wr16 tcp_cksum 0 m"
  shows "rd32 b ip_src_addr = rd32 m ip_src_addr" "rd32 b ip_dst_addr = rd32 m ip_dst_addr"
    "rd16 b tcp_src_port = rd16 m tcp_src_port" "rd16 b tcp_dst_port = rd16 m tcp_dst_port"
    "rd32 b tcp_sent_seq = rd32 m tcp_sent_seq" "rd32 b tcp_recv_ack = rd32 m tcp_recv_ack"
    "rd16 b ip_total_length = rd16 m ip_total_length" "b tcp_data_off = m tcp_data_off"
    "flag b f = flag m f" "synack_of b i = synack_of m i" "seg_hdrlen b = seg_hdrlen m" "ack_of b st = ack_of m st"
  by (simp_all add: b_def flag_def synack_of_def seg_hdrlen_def ack_of_def buf_simps)

lemma clear_cksum_data:
  "20 \<le> seg_hdrlen m \<Longrightarrow> seg_payload (wr16 tcp_cksum 0 m) n = seg_payload m n"
  "20 \<le> seg_hdrlen m \<Longrightarrow> data_of (wr16 tcp_cksum 0 m) n = data_of m n"
  by (simp_all add: seg_payload_def data_of_def clear_cksum_fields) (simp add: buf_simps)+

lemma process_valid:
  assumes "valid_segment (mdata m)" "tInst s = Some t"
  defines "b \<equiv> wr16 tcp_cksum 0 (mdata m)"
  shows "ng_tcp_process m s = (case (case exact_stream (mdata m) s of Some x \<Rightarrow> Some x | None \<Rightarrow> listening_stream (mdata m) s) of
      None \<Rightarrow> Inr (-2, rte_pktmbuf_free (m\<lparr>mdata := b\<rparr>) s)
    | Some st \<Rightarrow> bindE (ng_tcp_dispatch st b s) (\<lambda>_ s. Inr (0, rte_pktmbuf_free (m\<lparr>mdata := b\<rparr>) s)))"
proof -
  have "rte_ipv4_udptcp_cksum b ip_hdr l4_hdr = rd16 (mdata m) tcp_cksum"
    using assms(1) cksum_test_iff [of "mdata m"] by (simp add: valid_segment_def b_def)
  moreover have "tcpInstance s = Inr (t, s)" "streams s = tcb_set t"
    using assms(2) by (simp_all add: tcpInstance_def streams_def)
  ultimately show ?thesis
    by (simp add: ng_tcp_process_def Let_def b_def ng_tcp_stream_search_def exact_stream_def listening_stream_def
        clear_cksum_fields split: option.splits)
qed

section \<open>TCP frames\<close>

record tcp_frame =
  tf_sport :: u16
  tf_dport :: u16
  tf_seq :: u32
  tf_ack :: u32
  tf_hdrlen_off :: u8
  tf_flags :: u8
  tf_window :: u16
  tf_urp :: u16
  tf_payload :: "u8 list"

definition decode_tcp :: "buf \<Rightarrow> tcp_frame" where
  "decode_tcp m = \<lparr>tf_sport = rd16 m tcp_src_port, tf_dport = rd16 m tcp_dst_port,
     tf_seq = ntohl (rd32 m tcp_sent_seq), tf_ack = ntohl (rd32 m tcp_recv_ack),
     tf_hdrlen_off = m tcp_data_off, tf_flags = m tcp_tcp_flags, tf_window = ntohs (rd16 m tcp_rx_win),
     tf_urp = ntohs (rd16 m tcp_tcp_urp),
     tf_payload = rd_bytes m tcp_payload (unat (ntohs (rd16 m ip_total_length)) - 40)\<rparr>"

text \<open>The bytes a fragment asks to send.\<close>

definition frag_payload :: "ng_tcp_fragment \<Rightarrow> u8 list" where
  "frag_payload f = (case f_data f of None \<Rightarrow> [] | Some d \<Rightarrow> take (unat (f_length f)) d)"

definition frag_ok :: "ng_tcp_fragment \<Rightarrow> bool" where
  "frag_ok f \<longleftrightarrow> optlen f = 0 \<and> unat (f_length f) \<le> 1994
     \<and> (case f_data f of None \<Rightarrow> f_length f = 0 | Some d \<Rightarrow> unat (f_length f) \<le> List.length d)"

definition tcp_frame_of :: "ng_tcp_fragment \<Rightarrow> tcp_frame" where
  "tcp_frame_of f = \<lparr>tf_sport = f_sport f, tf_dport = f_dport f, tf_seq = seqnum f, tf_ack = acknum f,
     tf_hdrlen_off = hdrlen_off f, tf_flags = tcp_flags f, tf_window = windows f, tf_urp = tcp_urp f,
     tf_payload = frag_payload f\<rparr>"

text \<open>What a receiver reads: the code stores window and urgent pointer without converting them.\<close>

definition tcp_frame_sent :: "ng_tcp_fragment \<Rightarrow> tcp_frame" where
  "tcp_frame_sent f = (tcp_frame_of f)\<lparr>tf_window := ntohs (windows f), tf_urp := ntohs (tcp_urp f)\<rparr>"

lemma tcp_frame_sent_simps [simp]:
  "tf_sport (tcp_frame_sent f) = f_sport f" "tf_dport (tcp_frame_sent f) = f_dport f"
  "tf_seq (tcp_frame_sent f) = seqnum f" "tf_ack (tcp_frame_sent f) = acknum f"
  "tf_hdrlen_off (tcp_frame_sent f) = hdrlen_off f" "tf_flags (tcp_frame_sent f) = tcp_flags f"
  "tf_window (tcp_frame_sent f) = ntohs (windows f)" "tf_urp (tcp_frame_sent f) = ntohs (tcp_urp f)"
  "tf_payload (tcp_frame_sent f) = frag_payload f"
  by (simp_all add: tcp_frame_sent_def tcp_frame_of_def)

lemma length_frag_payload: "frag_ok f \<Longrightarrow> List.length (frag_payload f) = unat (f_length f)"
  by (auto simp: frag_ok_def frag_payload_def split: option.splits)

lemma tcp_total_len_eq:
  assumes "frag_ok f"
  shows "unat (tcp_total_len f) = unat (f_length f) + 54"
    and "unat (ucast (tcp_total_len f) - 14 :: u16) = unat (f_length f) + 40"
proof -
  show u: "unat (tcp_total_len f) = unat (f_length f) + 54"
    using assms by (simp add: tcp_total_len_def frag_ok_def unat_word_ariths)
  have "unat (ucast (tcp_total_len f) :: u16) = unat (f_length f) + 54"
    using u assms by (simp add: unsigned_ucast_eq take_bit_eq_mod frag_ok_def)
  then show "unat (ucast (tcp_total_len f) - 14 :: u16) = unat (f_length f) + 40"
    by (subst unat_sub_add_le) simp_all
qed

lemma ng_encode_tcp_spec:
  assumes "List.length srcmac = 6" "List.length dstmac = 6" "frag_ok f"
  obtains m where "ng_encode_tcp_apppkt msg sip dip srcmac dstmac f s = Inr (m, s)"
    "decode_ip m = \<lparr>if_dst = dstmac, if_src = srcmac, if_ether_type = RTE_ETHER_TYPE_IPV4,
         if_version_ihl = 0x45, if_total_length = ucast (tcp_total_len f) - 14, if_ttl = 64,
         if_proto = IPPROTO_TCP, if_sip = sip, if_dip = dip\<rparr>"
    "decode_tcp m = tcp_frame_sent f" "ip_header_ok m" "valid_segment m"
proof -
  note u = tcp_total_len_eq [OF assms(3)]
  let ?tl = "ucast (tcp_total_len f) :: u16" and ?d = "frag_payload f"
  let ?h = "encode_eth_ip srcmac dstmac ?tl IPPROTO_TCP sip dip msg"
  let ?m0 = "wr8 tcp_tcp_flags (tcp_flags f) (wr16 tcp_tcp_urp (tcp_urp f) (wr16 tcp_rx_win (windows f)
    (wr8 tcp_data_off (hdrlen_off f) (wr32 tcp_recv_ack (htonl (acknum f)) (wr32 tcp_sent_seq (htonl (seqnum f))
    (wr16 tcp_dst_port (f_dport f) (wr16 tcp_src_port (f_sport f) ?h)))))))"
  let ?m1 = "wr16 tcp_cksum 0 (wr_bytes tcp_payload ?d ?m0)"
  let ?m = "wr16 tcp_cksum (rte_ipv4_udptcp_cksum ?m1 ip_hdr l4_hdr) ?m1"
  have nil: "wr_bytes p [] b = b" for p b by (rule ext) (auto simp: wr_bytes_def)
  have e: "ng_encode_tcp_apppkt msg sip dip srcmac dstmac f s = Inr (?m, s)"
  proof (cases "f_data f")
    case None
    then show ?thesis by (simp add: ng_encode_tcp_apppkt_def Let_def frag_payload_def nil)
  next
    case (Some d)
    have "unat (f_length f) \<le> 1994" using assms(3) by (simp add: frag_ok_def)
    then have "uint (f_length f) \<le> 1994" unfolding uint_nat by linarith
    moreover have "heap_read d (unat (f_length f)) s = (?d, s)"
      using Some assms(3) by (simp add: heap_read_def frag_payload_def frag_ok_def)
    ultimately show ?thesis
      using Some assms(3) by (simp add: ng_encode_tcp_apppkt_def Let_def frag_ok_def RTE_MBUF_DEFAULT_DATAROOM_def)
  qed
  have sh: "same_headers ?m ?h" by simp
  have tl: "ntohs (rd16 ?h ip_total_length) = ?tl - 14" by (simp add: encode_eth_ip_length)
  have l4: "l4_length ?m1 ip_hdr = unat (f_length f) + 20" "l4_length ?m ip_hdr = unat (f_length f) + 20"
    using same_headers_reads(7) [of ?m1 ?h] same_headers_reads(7) [OF sh] tl u(2) by (simp_all add: l4_length_def)
  have st: "l4_sum (wr16 (l4_hdr + 16) (rte_ipv4_udptcp_cksum ?m1 ip_hdr l4_hdr) ?m1) ip_hdr l4_hdr mod 65535 = 0
      \<and> rte_ipv4_udptcp_cksum ?m1 ip_hdr l4_hdr \<noteq> 0"
    by (rule udptcp_cksum_stored) (simp_all add: l4 buf_simps)
  have ok: "valid_segment ?m"
    using st l4(2) by (simp add: valid_segment_def l4_ok_def buf_simps)
  have "rd16 ?m ip_total_length = rd16 ?h ip_total_length" by (rule same_headers_reads(3) [OF sh])
  then have n: "unat (ntohs (rd16 ?m ip_total_length)) - 40 = unat (f_length f)"
    using tl u(2) by simp
  have pay: "rd_bytes ?m tcp_payload (unat (f_length f)) = ?d"
    using length_frag_payload [OF assms(3)] by (simp add: buf_simps)
  have "decode_tcp ?m = tcp_frame_sent f"
    unfolding decode_tcp_def n pay by (simp add: tcp_frame_sent_def tcp_frame_of_def buf_simps)
  then show thesis
    using that [OF e] ok same_headers_reads(1,2) [OF sh] encode_eth_ip_reads [OF assms(1,2)] by simp
qed

section \<open>Sending a fragment\<close>

lemma ng_tcp_pkt_ok:
  assumes "List.length srcmac = 6" "List.length dstmac = 6" "frag_ok f" "pool s = mb # ms"
  obtains m where "ng_tcp_pkt sip dip srcmac dstmac f s = Inr (m, s\<lparr>pool := ms\<rparr>)"
    "decode_ip (mdata m) = \<lparr>if_dst = dstmac, if_src = srcmac, if_ether_type = RTE_ETHER_TYPE_IPV4,
         if_version_ihl = 0x45, if_total_length = ucast (tcp_total_len f) - 14, if_ttl = 64,
         if_proto = IPPROTO_TCP, if_sip = sip, if_dip = dip\<rparr>"
    "decode_tcp (mdata m) = tcp_frame_sent f" "ip_header_ok (mdata m)" "valid_segment (mdata m)"
    "unat (pkt_len m) = unat (f_length f) + 54"
proof -
  let ?s = "s\<lparr>pool := ms\<rparr>"
  obtain b where b: "ng_encode_tcp_apppkt (mdata mb) sip dip srcmac dstmac f ?s = Inr (b, ?s)"
    "decode_ip b = \<lparr>if_dst = dstmac, if_src = srcmac, if_ether_type = RTE_ETHER_TYPE_IPV4,
         if_version_ihl = 0x45, if_total_length = ucast (tcp_total_len f) - 14, if_ttl = 64,
         if_proto = IPPROTO_TCP, if_sip = sip, if_dip = dip\<rparr>"
    "decode_tcp b = tcp_frame_sent f" "ip_header_ok b" "valid_segment b"
    by (rule ng_encode_tcp_spec [OF assms(1-3)])
  let ?m = "mb\<lparr>pkt_len := tcp_total_len f, data_len := ucast (tcp_total_len f), mdata := b\<rparr>"
  have "ng_tcp_pkt sip dip srcmac dstmac f s = Inr (?m, ?s)"
    using b(1) assms(4) by (simp add: ng_tcp_pkt_def rte_pktmbuf_alloc_def Let_def)
  then show thesis by (rule that) (use b tcp_total_len_eq(1) [OF assms(3)] in simp_all)
qed

lemma tcp_out_one_known:
  assumes "s_sndbuf st = Some r" "ring_wf r" "ring_elems r = f # rest" "frag_ok f"
    and "arpt s = Some t" "arp_wf t" "arp_lookup s (s_sip st) = Some mac"
    and "List.length mac = 6" "List.length (s_localmac st) = 6" "pool s = mb # ms" "out_room 1 s"
  obtains s' r' m where "tcp_out_one st s = Inr (st\<lparr>s_sndbuf := Some r'\<rparr>, s')" "ring_elems r' = rest"
    "out_frames s' = out_frames s @ [m]" "if_dst (decode_ip (mdata m)) = mac"
    "if_sip (decode_ip (mdata m)) = s_dip st" "if_dip (decode_ip (mdata m)) = s_sip st"
    "decode_tcp (mdata m) = tcp_frame_sent f" "ip_header_ok (mdata m)" "valid_segment (mdata m)"
    "live s' = live s - (if f_data f = None then 1 else 2)"
proof -
  obtain r' where r': "ring_mc_dequeue (Some r) = Inr (0, Some f, r')" "ring_elems r' = rest"
    by (rule ring_mc_dequeue_some [OF assms(2,3)])
  have g: "ng_get_dst_macaddr (s_sip st) s = Inr (Some mac, s)"
    using ng_get_dst_macaddr_known [OF assms(5)] assms(5-7) by (simp add: arp_inv_def)
  obtain m where m: "ng_tcp_pkt (s_dip st) (s_sip st) (s_localmac st) mac f s = Inr (m, s\<lparr>pool := ms\<rparr>)"
    "decode_ip (mdata m) = \<lparr>if_dst = mac, if_src = s_localmac st, if_ether_type = RTE_ETHER_TYPE_IPV4,
         if_version_ihl = 0x45, if_total_length = ucast (tcp_total_len f) - 14, if_ttl = 64,
         if_proto = IPPROTO_TCP, if_sip = s_dip st, if_dip = s_sip st\<rparr>"
    "decode_tcp (mdata m) = tcp_frame_sent f" "ip_header_ok (mdata m)" "valid_segment (mdata m)"
    by (rule ng_tcp_pkt_ok [OF assms(9,8,4,10)])
  let ?s = "s\<lparr>pool := ms\<rparr>"
  have room: "out_room (Suc 0) ?s" using assms(11) by (simp add: out_room_def out_ring_def)
  obtain ri where ri: "ring_out_enqueue m ?s = Inr ((), ?s\<lparr>rInst := Some ri\<rparr>)"
    "out_frames (?s\<lparr>rInst := Some ri\<rparr>) = out_frames ?s @ [m]"
    by (rule ring_out_enqueue_ok [OF room])
  have "tcp_out_one st s = Inr (st\<lparr>s_sndbuf := Some r'\<rparr>, free_fragment f (?s\<lparr>rInst := Some ri\<rparr>))"
    using assms(1) r'(1) g m(1) ri(1) by (simp add: tcp_out_one_def ring_mc_dequeue_def)
  then show thesis
    by (rule that) (use r'(2) m(2-5) ri(2) in
      \<open>simp_all add: free_fragment_def rte_free_def out_frames_def out_ring_def split: option.splits\<close>)
qed

lemma tcp_out_one_unknown:
  assumes "s_sndbuf st = Some r" "ring_wf r" "ring_elems r = f # rest"
    and "arpt s = Some t" "arp_wf t" "arp_lookup s (s_sip st) = None"
    and "List.length (gSrcMac s) = 6" "pool s = mb # ms" "out_room 1 s"
  obtains s' r' m where "tcp_out_one st s = Inr (st\<lparr>s_sndbuf := Some r'\<rparr>, s')" "ring_elems r' = rest @ [f]"
    "out_frames s' = out_frames s @ [m]"
    "decode_arp (mdata m) = arp_request_of (gSrcMac s) (s_dip st) (s_sip st) None"
proof -
  obtain r' where r': "ring_mc_dequeue (Some r) = Inr (0, Some f, r')" "ring_wf r'" "ring_elems r' = rest"
    "ring_cap r' = ring_cap r"
    by (rule ring_mc_dequeue_some [OF assms(2,3)])
  have g: "ng_get_dst_macaddr (s_sip st) s = Inr (None, s)"
    using ng_get_dst_macaddr_known [OF assms(4)] assms(4-6) by (simp add: arp_inv_def)
  obtain m where m: "ng_send_arp RTE_ARP_OP_REQUEST gDefaultArpMac (s_dip st) (s_sip st) s = Inr (m, s\<lparr>pool := ms\<rparr>)"
    "decode_arp (mdata m) = arp_request_of (gSrcMac s) (s_dip st) (s_sip st) None"
    by (rule ng_send_arp_ok [OF assms(8,7) length_gDefaultArpMac]) (simp add: arp_request_of_def)
  let ?s = "s\<lparr>pool := ms\<rparr>"
  have room: "out_room (Suc 0) ?s" using assms(9) by (simp add: out_room_def out_ring_def)
  obtain ri where ri: "ring_out_enqueue m ?s = Inr ((), ?s\<lparr>rInst := Some ri\<rparr>)"
    "out_frames (?s\<lparr>rInst := Some ri\<rparr>) = out_frames ?s @ [m]"
    by (rule ring_out_enqueue_ok [OF room])
  obtain ret r'' where e: "rte_ring_mp_enqueue r' f = (ret, r'')" by fastforce
  have "List.length (ring_elems r') < ring_cap r'"
    using ring_used_le_cap [OF assms(2)] length_ring_elems [of r] assms(3) r'(3,4) by simp
  then have q: "ring_elems r'' = rest @ [f]" using mp_enqueue_law [OF r'(2) e] r'(3) by simp
  have "tcp_out_one st s = Inr (st\<lparr>s_sndbuf := Some r''\<rparr>, ?s\<lparr>rInst := Some ri\<rparr>)"
    using assms(1) r'(1) g m(1) ri(1) e by (simp add: tcp_out_one_def ring_mc_dequeue_def)
  then show thesis
    by (rule that) (use q m(2) ri(2) in \<open>simp_all add: out_frames_def out_ring_def\<close>)
qed

section \<open>Colliding names\<close>

lemma stream_create_taken:
  assumes "name_taken si sp s" "malloc_ok s = (\<lambda>_ _. True)"
  obtains st s' where "ng_tcp_stream_create si di sp dp s = (Some st, s')" "s_sndbuf st = None"
    "malloc_ok s' = (\<lambda>_ _. True)"
proof -
  obtain a s1 where m: "rte_malloc sizeof_ng_tcp_stream s = (Some a, s1)"
    using rte_malloc_total [of s sizeof_ng_tcp_stream] assms(2) by auto
  have "memzone_lookup (RTE_RING_MZ_PREFIX @ ring_name ''sndbuf'' si sp) s1 \<noteq> None"
    using assms(1) rte_malloc_zones(1) [OF m] by (simp add: name_taken_def memzone_lookup_def)
  then have "fst (rte_ring_create zero_fragment (ring_name ''sndbuf'' si sp) RING_SIZE 0 s1) = None"
    by (rule rte_ring_create_taken)
  then obtain s2 where c1: "rte_ring_create zero_fragment (ring_name ''sndbuf'' si sp) RING_SIZE 0 s1 = (None, s2)"
    by (metis prod.collapse)
  obtain r2 s3 where c2: "rte_ring_create zero_fragment (ring_name ''rcvbuf'' si sp) RING_SIZE 0 s2 = (r2, s3)"
    by fastforce
  have "eal_frame s s3"
    using rte_malloc_frame [OF m] rte_ring_create_frame [OF c1] rte_ring_create_frame [OF c2] eal_frame_trans by blast
  then have f: "malloc_ok s3 = malloc_ok s" by (rule eal_frame_fields(15))
  have "ng_tcp_stream_create si di sp dp s = (Some \<lparr>s_addr = a, s_fd = -1, s_dip = di, s_localmac = gSrcMac s3,
      s_dport = dp, s_protocol = IPPROTO_TCP, s_sport = sp, s_sip = si,
      snd_nxt = rand_seq s3 a mod TCP_MAX_SEQ, rcv_nxt = junk_rcv_nxt s3,
      s_status = NG_TCP_STATUS_LISTEN, s_sndbuf = None, s_rcvbuf = r2\<rparr>, s3)"
    using m c1 c2 by (simp add: ng_tcp_stream_create_def)
  then show thesis by (rule that) (use f assms(2) in simp_all)
qed

section \<open>The end of the stream\<close>

definition eof_of :: "buf \<Rightarrow> ng_tcp_fragment" where
  "eof_of b = zero_fragment\<lparr>f_dport := ntohs (rd16 b tcp_dst_port), f_sport := ntohs (rd16 b tcp_src_port),
     f_length := 0, f_data := None\<rparr>"

lemma enqueue_recvbuffer_eof:
  assumes "n \<le> int (seg_hdrlen b)" "has_room (s_rcvbuf st)" "malloc_ok s = (\<lambda>_ _. True)"
  obtains s' r where "ng_tcp_enqueue_recvbuffer st b n s = Inr ((0, st\<lparr>s_rcvbuf := Some r\<rparr>), s')"
    "ring_elems r = elems (s_rcvbuf st) @ [eof_of b]" "malloc_ok s' = malloc_ok s"
    "streams s' = map (\<lambda>x. if s_addr x = s_addr st then st\<lparr>s_rcvbuf := Some r\<rparr> else x) (streams s)"
    "signalled s' = signalled s @ [s_addr st]" "pool s' = pool s"
proof -
  obtain a1 s1 where m1: "rte_malloc sizeof_ng_tcp_fragment s = (Some a1, s1)"
    using rte_malloc_total [of s sizeof_ng_tcp_fragment] assms(3) by auto
  note f1 = rte_malloc_fields [OF m1]
  obtain ret r where r: "ring_mp_enqueue (s_rcvbuf st) (eof_of b) = Inr (ret, r)" "ring_wf r"
    "ring_elems r = elems (s_rcvbuf st) @ [eof_of b]"
    by (rule room_enqueue [OF assms(2)])
  let ?st = "st\<lparr>s_rcvbuf := Some r\<rparr>"
  have "\<not> n - int (unat (drop_bit 4 (b tcp_data_off))) * 4 > 0"
    using assms(1) by (simp add: seg_hdrlen_def)
  then have e: "ng_tcp_enqueue_recvbuffer st b n s = Inr ((0, ?st), (put_stream ?st s1)
      \<lparr>signalled := signalled (put_stream ?st s1) @ [s_addr st]\<rparr>)"
    using m1 r(1) by (simp add: ng_tcp_enqueue_recvbuffer_def Let_def eof_of_def)
  have "streams (s\<lparr>signalled := x\<rparr>) = streams s" for s and x by (rule streams_cong) simp
  moreover have "streams s1 = streams s" by (rule streams_cong) (use f1 in simp)
  ultimately show thesis
    by (intro that [OF e r(3)]) (use f1 in \<open>simp_all add: streams_put, simp_all add: put_stream_def\<close>)
qed

lemma handle_established_fin:
  assumes "\<not> flag b RTE_TCP_PSH_FLAG" "flag b RTE_TCP_FIN_FLAG"
    and "has_room (s_rcvbuf st)" "has_room (s_sndbuf st)" "malloc_ok s = (\<lambda>_ _. True)"
  obtains s' st' where "ng_tcp_handle_established st b n s = Inr (0, s')"
    "streams s' = map (\<lambda>x. if s_addr x = s_addr st then st' else x) (streams s)"
    "rcv_nxt st' = rcv_nxt st + 1" "s_status st' = NG_TCP_STATUS_CLOSE_WAIT" "s_addr st' = s_addr st"
    "elems (s_rcvbuf st') = elems (s_rcvbuf st) @ [eof_of b]"
    "elems (s_sndbuf st') = elems (s_sndbuf st) @ [ack_of b st']"
    "signalled s' = signalled s @ [s_addr st]" "pool s' = pool s"
proof -
  let ?st1 = "st\<lparr>s_status := NG_TCP_STATUS_CLOSE_WAIT\<rparr>" and ?s1 = "put_stream (st\<lparr>s_status := NG_TCP_STATUS_CLOSE_WAIT\<rparr>) s"
  let ?n = "uint (drop_bit 4 (b tcp_data_off))"
  have n: "?n \<le> int (seg_hdrlen b)" by (simp add: seg_hdrlen_def)
  have room: "has_room (s_rcvbuf ?st1)" "malloc_ok ?s1 = (\<lambda>_ _. True)"
    using assms(3,5) by (simp_all add: put_stream_def)
  obtain s2 r1 where e1: "ng_tcp_enqueue_recvbuffer ?st1 b ?n ?s1 = Inr ((0, ?st1\<lparr>s_rcvbuf := Some r1\<rparr>), s2)"
    "ring_elems r1 = elems (s_rcvbuf ?st1) @ [eof_of b]" "malloc_ok s2 = malloc_ok ?s1"
    "streams s2 = map (\<lambda>x. if s_addr x = s_addr ?st1 then ?st1\<lparr>s_rcvbuf := Some r1\<rparr> else x) (streams ?s1)"
    "signalled s2 = signalled ?s1 @ [s_addr ?st1]" "pool s2 = pool ?s1"
    by (rule enqueue_recvbuffer_eof [OF n room])
  define st2 where "st2 = ?st1\<lparr>s_rcvbuf := Some r1, rcv_nxt := rcv_nxt (?st1\<lparr>s_rcvbuf := Some r1\<rparr>) + 1,
      snd_nxt := ntohl (rd32 b tcp_recv_ack)\<rparr>"
  have st2: "s_addr st2 = s_addr st" "rcv_nxt st2 = rcv_nxt st + 1" "s_status st2 = NG_TCP_STATUS_CLOSE_WAIT"
    "s_sndbuf st2 = s_sndbuf st" "s_rcvbuf st2 = Some r1"
    by (simp_all add: st2_def)
  have room2: "has_room (s_sndbuf st2)" "malloc_ok (put_stream st2 s2) = (\<lambda>_ _. True)"
    using assms(4,5) e1(3) st2 by (simp_all add: put_stream_def)
  obtain s3 r2 where e2: "ng_tcp_send_ackpkt st2 b (put_stream st2 s2) = Inr ((0, st2\<lparr>s_sndbuf := Some r2\<rparr>), s3)"
    "ring_wf r2" "ring_elems r2 = elems (s_sndbuf st2) @ [ack_of b st2]"
    "malloc_ok s3 = malloc_ok (put_stream st2 s2)"
    "streams s3 = map (\<lambda>x. if s_addr x = s_addr st2 then st2\<lparr>s_sndbuf := Some r2\<rparr> else x) (streams (put_stream st2 s2))"
    "signalled s3 = signalled (put_stream st2 s2)" "pool s3 = pool (put_stream st2 s2)"
    "lhost s3 = lhost (put_stream st2 s2)"
    by (rule send_ackpkt_ok [OF room2])
  have h: "ng_tcp_handle_established st b n s = Inr (0, s3)"
    using assms(1,2) e1(1) e2(1) by (simp only: ng_tcp_handle_established_def Let_def bindE_simps if_True if_False
        case_prod_conv st2_def)
  have "streams s3 = map (\<lambda>x. if s_addr x = s_addr st then st2\<lparr>s_sndbuf := Some r2\<rparr> else x) (streams s)"
    using e2(5) e1(4) st2(1) by (simp add: streams_put o_def if_distrib cong: if_cong)
  then show thesis
    by (intro that [OF h, of "st2\<lparr>s_sndbuf := Some r2\<rparr>"])
      (use st2 e1 e2 in \<open>simp_all add: elems_def ack_of_def put_stream_def\<close>)
qed

end
