(* ===== verification/Tcp_Claims.thy ===== *)
theory Tcp_Claims
  imports Tcp_Props
begin

text \<open>
  The properties of the TCP side, each applied to a concrete listening stack.
\<close>

section \<open>A run of segments\<close>

fun tcp_run :: "mbuf list \<Rightarrow> stack \<Rightarrow> (unit, stack) res" where
  "tcp_run [] s = Inr ((), s)"
| "tcp_run (m # ms) s = bindE (ng_tcp_process m s) (\<lambda>_ s. tcp_run ms s)"

text \<open>The states a server goes through; \<open>ng_tcp_dispatch\<close> ignores segments in the others.\<close>

definition server_states :: "NG_TCP_STATUS set" where
  "server_states = {NG_TCP_STATUS_LISTEN, NG_TCP_STATUS_SYN_RCVD, NG_TCP_STATUS_ESTABLISHED,
     NG_TCP_STATUS_CLOSE_WAIT, NG_TCP_STATUS_LAST_ACK}"

lemma tcb_step_server:
  "tcb_step l l' \<Longrightarrow> snd ` set l \<subseteq> server_states \<Longrightarrow> snd ` set l' \<subseteq> server_states"
  by (erule tcb_stepE) (auto simp: server_states_def set_status_def drop_tcb_def image_iff split: if_splits)

lemma tcb_steps_server:
  "tcb_step\<^sup>*\<^sup>* l l' \<Longrightarrow> snd ` set l \<subseteq> server_states \<Longrightarrow> snd ` set l' \<subseteq> server_states"
  by (induction rule: rtranclp_induct) (auto dest: tcb_step_server)

lemma tcp_run_steps:
  "tcp_run ms s = Inr ((), s') \<Longrightarrow> tcb_wf s \<Longrightarrow>
    tcb_step\<^sup>*\<^sup>* (statuses s) (statuses s') \<and> tcb_wf s' \<and> map m_id (pool s') = rev (map m_id ms) @ map m_id (pool s)"
proof (induction ms arbitrary: s)
  case Nil
  then show ?case by simp
next
  case (Cons m ms)
  then obtain r s1 where p: "ng_tcp_process m s = Inr (r, s1)" and q: "tcp_run ms s1 = Inr ((), s')" by auto
  from process_step [OF p Cons.prems(2)] Cons.IH [OF q] show ?case
    by (auto intro: converse_rtranclp_into_rtranclp)
qed

section \<open>A listening stack\<close>

definition demo_tcb :: "nat \<Rightarrow> NG_TCP_STATUS \<Rightarrow> u32 \<Rightarrow> u16 \<Rightarrow> ng_tcp_stream" where
  "demo_tcb a t si sp = \<lparr>s_addr = a, s_fd = -1, s_dip = 5, s_localmac = [2, 0, 0, 0, 0, 1], s_dport = 80,
     s_protocol = IPPROTO_TCP, s_sport = sp, s_sip = si, snd_nxt = 100, rcv_nxt = 200, s_status = t,
     s_sndbuf = Some (demo_ring zero_fragment), s_rcvbuf = Some (demo_ring zero_fragment)\<rparr>"

definition demo_tcp :: "ng_tcp_stream list \<Rightarrow> stack" where
  "demo_tcp l = demo_stack\<lparr>tInst := Some \<lparr>tcb_count = 0, tcb_set = l\<rparr>\<rparr>"

lemma demo_tcp_facts [simp]:
  "tInst (demo_tcp l) = Some \<lparr>tcb_count = 0, tcb_set = l\<rparr>" "streams (demo_tcp l) = l"
  "malloc_ok (demo_tcp l) = (\<lambda>_ _. True)" "memzones (demo_tcp l) = []" "mz_max (demo_tcp l) = 2560"
  "mallocs (demo_tcp l) = 10" "signalled (demo_tcp l) = []" "pool (demo_tcp l) = demo_pool"
  by (simp_all add: demo_tcp_def streams_def)

definition demo_frag :: "u8 \<Rightarrow> u8 list \<Rightarrow> ng_tcp_fragment" where
  "demo_frag flags d = zero_fragment\<lparr>f_sport := 9999, f_dport := 80, seqnum := 41, acknum := 7, hdrlen_off := 0x50,
     tcp_flags := flags, f_data := Some d, f_length := of_nat (List.length d)\<rparr>"

definition demo_seg_from :: "u32 \<Rightarrow> u16 \<Rightarrow> u8 \<Rightarrow> u8 list \<Rightarrow> mbuf" where
  "demo_seg_from si sp flags d = (demo_mbuf 8)\<lparr>mdata := (case ng_encode_tcp_apppkt (\<lambda>_. 0) si 5 [6, 5, 4, 3, 2, 1]
     [2, 0, 0, 0, 0, 1] ((demo_frag flags d)\<lparr>f_sport := sp\<rparr>) demo_stack of Inr (b, _) \<Rightarrow> b | Inl _ \<Rightarrow> (\<lambda>_. 0))\<rparr>"

lemma demo_seg_from_facts:
  fixes d flags si sp defines "b \<equiv> mdata (demo_seg_from si sp flags d)"
  assumes "List.length d \<le> 100"
  shows "valid_segment b" "rd32 b ip_src_addr = si" "rd32 b ip_dst_addr = 5" "rd16 b tcp_src_port = sp"
    "rd16 b tcp_dst_port = 80" "rd32 b tcp_sent_seq = htonl 41" "b tcp_tcp_flags = flags"
    "b tcp_data_off = 0x50" "unat (ntohs (rd16 b ip_total_length)) = List.length d + 40"
    "rd_bytes b tcp_payload (List.length d) = d"
proof -
  let ?f = "(demo_frag flags d)\<lparr>f_sport := sp\<rparr>"
  have u: "unat (of_nat (List.length d) :: u32) = List.length d"
    by (rule unat_of_nat_small) (use assms(2) in simp)
  then have f: "frag_ok ?f"
    using assms(2) by (simp add: frag_ok_def demo_frag_def zero_fragment_def)
  obtain m where m: "ng_encode_tcp_apppkt (\<lambda>_. 0) si 5 [6, 5, 4, 3, 2, 1] [2, 0, 0, 0, 0, 1]
      ?f demo_stack = Inr (m, demo_stack)"
    "decode_ip m = \<lparr>if_dst = [2, 0, 0, 0, 0, 1], if_src = [6, 5, 4, 3, 2, 1], if_ether_type = RTE_ETHER_TYPE_IPV4,
         if_version_ihl = 0x45, if_total_length = ucast (tcp_total_len ?f) - 14, if_ttl = 64,
         if_proto = IPPROTO_TCP, if_sip = si, if_dip = 5\<rparr>"
    "decode_tcp m = tcp_frame_sent ?f" "valid_segment m"
    using ng_encode_tcp_spec [OF _ _ f, of "[6, 5, 4, 3, 2, 1]" "[2, 0, 0, 0, 0, 1]" "\<lambda>_. 0" si 5 demo_stack] by auto
  have b: "b = m" by (simp add: b_def demo_seg_from_def m(1))
  have len: "unat (ntohs (rd16 m ip_total_length)) = List.length d + 40"
    using arg_cong [OF m(2), of if_total_length] tcp_total_len_eq(2) [OF f] u
    by (simp add: decode_ip_def demo_frag_def)
  show "valid_segment b" "rd32 b ip_src_addr = si" "rd32 b ip_dst_addr = 5" "rd16 b tcp_src_port = sp"
    "rd16 b tcp_dst_port = 80" "b tcp_tcp_flags = flags" "b tcp_data_off = 0x50"
    using m b by (simp_all add: decode_ip_def decode_tcp_def tcp_frame_sent_def tcp_frame_of_def demo_frag_def)
  show "rd32 b tcp_sent_seq = htonl 41"
    using arg_cong [OF m(3), of "htonl \<circ> tf_seq"] b by (simp add: decode_tcp_def tcp_frame_sent_def tcp_frame_of_def demo_frag_def)
  show "unat (ntohs (rd16 b ip_total_length)) = List.length d + 40" by (simp add: b len)
  show "rd_bytes b tcp_payload (List.length d) = d"
    using arg_cong [OF m(3), of tf_payload] len b
    by (simp add: decode_tcp_def tcp_frame_sent_def tcp_frame_of_def demo_frag_def frag_payload_def u)
qed

definition demo_seg :: "u8 \<Rightarrow> u8 list \<Rightarrow> mbuf" where
  "demo_seg = demo_seg_from 9 9999"

lemmas demo_seg_facts = demo_seg_from_facts [of _ 9 9999, folded demo_seg_def]

section \<open>The handshake\<close>

lemma process_syn:
  fixes m s
  defines "b \<equiv> mdata m"
  assumes "valid_segment b" "exact_stream b s = None" "listening_stream b s = Some l" "flag b RTE_TCP_SYN_FLAG"
    and "tcb_wf s" "tInst s = Some t" "malloc_ok s = (\<lambda>_ _. True)"
    and "buf_names_free (rd32 b ip_src_addr) (rd16 b tcp_src_port) s" "List.length (memzones s) + 1 < mz_max s"
  shows "\<exists>s' syn r. ng_tcp_process m s = Inr (0, s') \<and> streams s' = syn # streams s
    \<and> s_status syn = NG_TCP_STATUS_SYN_RCVD \<and> s_fd syn = -1
    \<and> s_sip syn = rd32 b ip_src_addr \<and> s_dip syn = rd32 b ip_dst_addr
    \<and> s_sport syn = rd16 b tcp_src_port \<and> s_dport syn = rd16 b tcp_dst_port
    \<and> rcv_nxt syn = ntohl (rd32 b tcp_sent_seq) + 1
    \<and> s_sndbuf syn = Some r \<and> ring_elems r = [synack_of b (rand_seq s (mallocs s) mod TCP_MAX_SEQ)]
    \<and> fresh_buf (s_rcvbuf syn) \<and> s_addr syn = mallocs s \<and> signalled s' = signalled s
    \<and> malloc_ok s' = (\<lambda>_ _. True)
    \<and> name_taken (rd32 b ip_src_addr) (rd16 b tcp_src_port) s'"
proof -
  let ?c = "wr16 tcp_cksum 0 b"
  have l: "s_status l = NG_TCP_STATUS_LISTEN"
    using assms(4) by (auto simp: listening_stream_def dest: find_Some_iff2)
  obtain s1 syn r where h: "ng_tcp_handle_listen l ?c s = Inr (0, s1)" "streams s1 = syn # streams s"
    "s_status syn = NG_TCP_STATUS_SYN_RCVD" "s_fd syn = -1" "s_addr syn = mallocs s"
    "s_sip syn = rd32 ?c ip_src_addr" "s_dip syn = rd32 ?c ip_dst_addr"
    "s_sport syn = rd16 ?c tcp_src_port" "s_dport syn = rd16 ?c tcp_dst_port"
    "rcv_nxt syn = ntohl (rd32 ?c tcp_sent_seq) + 1" "s_sndbuf syn = Some r" "ring_wf r"
    "ring_elems r = [synack_of ?c (snd_nxt syn)]" "fresh_buf (s_rcvbuf syn)"
    "snd_nxt syn = rand_seq s (mallocs s) mod TCP_MAX_SEQ" "pool s1 = pool s" "signalled s1 = signalled s"
    "malloc_ok s1 = (\<lambda>_ _. True)"
    "name_taken (rd32 ?c ip_src_addr) (rd16 ?c tcp_src_port) s1"
    by (rule handle_listen_syn [of ?c l s t]) (use assms l in \<open>simp_all add: clear_cksum_fields\<close>)
  have "ng_tcp_process m s = Inr (0, rte_pktmbuf_free (m\<lparr>mdata := ?c\<rparr>) s1)"
    unfolding process_valid [OF assms(2) [unfolded b_def] assms(7)]
    using assms(3,4) l h(1) by (simp add: b_def ng_tcp_dispatch_def)
  moreover have "streams (rte_pktmbuf_free (m\<lparr>mdata := ?c\<rparr>) s1) = streams s1" by (rule streams_cong) simp
  moreover have "name_taken si sp (rte_pktmbuf_free (m\<lparr>mdata := ?c\<rparr>) s1) = name_taken si sp s1" for si sp
    by (simp add: name_taken_def memzone_lookup_def rte_pktmbuf_free_def)
  moreover have "malloc_ok (rte_pktmbuf_free (m\<lparr>mdata := ?c\<rparr>) s1) = malloc_ok s1"
    by (simp add: rte_pktmbuf_free_def)
  ultimately show ?thesis using h by (auto simp: clear_cksum_fields)
qed

lemma process_ack:
  fixes m s
  defines "b \<equiv> mdata m"
  assumes "valid_segment b" "exact_stream b s = Some st" "s_status st = NG_TCP_STATUS_SYN_RCVD" "flag b RTE_TCP_ACK_FLAG"
    and "\<forall>x\<in>set (streams s). s_sip x \<noteq> 0 \<or> s_dip x \<noteq> 0 \<or> s_sport x \<noteq> 0"
    and "find (\<lambda>x. s_dport x = s_dport st \<and> s_status x = NG_TCP_STATUS_LISTEN) (streams s) = Some l"
    and "s_addr l \<noteq> s_addr st" "tcb_wf s"
  shows "\<exists>s'. ng_tcp_process m s = Inr (0, s')
    \<and> streams s' = map (\<lambda>x. if s_addr x = s_addr st then st\<lparr>s_status := NG_TCP_STATUS_ESTABLISHED\<rparr> else x) (streams s)
    \<and> signalled s' = signalled s @ [s_addr l]"
proof -
  let ?c = "wr16 tcp_cksum 0 b" and ?st = "st\<lparr>s_status := NG_TCP_STATUS_ESTABLISHED\<rparr>"
  let ?s1 = "put_stream ?st s"
  have st: "st \<in> set (streams s)" using assms(3) by (auto simp: exact_stream_def dest: find_Some_iff2)
  then obtain t where t: "tInst s = Some t" by (cases "tInst s") (auto simp: streams_def)
  then obtain t1 where t1: "tInst ?s1 = Some t1" "tcb_set t1 = streams ?s1"
    by (auto simp: put_stream_def streams_def)
  have same: "x = st" if "x \<in> set (streams s)" "s_addr x = s_addr st" for x
    using that st assms(9) by (auto simp: tcb_wf_def statuses_def o_def distinct_map dest: inj_onD)
  have none: "find (\<lambda>x. s_sip x = 0 \<and> s_dip x = 0 \<and> s_sport x = 0 \<and> s_dport x = s_dport st) (streams ?s1) = None"
    using assms(6) st by (auto simp: find_None_iff streams_put)
  have "find (\<lambda>x. s_dport x = s_dport st \<and> s_status x = NG_TCP_STATUS_LISTEN)
      (map (\<lambda>x. if s_addr x = s_addr st then ?st else x) xs) = Some l"
    if "find (\<lambda>x. s_dport x = s_dport st \<and> s_status x = NG_TCP_STATUS_LISTEN) xs = Some l" "set xs \<subseteq> set (streams s)" for xs
    using that
  proof (induction xs)
    case (Cons x xs)
    show ?case
      using Cons same [of x] assms(4,8) by (auto split: if_splits)
  qed simp
  then have some: "find (\<lambda>x. s_dport x = s_dport st \<and> s_status x = NG_TCP_STATUS_LISTEN) (streams ?s1) = Some l"
    using assms(7) by (simp add: streams_put)
  have "ng_tcp_stream_search 0 0 0 (s_dport st) ?s1 = Inr (Some l, ?s1)"
    using t1 none some by (simp add: ng_tcp_stream_search_def tcpInstance_def)
  then have "ng_tcp_handle_syn_rcvd st ?c s = Inr (0, ?s1\<lparr>signalled := signalled s @ [s_addr l]\<rparr>)"
    using assms(4,5) by (simp add: ng_tcp_handle_syn_rcvd_def clear_cksum_fields)
  then have "ng_tcp_process m s = Inr (0, rte_pktmbuf_free (m\<lparr>mdata := ?c\<rparr>) (?s1\<lparr>signalled := signalled s @ [s_addr l]\<rparr>))"
    unfolding process_valid [OF assms(2) [unfolded b_def] t]
    using assms(3,4) by (simp add: b_def ng_tcp_dispatch_def)
  moreover have "streams (rte_pktmbuf_free (m\<lparr>mdata := ?c\<rparr>) (?s1\<lparr>signalled := signalled s @ [s_addr l]\<rparr>)) = streams ?s1"
    by (rule streams_cong) simp
  ultimately show ?thesis by (simp add: streams_put)
qed

section \<open>Data\<close>

lemma process_data:
  fixes m s
  defines "b \<equiv> mdata m"
  assumes "valid_segment b" "exact_stream b s = Some st" "s_status st = NG_TCP_STATUS_ESTABLISHED"
    and "flag b RTE_TCP_PSH_FLAG" "\<not> flag b RTE_TCP_FIN_FLAG" "20 \<le> seg_hdrlen b" "0 < k"
    and "unat (ntohs (rd16 b ip_total_length)) = 20 + seg_hdrlen b + k"
    and "has_room (s_rcvbuf st)" "has_room (s_sndbuf st)" "malloc_ok s = (\<lambda>_ _. True)"
  shows "\<exists>s' st'. ng_tcp_process m s = Inr (0, s')
    \<and> streams s' = map (\<lambda>x. if s_addr x = s_addr st then st' else x) (streams s)
    \<and> rcv_nxt st' = rcv_nxt st + of_nat k \<and> s_status st' = NG_TCP_STATUS_ESTABLISHED
    \<and> elems (s_rcvbuf st') = elems (s_rcvbuf st) @ [data_of b k]
    \<and> elems (s_sndbuf st') = elems (s_sndbuf st) @ [ack_of b st']
    \<and> signalled s' = signalled s @ [s_addr st] \<and> lhost s' = lhost s \<and> s_addr st' = s_addr st
    \<and> s_fd st' = s_fd st \<and> s_protocol st' = s_protocol st \<and> (\<forall>r. s_rcvbuf st' = Some r \<longrightarrow> ring_wf r)"
proof -
  let ?c = "wr16 tcp_cksum 0 b"
  have "streams s \<noteq> []" using assms(3) by (auto simp: exact_stream_def)
  then obtain t where t: "tInst s = Some t" by (cases "tInst s") (auto simp: streams_def)
  have g: "flag ?c RTE_TCP_PSH_FLAG" "\<not> flag ?c RTE_TCP_FIN_FLAG"
    using assms(5,6) by (simp_all add: clear_cksum_fields)
  have n: "uint (ntohs (rd16 ?c ip_total_length)) - 20 = int (seg_hdrlen ?c) + int k"
    using assms(9) unfolding uint_nat clear_cksum_fields by simp
  obtain s1 st' where h: "ng_tcp_handle_established st ?c (uint (ntohs (rd16 ?c ip_total_length)) - 20) s = Inr (0, s1)"
    "streams s1 = map (\<lambda>x. if s_addr x = s_addr st then st' else x) (streams s)"
    "rcv_nxt st' = rcv_nxt st + of_nat k" "snd_nxt st' = ntohl (rd32 ?c tcp_recv_ack)"
    "s_status st' = s_status st" "s_addr st' = s_addr st"
    "elems (s_rcvbuf st') = elems (s_rcvbuf st) @ [data_of ?c k]"
    "elems (s_sndbuf st') = elems (s_sndbuf st) @ [ack_of ?c st']"
    "signalled s1 = signalled s @ [s_addr st]" "pool s1 = pool s" "lhost s1 = lhost s"
    "s_fd st' = s_fd st" "s_protocol st' = s_protocol st" "\<forall>r. s_rcvbuf st' = Some r \<longrightarrow> ring_wf r"
    by (rule handle_established_data [OF g n assms(8,10-12)])
  have "ng_tcp_process m s = Inr (0, rte_pktmbuf_free (m\<lparr>mdata := ?c\<rparr>) s1)"
    unfolding process_valid [OF assms(2) [unfolded b_def] t]
    using assms(3,4) h(1) by (simp add: b_def ng_tcp_dispatch_def)
  moreover have "streams (rte_pktmbuf_free (m\<lparr>mdata := ?c\<rparr>) s1) = streams s1" by (rule streams_cong) simp
  ultimately show ?thesis using h assms(4,7) by (auto simp: clear_cksum_fields clear_cksum_data)
qed

section \<open>Properties\<close>

text \<open>C2. Receiving a segment, whatever it holds, makes at most one move of the TCP state machine on
  the table of control blocks (a SYN on a listening block adds a block; SYN_RCVD to ESTABLISHED;
  ESTABLISHED to CLOSE_WAIT; LAST_ACK to removed), keeps the addresses of the blocks distinct, and
  gives exactly the segment's packet buffer back.\<close>

theorem tcp_process_refines:
  assumes "ng_tcp_process m s = Inr (r, s')" "tcb_wf s"
  shows "tcb_step (statuses s) (statuses s') \<and> tcb_wf s'
    \<and> pool s' = m\<lparr>mdata := wr16 tcp_cksum 0 (mdata m)\<rparr> # pool s"
  using assms by (rule process_step)

lemma demo_listen_wf: "tcb_wf (demo_tcp [demo_tcb 5 NG_TCP_STATUS_LISTEN 0 0])"
  by (simp add: tcb_wf_def statuses_def demo_tcb_def)

lemma demo_flag: "List.length d \<le> 100 \<Longrightarrow> flag (mdata (demo_seg fl d)) f \<longleftrightarrow> fl AND f \<noteq> 0"
  by (simp add: flag_def demo_seg_facts)

lemma demo_stream:
  assumes "List.length d \<le> 100"
  shows "exact_stream (mdata (demo_seg fl d)) (demo_tcp l) = find (\<lambda>x. s_sip x = 9 \<and> s_dip x = 5
      \<and> s_sport x = 9999 \<and> s_dport x = 80) l"
    "listening_stream (mdata (demo_seg fl d)) (demo_tcp l) = find (\<lambda>x. s_dport x = 80 \<and> s_status x = NG_TCP_STATUS_LISTEN) l"
  by (simp_all add: exact_stream_def listening_stream_def demo_seg_facts [OF assms])

lemma tcp_process_refines_witness:
  "\<exists>s'. ng_tcp_process (demo_seg 0x10 []) (demo_tcp [demo_tcb 5 NG_TCP_STATUS_LISTEN 0 0]) = Inr (0, s') \<and> tcb_wf s'"
proof -
  let ?s = "demo_tcp [demo_tcb 5 NG_TCP_STATUS_LISTEN 0 0]"
  have v: "valid_segment (mdata (demo_seg 0x10 []))" by (rule demo_seg_facts) simp
  have e: "ng_tcp_process (demo_seg 0x10 []) ?s = Inr (0, rte_pktmbuf_free ((demo_seg 0x10 [])
      \<lparr>mdata := wr16 tcp_cksum 0 (mdata (demo_seg 0x10 []))\<rparr>) ?s)"
    unfolding process_valid [OF v demo_tcp_facts(1)]
    by (simp add: demo_stream demo_tcb_def ng_tcp_dispatch_def ng_tcp_handle_listen_def clear_cksum_fields demo_flag
        RTE_TCP_SYN_FLAG_def)
  from tcp_process_refines [OF e demo_listen_wf] e show ?thesis by blast
qed

text \<open>C22. Over any sequence of received segments the table evolves by steps of that machine only, so a
  server never reaches a client state (SYN_SENT, FIN_WAIT, CLOSING, TIME_WAIT) nor CLOSED, and
  all packet buffers come back, each once.\<close>

theorem tcp_run_server_states:
  assumes "tcp_run ms s = Inr ((), s')" "tcb_wf s" "snd ` set (statuses s) \<subseteq> server_states"
  shows "tcb_step\<^sup>*\<^sup>* (statuses s) (statuses s') \<and> snd ` set (statuses s') \<subseteq> server_states \<and> tcb_wf s'
    \<and> map m_id (pool s') = rev (map m_id ms) @ map m_id (pool s)"
  using tcp_run_steps [OF assms(1,2)] tcb_steps_server [OF _ assms(3)] by blast

lemma tcp_run_server_states_witness:
  "\<exists>s'. tcp_run [demo_seg 0x10 []] (demo_tcp [demo_tcb 5 NG_TCP_STATUS_LISTEN 0 0]) = Inr ((), s')
    \<and> snd ` set (statuses s') \<subseteq> server_states"
proof -
  let ?s = "demo_tcp [demo_tcb 5 NG_TCP_STATUS_LISTEN 0 0]"
  have v: "valid_segment (mdata (demo_seg 0x10 []))" by (rule demo_seg_facts) simp
  have e: "tcp_run [demo_seg 0x10 []] ?s = Inr ((), rte_pktmbuf_free ((demo_seg 0x10 [])
      \<lparr>mdata := wr16 tcp_cksum 0 (mdata (demo_seg 0x10 []))\<rparr>) ?s)"
    unfolding tcp_run.simps process_valid [OF v demo_tcp_facts(1)]
    by (simp add: demo_stream demo_tcb_def ng_tcp_dispatch_def ng_tcp_handle_listen_def clear_cksum_fields demo_flag
        RTE_TCP_SYN_FLAG_def)
  have "snd ` set (statuses ?s) \<subseteq> server_states" by (simp add: statuses_def demo_tcb_def server_states_def)
  from tcp_run_server_states [OF e demo_listen_wf this] e show ?thesis by blast
qed

text \<open>The checksum test: a segment is rejected with \<open>-1\<close> exactly when the ones' complement sum of its
  pseudo header, header and data does not vanish, or when its checksum field is 0; so the one
  valid encoding that is refused is a transmitted checksum of \<open>0x0000\<close>.\<close>

theorem tcp_checksum_gate:
  assumes "18 \<le> l4_length (mdata m) ip_hdr" "ng_tcp_process m s = Inr (r, s')"
  shows "r = -1 \<longleftrightarrow> \<not> l4_ok (mdata m) \<or> rd16 (mdata m) tcp_cksum = 0"
  using cksum_test_iff [OF assms(1)] process_bad [of m s] process_good_ret [OF _ assms(2)] assms(2) by auto

definition demo_bare :: mbuf where
  "demo_bare = (demo_mbuf 8)\<lparr>mdata := wr16 ip_total_length (htons 40) (\<lambda>_. 0)\<rparr>"

lemma tcp_checksum_gate_witness:
  "\<exists>r s'. ng_tcp_process demo_bare demo_stack = Inr (r, s') \<and> r = -1"
proof -
  let ?b = "wr16 tcp_cksum 0 (mdata demo_bare)"
  have l: "18 \<le> l4_length (mdata demo_bare) ip_hdr" by (simp add: l4_length_def demo_bare_def buf_simps)
  have z: "rd16 (mdata demo_bare) tcp_cksum = 0"
    by (simp add: demo_bare_def buf_simps) (simp add: rd16_def of_le16_def)
  have "rte_ipv4_udptcp_cksum ?b ip_hdr l4_hdr \<noteq> rd16 (mdata demo_bare) tcp_cksum"
    using cksum_test_iff [OF l] z by simp
  note e = process_bad [OF this, of demo_stack]
  from tcp_checksum_gate [OF l e] z show ?thesis using e by blast
qed

text \<open>A SYN to a listening port adds one control block in SYN_RCVD for the sender's address and
  port, whose send buffer holds exactly one fragment: SYN and ACK, acknowledging the SYN's
  sequence number plus one, from the chosen initial sequence number.\<close>

theorem tcp_syn_opens:
  fixes m s
  defines "b \<equiv> mdata m"
  assumes "valid_segment b" "exact_stream b s = None" "listening_stream b s = Some l" "flag b RTE_TCP_SYN_FLAG"
    and "tcb_wf s" "tInst s = Some t" "malloc_ok s = (\<lambda>_ _. True)"
    and "buf_names_free (rd32 b ip_src_addr) (rd16 b tcp_src_port) s" "List.length (memzones s) + 1 < mz_max s"
  shows "\<exists>s' syn r. ng_tcp_process m s = Inr (0, s') \<and> streams s' = syn # streams s
    \<and> s_status syn = NG_TCP_STATUS_SYN_RCVD \<and> s_fd syn = -1
    \<and> s_sip syn = rd32 b ip_src_addr \<and> s_dip syn = rd32 b ip_dst_addr
    \<and> s_sport syn = rd16 b tcp_src_port \<and> s_dport syn = rd16 b tcp_dst_port
    \<and> rcv_nxt syn = ntohl (rd32 b tcp_sent_seq) + 1
    \<and> s_sndbuf syn = Some r \<and> ring_elems r = [synack_of b (rand_seq s (mallocs s) mod TCP_MAX_SEQ)]
    \<and> fresh_buf (s_rcvbuf syn)"
  using process_syn [OF assms(2-9) [unfolded b_def]] assms(10) unfolding b_def by blast

lemma tcp_syn_opens_witness:
  "\<exists>s' syn. ng_tcp_process (demo_seg 0x02 []) (demo_tcp [demo_tcb 5 NG_TCP_STATUS_LISTEN 0 0]) = Inr (0, s')
    \<and> s_status syn = NG_TCP_STATUS_SYN_RCVD \<and> s_sip syn = 9 \<and> rcv_nxt syn = 42
    \<and> streams s' = [syn, demo_tcb 5 NG_TCP_STATUS_LISTEN 0 0]"
proof -
  let ?s = "demo_tcp [demo_tcb 5 NG_TCP_STATUS_LISTEN 0 0]" and ?b = "mdata (demo_seg 0x02 [])"
  note f = demo_seg_facts [of "[]" "0x02"]
  have "\<exists>s' syn r. ng_tcp_process (demo_seg 0x02 []) ?s = Inr (0, s') \<and> streams s' = syn # streams ?s
    \<and> s_status syn = NG_TCP_STATUS_SYN_RCVD \<and> s_fd syn = -1
    \<and> s_sip syn = rd32 ?b ip_src_addr \<and> s_dip syn = rd32 ?b ip_dst_addr
    \<and> s_sport syn = rd16 ?b tcp_src_port \<and> s_dport syn = rd16 ?b tcp_dst_port
    \<and> rcv_nxt syn = ntohl (rd32 ?b tcp_sent_seq) + 1
    \<and> s_sndbuf syn = Some r \<and> ring_elems r = [synack_of ?b (rand_seq ?s (mallocs ?s) mod TCP_MAX_SEQ)]
    \<and> fresh_buf (s_rcvbuf syn)"
    by (rule tcp_syn_opens [where l = "demo_tcb 5 NG_TCP_STATUS_LISTEN 0 0"])
      (simp_all add: f demo_flag RTE_TCP_SYN_FLAG_def demo_listen_wf demo_stream buf_names_free_def memzone_lookup_def,
       simp_all add: demo_tcb_def)
  then show ?thesis by (auto simp: f)
qed


lemma demo_room: "has_room (Some (demo_ring zero_fragment))" "elems (Some (demo_ring zero_fragment)) = []"
  using demo_ring_wf [of zero_fragment] ring_used_0 [of "demo_ring zero_fragment"]
  by (simp_all add: has_room_def elems_def)


text \<open>A FIN without data closes the receiving direction: the block goes to CLOSE_WAIT, an empty
  fragment (end of file) is queued for the reader, \<open>rcv_nxt\<close> advances by one, and the FIN is
  acknowledged.\<close>

theorem tcp_fin_closes:
  fixes m s
  defines "b \<equiv> mdata m"
  assumes "valid_segment b" "exact_stream b s = Some st" "s_status st = NG_TCP_STATUS_ESTABLISHED"
    and "\<not> flag b RTE_TCP_PSH_FLAG" "flag b RTE_TCP_FIN_FLAG"
    and "has_room (s_rcvbuf st)" "has_room (s_sndbuf st)" "malloc_ok s = (\<lambda>_ _. True)"
  shows "\<exists>s' st'. ng_tcp_process m s = Inr (0, s')
    \<and> streams s' = map (\<lambda>x. if s_addr x = s_addr st then st' else x) (streams s)
    \<and> rcv_nxt st' = rcv_nxt st + 1 \<and> s_status st' = NG_TCP_STATUS_CLOSE_WAIT
    \<and> elems (s_rcvbuf st') = elems (s_rcvbuf st) @ [eof_of b]
    \<and> elems (s_sndbuf st') = elems (s_sndbuf st) @ [ack_of b st']
    \<and> signalled s' = signalled s @ [s_addr st]"
proof -
  let ?c = "wr16 tcp_cksum 0 b"
  have "streams s \<noteq> []" using assms(3) by (auto simp: exact_stream_def)
  then obtain t where t: "tInst s = Some t" by (cases "tInst s") (auto simp: streams_def)
  have g: "\<not> flag ?c RTE_TCP_PSH_FLAG" "flag ?c RTE_TCP_FIN_FLAG"
    using assms(5,6) by (simp_all add: clear_cksum_fields)
  obtain s1 st' where h: "ng_tcp_handle_established st ?c (uint (ntohs (rd16 ?c ip_total_length)) - 20) s = Inr (0, s1)"
    "streams s1 = map (\<lambda>x. if s_addr x = s_addr st then st' else x) (streams s)"
    "rcv_nxt st' = rcv_nxt st + 1" "s_status st' = NG_TCP_STATUS_CLOSE_WAIT" "s_addr st' = s_addr st"
    "elems (s_rcvbuf st') = elems (s_rcvbuf st) @ [eof_of ?c]"
    "elems (s_sndbuf st') = elems (s_sndbuf st) @ [ack_of ?c st']"
    "signalled s1 = signalled s @ [s_addr st]" "pool s1 = pool s"
    by (rule handle_established_fin [OF g assms(7-9)])
  have "ng_tcp_process m s = Inr (0, rte_pktmbuf_free (m\<lparr>mdata := ?c\<rparr>) s1)"
    unfolding process_valid [OF assms(2) [unfolded b_def] t]
    using assms(3,4) h(1) by (simp add: b_def ng_tcp_dispatch_def)
  moreover have "streams (rte_pktmbuf_free (m\<lparr>mdata := ?c\<rparr>) s1) = streams s1" by (rule streams_cong) simp
  moreover have "eof_of ?c = eof_of b" by (simp add: eof_of_def clear_cksum_fields)
  ultimately show ?thesis using h by (auto simp: clear_cksum_fields)
qed

lemma tcp_fin_closes_witness:
  "\<exists>s' st'. ng_tcp_process (demo_seg 0x11 []) (demo_tcp [demo_tcb 6 NG_TCP_STATUS_ESTABLISHED 9 9999]) = Inr (0, s')
    \<and> streams s' = [st'] \<and> rcv_nxt st' = 201 \<and> s_status st' = NG_TCP_STATUS_CLOSE_WAIT"
proof -
  let ?st = "demo_tcb 6 NG_TCP_STATUS_ESTABLISHED 9 9999"
  let ?s = "demo_tcp [?st]" and ?b = "mdata (demo_seg 0x11 [])"
  have "\<exists>s' st'. ng_tcp_process (demo_seg 0x11 []) ?s = Inr (0, s')
    \<and> streams s' = map (\<lambda>x. if s_addr x = s_addr ?st then st' else x) (streams ?s)
    \<and> rcv_nxt st' = rcv_nxt ?st + 1 \<and> s_status st' = NG_TCP_STATUS_CLOSE_WAIT
    \<and> elems (s_rcvbuf st') = elems (s_rcvbuf ?st) @ [eof_of ?b]
    \<and> elems (s_sndbuf st') = elems (s_sndbuf ?st) @ [ack_of ?b st']
    \<and> signalled s' = signalled ?s @ [s_addr ?st]"
    by (rule tcp_fin_closes)
      (simp_all add: demo_seg_facts(1) demo_flag demo_stream RTE_TCP_PSH_FLAG_def RTE_TCP_FIN_FLAG_def,
       simp_all add: demo_tcb_def demo_room)
  then show ?thesis by (auto simp: demo_tcb_def)
qed

text \<open>C20. The passive handshake: on a stack that listens on the port, a SYN followed by an ACK from the
  same address and port leaves exactly one new control block, ESTABLISHED, expecting the SYN's
  sequence number plus one, and wakes the listener once, so that \<open>naccept\<close> can return it.\<close>

theorem tcp_handshake:
  fixes m1 m2 s
  defines "b \<equiv> mdata m1" and "c \<equiv> mdata m2"
  assumes "valid_segment b" "exact_stream b s = None" "listening_stream b s = Some l" "flag b RTE_TCP_SYN_FLAG"
    and "tcb_wf s" "tInst s = Some t" "malloc_ok s = (\<lambda>_ _. True)"
    and "buf_names_free (rd32 b ip_src_addr) (rd16 b tcp_src_port) s" "List.length (memzones s) + 1 < mz_max s"
    and "valid_segment c" "flag c RTE_TCP_ACK_FLAG"
    and "rd32 c ip_src_addr = rd32 b ip_src_addr" "rd32 c ip_dst_addr = rd32 b ip_dst_addr"
    and "rd16 c tcp_src_port = rd16 b tcp_src_port" "rd16 c tcp_dst_port = rd16 b tcp_dst_port"
    and "\<forall>x\<in>set (streams s). s_sip x \<noteq> 0 \<or> s_dip x \<noteq> 0 \<or> s_sport x \<noteq> 0" "rd32 b ip_src_addr \<noteq> 0"
  shows "\<exists>s' st. tcp_run [m1, m2] s = Inr ((), s') \<and> streams s' = st # streams s
    \<and> s_status st = NG_TCP_STATUS_ESTABLISHED \<and> s_fd st = -1 \<and> s_sip st = rd32 b ip_src_addr
    \<and> s_dport st = rd16 b tcp_dst_port \<and> rcv_nxt st = ntohl (rd32 b tcp_sent_seq) + 1
    \<and> signalled s' = signalled s @ [s_addr l]"
proof -
  obtain s1 syn where p1: "ng_tcp_process m1 s = Inr (0, s1)" "streams s1 = syn # streams s"
    and f: "s_status syn = NG_TCP_STATUS_SYN_RCVD" "s_fd syn = -1" "s_sip syn = rd32 b ip_src_addr"
    "s_dip syn = rd32 b ip_dst_addr" "s_sport syn = rd16 b tcp_src_port" "s_dport syn = rd16 b tcp_dst_port"
    "rcv_nxt syn = ntohl (rd32 b tcp_sent_seq) + 1" "s_addr syn = mallocs s" "signalled s1 = signalled s"
    using process_syn [OF assms(3-11) [unfolded b_def]] unfolding b_def by blast
  have l: "l \<in> set (streams s)" "s_dport l = rd16 b tcp_dst_port"
    using assms(5) by (auto simp: listening_stream_def dest: find_Some_iff2)
  have fresh: "\<forall>x\<in>set (streams s). s_addr x \<noteq> s_addr syn"
    using assms(7) f(8) by (auto simp: tcb_wf_def statuses_def)
  have ex: "exact_stream c s1 = Some syn"
    using p1(2) f assms(14-17) by (simp add: exact_stream_def)
  have li: "find (\<lambda>x. s_dport x = s_dport syn \<and> s_status x = NG_TCP_STATUS_LISTEN) (streams s1) = Some l"
    using p1(2) f assms(5) by (simp add: listening_stream_def)
  have nz: "\<forall>x\<in>set (streams s1). s_sip x \<noteq> 0 \<or> s_dip x \<noteq> 0 \<or> s_sport x \<noteq> 0"
    using p1(2) f(3) assms(18,19) by simp
  have wf: "tcb_wf s1" using process_step [OF p1(1) assms(7)] by blast
  have ne: "s_addr l \<noteq> s_addr syn" using fresh l by blast
  obtain s2 where p2: "ng_tcp_process m2 s1 = Inr (0, s2)"
    "streams s2 = map (\<lambda>x. if s_addr x = s_addr syn then syn\<lparr>s_status := NG_TCP_STATUS_ESTABLISHED\<rparr> else x) (streams s1)"
    "signalled s2 = signalled s1 @ [s_addr l]"
    using process_ack [OF assms(12) [unfolded c_def] ex [unfolded c_def] f(1) assms(13) [unfolded c_def] nz li ne wf] by blast
  have "streams s2 = syn\<lparr>s_status := NG_TCP_STATUS_ESTABLISHED\<rparr> # streams s"
    using p2(2) p1(2) fresh by (auto intro: map_idI)
  then show ?thesis using p1 p2 f by auto
qed

lemma tcp_handshake_witness:
  "\<exists>s' st. tcp_run [demo_seg 0x02 [], demo_seg 0x10 []] (demo_tcp [demo_tcb 5 NG_TCP_STATUS_LISTEN 0 0]) = Inr ((), s')
    \<and> streams s' = [st, demo_tcb 5 NG_TCP_STATUS_LISTEN 0 0] \<and> s_status st = NG_TCP_STATUS_ESTABLISHED
    \<and> signalled s' = [5]"
proof -
  let ?s = "demo_tcp [demo_tcb 5 NG_TCP_STATUS_LISTEN 0 0]" and ?b = "mdata (demo_seg 0x02 [])"
  note f = demo_seg_facts [of "[]" "0x02"] demo_seg_facts [of "[]" "0x10"]
  have "\<exists>s' st. tcp_run [demo_seg 0x02 [], demo_seg 0x10 []] ?s = Inr ((), s') \<and> streams s' = st # streams ?s
    \<and> s_status st = NG_TCP_STATUS_ESTABLISHED \<and> s_fd st = -1 \<and> s_sip st = rd32 ?b ip_src_addr
    \<and> s_dport st = rd16 ?b tcp_dst_port \<and> rcv_nxt st = ntohl (rd32 ?b tcp_sent_seq) + 1
    \<and> signalled s' = signalled ?s @ [s_addr (demo_tcb 5 NG_TCP_STATUS_LISTEN 0 0)]"
    by (rule tcp_handshake [where l = "demo_tcb 5 NG_TCP_STATUS_LISTEN 0 0"])
      (simp_all add: f demo_flag RTE_TCP_SYN_FLAG_def RTE_TCP_ACK_FLAG_def demo_listen_wf demo_stream
        buf_names_free_def memzone_lookup_def, simp_all add: demo_tcb_def)
  then show ?thesis by (auto simp: demo_tcb_def)
qed

text \<open>C24. What a TCP frame carries of its fragment, read as the standard says.  For a fragment without
  options, with at most 1994 bytes to send (one packet buffer without the headers) and as many bytes in its
  data block, and hardware addresses of six bytes: the encoded frame has the given addresses and the
  fragment's ports, sequence and acknowledgement numbers, header length, flags and data, a valid IP header
  checksum, and a TCP checksum that \<open>ng_tcp_process\<close> accepts; nothing is read past the data.  Window and
  urgent pointer arrive with their bytes swapped, because \<open>ng_encode_tcp_apppkt\<close> stores them in host order:
  a stack that means to offer \<open>TCP_INITIAL_WINDOW\<close>, 14600 bytes, offers 2105.\<close>

theorem tcp_encode_decode:
  assumes "List.length srcmac = 6" "List.length dstmac = 6"
    and "optlen f = 0" "unat (f_length f) \<le> 1994"
    and "case f_data f of None \<Rightarrow> f_length f = 0 | Some d \<Rightarrow> unat (f_length f) \<le> List.length d"
  shows "\<exists>m. ng_encode_tcp_apppkt msg sip dip srcmac dstmac f s = Inr (m, s)
    \<and> decode_tcp m = \<lparr>tf_sport = f_sport f, tf_dport = f_dport f, tf_seq = seqnum f, tf_ack = acknum f,
         tf_hdrlen_off = hdrlen_off f, tf_flags = tcp_flags f,
         tf_window = ntohs (windows f), tf_urp = ntohs (tcp_urp f),
         tf_payload = (case f_data f of None \<Rightarrow> [] | Some d \<Rightarrow> take (unat (f_length f)) d)\<rparr>
    \<and> (windows f = TCP_INITIAL_WINDOW \<longrightarrow> tf_window (decode_tcp m) = 2105)
    \<and> if_sip (decode_ip m) = sip \<and> if_dip (decode_ip m) = dip
    \<and> if_src (decode_ip m) = srcmac \<and> if_dst (decode_ip m) = dstmac
    \<and> unat (if_total_length (decode_ip m)) = 40 + unat (f_length f)
    \<and> ip_header_ok m \<and> valid_segment m"
proof -
  have f: "frag_ok f" using assms(3-5) by (simp add: frag_ok_def)
  obtain m where "ng_encode_tcp_apppkt msg sip dip srcmac dstmac f s = Inr (m, s)"
    "decode_ip m = \<lparr>if_dst = dstmac, if_src = srcmac, if_ether_type = RTE_ETHER_TYPE_IPV4,
         if_version_ihl = 0x45, if_total_length = ucast (tcp_total_len f) - 14, if_ttl = 64,
         if_proto = IPPROTO_TCP, if_sip = sip, if_dip = dip\<rparr>"
    "decode_tcp m = tcp_frame_sent f" "ip_header_ok m" "valid_segment m"
    by (rule ng_encode_tcp_spec [OF assms(1,2) f])
  moreover have "ntohs TCP_INITIAL_WINDOW = 2105" by (simp add: TCP_INITIAL_WINDOW_def bswap16_def)
  ultimately show ?thesis
    using tcp_total_len_eq(2) [OF f] by (simp add: tcp_frame_sent_def tcp_frame_of_def frag_payload_def)
qed

lemma demo_frag_ok: "frag_ok (demo_frag 0x18 [104, 105])"
  by (simp add: frag_ok_def demo_frag_def zero_fragment_def)

lemma tcp_encode_decode_witness:
  "\<exists>m. ng_encode_tcp_apppkt (\<lambda>_. 0) 1 2 [1, 2, 3, 4, 5, 6] [6, 5, 4, 3, 2, 1] (demo_frag 0x18 [104, 105]) demo_stack
      = Inr (m, demo_stack) \<and> tf_payload (decode_tcp m) = [104, 105] \<and> valid_segment m"
  using tcp_encode_decode [of "[1, 2, 3, 4, 5, 6]" "[6, 5, 4, 3, 2, 1]" "demo_frag 0x18 [104, 105]" "\<lambda>_. 0" 1 2 demo_stack]
  by (auto simp: demo_frag_def zero_fragment_def)

text \<open>Sending: the oldest fragment of a send buffer becomes one frame in the transmit ring, addressed
  from the connection's local to its remote end and acceptable to a receiver, and the fragment and
  its data are freed; if the hardware address is unknown, an ARP request is sent instead and the
  fragment goes back to the end of the buffer, so nothing is lost.\<close>

theorem tcp_out_sends:
  assumes "s_sndbuf st = Some r" "ring_wf r" "ring_elems r = f # rest" "frag_ok f"
    and "arpt s = Some t" "arp_wf t" "\<forall>mac\<in>set_option (arp_lookup s (s_sip st)). List.length mac = 6"
    and "List.length (s_localmac st) = 6" "List.length (gSrcMac s) = 6" "pool s = mb # ms" "out_room 1 s"
  shows "\<exists>s' r' m. tcp_out_one st s = Inr (st\<lparr>s_sndbuf := Some r'\<rparr>, s') \<and> out_frames s' = out_frames s @ [m]
    \<and> (case arp_lookup s (s_sip st) of
         Some mac \<Rightarrow> ring_elems r' = rest \<and> if_dst (decode_ip (mdata m)) = mac
           \<and> if_sip (decode_ip (mdata m)) = s_dip st \<and> if_dip (decode_ip (mdata m)) = s_sip st
           \<and> decode_tcp (mdata m) = tcp_frame_sent f \<and> valid_segment (mdata m)
           \<and> live s' = live s - (if f_data f = None then 1 else 2)
       | None \<Rightarrow> ring_elems r' = rest @ [f]
           \<and> decode_arp (mdata m) = arp_request_of (gSrcMac s) (s_dip st) (s_sip st) None)"
proof (cases "arp_lookup s (s_sip st)")
  case None
  from tcp_out_one_unknown [OF assms(1-3,5,6) None assms(9-11)] show ?thesis
    unfolding None option.case by metis
next
  case (Some mac)
  have "List.length mac = 6" using assms(7) Some by simp
  from tcp_out_one_known [OF assms(1-6) Some this assms(8,10,11)] show ?thesis
    unfolding Some option.case by metis
qed

lemma demo_frag_queue:
  obtains r where "ring_wf r" "ring_elems r = [demo_frag 0x18 [104, 105]]"
  by (rule demo_queue)

lemma tcp_out_sends_witness:
  "\<exists>st s' m. (\<exists>st'. tcp_out_one st (demo_known 9) = Inr (st', s')) \<and> out_frames s' = out_frames (demo_known 9) @ [m]
    \<and> valid_segment (mdata m) \<and> tf_payload (decode_tcp (mdata m)) = [104, 105]"
proof -
  let ?f = "demo_frag 0x18 [104, 105]"
  obtain r where r: "ring_wf r" "ring_elems r = [?f]" by (rule demo_frag_queue)
  let ?st = "(demo_tcb 6 NG_TCP_STATUS_ESTABLISHED 9 9999)\<lparr>s_sndbuf := Some r\<rparr>"
  obtain mb ms where p: "demo_pool = mb # ms" by (cases demo_pool) (auto dest: arg_cong [of _ _ List.length])
  have sip: "s_sip ?st = 9" "List.length (gSrcMac (demo_known 9)) = 6" by (simp_all add: demo_tcb_def demo_known_def)
  have "\<exists>s' r' m. tcp_out_one ?st (demo_known 9) = Inr (?st\<lparr>s_sndbuf := Some r'\<rparr>, s')
    \<and> out_frames s' = out_frames (demo_known 9) @ [m]
    \<and> (case arp_lookup (demo_known 9) (s_sip ?st) of
         Some mac \<Rightarrow> ring_elems r' = [] \<and> if_dst (decode_ip (mdata m)) = mac
           \<and> if_sip (decode_ip (mdata m)) = s_dip ?st \<and> if_dip (decode_ip (mdata m)) = s_sip ?st
           \<and> decode_tcp (mdata m) = tcp_frame_sent ?f \<and> valid_segment (mdata m)
           \<and> live s' = live (demo_known 9) - (if f_data ?f = None then 1 else 2)
       | None \<Rightarrow> ring_elems r' = [] @ [?f]
           \<and> decode_arp (mdata m) = arp_request_of (gSrcMac (demo_known 9)) (s_dip ?st) (s_sip ?st) None)"
    by (rule tcp_out_sends [where r = r and mb = mb and ms = ms])
      (use r p demo_known_facts sip demo_frag_ok in \<open>simp_all add: demo_tcb_def\<close>)
  then obtain s' r' m where w: "tcp_out_one ?st (demo_known 9) = Inr (?st\<lparr>s_sndbuf := Some r'\<rparr>, s')"
    "out_frames s' = out_frames (demo_known 9) @ [m]" "decode_tcp (mdata m) = tcp_frame_sent ?f" "valid_segment (mdata m)"
    using demo_known_facts(3) [of 9] sip by auto
  then have "tf_payload (decode_tcp (mdata m)) = [104, 105]"
    by (simp add: tcp_frame_sent_def tcp_frame_of_def frag_payload_def demo_frag_def)
  then show ?thesis using w by (intro exI [of _ ?st] exI [of _ s'] exI [of _ m] conjI exI) assumption+
qed

text \<open>A SYN whose ring name is taken.\<close>

lemma process_syn_taken:
  fixes m s
  defines "b \<equiv> mdata m"
  assumes "valid_segment b" "exact_stream b s = None" "listening_stream b s = Some l" "flag b RTE_TCP_SYN_FLAG"
    and "tInst s = Some t" "malloc_ok s = (\<lambda>_ _. True)"
    and "name_taken (rd32 b ip_src_addr) (rd16 b tcp_src_port) s"
  shows "ng_tcp_process m s = Inl NullDeref"
proof -
  let ?c = "wr16 tcp_cksum 0 b"
  have l: "s_status l = NG_TCP_STATUS_LISTEN"
    using assms(4) by (auto simp: listening_stream_def dest: find_Some_iff2)
  obtain syn s1 where c: "ng_tcp_stream_create (rd32 b ip_src_addr) (rd32 b ip_dst_addr) (rd16 b tcp_src_port)
      (rd16 b tcp_dst_port) s = (Some syn, s1)" "s_sndbuf syn = None" "malloc_ok s1 = (\<lambda>_ _. True)"
    by (rule stream_create_taken [OF assms(8,7)])
  have "malloc_ok (ll_add_stream syn s1) = (\<lambda>_ _. True)" using c(3) by (simp add: ll_add_stream_def)
  then obtain a s2 where m: "rte_malloc sizeof_ng_tcp_fragment (ll_add_stream syn s1) = (Some a, s2)"
    using rte_malloc_total [of "ll_add_stream syn s1" sizeof_ng_tcp_fragment] by auto
  have "ng_tcp_handle_listen l ?c s = Inl NullDeref"
    using assms(5,6) l c(1,2) m
    by (simp add: ng_tcp_handle_listen_def Let_def clear_cksum_fields tcpInstance_def ring_mp_enqueue_def)
  then show ?thesis
    unfolding process_valid [OF assms(2) [unfolded b_def] assms(6)]
    using assms(3,4) l by (simp add: b_def ng_tcp_dispatch_def)
qed

text \<open>C25. Two peers can crash the stack.  The rings of a connection are named by the address in hexadecimal
  followed by the port in decimal, as the words stand in the packet, with nothing between them.  Suppose
  two peers' names come out alike although the peers differ (the witness: address word \<open>0x12\<close> with port word
  3, and \<open>0x1\<close> with 23).  On a stack that listens for both, has no connection with either and has memory and
  memory zones for a new one, the SYN of the first is answered; then the SYN of the second makes
  \<open>rte_ring_create\<close> fail, its result is not checked, and the answer is enqueued through a null pointer.\<close>

theorem tcp_name_collision_crashes:
  fixes m1 m2 s
  defines "b \<equiv> mdata m1" and "c \<equiv> mdata m2"
  assumes "valid_segment b" "exact_stream b s = None" "listening_stream b s = Some l1" "flag b RTE_TCP_SYN_FLAG"
    and "valid_segment c" "exact_stream c s = None" "listening_stream c s = Some l2" "flag c RTE_TCP_SYN_FLAG"
    and "tcb_wf s" "tInst s = Some t" "malloc_ok s = (\<lambda>_ _. True)"
    and "buf_names_free (rd32 b ip_src_addr) (rd16 b tcp_src_port) s" "List.length (memzones s) + 1 < mz_max s"
    and "rd32 c ip_src_addr \<noteq> rd32 b ip_src_addr \<or> rd16 c tcp_src_port \<noteq> rd16 b tcp_src_port"
    and "show_base 16 (unat (rd32 c ip_src_addr)) @ show_base 10 (unat (rd16 c tcp_src_port))
      = show_base 16 (unat (rd32 b ip_src_addr)) @ show_base 10 (unat (rd16 b tcp_src_port))"
  shows "\<exists>s'. ng_tcp_process m1 s = Inr (0, s') \<and> ng_tcp_process m2 s' = Inl NullDeref"
proof -
  obtain s1 syn where 1: "ng_tcp_process m1 s = Inr (0, s1)" "streams s1 = syn # streams s"
    and syn: "s_status syn = NG_TCP_STATUS_SYN_RCVD" "s_sip syn = rd32 b ip_src_addr" "s_sport syn = rd16 b tcp_src_port"
    and s1: "malloc_ok s1 = (\<lambda>_ _. True)"
      "name_taken (rd32 b ip_src_addr) (rd16 b tcp_src_port) s1"
    using process_syn [OF assms(3-6,11-15) [unfolded b_def]] unfolding b_def by blast
  obtain t1 where t1: "tInst s1 = Some t1" using 1(2) by (cases "tInst s1") (auto simp: streams_def)
  have "exact_stream c s1 = None" "listening_stream c s1 = Some l2"
    using 1(2) syn assms(8,9,16) by (auto simp: exact_stream_def listening_stream_def)
  moreover have "ring_name ''sndbuf'' (rd32 c ip_src_addr) (rd16 c tcp_src_port)
      = ring_name ''sndbuf'' (rd32 b ip_src_addr) (rd16 b tcp_src_port)"
    using assms(17) by (simp add: ring_name_def)
  ultimately have "ng_tcp_process m2 s1 = Inl NullDeref"
    using assms(7,10) t1 s1 unfolding c_def by (intro process_syn_taken) (simp_all add: name_taken_def)
  then show ?thesis using 1(1) by blast
qed

lemma tcp_name_collision_crashes_witness:
  "\<exists>s'. ng_tcp_process (demo_seg_from 0x12 3 0x02 []) (demo_tcp [demo_tcb 5 NG_TCP_STATUS_LISTEN 0 0]) = Inr (0, s')
    \<and> ng_tcp_process (demo_seg_from 0x1 23 0x02 []) s' = Inl NullDeref"
proof -
  note f = demo_seg_from_facts [of "[]" "0x12" 3 "0x02"] demo_seg_from_facts [of "[]" "0x1" 23 "0x02"]
  have "show_base 16 1 @ show_base 10 23 = show_base 16 18 @ show_base 10 3"
    by (simp add: show_base.simps show_digit_def)
  then show ?thesis
    by (intro tcp_name_collision_crashes [where ?l1.0 = "demo_tcb 5 NG_TCP_STATUS_LISTEN 0 0"
        and ?l2.0 = "demo_tcb 5 NG_TCP_STATUS_LISTEN 0 0"])
      (simp_all add: f flag_def RTE_TCP_SYN_FLAG_def demo_listen_wf exact_stream_def listening_stream_def
        buf_names_free_def memzone_lookup_def, simp_all add: demo_tcb_def)
qed

end
