(* ===== verification/Socket_Props.thy ===== *)
theory Socket_Props
  imports Socket Tcp_Claims
begin

text \<open>
  Properties of the socket interface, and of the whole path of data: from the caller's buffer
  through the send ring, the frame and the receive ring to the reader at the other end.
\<close>

declare rte_malloc_fields [simp del] rte_malloc_zones [simp del]

section \<open>Descriptors and host information\<close>

lemma get_host:
  "find (\<lambda>h. fd = h_fd h) (lhost s) = Some h \<Longrightarrow> get_hostinfo_fromfd fd s = Inr (Some (Host h), s)"
  by (simp add: get_hostinfo_fromfd_def)

lemma get_stream:
  "find (\<lambda>h. fd = h_fd h) (lhost s) = None \<Longrightarrow> tInst s = Some t \<Longrightarrow>
    find (\<lambda>x. fd = s_fd x) (tcb_set t) = Some st \<Longrightarrow> get_hostinfo_fromfd fd s = Inr (Some (Stream st), s)"
  by (simp add: get_hostinfo_fromfd_def tcpInstance_def)

text \<open>Descriptor \<open>fd\<close> is the socket \<open>h\<close>, or the connection \<open>st\<close>.\<close>

definition is_host :: "stack \<Rightarrow> int \<Rightarrow> localhost \<Rightarrow> bool" where
  "is_host s fd h \<longleftrightarrow> find (\<lambda>h. fd = h_fd h) (lhost s) = Some h \<and> h_protocol h = IPPROTO_UDP"

definition is_stream :: "stack \<Rightarrow> int \<Rightarrow> ng_tcp_stream \<Rightarrow> bool" where
  "is_stream s fd st \<longleftrightarrow> find (\<lambda>h. fd = h_fd h) (lhost s) = None
     \<and> find (\<lambda>x. fd = s_fd x) (streams s) = Some st \<and> s_protocol st = IPPROTO_TCP"

lemma is_streamD:
  assumes "is_stream s fd st"
  shows "get_hostinfo_fromfd fd s = Inr (Some (Stream st), s)" "s_protocol st = IPPROTO_TCP"
    "st \<in> set (streams s)" "s_fd st = fd"
proof -
  show m: "st \<in> set (streams s)" "s_fd st = fd" using assms by (auto simp: is_stream_def dest: find_Some_iff2)
  show "s_protocol st = IPPROTO_TCP" using assms by (simp add: is_stream_def)
  obtain t where "tInst s = Some t" using m(1) by (cases "tInst s") (auto simp: streams_def)
  then show "get_hostinfo_fromfd fd s = Inr (Some (Stream st), s)"
    using get_stream [of fd s t st] assms by (simp add: is_stream_def streams_def)
qed

lemma is_hostD:
  assumes "is_host s fd h"
  shows "get_hostinfo_fromfd fd s = Inr (Some (Host h), s)" "h_protocol h = IPPROTO_UDP"
    "h \<in> set (lhost s)" "h_fd h = fd"
  using assms get_host [of fd s h] by (auto simp: is_host_def dest: find_Some_iff2)

section \<open>Creating and closing a datagram socket\<close>

definition udp_names_free :: "stack \<Rightarrow> bool" where
  "udp_names_free s \<longleftrightarrow> memzone_lookup (RTE_RING_MZ_PREFIX @ ''recv buffer'') s = None
     \<and> memzone_lookup (RTE_RING_MZ_PREFIX @ ''send buffer'') s = None"

lemma RING_F_SP_SC_facts: "RING_F_SP_SC AND RING_F_EXACT_SZ = 0"
  by (simp add: RING_F_SP_SC_def RING_F_EXACT_SZ_def)

lemma lookup_other:
  "memzone_lookup n s = None \<Longrightarrow> take 32 (mz_name mz) \<noteq> take 32 n \<Longrightarrow>
    memzone_lookup n (s\<lparr>mallocs := a, live := b, memzones := memzones s @ [mz], ring_list := c\<rparr>) = None"
  by (auto simp: memzone_lookup_None RTE_MEMZONE_NAMESIZE_def)

lemma nsocket_udp_ok:
  assumes "malloc_ok s = (\<lambda>_ _. True)" "udp_names_free s" "List.length (memzones s) + 2 < mz_max s" "eal_wf s"
  obtains h mz1 mz2 r1 r2 s' where "nsocket_udp fd s = Inr (fd, s')" "lhost s' = h # lhost s"
    "h_addr h = mallocs s" "h_fd h = fd" "h_protocol h = IPPROTO_UDP"
    "h_rcvbuf h = Some r1" "h_sndbuf h = Some r2" "fresh_buf (Some r1)" "fresh_buf (Some r2)"
    "mz_name mz1 = RTE_RING_MZ_PREFIX @ ''recv buffer''" "memzones s' = memzones s @ [mz1, mz2]"
    "s' = s\<lparr>mallocs := mallocs s + 5, live := live s + 5, memzones := memzones s @ [mz1, mz2],
       ring_list := ring_list s @ [(Suc (mallocs s), mz_addr mz1), (mallocs s + 3, mz_addr mz2)], lhost := h # lhost s\<rparr>"
    "mz_addr mz1 = mallocs s + 2" "mz_addr mz2 = mallocs s + 4"
    "rmemzone r1 = Some (mz_addr mz1)" "rmemzone r2 = Some (mz_addr mz2)"
proof -
  let ?s1 = "s\<lparr>mallocs := Suc (mallocs s), live := live s + 1\<rparr>"
  have m: "rte_malloc sizeof_localhost s = (Some (mallocs s), ?s1)"
    using assms(1) by (simp add: rte_malloc_def malloc_heap_alloc_def Let_def)
  note RF = RING_SIZE_facts(1-3) RING_F_SP_SC_facts
  have p1: "malloc_ok ?s1 = (\<lambda>_ _. True)" "memzone_lookup (RTE_RING_MZ_PREFIX @ ''recv buffer'') ?s1 = None"
    "List.length (memzones ?s1) < mz_max ?s1" "List.length ''recv buffer'' < 29"
    using assms by (simp_all add: udp_names_free_def memzone_lookup_def)
  obtain r1 mz1 where c1: "rte_ring_create zero_offload ''recv buffer'' RING_SIZE RING_F_SP_SC ?s1 = (Some r1,
      ?s1\<lparr>mallocs := mallocs ?s1 + 2, live := live ?s1 + 2, memzones := memzones ?s1 @ [mz1],
        ring_list := ring_list ?s1 @ [(mallocs ?s1, mz_addr mz1)]\<rparr>)"
    "mz_name mz1 = RTE_RING_MZ_PREFIX @ ''recv buffer''" "mz_addr mz1 = Suc (mallocs ?s1)"
    "rmemzone r1 = Some (mz_addr mz1)" "ring_wf r1" "ring_elems r1 = []" "ring_cap r1 = unat RING_SIZE - 1"
    by (rule rte_ring_create_ok [OF p1 RF, where j = zero_offload])
  let ?s2 = "?s1\<lparr>mallocs := mallocs ?s1 + 2, live := live ?s1 + 2, memzones := memzones ?s1 @ [mz1],
        ring_list := ring_list ?s1 @ [(mallocs ?s1, mz_addr mz1)]\<rparr>"
  have p2: "malloc_ok ?s2 = (\<lambda>_ _. True)" "memzone_lookup (RTE_RING_MZ_PREFIX @ ''send buffer'') ?s2 = None"
    "List.length (memzones ?s2) < mz_max ?s2" "List.length ''send buffer'' < 29"
    using assms c1(2) by (simp_all add: udp_names_free_def memzone_lookup_None RTE_RING_MZ_PREFIX_def
        RTE_MEMZONE_NAMESIZE_def)
  obtain r2 mz2 where c2: "rte_ring_create zero_offload ''send buffer'' RING_SIZE RING_F_SP_SC ?s2 = (Some r2,
      ?s2\<lparr>mallocs := mallocs ?s2 + 2, live := live ?s2 + 2, memzones := memzones ?s2 @ [mz2],
        ring_list := ring_list ?s2 @ [(mallocs ?s2, mz_addr mz2)]\<rparr>)"
    "mz_name mz2 = RTE_RING_MZ_PREFIX @ ''send buffer''" "mz_addr mz2 = Suc (mallocs ?s2)"
    "rmemzone r2 = Some (mz_addr mz2)" "ring_wf r2" "ring_elems r2 = []" "ring_cap r2 = unat RING_SIZE - 1"
    by (rule rte_ring_create_ok [OF p2 RF, where j = zero_offload])
  let ?h = "zero_host\<lparr>h_addr := mallocs s, h_fd := fd, h_protocol := IPPROTO_UDP, h_rcvbuf := Some r1, h_sndbuf := Some r2\<rparr>"
  show thesis
    by (rule that [where h = ?h and ?mz1.0 = mz1 and ?mz2.0 = mz2 and ?r1.0 = r1 and ?r2.0 = r2])
      (use m c1 c2 RING_SIZE_facts(5) in \<open>simp_all add: nsocket_udp_def fresh_buf_def\<close>)
qed

text \<open>Releasing a ring takes its zone and its list entry out of the registries.\<close>

lemma rte_ring_free_at:
  assumes "rmemzone r = Some (mz_addr mz)" "memzones s = xs @ mz # ys" "ring_list s = us @ (te, mz_addr mz) # vs"
    and "\<forall>z\<in>set (xs @ ys). mz_addr z \<noteq> mz_addr mz" "\<forall>e\<in>set (us @ vs). snd e \<noteq> mz_addr mz"
  shows "rte_ring_free (Some r) s = s\<lparr>live := live s - 2, memzones := xs @ ys, ring_list := us @ vs\<rparr>"
proof -
  have app: "find P (as @ b # bs) = Some b" if "\<forall>a\<in>set as. \<not> P a" "P b" for P :: "'c \<Rightarrow> bool" and as b bs
    using that by (induction as) auto
  have z: "find (\<lambda>z. mz_addr z = mz_addr mz) (memzones s) = Some mz"
    unfolding assms(2) by (rule app) (use assms(4) in auto)
  have f: "filter (\<lambda>z. mz_addr z \<noteq> mz_addr mz) (memzones s) = xs @ ys"
    unfolding assms(2) using assms(4) by (auto intro!: filter_True)
  have l: "find (\<lambda>(te, data). data = mz_addr mz) (ring_list s) = Some (te, mz_addr mz)"
  proof (unfold assms(3), rule app)
    show "\<forall>e\<in>set us. \<not> (case e of (te, data) \<Rightarrow> data = mz_addr mz)"
      using assms(5) by (auto simp: case_prod_beta)
  qed simp
  have "(te, mz_addr mz) \<notin> set us"
    using bspec [OF assms(5), of "(te, mz_addr mz)"] by (simp only: set_append Un_iff snd_conv) blast
  then have r: "remove1 (te, mz_addr mz) (ring_list s) = us @ vs"
    unfolding assms(3) by (simp add: remove1_append)
  show ?thesis
    using z f l r assms(1) by (simp add: rte_ring_free_def rte_memzone_free_def rte_free_def)
qed

definition hosts_wf :: "stack \<Rightarrow> bool" where
  "hosts_wf s \<longleftrightarrow> (\<forall>h\<in>set (lhost s). h_addr h < mallocs s)"

section \<open>Data from end to end\<close>

lemma find_map_replace:
  assumes "find (\<lambda>x. fd = f x) xs = Some h" "f h' = f h"
  shows "find (\<lambda>x. fd = f x) (map (\<lambda>x. if k x = k h then h' else x) xs) = Some h'"
  using assms by (induction xs) (auto split: if_splits)

text \<open>\<open>nsendto\<close> and \<open>nsend\<close> put exactly the bytes of the caller into the send buffer.\<close>

lemma buf_dequeue_only:
  assumes "ring_wf r" "ring_elems r = [x]"
  obtains r' where "ring_mc_dequeue (Some r) = Inr (0, Some x, r')" "ring_elems r' = []"
  by (rule ring_mc_dequeue_some [OF assms])

lemma nsendto_ok:
  assumes "is_host s fd h" "malloc_ok s = (\<lambda>_ _. True)" "0 < len" "fresh_buf (h_sndbuf h)"
  obtains s' r where "nsendto fd ubuf len d s = Inr (int len, s')" "ring_wf r"
    "ring_elems r = [\<lparr>ol_sip = localip h, ol_dip = sin_addr d, ol_sport = localport h, ol_dport = sin_port d,
       ol_protocol = junk_protocol s, ol_data = rd_bytes ubuf 0 len, ol_length = of_nat len\<rparr>]"
    "lhost s' = map (\<lambda>x. if h_addr x = h_addr h then h\<lparr>h_sndbuf := Some r\<rparr> else x) (lhost s)"
    "arpt s' = arpt s" "rInst s' = rInst s" "pool s' = pool s" "live s' = live s + 2"
proof -
  let ?ol = "\<lparr>ol_sip = localip h, ol_dip = sin_addr d, ol_sport = localport h, ol_dport = sin_port d,
       ol_protocol = junk_protocol s, ol_data = rd_bytes ubuf 0 len, ol_length = of_nat len\<rparr>"
  obtain a1 s1 where m1: "rte_malloc sizeof_offload s = (Some a1, s1)"
    using rte_malloc_total [of s sizeof_offload] assms(2) by auto
  note f1 = rte_malloc_fields [OF m1] rte_malloc_live [OF m1]
  obtain a2 s2 where m2: "rte_malloc len s1 = (Some a2, s2)"
    using rte_malloc_total [of s1 len] assms(2,3) f1 by auto
  note f2 = rte_malloc_fields [OF m2] rte_malloc_live [OF m2]
  obtain ret r where r: "ring_mp_enqueue (h_sndbuf h) ?ol = Inr (ret, r)" "ring_wf r" "ring_elems r = [?ol]"
    by (rule buf_enqueue [OF assms(4)])
  have e: "nsendto fd ubuf len d s = Inr (int len, put_host (h\<lparr>h_sndbuf := Some r\<rparr>) s2)"
    using is_hostD(1) [OF assms(1)] m1 m2 r(1) f1 by (simp add: nsendto_def)
  show thesis by (rule that [OF e r(2,3)]) (use f1 f2 in \<open>simp_all add: put_host_def\<close>)
qed

lemma nrecvfrom_all_eq:
  assumes "is_host s fd h" "h_rcvbuf h = Some r" "ring_wf r" "ring_elems r = [ol]" "unat (ol_length ol) \<le> n"
    and "unat (ol_length ol) = List.length (ol_data ol) + 8"
  obtains r' where "nrecvfrom fd n s = Inr (Done (int (List.length (ol_data ol)) + 8,
      Some \<lparr>sin_port = ol_sport ol, sin_addr = ol_sip ol\<rparr>, ol_data ol @ map (beyond s) [0..<8]),
      rte_free (Some 0) (rte_free (Some 0) (put_host (h\<lparr>h_rcvbuf := Some r'\<rparr>) (s\<lparr>overread := overread s + 8\<rparr>))))"
    "ring_elems r' = []"
proof -
  obtain r' where r': "ring_mc_dequeue (Some r) = Inr (0, Some ol, r')" "ring_elems r' = []"
    by (rule buf_dequeue_only [OF assms(3,4)])
  have "nrecvfrom fd n s = Inr (Done (int (List.length (ol_data ol)) + 8,
      Some \<lparr>sin_port = ol_sport ol, sin_addr = ol_sip ol\<rparr>, ol_data ol @ map (beyond s) [0..<8]),
      rte_free (Some 0) (rte_free (Some 0) (put_host (h\<lparr>h_rcvbuf := Some r'\<rparr>) (s\<lparr>overread := overread s + 8\<rparr>))))"
    using is_hostD(1) [OF assms(1)] r'(1) assms(2,5,6)
    by (simp add: nrecvfrom_def heap_read_def put_host_def)
  then show thesis using r'(2) by (rule that)
qed

lemma nrecvfrom_all:
  assumes "is_host s fd h" "h_rcvbuf h = Some r" "ring_wf r" "ring_elems r = [ol]" "unat (ol_length ol) \<le> n"
    and "unat (ol_length ol) = List.length (ol_data ol) + 8"
  obtains s' where "nrecvfrom fd n s = Inr (Done (int (List.length (ol_data ol)) + 8,
      Some \<lparr>sin_port = ol_sport ol, sin_addr = ol_sip ol\<rparr>, ol_data ol @ map (beyond s) [0..<8]), s')"
    "overread s' = overread s + 8" "live s' = live s - 2"
  by (rule nrecvfrom_all_eq [OF assms]) (rule that, assumption, simp_all add: rte_free_def put_host_def)

definition segment_of :: "ng_tcp_stream \<Rightarrow> u8 list \<Rightarrow> ng_tcp_fragment" where
  "segment_of st bs = zero_fragment\<lparr>f_dport := s_sport st, f_sport := s_dport st, acknum := rcv_nxt st,
     seqnum := snd_nxt st, tcp_flags := RTE_TCP_ACK_FLAG OR RTE_TCP_PSH_FLAG, windows := TCP_INITIAL_WINDOW,
     hdrlen_off := 0x50, f_data := Some (bs @ [0]), f_length := of_nat (List.length bs)\<rparr>"

lemma nsend_ok:
  assumes "is_stream s fd st" "malloc_ok s = (\<lambda>_ _. True)" "len \<le> 1994" "fresh_buf (s_sndbuf st)"
  obtains s' r where "nsend fd ubuf len s = Inr (int len, s')" "ring_wf r"
    "ring_elems r = [segment_of st (rd_bytes ubuf 0 len)]"
    "streams s' = map (\<lambda>x. if s_addr x = s_addr st then st\<lparr>s_sndbuf := Some r\<rparr> else x) (streams s)"
    "arpt s' = arpt s" "rInst s' = rInst s" "pool s' = pool s" "lhost s' = lhost s"
proof -
  let ?f = "segment_of st (rd_bytes ubuf 0 len)"
  obtain a1 s1 where m1: "rte_malloc sizeof_ng_tcp_fragment s = (Some a1, s1)"
    using rte_malloc_total [of s sizeof_ng_tcp_fragment] assms(2) by auto
  note f1 = rte_malloc_fields [OF m1]
  obtain a2 s2 where m2: "rte_malloc (len + 1) s1 = (Some a2, s2)"
    using rte_malloc_total [of s1 "len + 1"] assms(2) f1 by auto
  note f2 = rte_malloc_fields [OF m2]
  have l: "Suc len mod 18446744073709551616 = Suc len" using assms(3) by simp
  have u: "uint (of_nat len :: u32) = int len"
    using assms(3) by (simp add: uint_nat unat_of_nat_small)
  obtain ret r where r: "ring_mp_enqueue (s_sndbuf st) ?f = Inr (ret, r)" "ring_wf r" "ring_elems r = [?f]"
    by (rule buf_enqueue [OF assms(4)])
  have e: "nsend fd ubuf len s = Inr (int len, put_stream (st\<lparr>s_sndbuf := Some r\<rparr>) s2)"
    using is_streamD(1,2) [OF assms(1)] m1 m2 r(1) u by (simp add: nsend_def Let_def l segment_of_def)
  have "streams s2 = streams s" by (rule streams_cong) (use f1 f2 in simp)
  then show thesis by (intro that [OF e r(2,3)]) (use f1 f2 in \<open>simp_all add: streams_put, simp_all add: put_stream_def\<close>)
qed

lemma segment_of_ok: "List.length bs \<le> 1994 \<Longrightarrow> frag_ok (segment_of st bs)"
  by (simp add: frag_ok_def segment_of_def zero_fragment_def unat_of_nat_small)

lemma frag_payload_segment: "List.length bs \<le> 1994 \<Longrightarrow> frag_payload (segment_of st bs) = bs"
  by (simp add: frag_payload_def segment_of_def unat_of_nat_small)

text \<open>\<open>nrecv\<close> with a buffer that holds the oldest fragment.\<close>

lemma nrecv_fits_eq:
  assumes "is_stream s fd st" "s_rcvbuf st = Some r" "ring_wf r" "ring_elems r = f # rest"
    and "f_data f = Some (bs @ [0])" "f_length f = of_nat (List.length bs)" "bs \<noteq> []" "List.length bs \<le> n"
    and "List.length bs \<le> 65535"
  obtains r' where "nrecv fd n s = Inr (Done (int (List.length bs), bs),
      rte_free (Some 0) (rte_free (Some 0) (put_stream (st\<lparr>s_rcvbuf := Some r'\<rparr>) s)))"
    "ring_wf r'" "ring_elems r' = rest" "ring_cap r' = ring_cap r"
proof -
  obtain r' where r': "ring_mc_dequeue (Some r) = Inr (0, Some f, r')" "ring_wf r'" "ring_elems r' = rest"
    "ring_cap r' = ring_cap r"
    by (rule ring_mc_dequeue_some [OF assms(3,4)])
  have u: "unat (f_length f) = List.length bs"
    using assms(6,9) by (simp add: unat_of_nat_small)
  have h: "heap_read (bs @ [0]) (List.length bs) s' = (bs, s')" for s'
    by (simp add: heap_read_def)
  have "nrecv fd n s = Inr (Done (int (List.length bs), bs),
      rte_free (Some 0) (rte_free (Some 0) (put_stream (st\<lparr>s_rcvbuf := Some r'\<rparr>) s)))"
    using is_streamD(1,2) [OF assms(1)] r'(1) assms(2,5,7,8) by (simp add: nrecv_def Let_def u h)
  then show thesis using r'(2-4) by (rule that)
qed

lemma nrecv_fits:
  assumes "is_stream s fd st" "s_rcvbuf st = Some r" "ring_wf r" "ring_elems r = f # rest"
    and "f_data f = Some (bs @ [0])" "f_length f = of_nat (List.length bs)" "bs \<noteq> []" "List.length bs \<le> n"
    and "List.length bs \<le> 65535"
  obtains s' r' where "nrecv fd n s = Inr (Done (int (List.length bs), bs), s')" "ring_elems r' = rest"
    "streams s' = map (\<lambda>x. if s_addr x = s_addr st then st\<lparr>s_rcvbuf := Some r'\<rparr> else x) (streams s)"
    "overread s' = overread s" "live s' = live s - 2"
proof -
  obtain r' where e: "nrecv fd n s = Inr (Done (int (List.length bs), bs),
      rte_free (Some 0) (rte_free (Some 0) (put_stream (st\<lparr>s_rcvbuf := Some r'\<rparr>) s)))" (is "_ = Inr (_, ?s)")
    "ring_elems r' = rest"
    by (rule nrecv_fits_eq [OF assms])
  have "streams ?s = streams (put_stream (st\<lparr>s_rcvbuf := Some r'\<rparr>) s)"
    by (rule streams_cong) (simp add: rte_free_def)
  then show thesis
    by (intro that [OF e]) (simp_all add: streams_put, simp_all add: put_stream_def rte_free_def)
qed

section \<open>Properties\<close>

text \<open>C27. Opening and closing a datagram socket: \<open>nsocket\<close> returns the least free descriptor for a new
  socket with empty buffers, and closing it at once restores the sockets, the named rings, the
  live heap blocks and the set of used descriptors.\<close>

theorem nsocket_nclose_roundtrip:
  assumes "malloc_ok s = (\<lambda>_ _. True)" "udp_names_free s" "List.length (memzones s) + 2 < mz_max s"
    and "eal_wf s" "hosts_wf s" "fd_wf (fd_table s)" "\<not> {3..<1024} \<subseteq> fd_used (fd_table s)"
  shows "\<exists>n s1 h s2. nsocket d SOCK_DGRAM p s = Inr (int n, s1) \<and> n \<notin> fd_used (fd_table s)
    \<and> lhost s1 = h # lhost s \<and> h_fd h = int n \<and> fresh_buf (h_rcvbuf h) \<and> fresh_buf (h_sndbuf h)
    \<and> nclose (int n) s1 = Inr (0, s2) \<and> lhost s2 = lhost s \<and> memzones s2 = memzones s
    \<and> ring_list s2 = ring_list s \<and> live s2 = live s \<and> fd_used (fd_table s2) = fd_used (fd_table s)"
proof -
  obtain r t where g: "get_fd_frombitmap (fd_table s) = (r, t)" by fastforce
  obtain n where n: "r = int n" "n < MAX_FD_COUNT" "n \<notin> fd_used (fd_table s)" "fd_used t = insert n (fd_used (fd_table s))" "fd_wf t"
    using fds.alloc_law [OF assms(6) g] assms(7) by (auto simp: DEFAULT_FD_NUM_def MAX_FD_COUNT_def split: if_splits)
  let ?s = "s\<lparr>fd_table := t\<rparr>"
  have pre: "malloc_ok ?s = (\<lambda>_ _. True)" "udp_names_free ?s" "List.length (memzones ?s) + 2 < mz_max ?s" "eal_wf ?s"
    using assms(1-4) by (simp_all add: udp_names_free_def memzone_lookup_def eal_wf_def)
  obtain h mz1 mz2 r1 r2 s1 where o: "nsocket_udp (int n) ?s = Inr (int n, s1)" "lhost s1 = h # lhost ?s"
    "h_addr h = mallocs ?s" "h_fd h = int n" "h_protocol h = IPPROTO_UDP"
    "h_rcvbuf h = Some r1" "h_sndbuf h = Some r2" "fresh_buf (Some r1)" "fresh_buf (Some r2)"
    "mz_name mz1 = RTE_RING_MZ_PREFIX @ ''recv buffer''" "memzones s1 = memzones ?s @ [mz1, mz2]"
    "s1 = ?s\<lparr>mallocs := mallocs ?s + 5, live := live ?s + 5, memzones := memzones ?s @ [mz1, mz2],
       ring_list := ring_list ?s @ [(Suc (mallocs ?s), mz_addr mz1), (mallocs ?s + 3, mz_addr mz2)], lhost := h # lhost ?s\<rparr>"
    "mz_addr mz1 = mallocs ?s + 2" "mz_addr mz2 = mallocs ?s + 4"
    "rmemzone r1 = Some (mz_addr mz1)" "rmemzone r2 = Some (mz_addr mz2)"
    by (rule nsocket_udp_ok [OF pre])
  have open1: "nsocket d SOCK_DGRAM p s = Inr (int n, s1)"
    using g n(1) o(1) by (simp add: nsocket_def)
  let ?r = "ll_remove_host h s1"
  have "filter (\<lambda>x. h_addr x \<noteq> h_addr h) (lhost s) = lhost s"
    using assms(5) o(3) by (auto simp: hosts_wf_def intro!: filter_True)
  then have lh: "lhost ?r = lhost s" using o(2) by (simp add: ll_remove_host_def)
  have zones: "\<forall>z\<in>set (memzones s @ [mz2]). mz_addr z \<noteq> mz_addr mz1" "\<forall>z\<in>set (memzones s @ []). mz_addr z \<noteq> mz_addr mz2"
    "\<forall>e\<in>set (ring_list s @ [(mallocs s + 3, mz_addr mz2)]). snd e \<noteq> mz_addr mz1" "\<forall>e\<in>set (ring_list s @ []). snd e \<noteq> mz_addr mz2"
    using assms(4) o(13,14) by (auto simp: eal_wf_def)
  have f1: "rte_ring_free (Some r1) ?r = ?r\<lparr>live := live ?r - 2, memzones := memzones s @ [mz2],
      ring_list := ring_list s @ [(mallocs s + 3, mz_addr mz2)]\<rparr>" (is "_ = ?s2")
    by (rule rte_ring_free_at [OF o(15) _ _ zones(1,3)]) (simp_all add: ll_remove_host_def o(12))
  have f2: "rte_ring_free (Some r2) ?s2 = ?s2\<lparr>live := live ?s2 - 2, memzones := memzones s @ [], ring_list := ring_list s @ []\<rparr>"
    by (rule rte_ring_free_at [OF o(16) _ _ zones(2,4)]) simp_all
  have "fd_used (fd_release n t) = fd_used (fd_table s)"
    using fds.release_law [OF n(5), of n] n(2-4) fd_used_clear [OF n(5,2)]
    by (auto simp: fd_release_def set_fd_frombitmap_def Let_def)
  moreover have "set_fd (int n) s' = Inr ((), s'\<lparr>fd_table := fd_release n t\<rparr>)" if "fd_table s' = t" for s'
    using n(2) that by (simp add: set_fd_def fd_release_def set_fd_frombitmap_def Let_def)
  moreover have "fd_table (rte_free (Some (h_addr h)) (rte_ring_free (Some r2) (rte_ring_free (Some r1) ?r))) = t"
    unfolding f1 f2 by (simp add: rte_free_def ll_remove_host_def o(12))
  moreover have "get_hostinfo_fromfd (int n) s1 = Inr (Some (Host h), s1)"
    by (rule get_host) (simp add: o(2,4))
  ultimately have "nclose (int n) s1 = Inr (0, (rte_free (Some (h_addr h)) (rte_ring_free (Some r2) (rte_ring_free (Some r1) ?r)))
      \<lparr>fd_table := fd_release n t\<rparr>)" "fd_used (fd_release n t) = fd_used (fd_table s)"
    using o(5-7) by (simp_all add: nclose_def nclose_udp_def)
  then show ?thesis
    using open1 n(3) o(2,4,6-9,12) lh unfolding f1 f2
    by (intro exI conjI) (assumption | simp add: rte_free_def ll_remove_host_def)+
qed

lemma demo_udp_names: "udp_names_free demo_stack" "eal_wf demo_stack" "hosts_wf demo_stack"
    "fd_wf (fd_table demo_stack)" "\<not> {3..<1024} \<subseteq> fd_used (fd_table demo_stack)"
proof -
  have "(3 :: nat) \<in> {3..<1024}" "3 \<notin> fd_used (fd_table demo_stack)" by (simp_all add: fd_used_def)
  then show "\<not> {3..<1024} \<subseteq> fd_used (fd_table demo_stack)" by blast
qed (simp_all add: udp_names_free_def memzone_lookup_def eal_wf_def hosts_wf_def fd_wf_def MAX_FD_COUNT_def)

lemma nsocket_nclose_roundtrip_witness:
  "\<exists>n s1 s2. nsocket 2 SOCK_DGRAM 0 demo_stack = Inr (int n, s1) \<and> nclose (int n) s1 = Inr (0, s2) \<and> lhost s2 = []
    \<and> live s2 = 10"
proof -
  have "List.length (memzones demo_stack) + 2 < mz_max demo_stack" by simp
  from nsocket_nclose_roundtrip [OF demo_stack_simps(1) demo_udp_names(1) this demo_udp_names(2-5), of 2 0]
  show ?thesis by auto
qed

text \<open>C21. A datagram travels from one stack to another: what \<open>nsendto\<close> takes from its caller, \<open>udp_out\<close> puts
  into one frame, and a stack that receives this frame hands to \<open>nrecvfrom\<close> with the sender's
  address; but \<open>nrecvfrom\<close> reports 8 bytes too many and copies them from beyond the datagram.\<close>

theorem udp_end_to_end:
  assumes A: "is_host sA fdA hA" "malloc_ok sA = (\<lambda>_ _. True)" "fresh_buf (h_sndbuf hA)" "0 < len" "len \<le> 1998"
    and A_arp: "arpt sA = Some t" "arp_wf t" "arp_lookup sA (sin_addr d) = Some mac"
    and A_mac: "List.length mac = 6" "List.length (localmac hA) = 6" "pool sA = mb # ms" "out_room 1 sA"
    and B: "is_host sB fdB hB" "malloc_ok sB = (\<lambda>_ _. True)" "fresh_buf (h_rcvbuf hB)" "len + 8 \<le> n"
    and B_addr: "get_hostinfo_fromip_port (sin_addr d) (sin_port d) IPPROTO_UDP sB = Some hB"
  shows "\<exists>sA1 hA1 hA2 sA2 m sB1 sB2 rest. nsendto fdA ubuf len d sA = Inr (int len, sA1) \<and> is_host sA1 fdA hA1
    \<and> udp_out_one hA1 sA1 = Inr (hA2, sA2) \<and> out_frames sA2 = out_frames sA @ [m]
    \<and> udp_process m sB = Inr (0, sB1) \<and> signalled sB1 = signalled sB @ [h_addr hB]
    \<and> nrecvfrom fdB n sB1 = Inr (Done (int len + 8, Some \<lparr>sin_port = localport hA, sin_addr = localip hA\<rparr>,
          rd_bytes ubuf 0 len @ rest), sB2)
    \<and> List.length rest = 8 \<and> overread sB2 = overread sB1 + 8"
proof -
  let ?ol = "\<lparr>ol_sip = localip hA, ol_dip = sin_addr d, ol_sport = localport hA, ol_dport = sin_port d,
       ol_protocol = junk_protocol sA, ol_data = rd_bytes ubuf 0 len, ol_length = of_nat len\<rparr>"
  have ul: "unat (of_nat len :: u16) = len" by (rule unat_of_nat_small) (use A(5) in simp)
  obtain sA1 r where s1: "nsendto fdA ubuf len d sA = Inr (int len, sA1)" "ring_wf r" "ring_elems r = [?ol]"
    "lhost sA1 = map (\<lambda>x. if h_addr x = h_addr hA then hA\<lparr>h_sndbuf := Some r\<rparr> else x) (lhost sA)"
    "arpt sA1 = arpt sA" "rInst sA1 = rInst sA" "pool sA1 = pool sA" "live sA1 = live sA + 2"
    by (rule nsendto_ok [OF A(1,2,4,3)])
  let ?hA1 = "hA\<lparr>h_sndbuf := Some r\<rparr>"
  have h1: "is_host sA1 fdA ?hA1"
    using A(1) find_map_replace [where f = h_fd and k = h_addr and h = hA and h' = ?hA1] s1(4) by (simp add: is_host_def)
  have o1: "out_room 1 sA1" "out_frames sA1 = out_frames sA" "arp_lookup sA1 (sin_addr d) = Some mac"
    using A_mac(4) A_arp(3) s1(5,6) by (simp_all add: out_room_def out_frames_def out_ring_def arp_lookup_def)
  have "\<exists>s' r' m. udp_out_one ?hA1 sA1 = Inr (?hA1\<lparr>h_sndbuf := Some r'\<rparr>, s') \<and> ring_elems r' = []
    \<and> out_frames s' = out_frames sA1 @ [m] \<and> live s' = live sA1
    \<and> if_dst (decode_ip (mdata m)) = mac \<and> if_dip (decode_ip (mdata m)) = ol_dip ?ol
    \<and> if_sip (decode_ip (mdata m)) = ol_sip ?ol \<and> if_proto (decode_ip (mdata m)) = IPPROTO_UDP
    \<and> decode_udp (mdata m) = \<lparr>uf_sport = ol_sport ?ol, uf_dport = ol_dport ?ol,
         uf_dgram_length = ol_length ?ol + 8, uf_payload = ol_data ?ol\<rparr>
    \<and> ip_header_ok (mdata m) \<and> l4_ok (mdata m)"
    by (rule udp_out_one_known [where r = r and t = t and mb = mb and ms = ms])
      (use s1 o1 A_arp A_mac A(5) ul in simp_all)
  then obtain sA2 hA2 m where m: "udp_out_one ?hA1 sA1 = Inr (hA2, sA2)" "out_frames sA2 = out_frames sA @ [m]"
    "if_dip (decode_ip (mdata m)) = sin_addr d" "if_sip (decode_ip (mdata m)) = localip hA"
    "if_proto (decode_ip (mdata m)) = IPPROTO_UDP"
    "decode_udp (mdata m) = \<lparr>uf_sport = localport hA, uf_dport = sin_port d,
         uf_dgram_length = of_nat len + 8, uf_payload = rd_bytes ubuf 0 len\<rparr>"
    using o1(2) by auto
  let ?b = "mdata m"
  have u8: "unat (of_nat len + 8 :: u16) = len + 8"
    using ul A(5) by (simp add: unat_word_ariths)
  have b: "rd32 ?b ip_dst_addr = sin_addr d" "rd32 ?b ip_src_addr = localip hA" "?b ip_next_proto_id = IPPROTO_UDP"
    "rd16 ?b udp_dst_port = sin_port d" "rd16 ?b udp_src_port = localport hA"
    "ntohs (rd16 ?b udp_dgram_len) = of_nat len + 8"
    using m(3-6) by (simp_all add: decode_ip_def decode_udp_def)
  have dg: "datagram_of ?b = \<lparr>ol_sip = localip hA, ol_dip = sin_addr d, ol_sport = localport hA, ol_dport = sin_port d,
      ol_protocol = 17, ol_data = rd_bytes ubuf 0 len, ol_length = of_nat len + 8\<rparr>"
    using b m(6) by (simp add: datagram_of_def decode_udp_def)
  obtain rB where rB: "h_rcvbuf hB = Some rB" "ring_wf rB" "ring_elems rB = []" "ring_cap rB = 1023"
    using B(3) by (auto simp: fresh_buf_def split: option.splits)
  have "\<exists>s' r'. udp_process m sB = Inr (0, s') \<and> signalled s' = signalled sB @ [h_addr hB] \<and> ring_wf r'
    \<and> lhost s' = map (\<lambda>x. if h_addr x = h_addr hB then hB\<lparr>h_rcvbuf := Some r'\<rparr> else x) (lhost sB)
    \<and> ring_elems r' = (if List.length (ring_elems rB) < ring_cap rB then ring_elems rB @ [datagram_of ?b] else ring_elems rB)"
    by (rule udp_process_deliver [OF _ rB(1,2) B(2)]) (use b B_addr u8 A(4) in simp_all)
  then obtain sB1 r' where p: "udp_process m sB = Inr (0, sB1)" "signalled sB1 = signalled sB @ [h_addr hB]" "ring_wf r'"
    "lhost sB1 = map (\<lambda>x. if h_addr x = h_addr hB then hB\<lparr>h_rcvbuf := Some r'\<rparr> else x) (lhost sB)"
    "ring_elems r' = [datagram_of ?b]"
    using rB(3,4) by auto
  have h2: "is_host sB1 fdB (hB\<lparr>h_rcvbuf := Some r'\<rparr>)"
    using B(1) find_map_replace [where f = h_fd and k = h_addr and h = hB and h' = "hB\<lparr>h_rcvbuf := Some r'\<rparr>"] p(4)
    by (simp add: is_host_def)
  obtain sB2 where q: "nrecvfrom fdB n sB1 = Inr (Done (int (List.length (ol_data (datagram_of ?b))) + 8,
      Some \<lparr>sin_port = ol_sport (datagram_of ?b), sin_addr = ol_sip (datagram_of ?b)\<rparr>,
      ol_data (datagram_of ?b) @ map (beyond sB1) [0..<8]), sB2)" "overread sB2 = overread sB1 + 8"
    by (rule nrecvfrom_all [OF h2 _ p(3,5)]) (use B(4) u8 dg in simp_all)
  show ?thesis
    by (rule exI [of _ sA1], rule exI [of _ ?hA1], rule exI [of _ hA2], rule exI [of _ sA2], rule exI [of _ m],
        rule exI [of _ sB1], rule exI [of _ sB2], rule exI [of _ "map (beyond sB1) [0..<8]"])
      (use s1(1) h1 m(1,2) p(1,2) q dg in simp)
qed

definition demo_sender :: stack where
  "demo_sender = (demo_known 9)\<lparr>lhost := [demo_host]\<rparr>"

definition demo_receiver :: stack where
  "demo_receiver = demo_stack\<lparr>lhost := [demo_host\<lparr>localip := 9, localport := 8\<rparr>]\<rparr>"

lemma demo_fresh: "fresh_buf (Some (demo_ring x))"
  using demo_ring_wf [of x] by (simp add: fresh_buf_def)

lemma udp_end_to_end_witness:
  "\<exists>sA1 m sB1 sB2 rest. nsendto 3 (\<lambda>i. 65) 2 \<lparr>sin_port = 8, sin_addr = 9\<rparr> demo_sender = Inr (2, sA1)
    \<and> udp_process m demo_receiver = Inr (0, sB1)
    \<and> nrecvfrom 3 128 sB1 = Inr (Done (10, Some \<lparr>sin_port = 7, sin_addr = 5\<rparr>, [65, 65] @ rest), sB2)"
proof -
  let ?hB = "demo_host\<lparr>localip := 9, localport := 8\<rparr>" and ?d = "\<lparr>sin_port = 8, sin_addr = 9\<rparr>"
  let ?t = "\<lparr>arp_entries = [\<lparr>a_ip = 9, hwaddr = [6, 5, 4, 3, 2, 1], arp_type = 0\<rparr>], arp_count = 1\<rparr>"
  obtain mb ms where p: "demo_pool = mb # ms" by (cases demo_pool) (auto dest: arg_cong [of _ _ List.length])
  have A: "is_host demo_sender 3 demo_host" "malloc_ok demo_sender = (\<lambda>_ _. True)" "fresh_buf (h_sndbuf demo_host)"
    "arpt demo_sender = Some ?t" "arp_wf ?t" "arp_lookup demo_sender (sin_addr ?d) = Some [6, 5, 4, 3, 2, 1]"
    "pool demo_sender = mb # ms" "out_room 1 demo_sender" "List.length (localmac demo_host) = 6"
    using demo_known_facts [of 9] demo_fresh [of zero_offload] p
    by (simp_all add: demo_sender_def is_host_def demo_host_def arp_lookup_def out_room_def out_ring_def demo_known_def)
  have B: "is_host demo_receiver 3 ?hB" "malloc_ok demo_receiver = (\<lambda>_ _. True)" "fresh_buf (h_rcvbuf ?hB)"
    "get_hostinfo_fromip_port (sin_addr ?d) (sin_port ?d) IPPROTO_UDP demo_receiver = Some ?hB"
    using demo_fresh [of zero_offload]
    by (simp_all add: demo_receiver_def is_host_def demo_host_def get_hostinfo_fromip_port_def)
  have "rd_bytes (\<lambda>i. 65) 0 2 = [65, 65]" by (simp add: rd_bytes_def numeral_2_eq_2)
  moreover have "localport demo_host = 7" "localip demo_host = 5" by (simp_all add: demo_host_def)
  ultimately show ?thesis
    using udp_end_to_end [OF A(1-3) _ _ A(4-6) _ A(9,7,8) B(1-3) _ B(4), of 2 128 "\<lambda>i. 65"] by fastforce
qed

text \<open>The rings of a datagram socket have fixed names, so only one such socket can exist: while one
  does, \<open>nsocket\<close> fails with \<open>-1\<close>; it keeps the sockets and leaks no memory, but the descriptor it
  took from the bitmap is lost.\<close>

theorem nsocket_second_leaks_fd:
  assumes "malloc_ok s = (\<lambda>_ _. True)" "memzone_lookup (RTE_RING_MZ_PREFIX @ ''recv buffer'') s \<noteq> None"
    and "List.length (memzones s) < mz_max s" "fd_wf (fd_table s)" "\<not> {3..<1024} \<subseteq> fd_used (fd_table s)"
  shows "\<exists>n s'. nsocket d SOCK_DGRAM p s = Inr (-1, s') \<and> lhost s' = lhost s \<and> live s' = live s
    \<and> memzones s' = memzones s \<and> n \<notin> fd_used (fd_table s) \<and> fd_used (fd_table s') = insert n (fd_used (fd_table s))"
proof -
  obtain r t where g: "get_fd_frombitmap (fd_table s) = (r, t)" by fastforce
  obtain n where n: "r = int n" "n \<notin> fd_used (fd_table s)" "fd_used t = insert n (fd_used (fd_table s))"
    using fds.alloc_law [OF assms(4) g] assms(5) by (auto simp: DEFAULT_FD_NUM_def MAX_FD_COUNT_def split: if_splits)
  let ?s1 = "s\<lparr>fd_table := t, mallocs := Suc (mallocs s), live := live s + 1\<rparr>"
  have m: "rte_malloc sizeof_localhost (s\<lparr>fd_table := t\<rparr>) = (Some (mallocs s), ?s1)"
    using assms(1) by (simp add: rte_malloc_def malloc_heap_alloc_def Let_def)
  have m2: "rte_malloc 24 ?s1 = (Some (Suc (mallocs s)), ?s1\<lparr>mallocs := Suc (Suc (mallocs s)), live := live s + 2\<rparr>)"
    using assms(1) by (simp add: rte_malloc_def malloc_heap_alloc_def Let_def)
  have "memzone_reserve_aligned 0 (RTE_RING_MZ_PREFIX @ ''recv buffer'') (nat (rte_ring_get_memsize RING_SIZE)) 64 0
      (?s1\<lparr>mallocs := Suc (Suc (mallocs s)), live := live s + 2\<rparr>)
      = (None, ?s1\<lparr>mallocs := Suc (Suc (mallocs s)), live := live s + 2, rte_errno := EEXIST\<rparr>)"
    using assms(2,3) by (simp add: memzone_reserve_aligned_def memzone_lookup_def RTE_RING_MZ_PREFIX_def RTE_MEMZONE_NAMESIZE_def)
  then have "rte_ring_create zero_offload ''recv buffer'' RING_SIZE RING_F_SP_SC ?s1
      = (None, ?s1\<lparr>mallocs := Suc (Suc (mallocs s)), live := live s + 1, rte_errno := EEXIST\<rparr>)"
    using m2 rte_ring_memsize_bounds [OF RING_SIZE_facts(1,3)] RING_F_SP_SC_facts
    by (simp add: rte_ring_create_def Let_def rte_free_def RTE_RING_MZ_PREFIX_def RTE_MEMZONE_NAMESIZE_def)
  then have "nsocket d SOCK_DGRAM p s = Inr (-1, rte_free (Some (mallocs s)) (?s1\<lparr>mallocs := Suc (Suc (mallocs s)), rte_errno := EEXIST\<rparr>))"
    using g m by (simp add: nsocket_def nsocket_udp_def rte_free_def)
  then show ?thesis using n by (intro exI [of _ n] exI conjI) (assumption | simp add: rte_free_def)+
qed

lemma nsocket_second_leaks_fd_witness:
  "\<exists>n s'. nsocket 2 SOCK_DGRAM 0 (demo_stack\<lparr>memzones := [\<lparr>mz_name = ''RG_recv buffer'', mz_addr = 3, mz_len = 8576\<rparr>]\<rparr>)
     = Inr (-1, s') \<and> fd_used (fd_table s') = insert n (fd_used (fd_table demo_stack))"
proof -
  let ?s = "demo_stack\<lparr>memzones := [\<lparr>mz_name = ''RG_recv buffer'', mz_addr = 3, mz_len = 8576\<rparr>]\<rparr>"
  have f: "malloc_ok ?s = (\<lambda>_ _. True)" "memzone_lookup (RTE_RING_MZ_PREFIX @ ''recv buffer'') ?s \<noteq> None"
    "List.length (memzones ?s) < mz_max ?s" "fd_wf (fd_table ?s)" "\<not> {3..<1024} \<subseteq> fd_used (fd_table ?s)"
    "fd_table ?s = fd_table demo_stack"
    using demo_udp_names(4,5) by (simp_all add: memzone_lookup_def RTE_RING_MZ_PREFIX_def)
  show ?thesis using nsocket_second_leaks_fd [OF f(1-5), of 2 0] f(6) by auto
qed

text \<open>C1. A byte stream travels from one stack to another: what \<open>nsend\<close> takes from its caller, \<open>ng_tcp_out\<close>
  puts into one segment; a stack with the connection established at the other end accepts this
  segment, acknowledges it, and \<open>nrecv\<close> returns exactly these bytes, none read past a block.\<close>

theorem tcp_end_to_end:
  assumes A: "is_stream sA fdA stA" "malloc_ok sA = (\<lambda>_ _. True)" "fresh_buf (s_sndbuf stA)" "0 < len" "len \<le> 1994"
    and A_arp: "arpt sA = Some t" "arp_wf t" "arp_lookup sA (s_sip stA) = Some mac"
    and A_mac: "List.length mac = 6" "List.length (s_localmac stA) = 6" "pool sA = mb # ms" "out_room 1 sA"
    and B: "is_stream sB fdB stB" "malloc_ok sB = (\<lambda>_ _. True)" "fresh_buf (s_rcvbuf stB)" "has_room (s_sndbuf stB)" "len \<le> n"
    and B_peer: "find (\<lambda>x. s_sip x = s_dip stA \<and> s_dip x = s_sip stA \<and> s_sport x = s_dport stA
        \<and> s_dport x = s_sport stA) (streams sB) = Some stB" "s_status stB = NG_TCP_STATUS_ESTABLISHED"
  shows "\<exists>sA1 stA1 stA2 sA2 m sB1 stB1 sB2. nsend fdA ubuf len sA = Inr (int len, sA1) \<and> is_stream sA1 fdA stA1
    \<and> tcp_out_one stA1 sA1 = Inr (stA2, sA2) \<and> out_frames sA2 = out_frames sA @ [m]
    \<and> ng_tcp_process m sB = Inr (0, sB1) \<and> is_stream sB1 fdB stB1 \<and> rcv_nxt stB1 = rcv_nxt stB + of_nat len
    \<and> elems (s_sndbuf stB1) = elems (s_sndbuf stB) @ [ack_of (mdata m) stB1]
    \<and> nrecv fdB n sB1 = Inr (Done (int len, rd_bytes ubuf 0 len), sB2) \<and> overread sB2 = overread sB1"
proof -
  let ?bs = "rd_bytes ubuf 0 len"
  let ?f = "segment_of stA ?bs"
  have lb: "List.length ?bs \<le> 1994" using A(5) by simp
  obtain sA1 r where s1: "nsend fdA ubuf len sA = Inr (int len, sA1)" "ring_wf r" "ring_elems r = [?f]"
    "streams sA1 = map (\<lambda>x. if s_addr x = s_addr stA then stA\<lparr>s_sndbuf := Some r\<rparr> else x) (streams sA)"
    "arpt sA1 = arpt sA" "rInst sA1 = rInst sA" "pool sA1 = pool sA" "lhost sA1 = lhost sA"
    by (rule nsend_ok [OF A(1,2,5,3)])
  let ?st1 = "stA\<lparr>s_sndbuf := Some r\<rparr>"
  have h1: "is_stream sA1 fdA ?st1"
    using A(1) find_map_replace [where f = s_fd and k = s_addr and h = stA and h' = ?st1] s1(4,8) by (simp add: is_stream_def)
  have o1: "out_room 1 sA1" "out_frames sA1 = out_frames sA" "arp_lookup sA1 (s_sip ?st1) = Some mac"
    "s_sndbuf ?st1 = Some r" "List.length (s_localmac ?st1) = 6" "arpt sA1 = Some t" "pool sA1 = mb # ms"
    using A_mac A_arp s1(5-7) by (simp_all add: out_room_def out_frames_def out_ring_def arp_lookup_def)
  obtain sA2 r2 m where m: "tcp_out_one ?st1 sA1 = Inr (?st1\<lparr>s_sndbuf := Some r2\<rparr>, sA2)" "ring_elems r2 = []"
    "out_frames sA2 = out_frames sA1 @ [m]" "if_dst (decode_ip (mdata m)) = mac"
    "if_sip (decode_ip (mdata m)) = s_dip ?st1" "if_dip (decode_ip (mdata m)) = s_sip ?st1"
    "decode_tcp (mdata m) = tcp_frame_sent ?f" "ip_header_ok (mdata m)" "valid_segment (mdata m)"
    "live sA2 = live sA1 - (if f_data ?f = None then 1 else 2)"
    by (rule tcp_out_one_known [OF o1(4) s1(2,3) segment_of_ok [OF lb] o1(6) A_arp(2) o1(3) A_mac(1) o1(5,7,1)])
  let ?b = "mdata m"
  have b: "rd32 ?b ip_src_addr = s_dip stA" "rd32 ?b ip_dst_addr = s_sip stA" "rd16 ?b tcp_src_port = s_dport stA"
    "rd16 ?b tcp_dst_port = s_sport stA" "?b tcp_data_off = 0x50" "?b tcp_tcp_flags = RTE_TCP_ACK_FLAG OR RTE_TCP_PSH_FLAG"
    "rd_bytes ?b tcp_payload (unat (ntohs (rd16 ?b ip_total_length)) - 40) = ?bs"
    using m(5-7) frag_payload_segment [OF lb, of stA]
    by (simp_all add: decode_ip_def decode_tcp_def tcp_frame_sent_def tcp_frame_of_def segment_of_def)
  have hl: "seg_hdrlen ?b = 20" by (simp add: seg_hdrlen_def b)
  have lenb: "18 \<le> l4_length ?b ip_hdr" using m(9) by (simp add: valid_segment_def)
  have "List.length ?bs = unat (ntohs (rd16 ?b ip_total_length)) - 40" using arg_cong [OF b(7), of List.length] by simp
  then have tl: "unat (ntohs (rd16 ?b ip_total_length)) = 20 + seg_hdrlen ?b + len" using A(4) hl by simp
  have fl: "flag ?b RTE_TCP_PSH_FLAG" "\<not> flag ?b RTE_TCP_FIN_FLAG"
    by (simp_all add: flag_def b RTE_TCP_ACK_FLAG_def RTE_TCP_PSH_FLAG_def RTE_TCP_FIN_FLAG_def)
  have ex: "exact_stream ?b sB = Some stB" using B_peer(1) by (simp add: exact_stream_def b)
  have room: "has_room (s_rcvbuf stB)" "elems (s_rcvbuf stB) = []"
    using B(3) by (auto simp: has_room_def fresh_buf_def elems_def ring_used_0 split: option.splits)
  obtain sB1 stB1 where p: "ng_tcp_process m sB = Inr (0, sB1)"
    "streams sB1 = map (\<lambda>x. if s_addr x = s_addr stB then stB1 else x) (streams sB)"
    "rcv_nxt stB1 = rcv_nxt stB + of_nat len" "elems (s_rcvbuf stB1) = elems (s_rcvbuf stB) @ [data_of ?b len]"
    "elems (s_sndbuf stB1) = elems (s_sndbuf stB) @ [ack_of ?b stB1]"
    "s_fd stB1 = s_fd stB" "s_addr stB1 = s_addr stB" "s_protocol stB1 = s_protocol stB" "lhost sB1 = lhost sB"
    "\<forall>r. s_rcvbuf stB1 = Some r \<longrightarrow> ring_wf r"
    using process_data [OF m(9) ex B_peer(2) fl _ A(4) tl room(1) B(4,2)] hl by auto
  have h2: "is_stream sB1 fdB stB1"
    using B(1) find_map_replace [where f = s_fd and k = s_addr and h = stB and h' = stB1] p(2,6-9) by (simp add: is_stream_def)
  obtain rB where rB: "s_rcvbuf stB1 = Some rB" "ring_wf rB" "ring_elems rB = data_of ?b len # []"
    using p(4,10) room(2) by (auto simp: elems_def split: option.splits)
  have pay: "seg_payload ?b len = ?bs" using b(7) tl by (simp add: seg_payload_def hl)
  obtain sB2 where q: "nrecv fdB n sB1 = Inr (Done (int (List.length ?bs), ?bs), sB2)" "overread sB2 = overread sB1"
    by (rule nrecv_fits [OF h2 rB, of ?bs n]) (use A(4,5) B(5) pay in \<open>auto simp: data_of_def dest: arg_cong [of _ _ List.length]\<close>)
  show ?thesis
    by (rule exI [of _ sA1], rule exI [of _ ?st1], rule exI [of _ "?st1\<lparr>s_sndbuf := Some r2\<rparr>"], rule exI [of _ sA2],
        rule exI [of _ m], rule exI [of _ sB1], rule exI [of _ stB1], rule exI [of _ sB2])
      (use s1(1) h1 m(1,3) o1(2) p(1,3,5) h2 q in simp)
qed

definition demo_client :: stack where
  "demo_client = (demo_known 9)\<lparr>tInst := Some \<lparr>tcb_count = 0, tcb_set = [(demo_tcb 6 NG_TCP_STATUS_ESTABLISHED 9 9999)
     \<lparr>s_fd := 4\<rparr>]\<rparr>\<rparr>"

definition demo_server :: stack where
  "demo_server = demo_tcp [\<lparr>s_addr = 7, s_fd = 5, s_dip = 9, s_localmac = [6, 5, 4, 3, 2, 1], s_dport = 9999,
     s_protocol = IPPROTO_TCP, s_sport = 80, s_sip = 5, snd_nxt = 200, rcv_nxt = 100, s_status = NG_TCP_STATUS_ESTABLISHED,
     s_sndbuf = Some (demo_ring zero_fragment), s_rcvbuf = Some (demo_ring zero_fragment)\<rparr>]"

lemma tcp_end_to_end_witness:
  "\<exists>sA1 m sB1 sB2. nsend 4 (\<lambda>i. 65) 2 demo_client = Inr (2, sA1) \<and> ng_tcp_process m demo_server = Inr (0, sB1)
    \<and> nrecv 5 128 sB1 = Inr (Done (2, [65, 65]), sB2)"
proof -
  let ?A = "(demo_tcb 6 NG_TCP_STATUS_ESTABLISHED 9 9999)\<lparr>s_fd := 4\<rparr>"
  let ?B = "\<lparr>s_addr = 7, s_fd = 5, s_dip = 9, s_localmac = [6, 5, 4, 3, 2, 1], s_dport = 9999,
     s_protocol = IPPROTO_TCP, s_sport = 80, s_sip = 5, snd_nxt = 200, rcv_nxt = 100, s_status = NG_TCP_STATUS_ESTABLISHED,
     s_sndbuf = Some (demo_ring zero_fragment), s_rcvbuf = Some (demo_ring zero_fragment)\<rparr>"
  let ?t = "\<lparr>arp_entries = [\<lparr>a_ip = 9, hwaddr = [6, 5, 4, 3, 2, 1], arp_type = 0\<rparr>], arp_count = 1\<rparr>"
  obtain mb ms where p: "demo_pool = mb # ms" by (cases demo_pool) (auto dest: arg_cong [of _ _ List.length])
  have A: "is_stream demo_client 4 ?A" "malloc_ok demo_client = (\<lambda>_ _. True)" "fresh_buf (s_sndbuf ?A)"
    "arpt demo_client = Some ?t" "arp_wf ?t" "arp_lookup demo_client (s_sip ?A) = Some [6, 5, 4, 3, 2, 1]"
    "pool demo_client = mb # ms" "out_room 1 demo_client" "List.length (s_localmac ?A) = 6"
    using demo_known_facts [of 9] demo_fresh [of zero_fragment] p
    by (simp_all add: demo_client_def is_stream_def demo_tcb_def arp_lookup_def out_room_def out_ring_def demo_known_def streams_def)
  have B: "is_stream demo_server 5 ?B" "malloc_ok demo_server = (\<lambda>_ _. True)" "fresh_buf (s_rcvbuf ?B)" "has_room (s_sndbuf ?B)"
    "find (\<lambda>x. s_sip x = s_dip ?A \<and> s_dip x = s_sip ?A \<and> s_sport x = s_dport ?A \<and> s_dport x = s_sport ?A) (streams demo_server) = Some ?B"
    using demo_fresh [of zero_fragment] demo_room by (simp_all add: demo_server_def is_stream_def demo_tcb_def)
      (simp_all add: demo_tcp_def)
  have "rd_bytes (\<lambda>i. 65) 0 2 = [65, 65]" by (simp add: rd_bytes_def numeral_2_eq_2)
  then show ?thesis
    using tcp_end_to_end [OF A(1-3) _ _ A(4-6) _ A(9,7,8) B(1-4) _ B(5), of 2 128 "\<lambda>i. 65"] by fastforce
qed

lemma heap_read_at_in:
  "off + k \<le> List.length data \<Longrightarrow> heap_read_at data off k s = (take k (drop off data), s)"
  by (auto simp: heap_read_at_def intro: nth_equalityI)

text \<open>C28. Reading with a buffer shorter than the oldest fragment: \<open>nrecv\<close> stores the first \<open>n\<close> bytes but
  returns the number of bytes that are left, and puts the rest of the fragment behind the
  fragments that arrived later, so the next read continues in the wrong place.\<close>

theorem nrecv_short_buffer:
  assumes "is_stream s fd st" "s_rcvbuf st = Some r" "ring_wf r" "ring_elems r = f # rest"
    and "f_data f = Some (bs @ [0])" "f_length f = of_nat (List.length bs)" "n < List.length bs" "List.length bs \<le> 65535"
  shows "\<exists>s' r' f'. nrecv fd n s = Inr (Done (int (List.length bs - n), take n bs), s')
    \<and> streams s' = map (\<lambda>x. if s_addr x = s_addr st then st\<lparr>s_rcvbuf := Some r'\<rparr> else x) (streams s)
    \<and> ring_elems r' = rest @ [f'] \<and> frag_payload f' = drop n bs"
proof -
  obtain r1 where r1: "ring_mc_dequeue (Some r) = Inr (0, Some f, r1)" "ring_wf r1" "ring_elems r1 = rest" "ring_cap r1 = ring_cap r"
    by (rule ring_mc_dequeue_some [OF assms(3,4)])
  have u: "unat (f_length f) = List.length bs" using assms(6,8) by (simp add: unat_of_nat_small)
  have un: "unat (of_nat n :: u32) = n" using assms(7,8) by (simp add: unat_of_nat_small)
  have l': "unat (f_length f - of_nat n) = List.length bs - n"
    using u un assms(7) by (simp add: unat_sub_add_le)
  let ?f = "f\<lparr>f_data := Some (drop n bs @ drop (List.length bs - n) (bs @ [0])), f_length := f_length f - of_nat n\<rparr>"
  obtain ret r' where e: "rte_ring_mp_enqueue r1 ?f = (ret, r')" by fastforce
  have "List.length (ring_elems r1) < ring_cap r1"
    using ring_used_le_cap [OF assms(3)] length_ring_elems [of r] assms(4) r1(3,4) by simp
  then have q: "ring_elems r' = rest @ [?f]" using mp_enqueue_law [OF r1(2) e] r1(3) by simp
  have h: "heap_read (bs @ [0]) n s = (take n bs, s)" using assms(7) by (simp add: heap_read_def)
  have h2: "heap_read_at (bs @ [0]) n (List.length bs - n) s = (drop n bs, s)"
    using assms(7) by (simp add: heap_read_at_in)
  have ui: "uint (f_length f - of_nat n) = int (List.length bs - n)" using l' by (simp only: uint_nat)
  have n: "nrecv fd n s = Inr (Done (int (List.length bs - n), take n bs), put_stream (st\<lparr>s_rcvbuf := Some r'\<rparr>) s)"
    using is_streamD(1,2) [OF assms(1)] r1(1) assms(2,5,7) e
    by (simp add: nrecv_def Let_def u h h2 ui del: uint_sub_lem)
  have "frag_payload ?f = drop n bs" using l' by (simp add: frag_payload_def)
  then show ?thesis
    using n q streams_put by (intro exI [of _ "put_stream (st\<lparr>s_rcvbuf := Some r'\<rparr>) s"] exI [of _ r'] exI [of _ ?f]) simp
qed

lemma nrecv_short_buffer_witness:
  "\<exists>s bytes s'. nrecv 4 2 s = Inr (Done (3, bytes), s') \<and> bytes = [1, 2]"
proof -
  let ?st = "(demo_tcb 6 NG_TCP_STATUS_ESTABLISHED 9 9999)\<lparr>s_fd := 4\<rparr>"
  let ?bs = "[1, 2, 3, 4, 5]"
  obtain r where r: "ring_wf r" "ring_elems r = [segment_of ?st ?bs]" by (rule demo_queue)
  let ?stq = "?st\<lparr>s_rcvbuf := Some r\<rparr>"
  have st: "is_stream (demo_tcp [?stq]) 4 ?stq" "s_rcvbuf ?stq = Some r"
    by (simp_all add: is_stream_def demo_tcb_def) (simp add: demo_tcp_def)
  show ?thesis
    using nrecv_short_buffer [OF st r(1), of "segment_of ?st ?bs" "[]" ?bs 2] r(2)
    by (fastforce simp: segment_of_def)
qed

text \<open>Accepting: \<open>naccept\<close> gives the first control block of the port that has no descriptor yet, whatever its
  state, the least free descriptor, under which it is found from then on, and reports the peer's
  address and port; the descriptor was free before.\<close>

theorem naccept_pending:
  assumes "is_stream s fd l" "find (\<lambda>x. s_dport l = s_dport x \<and> s_fd x = -1) (streams s) = Some apt"
    and "fd_wf (fd_table s)" "\<not> {3..<1024} \<subseteq> fd_used (fd_table s)" "tcb_wf s" "s_protocol apt = IPPROTO_TCP"
    and "\<forall>x\<in>set (streams s). s_fd x = -1 \<or> nat (s_fd x) \<in> fd_used (fd_table s)"
    and "\<forall>h\<in>set (lhost s). nat (h_fd h) \<in> fd_used (fd_table s)"
  shows "\<exists>n s'. naccept fd s = Inr (Done (int n, Some \<lparr>sin_port = s_sport apt, sin_addr = s_sip apt\<rparr>), s')
    \<and> n \<notin> fd_used (fd_table s) \<and> {3..<n} \<subseteq> fd_used (fd_table s)
    \<and> fd_used (fd_table s') = insert n (fd_used (fd_table s)) \<and> is_stream s' (int n) (apt\<lparr>s_fd := int n\<rparr>)"
proof -
  obtain r t where g: "get_fd_frombitmap (fd_table s) = (r, t)" by fastforce
  have "(r = -1 \<and> t = fd_table s \<and> {DEFAULT_FD_NUM..<MAX_FD_COUNT} \<subseteq> fd_used (fd_table s))
    \<or> (\<exists>n. r = int n \<and> DEFAULT_FD_NUM \<le> n \<and> n < MAX_FD_COUNT \<and> n \<notin> fd_used (fd_table s)
       \<and> {DEFAULT_FD_NUM..<n} \<subseteq> fd_used (fd_table s)
       \<and> t = (fd_table s)[n div 8 := (fd_table s ! (n div 8)) OR fd_mask (n mod 8)])"
    using get_fd_loop_spec [OF assms(3), of DEFAULT_FD_NUM] g by (simp add: get_fd_frombitmap_def)
  then obtain n where n: "r = int n" "n \<notin> fd_used (fd_table s)" "{3..<n} \<subseteq> fd_used (fd_table s)"
    "fd_used t = insert n (fd_used (fd_table s))"
    using assms(4) fd_used_set [OF assms(3)] by (auto simp: DEFAULT_FD_NUM_def MAX_FD_COUNT_def)
  have l: "l \<in> set (streams s)" "apt \<in> set (streams s)" "s_fd apt = -1"
    using is_streamD(3) [OF assms(1)] assms(2) by (auto dest: find_Some_iff2)
  obtain tb where tb: "tInst s = Some tb" "tcb_set tb = streams s"
    using l(1) by (cases "tInst s") (auto simp: streams_def)
  let ?apt = "apt\<lparr>s_fd := int n\<rparr>"
  let ?s = "put_stream ?apt (s\<lparr>fd_table := t\<rparr>)"
  have acc: "get_accept_tcb (s_dport l) s = Inr (Some apt, s)"
    using tb assms(2) by (simp add: get_accept_tcb_def tcpInstance_def)
  have e: "naccept fd s = Inr (Done (int n, Some \<lparr>sin_port = s_sport apt, sin_addr = s_sip apt\<rparr>), ?s)"
    using is_streamD(1,2) [OF assms(1)] acc g n(1) by (simp add: naccept_def)
  have str: "streams ?s = map (\<lambda>x. if s_addr x = s_addr apt then ?apt else x) (streams s)"
    using streams_cong [of "s\<lparr>fd_table := t\<rparr>" s] by (simp add: streams_put)
  have none: "\<forall>x\<in>set (streams s). s_fd x \<noteq> int n" "\<forall>h\<in>set (lhost s). h_fd h \<noteq> int n"
    using assms(7,8) n(2) by fastforce+
  have "find (\<lambda>x. int n = s_fd x) (map (\<lambda>x. if s_addr x = s_addr apt then ?apt else x) xs) = Some ?apt"
    if "apt \<in> set xs" "set xs \<subseteq> set (streams s)" for xs
    using that none(1) by (induction xs) auto
  from this [OF l(2) subset_refl] have "find (\<lambda>x. int n = s_fd x) (streams ?s) = Some ?apt" unfolding str .
  moreover have "find (\<lambda>h. int n = h_fd h) (lhost ?s) = None"
    using none(2) by (auto simp: find_None_iff put_stream_def)
  ultimately have "is_stream ?s (int n) ?apt" using assms(6) by (simp add: is_stream_def)
  moreover have "fd_table ?s = t" by (simp add: put_stream_def)
  ultimately show ?thesis using e n by (intro exI [of _ n] exI [of _ ?s]) simp
qed

lemma naccept_pending_witness:
  "\<exists>s n s'. naccept 3 s = Inr (Done (int n, Some \<lparr>sin_port = 9999, sin_addr = 9\<rparr>), s') \<and> n \<noteq> 3"
proof -
  let ?a = "demo_tcb 6 NG_TCP_STATUS_ESTABLISHED 9 9999" and ?l = "(demo_tcb 5 NG_TCP_STATUS_LISTEN 0 0)\<lparr>s_fd := 3\<rparr>"
  define s where "s = demo_tcp [?a, ?l]\<lparr>fd_table := 8 # replicate 1023 0\<rparr>"
  have st: "streams s = [?a, ?l]" unfolding s_def using streams_cong [of "demo_tcp [?a, ?l]\<lparr>fd_table := 8 # replicate 1023 0\<rparr>"
      "demo_tcp [?a, ?l]"] by simp
  have m: "mallocs s = 10" by (simp add: s_def)
  have l: "lhost s = []" "fd_table s = 8 # replicate 1023 0" by (simp_all add: s_def demo_tcp_def)
  have u: "3 \<in> fd_used (fd_table s)" "4 \<notin> fd_used (fd_table s)"
    unfolding l(2) by (auto simp: fd_used_def MAX_FD_COUNT_def)
  have "(4 :: nat) \<in> {3..<1024}" by simp
  then have nf: "\<not> {3..<1024} \<subseteq> fd_used (fd_table s)" using u(2) by blast
  have f: "is_stream s 3 ?l" "find (\<lambda>x. s_dport ?l = s_dport x \<and> s_fd x = -1) (streams s) = Some ?a"
    "fd_wf (fd_table s)" "tcb_wf s" "s_protocol ?a = IPPROTO_TCP" "s_sport ?a = 9999" "s_sip ?a = 9"
    using st l m by (simp_all add: is_stream_def demo_tcb_def tcb_wf_def statuses_def fd_wf_def MAX_FD_COUNT_def)
  have g: "\<forall>x\<in>set (streams s). s_fd x = -1 \<or> nat (s_fd x) \<in> fd_used (fd_table s)"
    using u(1) by (simp add: st demo_tcb_def)
  have h: "\<forall>h\<in>set (lhost s). nat (h_fd h) \<in> fd_used (fd_table s)" by (simp add: l(1))
  show ?thesis
    using naccept_pending [OF f(1-3) nf f(4,5) g h] u(1) unfolding f(6,7) by metis
qed

end
