(* ===== verification/Pkt_Props.thy ===== *)
theory Pkt_Props
  imports Pkt Socket_Props
begin

text \<open>
  Properties of the kernel interface and of the packet threads: what reaches the kernel and what
  comes back, the answers to its requests, clean failure of the start-up, and the ownership of the
  packet buffers along the way from the driver through the worker to the driver.
\<close>

section \<open>The kernel interface\<close>

lemma free_all_eq: "free_all ms s = s\<lparr>pool := rev ms @ pool s\<rparr>"
  by (induction ms arbitrary: s) (simp_all add: rte_pktmbuf_free_def)

lemma kni_tx_burst_law:
  assumes "fifo_wf (rx_q k)" "fifo_wf (free_q k)" "rte_kni_tx_burst k ms s = (n, k', s')"
  shows "n = min (List.length ms) (fifo_cap (rx_q k) - List.length (fifo_elems (rx_q k)))
    \<and> fifo_elems (rx_q k') = fifo_elems (rx_q k) @ take n ms
    \<and> fifo_elems (free_q k') = drop 32 (fifo_elems (free_q k))
    \<and> s' = s\<lparr>pool := rev (take 32 (fifo_elems (free_q k))) @ pool s\<rparr>
    \<and> fifo_wf (rx_q k') \<and> fifo_wf (free_q k') \<and> fifo_cap (rx_q k') = fifo_cap (rx_q k)
    \<and> k' = k\<lparr>rx_q := rx_q k', free_q := free_q k'\<rparr>"
proof -
  let ?n = "min (unat (kni_fifo_free_count (rx_q k))) (List.length ms)"
  have n: "?n = min (List.length ms) (fifo_cap (rx_q k) - List.length (fifo_elems (rx_q k)))"
    using kni_fifo_free_count_eq [OF assms(1)] by simp
  obtain ret q where p: "kni_fifo_put (rx_q k) (take ?n ms) = (ret, q)" by fastforce
  obtain xs q' where g: "kni_fifo_get (free_q k) MAX_MBUF_BURST_NUM = (xs, q')" by fastforce
  note pl = kni_fifo_put_law [OF assms(1) p] and gl = kni_fifo_get_law [OF assms(2) g]
  have r: "ret = ?n" using pl n by auto
  have e: "n = ret" "k' = k\<lparr>rx_q := q, free_q := q'\<rparr>" "s' = free_all xs s"
    using assms(3) p g by (simp_all add: rte_kni_tx_burst_def kni_free_mbufs_def Let_def)
  have x: "xs = take 32 (fifo_elems (free_q k))" using gl unfolding MAX_MBUF_BURST_NUM_def by blast
  moreover have "fifo_elems (free_q k) = xs @ fifo_elems q'" using gl by blast
  ultimately have d: "fifo_elems q' = drop 32 (fifo_elems (free_q k))" by (metis append_take_drop_id same_append_eq)
  have t: "take ret (take ?n ms) = take ret ms" using r by simp
  have q: "rx_q k' = q" "free_q k' = q'" using e(2) by simp_all
  have "k' = k\<lparr>rx_q := rx_q k', free_q := free_q k'\<rparr>" using e(2) by simp
  moreover have "fifo_elems q = fifo_elems (rx_q k) @ take ret ms" "fifo_wf q" "fifo_cap q = fifo_cap (rx_q k)"
    using pl t by simp_all
  moreover have "s' = s\<lparr>pool := rev (take 32 (fifo_elems (free_q k))) @ pool s\<rparr>"
    using e(3) x by (simp only: free_all_eq)
  ultimately show ?thesis using d gl r n unfolding q e(1) by metis
qed

lemma fresh_fifo_facts: "fifo_wf (fresh_fifo x)" "fifo_elems (fresh_fifo x) = []" "fifo_cap (fresh_fifo x) = 1023"
proof -
  have e: "fresh_fifo x = \<lparr>f_write = 0, f_read = 0, f_len = 1024, f_elem_size = 8, f_buffer = replicate 1024 x\<rparr>"
    by (simp add: fresh_fifo_def kni_fifo_init_def KNI_FIFO_COUNT_MAX_def)
  have "\<exists>k<32. (1024 :: u32) = 2 ^ k" by (intro exI [of _ 10]) simp
  then show "fifo_wf (fresh_fifo x)" "fifo_elems (fresh_fifo x) = []" "fifo_cap (fresh_fifo x) = 1023"
    unfolding e by (simp_all add: fifo_wf_def fifo_elems_def slice_def span_def fifo_cap_def)
qed

section \<open>What a packet changes\<close>

definition ipv4_packet :: "mbuf \<Rightarrow> bool" where
  "ipv4_packet m \<longleftrightarrow> rd16 (mdata m) eth_ether_type = htons RTE_ETHER_TYPE_IPV4"

definition stack_packet :: "mbuf \<Rightarrow> bool" where
  "stack_packet m \<longleftrightarrow> ipv4_packet m \<and> mdata m ip_next_proto_id \<in> {IPPROTO_UDP, IPPROTO_TCP}"

lemma arp_insert_keeps:
  assumes "ng_arp_entry_insert ip mac s = Inr (r, s')"
  shows "tInst s' = tInst s" "pool s' = pool s" "mallocs s \<le> mallocs s'" "rInst s' = rInst s" "lhost s' = lhost s"
proof -
  obtain t s1 where t: "arp_table_instance s = Inr (t, s1)" using assms by (auto simp: ng_arp_entry_insert_def)
  have s1: "tInst s1 = tInst s" "pool s1 = pool s" "mallocs s \<le> mallocs s1" "rInst s1 = rInst s" "lhost s1 = lhost s"
    "arpt s1 = Some t"
    using t by (auto simp: arp_table_instance_def Let_def dest: rte_malloc_fields split: option.splits prod.splits)
  have g: "ng_get_dst_macaddr ip s1 = Inr (arp_search ip (arp_count t) (arp_entries t), s1)"
    using s1(6) by (simp add: ng_get_dst_macaddr_def arp_table_instance_def)
  obtain a s2 where m: "rte_malloc sizeof_arp_entry s1 = (a, s2)" by fastforce
  note f = rte_malloc_fields [OF m]
  have "s' = s1 \<or> s' = s2 \<or> (\<exists>tb. s' = s2\<lparr>arpt := Some tb\<rparr>)"
    using assms t g m by (auto simp: ng_arp_entry_insert_def Let_def split: if_splits option.splits)
  then show "tInst s' = tInst s" "pool s' = pool s" "mallocs s \<le> mallocs s'" "rInst s' = rInst s" "lhost s' = lhost s"
    using s1 f by auto
qed

lemma udp_process_keeps:
  assumes "udp_process m s = Inr (ret, s')"
  shows "tInst s' = tInst s" "mallocs s \<le> mallocs s'"
proof -
  let ?b = "mdata m"
  let ?n = "size_sub (unat (ntohs (rd16 ?b udp_dgram_len))) 8"
  note d = assms [unfolded udp_process_def Let_def]
  obtain a1 s1 where m1: "rte_malloc sizeof_offload s = (a1, s1)" by fastforce
  obtain a2 s2 where m2: "rte_malloc ?n s1 = (a2, s2)" by fastforce
  note f = rte_malloc_fields [OF m1] rte_malloc_fields [OF m2]
  have le: "mallocs s \<le> mallocs s2" using f by (meson le_trans)
  have "tInst s' = tInst s \<and> mallocs s \<le> mallocs s'"
  proof (cases "get_hostinfo_fromip_port (rd32 ?b ip_dst_addr) (rd16 ?b udp_dst_port) (?b ip_next_proto_id) s")
    case None
    then show ?thesis using d by (auto simp: rte_pktmbuf_free_def)
  next
    case (Some host)
    then show ?thesis
      using d m1 m2 f le
      by (cases a1; cases a2) (auto simp: rte_pktmbuf_free_def rte_free_def put_host_def split: sum.splits prod.splits)
  qed
  then show "tInst s' = tInst s" "mallocs s \<le> mallocs s'" by simp_all
qed

lemma tcb_wf_same: "tcb_wf s \<Longrightarrow> tInst s' = tInst s \<Longrightarrow> mallocs s \<le> mallocs s' \<Longrightarrow> tcb_wf s'"
  by (rule tcb_wf_le [OF statuses_cong])

lemma stack_packet_step:
  assumes "pkt_process_one i ms a = Inr (ms', a')" "stack_packet (ms ! i)" "tcb_wf (stk a)" "i < List.length ms"
  shows "tcb_step (statuses (stk a)) (statuses (stk a')) \<and> tcb_wf (stk a')
    \<and> map m_id (pool (stk a')) = m_id (ms ! i) # map m_id (pool (stk a))
    \<and> global_kni a' = global_kni a \<and> eth_ports a' = eth_ports a \<and> nic_tx a' = nic_tx a
    \<and> map m_id ms' = map m_id ms \<and> (\<forall>j. j \<noteq> i \<longrightarrow> ms' ! j = ms ! j)"
proof -
  let ?m = "ms ! i"
  obtain r s1 where arp: "ng_arp_entry_insert (rd32 (mdata ?m) ip_src_addr) (rd_bytes (mdata ?m) eth_s_addr 6) (stk a)
      = Inr (r, s1)"
    and rest: "(if mdata ?m ip_next_proto_id = IPPROTO_UDP
       then bindE (on_stack (udp_process ?m) (a\<lparr>stk := s1\<rparr>)) (\<lambda>_ a. Inr (ms, a))
       else bindE (on_stack (ng_tcp_process ?m) (a\<lparr>stk := s1\<rparr>))
         (\<lambda>_ a. Inr (ms[i := ?m\<lparr>mdata := wr16 tcp_cksum 0 (mdata ?m)\<rparr>], a))) = Inr (ms', a')"
    using assms(1,2) by (auto simp: pkt_process_one_def stack_packet_def ipv4_packet_def on_stack_def Let_def split: sum.splits if_splits)
  note k = arp_insert_keeps [OF arp]
  have wf: "tcb_wf s1" by (rule tcb_wf_same [OF assms(3) k(1,3)])
  have st: "statuses s1 = statuses (stk a)" by (rule statuses_cong [OF k(1)])
  show ?thesis
  proof (cases "mdata ?m ip_next_proto_id = IPPROTO_UDP")
    case True
    then obtain ret s2 where u: "udp_process ?m s1 = Inr (ret, s2)" "a' = a\<lparr>stk := s2\<rparr>" "ms' = ms"
      using rest by (auto simp: on_stack_def split: sum.splits)
    note ku = udp_process_keeps [OF u(1)]
    have "pool s2 = ?m # pool s1" using udp_process_frame [OF u(1)] by blast
    then show ?thesis
      using u(2,3) k(2) st statuses_cong [OF ku(1)] tcb_wf_same [OF wf ku] by (simp add: tcb_step.stay)
  next
    case False
    then obtain ret s2 where t: "ng_tcp_process ?m s1 = Inr (ret, s2)" "a' = a\<lparr>stk := s2\<rparr>"
      "ms' = ms[i := ?m\<lparr>mdata := wr16 tcp_cksum 0 (mdata ?m)\<rparr>]"
      using rest by (auto simp: on_stack_def split: sum.splits)
    have "map m_id ms' = map m_id ms" using t(3) assms(4) by (simp add: map_update list_update_same_conv)
    then show ?thesis using process_step [OF t(1) wf] t(2,3) k(2) st by simp
  qed
qed

lemma stack_burst_run:
  assumes "pkt_process_loop is ms a = Inr (ms', a')" "tcb_wf (stk a)"
    and "distinct is" "\<forall>i\<in>set is. i < List.length ms \<and> stack_packet (ms ! i)"
  shows "tcb_step\<^sup>*\<^sup>* (statuses (stk a)) (statuses (stk a')) \<and> tcb_wf (stk a')
    \<and> map m_id (pool (stk a')) = rev (map (\<lambda>i. m_id (ms ! i)) is) @ map m_id (pool (stk a))
    \<and> global_kni a' = global_kni a \<and> eth_ports a' = eth_ports a \<and> nic_tx a' = nic_tx a"
  using assms
proof (induction "is" arbitrary: ms a)
  case (Cons i "is")
  obtain ms1 a1 where o: "pkt_process_one i ms a = Inr (ms1, a1)" "pkt_process_loop is ms1 a1 = Inr (ms', a')"
    using Cons.prems(1) by auto
  have i: "stack_packet (ms ! i)" "i < List.length ms" using Cons.prems(4) by auto
  note st = stack_packet_step [OF o(1) i(1) Cons.prems(2) i(2)]
  have len: "List.length ms1 = List.length ms" using st by (metis length_map)
  have same: "ms1 ! j = ms ! j" if "j \<in> set is" for j using st Cons.prems(3) that by auto
  have "tcb_step\<^sup>*\<^sup>* (statuses (stk a1)) (statuses (stk a')) \<and> tcb_wf (stk a')
    \<and> map m_id (pool (stk a')) = rev (map (\<lambda>i. m_id (ms1 ! i)) is) @ map m_id (pool (stk a1))
    \<and> global_kni a' = global_kni a1 \<and> eth_ports a' = eth_ports a1 \<and> nic_tx a' = nic_tx a1"
    using st o(2) Cons.prems(3,4) len same by (intro Cons.IH) auto
  moreover have "map (\<lambda>i. m_id (ms1 ! i)) is = map (\<lambda>i. m_id (ms ! i)) is" using same by simp
  ultimately show ?case using st by (auto intro: converse_rtranclp_into_rtranclp)
qed simp

section \<open>Foreign packets\<close>

text \<open>A packet that is neither UDP nor TCP over IPv4 makes the worker give the whole burst to the kernel.\<close>

definition room_for :: "nat \<Rightarrow> rte_kni \<Rightarrow> bool" where
  "room_for n k \<longleftrightarrow> fifo_wf (rx_q k) \<and> fifo_wf (free_q k) \<and> fifo_elems (free_q k) = []
     \<and> List.length (fifo_elems (rx_q k)) + n \<le> fifo_cap (rx_q k)"

lemma kni_tx_room:
  assumes "global_kni a = Some k" "room_for (n + List.length ms) k"
  obtains k' where "kni_tx ms a = Inr (List.length ms, a\<lparr>global_kni := Some k'\<rparr>)"
    "fifo_elems (rx_q k') = fifo_elems (rx_q k) @ ms" "room_for n k'"
proof -
  obtain c k' s' where e: "rte_kni_tx_burst k ms (stk a) = (c, k', s')" by (rule prod_cases3)
  have w: "fifo_wf (rx_q k)" "fifo_wf (free_q k)" using assms(2) by (simp_all add: room_for_def)
  note l = kni_tx_burst_law [OF w e]
  have c: "c = List.length ms" using l assms(2) by (auto simp: room_for_def)
  have s: "s' = stk a" using l assms(2) by (simp add: room_for_def)
  show thesis
  proof (rule that [of k'])
    show "kni_tx ms a = Inr (List.length ms, a\<lparr>global_kni := Some k'\<rparr>)"
      using assms(1) e c s by (simp add: kni_tx_def)
    show "fifo_elems (rx_q k') = fifo_elems (rx_q k) @ ms" using l c by simp
    show "room_for n k'" using l c assms(2) by (simp add: room_for_def)
  qed
qed

lemma foreign_step:
  assumes "global_kni a = Some k" "room_for (n + List.length ms) k" "\<not> ipv4_packet (ms ! i)"
  obtains k' where "pkt_process_one i ms a = Inr (ms, a\<lparr>global_kni := Some k'\<rparr>)"
    "fifo_elems (rx_q k') = fifo_elems (rx_q k) @ ms" "room_for n k'"
proof -
  obtain k' where k: "kni_tx ms a = Inr (List.length ms, a\<lparr>global_kni := Some k'\<rparr>)"
    "fifo_elems (rx_q k') = fifo_elems (rx_q k) @ ms" "room_for n k'"
    by (rule kni_tx_room [OF assms(1,2)])
  show thesis
    by (rule that [OF _ k(2,3)]) (use assms(3) k(1) in \<open>simp add: pkt_process_one_def ipv4_packet_def Let_def\<close>)
qed

lemma foreign_loop:
  assumes "global_kni a = Some k" "room_for (List.length is * List.length ms) k"
    and "\<forall>i\<in>set is. \<not> ipv4_packet (ms ! i)"
  shows "\<exists>k'. pkt_process_loop is ms a = Inr (ms, a\<lparr>global_kni := Some k'\<rparr>)
    \<and> fifo_elems (rx_q k') = fifo_elems (rx_q k) @ concat (replicate (List.length is) ms)"
  using assms
proof (induction "is" arbitrary: a k)
  case Nil
  then have "a\<lparr>global_kni := Some k\<rparr> = a" by (cases a) simp
  then show ?case by (intro exI [of _ k]) simp
next
  case (Cons i "is")
  have r: "room_for (List.length is * List.length ms + List.length ms) k" using Cons.prems(2) by (simp add: add.commute)
  obtain k1 where k1: "pkt_process_one i ms a = Inr (ms, a\<lparr>global_kni := Some k1\<rparr>)"
    "fifo_elems (rx_q k1) = fifo_elems (rx_q k) @ ms" "room_for (List.length is * List.length ms) k1"
    by (rule foreign_step [OF Cons.prems(1) r]) (use Cons.prems(3) in auto)
  have "\<exists>k'. pkt_process_loop is ms (a\<lparr>global_kni := Some k1\<rparr>) = Inr (ms, a\<lparr>global_kni := Some k1, global_kni := Some k'\<rparr>)
    \<and> fifo_elems (rx_q k') = fifo_elems (rx_q k1) @ concat (replicate (List.length is) ms)"
    by (rule Cons.IH) (use Cons.prems(3) k1(3) in auto)
  then show ?case using k1(1,2) by auto
qed

section \<open>The rings between the threads\<close>

definition in_ring :: "stack \<Rightarrow> mbuf rte_ring option" where
  "in_ring s = (case rInst s of None \<Rightarrow> None | Some ri \<Rightarrow> ring_in ri)"

lemma in_ringD: "in_ring s = Some r \<Longrightarrow> \<exists>ri. rInst s = Some ri \<and> ring_in ri = Some r \<and> ringInstance s = Inr (ri, s)"
  by (auto simp: in_ring_def ringInstance_def split: option.splits)

lemma out_ringD: "out_ring s = Some r \<Longrightarrow> \<exists>ri. rInst s = Some ri \<and> ring_out ri = Some r \<and> ringInstance s = Inr (ri, s)"
  by (auto simp: out_ring_def ringInstance_def split: option.splits)

lemma main_rx_law:
  assumes "in_ring (stk a) = Some r" "ring_wf r" "List.length rx \<le> 32"
  obtains r' ri where "main_rx rx a = Inr ((), a\<lparr>stk := (stk a)\<lparr>rInst := Some ri\<rparr>\<rparr>)" "ring_in ri = Some r'" "ring_wf r'"
    "ring_cap r' = ring_cap r"
    "ring_elems r' = ring_elems r @ take (ring_cap r - List.length (ring_elems r)) rx"
proof -
  obtain ri where ri: "rInst (stk a) = Some ri" "ring_in ri = Some r" "ringInstance (stk a) = Inr (ri, stk a)"
    using in_ringD [OF assms(1)] by blast
  show thesis
  proof (cases "rx = []")
    case True
    have "(stk a)\<lparr>rInst := Some ri\<rparr> = stk a" using ri(1) by (cases "stk a") simp
    then have "a\<lparr>stk := (stk a)\<lparr>rInst := Some ri\<rparr>\<rparr> = a" by simp
    then show thesis using that [of ri r] True ri assms(2) by (simp add: main_rx_def)
  next
    case False
    obtain n fr r' where e: "rte_ring_sp_enqueue_burst r rx = (n, fr, r')" by (rule prod_cases3)
    have l: "unat n = min (List.length rx) (ring_cap r - ring_used r)"
      "ring_elems r' = ring_elems r @ take (unat n) rx" "ring_wf r'" "ring_cap r' = ring_cap r"
      using do_enqueue_law [OF assms(2) _ e [unfolded rte_ring_sp_enqueue_burst_def]] assms(3)
      by (simp_all add: moved_variable)
    show thesis
      by (rule that [of "ri\<lparr>ring_in := Some r'\<rparr>" r'])
        (use False assms(3) ri e l in \<open>auto simp: main_rx_def on_stack_def BURST_SIZE_def min_def\<close>)
  qed
qed

lemma take_min_used: "take (min n (ring_used r)) (ring_elems r) = take n (ring_elems r)"
  using length_ring_elems [of r] by (simp add: min_def)

lemma ring_in_dequeue_law:
  assumes "in_ring s = Some r" "ring_wf r" "n < 2 ^ 32"
  obtains r' ri where "ring_in_dequeue n s = Inr (take n (ring_elems r), s\<lparr>rInst := Some ri\<rparr>)" "ring_in ri = Some r'"
    "ring_wf r'" "ring_elems r' = drop n (ring_elems r)"
proof -
  obtain ri where ri: "rInst s = Some ri" "ring_in ri = Some r" "ringInstance s = Inr (ri, s)"
    using in_ringD [OF assms(1)] by blast
  obtain xs av r' where e: "rte_ring_mc_dequeue_burst r (of_nat n) = (xs, av, r')" by (rule prod_cases3)
  have u: "unat (of_nat n :: u32) = n" using assms(3) by (intro unat_of_nat_small) simp
  have x: "xs = take n (ring_elems r)" and l: "ring_elems r = xs @ ring_elems r'" "ring_wf r'"
    using do_dequeue_law [OF assms(2) e [unfolded rte_ring_mc_dequeue_burst_def]]
    unfolding moved_variable u take_min_used by blast+
  have "ring_elems r' = drop n (ring_elems r)" using x l(1) by (metis append_take_drop_id same_append_eq)
  then show thesis
    using that [of "ri\<lparr>ring_in := Some r'\<rparr>" r'] ri e x l(2) by (simp add: ring_in_dequeue_def)
qed

lemma main_tx_law:
  assumes "out_ring (stk a) = Some r" "ring_wf r"
  obtains r' ri where "main_tx n a = Inr ((), a\<lparr>nic_tx := nic_tx a @ take n (take 32 (ring_elems r)),
      stk := (stk a)\<lparr>rInst := Some ri, pool := rev (take 32 (ring_elems r)) @ pool (stk a)\<rparr>\<rparr>)"
    "ring_out ri = Some r'" "ring_wf r'" "ring_elems r' = drop 32 (ring_elems r)"
proof -
  obtain ri where ri: "rInst (stk a) = Some ri" "ring_out ri = Some r" "ringInstance (stk a) = Inr (ri, stk a)"
    using out_ringD [OF assms(1)] by blast
  obtain xs av r' where e: "rte_ring_sc_dequeue_burst r (of_nat BURST_SIZE) = (xs, av, r')" by (rule prod_cases3)
  have u: "unat (of_nat BURST_SIZE :: u32) = 32" by (simp add: BURST_SIZE_def)
  have x: "xs = take 32 (ring_elems r)" and l: "ring_elems r = xs @ ring_elems r'" "ring_wf r'"
    using do_dequeue_law [OF assms(2) e [unfolded rte_ring_sc_dequeue_burst_def]]
    unfolding moved_variable u take_min_used by blast+
  have d: "ring_elems r' = drop 32 (ring_elems r)" using x l(1) by (metis append_take_drop_id same_append_eq)
  have z: "a\<lparr>nic_tx := nic_tx a, stk := b\<rparr> = a\<lparr>stk := b\<rparr>" for b by (cases a) simp
  have p: "s\<lparr>rInst := q, pool := pool s\<rparr> = s\<lparr>rInst := q\<rparr>" for s :: stack and q by (cases s) simp
  show thesis
    by (rule that [of "ri\<lparr>ring_out := Some r'\<rparr>" r'])
      (use ri e x l(2) d z p in \<open>simp_all add: main_tx_def on_stack_def rte_eth_tx_burst_def free_all_eq Let_def\<close>)
qed

section \<open>Properties\<close>

definition demo_kni :: rte_kni where
  "demo_kni = \<lparr>kni_name = ''vEth0'', group_id = 0, mbuf_size = 2048, kni_zones = [1, 2, 3, 4, 5, 6, 7],
     tx_q = fresh_fifo (demo_mbuf 0), rx_q = fresh_fifo (demo_mbuf 0), alloc_q = fresh_fifo (demo_mbuf 0),
     free_q = fresh_fifo (demo_mbuf 0), req_q = fresh_fifo 0, resp_q = fresh_fifo 0, sync_addr = 7,
     sync_req = RTE_KNI_REQ_CFG_NETWORK_IF 1, sync_result = 0,
     kni_ops = zero_ops\<lparr>config_network_if := Some ng_config_network_if\<rparr>\<rparr>"

definition demo_dev :: eth_dev where
  "demo_dev = \<lparr>dev_started = True, promiscuous = True, mac_addr0 = [2, 0, 0, 0, 0, 1], dev_removed = False,
     lsc = False, op_dev_start = Some (\<lambda>_. -5), op_dev_stop = True, op_link_update = True,
     op_promiscuous = True, op_mac_addr_set = None, dev_calls = 0\<rparr>"

definition demo_app :: app where
  "demo_app = \<lparr>stk = demo_stack, global_kni = Some demo_kni, eth_ports = [0 \<mapsto> demo_dev], kni_names = [''vEth0''],
     nic_tx = []\<rparr>"

lemma demo_kni_room: "n \<le> 1023 \<Longrightarrow> room_for n demo_kni"
  using fresh_fifo_facts [of "demo_mbuf 0"] by (simp add: room_for_def demo_kni_def)

text \<open>Giving packets to the kernel: \<open>rte_kni_tx_burst\<close> appends the first packets of the burst to the receive
  queue of the kernel, as many as it has room for, in order, and returns their number; it also takes
  back up to 32 buffers the kernel has returned and puts each of them into the pool.\<close>

theorem kni_tx_burst_forwards:
  assumes "fifo_wf (rx_q k)" "fifo_wf (free_q k)" "rte_kni_tx_burst k ms s = (n, k', s')"
  shows "n = min (List.length ms) (fifo_cap (rx_q k) - List.length (fifo_elems (rx_q k)))
    \<and> fifo_elems (rx_q k') = fifo_elems (rx_q k) @ take n ms
    \<and> fifo_elems (free_q k') = drop 32 (fifo_elems (free_q k))
    \<and> pool s' = rev (take 32 (fifo_elems (free_q k))) @ pool s
    \<and> fifo_wf (rx_q k') \<and> fifo_wf (free_q k')"
  using kni_tx_burst_law [OF assms] by (auto intro: arg_cong [where f = pool, of s'])

lemma kni_tx_burst_forwards_witness:
  "case rte_kni_tx_burst demo_kni [demo_mbuf 1, demo_mbuf 2] demo_stack of
     (n, k', s') \<Rightarrow> n = 2 \<and> fifo_elems (rx_q k') = [demo_mbuf 1, demo_mbuf 2]"
proof -
  obtain n k' s' where e: "rte_kni_tx_burst demo_kni [demo_mbuf 1, demo_mbuf 2] demo_stack = (n, k', s')"
    by (rule prod_cases3)
  have w: "fifo_wf (rx_q demo_kni)" "fifo_wf (free_q demo_kni)" "fifo_elems (rx_q demo_kni) = []"
    "fifo_cap (rx_q demo_kni) = 1023"
    using fresh_fifo_facts by (simp_all add: demo_kni_def)
  show ?thesis using kni_tx_burst_forwards [OF w(1,2) e] e w(3,4) by simp
qed

text \<open>A request of the kernel to bring the interface up or down is answered: \<open>rte_kni_handle_request\<close> takes it
  from the request queue, runs \<open>ng_config_network_if\<close> and puts the request on the response queue; the
  answer is success even when the driver could not start the port, which is then down.\<close>

theorem kni_if_request_answered:
  assumes "fifo_wf (req_q k)" "fifo_wf (resp_q k)" "fifo_elems (req_q k) = sync_addr k # rest"
    and "List.length (fifo_elems (resp_q k)) < fifo_cap (resp_q k)"
    and "sync_req k = RTE_KNI_REQ_CFG_NETWORK_IF up" "config_network_if (kni_ops k) = Some ng_config_network_if"
    and "ps (ops_port_id (kni_ops k)) = Some dev" "op_dev_start dev = Some f" "op_dev_stop dev"
  shows "\<exists>k' ps' dev'. rte_kni_handle_request (Some k) ps = (0, Some k', ps')
    \<and> fifo_elems (req_q k') = rest \<and> fifo_elems (resp_q k') = fifo_elems (resp_q k) @ [sync_addr k]
    \<and> sync_result k' = 0 \<and> ps' (ops_port_id (kni_ops k)) = Some dev'
    \<and> (dev_started dev' \<longleftrightarrow> up \<noteq> 0 \<and> f (dev_calls dev) = 0)"
proof -
  let ?p = "ops_port_id (kni_ops k)"
  obtain xs q where g: "kni_fifo_get (req_q k) 1 = (xs, q)" by fastforce
  note gl = kni_fifo_get_law [OF assms(1) g]
  have x: "xs = [sync_addr k]" "fifo_elems q = rest" using gl assms(3) by (auto simp: take_Cons')
  obtain n q' where p: "kni_fifo_put (resp_q k) [sync_addr k] = (n, q')" by fastforce
  note pl = kni_fifo_put_law [OF assms(2) p]
  have n: "n = 1" "fifo_elems q' = fifo_elems (resp_q k) @ [sync_addr k]" using pl assms(4) by auto
  let ?c = "ng_config_network_if ?p up ps"
  have c: "fst ?c = 0 \<and> (\<exists>dev'. snd ?c ?p = Some dev' \<and> (dev_started dev' \<longleftrightarrow> up \<noteq> 0 \<and> f (dev_calls dev) = 0))"
    using assms(7-9) by (auto simp: ng_config_network_if_def rte_eth_dev_is_valid_port_def rte_eth_dev_stop_def
        rte_eth_dev_start_def Let_def)
  obtain r ps' where r: "?c = (r, ps')" by fastforce
  have "rte_kni_handle_request (Some k) ps
      = (0, Some (k\<lparr>req_q := q, sync_result := 0, resp_q := q'\<rparr>), ps')"
    using g x(1) p n(1) r c assms(5,6) by (simp add: rte_kni_handle_request_def kni_do_request_def Let_def)
  then show ?thesis using c r x(2) n(2) by auto
qed

lemma kni_if_request_answered_witness:
  "\<exists>k k' ps'. rte_kni_handle_request (Some k) [0 \<mapsto> demo_dev] = (0, Some k', ps') \<and> sync_result k' = 0
     \<and> (\<exists>dev'. ps' 0 = Some dev' \<and> \<not> dev_started dev')"
proof -
  obtain n q where p: "kni_fifo_put (req_q demo_kni) [7] = (n, q)" by fastforce
  have w: "fifo_wf (req_q demo_kni)" "fifo_elems (req_q demo_kni) = []" "fifo_cap (req_q demo_kni) = 1023"
    "fifo_wf (resp_q demo_kni)" "fifo_elems (resp_q demo_kni) = []" "fifo_cap (resp_q demo_kni) = 1023"
    using fresh_fifo_facts [of "0 :: nat"] by (simp_all add: demo_kni_def)
  have q: "fifo_wf q" "fifo_elems q = [7]" using kni_fifo_put_law [OF w(1) p] w by auto
  let ?k = "demo_kni\<lparr>req_q := q\<rparr>"
  have f: "sync_addr ?k = 7" "sync_req ?k = RTE_KNI_REQ_CFG_NETWORK_IF 1" "ops_port_id (kni_ops ?k) = 0"
    "config_network_if (kni_ops ?k) = Some ng_config_network_if" "op_dev_start demo_dev = Some (\<lambda>_. -5)"
    "op_dev_stop demo_dev"
    by (simp_all add: demo_kni_def zero_ops_def demo_dev_def)
  show ?thesis
    using kni_if_request_answered [of ?k "[]" 1 "[0 \<mapsto> demo_dev]" demo_dev "\<lambda>_. -5"] q w f by auto
qed

text \<open>C31. A kernel interface is created completely or not at all: whichever step of \<open>rte_kni_alloc\<close> fails (the
  name, either allocation, any of the seven memory zones, the kernel's refusal after all of them),
  the list of interfaces, the zones and the number of live heap blocks are what they were.\<close>

theorem kni_alloc_undone:
  assumes "rte_kni_alloc fd ret junk conf ops l s = (None, l', s')" "zones_wf s"
  shows "l' = l \<and> memzones s' = memzones s \<and> live s' = live s"
  using assms by (rule rte_kni_alloc_fails)

lemma kni_alloc_undone_witness:
  "\<exists>l' s'. rte_kni_alloc 3 (-1) (demo_mbuf 0) (Some \<lparr>conf_name = ''vEth0'', conf_group_id = 0, conf_mbuf_size = 2048\<rparr>)
      None [] demo_stack = (None, l', s') \<and> live s' = live demo_stack"
proof -
  obtain k l' s' where e: "rte_kni_alloc 3 (-1) (demo_mbuf 0)
      (Some \<lparr>conf_name = ''vEth0'', conf_group_id = 0, conf_mbuf_size = 2048\<rparr>) None [] demo_stack = (k, l', s')"
    by (rule prod_cases3)
  then have "k = None"
    by (auto simp: rte_kni_alloc_def Let_def split: option.splits prod.splits)
  moreover have "zones_wf demo_stack" by (simp add: zones_wf_def)
  ultimately show ?thesis using kni_alloc_undone [of 3 "-1"] e by blast
qed

text \<open>C30. A burst of UDP and TCP packets stays inside the stack: the worker gives each buffer of the burst back
  exactly once, in order, the control blocks evolve by moves of the TCP state machine only, and
  neither the kernel interface nor the driver sees anything.\<close>

theorem pkt_stack_burst:
  assumes "pkt_process_burst ms a = Inr (ms', a')" "tcb_wf (stk a)" "\<forall>m\<in>set ms. stack_packet m"
  shows "tcb_step\<^sup>*\<^sup>* (statuses (stk a)) (statuses (stk a')) \<and> tcb_wf (stk a')
    \<and> map m_id (pool (stk a')) = rev (map m_id ms) @ map m_id (pool (stk a))
    \<and> global_kni a' = global_kni a \<and> eth_ports a' = eth_ports a \<and> nic_tx a' = nic_tx a"
proof -
  have "map (\<lambda>i. m_id (ms ! i)) [0..<List.length ms] = map m_id ms" by (rule nth_equalityI) simp_all
  then show ?thesis
    using stack_burst_run [OF assms(1) [unfolded pkt_process_burst_def] assms(2)] assms(3) by simp
qed

definition demo_udp :: mbuf where
  "demo_udp = (demo_mbuf 5)\<lparr>mdata := wr16 eth_ether_type (htons RTE_ETHER_TYPE_IPV4) ((\<lambda>_. 0)(ip_next_proto_id := 17))\<rparr>"

lemma demo_udp_facts: "ipv4_packet demo_udp" "mdata demo_udp ip_next_proto_id = IPPROTO_UDP" "stack_packet demo_udp"
  by (simp_all add: demo_udp_def stack_packet_def ipv4_packet_def buf_simps)

lemma unbound_udp_one:
  assumes "ipv4_packet (ms ! i)" "mdata (ms ! i) ip_next_proto_id = IPPROTO_UDP"
    and "arp_inv (stk a)" "malloc_ok (stk a) = (\<lambda>_ _. True)" "lhost (stk a) = []"
  shows "\<exists>s'. pkt_process_one i ms a = Inr (ms, a\<lparr>stk := s'\<rparr>)"
proof -
  let ?b = "mdata (ms ! i)"
  obtain r s1 where s1: "ng_arp_entry_insert (rd32 ?b ip_src_addr) (rd_bytes ?b eth_s_addr 6) (stk a) = Inr (r, s1)"
    using ng_arp_entry_insert_mem [OF assms(3,4)] by blast
  have "udp_process (ms ! i) s1 = Inr (-3, rte_pktmbuf_free (ms ! i) s1)"
    using arp_insert_keeps(5) [OF s1] assms(5) by (simp add: udp_process_def get_hostinfo_fromip_port_def)
  then show ?thesis
    using assms(1,2) s1
    by (intro exI [of _ "rte_pktmbuf_free (ms ! i) s1"])
      (simp add: pkt_process_one_def ipv4_packet_def on_stack_def Let_def)
qed

lemma demo_stack_inv: "arp_inv demo_stack" "tcb_wf demo_stack"
  by (simp_all add: arp_inv_def arp_wf_def tcb_wf_def statuses_def streams_def)

lemma pkt_stack_burst_witness:
  "\<exists>ms' a'. pkt_process_burst [demo_udp] demo_app = Inr (ms', a') \<and> map m_id (pool (stk a')) = 5 # map m_id demo_pool"
proof -
  have f: "stk demo_app = demo_stack" "m_id demo_udp = 5" by (simp_all add: demo_app_def demo_udp_def demo_mbuf_def)
  obtain s' where "pkt_process_one 0 [demo_udp] demo_app = Inr ([demo_udp], demo_app\<lparr>stk := s'\<rparr>)"
    using unbound_udp_one [of "[demo_udp]" 0 demo_app] demo_udp_facts demo_stack_inv f by auto
  then have e: "pkt_process_burst [demo_udp] demo_app = Inr ([demo_udp], demo_app\<lparr>stk := s'\<rparr>)"
    by (simp add: pkt_process_burst_def)
  show ?thesis using pkt_stack_burst [OF e] e demo_stack_inv demo_udp_facts f by simp
qed

text \<open>Packets of other protocols are forwarded too often: for each packet of a burst that is not IPv4, the
  worker gives the kernel the whole burst, so a burst of \<open>n\<close> such packets reaches the kernel \<open>n\<close>
  times; only a burst of one packet is forwarded once.\<close>

theorem pkt_foreign_burst_repeated:
  assumes "global_kni a = Some k" "room_for (List.length ms * List.length ms) k" "\<forall>m\<in>set ms. \<not> ipv4_packet m"
  shows "\<exists>k'. pkt_process_burst ms a = Inr (ms, a\<lparr>global_kni := Some k'\<rparr>)
    \<and> fifo_elems (rx_q k') = fifo_elems (rx_q k) @ concat (replicate (List.length ms) ms)"
  using foreign_loop [OF assms(1), of "[0..<List.length ms]" ms] assms(2,3) by (simp add: pkt_process_burst_def)

lemma demo_foreign: "\<not> ipv4_packet (demo_mbuf i)"
  by (simp add: ipv4_packet_def demo_mbuf_def) (simp add: rd16_def of_le16_def bswap16_def)

lemma pkt_foreign_burst_repeated_witness:
  "\<exists>k'. pkt_process_burst [demo_mbuf 1, demo_mbuf 2] demo_app
      = Inr ([demo_mbuf 1, demo_mbuf 2], demo_app\<lparr>global_kni := Some k'\<rparr>)
    \<and> fifo_elems (rx_q k') = [demo_mbuf 1, demo_mbuf 2, demo_mbuf 1, demo_mbuf 2]"
proof -
  have "global_kni demo_app = Some demo_kni" "fifo_elems (rx_q demo_kni) = []"
    using fresh_fifo_facts by (simp_all add: demo_app_def demo_kni_def)
  then show ?thesis
    using pkt_foreign_burst_repeated [of demo_app demo_kni "[demo_mbuf 1, demo_mbuf 2]"] demo_foreign demo_kni_room [of "Suc (Suc (Suc (Suc 0)))"]
    by simp
qed

text \<open>A buffer with two owners: when a burst holds a UDP or TCP packet followed by a packet that is not
  IPv4, the buffer of the first is back in the pool, free for the next allocation, and at the same
  time queued to the kernel.\<close>

theorem pkt_mixed_burst_shares:
  assumes "pkt_process_burst [u, f] a = Inr (ms', a')" "stack_packet u" "\<not> ipv4_packet f"
    and "global_kni a = Some k" "room_for 2 k" "tcb_wf (stk a)"
  shows "\<exists>k'. global_kni a' = Some k' \<and> fifo_elems (rx_q k') = fifo_elems (rx_q k) @ ms'
    \<and> map m_id ms' = [m_id u, m_id f] \<and> map m_id (pool (stk a')) = m_id u # map m_id (pool (stk a))"
proof -
  obtain ms1 a1 where o: "pkt_process_one 0 [u, f] a = Inr (ms1, a1)" "pkt_process_loop [1] ms1 a1 = Inr (ms', a')"
    using assms(1) by (auto simp: pkt_process_burst_def upt_rec [of 0] upt_rec [of 1])
  note st = stack_packet_step [OF o(1) _ assms(6)]
  have s: "global_kni a1 = Some k" "map m_id ms1 = [m_id u, m_id f]" "\<forall>j. j \<noteq> 0 \<longrightarrow> ms1 ! j = [u, f] ! j"
    "map m_id (pool (stk a1)) = m_id u # map m_id (pool (stk a))"
    using st assms(2,4) by simp_all
  have l: "List.length ms1 = 2" using s(2) by (metis length_Cons length_map list.size(3) numeral_2_eq_2)
  have r: "room_for (0 + List.length ms1) k" and f: "\<not> ipv4_packet (ms1 ! 1)"
    using assms(3,5) s(3) l by (simp_all add: numeral_2_eq_2)
  obtain k' where k': "pkt_process_one 1 ms1 a1 = Inr (ms1, a1\<lparr>global_kni := Some k'\<rparr>)"
    "fifo_elems (rx_q k') = fifo_elems (rx_q k) @ ms1" "room_for 0 k'"
    by (rule foreign_step [OF s(1) r f])
  have "ms' = ms1" "a' = a1\<lparr>global_kni := Some k'\<rparr>" using o(2) k'(1) by simp_all
  then show ?thesis using s(2,4) k'(2) by simp
qed

lemma pkt_mixed_burst_shares_witness:
  "\<exists>ms' a' k'. pkt_process_burst [demo_udp, demo_mbuf 2] demo_app = Inr (ms', a') \<and> global_kni a' = Some k'
    \<and> 5 \<in> m_id ` set (pool (stk a')) \<and> 5 \<in> m_id ` set (fifo_elems (rx_q k'))"
proof -
  let ?ms = "[demo_udp, demo_mbuf 2]"
  have f: "stk demo_app = demo_stack" "m_id demo_udp = 5" "global_kni demo_app = Some demo_kni" "fifo_elems (rx_q demo_kni) = []"
    using fresh_fifo_facts by (simp_all add: demo_app_def demo_udp_def demo_mbuf_def demo_kni_def)
  obtain s' where o: "pkt_process_one 0 ?ms demo_app = Inr (?ms, demo_app\<lparr>stk := s'\<rparr>)"
    using unbound_udp_one [of ?ms 0 demo_app] demo_udp_facts demo_stack_inv f by auto
  obtain k1 where "pkt_process_one 1 ?ms (demo_app\<lparr>stk := s'\<rparr>) = Inr (?ms, demo_app\<lparr>stk := s', global_kni := Some k1\<rparr>)"
    by (rule foreign_step [of "demo_app\<lparr>stk := s'\<rparr>" demo_kni 0 ?ms 1])
      (use f demo_foreign demo_kni_room [of "Suc (Suc 0)"] in simp_all)
  then have e: "pkt_process_burst ?ms demo_app = Inr (?ms, demo_app\<lparr>stk := s', global_kni := Some k1\<rparr>)"
    using o by (simp add: pkt_process_burst_def upt_rec [of 0] upt_rec [of 1])
  obtain k' where "global_kni (demo_app\<lparr>stk := s', global_kni := Some k1\<rparr>) = Some k'" "fifo_elems (rx_q k') = ?ms"
    "map m_id (pool (stk (demo_app\<lparr>stk := s', global_kni := Some k1\<rparr>))) = 5 # map m_id demo_pool"
    using pkt_mixed_burst_shares [OF e demo_udp_facts(3) demo_foreign f(3) demo_kni_room [of 2]] f demo_stack_inv(2) by auto
  moreover from this(3) have "5 \<in> m_id ` set (pool (stk (demo_app\<lparr>stk := s', global_kni := Some k1\<rparr>)))"
    by (metis list.set_intros(1) list.set_map)
  ultimately show ?thesis using e f(2) by (intro exI conjI) (assumption | simp)+
qed

text \<open>From the driver to the worker: \<open>main\<close> queues what it received at the end of the input ring and the
  worker takes it out in the order of arrival; the packets that find no room in the ring are neither
  queued nor given back to the pool, so their buffers are lost.\<close>

theorem main_rx_order:
  assumes "in_ring (stk a) = Some r" "ring_wf r" "List.length rx \<le> 32"
  shows "\<exists>a1 s2. main_rx rx a = Inr ((), a1) \<and> pool (stk a1) = pool (stk a)
    \<and> ring_in_dequeue BURST_SIZE (stk a1)
      = Inr (take BURST_SIZE (ring_elems r @ take (ring_cap r - List.length (ring_elems r)) rx), s2)"
proof -
  obtain r' ri where r: "main_rx rx a = Inr ((), a\<lparr>stk := (stk a)\<lparr>rInst := Some ri\<rparr>\<rparr>)" "ring_in ri = Some r'" "ring_wf r'"
    "ring_elems r' = ring_elems r @ take (ring_cap r - List.length (ring_elems r)) rx"
    by (rule main_rx_law [OF assms]) blast
  let ?s = "(stk a)\<lparr>rInst := Some ri\<rparr>"
  have i: "in_ring ?s = Some r'" using r(2) by (simp add: in_ring_def)
  obtain ri2 where "ring_in_dequeue BURST_SIZE ?s = Inr (take BURST_SIZE (ring_elems r'), ?s\<lparr>rInst := Some ri2\<rparr>)"
    by (rule ring_in_dequeue_law [OF i r(3), of BURST_SIZE]) (simp_all add: BURST_SIZE_def)
  then show ?thesis using r(1,4) by auto
qed

lemma demo_rings: "in_ring demo_stack = Some (demo_ring (demo_mbuf 0))" "out_ring demo_stack = Some (demo_ring (demo_mbuf 0))"
  by (simp_all add: in_ring_def out_ring_def demo_stack_def)

lemma main_rx_order_witness:
  "\<exists>a1 s2. main_rx [demo_mbuf 1, demo_mbuf 2] demo_app = Inr ((), a1)
    \<and> ring_in_dequeue BURST_SIZE (stk a1) = Inr ([demo_mbuf 1, demo_mbuf 2], s2)"
  using main_rx_order [of demo_app "demo_ring (demo_mbuf 0)" "[demo_mbuf 1, demo_mbuf 2]"]
    demo_rings(1) demo_ring_wf [of "demo_mbuf 0"] by (auto simp: demo_app_def BURST_SIZE_def)

text \<open>From the stack to the driver: \<open>main\<close> takes the oldest frames of the output ring, at most 32, hands
  them to the driver in order, and frees every one of them at once: each frame the driver has
  accepted and not yet sent is also in the pool, and may be overwritten before it is sent.\<close>

theorem main_tx_shares:
  assumes "out_ring (stk a) = Some r" "ring_wf r"
  shows "\<exists>a'. main_tx n a = Inr ((), a') \<and> nic_tx a' = nic_tx a @ take n (take 32 (out_frames (stk a)))
    \<and> out_frames (stk a') = drop 32 (out_frames (stk a))
    \<and> pool (stk a') = rev (take 32 (out_frames (stk a))) @ pool (stk a)"
proof -
  obtain r' ri where "main_tx n a = Inr ((), a\<lparr>nic_tx := nic_tx a @ take n (take 32 (ring_elems r)),
      stk := (stk a)\<lparr>rInst := Some ri, pool := rev (take 32 (ring_elems r)) @ pool (stk a)\<rparr>\<rparr>)"
    "ring_out ri = Some r'" "ring_elems r' = drop 32 (ring_elems r)"
    by (rule main_tx_law [OF assms])
  then show ?thesis using assms(1) by (simp add: out_frames_def out_ring_def)
qed

lemma main_tx_shares_witness:
  "\<exists>s1 a'. main_tx 1 (demo_app\<lparr>stk := s1\<rparr>) = Inr ((), a') \<and> nic_tx a' = [demo_mbuf 9]
    \<and> demo_mbuf 9 \<in> set (pool (stk a'))"
proof -
  obtain ri where s1: "out_room 0 (demo_stack\<lparr>rInst := Some ri\<rparr>)"
    "out_frames (demo_stack\<lparr>rInst := Some ri\<rparr>) = out_frames demo_stack @ [demo_mbuf 9]"
    by (rule ring_out_enqueue_ok [of 0 demo_stack "demo_mbuf 9"]) (simp add: demo_stack_room)
  let ?s = "demo_stack\<lparr>rInst := Some ri\<rparr>"
  have f: "out_frames ?s = [demo_mbuf 9]"
    using s1(2) demo_rings(2) demo_ring_wf(2) [of "demo_mbuf 0"] by (simp add: out_frames_def)
  obtain r where "out_ring ?s = Some r" "ring_wf r" using s1(1) by (auto simp: out_room_def split: option.splits)
  then show ?thesis
    using main_tx_shares [of "demo_app\<lparr>stk := ?s\<rparr>" r 1] f by (intro exI [of _ ?s]) (auto simp: demo_app_def)
qed

end
