(* ===== verification/Server.thy ===== *)
theory Server
  imports Socket_Props
begin

text \<open>
  The two servers of \<open>2.4_ustack/tcp_from_king.c\<close> on top of the socket interface: the UDP echo server
  \<open>udp_server_entry\<close> and the TCP echo server \<open>tcp_server_entry\<close>, each as its start-up and the body of its
  endless loop.  A call that waits on a condition variable makes the body \<open>Blocks\<close>.

  The TCP server asks the kernel's epoll which descriptors are ready; the events it reports are an
  argument, and \<open>interest\<close> is the set of descriptors the server has registered, in order.
\<close>

section \<open>The UDP server\<close>

definition UDP_APP_RECV_BUFFER_SIZE :: nat where "UDP_APP_RECV_BUFFER_SIZE = 128"

text \<open>\<open>inet_addr("192.168.0.119")\<close> and \<open>htons(8889)\<close>.\<close>

definition udp_server_addr :: sockaddr_in where
  "udp_server_addr = \<lparr>sin_port = htons 8889, sin_addr = 0x7700a8c0\<rparr>"

definition udp_server_start :: "stack \<Rightarrow> (int option, stack) res" where
  "udp_server_start s =
    bindE (nsocket 2 SOCK_DGRAM 0 s) (\<lambda>connfd s.
      if connfd = -1 then Inr (None, s)
      else bindE (nbind connfd udp_server_addr s) (\<lambda>_ s. Inr (Some connfd, s)))"

text \<open>\<open>strlen\<close> of an array; without a zero byte it runs past the end.\<close>

fun c_strlen :: "u8 list \<Rightarrow> nat option" where
  "c_strlen [] = None"
| "c_strlen (b # bs) = (if b = 0 then Some 0 else map_option Suc (c_strlen bs))"

definition buf_of :: "u8 list \<Rightarrow> buf" where
  "buf_of bs = (\<lambda>i. if i < List.length bs then bs ! i else 0)"

text \<open>One turn of the loop; the array \<open>buffer\<close> keeps its contents between turns, and both the \<open>printf\<close> and
  \<open>strlen\<close> look for a zero byte in it.\<close>

definition udp_server_step :: "int \<Rightarrow> u8 list \<Rightarrow> stack \<Rightarrow> (u8 list wait, stack) res" where
  "udp_server_step connfd buffer s =
    bindE (nrecvfrom connfd UDP_APP_RECV_BUFFER_SIZE s) (\<lambda>res s.
      case res of
        Blocks \<Rightarrow> Inr (Blocks, s)
      | Done (n, clientaddr, bytes) \<Rightarrow>
          if n < 0 then Inr (Done buffer, s)
          else
           let buffer = bytes @ drop (List.length bytes) buffer
           in case (c_strlen buffer, clientaddr) of
                (Some len, Some daddr) \<Rightarrow>
                   bindE (nsendto connfd (buf_of buffer) len daddr s) (\<lambda>_ s. Inr (Done buffer, s))
              | _ \<Rightarrow> Inl Unterminated)"

section \<open>The TCP server\<close>

definition BUFFER_SIZE :: nat where "BUFFER_SIZE = 1024"

definition tcp_server_addr :: sockaddr_in where
  "tcp_server_addr = \<lparr>sin_port = htons 9999, sin_addr = 0\<rparr>"

definition tcp_server_start :: "stack \<Rightarrow> (int option, stack) res" where
  "tcp_server_start s =
    bindE (nsocket 2 SOCK_STREAM 0 s) (\<lambda>listenfd s.
      if listenfd = -1 then Inr (None, s)
      else bindE (nbind listenfd tcp_server_addr s) (\<lambda>_ s.
           bindE (nlisten listenfd 10 s) (\<lambda>_ s. Inr (Some listenfd, s))))"

text \<open>One event, a descriptor and whether it is readable; the result is the interest set.  The buffer is
  cleared for each event and printed with \<open>%s\<close>, which needs a zero byte in it.  The length
  passed to \<open>nsend\<close> is the return value of \<open>nrecv\<close> converted to \<open>size_t\<close>.\<close>

definition tcp_server_event :: "int \<Rightarrow> int \<times> bool \<Rightarrow> int list \<Rightarrow> stack \<Rightarrow> (int list wait, stack) res" where
  "tcp_server_event listenfd ev interest s =
    (case ev of (connfd, epollin) \<Rightarrow>
       if connfd = listenfd then
         bindE (naccept listenfd s) (\<lambda>res s.
           case res of
             Blocks \<Rightarrow> Inr (Blocks, s)
           | Done (clientfd, _) \<Rightarrow> Inr (Done (interest @ [clientfd]), s))
       else if epollin then
         bindE (nrecv connfd 1024 s) (\<lambda>res s.
           case res of
             Blocks \<Rightarrow> Inr (Blocks, s)
           | Done (count, bytes) \<Rightarrow>
               if count = 0 then
                 bindE (nclose connfd s) (\<lambda>_ s. Inr (Done (remove1 connfd interest), s))
               else
                 let buffer = bytes @ replicate (1024 - List.length bytes) 0
                 in if c_strlen buffer = None then Inl Unterminated
                    else bindE (nsend connfd (buf_of buffer) (nat (count mod 2 ^ 64)) s)
                      (\<lambda>_ s. Inr (Done interest, s)))
       else Inr (Done interest, s))"

fun tcp_server_events :: "int \<Rightarrow> (int \<times> bool) list \<Rightarrow> int list \<Rightarrow> stack \<Rightarrow> (int list wait, stack) res" where
  "tcp_server_events listenfd [] interest s = Inr (Done interest, s)"
| "tcp_server_events listenfd (ev # evs) interest s =
    bindE (tcp_server_event listenfd ev interest s) (\<lambda>res s.
      case res of
        Blocks \<Rightarrow> Inr (Blocks, s)
      | Done interest \<Rightarrow> tcp_server_events listenfd evs interest s)"

section \<open>Lemmas\<close>

lemma c_strlen_takeWhile:
  "c_strlen bs = (if 0 \<in> set bs then Some (List.length (takeWhile (\<lambda>b. b \<noteq> 0) bs)) else None)"
  by (induction bs) auto

lemma rd_buf_of: "n \<le> List.length bs \<Longrightarrow> rd_bytes (buf_of bs) 0 n = take n bs"
  by (auto simp: rd_bytes_def buf_of_def intro: nth_equalityI)

lemma nsend_room:
  assumes "is_stream s fd st" "malloc_ok s = (\<lambda>_ _. True)" "len \<le> 65535" "has_room (s_sndbuf st)"
  obtains s' r where "nsend fd ubuf len s = Inr (int len, s')" "ring_wf r"
    "ring_elems r = elems (s_sndbuf st) @ [segment_of st (rd_bytes ubuf 0 len)]"
    "streams s' = map (\<lambda>x. if s_addr x = s_addr st then st\<lparr>s_sndbuf := Some r\<rparr> else x) (streams s)"
    "lhost s' = lhost s"
proof -
  let ?f = "segment_of st (rd_bytes ubuf 0 len)"
  obtain a1 s1 where m1: "rte_malloc sizeof_ng_tcp_fragment s = (Some a1, s1)"
    using rte_malloc_total [of s sizeof_ng_tcp_fragment] assms(2) by auto
  note f1 = rte_malloc_fields [OF m1]
  obtain a2 s2 where m2: "rte_malloc (len + 1) s1 = (Some a2, s2)"
    using rte_malloc_total [of s1 "len + 1"] assms(2) f1 by auto
  note f2 = rte_malloc_fields [OF m2]
  have l: "Suc len mod 18446744073709551616 = Suc len" using assms(3) by simp
  have u: "uint (of_nat len :: u32) = int len"
    using assms(3) by (simp add: uint_nat unat_of_nat_small)
  obtain ret r where r: "ring_mp_enqueue (s_sndbuf st) ?f = Inr (ret, r)" "ring_wf r"
    "ring_elems r = elems (s_sndbuf st) @ [?f]"
    by (rule room_enqueue [OF assms(4)])
  have e: "nsend fd ubuf len s = Inr (int len, put_stream (st\<lparr>s_sndbuf := Some r\<rparr>) s2)"
    using is_streamD(1,2) [OF assms(1)] m1 m2 r(1) u by (simp add: nsend_def Let_def l segment_of_def)
  have "streams s2 = streams s" by (rule streams_cong) (use f1 f2 in simp)
  then show thesis by (intro that [OF e r(2,3)]) (use f1 f2 in \<open>simp_all add: streams_put, simp_all add: put_stream_def\<close>)
qed

lemma is_stream_update:
  assumes "is_stream s fd st" "streams s' = map (\<lambda>x. if s_addr x = s_addr st then st' else x) (streams s)"
    and "lhost s' = lhost s" "s_fd st' = s_fd st" "s_protocol st' = s_protocol st"
  shows "is_stream s' fd st'"
  using assms find_map_replace [where f = s_fd and k = s_addr and h = st and h' = st'] by (simp add: is_stream_def)

section \<open>Properties\<close>

text \<open>The TCP echo server: when the descriptor of a connection is readable and its oldest fragment carries
  \<open>k \<le> 1024\<close> bytes (with a zero byte among them if \<open>k = 1024\<close>), the server consumes that fragment and
  queues one segment with the same bytes for the peer, behind those already queued.\<close>

theorem tcp_server_echoes:
  assumes "is_stream s fd st" "fd \<noteq> listenfd" "malloc_ok s = (\<lambda>_ _. True)" "has_room (s_sndbuf st)"
    and "s_rcvbuf st = Some r" "ring_wf r" "ring_elems r = f # rest" "f_data f = Some (bs @ [0])"
    and "f_length f = of_nat (List.length bs)" "bs \<noteq> []" "List.length bs < 1024 \<or> List.length bs = 1024 \<and> 0 \<in> set bs"
  shows "\<exists>s' st'. tcp_server_event listenfd (fd, True) interest s = Inr (Done interest, s') \<and> is_stream s' fd st'
    \<and> elems (s_rcvbuf st') = rest \<and> elems (s_sndbuf st') = elems (s_sndbuf st) @ [segment_of st bs]"
proof -
  have le: "List.length bs \<le> 1024" "List.length bs \<le> 65535" using assms(11) by auto
  let ?buf = "bs @ replicate (1024 - List.length bs) 0"
  obtain r' where e: "nrecv fd 1024 s = Inr (Done (int (List.length bs), bs),
      rte_free (Some 0) (rte_free (Some 0) (put_stream (st\<lparr>s_rcvbuf := Some r'\<rparr>) s)))" (is "_ = Inr (_, ?s1)")
    "ring_elems r' = rest"
    by (rule nrecv_fits_eq [OF assms(1,5-10) le])
  have "streams ?s1 = streams (put_stream (st\<lparr>s_rcvbuf := Some r'\<rparr>) s)"
    by (rule streams_cong) (simp add: rte_free_def)
  then have str: "streams ?s1 = map (\<lambda>x. if s_addr x = s_addr st then st\<lparr>s_rcvbuf := Some r'\<rparr> else x) (streams s)"
    by (simp add: streams_put)
  have f: "lhost ?s1 = lhost s" "malloc_ok ?s1 = malloc_ok s" by (simp_all add: put_stream_def rte_free_def)
  have i: "is_stream ?s1 fd (st\<lparr>s_rcvbuf := Some r'\<rparr>)"
    by (rule is_stream_update [OF assms(1) str f(1)]) simp_all
  have m: "malloc_ok ?s1 = (\<lambda>_ _. True)" "has_room (s_sndbuf (st\<lparr>s_rcvbuf := Some r'\<rparr>))"
    using f(2) assms(3,4) by simp_all
  obtain s2 r2 where n: "nsend fd (buf_of ?buf) (List.length bs) ?s1 = Inr (int (List.length bs), s2)" "ring_wf r2"
    "ring_elems r2 = elems (s_sndbuf (st\<lparr>s_rcvbuf := Some r'\<rparr>))
       @ [segment_of (st\<lparr>s_rcvbuf := Some r'\<rparr>) (rd_bytes (buf_of ?buf) 0 (List.length bs))]"
    "streams s2 = map (\<lambda>x. if s_addr x = s_addr (st\<lparr>s_rcvbuf := Some r'\<rparr>)
        then st\<lparr>s_rcvbuf := Some r', s_sndbuf := Some r2\<rparr> else x) (streams ?s1)" "lhost s2 = lhost ?s1"
    by (rule nsend_room [OF i m(1) le(2) m(2)])
  have b: "rd_bytes (buf_of ?buf) 0 (List.length bs) = bs" by (simp add: rd_buf_of)
  have "is_stream s2 fd (st\<lparr>s_rcvbuf := Some r', s_sndbuf := Some r2\<rparr>)"
    by (rule is_stream_update [OF i n(4,5)]) simp_all
  moreover have "c_strlen ?buf \<noteq> None" using assms(11) by (auto simp: c_strlen_takeWhile)
  then have "tcp_server_event listenfd (fd, True) interest s = Inr (Done interest, s2)"
    using assms(2,10) e(1) n(1) le by (simp add: tcp_server_event_def Let_def)
  ultimately show ?thesis
    using e(2) n(3) b by (intro exI conjI) (assumption | simp add: elems_def segment_of_def)+
qed

lemma tcp_server_echoes_witness:
  "\<exists>s s' st'. tcp_server_event 3 (4, True) [3, 4] s = Inr (Done [3, 4], s') \<and> is_stream s' 4 st'
    \<and> map frag_payload (elems (s_sndbuf st')) = [[7, 8]]"
proof -
  let ?st = "(demo_tcb 6 NG_TCP_STATUS_ESTABLISHED 9 9999)\<lparr>s_fd := 4\<rparr>" and ?bs = "[7, 8]"
  obtain r where r: "ring_wf r" "ring_elems r = [segment_of ?st ?bs]" by (rule demo_queue)
  let ?stq = "?st\<lparr>s_rcvbuf := Some r\<rparr>"
  let ?s = "demo_tcp [?stq]"
  have f: "is_stream ?s 4 ?stq" "malloc_ok ?s = (\<lambda>_ _. True)" "has_room (s_sndbuf ?stq)" "elems (s_sndbuf ?stq) = []"
    using demo_ring_wf [of zero_fragment] ring_used_0 [of "demo_ring zero_fragment"]
    by (simp_all add: is_stream_def demo_tcb_def has_room_def elems_def) (simp_all add: demo_tcp_def)
  have g: "s_rcvbuf ?stq = Some r" "f_data (segment_of ?st ?bs) = Some (?bs @ [0])"
    "f_length (segment_of ?st ?bs) = of_nat (List.length ?bs)"
    by (simp_all add: segment_of_def)
  obtain s' st' where e: "tcp_server_event 3 (4, True) [3, 4] ?s = Inr (Done [3, 4], s')" "is_stream s' 4 st'"
    "elems (s_sndbuf st') = [] @ [segment_of ?stq ?bs]"
    using tcp_server_echoes [OF f(1) _ f(2,3) g(1) r(1,2) g(2,3), of 3 "[3, 4]"] unfolding f(4) by auto
  then have "map frag_payload (elems (s_sndbuf st')) = [?bs]" by (simp add: frag_payload_segment)
  then show ?thesis using e(1,2) by (intro exI [of _ ?s] exI [of _ s'] exI [of _ st'] conjI)
qed

text \<open>The UDP echo server: the reply to a datagram goes to its sender and carries the bytes of the server's
  array up to its first zero byte.  The array then holds the datagram, the 8 bytes read past its end,
  and behind them what earlier datagrams left; so a datagram without a zero byte is answered with
  memory that is not its own unless the byte after it happens to be zero.\<close>

theorem udp_server_echoes:
  assumes "is_host s fd h" "malloc_ok s = (\<lambda>_ _. True)" "fresh_buf (h_sndbuf h)"
    and "h_rcvbuf h = Some r" "ring_wf r" "ring_elems r = [ol]" "List.length (ol_data ol) \<le> 120"
    and "unat (ol_length ol) = List.length (ol_data ol) + 8"
    and "buffer' = ol_data ol @ map (beyond s) [0..<8] @ drop (List.length (ol_data ol) + 8) buffer"
    and "0 \<in> set buffer'" "hd buffer' \<noteq> 0"
  shows "\<exists>s' h'. udp_server_step fd buffer s = Inr (Done buffer', s') \<and> is_host s' fd h' \<and> elems (h_rcvbuf h') = []
    \<and> elems (h_sndbuf h') = [\<lparr>ol_sip = localip h, ol_dip = ol_sip ol, ol_sport = localport h, ol_dport = ol_sport ol,
         ol_protocol = junk_protocol s, ol_data = takeWhile (\<lambda>b. b \<noteq> 0) buffer',
         ol_length = of_nat (List.length (takeWhile (\<lambda>b. b \<noteq> 0) buffer'))\<rparr>]"
proof -
  let ?text = "takeWhile (\<lambda>b. b \<noteq> 0) buffer'" and ?d = "\<lparr>sin_port = ol_sport ol, sin_addr = ol_sip ol\<rparr>"
  obtain r' where e: "nrecvfrom fd 128 s = Inr (Done (int (List.length (ol_data ol)) + 8,
      Some ?d, ol_data ol @ map (beyond s) [0..<8]),
      rte_free (Some 0) (rte_free (Some 0) (put_host (h\<lparr>h_rcvbuf := Some r'\<rparr>) (s\<lparr>overread := overread s + 8\<rparr>))))"
      (is "_ = Inr (_, ?s1)") "ring_elems r' = []"
    by (rule nrecvfrom_all_eq [OF assms(1,4-6) _ assms(8), of 128]) (use assms(7,8) in auto)
  let ?h1 = "h\<lparr>h_rcvbuf := Some r'\<rparr>"
  have l1: "lhost ?s1 = map (\<lambda>x. if h_addr x = h_addr h then ?h1 else x) (lhost s)" "malloc_ok ?s1 = (\<lambda>_ _. True)"
    "junk_protocol ?s1 = junk_protocol s"
    using assms(2) by (simp_all add: put_host_def rte_free_def)
  have h1: "is_host ?s1 fd ?h1"
    using assms(1) l1(1) find_map_replace [where f = h_fd and k = h_addr and h = h and h' = ?h1]
    by (simp add: is_host_def)
  have pos: "0 < List.length ?text" using assms(10,11) by (cases buffer') auto
  have le: "List.length ?text \<le> List.length buffer'" by (rule length_takeWhile_le)
  have fresh: "fresh_buf (h_sndbuf ?h1)" using assms(3) by simp
  obtain s2 r2 where n: "nsendto fd (buf_of buffer') (List.length ?text) ?d ?s1 = Inr (int (List.length ?text), s2)"
    "ring_wf r2"
    "ring_elems r2 = [\<lparr>ol_sip = localip ?h1, ol_dip = sin_addr ?d, ol_sport = localport ?h1, ol_dport = sin_port ?d,
       ol_protocol = junk_protocol ?s1, ol_data = rd_bytes (buf_of buffer') 0 (List.length ?text),
       ol_length = of_nat (List.length ?text)\<rparr>]"
    "lhost s2 = map (\<lambda>x. if h_addr x = h_addr ?h1 then ?h1\<lparr>h_sndbuf := Some r2\<rparr> else x) (lhost ?s1)"
    by (rule nsendto_ok [OF h1 l1(2) pos fresh])
  have "is_host s2 fd (?h1\<lparr>h_sndbuf := Some r2\<rparr>)"
    using h1 n(4) find_map_replace [where f = h_fd and k = h_addr and h = ?h1 and h' = "?h1\<lparr>h_sndbuf := Some r2\<rparr>"]
    by (simp add: is_host_def)
  moreover have "rd_bytes (buf_of buffer') 0 (List.length ?text) = ?text"
    using rd_buf_of [OF le] by (simp add: takeWhile_eq_take [symmetric])
  moreover have "udp_server_step fd buffer s = Inr (Done buffer', s2)"
  proof -
    have b: "(ol_data ol @ map (beyond s) [0..<8]) @ drop (List.length (ol_data ol @ map (beyond s) [0..<8])) buffer = buffer'"
      using assms(9) by simp
    have c: "c_strlen buffer' = Some (List.length ?text)" using assms(10) by (simp add: c_strlen_takeWhile)
    show ?thesis
      unfolding udp_server_step_def UDP_APP_RECV_BUFFER_SIZE_def e(1) bindE_simps wait.case prod.case Let_def b c
      by (simp add: n(1))
  qed
  ultimately show ?thesis
    using e(2) n(3) l1(3) by (intro exI conjI) (assumption | simp add: elems_def)+
qed

lemma udp_server_echoes_witness:
  "\<exists>s buffer' s' h'. udp_server_step 3 (replicate 128 0) s = Inr (Done buffer', s') \<and> is_host s' 3 h'
    \<and> map ol_data (elems (h_sndbuf h')) = [[104, 105]]"
proof -
  let ?ol = "zero_offload\<lparr>ol_sip := 9, ol_dip := 5, ol_sport := 8, ol_dport := 7, ol_data := [104, 105], ol_length := 10\<rparr>"
  obtain r where r: "ring_wf r" "ring_elems r = [?ol]" by (rule demo_queue)
  let ?h = "demo_host\<lparr>h_rcvbuf := Some r\<rparr>"
  let ?s = "demo_stack\<lparr>lhost := [?h]\<rparr>"
  let ?b = "[104, 105] @ map (beyond ?s) [0..<8] @ drop 10 (replicate 128 0)"
  have f: "is_host ?s 3 ?h" "malloc_ok ?s = (\<lambda>_ _. True)" "fresh_buf (h_sndbuf ?h)" "h_rcvbuf ?h = Some r"
    using demo_fresh by (simp_all add: is_host_def demo_host_def)
  have z: "beyond ?s = (\<lambda>_. 0)" by (simp add: demo_stack_def)
  have b: "?b = ol_data ?ol @ map (beyond ?s) [0..<8] @ drop (List.length (ol_data ?ol) + 8) (replicate 128 0)" by simp
  have t: "0 \<in> set ?b" "hd ?b \<noteq> 0" "takeWhile (\<lambda>b. b \<noteq> 0) ?b = [104, 105]" by (simp_all add: z upt_rec)
  obtain s' h' where "udp_server_step 3 (replicate 128 0) ?s = Inr (Done ?b, s')" "is_host s' 3 h'"
    "elems (h_sndbuf h') = [\<lparr>ol_sip = localip ?h, ol_dip = ol_sip ?ol, ol_sport = localport ?h, ol_dport = ol_sport ?ol,
         ol_protocol = junk_protocol ?s, ol_data = takeWhile (\<lambda>b. b \<noteq> 0) ?b,
         ol_length = of_nat (List.length (takeWhile (\<lambda>b. b \<noteq> 0) ?b))\<rparr>]"
    using udp_server_echoes [OF f r _ _ b t(1,2)] by auto
  then show ?thesis
    using t(3) by (intro exI [of _ ?s] exI [of _ ?b] exI [of _ s'] exI [of _ h']) simp
qed

text \<open>The end of a connection: when the oldest fragment of a readable connection is the empty one that a
  received FIN leaves, the server closes the connection, which queues one FIN segment for the peer,
  moves the control block to LAST_ACK, releases the descriptor and drops it from the interest set;
  but the block keeps the number of the released descriptor.\<close>

theorem tcp_server_disconnects:
  assumes "is_stream s fd st" "fd \<noteq> listenfd" "malloc_ok s = (\<lambda>_ _. True)" "has_room (s_sndbuf st)"
    and "s_rcvbuf st = Some r" "ring_wf r" "ring_elems r = f # rest" "f_length f = 0"
    and "s_status st \<noteq> NG_TCP_STATUS_LISTEN" "0 \<le> fd" "fd < 1024" "fd_wf (fd_table s)"
  shows "\<exists>s' st' fin. tcp_server_event listenfd (fd, True) interest s = Inr (Done (remove1 fd interest), s')
    \<and> is_stream s' fd st' \<and> s_status st' = NG_TCP_STATUS_LAST_ACK
    \<and> elems (s_sndbuf st') = elems (s_sndbuf st) @ [fin] \<and> tcp_flags fin = RTE_TCP_FIN_FLAG OR RTE_TCP_ACK_FLAG
    \<and> seqnum fin = snd_nxt st \<and> acknum fin = rcv_nxt st
    \<and> fd_used (fd_table s') = fd_used (fd_table s) - {nat fd}"
proof -
  obtain r' where r': "ring_mc_dequeue (Some r) = Inr (0, Some f, r')" "ring_elems r' = rest"
    by (rule ring_mc_dequeue_some [OF assms(6,7)])
  let ?st1 = "st\<lparr>s_rcvbuf := Some r'\<rparr>"
  let ?s1 = "rte_free (Some 0) (put_stream ?st1 s)"
  have e: "nrecv fd 1024 s = Inr (Done (0, []), ?s1)"
    using is_streamD(1,2) [OF assms(1)] r'(1) assms(5,8) by (simp add: nrecv_def Let_def)
  have "streams ?s1 = streams (put_stream ?st1 s)" by (rule streams_cong) (simp add: rte_free_def)
  then have str: "streams ?s1 = map (\<lambda>x. if s_addr x = s_addr st then ?st1 else x) (streams s)"
    by (simp add: streams_put)
  have f1: "lhost ?s1 = lhost s" "malloc_ok ?s1 = (\<lambda>_ _. True)" "fd_table ?s1 = fd_table s"
    using assms(3) by (simp_all add: put_stream_def rte_free_def)
  have i: "is_stream ?s1 fd ?st1" by (rule is_stream_update [OF assms(1) str f1(1)]) simp_all
  obtain a s2 where m: "rte_malloc sizeof_ng_tcp_fragment ?s1 = (Some a, s2)"
    using rte_malloc_total [of ?s1 sizeof_ng_tcp_fragment] f1(2) by auto
  note f2 = rte_malloc_fields [OF m]
  let ?fin = "(junk_frag s2)\<lparr>f_data := None, f_length := 0, f_sport := s_dport ?st1,
                 f_dport := s_sport ?st1, seqnum := snd_nxt ?st1, acknum := rcv_nxt ?st1,
                 tcp_flags := RTE_TCP_FIN_FLAG OR RTE_TCP_ACK_FLAG, windows := TCP_INITIAL_WINDOW,
                 hdrlen_off := 0x50\<rparr>"
  have "has_room (s_sndbuf ?st1)" using assms(4) by simp
  then obtain ret r2 where q: "ring_mp_enqueue (s_sndbuf ?st1) ?fin = Inr (ret, r2)" "ring_wf r2"
    "ring_elems r2 = elems (s_sndbuf ?st1) @ [?fin]"
    by (rule room_enqueue)
  let ?st2 = "?st1\<lparr>s_sndbuf := Some r2, s_status := NG_TCP_STATUS_LAST_ACK\<rparr>"
  let ?s3 = "put_stream ?st2 s2"
  let ?t = "(fd_table s)[nat fd div 8 := (fd_table s ! (nat fd div 8)) AND NOT (fd_mask (nat fd mod 8))]"
  have t: "set_fd_frombitmap fd (fd_table ?s3) = Inr (0, ?t)"
    using assms(10,11) f1(3) f2 by (simp add: set_fd_frombitmap_def MAX_FD_COUNT_def Let_def put_stream_def)
  have c: "nclose fd ?s1 = Inr (0, ?s3\<lparr>fd_table := ?t\<rparr>)"
    using is_streamD(1,2) [OF i] m q(1) t assms(9) by (simp add: nclose_def nclose_tcp_def Let_def set_fd_def)
  have "streams (?s3\<lparr>fd_table := ?t\<rparr>) = streams ?s3" by (rule streams_cong) simp
  moreover have "streams s2 = streams ?s1" by (rule streams_cong) (rule f2)
  ultimately have str3: "streams (?s3\<lparr>fd_table := ?t\<rparr>) = map (\<lambda>x. if s_addr x = s_addr ?st1 then ?st2 else x) (streams ?s1)"
    by (simp add: streams_put)
  have lh3: "lhost (?s3\<lparr>fd_table := ?t\<rparr>) = lhost ?s1" using f2 by (simp add: put_stream_def)
  have i3: "is_stream (?s3\<lparr>fd_table := ?t\<rparr>) fd ?st2"
    by (rule is_stream_update [OF i str3 lh3]) simp_all
  have "tcp_server_event listenfd (fd, True) interest s = Inr (Done (remove1 fd interest), ?s3\<lparr>fd_table := ?t\<rparr>)"
    using assms(2) e c by (simp add: tcp_server_event_def)
  moreover have "fd_used ?t = fd_used (fd_table s) - {nat fd}"
    by (rule fd_used_clear) (use assms(10-12) in \<open>simp_all add: MAX_FD_COUNT_def nat_less_iff\<close>)
  ultimately show ?thesis
    using i3 q(3) by (intro exI conjI) (assumption | simp add: elems_def)+
qed

lemma tcp_server_disconnects_witness:
  "\<exists>s s' st'. tcp_server_event 3 (4, True) [3, 4] s = Inr (Done [3], s') \<and> is_stream s' 4 st'
    \<and> s_status st' = NG_TCP_STATUS_LAST_ACK"
proof -
  let ?st = "(demo_tcb 6 NG_TCP_STATUS_CLOSE_WAIT 9 9999)\<lparr>s_fd := 4\<rparr>"
  obtain r where r: "ring_wf r" "ring_elems r = [zero_fragment]" by (rule demo_queue)
  let ?stq = "?st\<lparr>s_rcvbuf := Some r\<rparr>"
  let ?s = "demo_tcp [?stq]"
  have f: "is_stream ?s 4 ?stq" "malloc_ok ?s = (\<lambda>_ _. True)" "has_room (s_sndbuf ?stq)" "fd_wf (fd_table ?s)"
    "s_rcvbuf ?stq = Some r" "s_status ?stq \<noteq> NG_TCP_STATUS_LISTEN"
    using demo_ring_wf [of zero_fragment] ring_used_0 [of "demo_ring zero_fragment"]
    by (simp_all add: is_stream_def demo_tcb_def has_room_def) (simp_all add: demo_tcp_def fd_wf_def MAX_FD_COUNT_def)
  have z: "f_length zero_fragment = 0" by (simp add: zero_fragment_def)
  have rem: "remove1 (4 :: int) [3, 4] = [3]" by simp
  from tcp_server_disconnects [OF f(1) _ f(2,3,5) r z f(6) _ _ f(4), of 3 "[3, 4]"]
  show ?thesis unfolding rem by auto
qed

end
