(* ===== verification/Ring_Concurrent.thy ===== *)
theory Ring_Concurrent
  imports Ring_Refine
begin

text \<open>
  The ring with any number of threads that enqueue and dequeue at once (the multi-producer,
  multi-consumer variants of \<open>rte_ring.h\<close> and \<open>rte_ring_generic.h\<close>).  A step is one access of one thread to
  the shared ring: loading a head, loading the opposite tail, the compare-and-set of the head, copying
  one object, and publishing the tail, for which a thread spins until the tail has reached its own old head.
  Memory is sequentially consistent.

  The state carries, next to the ring and the threads, what the proof speaks about: the heads and tails
  as unbounded counts, which threads are between their compare-and-set and their publication, the
  history of the objects for which slots were taken, and the objects of completed calls.
\<close>

section \<open>State\<close>

text \<open>Where a thread is in a call.  Enqueue: before loading \<open>prod.head\<close>; before loading \<open>cons.tail\<close>; before the
  compare-and-set, with \<open>old_head\<close> and \<open>free_entries\<close>; copying, with \<open>old_head\<close>, \<open>n\<close> and the number of
  objects stored.  Dequeue: likewise, with the objects loaded.\<close>

datatype 'a rpc =
  Out
| EnqHead "'a list" rte_ring_queue_behavior
| EnqTail "'a list" rte_ring_queue_behavior u32
| EnqCas "'a list" rte_ring_queue_behavior u32 u32
| EnqCopy "'a list" u32 u32 nat
| DeqHead u32 rte_ring_queue_behavior
| DeqTail u32 rte_ring_queue_behavior u32
| DeqCas u32 rte_ring_queue_behavior u32 u32
| DeqCopy u32 u32 "'a list"

record 'a mring =
  ring :: "'a rte_ring"
  rpcs :: "nat \<Rightarrow> 'a rpc"
  phead :: nat
  ptail :: nat
  chead :: nat
  ctail :: nat
  ppend :: "(nat \<times> nat) list"
  cpend :: "(nat \<times> nat) list"
  seen :: "nat \<Rightarrow> nat"
  hist :: "'a list"
  enqd :: "'a list"
  deqd :: "'a list"

definition goto :: "nat \<Rightarrow> 'a rpc \<Rightarrow> 'a mring \<Rightarrow> 'a mring" where
  "goto t pc s = s\<lparr>rpcs := (rpcs s)(t := pc)\<rparr>"

text \<open>How many objects to move: all asked for if possible, else none or as many as there is room for.\<close>

definition move_count :: "u32 \<Rightarrow> rte_ring_queue_behavior \<Rightarrow> u32 \<Rightarrow> u32" where
  "move_count max_n behavior avail =
    (if max_n > avail then (if behavior = RTE_RING_QUEUE_FIXED then 0 else avail) else max_n)"

section \<open>Steps\<close>

definition mp_step :: "nat \<Rightarrow> 'a mring \<Rightarrow> 'a mring option" where
  "mp_step t s =
    (case rpcs s t of
       EnqHead objs b \<Rightarrow>
         Some (goto t (EnqTail objs b (ht_head (rprod (ring s)))) (s\<lparr>seen := (seen s)(t := phead s)\<rparr>))
     | EnqTail objs b old_head \<Rightarrow>
         Some (goto t (EnqCas objs b old_head (rcapacity (ring s) + ht_tail (rcons (ring s)) - old_head)) s)
     | EnqCas objs b old_head free_entries \<Rightarrow>
         let n = move_count (of_nat (length objs)) b free_entries
         in if n = 0 then Some (goto t Out s)
            else (case rte_atomic32_cmpset (ht_head (rprod (ring s))) old_head (old_head + n) of
                    (False, _) \<Rightarrow> Some (goto t (EnqHead objs b) s)
                  | (True, h) \<Rightarrow>
                      Some (goto t (EnqCopy objs old_head n 0)
                        (s\<lparr>ring := (ring s)\<lparr>rprod := (rprod (ring s))\<lparr>ht_head := h\<rparr>\<rparr>,
                           phead := phead s + unat n, ppend := ppend s @ [(t, unat n)],
                           hist := hist s @ take (unat n) objs\<rparr>)))
     | EnqCopy objs old_head n i \<Rightarrow>
         if i < unat n
         then Some (goto t (EnqCopy objs old_head n (Suc i))
                (s\<lparr>ring := (ring s)\<lparr>rslots :=
                    (rslots (ring s))[unat ((old_head + of_nat i) AND rmask (ring s)) := objs ! i]\<rparr>\<rparr>))
         else if ht_tail (rprod (ring s)) = old_head
         then Some (goto t Out
                (s\<lparr>ring := (ring s)\<lparr>rprod := (rprod (ring s))\<lparr>ht_tail := old_head + n\<rparr>\<rparr>,
                   ptail := ptail s + unat n, ppend := tl (ppend s), enqd := enqd s @ take (unat n) objs\<rparr>))
         else None
     | _ \<Rightarrow> None)"

definition mc_step :: "nat \<Rightarrow> 'a mring \<Rightarrow> 'a mring option" where
  "mc_step t s =
    (case rpcs s t of
       DeqHead max_n b \<Rightarrow>
         Some (goto t (DeqTail max_n b (ht_head (rcons (ring s)))) (s\<lparr>seen := (seen s)(t := chead s)\<rparr>))
     | DeqTail max_n b old_head \<Rightarrow>
         Some (goto t (DeqCas max_n b old_head (ht_tail (rprod (ring s)) - old_head)) s)
     | DeqCas max_n b old_head entries \<Rightarrow>
         let n = move_count max_n b entries
         in if n = 0 then Some (goto t Out s)
            else (case rte_atomic32_cmpset (ht_head (rcons (ring s))) old_head (old_head + n) of
                    (False, _) \<Rightarrow> Some (goto t (DeqHead max_n b) s)
                  | (True, h) \<Rightarrow>
                      Some (goto t (DeqCopy old_head n [])
                        (s\<lparr>ring := (ring s)\<lparr>rcons := (rcons (ring s))\<lparr>ht_head := h\<rparr>\<rparr>,
                           chead := chead s + unat n, cpend := cpend s @ [(t, unat n)]\<rparr>)))
     | DeqCopy old_head n objs \<Rightarrow>
         if length objs < unat n
         then Some (goto t (DeqCopy old_head n
                (objs @ [rslots (ring s) ! unat ((old_head + of_nat (length objs)) AND rmask (ring s))])) s)
         else if ht_tail (rcons (ring s)) = old_head
         then Some (goto t Out
                (s\<lparr>ring := (ring s)\<lparr>rcons := (rcons (ring s))\<lparr>ht_tail := old_head + n\<rparr>\<rparr>,
                   ctail := ctail s + unat n, cpend := tl (cpend s), deqd := deqd s @ objs\<rparr>))
         else None
     | _ \<Rightarrow> None)"

text \<open>The indices have 32 bits: a thread must not sleep between loading a head and its compare-and-set while
  \<open>2 ^ 32\<close> objects or more pass, for then the comparison cannot tell.\<close>

fun timely :: "nat \<Rightarrow> 'a mring \<Rightarrow> bool" where
  "timely t s \<longleftrightarrow>
    (case rpcs s t of
       EnqCas _ _ _ _ \<Rightarrow> int (phead s - seen s t) < 2 ^ 32
     | DeqCas _ _ _ _ \<Rightarrow> int (chead s - seen s t) < 2 ^ 32
     | _ \<Rightarrow> True)"

inductive ring_step :: "'a mring \<Rightarrow> 'a mring \<Rightarrow> bool" where
  producer: "mp_step t s = Some s' \<Longrightarrow> timely t s \<Longrightarrow> ring_step s s'"
| consumer: "mc_step t s = Some s' \<Longrightarrow> timely t s \<Longrightarrow> ring_step s s'"
| enqueue: "rpcs s t = Out \<Longrightarrow> length objs < 2 ^ 32 \<Longrightarrow> ring_step s (goto t (EnqHead objs b) s)"
| dequeue: "rpcs s t = Out \<Longrightarrow> ring_step s (goto t (DeqHead n b) s)"

inductive_cases ring_stepE: "ring_step s s'"

text \<open>The start: a ring as \<open>rte_ring_init\<close> leaves it, all threads outside.\<close>

definition mring_init :: "'a rte_ring \<Rightarrow> 'a mring" where
  "mring_init r = \<lparr>ring = r, rpcs = (\<lambda>_. Out), phead = 0, ptail = 0, chead = 0, ctail = 0, ppend = [], cpend = [],
     seen = (\<lambda>_. 0), hist = [], enqd = [], deqd = []\<rparr>"

definition ring_fresh :: "'a rte_ring \<Rightarrow> bool" where
  "ring_fresh r \<longleftrightarrow> ring_wf r \<and> ht_tail (rprod r) = 0 \<and> ht_tail (rcons r) = 0"

inductive ring_reachable :: "'a rte_ring \<Rightarrow> 'a mring \<Rightarrow> bool" for r where
  init: "ring_reachable r (mring_init r)"
| step: "ring_reachable r s \<Longrightarrow> ring_step s s' \<Longrightarrow> ring_reachable r s'"

section \<open>Pending segments\<close>

text \<open>The threads between compare-and-set and publication hold consecutive segments of positions, from the tail on.\<close>

fun segs :: "nat \<Rightarrow> (nat \<times> nat) list \<Rightarrow> (nat \<times> nat \<times> nat) list" where
  "segs a [] = []"
| "segs a ((t, n) # ps) = (t, a, n) # segs (a + n) ps"

definition seg_len :: "(nat \<times> nat) list \<Rightarrow> nat" where
  "seg_len ps = sum_list (map snd ps)"

lemma seg_len_simps [simp]:
  "seg_len [] = 0" "seg_len ((t, n) # ps) = n + seg_len ps" "seg_len (ps @ qs) = seg_len ps + seg_len qs"
  by (simp_all add: seg_len_def)

lemma segs_bounds: "(t, a, n) \<in> set (segs b ps) \<Longrightarrow> b \<le> a \<and> a + n \<le> b + seg_len ps"
  by (induction b ps rule: segs.induct) auto

lemma segs_append: "segs b (ps @ [(t, n)]) = segs b ps @ [(t, b + seg_len ps, n)]"
  by (induction b ps rule: segs.induct) auto

lemma segs_thread: "(t, a, n) \<in> set (segs b ps) \<Longrightarrow> (t, n) \<in> set ps"
  by (induction b ps rule: segs.induct) auto

text \<open>The thread whose segment starts at the tail is the first.\<close>

lemma segs_first:
  assumes "(t, b, n) \<in> set (segs b ps)" "\<forall>p\<in>set ps. 0 < snd p"
  obtains qs where "ps = (t, n) # qs"
proof (cases ps)
  case (Cons p qs)
  obtain u m where p: "p = (u, m)" by (cases p)
  have "(t, b, n) \<notin> set (segs (b + m) qs)" using segs_bounds [of t b n "b + m" qs] assms(2) Cons p by auto
  then show thesis using assms(1) Cons p that by simp
qed (use assms in simp)

lemma segs_disjoint:
  "(t, a, n) \<in> set (segs b ps) \<Longrightarrow> (u, c, m) \<in> set (segs b ps) \<Longrightarrow> t \<noteq> u \<Longrightarrow> a + n \<le> c \<or> c + m \<le> a"
proof (induction b ps rule: segs.induct)
  case (2 b v k ps)
  then show ?case using segs_bounds [of t a n "b + k" ps] segs_bounds [of u c m "b + k" ps] by auto
qed simp

lemma segs_tl: "segs b ((t, n) # ps) = (t, b, n) # segs (b + n) ps"
  by simp

section \<open>The invariant\<close>

definition slot :: "'a mring \<Rightarrow> nat \<Rightarrow> 'a" where
  "slot s j = rslots (ring s) ! (j mod unat (rsize (ring s)))"

definition cap :: "'a mring \<Rightarrow> nat" where
  "cap s = unat (rcapacity (ring s))"

text \<open>The ring itself: its constants, the counts and the words that carry them, and the pending threads.\<close>

definition static_inv :: "'a rte_ring \<Rightarrow> bool" where
  "static_inv r \<longleftrightarrow> (\<exists>k<32. unat (rsize r) = 2 ^ k \<and> rmask r = 2 ^ k - 1) \<and> length (rslots r) = unat (rsize r)
     \<and> unat (rcapacity r) < unat (rsize r)"

definition count_inv :: "'a mring \<Rightarrow> bool" where
  "count_inv s \<longleftrightarrow> static_inv (ring s)
     \<and> ctail s \<le> chead s \<and> chead s \<le> ptail s \<and> ptail s \<le> phead s \<and> phead s \<le> ctail s + cap s
     \<and> phead s = length (hist s)
     \<and> ht_head (rprod (ring s)) = of_nat (phead s) \<and> ht_tail (rprod (ring s)) = of_nat (ptail s)
     \<and> ht_head (rcons (ring s)) = of_nat (chead s) \<and> ht_tail (rcons (ring s)) = of_nat (ctail s)
     \<and> ptail s + seg_len (ppend s) = phead s \<and> ctail s + seg_len (cpend s) = chead s
     \<and> (\<forall>p\<in>set (ppend s). 0 < snd p) \<and> (\<forall>p\<in>set (cpend s). 0 < snd p)"

definition data_inv :: "'a mring \<Rightarrow> bool" where
  "data_inv s \<longleftrightarrow> enqd s = take (ptail s) (hist s) \<and> deqd s = take (ctail s) (hist s)
     \<and> (\<forall>j. ctail s \<le> j \<and> j < ptail s \<longrightarrow> slot s j = hist s ! j)"

text \<open>Each thread, by where it is.\<close>

definition cas_p_inv :: "nat \<Rightarrow> 'a mring \<Rightarrow> u32 \<Rightarrow> u32 \<Rightarrow> bool" where
  "cas_p_inv t s old_head free \<longleftrightarrow> old_head = of_nat (seen s t) \<and> seen s t \<le> phead s
     \<and> (\<exists>c\<le>ctail s. free = rcapacity (ring s) + of_nat c - old_head
          \<and> (seen s t = phead s \<longrightarrow> c \<le> phead s \<and> phead s \<le> c + cap s))"

definition cas_c_inv :: "nat \<Rightarrow> 'a mring \<Rightarrow> u32 \<Rightarrow> u32 \<Rightarrow> bool" where
  "cas_c_inv t s old_head entries \<longleftrightarrow> old_head = of_nat (seen s t) \<and> seen s t \<le> chead s
     \<and> (\<exists>p\<le>ptail s. entries = of_nat p - old_head \<and> (seen s t = chead s \<longrightarrow> chead s \<le> p))"

definition copy_p_inv :: "nat \<Rightarrow> 'a mring \<Rightarrow> 'a list \<Rightarrow> u32 \<Rightarrow> u32 \<Rightarrow> nat \<Rightarrow> bool" where
  "copy_p_inv t s objs old_head n i \<longleftrightarrow> (\<exists>a. old_head = of_nat a \<and> (t, a, unat n) \<in> set (segs (ptail s) (ppend s))
     \<and> i \<le> unat n \<and> unat n \<le> length objs \<and> (\<forall>j<unat n. hist s ! (a + j) = objs ! j)
     \<and> (\<forall>j<i. slot s (a + j) = hist s ! (a + j)))"

definition copy_c_inv :: "nat \<Rightarrow> 'a mring \<Rightarrow> u32 \<Rightarrow> u32 \<Rightarrow> 'a list \<Rightarrow> bool" where
  "copy_c_inv t s old_head n objs \<longleftrightarrow> (\<exists>a. old_head = of_nat a \<and> (t, a, unat n) \<in> set (segs (ctail s) (cpend s))
     \<and> length objs \<le> unat n \<and> (\<forall>j<length objs. objs ! j = hist s ! (a + j)))"

definition thread_inv :: "nat \<Rightarrow> 'a mring \<Rightarrow> bool" where
  "thread_inv t s \<longleftrightarrow>
    (case rpcs s t of
       EnqHead objs _ \<Rightarrow> length objs < 2 ^ 32
     | EnqTail objs _ old_head \<Rightarrow> length objs < 2 ^ 32 \<and> old_head = of_nat (seen s t) \<and> seen s t \<le> phead s
     | EnqCas objs _ old_head free \<Rightarrow> length objs < 2 ^ 32 \<and> cas_p_inv t s old_head free
     | EnqCopy objs old_head n i \<Rightarrow> copy_p_inv t s objs old_head n i
     | DeqTail _ _ old_head \<Rightarrow> old_head = of_nat (seen s t) \<and> seen s t \<le> chead s
     | DeqCas _ _ old_head entries \<Rightarrow> cas_c_inv t s old_head entries
     | DeqCopy old_head n objs \<Rightarrow> copy_c_inv t s old_head n objs
     | _ \<Rightarrow> True)"

text \<open>A thread is pending exactly while it copies.\<close>

definition pend_inv :: "'a mring \<Rightarrow> bool" where
  "pend_inv s \<longleftrightarrow> (\<forall>t n. (t, n) \<in> set (ppend s) \<longrightarrow> (\<exists>objs h m i. rpcs s t = EnqCopy objs h m i))
     \<and> (\<forall>t n. (t, n) \<in> set (cpend s) \<longrightarrow> (\<exists>h m objs. rpcs s t = DeqCopy h m objs))
     \<and> distinct (map fst (ppend s)) \<and> distinct (map fst (cpend s))"

definition mring_inv :: "'a mring \<Rightarrow> bool" where
  "mring_inv s \<longleftrightarrow> count_inv s \<and> data_inv s \<and> pend_inv s \<and> (\<forall>t. thread_inv t s)"

text \<open>What a step of another thread may do, as thread \<open>t\<close> sees it.\<close>

definition rely :: "nat \<Rightarrow> 'a mring \<Rightarrow> 'a mring \<Rightarrow> bool" where
  "rely t s s' \<longleftrightarrow> rpcs s' t = rpcs s t \<and> seen s' t = seen s t \<and> rcapacity (ring s') = rcapacity (ring s)
     \<and> (\<exists>xs. hist s' = hist s @ xs) \<and> ptail s \<le> ptail s' \<and> ctail s \<le> ctail s' \<and> chead s \<le> chead s' \<and> phead s \<le> phead s'
     \<and> (\<forall>a n. (t, a, n) \<in> set (segs (ptail s) (ppend s)) \<longrightarrow> (t, a, n) \<in> set (segs (ptail s') (ppend s'))
           \<and> (\<forall>j. a \<le> j \<and> j < a + n \<longrightarrow> slot s' j = slot s j))
     \<and> (\<forall>a n. (t, a, n) \<in> set (segs (ctail s) (cpend s)) \<longrightarrow> (t, a, n) \<in> set (segs (ctail s') (cpend s')))"

lemma thread_inv_rely:
  assumes "thread_inv t s" "rely t s s'" "count_inv s"
  shows "thread_inv t s'"
proof -
  obtain xs where h: "hist s' = hist s @ xs" using assms(2) by (auto simp: rely_def)
  have pb: "(t, a, n) \<in> set (segs (ptail s) (ppend s)) \<Longrightarrow> a + n \<le> length (hist s)" for a n
    using segs_bounds [of t a n "ptail s" "ppend s"] assms(3) by (simp add: count_inv_def)
  have cb: "(t, a, n) \<in> set (segs (ctail s) (cpend s)) \<Longrightarrow> a + n \<le> length (hist s)" for a n
    using segs_bounds [of t a n "ctail s" "cpend s"] assms(3) by (simp add: count_inv_def)
  have cp: "cap s' = cap s" using assms(2) by (simp add: rely_def cap_def)
  show ?thesis
  proof (cases "rpcs s t")
    case (EnqCas objs b oh free)
    have "cas_p_inv t s oh free" using assms(1) EnqCas by (simp add: thread_inv_def)
    then have "cas_p_inv t s' oh free"
      using assms(2) cp unfolding cas_p_inv_def rely_def by (metis le_antisym le_trans)
    then show ?thesis using assms EnqCas by (simp add: thread_inv_def rely_def)
  next
    case (EnqCopy objs oh n i)
    then obtain a where "oh = of_nat a" "(t, a, unat n) \<in> set (segs (ptail s) (ppend s))"
       "i \<le> unat n" "unat n \<le> length objs" "\<forall>j<unat n. hist s ! (a + j) = objs ! j"
       "\<forall>j<i. slot s (a + j) = hist s ! (a + j)"
      using assms(1) by (auto simp: thread_inv_def copy_p_inv_def)
    moreover from this have "(t, a, unat n) \<in> set (segs (ptail s') (ppend s'))"
      "\<forall>j<unat n. slot s' (a + j) = slot s (a + j)" "\<forall>j<unat n. hist s' ! (a + j) = hist s ! (a + j)"
      using assms(2) pb [of a "unat n"] h by (auto simp: rely_def nth_append)
    ultimately have "copy_p_inv t s' objs oh n i" unfolding copy_p_inv_def by (intro exI [of _ a]) auto
    then show ?thesis using assms(2) EnqCopy by (simp add: thread_inv_def rely_def)
  next
    case (DeqCas mx b oh e)
    have "cas_c_inv t s oh e" using assms(1) DeqCas by (simp add: thread_inv_def)
    then have "cas_c_inv t s' oh e"
      using assms(2) unfolding cas_c_inv_def rely_def by (metis le_antisym le_trans)
    then show ?thesis using assms DeqCas by (simp add: thread_inv_def rely_def)
  next
    case (DeqCopy oh n objs)
    then obtain a where "oh = of_nat a" "(t, a, unat n) \<in> set (segs (ctail s) (cpend s))"
       "length objs \<le> unat n" "\<forall>j<length objs. objs ! j = hist s ! (a + j)"
      using assms(1) by (auto simp: thread_inv_def copy_c_inv_def)
    moreover from this have "(t, a, unat n) \<in> set (segs (ctail s') (cpend s'))"
      "\<forall>j<length objs. hist s' ! (a + j) = hist s ! (a + j)"
      using assms(2) cb [of a "unat n"] h by (auto simp: rely_def nth_append)
    ultimately have "copy_c_inv t s' oh n objs" unfolding copy_c_inv_def by (intro exI [of _ a]) auto
    then show ?thesis using assms(2) DeqCopy by (simp add: thread_inv_def rely_def)
  qed (use assms in \<open>auto simp: thread_inv_def rely_def\<close>)
qed

lemma goto_simps [simp]:
  "ring (goto t pc s) = ring s" "rpcs (goto t pc s) = (rpcs s)(t := pc)" "phead (goto t pc s) = phead s"
  "ptail (goto t pc s) = ptail s" "chead (goto t pc s) = chead s" "ctail (goto t pc s) = ctail s"
  "ppend (goto t pc s) = ppend s" "cpend (goto t pc s) = cpend s" "seen (goto t pc s) = seen s"
  "hist (goto t pc s) = hist s" "enqd (goto t pc s) = enqd s" "deqd (goto t pc s) = deqd s"
  by (simp_all add: goto_def)

text \<open>The rule every step is proved by.\<close>

lemma mring_inv_stepI:
  assumes "mring_inv s" "count_inv s'" "data_inv s'" "pend_inv s'" "thread_inv t s'" "\<And>u. u \<noteq> t \<Longrightarrow> rely u s s'"
  shows "mring_inv s'"
  using assms thread_inv_rely unfolding mring_inv_def by metis

text \<open>Steps that change nothing but the thread.\<close>

lemma local_step:
  assumes m: "mring_inv s" and s': "s' = goto t pc (s\<lparr>seen := (seen s)(t := k)\<rparr>)"
    and "\<forall>n. (t, n) \<in> set (ppend s) \<longrightarrow> (\<exists>objs h m i. pc = EnqCopy objs h m i)"
    and "\<forall>n. (t, n) \<in> set (cpend s) \<longrightarrow> (\<exists>h m objs. pc = DeqCopy h m objs)"
    and "thread_inv t s'"
  shows "mring_inv s'"
proof (rule mring_inv_stepI [OF m, where t = t])
  have i: "count_inv s" "data_inv s" "pend_inv s" using m by (simp_all add: mring_inv_def)
  show "count_inv s'" using i(1) by (simp add: s' count_inv_def cap_def)
  show "data_inv s'" using i(2) by (simp add: s' data_inv_def slot_def)
  show "pend_inv s'" using i(3) assms(3,4) by (auto simp: s' pend_inv_def)
  show "thread_inv t s'" by fact
  show "rely u s s'" if "u \<noteq> t" for u using that by (auto simp: s' rely_def slot_def)
qed

lemma not_pending:
  assumes "pend_inv s"
  shows "\<nexists>objs h m i. rpcs s t = EnqCopy objs h m i \<Longrightarrow> (t, n) \<notin> set (ppend s)"
    and "\<nexists>h m objs. rpcs s t = DeqCopy h m objs \<Longrightarrow> (t, n) \<notin> set (cpend s)"
  using assms by (auto simp: pend_inv_def)

fun copying :: "'a rpc \<Rightarrow> bool" where
  "copying (EnqCopy _ _ _ _) \<longleftrightarrow> True"
| "copying (DeqCopy _ _ _) \<longleftrightarrow> True"
| "copying _ \<longleftrightarrow> False"

lemma simple_step:
  assumes m: "mring_inv s" and pc: "\<not> copying (rpcs s t)" and ti: "thread_inv t (goto t pc s)"
  shows "mring_inv (goto t pc s)"
proof -
  have p: "pend_inv s" using m by (simp add: mring_inv_def)
  have "(t, n) \<notin> set (ppend s)" "(t, n) \<notin> set (cpend s)" for n
    using not_pending [OF p, of t] pc by (metis copying.simps(1), metis copying.simps(2))
  moreover have "s = s\<lparr>seen := (seen s)(t := seen s t)\<rparr>" by simp
  ultimately show ?thesis using local_step [OF m _ _ _ ti, of pc "seen s t"] by simp
qed

lemma enter_step:
  assumes "mring_inv s" and "rpcs s t = Out"
  shows "length objs < 2 ^ 32 \<Longrightarrow> mring_inv (goto t (EnqHead objs b) s)" "mring_inv (goto t (DeqHead n b) s)"
  using assms by (auto intro!: simple_step simp: thread_inv_def)

section \<open>Word arithmetic\<close>

lemma of_nat_close:
  assumes "(of_nat a :: u32) = of_nat b" "a \<le> b" "b - a < 2 ^ 32"
  shows "a = b"
proof -
  have "a mod 2 ^ 32 = b mod 2 ^ 32" using assms(1) by (simp add: word_of_nat_eq_iff take_bit_eq_mod)
  then have "2 ^ 32 dvd b - a" using assms(2) by (metis mod_eq_dvd_iff_nat)
  then show ?thesis using assms(2,3) by (metis diff_is_0_eq' dvd_imp_le le_antisym linorder_not_less neq0_conv diff_self_eq_0 zero_less_diff)
qed

lemma unat_of_nat_diff:
  fixes a b c :: nat
  assumes "b \<le> a + c" "a + c - b < 2 ^ 32"
  shows "unat (of_nat a + of_nat c - of_nat b :: u32) = a + c - b"
proof -
  have "(of_nat a + of_nat c - of_nat b :: u32) = of_nat (a + c - b)" using assms(1) by (simp add: of_nat_diff)
  then show ?thesis using assms(2) by (simp add: unat_of_nat_small)
qed

lemma move_count_le: "unat (move_count m b v) \<le> unat m" "unat (move_count m b v) \<le> unat v"
  by (auto simp: move_count_def word_less_nat_alt)

lemma slot_word:
  assumes "static_inv r"
  shows "unat ((of_nat a + of_nat i) AND rmask r) = (a + i) mod unat (rsize r)"
proof -
  obtain k where k: "k < 32" "unat (rsize r) = 2 ^ k" "rmask r = 2 ^ k - 1" using assms by (auto simp: static_inv_def)
  have "unat ((of_nat a + of_nat i) AND rmask r) = unat (of_nat (a + i) :: u32) mod 2 ^ k"
    by (simp add: k(3) unat_and_mask)
  also have "\<dots> = (a + i) mod 2 ^ 32 mod 2 ^ k" by (simp add: unat_of_nat del: of_nat_add)
  also have "\<dots> = (a + i) mod 2 ^ k" by (rule mod_mod_cancel, rule le_imp_power_dvd) (use k(1) in simp)
  finally show ?thesis by (simp add: k(2))
qed

section \<open>Producer steps\<close>

lemma producer_load:
  assumes m: "mring_inv s" and pc: "rpcs s t = EnqHead objs b"
  shows "mring_inv (goto t (EnqTail objs b (ht_head (rprod (ring s)))) (s\<lparr>seen := (seen s)(t := phead s)\<rparr>))"
proof (rule local_step [OF m refl])
  have i: "pend_inv s" "count_inv s" "thread_inv t s" using m by (auto simp: mring_inv_def)
  show "thread_inv t (goto t (EnqTail objs b (ht_head (rprod (ring s)))) (s\<lparr>seen := (seen s)(t := phead s)\<rparr>))"
    using i pc by (simp add: thread_inv_def count_inv_def)
  show "\<forall>n. (t, n) \<in> set (ppend s) \<longrightarrow> (\<exists>objs' h m i. EnqTail objs b (ht_head (rprod (ring s))) = EnqCopy objs' h m i)"
    "\<forall>n. (t, n) \<in> set (cpend s) \<longrightarrow> (\<exists>h m objs'. EnqTail objs b (ht_head (rprod (ring s))) = DeqCopy h m objs')"
    using not_pending [OF i(1), of t] pc by auto
qed

lemma producer_tail:
  assumes m: "mring_inv s" and pc: "rpcs s t = EnqTail objs b oh"
  shows "mring_inv (goto t (EnqCas objs b oh (rcapacity (ring s) + ht_tail (rcons (ring s)) - oh)) s)" (is "mring_inv ?s")
proof -
  have i: "pend_inv s" "count_inv s" "thread_inv t s" using m by (auto simp: mring_inv_def)
  have "cas_p_inv t ?s oh (rcapacity (ring s) + ht_tail (rcons (ring s)) - oh)"
    unfolding cas_p_inv_def using i(2,3) pc
    by (intro conjI exI [of _ "ctail s"]) (auto simp: thread_inv_def count_inv_def cap_def)
  then show ?thesis using pc i(3) by (intro simple_step [OF m]) (auto simp: thread_inv_def)
qed

lemma producer_leave:
  assumes m: "mring_inv s" and pc: "rpcs s t = EnqCas objs b oh free"
  shows "mring_inv (goto t Out s)" "mring_inv (goto t (EnqHead objs b) s)"
proof -
  have "length objs < 2 ^ 32" using m pc by (auto simp: mring_inv_def thread_inv_def dest: spec [of _ t])
  then show "mring_inv (goto t Out s)" "mring_inv (goto t (EnqHead objs b) s)"
    by (intro simple_step [OF m]; simp add: pc thread_inv_def)+
qed

text \<open>The compare-and-set succeeds only when nothing has passed, so the room computed is there.\<close>

lemma cas_room:
  assumes c: "count_inv s" and p: "cas_p_inv t s oh free" and ok: "ht_head (rprod (ring s)) = oh"
    and w: "phead s - seen s t < 2 ^ 32"
  shows "oh = of_nat (phead s)" "phead s + unat free \<le> ctail s + cap s"
proof -
  obtain a where a: "oh = of_nat (seen s t)" "seen s t \<le> phead s" using p by (auto simp: cas_p_inv_def)
  have e: "seen s t = phead s"
  proof (rule of_nat_close)
    show "(of_nat (seen s t) :: u32) = of_nat (phead s)" using a(1) ok c unfolding count_inv_def by metis
  qed (use a(2) w in auto)
  then show "oh = of_nat (phead s)" using a by simp
  obtain x where x: "x \<le> ctail s" "free = rcapacity (ring s) + of_nat x - of_nat (phead s)" "x \<le> phead s" "phead s \<le> x + cap s"
    using p e a(1) by (auto simp: cas_p_inv_def)
  have "free = of_nat (cap s) + of_nat x - of_nat (phead s)" using x(2) by (simp add: cap_def)
  moreover have "cap s + x - phead s < 2 ^ 32" using x(3) unat_lt2p [of "rcapacity (ring s)"] by (simp add: cap_def)
  ultimately have "unat free = cap s + x - phead s" using unat_of_nat_diff [of "phead s" "cap s" x] x(4) by (metis add.commute)
  then show "phead s + unat free \<le> ctail s + cap s" using x by simp
qed

lemma producer_reserve:
  assumes m: "mring_inv s" and pc: "rpcs s t = EnqCas objs b oh free"
    and n: "n = move_count (of_nat (length objs)) b free" "n \<noteq> 0"
    and ok: "ht_head (rprod (ring s)) = oh" and w: "phead s - seen s t < 2 ^ 32"
  shows "mring_inv (goto t (EnqCopy objs oh n 0)
     (s\<lparr>ring := (ring s)\<lparr>rprod := (rprod (ring s))\<lparr>ht_head := oh + n\<rparr>\<rparr>, phead := phead s + unat n,
        ppend := ppend s @ [(t, unat n)], hist := hist s @ take (unat n) objs\<rparr>))" (is "mring_inv ?s")
proof (rule mring_inv_stepI [OF m, where t = t])
  have i: "pend_inv s" "count_inv s" "data_inv s" "thread_inv t s" using m by (auto simp: mring_inv_def)
  have c: "cas_p_inv t s oh free" and l: "length objs < 2 ^ 32" using i(4) pc by (simp_all add: thread_inv_def)
  note r = cas_room [OF i(2) c ok w]
  have nl: "unat n \<le> length objs" using move_count_le(1) [of "of_nat (length objs)" b free] n(1) l by (simp add: unat_of_nat_small)
  have nf: "unat n \<le> unat free" using move_count_le(2) n(1) by simp
  have n0: "0 < unat n" using n(2) by (simp add: unat_gt_0)
  show "count_inv ?s"
    using i(2) r nl nf n0 by (auto simp: count_inv_def static_inv_def cap_def)
  show "data_inv ?s" using i(2,3) by (auto simp: data_inv_def count_inv_def slot_def nth_append)
  show "pend_inv ?s"
    using i(1) not_pending [OF i(1), of t] pc by (auto simp: pend_inv_def)
  have "copy_p_inv t ?s objs oh n 0"
    unfolding copy_p_inv_def
    using r(1) nl i(2) by (intro exI [of _ "phead s"]) (auto simp: segs_append count_inv_def nth_append)
  then show "thread_inv t ?s" by (simp add: thread_inv_def)
  show "rely u s ?s" if "u \<noteq> t" for u
    using that by (auto simp: rely_def segs_append slot_def)
qed

text \<open>Two positions in use never share a slot.\<close>

lemma slots_distinct:
  assumes "count_inv s" "ctail s \<le> i" "i < phead s" "ctail s \<le> j" "j < phead s"
    and "i mod unat (rsize (ring s)) = j mod unat (rsize (ring s))"
  shows "i = j"
proof -
  let ?b = "ctail s" and ?n = "unat (rsize (ring s))"
  have "phead s \<le> ?b + cap s" "cap s < ?n" using assms(1) by (simp_all add: count_inv_def static_inv_def cap_def)
  then have l: "i - ?b < ?n" "j - ?b < ?n" using assms(3,5) by linarith+
  have e: "?b + (i - ?b) = i" "?b + (j - ?b) = j" using assms(2,4) by simp_all
  have "(?b + (i - ?b)) mod ?n = (?b + (j - ?b)) mod ?n" unfolding e by (fact assms(6))
  from mod_add_inj [OF this l] show ?thesis using assms(2,4) by simp
qed

lemma slot_update:
  assumes "count_inv s" "ctail s \<le> x" "x < phead s" "ctail s \<le> j" "j < phead s"
    and "s' = goto t pc (s\<lparr>ring := (ring s)\<lparr>rslots := (rslots (ring s))[x mod unat (rsize (ring s)) := v]\<rparr>\<rparr>)"
  shows "slot s' j = (if j = x then v else slot s j)"
proof -
  have "x mod unat (rsize (ring s)) < length (rslots (ring s))"
    using assms(1) by (auto simp: count_inv_def static_inv_def)
  then show ?thesis
    using slots_distinct [OF assms(1,4,5,2,3)] assms(6) by (auto simp: slot_def nth_list_update)
qed

lemma producer_store:
  assumes m: "mring_inv s" and pc: "rpcs s t = EnqCopy objs oh n i" and lt: "i < unat n"
  shows "mring_inv (goto t (EnqCopy objs oh n (Suc i))
     (s\<lparr>ring := (ring s)\<lparr>rslots := (rslots (ring s))[unat ((oh + of_nat i) AND rmask (ring s)) := objs ! i]\<rparr>\<rparr>))"
proof -
  have i: "pend_inv s" "count_inv s" "data_inv s" "copy_p_inv t s objs oh n i"
    using m pc by (auto simp: mring_inv_def thread_inv_def dest: spec [of _ t])
  obtain a where a: "oh = of_nat a" "(t, a, unat n) \<in> set (segs (ptail s) (ppend s))" "unat n \<le> length objs"
    "\<forall>j<unat n. hist s ! (a + j) = objs ! j" "\<forall>j<i. slot s (a + j) = hist s ! (a + j)"
    using i(4) by (auto simp: copy_p_inv_def)
  have b: "ptail s \<le> a" "a + unat n \<le> phead s" "ctail s \<le> ptail s"
    using segs_bounds [OF a(2)] i(2) by (auto simp: count_inv_def)
  have x: "unat ((oh + of_nat i) AND rmask (ring s)) = (a + i) mod unat (rsize (ring s))"
    using slot_word [of "ring s" a i] i(2) a(1) by (simp add: count_inv_def)
  let ?s = "goto t (EnqCopy objs oh n (Suc i))
     (s\<lparr>ring := (ring s)\<lparr>rslots := (rslots (ring s))[(a + i) mod unat (rsize (ring s)) := objs ! i]\<rparr>\<rparr>)"
  have u: "slot ?s j = (if j = a + i then objs ! i else slot s j)" if "ctail s \<le> j" "j < phead s" for j
    by (rule slot_update [OF i(2) _ _ that refl]) (use b lt in auto)
  have "mring_inv ?s"
  proof (rule mring_inv_stepI [OF m, where t = t])
    show "count_inv ?s" using i(2) by (simp add: count_inv_def static_inv_def cap_def)
    show "data_inv ?s"
      using i(3) u b unfolding data_inv_def by auto
    show "pend_inv ?s" using i(1) pc by (fastforce simp: pend_inv_def)
    have "copy_p_inv t ?s objs oh n (Suc i)"
      unfolding copy_p_inv_def using a b lt u
      by (intro exI [of _ a]) (auto simp: less_Suc_eq)
    then show "thread_inv t ?s" by (simp add: thread_inv_def)
    show "rely w s ?s" if "w \<noteq> t" for w
    proof -
      have "slot ?s j = slot s j" if "(w, c, k) \<in> set (segs (ptail s) (ppend s))" "c \<le> j" "j < c + k" for c k j
        using segs_disjoint [OF that(1) a(2) \<open>w \<noteq> t\<close>] segs_bounds [OF that(1)] that(2,3) u [of j] b lt i(2)
        by (auto simp: count_inv_def)
      then show ?thesis using that by (auto simp: rely_def)
    qed
  qed
  then show ?thesis by (simp only: x)
qed

lemma producer_publish:
  assumes m: "mring_inv s" and pc: "rpcs s t = EnqCopy objs oh n i" and ge: "\<not> i < unat n"
    and tl: "ht_tail (rprod (ring s)) = oh"
  shows "mring_inv (goto t Out (s\<lparr>ring := (ring s)\<lparr>rprod := (rprod (ring s))\<lparr>ht_tail := oh + n\<rparr>\<rparr>,
      ptail := ptail s + unat n, ppend := tl (ppend s), enqd := enqd s @ take (unat n) objs\<rparr>))" (is "mring_inv ?s")
proof (rule mring_inv_stepI [OF m, where t = t])
  have i: "pend_inv s" "count_inv s" "data_inv s" "copy_p_inv t s objs oh n i"
    using m pc by (auto simp: mring_inv_def thread_inv_def dest: spec [of _ t])
  obtain a where a: "oh = of_nat a" "(t, a, unat n) \<in> set (segs (ptail s) (ppend s))" "i = unat n" "unat n \<le> length objs"
    "\<forall>j<unat n. hist s ! (a + j) = objs ! j" "\<forall>j<i. slot s (a + j) = hist s ! (a + j)"
    using i(4) ge by (auto simp: copy_p_inv_def)
  have b: "ptail s \<le> a" "a + unat n \<le> phead s" using segs_bounds [OF a(2)] i(2) by (auto simp: count_inv_def)
  have "ptail s = a"
  proof (rule of_nat_close)
    show "(of_nat (ptail s) :: u32) = of_nat a" using tl a(1) i(2) unfolding count_inv_def by metis
    have "phead s \<le> ctail s + cap s" "ctail s \<le> ptail s" using i(2) by (auto simp: count_inv_def)
    then show "a - ptail s < 2 ^ 32" using b unat_lt2p [of "rcapacity (ring s)"] by (simp add: cap_def)
  qed (use b in simp)
  note pt = this
  obtain qs where q: "ppend s = (t, unat n) # qs"
    using segs_first [of t "ptail s" "unat n" "ppend s"] a(2) i(2) pt by (auto simp: count_inv_def)
  have th: "take (unat n) (drop a (hist s)) = take (unat n) objs"
    using a(4,5) b(2) i(2) by (intro nth_equalityI) (auto simp: count_inv_def)
  show "count_inv ?s"
    using i(2) q a(1) pt b(2) by (auto simp: count_inv_def static_inv_def cap_def)
  show "data_inv ?s"
    using i(3) pt th a(3,6) unfolding data_inv_def
    by (auto simp: slot_def take_add) (metis add_diff_inverse_nat less_diff_conv2 linorder_not_less add.commute)
  have "t \<notin> fst ` set qs" using i(1) q by (simp add: pend_inv_def)
  then have "(t, k) \<notin> set qs" for k by force
  moreover have "(t, k) \<notin> set (cpend s)" for k using not_pending(2) [OF i(1), of t k] pc by simp
  ultimately show "pend_inv ?s" using i(1) q by (auto simp: pend_inv_def)
  show "thread_inv t ?s" by (simp add: thread_inv_def)
  show "rely u s ?s" if "u \<noteq> t" for u
    using that q by (auto simp: rely_def slot_def)
qed

section \<open>Consumer steps\<close>

lemma consumer_load:
  assumes m: "mring_inv s" and pc: "rpcs s t = DeqHead mx b"
  shows "mring_inv (goto t (DeqTail mx b (ht_head (rcons (ring s)))) (s\<lparr>seen := (seen s)(t := chead s)\<rparr>))"
proof (rule local_step [OF m refl])
  have i: "pend_inv s" "count_inv s" "thread_inv t s" using m by (auto simp: mring_inv_def)
  show "thread_inv t (goto t (DeqTail mx b (ht_head (rcons (ring s)))) (s\<lparr>seen := (seen s)(t := chead s)\<rparr>))"
    using i pc by (simp add: thread_inv_def count_inv_def)
  show "\<forall>n. (t, n) \<in> set (ppend s) \<longrightarrow> (\<exists>objs' h m i. DeqTail mx b (ht_head (rcons (ring s))) = EnqCopy objs' h m i)"
    "\<forall>n. (t, n) \<in> set (cpend s) \<longrightarrow> (\<exists>h m objs'. DeqTail mx b (ht_head (rcons (ring s))) = DeqCopy h m objs')"
    using not_pending [OF i(1), of t] pc by auto
qed

lemma consumer_tail:
  assumes m: "mring_inv s" and pc: "rpcs s t = DeqTail mx b oh"
  shows "mring_inv (goto t (DeqCas mx b oh (ht_tail (rprod (ring s)) - oh)) s)" (is "mring_inv ?s")
proof -
  have i: "count_inv s" "thread_inv t s" using m by (auto simp: mring_inv_def)
  have "cas_c_inv t ?s oh (ht_tail (rprod (ring s)) - oh)"
    unfolding cas_c_inv_def using i pc
    by (intro conjI exI [of _ "ptail s"]) (auto simp: thread_inv_def count_inv_def)
  then show ?thesis using pc by (intro simple_step [OF m]) (auto simp: thread_inv_def)
qed

lemma consumer_leave:
  assumes m: "mring_inv s" and pc: "rpcs s t = DeqCas mx b oh entries"
  shows "mring_inv (goto t Out s)" "mring_inv (goto t (DeqHead mx b) s)"
  by (intro simple_step [OF m]; simp add: pc thread_inv_def)+

lemma cas_entries:
  assumes c: "count_inv s" and p: "cas_c_inv t s oh entries" and ok: "ht_head (rcons (ring s)) = oh"
    and w: "chead s - seen s t < 2 ^ 32"
  shows "oh = of_nat (chead s)" "chead s + unat entries \<le> ptail s"
proof -
  obtain a where a: "oh = of_nat (seen s t)" "seen s t \<le> chead s" using p by (auto simp: cas_c_inv_def)
  have e: "seen s t = chead s"
  proof (rule of_nat_close)
    show "(of_nat (seen s t) :: u32) = of_nat (chead s)" using a(1) ok c unfolding count_inv_def by metis
  qed (use a(2) w in auto)
  then show "oh = of_nat (chead s)" using a by simp
  obtain x where x: "x \<le> ptail s" "entries = of_nat x - of_nat (chead s)" "chead s \<le> x"
    using p e a(1) by (auto simp: cas_c_inv_def)
  have "x - chead s \<le> cap s" using x(1,3) c by (auto simp: count_inv_def)
  then have "x - chead s < 2 ^ 32" using unat_lt2p [of "rcapacity (ring s)"] by (simp add: cap_def)
  moreover have "entries = of_nat (x - chead s)" using x(2,3) by (simp add: of_nat_diff)
  ultimately have "unat entries = x - chead s" by (simp only: unat_of_nat_small len_num0 len_num1 len_bit0 len_bit1) (simp add: unat_of_nat_small)
  then show "chead s + unat entries \<le> ptail s" using x by simp
qed

lemma consumer_reserve:
  assumes m: "mring_inv s" and pc: "rpcs s t = DeqCas mx b oh entries"
    and n: "n = move_count mx b entries" "n \<noteq> 0"
    and ok: "ht_head (rcons (ring s)) = oh" and w: "chead s - seen s t < 2 ^ 32"
  shows "mring_inv (goto t (DeqCopy oh n [])
     (s\<lparr>ring := (ring s)\<lparr>rcons := (rcons (ring s))\<lparr>ht_head := oh + n\<rparr>\<rparr>, chead := chead s + unat n,
        cpend := cpend s @ [(t, unat n)]\<rparr>))" (is "mring_inv ?s")
proof (rule mring_inv_stepI [OF m, where t = t])
  have i: "pend_inv s" "count_inv s" "data_inv s" "thread_inv t s" using m by (auto simp: mring_inv_def)
  have c: "cas_c_inv t s oh entries" using i(4) pc by (simp add: thread_inv_def)
  note r = cas_entries [OF i(2) c ok w]
  have nf: "unat n \<le> unat entries" using move_count_le(2) n(1) by simp
  have n0: "0 < unat n" using n(2) by (simp add: unat_gt_0)
  show "count_inv ?s"
    using i(2) r nf n0 by (auto simp: count_inv_def static_inv_def cap_def)
  show "data_inv ?s" using i(2,3) by (auto simp: data_inv_def count_inv_def slot_def)
  show "pend_inv ?s"
    using i(1) not_pending [OF i(1), of t] pc by (auto simp: pend_inv_def)
  have "copy_c_inv t ?s oh n []"
    unfolding copy_c_inv_def
    using r(1) i(2) by (intro exI [of _ "chead s"]) (auto simp: segs_append count_inv_def)
  then show "thread_inv t ?s" by (simp add: thread_inv_def)
  show "rely u s ?s" if "u \<noteq> t" for u
    using that by (auto simp: rely_def segs_append slot_def)
qed

lemma consumer_read:
  assumes m: "mring_inv s" and pc: "rpcs s t = DeqCopy oh n objs" and lt: "length objs < unat n"
  shows "mring_inv (goto t (DeqCopy oh n
     (objs @ [rslots (ring s) ! unat ((oh + of_nat (length objs)) AND rmask (ring s))])) s)"
proof -
  have i: "pend_inv s" "count_inv s" "data_inv s" "copy_c_inv t s oh n objs"
    using m pc by (auto simp: mring_inv_def thread_inv_def dest: spec [of _ t])
  obtain a where a: "oh = of_nat a" "(t, a, unat n) \<in> set (segs (ctail s) (cpend s))"
    "\<forall>j<length objs. objs ! j = hist s ! (a + j)"
    using i(4) by (auto simp: copy_c_inv_def)
  have b: "ctail s \<le> a" "a + unat n \<le> ptail s" using segs_bounds [OF a(2)] i(2) by (auto simp: count_inv_def)
  have "rslots (ring s) ! unat ((oh + of_nat (length objs)) AND rmask (ring s)) = slot s (a + length objs)"
    using slot_word [of "ring s" a "length objs"] i(2) a(1) by (simp add: count_inv_def slot_def)
  moreover have "slot s (a + length objs) = hist s ! (a + length objs)"
    using i(3) b lt by (simp add: data_inv_def)
  ultimately have v: "rslots (ring s) ! unat ((oh + of_nat (length objs)) AND rmask (ring s)) = hist s ! (a + length objs)"
    by simp
  let ?s = "goto t (DeqCopy oh n (objs @ [hist s ! (a + length objs)])) s"
  have "copy_c_inv t ?s oh n (objs @ [hist s ! (a + length objs)])"
    unfolding copy_c_inv_def using a lt by (intro exI [of _ a]) (auto simp: nth_append less_Suc_eq)
  then have ti: "thread_inv t ?s" by (simp add: thread_inv_def)
  have np: "(t, k) \<notin> set (ppend s)" for k using not_pending(1) [OF i(1), of t k] pc by simp
  have "mring_inv (goto t (DeqCopy oh n (objs @ [hist s ! (a + length objs)])) (s\<lparr>seen := (seen s)(t := seen s t)\<rparr>))"
    by (rule local_step [OF m refl]) (use np ti in simp_all)
  then show ?thesis unfolding v by simp
qed

lemma consumer_publish:
  assumes m: "mring_inv s" and pc: "rpcs s t = DeqCopy oh n objs" and ge: "\<not> length objs < unat n"
    and tl: "ht_tail (rcons (ring s)) = oh"
  shows "mring_inv (goto t Out (s\<lparr>ring := (ring s)\<lparr>rcons := (rcons (ring s))\<lparr>ht_tail := oh + n\<rparr>\<rparr>,
      ctail := ctail s + unat n, cpend := tl (cpend s), deqd := deqd s @ objs\<rparr>))" (is "mring_inv ?s")
proof (rule mring_inv_stepI [OF m, where t = t])
  have i: "pend_inv s" "count_inv s" "data_inv s" "copy_c_inv t s oh n objs"
    using m pc by (auto simp: mring_inv_def thread_inv_def dest: spec [of _ t])
  obtain a where a: "oh = of_nat a" "(t, a, unat n) \<in> set (segs (ctail s) (cpend s))" "length objs = unat n"
    "\<forall>j<length objs. objs ! j = hist s ! (a + j)"
    using i(4) ge by (auto simp: copy_c_inv_def)
  have b: "ctail s \<le> a" "a + unat n \<le> chead s" "chead s \<le> length (hist s)"
    using segs_bounds [OF a(2)] i(2) by (auto simp: count_inv_def)
  have ct: "ctail s = a"
  proof (rule of_nat_close)
    show "(of_nat (ctail s) :: u32) = of_nat a" using tl a(1) i(2) unfolding count_inv_def by metis
    have "chead s \<le> ctail s + cap s" using i(2) by (auto simp: count_inv_def)
    then show "a - ctail s < 2 ^ 32" using b unat_lt2p [of "rcapacity (ring s)"] by (simp add: cap_def)
  qed (use b in simp)
  obtain qs where q: "cpend s = (t, unat n) # qs"
    using segs_first [of t "ctail s" "unat n" "cpend s"] a(2) i(2) ct by (auto simp: count_inv_def)
  have th: "take (unat n) (drop a (hist s)) = objs"
    using a(3,4) b(2,3) by (intro nth_equalityI) auto
  show "count_inv ?s"
    using i(2) q a(1) ct b(2) by (auto simp: count_inv_def static_inv_def cap_def)
  show "data_inv ?s"
    using i(3) ct th by (auto simp: data_inv_def slot_def take_add)
  have "t \<notin> fst ` set qs" using i(1) q by (simp add: pend_inv_def)
  then have "(t, k) \<notin> set qs" for k by force
  moreover have "(t, k) \<notin> set (ppend s)" for k using not_pending(1) [OF i(1), of t k] pc by simp
  ultimately show "pend_inv ?s" using i(1) q by (auto simp: pend_inv_def)
  show "thread_inv t ?s" by (simp add: thread_inv_def)
  show "rely u s ?s" if "u \<noteq> t" for u
    using that q by (auto simp: rely_def slot_def)
qed

section \<open>Every reachable state\<close>

lemma mp_step_inv: "mp_step t s = Some s' \<Longrightarrow> timely t s \<Longrightarrow> mring_inv s \<Longrightarrow> mring_inv s'"
  by (cases "rpcs s t")
    (auto simp: mp_step_def Let_def rte_atomic32_cmpset_def producer_load producer_tail producer_leave
      producer_store producer_publish producer_reserve split: if_splits)

lemma mc_step_inv: "mc_step t s = Some s' \<Longrightarrow> timely t s \<Longrightarrow> mring_inv s \<Longrightarrow> mring_inv s'"
  by (cases "rpcs s t")
    (auto simp: mc_step_def Let_def rte_atomic32_cmpset_def consumer_load consumer_tail consumer_leave
      consumer_read consumer_publish consumer_reserve split: if_splits)

lemma ring_step_inv: "ring_step s s' \<Longrightarrow> mring_inv s \<Longrightarrow> mring_inv s'"
  by (elim ring_stepE) (auto intro: mp_step_inv mc_step_inv enter_step)

lemma mring_inv_init: "ring_fresh r \<Longrightarrow> mring_inv (mring_init r)"
proof -
  assume f: "ring_fresh r"
  then have wf: "ring_wf r" by (simp add: ring_fresh_def)
  obtain k where "k < 32" "unat (rsize r) = 2 ^ k" "rmask r = 2 ^ k - 1" using ring_wf_size [OF wf] by blast
  then have "static_inv r" using wf by (auto simp: static_inv_def ring_wf_def)
  then show ?thesis
    using f by (auto simp: mring_inv_def mring_init_def count_inv_def data_inv_def pend_inv_def thread_inv_def
        ring_fresh_def ring_wf_def)
qed

lemma ring_reachable_inv: "ring_reachable r s \<Longrightarrow> ring_fresh r \<Longrightarrow> mring_inv s"
  by (induction rule: ring_reachable.induct) (auto intro: mring_inv_init ring_step_inv)

end
