(* ===== verification/Ring_Concurrent_Props.thy ===== *)
theory Ring_Concurrent_Props
  imports Ring_Concurrent
begin

text \<open>
  What the invariant of the concurrent ring means: it is first in, first out over all threads, some thread
  can always move, and a thread that runs alone does what the sequential operation does.
\<close>

section \<open>First in, first out\<close>

lemma step_constants:
  assumes "ring_step s s'"
  shows "rcapacity (ring s') = rcapacity (ring s)" "rsize (ring s') = rsize (ring s)" "rmask (ring s') = rmask (ring s)"
proof -
  have "rcapacity (ring s') = rcapacity (ring s) \<and> rsize (ring s') = rsize (ring s) \<and> rmask (ring s') = rmask (ring s)"
    using assms
  proof (cases rule: ring_step.cases)
    case (producer t)
    then show ?thesis by (cases "rpcs s t") (auto simp: mp_step_def Let_def rte_atomic32_cmpset_def split: if_splits)
  next
    case (consumer t)
    then show ?thesis by (cases "rpcs s t") (auto simp: mc_step_def Let_def rte_atomic32_cmpset_def split: if_splits)
  qed auto
  then show "rcapacity (ring s') = rcapacity (ring s)" "rsize (ring s') = rsize (ring s)" "rmask (ring s') = rmask (ring s)"
    by simp_all
qed

lemma reachable_constants:
  "ring_reachable r s \<Longrightarrow> rcapacity (ring s) = rcapacity r \<and> rsize (ring s) = rsize r \<and> rmask (ring s) = rmask r"
  by (induction rule: ring_reachable.induct) (auto simp: mring_init_def step_constants)

text \<open>Between calls the ring is well formed, and its elements are the objects enqueued and not dequeued.\<close>

lemma idle_pend:
  assumes "pend_inv s" "\<forall>t. rpcs s t = Out"
  shows "ppend s = []" "cpend s = []"
proof -
  have "(t, n) \<notin> set (ppend s)" "(t, n) \<notin> set (cpend s)" for t n using assms by (auto simp: pend_inv_def)
  then show "ppend s = []" "cpend s = []" by (metis list.set_intros(1) neq_Nil_conv surj_pair)+
qed

lemma idle_ring:
  assumes m: "mring_inv s" and out: "\<forall>t. rpcs s t = Out"
  shows "ring_wf (ring s)" "ring_elems (ring s) = drop (ctail s) (take (ptail s) (hist s))"
proof -
  have i: "count_inv s" "data_inv s" "pend_inv s" using m by (simp_all add: mring_inv_def)
  have e: "phead s = ptail s" "chead s = ctail s" using idle_pend [OF i(3) out] i(1) by (simp_all add: count_inv_def)
  have c: "ctail s \<le> ptail s" "ptail s \<le> ctail s + cap s" "ptail s \<le> length (hist s)" using i(1) e by (auto simp: count_inv_def)
  have cl: "cap s < 2 ^ 32" using unat_lt2p [of "rcapacity (ring s)"] by (simp add: cap_def)
  have t: "ht_tail (rprod (ring s)) = of_nat (ptail s)" "ht_tail (rcons (ring s)) = of_nat (ctail s)"
    using i(1) by (simp_all add: count_inv_def)
  have "ht_tail (rprod (ring s)) - ht_tail (rcons (ring s)) = of_nat (ptail s - ctail s)"
    unfolding t using c(1) by (simp add: of_nat_diff)
  then have u: "unat (ht_tail (rprod (ring s)) - ht_tail (rcons (ring s))) = ptail s - ctail s"
    using c(2) cl by (simp add: unat_of_nat_small)
  obtain k where k: "k < 32" "unat (rsize (ring s)) = 2 ^ k" "rmask (ring s) = 2 ^ k - 1"
    and st: "length (rslots (ring s)) = unat (rsize (ring s))" "unat (rcapacity (ring s)) < unat (rsize (ring s))"
    using i(1) by (auto simp: count_inv_def static_inv_def)
  have "rsize (ring s) = 2 ^ k"
    by (metis k(2) of_nat_numeral of_nat_power of_nat_unat ucast_id)
  then have "rmask (ring s) = rsize (ring s) - 1" using k(3) by simp
  then show wf: "ring_wf (ring s)"
    using k(1,2) st i(1) e u c unfolding ring_wf_def by (auto simp: count_inv_def cap_def)
  show "ring_elems (ring s) = drop (ctail s) (take (ptail s) (hist s))"
  proof (rule nth_equalityI)
    show "length (ring_elems (ring s)) = length (drop (ctail s) (take (ptail s) (hist s)))"
      using u c by (simp add: ring_used_def)
    fix j assume "j < length (ring_elems (ring s))"
    then have j: "j < ptail s - ctail s" by (simp add: ring_used_def u)
    have "unat (ht_tail (rcons (ring s))) mod 2 ^ k = ctail s mod 2 ^ k"
      unfolding t(2) unat_of_nat by (simp only: len_num0 len_num1 len_bit0 len_bit1)
        (rule mod_mod_cancel, rule le_imp_power_dvd, use k(1) in simp)
    then have "(unat (ht_tail (rcons (ring s))) + j) mod 2 ^ k = (ctail s + j) mod 2 ^ k"
      by (metis mod_add_left_eq)
    then have "ring_elems (ring s) ! j = slot s (ctail s + j)"
      using j by (simp add: ring_elems_def slot_def ring_used_def u k(2))
    also have "\<dots> = hist s ! (ctail s + j)" using i(2) j by (simp add: data_inv_def)
    finally show "ring_elems (ring s) ! j = drop (ctail s) (take (ptail s) (hist s)) ! j" using j c by simp
  qed
qed

text \<open>C4. Whatever the interleaving of any number of producers and consumers, the objects of the completed
  dequeues are, in the order of completion, exactly the first objects of the completed enqueues, in
  their order; what is left fits the ring, and when no call is in progress it is the content of
  the ring, which is then well formed.\<close>

theorem ring_mpmc_fifo:
  assumes "ring_fresh r" "ring_reachable r s"
  shows "\<exists>rest. enqd s = deqd s @ rest \<and> length rest \<le> ring_cap r
    \<and> ((\<forall>t. rpcs s t = Out) \<longrightarrow> ring_wf (ring s) \<and> ring_elems (ring s) = rest)"
proof -
  have m: "mring_inv s" using ring_reachable_inv [OF assms(2,1)] .
  then have i: "count_inv s" "data_inv s" by (simp_all add: mring_inv_def)
  let ?rest = "drop (ctail s) (take (ptail s) (hist s))"
  have c: "ctail s \<le> ptail s" "ptail s \<le> ctail s + cap s" using i(1) by (auto simp: count_inv_def)
  have "enqd s = deqd s @ ?rest"
    using i(2) c(1) by (simp add: data_inv_def) (metis append_take_drop_id min.absorb1 take_take)
  moreover have "length ?rest \<le> ring_cap r"
    using c reachable_constants [OF assms(2)] by (simp add: cap_def ring_cap_def)
  ultimately show ?thesis using idle_ring [OF m] by blast
qed

section \<open>Some thread can always move\<close>

lemma spinning_only_behind:
  assumes "pend_inv s" "ppend s = (t, n) # qs" "thread_inv t s" "count_inv s"
  shows "mp_step t s \<noteq> None"
proof -
  obtain objs h m i where pc: "rpcs s t = EnqCopy objs h m i" using assms(1,2) unfolding pend_inv_def by (metis list.set_intros(1))
  obtain a where a: "h = of_nat a" "(t, a, unat m) \<in> set (segs (ptail s) (ppend s))"
    using assms(3) pc by (auto simp: thread_inv_def copy_p_inv_def)
  have "(t, k) \<notin> set qs" for k using assms(1,2) by (force simp: pend_inv_def)
  then have "a = ptail s" using a(2) assms(2) segs_thread [of t a "unat m"] by auto
  then have "ht_tail (rprod (ring s)) = h" using a(1) assms(4) by (simp add: count_inv_def)
  then show ?thesis using pc by (simp add: mp_step_def)
qed

lemma spinning_only_behind_c:
  assumes "pend_inv s" "cpend s = (t, n) # qs" "thread_inv t s" "count_inv s"
  shows "mc_step t s \<noteq> None"
proof -
  obtain h m objs where pc: "rpcs s t = DeqCopy h m objs" using assms(1,2) unfolding pend_inv_def by (metis list.set_intros(1))
  obtain a where a: "h = of_nat a" "(t, a, unat m) \<in> set (segs (ctail s) (cpend s))"
    using assms(3) pc by (auto simp: thread_inv_def copy_c_inv_def)
  have "(t, k) \<notin> set qs" for k using assms(1,2) by (force simp: pend_inv_def)
  then have "a = ctail s" using a(2) assms(2) segs_thread [of t a "unat m"] by auto
  then have "ht_tail (rcons (ring s)) = h" using a(1) assms(4) by (simp add: count_inv_def)
  then show ?thesis using pc by (simp add: mc_step_def)
qed

lemma stuck_copies: "mp_step t s = None \<Longrightarrow> mc_step t s = None \<Longrightarrow> rpcs s t = Out \<or> copying (rpcs s t)"
  by (cases "rpcs s t") (auto simp: mp_step_def mc_step_def Let_def rte_atomic32_cmpset_def split: if_splits)

text \<open>C5. No deadlock: whenever a thread is inside a call, some thread can make a step; one that spins on the tail
  waits only for a thread that can move.\<close>

theorem ring_mpmc_progress:
  assumes "ring_fresh r" "ring_reachable r s" "rpcs s t \<noteq> Out"
  shows "\<exists>u. mp_step u s \<noteq> None \<or> mc_step u s \<noteq> None"
proof -
  have m: "mring_inv s" using ring_reachable_inv [OF assms(2,1)] .
  then have i: "count_inv s" "pend_inv s" "\<And>u. thread_inv u s" by (simp_all add: mring_inv_def)
  show ?thesis
  proof (cases "rpcs s t")
    case (EnqCopy objs h n i)
    then obtain a where "(t, a, unat n) \<in> set (segs (ptail s) (ppend s))"
      using i(3) [of t] by (auto simp: thread_inv_def copy_p_inv_def)
    then obtain u k qs where "ppend s = (u, k) # qs" by (cases "ppend s") auto
    then show ?thesis using spinning_only_behind [OF i(2) _ i(3) i(1)] by blast
  next
    case (DeqCopy h n objs)
    then obtain a where "(t, a, unat n) \<in> set (segs (ctail s) (cpend s))"
      using i(3) [of t] by (auto simp: thread_inv_def copy_c_inv_def)
    then obtain u k qs where "cpend s = (u, k) # qs" by (cases "cpend s") auto
    then show ?thesis using spinning_only_behind_c [OF i(2) _ i(3) i(1)] by blast
  qed (use assms(3) stuck_copies [of t s] in fastforce)+
qed

section \<open>Concrete runs\<close>

datatype 'a ring_act = Producer nat | Consumer nat | Enqueue nat "'a list" | Dequeue nat u32

fun ring_run :: "'a ring_act list \<Rightarrow> 'a mring \<Rightarrow> 'a mring option" where
  "ring_run [] s = Some s"
| "ring_run (Producer t # as) s =
    (if timely t s then case mp_step t s of None \<Rightarrow> None | Some s \<Rightarrow> ring_run as s else None)"
| "ring_run (Consumer t # as) s =
    (if timely t s then case mc_step t s of None \<Rightarrow> None | Some s \<Rightarrow> ring_run as s else None)"
| "ring_run (Enqueue t objs # as) s =
    (if rpcs s t = Out \<and> int (length objs) < 2 ^ 32 then ring_run as (goto t (EnqHead objs RTE_RING_QUEUE_VARIABLE) s) else None)"
| "ring_run (Dequeue t n # as) s =
    (if rpcs s t = Out then ring_run as (goto t (DeqHead n RTE_RING_QUEUE_VARIABLE) s) else None)"

lemma ring_run_reachable: "ring_run as s = Some s' \<Longrightarrow> ring_reachable r s \<Longrightarrow> ring_reachable r s'"
proof (induction as s rule: ring_run.induct)
  case (4 t objs as s)
  then have "rpcs s t = Out" "length objs < 2 ^ 32" by (simp_all split: if_splits)
  from ring_reachable.step [OF 4(3) ring_step.enqueue [OF this]] show ?case using 4(1,2) by (simp split: if_splits)
qed (auto simp del: timely.simps split: if_splits option.splits intro: ring_reachable.step ring_step.intros)

definition ring4 :: "nat rte_ring" where
  "ring4 = \<lparr>rname = ''r'', rflags = 0, rsize = 4, rmask = 3, rcapacity = 3,
     rprod = \<lparr>ht_head = 0, ht_tail = 0, ht_single = False\<rparr>, rcons = \<lparr>ht_head = 0, ht_tail = 0, ht_single = False\<rparr>,
     rmemzone = None, rslots = replicate 4 0\<rparr>"

lemma ring4_fresh: "ring_fresh ring4"
  by (auto simp: ring_fresh_def ring_wf_def ring4_def intro!: exI [of _ 2])

text \<open>Thread 1 loses the race for the head to thread 0, repeats, stores first and spins; thread 2 dequeues
  once both tails are out.\<close>

definition race :: "nat ring_act list" where
  "race = [Enqueue 0 [10, 11], Enqueue 1 [20], Producer 0, Producer 1, Producer 0, Producer 1, Producer 0, Producer 1,
     Producer 1, Producer 1, Producer 1, Producer 1, Producer 0, Producer 0, Producer 0, Producer 1,
     Dequeue 2 2, Consumer 2, Consumer 2, Consumer 2, Consumer 2, Consumer 2, Consumer 2]"

definition raced :: "nat mring" where
  "raced = the (ring_run race (mring_init ring4))"

definition racing :: "nat mring" where
  "racing = the (ring_run (take 12 race) (mring_init ring4))"

lemma raced_reachable: "ring_reachable ring4 raced" "enqd raced = [10, 11, 20]" "deqd raced = [10, 11]"
  "ring_elems (ring raced) = [20]"
proof -
  have "case ring_run race (mring_init ring4) of None \<Rightarrow> False | Some _ \<Rightarrow> True" by code_simp
  then have "ring_run race (mring_init ring4) = Some raced" by (auto simp: raced_def split: option.splits)
  then show "ring_reachable ring4 raced" by (rule ring_run_reachable) (rule ring_reachable.init)
  show "enqd raced = [10, 11, 20]" "deqd raced = [10, 11]" "ring_elems (ring raced) = [20]" by code_simp+
qed

lemma racing_reachable: "ring_reachable ring4 racing" "rpcs racing 1 = EnqCopy [20] 2 1 1" "mp_step 1 racing = None"
proof -
  have "case ring_run (take 12 race) (mring_init ring4) of None \<Rightarrow> False | Some _ \<Rightarrow> True" by code_simp
  then have "ring_run (take 12 race) (mring_init ring4) = Some racing" by (auto simp: racing_def split: option.splits)
  then show "ring_reachable ring4 racing" by (rule ring_run_reachable) (rule ring_reachable.init)
  show pc: "rpcs racing 1 = EnqCopy [20] 2 1 1" by code_simp
  have "ht_tail (rprod (ring racing)) = 0" by code_simp
  then show "mp_step 1 racing = None" by (simp add: mp_step_def pc del: One_nat_def)
qed

lemma ring_mpmc_fifo_witness: "\<exists>rest. [10, 11, 20] = deqd raced @ rest \<and> length rest \<le> 3"
  using ring_mpmc_fifo [OF ring4_fresh raced_reachable(1)] raced_reachable(2) by (auto simp: ring_cap_def ring4_def)

lemma ring_mpmc_progress_witness: "\<exists>u. u \<noteq> 1 \<and> (mp_step u racing \<noteq> None \<or> mc_step u racing \<noteq> None)"
proof -
  have "rpcs racing 1 \<noteq> Out" using racing_reachable(2) by simp
  from ring_mpmc_progress [OF ring4_fresh racing_reachable(1) this]
  obtain u where "mp_step u racing \<noteq> None \<or> mc_step u racing \<noteq> None" by blast
  moreover have "mc_step 1 racing = None" by (simp add: mc_step_def racing_reachable(2) del: One_nat_def)
  ultimately show ?thesis using racing_reachable(3) by metis
qed

end
