(* ===== verification/Ring_Alone.thy ===== *)
theory Ring_Alone
  imports Ring_Concurrent_Props
begin

text \<open>
  A thread that runs alone: its steps, taken without interference from a ring between calls, do what the
  sequential operations of theory \<open>Ring\<close> do, copy loops and wrap-around included.
\<close>

abbreviation mp_alone :: "nat \<Rightarrow> 'a mring \<Rightarrow> 'a mring \<Rightarrow> bool" where
  "mp_alone t \<equiv> (\<lambda>s s'. mp_step t s = Some s')\<^sup>*\<^sup>*"

abbreviation mc_alone :: "nat \<Rightarrow> 'a mring \<Rightarrow> 'a mring \<Rightarrow> bool" where
  "mc_alone t \<equiv> (\<lambda>s s'. mc_step t s = Some s')\<^sup>*\<^sup>*"

lemma alone_into:
  "mp_step t s = Some s1 \<Longrightarrow> mp_alone t s1 s2 \<Longrightarrow> mp_alone t s s2"
  "mc_step t s = Some s1 \<Longrightarrow> mc_alone t s1 s2 \<Longrightarrow> mc_alone t s s2"
  by (simp_all add: converse_rtranclp_into_rtranclp)

section \<open>Storing one object at a time\<close>

definition store_at :: "u32 \<Rightarrow> u32 \<Rightarrow> 'a list \<Rightarrow> 'a list \<Rightarrow> nat \<Rightarrow> 'a list" where
  "store_at h k objs slots j = slots[unat ((h + of_nat j) AND k) := objs ! j]"

lemma foldl_store:
  assumes "inj_on ix {..<m}" "\<forall>j<m. ix j < length slots"
  shows "length (foldl (\<lambda>xs j. xs[ix j := objs ! j]) slots [0..<m]) = length slots
    \<and> (\<forall>j<m. foldl (\<lambda>xs j. xs[ix j := objs ! j]) slots [0..<m] ! ix j = objs ! j)
    \<and> (\<forall>q. q \<notin> ix ` {..<m} \<longrightarrow> foldl (\<lambda>xs j. xs[ix j := objs ! j]) slots [0..<m] ! q = slots ! q)"
  using assms
proof (induction m)
  case (Suc m)
  have i: "inj_on ix {..<m}" "\<forall>j<m. ix j < length slots" using Suc.prems by (auto simp: inj_on_def)
  have "ix m \<noteq> ix j" if "j < m" for j using inj_onD [OF Suc.prems(1), of m j] that by auto
  then show ?case using Suc.IH [OF i] Suc.prems(2) by (auto simp: less_Suc_eq lessThan_Suc)
qed simp

lemma slot_index_add:
  assumes "ring_wf r" "j < 2 ^ 32"
  shows "unat ((h + of_nat j) AND rmask r) = (unat h + j) mod unat (rsize r)"
  using unat_add_mod_size [OF assms(1), of h "of_nat j"] assms(2)
  by (simp add: slot_index [OF assms(1)] unat_of_nat_small)

lemma stores_are_ENQUEUE_PTRS:
  assumes wf: "ring_wf r" and n: "unat n \<le> unat (rsize r)" "unat n \<le> length objs"
  shows "foldl (store_at h (rmask r) objs) (rslots r) [0..<unat n] = ENQUEUE_PTRS r h objs n"
proof -
  let ?S = "unat (rsize r)" and ?p = "unat h mod unat (rsize r)"
  let ?ix = "\<lambda>j. unat ((h + of_nat j) AND rmask r)"
  have S: "0 < ?S" "length (rslots r) = ?S" using wf by (auto simp: ring_wf_def)
  have lt: "j < unat n \<Longrightarrow> j < 2 ^ 32" for j using unat_lt2p [of n] by simp
  have ix: "?ix j = (?p + j) mod ?S" if "j < unat n" for j
    using slot_index_add [OF wf lt [OF that]] by (simp add: mod_add_left_eq)
  have inj: "inj_on ?ix {..<unat n}"
  proof (rule inj_onI)
    fix i j assume "i \<in> {..<unat n}" "j \<in> {..<unat n}" "?ix i = ?ix j"
    then show "i = j" using mod_add_inj [of ?p i ?S j] ix n(1) by simp
  qed
  have b: "\<forall>j<unat n. ?ix j < length (rslots r)" using ix S by simp
  note f = foldl_store [OF inj b, of objs, folded store_at_def]
  have l: "length (take (unat n) objs) = unat n" using n(2) by simp
  have "foldl (store_at h (rmask r) objs) (rslots r) [0..<unat n] = wrap_store ?p (take (unat n) objs) (rslots r)"
  proof (rule nth_equalityI)
    show len: "length (foldl (store_at h (rmask r) objs) (rslots r) [0..<unat n])
        = length (wrap_store ?p (take (unat n) objs) (rslots r))"
      using f S n l by (simp add: length_wrap_store)
    fix q assume "q < length (foldl (store_at h (rmask r) objs) (rslots r) [0..<unat n])"
    then have q: "q < length (rslots r)" using f by simp
    show "foldl (store_at h (rmask r) objs) (rslots r) [0..<unat n] ! q
        = wrap_store ?p (take (unat n) objs) (rslots r) ! q"
    proof (cases "\<exists>j<unat n. q = ?ix j")
      case True
      then obtain j where j: "j < unat n" "q = ?ix j" by blast
      have "wrap_store ?p (take (unat n) objs) (rslots r) ! ((?p + j) mod length (rslots r)) = take (unat n) objs ! j"
        by (rule wrap_store_new) (use S n l j in auto)
      then show ?thesis using f j ix S by simp
    next
      case False
      have "wrap_store ?p (take (unat n) objs) (rslots r) ! q = rslots r ! q"
        by (rule wrap_store_old) (use S n l q False ix in auto)
      then show ?thesis using f False by auto
    qed
  qed
  then show ?thesis by (simp add: ENQUEUE_PTRS_eq [OF wf n])
qed

section \<open>The copy loops\<close>

lemma store_loop:
  "rpcs s t = EnqCopy objs h n i \<Longrightarrow> i \<le> unat n \<Longrightarrow>
   \<exists>s'. mp_alone t s s' \<and> rpcs s' t = EnqCopy objs h n (unat n) \<and> enqd s' = enqd s
     \<and> ring s' = (ring s)\<lparr>rslots := foldl (store_at h (rmask (ring s)) objs) (rslots (ring s)) [i..<unat n]\<rparr>"
proof (induction "unat n - i" arbitrary: i s)
  case 0
  then show ?case by (intro exI [of _ s]) simp
next
  case (Suc k)
  then have lt: "i < unat n" and k: "k = unat n - Suc i" by simp_all
  define s1 where "s1 = goto t (EnqCopy objs h n (Suc i))
     (s\<lparr>ring := (ring s)\<lparr>rslots := store_at h (rmask (ring s)) objs (rslots (ring s)) i\<rparr>\<rparr>)"
  have st: "mp_step t s = Some s1" using Suc.prems(1) lt by (simp add: mp_step_def s1_def store_at_def)
  have f: "rpcs s1 t = EnqCopy objs h n (Suc i)" "enqd s1 = enqd s"
    "ring s1 = (ring s)\<lparr>rslots := store_at h (rmask (ring s)) objs (rslots (ring s)) i\<rparr>"
    by (simp_all add: s1_def)
  obtain s' where s': "mp_alone t s1 s'" "rpcs s' t = EnqCopy objs h n (unat n)" "enqd s' = enqd s1"
    "ring s' = (ring s1)\<lparr>rslots := foldl (store_at h (rmask (ring s1)) objs) (rslots (ring s1)) [Suc i..<unat n]\<rparr>"
    using Suc.hyps(1) [of "Suc i" s1] k f(1) lt by auto
  then show ?case
    using alone_into(1) [OF st s'(1)] f lt by (intro exI [of _ s']) (simp add: upt_conv_Cons)
qed

lemma load_loop_alone:
  "rpcs s t = DeqCopy h n objs \<Longrightarrow> length objs \<le> unat n \<Longrightarrow>
   \<exists>s'. mc_alone t s s' \<and> ring s' = ring s \<and> deqd s' = deqd s
     \<and> rpcs s' t = DeqCopy h n (objs @ map (\<lambda>j. rslots (ring s) ! unat ((h + of_nat j) AND rmask (ring s))) [length objs..<unat n])"
proof (induction "unat n - length objs" arbitrary: objs s)
  case 0
  then show ?case by (intro exI [of _ s]) simp
next
  case (Suc k)
  then have lt: "length objs < unat n" and k: "k = unat n - Suc (length objs)" by simp_all
  let ?o = "objs @ [rslots (ring s) ! unat ((h + of_nat (length objs)) AND rmask (ring s))]"
  define s1 where "s1 = goto t (DeqCopy h n ?o) s"
  have st: "mc_step t s = Some s1" using Suc.prems(1) lt by (simp add: mc_step_def s1_def)
  have f: "rpcs s1 t = DeqCopy h n ?o" "ring s1 = ring s" "deqd s1 = deqd s" by (simp_all add: s1_def)
  obtain s' where s': "mc_alone t s1 s'" "ring s' = ring s1" "deqd s' = deqd s1"
    "rpcs s' t = DeqCopy h n (?o @ map (\<lambda>j. rslots (ring s1) ! unat ((h + of_nat j) AND rmask (ring s1))) [length ?o..<unat n])"
    using Suc.hyps(1) [of ?o s1] k f(1) lt by auto
  then show ?case
    using alone_into(2) [OF st s'(1)] f lt by (intro exI [of _ s']) (simp add: upt_conv_Cons)
qed

section \<open>Whole calls\<close>

text \<open>The sequential operations, with the count written out.\<close>

lemma do_enqueue_unfold:
  "do_enqueue r objs b False =
    (let h = ht_head (rprod r); free = rcapacity r + ht_tail (rcons r) - h;
         n = move_count (of_nat (length objs)) b free;
         r' = r\<lparr>rprod := (rprod r)\<lparr>ht_head := h + n\<rparr>\<rparr>
     in if n = 0 then (0, free, r)
        else (n, free - n, r'\<lparr>rslots := ENQUEUE_PTRS r' h objs n, rprod := update_tail (rprod r') h (h + n) False\<rparr>))"
  by (simp add: do_enqueue_def move_prod_head_eq move_prod_head_iter_def move_count_def Let_def rte_atomic32_cmpset_def)

lemma do_dequeue_unfold:
  "do_dequeue r max_n b False =
    (let h = ht_head (rcons r); entries = ht_tail (rprod r) - h;
         n = move_count max_n b entries;
         r' = r\<lparr>rcons := (rcons r)\<lparr>ht_head := h + n\<rparr>\<rparr>
     in if n = 0 then ([], entries, r)
        else (DEQUEUE_PTRS r' h n, entries - n, r'\<lparr>rcons := update_tail (rcons r') h (h + n) False\<rparr>))"
  by (simp add: do_dequeue_def move_cons_head_eq move_cons_head_iter_def move_count_def Let_def rte_atomic32_cmpset_def)

text \<open>A thread that enqueues without interference ends, with the ring, the count and the objects of the
  sequential multi-producer enqueue.\<close>

theorem enqueue_alone:
  assumes wf: "ring_wf (ring s)" and pc: "rpcs s t = EnqHead objs b" and len: "length objs < 2 ^ 32"
    and e: "do_enqueue (ring s) objs b False = (n, free, r)"
  shows "\<exists>s'. mp_alone t s s' \<and> rpcs s' t = Out \<and> ring s' = r \<and> enqd s' = enqd s @ take (unat n) objs"
proof -
  let ?r = "ring s"
  let ?h = "ht_head (rprod ?r)"
  let ?free = "rcapacity ?r + ht_tail (rcons ?r) - ?h"
  let ?n = "move_count (of_nat (length objs)) b ?free"
  define s1 where "s1 = goto t (EnqTail objs b ?h) (s\<lparr>seen := (seen s)(t := phead s)\<rparr>)"
  define s2 where "s2 = goto t (EnqCas objs b ?h ?free) s1"
  have 1: "mp_step t s = Some s1" using pc by (simp add: mp_step_def s1_def)
  have 2: "mp_step t s1 = Some s2" by (simp add: mp_step_def s1_def s2_def)
  have r2: "ring s2 = ?r" "rpcs s2 t = EnqCas objs b ?h ?free" "enqd s2 = enqd s" by (simp_all add: s1_def s2_def)
  show ?thesis
  proof (cases "?n = 0")
    case True
    then have 3: "mp_step t s2 = Some (goto t Out s2)" using r2 by (simp add: mp_step_def)
    have "n = 0" "r = ?r" using e True by (simp_all add: do_enqueue_unfold Let_def)
    then show ?thesis
      using alone_into(1) [OF 1 alone_into(1) [OF 2 alone_into(1) [OF 3]]] r2 by (intro exI [of _ "goto t Out s2"]) simp
  next
    case False
    let ?r1 = "?r\<lparr>rprod := (rprod ?r)\<lparr>ht_head := ?h + ?n\<rparr>\<rparr>"
    define s3 where "s3 = goto t (EnqCopy objs ?h ?n 0)
       (s2\<lparr>ring := ?r1, phead := phead s2 + unat ?n, ppend := ppend s2 @ [(t, unat ?n)], hist := hist s2 @ take (unat ?n) objs\<rparr>)"
    have 3: "mp_step t s2 = Some s3"
      using False r2 by (simp add: mp_step_def s3_def rte_atomic32_cmpset_def Let_def)
    have r3: "ring s3 = ?r1" "rpcs s3 t = EnqCopy objs ?h ?n 0" "enqd s3 = enqd s" using r2 by (simp_all add: s3_def)
    obtain s4 where s4: "mp_alone t s3 s4" "rpcs s4 t = EnqCopy objs ?h ?n (unat ?n)" "enqd s4 = enqd s3"
      "ring s4 = (ring s3)\<lparr>rslots := foldl (store_at ?h (rmask (ring s3)) objs) (rslots (ring s3)) [0..<unat ?n]\<rparr>"
      using store_loop [OF r3(2)] by auto
    have nl: "unat ?n \<le> length objs" using move_count_le(1) [of "of_nat (length objs)" b ?free] len by (simp add: unat_of_nat_small)
    have "unat ?n \<le> ring_cap ?r" using move_count_le(2) [of "of_nat (length objs)" b ?free] free_entries_eq [OF wf] by simp
    then have ns: "unat ?n \<le> unat (rsize ?r)" using wf by (simp add: ring_wf_def ring_cap_def)
    have sl: "ring s4 = ?r1\<lparr>rslots := ENQUEUE_PTRS ?r1 ?h objs ?n\<rparr>"
      using s4(4) r3(1) stores_are_ENQUEUE_PTRS [OF wf ns nl, of ?h] by (simp add: ENQUEUE_PTRS_def Let_def)
    have tl: "ht_tail (rprod (ring s4)) = ?h" using sl wf by (simp add: ring_wf_def)
    define s5 where "s5 = goto t Out (s4\<lparr>ring := (ring s4)\<lparr>rprod := (rprod (ring s4))\<lparr>ht_tail := ?h + ?n\<rparr>\<rparr>,
       ptail := ptail s4 + unat ?n, ppend := tl (ppend s4), enqd := enqd s4 @ take (unat ?n) objs\<rparr>)"
    have 5: "mp_step t s4 = Some s5" using s4(2) tl by (simp add: mp_step_def s5_def)
    have "mp_alone t s s5"
      by (rule alone_into(1) [OF 1 alone_into(1) [OF 2 alone_into(1) [OF 3 rtranclp.rtrancl_into_rtrancl [OF s4(1) 5]]]])
    moreover have "n = ?n" "r = ring s5" using e False sl wf by (auto simp: do_enqueue_unfold Let_def s5_def ring_wf_def)
    moreover have "rpcs s5 t = Out" "enqd s5 = enqd s @ take (unat ?n) objs" using s4(3) r3(3) by (simp_all add: s5_def)
    ultimately show ?thesis by blast
  qed
qed

lemma ring4_wf: "ring_wf ring4"
  using ring4_fresh by (simp add: ring_fresh_def)

lemma enqueue_alone_witness:
  "\<exists>s'. mp_alone 0 (goto 0 (EnqHead [5, 6] RTE_RING_QUEUE_VARIABLE) (mring_init ring4)) s' \<and> enqd s' = [5, 6]"
proof -
  let ?s = "goto 0 (EnqHead [5, 6] RTE_RING_QUEUE_VARIABLE) (mring_init ring4)"
  have s: "ring ?s = ring4" "rpcs ?s 0 = EnqHead [5, 6] RTE_RING_QUEUE_VARIABLE" "enqd ?s = []" by (simp_all add: mring_init_def)
  obtain n free r where e: "do_enqueue (ring ?s) [5, 6] RTE_RING_QUEUE_VARIABLE False = (n, free, r)"
    by (metis prod_cases3)
  have n: "n = 2" using e unfolding s(1) by (auto simp: do_enqueue_unfold ring4_def move_count_def Let_def)
  have "length [5, 6 :: nat] < 2 ^ 32" by simp
  then show ?thesis using enqueue_alone [OF _ s(2) _ e] ring4_wf unfolding s n by fastforce
qed

text \<open>A thread that dequeues without interference ends, with the ring and the objects of the sequential
  multi-consumer dequeue.\<close>

theorem dequeue_alone:
  assumes wf: "ring_wf (ring s)" and pc: "rpcs s t = DeqHead max_n b"
    and e: "do_dequeue (ring s) max_n b False = (objs, entries, r)"
  shows "\<exists>s'. mc_alone t s s' \<and> rpcs s' t = Out \<and> ring s' = r \<and> deqd s' = deqd s @ objs"
proof -
  let ?r = "ring s"
  let ?h = "ht_head (rcons ?r)"
  let ?en = "ht_tail (rprod ?r) - ?h"
  let ?n = "move_count max_n b ?en"
  define s1 where "s1 = goto t (DeqTail max_n b ?h) (s\<lparr>seen := (seen s)(t := chead s)\<rparr>)"
  define s2 where "s2 = goto t (DeqCas max_n b ?h ?en) s1"
  have 1: "mc_step t s = Some s1" using pc by (simp add: mc_step_def s1_def)
  have 2: "mc_step t s1 = Some s2" by (simp add: mc_step_def s1_def s2_def)
  have r2: "ring s2 = ?r" "rpcs s2 t = DeqCas max_n b ?h ?en" "deqd s2 = deqd s" by (simp_all add: s1_def s2_def)
  show ?thesis
  proof (cases "?n = 0")
    case True
    then have 3: "mc_step t s2 = Some (goto t Out s2)" using r2 by (simp add: mc_step_def)
    have "objs = []" "r = ?r" using e True by (simp_all add: do_dequeue_unfold Let_def)
    then show ?thesis
      using alone_into(2) [OF 1 alone_into(2) [OF 2 alone_into(2) [OF 3]]] r2 by (intro exI [of _ "goto t Out s2"]) simp
  next
    case False
    let ?r1 = "?r\<lparr>rcons := (rcons ?r)\<lparr>ht_head := ?h + ?n\<rparr>\<rparr>"
    define s3 where "s3 = goto t (DeqCopy ?h ?n [])
       (s2\<lparr>ring := ?r1, chead := chead s2 + unat ?n, cpend := cpend s2 @ [(t, unat ?n)]\<rparr>)"
    have 3: "mc_step t s2 = Some s3"
      using False r2 by (simp add: mc_step_def s3_def rte_atomic32_cmpset_def Let_def)
    have r3: "ring s3 = ?r1" "rpcs s3 t = DeqCopy ?h ?n []" "deqd s3 = deqd s" using r2 by (simp_all add: s3_def)
    let ?o = "map (\<lambda>j. rslots ?r ! unat ((?h + of_nat j) AND rmask ?r)) [0..<unat ?n]"
    obtain s4 where s4: "mc_alone t s3 s4" "ring s4 = ?r1" "deqd s4 = deqd s" "rpcs s4 t = DeqCopy ?h ?n ?o"
      using load_loop_alone [OF r3(2)] r3 by auto
    have "unat ?n \<le> ring_used ?r" using move_count_le(2) [of max_n b ?en] cons_side_entries [OF wf] by simp
    then have ns: "unat ?n \<le> unat (rsize ?r)" using ring_used_le_cap [OF wf] wf by (simp add: ring_wf_def ring_cap_def)
    have o: "?o = DEQUEUE_PTRS ?r1 ?h ?n"
    proof -
      have "DEQUEUE_PTRS ?r1 ?h ?n = DEQUEUE_PTRS ?r ?h ?n" by (simp add: DEQUEUE_PTRS_def Let_def)
      moreover have "j < unat ?n \<Longrightarrow> j < 2 ^ 32" for j using unat_lt2p [of ?n] by simp
      ultimately show ?thesis
        unfolding DEQUEUE_PTRS_eq [OF wf ns] by (simp add: slot_index_add [OF wf])
    qed
    have tl: "ht_tail (rcons (ring s4)) = ?h" using s4(2) wf by (simp add: ring_wf_def)
    define s5 where "s5 = goto t Out (s4\<lparr>ring := (ring s4)\<lparr>rcons := (rcons (ring s4))\<lparr>ht_tail := ?h + ?n\<rparr>\<rparr>,
       ctail := ctail s4 + unat ?n, cpend := tl (cpend s4), deqd := deqd s4 @ ?o\<rparr>)"
    have 5: "mc_step t s4 = Some s5" using s4(4) tl by (simp add: mc_step_def s5_def)
    have "mc_alone t s s5"
      by (rule alone_into(2) [OF 1 alone_into(2) [OF 2 alone_into(2) [OF 3 rtranclp.rtrancl_into_rtrancl [OF s4(1) 5]]]])
    moreover have "objs = ?o" "r = ring s5"
      using e False s4(2) o wf by (auto simp: do_dequeue_unfold Let_def s5_def ring_wf_def)
    moreover have "rpcs s5 t = Out" "deqd s5 = deqd s @ ?o" using s4(3) by (simp_all add: s5_def)
    ultimately show ?thesis by blast
  qed
qed

lemma dequeue_alone_witness:
  "\<exists>s'. mc_alone 3 (goto 3 (DeqHead 2 RTE_RING_QUEUE_VARIABLE) raced) s' \<and> deqd s' = [10, 11, 20]"
proof -
  let ?s = "goto 3 (DeqHead 2 RTE_RING_QUEUE_VARIABLE) raced"
  have s: "ring ?s = ring raced" "rpcs ?s 3 = DeqHead 2 RTE_RING_QUEUE_VARIABLE" "deqd ?s = [10, 11]"
    by (simp_all add: raced_reachable)
  obtain objs entries r where e: "do_dequeue (ring ?s) 2 RTE_RING_QUEUE_VARIABLE False = (objs, entries, r)"
    by (metis prod_cases3)
  have c: "rcapacity (ring raced) = 3" "rsize (ring raced) = 4" "rmask (ring raced) = 3"
    using reachable_constants [OF raced_reachable(1)] by (simp_all add: ring4_def)
  have v: "ht_head (rcons (ring raced)) = 2" "ht_tail (rcons (ring raced)) = 2" "ht_head (rprod (ring raced)) = 3"
    "ht_tail (rprod (ring raced)) = 3" "rslots (ring raced) = [10, 11, 20, 0]"
    by code_simp+
  have wf: "ring_wf (ring ?s)"
    unfolding s ring_wf_def by (simp add: c v) (auto intro: exI [of _ 2])
  have "objs = [20]"
    using e unfolding s do_dequeue_unfold
    by (auto simp: move_count_def Let_def c v DEQUEUE_PTRS_def load_unrolled.simps)
  then show ?thesis using dequeue_alone [OF wf s(2) e] unfolding s by fastforce
qed

end
