(* ===== verification/Stack.thy ===== *)
theory Stack
  imports Eal
begin

text \<open>
  \<open>librte_stack\<close>: a bounded stack of object pointers, in two forms.  The standard form is an array
  under a spin lock (\<open>rte_stack_std.h\<close>).  The lock-free form (\<open>rte_stack_lf.h\<close>,
  \<open>rte_stack_lf_generic.h\<close>) keeps two singly linked lists over one array of elements, the stack itself and
  the elements not in use; a push moves elements from the second to the first, a pop the other way, and
  each move swings the head of a list by a 128-bit compare-and-set on the pair of the top pointer and a
  modification counter.  Here are the state, creation, and the lock-free calls as single accesses to shared
  memory, so that any number of threads can run them at once; \<open>Stack_Lf\<close> has the proofs.
\<close>

section \<open>The lock-free lists\<close>

text \<open>A pointer to an element is its index in \<open>elems\<close>, \<open>NULL\<close> is \<open>None\<close>.\<close>

record 'a rte_stack_lf_elem =
  e_data :: 'a
  e_next :: "nat option"

record rte_stack_lf_head =
  h_top :: "nat option"
  h_cnt :: u64

record rte_stack_lf_list =
  l_head :: rte_stack_lf_head
  l_len :: u64

record 'a rte_stack_lf =
  lf_used :: rte_stack_lf_list
  lf_free :: rte_stack_lf_list
  lf_elems :: "'a rte_stack_lf_elem list"

datatype lf_side = Used | Free

fun lf_list :: "lf_side \<Rightarrow> 'a rte_stack_lf \<Rightarrow> rte_stack_lf_list" where
  "lf_list Used s = lf_used s"
| "lf_list Free s = lf_free s"

fun set_list :: "lf_side \<Rightarrow> rte_stack_lf_list \<Rightarrow> 'a rte_stack_lf \<Rightarrow> 'a rte_stack_lf" where
  "set_list Used l s = s\<lparr>lf_used := l\<rparr>"
| "set_list Free l s = s\<lparr>lf_free := l\<rparr>"

definition set_head :: "lf_side \<Rightarrow> rte_stack_lf_head \<Rightarrow> 'a rte_stack_lf \<Rightarrow> 'a rte_stack_lf" where
  "set_head d h s = set_list d ((lf_list d s)\<lparr>l_head := h\<rparr>) s"

definition set_len :: "lf_side \<Rightarrow> u64 \<Rightarrow> 'a rte_stack_lf \<Rightarrow> 'a rte_stack_lf" where
  "set_len d n s = set_list d ((lf_list d s)\<lparr>l_len := n\<rparr>) s"

definition set_next :: "nat \<Rightarrow> nat option \<Rightarrow> 'a rte_stack_lf \<Rightarrow> 'a rte_stack_lf" where
  "set_next p q s = s\<lparr>lf_elems := (lf_elems s)[p := (lf_elems s ! p)\<lparr>e_next := q\<rparr>]\<rparr>"

definition set_data :: "nat \<Rightarrow> 'a \<Rightarrow> 'a rte_stack_lf \<Rightarrow> 'a rte_stack_lf" where
  "set_data p x s = s\<lparr>lf_elems := (lf_elems s)[p := (lf_elems s ! p)\<lparr>e_data := x\<rparr>]\<rparr>"

definition head_of :: "lf_side \<Rightarrow> 'a rte_stack_lf \<Rightarrow> rte_stack_lf_head" where
  "head_of d s = l_head (lf_list d s)"

definition lf_len :: "lf_side \<Rightarrow> 'a rte_stack_lf \<Rightarrow> u64" where
  "lf_len d s = l_len (lf_list d s)"

text \<open>\<open>rte_atomic128_cmp_exchange\<close> on a head: whether it held the expected value, what \<open>exp\<close> holds after,
  and the memory.\<close>

definition rte_atomic128_cmp_exchange ::
  "lf_side \<Rightarrow> rte_stack_lf_head \<Rightarrow> rte_stack_lf_head \<Rightarrow> 'a rte_stack_lf
    \<Rightarrow> bool \<times> rte_stack_lf_head \<times> 'a rte_stack_lf" where
  "rte_atomic128_cmp_exchange d exp src s =
    (if head_of d s = exp then (True, exp, set_head d src s) else (False, head_of d s, s))"

section \<open>The calls, one access at a time\<close>

text \<open>
  A call is a push of a table of objects or a pop of \<open>n\<close>.  Either takes elements from a source list
  (\<open>__rte_stack_lf_pop_elems\<close>), stores the objects if it is a push, and gives the elements to the
  destination list (\<open>__rte_stack_lf_push_elems\<close>).
\<close>

datatype 'a lf_op = LfPush "'a list" | LfPop u32

fun op_num :: "'a lf_op \<Rightarrow> nat" where
  "op_num (LfPush objs) = length objs"
| "op_num (LfPop n) = unat n"

fun op_src :: "'a lf_op \<Rightarrow> lf_side" where
  "op_src (LfPush _) = Free"
| "op_src (LfPop _) = Used"

fun op_dst :: "'a lf_op \<Rightarrow> lf_side" where
  "op_dst (LfPush _) = Used"
| "op_dst (LfPop _) = Free"

text \<open>
  Where a thread is: outside; before loading \<open>list->len\<close>; before its compare-and-set; before the two loads
  of the copy \<open>old_head = list->head\<close>; at the head of the traversal; before loading \<open>tmp->next\<close>; before the
  compare-and-set of the head; storing an object; and in the second half, before the two loads of the
  head, before \<open>last->next = old_head.top\<close>, before its compare-and-set and before adding to the length.
  \<open>LfFault\<close> is an access through a pointer that is null or not into the array.
\<close>

datatype lf_pc = LfIdle | LenRead | LenCas | TopRead | CntRead | ScanElem | ScanNext | HeadCas
  | FillElem | LinkTop | LinkCnt | LinkNext | LinkCas | LenAdd | LfFault

text \<open>The local variables.  The table of a pop is the prefix written so far.\<close>

record 'a lf_thread =
  t_pc :: lf_pc
  t_op :: "'a lf_op"
  t_len :: u64
  t_old :: rte_stack_lf_head
  t_success :: bool
  t_i :: nat
  t_tmp :: "nat option"
  t_objs :: "'a list"
  t_first :: "nat option"
  t_last :: "nat option"

text \<open>What a step shows outside: a push or a pop taking effect, and a call returning, with the number of
  objects for a push and the objects for a pop.\<close>

datatype 'a lf_event =
  Called "'a lf_op"
| PushedAt "'a list"
| PoppedAt "'a list"
| Returned nat "'a list"

definition scan_start :: "'a lf_thread \<Rightarrow> 'a lf_thread" where
  "scan_start t = t\<lparr>t_pc := ScanElem, t_i := 0, t_tmp := h_top (t_old t)\<rparr>"

text \<open>After the loop of \<open>__rte_stack_lf_pop_elems\<close>, which returns \<open>old_head.top\<close>; a null pointer means
  failure to the caller.\<close>

definition elems_taken :: "'a lf_thread \<Rightarrow> 'a lf_event list \<times> 'a lf_thread" where
  "elems_taken t =
    (case h_top (t_old t) of
       None \<Rightarrow> ([Returned 0 []], t\<lparr>t_pc := LfIdle\<rparr>)
     | Some p \<Rightarrow>
        (let t = t\<lparr>t_first := Some p\<rparr>
         in case t_op t of
              LfPush _ \<Rightarrow> ([], t\<lparr>t_pc := FillElem, t_i := 0, t_tmp := Some p\<rparr>)
            | LfPop _ \<Rightarrow> ([], t\<lparr>t_pc := LinkTop\<rparr>)))"

text \<open>
  The traversal ends after \<open>num\<close> elements or at a null pointer.  If it was too short, \<open>continue\<close> goes to
  the test \<open>success == 0\<close>: without a new value of \<open>old_head\<close>, and with a value of \<open>success\<close> that only a
  failed exchange in an earlier round has set.
\<close>

definition scan_end :: "'a lf_thread \<Rightarrow> 'a lf_event list \<times> 'a lf_thread" where
  "scan_end t =
    (if t_i t \<noteq> op_num (t_op t) then (if t_success t then elems_taken t else ([], scan_start t))
     else ([], t\<lparr>t_pc := HeadCas\<rparr>))"

definition pop_elems_step ::
  "bool \<Rightarrow> 'a lf_thread \<Rightarrow> 'a rte_stack_lf \<Rightarrow> 'a lf_event list \<times> 'a lf_thread \<times> 'a rte_stack_lf" where
  "pop_elems_step uninit t s =
    (let num = op_num (t_op t); src = op_src (t_op t)
     in case t_pc t of
       LenRead \<Rightarrow>
         let len = lf_len src s
         in if unat len < num then ([Returned 0 []], t\<lparr>t_pc := LfIdle\<rparr>, s)
            else ([], t\<lparr>t_pc := LenCas, t_len := len\<rparr>, s)
     | LenCas \<Rightarrow>
         if lf_len src s = t_len t
         then ([], t\<lparr>t_pc := TopRead\<rparr>, set_len src (t_len t - of_nat num) s)
         else ([], t\<lparr>t_pc := LenRead\<rparr>, s)
     | TopRead \<Rightarrow> ([], t\<lparr>t_pc := CntRead, t_old := (t_old t)\<lparr>h_top := h_top (head_of src s)\<rparr>\<rparr>, s)
     | CntRead \<Rightarrow>
         ([], scan_start (t\<lparr>t_old := (t_old t)\<lparr>h_cnt := h_cnt (head_of src s)\<rparr>, t_success := uninit\<rparr>), s)
     | ScanElem \<Rightarrow>
         (case t_tmp t of
            Some p \<Rightarrow>
              if t_i t < num
              then if length (lf_elems s) \<le> p then ([], t\<lparr>t_pc := LfFault\<rparr>, s)
              else ([], t\<lparr>t_pc := ScanNext, t_last := Some p,
                         t_objs := (case t_op t of LfPush _ \<Rightarrow> [] |
                                     LfPop _ \<Rightarrow> take (t_i t) (t_objs t) @ [e_data (lf_elems s ! p)])\<rparr>, s)
              else (case scan_end t of (ev, t) \<Rightarrow> (ev, t, s))
          | None \<Rightarrow> (case scan_end t of (ev, t) \<Rightarrow> (ev, t, s)))
     | ScanNext \<Rightarrow>
         (case t_tmp t of
            Some p \<Rightarrow>
              if length (lf_elems s) \<le> p then ([], t\<lparr>t_pc := LfFault\<rparr>, s)
              else ([], t\<lparr>t_pc := ScanElem, t_i := Suc (t_i t), t_tmp := e_next (lf_elems s ! p)\<rparr>, s)
          | None \<Rightarrow> ([], t\<lparr>t_pc := LfFault\<rparr>, s))
     | HeadCas \<Rightarrow>
         (case rte_atomic128_cmp_exchange src (t_old t)
                 \<lparr>h_top = t_tmp t, h_cnt = h_cnt (t_old t) + 1\<rparr> s of
            (True, _, s) \<Rightarrow>
              (case elems_taken t of (ev, t') \<Rightarrow>
                 ((case t_op t of LfPush _ \<Rightarrow> [] | LfPop _ \<Rightarrow> [PoppedAt (t_objs t)]) @ ev, t', s))
          | (False, old, s) \<Rightarrow> ([], scan_start (t\<lparr>t_old := old, t_success := False\<rparr>), s))
     | _ \<Rightarrow> ([], t, s))"

definition fill_step :: "'a lf_thread \<Rightarrow> 'a rte_stack_lf \<Rightarrow> 'a lf_thread \<times> 'a rte_stack_lf" where
  "fill_step t s =
    (case t_op t of
       LfPop _ \<Rightarrow> (t, s)
     | LfPush objs \<Rightarrow>
        (let n = length objs
         in if t_i t < n
            then (case t_tmp t of
                    None \<Rightarrow> (t\<lparr>t_pc := LfFault\<rparr>, s)
                  | Some p \<Rightarrow>
                      if length (lf_elems s) \<le> p then (t\<lparr>t_pc := LfFault\<rparr>, s)
                      else (t\<lparr>t_i := Suc (t_i t), t_tmp := e_next (lf_elems s ! p)\<rparr>,
                       set_data p (objs ! (n - t_i t - 1)) s))
            else (t\<lparr>t_pc := LinkTop\<rparr>, s)))"

definition push_elems_step ::
  "'a lf_thread \<Rightarrow> 'a rte_stack_lf \<Rightarrow> 'a lf_event list \<times> 'a lf_thread \<times> 'a rte_stack_lf" where
  "push_elems_step t s =
    (let num = op_num (t_op t); dst = op_dst (t_op t)
     in case t_pc t of
       LinkTop \<Rightarrow> ([], t\<lparr>t_pc := LinkCnt, t_old := (t_old t)\<lparr>h_top := h_top (head_of dst s)\<rparr>\<rparr>, s)
     | LinkCnt \<Rightarrow> ([], t\<lparr>t_pc := LinkNext, t_old := (t_old t)\<lparr>h_cnt := h_cnt (head_of dst s)\<rparr>\<rparr>, s)
     | LinkNext \<Rightarrow>
         (case t_last t of
            None \<Rightarrow> ([], t\<lparr>t_pc := LfFault\<rparr>, s)
          | Some p \<Rightarrow>
              if length (lf_elems s) \<le> p then ([], t\<lparr>t_pc := LfFault\<rparr>, s)
              else ([], t\<lparr>t_pc := LinkCas\<rparr>, set_next p (h_top (t_old t)) s))
     | LinkCas \<Rightarrow>
         (case rte_atomic128_cmp_exchange dst (t_old t)
                 \<lparr>h_top = t_first t, h_cnt = h_cnt (t_old t) + 1\<rparr> s of
            (True, _, s) \<Rightarrow>
              ((case t_op t of LfPush objs \<Rightarrow> [PushedAt objs] | LfPop _ \<Rightarrow> []), t\<lparr>t_pc := LenAdd\<rparr>, s)
          | (False, old, s) \<Rightarrow> ([], t\<lparr>t_pc := LinkNext, t_old := old\<rparr>, s))
     | LenAdd \<Rightarrow>
         ([Returned num (case t_op t of LfPush _ \<Rightarrow> [] | LfPop _ \<Rightarrow> t_objs t)], t\<lparr>t_pc := LfIdle\<rparr>,
          set_len dst (lf_len dst s + of_nat num) s)
     | _ \<Rightarrow> ([], t, s))"

definition lf_exec ::
  "bool \<Rightarrow> 'a lf_thread \<Rightarrow> 'a rte_stack_lf \<Rightarrow> 'a lf_event list \<times> 'a lf_thread \<times> 'a rte_stack_lf" where
  "lf_exec uninit t s =
    (if t_pc t \<in> {LenRead, LenCas, TopRead, CntRead, ScanElem, ScanNext, HeadCas} then pop_elems_step uninit t s
     else if t_pc t = FillElem then (case fill_step t s of (t, s) \<Rightarrow> ([], t, s))
     else push_elems_step t s)"

text \<open>\<open>__rte_stack_lf_push\<close> and \<open>__rte_stack_lf_pop\<close> return at once when asked for nothing.\<close>

definition lf_call :: "'a lf_op \<Rightarrow> 'a lf_thread \<Rightarrow> 'a lf_event list \<times> 'a lf_thread" where
  "lf_call c t =
    (if op_num c = 0 then ([Called c, Returned 0 []], t)
     else ([Called c], t\<lparr>t_pc := LenRead, t_op := c, t_objs := [], t_last := None\<rparr>))"

section \<open>Threads\<close>

record 'a lf_system =
  sys_lf :: "'a rte_stack_lf"
  sys_threads :: "'a lf_thread list"

datatype 'a lf_action = Start nat "'a lf_op" | Run nat

text \<open>One action of the schedule; an action of a thread that cannot take it changes nothing.\<close>

fun lf_step ::
  "bool \<Rightarrow> 'a lf_action \<Rightarrow> 'a lf_system \<Rightarrow> (nat \<times> 'a lf_event) list \<times> 'a lf_system" where
  "lf_step uninit (Start i c) y =
    (if i < length (sys_threads y) \<and> t_pc (sys_threads y ! i) = LfIdle
     then case lf_call c (sys_threads y ! i) of (ev, t) \<Rightarrow>
            (map (Pair i) ev, y\<lparr>sys_threads := (sys_threads y)[i := t]\<rparr>)
     else ([], y))"
| "lf_step uninit (Run i) y =
    (if i < length (sys_threads y) \<and> t_pc (sys_threads y ! i) \<notin> {LfIdle, LfFault}
     then case lf_exec uninit (sys_threads y ! i) (sys_lf y) of (ev, t, s) \<Rightarrow>
            (map (Pair i) ev, \<lparr>sys_lf = s, sys_threads = (sys_threads y)[i := t]\<rparr>)
     else ([], y))"

fun lf_run ::
  "bool \<Rightarrow> 'a lf_action list \<Rightarrow> 'a lf_system \<Rightarrow> (nat \<times> 'a lf_event) list \<times> 'a lf_system" where
  "lf_run uninit [] y = ([], y)"
| "lf_run uninit (a # as) y =
    (case lf_step uninit a y of (ev, y) \<Rightarrow>
      (case lf_run uninit as y of (evs, y) \<Rightarrow> (ev @ evs, y)))"

section \<open>Initialisation\<close>

text \<open>\<open>rte_stack_lf_init\<close>: every element is pushed on the free list, by the one thread that knows the
  stack; \<open>elems\<close> is the memory it finds.\<close>

definition lf_zero :: "'a rte_stack_lf_elem list \<Rightarrow> 'a rte_stack_lf" where
  "lf_zero elems = \<lparr>lf_used = \<lparr>l_head = \<lparr>h_top = None, h_cnt = 0\<rparr>, l_len = 0\<rparr>,
     lf_free = \<lparr>l_head = \<lparr>h_top = None, h_cnt = 0\<rparr>, l_len = 0\<rparr>, lf_elems = elems\<rparr>"

definition push_elems_alone ::
  "lf_side \<Rightarrow> nat \<Rightarrow> nat \<Rightarrow> nat \<Rightarrow> 'a rte_stack_lf \<Rightarrow> 'a rte_stack_lf" where
  "push_elems_alone d p q num s =
    (let old = head_of d s;
         s = set_next q (h_top old) s;
         s = set_head d \<lparr>h_top = Some p, h_cnt = h_cnt old + 1\<rparr> s
     in set_len d (lf_len d s + of_nat num) s)"

fun rte_stack_lf_init :: "nat \<Rightarrow> 'a rte_stack_lf \<Rightarrow> 'a rte_stack_lf" where
  "rte_stack_lf_init 0 s = s"
| "rte_stack_lf_init (Suc n) s = push_elems_alone Free n n 1 (rte_stack_lf_init n s)"

end
