(* ===== verification/Stack_Lf.thy ===== *)
theory Stack_Lf
  imports Stack "HOL-Library.Multiset"
begin

text \<open>
  What holds in every interleaving of the lock-free calls, when \<open>success\<close> starts as zero: the elements are
  partitioned into the two lists and the segments that threads have taken; a list is as long as its
  \<open>len\<close> says, up to what threads have reserved or not yet added; a thread whose copy of a head is still
  the head has read a prefix of the list.  \<open>lf_inv_step\<close> carries this over any step.
\<close>

section \<open>Segments\<close>

fun lseg :: "'a rte_stack_lf_elem list \<Rightarrow> nat option \<Rightarrow> nat list \<Rightarrow> nat option \<Rightarrow> bool" where
  "lseg m p [] q \<longleftrightarrow> p = q"
| "lseg m p (x # xs) q \<longleftrightarrow> p = Some x \<and> x < length m \<and> lseg m (e_next (m ! x)) xs q"

lemma lseg_append: "lseg m p (xs @ ys) q \<longleftrightarrow> (\<exists>r. lseg m p xs r \<and> lseg m r ys q)"
  by (induction xs arbitrary: p) auto

lemma lseg_cong:
  "length m' = length m \<Longrightarrow> (\<And>x. x \<in> set xs \<Longrightarrow> e_next (m' ! x) = e_next (m ! x))
    \<Longrightarrow> lseg m' p xs q \<longleftrightarrow> lseg m p xs q"
  by (induction xs arbitrary: p) auto

lemma lseg_nth: "lseg m p xs q \<Longrightarrow> i < length xs \<Longrightarrow> lseg m (Some (xs ! i)) (drop i xs) q \<and> xs ! i < length m"
proof (induction xs arbitrary: p i)
  case (Cons x xs)
  then show ?case by (cases i) auto
qed simp

lemma lseg_in: "lseg m p xs q \<Longrightarrow> x \<in> set xs \<Longrightarrow> x < length m"
  by (induction xs arbitrary: p) auto

lemma lseg_drop_Suc:
  assumes "lseg m p (drop i xs) q" "i < length xs"
  shows "p = Some (xs ! i) \<and> xs ! i < length m \<and> lseg m (e_next (m ! (xs ! i))) (drop (Suc i) xs) q"
  using assms by (simp add: Cons_nth_drop_Suc [symmetric])

lemma lseg_relink:
  assumes "lseg m p xs q" "xs \<noteq> []" "distinct xs"
  shows "lseg (m[last xs := (m ! last xs)\<lparr>e_next := r\<rparr>]) p xs r"
  using assms
proof (induction xs arbitrary: p)
  case (Cons x xs)
  show ?case
  proof (cases "xs = []")
    case False
    then have "x \<noteq> last xs" using Cons.prems(3) last_in_set by fastforce
    then show ?thesis using Cons False by auto
  qed (use Cons.prems in auto)
qed simp

section \<open>The abstract stack\<close>

text \<open>The atomic stack a history must agree with: each call takes effect at one moment between its start
  and its return, and returns what it did.  A call that fails returns 0 without effect.\<close>

datatype 'a lf_status = LfOut | Pending "'a lf_op" | Took nat "'a list"

fun lin_step :: "nat \<times> 'a lf_event \<Rightarrow> 'a list \<times> (nat \<Rightarrow> 'a lf_status)
    \<Rightarrow> ('a list \<times> (nat \<Rightarrow> 'a lf_status)) option" where
  "lin_step (i, Called c) (stk, st) =
     (if st i = LfOut then Some (stk, st(i := Pending c)) else None)"
| "lin_step (i, PushedAt objs) (stk, st) =
     (if st i = Pending (LfPush objs) then Some (rev objs @ stk, st(i := Took (length objs) [])) else None)"
| "lin_step (i, PoppedAt objs) (stk, st) =
     (if (case st i of Pending (LfPop n) \<Rightarrow> unat n = length objs | _ \<Rightarrow> False)
         \<and> length objs \<le> length stk \<and> objs = take (length objs) stk
      then Some (drop (length objs) stk, st(i := Took (length objs) objs)) else None)"
| "lin_step (i, Returned n objs) (stk, st) =
     (if st i = Took n objs \<or> n = 0 \<and> objs = [] \<and> (case st i of Pending c \<Rightarrow> True | _ \<Rightarrow> False)
      then Some (stk, st(i := LfOut)) else None)"

fun lin_run :: "(nat \<times> 'a lf_event) list \<Rightarrow> 'a list \<times> (nat \<Rightarrow> 'a lf_status)
    \<Rightarrow> ('a list \<times> (nat \<Rightarrow> 'a lf_status)) option" where
  "lin_run [] s = Some s"
| "lin_run (e # es) s = (case lin_step e s of None \<Rightarrow> None | Some s \<Rightarrow> lin_run es s)"

lemma lin_run_append:
  "lin_run (es @ fs) s = (case lin_run es s of None \<Rightarrow> None | Some s \<Rightarrow> lin_run fs s)"
  by (induction es arbitrary: s) (auto split: option.splits)

section \<open>The invariant\<close>

definition data_of :: "'a rte_stack_lf_elem list \<Rightarrow> nat list \<Rightarrow> 'a list" where
  "data_of m xs = map (\<lambda>x. e_data (m ! x)) xs"

lemma data_of_simps [simp]:
  "data_of m [] = []" "data_of m (x # xs) = e_data (m ! x) # data_of m xs"
  "data_of m (xs @ ys) = data_of m xs @ data_of m ys" "length (data_of m xs) = length xs"
  by (simp_all add: data_of_def)

lemma take_data_of: "take n (data_of m xs) = data_of m (take n xs)"
  by (simp add: data_of_def take_map)

lemma drop_data_of: "drop n (data_of m xs) = data_of m (drop n xs)"
  by (simp add: data_of_def drop_map)

definition ptr_ok :: "'a rte_stack_lf \<Rightarrow> nat option \<Rightarrow> bool" where
  "ptr_ok s p \<longleftrightarrow> (\<forall>x. p = Some x \<longrightarrow> x < length (lf_elems s))"

text \<open>The traversal of a thread agrees with list \<open>xs\<close>.\<close>

definition scanned :: "nat list \<Rightarrow> 'a rte_stack_lf \<Rightarrow> 'a lf_thread \<Rightarrow> bool" where
  "scanned xs s t \<longleftrightarrow>
    (let i = (if t_pc t = ScanNext then Suc (t_i t) else t_i t)
     in i \<le> length xs \<and> i \<le> op_num (t_op t)
      \<and> (if t_pc t = ScanNext then t_tmp t = Some (xs ! t_i t) else lseg (lf_elems s) (t_tmp t) (drop i xs) None)
      \<and> (0 < i \<longrightarrow> t_last t = Some (xs ! (i - 1))
          \<and> (\<forall>n. t_op t = LfPop n \<longrightarrow> t_objs t = data_of (lf_elems s) (take i xs))))"

abbreviation taking :: "lf_pc set" where
  "taking \<equiv> {LenRead, LenCas, TopRead, CntRead, ScanElem, ScanNext, HeadCas}"

abbreviation giving :: "lf_pc set" where
  "giving \<equiv> {FillElem, LinkTop, LinkCnt, LinkNext, LinkCas}"

definition status_ok :: "'a lf_thread \<Rightarrow> 'a lf_status \<Rightarrow> bool" where
  "status_ok t st \<longleftrightarrow>
    (case t_op t of
       LfPush objs \<Rightarrow> st = (if t_pc t = LfIdle then LfOut else if t_pc t = LenAdd then Took (length objs) []
                             else Pending (t_op t))
     | LfPop n \<Rightarrow> st = (if t_pc t = LfIdle then LfOut else if t_pc t \<in> taking then Pending (t_op t)
                          else Took (unat n) (t_objs t)))"

definition taking_ok :: "(lf_side \<Rightarrow> nat list) \<Rightarrow> 'a rte_stack_lf \<Rightarrow> 'a lf_thread \<Rightarrow> bool" where
  "taking_ok L s t \<longleftrightarrow>
    (t_pc t = LenCas \<longrightarrow> op_num (t_op t) \<le> unat (t_len t))
    \<and> (t_pc t \<in> {CntRead, ScanElem, ScanNext, HeadCas} \<longrightarrow> ptr_ok s (h_top (t_old t)))
    \<and> (t_pc t \<in> {ScanElem, ScanNext, HeadCas} \<longrightarrow>
         \<not> t_success t \<and> ptr_ok s (t_tmp t) \<and> (t_pc t = ScanNext \<longrightarrow> t_i t < op_num (t_op t) \<and> t_tmp t \<noteq> None)
         \<and> (t_pc t = HeadCas \<longrightarrow> t_i t = op_num (t_op t)) \<and> t_i t \<le> op_num (t_op t)
         \<and> unat (h_cnt (t_old t)) \<le> unat (h_cnt (head_of (op_src (t_op t)) s))
         \<and> (t_old t = head_of (op_src (t_op t)) s \<longrightarrow> scanned (L (op_src (t_op t))) s t))"

definition giving_ok :: "nat list \<Rightarrow> 'a rte_stack_lf \<Rightarrow> 'a lf_thread \<Rightarrow> bool" where
  "giving_ok own s t \<longleftrightarrow>
    (\<exists>q. lseg (lf_elems s) (t_first t) own q \<and> ptr_ok s q
      \<and> length own = op_num (t_op t) \<and> t_last t = Some (last own)
      \<and> (t_pc t = FillElem \<longrightarrow> (\<exists>objs. t_op t = LfPush objs) \<and> t_i t \<le> length own
          \<and> lseg (lf_elems s) (t_tmp t) (drop (t_i t) own) q)
      \<and> (\<forall>objs. t_op t = LfPush objs \<longrightarrow>
          data_of (lf_elems s) (take (if t_pc t = FillElem then t_i t else length own) own)
            = take (if t_pc t = FillElem then t_i t else length own) (rev objs))
      \<and> (t_pc t = LinkCas \<longrightarrow> q = h_top (t_old t))
      \<and> (t_pc t \<in> {LinkCnt, LinkNext, LinkCas} \<longrightarrow> ptr_ok s (h_top (t_old t))))"

definition thread_ok ::
  "(lf_side \<Rightarrow> nat list) \<Rightarrow> nat list \<Rightarrow> 'a rte_stack_lf \<Rightarrow> 'a lf_thread \<Rightarrow> 'a lf_status \<Rightarrow> bool" where
  "thread_ok L own s t st \<longleftrightarrow>
    t_pc t \<noteq> LfFault \<and> (t_pc t \<noteq> LfIdle \<longrightarrow> 0 < op_num (t_op t)) \<and> status_ok t st
    \<and> (if t_pc t \<in> giving then giving_ok own s t else own = [] \<and> taking_ok L s t)"

text \<open>What a list has more than its length says.\<close>

definition owed :: "lf_side \<Rightarrow> 'a lf_thread \<Rightarrow> nat" where
  "owed d t =
    (if t_pc t \<in> {TopRead, CntRead, ScanElem, ScanNext, HeadCas} \<and> op_src (t_op t) = d
        \<or> t_pc t = LenAdd \<and> op_dst (t_op t) = d then op_num (t_op t) else 0)"

definition lists_ok :: "(lf_side \<Rightarrow> nat list) \<Rightarrow> nat list list \<Rightarrow> nat \<Rightarrow> 'a rte_stack_lf \<Rightarrow> bool" where
  "lists_ok L own k s \<longleftrightarrow>
    mset (L Used) + mset (L Free) + mset (concat own) = mset [0..<length (lf_elems s)]
    \<and> (\<forall>d. lseg (lf_elems s) (h_top (head_of d s)) (L d) None \<and> unat (h_cnt (head_of d s)) \<le> k)
    \<and> (\<forall>x < length (lf_elems s). ptr_ok s (e_next (lf_elems s ! x)))"

definition lf_inv ::
  "(lf_side \<Rightarrow> nat list) \<Rightarrow> nat list list \<Rightarrow> nat \<Rightarrow> (nat \<Rightarrow> 'a lf_status) \<Rightarrow> 'a lf_system \<Rightarrow> bool" where
  "lf_inv L own k st y \<longleftrightarrow>
    length own = length (sys_threads y) \<and> length (lf_elems (sys_lf y)) < 2 ^ 64
    \<and> lists_ok L own k (sys_lf y)
    \<and> (\<forall>d. length (L d) = unat (lf_len d (sys_lf y)) + sum_list (map (owed d) (sys_threads y)))
    \<and> (\<forall>i < length own. thread_ok L (own ! i) (sys_lf y) (sys_threads y ! i) (st i))
    \<and> (\<forall>i \<ge> length own. st i = LfOut)"

section \<open>What a step of another thread leaves\<close>

lemma data_of_cong: "(\<And>x. x \<in> set xs \<Longrightarrow> m' ! x = m ! x) \<Longrightarrow> data_of m' xs = data_of m xs"
  by (simp add: data_of_def)

lemma ptr_ok_length: "length (lf_elems s') = length (lf_elems s) \<Longrightarrow> ptr_ok s' p = ptr_ok s p"
  by (simp add: ptr_ok_def)

lemma scanned_cong:
  assumes "length (lf_elems s') = length (lf_elems s)"
    "\<And>x. x \<in> set xs \<Longrightarrow> lf_elems s' ! x = lf_elems s ! x"
  shows "scanned xs s' t = scanned xs s t"
proof -
  have "lseg (lf_elems s') p (drop i xs) None = lseg (lf_elems s) p (drop i xs) None" for p i
    using assms by (intro lseg_cong) (auto dest: in_set_dropD)
  moreover have "data_of (lf_elems s') (take i xs) = data_of (lf_elems s) (take i xs)" for i
    using assms by (intro data_of_cong) (auto dest: in_set_takeD)
  ultimately show ?thesis by (simp only: scanned_def)
qed

definition same_memory :: "(lf_side \<Rightarrow> nat list) \<Rightarrow> 'a rte_stack_lf \<Rightarrow> (lf_side \<Rightarrow> nat list) \<Rightarrow> 'a rte_stack_lf \<Rightarrow> bool" where
  "same_memory L s L' s' \<longleftrightarrow> length (lf_elems s') = length (lf_elems s)
    \<and> (\<forall>d. (head_of d s' = head_of d s \<and> L' d = L d \<and> (\<forall>x\<in>set (L d). lf_elems s' ! x = lf_elems s ! x))
          \<or> unat (h_cnt (head_of d s)) < unat (h_cnt (head_of d s')))"

lemma giving_ok_frame:
  assumes "giving_ok own s t" "length (lf_elems s') = length (lf_elems s)"
    and own: "\<And>x. x \<in> set own \<Longrightarrow> lf_elems s' ! x = lf_elems s ! x"
  shows "giving_ok own s' t"
proof -
  have "lseg (lf_elems s') p (drop i own) q = lseg (lf_elems s) p (drop i own) q" for p i q
    using assms by (intro lseg_cong) (auto dest: in_set_dropD)
  moreover have "lseg (lf_elems s') p own q = lseg (lf_elems s) p own q" for p q
    using assms by (intro lseg_cong) auto
  moreover have "data_of (lf_elems s') (take i own) = data_of (lf_elems s) (take i own)" for i
    using own by (intro data_of_cong) (auto dest: in_set_takeD)
  ultimately show ?thesis using assms(1) by (simp only: giving_ok_def ptr_ok_length [OF assms(2)])
qed

lemma taking_ok_frame:
  assumes ok: "taking_ok L s t" and same: "same_memory L s L' s'"
  shows "taking_ok L' s' t"
proof -
  let ?d = "op_src (t_op t)"
  have len: "length (lf_elems s') = length (lf_elems s)" using same by (simp add: same_memory_def)
  have cnt: "unat (h_cnt (head_of ?d s)) \<le> unat (h_cnt (head_of ?d s'))"
    using same unfolding same_memory_def by (metis less_imp_le order_refl)
  have "scanned (L' ?d) s' t" if pc: "t_pc t \<in> {ScanElem, ScanNext, HeadCas}" and sync: "t_old t = head_of ?d s'"
  proof -
    have "unat (h_cnt (t_old t)) \<le> unat (h_cnt (head_of ?d s))" using ok pc unfolding taking_ok_def by blast
    then have "head_of ?d s' = head_of ?d s \<and> L' ?d = L ?d \<and> (\<forall>x\<in>set (L ?d). lf_elems s' ! x = lf_elems s ! x)"
      using same sync unfolding same_memory_def by (metis not_less)
    moreover from this have "scanned (L ?d) s t" using ok pc sync unfolding taking_ok_def by auto
    ultimately show ?thesis using scanned_cong [OF len, of "L ?d" t] by simp
  qed
  then show ?thesis using ok cnt unfolding taking_ok_def ptr_ok_length [OF len] by (meson order_trans)
qed

lemma thread_ok_frame:
  assumes "thread_ok L own s t st" "same_memory L s L' s'"
    "\<And>x. x \<in> set own \<Longrightarrow> lf_elems s' ! x = lf_elems s ! x"
  shows "thread_ok L' own s' t st"
  using assms giving_ok_frame [of own s t s'] taking_ok_frame [of L s t L' s']
  by (auto simp: thread_ok_def same_memory_def)

lemma sum_list_update_nat:
  fixes f :: "'a \<Rightarrow> nat"
  shows "i < length xs \<Longrightarrow> sum_list (map f (xs[i := x])) + f (xs ! i) = sum_list (map f xs) + f x"
proof (induction xs arbitrary: i)
  case (Cons a xs)
  show ?case
  proof (cases i)
    case (Suc n)
    then show ?thesis using Cons.IH [of n] Cons.prems by simp
  qed simp
qed simp

lemma mset_concat_update:
  "i < length xs \<Longrightarrow> mset (concat (xs[i := x])) + mset (xs ! i) = mset (concat xs) + mset x"
proof (induction xs arbitrary: i)
  case (Cons a xs)
  then show ?case by (cases i) (simp_all add: union_ac)
qed simp

lemma owned_once:
  assumes ok: "lists_ok L own k s"
  shows "distinct (L Used @ L Free @ concat own)"
    and "set (L Used) \<union> set (L Free) \<union> set (concat own) = {..<length (lf_elems s)}"
proof -
  have m: "mset (L Used @ L Free @ concat own) = mset [0..<length (lf_elems s)]"
    using ok by (simp add: lists_ok_def union_ac)
  then show "distinct (L Used @ L Free @ concat own)"
    using mset_eq_imp_distinct_iff distinct_upt by blast
  show "set (L Used) \<union> set (L Free) \<union> set (concat own) = {..<length (lf_elems s)}"
    using mset_eq_setD [OF m] by auto
qed

lemma distinct_concat_nth:
  "distinct (concat xs) \<Longrightarrow> i < length xs \<Longrightarrow> j < length xs \<Longrightarrow> i \<noteq> j \<Longrightarrow> set (xs ! i) \<inter> set (xs ! j) = {}"
proof (induction xs arbitrary: i j)
  case (Cons a xs)
  then show ?case by (cases i; cases j) (auto, (metis IntI UN_I empty_iff nth_mem)+)
qed simp

lemma owned_apart:
  assumes "lists_ok L own k s" "i < length own"
  shows "distinct (own ! i)" "set (own ! i) \<inter> set (L d) = {}"
    "j < length own \<Longrightarrow> i \<noteq> j \<Longrightarrow> set (own ! i) \<inter> set (own ! j) = {}"
    "set (own ! i) \<subseteq> {..<length (lf_elems s)}"
proof -
  note o = owned_once [OF assms(1)]
  have sub: "set (own ! i) \<subseteq> set (concat own)" using assms(2) by (auto intro!: bexI [of _ "own ! i"])
  show "distinct (own ! i)" using o(1) assms(2) by (simp add: distinct_concat_iff)
  show "set (own ! i) \<inter> set (L d) = {}" using o(1) sub by (cases d) auto
  show "set (own ! i) \<inter> set (own ! j) = {}" if "j < length own" "i \<noteq> j"
    using o(1) distinct_concat_nth [of own i j] that assms(2) by auto
  show "set (own ! i) \<subseteq> {..<length (lf_elems s)}" using o(2) sub by blast
qed

text \<open>The obligations of a step of thread \<open>i\<close>.\<close>

lemma lf_inv_update:
  assumes inv: "lf_inv L own k st y" and i: "i < length own"
    and lists: "lists_ok L' (own[i := o']) k' s'"
    and len: "\<And>d. length (L' d) + owed d (sys_threads y ! i) + unat (lf_len d (sys_lf y))
        = length (L d) + owed d t' + unat (lf_len d s')"
    and same: "same_memory L (sys_lf y) L' s'"
    and mem: "\<And>j x. j < length own \<Longrightarrow> j \<noteq> i \<Longrightarrow> x \<in> set (own ! j)
        \<Longrightarrow> lf_elems s' ! x = lf_elems (sys_lf y) ! x"
    and t': "thread_ok L' o' s' t' st'"
  shows "lf_inv L' (own[i := o']) k' (st(i := st')) \<lparr>sys_lf = s', sys_threads = (sys_threads y)[i := t']\<rparr>"
proof -
  have "length (L' d) = unat (lf_len d s') + sum_list (map (owed d) ((sys_threads y)[i := t']))" for d
  proof -
    have "length (L d) = unat (lf_len d (sys_lf y)) + sum_list (map (owed d) (sys_threads y))"
      "i < length (sys_threads y)"
      using inv i by (simp_all add: lf_inv_def)
    then show ?thesis using len [of d] sum_list_update_nat [of i "sys_threads y" "owed d" t'] by linarith
  qed
  moreover have "thread_ok L' (own[i := o'] ! j) s' ((sys_threads y)[i := t'] ! j) ((st(i := st')) j)"
    if "j < length own" for j
  proof (cases "j = i")
    case False
    have "thread_ok L (own ! j) (sys_lf y) (sys_threads y ! j) (st j)"
      using inv that by (simp add: lf_inv_def)
    from thread_ok_frame [OF this same mem [OF that False]]
    have "thread_ok L' (own ! j) s' (sys_threads y ! j) (st j)" .
    then show ?thesis using False by simp
  qed (use i inv t' in \<open>simp add: lf_inv_def\<close>)
  ultimately show ?thesis
    using inv i lists same by (simp add: lf_inv_def same_memory_def)
qed

section \<open>Steps without effect on shared memory\<close>

lemma side_simps [simp]:
  "head_of d' (set_head d h s) = (if d' = d then h else head_of d' s)"
  "lf_len d' (set_head d h s) = lf_len d' s"
  "lf_elems (set_head d h s) = lf_elems s"
  "head_of d' (set_len d n s) = head_of d' s"
  "lf_len d' (set_len d n s) = (if d' = d then n else lf_len d' s)"
  "lf_elems (set_len d n s) = lf_elems s"
  "head_of d (set_next p q s) = head_of d s" "lf_len d (set_next p q s) = lf_len d s"
  "head_of d (set_data p x s) = head_of d s" "lf_len d (set_data p x s) = lf_len d s"
  "length (lf_elems (set_next p q s)) = length (lf_elems s)"
  "length (lf_elems (set_data p x s)) = length (lf_elems s)"
  by (cases d; cases d'; simp add: head_of_def lf_len_def set_head_def set_len_def set_next_def set_data_def)+

lemma ptr_ok_set [simp]:
  "ptr_ok (set_head d h s) p = ptr_ok s p" "ptr_ok (set_len d n s) p = ptr_ok s p"
  "ptr_ok (set_next x q s) p = ptr_ok s p" "ptr_ok (set_data x v s) p = ptr_ok s p"
  by (simp_all add: ptr_ok_def)

definition goes_on ::
  "(lf_side \<Rightarrow> nat list) \<Rightarrow> nat \<Rightarrow> (nat \<Rightarrow> 'a lf_status) \<Rightarrow> 'a lf_system
    \<Rightarrow> (nat \<times> 'a lf_event) list \<Rightarrow> 'a lf_system \<Rightarrow> bool" where
  "goes_on L k st y ev y' \<longleftrightarrow>
    (\<exists>L' own' st'. lf_inv L' own' (Suc k) st' y'
      \<and> lin_run ev (data_of (lf_elems (sys_lf y)) (L Used), st)
          = Some (data_of (lf_elems (sys_lf y')) (L' Used), st'))"

lemma goes_onI:
  "lf_inv L' own' (Suc k) st' y'
    \<Longrightarrow> lin_run ev (data_of (lf_elems (sys_lf y)) (L Used), st)
        = Some (data_of (lf_elems (sys_lf y')) (L' Used), st')
    \<Longrightarrow> goes_on L k st y ev y'"
  unfolding goes_on_def by blast

lemma lists_ok_mono: "lists_ok L own k s \<Longrightarrow> lists_ok L own (Suc k) s"
  by (auto simp: lists_ok_def intro: le_SucI)

lemma goes_on_local:
  assumes inv: "lf_inv L own k st y" and i: "i < length own"
    and owed: "\<And>d. owed d t' = owed d (sys_threads y ! i)"
    and ok: "thread_ok L (own ! i) (sys_lf y) t' st'"
    and ev: "lin_run ev (data_of (lf_elems (sys_lf y)) (L Used), st)
      = Some (data_of (lf_elems (sys_lf y)) (L Used), st(i := st'))"
  shows "goes_on L k st y ev \<lparr>sys_lf = sys_lf y, sys_threads = (sys_threads y)[i := t']\<rparr>"
proof -
  have "lists_ok L (own[i := own ! i]) (Suc k) (sys_lf y)"
    using inv by (simp add: lf_inv_def lists_ok_mono)
  then have "lf_inv L (own[i := own ! i]) (Suc k) (st(i := st'))
      \<lparr>sys_lf = sys_lf y, sys_threads = (sys_threads y)[i := t']\<rparr>"
    using owed ok by (intro lf_inv_update [OF inv i]) (simp_all add: same_memory_def)
  then show ?thesis using ev unfolding goes_on_def by auto
qed

lemmas goes_on_quiet = goes_on_local [where ev = "[]" and st' = "st i" for st i, simplified]

lemma inv_thread:
  assumes "lf_inv L own k st y" "i < length own"
  shows "thread_ok L (own ! i) (sys_lf y) (sys_threads y ! i) (st i)"
  using assms by (simp add: lf_inv_def)

lemma inv_list:
  assumes "lf_inv L own k st y"
  shows "lseg (lf_elems (sys_lf y)) (h_top (head_of d (sys_lf y))) (L d) None"
    "unat (h_cnt (head_of d (sys_lf y))) \<le> k" "ptr_ok (sys_lf y) (h_top (head_of d (sys_lf y)))"
    "length (L d) < 2 ^ 64"
    "i < length own \<Longrightarrow> unat (lf_len d (sys_lf y)) + owed d (sys_threads y ! i) \<le> length (L d)"
proof -
  have ok: "lists_ok L own k (sys_lf y)" using assms by (simp add: lf_inv_def)
  show l: "lseg (lf_elems (sys_lf y)) (h_top (head_of d (sys_lf y))) (L d) None"
    and "unat (h_cnt (head_of d (sys_lf y))) \<le> k" using ok by (auto simp: lists_ok_def)
  show "ptr_ok (sys_lf y) (h_top (head_of d (sys_lf y)))"
    using l by (cases "L d") (simp_all add: ptr_ok_def)
  have "distinct (L d)" "set (L d) \<subseteq> {..<length (lf_elems (sys_lf y))}"
    using owned_once [OF ok] by (cases d; auto)+
  then have "length (L d) \<le> length (lf_elems (sys_lf y))"
    by (metis card_lessThan card_mono distinct_card finite_lessThan)
  then show "length (L d) < 2 ^ 64" using assms by (simp add: lf_inv_def)
  show "unat (lf_len d (sys_lf y)) + owed d (sys_threads y ! i) \<le> length (L d)" if "i < length own"
  proof -
    have i: "i < length (sys_threads y)" using assms that by (simp add: lf_inv_def)
    have "owed d (sys_threads y ! i) \<le> sum_list (map (owed d) (sys_threads y))"
      by (rule member_le_sum_list) (use i in simp_all)
    then show ?thesis using assms by (simp add: lf_inv_def)
  qed
qed

lemma scanned_start:
  assumes "lseg (lf_elems s) (h_top (t_old t)) xs None"
  shows "scanned xs s (scan_start t)"
  using assms by (simp add: scanned_def scan_start_def)

lemma scan_start_ok:
  assumes inv: "lf_inv L own k st y" and num: "0 < op_num (t_op t)" and st: "st i = Pending (t_op t)"
    and old: "ptr_ok (sys_lf y) (h_top (t_old t))" and s: "\<not> t_success t"
    and cnt: "unat (h_cnt (t_old t)) \<le> unat (h_cnt (head_of (op_src (t_op t)) (sys_lf y)))"
  shows "thread_ok L [] (sys_lf y) (scan_start t) (st i)"
proof -
  have "scanned (L (op_src (t_op t))) (sys_lf y) (scan_start t)"
    if "t_old t = head_of (op_src (t_op t)) (sys_lf y)"
    using scanned_start [of "sys_lf y" t] inv_list(1) [OF inv, of "op_src (t_op t)"] that by simp
  then show ?thesis using assms
    by (cases "t_op t") (simp_all add: thread_ok_def taking_ok_def status_ok_def scan_start_def)
qed

lemma owed_scan_start: "owed d (scan_start t) = (if op_src (t_op t) = d then op_num (t_op t) else 0)"
  by (simp add: owed_def scan_start_def)

end
