(* ===== verification/Stack_Steps.thy ===== *)
theory Stack_Steps
  imports Stack_Lf
begin

text \<open>Every step of a lock-free call keeps the invariant and agrees with the atomic stack.\<close>

section \<open>Taking elements\<close>

lemmas step_ok_simps = thread_ok_def taking_ok_def status_ok_def owed_def

lemma goes_on_pure:
  assumes inv: "lf_inv L own k st y" and i: "i < length own" and t: "t = sys_threads y ! i"
    and e: "ev = []" "s' = sys_lf y"
    and owed: "\<And>d. owed d t' = owed d t" and ok: "thread_ok L (own ! i) (sys_lf y) t' (st i)"
  shows "goes_on L k st y (map (Pair i) ev) \<lparr>sys_lf = s', sys_threads = (sys_threads y)[i := t']\<rparr>"
  unfolding e using owed ok t by (intro goes_on_local [OF inv i, where st' = "st i"]) auto

lemma goes_on_fails:
  assumes inv: "lf_inv L own k st y" and i: "i < length own" and t: "t = sys_threads y ! i"
    and e: "ev = [Returned 0 []]" "t' = t\<lparr>t_pc := LfIdle\<rparr>" "s' = sys_lf y"
    and owed: "\<And>d. owed d t = 0" and pc: "t_pc t \<in> taking"
  shows "goes_on L k st y (map (Pair i) ev) \<lparr>sys_lf = s', sys_threads = (sys_threads y)[i := t']\<rparr>"
  unfolding e
proof (rule goes_on_local [OF inv i, where st' = LfOut])
  have ok: "thread_ok L (own ! i) (sys_lf y) t (st i)" using inv_thread [OF inv i] t by simp
  then show "thread_ok L (own ! i) (sys_lf y) (t\<lparr>t_pc := LfIdle\<rparr>) LfOut"
    using pc by (cases "t_op t") (auto simp: step_ok_simps split: if_splits)
  have "st i = Pending (t_op t)" using ok pc by (cases "t_op t") (auto simp: step_ok_simps)
  then show "lin_run (map (Pair i) [Returned 0 []]) (data_of (lf_elems (sys_lf y)) (L Used), st)
      = Some (data_of (lf_elems (sys_lf y)) (L Used), st(i := LfOut))" by simp
qed (use owed t in \<open>simp add: owed_def\<close>)

lemma LenRead_goes_on:
  assumes inv: "lf_inv L own k st y" and i: "i < length own" and t: "t = sys_threads y ! i"
    and pc: "t_pc t = LenRead" and e: "pop_elems_step False t (sys_lf y) = (ev, t', s')"
  shows "goes_on L k st y (map (Pair i) ev) \<lparr>sys_lf = s', sys_threads = (sys_threads y)[i := t']\<rparr>"
proof -
  have ok: "thread_ok L (own ! i) (sys_lf y) t (st i)" using inv_thread [OF inv i] t by simp
  show ?thesis
  proof (cases "unat (lf_len (op_src (t_op t)) (sys_lf y)) < op_num (t_op t)")
    case True
    then show ?thesis using e pc
      by (intro goes_on_fails [OF inv i t]) (simp_all add: pop_elems_step_def owed_def)
  next
    case False
    then show ?thesis using e pc ok
      by (intro goes_on_pure [OF inv i t]) (auto simp: pop_elems_step_def step_ok_simps split: lf_op.splits)
  qed
qed

lemma TopRead_goes_on:
  assumes inv: "lf_inv L own k st y" and i: "i < length own" and t: "t = sys_threads y ! i"
    and pc: "t_pc t = TopRead" and e: "pop_elems_step False t (sys_lf y) = (ev, t', s')"
  shows "goes_on L k st y (map (Pair i) ev) \<lparr>sys_lf = s', sys_threads = (sys_threads y)[i := t']\<rparr>"
  using e pc inv_thread [OF inv i] inv_list(3) [OF inv] t
  by (intro goes_on_pure [OF inv i t]) (auto simp: pop_elems_step_def step_ok_simps split: lf_op.splits)

lemma CntRead_goes_on:
  assumes inv: "lf_inv L own k st y" and i: "i < length own" and t: "t = sys_threads y ! i"
    and pc: "t_pc t = CntRead" and e: "pop_elems_step False t (sys_lf y) = (ev, t', s')"
  shows "goes_on L k st y (map (Pair i) ev) \<lparr>sys_lf = s', sys_threads = (sys_threads y)[i := t']\<rparr>"
proof (rule goes_on_pure [OF inv i t])
  have ok: "thread_ok L (own ! i) (sys_lf y) t (st i)" using inv_thread [OF inv i] t by simp
  let ?u = "t\<lparr>t_old := (t_old t)\<lparr>h_cnt := h_cnt (head_of (op_src (t_op t)) (sys_lf y))\<rparr>, t_success := False\<rparr>"
  have t': "t' = scan_start ?u" and "ev = []" "s' = sys_lf y" using e pc by (auto simp: pop_elems_step_def)
  then show "ev = []" "s' = sys_lf y" by simp_all
  show "owed d t' = owed d t" for d unfolding t' owed_scan_start using pc by (simp add: owed_def)
  have "thread_ok L [] (sys_lf y) (scan_start ?u) (st i)"
    using ok pc by (intro scan_start_ok [OF inv]) (auto simp: step_ok_simps split: lf_op.splits)
  then show "thread_ok L (own ! i) (sys_lf y) t' (st i)" using ok pc t' by (simp add: thread_ok_def)
qed

lemma ScanElem_goes_on:
  assumes inv: "lf_inv L own k st y" and i: "i < length own" and t: "t = sys_threads y ! i"
    and pc: "t_pc t = ScanElem" and e: "pop_elems_step False t (sys_lf y) = (ev, t', s')"
  shows "goes_on L k st y (map (Pair i) ev) \<lparr>sys_lf = s', sys_threads = (sys_threads y)[i := t']\<rparr>"
proof -
  let ?s = "sys_lf y" and ?d = "op_src (t_op t)" and ?m = "lf_elems (sys_lf y)"
  have ok: "thread_ok L (own ! i) ?s t (st i)" using inv_thread [OF inv i] t by simp
  then have tk: "own ! i = []" "taking_ok L ?s t" "0 < op_num (t_op t)" "st i = Pending (t_op t)"
    using pc by (auto simp: step_ok_simps split: lf_op.splits)
  show ?thesis
  proof (cases "t_i t < op_num (t_op t) \<and> t_tmp t \<noteq> None")
    case True
    then obtain p where p: "t_tmp t = Some p" "p < length ?m"
      using tk(2) pc by (auto simp: taking_ok_def ptr_ok_def)
    define u where "u = t\<lparr>t_pc := ScanNext, t_last := Some p,
        t_objs := (case t_op t of LfPush _ \<Rightarrow> [] | LfPop _ \<Rightarrow> take (t_i t) (t_objs t) @ [e_data (?m ! p)])\<rparr>"
    have u: "t' = u" "ev = []" "s' = ?s" using e pc True p by (auto simp: pop_elems_step_def u_def)
    have "scanned (L ?d) ?s u" if "t_old t = head_of ?d ?s"
    proof -
      have sc: "scanned (L ?d) ?s t" using tk(2) pc that by (auto simp: taking_ok_def)
      then have le: "t_i t < length (L ?d)" using p(1) pc
        by (cases "t_i t < length (L ?d)") (auto simp: scanned_def Let_def)
      then have hd: "p = L ?d ! t_i t"
        using sc p(1) pc lseg_drop_Suc [of ?m "t_tmp t" "t_i t" "L ?d" None] by (auto simp: scanned_def Let_def)
      have "take (t_i t) (t_objs t) = data_of ?m (take (t_i t) (L ?d))" if "t_op t = LfPop n" for n
        using sc that le pc by (cases "t_i t = 0") (auto simp: scanned_def Let_def)
      then show ?thesis using le hd True p(1)
        by (auto simp: scanned_def Let_def u_def take_Suc_conv_app_nth)
    qed
    then show ?thesis using tk pc True p
      by (intro goes_on_pure [OF inv i t u(2,3)], unfold u(1))
        (auto simp: u_def step_ok_simps ptr_ok_def split: lf_op.splits)
  next
    case False
    then have st: "scan_end t = (ev, t')" "s' = ?s"
      using e pc by (auto simp: pop_elems_step_def split: option.splits prod.splits)
    show ?thesis
    proof (cases "t_i t = op_num (t_op t)")
      case True
      then have "ev = []" and t': "t' = t\<lparr>t_pc := HeadCas\<rparr>" using st by (auto simp: scan_end_def)
      moreover have "scanned (L ?d) ?s t \<Longrightarrow> scanned (L ?d) ?s t'" using pc t' by (simp add: scanned_def Let_def)
      ultimately show ?thesis using tk pc True st(2)
        by (intro goes_on_pure [OF inv i t]) (auto simp: step_ok_simps split: lf_op.splits)
    next
      case False
      then have "ev = []" and t': "t' = scan_start t" using st tk(2) pc by (auto simp: scan_end_def taking_ok_def)
      moreover have "thread_ok L [] ?s (scan_start t) (st i)"
        using tk pc by (intro scan_start_ok [OF inv]) (auto simp: taking_ok_def)
      ultimately show ?thesis using tk pc st(2)
        by (intro goes_on_pure [OF inv i t]) (simp_all add: owed_scan_start, simp add: owed_def)
    qed
  qed
qed

lemma ScanNext_goes_on:
  assumes inv: "lf_inv L own k st y" and i: "i < length own" and t: "t = sys_threads y ! i"
    and pc: "t_pc t = ScanNext" and e: "pop_elems_step False t (sys_lf y) = (ev, t', s')"
  shows "goes_on L k st y (map (Pair i) ev) \<lparr>sys_lf = s', sys_threads = (sys_threads y)[i := t']\<rparr>"
proof -
  let ?s = "sys_lf y" and ?d = "op_src (t_op t)" and ?m = "lf_elems (sys_lf y)"
  have ok: "thread_ok L (own ! i) ?s t (st i)" using inv_thread [OF inv i] t by simp
  then have tk: "own ! i = []" "taking_ok L ?s t" "0 < op_num (t_op t)" "st i = Pending (t_op t)"
    using pc by (auto simp: step_ok_simps split: lf_op.splits)
  then obtain p where p: "t_tmp t = Some p" "p < length ?m" "t_i t < op_num (t_op t)"
    using pc by (auto simp: taking_ok_def ptr_ok_def)
  define u where "u = t\<lparr>t_pc := ScanElem, t_i := Suc (t_i t), t_tmp := e_next (?m ! p)\<rparr>"
  have u: "t' = u" "ev = []" "s' = ?s" using e pc p by (auto simp: pop_elems_step_def u_def)
  have next_ok: "ptr_ok ?s (e_next (?m ! p))" using inv p(2) by (simp add: lf_inv_def lists_ok_def)
  have "scanned (L ?d) ?s u" if "t_old t = head_of ?d ?s"
  proof -
    have sc: "scanned (L ?d) ?s t" using tk(2) pc that by (auto simp: taking_ok_def)
    then have le: "t_i t < length (L ?d)" "p = L ?d ! t_i t" using p(1) pc by (auto simp: scanned_def Let_def)
    then have "lseg ?m (e_next (?m ! p)) (drop (Suc (t_i t)) (L ?d)) None"
      using lseg_nth [OF inv_list(1) [OF inv], of "t_i t" ?d]
        lseg_drop_Suc [of ?m "Some p" "t_i t" "L ?d" None] by simp
    then show ?thesis using sc le p pc by (auto simp: scanned_def Let_def u_def)
  qed
  then show ?thesis using tk pc p next_ok
    by (intro goes_on_pure [OF inv i t u(2,3)], unfold u(1))
      (auto simp: u_def step_ok_simps split: lf_op.splits)
qed

lemma lseg_start: "lseg m p xs q \<Longrightarrow> lseg m r xs q \<Longrightarrow> p = r"
  by (cases xs) auto

lemma unat_cnt_Suc: "unat (c :: u64) \<le> k \<Longrightarrow> Suc k < 2 ^ 64 \<Longrightarrow> unat (c + 1) = Suc (unat c)"
  by (simp add: unat_word_ariths)

lemma scanned_prefix:
  assumes "lseg m (h_top h) xs None" "m = lf_elems s" "scanned xs s t"
    "t_pc t = HeadCas" "t_i t = op_num (t_op t)" "0 < op_num (t_op t)"
  shows "op_num (t_op t) \<le> length xs" "take (op_num (t_op t)) xs \<noteq> []"
    "lseg m (h_top h) (take (op_num (t_op t)) xs) (t_tmp t)" "h_top h \<noteq> None"
    "lseg m (t_tmp t) (drop (op_num (t_op t)) xs) None"
    "t_last t = Some (last (take (op_num (t_op t)) xs))"
    "t_op t = LfPop n \<Longrightarrow> t_objs t = data_of m (take (op_num (t_op t)) xs)"
proof -
  let ?n = "op_num (t_op t)"
  have sc: "?n \<le> length xs" "lseg m (t_tmp t) (drop ?n xs) None" "t_last t = Some (xs ! (?n - 1))"
    "t_op t = LfPop n \<Longrightarrow> t_objs t = data_of m (take ?n xs)" for n
    using assms by (auto simp: scanned_def Let_def)
  show "?n \<le> length xs" and ne: "take ?n xs \<noteq> []" and "lseg m (t_tmp t) (drop ?n xs) None"
    using sc(1,2) assms(6) by auto
  have "lseg m (h_top h) (take ?n xs @ drop ?n xs) None" using assms(1) by simp
  then show *: "lseg m (h_top h) (take ?n xs) (t_tmp t)"
    using sc(2) lseg_start unfolding lseg_append by metis
  show "h_top h \<noteq> None" using * ne by (cases "take ?n xs") auto
  have "last (take ?n xs) = xs ! (?n - 1)" using ne sc(1) by (simp add: last_conv_nth min_def)
  then show "t_last t = Some (last (take ?n xs))" using sc(3) by simp
  show "t_op t = LfPop n \<Longrightarrow> t_objs t = data_of m (take ?n xs)" by (rule sc(4))
qed

text \<open>The exchange of the head succeeds: the prefix read becomes the thread's.\<close>

lemma lists_ok_take:
  assumes ok: "lists_ok L own k s" and i: "i < length own" and o: "own ! i = []"
    and k: "Suc k < 2 ^ 64" and l: "lseg (lf_elems s) p (drop n (L d)) None"
  shows "lists_ok (L(d := drop n (L d))) (own[i := take n (L d)]) (Suc k)
    (set_head d \<lparr>h_top = p, h_cnt = h_cnt (head_of d s) + 1\<rparr> s)"
proof -
  have "mset (L d) = mset (take n (L d)) + mset (drop n (L d))" by (metis append_take_drop_id mset_append)
  then have "mset ((L(d := drop n (L d))) Used) + mset ((L(d := drop n (L d))) Free)
      + mset (concat (own[i := take n (L d)])) = mset (L Used) + mset (L Free) + mset (concat own)"
    using mset_concat_update [OF i, of "take n (L d)"] o by (cases d) (simp_all add: ac_simps)
  then show ?thesis using ok k l unat_cnt_Suc [of "h_cnt (head_of d s)" k]
    unfolding lists_ok_def by (auto intro: le_SucI)
qed

lemma HeadCas_goes_on:
  assumes inv: "lf_inv L own k st y" and i: "i < length own" and t: "t = sys_threads y ! i"
    and pc: "t_pc t = HeadCas" and e: "pop_elems_step False t (sys_lf y) = (ev, t', s')" and k: "Suc k < 2 ^ 64"
  shows "goes_on L k st y (map (Pair i) ev) \<lparr>sys_lf = s', sys_threads = (sys_threads y)[i := t']\<rparr>"
proof -
  let ?s = "sys_lf y" and ?d = "op_src (t_op t)" and ?m = "lf_elems (sys_lf y)" and ?n = "op_num (t_op t)"
  have ok: "thread_ok L (own ! i) ?s t (st i)" using inv_thread [OF inv i] t by simp
  then have tk: "own ! i = []" "taking_ok L ?s t" "0 < ?n" "st i = Pending (t_op t)"
    using pc by (auto simp: step_ok_simps split: lf_op.splits)
  show ?thesis
  proof (cases "t_old t = head_of ?d ?s")
    case False
    let ?u = "t\<lparr>t_old := head_of ?d ?s, t_success := False\<rparr>"
    have "ev = []" "t' = scan_start ?u" "s' = ?s"
      using e pc False by (auto simp: pop_elems_step_def rte_atomic128_cmp_exchange_def)
    moreover have "thread_ok L [] ?s (scan_start ?u) (st i)"
      using tk inv_list(3) [OF inv] by (intro scan_start_ok [OF inv]) auto
    ultimately show ?thesis using tk pc
      by (intro goes_on_pure [OF inv i t]) (simp_all add: owed_scan_start, simp add: owed_def)
  next
    case True
    have "scanned (L ?d) ?s t" "t_i t = ?n" using tk(2) pc True by (auto simp: taking_ok_def)
    note pre = scanned_prefix [OF inv_list(1) [OF inv] refl this(1) pc this(2) tk(3)]
    let ?o = "take ?n (L ?d)" and ?L = "L(?d := drop ?n (L ?d))"
      and ?s' = "set_head ?d \<lparr>h_top = t_tmp t, h_cnt = h_cnt (head_of ?d ?s) + 1\<rparr> ?s"
    obtain p where p: "h_top (head_of ?d ?s) = Some p" using pre(4) by auto
    define ev' where "ev' = (case t_op t of LfPush _ \<Rightarrow> [] | LfPop _ \<Rightarrow> [PoppedAt (t_objs t)])"
    define u where "u = (case t_op t of
        LfPush _ \<Rightarrow> t\<lparr>t_first := Some p, t_pc := FillElem, t_i := 0, t_tmp := Some p\<rparr>
      | LfPop _ \<Rightarrow> t\<lparr>t_first := Some p, t_pc := LinkTop\<rparr>)"
    define st' where "st' = (case t_op t of LfPush _ \<Rightarrow> st i | LfPop _ \<Rightarrow> Took ?n (t_objs t))"
    have eqs: "ev = ev'" "t' = u" "s' = ?s'"
      using e pc True p by (auto simp: pop_elems_step_def rte_atomic128_cmp_exchange_def elems_taken_def
          ev'_def u_def split: lf_op.splits)
    have u: "t_first u = Some p" "t_op u = t_op t" "t_last u = t_last t" "t_objs u = t_objs t"
      "t_pc u = (case t_op t of LfPush _ \<Rightarrow> FillElem | LfPop _ \<Rightarrow> LinkTop)"
      "\<And>objs. t_op t = LfPush objs \<Longrightarrow> t_i u = 0 \<and> t_tmp u = Some p"
      by (auto simp: u_def split: lf_op.splits)
    have "ptr_ok ?s (t_tmp t)" using tk(2) pc by (auto simp: taking_ok_def)
    then have "giving_ok ?o ?s' u" using pre p u
      by (auto simp: giving_ok_def min_def split: lf_op.splits)
    then have tok: "thread_ok ?L ?o ?s' u st'" using tk(3,4) u(2,4,5)
      by (cases "t_op t") (simp_all add: thread_ok_def status_ok_def st'_def)
    have cnt: "unat (h_cnt (head_of ?d ?s) + 1) = Suc (unat (h_cnt (head_of ?d ?s)))"
      by (rule unat_cnt_Suc [OF inv_list(2) [OF inv] k])
    have inv': "lf_inv ?L (own[i := ?o]) (Suc k) (st(i := st')) \<lparr>sys_lf = ?s', sys_threads = (sys_threads y)[i := u]\<rparr>"
    proof (rule lf_inv_update [OF inv i _ _ _ _ tok])
      show "lists_ok ?L (own[i := ?o]) (Suc k) ?s'"
        using inv by (intro lists_ok_take i tk(1) k pre(5)) (simp add: lf_inv_def)
      show "length (?L d) + owed d (sys_threads y ! i) + unat (lf_len d ?s)
          = length (L d) + owed d u + unat (lf_len d ?s')" for d
        using pc t u(2,5) pre(1) by (cases "t_op t") (auto simp: owed_def)
      show "same_memory L ?s ?L ?s'" using cnt by (auto simp: same_memory_def)
    qed simp
    have lin: "lin_run (map (Pair i) ev') (data_of ?m (L Used), st)
        = Some (data_of ?m (?L Used), st(i := st'))"
    proof (cases "t_op t")
      case (LfPop n)
      have len: "length (t_objs t) = unat n" "unat n \<le> length (L Used)"
        and tko: "take (unat n) (data_of ?m (L Used)) = t_objs t"
        using pre(1) pre(7) [OF LfPop] LfPop by (simp_all add: take_data_of)
      have "st i = Pending (LfPop n)" "?d = Used" "?n = unat n" using tk(4) LfPop by simp_all
      then show ?thesis unfolding ev'_def st'_def LfPop using len tko by (simp add: drop_data_of)
    qed (use tk(4) in \<open>auto simp: ev'_def st'_def\<close>)
    show ?thesis unfolding eqs by (rule goes_onI [OF inv']) (simp add: lin)
  qed
qed

lemma same_memory_heads:
  "(\<And>d. head_of d s' = head_of d s) \<Longrightarrow> length (lf_elems s') = length (lf_elems s)
    \<Longrightarrow> (\<And>d x. x \<in> set (L d) \<Longrightarrow> lf_elems s' ! x = lf_elems s ! x) \<Longrightarrow> same_memory L s L s'"
  by (simp add: same_memory_def)

lemma goes_on_own:
  assumes inv: "lf_inv L own k st y" and i: "i < length own"
    and heads: "\<And>d. head_of d s' = head_of d (sys_lf y)"
    and leng: "length (lf_elems s') = length (lf_elems (sys_lf y))"
    and mem: "\<And>x. x \<notin> set (own ! i) \<Longrightarrow> lf_elems s' ! x = lf_elems (sys_lf y) ! x"
    and nexts: "\<And>x. x \<in> set (own ! i) \<Longrightarrow> ptr_ok s' (e_next (lf_elems s' ! x))"
    and len: "\<And>d. owed d (sys_threads y ! i) + unat (lf_len d (sys_lf y)) = owed d t' + unat (lf_len d s')"
    and ok: "thread_ok L (own ! i) s' t' st'"
    and ev: "lin_run ev (data_of (lf_elems (sys_lf y)) (L Used), st)
      = Some (data_of (lf_elems (sys_lf y)) (L Used), st(i := st'))"
  shows "goes_on L k st y ev \<lparr>sys_lf = s', sys_threads = (sys_threads y)[i := t']\<rparr>"
proof -
  let ?s = "sys_lf y"
  have l: "lists_ok L own k ?s" using inv by (simp add: lf_inv_def)
  note ap = owned_apart [OF l i]
  have out: "lf_elems s' ! x = lf_elems ?s ! x" if "x \<in> set (L d)" for d x
    using ap(2) [of d] that by (intro mem) blast
  have "lseg (lf_elems s') (h_top (head_of d s')) (L d) None" for d
    using l out heads leng by (subst lseg_cong [where m = "lf_elems ?s"]) (auto simp: lists_ok_def)
  moreover have "ptr_ok s' (e_next (lf_elems s' ! x))" if "x < length (lf_elems ?s)" for x
    using l that mem nexts ptr_ok_length [OF leng] by (cases "x \<in> set (own ! i)") (auto simp: lists_ok_def)
  ultimately have "lists_ok L (own[i := own ! i]) (Suc k) s'"
    using l heads leng by (auto simp: lists_ok_def intro: le_SucI)
  then have "lf_inv L (own[i := own ! i]) (Suc k) (st(i := st')) \<lparr>sys_lf = s', sys_threads = (sys_threads y)[i := t']\<rparr>"
  proof (rule lf_inv_update [OF inv i])
    show "same_memory L ?s L s'" using heads leng out by (intro same_memory_heads)
    show "lf_elems s' ! x = lf_elems ?s ! x" if "j < length own" "j \<noteq> i" "x \<in> set (own ! j)" for j x
      using ap(3) [of j] that by (intro mem) blast
  qed (use len ok in auto)
  moreover have "data_of (lf_elems s') (L Used) = data_of (lf_elems ?s) (L Used)"
    using out by (intro data_of_cong)
  ultimately show ?thesis using ev unfolding goes_on_def by auto
qed

lemma LenCas_goes_on:
  assumes inv: "lf_inv L own k st y" and i: "i < length own" and t: "t = sys_threads y ! i"
    and pc: "t_pc t = LenCas" and e: "pop_elems_step False t (sys_lf y) = (ev, t', s')"
  shows "goes_on L k st y (map (Pair i) ev) \<lparr>sys_lf = s', sys_threads = (sys_threads y)[i := t']\<rparr>"
proof -
  let ?s = "sys_lf y" and ?d = "op_src (t_op t)" and ?n = "op_num (t_op t)"
  have ok: "thread_ok L (own ! i) ?s t (st i)" using inv_thread [OF inv i] t by simp
  then have tk: "own ! i = []" "taking_ok L ?s t" "0 < ?n" "st i = Pending (t_op t)" "?n \<le> unat (t_len t)"
    using pc by (auto simp: step_ok_simps split: lf_op.splits)
  show ?thesis
  proof (cases "lf_len ?d ?s = t_len t")
    case False
    then show ?thesis using e pc ok
      by (intro goes_on_pure [OF inv i t]) (auto simp: pop_elems_step_def step_ok_simps split: lf_op.splits)
  next
    case True
    then have eqs: "ev = []" "t' = t\<lparr>t_pc := TopRead\<rparr>" "s' = set_len ?d (t_len t - of_nat ?n) ?s"
      using e pc by (simp_all add: pop_elems_step_def)
    have "?n < 2 ^ 64" using tk(5) unat_lt2p [of "t_len t"] by simp
    then have "unat (of_nat ?n :: u64) = ?n" by (intro unat_of_nat_small) simp
    then have sub: "unat (t_len t - of_nat ?n) = unat (t_len t) - ?n" using tk(5) unat_sub_add_le [of "of_nat ?n" "t_len t"] by simp
    show ?thesis unfolding eqs using tk pc t True sub
      by (intro goes_on_own [OF inv i, where st' = "st i"])
        (auto simp: step_ok_simps split: lf_op.splits)
  qed
qed

section \<open>Storing objects and giving elements\<close>

lemma giving_thread:
  assumes "thread_ok L own s t st" "t_pc t \<in> giving"
  shows "giving_ok own s t" "0 < op_num (t_op t)" "own \<noteq> []"
    "st = (case t_op t of LfPush _ \<Rightarrow> Pending (t_op t) | LfPop n \<Rightarrow> Took (unat n) (t_objs t))"
proof -
  show g: "giving_ok own s t" and n: "0 < op_num (t_op t)"
    using assms unfolding thread_ok_def by (simp_all split: if_splits) auto
  then show "own \<noteq> []" by (auto simp: giving_ok_def)
  have "status_ok t st" using assms(1) by (simp add: thread_ok_def)
  then show "st = (case t_op t of LfPush _ \<Rightarrow> Pending (t_op t) | LfPop n \<Rightarrow> Took (unat n) (t_objs t))"
    using assms(2) by (cases "t_op t") (auto simp: status_ok_def)
qed

lemma FillElem_goes_on:
  assumes inv: "lf_inv L own k st y" and i: "i < length own" and t: "t = sys_threads y ! i"
    and pc: "t_pc t = FillElem" and e: "fill_step t (sys_lf y) = (t', s')"
  shows "goes_on L k st y [] \<lparr>sys_lf = s', sys_threads = (sys_threads y)[i := t']\<rparr>"
proof -
  let ?s = "sys_lf y" and ?o = "own ! i" and ?m = "lf_elems (sys_lf y)"
  have ok: "thread_ok L ?o ?s t (st i)" using inv_thread [OF inv i] t by simp
  have "t_pc t \<in> giving" using pc by simp
  note g = giving_thread [OF ok this]
  obtain q objs where q: "lseg ?m (t_first t) ?o q" "ptr_ok ?s q" "length ?o = length objs" "t_last t = Some (last ?o)"
    "t_op t = LfPush objs" "t_i t \<le> length ?o" "lseg ?m (t_tmp t) (drop (t_i t) ?o) q"
    "data_of ?m (take (t_i t) ?o) = take (t_i t) (rev objs)"
    using g(1) pc by (auto simp: giving_ok_def)
  show ?thesis
  proof (cases "t_i t < length objs")
    case False
    then have eqs: "t' = t\<lparr>t_pc := LinkTop\<rparr>" "s' = ?s" using e q(5) by (simp_all add: fill_step_def)
    have "giving_ok ?o ?s t'" unfolding giving_ok_def eqs using q False by (intro exI [of _ q]) auto
    then show ?thesis using ok pc t q(5) eqs
      by (intro goes_on_pure [OF inv i t, where ev = "[]", simplified])
        (auto simp: thread_ok_def status_ok_def owed_def)
  next
    case True
    let ?x = "?o ! t_i t" and ?v = "objs ! (length objs - t_i t - 1)"
    have lt: "t_i t < length ?o" using True q(3) by simp
    note x = lseg_drop_Suc [OF q(7) lt]
    have eqs: "t' = t\<lparr>t_i := Suc (t_i t), t_tmp := e_next (?m ! ?x)\<rparr>" "s' = set_data ?x ?v ?s"
      using e q(5) True x by (simp_all add: fill_step_def)
    have dist: "distinct ?o" using owned_apart(1) [OF _ i] inv by (auto simp: lf_inv_def)
    let ?m' = "lf_elems s'"
    have m': "?m' = ?m[?x := (?m ! ?x)\<lparr>e_data := ?v\<rparr>]" by (simp add: eqs set_data_def)
    have nx: "e_next (?m' ! z) = e_next (?m ! z)" for z using x by (cases "z = ?x") (simp_all add: m')
    have seg: "lseg ?m' p zs r = lseg ?m p zs r" for p zs r by (intro lseg_cong) (simp_all add: nx, simp add: m')
    have "data_of ?m' (take (t_i t) ?o) = data_of ?m (take (t_i t) ?o)"
    proof (rule data_of_cong)
      fix z assume "z \<in> set (take (t_i t) ?o)"
      then have "z \<noteq> ?x" using dist lt by (auto simp: in_set_conv_nth nth_eq_iff_index_eq)
      then show "?m' ! z = ?m ! z" by (simp add: m')
    qed
    then have "data_of ?m' (take (Suc (t_i t)) ?o) = take (Suc (t_i t)) (rev objs)"
      using q(8) lt True x by (simp add: take_Suc_conv_app_nth rev_nth m')
    then have "giving_ok ?o s' t'"
      unfolding giving_ok_def using q x True pc seg
      by (intro exI [of _ q]) (simp add: eqs(1) ptr_ok_length [of s' ?s] m')
    then have "thread_ok L ?o s' t' (st i)"
      using ok pc by (simp add: thread_ok_def eqs(1) status_ok_def q(5))
    moreover have "ptr_ok s' (e_next (?m' ! z))" if "z \<in> set ?o" for z
    proof -
      have "z < length ?m" using lseg_in [OF q(1) that] .
      then show ?thesis using inv nx ptr_ok_length [of s' ?s] m' by (simp add: lf_inv_def lists_ok_def)
    qed
    moreover have "?m' ! z = ?m ! z" if "z \<notin> set ?o" for z
      using that lt nth_mem by (metis m' nth_list_update_neq)
    ultimately show ?thesis using pc t
      by (intro goes_on_own [OF inv i, where st' = "st i"]) (simp_all add: eqs owed_def)
  qed
qed

lemma giving_ok_pc:
  assumes "giving_ok own s t" "t_pc t \<in> giving" "t' = t\<lparr>t_pc := pc', t_old := old\<rparr>"
    "pc' \<in> {LinkTop, LinkCnt, LinkNext}" "t_pc t = FillElem \<Longrightarrow> t_i t = length own"
    "pc' \<in> {LinkCnt, LinkNext} \<Longrightarrow> ptr_ok s (h_top old)"
  shows "giving_ok own s t'"
proof -
  obtain q where q: "lseg (lf_elems s) (t_first t) own q" "ptr_ok s q" "length own = op_num (t_op t)"
    "t_last t = Some (last own)"
    "\<And>objs. t_op t = LfPush objs \<Longrightarrow>
        data_of (lf_elems s) (take (if t_pc t = FillElem then t_i t else length own) own)
          = take (if t_pc t = FillElem then t_i t else length own) (rev objs)"
    using assms(1) unfolding giving_ok_def by blast
  have "(if t_pc t = FillElem then t_i t else length own) = length own" using assms(5) by simp
  moreover have "pc' \<noteq> FillElem" "pc' \<noteq> LinkCas" "pc' = LinkCnt \<or> pc' = LinkNext \<Longrightarrow> ptr_ok s (h_top old)"
    using assms(4,6) by auto
  ultimately show ?thesis unfolding giving_ok_def assms(3) using q by (intro exI [of _ q]) simp
qed

lemma Link_goes_on:
  assumes inv: "lf_inv L own k st y" and i: "i < length own" and t: "t = sys_threads y ! i"
    and pc: "t_pc t \<in> giving" "pc' \<in> {LinkCnt, LinkNext}" "t_pc t \<noteq> FillElem"
    and old: "ptr_ok (sys_lf y) (h_top old)"
  shows "goes_on L k st y (map (Pair i) [])
    \<lparr>sys_lf = sys_lf y, sys_threads = (sys_threads y)[i := t\<lparr>t_pc := pc', t_old := old\<rparr>]\<rparr>"
proof (rule goes_on_pure [OF inv i t refl refl])
  have ok: "thread_ok L (own ! i) (sys_lf y) t (st i)" using inv_thread [OF inv i] t by simp
  note g = giving_thread [OF ok pc(1)]
  have "giving_ok (own ! i) (sys_lf y) (t\<lparr>t_pc := pc', t_old := old\<rparr>)"
    using pc old by (intro giving_ok_pc [OF g(1) pc(1) refl]) auto
  then show "thread_ok L (own ! i) (sys_lf y) (t\<lparr>t_pc := pc', t_old := old\<rparr>) (st i)"
    using g(2,4) pc(2) by (cases "t_op t") (auto simp: thread_ok_def status_ok_def)
  show "owed d (t\<lparr>t_pc := pc', t_old := old\<rparr>) = owed d t" for d using pc by (auto simp: owed_def)
qed

lemma LinkNext_goes_on:
  assumes inv: "lf_inv L own k st y" and i: "i < length own" and t: "t = sys_threads y ! i"
    and pc: "t_pc t = LinkNext" and e: "push_elems_step t (sys_lf y) = (ev, t', s')"
  shows "goes_on L k st y (map (Pair i) ev) \<lparr>sys_lf = s', sys_threads = (sys_threads y)[i := t']\<rparr>"
proof -
  let ?s = "sys_lf y" and ?o = "own ! i" and ?m = "lf_elems (sys_lf y)" and ?x = "last (own ! i)"
    and ?r = "h_top (t_old t)"
  have ok: "thread_ok L ?o ?s t (st i)" using inv_thread [OF inv i] t by simp
  have "t_pc t \<in> giving" using pc by simp
  note g = giving_thread [OF ok this]
  obtain q where q: "lseg ?m (t_first t) ?o q" "length ?o = op_num (t_op t)" "t_last t = Some ?x" "ptr_ok ?s ?r"
    "\<And>objs. t_op t = LfPush objs \<Longrightarrow> data_of ?m ?o = rev objs"
    using g(1) pc by (auto simp: giving_ok_def)
  have x: "?x \<in> set ?o" using g(3) by simp
  then have lt: "?x < length ?m" using lseg_in [OF q(1)] by simp
  have eqs: "ev = []" "t' = t\<lparr>t_pc := LinkCas\<rparr>" "s' = set_next ?x ?r ?s"
    using e pc q(3) lt by (simp_all add: push_elems_step_def)
  have m': "lf_elems s' = ?m[?x := (?m ! ?x)\<lparr>e_next := ?r\<rparr>]" by (simp add: eqs set_next_def)
  have "distinct ?o" using owned_apart(1) [OF _ i] inv by (auto simp: lf_inv_def)
  then have seg: "lseg (lf_elems s') (t_first t) ?o ?r" using lseg_relink [OF q(1) g(3)] m' by simp
  have data: "e_data (lf_elems s' ! z) = e_data (?m ! z)" for z using lt by (cases "z = ?x") (simp_all add: m')
  then have "data_of (lf_elems s') zs = data_of ?m zs" for zs by (simp add: data_of_def)
  then have "giving_ok ?o s' t'"
    unfolding giving_ok_def using seg q by (intro exI [of _ ?r]) (simp add: eqs)
  then have "thread_ok L ?o s' t' (st i)" using g(2,4) by (cases "t_op t") (simp_all add: thread_ok_def status_ok_def eqs)
  moreover have "ptr_ok s' (e_next (lf_elems s' ! z))" if "z \<in> set ?o" for z
  proof (cases "z = ?x")
    case True
    then show ?thesis using lt q(4) m' by (simp add: eqs)
  next
    case False
    then show ?thesis using inv lseg_in [OF q(1) that] m' by (simp add: eqs lf_inv_def lists_ok_def)
  qed
  moreover have "lf_elems s' ! z = ?m ! z" if "z \<notin> set ?o" for z
    using that x by (metis m' nth_list_update_neq)
  ultimately show ?thesis unfolding eqs(1) using pc t
    by (intro goes_on_own [OF inv i, where st' = "st i"]) (simp_all add: eqs owed_def)
qed

text \<open>The exchange succeeds: the thread's segment is now at the head of the list.\<close>

lemma lists_ok_give:
  assumes ok: "lists_ok L own k s" and i: "i < length own" and o: "own ! i = o'"
    and k: "Suc k < 2 ^ 64" and l: "lseg (lf_elems s) p o' (h_top (head_of d s))"
  shows "lists_ok (L(d := o' @ L d)) (own[i := []]) (Suc k)
    (set_head d \<lparr>h_top = p, h_cnt = h_cnt (head_of d s) + 1\<rparr> s)"
proof -
  have "mset ((L(d := o' @ L d)) Used) + mset ((L(d := o' @ L d)) Free) + mset (concat (own[i := []]))
      = mset (L Used) + mset (L Free) + mset (concat own)"
    using mset_concat_update [OF i, of "[]"] o by (cases d) (simp_all add: ac_simps)
  moreover have "lseg (lf_elems s) p (o' @ L d) None" using ok l by (auto simp: lists_ok_def lseg_append)
  ultimately show ?thesis using ok k unat_cnt_Suc [of "h_cnt (head_of d s)" k]
    unfolding lists_ok_def by (auto intro: le_SucI)
qed

lemma LinkCas_goes_on:
  assumes inv: "lf_inv L own k st y" and i: "i < length own" and t: "t = sys_threads y ! i"
    and pc: "t_pc t = LinkCas" and e: "push_elems_step t (sys_lf y) = (ev, t', s')" and k: "Suc k < 2 ^ 64"
  shows "goes_on L k st y (map (Pair i) ev) \<lparr>sys_lf = s', sys_threads = (sys_threads y)[i := t']\<rparr>"
proof -
  let ?s = "sys_lf y" and ?o = "own ! i" and ?m = "lf_elems (sys_lf y)" and ?d = "op_dst (t_op t)"
  have ok: "thread_ok L ?o ?s t (st i)" using inv_thread [OF inv i] t by simp
  have "t_pc t \<in> giving" using pc by simp
  note g = giving_thread [OF ok this]
  show ?thesis
  proof (cases "t_old t = head_of ?d ?s")
    case False
    then have "ev = []" "t' = t\<lparr>t_pc := LinkNext, t_old := head_of ?d ?s\<rparr>" "s' = ?s"
      using e pc by (auto simp: push_elems_step_def Let_def rte_atomic128_cmp_exchange_def)
    then show ?thesis using Link_goes_on [OF inv i t, of LinkNext] inv_list(3) [OF inv] pc by simp
  next
    case True
    have q: "lseg ?m (t_first t) ?o (h_top (head_of ?d ?s))" "length ?o = op_num (t_op t)"
      "\<And>objs. t_op t = LfPush objs \<Longrightarrow> data_of ?m ?o = rev objs"
      using g(1) pc True by (auto simp: giving_ok_def)
    let ?L = "L(?d := ?o @ L ?d)"
      and ?s' = "set_head ?d \<lparr>h_top = t_first t, h_cnt = h_cnt (head_of ?d ?s) + 1\<rparr> ?s"
    let ?ev = "case t_op t of LfPush objs \<Rightarrow> [PushedAt objs] | LfPop _ \<Rightarrow> []"
      and ?st = "case t_op t of LfPush objs \<Rightarrow> Took (length objs) [] | LfPop n \<Rightarrow> Took (unat n) (t_objs t)"
      and ?t = "t\<lparr>t_pc := LenAdd\<rparr>"
    have eqs: "ev = ?ev" "t' = ?t" "s' = ?s'"
      using e pc True by (auto simp: push_elems_step_def Let_def rte_atomic128_cmp_exchange_def)
    have tok: "thread_ok ?L [] ?s' ?t ?st" using g(2)
      by (cases "t_op t") (simp_all add: thread_ok_def taking_ok_def status_ok_def)
    have cnt: "unat (h_cnt (head_of ?d ?s) + 1) = Suc (unat (h_cnt (head_of ?d ?s)))"
      by (rule unat_cnt_Suc [OF inv_list(2) [OF inv] k])
    have inv': "lf_inv ?L (own[i := []]) (Suc k) (st(i := ?st)) \<lparr>sys_lf = ?s', sys_threads = (sys_threads y)[i := ?t]\<rparr>"
    proof (rule lf_inv_update [OF inv i _ _ _ _ tok])
      show "lists_ok ?L (own[i := []]) (Suc k) ?s'"
        using inv q(1) by (intro lists_ok_give i refl k) (auto simp: lf_inv_def)
      show "length (?L d) + owed d (sys_threads y ! i) + unat (lf_len d ?s)
          = length (L d) + owed d ?t + unat (lf_len d ?s')" for d
        using pc t q(2) by (auto simp: owed_def)
      show "same_memory L ?s ?L ?s'" using cnt by (auto simp: same_memory_def)
    qed simp
    have lin: "lin_run (map (Pair i) ?ev) (data_of ?m (L Used), st) = Some (data_of ?m (?L Used), st(i := ?st))"
      using g(4) q(3) by (cases "t_op t") auto
    show ?thesis unfolding eqs by (rule goes_onI [OF inv']) (simp add: lin)
  qed
qed

lemma LenAdd_goes_on:
  assumes inv: "lf_inv L own k st y" and i: "i < length own" and t: "t = sys_threads y ! i"
    and pc: "t_pc t = LenAdd" and e: "push_elems_step t (sys_lf y) = (ev, t', s')"
  shows "goes_on L k st y (map (Pair i) ev) \<lparr>sys_lf = s', sys_threads = (sys_threads y)[i := t']\<rparr>"
proof -
  let ?s = "sys_lf y" and ?d = "op_dst (t_op t)" and ?n = "op_num (t_op t)"
  have ok: "thread_ok L (own ! i) ?s t (st i)" using inv_thread [OF inv i] t by simp
  then have o: "own ! i = []" using pc by (simp add: thread_ok_def)
  have st: "st i = Took ?n (case t_op t of LfPush _ \<Rightarrow> [] | LfPop _ \<Rightarrow> t_objs t)"
    using ok pc by (cases "t_op t") (auto simp: step_ok_simps)
  have eqs: "ev = [Returned ?n (case t_op t of LfPush _ \<Rightarrow> [] | LfPop _ \<Rightarrow> t_objs t)]"
    "t' = t\<lparr>t_pc := LfIdle\<rparr>" "s' = set_len ?d (lf_len ?d ?s + of_nat ?n) ?s"
    using e pc by (simp_all add: push_elems_step_def Let_def)
  have "unat (lf_len ?d ?s) + ?n < 2 ^ 64"
    using inv_list(5) [OF inv i, of ?d] inv_list(4) [OF inv, of ?d] pc t by (simp add: owed_def)
  then have add: "unat (lf_len ?d ?s + of_nat ?n) = unat (lf_len ?d ?s) + ?n"
    by (simp add: unat_word_ariths unat_of_nat take_bit_nat_eq_self)
  show ?thesis unfolding eqs
  proof (rule goes_on_own [OF inv i, where st' = LfOut])
    show "thread_ok L (own ! i) (set_len ?d (lf_len ?d ?s + of_nat ?n) ?s) (t\<lparr>t_pc := LfIdle\<rparr>) LfOut"
      using o by (cases "t_op t") (simp_all add: step_ok_simps)
  qed (use pc t o add st in \<open>auto simp: owed_def\<close>)
qed

section \<open>Any step\<close>

lemma lf_exec_goes_on:
  assumes inv: "lf_inv L own k st y" and i: "i < length own" and t: "t = sys_threads y ! i"
    and e: "lf_exec False t (sys_lf y) = (ev, t', s')" and k: "Suc k < 2 ^ 64"
    and pc: "t_pc t \<noteq> LfIdle"
  shows "goes_on L k st y (map (Pair i) ev) \<lparr>sys_lf = s', sys_threads = (sys_threads y)[i := t']\<rparr>"
proof -
  have ok: "thread_ok L (own ! i) (sys_lf y) t (st i)" using inv_thread [OF inv i] t by simp
  then have "t_pc t \<noteq> LfFault" by (simp add: thread_ok_def)
  then consider "t_pc t \<in> taking" | "t_pc t = FillElem" | "t_pc t \<in> {LinkTop, LinkCnt}"
    | "t_pc t \<in> {LinkNext, LinkCas, LenAdd}" using pc by (cases "t_pc t") auto
  then show ?thesis
  proof cases
    case 1
    then have "pop_elems_step False t (sys_lf y) = (ev, t', s')" using e by (simp add: lf_exec_def)
    from 1 this show ?thesis
      using LenRead_goes_on [OF inv i t] LenCas_goes_on [OF inv i t] TopRead_goes_on [OF inv i t]
        CntRead_goes_on [OF inv i t] ScanElem_goes_on [OF inv i t] ScanNext_goes_on [OF inv i t]
        HeadCas_goes_on [OF inv i t _ _ k] by (elim insertE) simp_all
  next
    case 2
    then show ?thesis using e FillElem_goes_on [OF inv i t 2] by (auto simp: lf_exec_def split: prod.splits)
  next
    case 3
    then have "push_elems_step t (sys_lf y) = (ev, t', s')" using e by (auto simp: lf_exec_def)
    moreover have "t_pc t = LinkCnt \<Longrightarrow> ptr_ok (sys_lf y) (h_top (t_old t))"
      using ok by (auto simp: thread_ok_def giving_ok_def)
    moreover have "ptr_ok (sys_lf y) (h_top (head_of (op_dst (t_op t)) (sys_lf y)))" by (rule inv_list(3) [OF inv])
    ultimately show ?thesis
      using 3 Link_goes_on [OF inv i t, of LinkCnt "(t_old t)\<lparr>h_top := h_top (head_of (op_dst (t_op t)) (sys_lf y))\<rparr>"]
        Link_goes_on [OF inv i t, of LinkNext "(t_old t)\<lparr>h_cnt := h_cnt (head_of (op_dst (t_op t)) (sys_lf y))\<rparr>"]
      by (auto simp: push_elems_step_def Let_def)
  next
    case 4
    then have "push_elems_step t (sys_lf y) = (ev, t', s')" using e by (auto simp: lf_exec_def)
    from 4 this show ?thesis
      using LinkNext_goes_on [OF inv i t] LinkCas_goes_on [OF inv i t _ _ k] LenAdd_goes_on [OF inv i t]
      by (elim insertE) simp_all
  qed
qed

lemma lf_call_goes_on:
  assumes inv: "lf_inv L own k st y" and i: "i < length own" and t: "t = sys_threads y ! i"
    and e: "lf_call c t = (ev, t')" and pc: "t_pc t = LfIdle"
  shows "goes_on L k st y (map (Pair i) ev) (y\<lparr>sys_threads := (sys_threads y)[i := t']\<rparr>)"
proof -
  have ok: "thread_ok L (own ! i) (sys_lf y) t (st i)" using inv_thread [OF inv i] t by simp
  then have st: "st i = LfOut" "own ! i = []" using pc by (cases "t_op t"; simp add: step_ok_simps)+
  define st' where "st' = (if op_num c = 0 then LfOut else Pending c)"
  have "goes_on L k st y (map (Pair i) ev) \<lparr>sys_lf = sys_lf y, sys_threads = (sys_threads y)[i := t']\<rparr>"
  proof (rule goes_on_local [OF inv i, where st' = st'])
    show "thread_ok L (own ! i) (sys_lf y) t' st'"
    proof (cases "op_num c = 0")
      case True
      then have "t' = t" "st' = st i" using e st by (simp_all add: lf_call_def st'_def)
      then show ?thesis using ok by simp
    next
      case False
      then have "t' = t\<lparr>t_pc := LenRead, t_op := c, t_objs := [], t_last := None\<rparr>" "st' = Pending c"
        using e by (simp_all add: lf_call_def st'_def)
      then show ?thesis using False st(2) by (cases c) (simp_all add: step_ok_simps)
    qed
    show "owed d t' = owed d (sys_threads y ! i)" for d
      using e pc t by (auto simp: lf_call_def owed_def split: if_splits)
    show "lin_run (map (Pair i) ev) (data_of (lf_elems (sys_lf y)) (L Used), st)
        = Some (data_of (lf_elems (sys_lf y)) (L Used), st(i := st'))"
      using e st by (auto simp: lf_call_def st'_def split: if_splits)
  qed
  then show ?thesis by (cases y) simp
qed

lemma lf_step_goes_on:
  assumes inv: "lf_inv L own k st y" and e: "lf_step False a y = (ev, y')" and k: "Suc k < 2 ^ 64"
  shows "goes_on L k st y ev y'"
proof -
  have stay: "goes_on L k st y [] y"
    using inv by (intro goes_onI [of L own]) (auto simp: lf_inv_def lists_ok_mono)
  have n: "length own = length (sys_threads y)" using inv by (simp add: lf_inv_def)
  show ?thesis
  proof (cases a)
    case (Start i c)
    show ?thesis
    proof (cases "i < length (sys_threads y) \<and> t_pc (sys_threads y ! i) = LfIdle")
      case True
      then show ?thesis using e lf_call_goes_on [OF inv _ refl, of i c] n
        by (auto simp: Start split: prod.splits)
    qed (use e stay Start in auto)
  next
    case (Run i)
    show ?thesis
    proof (cases "i < length (sys_threads y) \<and> t_pc (sys_threads y ! i) \<notin> {LfIdle, LfFault}")
      case True
      then show ?thesis using e lf_exec_goes_on [OF inv _ refl _ k, of i] n
        by (auto simp: Run split: prod.splits)
    qed (use e stay Run in auto)
  qed
qed

end
