(* ===== verification/Stack_Props.thy ===== *)
theory Stack_Props
  imports Stack_Steps
begin

text \<open>
  The lock-free stack: every interleaved run from initialisation is a run of an atomic stack
  as long as no call leaves its retry loop on a \<open>success\<close> it never set (\<open>lf_stack_linearizable\<close>); a call that runs alone returns, and fails only when there is no room or too
  little on the stack (\<open>lf_stack_alone\<close>); and the retry without a new head makes a thread spin for ever, or
  returns without having taken anything if the uninitialised \<open>success\<close> is not zero (\<open>lf_pop_spins\<close>,
  \<open>lf_pop_twice\<close>).
\<close>

section \<open>Initialisation\<close>

text \<open>The threads are outside; what their local variables hold does not matter.\<close>

definition outside :: "'a lf_thread \<Rightarrow> 'a lf_thread" where
  "outside t = t\<lparr>t_pc := LfIdle\<rparr>"

definition lf_start :: "'a rte_stack_lf_elem list \<Rightarrow> 'a lf_thread list \<Rightarrow> 'a lf_system" where
  "lf_start elems ts = \<lparr>sys_lf = rte_stack_lf_init (length elems) (lf_zero elems), sys_threads = map outside ts\<rparr>"

lemma lf_zero_simps [simp]:
  "head_of d (lf_zero m) = \<lparr>h_top = None, h_cnt = 0\<rparr>" "lf_len d (lf_zero m) = 0" "lf_elems (lf_zero m) = m"
  by (cases d; simp add: head_of_def lf_len_def lf_zero_def)+

lemma rte_stack_lf_init_list:
  assumes "n \<le> length m" "n < 2 ^ 64"
  defines "s \<equiv> rte_stack_lf_init n (lf_zero m)"
  shows "length (lf_elems s) = length m \<and> lseg (lf_elems s) (h_top (head_of Free s)) (rev [0..<n]) None
    \<and> unat (h_cnt (head_of Free s)) = n \<and> lf_len Free s = of_nat n
    \<and> head_of Used s = \<lparr>h_top = None, h_cnt = 0\<rparr> \<and> lf_len Used s = 0
    \<and> (\<forall>x < n. ptr_ok s (e_next (lf_elems s ! x)))"
  using assms unfolding s_def
proof (induction n)
  case (Suc n)
  let ?s = "rte_stack_lf_init n (lf_zero m)"
  let ?h = "head_of Free ?s"
  have n: "n < length m" "Suc n < 2 ^ 64" using Suc by auto
  have IH: "length (lf_elems ?s) = length m" "lseg (lf_elems ?s) (h_top ?h) (rev [0..<n]) None"
    "unat (h_cnt ?h) = n" "lf_len Free ?s = of_nat n" "head_of Used ?s = \<lparr>h_top = None, h_cnt = 0\<rparr>" "lf_len Used ?s = 0"
    "\<And>x. x < n \<Longrightarrow> ptr_ok ?s (e_next (lf_elems ?s ! x))"
    using Suc by auto
  have m: "lf_elems (set_next n (h_top ?h) ?s) = (lf_elems ?s)[n := (lf_elems ?s ! n)\<lparr>e_next := h_top ?h\<rparr>]"
    by (simp add: set_next_def)
  have "lseg ((lf_elems ?s)[n := (lf_elems ?s ! n)\<lparr>e_next := h_top ?h\<rparr>]) (h_top ?h) (rev [0..<n]) None"
    using IH(2) by (subst lseg_cong [where m = "lf_elems ?s"]) auto
  moreover have "ptr_ok ?s (h_top ?h)" using IH(1,2) n by (cases n) (auto simp: ptr_ok_def)
  moreover have "unat (h_cnt ?h + 1) = Suc n" using unat_cnt_Suc [of "h_cnt ?h" n] IH(3) n(2) by auto
  ultimately show ?case using IH n
    by (auto simp: push_elems_alone_def Let_def m nth_list_update less_Suc_eq)
qed simp_all

lemma owed_outside [simp]: "owed d (outside t) = 0"
  by (simp add: owed_def outside_def)

lemma lf_start_inv:
  assumes "length elems < 2 ^ 64"
  shows "lf_inv (\<lambda>d. if d = Free then rev [0..<length elems] else []) (map (\<lambda>_. []) ts) (length elems)
    (\<lambda>_. LfOut) (lf_start elems ts)"
proof -
  let ?s = "rte_stack_lf_init (length elems) (lf_zero elems)"
  let ?L = "\<lambda>d. if d = Free then rev [0..<length elems] else []"
  note l = rte_stack_lf_init_list [OF le_refl assms]
  have "lseg (lf_elems ?s) (h_top (head_of d ?s)) (?L d) None \<and> unat (h_cnt (head_of d ?s)) \<le> length elems" for d
    using l by (cases d) simp_all
  then have lists: "lists_ok ?L (map (\<lambda>_. []) ts) (length elems) ?s" using l by (simp add: lists_ok_def concat_eq_Nil_conv [THEN iffD2])
  have len: "length (?L d) = unat (lf_len d ?s)" for d
    using l assms unat_of_nat_small [of "length elems", where 'a = 64] by (cases d) simp_all
  have "thread_ok L [] ?s (outside t) LfOut" for L t
    by (cases "t_op t") (simp_all add: step_ok_simps outside_def)
  then show ?thesis
    using l assms lists unfolding lf_inv_def lf_start_def lf_system.simps len by (simp add: comp_def)
qed

section \<open>Linearizability\<close>

lemma lf_run_goes_on:
  assumes "lf_inv L own k st y" "lf_run False as y = (evs, y')" "k + length as < 2 ^ 64"
  shows "\<exists>L' own' st'. lf_inv L' own' (k + length as) st' y'
    \<and> lin_run evs (data_of (lf_elems (sys_lf y)) (L Used), st)
        = Some (data_of (lf_elems (sys_lf y')) (L' Used), st')"
  using assms
proof (induction as arbitrary: L own k st y evs)
  case (Cons a as)
  obtain e1 y1 e2 where e: "lf_step False a y = (e1, y1)" "lf_run False as y1 = (e2, y')" "evs = e1 @ e2"
    using Cons.prems(2) by (auto split: prod.splits)
  have "goes_on L k st y e1 y1" using lf_step_goes_on [OF Cons.prems(1) e(1)] Cons.prems(3) by simp
  then obtain L1 own1 st1 where g: "lf_inv L1 own1 (Suc k) st1 y1"
    "lin_run e1 (data_of (lf_elems (sys_lf y)) (L Used), st) = Some (data_of (lf_elems (sys_lf y1)) (L1 Used), st1)"
    by (auto simp: goes_on_def)
  show ?case using Cons.IH [OF g(1) e(2)] Cons.prems(3) g(2) by (simp add: e(3) lin_run_append)
qed auto

lemma lf_exec_length:
  "lf_exec u t s = (ev, t', s') \<Longrightarrow> length (lf_elems s') = length (lf_elems s)"
  by (auto simp: lf_exec_def pop_elems_step_def push_elems_step_def fill_step_def Let_def
      rte_atomic128_cmp_exchange_def split: if_splits lf_pc.splits option.splits lf_op.splits prod.splits)

lemma lf_step_length:
  "lf_step u a y = (ev, y') \<Longrightarrow> length (lf_elems (sys_lf y')) = length (lf_elems (sys_lf y))"
  by (cases a) (auto split: prod.splits if_splits dest: lf_exec_length)

lemma lf_run_length:
  "lf_run u as y = (evs, y') \<Longrightarrow> length (lf_elems (sys_lf y')) = length (lf_elems (sys_lf y))"
proof (induction as arbitrary: y evs)
  case (Cons a as)
  obtain ev y1 where 1: "lf_step u a y = (ev, y1)" by fastforce
  then obtain evs1 where "lf_run u as y1 = (evs1, y')" using Cons.prems by (auto split: prod.splits)
  then show ?case using Cons.IH lf_step_length [OF 1] by metis
qed simp

text \<open>The objects on the stack, from the top.\<close>

fun lf_walk :: "nat \<Rightarrow> 'a rte_stack_lf_elem list \<Rightarrow> nat option \<Rightarrow> 'a list" where
  "lf_walk (Suc f) m (Some p) = e_data (m ! p) # lf_walk f m (e_next (m ! p))"
| "lf_walk _ _ _ = []"

definition lf_objs :: "lf_side \<Rightarrow> 'a rte_stack_lf \<Rightarrow> 'a list" where
  "lf_objs d s = lf_walk (length (lf_elems s)) (lf_elems s) (h_top (head_of d s))"

lemma lf_walk_lseg: "lseg m p xs None \<Longrightarrow> length xs \<le> f \<Longrightarrow> lf_walk f m p = data_of m xs"
proof (induction xs arbitrary: p f)
  case Nil
  then show ?case by (cases f) simp_all
next
  case (Cons x xs)
  then show ?case by (cases f) simp_all
qed

lemma list_length_le:
  assumes "lists_ok L own k s"
  shows "length (L Used) + length (L Free) + length (concat own) = length (lf_elems s)"
proof -
  have "size (mset (L Used) + mset (L Free) + mset (concat own)) = size (mset [0..<length (lf_elems s)])"
    using assms by (simp add: lists_ok_def)
  then show ?thesis by simp
qed

lemma lf_objs_inv:
  assumes "lf_inv L own k st y"
  shows "lf_objs d (sys_lf y) = data_of (lf_elems (sys_lf y)) (L d)"
proof -
  have ok: "lists_ok L own k (sys_lf y)" using assms by (simp add: lf_inv_def)
  have "length (L d) \<le> length (lf_elems (sys_lf y))" using list_length_le [OF ok] by (cases d) simp_all
  then show ?thesis unfolding lf_objs_def using inv_list(1) [OF assms] by (intro lf_walk_lseg)
qed

text \<open>With \<open>success\<close> zero at the start of every call, every history is one of an atomic stack.\<close>

lemma lf_run_linearizable:
  assumes run: "lf_run False sched (lf_start elems ts) = (evs, y)"
    and bound: "length elems + length sched < 2 ^ 64"
  shows "(\<exists>st. lin_run evs ([], \<lambda>_. LfOut) = Some (lf_objs Used (sys_lf y), st))
    \<and> length (lf_objs Used (sys_lf y)) + length (lf_objs Free (sys_lf y)) \<le> length elems
    \<and> (\<forall>t\<in>set (sys_threads y). t_pc t \<noteq> LfFault)"
proof (intro conjI ballI)
  have e: "length elems < 2 ^ 64" using bound by simp
  from lf_run_goes_on [OF lf_start_inv [OF e] run bound] obtain L own st where inv: "lf_inv L own (length elems + length sched) st y"
    and lin: "lin_run evs ([], \<lambda>_. LfOut) = Some (data_of (lf_elems (sys_lf y)) (L Used), st)" by auto
  note objs = lf_objs_inv [OF inv]
  show "\<exists>st. lin_run evs ([], \<lambda>_. LfOut) = Some (lf_objs Used (sys_lf y), st)" using lin objs by auto
  have len: "length (lf_elems (sys_lf y)) = length elems"
    using lf_run_length [OF run] rte_stack_lf_init_list [of "length elems" elems] bound by (simp add: lf_start_def)
  show "length (lf_objs Used (sys_lf y)) + length (lf_objs Free (sys_lf y)) \<le> length elems"
  proof -
    have "lists_ok L own (length elems + length sched) (sys_lf y)" using inv by (simp add: lf_inv_def)
    from list_length_le [OF this] show ?thesis using len objs by simp
  qed
  show "t_pc t \<noteq> LfFault" if "t \<in> set (sys_threads y)" for t
  proof -
    from that obtain i where "i < length (sys_threads y)" "sys_threads y ! i = t"
      unfolding in_set_conv_nth by blast
    moreover from this have "i < length own" using inv by (simp add: lf_inv_def)
    ultimately show ?thesis using inv_thread [OF inv] by (auto simp: thread_ok_def)
  qed
qed

section \<open>The value found in \<open>success\<close>\<close>

text \<open>
  Each action of the schedule comes with what an uninitialised \<open>success\<close> would hold if the action made its
  thread declare one.
\<close>

type_synonym 'a lf_schedule = "(bool \<times> 'a lf_action) list"

fun lf_runs :: "'a lf_schedule \<Rightarrow> 'a lf_system \<Rightarrow> (nat \<times> 'a lf_event) list \<times> 'a lf_system" where
  "lf_runs [] y = ([], y)"
| "lf_runs ((u, a) # as) y =
    (case lf_step u a y of (ev, y) \<Rightarrow>
      (case lf_runs as y of (evs, y) \<Rightarrow> (ev @ evs, y)))"

lemma lf_runs_flag: "lf_runs (map (Pair u) as) y = lf_run u as y"
  by (induction as arbitrary: y) (simp_all split: prod.splits)

text \<open>
  The thread is about to leave the retry loop of \<open>__rte_stack_lf_pop_elems\<close> on a \<open>success\<close> it never set: its
  traversal has met a null pointer before \<open>num\<close> elements, and \<open>continue\<close> goes to the test
  \<open>success == 0\<close> with a nonzero value.
\<close>

definition cut_short :: "'a lf_thread \<Rightarrow> bool" where
  "cut_short t \<longleftrightarrow> t_pc t = ScanElem \<and> t_success t \<and> t_i t \<noteq> op_num (t_op t)
    \<and> (t_tmp t = None \<or> op_num (t_op t) \<le> t_i t)"

fun never_cut :: "'a lf_schedule \<Rightarrow> 'a lf_system \<Rightarrow> bool" where
  "never_cut [] y = True"
| "never_cut ((u, a) # as) y =
    ((case a of Run i \<Rightarrow> i < length (sys_threads y) \<longrightarrow> \<not> cut_short (sys_threads y ! i) | Start _ _ \<Rightarrow> True)
     \<and> never_cut as (snd (lf_step u a y)))"

text \<open>A system without its flags.  Erasing them is a simulation, step by step and with the same events.\<close>

definition forget :: "'a lf_thread \<Rightarrow> 'a lf_thread" where
  "forget t = t\<lparr>t_success := False\<rparr>"

definition forgets :: "'a lf_system \<Rightarrow> 'a lf_system" where
  "forgets y = y\<lparr>sys_threads := map forget (sys_threads y)\<rparr>"

lemma forget_simps [simp]:
  "t_pc (forget t) = t_pc t" "t_op (forget t) = t_op t" "t_len (forget t) = t_len t" "t_old (forget t) = t_old t"
  "t_i (forget t) = t_i t" "t_tmp (forget t) = t_tmp t" "t_objs (forget t) = t_objs t"
  "t_first (forget t) = t_first t" "t_last (forget t) = t_last t" "\<not> t_success (forget t)"
  "sys_lf (forgets y) = sys_lf y" "sys_threads (forgets y) = map forget (sys_threads y)"
  by (simp_all add: forget_def forgets_def)

lemma pop_elems_forget:
  assumes "\<not> cut_short t" "pop_elems_step u t s = (ev, t', s')"
  shows "pop_elems_step False (forget t) s = (ev, forget t', s')"
  using assms
  by (cases "t_pc t")
    (auto simp: pop_elems_step_def Let_def scan_end_def scan_start_def elems_taken_def forget_def
      rte_atomic128_cmp_exchange_def cut_short_def split: if_splits option.splits lf_op.splits)

lemma fill_forget: "fill_step t s = (t', s') \<Longrightarrow> fill_step (forget t) s = (forget t', s')"
  by (auto simp: fill_step_def Let_def forget_def split: if_splits option.splits lf_op.splits)

lemma push_elems_forget:
  "push_elems_step t s = (ev, t', s') \<Longrightarrow> push_elems_step (forget t) s = (ev, forget t', s')"
  by (cases "t_pc t") (auto simp: push_elems_step_def Let_def forget_def rte_atomic128_cmp_exchange_def
      split: if_splits option.splits lf_op.splits)

lemma lf_exec_forget:
  assumes "\<not> cut_short t" "lf_exec u t s = (ev, t', s')"
  shows "lf_exec False (forget t) s = (ev, forget t', s')"
  using assms pop_elems_forget [OF assms(1), of u s ev t' s']
  by (auto simp: lf_exec_def push_elems_forget split: prod.splits if_splits dest: fill_forget)

lemma lf_call_forget: "lf_call c t = (ev, t') \<Longrightarrow> lf_call c (forget t) = (ev, forget t')"
  by (auto simp: lf_call_def forget_def split: if_splits)

lemma lf_step_forget:
  assumes "case a of Run i \<Rightarrow> i < length (sys_threads y) \<longrightarrow> \<not> cut_short (sys_threads y ! i) | Start _ _ \<Rightarrow> True"
    and "lf_step u a y = (ev, z)"
  shows "lf_step False a (forgets y) = (ev, forgets z)"
proof (cases a)
  case (Start i c)
  obtain e t where x: "lf_call c (sys_threads y ! i) = (e, t)" by fastforce
  show ?thesis using assms(2) x lf_call_forget [OF x] by (auto simp: Start forgets_def map_update split: if_splits)
next
  case (Run i)
  show ?thesis
  proof (cases "i < length (sys_threads y) \<and> t_pc (sys_threads y ! i) \<notin> {LfIdle, LfFault}")
    case True
    obtain e t s where x: "lf_exec u (sys_threads y ! i) (sys_lf y) = (e, t, s)" by (metis prod_cases3)
    have "lf_exec False (forget (sys_threads y ! i)) (sys_lf y) = (e, forget t, s)"
      by (rule lf_exec_forget [OF _ x]) (use assms(1) Run True in simp)
    then show ?thesis using True Run assms(2) x by (auto simp: map_update forgets_def)
  next
    case False
    then have "lf_step u a y = ([], y)" unfolding Run lf_step.simps by (rule if_not_P)
    then show ?thesis using False Run assms(2) by auto
  qed
qed

lemma lf_runs_forget:
  assumes "never_cut sched y" "lf_runs sched y = (evs, z)"
  shows "lf_run False (map snd sched) (forgets y) = (evs, forgets z)"
  using assms
proof (induction sched arbitrary: y evs)
  case (Cons ua as)
  obtain u a where ua: "ua = (u, a)" by fastforce
  obtain e1 y1 e2 where e: "lf_step u a y = (e1, y1)" "lf_runs as y1 = (e2, z)" "evs = e1 @ e2"
    using Cons.prems(2) ua by (auto split: prod.splits)
  have "lf_step False a (forgets y) = (e1, forgets y1)"
    using Cons.prems(1) ua by (intro lf_step_forget [OF _ e(1)]) simp
  moreover have "lf_run False (map snd as) (forgets y1) = (e2, forgets z)"
    using Cons.prems(1) ua e(1) by (intro Cons.IH [OF _ e(2)]) simp
  ultimately show ?case by (simp add: ua e(3) del: lf_step.simps)
qed simp

lemma forgets_start: "forgets (lf_start elems ts) = lf_start elems (map forget ts)"
  by (simp add: forgets_def lf_start_def outside_def forget_def)

text \<open>A flag that is zero whenever it is declared cuts no traversal short.\<close>

definition unset :: "'a lf_system \<Rightarrow> bool" where
  "unset y \<longleftrightarrow> (\<forall>t\<in>set (sys_threads y). t_pc t = ScanElem \<or> t_pc t = ScanNext \<or> t_pc t = HeadCas \<longrightarrow> \<not> t_success t)"

lemma lf_exec_unset:
  assumes "t_pc t = ScanElem \<or> t_pc t = ScanNext \<or> t_pc t = HeadCas \<longrightarrow> \<not> t_success t" "lf_exec False t s = (ev, t', s')"
  shows "t_pc t' = ScanElem \<or> t_pc t' = ScanNext \<or> t_pc t' = HeadCas \<longrightarrow> \<not> t_success t'"
  using assms
  by (cases "t_pc t")
    (auto simp: lf_exec_def pop_elems_step_def push_elems_step_def fill_step_def Let_def scan_end_def scan_start_def
      elems_taken_def rte_atomic128_cmp_exchange_def split: if_splits option.splits lf_op.splits)

lemma lf_step_unset:
  assumes "unset y" "lf_step False a y = (ev, z)"
  shows "unset z"
proof (cases a)
  case (Start i c)
  then show ?thesis using assms
    by (auto simp: unset_def lf_call_def split: if_splits dest!: set_update_subset_insert [THEN subsetD])
next
  case (Run i)
  show ?thesis
  proof (cases "i < length (sys_threads y) \<and> t_pc (sys_threads y ! i) \<notin> {LfIdle, LfFault}")
    case True
    obtain e t s where x: "lf_exec False (sys_threads y ! i) (sys_lf y) = (e, t, s)" by (metis prod_cases3)
    have "t_pc t = ScanElem \<or> t_pc t = ScanNext \<or> t_pc t = HeadCas \<longrightarrow> \<not> t_success t"
      by (rule lf_exec_unset [OF _ x]) (use assms(1) True in \<open>simp add: unset_def\<close>)
    moreover have "z = \<lparr>sys_lf = s, sys_threads = (sys_threads y)[i := t]\<rparr>" using True Run assms(2) x by auto
    ultimately show ?thesis using assms(1)
      by (auto simp: unset_def dest!: set_update_subset_insert [THEN subsetD])
  next
    case False
    then have "lf_step False a y = ([], y)" unfolding Run lf_step.simps by (rule if_not_P)
    then show ?thesis using assms by simp
  qed
qed

lemma never_cut_zero:
  "unset y \<Longrightarrow> \<forall>x\<in>set sched. \<not> fst x \<Longrightarrow> never_cut sched y"
proof (induction sched arbitrary: y)
  case (Cons ua as)
  obtain u a where ua: "ua = (u, a)" by fastforce
  then have "\<not> u" using Cons.prems(2) by simp
  obtain ev z where e: "lf_step False a y = (ev, z)" by fastforce
  have "\<not> cut_short (sys_threads y ! i)" if "i < length (sys_threads y)" for i
    using Cons.prems(1) that by (auto simp: unset_def cut_short_def)
  moreover have "never_cut as z" using lf_step_unset [OF Cons.prems(1) e] Cons.prems(2) by (intro Cons.IH) auto
  ultimately show ?case using e \<open>\<not> u\<close> by (simp add: ua del: lf_step.simps split: lf_action.split)
qed simp

lemma lf_start_unset: "unset (lf_start elems ts)"
  by (auto simp: unset_def lf_start_def outside_def)

text \<open>C6. Any number of threads push and pop on the lock-free stack (\<open>rte_stack_lf.h\<close>), interleaved access by access,
  from initialisation.  Two conditions: the elements and the steps together are fewer than \<open>2 ^ 64\<close>, so that
  no counter of a head comes round; and the variable \<open>success\<close> of \<open>__rte_stack_lf_pop_elems\<close>, which the
  code does not initialise, either is zero at the start of every call, or holds anything at all but is never
  nonzero and still unset at the moment when a traversal has met a null pointer too early.  (Without the
  second condition the stack is not linearizable: \<open>lf_pop_twice\<close>.)  Then the history of calls, effects and
  returns is one of an atomic stack: each call that returns its number takes effect at one moment between
  its start and its return, a push putting its table on top and a pop taking the objects it returns off the
  top; the others return 0 and have no effect.  The lists in memory hold the stack's objects, and no thread
  follows a null or wild pointer.
\<close>

theorem lf_stack_linearizable:
  assumes run: "lf_runs sched (lf_start elems ts) = (evs, y)"
    and flag: "(\<forall>x\<in>set sched. \<not> fst x) \<or> never_cut sched (lf_start elems ts)"
    and bound: "length elems + length sched < 2 ^ 64"
  shows "(\<exists>st. lin_run evs ([], \<lambda>_. LfOut) = Some (lf_objs Used (sys_lf y), st))
    \<and> length (lf_objs Used (sys_lf y)) + length (lf_objs Free (sys_lf y)) \<le> length elems
    \<and> (\<forall>t\<in>set (sys_threads y). t_pc t \<noteq> LfFault)"
proof -
  have "never_cut sched (lf_start elems ts)" using flag never_cut_zero [OF lf_start_unset] by blast
  from lf_runs_forget [OF this run]
  have "lf_run False (map snd sched) (lf_start elems (map forget ts)) = (evs, forgets y)"
    by (simp only: forgets_start)
  from lf_run_linearizable [OF this] show ?thesis using bound by simp
qed

section \<open>A call that runs alone\<close>

definition alone_ok :: "'a rte_stack_lf \<Rightarrow> 'a lf_thread \<Rightarrow> bool" where
  "alone_ok s t \<longleftrightarrow> t_pc t \<noteq> LenRead
    \<and> (t_pc t = LenCas \<longrightarrow> t_len t = lf_len (op_src (t_op t)) s)
    \<and> (t_pc t = CntRead \<longrightarrow> h_top (t_old t) = h_top (head_of (op_src (t_op t)) s))
    \<and> (t_pc t \<in> {ScanElem, ScanNext, HeadCas} \<longrightarrow> t_old t = head_of (op_src (t_op t)) s)
    \<and> (t_pc t = LinkCnt \<longrightarrow> h_top (t_old t) = h_top (head_of (op_dst (t_op t)) s))
    \<and> (t_pc t \<in> {LinkNext, LinkCas} \<longrightarrow> t_old t = head_of (op_dst (t_op t)) s)"

text \<open>Enough steps to finish, and what is still to be seen.\<close>

definition lf_rank :: "'a lf_thread \<Rightarrow> nat" where
  "lf_rank t =
    (let n = op_num (t_op t); i = t_i t
     in case t_pc t of
       LenRead \<Rightarrow> 4 * n + 14 | LenCas \<Rightarrow> 4 * n + 13 | TopRead \<Rightarrow> 4 * n + 12 | CntRead \<Rightarrow> 4 * n + 11
     | ScanElem \<Rightarrow> n + 8 + 2 * (n - i) | ScanNext \<Rightarrow> n + 7 + 2 * (n - i) | HeadCas \<Rightarrow> n + 7
     | FillElem \<Rightarrow> n - i + 6 | LinkTop \<Rightarrow> 5 | LinkCnt \<Rightarrow> 4 | LinkNext \<Rightarrow> 3 | LinkCas \<Rightarrow> 2 | LenAdd \<Rightarrow> 1
     | _ \<Rightarrow> 0)"

definition will :: "'a lf_thread \<Rightarrow> 'a lf_event list \<Rightarrow> bool" where
  "will t evs \<longleftrightarrow>
    (case t_op t of
       LfPush objs \<Rightarrow> evs = (if t_pc t = LenAdd then [] else [PushedAt objs]) @ [Returned (length objs) []]
     | LfPop n \<Rightarrow> (if t_pc t \<in> taking then \<exists>xs. evs = [PoppedAt xs, Returned (unat n) xs]
                   else evs = [Returned (unat n) (t_objs t)]))"

definition steps_on :: "'a lf_thread \<Rightarrow> 'a lf_event list \<Rightarrow> 'a lf_thread \<Rightarrow> 'a rte_stack_lf \<Rightarrow> bool" where
  "steps_on t ev t' s' \<longleftrightarrow> alone_ok s' t' \<and> lf_rank t' < lf_rank t
    \<and> (if t_pc t' = LfIdle then will t ev else \<forall>evs. will t' evs \<longrightarrow> will t (ev @ evs))"

lemmas alone_simps = steps_on_def alone_ok_def lf_rank_def will_def Let_def

lemma scan_alone:
  assumes inv: "lf_inv L own k st y" and i: "i < length own" and t: "t = sys_threads y ! i"
    and pc: "t_pc t \<in> {ScanElem, ScanNext, HeadCas}" and old: "t_old t = head_of (op_src (t_op t)) (sys_lf y)"
  shows "scanned (L (op_src (t_op t))) (sys_lf y) t" "op_num (t_op t) \<le> length (L (op_src (t_op t)))"
    "t_i t \<le> op_num (t_op t)" "t_pc t = HeadCas \<Longrightarrow> t_i t = op_num (t_op t)" "0 < op_num (t_op t)"
    "t_pc t = ScanNext \<Longrightarrow> t_i t < op_num (t_op t)"
    "t_tmp t = Some p \<Longrightarrow> p < length (lf_elems (sys_lf y))"
proof -
  have ok: "thread_ok L (own ! i) (sys_lf y) t (st i)" using inv_thread [OF inv i] t by simp
  then have "taking_ok L (sys_lf y) t" and n: "0 < op_num (t_op t)"
    using pc unfolding thread_ok_def by (auto split: if_splits)
  then show "scanned (L (op_src (t_op t))) (sys_lf y) t" "t_i t \<le> op_num (t_op t)"
    "t_pc t = HeadCas \<Longrightarrow> t_i t = op_num (t_op t)" "t_pc t = ScanNext \<Longrightarrow> t_i t < op_num (t_op t)"
    "t_tmp t = Some p \<Longrightarrow> p < length (lf_elems (sys_lf y))"
    using pc old by (auto simp: taking_ok_def ptr_ok_def)
  have "owed (op_src (t_op t)) t = op_num (t_op t)" using pc by (auto simp: owed_def)
  then show "op_num (t_op t) \<le> length (L (op_src (t_op t)))" using inv_list(5) [OF inv i, of "op_src (t_op t)"] t by simp
  show "0 < op_num (t_op t)" by (rule n)
qed

lemma pop_elems_alone:
  assumes inv: "lf_inv L own k st y" and i: "i < length own" and t: "t = sys_threads y ! i"
    and pc: "t_pc t \<in> taking" and al: "alone_ok (sys_lf y) t"
    and e: "pop_elems_step False t (sys_lf y) = (ev, t', s')"
  shows "steps_on t ev t' s'"
proof -
  let ?s = "sys_lf y" and ?d = "op_src (t_op t)" and ?n = "op_num (t_op t)"
  have al': "t_pc t \<noteq> LenRead" "t_pc t \<in> {ScanElem, ScanNext, HeadCas} \<Longrightarrow> t_old t = head_of ?d ?s"
    using al by (simp_all add: alone_ok_def)
  note sc = scan_alone [OF inv i t _ al'(2)]
  have le: "t_pc t = ScanElem \<Longrightarrow> t_i t < ?n \<or> t_i t = ?n" using sc(3) by (simp add: le_less)
  have "t_pc t = LenCas \<or> t_pc t = TopRead \<or> t_pc t = CntRead \<or> t_pc t = ScanElem \<and> t_i t < ?n
      \<or> t_pc t = ScanElem \<and> t_i t = ?n \<or> t_pc t = ScanNext \<or> t_pc t = HeadCas"
    using pc al'(1) le by (cases "t_pc t") simp_all
  then consider "t_pc t = LenCas" | "t_pc t = TopRead" | "t_pc t = CntRead" | "t_pc t = ScanElem" "t_i t < ?n"
    | "t_pc t = ScanElem" "t_i t = ?n" | "t_pc t = ScanNext" | "t_pc t = HeadCas" by argo
  then show ?thesis
  proof cases
    case 4
    then have "t_i t < length (L ?d)" using sc(2) by simp
    then obtain p where p: "t_tmp t = Some p"
      using sc(1) 4(1) lseg_drop_Suc [of "lf_elems ?s" "t_tmp t" "t_i t" "L ?d" None]
      by (auto simp: scanned_def Let_def)
    have "p < length (lf_elems ?s)" using sc(7) p 4 by simp
    then show ?thesis using e 4 p al'(2)
      by (cases "t_op t") (auto simp: pop_elems_step_def alone_simps)
  next
    case 5
    then show ?thesis using e al'(2)
      by (cases "t_op t"; cases "t_tmp t") (auto simp: pop_elems_step_def scan_end_def alone_simps)
  next
    case 6
    then obtain p where p: "t_tmp t = Some p" using sc(1) by (auto simp: scanned_def Let_def)
    have "p < length (lf_elems ?s)" "t_i t < ?n" using sc(6,7) p 6 by simp_all
    then show ?thesis using e 6 p al'(2)
      by (cases "t_op t") (auto simp: pop_elems_step_def alone_simps)
  next
    case 7
    have "h_top (head_of ?d ?s) \<noteq> None"
      using scanned_prefix(4) [OF inv_list(1) [OF inv, of ?d] refl] sc(1,4,5) 7 by simp
    then show ?thesis using e 7 al'(2)
      by (cases "t_op t") (auto simp: pop_elems_step_def rte_atomic128_cmp_exchange_def elems_taken_def alone_simps)
  qed (use e al in \<open>cases "t_op t"; auto simp: pop_elems_step_def scan_start_def alone_simps\<close>)+
qed

lemma fill_alone:
  assumes inv: "lf_inv L own k st y" and i: "i < length own" and t: "t = sys_threads y ! i"
    and pc: "t_pc t = FillElem" and e: "fill_step t (sys_lf y) = (t', s')"
  shows "steps_on t [] t' s'"
proof -
  have ok: "thread_ok L (own ! i) (sys_lf y) t (st i)" using inv_thread [OF inv i] t by simp
  have "giving_ok (own ! i) (sys_lf y) t" using giving_thread(1) [OF ok] pc by simp
  then obtain q objs where q: "t_op t = LfPush objs" "length (own ! i) = length objs"
    "lseg (lf_elems (sys_lf y)) (t_tmp t) (drop (t_i t) (own ! i)) q"
    using pc by (auto simp: giving_ok_def)
  then show ?thesis using e pc lseg_drop_Suc [OF q(3)]
    by (cases "t_i t < length objs") (auto simp: fill_step_def alone_simps)
qed

lemma push_elems_alone_steps:
  assumes inv: "lf_inv L own k st y" and i: "i < length own" and t: "t = sys_threads y ! i"
    and pc: "t_pc t \<in> {LinkTop, LinkCnt, LinkNext, LinkCas, LenAdd}" and al: "alone_ok (sys_lf y) t"
    and e: "push_elems_step t (sys_lf y) = (ev, t', s')"
  shows "steps_on t ev t' s'"
proof -
  have ok: "thread_ok L (own ! i) (sys_lf y) t (st i)" using inv_thread [OF inv i] t by simp
  have "\<exists>p. t_last t = Some p \<and> p < length (lf_elems (sys_lf y))" if "t_pc t = LinkNext"
  proof -
    have "t_pc t \<in> giving" using that by simp
    note g = giving_thread [OF ok this]
    obtain q where q: "lseg (lf_elems (sys_lf y)) (t_first t) (own ! i) q" "t_last t = Some (last (own ! i))"
      using g(1) by (auto simp: giving_ok_def)
    then show ?thesis using lseg_in [OF q(1)] g(3) by simp
  qed
  note last = this
  consider "t_pc t = LinkTop" | "t_pc t = LinkCnt" | "t_pc t = LinkNext" | "t_pc t = LinkCas" | "t_pc t = LenAdd"
    using pc by blast
  then show ?thesis
  proof cases
    case 3
    then obtain p where "t_last t = Some p" "p < length (lf_elems (sys_lf y))" using last by blast
    moreover have "t_old t = head_of (op_dst (t_op t)) (sys_lf y)" using al 3 by (simp add: alone_ok_def)
    ultimately show ?thesis using e 3 by (cases "t_op t") (auto simp: push_elems_step_def alone_simps)
  next
    case 4
    then have "t_old t = head_of (op_dst (t_op t)) (sys_lf y)" using al by (simp add: alone_ok_def)
    then show ?thesis using e 4
      by (cases "t_op t") (auto simp: push_elems_step_def rte_atomic128_cmp_exchange_def alone_simps)
  next
    case 2
    then have "h_top (t_old t) = h_top (head_of (op_dst (t_op t)) (sys_lf y))" using al by (simp add: alone_ok_def)
    then show ?thesis using e 2 by (cases "t_op t") (auto simp: push_elems_step_def alone_simps)
  qed (use e in \<open>cases "t_op t"; auto simp: push_elems_step_def alone_simps\<close>)+
qed

lemma lf_exec_alone:
  assumes inv: "lf_inv L own k st y" and i: "i < length own" and t: "t = sys_threads y ! i"
    and pc: "t_pc t \<noteq> LfIdle" and al: "alone_ok (sys_lf y) t"
    and e: "lf_exec False t (sys_lf y) = (ev, t', s')"
  shows "steps_on t ev t' s'"
proof -
  have "t_pc t \<noteq> LfFault" using inv_thread [OF inv i] t by (simp add: thread_ok_def)
  then consider "t_pc t \<in> taking" | "t_pc t = FillElem" | "t_pc t \<in> {LinkTop, LinkCnt, LinkNext, LinkCas, LenAdd}"
    using pc by (cases "t_pc t") auto
  then show ?thesis
  proof cases
    case 1
    then show ?thesis using e pop_elems_alone [OF inv i t 1 al] by (simp add: lf_exec_def)
  next
    case 2
    then show ?thesis using e fill_alone [OF inv i t 2] by (auto simp: lf_exec_def split: prod.splits)
  next
    case 3
    then show ?thesis using e push_elems_alone_steps [OF inv i t 3 al] by (auto simp: lf_exec_def)
  qed
qed

lemma lf_alone_finishes:
  assumes "lf_inv L own k st y" "i < length own" "t_pc (sys_threads y ! i) \<noteq> LfIdle"
    "alone_ok (sys_lf y) (sys_threads y ! i)" "k + lf_rank (sys_threads y ! i) < 2 ^ 64"
  shows "\<exists>m evs y'. m \<le> lf_rank (sys_threads y ! i) \<and> lf_run False (replicate m (Run i)) y = (map (Pair i) evs, y')
    \<and> will (sys_threads y ! i) evs \<and> t_pc (sys_threads y' ! i) = LfIdle"
  using assms
proof (induction "lf_rank (sys_threads y ! i)" arbitrary: L own k st y rule: less_induct)
  case less
  let ?t = "sys_threads y ! i"
  note inv = less.prems(1) and i = less.prems(2)
  have n: "i < length (sys_threads y)" using inv i by (simp add: lf_inv_def)
  obtain ev t' s' where e: "lf_exec False ?t (sys_lf y) = (ev, t', s')" by (metis prod_cases3)
  let ?y = "\<lparr>sys_lf = s', sys_threads = (sys_threads y)[i := t']\<rparr>"
  have nf: "t_pc ?t \<noteq> LfFault" using inv_thread [OF inv i] by (simp add: thread_ok_def)
  have step: "lf_step False (Run i) y = (map (Pair i) ev, ?y)" using e n nf less.prems(3) by simp
  have on: "steps_on ?t ev t' s'" by (rule lf_exec_alone [OF inv i refl less.prems(3,4) e])
  have t': "sys_threads ?y ! i = t'" using n by simp
  have "goes_on L k st y (map (Pair i) ev) ?y"
    using on less.prems(5) by (intro lf_step_goes_on [OF inv step]) (auto simp: steps_on_def)
  then obtain L' own' st' where inv': "lf_inv L' own' (Suc k) st' ?y" by (auto simp: goes_on_def)
  show ?case
  proof (cases "t_pc t' = LfIdle")
    case True
    then show ?thesis using on step n
      by (intro exI [of _ 1] exI [of _ ev] exI [of _ ?y]) (auto simp: steps_on_def)
  next
    case False
    have "i < length own'" using inv' n by (simp add: lf_inv_def)
    then obtain m evs y' where "m \<le> lf_rank t'" "lf_run False (replicate m (Run i)) ?y = (map (Pair i) evs, y')"
      "will t' evs" "t_pc (sys_threads y' ! i) = LfIdle"
      using less.hyps [of ?y, OF _ inv'] on False less.prems(5) t' by (auto simp: steps_on_def)
    then show ?thesis using on step False
      by (intro exI [of _ "Suc m"] exI [of _ "ev @ evs"] exI [of _ y'])
        (auto simp: steps_on_def simp del: lf_step.simps)
  qed
qed

text \<open>What a call does that nobody disturbs.\<close>

fun lf_alone :: "nat \<Rightarrow> 'a lf_op \<Rightarrow> 'a list \<Rightarrow> 'a lf_event list \<times> 'a list" where
  "lf_alone capacity (LfPush objs) stk =
    (if objs \<noteq> [] \<and> length stk + length objs \<le> capacity
     then ([Called (LfPush objs), PushedAt objs, Returned (length objs) []], rev objs @ stk)
     else ([Called (LfPush objs), Returned 0 []], stk))"
| "lf_alone capacity (LfPop n) stk =
    (if n \<noteq> 0 \<and> unat n \<le> length stk
     then ([Called (LfPop n), PoppedAt (take (unat n) stk), Returned (unat n) (take (unat n) stk)], drop (unat n) stk)
     else ([Called (LfPop n), Returned 0 []], stk))"

lemma quiet_lengths:
  assumes inv: "lf_inv L own k st y" and quiet: "\<And>t. t \<in> set (sys_threads y) \<Longrightarrow> t_pc t = LfIdle"
  shows "length (L d) = unat (lf_len d (sys_lf y))"
    "length (L Used) + length (L Free) = length (lf_elems (sys_lf y))"
proof -
  have owed: "map (owed d) (sys_threads y) = map (\<lambda>_. 0) (sys_threads y)" for d
    using quiet by (intro map_cong) (auto simp: owed_def)
  show "length (L d) = unat (lf_len d (sys_lf y))"
    using inv owed [of d] by (simp add: lf_inv_def)
  have "own ! j = []" if "j < length own" for j
  proof -
    have "j < length (sys_threads y)" using inv that by (simp add: lf_inv_def)
    then show ?thesis using inv_thread [OF inv that] quiet by (auto simp: thread_ok_def)
  qed
  then have c: "concat own = []" by (auto simp: in_set_conv_nth)
  have "lists_ok L own k (sys_lf y)" using inv by (simp add: lf_inv_def)
  from list_length_le [OF this, unfolded c] show "length (L Used) + length (L Free) = length (lf_elems (sys_lf y))" by simp
qed

lemma lf_call_runs:
  assumes inv: "lf_inv L own k st y" and i: "i < length own" and idle: "t_pc (sys_threads y ! i) = LfIdle"
    and k: "k + 4 * op_num c + 17 < 2 ^ 64"
    and num: "0 < op_num c" and room: "op_num c \<le> unat (lf_len (op_src c) (sys_lf y))"
  shows "\<exists>m evs y'. m \<le> 4 * op_num c + 14 \<and> t_pc (sys_threads y' ! i) = LfIdle
    \<and> lf_run False (Start i c # replicate m (Run i)) y = (map (Pair i) (Called c # evs), y')
    \<and> (case c of LfPush objs \<Rightarrow> evs = [PushedAt objs, Returned (length objs) []]
       | LfPop n \<Rightarrow> \<exists>xs. evs = [PoppedAt xs, Returned (unat n) xs])"
proof -
  have n: "i < length (sys_threads y)" using inv i by (simp add: lf_inv_def)
  let ?t0 = "(sys_threads y ! i)\<lparr>t_pc := LenRead, t_op := c, t_objs := [], t_last := None\<rparr>"
  let ?t = "?t0\<lparr>t_pc := LenCas, t_len := lf_len (op_src c) (sys_lf y)\<rparr>"
  let ?y = "\<lparr>sys_lf = sys_lf y, sys_threads = (sys_threads y)[i := ?t]\<rparr>"
  have run2: "lf_run False [Start i c, Run i] y = ([(i, Called c)], ?y)"
    using n idle num room by (simp add: lf_call_def lf_exec_def pop_elems_step_def)
  obtain L' own' st' where inv': "lf_inv L' own' (k + 2) st' ?y"
    using lf_run_goes_on [OF inv run2] k by auto
  have i': "i < length own'" using inv' n by (simp add: lf_inv_def)
  have "\<exists>m evs y'. m \<le> lf_rank (sys_threads ?y ! i) \<and> lf_run False (replicate m (Run i)) ?y = (map (Pair i) evs, y')
      \<and> will (sys_threads ?y ! i) evs \<and> t_pc (sys_threads y' ! i) = LfIdle"
    by (rule lf_alone_finishes [OF inv' i']) (use n k in \<open>simp_all add: alone_ok_def lf_rank_def\<close>)
  then obtain m evs y' where r: "m \<le> 4 * op_num c + 13" "lf_run False (replicate m (Run i)) ?y = (map (Pair i) evs, y')"
    "will ?t evs" "t_pc (sys_threads y' ! i) = LfIdle" using n by (auto simp: lf_rank_def)
  have "lf_run False ([Start i c, Run i] @ replicate m (Run i)) y = (map (Pair i) (Called c # evs), y')"
    using run2 r(2) by (auto simp del: lf_step.simps split: prod.splits)
  then show ?thesis using r(1,3,4)
    by (intro exI [of _ "Suc m"] exI [of _ evs] exI [of _ y']) (cases c; simp add: will_def del: lf_step.simps)
qed


section \<open>Concrete runs, and the two defects\<close>

text \<open>Three elements.  A thread has pushed three objects and started to pop two of them, up to its copy of
  the head; then another thread pops one.\<close>

definition elems3 :: "nat rte_stack_lf_elem list" where
  "elems3 = replicate 3 \<lparr>e_data = 0, e_next = None\<rparr>"

definition some_thread :: "nat lf_thread" where
  "some_thread = \<lparr>t_pc = LfIdle, t_op = LfPop 0, t_len = 0, t_old = \<lparr>h_top = None, h_cnt = 0\<rparr>,
     t_success = False, t_i = 0, t_tmp = None, t_objs = [], t_first = None, t_last = None\<rparr>"

definition pushed :: "nat lf_action list" where
  "pushed = Start 0 (LfPush [11, 12, 13]) # replicate 21 (Run 0)"

definition overtaken :: "nat lf_action list" where
  "overtaken = pushed @ Start 0 (LfPop 2) # replicate 4 (Run 0) @ Start 1 (LfPop 1) # replicate 13 (Run 1)"

definition start3 :: "nat lf_system" where
  "start3 = lf_start elems3 [some_thread, some_thread]"

lemma lf_stack_linearizable_witness:
  "\<exists>st. lin_run (fst (lf_runs (map (Pair True) overtaken) start3)) ([], \<lambda>_. LfOut) = Some ([12, 11], st)"
proof -
  let ?r = "lf_runs (map (Pair True) overtaken) start3"
  have "lf_runs (map (Pair True) overtaken) (lf_start elems3 [some_thread, some_thread]) = (fst ?r, snd ?r)"
    by (simp add: start3_def)
  moreover have "never_cut (map (Pair True) overtaken) (lf_start elems3 [some_thread, some_thread])" by code_simp
  moreover have "length elems3 + length (map (Pair True) overtaken) < 2 ^ 64"
    by (simp add: elems3_def overtaken_def pushed_def)
  moreover have "lf_objs Used (sys_lf (snd ?r)) = [12, 11]" by code_simp
  ultimately show ?thesis
    using lf_stack_linearizable [of "map (Pair True) overtaken" elems3 "[some_thread, some_thread]"] by metis
qed


lemma lf_run_Cons: "snd (lf_run u (a # as) y) = snd (lf_run u as (snd (lf_step u a y)))"
  by (simp add: case_prod_beta)

lemma lf_run_append: "snd (lf_run u (as @ bs) y) = snd (lf_run u bs (snd (lf_run u as y)))"
  by (induction as arbitrary: y) (simp_all add: lf_run_Cons del: lf_run.simps(2))

text \<open>C13. 
  \<open>__rte_stack_lf_pop_elems\<close>: a traversal that meets a null pointer is retried from the same, stale copy of the
  head.  In this run the first thread, left alone with two objects on the stack and room for its pop of
  two, runs for ever.
\<close>

theorem lf_pop_spins:
  "t_pc (sys_threads (snd (lf_run False (overtaken @ replicate n (Run 0)) start3)) ! 0) \<noteq> LfIdle
    \<and> lf_objs Used (sys_lf (snd (lf_run False (overtaken @ replicate n (Run 0)) start3))) = [12, 11]"
proof -
  define f where "f y = snd (lf_step False (Run 0) y)" for y :: "nat lf_system"
  have run: "snd (lf_run False (replicate n (Run 0)) y) = (f ^^ n) y" for n and y :: "nat lf_system"
    by (induction n arbitrary: y) (simp_all add: f_def lf_run_Cons funpow_swap1 del: lf_run.simps(2) lf_step.simps)
  let ?y = "snd (lf_run False overtaken start3)"
  let ?S = "{?y, f ?y, f (f ?y), f (f (f ?y)), f (f (f (f ?y)))}"
  have "f (f (f (f (f ?y)))) = f (f ?y)" unfolding f_def by code_simp
  then have "(f ^^ n) ?y \<in> ?S" by (induction n) auto
  moreover have "t_pc (sys_threads z ! 0) \<noteq> LfIdle \<and> lf_objs Used (sys_lf z) = [12, 11]" if "z \<in> ?S" for z
  proof -
    have "t_pc (sys_threads ?y ! 0) \<noteq> LfIdle \<and> lf_objs Used (sys_lf ?y) = [12, 11]"
      "t_pc (sys_threads (f ?y) ! 0) \<noteq> LfIdle \<and> lf_objs Used (sys_lf (f ?y)) = [12, 11]"
      "t_pc (sys_threads (f (f ?y)) ! 0) \<noteq> LfIdle \<and> lf_objs Used (sys_lf (f (f ?y))) = [12, 11]"
      "t_pc (sys_threads (f (f (f ?y))) ! 0) \<noteq> LfIdle \<and> lf_objs Used (sys_lf (f (f (f ?y)))) = [12, 11]"
      "t_pc (sys_threads (f (f (f (f ?y)))) ! 0) \<noteq> LfIdle \<and> lf_objs Used (sys_lf (f (f (f (f ?y))))) = [12, 11]"
      unfolding f_def by code_simp+
    then show ?thesis using that by blast
  qed
  ultimately show ?thesis unfolding lf_run_append run by blast
qed

text \<open>
  The traversal of a pop has ended short, \<open>success\<close> is nonzero, and the thread goes on alone: the six
  accesses up to its return.
\<close>

lemma cut_pop_runs:
  assumes t: "i < length (sys_threads y)" "sys_threads y ! i = t"
    and cut: "cut_short t" "t_op t = LfPop n"
    and first: "h_top (t_old t) = Some p" and last: "t_last t = Some q" "q < length (lf_elems (sys_lf y))"
  shows "\<exists>z. lf_run u (replicate 6 (Run i)) y = ([(i, Returned (unat n) (t_objs t))], z)
    \<and> head_of Used (sys_lf z) = head_of Used (sys_lf y) \<and> h_top (head_of Free (sys_lf z)) = Some p
    \<and> lf_elems (sys_lf z) = (lf_elems (sys_lf y))[q := (lf_elems (sys_lf y) ! q)
        \<lparr>e_next := h_top (head_of Free (sys_lf y))\<rparr>]
    \<and> t_pc (sys_threads z ! i) = LfIdle"
proof -
  let ?s = "sys_lf y" and ?f = "head_of Free (sys_lf y)"
  let ?at = "\<lambda>s t. \<lparr>sys_lf = s, sys_threads = (sys_threads y)[i := t]\<rparr>"
  have step: "lf_step u (Run i) (?at s t1) = (map (Pair i) ev, ?at s' t2)"
    if "lf_exec u t1 s = (ev, t2, s')" "t_pc t1 \<notin> {LfIdle, LfFault}" for s s' t1 t2 ev
    using that t(1) by simp
  define t1 where "t1 = t\<lparr>t_first := Some p, t_pc := LinkTop\<rparr>"
  define t2 where "t2 = t1\<lparr>t_pc := LinkCnt, t_old := (t_old t1)\<lparr>h_top := h_top ?f\<rparr>\<rparr>"
  define t3 where "t3 = t2\<lparr>t_pc := LinkNext, t_old := ?f\<rparr>"
  define t4 where "t4 = t3\<lparr>t_pc := LinkCas\<rparr>"
  define t5 where "t5 = t4\<lparr>t_pc := LenAdd\<rparr>"
  define t6 where "t6 = t5\<lparr>t_pc := LfIdle\<rparr>"
  note ts = t1_def t2_def t3_def t4_def t5_def t6_def
  let ?s4 = "set_next q (h_top ?f) ?s" and ?h = "\<lparr>h_top = Some p, h_cnt = h_cnt ?f + 1\<rparr>"
  let ?s5 = "set_head Free ?h ?s4"
  let ?s6 = "set_len Free (lf_len Free ?s5 + of_nat (unat n)) ?s5"
  have "y = ?at ?s t" using t by (cases y) auto
  have pc: "t_pc t \<notin> {LfIdle, LfFault}" using cut(1) by (simp add: cut_short_def)
  have pcs: "t_pc t1 \<notin> {LfIdle, LfFault}" "t_pc t2 \<notin> {LfIdle, LfFault}" "t_pc t3 \<notin> {LfIdle, LfFault}"
    "t_pc t4 \<notin> {LfIdle, LfFault}" "t_pc t5 \<notin> {LfIdle, LfFault}" by (simp_all add: ts)
  have "scan_end t = ([], t1)"
    using cut first by (simp add: scan_end_def elems_taken_def cut_short_def t1_def)
  then have e1: "lf_exec u t ?s = ([], t1, ?s)"
    using cut by (auto simp: lf_exec_def pop_elems_step_def cut_short_def split: option.splits)
  have e2: "lf_exec u t1 ?s = ([], t2, ?s)" using cut(2) by (simp add: lf_exec_def push_elems_step_def ts)
  have e3: "lf_exec u t2 ?s = ([], t3, ?s)" using cut(2) by (simp add: lf_exec_def push_elems_step_def ts)
  have e4: "lf_exec u t3 ?s = ([], t4, ?s4)"
    using cut(2) last by (simp add: lf_exec_def push_elems_step_def ts)
  have "head_of Free ?s4 = ?f" by simp
  then have e5: "lf_exec u t4 ?s4 = ([], t5, ?s5)"
    using cut(2) by (simp add: lf_exec_def push_elems_step_def ts rte_atomic128_cmp_exchange_def)
  have e6: "lf_exec u t5 ?s5 = ([Returned (unat n) (t_objs t)], t6, ?s6)"
    using cut(2) by (simp add: lf_exec_def push_elems_step_def ts)
  have six: "replicate 6 (Run i) = [Run i, Run i, Run i, Run i, Run i, Run i]" by (simp add: eval_nat_numeral)
  have run: "lf_run u (replicate 6 (Run i)) (?at ?s t) = ([(i, Returned (unat n) (t_objs t))], ?at ?s6 t6)"
    unfolding six step [OF e6 pcs(5), unfolded list.map] lf_run.simps prod.case append_Nil append_Nil2
      step [OF e1 pc, unfolded list.map] step [OF e2 pcs(1), unfolded list.map]
      step [OF e3 pcs(2), unfolded list.map] step [OF e4 pcs(3), unfolded list.map] step [OF e5 pcs(4), unfolded list.map]
    by (rule refl)
  have el: "lf_elems ?s4 = (lf_elems ?s)[q := (lf_elems ?s ! q)\<lparr>e_next := h_top ?f\<rparr>]" by (simp add: set_next_def)
  show ?thesis using run t(1) unfolding \<open>y = ?at ?s t\<close> [symmetric]
    by (intro exI [of _ "?at ?s6 t6"]) (simp add: t6_def el)
qed

text \<open>C14. The other defect: nothing has set \<open>success\<close> when the first traversal ends short.  In every state in
  which a thread inside \<open>rte_stack_pop\<close> of \<open>n\<close> has seen at least one element and then met a null pointer too
  early, with a \<open>success\<close> that happens to be nonzero: if the thread goes on undisturbed, the call returns
  \<open>n\<close> after six more steps, with no more objects stored than it had seen.  It has taken nothing off the
  stack: the head of the used list is as it was, and no atomic stack allows the return of a call that has
  not taken effect.  Yet the element at the top of the thread's copy of the old head, whether it is still on
  the stack or another thread has popped it, is now the first of the free list.  (The witness is a run from
  initialisation in which two threads return the same object.)
\<close>

theorem lf_pop_twice:
  assumes "i < length (sys_threads y)" "cut_short (sys_threads y ! i)" "t_op (sys_threads y ! i) = LfPop n" "n \<noteq> 0"
    and "h_top (t_old (sys_threads y ! i)) = Some p" "t_last (sys_threads y ! i) = Some q"
    and "q < length (lf_elems (sys_lf y))"
  shows "\<exists>z. lf_run u (replicate 6 (Run i)) y = ([(i, Returned (unat n) (t_objs (sys_threads y ! i)))], z)
    \<and> t_pc (sys_threads z ! i) = LfIdle \<and> head_of Used (sys_lf z) = head_of Used (sys_lf y)
    \<and> h_top (head_of Free (sys_lf z)) = Some p
    \<and> (\<forall>stk st. st i = Pending (LfPop n)
        \<longrightarrow> lin_run [(i, Returned (unat n) (t_objs (sys_threads y ! i)))] (stk, st) = None)"
proof -
  obtain z where "lf_run u (replicate 6 (Run i)) y = ([(i, Returned (unat n) (t_objs (sys_threads y ! i)))], z)"
    "head_of Used (sys_lf z) = head_of Used (sys_lf y)" "h_top (head_of Free (sys_lf z)) = Some p"
    "t_pc (sys_threads z ! i) = LfIdle"
    using cut_pop_runs [OF assms(1) refl assms(2,3,5,6,7), of u] by blast
  moreover have "unat n \<noteq> 0" using assms(4) by (simp add: unat_eq_0)
  ultimately show ?thesis by (intro exI [of _ z]) simp
qed

text \<open>The state is reached: two objects, a pop of two overtaken by a pop of one.  Object 13 is returned by both
  threads, and its element ends up linked to itself.\<close>

definition stray :: "nat lf_system" where
  "stray = snd (lf_run True (overtaken @ replicate 2 (Run 0)) start3)"

lemma lf_pop_twice_witness:
  "\<exists>z. lf_run True (replicate 6 (Run 0)) stray = ([(0, Returned 2 [13])], z)
    \<and> (1, Returned 1 [13]) \<in> set (fst (lf_run True overtaken start3))
    \<and> e_next (lf_elems (sys_lf (snd (lf_run True (replicate 6 (Run 0)) stray))) ! 2) = Some 2"
proof -
  let ?t = "sys_threads stray ! 0"
  have "0 < length (sys_threads stray)" "cut_short ?t" "t_op ?t = LfPop 2" "h_top (t_old ?t) = Some 2"
    "t_last ?t = Some 2" "2 < length (lf_elems (sys_lf stray))" by code_simp+
  from lf_pop_twice [OF this(1-3) _ this(4-6), of True]
  obtain z where "lf_run True (replicate 6 (Run 0)) stray = ([(0, Returned (unat (2 :: u32)) (t_objs ?t))], z)" by auto
  moreover have "t_objs ?t = [13]" "(1, Returned 1 [13]) \<in> set (fst (lf_run True overtaken start3))"
    "e_next (lf_elems (sys_lf (snd (lf_run True (replicate 6 (Run 0)) stray))) ! 2) = Some 2" by code_simp+
  ultimately show ?thesis by simp
qed

end
