(* ===== verification/Stack_Std.thy ===== *)
theory Stack_Std
  imports Stack_Props
begin

text \<open>
  The standard stack of \<open>librte_stack\<close>, an array under a spin lock (\<open>rte_stack_std.h\<close>), the calls that
  choose between it and the lock-free one (\<open>rte_stack.h\<close>), and the life of a stack (\<open>rte_stack.c\<close>).  A call on the
  standard stack holds the lock from start to end, so it is one step.  \<open>None\<close> is a write outside the memory
  zone of the stack.
\<close>

section \<open>State\<close>

text \<open>The union of \<open>struct rte_stack\<close> is both of its members; \<open>stk_objs\<close> has as many slots as the zone has
  room for after the header of the standard form.\<close>

record 'a rte_stack =
  stk_name :: string
  stk_memzone :: "nat option"
  stk_capacity :: u32
  stk_flags :: u32
  stk_lf :: "'a rte_stack_lf"
  stk_len :: u32
  stk_objs :: "'a list"

record pool_env = eal +
  stack_list :: "(nat \<times> nat) list"
  mempool_list :: "(nat \<times> nat) list"

definition RTE_STACK_F_LF :: u32 where "RTE_STACK_F_LF = 0x0001"
definition RTE_STACK_MZ_PREFIX :: string where "RTE_STACK_MZ_PREFIX = ''STK_''"
definition RTE_STACK_NAMESIZE :: nat where "RTE_STACK_NAMESIZE = RTE_MEMZONE_NAMESIZE - 5 + 1"

section \<open>Push and pop\<close>

text \<open>Storing a table in an array from an index on.\<close>

definition store_at :: "nat \<Rightarrow> 'a list \<Rightarrow> 'a list \<Rightarrow> 'a list option" where
  "store_at k xs arr =
    (if length arr < k + length xs then None
     else Some (take k arr @ xs @ drop (k + length xs) arr))"

text \<open>The loop \<open>for (index = 0, len = len - 1; index < n; ++index, len--)\<close> over an array.\<close>

definition load_down :: "nat \<Rightarrow> nat \<Rightarrow> 'a list \<Rightarrow> 'a list" where
  "load_down len n arr = map (\<lambda>index. arr ! (len - 1 - index)) [0..<n]"

definition rte_stack_std_push :: "'a rte_stack \<Rightarrow> 'a list \<Rightarrow> (u32 \<times> 'a rte_stack) option" where
  "rte_stack_std_push s obj_table =
    (let n = of_nat (length obj_table)
     in if stk_len s + n > stk_capacity s then Some (0, s)
        else case store_at (unat (stk_len s)) obj_table (stk_objs s) of
               None \<Rightarrow> None
             | Some objs \<Rightarrow> Some (n, s\<lparr>stk_objs := objs, stk_len := stk_len s + n\<rparr>))"

definition rte_stack_std_pop :: "'a rte_stack \<Rightarrow> u32 \<Rightarrow> u32 \<times> 'a list \<times> 'a rte_stack" where
  "rte_stack_std_pop s n =
    (if n > stk_len s then (0, [], s)
     else (n, load_down (unat (stk_len s)) (unat n) (stk_objs s), s\<lparr>stk_len := stk_len s - n\<rparr>))"

definition rte_stack_std_count :: "'a rte_stack \<Rightarrow> u32" where
  "rte_stack_std_count s = stk_len s"

text \<open>A lock-free call with no other thread in the way; \<open>t\<close> is whatever the registers hold.\<close>

definition lf_call_alone ::
  "'a lf_thread \<Rightarrow> 'a lf_op \<Rightarrow> 'a rte_stack \<Rightarrow> (nat \<times> 'a list \<times> 'a rte_stack) option" where
  "lf_call_alone t c s =
    (case lf_run False (Start 0 c # replicate (4 * op_num c + 14) (Run 0))
            \<lparr>sys_lf = stk_lf s, sys_threads = [outside t]\<rparr> of
       (evs, y) \<Rightarrow>
         (case last evs of
            (_, Returned n objs) \<Rightarrow> Some (n, objs, s\<lparr>stk_lf := sys_lf y\<rparr>)
          | _ \<Rightarrow> None))"

definition rte_stack_push :: "'a lf_thread \<Rightarrow> 'a rte_stack \<Rightarrow> 'a list \<Rightarrow> (u32 \<times> 'a rte_stack) option" where
  "rte_stack_push t s obj_table =
    (if stk_flags s AND RTE_STACK_F_LF \<noteq> 0
     then map_option (\<lambda>(n, _, s). (of_nat n, s)) (lf_call_alone t (LfPush obj_table) s)
     else rte_stack_std_push s obj_table)"

definition rte_stack_pop :: "'a lf_thread \<Rightarrow> 'a rte_stack \<Rightarrow> u32 \<Rightarrow> (u32 \<times> 'a list \<times> 'a rte_stack) option" where
  "rte_stack_pop t s n =
    (if stk_flags s AND RTE_STACK_F_LF \<noteq> 0
     then map_option (\<lambda>(k, objs, s). (of_nat k, objs, s)) (lf_call_alone t (LfPop n) s)
     else Some (rte_stack_std_pop s n))"

definition rte_stack_count :: "'a rte_stack \<Rightarrow> u32" where
  "rte_stack_count s =
    (if stk_flags s AND RTE_STACK_F_LF \<noteq> 0 then ucast (lf_len Used (stk_lf s)) else rte_stack_std_count s)"

definition rte_stack_free_count :: "'a rte_stack \<Rightarrow> u32" where
  "rte_stack_free_count s = stk_capacity s - rte_stack_count s"

section \<open>Creation and release\<close>

text \<open>On x86-64 \<open>sizeof(struct rte_stack)\<close> is 192, the objects of the standard form start at byte 72 and the
  elements of the lock-free form, of 16 bytes, at byte 192.\<close>

definition RTE_CACHE_LINE_ROUNDUP :: "nat \<Rightarrow> nat" where
  "RTE_CACHE_LINE_ROUNDUP sz = RTE_CACHE_LINE_SIZE * ((sz + RTE_CACHE_LINE_SIZE - 1) div RTE_CACHE_LINE_SIZE)"

definition rte_stack_std_get_memsize :: "u32 \<Rightarrow> nat" where
  "rte_stack_std_get_memsize num = 192 + RTE_CACHE_LINE_ROUNDUP (unat num * 8) + 2 * RTE_CACHE_LINE_SIZE"

definition rte_stack_lf_get_memsize :: "u32 \<Rightarrow> nat" where
  "rte_stack_lf_get_memsize num = 192 + RTE_CACHE_LINE_ROUNDUP (unat num * 16) + 2 * RTE_CACHE_LINE_SIZE"

definition rte_stack_get_memsize :: "u32 \<Rightarrow> u32 \<Rightarrow> nat" where
  "rte_stack_get_memsize num flags =
    (if flags AND RTE_STACK_F_LF \<noteq> 0 then rte_stack_lf_get_memsize num else rte_stack_std_get_memsize num)"

text \<open>\<open>rte_stack_init\<close> on a zone of \<open>len\<close> bytes: it clears the header; the lock-free form then links \<open>count\<close>
  elements.\<close>

definition rte_stack_init :: "'a \<Rightarrow> nat \<Rightarrow> u32 \<Rightarrow> u32 \<Rightarrow> 'a rte_stack option" where
  "rte_stack_init junk len num flags =
    (let elems = replicate ((len - 192) div 16) \<lparr>e_data = junk, e_next = None\<rparr>;
         s = \<lparr>stk_name = [], stk_memzone = None, stk_capacity = 0, stk_flags = 0, stk_lf = lf_zero elems,
              stk_len = 0, stk_objs = replicate ((len - 72) div 8) junk\<rparr>
     in if flags AND RTE_STACK_F_LF \<noteq> 0
        then if length elems < unat num then None
             else Some (s\<lparr>stk_lf := rte_stack_lf_init (unat num) (lf_zero elems)\<rparr>)
        else Some s)"

text \<open>\<open>rte_stack_create\<close>; the size is kept in an \<open>unsigned int\<close>.\<close>

definition rte_stack_create ::
  "'a \<Rightarrow> string \<Rightarrow> u32 \<Rightarrow> u32 \<Rightarrow> 'z pool_env_scheme \<Rightarrow> ('a rte_stack option \<times> 'z pool_env_scheme) option" where
  "rte_stack_create junk name num flags e =
    (let sz = word_of_nat (rte_stack_get_memsize num flags) :: u32;
         mz_name = RTE_STACK_MZ_PREFIX @ name
     in if length mz_name \<ge> RTE_MEMZONE_NAMESIZE then Some (None, e\<lparr>rte_errno := ENAMETOOLONG\<rparr>)
        else case rte_malloc 24 e of
          (None, e) \<Rightarrow> Some (None, e\<lparr>rte_errno := ENOMEM\<rparr>)
        | (Some te, e) \<Rightarrow>
           (case memzone_reserve_aligned 0 mz_name (unat sz) 64 0 e of
              (None, e) \<Rightarrow> Some (None, rte_free (Some te) e)
            | (Some mz, e) \<Rightarrow>
               (case rte_stack_init junk (mz_len mz) num flags of
                  None \<Rightarrow> None
                | Some s \<Rightarrow>
                   if length name \<ge> RTE_STACK_NAMESIZE
                   then Some (None, snd (rte_memzone_free (Some (mz_addr mz))
                                (rte_free (Some te) (e\<lparr>rte_errno := ENAMETOOLONG\<rparr>))))
                   else Some (Some (s\<lparr>stk_name := name, stk_memzone := Some (mz_addr mz), stk_capacity := num,
                                      stk_flags := flags\<rparr>),
                              e\<lparr>stack_list := stack_list e @ [(te, mz_addr mz)]\<rparr>))))"

definition rte_stack_free :: "'a rte_stack option \<Rightarrow> 'z pool_env_scheme \<Rightarrow> 'z pool_env_scheme" where
  "rte_stack_free s e =
    (case s of
       None \<Rightarrow> e
     | Some s \<Rightarrow>
        (case find (\<lambda>(te, data). Some data = stk_memzone s) (stack_list e) of
           None \<Rightarrow> e
         | Some (te, data) \<Rightarrow>
             snd (rte_memzone_free (stk_memzone s)
               (rte_free (Some te) (e\<lparr>stack_list := remove1 (te, data) (stack_list e)\<rparr>)))))"

section \<open>The standard stack is a bounded stack\<close>

definition stack_wf :: "'a rte_stack \<Rightarrow> bool" where
  "stack_wf s \<longleftrightarrow> stk_flags s AND RTE_STACK_F_LF = 0 \<and> stk_len s \<le> stk_capacity s
     \<and> unat (stk_capacity s) \<le> length (stk_objs s) \<and> unat (stk_capacity s) < 2 ^ 31"

definition stack_objs :: "'a rte_stack \<Rightarrow> 'a list" where
  "stack_objs s = rev (take (unat (stk_len s)) (stk_objs s))"

lemma load_down_eq: "n \<le> len \<Longrightarrow> len \<le> length arr \<Longrightarrow> load_down len n arr = take n (rev (take len arr))"
  by (intro nth_equalityI) (auto simp: load_down_def rev_nth)

lemma store_at_Some:
  "k + length xs \<le> length arr \<Longrightarrow> store_at k xs arr = Some (take k arr @ xs @ drop (k + length xs) arr)"
  by (simp add: store_at_def)

lemma rte_stack_push_std:
  assumes wf: "stack_wf s" and n: "length objs < 2 ^ 31"
  shows "if length (stack_objs s) + length objs \<le> unat (stk_capacity s)
    then \<exists>s'. rte_stack_push t s objs = Some (of_nat (length objs), s') \<and> stack_objs s' = rev objs @ stack_objs s
      \<and> stack_wf s' \<and> stk_capacity s' = stk_capacity s
    else rte_stack_push t s objs = Some (0, s)"
proof -
  have b: "unat (stk_len s) \<le> unat (stk_capacity s)" "unat (stk_capacity s) < 2 ^ 31"
    "unat (stk_capacity s) \<le> length (stk_objs s)"
    using wf by (simp_all add: stack_wf_def word_le_nat_alt)
  have u: "unat (of_nat (length objs) :: u32) = length objs" using n by (intro unat_of_nat_small) simp
  then have add: "unat (stk_len s + of_nat (length objs)) = unat (stk_len s) + length objs"
    using b n by (simp add: unat_word_ariths take_bit_nat_eq_self)
  have len: "length (stack_objs s) = unat (stk_len s)" using b by (simp add: stack_objs_def)
  show ?thesis
  proof (cases "unat (stk_len s) + length objs \<le> unat (stk_capacity s)")
    case True
    then have "\<not> stk_len s + of_nat (length objs) > stk_capacity s" using add by (simp add: word_less_nat_alt)
    moreover have "store_at (unat (stk_len s)) objs (stk_objs s)
        = Some (take (unat (stk_len s)) (stk_objs s) @ objs @ drop (unat (stk_len s) + length objs) (stk_objs s))"
      using True b by (intro store_at_Some) simp
    ultimately show ?thesis using True wf len b add
      by (simp add: rte_stack_push_def rte_stack_std_push_def Let_def stack_wf_def stack_objs_def word_le_nat_alt
          min_def)
  next
    case False
    then have "stk_len s + of_nat (length objs) > stk_capacity s" using add by (simp add: word_less_nat_alt)
    then show ?thesis using False wf len
      by (simp add: rte_stack_push_def rte_stack_std_push_def stack_wf_def)
  qed
qed

lemma rte_stack_pop_std:
  assumes wf: "stack_wf s"
  shows "if unat n \<le> length (stack_objs s)
    then \<exists>s'. rte_stack_pop t s n = Some (n, take (unat n) (stack_objs s), s')
      \<and> stack_objs s' = drop (unat n) (stack_objs s) \<and> stack_wf s' \<and> stk_capacity s' = stk_capacity s
    else rte_stack_pop t s n = Some (0, [], s)"
proof -
  have b: "unat (stk_len s) \<le> unat (stk_capacity s)" "unat (stk_capacity s) \<le> length (stk_objs s)"
    using wf by (simp_all add: stack_wf_def word_le_nat_alt)
  have len: "length (stack_objs s) = unat (stk_len s)" using b by (simp add: stack_objs_def)
  show ?thesis
  proof (cases "unat n \<le> unat (stk_len s)")
    case True
    then have "\<not> n > stk_len s" and sub: "unat (stk_len s - n) = unat (stk_len s) - unat n"
      by (simp_all add: word_less_nat_alt unat_sub_add_le)
    moreover have "load_down (unat (stk_len s)) (unat n) (stk_objs s) = take (unat n) (stack_objs s)"
      using True b by (simp add: load_down_eq stack_objs_def)
    moreover have "rev (take (unat (stk_len s) - unat n) (stk_objs s)) = drop (unat n) (stack_objs s)"
    proof -
      have "unat (stk_len s) \<le> length (stk_objs s)" using b by simp
      then have "length (take (unat (stk_len s)) (stk_objs s)) = unat (stk_len s)" by simp
      then show ?thesis using True by (simp add: stack_objs_def drop_rev min_absorb1)
    qed
    ultimately show ?thesis using True wf len b
      by (simp add: rte_stack_pop_def rte_stack_std_pop_def stack_wf_def word_le_nat_alt)
        (simp add: stack_objs_def)
  next
    case False
    then show ?thesis using wf len
      by (simp add: rte_stack_pop_def rte_stack_std_pop_def stack_wf_def word_less_nat_alt)
  qed
qed

section \<open>Creation with a large capacity\<close>

text \<open>C15. 
  \<open>rte_stack_create\<close> computes the size of the memory zone in 32 bits: for \<open>2^29\<close> objects it reserves 320 bytes, and
  the stack that it returns, of capacity \<open>2^29\<close>, writes outside its zone when 32 objects are pushed.
\<close>

theorem rte_stack_create_truncates:
  assumes "malloc_ok e = (\<lambda>_ _. True)" "memzones e = []" "0 < mz_max e"
  shows "\<exists>s e'. rte_stack_create (0::nat) ''s'' 0x20000000 0 e = Some (Some s, e') \<and> stk_capacity s = 0x20000000
    \<and> rte_stack_push t s (replicate 32 0) = None"
proof -
  have p: "rte_is_power_of_2 64" by code_simp
  have sz: "unat (word_of_nat (rte_stack_get_memsize 0x20000000 0) :: u32) = 320"
    by (simp add: rte_stack_get_memsize_def rte_stack_std_get_memsize_def RTE_CACHE_LINE_ROUNDUP_def RTE_CACHE_LINE_SIZE_def)
  have r: "RTE_ALIGN_CEIL 320 RTE_CACHE_LINE_SIZE = 320" by (simp add: RTE_ALIGN_CEIL_def RTE_CACHE_LINE_SIZE_def)
  obtain e1 where m: "rte_malloc 24 e = (Some (mallocs e), e1)" "malloc_ok e1 = (\<lambda>_ _. True)" "memzones e1 = []" "0 < mz_max e1"
    using assms by (simp add: rte_malloc_def malloc_heap_alloc_def Let_def)
  obtain mz e2 where z: "memzone_reserve_aligned 0 ''STK_s'' 320 64 0 e1 = (Some mz, e2)" "mz_len mz = 320"
    using m(2-4) p r by (simp add: memzone_reserve_aligned_def malloc_heap_alloc_def Let_def RTE_MEMZONE_NAMESIZE_def
        memzone_lookup_def RTE_CACHE_LINE_SIZE_def SIZE_MAX_def)
  obtain s0 where s0: "rte_stack_init (0::nat) 320 0x20000000 0 = Some s0" "length (stk_objs s0) = 31" "stk_len s0 = 0"
    by (simp add: rte_stack_init_def Let_def)
  let ?s = "s0\<lparr>stk_name := ''s'', stk_memzone := Some (mz_addr mz), stk_capacity := 0x20000000, stk_flags := 0\<rparr>"
  have "rte_stack_create (0::nat) ''s'' 0x20000000 0 e
      = Some (Some ?s, e2\<lparr>stack_list := stack_list e2 @ [(mallocs e, mz_addr mz)]\<rparr>)"
    using m(1) z s0(1) by (simp add: rte_stack_create_def Let_def sz RTE_STACK_MZ_PREFIX_def RTE_MEMZONE_NAMESIZE_def
        RTE_STACK_NAMESIZE_def)
  moreover have "rte_stack_push t ?s (replicate 32 0) = None"
    using s0 by (simp add: rte_stack_push_def rte_stack_std_push_def store_at_def Let_def)
  ultimately show ?thesis by (intro exI [of _ ?s]) auto
qed

lemma rte_stack_create_truncates_witness:
  "\<exists>s e'. rte_stack_create (0::nat) ''s'' 0x20000000 0
      \<lparr>malloc_ok = (\<lambda>_ _. True), mallocs = 0, live = 0, mz_max = 2560, memzones = [], ring_list = [], rte_errno = 0,
        pool = [], stack_list = [], mempool_list = []\<rparr> = Some (Some s, e') \<and> stk_capacity s = 0x20000000
    \<and> rte_stack_push \<lparr>t_pc = LfIdle, t_op = LfPop 0, t_len = 0, t_old = \<lparr>h_top = None, h_cnt = 0\<rparr>,
        t_success = False, t_i = 0, t_tmp = None, t_objs = [], t_first = None, t_last = None\<rparr> s (replicate 32 0) = None"
  by (rule rte_stack_create_truncates) simp_all

end
