(* ===== verification/Timer.thy ===== *)
theory Timer
  imports Prelude "HOL-Library.Monad_Syntax"
begin

text \<open>
  The timer library of DPDK 19.08 (\<open>lib/librte_timer/rte_timer.c\<close>), on which the stack's ARP timer
  runs: every lcore keeps its pending timers in a skip list ordered by their expiry time.

  A timer is a number (\<open>tref\<close>), the address of the caller's \<open>struct rte_timer\<close>; its fields
  are those of the structure, split in the part a caller can see (\<open>tinfo\<close>) and the pointers
  \<open>sl_next\<close> that link the list. A node of a list is \<open>Some t\<close> for a timer and \<open>None\<close> for the dummy
  \<open>pending_head\<close> of the lcore.  One instance of \<open>struct rte_timer_data\<close> is modelled (the default
  one), with \<open>rte_rand\<close> as an arbitrary stream of numbers (\<open>rands\<close>) and the time as an argument of
  the calls that read the clock.

  A call of the library runs without another lcore in between (the lists are under a lock and the
  status word is changed by compare-and-set); the calls of several lcores may follow each other in
  any order.  The lock is kept in the state: taking one that is held is \<open>None\<close>, because the holder
  is the caller itself and \<open>rte_spinlock_lock\<close> would spin for ever.  \<open>None\<close> is also the value of a
  walk along a cycle and of an access to an lcore number out of range.
\<close>

section \<open>The state\<close>

type_synonym tref = nat

datatype rte_timer_state = RTE_TIMER_STOP | RTE_TIMER_PENDING | RTE_TIMER_RUNNING | RTE_TIMER_CONFIG

datatype rte_timer_type = SINGLE | PERIODICAL

definition RTE_TIMER_NO_OWNER :: int where "RTE_TIMER_NO_OWNER = - 2"
definition MAX_SKIPLIST_DEPTH :: nat where "MAX_SKIPLIST_DEPTH = 10"
definition RTE_MAX_LCORE :: nat where "RTE_MAX_LCORE = 128"
definition LCORE_ID_ANY :: nat where "LCORE_ID_ANY = 2 ^ 32 - 1"

record tinfo =
  t_expire :: u64
  t_state :: rte_timer_state
  t_owner :: int
  t_period :: u64
  t_f :: nat

record rte_timer = tinfo +
  sl_next :: "nat \<Rightarrow> tref option"

record pinfo =
  updated :: bool
  prev_lcore :: nat
  running_tim :: "tref option"

record priv_timer = pinfo +
  head_next :: "nat \<Rightarrow> tref option"
  head_expire :: u64
  list_lock :: bool
  curr_skiplist_depth :: nat

record timers =
  tims :: "tref \<Rightarrow> rte_timer"
  privs :: "nat \<Rightarrow> priv_timer"
  rands :: "nat \<Rightarrow> u64"
  rand_pos :: nat

definition upd_tim :: "tref \<Rightarrow> (rte_timer \<Rightarrow> rte_timer) \<Rightarrow> timers \<Rightarrow> timers" where
  "upd_tim t g s = s\<lparr>tims := (tims s)(t := g (tims s t))\<rparr>"

definition upd_priv :: "nat \<Rightarrow> (priv_timer \<Rightarrow> priv_timer) \<Rightarrow> timers \<Rightarrow> timers" where
  "upd_priv c g s = s\<lparr>privs := (privs s)(c := g (privs s c))\<rparr>"

text \<open>\<open>rte_timer_init\<close> and \<open>rte_timer_subsystem_init\<close>: the lists are zeroed memory.\<close>

definition rte_timer_init :: "tref \<Rightarrow> timers \<Rightarrow> timers" where
  "rte_timer_init t = upd_tim t (\<lambda>x. x\<lparr>t_state := RTE_TIMER_STOP, t_owner := RTE_TIMER_NO_OWNER\<rparr>)"

definition priv_timer_init :: "nat \<Rightarrow> priv_timer" where
  "priv_timer_init c = \<lparr>updated = False, prev_lcore = c, running_tim = None, head_next = (\<lambda>_. None),
     head_expire = 0, list_lock = False, curr_skiplist_depth = 0\<rparr>"

definition rte_timer_subsystem_init :: "timers \<Rightarrow> timers" where
  "rte_timer_subsystem_init s = s\<lparr>privs := priv_timer_init\<rparr>"

text \<open>The lock of a list.\<close>

definition list_lock_take :: "nat \<Rightarrow> timers \<Rightarrow> timers option" where
  "list_lock_take c s = (if list_lock (privs s c) then None else Some (upd_priv c (list_lock_update (\<lambda>_. True)) s))"

definition list_lock_release :: "nat \<Rightarrow> timers \<Rightarrow> timers" where
  "list_lock_release c = upd_priv c (list_lock_update (\<lambda>_. False))"

text \<open>The \<open>sl_next\<close> pointer of a node.\<close>

definition node_next :: "timers \<Rightarrow> nat \<Rightarrow> nat \<Rightarrow> tref option \<Rightarrow> tref option" where
  "node_next s c l x = (case x of None \<Rightarrow> head_next (privs s c) l | Some t \<Rightarrow> sl_next (tims s t) l)"

definition set_next :: "nat \<Rightarrow> tref option \<Rightarrow> nat \<Rightarrow> tref option \<Rightarrow> timers \<Rightarrow> timers" where
  "set_next c x l v = (case x of
       None \<Rightarrow> upd_priv c (\<lambda>p. p\<lparr>head_next := (head_next p)(l := v)\<rparr>)
     | Some t \<Rightarrow> upd_tim t (\<lambda>y. y\<lparr>sl_next := (sl_next y)(l := v)\<rparr>))"

section \<open>Changes of the status word\<close>

text \<open>The cast of an lcore number to the 16 bits of the owner field.\<close>

definition owner_of :: "nat \<Rightarrow> int" where "owner_of me = sint (word_of_nat me :: u16)"

text \<open>\<open>timer_set_config_state\<close>: the previous status, or \<open>None\<close> where the code returns -1.\<close>

definition timer_set_config_state :: "nat \<Rightarrow> tref \<Rightarrow> timers \<Rightarrow> ((rte_timer_state \<times> int) \<times> timers) option" where
  "timer_set_config_state me t s =
     (let st = t_state (tims s t); ow = t_owner (tims s t) in
      if st = RTE_TIMER_RUNNING \<and> (ow \<noteq> int (me mod 2 ^ 16) \<or> Some t \<noteq> running_tim (privs s me)) then None
      else if st = RTE_TIMER_CONFIG then None
      else Some ((st, ow), upd_tim t (\<lambda>x. x\<lparr>t_state := RTE_TIMER_CONFIG, t_owner := owner_of me\<rparr>) s))"

definition timer_set_running_state :: "nat \<Rightarrow> tref \<Rightarrow> timers \<Rightarrow> timers option" where
  "timer_set_running_state me t s =
     (if t_state (tims s t) \<noteq> RTE_TIMER_PENDING then None
      else Some (upd_tim t (\<lambda>x. x\<lparr>t_state := RTE_TIMER_RUNNING, t_owner := owner_of me\<rparr>) s))"

section \<open>The skip list\<close>

definition rte_bsf32 :: "u32 \<Rightarrow> nat" where
  "rte_bsf32 v = (case List.find (\<lambda>i. bit v i) [0..<32] of Some i \<Rightarrow> i | None \<Rightarrow> 32)"

definition timer_get_skiplist_level :: "nat \<Rightarrow> u64 \<Rightarrow> nat" where
  "timer_get_skiplist_level curr_depth r =
     (let rand = ucast (r AND 0xfffffffe) :: u32;
          level = (if rand = 0 then MAX_SKIPLIST_DEPTH else (rte_bsf32 rand - 1) div 2);
          level = (if level > curr_depth then curr_depth else level)
      in if level \<ge> MAX_SKIPLIST_DEPTH then MAX_SKIPLIST_DEPTH - 1 else level)"

text \<open>The inner loops: go on while the next node satisfies \<open>P\<close>.\<close>

partial_function (option) sl_walk ::
    "(tref option \<Rightarrow> tref option) \<Rightarrow> (tref \<Rightarrow> bool) \<Rightarrow> tref option \<Rightarrow> tref option option" where
  "sl_walk nx P x = (case nx x of
       None \<Rightarrow> Some x
     | Some t \<Rightarrow> if P t then sl_walk nx P (Some t) else Some x)"

primrec prev_levels ::
    "timers \<Rightarrow> nat \<Rightarrow> u64 \<Rightarrow> nat \<Rightarrow> (nat \<Rightarrow> tref option) \<Rightarrow> (nat \<Rightarrow> tref option) option" where
  "prev_levels s c tv 0 prev = Some prev"
| "prev_levels s c tv (Suc lvl) prev = do {
     x \<leftarrow> sl_walk (node_next s c lvl) (\<lambda>t. t_expire (tims s t) \<le> tv) (prev (Suc lvl));
     prev_levels s c tv lvl (prev(lvl := x)) }"

definition timer_get_prev_entries :: "u64 \<Rightarrow> nat \<Rightarrow> timers \<Rightarrow> (nat \<Rightarrow> tref option) option" where
  "timer_get_prev_entries tv c s = prev_levels s c tv (curr_skiplist_depth (privs s c)) (\<lambda>_. None)"

primrec prev_levels_for_node ::
    "timers \<Rightarrow> nat \<Rightarrow> tref \<Rightarrow> nat \<Rightarrow> (nat \<Rightarrow> tref option) \<Rightarrow> (nat \<Rightarrow> tref option) option" where
  "prev_levels_for_node s c tim 0 prev = Some prev"
| "prev_levels_for_node s c tim (Suc i) prev = do {
     x \<leftarrow> sl_walk (node_next s c i)
            (\<lambda>t. t \<noteq> tim \<and> t_expire (tims s t) \<le> t_expire (tims s tim)) (prev i);
     prev_levels_for_node s c tim i (prev(i := x)) }"

definition timer_get_prev_entries_for_node :: "tref \<Rightarrow> nat \<Rightarrow> timers \<Rightarrow> (nat \<Rightarrow> tref option) option" where
  "timer_get_prev_entries_for_node tim c s = do {
     prev \<leftarrow> timer_get_prev_entries (t_expire (tims s tim) - 1) c s;
     prev_levels_for_node s c tim (curr_skiplist_depth (privs s c)) prev }"

text \<open>\<open>timer_add\<close>: the pointers are set from the timer's level down to level 0.\<close>

definition link_level :: "nat \<Rightarrow> (nat \<Rightarrow> tref option) \<Rightarrow> tref \<Rightarrow> nat \<Rightarrow> timers \<Rightarrow> timers" where
  "link_level c prev tim l s =
     (let s = set_next c (Some tim) l (node_next s c l (prev l)) s in set_next c (prev l) l (Some tim) s)"

primrec link_levels :: "nat \<Rightarrow> (nat \<Rightarrow> tref option) \<Rightarrow> tref \<Rightarrow> nat \<Rightarrow> timers \<Rightarrow> timers" where
  "link_levels c prev tim 0 s = link_level c prev tim 0 s"
| "link_levels c prev tim (Suc l) s = link_levels c prev tim l (link_level c prev tim (Suc l) s)"

definition first_expire :: "nat \<Rightarrow> timers \<Rightarrow> u64" where
  "first_expire c s = (case head_next (privs s c) 0 of None \<Rightarrow> 0 | Some n \<Rightarrow> t_expire (tims s n))"

definition timer_add :: "tref \<Rightarrow> nat \<Rightarrow> timers \<Rightarrow> timers option" where
  "timer_add tim c s = do {
     prev \<leftarrow> timer_get_prev_entries (t_expire (tims s tim)) c s;
     let depth = curr_skiplist_depth (privs s c);
     let tim_level = timer_get_skiplist_level depth (rands s (rand_pos s));
     let s = s\<lparr>rand_pos := rand_pos s + 1\<rparr>;
     let s = (if tim_level = depth then upd_priv c (\<lambda>p. p\<lparr>curr_skiplist_depth := depth + 1\<rparr>) s else s);
     let s = link_levels c prev tim tim_level s;
     Some (upd_priv c (\<lambda>p. p\<lparr>head_expire := first_expire c s\<rparr>) s) }"

text \<open>\<open>timer_del\<close>: unlink at every level where the timer is found, then lower the depth.\<close>

definition unlink_level :: "nat \<Rightarrow> (nat \<Rightarrow> tref option) \<Rightarrow> tref \<Rightarrow> nat \<Rightarrow> timers \<Rightarrow> timers" where
  "unlink_level c prev tim i s =
     (if node_next s c i (prev i) = Some tim then set_next c (prev i) i (node_next s c i (Some tim)) s else s)"

primrec unlink_levels :: "nat \<Rightarrow> (nat \<Rightarrow> tref option) \<Rightarrow> tref \<Rightarrow> nat \<Rightarrow> timers \<Rightarrow> timers" where
  "unlink_levels c prev tim 0 s = s"
| "unlink_levels c prev tim (Suc i) s = unlink_levels c prev tim i (unlink_level c prev tim i s)"

primrec lower_depth :: "(nat \<Rightarrow> tref option) \<Rightarrow> nat \<Rightarrow> nat" where
  "lower_depth h 0 = 0"
| "lower_depth h (Suc i) = (if h i = None then lower_depth h i else Suc i)"

definition timer_unlink :: "tref \<Rightarrow> nat \<Rightarrow> timers \<Rightarrow> timers option" where
  "timer_unlink tim c s = do {
     let s = (if head_next (privs s c) 0 = Some tim
              then upd_priv c (\<lambda>p. p\<lparr>head_expire :=
                     (case sl_next (tims s tim) 0 of None \<Rightarrow> 0 | Some n \<Rightarrow> t_expire (tims s n))\<rparr>) s
              else s);
     prev \<leftarrow> timer_get_prev_entries_for_node tim c s;
     let s = unlink_levels c prev tim (curr_skiplist_depth (privs s c)) s;
     Some (upd_priv c (\<lambda>p. p\<lparr>curr_skiplist_depth :=
       lower_depth (head_next p) (curr_skiplist_depth p)\<rparr>) s) }"

definition timer_del :: "nat \<Rightarrow> tref \<Rightarrow> int \<Rightarrow> bool \<Rightarrow> timers \<Rightarrow> timers option" where
  "timer_del me tim prev_owner local_is_locked s =
     (let c = nat prev_owner; lk = (c \<noteq> me \<or> \<not> local_is_locked) in
      if prev_owner < 0 \<or> RTE_MAX_LCORE \<le> c then None else do {
        s \<leftarrow> (if lk then list_lock_take c s else Some s);
        s \<leftarrow> timer_unlink tim c s;
        Some (if lk then list_lock_release c s else s) })"

section \<open>Reset and stop\<close>

text \<open>\<open>rte_get_next_lcore\<close> of \<open>rte_lcore.h\<close>; \<open>en\<close> is \<open>rte_lcore_is_enabled\<close>.\<close>

partial_function (option) next_lcore_loop ::
    "(nat \<Rightarrow> bool) \<Rightarrow> nat \<Rightarrow> bool \<Rightarrow> bool \<Rightarrow> nat \<Rightarrow> nat option" where
  "next_lcore_loop en master skip_master wrap i =
     (if i < RTE_MAX_LCORE \<and> (\<not> en i \<or> (skip_master \<and> i = master))
      then next_lcore_loop en master skip_master wrap (if wrap then (i + 1) mod RTE_MAX_LCORE else i + 1)
      else Some i)"

definition rte_get_next_lcore :: "(nat \<Rightarrow> bool) \<Rightarrow> nat \<Rightarrow> nat \<Rightarrow> bool \<Rightarrow> bool \<Rightarrow> nat option" where
  "rte_get_next_lcore en master i skip_master wrap =
     next_lcore_loop en master skip_master wrap
       (let i = (i + 1) mod 2 ^ 32 in if wrap then i mod RTE_MAX_LCORE else i)"

text \<open>The lcore a timer goes to: the one asked for, or the next one in turn.\<close>

definition pick_lcore :: "(nat \<Rightarrow> bool) \<Rightarrow> nat \<Rightarrow> nat \<Rightarrow> (nat \<Rightarrow> nat) \<Rightarrow> (nat \<times> (nat \<Rightarrow> nat)) option" where
  "pick_lcore en me tim_lcore prv =
     (if tim_lcore = LCORE_ID_ANY then
        if me < RTE_MAX_LCORE
        then do { c \<leftarrow> rte_get_next_lcore en 0 (prv me) False True; Some (c, prv(me := c)) }
        else do { c \<leftarrow> rte_get_next_lcore en 0 LCORE_ID_ANY False True; Some (c, prv) }
      else Some (tim_lcore, prv))"

definition set_prev_lcores :: "(nat \<Rightarrow> nat) \<Rightarrow> timers \<Rightarrow> timers" where
  "set_prev_lcores prv s = s\<lparr>privs := (\<lambda>c. (privs s c)\<lparr>prev_lcore := prv c\<rparr>)\<rparr>"

text \<open>Both calls take a timer out of its list in the same way.\<close>

definition timer_detach :: "nat \<Rightarrow> tref \<Rightarrow> rte_timer_state \<times> int \<Rightarrow> bool \<Rightarrow> timers \<Rightarrow> timers option" where
  "timer_detach me tim prev_status local_is_locked s =
     (let s = (if fst prev_status = RTE_TIMER_RUNNING \<and> me < RTE_MAX_LCORE
               then upd_priv me (updated_update (\<lambda>_. True)) s else s) in
      if fst prev_status = RTE_TIMER_PENDING then timer_del me tim (snd prev_status) local_is_locked s
      else Some s)"

definition timer_attach :: "nat \<Rightarrow> tref \<Rightarrow> nat \<Rightarrow> bool \<Rightarrow> timers \<Rightarrow> timers option" where
  "timer_attach me tim c local_is_locked s =
     (let lk = (c \<noteq> me \<or> \<not> local_is_locked) in
      if RTE_MAX_LCORE \<le> c then None else do {
        s \<leftarrow> (if lk then list_lock_take c s else Some s);
        s \<leftarrow> timer_add tim c s;
        let s = upd_tim tim (\<lambda>x. x\<lparr>t_state := RTE_TIMER_PENDING, t_owner := int c\<rparr>) s;
        Some (if lk then list_lock_release c s else s) })"

definition timer_reset_at :: "(nat \<Rightarrow> bool) \<Rightarrow> nat \<Rightarrow> tref \<Rightarrow> u64 \<Rightarrow> u64 \<Rightarrow> nat \<Rightarrow> nat \<Rightarrow> bool \<Rightarrow> timers
    \<Rightarrow> (int \<times> timers) option" where
  "timer_reset_at en me tim ex period tim_lcore f local_is_locked s = do {
     (c, prv) \<leftarrow> pick_lcore en me tim_lcore (\<lambda>c. prev_lcore (privs s c));
     let s = set_prev_lcores prv s;
     (case timer_set_config_state me tim s of
        None \<Rightarrow> Some (- 1, s)
      | Some (prev_status, s) \<Rightarrow> do {
          s \<leftarrow> timer_detach me tim prev_status local_is_locked s;
          s \<leftarrow> timer_attach me tim c local_is_locked
                (upd_tim tim (\<lambda>x. x\<lparr>t_period := period, t_expire := ex, t_f := f\<rparr>) s);
          Some (0, s) }) }"

definition rte_timer_reset :: "(nat \<Rightarrow> bool) \<Rightarrow> nat \<Rightarrow> u64 \<Rightarrow> tref \<Rightarrow> u64 \<Rightarrow> rte_timer_type \<Rightarrow> nat \<Rightarrow> nat
    \<Rightarrow> timers \<Rightarrow> (int \<times> timers) option" where
  "rte_timer_reset en me cur_time tim ticks ty tim_lcore f s =
     timer_reset_at en me tim (cur_time + ticks) (if ty = PERIODICAL then ticks else 0) tim_lcore f False s"

definition timer_stop_with :: "nat \<Rightarrow> tref \<Rightarrow> bool \<Rightarrow> timers \<Rightarrow> (int \<times> timers) option" where
  "timer_stop_with me tim local_is_locked s =
     (case timer_set_config_state me tim s of
        None \<Rightarrow> Some (- 1, s)
      | Some (prev_status, s) \<Rightarrow> do {
          s \<leftarrow> timer_detach me tim prev_status local_is_locked s;
          Some (0, upd_tim tim (\<lambda>x. x\<lparr>t_state := RTE_TIMER_STOP, t_owner := RTE_TIMER_NO_OWNER\<rparr>) s) })"

definition rte_timer_stop :: "nat \<Rightarrow> tref \<Rightarrow> timers \<Rightarrow> (int \<times> timers) option" where
  "rte_timer_stop me tim s = timer_stop_with me tim False s"

definition rte_timer_pending :: "tref \<Rightarrow> timers \<Rightarrow> bool" where
  "rte_timer_pending tim s \<longleftrightarrow> t_state (tims s tim) = RTE_TIMER_PENDING"

section \<open>Running the expired timers\<close>

text \<open>The calls a callback makes, in order; \<open>TReset\<close> carries the time it reads.\<close>

datatype tcall = TReset u64 tref u64 rte_timer_type nat nat | TStop tref

primrec tcall_exec :: "(nat \<Rightarrow> bool) \<Rightarrow> nat \<Rightarrow> tcall \<Rightarrow> timers \<Rightarrow> (int \<times> timers) option" where
  "tcall_exec en me (TReset now tim ticks ty c f) s = rte_timer_reset en me now tim ticks ty c f s"
| "tcall_exec en me (TStop tim) s = rte_timer_stop me tim s"

primrec tcalls_exec :: "(nat \<Rightarrow> bool) \<Rightarrow> nat \<Rightarrow> tcall list \<Rightarrow> timers \<Rightarrow> (int list \<times> timers) option" where
  "tcalls_exec en me [] s = Some ([], s)"
| "tcalls_exec en me (op # ops) s = do {
     (r, s) \<leftarrow> tcall_exec en me op s;
     (rs, s) \<leftarrow> tcalls_exec en me ops s;
     Some (r # rs, s) }"

text \<open>Break the list at the current time: everything up to \<open>prev\<close> leaves the lists.\<close>

definition cut_level :: "nat \<Rightarrow> (nat \<Rightarrow> tref option) \<Rightarrow> nat \<Rightarrow> timers \<Rightarrow> timers" where
  "cut_level c prev i s =
     (if prev i = None then s
      else let n = node_next s c i (prev i);
               s = set_next c None i n s;
               s = (if n = None then upd_priv c (\<lambda>p. p\<lparr>curr_skiplist_depth := curr_skiplist_depth p - 1\<rparr>) s else s)
           in set_next c (prev i) i None s)"

primrec cut_levels :: "nat \<Rightarrow> (nat \<Rightarrow> tref option) \<Rightarrow> nat \<Rightarrow> timers \<Rightarrow> timers" where
  "cut_levels c prev 0 s = s"
| "cut_levels c prev (Suc i) s = cut_levels c prev i (cut_level c prev i s)"

text \<open>Mark the cut-off list as running; \<open>pprev\<close> is the pointer that led to the timer (\<open>None\<close>: the
  variable \<open>run_first_tim\<close>).\<close>

partial_function (option) run_transition ::
    "nat \<Rightarrow> tref option \<Rightarrow> tref option \<Rightarrow> tref option \<Rightarrow> timers \<Rightarrow> (tref option \<times> timers) option" where
  "run_transition me pprev tim run_first s =
     (if tim = None then Some (run_first, s)
      else case timer_set_running_state me (the tim) s of
          Some s' \<Rightarrow> run_transition me tim (sl_next (tims s (the tim)) 0) run_first s'
        | None \<Rightarrow>
            (if pprev = None
             then run_transition me pprev (sl_next (tims s (the tim)) 0) (sl_next (tims s (the tim)) 0) s
             else run_transition me pprev (sl_next (tims s (the tim)) 0) run_first
                    (set_next me pprev 0 (sl_next (tims s (the tim)) 0) s)))"

definition run_finish :: "(nat \<Rightarrow> bool) \<Rightarrow> nat \<Rightarrow> tref \<Rightarrow> timers \<Rightarrow> timers option" where
  "run_finish en me tim s =
     (if updated (privs s me) then Some s
      else if t_period (tims s tim) = 0 then
        Some (upd_tim tim (\<lambda>x. x\<lparr>t_state := RTE_TIMER_STOP, t_owner := RTE_TIMER_NO_OWNER\<rparr>) s)
      else do {
        s \<leftarrow> list_lock_take me s;
        let s = upd_tim tim (\<lambda>x. x\<lparr>t_state := RTE_TIMER_PENDING, t_owner := int me\<rparr>) s;
        let x = tims s tim;
        (r, s) \<leftarrow> timer_reset_at en me tim (t_expire x + t_period x) (t_period x) me (t_f x) True s;
        Some (list_lock_release me s) })"

partial_function (option) run_timers ::
    "(nat \<Rightarrow> bool) \<Rightarrow> nat \<Rightarrow> (tref \<Rightarrow> tcall list) \<Rightarrow> tref option \<Rightarrow> timers \<Rightarrow> ((tref \<times> int list) list \<times> timers) option" where
  "run_timers en me cb tim s =
     (if tim = None then Some ([], upd_priv me (running_tim_update (\<lambda>_. None)) s)
      else do {
        (rs, s') \<leftarrow> tcalls_exec en me (cb (the tim))
            (upd_priv me (\<lambda>p. p\<lparr>updated := False, running_tim := tim\<rparr>) s);
        s' \<leftarrow> run_finish en me (the tim) s';
        (lg, s') \<leftarrow> run_timers en me cb (sl_next (tims s (the tim)) 0) s';
        Some ((the tim, rs) # lg, s') })"

text \<open>\<open>rte_timer_manage\<close>: the timers whose callbacks ran, in order, each with what the calls it made
  returned.\<close>

definition rte_timer_manage :: "(nat \<Rightarrow> bool) \<Rightarrow> nat \<Rightarrow> u64 \<Rightarrow> (tref \<Rightarrow> tcall list) \<Rightarrow> timers
    \<Rightarrow> ((tref \<times> int list) list \<times> timers) option" where
  "rte_timer_manage en me cur_time cb s =
     (if RTE_MAX_LCORE \<le> me then None
      else if head_next (privs s me) 0 = None then Some ([], s)
      else if head_expire (privs s me) > cur_time then Some ([], s)
      else do {
        s \<leftarrow> list_lock_take me s;
        if head_next (privs s me) 0 = None \<or> first_expire me s > cur_time
        then Some ([], list_lock_release me s)
        else do {
          let tim = head_next (privs s me) 0;
          prev \<leftarrow> timer_get_prev_entries cur_time me s;
          let s = cut_levels me prev (curr_skiplist_depth (privs s me)) s;
          (run_first, s) \<leftarrow> run_transition me None tim tim s;
          let s = upd_priv me (\<lambda>p. p\<lparr>head_expire := first_expire me s\<rparr>) s;
          run_timers en me cb run_first (list_lock_release me s) } })"

text \<open>\<open>rte_timer_stop_all\<close> over one lcore's list; \<open>cb\<close> gives the calls of the caller's function.\<close>

partial_function (option) stop_list ::
    "(nat \<Rightarrow> bool) \<Rightarrow> nat \<Rightarrow> (tref \<Rightarrow> tcall list) \<Rightarrow> tref option \<Rightarrow> timers \<Rightarrow> timers option" where
  "stop_list en me cb tim s =
     (if tim = None then Some s
      else do {
        (r, s') \<leftarrow> timer_stop_with me (the tim) True s;
        (rs, s') \<leftarrow> tcalls_exec en me (cb (the tim)) s';
        stop_list en me cb (sl_next (tims s (the tim)) 0) s' })"

primrec rte_timer_stop_all ::
    "(nat \<Rightarrow> bool) \<Rightarrow> nat \<Rightarrow> (tref \<Rightarrow> tcall list) \<Rightarrow> nat list \<Rightarrow> timers \<Rightarrow> timers option" where
  "rte_timer_stop_all en me cb [] s = Some s"
| "rte_timer_stop_all en me cb (c # cs) s = do {
     s \<leftarrow> list_lock_take c s;
     s \<leftarrow> stop_list en me cb (head_next (privs s c) 0) s;
     rte_timer_stop_all en me cb cs (list_lock_release c s) }"

end
