(* ===== verification/Mempool.thy ===== *)
theory Mempool
  imports Stack_Std Timer
begin

text \<open>
  \<open>librte_mempool\<close>, the pools of equally sized objects that packet buffers come from: the pool structure,
  its drivers (a ring in four variants, \<open>rte_mempool_ring.c\<close>, and a stack, \<open>rte_mempool_stack.c\<close>) behind
  a table of operations (\<open>rte_mempool_ops.c\<close>), and the calls that take and give back objects through a
  cache for each logical core (\<open>rte_mempool.h\<close>).  Objects are addresses.  \<open>Mempool_Create\<close> has the creation
  of pools, \<open>Mempool_Cache\<close> and \<open>Mempool_Props\<close> the proofs.

  \<open>None\<close> is the end of the process or a memory error: an operation missing in the table, pool data of the
  wrong kind, an access outside a cache's array.
\<close>

section \<open>State\<close>

definition RTE_MEMPOOL_CACHE_MAX_SIZE :: u32 where "RTE_MEMPOOL_CACHE_MAX_SIZE = 512"
definition MEMPOOL_F_NO_SPREAD :: u32 where "MEMPOOL_F_NO_SPREAD = 0x0001"
definition MEMPOOL_F_NO_CACHE_ALIGN :: u32 where "MEMPOOL_F_NO_CACHE_ALIGN = 0x0002"
definition MEMPOOL_F_SP_PUT :: u32 where "MEMPOOL_F_SP_PUT = 0x0004"
definition MEMPOOL_F_SC_GET :: u32 where "MEMPOOL_F_SC_GET = 0x0008"
definition MEMPOOL_F_POOL_CREATED :: u32 where "MEMPOOL_F_POOL_CREATED = 0x0010"
definition MEMPOOL_F_NO_IOVA_CONTIG :: u32 where "MEMPOOL_F_NO_IOVA_CONTIG = 0x0020"

text \<open>\<open>objs\<close> has \<open>RTE_MEMPOOL_CACHE_MAX_SIZE * 3\<close> places.\<close>

record rte_mempool_cache =
  mc_size :: u32
  mc_flushthresh :: u32
  mc_len :: u32
  mc_objs :: "nat list"

datatype pool_data = PoolNull | PoolRing "nat rte_ring" | PoolStack "nat rte_stack"

text \<open>A chunk of memory; \<open>mh_free\<close> is the memory zone its free callback gives back.\<close>

record rte_mempool_memhdr =
  mh_block :: nat
  mh_addr :: nat
  mh_iova :: "nat option"
  mh_len :: nat
  mh_free :: "nat option"

record rte_mempool =
  mp_name :: string
  mp_pool_data :: pool_data
  mp_mz :: nat
  mp_flags :: u32
  mp_socket_id :: int
  mp_size :: u32
  mp_cache_size :: u32
  mp_elt_size :: u32
  mp_header_size :: u32
  mp_trailer_size :: u32
  mp_private_data_size :: u32
  mp_ops_index :: nat
  mp_local_cache :: "rte_mempool_cache list"
  mp_populated_size :: u32
  mp_elt_list :: "(nat \<times> nat option) list"
  mp_nb_mem_chunks :: u32
  mp_mem_list :: "rte_mempool_memhdr list"

section \<open>Drivers\<close>

record rte_mempool_ops =
  op_name :: string
  op_alloc :: "(rte_mempool \<Rightarrow> pool_env \<Rightarrow> (int \<times> rte_mempool \<times> pool_env) option) option"
  op_free :: "(rte_mempool \<Rightarrow> pool_env \<Rightarrow> pool_env option) option"
  op_enqueue :: "(rte_mempool \<Rightarrow> nat list \<Rightarrow> (int \<times> rte_mempool) option) option"
  op_dequeue :: "(rte_mempool \<Rightarrow> u32 \<Rightarrow> (int \<times> nat list \<times> rte_mempool) option) option"
  op_get_count :: "(rte_mempool \<Rightarrow> u32 option) option"
  op_calc_mem_size :: "(rte_mempool \<Rightarrow> u32 \<Rightarrow> nat \<Rightarrow> int \<times> nat \<times> nat) option"
  op_populate :: "(rte_mempool \<Rightarrow> u32 \<Rightarrow> nat \<Rightarrow> nat option \<Rightarrow> nat
    \<Rightarrow> (rte_mempool \<Rightarrow> nat \<Rightarrow> nat option \<Rightarrow> rte_mempool) \<Rightarrow> (int \<times> rte_mempool) option) option"

definition RTE_MEMPOOL_MZ_PREFIX :: string where "RTE_MEMPOOL_MZ_PREFIX = ''MP_''"
definition RTE_RING_NAMESIZE :: nat where "RTE_RING_NAMESIZE = RTE_MEMZONE_NAMESIZE - 4 + 1"

definition ring_of :: "rte_mempool \<Rightarrow> nat rte_ring option" where
  "ring_of mp = (case mp_pool_data mp of PoolRing r \<Rightarrow> Some r | _ \<Rightarrow> None)"

definition stack_of :: "rte_mempool \<Rightarrow> nat rte_stack option" where
  "stack_of mp = (case mp_pool_data mp of PoolStack s \<Rightarrow> Some s | _ \<Rightarrow> None)"

definition common_ring_mp_enqueue :: "rte_mempool \<Rightarrow> nat list \<Rightarrow> (int \<times> rte_mempool) option" where
  "common_ring_mp_enqueue mp objs =
    map_option (\<lambda>r. case rte_ring_mp_enqueue_bulk r objs of
      (n, _, r) \<Rightarrow> (if n = 0 then - ENOBUFS else 0, mp\<lparr>mp_pool_data := PoolRing r\<rparr>)) (ring_of mp)"

definition common_ring_sp_enqueue :: "rte_mempool \<Rightarrow> nat list \<Rightarrow> (int \<times> rte_mempool) option" where
  "common_ring_sp_enqueue mp objs =
    map_option (\<lambda>r. case rte_ring_sp_enqueue_bulk r objs of
      (n, _, r) \<Rightarrow> (if n = 0 then - ENOBUFS else 0, mp\<lparr>mp_pool_data := PoolRing r\<rparr>)) (ring_of mp)"

definition common_ring_mc_dequeue :: "rte_mempool \<Rightarrow> u32 \<Rightarrow> (int \<times> nat list \<times> rte_mempool) option" where
  "common_ring_mc_dequeue mp n =
    map_option (\<lambda>r. case rte_ring_mc_dequeue_bulk r n of
      (xs, _, r) \<Rightarrow> (if xs = [] then - ENOBUFS else 0, xs, mp\<lparr>mp_pool_data := PoolRing r\<rparr>)) (ring_of mp)"

definition common_ring_sc_dequeue :: "rte_mempool \<Rightarrow> u32 \<Rightarrow> (int \<times> nat list \<times> rte_mempool) option" where
  "common_ring_sc_dequeue mp n =
    map_option (\<lambda>r. case rte_ring_sc_dequeue_bulk r n of
      (xs, _, r) \<Rightarrow> (if xs = [] then - ENOBUFS else 0, xs, mp\<lparr>mp_pool_data := PoolRing r\<rparr>)) (ring_of mp)"

definition common_ring_get_count :: "rte_mempool \<Rightarrow> u32 option" where
  "common_ring_get_count mp = map_option rte_ring_count (ring_of mp)"

definition common_ring_alloc :: "rte_mempool \<Rightarrow> pool_env \<Rightarrow> (int \<times> rte_mempool \<times> pool_env) option" where
  "common_ring_alloc mp e =
    (let rg_name = RTE_MEMPOOL_MZ_PREFIX @ mp_name mp
     in if length rg_name \<ge> RTE_RING_NAMESIZE then Some (- ENAMETOOLONG, mp, e\<lparr>rte_errno := ENAMETOOLONG\<rparr>)
        else
         let rg_flags = (if mp_flags mp AND MEMPOOL_F_SP_PUT \<noteq> 0 then RING_F_SP_ENQ else 0)
               OR (if mp_flags mp AND MEMPOOL_F_SC_GET \<noteq> 0 then RING_F_SC_DEQ else 0)
         in case rte_ring_create 0 rg_name (rte_align32pow2 (mp_size mp + 1)) rg_flags e of
              (None, e) \<Rightarrow> Some (- rte_errno e, mp, e)
            | (Some r, e) \<Rightarrow> Some (0, mp\<lparr>mp_pool_data := PoolRing r\<rparr>, e))"

definition common_ring_free :: "rte_mempool \<Rightarrow> pool_env \<Rightarrow> pool_env option" where
  "common_ring_free mp e =
    (case mp_pool_data mp of
       PoolNull \<Rightarrow> Some (rte_ring_free (None :: nat rte_ring option) e)
     | PoolRing r \<Rightarrow> Some (rte_ring_free (Some r) e)
     | PoolStack _ \<Rightarrow> None)"

text \<open>\<open>lf_thread0\<close>: the local variables of a lock-free call, whatever they hold.\<close>

definition lf_thread0 :: "nat lf_thread" where
  "lf_thread0 = \<lparr>t_pc = LfIdle, t_op = LfPop 0, t_len = 0, t_old = \<lparr>h_top = None, h_cnt = 0\<rparr>,
     t_success = False, t_i = 0, t_tmp = None, t_objs = [], t_first = None, t_last = None\<rparr>"

definition stack_alloc_flags ::
  "u32 \<Rightarrow> rte_mempool \<Rightarrow> pool_env \<Rightarrow> (int \<times> rte_mempool \<times> pool_env) option" where
  "stack_alloc_flags flags mp e =
    (let name = RTE_MEMPOOL_MZ_PREFIX @ mp_name mp
     in if length name \<ge> RTE_STACK_NAMESIZE then Some (- ENAMETOOLONG, mp, e\<lparr>rte_errno := ENAMETOOLONG\<rparr>)
        else case rte_stack_create 0 name (mp_size mp) flags e of
          None \<Rightarrow> None
        | Some (None, e) \<Rightarrow> Some (- rte_errno e, mp, e)
        | Some (Some s, e) \<Rightarrow> Some (0, mp\<lparr>mp_pool_data := PoolStack s\<rparr>, e))"

definition stack_enqueue :: "rte_mempool \<Rightarrow> nat list \<Rightarrow> (int \<times> rte_mempool) option" where
  "stack_enqueue mp objs =
    (case stack_of mp of
       None \<Rightarrow> None
     | Some s \<Rightarrow> map_option (\<lambda>(n, s). (if n = 0 then - ENOBUFS else 0, mp\<lparr>mp_pool_data := PoolStack s\<rparr>))
                  (rte_stack_push lf_thread0 s objs))"

definition stack_dequeue :: "rte_mempool \<Rightarrow> u32 \<Rightarrow> (int \<times> nat list \<times> rte_mempool) option" where
  "stack_dequeue mp n =
    (case stack_of mp of
       None \<Rightarrow> None
     | Some s \<Rightarrow> map_option (\<lambda>(k, xs, s). (if k = 0 then - ENOBUFS else 0, xs, mp\<lparr>mp_pool_data := PoolStack s\<rparr>))
                  (rte_stack_pop lf_thread0 s n))"

definition stack_get_count :: "rte_mempool \<Rightarrow> u32 option" where
  "stack_get_count mp = map_option rte_stack_count (stack_of mp)"

definition stack_free :: "rte_mempool \<Rightarrow> pool_env \<Rightarrow> pool_env option" where
  "stack_free mp e =
    (case mp_pool_data mp of
       PoolNull \<Rightarrow> Some (rte_stack_free (None :: nat rte_stack option) e)
     | PoolStack s \<Rightarrow> Some (rte_stack_free (Some s) e)
     | PoolRing _ \<Rightarrow> None)"

definition ops_mp_mc :: rte_mempool_ops where
  "ops_mp_mc = \<lparr>op_name = ''ring_mp_mc'', op_alloc = Some common_ring_alloc, op_free = Some common_ring_free,
     op_enqueue = Some common_ring_mp_enqueue, op_dequeue = Some common_ring_mc_dequeue,
     op_get_count = Some common_ring_get_count, op_calc_mem_size = None, op_populate = None\<rparr>"

definition ops_sp_sc :: rte_mempool_ops where
  "ops_sp_sc = \<lparr>op_name = ''ring_sp_sc'', op_alloc = Some common_ring_alloc, op_free = Some common_ring_free,
     op_enqueue = Some common_ring_sp_enqueue, op_dequeue = Some common_ring_sc_dequeue,
     op_get_count = Some common_ring_get_count, op_calc_mem_size = None, op_populate = None\<rparr>"

definition ops_mp_sc :: rte_mempool_ops where
  "ops_mp_sc = \<lparr>op_name = ''ring_mp_sc'', op_alloc = Some common_ring_alloc, op_free = Some common_ring_free,
     op_enqueue = Some common_ring_mp_enqueue, op_dequeue = Some common_ring_sc_dequeue,
     op_get_count = Some common_ring_get_count, op_calc_mem_size = None, op_populate = None\<rparr>"

definition ops_sp_mc :: rte_mempool_ops where
  "ops_sp_mc = \<lparr>op_name = ''ring_sp_mc'', op_alloc = Some common_ring_alloc, op_free = Some common_ring_free,
     op_enqueue = Some common_ring_sp_enqueue, op_dequeue = Some common_ring_mc_dequeue,
     op_get_count = Some common_ring_get_count, op_calc_mem_size = None, op_populate = None\<rparr>"

definition ops_stack :: rte_mempool_ops where
  "ops_stack = \<lparr>op_name = ''stack'', op_alloc = Some (stack_alloc_flags 0), op_free = Some stack_free,
     op_enqueue = Some stack_enqueue, op_dequeue = Some stack_dequeue, op_get_count = Some stack_get_count,
     op_calc_mem_size = None, op_populate = None\<rparr>"

definition ops_lf_stack :: rte_mempool_ops where
  "ops_lf_stack = \<lparr>op_name = ''lf_stack'', op_alloc = Some (stack_alloc_flags RTE_STACK_F_LF), op_free = Some stack_free,
     op_enqueue = Some stack_enqueue, op_dequeue = Some stack_dequeue, op_get_count = Some stack_get_count,
     op_calc_mem_size = None, op_populate = None\<rparr>"

section \<open>The table of operations\<close>

definition RTE_MEMPOOL_MAX_OPS_IDX :: nat where "RTE_MEMPOOL_MAX_OPS_IDX = 16"
definition RTE_MEMPOOL_OPS_NAMESIZE :: nat where "RTE_MEMPOOL_OPS_NAMESIZE = 32"

definition rte_mempool_register_ops ::
  "rte_mempool_ops \<Rightarrow> rte_mempool_ops list \<Rightarrow> 'z eal_scheme \<Rightarrow> int \<times> rte_mempool_ops list \<times> 'z eal_scheme" where
  "rte_mempool_register_ops h table e =
    (if length table \<ge> RTE_MEMPOOL_MAX_OPS_IDX then (- ENOSPC, table, e)
     else if op_alloc h = None \<or> op_enqueue h = None \<or> op_dequeue h = None \<or> op_get_count h = None
     then (- EINVAL, table, e)
     else if length (op_name h) \<ge> RTE_MEMPOOL_OPS_NAMESIZE - 1 then (- EEXIST, table, e\<lparr>rte_errno := EEXIST\<rparr>)
     else (int (length table), table @ [h], e))"

definition rte_mempool_get_ops :: "rte_mempool_ops list \<Rightarrow> nat \<Rightarrow> rte_mempool_ops option" where
  "rte_mempool_get_ops table i = (if i < length table then Some (table ! i) else None)"

definition rte_mempool_ops_alloc ::
  "rte_mempool_ops list \<Rightarrow> rte_mempool \<Rightarrow> pool_env \<Rightarrow> (int \<times> rte_mempool \<times> pool_env) option" where
  "rte_mempool_ops_alloc table mp e =
    (case Option.bind (rte_mempool_get_ops table (mp_ops_index mp)) op_alloc of
       None \<Rightarrow> None | Some f \<Rightarrow> f mp e)"

definition rte_mempool_ops_free :: "rte_mempool_ops list \<Rightarrow> rte_mempool \<Rightarrow> pool_env \<Rightarrow> pool_env option" where
  "rte_mempool_ops_free table mp e =
    (case rte_mempool_get_ops table (mp_ops_index mp) of
       None \<Rightarrow> None
     | Some ops \<Rightarrow> (case op_free ops of None \<Rightarrow> Some e | Some f \<Rightarrow> f mp e))"

definition rte_mempool_ops_enqueue_bulk ::
  "rte_mempool_ops list \<Rightarrow> rte_mempool \<Rightarrow> nat list \<Rightarrow> (int \<times> rte_mempool) option" where
  "rte_mempool_ops_enqueue_bulk table mp objs =
    (case Option.bind (rte_mempool_get_ops table (mp_ops_index mp)) op_enqueue of
       None \<Rightarrow> None | Some f \<Rightarrow> f mp objs)"

definition rte_mempool_ops_dequeue_bulk ::
  "rte_mempool_ops list \<Rightarrow> rte_mempool \<Rightarrow> u32 \<Rightarrow> (int \<times> nat list \<times> rte_mempool) option" where
  "rte_mempool_ops_dequeue_bulk table mp n =
    (case Option.bind (rte_mempool_get_ops table (mp_ops_index mp)) op_dequeue of
       None \<Rightarrow> None | Some f \<Rightarrow> f mp n)"

definition rte_mempool_ops_get_count :: "rte_mempool_ops list \<Rightarrow> rte_mempool \<Rightarrow> u32 option" where
  "rte_mempool_ops_get_count table mp =
    (case Option.bind (rte_mempool_get_ops table (mp_ops_index mp)) op_get_count of
       None \<Rightarrow> None | Some f \<Rightarrow> f mp)"

text \<open>The first entry of that name.\<close>

fun find_ops :: "nat \<Rightarrow> string \<Rightarrow> rte_mempool_ops list \<Rightarrow> nat option" where
  "find_ops i name [] = None"
| "find_ops i name (ops # table) = (if name = op_name ops then Some i else find_ops (Suc i) name table)"

definition rte_mempool_set_ops_byname ::
  "rte_mempool_ops list \<Rightarrow> string \<Rightarrow> rte_mempool \<Rightarrow> int \<times> rte_mempool" where
  "rte_mempool_set_ops_byname table name mp =
    (if mp_flags mp AND MEMPOOL_F_POOL_CREATED \<noteq> 0 then (- EEXIST, mp)
     else case find_ops 0 name table of
            None \<Rightarrow> (- EINVAL, mp)
          | Some i \<Rightarrow> (0, mp\<lparr>mp_ops_index := i\<rparr>))"

section \<open>The cache\<close>

text \<open>\<open>(typeof(c))((c) * 1.5)\<close>.\<close>

definition CALC_CACHE_FLUSHTHRESH :: "u32 \<Rightarrow> u32" where
  "CALC_CACHE_FLUSHTHRESH c = word_of_nat (unat c * 3 div 2)"

definition mempool_cache_init :: "u32 \<Rightarrow> nat list \<Rightarrow> rte_mempool_cache" where
  "mempool_cache_init sz objs =
    \<lparr>mc_size = sz, mc_flushthresh = CALC_CACHE_FLUSHTHRESH sz, mc_len = 0, mc_objs = objs\<rparr>"

definition sizeof_mempool_cache :: nat where "sizeof_mempool_cache = 12352"

definition rte_mempool_cache_create :: "u32 \<Rightarrow> 'z eal_scheme \<Rightarrow> rte_mempool_cache option \<times> 'z eal_scheme" where
  "rte_mempool_cache_create sz e =
    (if sz = 0 \<or> sz > RTE_MEMPOOL_CACHE_MAX_SIZE then (None, e\<lparr>rte_errno := EINVAL\<rparr>)
     else case rte_malloc sizeof_mempool_cache e of
       (None, e) \<Rightarrow> (None, e\<lparr>rte_errno := ENOMEM\<rparr>)
     | (Some _, e) \<Rightarrow> (Some (mempool_cache_init sz (replicate (3 * unat RTE_MEMPOOL_CACHE_MAX_SIZE) 0)), e))"

text \<open>\<open>rte_mempool_default_cache\<close> as the index of the core's cache; a thread outside the EAL has a larger
  identifier.\<close>

definition rte_mempool_default_cache :: "rte_mempool \<Rightarrow> nat \<Rightarrow> nat option" where
  "rte_mempool_default_cache mp lcore_id =
    (if mp_cache_size mp = 0 then None else if lcore_id \<ge> RTE_MAX_LCORE then None else Some lcore_id)"

definition cache_flush ::
  "rte_mempool_ops list \<Rightarrow> rte_mempool_cache \<Rightarrow> rte_mempool \<Rightarrow> (rte_mempool_cache \<times> rte_mempool) option" where
  "cache_flush table cache mp =
    (if mc_len cache = 0 then Some (cache, mp)
     else case rte_mempool_ops_enqueue_bulk table mp (take (unat (mc_len cache)) (mc_objs cache)) of
            None \<Rightarrow> None
          | Some (_, mp) \<Rightarrow> Some (cache\<lparr>mc_len := 0\<rparr>, mp))"

text \<open>A user's own cache, or with \<open>NULL\<close> the cache of the core.\<close>

definition rte_mempool_cache_flush ::
  "rte_mempool_ops list \<Rightarrow> nat \<Rightarrow> rte_mempool_cache option \<Rightarrow> rte_mempool
    \<Rightarrow> (rte_mempool_cache option \<times> rte_mempool) option" where
  "rte_mempool_cache_flush table lcore cache mp =
    (case cache of
       Some c \<Rightarrow> map_option (\<lambda>(c, mp). (Some c, mp)) (cache_flush table c mp)
     | None \<Rightarrow>
        (case rte_mempool_default_cache mp lcore of
           None \<Rightarrow> Some (None, mp)
         | Some i \<Rightarrow> map_option (\<lambda>(c, mp). (None, mp\<lparr>mp_local_cache := (mp_local_cache mp)[i := c]\<rparr>))
                       (cache_flush table (mp_local_cache mp ! i) mp)))"

section \<open>Giving objects back\<close>

definition mempool_generic_put ::
  "rte_mempool_ops list \<Rightarrow> rte_mempool \<Rightarrow> nat list \<Rightarrow> rte_mempool_cache option
    \<Rightarrow> (rte_mempool \<times> rte_mempool_cache option) option" where
  "mempool_generic_put table mp obj_table cache =
    (let n = word_of_nat (length obj_table) :: u32;
         ring_enqueue = map_option (\<lambda>(_, mp). (mp, cache)) (rte_mempool_ops_enqueue_bulk table mp obj_table)
     in case cache of
          None \<Rightarrow> ring_enqueue
        | Some c \<Rightarrow>
           if n > RTE_MEMPOOL_CACHE_MAX_SIZE then ring_enqueue
           else case store_at (unat (mc_len c)) obj_table (mc_objs c) of
             None \<Rightarrow> None
           | Some objs \<Rightarrow>
              (let c = c\<lparr>mc_objs := objs, mc_len := mc_len c + n\<rparr>
               in if mc_len c \<ge> mc_flushthresh c
                  then let excess = unat (mc_len c - mc_size c)
                       in if length objs < unat (mc_size c) + excess then None
                          else case rte_mempool_ops_enqueue_bulk table mp (take excess (drop (unat (mc_size c)) objs)) of
                                 None \<Rightarrow> None
                               | Some (_, mp) \<Rightarrow> Some (mp, Some (c\<lparr>mc_len := mc_size c\<rparr>))
                  else Some (mp, Some c)))"

text \<open>With the core's own cache, in place; \<open>rte_mempool_generic_put\<close> only adds the check of the cookies, which
  is empty without \<open>RTE_LIBRTE_MEMPOOL_DEBUG\<close>.\<close>

definition rte_mempool_put_bulk ::
  "rte_mempool_ops list \<Rightarrow> nat \<Rightarrow> rte_mempool \<Rightarrow> nat list \<Rightarrow> rte_mempool option" where
  "rte_mempool_put_bulk table lcore mp obj_table =
    (case rte_mempool_default_cache mp lcore of
       None \<Rightarrow> map_option fst (mempool_generic_put table mp obj_table None)
     | Some i \<Rightarrow>
        (case mempool_generic_put table mp obj_table (Some (mp_local_cache mp ! i)) of
           Some (mp, Some c) \<Rightarrow> Some (mp\<lparr>mp_local_cache := (mp_local_cache mp)[i := c]\<rparr>)
         | _ \<Rightarrow> None))"

definition rte_mempool_put :: "rte_mempool_ops list \<Rightarrow> nat \<Rightarrow> rte_mempool \<Rightarrow> nat \<Rightarrow> rte_mempool option" where
  "rte_mempool_put table lcore mp obj = rte_mempool_put_bulk table lcore mp [obj]"

section \<open>Taking objects\<close>

definition mempool_generic_get ::
  "rte_mempool_ops list \<Rightarrow> rte_mempool \<Rightarrow> u32 \<Rightarrow> rte_mempool_cache option
    \<Rightarrow> (int \<times> nat list \<times> rte_mempool \<times> rte_mempool_cache option) option" where
  "mempool_generic_get table mp n cache =
    (let ring_dequeue = (\<lambda>mp. map_option (\<lambda>(ret, xs, mp). (ret, xs, mp, cache))
                                (rte_mempool_ops_dequeue_bulk table mp n));
         respond = (\<lambda>mp c. Some (0, load_down (unat (mc_len c)) (unat n) (mc_objs c), mp,
                                  Some (c\<lparr>mc_len := mc_len c - n\<rparr>)))
     in case cache of
          None \<Rightarrow> ring_dequeue mp
        | Some c \<Rightarrow>
           if n \<ge> mc_size c then ring_dequeue mp
           else if mc_len c < n
           then let req = n + (mc_size c - mc_len c)
                in case rte_mempool_ops_dequeue_bulk table mp req of
                     None \<Rightarrow> None
                   | Some (ret, xs, mp') \<Rightarrow>
                       if ret < 0 then ring_dequeue mp'
                       else (case store_at (unat (mc_len c)) xs (mc_objs c) of
                               None \<Rightarrow> None
                             | Some objs \<Rightarrow> respond mp' (c\<lparr>mc_objs := objs, mc_len := mc_len c + req\<rparr>))
           else respond mp c)"

definition rte_mempool_get_bulk ::
  "rte_mempool_ops list \<Rightarrow> nat \<Rightarrow> rte_mempool \<Rightarrow> u32 \<Rightarrow> (int \<times> nat list \<times> rte_mempool) option" where
  "rte_mempool_get_bulk table lcore mp n =
    (case rte_mempool_default_cache mp lcore of
       None \<Rightarrow> map_option (\<lambda>(ret, xs, mp, _). (ret, xs, mp)) (mempool_generic_get table mp n None)
     | Some i \<Rightarrow>
        (case mempool_generic_get table mp n (Some (mp_local_cache mp ! i)) of
           Some (ret, xs, mp, Some c) \<Rightarrow> Some (ret, xs, mp\<lparr>mp_local_cache := (mp_local_cache mp)[i := c]\<rparr>)
         | _ \<Rightarrow> None))"

definition rte_mempool_get ::
  "rte_mempool_ops list \<Rightarrow> nat \<Rightarrow> rte_mempool \<Rightarrow> (int \<times> nat list \<times> rte_mempool) option" where
  "rte_mempool_get table lcore mp = rte_mempool_get_bulk table lcore mp 1"

section \<open>Counts\<close>

definition rte_mempool_avail_count :: "rte_mempool_ops list \<Rightarrow> rte_mempool \<Rightarrow> u32 option" where
  "rte_mempool_avail_count table mp =
    map_option (\<lambda>cnt.
      if mp_cache_size mp = 0 then cnt
      else let cnt = foldl (\<lambda>cnt i. cnt + mc_len (mp_local_cache mp ! i)) cnt [0..<RTE_MAX_LCORE]
           in if cnt > mp_size mp then mp_size mp else cnt)
      (rte_mempool_ops_get_count table mp)"

definition rte_mempool_in_use_count :: "rte_mempool_ops list \<Rightarrow> rte_mempool \<Rightarrow> u32 option" where
  "rte_mempool_in_use_count table mp = map_option (\<lambda>cnt. mp_size mp - cnt) (rte_mempool_avail_count table mp)"

definition rte_mempool_full :: "rte_mempool_ops list \<Rightarrow> rte_mempool \<Rightarrow> bool option" where
  "rte_mempool_full table mp = map_option (\<lambda>cnt. cnt = mp_size mp) (rte_mempool_avail_count table mp)"

definition rte_mempool_empty :: "rte_mempool_ops list \<Rightarrow> rte_mempool \<Rightarrow> bool option" where
  "rte_mempool_empty table mp = map_option (\<lambda>cnt. cnt = 0) (rte_mempool_avail_count table mp)"

end
