(* ===== verification/Mempool_Cache.thy ===== *)
theory Mempool_Cache
  imports Mempool
begin

text \<open>
  What a mempool needs of its driver, as a locale, and what then holds of the cached calls: they move
  objects between the caller, the cache and the pool and lose or double none.  The locale is interpreted
  on the four ring drivers and on the stack driver.
\<close>

section \<open>The driver's contract\<close>

locale pool_driver =
  fixes drv :: rte_mempool_ops
    and inv :: "pool_data \<Rightarrow> bool"
    and elems :: "pool_data \<Rightarrow> nat multiset"
    and cap :: "pool_data \<Rightarrow> nat"
  assumes bounded: "inv p \<Longrightarrow> size (elems p) \<le> cap p \<and> cap p < 2 ^ 32"
    and enq_law: "inv (mp_pool_data mp) \<Longrightarrow> length objs < 2 ^ 31 \<Longrightarrow>
      \<exists>f ret p. op_enqueue drv = Some f \<and> f mp objs = Some (ret, mp\<lparr>mp_pool_data := p\<rparr>)
        \<and> inv p \<and> cap p = cap (mp_pool_data mp)
        \<and> (if objs \<noteq> [] \<and> size (elems (mp_pool_data mp)) + length objs \<le> cap (mp_pool_data mp)
           then ret = 0 \<and> elems p = elems (mp_pool_data mp) + mset objs
           else ret < 0 \<and> elems p = elems (mp_pool_data mp))"
    and deq_law: "inv (mp_pool_data mp) \<Longrightarrow>
      \<exists>f ret xs p. op_dequeue drv = Some f \<and> f mp n = Some (ret, xs, mp\<lparr>mp_pool_data := p\<rparr>)
        \<and> inv p \<and> cap p = cap (mp_pool_data mp)
        \<and> (if 0 < n \<and> unat n \<le> size (elems (mp_pool_data mp))
           then ret = 0 \<and> length xs = unat n \<and> elems (mp_pool_data mp) = mset xs + elems p
           else ret < 0 \<and> xs = [] \<and> elems p = elems (mp_pool_data mp))"
    and count_law: "inv (mp_pool_data mp) \<Longrightarrow>
      \<exists>f c. op_get_count drv = Some f \<and> f mp = Some c \<and> unat c = size (elems (mp_pool_data mp))"

definition cache_wf :: "u32 \<Rightarrow> rte_mempool_cache \<Rightarrow> bool" where
  "cache_wf sz c \<longleftrightarrow> mc_size c = sz \<and> 0 < unat sz \<and> unat sz \<le> 512 \<and> mc_flushthresh c = CALC_CACHE_FLUSHTHRESH sz
     \<and> unat (mc_len c) \<le> unat sz * 3 div 2 \<and> length (mc_objs c) = 1536"

definition cached :: "rte_mempool_cache \<Rightarrow> nat multiset" where
  "cached c = mset (take (unat (mc_len c)) (mc_objs c))"

lemma unat_flushthresh: "unat sz \<le> 512 \<Longrightarrow> unat (CALC_CACHE_FLUSHTHRESH sz) = unat sz * 3 div 2"
  unfolding CALC_CACHE_FLUSHTHRESH_def by (intro unat_of_nat_small) simp

lemma cache_init_wf:
  "0 < unat sz \<Longrightarrow> unat sz \<le> 512 \<Longrightarrow> length objs = 1536 \<Longrightarrow> cache_wf sz (mempool_cache_init sz objs)
    \<and> cached (mempool_cache_init sz objs) = {#}"
  by (simp add: cache_wf_def mempool_cache_init_def cached_def)

lemma size_cached: "cache_wf sz c \<Longrightarrow> size (cached c) = unat (mc_len c)"
  by (auto simp: cached_def cache_wf_def)

lemma load_down_mset:
  assumes "n \<le> len" "len \<le> length arr"
  shows "mset (take len arr) = mset (load_down len n arr) + mset (take (len - n) arr)"
proof -
  have "mset (take n (rev (take len arr))) + mset (drop n (rev (take len arr))) = mset (take len arr)"
    by (metis append_take_drop_id mset_append mset_rev)
  moreover have "drop n (rev (take len arr)) = rev (take (len - n) arr)"
    using assms by (simp add: drop_rev min_absorb1)
  ultimately show ?thesis using assms by (simp add: load_down_eq)
qed

lemma sum_list_update_monoid:
  fixes f :: "'a \<Rightarrow> 'b::comm_monoid_add"
  shows "i < length xs \<Longrightarrow> sum_list (map f (xs[i := x])) + f (xs ! i) = sum_list (map f xs) + f x"
proof (induction xs arbitrary: i)
  case (Cons a xs)
  show ?case
  proof (cases i)
    case 0
    then show ?thesis by (simp add: ac_simps)
  next
    case (Suc n)
    then have "sum_list (map f (xs[n := x])) + f (xs ! n) = sum_list (map f xs) + f x" using Cons by simp
    then have "f a + (sum_list (map f (xs[n := x])) + f (xs ! n)) = f a + (sum_list (map f xs) + f x)" by simp
    then show ?thesis using Suc by (simp add: ac_simps)
  qed
qed simp

section \<open>The cached calls\<close>

text \<open>When a request is met: from the cache, if it is smaller than the cache's size and the cache has that many;
  or from a pool with that many.\<close>

definition can_get :: "u32 \<Rightarrow> nat \<Rightarrow> rte_mempool_cache \<Rightarrow> bool" where
  "can_get n avail c \<longleftrightarrow> n < mc_size c \<and> n \<le> mc_len c \<or> 0 < n \<and> unat n \<le> avail"

text \<open>The pool: its driver, its data, and a cache for each core if it has caches.\<close>

definition mempool_wf :: "rte_mempool_ops \<Rightarrow> (pool_data \<Rightarrow> bool) \<Rightarrow> rte_mempool_ops list \<Rightarrow> rte_mempool \<Rightarrow> bool" where
  "mempool_wf drv good table mp \<longleftrightarrow> rte_mempool_get_ops table (mp_ops_index mp) = Some drv \<and> good (mp_pool_data mp)
    \<and> (mp_cache_size mp \<noteq> 0 \<longrightarrow> length (mp_local_cache mp) = RTE_MAX_LCORE
        \<and> (\<forall>c\<in>set (mp_local_cache mp). cache_wf (mp_cache_size mp) c))"

text \<open>The objects in the pool and in all caches.\<close>

definition mempool_contents :: "(pool_data \<Rightarrow> nat multiset) \<Rightarrow> rte_mempool \<Rightarrow> nat multiset" where
  "mempool_contents elems mp = elems (mp_pool_data mp)
    + (if mp_cache_size mp = 0 then {#} else sum_list (map cached (mp_local_cache mp)))"

text \<open>What is at hand for core \<open>lcore\<close>.\<close>

definition mempool_get_ok :: "(pool_data \<Rightarrow> nat multiset) \<Rightarrow> rte_mempool \<Rightarrow> nat \<Rightarrow> u32 \<Rightarrow> bool" where
  "mempool_get_ok elems mp lcore n \<longleftrightarrow>
    (case rte_mempool_default_cache mp lcore of
       None \<Rightarrow> 0 < n \<and> unat n \<le> size (elems (mp_pool_data mp))
     | Some i \<Rightarrow> can_get n (size (elems (mp_pool_data mp))) (mp_local_cache mp ! i))"

context pool_driver begin

lemma enqueue_bulk_law:
  assumes "rte_mempool_get_ops table (mp_ops_index mp) = Some drv" "inv (mp_pool_data mp)" "length objs < 2 ^ 31"
  shows "\<exists>ret p. rte_mempool_ops_enqueue_bulk table mp objs = Some (ret, mp\<lparr>mp_pool_data := p\<rparr>)
    \<and> inv p \<and> cap p = cap (mp_pool_data mp)
    \<and> (if objs \<noteq> [] \<and> size (elems (mp_pool_data mp)) + length objs \<le> cap (mp_pool_data mp)
       then ret = 0 \<and> elems p = elems (mp_pool_data mp) + mset objs
       else ret < 0 \<and> elems p = elems (mp_pool_data mp))"
proof -
  from enq_law [OF assms(2,3)] obtain f ret p where f: "op_enqueue drv = Some f" "f mp objs = Some (ret, mp\<lparr>mp_pool_data := p\<rparr>)"
    "inv p \<and> cap p = cap (mp_pool_data mp)
      \<and> (if objs \<noteq> [] \<and> size (elems (mp_pool_data mp)) + length objs \<le> cap (mp_pool_data mp)
         then ret = 0 \<and> elems p = elems (mp_pool_data mp) + mset objs
         else ret < 0 \<and> elems p = elems (mp_pool_data mp))" by blast
  then have "rte_mempool_ops_enqueue_bulk table mp objs = Some (ret, mp\<lparr>mp_pool_data := p\<rparr>)"
    using assms(1) by (simp add: rte_mempool_ops_enqueue_bulk_def)
  then show ?thesis using f(3) by blast
qed

lemma dequeue_bulk_law:
  assumes "rte_mempool_get_ops table (mp_ops_index mp) = Some drv" "inv (mp_pool_data mp)"
  shows "\<exists>ret xs p. rte_mempool_ops_dequeue_bulk table mp n = Some (ret, xs, mp\<lparr>mp_pool_data := p\<rparr>)
    \<and> inv p \<and> cap p = cap (mp_pool_data mp)
    \<and> (if 0 < n \<and> unat n \<le> size (elems (mp_pool_data mp))
       then ret = 0 \<and> length xs = unat n \<and> elems (mp_pool_data mp) = mset xs + elems p
       else ret < 0 \<and> xs = [] \<and> elems p = elems (mp_pool_data mp))"
proof -
  from deq_law [OF assms(2), of n] obtain f ret xs p where f: "op_dequeue drv = Some f"
    "f mp n = Some (ret, xs, mp\<lparr>mp_pool_data := p\<rparr>)"
    "inv p \<and> cap p = cap (mp_pool_data mp)
      \<and> (if 0 < n \<and> unat n \<le> size (elems (mp_pool_data mp))
         then ret = 0 \<and> length xs = unat n \<and> elems (mp_pool_data mp) = mset xs + elems p
         else ret < 0 \<and> xs = [] \<and> elems p = elems (mp_pool_data mp))" by blast
  then have "rte_mempool_ops_dequeue_bulk table mp n = Some (ret, xs, mp\<lparr>mp_pool_data := p\<rparr>)"
    using assms(1) by (simp add: rte_mempool_ops_dequeue_bulk_def)
  then show ?thesis using f(3) by blast
qed

lemma generic_put_plain:
  assumes ops: "rte_mempool_get_ops table (mp_ops_index mp) = Some drv" and p: "inv (mp_pool_data mp)"
    and n: "length objs < 2 ^ 31" and room: "size (elems (mp_pool_data mp)) + length objs \<le> cap (mp_pool_data mp)"
    and plain: "cache = None \<or> 512 < length objs"
  shows "\<exists>p. mempool_generic_put table mp objs cache = Some (mp\<lparr>mp_pool_data := p\<rparr>, cache)
    \<and> inv p \<and> cap p = cap (mp_pool_data mp) \<and> elems p = elems (mp_pool_data mp) + mset objs"
proof -
  have u: "unat (word_of_nat (length objs) :: u32) = length objs" using n by (intro unat_of_nat_small) simp
  have "mempool_generic_put table mp objs cache
      = map_option (\<lambda>(_, mp). (mp, cache)) (rte_mempool_ops_enqueue_bulk table mp objs)"
    using plain u by (cases cache)
      (auto simp: mempool_generic_put_def RTE_MEMPOOL_CACHE_MAX_SIZE_def word_less_nat_alt Let_def)
  then show ?thesis using enqueue_bulk_law [OF ops p n] room by (cases "objs = []") auto
qed

lemma generic_put_cached:
  assumes ops: "rte_mempool_get_ops table (mp_ops_index mp) = Some drv" and p: "inv (mp_pool_data mp)"
    and c: "cache_wf sz c" and n: "length objs \<le> 512"
    and room: "size (elems (mp_pool_data mp)) + size (cached c) + length objs \<le> cap (mp_pool_data mp)"
  shows "\<exists>p c'. mempool_generic_put table mp objs (Some c) = Some (mp\<lparr>mp_pool_data := p\<rparr>, Some c')
    \<and> inv p \<and> cap p = cap (mp_pool_data mp) \<and> cache_wf sz c'
    \<and> elems p + cached c' = elems (mp_pool_data mp) + cached c + mset objs"
proof -
  let ?n = "word_of_nat (length objs) :: u32" and ?k = "unat (mc_len c)"
  have b: "?k \<le> unat sz * 3 div 2" "unat sz \<le> 512" "length (mc_objs c) = 1536" "mc_size c = sz"
    "mc_flushthresh c = CALC_CACHE_FLUSHTHRESH sz" "0 < unat sz" using c by (simp_all add: cache_wf_def)
  have u: "unat ?n = length objs" using n by (intro unat_of_nat_small) simp
  have len: "unat (mc_len c + ?n) = ?k + length objs" using b n u by (simp add: unat_word_ariths)
  let ?objs = "take ?k (mc_objs c) @ objs @ drop (?k + length objs) (mc_objs c)"
  have st: "store_at ?k objs (mc_objs c) = Some ?objs" using b n by (intro store_at_Some) simp
  have lobjs: "length ?objs = 1536" using b n by simp
  let ?c = "c\<lparr>mc_objs := ?objs, mc_len := mc_len c + ?n\<rparr>"
  have small: "\<not> ?n > RTE_MEMPOOL_CACHE_MAX_SIZE" using n u by (simp add: RTE_MEMPOOL_CACHE_MAX_SIZE_def word_less_nat_alt)
  have all: "mset (take (?k + length objs) ?objs) = cached c + mset objs" using b n by (simp add: cached_def)
  show ?thesis
  proof (cases "mc_len c + ?n \<ge> mc_flushthresh c")
    case False
    then have "mempool_generic_put table mp objs (Some c) = Some (mp, Some ?c)"
      using st small by (simp add: mempool_generic_put_def Let_def)
    moreover have "cache_wf sz ?c"
      using False b len unat_flushthresh [OF b(2)] lobjs by (simp add: cache_wf_def word_le_nat_alt)
    ultimately show ?thesis using p all len
      by (intro exI [of _ "mp_pool_data mp"] exI [of _ ?c]) (simp add: cached_def ac_simps)
  next
    case True
    then have ge: "unat sz \<le> ?k + length objs" using b(5) len unat_flushthresh [OF b(2)] by (simp add: word_le_nat_alt)
    define e where "e = ?k + length objs - unat sz"
    define ex where "ex = take e (drop (unat sz) ?objs)"
    have exc: "unat (mc_len c + ?n - sz) = e" using ge len unat_sub_add_le [of sz "mc_len c + ?n"] by (simp add: e_def)
    have e_le: "unat sz + e = ?k + length objs" using ge by (simp add: e_def)
    have lex: "length ex = e"
      unfolding ex_def length_take length_drop lobjs using b n e_le by simp
    have fits: "\<not> length ?objs < unat sz + e" unfolding lobjs using b n e_le by simp
    have short: "length ex < 2 ^ 31" unfolding lex using b n e_le by simp
    from enqueue_bulk_law [OF ops p short] obtain ret p' where e:
      "rte_mempool_ops_enqueue_bulk table mp ex = Some (ret, mp\<lparr>mp_pool_data := p'\<rparr>)" "inv p'" "cap p' = cap (mp_pool_data mp)"
      "if ex \<noteq> [] \<and> size (elems (mp_pool_data mp)) + length ex \<le> cap (mp_pool_data mp)
       then ret = 0 \<and> elems p' = elems (mp_pool_data mp) + mset ex
       else ret < 0 \<and> elems p' = elems (mp_pool_data mp)" by blast
    have "size (elems (mp_pool_data mp)) + length ex \<le> cap (mp_pool_data mp)"
      unfolding lex using room size_cached [OF c] e_le by simp
    then have el: "elems p' = elems (mp_pool_data mp) + mset ex" using e(4) by (cases "ex = []") simp_all
    let ?c' = "?c\<lparr>mc_len := sz\<rparr>"
    have "mempool_generic_put table mp objs (Some c) = Some (mp\<lparr>mp_pool_data := p'\<rparr>, Some ?c')"
      using st small True b(4) exc fits e(1) by (simp add: mempool_generic_put_def Let_def ex_def del: length_append)
    moreover have "cache_wf sz ?c'" using b lobjs by (simp add: cache_wf_def)
    moreover have "mset (take (unat sz) ?objs) + mset ex = mset (take (?k + length objs) ?objs)"
      unfolding ex_def e_le [symmetric] by (metis mset_append take_add)
    then have "elems p' + cached ?c' = elems (mp_pool_data mp) + cached c + mset objs"
      unfolding el using all by (simp add: cached_def ac_simps)
    ultimately show ?thesis using e(2,3) by blast
  qed
qed

lemma generic_get_plain:
  assumes ops: "rte_mempool_get_ops table (mp_ops_index mp) = Some drv" and p: "inv (mp_pool_data mp)"
    and plain: "case cache of None \<Rightarrow> True | Some c \<Rightarrow> n \<ge> mc_size c"
  shows "\<exists>ret xs p. mempool_generic_get table mp n cache = Some (ret, xs, mp\<lparr>mp_pool_data := p\<rparr>, cache)
    \<and> inv p \<and> cap p = cap (mp_pool_data mp)
    \<and> (if 0 < n \<and> unat n \<le> size (elems (mp_pool_data mp))
       then ret = 0 \<and> length xs = unat n \<and> elems (mp_pool_data mp) = mset xs + elems p
       else ret < 0 \<and> xs = [] \<and> elems p = elems (mp_pool_data mp))"
proof -
  from dequeue_bulk_law [OF ops p, of n] obtain ret xs p' where
    d: "rte_mempool_ops_dequeue_bulk table mp n = Some (ret, xs, mp\<lparr>mp_pool_data := p'\<rparr>)"
    and law: "inv p' \<and> cap p' = cap (mp_pool_data mp)
      \<and> (if 0 < n \<and> unat n \<le> size (elems (mp_pool_data mp))
         then ret = 0 \<and> length xs = unat n \<and> elems (mp_pool_data mp) = mset xs + elems p'
         else ret < 0 \<and> xs = [] \<and> elems p' = elems (mp_pool_data mp))" by blast
  have "mempool_generic_get table mp n cache = Some (ret, xs, mp\<lparr>mp_pool_data := p'\<rparr>, cache)"
    using d plain by (cases cache) (simp_all add: mempool_generic_get_def)
  then show ?thesis using law by blast
qed

lemma respond_cached:
  assumes c: "cache_wf sz c" and n: "n \<le> mc_len c"
  defines "c' \<equiv> c\<lparr>mc_len := mc_len c - n\<rparr>" and "xs \<equiv> load_down (unat (mc_len c)) (unat n) (mc_objs c)"
  shows "cache_wf sz c' \<and> length xs = unat n \<and> cached c = mset xs + cached c'"
proof -
  have l: "unat (mc_len c) \<le> unat sz * 3 div 2" "unat sz \<le> 512" using c by (simp_all add: cache_wf_def)
  then have "unat (mc_len c) \<le> 1536" by simp
  with n have le: "unat n \<le> unat (mc_len c)" "unat (mc_len c) \<le> 1536" by (simp_all add: word_le_nat_alt)
  have sub: "unat (mc_len c - n) = unat (mc_len c) - unat n" using n by (simp add: unat_sub_add_le word_le_nat_alt)
  have "unat (mc_len c) - unat n \<le> unat sz * 3 div 2" using l(1) by linarith
  then have "cache_wf sz c'" using c sub by (simp add: cache_wf_def c'_def)
  moreover have "length xs = unat n" by (simp add: xs_def load_down_def)
  moreover have "cached c = mset xs + cached c'"
    using load_down_mset [of "unat n" "unat (mc_len c)" "mc_objs c"] c le sub
    by (simp add: cached_def c'_def xs_def cache_wf_def)
  ultimately show ?thesis by blast
qed

lemma generic_get_cached:
  assumes ops: "rte_mempool_get_ops table (mp_ops_index mp) = Some drv" and p: "inv (mp_pool_data mp)"
    and c: "cache_wf sz c"
  shows "\<exists>ret xs p c'. mempool_generic_get table mp n (Some c) = Some (ret, xs, mp\<lparr>mp_pool_data := p\<rparr>, Some c')
    \<and> inv p \<and> cap p = cap (mp_pool_data mp) \<and> cache_wf sz c'
    \<and> (if can_get n (size (elems (mp_pool_data mp))) c
       then ret = 0 \<and> length xs = unat n \<and> elems (mp_pool_data mp) + cached c = mset xs + elems p + cached c'
       else ret < 0 \<and> xs = [] \<and> elems p = elems (mp_pool_data mp) \<and> c' = c)"
proof (cases "n \<ge> mc_size c")
  case True
  from generic_get_plain [OF ops p, where cache = "Some c" and n = n] True obtain ret xs p' where
    g: "mempool_generic_get table mp n (Some c) = Some (ret, xs, mp\<lparr>mp_pool_data := p'\<rparr>, Some c)"
    and law: "inv p' \<and> cap p' = cap (mp_pool_data mp)"
      "if 0 < n \<and> unat n \<le> size (elems (mp_pool_data mp))
         then ret = 0 \<and> length xs = unat n \<and> elems (mp_pool_data mp) = mset xs + elems p'
         else ret < 0 \<and> xs = [] \<and> elems p' = elems (mp_pool_data mp)" by auto
  have "can_get n (size (elems (mp_pool_data mp))) c \<longleftrightarrow> 0 < n \<and> unat n \<le> size (elems (mp_pool_data mp))"
    using True by (auto simp: can_get_def)
  then show ?thesis using g law c by (intro exI [of _ ret] exI [of _ xs] exI [of _ p'] exI [of _ c]) auto
next
  case False
  have b: "unat (mc_len c) \<le> unat sz * 3 div 2" "unat sz \<le> 512" "length (mc_objs c) = 1536" "mc_size c = sz" "0 < unat sz"
    using c by (simp_all add: cache_wf_def)
  have lt: "unat n < unat sz" using False b(4) by (simp add: word_less_nat_alt word_le_nat_alt)
  show ?thesis
  proof (cases "mc_len c < n")
    case False
    then have le: "n \<le> mc_len c" by simp
    have "mempool_generic_get table mp n (Some c)
        = Some (0, load_down (unat (mc_len c)) (unat n) (mc_objs c), mp, Some (c\<lparr>mc_len := mc_len c - n\<rparr>))"
      using False \<open>\<not> n \<ge> mc_size c\<close> by (simp add: mempool_generic_get_def)
    moreover have "can_get n (size (elems (mp_pool_data mp))) c"
      using False \<open>\<not> n \<ge> mc_size c\<close> by (auto simp: can_get_def not_less not_le)
    ultimately show ?thesis using respond_cached [OF c le] p
      by (intro exI [of _ 0] exI [of _ "load_down (unat (mc_len c)) (unat n) (mc_objs c)"]
          exI [of _ "mp_pool_data mp"] exI [of _ "c\<lparr>mc_len := mc_len c - n\<rparr>"]) (simp add: ac_simps)
  next
    case True
    then have k: "unat (mc_len c) < unat n" by (simp add: word_less_nat_alt)
    let ?req = "n + (sz - mc_len c)"
    have sub: "unat (sz - mc_len c) = unat sz - unat (mc_len c)" using k lt unat_sub_add_le [of "mc_len c" sz] by simp
    have req: "unat ?req = unat n + (unat sz - unat (mc_len c))"
      using sub lt b(2) k by (simp add: unat_word_ariths)
    have len: "unat (mc_len c + ?req) = unat n + unat sz"
      using req lt b(2) k by (simp add: unat_word_ariths)
    have n0: "0 < n" using k by (simp add: word_less_nat_alt)
    from dequeue_bulk_law [OF ops p, of ?req] obtain ret xs p' where
      d: "rte_mempool_ops_dequeue_bulk table mp ?req = Some (ret, xs, mp\<lparr>mp_pool_data := p'\<rparr>)"
      and i: "inv p'" "cap p' = cap (mp_pool_data mp)"
      and law: "if 0 < ?req \<and> unat ?req \<le> size (elems (mp_pool_data mp))
         then ret = 0 \<and> length xs = unat ?req \<and> elems (mp_pool_data mp) = mset xs + elems p'
         else ret < 0 \<and> xs = [] \<and> elems p' = elems (mp_pool_data mp)" by blast
    have req0: "0 < ?req" using req n0 by (simp add: word_less_nat_alt)
    show ?thesis
    proof (cases "unat ?req \<le> size (elems (mp_pool_data mp))")
      case False
      then have e: "ret < 0" "elems p' = elems (mp_pool_data mp)" using law by simp_all
      have again: "rte_mempool_get_ops table (mp_ops_index (mp\<lparr>mp_pool_data := p'\<rparr>)) = Some drv"
        "inv (mp_pool_data (mp\<lparr>mp_pool_data := p'\<rparr>))" using ops i by simp_all
      have upd: "mp_pool_data (mp\<lparr>mp_pool_data := p'\<rparr>) = p'" by simp
      from dequeue_bulk_law [OF again, of n, unfolded upd e(2) i(2)] obtain ret2 ys q where
        "rte_mempool_ops_dequeue_bulk table (mp\<lparr>mp_pool_data := p'\<rparr>) n
          = Some (ret2, ys, mp\<lparr>mp_pool_data := p', mp_pool_data := q\<rparr>)"
        and i2: "inv q" "cap q = cap (mp_pool_data mp)"
        and law2: "if 0 < n \<and> unat n \<le> size (elems (mp_pool_data mp))
           then ret2 = 0 \<and> length ys = unat n \<and> elems (mp_pool_data mp) = mset ys + elems q
           else ret2 < 0 \<and> ys = [] \<and> elems q = elems (mp_pool_data mp)" by blast
      then have d2: "rte_mempool_ops_dequeue_bulk table (mp\<lparr>mp_pool_data := p'\<rparr>) n
          = Some (ret2, ys, mp\<lparr>mp_pool_data := q\<rparr>)" by simp
      have "mempool_generic_get table mp n (Some c) = Some (ret2, ys, mp\<lparr>mp_pool_data := q\<rparr>, Some c)"
        using \<open>\<not> n \<ge> mc_size c\<close> True d d2 e(1) b(4) by (simp add: mempool_generic_get_def Let_def)
      moreover have "can_get n (size (elems (mp_pool_data mp))) c \<longleftrightarrow> 0 < n \<and> unat n \<le> size (elems (mp_pool_data mp))"
        using True by (auto simp: can_get_def)
      ultimately show ?thesis using law2 i2 c
        by (intro exI [of _ ret2] exI [of _ ys] exI [of _ q] exI [of _ c]) auto
    next
      case fits: True
      then have e: "ret = 0" "length xs = unat ?req" "elems (mp_pool_data mp) = mset xs + elems p'"
        using law req0 by simp_all
      let ?k = "unat (mc_len c)"
      define objs where "objs = take ?k (mc_objs c) @ xs @ drop (?k + length xs) (mc_objs c)"
      have st: "store_at ?k xs (mc_objs c) = Some objs"
        unfolding objs_def using e(2) req lt b k by (intro store_at_Some) simp
      have lobjs: "length objs = 1536" unfolding objs_def using e(2) req lt b k by simp
      define c1 where "c1 = c\<lparr>mc_objs := objs, mc_len := mc_len c + ?req\<rparr>"
      have c1: "unat (mc_len c1) = unat n + unat sz" "mc_objs c1 = objs" using len by (simp_all add: c1_def)
      have all: "mset (take (unat n + unat sz) objs) = cached c + mset xs"
      proof -
        have "take (unat n + unat sz) objs = take ?k (mc_objs c) @ xs"
          unfolding objs_def using e(2) req lt b k by simp
        then show ?thesis by (simp add: cached_def)
      qed
      let ?xs = "load_down (unat (mc_len c1)) (unat n) objs" and ?c' = "c1\<lparr>mc_len := mc_len c1 - n\<rparr>"
      have g: "mempool_generic_get table mp n (Some c) = Some (0, ?xs, mp\<lparr>mp_pool_data := p'\<rparr>, Some ?c')"
        using \<open>\<not> n \<ge> mc_size c\<close> True d e(1) b(4) st by (simp add: mempool_generic_get_def Let_def c1_def)
      have sub1: "unat (mc_len c1 - n) = unat sz" using c1 unat_sub_add_le [of n "mc_len c1"] by simp
      have wf: "cache_wf sz ?c'"
        using c sub1 lobjs by (simp add: cache_wf_def c1_def)
      have ms: "mset (take (unat n + unat sz) objs) = mset ?xs + cached ?c'"
        using load_down_mset [of "unat n" "unat n + unat sz" objs] lobjs lt b(2) c1 sub1
        by (simp add: cached_def)
      have lx: "length ?xs = unat n" by (simp add: load_down_def)
      have "elems (mp_pool_data mp) + cached c = elems p' + (cached c + mset xs)" unfolding e(3) by (simp add: ac_simps)
      also have "\<dots> = mset ?xs + elems p' + cached ?c'" unfolding all [symmetric] ms by (simp add: ac_simps)
      finally have cons: "elems (mp_pool_data mp) + cached c = mset ?xs + elems p' + cached ?c'" .
      have "unat n \<le> size (elems (mp_pool_data mp))" using fits req by simp
      then have "can_get n (size (elems (mp_pool_data mp))) c" using n0 by (simp add: can_get_def)
      then show ?thesis using g i wf cons lx
        by (intro exI [of _ 0] exI [of _ ?xs] exI [of _ p'] exI [of _ ?c']) simp
    qed
  qed
qed

abbreviation pool_wf :: "rte_mempool_ops list \<Rightarrow> rte_mempool \<Rightarrow> bool" where
  "pool_wf \<equiv> mempool_wf drv inv"

abbreviation contents :: "rte_mempool \<Rightarrow> nat multiset" where
  "contents \<equiv> mempool_contents elems"

abbreviation get_ok :: "rte_mempool \<Rightarrow> nat \<Rightarrow> u32 \<Rightarrow> bool" where
  "get_ok \<equiv> mempool_get_ok elems"

lemma default_cache_wf:
  assumes "pool_wf table mp" "rte_mempool_default_cache mp lcore = Some i"
  shows "i < length (mp_local_cache mp)" "cache_wf (mp_cache_size mp) (mp_local_cache mp ! i)" "mp_cache_size mp \<noteq> 0"
  using assms by (auto simp: mempool_wf_def rte_mempool_default_cache_def split: if_splits)

lemma contents_update:
  assumes "mp_cache_size mp \<noteq> 0" "i < length (mp_local_cache mp)"
  shows "contents (mp\<lparr>mp_pool_data := p, mp_local_cache := (mp_local_cache mp)[i := c]\<rparr>)
      + elems (mp_pool_data mp) + cached (mp_local_cache mp ! i) = contents mp + elems p + cached c"
  using sum_list_update_monoid [OF assms(2), of cached c] assms(1) by (simp add: mempool_contents_def ac_simps)

lemma contents_cached_le:
  assumes "mp_cache_size mp \<noteq> 0" "i < length (mp_local_cache mp)"
  shows "size (elems (mp_pool_data mp)) + size (cached (mp_local_cache mp ! i)) \<le> size (contents mp)"
proof -
  have "size (cached (mp_local_cache mp ! i)) \<le> size (sum_list (map cached (mp_local_cache mp)))"
    using assms(2)
  proof (induction "mp_local_cache mp" arbitrary: i mp)
    case (Cons a xs)
    have "xs = mp_local_cache (mp\<lparr>mp_local_cache := xs\<rparr>)" by simp
    note IH = Cons.hyps(1) [OF this]
    show ?case using Cons.prems Cons.hyps(2) [symmetric] IH [of "i - 1"] by (cases i) auto
  qed simp
  then show ?thesis using assms(1) by (simp add: mempool_contents_def)
qed

lemma put_bulk_law:
  assumes wf: "pool_wf table mp" and n: "length objs < 2 ^ 31"
    and room: "size (contents mp) + length objs \<le> cap (mp_pool_data mp)"
  shows "\<exists>mp'. rte_mempool_put_bulk table lcore mp objs = Some mp' \<and> pool_wf table mp'
    \<and> cap (mp_pool_data mp') = cap (mp_pool_data mp) \<and> mp_size mp' = mp_size mp
    \<and> contents mp' = contents mp + mset objs"
proof -
  have d: "rte_mempool_get_ops table (mp_ops_index mp) = Some drv" "inv (mp_pool_data mp)"
    using wf by (simp_all add: mempool_wf_def)
  show ?thesis
  proof (cases "rte_mempool_default_cache mp lcore")
    case None
    have "size (elems (mp_pool_data mp)) + length objs \<le> cap (mp_pool_data mp)"
      using room by (simp add: mempool_contents_def)
    from generic_put_plain [OF d n this, of None] obtain p where
      "mempool_generic_put table mp objs None = Some (mp\<lparr>mp_pool_data := p\<rparr>, None)" "inv p"
      "cap p = cap (mp_pool_data mp)" "elems p = elems (mp_pool_data mp) + mset objs" by auto
    then show ?thesis using None wf by (simp add: rte_mempool_put_bulk_def mempool_wf_def mempool_contents_def)
  next
    case (Some i)
    let ?c = "mp_local_cache mp ! i"
    note c = default_cache_wf [OF wf Some]
    have room': "size (elems (mp_pool_data mp)) + size (cached ?c) + length objs \<le> cap (mp_pool_data mp)"
      using contents_cached_le [OF c(3,1)] room by simp
    obtain p c' where g: "mempool_generic_put table mp objs (Some ?c) = Some (mp\<lparr>mp_pool_data := p\<rparr>, Some c')"
      "inv p" "cap p = cap (mp_pool_data mp)" "cache_wf (mp_cache_size mp) c'"
      "elems p + cached c' = elems (mp_pool_data mp) + cached ?c + mset objs"
    proof (cases "length objs \<le> 512")
      case True
      from generic_put_cached [OF d c(2) True room'] that show ?thesis by blast
    next
      case False
      have "size (elems (mp_pool_data mp)) + length objs \<le> cap (mp_pool_data mp)" using room' by simp
      from generic_put_plain [OF d n this, of "Some ?c"] obtain p where
        "mempool_generic_put table mp objs (Some ?c) = Some (mp\<lparr>mp_pool_data := p\<rparr>, Some ?c)" "inv p"
        "cap p = cap (mp_pool_data mp)" "elems p = elems (mp_pool_data mp) + mset objs" using False by auto
      then show ?thesis using c(2) that [of p ?c] by (simp add: ac_simps)
    qed
    let ?mp = "mp\<lparr>mp_pool_data := p, mp_local_cache := (mp_local_cache mp)[i := c']\<rparr>"
    have "contents ?mp + (elems (mp_pool_data mp) + cached ?c) = (contents mp + mset objs) + (elems (mp_pool_data mp) + cached ?c)"
      using contents_update [OF c(3,1), where p = p and c = c'] g(5) by (simp add: ac_simps)
    then have "contents ?mp = contents mp + mset objs" by simp
    moreover have "pool_wf table ?mp" using wf g(2,4) by (auto simp: mempool_wf_def dest: set_update_subset_insert [THEN subsetD])
    ultimately show ?thesis using Some g(1,3) by (simp add: rte_mempool_put_bulk_def)
  qed
qed

lemma flush_law:
  assumes wf: "pool_wf table mp" and room: "size (contents mp) \<le> cap (mp_pool_data mp)"
  shows "\<exists>mp'. rte_mempool_cache_flush table lcore None mp = Some (None, mp') \<and> pool_wf table mp'
    \<and> cap (mp_pool_data mp') = cap (mp_pool_data mp) \<and> contents mp' = contents mp"
proof (cases "rte_mempool_default_cache mp lcore")
  case None
  then show ?thesis using wf by (simp add: rte_mempool_cache_flush_def)
next
  case (Some i)
  let ?c = "mp_local_cache mp ! i"
  note c = default_cache_wf [OF wf Some]
  have d: "rte_mempool_get_ops table (mp_ops_index mp) = Some drv" "inv (mp_pool_data mp)"
    using wf by (simp_all add: mempool_wf_def)
  show ?thesis
  proof (cases "mc_len ?c = 0")
    case True
    then have "cache_flush table ?c mp = Some (?c, mp)" by (simp add: cache_flush_def)
    then show ?thesis using Some wf by (simp add: rte_mempool_cache_flush_def)
  next
    case False
    let ?objs = "take (unat (mc_len ?c)) (mc_objs ?c)"
    have sz: "length ?objs = size (cached ?c)" unfolding cached_def by simp
    have "unat (mc_len ?c) \<le> unat (mp_cache_size mp) * 3 div 2" "unat (mp_cache_size mp) \<le> 512"
      using c(2) by (simp_all add: cache_wf_def)
    then have short: "length ?objs < 2 ^ 31" using size_cached [OF c(2)] unfolding sz by simp
    have "?objs \<noteq> []" using False size_cached [OF c(2)] sz by (auto simp: unat_eq_0 [symmetric])
    moreover have "size (elems (mp_pool_data mp)) + length ?objs \<le> cap (mp_pool_data mp)"
      using contents_cached_le [OF c(3,1)] room unfolding sz by simp
    ultimately obtain ret p where p: "rte_mempool_ops_enqueue_bulk table mp ?objs = Some (ret, mp\<lparr>mp_pool_data := p\<rparr>)"
      "inv p" "cap p = cap (mp_pool_data mp)" "elems p = elems (mp_pool_data mp) + cached ?c"
      using enqueue_bulk_law [OF d short] unfolding cached_def by metis
    let ?c' = "?c\<lparr>mc_len := 0\<rparr>"
    let ?mp = "mp\<lparr>mp_pool_data := p, mp_local_cache := (mp_local_cache mp)[i := ?c']\<rparr>"
    have "cached ?c' = {#}" by (simp add: cached_def)
    then have "contents ?mp + (elems (mp_pool_data mp) + cached ?c) = contents mp + (elems (mp_pool_data mp) + cached ?c)"
      using contents_update [OF c(3,1), where p = p and c = ?c'] p(4) by (simp add: ac_simps)
    moreover have "cache_wf (mp_cache_size mp) ?c'" using c(2) by (simp add: cache_wf_def)
    then have "pool_wf table ?mp" using wf p(2) by (auto simp: mempool_wf_def dest: set_update_subset_insert [THEN subsetD])
    ultimately show ?thesis using Some p(1,3) False by (simp add: rte_mempool_cache_flush_def cache_flush_def)
  qed
qed

lemma get_bulk_law:
  assumes wf: "pool_wf table mp"
  shows "\<exists>ret xs mp'. rte_mempool_get_bulk table lcore mp n = Some (ret, xs, mp') \<and> pool_wf table mp'
    \<and> cap (mp_pool_data mp') = cap (mp_pool_data mp) \<and> mp_size mp' = mp_size mp
    \<and> (if get_ok mp lcore n then ret = 0 \<and> length xs = unat n \<and> contents mp = mset xs + contents mp'
       else ret < 0 \<and> xs = [] \<and> contents mp' = contents mp)"
proof -
  have d: "rte_mempool_get_ops table (mp_ops_index mp) = Some drv" "inv (mp_pool_data mp)"
    using wf by (simp_all add: mempool_wf_def)
  show ?thesis
  proof (cases "rte_mempool_default_cache mp lcore")
    case None
    from generic_get_plain [OF d, where cache = None and n = n] obtain ret xs p where
      g: "mempool_generic_get table mp n None = Some (ret, xs, mp\<lparr>mp_pool_data := p\<rparr>, None)"
        "inv p" "cap p = cap (mp_pool_data mp)"
      and law: "if 0 < n \<and> unat n \<le> size (elems (mp_pool_data mp))
       then ret = 0 \<and> length xs = unat n \<and> elems (mp_pool_data mp) = mset xs + elems p
       else ret < 0 \<and> xs = [] \<and> elems p = elems (mp_pool_data mp)" by auto
    have "pool_wf table (mp\<lparr>mp_pool_data := p\<rparr>)" using wf g(2) by (simp add: mempool_wf_def)
    then show ?thesis using None g law
      by (intro exI [of _ ret] exI [of _ xs] exI [of _ "mp\<lparr>mp_pool_data := p\<rparr>"])
        (auto simp: rte_mempool_get_bulk_def mempool_get_ok_def mempool_contents_def)
  next
    case (Some i)
    let ?c = "mp_local_cache mp ! i"
    note c = default_cache_wf [OF wf Some]
    from generic_get_cached [OF d c(2), of n] obtain ret xs p c' where
      g: "mempool_generic_get table mp n (Some ?c) = Some (ret, xs, mp\<lparr>mp_pool_data := p\<rparr>, Some c')"
        "inv p" "cap p = cap (mp_pool_data mp)" "cache_wf (mp_cache_size mp) c'"
      and law: "if can_get n (size (elems (mp_pool_data mp))) ?c
       then ret = 0 \<and> length xs = unat n \<and> elems (mp_pool_data mp) + cached ?c = mset xs + elems p + cached c'
       else ret < 0 \<and> xs = [] \<and> elems p = elems (mp_pool_data mp) \<and> c' = ?c" by blast
    let ?mp = "mp\<lparr>mp_pool_data := p, mp_local_cache := (mp_local_cache mp)[i := c']\<rparr>"
    have u: "contents ?mp + (elems (mp_pool_data mp) + cached ?c) = contents mp + (elems p + cached c')"
      using contents_update [OF c(3,1), where p = p and c = c'] by (simp add: ac_simps)
    have "pool_wf table ?mp" using wf g(2,4) by (auto simp: mempool_wf_def dest: set_update_subset_insert [THEN subsetD])
    moreover have "if get_ok mp lcore n then ret = 0 \<and> length xs = unat n \<and> contents mp = mset xs + contents ?mp
       else ret < 0 \<and> xs = [] \<and> contents ?mp = contents mp"
    proof (cases "get_ok mp lcore n")
      case True
      then have l: "ret = 0" "length xs = unat n"
        "elems (mp_pool_data mp) + cached ?c = mset xs + (elems p + cached c')"
        using law Some by (simp_all add: mempool_get_ok_def ac_simps)
      have "(contents ?mp + mset xs) + (elems p + cached c') = contents mp + (elems p + cached c')"
        using u unfolding l(3) by (simp add: ac_simps)
      then have "contents mp = mset xs + contents ?mp" by (simp add: ac_simps)
      then show ?thesis using True l(1,2) by simp
    next
      case False
      then have "ret < 0 \<and> xs = [] \<and> elems p = elems (mp_pool_data mp) \<and> c' = ?c"
        using law Some by (simp add: mempool_get_ok_def)
      then show ?thesis using False u by simp
    qed
    ultimately show ?thesis using Some g(1,3)
      by (intro exI [of _ ret] exI [of _ xs] exI [of _ ?mp]) (simp add: rte_mempool_get_bulk_def)
  qed
qed

end

section \<open>The drivers\<close>

definition ring_pool_inv :: "pool_data \<Rightarrow> bool" where
  "ring_pool_inv p = (case p of PoolRing r \<Rightarrow> ring_wf r | _ \<Rightarrow> False)"

definition ring_pool_elems :: "pool_data \<Rightarrow> nat multiset" where
  "ring_pool_elems p = (case p of PoolRing r \<Rightarrow> mset (ring_elems r) | _ \<Rightarrow> {#})"

definition ring_pool_cap :: "pool_data \<Rightarrow> nat" where
  "ring_pool_cap p = (case p of PoolRing r \<Rightarrow> ring_cap r | _ \<Rightarrow> 0)"

definition stack_pool_inv :: "pool_data \<Rightarrow> bool" where
  "stack_pool_inv p = (case p of PoolStack s \<Rightarrow> stack_wf s | _ \<Rightarrow> False)"

definition stack_pool_elems :: "pool_data \<Rightarrow> nat multiset" where
  "stack_pool_elems p = (case p of PoolStack s \<Rightarrow> mset (stack_objs s) | _ \<Rightarrow> {#})"

definition stack_pool_cap :: "pool_data \<Rightarrow> nat" where
  "stack_pool_cap p = (case p of PoolStack s \<Rightarrow> unat (stk_capacity s) | _ \<Rightarrow> 0)"

lemma ring_enqueue_pool:
  assumes "ring_wf r" "length objs < 2 ^ 31"
  shows "\<exists>k fr r'. do_enqueue r objs RTE_RING_QUEUE_FIXED sp = (k, fr, r') \<and> ring_wf r' \<and> ring_cap r' = ring_cap r
    \<and> (if objs \<noteq> [] \<and> ring_used r + length objs \<le> ring_cap r
       then k \<noteq> 0 \<and> ring_elems r' = ring_elems r @ objs else k = 0 \<and> ring_elems r' = ring_elems r)"
proof -
  obtain k fr r' where e: "do_enqueue r objs RTE_RING_QUEUE_FIXED sp = (k, fr, r')" by (rule prod_cases3)
  have l: "length objs < 2 ^ 32" using assms(2) by simp
  have "ring_used r + length objs \<le> ring_cap r \<longleftrightarrow> length objs \<le> ring_cap r - ring_used r"
    using ring_used_le_cap [OF assms(1)] by arith
  then show ?thesis using do_enqueue_law [OF assms(1) l e] e
    by (cases "objs = []") (auto simp: moved_fixed unat_eq_0 [symmetric])
qed

lemma ring_dequeue_pool:
  assumes "ring_wf r"
  shows "\<exists>xs av r'. do_dequeue r n RTE_RING_QUEUE_FIXED sc = (xs, av, r') \<and> ring_wf r' \<and> ring_cap r' = ring_cap r
    \<and> (if 0 < n \<and> unat n \<le> ring_used r then xs \<noteq> [] \<and> length xs = unat n \<and> ring_elems r = xs @ ring_elems r'
       else xs = [] \<and> ring_elems r' = ring_elems r)"
proof -
  obtain xs av r' where e: "do_dequeue r n RTE_RING_QUEUE_FIXED sc = (xs, av, r')" by (rule prod_cases3)
  have n0: "0 < n \<longleftrightarrow> 0 < unat n" by (simp add: word_less_nat_alt)
  have l: "ring_elems r = xs @ ring_elems r'" "ring_wf r'" "ring_cap r' = ring_cap r"
    "length xs = moved RTE_RING_QUEUE_FIXED (unat n) (ring_used r)"
    using do_dequeue_law [OF assms e] by metis+
  show ?thesis
  proof (cases "0 < n \<and> unat n \<le> ring_used r")
    case True
    then have "length xs = unat n" "xs \<noteq> []" using l(4) n0 by (auto simp: moved_fixed)
    then show ?thesis using True e l(1-3) by (intro exI [of _ xs] exI [of _ av] exI [of _ r']) auto
  next
    case False
    then have "xs = []" using l(4) n0 by (auto simp: moved_fixed split: if_splits)
    then show ?thesis using False e l(1-3) by auto
  qed
qed

lemma ring_driver:
  assumes enq: "op_enqueue drv = Some (\<lambda>mp objs. map_option (\<lambda>r. case do_enqueue r objs RTE_RING_QUEUE_FIXED sp of
      (n, _, r) \<Rightarrow> (if n = 0 then - ENOBUFS else 0, mp\<lparr>mp_pool_data := PoolRing r\<rparr>)) (ring_of mp))"
    and deq: "op_dequeue drv = Some (\<lambda>mp n. map_option (\<lambda>r. case do_dequeue r n RTE_RING_QUEUE_FIXED sc of
      (xs, _, r) \<Rightarrow> (if xs = [] then - ENOBUFS else 0, xs, mp\<lparr>mp_pool_data := PoolRing r\<rparr>)) (ring_of mp))"
    and cnt: "op_get_count drv = Some common_ring_get_count"
  shows "pool_driver drv ring_pool_inv ring_pool_elems ring_pool_cap"
proof (unfold_locales, goal_cases)
  case (1 p)
  then show ?case
    by (cases p) (auto simp: ring_pool_inv_def ring_pool_elems_def ring_pool_cap_def ring_used_le_cap
        dest: ring_cap_less intro: less_trans)
next
  case (2 mp objs)
  then obtain r where r: "mp_pool_data mp = PoolRing r" "ring_wf r"
    by (cases "mp_pool_data mp") (auto simp: ring_pool_inv_def)
  from ring_enqueue_pool [OF r(2) 2(2), of sp] obtain k fr r' where k: "do_enqueue r objs RTE_RING_QUEUE_FIXED sp = (k, fr, r')"
    "ring_wf r'" "ring_cap r' = ring_cap r"
    "if objs \<noteq> [] \<and> ring_used r + length objs \<le> ring_cap r
     then k \<noteq> 0 \<and> ring_elems r' = ring_elems r @ objs else k = 0 \<and> ring_elems r' = ring_elems r" by blast
  show ?case unfolding enq using r k
    by (intro exI [of _ "_ :: _ \<Rightarrow> _"] exI [of _ "if k = 0 then - ENOBUFS else 0"] exI [of _ "PoolRing r'"])
      (auto simp: ring_of_def ring_pool_inv_def ring_pool_elems_def ring_pool_cap_def ENOBUFS_def split: if_splits)
next
  case (3 mp n)
  then obtain r where r: "mp_pool_data mp = PoolRing r" "ring_wf r"
    by (cases "mp_pool_data mp") (auto simp: ring_pool_inv_def)
  from ring_dequeue_pool [OF r(2), of n sc] obtain xs av r' where k: "do_dequeue r n RTE_RING_QUEUE_FIXED sc = (xs, av, r')"
    "ring_wf r'" "ring_cap r' = ring_cap r"
    "if 0 < n \<and> unat n \<le> ring_used r then xs \<noteq> [] \<and> length xs = unat n \<and> ring_elems r = xs @ ring_elems r'
     else xs = [] \<and> ring_elems r' = ring_elems r" by blast
  show ?case unfolding deq using r k
    by (intro exI [of _ "_ :: _ \<Rightarrow> _"] exI [of _ "if xs = [] then - ENOBUFS else 0"] exI [of _ xs] exI [of _ "PoolRing r'"])
      (auto simp: ring_of_def ring_pool_inv_def ring_pool_elems_def ring_pool_cap_def ENOBUFS_def split: if_splits)
next
  case (4 mp)
  then obtain r where "mp_pool_data mp = PoolRing r" "ring_wf r"
    by (cases "mp_pool_data mp") (auto simp: ring_pool_inv_def)
  then show ?case unfolding cnt by (simp add: common_ring_get_count_def ring_of_def ring_pool_elems_def ring_count_eq)
qed

interpretation pool_mp_mc: pool_driver ops_mp_mc ring_pool_inv ring_pool_elems ring_pool_cap
  by (rule ring_driver [where sp = False and sc = False])
    (simp_all add: ops_mp_mc_def common_ring_mp_enqueue_def [abs_def] common_ring_mc_dequeue_def [abs_def]
      rte_ring_mp_enqueue_bulk_def rte_ring_mc_dequeue_bulk_def)

interpretation pool_sp_sc: pool_driver ops_sp_sc ring_pool_inv ring_pool_elems ring_pool_cap
  by (rule ring_driver [where sp = True and sc = True])
    (simp_all add: ops_sp_sc_def common_ring_sp_enqueue_def [abs_def] common_ring_sc_dequeue_def [abs_def]
      rte_ring_sp_enqueue_bulk_def rte_ring_sc_dequeue_bulk_def)

interpretation pool_mp_sc: pool_driver ops_mp_sc ring_pool_inv ring_pool_elems ring_pool_cap
  by (rule ring_driver [where sp = False and sc = True])
    (simp_all add: ops_mp_sc_def common_ring_mp_enqueue_def [abs_def] common_ring_sc_dequeue_def [abs_def]
      rte_ring_mp_enqueue_bulk_def rte_ring_sc_dequeue_bulk_def)

interpretation pool_sp_mc: pool_driver ops_sp_mc ring_pool_inv ring_pool_elems ring_pool_cap
  by (rule ring_driver [where sp = True and sc = False])
    (simp_all add: ops_sp_mc_def common_ring_sp_enqueue_def [abs_def] common_ring_mc_dequeue_def [abs_def]
      rte_ring_sp_enqueue_bulk_def rte_ring_mc_dequeue_bulk_def)

interpretation pool_stack: pool_driver ops_stack stack_pool_inv stack_pool_elems stack_pool_cap
proof (unfold_locales, goal_cases)
  case (1 p)
  then show ?case
    by (cases p) (auto simp: stack_pool_inv_def stack_pool_elems_def stack_pool_cap_def stack_wf_def stack_objs_def
        word_le_nat_alt)
next
  case (2 mp objs)
  then obtain s where s: "mp_pool_data mp = PoolStack s" "stack_wf s"
    by (cases "mp_pool_data mp") (auto simp: stack_pool_inv_def)
  have u: "objs \<noteq> [] \<Longrightarrow> (word_of_nat (length objs) :: u32) \<noteq> 0"
    using 2(2) unat_of_nat_small [of "length objs", where 'a = 32] by auto
  show ?case
  proof (cases "length (stack_objs s) + length objs \<le> unat (stk_capacity s)")
    case True
    then obtain s' where "rte_stack_push lf_thread0 s objs = Some (of_nat (length objs), s')"
      "stack_objs s' = rev objs @ stack_objs s" "stack_wf s'" "stk_capacity s' = stk_capacity s"
      using rte_stack_push_std [OF s(2) 2(2), of lf_thread0] by auto
    then show ?thesis using s u True
      by (intro exI [of _ stack_enqueue] exI [of _ "if objs = [] then - ENOBUFS else 0"] exI [of _ "PoolStack s'"])
        (auto simp: ops_stack_def stack_enqueue_def stack_of_def stack_pool_inv_def stack_pool_elems_def
          stack_pool_cap_def ENOBUFS_def)
  next
    case False
    then have "rte_stack_push lf_thread0 s objs = Some (0, s)"
      using rte_stack_push_std [OF s(2) 2(2), of lf_thread0] by simp
    then show ?thesis using s False
      by (intro exI [of _ stack_enqueue] exI [of _ "- ENOBUFS"] exI [of _ "PoolStack s"])
        (auto simp: ops_stack_def stack_enqueue_def stack_of_def stack_pool_inv_def stack_pool_elems_def
          stack_pool_cap_def ENOBUFS_def)
  qed
next
  case (3 mp n)
  then obtain s where s: "mp_pool_data mp = PoolStack s" "stack_wf s"
    by (cases "mp_pool_data mp") (auto simp: stack_pool_inv_def)
  show ?case
  proof (cases "unat n \<le> length (stack_objs s)")
    case True
    then obtain s' where s': "rte_stack_pop lf_thread0 s n = Some (n, take (unat n) (stack_objs s), s')"
      "stack_objs s' = drop (unat n) (stack_objs s)" "stack_wf s'" "stk_capacity s' = stk_capacity s"
      using rte_stack_pop_std [OF s(2), of n lf_thread0] by auto
    have "mset (stack_objs s) = mset (take (unat n) (stack_objs s)) + mset (drop (unat n) (stack_objs s))"
      by (metis append_take_drop_id mset_append)
    then show ?thesis using s s' True
      by (intro exI [of _ stack_dequeue] exI [of _ "if n = 0 then - ENOBUFS else 0"]
          exI [of _ "take (unat n) (stack_objs s)"] exI [of _ "PoolStack s'"])
        (auto simp: ops_stack_def stack_dequeue_def stack_of_def stack_pool_inv_def stack_pool_elems_def
          stack_pool_cap_def ENOBUFS_def word_neq_0_conv)
  next
    case False
    then have "rte_stack_pop lf_thread0 s n = Some (0, [], s)"
      using rte_stack_pop_std [OF s(2), of n lf_thread0] by simp
    then show ?thesis using s False
      by (intro exI [of _ stack_dequeue] exI [of _ "- ENOBUFS"] exI [of _ "[]"] exI [of _ "PoolStack s"])
        (auto simp: ops_stack_def stack_dequeue_def stack_of_def stack_pool_inv_def stack_pool_elems_def
          stack_pool_cap_def ENOBUFS_def)
  qed
next
  case (4 mp)
  then obtain s where "mp_pool_data mp = PoolStack s" "stack_wf s"
    by (cases "mp_pool_data mp") (auto simp: stack_pool_inv_def)
  moreover from this have "unat (stk_len s) = length (stack_objs s)"
    by (auto simp: stack_wf_def stack_objs_def word_le_nat_alt)
  ultimately show ?case
    by (simp add: ops_stack_def stack_get_count_def stack_of_def stack_pool_elems_def rte_stack_count_def
        rte_stack_std_count_def stack_wf_def)
qed

end
