(* ===== verification/Mempool_Props.thy ===== *)
theory Mempool_Props
  imports Mempool_Cache
begin

text \<open>
  What the users of a mempool rely on: over any run of gets, puts and flushes by any cores, through their caches, no object
  is lost, doubled or held twice and no call goes wrong; when a get succeeds; and what the pool reports as
  available.  The statements hold for the five drivers with a sequential description, \<open>pool_drivers\<close>.
\<close>

lemma foldl_nth: "foldl (\<lambda>a i. f a (l ! i)) a [0..<length l] = foldl f a l"
proof -
  have "foldl f a (map ((!) l) [0..<length l]) = foldl (\<lambda>a i. f a (l ! i)) a [0..<length l]" by (simp only: foldl_map)
  then show ?thesis by (simp add: map_nth)
qed

lemma unat_foldl_add:
  fixes f :: "'a \<Rightarrow> u32"
  shows "unat c + sum_list (map (\<lambda>x. unat (f x)) l) < 2 ^ 32
    \<Longrightarrow> unat (foldl (\<lambda>c x. c + f x) c l) = unat c + sum_list (map (\<lambda>x. unat (f x)) l)"
proof (induction l arbitrary: c)
  case (Cons a l)
  then have "unat (c + f a) = unat c + unat (f a)" by (simp add: unat_word_ariths)
  then show ?case using Cons.IH [of "c + f a"] Cons.prems by simp
qed simp

lemma size_sum_list: "size (sum_list ms :: 'a multiset) = sum_list (map size ms)"
  by (induction ms) simp_all

section \<open>Runs\<close>

text \<open>A state is the pool and the objects its users hold.  A user gives back only what is held.\<close>

inductive pool_step :: "rte_mempool_ops list \<Rightarrow> rte_mempool \<times> nat multiset \<Rightarrow> rte_mempool \<times> nat multiset \<Rightarrow> bool"
  for table where
  get: "rte_mempool_get_bulk table lcore mp n = Some (ret, xs, mp') \<Longrightarrow> pool_step table (mp, held) (mp', held + mset xs)"
| put: "mset objs \<subseteq># held \<Longrightarrow> rte_mempool_put_bulk table lcore mp objs = Some mp'
    \<Longrightarrow> pool_step table (mp, held) (mp', held - mset objs)"
| flush: "rte_mempool_cache_flush table lcore None mp = Some (c, mp') \<Longrightarrow> pool_step table (mp, held) (mp', held)"

definition pool_total :: "(pool_data \<Rightarrow> nat multiset) \<Rightarrow> rte_mempool \<times> nat multiset \<Rightarrow> nat multiset" where
  "pool_total elems s = mempool_contents elems (fst s) + snd s"

context pool_driver begin

definition run_inv :: "rte_mempool_ops list \<Rightarrow> nat multiset \<Rightarrow> rte_mempool \<times> nat multiset \<Rightarrow> bool" where
  "run_inv table all s \<longleftrightarrow> pool_wf table (fst s) \<and> pool_total elems s = all
     \<and> size all \<le> cap (mp_pool_data (fst s)) \<and> size all < 2 ^ 31"

lemma put_held:
  assumes "run_inv table all (mp, held)" "mset objs \<subseteq># held"
  shows "\<exists>mp'. rte_mempool_put_bulk table lcore mp objs = Some mp' \<and> run_inv table all (mp', held - mset objs)"
proof -
  have t: "contents mp + held = all" using assms(1) by (simp add: run_inv_def pool_total_def)
  have le: "length objs \<le> size held" using size_mset_mono [OF assms(2)] by simp
  have sz: "size (contents mp) + size held = size all" using t by (metis size_union)
  have l: "length objs < 2 ^ 31" "size (contents mp) + length objs \<le> cap (mp_pool_data mp)"
    using le sz assms(1) unfolding run_inv_def by simp_all
  have wf: "pool_wf table mp" using assms(1) by (simp add: run_inv_def)
  from put_bulk_law [OF wf l, of lcore] obtain mp' where m: "rte_mempool_put_bulk table lcore mp objs = Some mp'"
    "pool_wf table mp'" "cap (mp_pool_data mp') = cap (mp_pool_data mp)" "contents mp' = contents mp + mset objs"
    by blast
  have "contents mp' + (held - mset objs) = all"
    using t assms(2) unfolding m(4) by (metis add.assoc subset_mset.add_diff_inverse)
  then show ?thesis using m assms(1) by (simp add: run_inv_def pool_total_def)
qed

lemma get_any:
  assumes "run_inv table all (mp, held)"
  shows "\<exists>ret xs mp'. rte_mempool_get_bulk table lcore mp n = Some (ret, xs, mp')
    \<and> run_inv table all (mp', held + mset xs)"
proof -
  have wf: "pool_wf table mp" using assms by (simp add: run_inv_def)
  from get_bulk_law [OF wf, of lcore n] obtain ret xs mp' where
    m: "rte_mempool_get_bulk table lcore mp n = Some (ret, xs, mp')" "pool_wf table mp'"
      "cap (mp_pool_data mp') = cap (mp_pool_data mp)"
    and c: "if get_ok mp lcore n then ret = 0 \<and> length xs = unat n \<and> contents mp = mset xs + contents mp'
       else ret < 0 \<and> xs = [] \<and> contents mp' = contents mp" by blast
  have "contents mp' + mset xs = contents mp" using c by (cases "get_ok mp lcore n") simp_all
  then have "contents mp' + (held + mset xs) = contents mp + held" by (metis add.assoc add.commute)
  then show ?thesis using m assms by (auto simp: run_inv_def pool_total_def)
qed

lemma flush_any:
  assumes "run_inv table all (mp, held)"
  shows "\<exists>mp'. rte_mempool_cache_flush table lcore None mp = Some (None, mp') \<and> run_inv table all (mp', held)"
proof -
  have wf: "pool_wf table mp" using assms by (simp add: run_inv_def)
  have "size (contents mp) \<le> size all" using assms by (auto simp: run_inv_def pool_total_def)
  then have "size (contents mp) \<le> cap (mp_pool_data mp)" using assms by (simp add: run_inv_def)
  from flush_law [OF wf this, of lcore] show ?thesis using assms by (auto simp: run_inv_def pool_total_def)
qed

lemma run_inv_step:
  assumes "pool_step table s s'" "run_inv table all s"
  shows "run_inv table all s'"
  using assms
proof (induction rule: pool_step.induct)
  case (get lcore mp n ret xs mp' held)
  then show ?case using get_any [of table all mp held lcore n] by auto
next
  case (put objs held lcore mp mp')
  then show ?case using put_held [of table all mp held objs lcore] by auto
next
  case (flush lcore mp c mp' held)
  then show ?case using flush_any [of table all mp held lcore] by auto
qed

lemma run_inv_run: "(pool_step table)\<^sup>*\<^sup>* s s' \<Longrightarrow> run_inv table all s \<Longrightarrow> run_inv table all s'"
  by (induction rule: rtranclp_induct) (auto intro: run_inv_step)

lemma conserves:
  assumes "pool_wf table mp" "contents mp = mset objs" "distinct objs"
    and "length objs \<le> cap (mp_pool_data mp)" "length objs < 2 ^ 31"
    and run: "(pool_step table)\<^sup>*\<^sup>* (mp, {#}) (mp', held)"
  shows "contents mp' + held = mset objs \<and> (\<forall>x. count held x \<le> 1)
    \<and> (\<forall>lcore n. rte_mempool_get_bulk table lcore mp' n \<noteq> None)
    \<and> (\<forall>lcore. rte_mempool_cache_flush table lcore None mp' \<noteq> None)
    \<and> (\<forall>lcore back. mset back \<subseteq># held \<longrightarrow> rte_mempool_put_bulk table lcore mp' back \<noteq> None)"
proof -
  have "run_inv table (mset objs) (mp, {#})" using assms(1-5) by (simp add: run_inv_def pool_total_def)
  with run have i: "run_inv table (mset objs) (mp', held)" by (rule run_inv_run)
  have t: "contents mp' + held = mset objs" using i by (simp add: run_inv_def pool_total_def)
  have "count held x \<le> count (mset objs) x" for x using t by (metis count_union le_add2)
  then have "count held x \<le> 1" for x using assms(3) distinct_count_atmost_1 [of objs] by (metis le_trans order_refl zero_le_one)
  then show ?thesis using t get_any [OF i] put_held [OF i] flush_any [OF i] by (metis option.discI)
qed

lemma get_law:
  assumes "pool_wf table mp"
  shows "\<exists>ret xs mp'. rte_mempool_get_bulk table lcore mp n = Some (ret, xs, mp') \<and> pool_wf table mp'
    \<and> (if get_ok mp lcore n then ret = 0 \<and> length xs = unat n \<and> contents mp = mset xs + contents mp'
       else ret < 0 \<and> xs = [] \<and> contents mp' = contents mp)"
  using get_bulk_law [OF assms, of lcore n] by blast

lemma avail_law:
  assumes wf: "pool_wf table mp" and le: "size (contents mp) \<le> unat (mp_size mp)"
  shows "\<exists>c. rte_mempool_avail_count table mp = Some c \<and> unat c = size (contents mp)"
proof -
  have "inv (mp_pool_data mp)" "rte_mempool_get_ops table (mp_ops_index mp) = Some drv"
    using wf by (simp_all add: mempool_wf_def)
  with count_law obtain c where c: "rte_mempool_ops_get_count table mp = Some c"
    "unat c = size (elems (mp_pool_data mp))"
    by (auto simp: rte_mempool_ops_get_count_def dest!: count_law)
  show ?thesis
  proof (cases "mp_cache_size mp = 0")
    case True
    then show ?thesis using c by (simp add: rte_mempool_avail_count_def mempool_contents_def)
  next
    case False
    let ?l = "mp_local_cache mp"
    have l: "length ?l = RTE_MAX_LCORE" "\<And>c. c \<in> set ?l \<Longrightarrow> size (cached c) = unat (mc_len c)"
      using wf False size_cached by (auto simp: mempool_wf_def)
    have m: "map (size \<circ> cached) ?l = map (\<lambda>c. unat (mc_len c)) ?l" using l(2) by simp
    have sum: "size (contents mp) = unat c + sum_list (map (\<lambda>c. unat (mc_len c)) ?l)"
      unfolding m [symmetric] using False c(2) by (simp add: mempool_contents_def size_sum_list)
    have "unat (foldl (\<lambda>cnt c. cnt + mc_len c) c ?l) = size (contents mp)"
      unfolding sum using unat_lt2p [of "mp_size mp"] le sum by (intro unat_foldl_add) simp
    moreover have "foldl (\<lambda>cnt i. cnt + mc_len (?l ! i)) c [0..<RTE_MAX_LCORE] = foldl (\<lambda>cnt c. cnt + mc_len c) c ?l"
      unfolding l(1) [symmetric] by (rule foldl_nth)
    ultimately show ?thesis using c(1) False le
      by (simp add: rte_mempool_avail_count_def Let_def word_less_nat_alt)
  qed
qed

end

section \<open>The properties\<close>

text \<open>The drivers, with the invariant, the objects and the capacity of their data.\<close>

definition pool_drivers ::
  "(rte_mempool_ops \<times> (pool_data \<Rightarrow> bool) \<times> (pool_data \<Rightarrow> nat multiset) \<times> (pool_data \<Rightarrow> nat)) set" where
  "pool_drivers = (\<lambda>drv. (drv, ring_pool_inv, ring_pool_elems, ring_pool_cap)) ` {ops_mp_mc, ops_sp_sc, ops_mp_sc, ops_sp_mc}
     \<union> {(ops_stack, stack_pool_inv, stack_pool_elems, stack_pool_cap)}"

lemmas pool_conserves = pool_mp_mc.conserves pool_sp_sc.conserves pool_mp_sc.conserves pool_sp_mc.conserves
  pool_stack.conserves

lemmas pool_get_laws = pool_mp_mc.get_law pool_sp_sc.get_law pool_mp_sc.get_law pool_sp_mc.get_law pool_stack.get_law

lemmas pool_avail_laws = pool_mp_mc.avail_law pool_sp_sc.avail_law pool_mp_sc.avail_law pool_sp_mc.avail_law
  pool_stack.avail_law

lemma pool_drivers_cases:
  assumes "(drv, good, elems, cap) \<in> pool_drivers"
  obtains "drv \<in> {ops_mp_mc, ops_sp_sc, ops_mp_sc, ops_sp_mc}" "good = ring_pool_inv" "elems = ring_pool_elems" "cap = ring_pool_cap"
  | "drv = ops_stack" "good = stack_pool_inv" "elems = stack_pool_elems" "cap = stack_pool_cap"
  using assms by (auto simp: pool_drivers_def)

text \<open>A pool for the examples: five objects in a ring, caches of 4 objects.\<close>

definition example_pool :: rte_mempool where
  "example_pool = \<lparr>mp_name = ''example'', mp_pool_data = PoolRing \<lparr>rname = ''MP_example'', rflags = 0, rsize = 8, rmask = 7,
       rcapacity = 7, rprod = \<lparr>ht_head = 5, ht_tail = 5, ht_single = False\<rparr>,
       rcons = \<lparr>ht_head = 0, ht_tail = 0, ht_single = False\<rparr>, rmemzone = None,
       rslots = [64, 128, 192, 256, 320, 0, 0, 0]\<rparr>, mp_mz = 0, mp_flags = MEMPOOL_F_POOL_CREATED, mp_socket_id = 0, mp_size = 5,
     mp_cache_size = 4, mp_elt_size = 0, mp_header_size = 64, mp_trailer_size = 0, mp_private_data_size = 0,
     mp_ops_index = 0, mp_local_cache = replicate RTE_MAX_LCORE (mempool_cache_init 4 (replicate 1536 0)),
     mp_populated_size = 5, mp_elt_list = [], mp_nb_mem_chunks = 1, mp_mem_list = []\<rparr>"

lemma example_pool_wf:
  "(ops_mp_mc, ring_pool_inv, ring_pool_elems, ring_pool_cap) \<in> pool_drivers"
  "mempool_wf ops_mp_mc ring_pool_inv [ops_mp_mc] example_pool"
  "mempool_contents ring_pool_elems example_pool = mset [64, 128, 192, 256, 320]"
  "ring_pool_cap (mp_pool_data example_pool) = 7" "mp_size example_pool = 5"
proof -
  show "(ops_mp_mc, ring_pool_inv, ring_pool_elems, ring_pool_cap) \<in> pool_drivers" by (simp add: pool_drivers_def)
  have c: "cache_wf 4 (mempool_cache_init 4 (replicate 1536 0)) \<and> cached (mempool_cache_init 4 (replicate 1536 0)) = {#}"
    by (rule cache_init_wf) simp_all
  have n: "sum_list (replicate k ({#} :: nat multiset)) = {#}" for k by (induction k) simp_all
  have k: "\<exists>k<32. (8::nat) = 2 ^ k" by (rule exI [of _ 3]) simp
  show "mempool_wf ops_mp_mc ring_pool_inv [ops_mp_mc] example_pool"
    using c k by (simp add: mempool_wf_def rte_mempool_get_ops_def example_pool_def ring_pool_inv_def ring_wf_def)
  show "mempool_contents ring_pool_elems example_pool = mset [64, 128, 192, 256, 320]"
    using c by (simp add: mempool_contents_def example_pool_def ring_pool_elems_def ring_elems_def ring_used_def
        n upt_rec)
  show "ring_pool_cap (mp_pool_data example_pool) = 7" "mp_size example_pool = 5"
    by (simp_all add: example_pool_def ring_pool_cap_def ring_cap_def)
qed

lemma example_pool_run: "\<exists>xs mp'. (pool_step [ops_mp_mc])\<^sup>*\<^sup>* (example_pool, {#}) (mp', mset xs) \<and> length xs = 3"
proof -
  have ok: "mempool_get_ok ring_pool_elems example_pool 1 3"
    by (simp add: mempool_get_ok_def rte_mempool_default_cache_def RTE_MAX_LCORE_def can_get_def)
      (simp add: example_pool_def ring_pool_elems_def ring_used_def)
  from pool_mp_mc.get_law [OF example_pool_wf(2), of 1 3] ok obtain ret xs mp' where
    "rte_mempool_get_bulk [ops_mp_mc] 1 example_pool 3 = Some (ret, xs, mp')" "length xs = 3" by auto
  then show ?thesis using pool_step.get [of "[ops_mp_mc]" 1 example_pool 3 ret xs mp' "{#}"] by auto
qed

text \<open>C8. 
  A pool of distinct objects that fit its driver: after any gets, puts (of held objects) and flushes of caches by any cores the
  objects in the pool and its caches and the held ones together are the objects of the start, so none is lost or
  held twice; and every further get, flush, and put of held objects returns.
\<close>

theorem mempool_conserves:
  assumes "(drv, good, elems, cap) \<in> pool_drivers" "mempool_wf drv good table mp"
    and "mempool_contents elems mp = mset objs" "distinct objs"
    and "length objs \<le> cap (mp_pool_data mp)" "length objs < 2 ^ 31"
    and "(pool_step table)\<^sup>*\<^sup>* (mp, {#}) (mp', held)"
  shows "mempool_contents elems mp' + held = mset objs \<and> (\<forall>x. count held x \<le> 1)
    \<and> (\<forall>lcore n. rte_mempool_get_bulk table lcore mp' n \<noteq> None)
    \<and> (\<forall>lcore. rte_mempool_cache_flush table lcore None mp' \<noteq> None)
    \<and> (\<forall>lcore back. mset back \<subseteq># held \<longrightarrow> rte_mempool_put_bulk table lcore mp' back \<noteq> None)"
  using assms(1)
proof (cases rule: pool_drivers_cases)
  case 1
  then show ?thesis using pool_conserves [where table = table and objs = objs, OF _ _ _ _ _ assms(7)] assms(2-6) by auto
next
  case 2
  then show ?thesis using pool_conserves [where table = table and objs = objs, OF _ _ _ _ _ assms(7)] assms(2-6) by auto
qed

lemma mempool_conserves_witness:
  "\<exists>mp' xs. length xs = 3 \<and> (pool_step [ops_mp_mc])\<^sup>*\<^sup>* (example_pool, {#}) (mp', mset xs)
    \<and> mempool_contents ring_pool_elems mp' + mset xs = mset [64, 128, 192, 256, 320]
    \<and> rte_mempool_put_bulk [ops_mp_mc] 2 mp' xs \<noteq> None"
proof -
  obtain xs mp' where r: "(pool_step [ops_mp_mc])\<^sup>*\<^sup>* (example_pool, {#}) (mp', mset xs)" "length xs = 3"
    using example_pool_run by blast
  have cap: "length [64, 128, 192, 256, 320 :: nat] \<le> ring_pool_cap (mp_pool_data example_pool)"
    using example_pool_wf(4) by simp
  have d: "distinct [64, 128, 192, 256, 320 :: nat]" "length [64, 128, 192, 256, 320 :: nat] < 2 ^ 31" by simp_all
  show ?thesis
    using mempool_conserves [OF example_pool_wf(1,2,3) d(1) cap d(2) r(1)] r by blast
qed

text \<open>C10. 
  Getting \<open>n\<close> objects succeeds exactly when the core's cache is larger than \<open>n\<close> and has \<open>n\<close>, or \<open>n\<close> is positive and
  the pool behind the caches has \<open>n\<close>: objects in the own cache do not add to those in the pool, and objects in
  other caches do not count.  On failure nothing changes hands.
\<close>

theorem mempool_get_exactly:
  assumes "(drv, good, elems, cap) \<in> pool_drivers" "mempool_wf drv good table mp"
  shows "\<exists>ret xs mp'. rte_mempool_get_bulk table lcore mp n = Some (ret, xs, mp') \<and> mempool_wf drv good table mp'
    \<and> (if (case rte_mempool_default_cache mp lcore of
             None \<Rightarrow> 0 < n \<and> unat n \<le> size (elems (mp_pool_data mp))
           | Some i \<Rightarrow> n < mp_cache_size mp \<and> n \<le> mc_len (mp_local_cache mp ! i)
               \<or> 0 < n \<and> unat n \<le> size (elems (mp_pool_data mp)))
       then ret = 0 \<and> length xs = unat n \<and> mempool_contents elems mp = mset xs + mempool_contents elems mp'
       else ret < 0 \<and> xs = [] \<and> mempool_contents elems mp' = mempool_contents elems mp)"
proof -
  have ok: "mempool_get_ok elems mp lcore n = (case rte_mempool_default_cache mp lcore of
             None \<Rightarrow> 0 < n \<and> unat n \<le> size (elems (mp_pool_data mp))
           | Some i \<Rightarrow> n < mp_cache_size mp \<and> n \<le> mc_len (mp_local_cache mp ! i)
               \<or> 0 < n \<and> unat n \<le> size (elems (mp_pool_data mp)))"
  proof (cases "rte_mempool_default_cache mp lcore")
    case (Some i)
    then have "mc_size (mp_local_cache mp ! i) = mp_cache_size mp"
      using assms(2) by (auto simp: mempool_wf_def rte_mempool_default_cache_def cache_wf_def split: if_splits)
    then show ?thesis using Some by (simp add: mempool_get_ok_def can_get_def)
  qed (simp add: mempool_get_ok_def)
  from assms(1) show ?thesis unfolding ok [symmetric]
    by (cases rule: pool_drivers_cases; use assms(2) in \<open>auto simp only: insert_iff empty_iff intro: pool_get_laws\<close>)
qed

lemma mempool_get_exactly_witness:
  "(\<exists>ret xs mp'. rte_mempool_get_bulk [ops_mp_mc] 1 example_pool 4 = Some (ret, xs, mp') \<and> ret = 0 \<and> length xs = 4)
    \<and> (\<exists>ret mp'. rte_mempool_get_bulk [ops_mp_mc] 1 example_pool 6 = Some (ret, [], mp') \<and> ret < 0)"
proof -
  have e: "rte_mempool_default_cache example_pool 1 = Some 1" "size (ring_pool_elems (mp_pool_data example_pool)) = 5"
    "mp_cache_size example_pool = 4" "mc_len (mp_local_cache example_pool ! 1) = 0"
    by (simp_all add: example_pool_def rte_mempool_default_cache_def RTE_MAX_LCORE_def ring_pool_elems_def ring_used_def
        mempool_cache_init_def)
  show ?thesis
    using mempool_get_exactly [OF example_pool_wf(1,2), of 1 4] mempool_get_exactly [OF example_pool_wf(1,2), of 1 6]
    unfolding e option.case by auto
qed

text \<open>When nobody holds objects of it, \<open>rte_mempool_avail_count\<close> is the number of objects in the pool and in all
  its caches.\<close>

theorem mempool_avail_exactly:
  assumes "(drv, good, elems, cap) \<in> pool_drivers" "mempool_wf drv good table mp"
    and "size (mempool_contents elems mp) \<le> unat (mp_size mp)"
  shows "\<exists>avail used. rte_mempool_avail_count table mp = Some avail \<and> unat avail = size (mempool_contents elems mp)
    \<and> rte_mempool_in_use_count table mp = Some used \<and> unat used = unat (mp_size mp) - size (mempool_contents elems mp)"
proof -
  obtain c where c: "rte_mempool_avail_count table mp = Some c" "unat c = size (mempool_contents elems mp)"
    using assms(1)
  proof (cases rule: pool_drivers_cases)
    case 1
    then show ?thesis using pool_avail_laws [where table = table and mp = mp] assms(2,3) that by auto
  next
    case 2
    then show ?thesis using pool_avail_laws [where table = table and mp = mp] assms(2,3) that by auto
  qed
  have "unat (mp_size mp - c) = unat (mp_size mp) - unat c" using c(2) assms(3) by (simp add: unat_sub_add_le)
  then show ?thesis using c by (simp add: rte_mempool_in_use_count_def)
qed

lemma mempool_avail_exactly_witness:
  "\<exists>avail used. rte_mempool_avail_count [ops_mp_mc] example_pool = Some avail \<and> unat avail = 5
    \<and> rte_mempool_in_use_count [ops_mp_mc] example_pool = Some used \<and> unat used = 0"
proof -
  have e: "size (mempool_contents ring_pool_elems example_pool) = 5" "unat (mp_size example_pool) = 5"
    unfolding example_pool_wf(3,5) by simp_all
  show ?thesis using mempool_avail_exactly [OF example_pool_wf(1,2)] unfolding e by simp
qed

end
