(* ===== verification/Mempool_Create.thy ===== *)
theory Mempool_Create
  imports Mempool_Props
begin

text \<open>
  The life of a mempool (\<open>rte_mempool.c\<close>, \<open>rte_mempool_ops_default.c\<close>): the size of an object with its
  header and padding, the creation of the empty pool, the memory zones and their division into objects, and the
  release.

  What the EAL knows of memory is a parameter, \<open>eal_memory\<close>: the channels and ranks, the virtual and the IO
  address of a block of the heap, the IO address of a virtual address (\<open>None\<close> is \<open>RTE_BAD_IOVA\<close>), the page
  sizes, and how large the biggest free block is.  \<open>None\<close> as a result is the end of the process, or a loop
  without end.
\<close>

section \<open>Sizes\<close>

definition SOCKET_ID_ANY :: int where "SOCKET_ID_ANY = -1"

record eal_memory =
  nchannel :: u32
  nrank :: u32
  zone_vaddr :: "nat \<Rightarrow> nat"
  zone_iova :: "nat \<Rightarrow> nat option"
  virt2iova :: "nat \<Rightarrow> nat option"
  socket_is_external :: "int \<Rightarrow> int"
  iova_va :: bool
  has_hugepages :: bool
  memseg_lists :: "(int \<times> bool \<times> nat) list"
  page_size :: nat
  biggest_free :: "nat \<Rightarrow> nat"

record rte_mempool_objsz =
  sz_elt_size :: u32
  sz_header_size :: u32
  sz_trailer_size :: u32
  sz_total_size :: u32

function gcd_loop :: "u32 \<Rightarrow> u32 \<Rightarrow> u32" where
  "gcd_loop a b = (if b \<noteq> 0 then gcd_loop b (a mod b) else a)"
  by auto
termination
  by (relation "measure (\<lambda>(a, b). unat b)") (auto simp: unat_mod_distrib unat_gt_0 word_neq_0_conv)

declare gcd_loop.simps [simp del]

definition get_gcd :: "u32 \<Rightarrow> u32 \<Rightarrow> u32" where
  "get_gcd a b =
    (if 0 = a then b else if 0 = b then a
     else if a < b then gcd_loop b a else gcd_loop a b)"

lemma unat_gcd_loop: "unat (gcd_loop a b) = gcd (unat a) (unat b)"
proof (induction a b rule: gcd_loop.induct)
  case (1 a b)
  show ?case
  proof (cases "b = 0")
    case False
    then have "gcd_loop a b = gcd_loop b (a mod b)" by (subst gcd_loop.simps) simp
    then have "unat (gcd_loop a b) = gcd (unat b) (unat (a mod b))" using 1 [OF False] by simp
    also have "\<dots> = gcd (unat b) (unat a mod unat b)" by (simp only: unat_mod_distrib)
    finally show ?thesis by (simp add: gcd_red_nat [of "unat a" "unat b", symmetric] gcd.commute)
  qed (subst gcd_loop.simps, simp)
qed

lemma unat_get_gcd: "unat (get_gcd a b) = gcd (unat a) (unat b)"
  by (auto simp: get_gcd_def unat_gcd_loop gcd.commute)

lemma get_gcd_one: "get_gcd 1 m = 1"
  using unat_get_gcd [of 1 m] by (simp add: word_unat_eq_iff)

text \<open>The loop \<open>while (get_gcd(new_obj_size, nrank * nchan) != 1) new_obj_size++\<close>; at 1, at the latest, it ends.\<close>

function spread_loop :: "u32 \<Rightarrow> u32 \<Rightarrow> u32" where
  "spread_loop m new_obj_size =
    (if get_gcd new_obj_size m \<noteq> 1 then spread_loop m (new_obj_size + 1) else new_obj_size)"
  by auto
termination
proof (relation "measure (\<lambda>(m, x). unat (1 - x))", goal_cases)
  case (2 m x)
  then have "x \<noteq> 1" using get_gcd_one by blast
  then have "1 - x \<noteq> 0" by auto
  then have "unat (1 - x - 1) < unat (1 - x)" by (rule measure_unat)
  moreover have "1 - x - 1 = 1 - (x + 1)" by simp
  ultimately show ?case by (simp only: in_measure split_conv)
qed simp

declare spread_loop.simps [simp del]

definition RTE_MEMPOOL_ALIGN :: u32 where "RTE_MEMPOOL_ALIGN = 64"
definition RTE_MEMPOOL_ALIGN_MASK :: u32 where "RTE_MEMPOOL_ALIGN_MASK = RTE_MEMPOOL_ALIGN - 1"

definition optimize_object_size :: "eal_memory \<Rightarrow> u32 \<Rightarrow> u32" where
  "optimize_object_size L obj_size =
    (let nchan = (if nchannel L = 0 then 4 else nchannel L);
         nrnk = (if nrank L = 0 then 1 else nrank L);
         new_obj_size = (obj_size + RTE_MEMPOOL_ALIGN_MASK) div RTE_MEMPOOL_ALIGN
     in spread_loop (nrnk * nchan) new_obj_size * RTE_MEMPOOL_ALIGN)"

definition ALIGN_CEIL32 :: "u32 \<Rightarrow> u32 \<Rightarrow> u32" where
  "ALIGN_CEIL32 v a = (v + (a - 1)) AND NOT (a - 1)"

text \<open>\<open>sizeof(struct rte_mempool_objhdr)\<close> is 24, without the debugging cookies.\<close>

definition rte_mempool_calc_obj_size :: "eal_memory \<Rightarrow> u32 \<Rightarrow> u32 \<Rightarrow> rte_mempool_objsz" where
  "rte_mempool_calc_obj_size L elt_size flags =
    (let header = (if flags AND MEMPOOL_F_NO_CACHE_ALIGN = 0 then ALIGN_CEIL32 24 RTE_MEMPOOL_ALIGN else 24);
         elt = ALIGN_CEIL32 elt_size 8;
         trailer = (if flags AND MEMPOOL_F_NO_CACHE_ALIGN = 0
           then (RTE_MEMPOOL_ALIGN - ((header + elt) AND RTE_MEMPOOL_ALIGN_MASK)) AND RTE_MEMPOOL_ALIGN_MASK else 0);
         trailer = (if flags AND MEMPOOL_F_NO_SPREAD = 0
           then optimize_object_size L (header + elt + trailer) - header - elt else trailer)
     in \<lparr>sz_elt_size = elt, sz_header_size = header, sz_trailer_size = trailer,
         sz_total_size = header + elt + trailer\<rparr>)"

section \<open>Dividing memory into objects\<close>

text \<open>\<open>size_t\<close> read as \<open>ssize_t\<close>.\<close>

definition ssize :: "nat \<Rightarrow> int" where
  "ssize v = (let v = v mod 2 ^ 64 in if v \<ge> 2 ^ 63 then int v - 2 ^ 64 else int v)"

definition rte_mempool_op_calc_mem_size_default :: "rte_mempool \<Rightarrow> u32 \<Rightarrow> nat \<Rightarrow> int \<times> nat \<times> nat" where
  "rte_mempool_op_calc_mem_size_default mp obj_num pg_shift =
    (let total_elt_sz = unat (mp_header_size mp + mp_elt_size mp + mp_trailer_size mp);
         mem_size =
           (if total_elt_sz = 0 then 0
            else if pg_shift = 0 then total_elt_sz * unat obj_num
            else let pg_sz = 2 ^ pg_shift; obj_per_page = pg_sz div total_elt_sz
                 in if obj_per_page = 0 then RTE_ALIGN_CEIL total_elt_sz pg_sz * unat obj_num
                    else ((unat obj_num + obj_per_page - 1) div obj_per_page) * pg_sz)
     in (ssize mem_size, max (2 ^ pg_shift) total_elt_sz, max RTE_CACHE_LINE_SIZE (2 ^ pg_shift)))"

definition rte_mempool_ops_calc_mem_size ::
  "rte_mempool_ops list \<Rightarrow> rte_mempool \<Rightarrow> u32 \<Rightarrow> nat \<Rightarrow> (int \<times> nat \<times> nat) option" where
  "rte_mempool_ops_calc_mem_size table mp obj_num pg_shift =
    map_option (\<lambda>ops. case op_calc_mem_size ops of
        None \<Rightarrow> rte_mempool_op_calc_mem_size_default mp obj_num pg_shift
      | Some f \<Rightarrow> f mp obj_num pg_shift) (rte_mempool_get_ops table (mp_ops_index mp))"

definition mempool_add_elem :: "rte_mempool \<Rightarrow> nat \<Rightarrow> nat option \<Rightarrow> rte_mempool" where
  "mempool_add_elem mp obj iova =
    mp\<lparr>mp_elt_list := mp_elt_list mp @ [(obj, iova)], mp_populated_size := mp_populated_size mp + 1\<rparr>"

text \<open>The loop over \<open>i < max_objs\<close>; \<open>k\<close> is \<open>max_objs - i\<close>.\<close>

fun populate_objs ::
  "rte_mempool_ops list \<Rightarrow> nat \<Rightarrow> nat option \<Rightarrow> nat \<Rightarrow> (rte_mempool \<Rightarrow> nat \<Rightarrow> nat option \<Rightarrow> rte_mempool)
    \<Rightarrow> nat \<Rightarrow> nat \<Rightarrow> nat \<Rightarrow> nat \<Rightarrow> rte_mempool \<Rightarrow> (int \<times> rte_mempool) option" where
  "populate_objs table vaddr iova len obj_cb total_elt_sz 0 off i mp = Some (int i, mp)"
| "populate_objs table vaddr iova len obj_cb total_elt_sz (Suc k) off i mp =
    (if off + total_elt_sz \<le> len
     then let off = off + unat (mp_header_size mp);
              obj = vaddr + off;
              mp = obj_cb mp obj (map_option (\<lambda>io. io + off) iova)
          in case rte_mempool_ops_enqueue_bulk table mp [obj] of
               None \<Rightarrow> None
             | Some (_, mp) \<Rightarrow>
                 populate_objs table vaddr iova len obj_cb total_elt_sz k
                   (off + unat (mp_elt_size mp + mp_trailer_size mp)) (Suc i) mp
     else Some (int i, mp))"

text \<open>The number of objects, unsigned, is returned as an \<open>int\<close>.\<close>

definition rte_mempool_op_populate_default ::
  "rte_mempool_ops list \<Rightarrow> rte_mempool \<Rightarrow> u32 \<Rightarrow> nat \<Rightarrow> nat option \<Rightarrow> nat
    \<Rightarrow> (rte_mempool \<Rightarrow> nat \<Rightarrow> nat option \<Rightarrow> rte_mempool) \<Rightarrow> (int \<times> rte_mempool) option" where
  "rte_mempool_op_populate_default table mp max_objs vaddr iova len obj_cb =
    map_option (\<lambda>(i, mp). (sint (word_of_int i :: u32), mp))
      (populate_objs table vaddr iova len obj_cb
        (unat (mp_header_size mp + mp_elt_size mp + mp_trailer_size mp)) (unat max_objs) 0 0 mp)"

definition rte_mempool_ops_populate ::
  "rte_mempool_ops list \<Rightarrow> rte_mempool \<Rightarrow> u32 \<Rightarrow> nat \<Rightarrow> nat option \<Rightarrow> nat
    \<Rightarrow> (rte_mempool \<Rightarrow> nat \<Rightarrow> nat option \<Rightarrow> rte_mempool) \<Rightarrow> (int \<times> rte_mempool) option" where
  "rte_mempool_ops_populate table mp max_objs vaddr iova len obj_cb =
    (case rte_mempool_get_ops table (mp_ops_index mp) of
       None \<Rightarrow> None
     | Some ops \<Rightarrow>
        (case op_populate ops of
           None \<Rightarrow> rte_mempool_op_populate_default table mp max_objs vaddr iova len obj_cb
         | Some f \<Rightarrow> f mp max_objs vaddr iova len obj_cb))"

definition mempool_ops_alloc_once ::
  "rte_mempool_ops list \<Rightarrow> rte_mempool \<Rightarrow> pool_env \<Rightarrow> (int \<times> rte_mempool \<times> pool_env) option" where
  "mempool_ops_alloc_once table mp e =
    (if mp_flags mp AND MEMPOOL_F_POOL_CREATED = 0
     then case rte_mempool_ops_alloc table mp e of
            None \<Rightarrow> None
          | Some (ret, mp, e) \<Rightarrow>
              if ret \<noteq> 0 then Some (ret, mp, e)
              else Some (0, mp\<lparr>mp_flags := mp_flags mp OR MEMPOOL_F_POOL_CREATED\<rparr>, e)
     else Some (0, mp, e))"

section \<open>Freeing the memory\<close>

fun drain_elems :: "rte_mempool_ops list \<Rightarrow> nat \<Rightarrow> rte_mempool \<Rightarrow> rte_mempool option" where
  "drain_elems table 0 mp = Some mp"
| "drain_elems table (Suc k) mp =
    (case rte_mempool_ops_dequeue_bulk table mp 1 of
       None \<Rightarrow> None
     | Some (_, _, mp) \<Rightarrow>
         drain_elems table k (mp\<lparr>mp_elt_list := tl (mp_elt_list mp), mp_populated_size := mp_populated_size mp - 1\<rparr>))"

fun free_chunks :: "rte_mempool_memhdr list \<Rightarrow> pool_env \<Rightarrow> pool_env" where
  "free_chunks [] e = e"
| "free_chunks (memhdr # hs) e =
    (let e = (case mh_free memhdr of None \<Rightarrow> e | Some mz \<Rightarrow> snd (rte_memzone_free (Some mz) e))
     in free_chunks hs (rte_free (Some (mh_block memhdr)) e))"

definition rte_mempool_free_memchunks ::
  "rte_mempool_ops list \<Rightarrow> rte_mempool \<Rightarrow> pool_env \<Rightarrow> (rte_mempool \<times> pool_env) option" where
  "rte_mempool_free_memchunks table mp e =
    map_option (\<lambda>mp.
      (mp\<lparr>mp_mem_list := [], mp_nb_mem_chunks := mp_nb_mem_chunks mp - word_of_nat (length (mp_mem_list mp))\<rparr>,
       free_chunks (mp_mem_list mp) e)) (drain_elems table (length (mp_elt_list mp)) mp)"

section \<open>Populating\<close>

text \<open>The distance to the first aligned address.\<close>

definition chunk_off :: "rte_mempool \<Rightarrow> nat \<Rightarrow> nat" where
  "chunk_off mp vaddr =
    (if mp_flags mp AND MEMPOOL_F_NO_CACHE_ALIGN \<noteq> 0 then RTE_ALIGN_CEIL vaddr 8 - vaddr
     else RTE_ALIGN_CEIL vaddr RTE_CACHE_LINE_SIZE - vaddr)"

text \<open>The free callback is \<open>rte_mempool_memchunk_mz_free\<close> of a zone, or none.\<close>

definition rte_mempool_populate_iova ::
  "rte_mempool_ops list \<Rightarrow> rte_mempool \<Rightarrow> nat \<Rightarrow> nat option \<Rightarrow> nat \<Rightarrow> nat option \<Rightarrow> pool_env
    \<Rightarrow> (int \<times> rte_mempool \<times> pool_env) option" where
  "rte_mempool_populate_iova table mp vaddr iova len free_mz e =
    (case mempool_ops_alloc_once table mp e of
       None \<Rightarrow> None
     | Some (ret, mp, e) \<Rightarrow>
        if ret \<noteq> 0 then Some (ret, mp, e)
        else if mp_populated_size mp \<ge> mp_size mp then Some (- ENOSPC, mp, e)
        else case rte_malloc 56 e of
          (None, e) \<Rightarrow> Some (- ENOMEM, mp, e)
        | (Some h, e) \<Rightarrow>
           (let memhdr = \<lparr>mh_block = h, mh_addr = vaddr, mh_iova = iova, mh_len = len, mh_free = free_mz\<rparr>;
                off = chunk_off mp vaddr
            in if off > len then Some (- EINVAL, mp, rte_free (Some h) e)
               else case rte_mempool_ops_populate table mp (mp_size mp - mp_populated_size mp) (vaddr + off)
                           (map_option (\<lambda>io. io + off) iova) (len - off) mempool_add_elem of
                      None \<Rightarrow> None
                    | Some (i, mp) \<Rightarrow>
                        if i = 0 then Some (- EINVAL, mp, rte_free (Some h) e)
                        else Some (i, mp\<lparr>mp_mem_list := mp_mem_list mp @ [memhdr],
                                         mp_nb_mem_chunks := mp_nb_mem_chunks mp + 1\<rparr>, e)))"

text \<open>The largest group of pages with consecutive IO addresses; \<open>k\<close> bounds the number of rounds.\<close>

fun group_len :: "eal_memory \<Rightarrow> nat \<Rightarrow> nat \<Rightarrow> nat \<Rightarrow> nat option \<Rightarrow> nat \<Rightarrow> nat \<Rightarrow> nat option" where
  "group_len L addr len pg_sz iova 0 phys_len = None"
| "group_len L addr len pg_sz iova (Suc k) phys_len =
    (if phys_len < len
     then if iova \<noteq> None \<and> virt2iova L (addr + phys_len) = map_option (\<lambda>io. io + phys_len) iova
          then group_len L addr len pg_sz iova k (phys_len + pg_sz)
          else Some phys_len
     else Some phys_len)"

text \<open>The loop over the groups, from \<open>off\<close>; the result tells whether to go to \<open>fail\<close>.\<close>

fun populate_groups ::
  "rte_mempool_ops list \<Rightarrow> eal_memory \<Rightarrow> nat \<Rightarrow> nat \<Rightarrow> nat \<Rightarrow> nat \<Rightarrow> nat \<Rightarrow> nat option \<Rightarrow> int \<Rightarrow> rte_mempool \<Rightarrow> pool_env
    \<Rightarrow> (bool \<times> int \<times> rte_mempool \<times> pool_env) option" where
  "populate_groups table L addr len pg_sz 0 off free_mz cnt mp e = None"
| "populate_groups table L addr len pg_sz (Suc k) off free_mz cnt mp e =
    (if off + pg_sz \<le> len \<and> mp_populated_size mp < mp_size mp
     then let iova = virt2iova L (addr + off)
          in if iova = None \<and> has_hugepages L then Some (True, - EINVAL, mp, e)
             else case group_len L (addr + off) (len - off) pg_sz iova (Suc len) pg_sz of
                    None \<Rightarrow> None
                  | Some phys_len \<Rightarrow>
                     (case rte_mempool_populate_iova table mp (addr + off) iova phys_len free_mz e of
                        None \<Rightarrow> None
                      | Some (ret, mp, e) \<Rightarrow>
                          if ret < 0 then Some (True, ret, mp, e)
                          else populate_groups table L addr len pg_sz k (off + phys_len) None (cnt + ret) mp e)
     else Some (False, cnt, mp, e))"

definition rte_mempool_populate_virt ::
  "rte_mempool_ops list \<Rightarrow> eal_memory \<Rightarrow> rte_mempool \<Rightarrow> nat \<Rightarrow> nat \<Rightarrow> nat \<Rightarrow> nat option \<Rightarrow> pool_env
    \<Rightarrow> (int \<times> rte_mempool \<times> pool_env) option" where
  "rte_mempool_populate_virt table L mp addr len pg_sz free_mz e =
    (if RTE_ALIGN_CEIL addr pg_sz \<noteq> addr then Some (- EINVAL, mp, e)
     else if RTE_ALIGN_CEIL len pg_sz \<noteq> len then Some (- EINVAL, mp, e)
     else if mp_flags mp AND MEMPOOL_F_NO_IOVA_CONTIG \<noteq> 0
     then rte_mempool_populate_iova table mp addr None len free_mz e
     else case populate_groups table L addr len pg_sz (Suc len) 0 free_mz 0 mp e of
            None \<Rightarrow> None
          | Some (failed, ret, mp, e) \<Rightarrow>
              if failed then map_option (\<lambda>(mp, e). (ret, mp, e)) (rte_mempool_free_memchunks table mp e)
              else Some (ret, mp, e))"

definition get_min_page_size :: "eal_memory \<Rightarrow> int \<Rightarrow> nat" where
  "get_min_page_size L socket =
    (let wa_min = foldl (\<lambda>wa_min (msl_socket, external, page_sz).
           if (msl_socket = socket \<or> socket = SOCKET_ID_ANY \<and> \<not> external) \<and> page_sz < wa_min then page_sz
           else wa_min) SIZE_MAX (memseg_lists L)
     in if wa_min = SIZE_MAX then page_size L else wa_min)"

text \<open>
  One memory zone for \<open>n\<close> more objects: contiguous, else of pages, else the biggest there is.  The result is an
  error, or the zone, whether contiguity is still asked for, and the least size of a useful chunk.
\<close>

definition reserve_chunk ::
  "rte_mempool_ops list \<Rightarrow> eal_memory \<Rightarrow> rte_mempool \<Rightarrow> nat \<Rightarrow> nat \<Rightarrow> bool \<Rightarrow> bool \<Rightarrow> nat \<Rightarrow> u32 \<Rightarrow> pool_env
    \<Rightarrow> ((int + rte_memzone \<times> bool \<times> nat) \<times> pool_env) option" where
  "reserve_chunk table L mp pg_sz pg_shift no_pageshift try_contig mz_id n e =
    (case rte_mempool_ops_calc_mem_size table mp n (if try_contig \<or> no_pageshift then 0 else pg_shift) of
       None \<Rightarrow> None
     | Some (mem_size, min_chunk_size, align) \<Rightarrow>
        if mem_size < 0 then Some (Inl mem_size, e)
        else
         let mz_name = RTE_MEMPOOL_MZ_PREFIX @ mp_name mp @ ''_'' @ show_base 10 mz_id
         in if length mz_name \<ge> RTE_MEMZONE_NAMESIZE then Some (Inl (- ENAMETOOLONG), e)
            else case memzone_reserve_aligned (biggest_free L (mallocs e)) mz_name (nat mem_size) (word_of_nat align) 0 e of
              (mz, e) \<Rightarrow>
              (case (if mz = None \<and> try_contig \<and> min_chunk_size \<le> pg_sz
                     then case rte_mempool_ops_calc_mem_size table mp n pg_shift of
                            None \<Rightarrow> None
                          | Some (mem_size, min_chunk_size, align) \<Rightarrow>
                              if mem_size < 0 then Some (Some mem_size, None, False, mem_size, min_chunk_size, align, e)
                              else case memzone_reserve_aligned (biggest_free L (mallocs e)) mz_name (nat mem_size)
                                          (word_of_nat align) 0 e of
                                     (mz, e) \<Rightarrow> Some (None, mz, False, mem_size, min_chunk_size, align, e)
                     else Some (None, mz, try_contig, mem_size, min_chunk_size, align, e)) of
                 None \<Rightarrow> None
               | Some (Some err, _, _, _, _, _, e) \<Rightarrow> Some (Inl err, e)
               | Some (None, mz, try_contig, mem_size, min_chunk_size, align, e) \<Rightarrow>
                  (case (if int min_chunk_size < mem_size \<and> mz = None
                         then memzone_reserve_aligned (biggest_free L (mallocs e)) mz_name 0
                                (word_of_nat (max pg_sz align)) 0 e
                         else (mz, e)) of
                     (None, e) \<Rightarrow> Some (Inl (- rte_errno e), e)
                   | (Some mz, e) \<Rightarrow>
                       if mz_len mz < min_chunk_size
                       then Some (Inl (- ENOMEM), snd (rte_memzone_free (Some (mz_addr mz)) e))
                       else Some (Inr (mz, try_contig, min_chunk_size), e))))"

text \<open>The loop over the zones; \<open>k\<close> bounds the rounds, each of which adds an object.\<close>

fun populate_zones ::
  "rte_mempool_ops list \<Rightarrow> eal_memory \<Rightarrow> nat \<Rightarrow> nat \<Rightarrow> bool \<Rightarrow> nat \<Rightarrow> nat \<Rightarrow> u32 \<Rightarrow> bool \<Rightarrow> rte_mempool \<Rightarrow> pool_env
    \<Rightarrow> (bool \<times> int \<times> rte_mempool \<times> pool_env) option" where
  "populate_zones table L pg_sz pg_shift no_pageshift 0 mz_id n try_contig mp e = None"
| "populate_zones table L pg_sz pg_shift no_pageshift (Suc k) mz_id n try_contig mp e =
    (if n = 0 then Some (False, sint (mp_size mp), mp, e)
     else case reserve_chunk table L mp pg_sz pg_shift no_pageshift try_contig mz_id n e of
       None \<Rightarrow> None
     | Some (Inl err, e) \<Rightarrow> Some (True, err, mp, e)
     | Some (Inr (mz, try_contig, _), e) \<Rightarrow>
        (let a = mz_addr mz;
             iova = (if mp_flags mp AND MEMPOOL_F_NO_IOVA_CONTIG \<noteq> 0 then None else zone_iova L a)
         in case (if no_pageshift \<or> try_contig
                  then rte_mempool_populate_iova table mp (zone_vaddr L a) iova (mz_len mz) (Some a) e
                  else rte_mempool_populate_virt table L mp (zone_vaddr L a) (mz_len mz div pg_sz * pg_sz) pg_sz (Some a) e) of
              None \<Rightarrow> None
            | Some (ret, mp, e) \<Rightarrow>
                if ret < 0 then Some (True, ret, mp, snd (rte_memzone_free (Some a) e))
                else populate_zones table L pg_sz pg_shift no_pageshift k (Suc mz_id) (n - word_of_int ret) try_contig mp e))"

definition rte_mempool_populate_default ::
  "rte_mempool_ops list \<Rightarrow> eal_memory \<Rightarrow> rte_mempool \<Rightarrow> pool_env \<Rightarrow> (int \<times> rte_mempool \<times> pool_env) option" where
  "rte_mempool_populate_default table L mp e =
    (case mempool_ops_alloc_once table mp e of
       None \<Rightarrow> None
     | Some (ret, mp, e) \<Rightarrow>
        if ret \<noteq> 0 then Some (ret, mp, e)
        else if socket_is_external L (mp_socket_id mp) < 0 then Some (- EINVAL, mp, e)
        else if mp_nb_mem_chunks mp \<noteq> 0 then Some (- EEXIST, mp, e)
        else
         let no_contig = mp_flags mp AND MEMPOOL_F_NO_IOVA_CONTIG \<noteq> 0;
             external = socket_is_external L (mp_socket_id mp) = 1;
             no_pageshift = no_contig \<or> \<not> external \<and> iova_va L;
             try_contig = (\<not> no_contig \<and> \<not> no_pageshift \<and> (has_hugepages L \<or> external));
             pg_sz = (if no_pageshift then 0 else if try_contig then get_min_page_size L (mp_socket_id mp) else page_size L);
             pg_shift = (if no_pageshift then 0 else rte_bsf32 (word_of_nat pg_sz))
         in case populate_zones table L pg_sz pg_shift no_pageshift (Suc (unat (mp_size mp))) 0 (mp_size mp) try_contig mp e of
              None \<Rightarrow> None
            | Some (failed, ret, mp, e) \<Rightarrow>
                if failed then map_option (\<lambda>(mp, e). (ret, mp, e)) (rte_mempool_free_memchunks table mp e)
                else Some (ret, mp, e))"

section \<open>Creating and freeing\<close>

text \<open>On x86-64 \<open>sizeof(struct rte_mempool)\<close> is 192; \<open>sizeof(struct rte_tailq_entry)\<close> is 24.\<close>

definition MEMPOOL_HEADER_SIZE :: "u32 \<Rightarrow> nat" where
  "MEMPOOL_HEADER_SIZE cs = 192 + (if cs = 0 then 0 else sizeof_mempool_cache * RTE_MAX_LCORE)"

definition rte_mempool_free :: "rte_mempool_ops list \<Rightarrow> rte_mempool option \<Rightarrow> pool_env \<Rightarrow> pool_env option" where
  "rte_mempool_free table mp e =
    (case mp of
       None \<Rightarrow> Some e
     | Some mp \<Rightarrow>
        (let e = (case find (\<lambda>(te, data). data = mp_mz mp) (mempool_list e) of
                    None \<Rightarrow> e
                  | Some (te, data) \<Rightarrow> rte_free (Some te) (e\<lparr>mempool_list := remove1 (te, data) (mempool_list e)\<rparr>))
         in case rte_mempool_free_memchunks table mp e of
              None \<Rightarrow> None
            | Some (mp, e) \<Rightarrow>
                map_option (\<lambda>e. snd (rte_memzone_free (Some (mp_mz mp)) e)) (rte_mempool_ops_free table mp e)))"

text \<open>
  The pool without objects.  The name of the pool fits in its field, which is as long as that of the zone, so
  that the last failure of the C code cannot happen.
\<close>

definition rte_mempool_create_empty ::
  "eal_memory \<Rightarrow> string \<Rightarrow> u32 \<Rightarrow> u32 \<Rightarrow> u32 \<Rightarrow> u32 \<Rightarrow> int \<Rightarrow> u32 \<Rightarrow> pool_env \<Rightarrow> rte_mempool option \<times> pool_env" where
  "rte_mempool_create_empty L name n elt_size cache_size private_data_size socket_id flags e =
    (if n = 0 then (None, e\<lparr>rte_errno := EINVAL\<rparr>)
     else if cache_size > RTE_MEMPOOL_CACHE_MAX_SIZE \<or> CALC_CACHE_FLUSHTHRESH cache_size > n
     then (None, e\<lparr>rte_errno := EINVAL\<rparr>)
     else
      let flags = (if flags AND MEMPOOL_F_NO_CACHE_ALIGN \<noteq> 0 then flags OR MEMPOOL_F_NO_SPREAD else flags);
          objsz = rte_mempool_calc_obj_size L elt_size flags
      in if sz_total_size objsz = 0 then (None, e\<lparr>rte_errno := EINVAL\<rparr>)
         else
          let private_data_size = (private_data_size + RTE_MEMPOOL_ALIGN_MASK) AND NOT RTE_MEMPOOL_ALIGN_MASK
          in case rte_malloc 24 e of
               (None, e) \<Rightarrow> (None, e)
             | (Some te, e) \<Rightarrow>
                (let mempool_size = RTE_ALIGN_CEIL (MEMPOOL_HEADER_SIZE cache_size + unat private_data_size) 64;
                     mz_name = RTE_MEMPOOL_MZ_PREFIX @ name
                 in if length mz_name \<ge> RTE_MEMZONE_NAMESIZE
                    then (None, rte_free (Some te) (e\<lparr>rte_errno := ENAMETOOLONG\<rparr>))
                    else case memzone_reserve_aligned 0 mz_name mempool_size (word_of_nat RTE_CACHE_LINE_SIZE) 0 e of
                      (None, e) \<Rightarrow> (None, rte_free (Some te) e)
                    | (Some mz, e) \<Rightarrow>
                       (Some \<lparr>mp_name = name, mp_pool_data = PoolNull, mp_mz = mz_addr mz, mp_flags = flags,
                          mp_socket_id = socket_id, mp_size = n, mp_cache_size = cache_size,
                          mp_elt_size = sz_elt_size objsz, mp_header_size = sz_header_size objsz,
                          mp_trailer_size = sz_trailer_size objsz, mp_private_data_size = private_data_size,
                          mp_ops_index = 0,
                          mp_local_cache = (if cache_size = 0 then []
                            else map (\<lambda>_. mempool_cache_init cache_size (replicate (3 * unat RTE_MEMPOOL_CACHE_MAX_SIZE) 0))
                                   [0..<RTE_MAX_LCORE]),
                          mp_populated_size = 0, mp_elt_list = [], mp_nb_mem_chunks = 0, mp_mem_list = []\<rparr>,
                        e\<lparr>mempool_list := mempool_list e @ [(te, mz_addr mz)]\<rparr>)))"

text \<open>The callback is called on every object with its number; \<open>m\<close> is the memory of the objects.\<close>

fun obj_iter :: "('m \<Rightarrow> nat \<Rightarrow> nat \<Rightarrow> 'm) \<Rightarrow> (nat \<times> nat option) list \<Rightarrow> nat \<Rightarrow> 'm \<Rightarrow> 'm" where
  "obj_iter obj_cb [] n m = m"
| "obj_iter obj_cb ((obj, _) # hdrs) n m = obj_iter obj_cb hdrs (Suc n) (obj_cb m obj n)"

definition rte_mempool_obj_iter :: "rte_mempool \<Rightarrow> (rte_mempool \<Rightarrow> 'm \<Rightarrow> nat \<Rightarrow> nat \<Rightarrow> 'm) \<Rightarrow> 'm \<Rightarrow> 'm" where
  "rte_mempool_obj_iter mp obj_cb m = obj_iter (obj_cb mp) (mp_elt_list mp) 0 m"

definition create_ops_name :: "u32 \<Rightarrow> string" where
  "create_ops_name flags =
    (if flags AND MEMPOOL_F_SP_PUT \<noteq> 0 \<and> flags AND MEMPOOL_F_SC_GET \<noteq> 0 then ''ring_sp_sc''
     else if flags AND MEMPOOL_F_SP_PUT \<noteq> 0 then ''ring_sp_mc''
     else if flags AND MEMPOOL_F_SC_GET \<noteq> 0 then ''ring_mp_sc''
     else ''ring_mp_mc'')"

text \<open>\<open>mp_init\<close> and \<open>obj_init\<close> write the memory \<open>m\<close> of the private data and the objects.\<close>

definition rte_mempool_create ::
  "rte_mempool_ops list \<Rightarrow> eal_memory \<Rightarrow> string \<Rightarrow> u32 \<Rightarrow> u32 \<Rightarrow> u32 \<Rightarrow> u32
    \<Rightarrow> (rte_mempool \<Rightarrow> 'm \<Rightarrow> 'm) option \<Rightarrow> (rte_mempool \<Rightarrow> 'm \<Rightarrow> nat \<Rightarrow> nat \<Rightarrow> 'm) option \<Rightarrow> int \<Rightarrow> u32 \<Rightarrow> 'm \<Rightarrow> pool_env
    \<Rightarrow> (rte_mempool option \<times> 'm \<times> pool_env) option" where
  "rte_mempool_create table L name n elt_size cache_size private_data_size mp_init obj_init socket_id flags m e =
    (case rte_mempool_create_empty L name n elt_size cache_size private_data_size socket_id flags e of
       (None, e) \<Rightarrow> Some (None, m, e)
     | (Some mp, e) \<Rightarrow>
        (case rte_mempool_set_ops_byname table (create_ops_name flags) mp of (ret, mp) \<Rightarrow>
          if ret \<noteq> 0 then map_option (\<lambda>e. (None, m, e)) (rte_mempool_free table (Some mp) e)
          else
           let m = (case mp_init of None \<Rightarrow> m | Some f \<Rightarrow> f mp m)
           in case rte_mempool_populate_default table L mp e of
                None \<Rightarrow> None
              | Some (ret, mp, e) \<Rightarrow>
                  if ret < 0 then map_option (\<lambda>e. (None, m, e)) (rte_mempool_free table (Some mp) e)
                  else Some (Some mp, case obj_init of None \<Rightarrow> m | Some f \<Rightarrow> rte_mempool_obj_iter mp f m, e)))"

end
