(* ===== verification/Mempool_Layout.thy ===== *)
theory Mempool_Layout
  imports Mempool_Create
begin

text \<open>
  Creating a mempool: whatever zones the EAL hands out, as long as they do not overlap, the objects of a pool
  that was created lie in them one beside the other, and all are in the ring of the pool.
\<close>

section \<open>The ring of a pool\<close>

lemma bit_fold_step:
  fixes x y :: "'a::len word"
  assumes "\<And>i. bit y i \<longleftrightarrow> (\<exists>j<k. bit x (i + j))"
  shows "bit (y OR drop_bit k y) i \<longleftrightarrow> (\<exists>j<k + k. bit x (i + j))"
proof
  assume "bit (y OR drop_bit k y) i"
  then have "(\<exists>j<k. bit x (i + j)) \<or> (\<exists>j<k. bit x (i + k + j))"
    by (auto simp: bit_or_iff bit_drop_bit_eq assms ac_simps)
  then show "\<exists>j<k + k. bit x (i + j)"
    by (metis add.assoc add_strict_left_mono trans_less_add1)
next
  assume "\<exists>j<k + k. bit x (i + j)"
  then obtain j where j: "j < k + k" "bit x (i + j)" by blast
  show "bit (y OR drop_bit k y) i"
  proof (cases "j < k")
    case False
    then have "i + j = i + k + (j - k)" "j - k < k" using j(1) by simp_all
    then have "bit y (i + k)" using j(2) assms by metis
    then show ?thesis by (simp add: bit_or_iff bit_drop_bit_eq ac_simps)
  qed (use j assms in \<open>auto simp: bit_or_iff\<close>)
qed

lemma bit_combine32: "bit (rte_combine32ms1b x) i \<longleftrightarrow> (\<exists>j<32. bit x (i + j))"
proof -
  let ?y = "\<lambda>k y. y OR drop_bit k y"
  have 0: "\<And>i. bit x i \<longleftrightarrow> (\<exists>j<1. bit x (i + j))" by simp
  note 1 = bit_fold_step [where k = 1, OF 0, simplified one_add_one]
  note 2 = bit_fold_step [where k = 2, OF 1, simplified numeral_plus_numeral Num.add_num_simps]
  note 4 = bit_fold_step [where k = 4, OF 2, simplified numeral_plus_numeral Num.add_num_simps]
  note 8 = bit_fold_step [where k = 8, OF 4, simplified numeral_plus_numeral Num.add_num_simps]
  note 16 = bit_fold_step [where k = 16, OF 8, simplified numeral_plus_numeral Num.add_num_simps]
  show ?thesis unfolding rte_combine32ms1b_def Let_def by (rule 16)
qed

lemma align32pow2:
  assumes "unat n < 2 ^ j" "j \<le> 31"
  obtains k where "k \<le> j" "unat (rte_align32pow2 (n + 1)) = 2 ^ k" "unat n < 2 ^ k"
proof -
  define k where "k = (LEAST k. unat n < 2 ^ k)"
  have k: "unat n < 2 ^ k" "k \<le> j" unfolding k_def using assms(1) LeastI [of "\<lambda>k. unat n < 2 ^ k" j] by (auto intro: Least_le)
  have k31: "k \<le> 31" using k(2) assms(2) by simp
  have bits: "bit n i \<Longrightarrow> i < k" for i
  proof (rule ccontr)
    assume b: "bit n i" and "\<not> i < k"
    then have "(2::nat) ^ k \<le> 2 ^ i" by simp
    with k(1) have "unat n < 2 ^ i" by (rule less_le_trans)
    then have "unat n div 2 ^ i = 0" by simp
    moreover have "bit (unat n) i" using b by (simp add: bit_unsigned_iff)
    ultimately show False by (simp add: bit_iff_odd)
  qed
  have top: "bit n (k - 1)" if "k \<noteq> 0"
  proof -
    have "\<not> unat n < 2 ^ (k - 1)" using that not_less_Least [of "k - 1" "\<lambda>k. unat n < 2 ^ k"] by (simp add: k_def)
    moreover have "unat n < 2 * 2 ^ (k - 1)" using k(1) that by (metis power_minus_mult mult.commute neq0_conv)
    ultimately have "unat n div 2 ^ (k - 1) = 1" by (intro div_nat_eqI) simp_all
    then have "bit (unat n) (k - 1)" by (simp add: bit_iff_odd)
    then show ?thesis by (simp add: bit_unsigned_iff)
  qed
  have "rte_combine32ms1b n = mask k"
  proof (rule bit_word_eqI)
    fix i :: nat
    assume i: "i < LENGTH(32)"
    show "bit (rte_combine32ms1b n) i \<longleftrightarrow> bit (mask k :: u32) i"
    proof
      assume "bit (rte_combine32ms1b n) i"
      then have "i < k" using bits unfolding bit_combine32 by fastforce
      then show "bit (mask k :: u32) i" using i by (simp add: bit_mask_iff)
    next
      assume "bit (mask k :: u32) i"
      then have "i < k" by (simp add: bit_mask_iff)
      then have "bit n (i + (k - 1 - i))" "k - 1 - i < 32" using top k31 by simp_all
      then show "bit (rte_combine32ms1b n) i" unfolding bit_combine32 by blast
    qed
  qed
  then have "rte_align32pow2 (n + 1) = mask k + 1" by (simp add: rte_align32pow2_def)
  then have "rte_align32pow2 (n + 1) = 2 ^ k" by (simp add: mask_eq_exp_minus_1)
  moreover have "unat ((2::u32) ^ k) = 2 ^ k" using k31 by (intro unat_pow2) simp
  ultimately show thesis using that k by simp
qed

lemma POWEROF2_exp: "POWEROF2 (2 ^ k)"
proof -
  have "mask k AND 2 ^ k = (0 :: u32)" by (intro bit_word_eqI) (simp add: bit_simps)
  then show ?thesis by (simp add: POWEROF2_def mask_eq_exp_minus_1)
qed

text \<open>A created ring, if any.\<close>

lemma memzone_reserve_Some:
  assumes "memzone_reserve_aligned big name len al bd e = (Some mz, e')"
  shows "memzones e' = memzones e @ [mz]"
proof -
  obtain a e1 where a: "malloc_heap_alloc (if RTE_ALIGN_CEIL len RTE_CACHE_LINE_SIZE = 0 \<and> bd = 0 then big
      else if RTE_ALIGN_CEIL len RTE_CACHE_LINE_SIZE = 0 then unat bd
      else max RTE_CACHE_LINE_SIZE (RTE_ALIGN_CEIL len RTE_CACHE_LINE_SIZE)) e = (a, e1)" by fastforce
  have "memzones e1 = memzones e" using a by (auto simp: malloc_heap_alloc_def Let_def split: if_splits)
  then show ?thesis using assms a unfolding memzone_reserve_aligned_def Let_def
    by (auto split: if_splits option.splits)
qed

lemma memzone_reserve_None:
  assumes "memzone_reserve_aligned big name len al bd e = (None, e')"
  shows "memzones e' = memzones e"
proof -
  obtain a e1 where a: "malloc_heap_alloc (if RTE_ALIGN_CEIL len RTE_CACHE_LINE_SIZE = 0 \<and> bd = 0 then big
      else if RTE_ALIGN_CEIL len RTE_CACHE_LINE_SIZE = 0 then unat bd
      else max RTE_CACHE_LINE_SIZE (RTE_ALIGN_CEIL len RTE_CACHE_LINE_SIZE)) e = (a, e1)" by fastforce
  have "memzones e1 = memzones e" using a by (auto simp: malloc_heap_alloc_def Let_def split: if_splits)
  then show ?thesis using assms a unfolding memzone_reserve_aligned_def Let_def
    by (auto split: if_splits option.splits)
qed

lemma rte_malloc_memzones: "rte_malloc n e = (r, e') \<Longrightarrow> memzones e' = memzones e"
  by (auto simp: rte_malloc_def malloc_heap_alloc_def Let_def split: if_splits)

lemma rte_free_zones [simp]: "memzones (rte_free a e) = memzones e"
  by (simp add: rte_free_def split: option.splits)

lemma rte_ring_create_Some:
  assumes c: "rte_ring_create junk name num flags e = (Some r, e')" and f: "flags AND RING_F_EXACT_SZ = 0" "num \<noteq> 0"
  shows "ring_wf r \<and> ring_elems r = [] \<and> ring_cap r = unat num - 1 \<and> (\<exists>mz. memzones e' = memzones e @ [mz])"
proof -
  obtain te e1 where m: "rte_malloc 24 e = (te, e1)" by fastforce
  obtain mz e2 where z: "memzone_reserve_aligned 0 (RTE_RING_MZ_PREFIX @ name) (nat (rte_ring_get_memsize num)) 64 0 e1 = (mz, e2)"
    by fastforce
  obtain ret r0 where i: "rte_ring_init junk name num flags = (ret, r0)" by fastforce
  have s: "rte_ring_get_memsize num \<ge> 0" "length name < 29" "te \<noteq> None" "mz \<noteq> None"
    and r: "r = r0\<lparr>rmemzone := Some (mz_addr (the mz))\<rparr>" "memzones e' = memzones e2"
    using c f(1) m z i
    by (auto simp: rte_ring_create_def Let_def RTE_MEMZONE_NAMESIZE_def RTE_RING_MZ_PREFIX_def split: if_splits option.splits)
  have "POWEROF2 num \<and> num \<le> RTE_RING_SZ_MASK"
    using s(1) by (auto simp: rte_ring_get_memsize_def EINVAL_def not_less split: if_splits)
  then have "ring_wf r0 \<and> ring_elems r0 = [] \<and> ring_cap r0 = unat num - 1"
    using rte_ring_init_correct [OF f, where junk = junk and name = name] i s(2) by (auto simp: RTE_MEMZONE_NAMESIZE_def)
  then have "ring_wf r \<and> ring_elems r = [] \<and> ring_cap r = unat num - 1"
    unfolding r(1) by (simp add: ring_wf_def ring_elems_def ring_cap_def ring_used_def)
  moreover have "\<exists>mz. memzones e' = memzones e @ [mz]"
    using memzone_reserve_Some [of 0 _ _ 64 0 e1 "the mz" e2] z s(4) rte_malloc_memzones [OF m] r(2) by auto
  ultimately show ?thesis by blast
qed

section \<open>Dividing a chunk\<close>

definition elt_space :: "rte_mempool \<Rightarrow> nat" where
  "elt_space mp = unat (mp_header_size mp + mp_elt_size mp + mp_trailer_size mp)"

definition sizes_ok :: "rte_mempool \<Rightarrow> bool" where
  "sizes_ok mp \<longleftrightarrow> unat (mp_header_size mp) + unat (mp_elt_size mp + mp_trailer_size mp) = elt_space mp \<and> 0 < elt_space mp"

definition obj_addrs :: "nat \<Rightarrow> nat \<Rightarrow> nat \<Rightarrow> nat list" where
  "obj_addrs base space m = map (\<lambda>j. base + j * space) [0..<m]"

lemma obj_addrs_Suc: "obj_addrs base space (Suc m) = base # obj_addrs (base + space) space m"
  by (simp add: obj_addrs_def upt_conv_Cons map_Suc_upt [symmetric] ac_simps del: upt_Suc)

lemma obj_addrs_0 [simp]: "obj_addrs base space 0 = []"
  by (simp add: obj_addrs_def)

lemma length_obj_addrs [simp]: "length (obj_addrs base space m) = m"
  by (simp add: obj_addrs_def)

section \<open>The layout of a pool\<close>

definition obj_list :: "rte_mempool \<Rightarrow> nat list" where
  "obj_list mp = map fst (mp_elt_list mp)"

definition obj_align :: "rte_mempool \<Rightarrow> nat" where
  "obj_align mp = (if mp_flags mp AND MEMPOOL_F_NO_CACHE_ALIGN \<noteq> 0 then 8 else 64)"

text \<open>The space of an object, header, element and trailer, inside the bytes from \<open>a\<close> to \<open>b\<close>.\<close>

definition obj_within :: "rte_mempool \<Rightarrow> nat \<Rightarrow> nat \<Rightarrow> nat \<Rightarrow> bool" where
  "obj_within mp a b obj \<longleftrightarrow> a + unat (mp_header_size mp) \<le> obj \<and> obj + elt_space mp \<le> b + unat (mp_header_size mp)"

definition obj_outside :: "rte_mempool \<Rightarrow> nat \<Rightarrow> nat \<Rightarrow> nat \<Rightarrow> bool" where
  "obj_outside mp a b obj \<longleftrightarrow> obj + elt_space mp \<le> a + unat (mp_header_size mp) \<or> b + unat (mp_header_size mp) \<le> obj"

definition zone_begin :: "eal_memory \<Rightarrow> rte_memzone \<Rightarrow> nat" where "zone_begin L mz = zone_vaddr L (mz_addr mz)"
definition zone_end :: "eal_memory \<Rightarrow> rte_memzone \<Rightarrow> nat" where "zone_end L mz = zone_vaddr L (mz_addr mz) + mz_len mz"

definition zones_disjoint :: "eal_memory \<Rightarrow> rte_memzone list \<Rightarrow> bool" where
  "zones_disjoint L = sorted_wrt (\<lambda>z z'. zone_end L z \<le> zone_begin L z' \<or> zone_end L z' \<le> zone_begin L z)"

definition apart :: "nat \<Rightarrow> nat \<Rightarrow> nat \<Rightarrow> bool" where
  "apart space x y \<longleftrightarrow> x + space \<le> y \<or> y + space \<le> x"

definition pool_layout :: "eal_memory \<Rightarrow> rte_memzone list \<Rightarrow> rte_mempool \<Rightarrow> bool" where
  "pool_layout L zones mp \<longleftrightarrow> sizes_ok mp \<and> obj_align mp dvd unat (mp_header_size mp) \<and> obj_align mp dvd elt_space mp
     \<and> (\<forall>obj\<in>set (obj_list mp). obj_align mp dvd obj \<and> (\<exists>z\<in>set zones. obj_within mp (zone_begin L z) (zone_end L z) obj))
     \<and> sorted_wrt (apart (elt_space mp)) (obj_list mp)
     \<and> unat (mp_populated_size mp) = length (obj_list mp) \<and> length (obj_list mp) \<le> unat (mp_size mp)"

text \<open>What populating leaves alone.\<close>

definition same_pool :: "rte_mempool \<Rightarrow> rte_mempool \<Rightarrow> bool" where
  "same_pool mp mp' \<longleftrightarrow> mp_name mp' = mp_name mp \<and> mp_mz mp' = mp_mz mp \<and> mp_flags mp' = mp_flags mp
     \<and> mp_socket_id mp' = mp_socket_id mp \<and> mp_size mp' = mp_size mp \<and> mp_cache_size mp' = mp_cache_size mp
     \<and> mp_elt_size mp' = mp_elt_size mp \<and> mp_header_size mp' = mp_header_size mp
     \<and> mp_trailer_size mp' = mp_trailer_size mp \<and> mp_ops_index mp' = mp_ops_index mp
     \<and> mp_local_cache mp' = mp_local_cache mp"

lemma same_pool_refl [simp]: "same_pool mp mp"
  by (simp add: same_pool_def)

lemma same_pool_trans: "same_pool a b \<Longrightarrow> same_pool b c \<Longrightarrow> same_pool a c"
  by (simp add: same_pool_def)

lemma same_pool_sizes:
  assumes "same_pool mp mp'"
  shows "elt_space mp' = elt_space mp" "sizes_ok mp' = sizes_ok mp" "obj_align mp' = obj_align mp"
    "obj_within mp' = obj_within mp" "obj_outside mp' = obj_outside mp"
  using assms by (simp_all add: same_pool_def elt_space_def sizes_ok_def obj_align_def fun_eq_iff obj_within_def obj_outside_def)

lemma obj_addrs_set: "x \<in> set (obj_addrs base space m) \<Longrightarrow> base \<le> x \<and> x + space \<le> base + m * space"
proof -
  assume "x \<in> set (obj_addrs base space m)"
  then obtain j where j: "j < m" "x = base + j * space" by (auto simp: obj_addrs_def)
  then have "Suc j * space \<le> m * space" by (intro mult_right_mono) simp_all
  then show ?thesis using j by simp
qed

lemma obj_addrs_apart: "sorted_wrt (apart space) (obj_addrs base space m)"
proof (induction m arbitrary: base)
  case (Suc m)
  then show ?case using obj_addrs_set [of _ "base + space" space m] by (auto simp: obj_addrs_Suc apart_def)
qed simp

lemma RTE_ALIGN_CEIL_ge:
  assumes "0 < a"
  shows "v \<le> RTE_ALIGN_CEIL v a" "a dvd RTE_ALIGN_CEIL v a" "a dvd v \<Longrightarrow> RTE_ALIGN_CEIL v a = v"
proof -
  show "a dvd RTE_ALIGN_CEIL v a" by (simp add: RTE_ALIGN_CEIL_def)
  have "(v + (a - 1)) div a * a + (v + (a - 1)) mod a = v + (a - 1)" by simp
  moreover have "(v + (a - 1)) mod a < a" using assms by simp
  ultimately show "v \<le> RTE_ALIGN_CEIL v a" unfolding RTE_ALIGN_CEIL_def by linarith
  show "RTE_ALIGN_CEIL v a = v" if dvd: "a dvd v"
  proof -
    from dvd obtain k where "v = a * k" by (rule dvdE)
    moreover have "(a - 1 + a * k) div a = k + (a - 1) div a" using assms by (intro div_mult_self2) simp
    then have "(a * k + (a - 1)) div a = k" using assms by (simp only: add.commute [of "a * k"]) simp
    ultimately show ?thesis by (simp only: RTE_ALIGN_CEIL_def mult.commute)
  qed
qed

text \<open>Objects placed in a free chunk.\<close>

lemma pool_layout_extend:
  assumes "pool_layout L zones mp" "same_pool mp mp'" "obj_list mp' = obj_list mp @ obj_addrs base (elt_space mp) m"
    and "unat (mp_populated_size mp') = length (obj_list mp) + m" "length (obj_list mp) + m \<le> unat (mp_size mp)"
    and "obj_align mp dvd base" "a + unat (mp_header_size mp) \<le> base" "m = 0 \<or> base + m * elt_space mp \<le> b + unat (mp_header_size mp)"
    and "z \<in> set zones" "zone_begin L z \<le> a" "b \<le> zone_end L z"
    and "\<And>obj. obj \<in> set (obj_list mp) \<Longrightarrow> obj_outside mp a b obj"
  shows "pool_layout L zones mp'"
    and "obj \<in> set (obj_addrs base (elt_space mp) m) \<Longrightarrow> obj_within mp a b obj"
proof -
  note same = same_pool_sizes [OF assms(2)]
  have hs: "mp_header_size mp' = mp_header_size mp" "mp_size mp' = mp_size mp" using assms(2) by (simp_all add: same_pool_def)
  have w: "obj_within mp a b obj \<and> obj_align mp dvd obj" if "obj \<in> set (obj_addrs base (elt_space mp) m)" for obj
  proof -
    have "m \<noteq> 0" using that by (cases m) auto
    then have "obj_within mp a b obj"
      using obj_addrs_set [OF that] assms(7,8) by (simp add: obj_within_def)
    moreover have "obj_align mp dvd elt_space mp" using assms(1) by (simp add: pool_layout_def)
    then have "obj_align mp dvd obj" using that assms(6) by (auto simp: obj_addrs_def)
    ultimately show ?thesis by blast
  qed
  then show "obj \<in> set (obj_addrs base (elt_space mp) m) \<Longrightarrow> obj_within mp a b obj" by blast
  have "apart (elt_space mp) x y" if "x \<in> set (obj_list mp)" "y \<in> set (obj_addrs base (elt_space mp) m)" for x y
    using w [OF that(2)] assms(12) [OF that(1)] by (auto simp: obj_within_def obj_outside_def apart_def)
  then have "sorted_wrt (apart (elt_space mp)) (obj_list mp')"
    using assms(1) obj_addrs_apart unfolding assms(3) by (simp add: sorted_wrt_append pool_layout_def)
  moreover have "obj_align mp dvd obj \<and> (\<exists>z\<in>set zones. obj_within mp (zone_begin L z) (zone_end L z) obj)"
    if "obj \<in> set (obj_list mp')" for obj
  proof (cases "obj \<in> set (obj_list mp)")
    case False
    then have "obj_within mp a b obj" "obj_align mp dvd obj" using that w unfolding assms(3) by auto
    then have "obj_within mp (zone_begin L z) (zone_end L z) obj" using assms(10,11) by (simp add: obj_within_def)
    then show ?thesis using assms(9) \<open>obj_align mp dvd obj\<close> by blast
  qed (use assms(1) in \<open>simp add: pool_layout_def\<close>)
  moreover have "length (obj_list mp') = length (obj_list mp) + m" unfolding assms(3) by simp
  ultimately show "pool_layout L zones mp'"
    using assms(1,4,5) unfolding pool_layout_def same hs by simp
qed

lemma group_len_le:
  "group_len L addr len pg_sz iova k p = Some q \<Longrightarrow> pg_sz dvd len \<Longrightarrow> pg_sz dvd p \<Longrightarrow> p \<le> len
    \<Longrightarrow> pg_sz dvd q \<and> q \<le> len"
proof (induction k arbitrary: p)
  case (Suc k)
  show ?case
  proof (cases "p < len \<and> iova \<noteq> None \<and> virt2iova L (addr + p) = map_option (\<lambda>io. io + p) iova")
    case True
    then have r: "group_len L addr len pg_sz iova k (p + pg_sz) = Some q" using Suc.prems(1) by simp
    from Suc.prems(2,3) obtain a b where "len = pg_sz * a" "p = pg_sz * b" by (auto elim!: dvdE)
    then have "p + pg_sz \<le> len" using True by (simp add: mult_less_cancel1 flip: mult_Suc_right)
      (metis Suc_leI add.commute mult_Suc_right mult_le_mono2)
    then show ?thesis using Suc.IH [OF r] Suc.prems(2,3) by simp
  qed (use Suc.prems in \<open>auto split: if_splits\<close>)
qed simp

lemma reserve_chunk_Some:
  assumes "reserve_chunk table L mp pg_sz pg_shift np tc mz_id n e = Some (Inr (mz, tc', mc), e')"
  shows "memzones e' = memzones e @ [mz] \<and> mc \<le> mz_len mz"
  using assms unfolding reserve_chunk_def Let_def
  by (auto split: option.splits prod.splits if_splits dest!: memzone_reserve_Some memzone_reserve_None)

context pool_driver begin

lemma enqueue_one:
  assumes "rte_mempool_get_ops table (mp_ops_index mp) = Some drv" "inv (mp_pool_data mp)"
    and "size (elems (mp_pool_data mp)) < cap (mp_pool_data mp)"
  obtains p where "rte_mempool_ops_enqueue_bulk table mp [obj] = Some (0, mp\<lparr>mp_pool_data := p\<rparr>)" "inv p"
    "cap p = cap (mp_pool_data mp)" "elems p = elems (mp_pool_data mp) + {#obj#}"
  using enqueue_bulk_law [OF assms(1,2), of "[obj]"] assms(3) by auto

lemma populate_objs_law:
  assumes "rte_mempool_get_ops table (mp_ops_index mp) = Some drv" "inv (mp_pool_data mp)" "sizes_ok mp"
    and "elt_space mp = t" "size (elems (mp_pool_data mp)) + k \<le> cap (mp_pool_data mp)"
  shows "\<exists>p new m. populate_objs table va iova len mempool_add_elem t k off i mp
      = Some (int (i + m), mp\<lparr>mp_pool_data := p, mp_elt_list := mp_elt_list mp @ new,
          mp_populated_size := mp_populated_size mp + of_nat m\<rparr>)
    \<and> inv p \<and> cap p = cap (mp_pool_data mp) \<and> elems p = elems (mp_pool_data mp) + mset (map fst new)
    \<and> map fst new = obj_addrs (va + off + unat (mp_header_size mp)) t m
    \<and> (\<forall>(obj, io)\<in>set new. io = map_option (\<lambda>io. io + (obj - va)) iova)
    \<and> m \<le> k \<and> (m = 0 \<or> off + m * t \<le> len) \<and> (m < k \<longrightarrow> len < off + (m + 1) * t)"
  using assms
proof (induction k arbitrary: off i mp)
  case 0
  then show ?case by (intro exI [of _ "mp_pool_data mp"] exI [of _ "[]"] exI [of _ 0]) simp
next
  case (Suc k)
  show ?case
  proof (cases "off + t \<le> len")
    case False
    then show ?thesis using Suc.prems by (intro exI [of _ "mp_pool_data mp"] exI [of _ "[]"] exI [of _ 0]) simp
  next
    case True
    let ?h = "unat (mp_header_size mp)"
    let ?obj = "va + (off + ?h)" and ?io = "map_option (\<lambda>io. io + (off + ?h)) iova"
    let ?mp1 = "mempool_add_elem mp ?obj ?io"
    have a: "rte_mempool_get_ops table (mp_ops_index ?mp1) = Some drv" "inv (mp_pool_data ?mp1)"
      "size (elems (mp_pool_data ?mp1)) < cap (mp_pool_data ?mp1)"
      using Suc.prems by (simp_all add: mempool_add_elem_def)
    from enqueue_one [OF a, of ?obj] obtain p1 where e: "rte_mempool_ops_enqueue_bulk table ?mp1 [?obj] = Some (0, ?mp1\<lparr>mp_pool_data := p1\<rparr>)"
      and p1: "inv p1" "cap p1 = cap (mp_pool_data mp)" "elems p1 = elems (mp_pool_data mp) + {#?obj#}"
      by (auto simp: mempool_add_elem_def)
    define mp2 where "mp2 = ?mp1\<lparr>mp_pool_data := p1\<rparr>"
    let ?off = "off + ?h + unat (mp_elt_size mp + mp_trailer_size mp)"
    have off: "?off = off + t" using Suc.prems(3,4) by (simp add: sizes_ok_def)
    have f: "mp_pool_data mp2 = p1" "mp_header_size mp2 = mp_header_size mp" by (simp_all add: mp2_def mempool_add_elem_def)
    have c: "rte_mempool_get_ops table (mp_ops_index mp2) = Some drv" "inv (mp_pool_data mp2)" "sizes_ok mp2"
      "elt_space mp2 = t" "size (elems (mp_pool_data mp2)) + k \<le> cap (mp_pool_data mp2)"
      using Suc.prems p1 by (simp_all add: mp2_def mempool_add_elem_def sizes_ok_def elt_space_def)
    from Suc.IH [OF c, of ?off "Suc i", unfolded f] obtain p new m where
      r: "populate_objs table va iova len mempool_add_elem t k ?off (Suc i) mp2 =
        Some (int (Suc i + m), mp2\<lparr>mp_pool_data := p, mp_elt_list := mp_elt_list mp2 @ new,
          mp_populated_size := mp_populated_size mp2 + of_nat m\<rparr>)"
      and q: "inv p" "cap p = cap p1" "elems p = elems p1 + mset (map fst new)"
        "map fst new = obj_addrs (va + ?off + ?h) t m" "\<forall>(obj, io)\<in>set new. io = map_option (\<lambda>io. io + (obj - va)) iova"
        "m \<le> k" "m = 0 \<or> ?off + m * t \<le> len" "m < k \<longrightarrow> len < ?off + (m + 1) * t"
      by blast
    have "populate_objs table va iova len mempool_add_elem t (Suc k) off i mp =
        populate_objs table va iova len mempool_add_elem t k ?off (Suc i) mp2"
      using True e by (simp add: Let_def mp2_def) (simp add: mempool_add_elem_def)
    then have "populate_objs table va iova len mempool_add_elem t (Suc k) off i mp =
        Some (int (i + Suc m), mp\<lparr>mp_pool_data := p, mp_elt_list := mp_elt_list mp @ ((?obj, ?io) # new),
          mp_populated_size := mp_populated_size mp + of_nat (Suc m)\<rparr>)"
      unfolding r by (simp add: mp2_def mempool_add_elem_def ac_simps)
    moreover have "map fst ((?obj, ?io) # new) = obj_addrs (va + off + ?h) t (Suc m)"
      using q(4) off by (simp add: obj_addrs_Suc ac_simps)
    moreover have "elems p = elems (mp_pool_data mp) + mset (map fst ((?obj, ?io) # new))"
      using q(3) p1(3) by simp
    moreover have "Suc m = 0 \<or> off + Suc m * t \<le> len" "Suc m < Suc k \<longrightarrow> len < off + (Suc m + 1) * t"
      using q(7,8) True off by auto
    moreover have "\<forall>(obj, io)\<in>set ((?obj, ?io) # new). io = map_option (\<lambda>io. io + (obj - va)) iova"
      using q(5) by simp
    ultimately show ?thesis using q(1,2,6) p1(2)
      by (intro exI [of _ p] exI [of _ "(?obj, ?io) # new"] exI [of _ "Suc m"]) simp
  qed
qed

definition pool_ready :: "rte_mempool_ops list \<Rightarrow> rte_mempool \<Rightarrow> bool" where
  "pool_ready table mp \<longleftrightarrow> rte_mempool_get_ops table (mp_ops_index mp) = Some drv \<and> op_populate drv = None
     \<and> inv (mp_pool_data mp) \<and> elems (mp_pool_data mp) = mset (obj_list mp) \<and> unat (mp_size mp) \<le> cap (mp_pool_data mp)
     \<and> mp_flags mp AND MEMPOOL_F_POOL_CREATED \<noteq> 0"

lemma populate_iova_law:
  assumes r: "pool_ready table mp" and l: "pool_layout L zones mp"
    and z: "z \<in> set zones" "zone_begin L z \<le> va" "va + len \<le> zone_end L z"
    and free: "\<And>obj. obj \<in> set (obj_list mp) \<Longrightarrow> obj_outside mp va (va + len) obj"
    and c: "rte_mempool_populate_iova table mp va iova len free_mz e = Some (ret, mp', e')" and ok: "0 \<le> ret"
  obtains m where "ret = int m" "0 < m" "pool_ready table mp'" "pool_layout L zones mp'" "same_pool mp mp'"
    "length (obj_list mp') = length (obj_list mp) + m" "memzones e' = memzones e"
    "\<And>obj. obj \<in> set (obj_list mp') \<Longrightarrow> obj \<in> set (obj_list mp) \<or> obj_within mp va (va + len) obj"
proof -
  let ?a = "obj_align mp"
  define off where "off = RTE_ALIGN_CEIL va ?a - va"
  define k where "k = mp_size mp - mp_populated_size mp"
  have a0: "0 < ?a" by (simp add: obj_align_def)
  have off: "va + off = RTE_ALIGN_CEIL va ?a" using RTE_ALIGN_CEIL_ge(1) [OF a0] by (simp add: off_def)
  have once: "mempool_ops_alloc_once table mp e = Some (0, mp, e)" using r by (simp add: mempool_ops_alloc_once_def pool_ready_def)
  have off_if: "chunk_off mp va = off" by (simp add: off_def chunk_off_def obj_align_def RTE_CACHE_LINE_SIZE_def)
  have pop: "unat (mp_populated_size mp) = length (obj_list mp)" "length (obj_list mp) \<le> unat (mp_size mp)"
    using l by (simp_all add: pool_layout_def)
  have not_full: "\<not> mp_populated_size mp \<ge> mp_size mp"
    using c ok once by (auto simp: rte_mempool_populate_iova_def ENOSPC_def)
  obtain h e1 where m: "rte_malloc 56 e = (h, e1)" by fastforce
  have h: "h \<noteq> None" using c ok once not_full m by (cases h) (auto simp: rte_mempool_populate_iova_def ENOMEM_def)
  have le: "\<not> off > len"
    using c ok once not_full m h off_if by (auto simp: rte_mempool_populate_iova_def Let_def EINVAL_def split: option.splits)
  have d: "rte_mempool_get_ops table (mp_ops_index mp) = Some drv" "inv (mp_pool_data mp)" "sizes_ok mp" "elt_space mp = elt_space mp"
    "op_populate drv = None" "elems (mp_pool_data mp) = mset (obj_list mp)" "unat (mp_size mp) \<le> cap (mp_pool_data mp)"
    using r l by (simp_all add: pool_ready_def pool_layout_def)
  have k: "unat k = unat (mp_size mp) - length (obj_list mp)"
    using pop by (simp add: k_def unat_sub_add_le)
  have room: "size (elems (mp_pool_data mp)) + unat k \<le> cap (mp_pool_data mp)" using d(6,7) k pop(2) by simp
  from populate_objs_law [OF d(1-4) room, where va = "va + off" and iova = "map_option (\<lambda>io. io + off) iova" and len = "len - off" and off = 0 and i = 0]
  obtain p new m where
    r1: "populate_objs table (va + off) (map_option (\<lambda>io. io + off) iova) (len - off) mempool_add_elem (elt_space mp) (unat k) 0 0 mp
      = Some (int (0 + m), mp\<lparr>mp_pool_data := p, mp_elt_list := mp_elt_list mp @ new,
          mp_populated_size := mp_populated_size mp + of_nat m\<rparr>)"
    and q: "inv p" "cap p = cap (mp_pool_data mp)" "elems p = elems (mp_pool_data mp) + mset (map fst new)"
      "map fst new = obj_addrs (va + off + 0 + unat (mp_header_size mp)) (elt_space mp) m" "m \<le> unat k"
      "m = 0 \<or> 0 + m * elt_space mp \<le> len - off" by blast
  define mp1 where "mp1 = mp\<lparr>mp_pool_data := p, mp_elt_list := mp_elt_list mp @ new,
          mp_populated_size := mp_populated_size mp + of_nat m\<rparr>"
  have r2: "rte_mempool_ops_populate table mp k (va + off) (map_option (\<lambda>io. io + off) iova) (len - off) mempool_add_elem
      = Some (sint (of_nat m :: u32), mp1)"
    using d(1,5) r1 by (simp add: rte_mempool_ops_populate_def rte_mempool_op_populate_default_def elt_space_def mp1_def)
  have "m < 2 ^ 32" using q(5) unat_lt2p [of k] by simp
  then have um: "unat (of_nat m :: u32) = m" by (intro unat_of_nat_small) simp
  have s0: "sint (of_nat m :: u32) = 0 \<longleftrightarrow> m = 0"
    by (simp only: signed_eq_0_iff word_unat_eq_iff [of "of_nat m"] um unat_0)
  have "rte_mempool_populate_iova table mp va iova len free_mz e =
    (if m = 0 then Some (- EINVAL, mp1, rte_free h e1)
     else Some (sint (of_nat m :: u32), mp1\<lparr>mp_mem_list := mp_mem_list mp1 @ [\<lparr>mh_block = the h, mh_addr = va, mh_iova = iova, mh_len = len, mh_free = free_mz\<rparr>],
                 mp_nb_mem_chunks := mp_nb_mem_chunks mp1 + 1\<rparr>, e1))"
    using once not_full m h le r2 [unfolded k_def] off_if s0 by (auto simp: rte_mempool_populate_iova_def Let_def)
  with c ok have m0: "m \<noteq> 0" and ret: "ret = sint (of_nat m :: u32)" and res: "memzones e' = memzones e1"
    "mp' = mp1\<lparr>mp_mem_list := mp_mem_list mp1 @ [\<lparr>mh_block = the h, mh_addr = va, mh_iova = iova, mh_len = len, mh_free = free_mz\<rparr>],
                 mp_nb_mem_chunks := mp_nb_mem_chunks mp1 + 1\<rparr>"
    by (auto simp: EINVAL_def split: if_splits)
  have same: "same_pool mp mp'" unfolding res(2) mp1_def same_pool_def by simp
  have objs: "obj_list mp' = obj_list mp @ obj_addrs (va + off + unat (mp_header_size mp)) (elt_space mp) m"
    using q(4) unfolding res(2) mp1_def obj_list_def by simp
  have retm: "ret = int m" using sint_nonneg [of "of_nat m"] ok um unfolding ret by simp
  have le': "length (obj_list mp) + m \<le> unat (mp_size mp)" using q(5) k pop(2) by simp
  then have "unat (mp_populated_size mp) + m < 2 ^ 32" using pop(1) unat_lt2p [of "mp_size mp"] by simp
  then have popm: "unat (mp_populated_size mp') = length (obj_list mp) + m"
    using um pop(1) unfolding res(2) mp1_def by (simp add: unat_word_ariths)
  have al: "?a dvd va + off + unat (mp_header_size mp)"
    using l RTE_ALIGN_CEIL_ge(2) [OF a0, of va] unfolding off [symmetric] by (simp add: pool_layout_def)
  have lo: "va + unat (mp_header_size mp) \<le> va + off + unat (mp_header_size mp)" by simp
  have hi: "m = 0 \<or> va + off + unat (mp_header_size mp) + m * elt_space mp \<le> va + len + unat (mp_header_size mp)"
    using q(6) le by auto
  note ext = pool_layout_extend [OF l same objs popm le' al lo hi z(1,2,3) free]
  have ready: "pool_ready table mp'"
    using r q(1-3) unfolding pool_ready_def obj_list_def res(2) mp1_def by simp
  have within: "obj \<in> set (obj_list mp) \<or> obj_within mp va (va + len) obj" if "obj \<in> set (obj_list mp')" for obj
    using that ext(2) unfolding objs by auto
  have len': "length (obj_list mp') = length (obj_list mp) + m" unfolding objs by simp
  have "memzones e' = memzones e" using res(1) rte_malloc_memzones [OF m] by simp
  with retm m0 ready ext(1) same len' within show thesis using that [of m] by simp
qed

text \<open>What holds without knowing where the zones are.\<close>

definition driven :: "rte_mempool_ops list \<Rightarrow> rte_mempool \<Rightarrow> bool" where
  "driven table mp \<longleftrightarrow> rte_mempool_get_ops table (mp_ops_index mp) = Some drv \<and> op_populate drv = None
     \<and> inv (mp_pool_data mp) \<and> mp_flags mp AND MEMPOOL_F_POOL_CREATED \<noteq> 0"

lemma driven_objs:
  "driven table mp \<Longrightarrow> populate_objs table va iova len mempool_add_elem t k off i mp = Some (r, mp')
    \<Longrightarrow> driven table mp' \<and> same_pool mp mp'"
proof (induction k arbitrary: off i mp)
  case (Suc k)
  show ?case
  proof (cases "off + t \<le> len")
    case True
    let ?off = "off + unat (mp_header_size mp)"
    let ?mp1 = "mempool_add_elem mp (va + ?off) (map_option (\<lambda>io. io + ?off) iova)"
    have d: "rte_mempool_get_ops table (mp_ops_index ?mp1) = Some drv" "inv (mp_pool_data ?mp1)" "length [va + ?off] < 2 ^ 31"
      using Suc.prems(1) by (simp_all add: driven_def mempool_add_elem_def)
    from enqueue_bulk_law [OF d] obtain ret p where
      e: "rte_mempool_ops_enqueue_bulk table ?mp1 [va + ?off] = Some (ret, ?mp1\<lparr>mp_pool_data := p\<rparr>)" "inv p" by blast
    have "driven table (?mp1\<lparr>mp_pool_data := p\<rparr>)" "same_pool mp (?mp1\<lparr>mp_pool_data := p\<rparr>)"
      using Suc.prems(1) e(2) by (simp_all add: driven_def same_pool_def mempool_add_elem_def)
    then show ?thesis using Suc.IH Suc.prems(2) True e(1) same_pool_trans by (auto simp: Let_def)
  qed (use Suc.prems in auto)
qed auto

lemma driven_iova:
  assumes "driven table mp" "rte_mempool_populate_iova table mp va iova len free_mz e = Some (ret, mp', e')"
  shows "driven table mp' \<and> same_pool mp mp' \<and> memzones e' = memzones e"
proof -
  have once: "mempool_ops_alloc_once table mp e = Some (0, mp, e)" using assms(1) by (simp add: mempool_ops_alloc_once_def driven_def)
  obtain h e1 where m: "rte_malloc 56 e = (h, e1)" by fastforce
  note z = rte_malloc_memzones [OF m]
  show ?thesis
  proof (cases "mp_populated_size mp \<ge> mp_size mp \<or> h = None \<or> chunk_off mp va > len")
    case True
    then show ?thesis using assms once m z by (cases h) (auto simp: rte_mempool_populate_iova_def Let_def split: if_splits)
  next
    case False
    let ?off = "chunk_off mp va"
    have "op_populate drv = None" "rte_mempool_get_ops table (mp_ops_index mp) = Some drv" using assms(1) by (simp_all add: driven_def)
    then have "rte_mempool_ops_populate table mp n va' iova' len' cb = rte_mempool_op_populate_default table mp n va' iova' len' cb"
      for n va' iova' len' cb by (simp add: rte_mempool_ops_populate_def)
    then obtain i mp1 where d: "rte_mempool_op_populate_default table mp (mp_size mp - mp_populated_size mp) (va + ?off)
        (map_option (\<lambda>io. io + ?off) iova) (len - ?off) mempool_add_elem = Some (i, mp1)"
      "same_pool mp1 mp'" "mp_pool_data mp' = mp_pool_data mp1" "memzones e' = memzones e1"
      using assms(2) once m False
      by (cases h) (auto simp: rte_mempool_populate_iova_def Let_def same_pool_def split: if_splits option.splits)
    have "driven table mp1 \<and> same_pool mp mp1"
      using d(1) driven_objs [OF assms(1)] by (auto simp: rte_mempool_op_populate_default_def)
    then show ?thesis using d(2-4) z same_pool_trans by (auto simp: driven_def same_pool_def)
  qed
qed

lemma driven_groups:
  "driven table mp \<Longrightarrow> populate_groups table L addr len pg_sz k off free_mz cnt mp e = Some (failed, ret, mp', e')
    \<Longrightarrow> driven table mp' \<and> same_pool mp mp' \<and> memzones e' = memzones e \<and> (failed \<longrightarrow> ret < 0)"
proof (induction k arbitrary: off free_mz cnt mp e)
  case (Suc k)
  show ?case
  proof (cases "off + pg_sz \<le> len \<and> mp_populated_size mp < mp_size mp \<and> \<not> (virt2iova L (addr + off) = None \<and> has_hugepages L)")
    case True
    then obtain phys where p: "group_len L (addr + off) (len - off) pg_sz (virt2iova L (addr + off)) (Suc len) pg_sz = Some phys"
      using Suc.prems(2) by (auto simp del: group_len.simps simp: Let_def split: option.splits)
    then obtain ret1 mp1 e1 where i: "rte_mempool_populate_iova table mp (addr + off) (virt2iova L (addr + off)) phys free_mz e = Some (ret1, mp1, e1)"
      using Suc.prems(2) True by (auto simp del: group_len.simps simp: Let_def split: option.splits)
    note d = driven_iova [OF Suc.prems(1) i]
    show ?thesis
    proof (cases "ret1 < 0")
      case True
      then show ?thesis using Suc.prems(2) \<open>off + pg_sz \<le> len \<and> _\<close> p i d by (auto simp del: group_len.simps simp: Let_def)
    next
      case False
      then have "populate_groups table L addr len pg_sz k (off + phys) None (cnt + ret1) mp1 e1 = Some (failed, ret, mp', e')"
        using Suc.prems(2) \<open>off + pg_sz \<le> len \<and> _\<close> p i by (auto simp del: group_len.simps simp: Let_def)
      from Suc.IH [OF conjunct1 [OF d] this] show ?thesis using d same_pool_trans by auto
    qed
  qed (use Suc.prems in \<open>auto simp: Let_def EINVAL_def split: if_splits\<close>)
qed simp

lemma driven_virt:
  assumes "driven table mp" "rte_mempool_populate_virt table L mp addr len pg_sz free_mz e = Some (ret, mp', e')" "0 \<le> ret"
  shows "driven table mp' \<and> same_pool mp mp' \<and> memzones e' = memzones e"
proof (cases "mp_flags mp AND MEMPOOL_F_NO_IOVA_CONTIG \<noteq> 0")
  case True
  then show ?thesis using assms(2,3) driven_iova [OF assms(1)]
    by (auto simp: rte_mempool_populate_virt_def EINVAL_def split: if_splits)
next
  case False
  then obtain failed ret1 mp1 e1 where g: "populate_groups table L addr len pg_sz (Suc len) 0 free_mz 0 mp e = Some (failed, ret1, mp1, e1)"
    using assms(2,3) by (auto simp: rte_mempool_populate_virt_def EINVAL_def simp del: populate_groups.simps split: if_splits option.splits)
  note d = driven_groups [OF assms(1) g]
  have "\<not> failed"
    using d assms(2,3) False g
    by (auto simp: rte_mempool_populate_virt_def EINVAL_def simp del: populate_groups.simps split: if_splits)
  then have "mp' = mp1" "e' = e1"
    using assms(2,3) False g
    by (auto simp: rte_mempool_populate_virt_def EINVAL_def simp del: populate_groups.simps split: if_splits)
  then show ?thesis using d by simp
qed

lemma driven_zones:
  "driven table mp \<Longrightarrow> populate_zones table L pg_sz pg_shift np k mz_id n tc mp e = Some (False, ret, mp', e')
    \<Longrightarrow> driven table mp' \<and> same_pool mp mp' \<and> (\<exists>ext. memzones e' = memzones e @ ext)"
proof (induction k arbitrary: mz_id n tc mp e)
  case (Suc k)
  show ?case
  proof (cases "n = 0")
    case False
    then obtain mz tc1 mc e1 where r: "reserve_chunk table L mp pg_sz pg_shift np tc mz_id n e = Some (Inr (mz, tc1, mc), e1)"
      using Suc.prems(2) by (auto split: option.splits sum.splits prod.splits)
    let ?a = "mz_addr mz" and ?iova = "if mp_flags mp AND MEMPOOL_F_NO_IOVA_CONTIG \<noteq> 0 then None else zone_iova L (mz_addr mz)"
    obtain ret1 mp1 e2 where p: "(if np \<or> tc1 then rte_mempool_populate_iova table mp (zone_vaddr L ?a) ?iova (mz_len mz) (Some ?a) e1
        else rte_mempool_populate_virt table L mp (zone_vaddr L ?a) (mz_len mz div pg_sz * pg_sz) pg_sz (Some ?a) e1)
        = Some (ret1, mp1, e2)"
      using Suc.prems(2) False r by (auto simp: Let_def split: option.splits)
    have pos: "0 \<le> ret1" and rest: "populate_zones table L pg_sz pg_shift np k (Suc mz_id) (n - word_of_int ret1) tc1 mp1 e2 = Some (False, ret, mp', e')"
      using Suc.prems(2) False r p by (simp_all add: Let_def split: if_splits)
    have d: "driven table mp1 \<and> same_pool mp mp1 \<and> memzones e2 = memzones e1"
      using p driven_iova [OF Suc.prems(1)] driven_virt [OF Suc.prems(1) _ pos] by (auto split: if_splits)
    from Suc.IH [OF conjunct1 [OF d] rest] show ?thesis
      using d reserve_chunk_Some [OF r] same_pool_trans by auto
  qed (use Suc.prems in auto)
qed simp

text \<open>The layout, chunk after chunk.\<close>

lemma groups_law:
  "\<lbrakk>pool_ready table mp; pool_layout L zones mp; z \<in> set zones; zone_begin L z \<le> addr; addr + len \<le> zone_end L z;
    pg_sz dvd len; pg_sz dvd off; off \<le> len;
    \<And>obj. obj \<in> set (obj_list mp) \<Longrightarrow> obj_outside mp (addr + off) (addr + len) obj;
    populate_groups table L addr len pg_sz k off free_mz (int c) mp e = Some (False, ret, mp', e')\<rbrakk>
   \<Longrightarrow> \<exists>m. ret = int (c + m) \<and> pool_ready table mp' \<and> pool_layout L zones mp'
     \<and> length (obj_list mp') = length (obj_list mp) + m"
proof (induction k arbitrary: off free_mz c mp e)
  case (Suc k)
  show ?case
  proof (cases "off + pg_sz \<le> len \<and> mp_populated_size mp < mp_size mp")
    case True
    let ?va = "addr + off" and ?iova = "virt2iova L (addr + off)"
    obtain phys ret1 mp1 e1 where p: "group_len L ?va (len - off) pg_sz ?iova (Suc len) pg_sz = Some phys"
      and i: "rte_mempool_populate_iova table mp ?va ?iova phys free_mz e = Some (ret1, mp1, e1)"
      and pos: "0 \<le> ret1"
      and rest: "populate_groups table L addr len pg_sz k (off + phys) None (int c + ret1) mp1 e1 = Some (False, ret, mp', e')"
      using Suc.prems(10) True by (auto simp del: group_len.simps simp: Let_def split: option.splits if_splits)
    have "pg_sz dvd len - off" "pg_sz \<le> len - off" using Suc.prems(6,7) True by auto
    with group_len_le [OF p] have ph: "pg_sz dvd phys" "phys \<le> len - off" by auto
    have z: "zone_begin L z \<le> ?va" "?va + phys \<le> zone_end L z" using Suc.prems(4,5) ph(2) conjunct1 [OF True] by linarith+
    have free: "obj_outside mp ?va (?va + phys) obj" if "obj \<in> set (obj_list mp)" for obj
      using Suc.prems(9) [OF that] ph(2) True by (auto simp: obj_outside_def)
    from populate_iova_law [OF Suc.prems(1-3) z free i pos] obtain m where
      m: "ret1 = int m" "pool_ready table mp1" "pool_layout L zones mp1" "same_pool mp mp1"
        "length (obj_list mp1) = length (obj_list mp) + m"
        "\<And>obj. obj \<in> set (obj_list mp1) \<Longrightarrow> obj \<in> set (obj_list mp) \<or> obj_within mp ?va (?va + phys) obj" by blast
    have free': "obj_outside mp1 (addr + (off + phys)) (addr + len) obj" if "obj \<in> set (obj_list mp1)" for obj
      using m(6) [OF that] Suc.prems(9) [of obj] unfolding same_pool_sizes [OF m(4)]
      by (auto simp: obj_outside_def obj_within_def)
    have off: "pg_sz dvd off + phys" using ph(1) Suc.prems(7) by simp
    have off_le: "off + phys \<le> len" using ph(2) conjunct1 [OF True] by linarith
    have "populate_groups table L addr len pg_sz k (off + phys) None (int (c + m)) mp1 e1 = Some (False, ret, mp', e')"
      using rest m(1) by simp
    from Suc.IH [OF m(2,3) Suc.prems(3-6) off off_le free' this] m(5) show ?thesis by (metis add.assoc)
  qed (use Suc.prems in \<open>auto simp: Let_def split: if_splits\<close>)
qed simp

lemma virt_law:
  assumes "pool_ready table mp" "pool_layout L zones mp" "z \<in> set zones" "zone_begin L z \<le> addr" "addr + len \<le> zone_end L z"
    and "\<And>obj. obj \<in> set (obj_list mp) \<Longrightarrow> obj_outside mp addr (addr + len) obj"
    and "rte_mempool_populate_virt table L mp addr len pg_sz free_mz e = Some (ret, mp', e')" "0 \<le> ret"
  shows "\<exists>m. ret = int m \<and> pool_ready table mp' \<and> pool_layout L zones mp'
     \<and> length (obj_list mp') = length (obj_list mp) + m"
proof (cases "mp_flags mp AND MEMPOOL_F_NO_IOVA_CONTIG \<noteq> 0")
  case True
  then have "rte_mempool_populate_iova table mp addr None len free_mz e = Some (ret, mp', e')"
    using assms(7,8) by (auto simp: rte_mempool_populate_virt_def EINVAL_def split: if_splits)
  from populate_iova_law [OF assms(1-6) this assms(8)] show ?thesis by metis
next
  case False
  have d: "driven table mp" using assms(1) by (simp add: driven_def pool_ready_def)
  obtain failed ret1 mp1 e1 where g: "populate_groups table L addr len pg_sz (Suc len) 0 free_mz (int 0) mp e = Some (failed, ret1, mp1, e1)"
    using False assms(7,8) by (auto simp: rte_mempool_populate_virt_def EINVAL_def simp del: populate_groups.simps split: if_splits option.splits)
  have "\<not> failed"
    using driven_groups [OF d g] assms(7,8) False g
    by (auto simp: rte_mempool_populate_virt_def EINVAL_def simp del: populate_groups.simps split: if_splits)
  then have e: "failed = False" "mp' = mp1" "ret = ret1" and al: "RTE_ALIGN_CEIL len pg_sz = len"
    using assms(7,8) False g
    by (auto simp: rte_mempool_populate_virt_def EINVAL_def simp del: populate_groups.simps split: if_splits)
  have dvd: "pg_sz dvd len" using al unfolding RTE_ALIGN_CEIL_def by (metis dvd_triv_right)
  have "obj_outside mp (addr + 0) (addr + len) obj" if "obj \<in> set (obj_list mp)" for obj using assms(6) [OF that] by simp
  from groups_law [OF assms(1-5) dvd _ _ this g [unfolded e(1)]] show ?thesis unfolding e(2,3) by auto
qed

lemma zones_law:
  "\<lbrakk>pool_ready table mp; pool_layout L (memzones e) mp;
    populate_zones table L pg_sz pg_shift np k mz_id n tc mp e = Some (False, ret, mp', e');
    zones_disjoint L (memzones e'); unat n + length (obj_list mp) = unat (mp_size mp)\<rbrakk>
   \<Longrightarrow> pool_ready table mp' \<and> pool_layout L (memzones e') mp' \<and> length (obj_list mp') = unat (mp_size mp')"
proof (induction k arbitrary: mz_id n tc mp e)
  case (Suc k)
  show ?case
  proof (cases "n = 0")
    case False
    then obtain mz tc1 mc e1 where r: "reserve_chunk table L mp pg_sz pg_shift np tc mz_id n e = Some (Inr (mz, tc1, mc), e1)"
      using Suc.prems(3) by (auto split: option.splits sum.splits prod.splits)
    let ?a = "mz_addr mz" and ?iova = "if mp_flags mp AND MEMPOOL_F_NO_IOVA_CONTIG \<noteq> 0 then None else zone_iova L (mz_addr mz)"
    obtain ret1 mp1 e2 where p: "(if np \<or> tc1 then rte_mempool_populate_iova table mp (zone_vaddr L ?a) ?iova (mz_len mz) (Some ?a) e1
        else rte_mempool_populate_virt table L mp (zone_vaddr L ?a) (mz_len mz div pg_sz * pg_sz) pg_sz (Some ?a) e1)
        = Some (ret1, mp1, e2)"
      using Suc.prems(3) False r by (auto simp: Let_def split: option.splits)
    have pos: "0 \<le> ret1" and rest: "populate_zones table L pg_sz pg_shift np k (Suc mz_id) (n - word_of_int ret1) tc1 mp1 e2 = Some (False, ret, mp', e')"
      using Suc.prems(3) False r p by (simp_all add: Let_def split: if_splits)
    have dr: "driven table mp" using Suc.prems(1) by (simp add: driven_def pool_ready_def)
    have d: "driven table mp1 \<and> same_pool mp mp1 \<and> memzones e2 = memzones e1"
      using p driven_iova [OF dr] driven_virt [OF dr _ pos] by (auto split: if_splits)
    have e1: "memzones e1 = memzones e @ [mz]" using reserve_chunk_Some [OF r] by simp
    obtain ext where ext: "memzones e' = memzones e @ [mz] @ ext"
      using driven_zones [OF conjunct1 [OF d] rest] d e1 by auto
    have new: "zone_end L z \<le> zone_begin L mz \<or> zone_end L mz \<le> zone_begin L z" if "z \<in> set (memzones e)" for z
      using Suc.prems(4) that unfolding ext zones_disjoint_def sorted_wrt_append by auto
    have l1: "pool_layout L (memzones e1) mp" using Suc.prems(2) unfolding e1 by (auto simp: pool_layout_def)
    have outside: "obj_outside mp (zone_begin L mz) (zone_end L mz) obj" if "obj \<in> set (obj_list mp)" for obj
      using Suc.prems(2) that new by (fastforce simp: pool_layout_def obj_within_def obj_outside_def)
    have mz: "mz \<in> set (memzones e1)" using e1 by simp
    have len: "zone_vaddr L ?a + mz_len mz div pg_sz * pg_sz \<le> zone_end L mz"
      by (simp add: zone_end_def div_times_less_eq_dividend)
    have out2: "obj_outside mp (zone_vaddr L ?a) (zone_vaddr L ?a + l) obj"
      if "obj \<in> set (obj_list mp)" "zone_vaddr L ?a + l \<le> zone_end L mz" for obj l
      using outside [OF that(1)] that(2) by (auto simp: obj_outside_def zone_begin_def)
    have beg: "zone_begin L mz \<le> zone_vaddr L ?a" by (simp add: zone_begin_def)
    have fin: "zone_vaddr L ?a + mz_len mz \<le> zone_end L mz" by (simp add: zone_end_def)
    have "\<exists>m. ret1 = int m \<and> pool_ready table mp1 \<and> pool_layout L (memzones e1) mp1
       \<and> length (obj_list mp1) = length (obj_list mp) + m"
    proof (cases "np \<or> tc1")
      case True
      then have i: "rte_mempool_populate_iova table mp (zone_vaddr L ?a) ?iova (mz_len mz) (Some ?a) e1 = Some (ret1, mp1, e2)"
        using p by simp
      from populate_iova_law [OF Suc.prems(1) l1 mz beg fin out2 [OF _ fin] i pos] show ?thesis by metis
    next
      case False
      then have i: "rte_mempool_populate_virt table L mp (zone_vaddr L ?a) (mz_len mz div pg_sz * pg_sz) pg_sz (Some ?a) e1 = Some (ret1, mp1, e2)"
        using p by simp
      from virt_law [OF Suc.prems(1) l1 mz beg len out2 [OF _ len] i pos] show ?thesis .
    qed
    then obtain m where m: "ret1 = int m" "pool_ready table mp1" "pool_layout L (memzones e2) mp1"
      "length (obj_list mp1) = length (obj_list mp) + m" using d by auto
    have "length (obj_list mp1) \<le> unat (mp_size mp)" using m(3) d by (auto simp: pool_layout_def same_pool_def)
    then have mle: "m \<le> unat n" using m(4) Suc.prems(5) by simp
    have "unat (word_of_int ret1 :: u32) = m" using mle unat_lt2p [of n] unfolding m(1)
      by (simp add: unat_of_nat_small)
    then have "unat (n - word_of_int ret1) = unat n - m" using mle by (simp add: unat_sub_add_le)
    then have "unat (n - word_of_int ret1) + length (obj_list mp1) = unat (mp_size mp1)"
      using Suc.prems(5) m(4) mle d by (simp add: same_pool_def)
    from Suc.IH [OF m(2,3) rest Suc.prems(4) this] show ?thesis .
  qed (use Suc.prems in auto)
qed simp

end

end
