(* ===== verification/Mempool_Create_Props.thy ===== *)
theory Mempool_Create_Props
  imports Mempool_Layout
begin

text \<open>
  A created mempool: the sizes of its objects, its ring, where the objects lie, and that all are available.
\<close>

section \<open>Sizes of objects\<close>

lemma unat_align_down: "unat (v AND NOT (mask k) :: u32) = unat v div 2 ^ k * 2 ^ k"
proof -
  have "v AND NOT (mask k) = push_bit k (drop_bit k v)"
    by (intro bit_word_eqI) (auto simp: bit_simps)
  then have "unat (v AND NOT (mask k)) = unat (push_bit k (drop_bit k v))" by simp
  also have "\<dots> = take_bit LENGTH(32) (push_bit k (unat v div 2 ^ k))"
    by (simp only: unsigned_push_bit_eq unat_drop_bit)
  finally have "unat (v AND NOT (mask k)) = take_bit 32 (unat v div 2 ^ k * 2 ^ k)"
    by (simp only: push_bit_eq_mult) simp
  moreover have "unat v div 2 ^ k * 2 ^ k < 2 ^ 32"
    using unat_lt2p [of v] le_less_trans [OF div_times_less_eq_dividend [of "unat v" "2 ^ k"]] by simp
  ultimately show ?thesis by (simp add: take_bit_nat_eq_self)
qed

lemma unat_ALIGN_CEIL32_8: "unat v + 7 < 2 ^ 32 \<Longrightarrow> unat (ALIGN_CEIL32 v 8) = (unat v + 7) div 8 * 8"
  using unat_align_down [of "v + 7" 3] by (simp add: ALIGN_CEIL32_def mask_eq_exp_minus_1 unat_word_ariths)

lemma coprime_near:
  assumes "0 < m"
  obtains i where "i < m" "gcd (x + i) m = (1::nat)"
proof -
  define i where "i = (1 + (m - 1) * x) mod m"
  have "(x + i) mod m = (x + (1 + (m - 1) * x)) mod m" by (simp add: i_def mod_add_right_eq)
  also have "x + (1 + (m - 1) * x) = 1 + m * x" using assms by (cases m) simp_all
  also have "(1 + m * x) mod m = 1 mod m" by (rule mod_mult_self2)
  finally have "gcd (x + i) m = gcd 1 m" by (metis gcd_red_nat gcd.commute)
  then show thesis using that [of i] assms by (simp add: i_def)
qed

lemma spread_loop_within:
  "gcd (unat x + i) (unat m) = 1 \<Longrightarrow> unat x + i < 2 ^ 32
    \<Longrightarrow> \<exists>j\<le>i. unat (spread_loop m x) = unat x + j \<and> gcd (unat x + j) (unat m) = 1"
proof (induction i arbitrary: x)
  case (Suc i)
  show ?case
  proof (cases "get_gcd x m = 1")
    case True
    then have "spread_loop m x = x" by (subst spread_loop.simps) simp
    then show ?thesis using True unat_get_gcd [of x m] by (intro exI [of _ 0]) simp
  next
    case False
    have u: "unat (x + 1) = unat x + 1" using Suc.prems(2) by (simp add: unat_word_ariths)
    have "spread_loop m x = spread_loop m (x + 1)" using False by (subst spread_loop.simps) simp
    moreover have "gcd (unat (x + 1) + i) (unat m) = 1" "unat (x + 1) + i < 2 ^ 32" using Suc.prems u by simp_all
    ultimately show ?thesis using Suc.IH [of "x + 1"] u by (metis Suc_le_mono add.assoc plus_1_eq_Suc)
  qed
next
  case 0
  then have "get_gcd x m = 1" using unat_get_gcd [of x m] by (simp add: word_unat_eq_iff)
  then show ?case using 0 by (subst spread_loop.simps) simp
qed

text \<open>The channels times the ranks, with the defaults for 0.\<close>

definition channels_ranks :: "eal_memory \<Rightarrow> nat" where
  "channels_ranks L = unat (if nrank L = 0 then 1 else nrank L) * unat (if nchannel L = 0 then 4 else nchannel L)"

lemma optimize_object_size_law:
  assumes "unat s < 2 ^ 31" "channels_ranks L \<le> 2 ^ 20"
  obtains q where "unat (optimize_object_size L s) = q * 64" "unat s \<le> q * 64" "q * 64 < 2 ^ 32" "gcd q (channels_ranks L) = 1"
proof -
  define m where "m = (if nrank L = 0 then 1 else nrank L) * (if nchannel L = 0 then 4 else nchannel L)"
  let ?x = "(s + RTE_MEMPOOL_ALIGN_MASK) div RTE_MEMPOOL_ALIGN"
  have um: "unat m = channels_ranks L"
    using assms(2) unfolding m_def channels_ranks_def by (simp only: unat_word_ariths) simp
  have "unat m \<noteq> 0"
  proof -
    have "0 < unat (if nrank L = 0 then 1 else nrank L)" "0 < unat (if nchannel L = 0 then 4 else nchannel L)"
      by (auto simp: unat_gt_0)
    then show ?thesis unfolding um channels_ranks_def by simp
  qed
  have ux: "unat ?x = (unat s + 63) div 64"
    using assms(1) by (simp add: RTE_MEMPOOL_ALIGN_MASK_def RTE_MEMPOOL_ALIGN_def unat_div_distrib unat_word_ariths)
  have xs: "(unat s + 63) div 64 \<le> 2 ^ 25" using assms(1) by simp
  obtain i where i: "i < unat m" "gcd (unat ?x + i) (unat m) = 1"
    using coprime_near [of "unat m" "unat ?x"] \<open>unat m \<noteq> 0\<close> by blast
  have "unat ?x + i < 2 ^ 26" using i(1) assms(2) xs unfolding um ux by simp
  with spread_loop_within [OF i(2)] obtain j where
    j: "j \<le> i" "unat (spread_loop m ?x) = unat ?x + j" "gcd (unat ?x + j) (unat m) = 1" by auto
  have opt: "optimize_object_size L s = spread_loop m ?x * 64"
    by (simp add: optimize_object_size_def Let_def m_def RTE_MEMPOOL_ALIGN_def)
  have small: "unat ?x + j < 2 ^ 26" using \<open>unat ?x + i < 2 ^ 26\<close> j(1) by simp
  then have "unat (optimize_object_size L s) = (unat ?x + j) * 64"
    unfolding opt by (simp add: unat_word_ariths j(2))
  moreover have "unat s \<le> (unat ?x + j) * 64" unfolding ux by simp
  moreover have "(unat ?x + j) * 64 < 2 ^ 32" using small by simp
  ultimately show thesis using that [of "unat ?x + j"] j(3) um by simp
qed

lemma pad_dvd: "64 dvd x + (64 - x mod 64) mod (64::nat)"
proof -
  have "(x + (64 - x mod 64) mod 64) mod 64 = (x mod 64 + (64 - x mod 64)) mod 64"
    by (simp only: mod_add_right_eq mod_add_left_eq)
  also have "\<dots> = 0" by simp
  finally show ?thesis by (rule dvd_eq_mod_eq_0 [THEN iffD2])
qed

lemma calc_obj_size_law:
  fixes flags
  assumes e: "unat elt_size \<le> 2 ^ 30" and c: "channels_ranks L \<le> 2 ^ 20"
  defines "sz \<equiv> rte_mempool_calc_obj_size L elt_size flags"
    and "al \<equiv> (if flags AND MEMPOOL_F_NO_CACHE_ALIGN \<noteq> 0 then 8 else 64)"
  shows "unat (sz_header_size sz) + unat (sz_elt_size sz) + unat (sz_trailer_size sz) = unat (sz_total_size sz)"
    and "sz_total_size sz = sz_header_size sz + sz_elt_size sz + sz_trailer_size sz"
    and "unat elt_size \<le> unat (sz_elt_size sz)" "24 \<le> unat (sz_header_size sz)"
    and "al dvd unat (sz_header_size sz)" "al dvd unat (sz_total_size sz)"
    and "flags AND MEMPOOL_F_NO_SPREAD = 0 \<Longrightarrow> gcd (unat (sz_total_size sz) div 64) (channels_ranks L) = 1"
proof -
  let ?na = "flags AND MEMPOOL_F_NO_CACHE_ALIGN = 0" and ?ns = "flags AND MEMPOOL_F_NO_SPREAD = 0"
  define h where "h = (if ?na then ALIGN_CEIL32 24 RTE_MEMPOOL_ALIGN else 24)"
  define el where "el = ALIGN_CEIL32 elt_size 8"
  define tr0 where "tr0 = (if ?na then (RTE_MEMPOOL_ALIGN - ((h + el) AND RTE_MEMPOOL_ALIGN_MASK)) AND RTE_MEMPOOL_ALIGN_MASK else 0)"
  define tr where "tr = (if ?ns then optimize_object_size L (h + el + tr0) - h - el else tr0)"
  have sz: "sz = \<lparr>sz_elt_size = el, sz_header_size = h, sz_trailer_size = tr, sz_total_size = h + el + tr\<rparr>"
    by (simp only: sz_def rte_mempool_calc_obj_size_def Let_def h_def el_def tr0_def tr_def)
  have uh: "unat h = (if ?na then 64 else 24)" by (simp add: h_def ALIGN_CEIL32_def RTE_MEMPOOL_ALIGN_def)
  have ue: "unat el = (unat elt_size + 7) div 8 * 8" unfolding el_def using e by (intro unat_ALIGN_CEIL32_8) simp
  have ele: "unat elt_size \<le> unat el" "unat el \<le> 2 ^ 30 + 7" "8 dvd unat el" unfolding ue using e by simp_all
  have uhe: "unat (h + el) = unat h + unat el" using uh ele(2) by (simp add: unat_word_ariths)
  have m63: "unat (x AND RTE_MEMPOOL_ALIGN_MASK) = unat x mod 64" for x :: u32
    using unat_and_mask [of x 6] by (simp add: RTE_MEMPOOL_ALIGN_MASK_def RTE_MEMPOOL_ALIGN_def)
  have ut0: "unat tr0 = (if ?na then (64 - (unat h + unat el) mod 64) mod 64 else 0)"
  proof (cases ?na)
    case True
    have "unat ((h + el) AND RTE_MEMPOOL_ALIGN_MASK) \<le> unat (64::u32)" unfolding m63 by simp
    then have "unat (64 - ((h + el) AND RTE_MEMPOOL_ALIGN_MASK)) = 64 - (unat h + unat el) mod 64"
      by (simp only: unat_sub_add_le m63 uhe) simp
    then have "unat tr0 = (64 - (unat h + unat el) mod 64) mod 64"
      using m63 [of "64 - ((h + el) AND RTE_MEMPOOL_ALIGN_MASK)"] unfolding tr0_def if_P [OF True]
      by (simp only: RTE_MEMPOOL_ALIGN_def)
    then show ?thesis using True by simp
  qed (simp add: tr0_def)
  have t0: "unat tr0 < 64" unfolding ut0 by simp
  have sum0: "unat (h + el + tr0) = unat h + unat el + unat tr0"
    using uh ele(2) t0 uhe by (simp only: unat_word_ariths uhe) simp
  have al0: "al dvd unat h + unat el + unat tr0" "al dvd unat h"
  proof -
    show "al dvd unat h" unfolding al_def uh by simp
    show "al dvd unat h + unat el + unat tr0"
    proof (cases ?na)
      case True
      then show ?thesis using ut0 pad_dvd [of "unat h + unat el"] by (simp add: al_def)
    next
      case False
      then show ?thesis using ele(3) ut0 uh by (simp add: al_def)
    qed
  qed
  have final: "unat h + unat el + unat tr = unat (h + el + tr) \<and> al dvd unat (h + el + tr)
     \<and> (?ns \<longrightarrow> gcd (unat (h + el + tr) div 64) (channels_ranks L) = 1)"
  proof (cases ?ns)
    case False
    then show ?thesis using al0 sum0 by (simp add: tr_def)
  next
    case True
    have "unat (h + el + tr0) < 2 ^ 31" unfolding sum0 using uh ele(2) t0 by simp
    from optimize_object_size_law [OF this c] obtain q where
      q: "unat (optimize_object_size L (h + el + tr0)) = q * 64" "unat (h + el + tr0) \<le> q * 64" "q * 64 < 2 ^ 32"
        "gcd q (channels_ranks L) = 1" .
    let ?o = "optimize_object_size L (h + el + tr0)"
    have o: "h + el + tr = ?o" using True by (simp add: tr_def)
    have le: "unat (h + el) \<le> unat ?o" using q(1,2) sum0 uhe by simp
    have "tr = ?o - (h + el)" using True by (simp add: tr_def)
    then have "unat tr = unat ?o - (unat h + unat el)" using unat_sub_add_le [OF le] uhe by simp
    then have "unat h + unat el + unat tr = unat (h + el + tr)" using le uhe unfolding o by simp
    moreover have "al dvd unat (h + el + tr)" unfolding o q(1) al_def by simp
    moreover have "unat (h + el + tr) div 64 = q" unfolding o q(1) by simp
    ultimately show ?thesis using q(4) by simp
  qed
  show "unat (sz_header_size sz) + unat (sz_elt_size sz) + unat (sz_trailer_size sz) = unat (sz_total_size sz)"
    "sz_total_size sz = sz_header_size sz + sz_elt_size sz + sz_trailer_size sz"
    "al dvd unat (sz_total_size sz)"
    "?ns \<Longrightarrow> gcd (unat (sz_total_size sz) div 64) (channels_ranks L) = 1"
    using final unfolding sz by simp_all
  show "unat elt_size \<le> unat (sz_elt_size sz)" "24 \<le> unat (sz_header_size sz)" "al dvd unat (sz_header_size sz)"
    using ele(1) al0(2) uh unfolding sz by simp_all
qed

section \<open>A created pool\<close>

definition ring_drivers :: "rte_mempool_ops set" where
  "ring_drivers = {ops_mp_mc, ops_sp_sc, ops_mp_sc, ops_sp_mc}"

text \<open>The operations registered under the names of the ring drivers are those of the ring drivers.\<close>

definition ring_table :: "rte_mempool_ops list \<Rightarrow> bool" where
  "ring_table table \<longleftrightarrow> list_all (\<lambda>ops. op_name ops \<in> op_name ` ring_drivers \<longrightarrow> ops \<in> ring_drivers) table"

lemma ring_drivers_driver: "drv \<in> ring_drivers \<Longrightarrow> pool_driver drv ring_pool_inv ring_pool_elems ring_pool_cap"
  using pool_mp_mc.pool_driver_axioms pool_sp_sc.pool_driver_axioms pool_mp_sc.pool_driver_axioms
    pool_sp_mc.pool_driver_axioms
  by (auto simp: ring_drivers_def)

lemma ring_drivers_ops:
  assumes "drv \<in> ring_drivers"
  shows "op_populate drv = None" "op_calc_mem_size drv = None" "op_alloc drv = Some common_ring_alloc"
    "(drv, ring_pool_inv, ring_pool_elems, ring_pool_cap) \<in> pool_drivers"
  using assms by (auto simp: ring_drivers_def pool_drivers_def ops_mp_mc_def ops_sp_sc_def ops_mp_sc_def ops_sp_mc_def)

lemma find_ops_Some: "find_ops i name table = Some j \<Longrightarrow> i \<le> j \<and> j - i < length table \<and> op_name (table ! (j - i)) = name"
proof (induction table arbitrary: i)
  case (Cons a table)
  show ?case
  proof (cases "name = op_name a")
    case False
    then have "find_ops (Suc i) name table = Some j" using Cons.prems by simp
    from Cons.IH [OF this] show ?thesis by (auto simp: nth_Cons' Suc_diff_Suc)
  qed (use Cons.prems in auto)
qed simp

lemma create_ops_name_ring: "create_ops_name flags \<in> op_name ` ring_drivers"
  by (simp add: create_ops_name_def ring_drivers_def ops_mp_mc_def ops_sp_sc_def ops_mp_sc_def ops_sp_mc_def)

lemma set_ops_ring:
  assumes "ring_table table" "rte_mempool_set_ops_byname table (create_ops_name flags) mp = (0, mp')"
  obtains i where "mp' = mp\<lparr>mp_ops_index := i\<rparr>" "i < length table" "table ! i \<in> ring_drivers"
    "mp_flags mp AND MEMPOOL_F_POOL_CREATED = 0"
proof -
  obtain i where i: "find_ops 0 (create_ops_name flags) table = Some i" "mp' = mp\<lparr>mp_ops_index := i\<rparr>"
    "mp_flags mp AND MEMPOOL_F_POOL_CREATED = 0"
    using assms(2) by (auto simp: rte_mempool_set_ops_byname_def EEXIST_def EINVAL_def split: if_splits option.splits)
  have "i < length table" "op_name (table ! i) = create_ops_name flags" using find_ops_Some [OF i(1)] by simp_all
  then have "table ! i \<in> ring_drivers"
    using assms(1) create_ops_name_ring [of flags] by (auto simp: ring_table_def list_all_length)
  then show thesis using that i \<open>i < length table\<close> by blast
qed

lemma create_empty_law:
  assumes "rte_mempool_create_empty L name n elt_size cache_size priv socket_id flags e = (Some mp, e')"
  shows "mp_size mp = n" "mp_elt_list mp = []" "mp_populated_size mp = 0" "mp_nb_mem_chunks mp = 0" "mp_cache_size mp = cache_size"
    and "cache_size \<noteq> 0 \<Longrightarrow> length (mp_local_cache mp) = RTE_MAX_LCORE"
    and "cache_size \<noteq> 0 \<Longrightarrow> c \<in> set (mp_local_cache mp) \<Longrightarrow> cache_wf cache_size c \<and> cached c = {#}"
    and "mp_elt_size mp = sz_elt_size (rte_mempool_calc_obj_size L elt_size (mp_flags mp))"
    and "mp_header_size mp = sz_header_size (rte_mempool_calc_obj_size L elt_size (mp_flags mp))"
    and "mp_trailer_size mp = sz_trailer_size (rte_mempool_calc_obj_size L elt_size (mp_flags mp))"
    and "sz_total_size (rte_mempool_calc_obj_size L elt_size (mp_flags mp)) \<noteq> 0"
    and "mp_name mp = name" "mp_socket_id mp = socket_id" "mp_pool_data mp = PoolNull"
proof -
  let ?flags = "if flags AND MEMPOOL_F_NO_CACHE_ALIGN \<noteq> 0 then flags OR MEMPOOL_F_NO_SPREAD else flags"
  let ?sz = "rte_mempool_calc_obj_size L elt_size ?flags"
  obtain te e1 where m: "rte_malloc 24 e = (te, e1)" by fastforce
  let ?priv = "(priv + RTE_MEMPOOL_ALIGN_MASK) AND NOT RTE_MEMPOOL_ALIGN_MASK"
  obtain mz e2 where z: "memzone_reserve_aligned 0 (RTE_MEMPOOL_MZ_PREFIX @ name)
      (RTE_ALIGN_CEIL (MEMPOOL_HEADER_SIZE cache_size + unat ?priv) 64) (word_of_nat RTE_CACHE_LINE_SIZE) 0 e1 = (mz, e2)" by fastforce
  have k: "cache_size \<le> RTE_MEMPOOL_CACHE_MAX_SIZE" "sz_total_size ?sz \<noteq> 0"
    and mp: "mp = \<lparr>mp_name = name, mp_pool_data = PoolNull, mp_mz = mz_addr (the mz), mp_flags = ?flags,
                          mp_socket_id = socket_id, mp_size = n, mp_cache_size = cache_size,
                          mp_elt_size = sz_elt_size ?sz, mp_header_size = sz_header_size ?sz,
                          mp_trailer_size = sz_trailer_size ?sz, mp_private_data_size = ?priv,
                          mp_ops_index = 0,
                          mp_local_cache = (if cache_size = 0 then []
                            else map (\<lambda>_. mempool_cache_init cache_size (replicate (3 * unat RTE_MEMPOOL_CACHE_MAX_SIZE) 0))
                                   [0..<RTE_MAX_LCORE]),
                          mp_populated_size = 0, mp_elt_list = [], mp_nb_mem_chunks = 0, mp_mem_list = []\<rparr>"
    using assms m z by (auto simp: rte_mempool_create_empty_def Let_def not_less split: if_splits option.splits)
  have c: "0 < unat cache_size \<Longrightarrow> cache_wf cache_size (mempool_cache_init cache_size (replicate 1536 0))
      \<and> cached (mempool_cache_init cache_size (replicate 1536 0)) = {#}"
    using k(1) by (intro cache_init_wf) (simp_all add: RTE_MEMPOOL_CACHE_MAX_SIZE_def word_le_nat_alt)
  show "cache_size \<noteq> 0 \<Longrightarrow> c \<in> set (mp_local_cache mp) \<Longrightarrow> cache_wf cache_size c \<and> cached c = {#}"
    using c unfolding mp by (auto simp: RTE_MEMPOOL_CACHE_MAX_SIZE_def unat_gt_0)
  show "mp_size mp = n" "mp_elt_list mp = []" "mp_populated_size mp = 0" "mp_nb_mem_chunks mp = 0" "mp_cache_size mp = cache_size"
    "cache_size \<noteq> 0 \<Longrightarrow> length (mp_local_cache mp) = RTE_MAX_LCORE"
    "mp_elt_size mp = sz_elt_size (rte_mempool_calc_obj_size L elt_size (mp_flags mp))"
    "mp_header_size mp = sz_header_size (rte_mempool_calc_obj_size L elt_size (mp_flags mp))"
    "mp_trailer_size mp = sz_trailer_size (rte_mempool_calc_obj_size L elt_size (mp_flags mp))"
    "sz_total_size (rte_mempool_calc_obj_size L elt_size (mp_flags mp)) \<noteq> 0"
    "mp_name mp = name" "mp_socket_id mp = socket_id" "mp_pool_data mp = PoolNull"
    using k(2) unfolding mp by simp_all
qed

lemma memzone_reserve_errno:
  assumes "memzone_reserve_aligned big name len al bd e = (None, e')"
  shows "0 < rte_errno e'"
proof -
  obtain a e1 where a: "malloc_heap_alloc (if RTE_ALIGN_CEIL len RTE_CACHE_LINE_SIZE = 0 \<and> bd = 0 then big
      else if RTE_ALIGN_CEIL len RTE_CACHE_LINE_SIZE = 0 then unat bd
      else max RTE_CACHE_LINE_SIZE (RTE_ALIGN_CEIL len RTE_CACHE_LINE_SIZE)) e = (a, e1)" by fastforce
  show ?thesis using assms a unfolding memzone_reserve_aligned_def Let_def
    by (auto simp: ENOSPC_def ENAMETOOLONG_def EEXIST_def EINVAL_def ENOMEM_def split: if_splits option.splits)
qed

lemma rte_free_errno [simp]: "rte_errno (rte_free a e) = rte_errno e"
  by (simp add: rte_free_def split: option.splits)

lemma alloc_once_law:
  assumes d: "rte_mempool_get_ops table (mp_ops_index mp) = Some drv" "drv \<in> ring_drivers"
    and f: "mp_flags mp AND MEMPOOL_F_POOL_CREATED = 0" and n: "unat (mp_size mp) < 2 ^ 30"
    and a: "mempool_ops_alloc_once table mp e = Some (ret, mp', e')" "0 \<le> ret"
  obtains r mz where "ret = 0" "mp' = mp\<lparr>mp_pool_data := PoolRing r, mp_flags := mp_flags mp OR MEMPOOL_F_POOL_CREATED\<rparr>"
    "ring_wf r" "ring_elems r = []" "unat (mp_size mp) \<le> ring_cap r" "memzones e' = memzones e @ [mz]"
proof -
  define fl where "fl = ((if mp_flags mp AND MEMPOOL_F_SP_PUT \<noteq> 0 then RING_F_SP_ENQ else 0)
               OR (if mp_flags mp AND MEMPOOL_F_SC_GET \<noteq> 0 then RING_F_SC_DEQ else 0))"
  let ?num = "rte_align32pow2 (mp_size mp + 1)" and ?name = "RTE_MEMPOOL_MZ_PREFIX @ mp_name mp"
  have fl: "fl AND RING_F_EXACT_SZ = 0" by (simp add: fl_def RING_F_SP_ENQ_def RING_F_SC_DEQ_def RING_F_EXACT_SZ_def)
  obtain ret1 mp1 e1 where al: "common_ring_alloc mp e = Some (ret1, mp1, e1)"
    and o: "if ret1 \<noteq> 0 then ret = ret1 else ret = 0 \<and> mp' = mp1\<lparr>mp_flags := mp_flags mp1 OR MEMPOOL_F_POOL_CREATED\<rparr> \<and> e' = e1"
    using a f d(1) ring_drivers_ops(3) [OF d(2)]
    by (auto simp: mempool_ops_alloc_once_def rte_mempool_ops_alloc_def split: option.splits if_splits)
  obtain k where k: "k \<le> 30" "unat ?num = 2 ^ k" "unat (mp_size mp) < 2 ^ k" by (rule align32pow2 [OF n]) simp
  obtain q e2 where c: "rte_ring_create (0::nat) ?name ?num fl e = (q, e2)" by fastforce
  have short: "length ?name < RTE_RING_NAMESIZE"
    using al o a(2) by (auto simp: common_ring_alloc_def Let_def ENAMETOOLONG_def split: if_splits)
  then have al2: "common_ring_alloc mp e = (case q of None \<Rightarrow> Some (- rte_errno e2, mp, e2)
      | Some r \<Rightarrow> Some (0, mp\<lparr>mp_pool_data := PoolRing r\<rparr>, e2))"
    using c by (simp add: common_ring_alloc_def Let_def fl_def not_le)
  show thesis
  proof (cases q)
    case None
    have num: "?num = 2 ^ k" using k(1,2) unat_pow2 [of k] by (simp add: word_unat_eq_iff)
    have "(2::nat) ^ k \<le> 2 ^ 30" using k(1) by (intro power_increasing) simp_all
    then have "?num \<le> RTE_RING_SZ_MASK" using k(2) by (simp add: word_le_nat_alt RTE_RING_SZ_MASK_def)
    then have sz: "\<not> rte_ring_get_memsize ?num < 0"
      using rte_ring_memsize_bounds [of ?num] POWEROF2_exp [of k] num by simp
    have "0 < rte_errno e2"
      using c sz fl short unfolding None
      by (auto simp: rte_ring_create_def Let_def ENAMETOOLONG_def ENOMEM_def dest: memzone_reserve_errno split: if_splits option.splits prod.splits)
    then show thesis using al al2 o a(2) None by auto
  next
    case (Some r)
    have n0: "?num \<noteq> 0" using k(2) by auto
    have r: "ring_wf r \<and> ring_elems r = [] \<and> ring_cap r = unat ?num - 1 \<and> (\<exists>mz. memzones e2 = memzones e @ [mz])"
      by (rule rte_ring_create_Some [OF c [unfolded Some] fl n0])
    have "ret1 = 0" "mp1 = mp\<lparr>mp_pool_data := PoolRing r\<rparr>" "e1 = e2" using al al2 Some by simp_all
    then show thesis using that r o k(2,3) by auto
  qed
qed

lemma reserve_chunk_Inl:
  assumes "reserve_chunk table L mp pg_sz pg_shift np tc mz_id n e = Some (Inl err, e')"
  shows "err < 0"
  using assms unfolding reserve_chunk_def Let_def
  by (auto simp: ENAMETOOLONG_def ENOMEM_def dest: memzone_reserve_errno split: option.splits prod.splits if_splits)

lemma zones_failed:
  "populate_zones table L pg_sz pg_shift np k mz_id n tc mp e = Some (True, ret, mp', e') \<Longrightarrow> ret < 0"
proof (induction k arbitrary: mz_id n tc mp e)
  case (Suc k)
  then show ?case
    by (auto simp: Let_def dest: reserve_chunk_Inl split: if_splits option.splits sum.splits prod.splits)
qed simp

lemma populate_default_law:
  assumes d: "rte_mempool_get_ops table (mp_ops_index mp) = Some drv" "drv \<in> ring_drivers"
    and f: "mp_flags mp AND MEMPOOL_F_POOL_CREATED = 0" and n: "unat (mp_size mp) < 2 ^ 30"
    and new: "mp_elt_list mp = []" "mp_populated_size mp = 0" and sz: "sizes_ok mp"
    and al: "obj_align mp dvd unat (mp_header_size mp)" "obj_align mp dvd elt_space mp"
    and p: "rte_mempool_populate_default table L mp e = Some (ret, mp', e')" "0 \<le> ret"
    and z: "zones_disjoint L (memzones e')"
  shows "mempool_wf drv ring_pool_inv table mp' \<longleftrightarrow> mempool_wf drv (\<lambda>_. True) table mp"
    and "ring_pool_elems (mp_pool_data mp') = mset (obj_list mp')" "unat (mp_size mp') \<le> ring_pool_cap (mp_pool_data mp')"
    and "pool_layout L (memzones e') mp'" "length (obj_list mp') = unat (mp_size mp')"
    and "same_pool (mp\<lparr>mp_flags := mp_flags mp OR MEMPOOL_F_POOL_CREATED\<rparr>) mp'"
proof -
  note drv = ring_drivers_driver [OF d(2)]
  obtain ret1 mp1 e1 where once: "mempool_ops_alloc_once table mp e = Some (ret1, mp1, e1)"
    and pos: "0 \<le> ret1"
    using p by (auto simp: rte_mempool_populate_default_def split: option.splits if_splits)
  from alloc_once_law [OF d f n once pos] obtain r mz where
    a: "ret1 = 0" "mp1 = mp\<lparr>mp_pool_data := PoolRing r, mp_flags := mp_flags mp OR MEMPOOL_F_POOL_CREATED\<rparr>"
      "ring_wf r" "ring_elems r = []" "unat (mp_size mp) \<le> ring_cap r" "memzones e1 = memzones e @ [mz]" .
  obtain pg_sz pg_shift np tc k failed ret2 mp2 e2 where
    zo: "populate_zones table L pg_sz pg_shift np k 0 (mp_size mp1) tc mp1 e1 = Some (failed, ret2, mp2, e2)"
    and res: "if failed then ret = ret2 else ret = ret2 \<and> mp' = mp2 \<and> e' = e2"
    using p once a(1)
    by (auto simp: rte_mempool_populate_default_def Let_def EINVAL_def EEXIST_def simp del: populate_zones.simps
        split: option.splits if_splits prod.splits)
  have nf: "failed = False" using zones_failed [of table L pg_sz pg_shift np k 0 _ tc mp1 e1 ret2] zo res p(2) by (cases failed) auto
  then have fin: "mp' = mp2" "e' = e2" using res by simp_all
  note zo' = zo [unfolded nf fin [symmetric]]
  let ?mp = "mp\<lparr>mp_flags := mp_flags mp OR MEMPOOL_F_POOL_CREATED\<rparr>"
  have cr: "mp_flags mp1 AND MEMPOOL_F_POOL_CREATED \<noteq> 0"
    unfolding a(2) by (simp add: MEMPOOL_F_POOL_CREATED_def bit.conj_disj_distrib2)
  have keep: "obj_align mp1 = obj_align mp" "elt_space mp1 = elt_space mp" "sizes_ok mp1 = sizes_ok mp" "obj_list mp1 = []"
    unfolding a(2) using new
    by (simp_all add: obj_align_def elt_space_def sizes_ok_def obj_list_def MEMPOOL_F_POOL_CREATED_def
        MEMPOOL_F_NO_CACHE_ALIGN_def bit.conj_disj_distrib2)
  have ready: "pool_driver.pool_ready drv ring_pool_inv ring_pool_elems ring_pool_cap table mp1"
    using a(2-5) d ring_drivers_ops(1) [OF d(2)] cr keep(4)
    by (simp add: pool_driver.pool_ready_def [OF drv] ring_pool_inv_def ring_pool_elems_def ring_pool_cap_def)
  have lay: "pool_layout L (memzones e1) mp1"
    using sz al new unfolding pool_layout_def keep by (simp add: a(2))
  have cnt: "unat (mp_size mp1) + length (obj_list mp1) = unat (mp_size mp1)" using keep(4) by simp
  note law = pool_driver.zones_law [OF drv ready lay zo' z cnt]
  have driven: "pool_driver.driven drv ring_pool_inv table mp1"
    using ready by (simp add: pool_driver.pool_ready_def [OF drv] pool_driver.driven_def [OF drv])
  have same: "same_pool mp1 mp'" using pool_driver.driven_zones [OF drv driven zo'] by simp
  then show "same_pool ?mp mp'" unfolding a(2) by (simp add: same_pool_def)
  show "pool_layout L (memzones e') mp'" "length (obj_list mp') = unat (mp_size mp')" using law by simp_all
  show "ring_pool_elems (mp_pool_data mp') = mset (obj_list mp')" "unat (mp_size mp') \<le> ring_pool_cap (mp_pool_data mp')"
    using law by (simp_all add: pool_driver.pool_ready_def [OF drv])
  have "ring_pool_inv (mp_pool_data mp')" using law by (simp add: pool_driver.pool_ready_def [OF drv])
  then show "mempool_wf drv ring_pool_inv table mp' \<longleftrightarrow> mempool_wf drv (\<lambda>_. True) table mp"
    using same unfolding a(2) by (simp add: mempool_wf_def same_pool_def)
qed

lemma ops_index_sizes [simp]:
  "elt_space (mp\<lparr>mp_ops_index := i\<rparr>) = elt_space mp" "sizes_ok (mp\<lparr>mp_ops_index := i\<rparr>) = sizes_ok mp"
  "obj_align (mp\<lparr>mp_ops_index := i\<rparr>) = obj_align mp" "obj_list (mp\<lparr>mp_ops_index := i\<rparr>) = obj_list mp"
  by (simp_all add: elt_space_def sizes_ok_def obj_align_def obj_list_def)

lemma create_empty_sizes:
  assumes ce: "rte_mempool_create_empty L name n elt_size cache_size priv socket flags e = (Some mp, e')"
    and b: "unat elt_size \<le> 2 ^ 30" "channels_ranks L \<le> 2 ^ 20"
  defines "sz \<equiv> rte_mempool_calc_obj_size L elt_size (mp_flags mp)"
  shows "elt_space mp = unat (sz_total_size sz)" "mp_header_size mp = sz_header_size sz" "sizes_ok mp"
    and "obj_align mp dvd unat (mp_header_size mp)" "obj_align mp dvd elt_space mp"
proof -
  note em = create_empty_law [OF ce, folded sz_def] and sz = calc_obj_size_law [OF b, of "mp_flags mp", folded sz_def]
  show space: "elt_space mp = unat (sz_total_size sz)" unfolding elt_space_def using em(8-10) sz(2) by simp
  show hdr: "mp_header_size mp = sz_header_size sz" by (rule em(9))
  have "unat (sz_elt_size sz) + unat (sz_trailer_size sz) < 2 ^ 32" using sz(1) unat_lt2p [of "sz_total_size sz"] by simp
  then have "unat (sz_elt_size sz + sz_trailer_size sz) = unat (sz_elt_size sz) + unat (sz_trailer_size sz)"
    by (simp add: unat_word_ariths)
  then show "sizes_ok mp" using sz(1,4) em(8-10) space by (simp add: sizes_ok_def)
  show "obj_align mp dvd unat (mp_header_size mp)" "obj_align mp dvd elt_space mp"
    using sz(5,6) unfolding hdr space by (simp_all add: obj_align_def)
qed

lemma create_law:
  assumes t: "ring_table table" and z: "zones_disjoint L (memzones e')"
    and b: "unat elt_size \<le> 2 ^ 30" "channels_ranks L \<le> 2 ^ 20" "unat n < 2 ^ 30"
    and c: "rte_mempool_create table L name n elt_size cache_size priv mp_init obj_init socket flags m e = Some (Some mp, m', e')"
  obtains drv where "drv \<in> ring_drivers" "mempool_wf drv ring_pool_inv table mp"
    "mempool_contents ring_pool_elems mp = mset (obj_list mp)" "length (obj_list mp) = unat n"
    "unat n \<le> ring_pool_cap (mp_pool_data mp)" "pool_layout L (memzones e') mp" "mp_size mp = n"
    "24 + unat elt_size \<le> elt_space mp" "24 \<le> unat (mp_header_size mp)"
    "unat (mp_header_size mp) + unat elt_size \<le> elt_space mp" "ring_pool_elems (mp_pool_data mp) = mset (obj_list mp)"
proof -
  obtain mp0 e0 where ce: "rte_mempool_create_empty L name n elt_size cache_size priv socket flags e = (Some mp0, e0)"
    using c by (auto simp: rte_mempool_create_def split: option.splits prod.splits)
  obtain ret1 mp1 where so: "rte_mempool_set_ops_byname table (create_ops_name flags) mp0 = (ret1, mp1)" by fastforce
  have "ret1 = 0" using c ce so by (auto simp: rte_mempool_create_def split: if_splits option.splits)
  with so set_ops_ring [OF t, of flags mp0 mp1] obtain i where
    i: "mp1 = mp0\<lparr>mp_ops_index := i\<rparr>" "i < length table" "table ! i \<in> ring_drivers" "mp_flags mp0 AND MEMPOOL_F_POOL_CREATED = 0"
    by blast
  obtain ret2 where pd: "rte_mempool_populate_default table L mp1 e0 = Some (ret2, mp, e')" "0 \<le> ret2"
    using c ce so \<open>ret1 = 0\<close> by (auto simp: rte_mempool_create_def Let_def split: if_splits option.splits)
  note em = create_empty_law [OF ce]
  let ?sz = "rte_mempool_calc_obj_size L elt_size (mp_flags mp0)"
  note sz = calc_obj_size_law [OF b(1,2), of "mp_flags mp0"]
  note cs = create_empty_sizes [OF ce b(1,2)]
  have space: "elt_space mp1 = unat (sz_total_size ?sz)" and hdr: "mp_header_size mp1 = sz_header_size ?sz"
    and ok: "sizes_ok mp1" and al: "obj_align mp1 dvd unat (mp_header_size mp1)" "obj_align mp1 dvd elt_space mp1"
    using cs unfolding i(1) by simp_all
  have d: "rte_mempool_get_ops table (mp_ops_index mp1) = Some (table ! i)" using i(1,2) by (simp add: rte_mempool_get_ops_def)
  have pre: "mp_flags mp1 AND MEMPOOL_F_POOL_CREATED = 0" "unat (mp_size mp1) < 2 ^ 30" "mp_elt_list mp1 = []" "mp_populated_size mp1 = 0"
    using i(1,4) em(1-3) b(3) by simp_all
  note law = populate_default_law [OF d i(3) pre ok al pd z]
  have same: "mp_size mp = n" "mp_header_size mp = mp_header_size mp1" "elt_space mp = elt_space mp1"
    "mp_cache_size mp = cache_size" "mp_local_cache mp = mp_local_cache mp0"
    using law(6) em(1,5) by (simp_all add: same_pool_def elt_space_def i(1))
  have "mempool_wf (table ! i) (\<lambda>_. True) table mp1"
    using d em(5-7) by (simp add: mempool_wf_def i(1))
  then have wf: "mempool_wf (table ! i) ring_pool_inv table mp" using law(1) by simp
  have zero: "sum_list (map cached l) = {#}" if "\<And>c. c \<in> set l \<Longrightarrow> cached c = {#}" for l
    using that by (induction l) simp_all
  have "mempool_contents ring_pool_elems mp = mset (obj_list mp)"
    using law(2) em(7) zero [of "mp_local_cache mp0"] same(4,5) by (simp add: mempool_contents_def)
  moreover have "24 + unat elt_size \<le> elt_space mp" "24 \<le> unat (mp_header_size mp)"
    "unat (mp_header_size mp) + unat elt_size \<le> elt_space mp"
    using sz(1,3,4) unfolding same(2,3) hdr space by simp_all
  ultimately show thesis using that [OF i(3) wf] law(2-5) same(1) by simp
qed

lemma apart_distinct: "0 < space \<Longrightarrow> sorted_wrt (apart space) xs \<Longrightarrow> distinct xs"
  by (induction xs) (auto simp: apart_def)

lemma sorted_wrt_apart: "sorted_wrt (apart space) xs \<Longrightarrow> x \<in> set xs \<Longrightarrow> y \<in> set xs \<Longrightarrow> x \<noteq> y \<Longrightarrow> apart space x y"
  by (induction xs) (auto simp: apart_def)

end
