(* ===== verification/Mempool_Create_Runs.thy ===== *)
theory Mempool_Create_Runs
  imports Mempool_Create_Props
begin

text \<open>
  When the EAL has memory, \<open>rte_mempool_create\<close> returns a pool; and what it does when asked for \<open>2^30\<close> objects.
\<close>

section \<open>An EAL with memory\<close>

text \<open>
  Every request to the heap succeeds, \<open>k\<close> zones are left, the names are free, and the zones that exist are
  different blocks of at most 2 TB.
\<close>

definition env_ok :: "nat \<Rightarrow> string set \<Rightarrow> 'z eal_scheme \<Rightarrow> bool" where
  "env_ok k names e \<longleftrightarrow> malloc_ok e = (\<lambda>_ _. True) \<and> length (memzones e) + k \<le> mz_max e
     \<and> (\<forall>nm\<in>names. memzone_lookup nm e = None \<and> length nm < RTE_MEMZONE_NAMESIZE)
     \<and> distinct (map mz_addr (memzones e)) \<and> (\<forall>mz\<in>set (memzones e). mz_addr mz < mallocs e \<and> mz_len mz \<le> 2 ^ 41)"

lemma env_ok_upd [simp]:
  "env_ok k names (e\<lparr>ring_list := l\<rparr>) = env_ok k names e"
  "env_ok k names (e\<lparr>rte_errno := x\<rparr>) = env_ok k names e"
  "env_ok k names (e'\<lparr>mempool_list := y\<rparr>) = env_ok k names e'"
  by (simp_all add: env_ok_def memzone_lookup_def)

lemma env_ok_malloc:
  assumes "env_ok k names e" "0 < sz"
  obtains a e' where "rte_malloc sz e = (Some a, e')" "env_ok k names e'"
proof -
  have "env_ok k names (e\<lparr>mallocs := Suc (mallocs e), live := live e + 1\<rparr>)"
    using assms(1) by (auto simp: env_ok_def memzone_lookup_def less_Suc_eq)
  then show thesis using assms that by (simp add: rte_malloc_def malloc_heap_alloc_def Let_def env_ok_def)
qed

lemma env_ok_lookup:
  assumes "memzone_lookup nm e = None" "length nm < RTE_MEMZONE_NAMESIZE" "length (mz_name mz) < RTE_MEMZONE_NAMESIZE" "mz_name mz \<noteq> nm"
    and "memzones e' = memzones e @ [mz]"
  shows "memzone_lookup nm e' = None"
  using assms unfolding memzone_lookup_None by auto

lemma RTE_ALIGN_CEIL_64:
  "v \<le> RTE_ALIGN_CEIL v RTE_CACHE_LINE_SIZE" "RTE_ALIGN_CEIL v RTE_CACHE_LINE_SIZE \<le> v + 63"
  using RTE_ALIGN_CEIL_ge(1) [of 64 v] div_times_less_eq_dividend [of "v + 63" 64]
  by (simp_all add: RTE_CACHE_LINE_SIZE_def RTE_ALIGN_CEIL_def)

lemma env_ok_reserve:
  assumes "env_ok (Suc k) (insert name names) e" "name \<notin> names" "0 < len" "len \<le> 2 ^ 40"
  obtains mz e' where "memzone_reserve_aligned big name len 64 0 e = (Some mz, e')" "env_ok k names e'" "len \<le> mz_len mz"
proof -
  have pre: "malloc_ok e = (\<lambda>_ _. True)" "memzone_lookup name e = None" "length (memzones e) < mz_max e" "length name < RTE_MEMZONE_NAMESIZE"
    using assms(1) by (simp_all add: env_ok_def)
  obtain n where r: "memzone_reserve_aligned big name len 64 0 e
      = (Some \<lparr>mz_name = name, mz_addr = mallocs e, mz_len = n\<rparr>,
         e\<lparr>mallocs := Suc (mallocs e), live := live e + 1,
           memzones := memzones e @ [\<lparr>mz_name = name, mz_addr = mallocs e, mz_len = n\<rparr>]\<rparr>)" (is "_ = (Some ?mz, ?e)")
    by (rule memzone_reserve_ok [OF pre assms(3,4)])
  have "n = max RTE_CACHE_LINE_SIZE (RTE_ALIGN_CEIL len RTE_CACHE_LINE_SIZE)"
    using r assms(3) RTE_ALIGN_CEIL_64(1) [of len]
    by (auto simp: memzone_reserve_aligned_def Let_def malloc_heap_alloc_def split: if_splits)
  then have n: "len \<le> n" "n \<le> 2 ^ 41" using RTE_ALIGN_CEIL_64 [of len] assms(4) by (simp_all add: RTE_CACHE_LINE_SIZE_def)
  have look: "memzone_lookup nm ?e = None" if "nm \<in> names" for nm
    by (rule env_ok_lookup [where mz = ?mz and e = e]) (use assms(1,2) pre(4) that in \<open>auto simp: env_ok_def\<close>)
  have "mallocs e \<notin> mz_addr ` set (memzones e)" using assms(1) by (auto simp: env_ok_def)
  then have "env_ok k names ?e"
    using assms(1) look n(2) by (auto simp: env_ok_def less_Suc_eq)
  then show thesis using that r n(1) by simp
qed

lemma env_ok_ring:
  assumes e: "env_ok (Suc k) (insert (RTE_RING_MZ_PREFIX @ name) names) e" "RTE_RING_MZ_PREFIX @ name \<notin> names"
    and c: "POWEROF2 c" "c \<noteq> 0" "c \<le> RTE_RING_SZ_MASK" "f AND RING_F_EXACT_SZ = 0"
  obtains r e' where "rte_ring_create j name c f e = (Some r, e')" "env_ok k names e'"
    "ring_wf r" "ring_elems r = []" "ring_cap r = unat c - 1"
proof -
  obtain te e1 where m: "rte_malloc 24 e = (Some te, e1)" "env_ok (Suc k) (insert (RTE_RING_MZ_PREFIX @ name) names) e1"
    by (rule env_ok_malloc [OF e(1), of 24]) simp
  note sz = rte_ring_memsize_bounds [OF c(1,3)]
  obtain mz e2 where z: "memzone_reserve_aligned 0 (RTE_RING_MZ_PREFIX @ name) (nat (rte_ring_get_memsize c)) 64 0 e1 = (Some mz, e2)"
    "env_ok k names e2"
    using env_ok_reserve [OF m(2) e(2)] sz by blast
  have len: "length (RTE_RING_MZ_PREFIX @ name) < RTE_MEMZONE_NAMESIZE" using e(1) by (simp add: env_ok_def)
  obtain ret r0 where i: "rte_ring_init j name c f = (ret, r0)" by fastforce
  have r: "rte_ring_create j name c f e
      = (Some (r0\<lparr>rmemzone := Some (mz_addr mz)\<rparr>), e2\<lparr>ring_list := ring_list e2 @ [(te, mz_addr mz)]\<rparr>)"
    using m(1) z(1) sz len i c(4) by (simp add: rte_ring_create_def Let_def)
  show thesis using that [OF r] z(2) rte_ring_create_Some [OF r c(4,2)] by simp
qed

section \<open>A pool from an EAL with memory\<close>

text \<open>The zones of a pool: the pool itself, its ring and the objects.\<close>

definition pool_zones :: "string \<Rightarrow> string set" where
  "pool_zones name = {RTE_MEMPOOL_MZ_PREFIX @ name, RTE_RING_MZ_PREFIX @ RTE_MEMPOOL_MZ_PREFIX @ name,
     RTE_MEMPOOL_MZ_PREFIX @ name @ ''_0''}"

lemma create_empty_ok:
  assumes e: "env_ok (Suc k) (insert (RTE_MEMPOOL_MZ_PREFIX @ name) names) e" "RTE_MEMPOOL_MZ_PREFIX @ name \<notin> names"
    and n: "n \<noteq> 0" "cache_size \<le> RTE_MEMPOOL_CACHE_MAX_SIZE" "CALC_CACHE_FLUSHTHRESH cache_size \<le> n"
    and sz: "\<And>fl. sz_total_size (rte_mempool_calc_obj_size L elt_size fl) \<noteq> 0"
    and f: "flags AND MEMPOOL_F_POOL_CREATED = 0"
  obtains mp e' where "rte_mempool_create_empty L name n elt_size cache_size priv socket flags e = (Some mp, e')"
    "env_ok k names e'" "mp_flags mp AND MEMPOOL_F_POOL_CREATED = 0"
proof -
  let ?flags = "if flags AND MEMPOOL_F_NO_CACHE_ALIGN \<noteq> 0 then flags OR MEMPOOL_F_NO_SPREAD else flags"
  let ?priv = "(priv + RTE_MEMPOOL_ALIGN_MASK) AND NOT RTE_MEMPOOL_ALIGN_MASK"
  let ?len = "RTE_ALIGN_CEIL (MEMPOOL_HEADER_SIZE cache_size + unat ?priv) 64"
  obtain te e1 where m: "rte_malloc 24 e = (Some te, e1)" "env_ok (Suc k) (insert (RTE_MEMPOOL_MZ_PREFIX @ name) names) e1"
    by (rule env_ok_malloc [OF e(1), of 24]) simp
  have h: "192 \<le> MEMPOOL_HEADER_SIZE cache_size" "MEMPOOL_HEADER_SIZE cache_size \<le> 2 ^ 30"
    by (simp_all add: MEMPOOL_HEADER_SIZE_def sizeof_mempool_cache_def RTE_MAX_LCORE_def)
  have "0 < ?len \<and> ?len \<le> 2 ^ 40"
    using RTE_ALIGN_CEIL_64 [of "MEMPOOL_HEADER_SIZE cache_size + unat ?priv"] h unat_lt2p [of ?priv]
    by (simp add: RTE_CACHE_LINE_SIZE_def)
  then obtain mz e2 where z: "memzone_reserve_aligned 0 (RTE_MEMPOOL_MZ_PREFIX @ name) ?len 64 0 e1 = (Some mz, e2)"
    "env_ok k names e2"
    using env_ok_reserve [OF m(2) e(2)] by blast
  have len: "\<not> length (RTE_MEMPOOL_MZ_PREFIX @ name) \<ge> RTE_MEMZONE_NAMESIZE" using e(1) by (simp add: env_ok_def)
  have fl: "?flags AND MEMPOOL_F_POOL_CREATED = 0"
    using f by (simp add: MEMPOOL_F_NO_SPREAD_def MEMPOOL_F_POOL_CREATED_def bit.conj_disj_distrib2)
  obtain mp where r: "rte_mempool_create_empty L name n elt_size cache_size priv socket flags e
      = (Some mp, e2\<lparr>mempool_list := mempool_list e2 @ [(te, mz_addr mz)]\<rparr>)" "mp_flags mp = ?flags"
    using n sz [of ?flags] m(1) z(1) len
    by (simp add: rte_mempool_create_empty_def Let_def not_less RTE_CACHE_LINE_SIZE_def)
  show thesis by (rule that [OF r(1)]) (use z(2) r(2) fl in simp_all)
qed

lemma ring_alloc_ok:
  assumes e: "env_ok (Suc k) (insert (RTE_RING_MZ_PREFIX @ RTE_MEMPOOL_MZ_PREFIX @ mp_name mp) names) e"
      "RTE_RING_MZ_PREFIX @ RTE_MEMPOOL_MZ_PREFIX @ mp_name mp \<notin> names"
    and n: "unat (mp_size mp) < 2 ^ 30" and f: "mp_flags mp AND MEMPOOL_F_POOL_CREATED = 0"
    and d: "rte_mempool_get_ops table (mp_ops_index mp) = Some drv" "drv \<in> ring_drivers"
  obtains r e' where "mempool_ops_alloc_once table mp e
      = Some (0, mp\<lparr>mp_pool_data := PoolRing r, mp_flags := mp_flags mp OR MEMPOOL_F_POOL_CREATED\<rparr>, e')"
    "env_ok k names e'" "ring_wf r" "ring_elems r = []" "unat (mp_size mp) \<le> ring_cap r"
proof -
  define fl where "fl = ((if mp_flags mp AND MEMPOOL_F_SP_PUT \<noteq> 0 then RING_F_SP_ENQ else 0)
               OR (if mp_flags mp AND MEMPOOL_F_SC_GET \<noteq> 0 then RING_F_SC_DEQ else 0))"
  let ?num = "rte_align32pow2 (mp_size mp + 1)" and ?name = "RTE_MEMPOOL_MZ_PREFIX @ mp_name mp"
  have fl: "fl AND RING_F_EXACT_SZ = 0" by (simp add: fl_def RING_F_SP_ENQ_def RING_F_SC_DEQ_def RING_F_EXACT_SZ_def)
  obtain j where j: "j \<le> 30" "unat ?num = 2 ^ j" "unat (mp_size mp) < 2 ^ j" by (rule align32pow2 [OF n]) simp
  have num: "?num = 2 ^ j" using j(1,2) unat_pow2 [of j] by (simp add: word_unat_eq_iff)
  have "(2::nat) ^ j \<le> 2 ^ 30" using j(1) by (intro power_increasing) simp_all
  then have c: "POWEROF2 ?num" "?num \<noteq> 0" "?num \<le> RTE_RING_SZ_MASK"
    using j(1,2) num POWEROF2_exp [of j] by (auto simp: word_le_nat_alt RTE_RING_SZ_MASK_def)
  obtain r e' where r: "rte_ring_create (0::nat) ?name ?num fl e = (Some r, e')" "env_ok k names e'"
    "ring_wf r" "ring_elems r = []" "ring_cap r = unat ?num - 1"
    by (rule env_ok_ring [OF e c fl])
  have "\<not> length ?name \<ge> RTE_RING_NAMESIZE"
    using e(1) by (simp add: env_ok_def RTE_RING_NAMESIZE_def RTE_MEMZONE_NAMESIZE_def RTE_RING_MZ_PREFIX_def)
  then have "common_ring_alloc mp e = Some (0, mp\<lparr>mp_pool_data := PoolRing r\<rparr>, e')"
    using r(1) by (simp add: common_ring_alloc_def Let_def fl_def)
  then show thesis
    using that [of r e'] r(2-5) j(2,3) f d(1) ring_drivers_ops(3) [OF d(2)]
    by (simp add: mempool_ops_alloc_once_def rte_mempool_ops_alloc_def)
qed

text \<open>One zone takes all objects.\<close>

lemma reserve_chunk_ok:
  assumes e: "env_ok (Suc k) (insert (RTE_MEMPOOL_MZ_PREFIX @ mp_name mp @ ''_0'') names) e"
      "RTE_MEMPOOL_MZ_PREFIX @ mp_name mp @ ''_0'' \<notin> names"
    and t: "0 < elt_space mp" "n \<noteq> 0" "elt_space mp * unat n \<le> 2 ^ 40"
    and d: "rte_mempool_get_ops table (mp_ops_index mp) = Some drv" "drv \<in> ring_drivers"
  obtains mz e' where "reserve_chunk table L mp 0 0 True False 0 n e = Some (Inr (mz, False, elt_space mp), e')"
    "env_ok k names e'" "elt_space mp * unat n \<le> mz_len mz"
proof -
  let ?name = "RTE_MEMPOOL_MZ_PREFIX @ mp_name mp @ ''_0''"
  have s0: "show_base 10 0 = ''0''" by (subst show_base.simps) code_simp
  have pos: "0 < elt_space mp * unat n" using t(1,2) by (simp add: unat_gt_0)
  obtain mz e' where z: "memzone_reserve_aligned (biggest_free L (mallocs e)) ?name (elt_space mp * unat n) 64 0 e = (Some mz, e')"
    "env_ok k names e'" "elt_space mp * unat n \<le> mz_len mz"
    by (rule env_ok_reserve [OF e pos t(3)])
  have ss: "ssize (elt_space mp * unat n) = int (elt_space mp * unat n)" using t(3) unfolding ssize_def Let_def by simp
  have calc: "rte_mempool_ops_calc_mem_size table mp n 0 = Some (int (elt_space mp * unat n), elt_space mp, 64)"
    using d(1) ring_drivers_ops(2) [OF d(2)] t(1) ss
    by (simp add: rte_mempool_ops_calc_mem_size_def rte_mempool_op_calc_mem_size_default_def Let_def
        RTE_CACHE_LINE_SIZE_def flip: elt_space_def)
  have len: "\<not> length ?name \<ge> RTE_MEMZONE_NAMESIZE" using e(1) by (simp add: env_ok_def)
  have "1 \<le> unat n" using t(2) by (simp add: unat_gt_0 Suc_le_eq)
  from mult_le_mono2 [OF this, of "elt_space mp"] have big: "\<not> mz_len mz < elt_space mp" using z(3) by linarith
  have "nat (int (elt_space mp * unat n)) = elt_space mp * unat n" by (rule nat_int)
  then have "reserve_chunk table L mp 0 0 True False 0 n e = Some (Inr (mz, False, elt_space mp), e')"
    using calc z(1) len big s0 by (simp add: reserve_chunk_def Let_def del: of_nat_mult)
  then show thesis using that z(2,3) by blast
qed

lemma zones_ok:
  assumes drv: "pool_driver drv good elems cap" "pool_driver.pool_ready drv good elems cap table mp"
    and z: "reserve_chunk table L mp 0 0 True False 0 (mp_size mp) e = Some (Inr (mz, False, mc), e1)"
      "elt_space mp * unat (mp_size mp) \<le> mz_len mz" "obj_align mp dvd zone_vaddr L (mz_addr mz)"
    and small: "unat (mp_size mp) < 2 ^ 31"
    and new: "mp_size mp \<noteq> 0" "mp_populated_size mp = 0" "mp_elt_list mp = []" "sizes_ok mp"
    and m: "rte_malloc 56 e1 = (Some h, e2)"
  obtains mp' where "populate_zones table L 0 0 True (Suc (unat (mp_size mp))) 0 (mp_size mp) False mp e
    = Some (False, int (unat (mp_size mp)), mp', e2)"
proof -
  let ?n = "unat (mp_size mp)" and ?t = "elt_space mp" and ?a = "zone_vaddr L (mz_addr mz)"
  have r: "rte_mempool_get_ops table (mp_ops_index mp) = Some drv" "op_populate drv = None" "good (mp_pool_data mp)"
    "size (elems (mp_pool_data mp)) + ?n \<le> cap (mp_pool_data mp)" "mp_flags mp AND MEMPOOL_F_POOL_CREATED \<noteq> 0"
    using drv(2) new(3) by (simp_all add: pool_driver.pool_ready_def [OF drv(1)] obj_list_def)
  have n0: "0 < ?n" using new(1) by (simp add: unat_gt_0)
  have off: "chunk_off mp ?a = 0"
    using z(3) RTE_ALIGN_CEIL_ge(3) [of "obj_align mp" ?a]
    by (auto simp: chunk_off_def obj_align_def RTE_CACHE_LINE_SIZE_def split: if_splits)
  define iova where "iova = (if mp_flags mp AND MEMPOOL_F_NO_IOVA_CONTIG \<noteq> 0 then None else zone_iova L (mz_addr mz))"
  from pool_driver.populate_objs_law [OF drv(1) r(1,3) new(4) refl r(4), of ?a "map_option (\<lambda>io. io + 0) iova" "mz_len mz" 0 0]
  obtain p add k where po: "populate_objs table ?a (map_option (\<lambda>io. io + 0) iova) (mz_len mz) mempool_add_elem ?t ?n 0 0 mp
      = Some (int k, mp\<lparr>mp_pool_data := p, mp_elt_list := add, mp_populated_size := of_nat k\<rparr>)"
    and k: "k \<le> ?n" "k < ?n \<longrightarrow> mz_len mz < (k + 1) * ?t"
    using new(2,3) by auto
  have "k = ?n"
  proof (rule ccontr)
    assume "k \<noteq> ?n"
    then have "k < ?n" using k(1) by simp
    then have "(k + 1) * ?t \<le> ?n * ?t" by (intro mult_le_mono1) simp
    then show False using k(2) \<open>k < ?n\<close> z(2) by (simp add: mult.commute)
  qed
  note po = po [unfolded this]
  define mp1 where "mp1 = mp\<lparr>mp_pool_data := p, mp_elt_list := add, mp_populated_size := of_nat ?n,
      mp_mem_list := mp_mem_list mp @ [\<lparr>mh_block = h, mh_addr = ?a, mh_iova = iova, mh_len = mz_len mz, mh_free = Some (mz_addr mz)\<rparr>],
      mp_nb_mem_chunks := mp_nb_mem_chunks mp + 1\<rparr>"
  have once: "mempool_ops_alloc_once table mp e1 = Some (0, mp, e1)" using r(5) by (simp add: mempool_ops_alloc_once_def)
  have pop: "rte_mempool_ops_populate table mp (mp_size mp) ?a (map_option (\<lambda>io. io + 0) iova) (mz_len mz) mempool_add_elem
      = Some (int ?n, mp\<lparr>mp_pool_data := p, mp_elt_list := add, mp_populated_size := of_nat ?n\<rparr>)"
    using r(1,2) po sint_small [OF small] by (simp add: rte_mempool_ops_populate_def rte_mempool_op_populate_default_def flip: elt_space_def)
  have iv: "rte_mempool_populate_iova table mp ?a iova (mz_len mz) (Some (mz_addr mz)) e1 = Some (int ?n, mp1, e2)"
    using once new(1,2) m off pop n0 by (simp add: uint_0_iff rte_mempool_populate_iova_def Let_def mp1_def)
  have "word_of_int (int ?n) = mp_size mp" by simp
  moreover obtain n' where "?n = Suc n'" using n0 by (cases ?n) auto
  ultimately have "populate_zones table L 0 0 True (Suc ?n) 0 (mp_size mp) False mp e = Some (False, int ?n, mp1, e2)"
    using z(1) new(1) iv sint_small [OF small] by (simp add: Let_def mp1_def flip: iova_def)
  then show thesis by (rule that)
qed

lemma find_ops_found: "name \<in> op_name ` set table \<Longrightarrow> \<exists>j. find_ops i name table = Some j"
  by (induction table arbitrary: i) auto

text \<open>
  The pool is made, when IO addresses are virtual addresses or need not be contiguous, so that the objects come
  in one zone.
\<close>

lemma create_ok:
  assumes e: "env_ok 3 (pool_zones name) e" "length name < 26"
    and t: "ring_table table" "create_ops_name flags \<in> op_name ` set table"
    and sz: "unat elt_size \<le> 2 ^ 30" "channels_ranks L \<le> 2 ^ 20"
    and n: "n \<noteq> 0" "unat n < 2 ^ 30" "cache_size \<le> RTE_MEMPOOL_CACHE_MAX_SIZE" "CALC_CACHE_FLUSHTHRESH cache_size \<le> n"
      "\<And>fl. unat (sz_total_size (rte_mempool_calc_obj_size L elt_size fl)) * unat n \<le> 2 ^ 40"
    and f: "flags AND MEMPOOL_F_POOL_CREATED = 0"
    and L: "iova_va L" "socket_is_external L socket = 0" "\<And>a. 64 dvd zone_vaddr L a"
  obtains mp m' e' where "rte_mempool_create table L name n elt_size cache_size priv mp_init obj_init socket flags m e
    = Some (Some mp, m', e')" "env_ok 0 {} e'"
proof -
  let ?MP = "RTE_MEMPOOL_MZ_PREFIX @ name" and ?RG = "RTE_RING_MZ_PREFIX @ RTE_MEMPOOL_MZ_PREFIX @ name" and ?OB = "RTE_MEMPOOL_MZ_PREFIX @ name @ ''_0''"
  note calc = calc_obj_size_law [OF sz]
  have pos: "sz_total_size (rte_mempool_calc_obj_size L elt_size fl) \<noteq> 0" for fl
    using calc(1,4) [of fl] by auto
  have ne: "?MP \<notin> {?RG, ?OB}" "?RG \<notin> {?OB}" by (simp_all add: RTE_MEMPOOL_MZ_PREFIX_def RTE_RING_MZ_PREFIX_def)
  have e3: "env_ok (Suc (Suc (Suc 0))) (insert ?MP {?RG, ?OB}) e" using e(1) by (simp add: pool_zones_def numeral_3_eq_3)
  obtain mp0 e0 where em: "rte_mempool_create_empty L name n elt_size cache_size priv socket flags e = (Some mp0, e0)"
    "env_ok (Suc (Suc 0)) {?RG, ?OB} e0" "mp_flags mp0 AND MEMPOOL_F_POOL_CREATED = 0"
    by (rule create_empty_ok [OF e3 ne(1) n(1,3,4) pos f])
  note law = create_empty_law [OF em(1)]
  obtain i where i: "find_ops 0 (create_ops_name flags) table = Some i"
    using t(2) find_ops_found by blast
  define mp1 where "mp1 = mp0\<lparr>mp_ops_index := i\<rparr>"
  have so: "rte_mempool_set_ops_byname table (create_ops_name flags) mp0 = (0, mp1)"
    using i em(3) by (simp add: rte_mempool_set_ops_byname_def mp1_def)
  obtain i' where i': "mp1 = mp0\<lparr>mp_ops_index := i'\<rparr>" "i' < length table" "table ! i' \<in> ring_drivers"
    by (rule set_ops_ring [OF t(1) so])
  have d: "rte_mempool_get_ops table (mp_ops_index mp1) = Some (table ! i')" using i' by (simp add: rte_mempool_get_ops_def)
  note cs = create_empty_sizes [OF em(1) sz]
  have pre: "mp_name mp1 = name" "mp_size mp1 = n" "mp_flags mp1 AND MEMPOOL_F_POOL_CREATED = 0" "mp_nb_mem_chunks mp1 = 0"
      "mp_populated_size mp1 = 0" "mp_elt_list mp1 = []" "mp_socket_id mp1 = socket"
    using law em(3) by (simp_all add: mp1_def)
  have er: "env_ok (Suc (Suc 0)) (insert (RTE_RING_MZ_PREFIX @ RTE_MEMPOOL_MZ_PREFIX @ mp_name mp1) {?OB}) e0"
    "RTE_RING_MZ_PREFIX @ RTE_MEMPOOL_MZ_PREFIX @ mp_name mp1 \<notin> {?OB}" "unat (mp_size mp1) < 2 ^ 30"
    using em(2) ne(2) n(2) pre(1,2) by simp_all
  obtain r e1 where al: "mempool_ops_alloc_once table mp1 e0
      = Some (0, mp1\<lparr>mp_pool_data := PoolRing r, mp_flags := mp_flags mp1 OR MEMPOOL_F_POOL_CREATED\<rparr>, e1)"
    "env_ok (Suc 0) {?OB} e1" "ring_wf r" "ring_elems r = []" "unat (mp_size mp1) \<le> ring_cap r"
    by (rule ring_alloc_ok [OF er pre(3) d i'(3)])
  define mp2 where "mp2 = mp1\<lparr>mp_pool_data := PoolRing r, mp_flags := mp_flags mp1 OR MEMPOOL_F_POOL_CREATED\<rparr>"
  have m2: "mp_name mp2 = name" "mp_size mp2 = n" "mp_nb_mem_chunks mp2 = 0" "mp_populated_size mp2 = 0" "mp_elt_list mp2 = []"
    "mp_socket_id mp2 = socket" "rte_mempool_get_ops table (mp_ops_index mp2) = Some (table ! i')" "sizes_ok mp2"
    "elt_space mp2 = unat (sz_total_size (rte_mempool_calc_obj_size L elt_size (mp_flags mp0)))"
    using pre d cs by (simp_all add: mp2_def mp1_def sizes_ok_def elt_space_def)
  have s2: "0 < elt_space mp2" "elt_space mp2 * unat n \<le> 2 ^ 40" using m2(8,9) n(5) by (simp_all add: sizes_ok_def)
  have e2: "env_ok (Suc 0) (insert (RTE_MEMPOOL_MZ_PREFIX @ mp_name mp2 @ ''_0'') {}) e1" using al(2) m2(1) by simp
  obtain mz e3 where ch: "reserve_chunk table L mp2 0 0 True False 0 n e1 = Some (Inr (mz, False, elt_space mp2), e3)"
    "env_ok 0 {} e3" "elt_space mp2 * unat n \<le> mz_len mz"
    by (rule reserve_chunk_ok [OF e2 _ s2(1) n(1) s2(2) m2(7) i'(3)]) simp
  obtain h e4 where hd: "rte_malloc 56 e3 = (Some h, e4)" "env_ok 0 {} e4"
    by (rule env_ok_malloc [OF ch(2), of 56]) simp
  note drv = ring_drivers_driver [OF i'(3)]
  have ready: "pool_driver.pool_ready (table ! i') ring_pool_inv ring_pool_elems ring_pool_cap table mp2"
    using al(3-5) m2(5,7) ring_drivers_ops(1) [OF i'(3)] pre(2)
    by (simp add: pool_driver.pool_ready_def [OF drv] ring_pool_inv_def ring_pool_elems_def ring_pool_cap_def obj_list_def
        mp2_def MEMPOOL_F_POOL_CREATED_def bit.conj_disj_distrib2)
  have align: "obj_align mp2 dvd zone_vaddr L (mz_addr mz)"
    using L(3) [of "mz_addr mz"] dvd_trans [of "8::nat" 64] by (simp add: obj_align_def)
  obtain mp3 where z: "populate_zones table L 0 0 True (Suc (unat (mp_size mp2))) 0 (mp_size mp2) False mp2 e1
      = Some (False, int (unat (mp_size mp2)), mp3, e4)"
    by (rule zones_ok [OF drv ready _ _ align _ _ m2(4,5,8) hd(1)]) (use ch n(1,2) m2(2) in \<open>simp_all del: populate_zones.simps\<close>)
  have "rte_mempool_populate_default table L mp1 e0 = Some (int (unat (mp_size mp2)), mp3, e4)"
    using al(1) L(1,2) m2(2,3,6) z
    by (simp add: rte_mempool_populate_default_def Let_def del: populate_zones.simps flip: mp2_def)
  then show thesis using that em(1) so hd(2) by (simp add: rte_mempool_create_def Let_def)
qed

lemma env_ok_disjoint:
  assumes "env_ok k names e" "\<And>a a'. a \<noteq> a' \<Longrightarrow> apart (2 ^ 41) (zone_vaddr L a) (zone_vaddr L a')"
  shows "zones_disjoint L (memzones e)"
proof -
  have "zone_end L z \<le> zone_begin L z' \<or> zone_end L z' \<le> zone_begin L z"
    if "z \<in> set (memzones e)" "z' \<in> set (memzones e)" "mz_addr z \<noteq> mz_addr z'" for z z'
    using assms(2) [OF that(3)] assms(1) that(1,2) by (fastforce simp: env_ok_def apart_def zone_begin_def zone_end_def)
  moreover have "distinct (map mz_addr zs) \<Longrightarrow> sorted_wrt (\<lambda>z z'. mz_addr z \<noteq> mz_addr z') zs" for zs
    by (induction zs) auto
  then have "sorted_wrt (\<lambda>z z'. mz_addr z \<noteq> mz_addr z') (memzones e)" using assms(1) unfolding env_ok_def by blast
  ultimately show ?thesis unfolding zones_disjoint_def
    by (rule sorted_wrt_mono_rel)
qed

section \<open>The properties\<close>

text \<open>
  An EAL for the examples: blocks of 4 TB, IO addresses that are virtual addresses; the heap serves every request.
\<close>

definition example_memory :: eal_memory where
  "example_memory = \<lparr>nchannel = 4, nrank = 1, zone_vaddr = \<lambda>a. (a + 1) * 2 ^ 42, zone_iova = \<lambda>a. Some ((a + 1) * 2 ^ 42),
     virt2iova = Some, socket_is_external = \<lambda>_. 0, iova_va = True, has_hugepages = True, memseg_lists = [], page_size = 4096,
     biggest_free = \<lambda>_. 0\<rparr>"

definition example_env :: pool_env where
  "example_env = \<lparr>malloc_ok = \<lambda>_ _. True, mallocs = 0, live = 0, mz_max = 2560, memzones = [], ring_list = [], rte_errno = 0,
     pool = [], stack_list = [], mempool_list = []\<rparr>"

lemma example_ok:
  "env_ok 3 (pool_zones ''p'') example_env" "length ''p'' < 26" "ring_table [ops_mp_mc]"
  "create_ops_name 0 \<in> op_name ` set [ops_mp_mc]" "unat (100 :: u32) \<le> 2 ^ 30" "channels_ranks example_memory \<le> 2 ^ 20"
  "(4 :: u32) \<noteq> 0" "unat (4 :: u32) < 2 ^ 30" "(2 :: u32) \<le> RTE_MEMPOOL_CACHE_MAX_SIZE" "CALC_CACHE_FLUSHTHRESH 2 \<le> 4"
  "\<And>fl. unat (sz_total_size (rte_mempool_calc_obj_size L elt_size fl)) * unat (4 :: u32) \<le> 2 ^ 40"
  "(0 :: u32) AND MEMPOOL_F_POOL_CREATED = 0"
  "iova_va example_memory" "socket_is_external example_memory 0 = 0" "\<And>a. 64 dvd zone_vaddr example_memory a"
  "\<And>a a'. a \<noteq> a' \<Longrightarrow> apart (2 ^ 41) (zone_vaddr example_memory a) (zone_vaddr example_memory a')"
proof -
  show "env_ok 3 (pool_zones ''p'') example_env"
    by (simp add: env_ok_def example_env_def pool_zones_def memzone_lookup_def RTE_MEMPOOL_MZ_PREFIX_def
        RTE_RING_MZ_PREFIX_def RTE_MEMZONE_NAMESIZE_def)
  show "unat (sz_total_size (rte_mempool_calc_obj_size L elt_size fl)) * unat (4 :: u32) \<le> 2 ^ 40" for fl
    using unat_lt2p [of "sz_total_size (rte_mempool_calc_obj_size L elt_size fl)"] by simp
  show "apart (2 ^ 41) (zone_vaddr example_memory a) (zone_vaddr example_memory a')" if "a \<noteq> a'" for a a'
    using that unfolding apart_def example_memory_def by simp arith
  show "64 dvd zone_vaddr example_memory a" for a by (simp add: example_memory_def)
  show "ring_table [ops_mp_mc]" "create_ops_name 0 \<in> op_name ` set [ops_mp_mc]"
    by (simp_all add: ring_table_def ring_drivers_def create_ops_name_def ops_mp_mc_def)
qed (simp_all add: channels_ranks_def example_memory_def RTE_MEMPOOL_CACHE_MAX_SIZE_def CALC_CACHE_FLUSHTHRESH_def)

text \<open>C9. 
  Where IO addresses are virtual addresses and the EAL has memory and three zones left, \<open>rte_mempool_create\<close> with valid
  arguments returns a pool, reports all \<open>n\<close> objects as available, and every core can get all of them at once, each once.
\<close>

theorem mempool_create_full:
  assumes "env_ok 3 (pool_zones name) e" "length name < 26"
    and "ring_table table" "create_ops_name flags \<in> op_name ` set table"
    and "unat elt_size \<le> 2 ^ 30" "channels_ranks L \<le> 2 ^ 20"
    and "n \<noteq> 0" "unat n < 2 ^ 30" "cache_size \<le> RTE_MEMPOOL_CACHE_MAX_SIZE" "CALC_CACHE_FLUSHTHRESH cache_size \<le> n"
    and "\<And>fl. unat (sz_total_size (rte_mempool_calc_obj_size L elt_size fl)) * unat n \<le> 2 ^ 40"
    and "flags AND MEMPOOL_F_POOL_CREATED = 0"
    and "iova_va L" "socket_is_external L socket = 0" "\<And>a. 64 dvd zone_vaddr L a"
    and "\<And>a a'. a \<noteq> a' \<Longrightarrow> apart (2 ^ 41) (zone_vaddr L a) (zone_vaddr L a')"
  shows "\<exists>mp m' e'. rte_mempool_create table L name n elt_size cache_size priv mp_init obj_init socket flags m e = Some (Some mp, m', e')
    \<and> rte_mempool_avail_count table mp = Some n
    \<and> (\<forall>lcore. \<exists>xs mp'. rte_mempool_get_bulk table lcore mp n = Some (0, xs, mp') \<and> length xs = unat n \<and> distinct xs)"
proof -
  obtain mp m' e' where c: "rte_mempool_create table L name n elt_size cache_size priv mp_init obj_init socket flags m e
      = Some (Some mp, m', e')" "env_ok 0 {} e'"
    by (rule create_ok [OF assms(1-15)])
  from assms(3) env_ok_disjoint [OF c(2) assms(16)] assms(5,6,8) c(1) obtain drv where
    d: "drv \<in> ring_drivers" "mempool_wf drv ring_pool_inv table mp" "mempool_contents ring_pool_elems mp = mset (obj_list mp)"
      "length (obj_list mp) = unat n" "pool_layout L (memzones e') mp" "mp_size mp = n"
      "ring_pool_elems (mp_pool_data mp) = mset (obj_list mp)"
    by (rule create_law)
  note drv = ring_drivers_driver [OF d(1)]
  have dist: "distinct (obj_list mp)"
    using d(5) apart_distinct [of "elt_space mp" "obj_list mp"] by (simp add: pool_layout_def sizes_ok_def)
  have "rte_mempool_avail_count table mp = Some n"
    using pool_driver.avail_law [OF drv d(2)] d(3,4,6) by (auto simp: word_unat_eq_iff)
  moreover have "\<exists>xs mp'. rte_mempool_get_bulk table lcore mp n = Some (0, xs, mp') \<and> length xs = unat n \<and> distinct xs" for lcore
  proof -
    have "mempool_get_ok ring_pool_elems mp lcore n"
      using d(4,7) assms(7) by (auto simp: mempool_get_ok_def can_get_def word_gt_0 split: option.splits)
    with pool_driver.get_law [OF drv d(2), of lcore n] obtain xs mp' where
      g: "rte_mempool_get_bulk table lcore mp n = Some (0, xs, mp')" "length xs = unat n"
        "mset (obj_list mp) = mset xs + mempool_contents ring_pool_elems mp'" unfolding d(3) by auto
    have "size (mempool_contents ring_pool_elems mp') = 0" using arg_cong [OF g(3), of size] g(2) d(4) by simp
    then have "mset xs = mset (obj_list mp)" using g(3) by simp
    then show ?thesis using g(1,2) dist mset_eq_imp_distinct_iff by blast
  qed
  ultimately show ?thesis using c(1) by blast
qed

lemma mempool_create_full_witness:
  "\<exists>mp m' e' xs mp'. rte_mempool_create [ops_mp_mc] example_memory ''p'' 4 100 2 0 None None 0 0 () example_env = Some (Some mp, m', e')
    \<and> rte_mempool_get_bulk [ops_mp_mc] 1 mp 4 = Some (0, xs, mp') \<and> length xs = 4 \<and> distinct xs"
  using mempool_create_full [OF example_ok, of 0 None None "()"] by fastforce

text \<open>C7. 
  Memory of a pool that \<open>rte_mempool_create\<close> returned, over any run of gets, puts and flushes by any cores.  No object is
  held twice.  Every object held is one of the \<open>n\<close> of the pool, is aligned, and lies with its header in a live memory
  zone, and two different ones are apart by at least the header and the requested size: no two holders share a byte.
  The pool answers every further call.  Nothing is assumed of where the EAL puts zones but that live zones do not
  overlap, and nothing of how many pieces the memory comes in.
\<close>

theorem mempool_memory_exclusive:
  assumes "ring_table table" "zones_disjoint L (memzones e')"
    and "unat elt_size \<le> 2 ^ 30" "channels_ranks L \<le> 2 ^ 20" "unat n < 2 ^ 30"
    and "rte_mempool_create table L name n elt_size cache_size priv mp_init obj_init socket flags m e = Some (Some mp, m', e')"
    and "(pool_step table)\<^sup>*\<^sup>* (mp, {#}) (mp', held)"
  shows "size (mempool_contents ring_pool_elems mp' + held) = unat n
    \<and> (\<forall>x. count held x \<le> 1)
    \<and> (\<forall>x\<in>#held. obj_align mp dvd x \<and> (\<exists>z\<in>set (memzones e'). zone_begin L z + 24 \<le> x \<and> x + unat elt_size \<le> zone_end L z))
    \<and> (\<forall>x\<in>#held. \<forall>y\<in>#held. x \<noteq> y \<longrightarrow> x + 24 + unat elt_size \<le> y \<or> y + 24 + unat elt_size \<le> x)
    \<and> (\<forall>lcore k. rte_mempool_get_bulk table lcore mp' k \<noteq> None)
    \<and> (\<forall>lcore back. mset back \<subseteq># held \<longrightarrow> rte_mempool_put_bulk table lcore mp' back \<noteq> None)"
proof -
  from assms(1-6) obtain drv where
    d: "drv \<in> ring_drivers" "mempool_wf drv ring_pool_inv table mp" "mempool_contents ring_pool_elems mp = mset (obj_list mp)"
      "length (obj_list mp) = unat n" "unat n \<le> ring_pool_cap (mp_pool_data mp)" "pool_layout L (memzones e') mp"
      "24 + unat elt_size \<le> elt_space mp" "24 \<le> unat (mp_header_size mp)" "unat (mp_header_size mp) + unat elt_size \<le> elt_space mp"
    by (rule create_law)
  have lay: "sorted_wrt (apart (elt_space mp)) (obj_list mp)" "0 < elt_space mp"
    "\<And>x. x \<in> set (obj_list mp) \<Longrightarrow> obj_align mp dvd x \<and> (\<exists>z\<in>set (memzones e'). obj_within mp (zone_begin L z) (zone_end L z) x)"
    using d(6) by (auto simp: pool_layout_def sizes_ok_def)
  have dist: "distinct (obj_list mp)" by (rule apart_distinct [OF lay(2,1)])
  have cap: "length (obj_list mp) \<le> ring_pool_cap (mp_pool_data mp)" "length (obj_list mp) < 2 ^ 31" using d(4,5) assms(5) by simp_all
  note run = pool_driver.conserves [OF ring_drivers_driver [OF d(1)] d(2,3) dist cap assms(7)]
  have all: "mempool_contents ring_pool_elems mp' + held = mset (obj_list mp)" using run by blast
  have held: "x \<in> set (obj_list mp)" if "x \<in># held" for x
    using that all by (metis set_mset_mset union_iff)
  have inside: "obj_align mp dvd x \<and> (\<exists>z\<in>set (memzones e'). zone_begin L z + 24 \<le> x \<and> x + unat elt_size \<le> zone_end L z)"
    if "x \<in># held" for x
    using lay(3) [OF held [OF that]] d(8,9) by (auto simp: obj_within_def intro!: bexI)
  have "x + 24 + unat elt_size \<le> y \<or> y + 24 + unat elt_size \<le> x" if "x \<in># held" "y \<in># held" "x \<noteq> y" for x y
    using sorted_wrt_apart [OF lay(1) held [OF that(1)] held [OF that(2)] that(3)] d(7) by (auto simp: apart_def)
  moreover have "size (mempool_contents ring_pool_elems mp' + held) = unat n" unfolding all using d(4) by simp
  ultimately show ?thesis using run inside by blast
qed

lemma mempool_memory_exclusive_witness:
  "\<exists>mp e' xs mp'. rte_mempool_create [ops_mp_mc] example_memory ''p'' 4 100 2 0 None None 0 0 () example_env = Some (Some mp, (), e')
    \<and> (pool_step [ops_mp_mc])\<^sup>*\<^sup>* (mp, {#}) (mp', mset xs) \<and> length xs = 4
    \<and> (\<forall>x\<in>set xs. \<forall>y\<in>set xs. x \<noteq> y \<longrightarrow> 124 + x \<le> y \<or> 124 + y \<le> x)"
proof -
  obtain mp m' e' where c: "rte_mempool_create [ops_mp_mc] example_memory ''p'' 4 100 2 0 None None 0 0 () example_env
      = Some (Some mp, m', e')" "env_ok 0 {} e'"
    by (rule create_ok [OF example_ok(1-15)])
  note z = env_ok_disjoint [OF c(2) example_ok(16)]
  from example_ok(3) z example_ok(5,6,8) c(1) obtain drv where
    d: "drv \<in> ring_drivers" "mempool_wf drv ring_pool_inv [ops_mp_mc] mp" "length (obj_list mp) = unat (4 :: u32)"
      "ring_pool_elems (mp_pool_data mp) = mset (obj_list mp)"
    by (rule create_law)
  have "mempool_get_ok ring_pool_elems mp 1 4"
    using d(3,4) by (auto simp: mempool_get_ok_def can_get_def split: option.splits)
  with pool_driver.get_law [OF ring_drivers_driver [OF d(1)] d(2), of 1 4] obtain xs mp' where
    g: "rte_mempool_get_bulk [ops_mp_mc] 1 mp 4 = Some (0, xs, mp')" "length xs = 4" by auto
  have run: "(pool_step [ops_mp_mc])\<^sup>*\<^sup>* (mp, {#}) (mp', mset xs)"
    using pool_step.get [OF g(1), of "{#}"] by simp
  have "\<forall>x\<in>set xs. \<forall>y\<in>set xs. x \<noteq> y \<longrightarrow> 124 + x \<le> y \<or> 124 + y \<le> x"
    using mempool_memory_exclusive [OF example_ok(3) z example_ok(5,6,8) c(1) run] by simp
  then show ?thesis using c(1) run g(2) by simp blast
qed

text \<open>A pool without a ring; a get from it reads through the null pointer.\<close>

lemma ring_driver_null:
  "drv \<in> ring_drivers \<Longrightarrow> mp_pool_data mp = PoolNull \<Longrightarrow> op_dequeue drv = Some f \<Longrightarrow> f mp k = None"
  by (auto simp: ring_drivers_def ops_mp_mc_def ops_sp_sc_def ops_mp_sc_def ops_sp_mc_def
      common_ring_mc_dequeue_def common_ring_sc_dequeue_def ring_of_def)

lemma ring_driver_dequeue: "drv \<in> ring_drivers \<Longrightarrow> op_dequeue drv \<noteq> None"
  by (auto simp: ring_drivers_def ops_mp_mc_def ops_sp_sc_def ops_mp_sc_def ops_sp_mc_def)

lemma get_null:
  assumes "rte_mempool_get_ops table (mp_ops_index mp) = Some drv" "drv \<in> ring_drivers" "mp_pool_data mp = PoolNull"
    and "\<And>i. rte_mempool_default_cache mp lcore = Some i \<Longrightarrow> mc_len (mp_local_cache mp ! i) = 0" "0 < n"
  shows "rte_mempool_get_bulk table lcore mp n = None"
proof -
  have "rte_mempool_ops_dequeue_bulk table mp k = None" for k
    using assms(1-3) ring_driver_null ring_driver_dequeue by (fastforce simp: rte_mempool_ops_dequeue_bulk_def split: option.splits)
  then show ?thesis
    using assms(4,5) by (auto simp: rte_mempool_get_bulk_def mempool_generic_get_def Let_def split: option.splits)
qed

lemma alloc_too_big:
  assumes n: "2 ^ 30 \<le> unat (mp_size mp)" "unat (mp_size mp) < 2 ^ 31" and f: "mp_flags mp AND MEMPOOL_F_POOL_CREATED = 0"
    and d: "rte_mempool_get_ops table (mp_ops_index mp) = Some drv" "drv \<in> ring_drivers" and l: "length (mp_name mp) < 26"
  obtains e' where "mempool_ops_alloc_once table mp e = Some (EINVAL, mp, e')"
proof -
  define fl where "fl = ((if mp_flags mp AND MEMPOOL_F_SP_PUT \<noteq> 0 then RING_F_SP_ENQ else 0)
               OR (if mp_flags mp AND MEMPOOL_F_SC_GET \<noteq> 0 then RING_F_SC_DEQ else 0))"
  let ?num = "rte_align32pow2 (mp_size mp + 1)" and ?name = "RTE_MEMPOOL_MZ_PREFIX @ mp_name mp"
  have fl: "fl AND RING_F_EXACT_SZ = 0" by (simp add: fl_def RING_F_SP_ENQ_def RING_F_SC_DEQ_def RING_F_EXACT_SZ_def)
  obtain j where j: "unat ?num = 2 ^ j" "unat (mp_size mp) < 2 ^ j" by (rule align32pow2 [OF n(2)]) simp
  have "(2::nat) ^ 30 < 2 ^ j" using n(1) j(2) by simp
  then have "30 < j" by (rule power_less_imp_less_exp [rotated]) simp
  then have "(2::nat) ^ 31 \<le> 2 ^ j" by (intro power_increasing) simp_all
  then have "2 ^ 31 \<le> unat ?num" using j(1) by simp
  then have "?num > RTE_RING_SZ_MASK" by (simp add: word_less_nat_alt RTE_RING_SZ_MASK_def)
  then have "rte_ring_get_memsize ?num = - EINVAL" by (simp add: rte_ring_get_memsize_def)
  then have "rte_ring_create (0::nat) ?name ?num fl e = (None, e\<lparr>rte_errno := - EINVAL\<rparr>)"
    using fl by (simp add: rte_ring_create_def EINVAL_def)
  moreover have "\<not> length ?name \<ge> RTE_RING_NAMESIZE"
    using l by (simp add: RTE_RING_NAMESIZE_def RTE_MEMZONE_NAMESIZE_def RTE_MEMPOOL_MZ_PREFIX_def)
  ultimately have "common_ring_alloc mp e = Some (EINVAL, mp, e\<lparr>rte_errno := - EINVAL\<rparr>)"
    by (simp add: common_ring_alloc_def Let_def fl_def)
  then show thesis
    using that f d(1) ring_drivers_ops(3) [OF d(2)] by (simp add: mempool_ops_alloc_once_def rte_mempool_ops_alloc_def EINVAL_def)
qed

text \<open>C12. 
  Asked for \<open>2^30\<close> objects or more, up to \<open>2^31 - 1\<close>, \<open>rte_mempool_create\<close> returns a pool with no ring and no objects instead of
  failing: \<open>rte_ring_create\<close> leaves the negative size \<open>-EINVAL\<close> in \<open>rte_errno\<close>, the driver negates it, and the callers test
  for negative results only.  The first get from the pool follows the null pointer.
\<close>

theorem mempool_create_too_big:
  assumes "env_ok 1 {RTE_MEMPOOL_MZ_PREFIX @ name} e" "length name < 26"
    and "ring_table table" "create_ops_name flags \<in> op_name ` set table"
    and "unat elt_size \<le> 2 ^ 30" "channels_ranks L \<le> 2 ^ 20"
    and "2 ^ 30 \<le> unat n" "unat n < 2 ^ 31" "cache_size \<le> RTE_MEMPOOL_CACHE_MAX_SIZE"
    and "flags AND MEMPOOL_F_POOL_CREATED = 0"
  shows "\<exists>mp m' e'. rte_mempool_create table L name n elt_size cache_size priv mp_init obj_init socket flags m e = Some (Some mp, m', e')
    \<and> mp_pool_data mp = PoolNull \<and> mp_elt_list mp = [] \<and> (\<forall>lcore. rte_mempool_get table lcore mp = None)"
proof -
  have pos: "sz_total_size (rte_mempool_calc_obj_size L elt_size fl) \<noteq> 0" for fl
    using calc_obj_size_law(1,4) [OF assms(5,6), of fl] by auto
  have n: "n \<noteq> 0" "CALC_CACHE_FLUSHTHRESH cache_size \<le> n"
  proof -
    show "n \<noteq> 0" using assms(7) by auto
    have "unat cache_size * 3 div 2 \<le> 1000" using assms(9) by (simp add: RTE_MEMPOOL_CACHE_MAX_SIZE_def word_le_nat_alt)
    then show "CALC_CACHE_FLUSHTHRESH cache_size \<le> n"
      using assms(7) by (simp add: CALC_CACHE_FLUSHTHRESH_def word_le_nat_alt unat_of_nat_small)
  qed
  obtain mp0 e0 where em: "rte_mempool_create_empty L name n elt_size cache_size priv socket flags e = (Some mp0, e0)"
    "mp_flags mp0 AND MEMPOOL_F_POOL_CREATED = 0"
    by (rule create_empty_ok [OF _ _ n(1) assms(9) n(2) pos assms(10), of 0 name "{}" e]) (use assms(1) in simp_all)
  note law = create_empty_law [OF em(1)]
  obtain i where i: "find_ops 0 (create_ops_name flags) table = Some i" using assms(4) find_ops_found by blast
  define mp1 where "mp1 = mp0\<lparr>mp_ops_index := i\<rparr>"
  have so: "rte_mempool_set_ops_byname table (create_ops_name flags) mp0 = (0, mp1)"
    using i em(2) by (simp add: rte_mempool_set_ops_byname_def mp1_def)
  obtain i' where i': "mp1 = mp0\<lparr>mp_ops_index := i'\<rparr>" "i' < length table" "table ! i' \<in> ring_drivers"
    by (rule set_ops_ring [OF assms(3) so])
  have d: "rte_mempool_get_ops table (mp_ops_index mp1) = Some (table ! i')" using i' by (simp add: rte_mempool_get_ops_def)
  have m1: "mp_size mp1 = n" "mp_flags mp1 AND MEMPOOL_F_POOL_CREATED = 0" "mp_name mp1 = name" "mp_elt_list mp1 = []" "mp_pool_data mp1 = PoolNull"
    using law em(2) by (simp_all add: mp1_def)
  obtain e1 where "mempool_ops_alloc_once table mp1 e0 = Some (EINVAL, mp1, e1)"
    by (rule alloc_too_big [of mp1 table "table ! i'" e0]) (use assms(2,7,8) m1 d i'(3) in simp_all)
  then have "rte_mempool_populate_default table L mp1 e0 = Some (EINVAL, mp1, e1)"
    by (simp add: rte_mempool_populate_default_def EINVAL_def)
  then obtain m' where "rte_mempool_create table L name n elt_size cache_size priv mp_init obj_init socket flags m e = Some (Some mp1, m', e1)"
    using em(1) so by (simp add: rte_mempool_create_def Let_def EINVAL_def)
  moreover have "rte_mempool_get table lcore mp1 = None" for lcore
    unfolding rte_mempool_get_def
  proof (rule get_null [OF d i'(3) m1(5)])
    fix k assume "rte_mempool_default_cache mp1 lcore = Some k"
    then have k: "cache_size \<noteq> 0" "k < RTE_MAX_LCORE" "mp_local_cache mp1 = mp_local_cache mp0"
      using law(5) by (auto simp: rte_mempool_default_cache_def mp1_def split: if_splits)
    then have "cache_wf cache_size (mp_local_cache mp0 ! k) \<and> cached (mp_local_cache mp0 ! k) = {#}"
      using law(6,7) by simp
    then show "mc_len (mp_local_cache mp1 ! k) = 0" using size_cached k(3) by (metis size_empty unat_eq_zero)
  qed simp
  ultimately show ?thesis using m1(4,5) by blast
qed

lemma mempool_create_too_big_witness:
  "\<exists>mp m' e'. rte_mempool_create [ops_mp_mc] example_memory ''p'' 0x40000000 100 2 0 None None 0 0 () example_env = Some (Some mp, m', e')
    \<and> rte_mempool_get [ops_mp_mc] 1 mp = None"
proof -
  have "env_ok 1 {RTE_MEMPOOL_MZ_PREFIX @ ''p''} example_env" "(2::nat) ^ 30 \<le> unat (0x40000000 :: u32)" "unat (0x40000000 :: u32) < 2 ^ 31"
    using example_ok(1) by (simp_all add: env_ok_def pool_zones_def)
  from mempool_create_too_big [OF this(1) example_ok(2-6) this(2,3) example_ok(9,12), of 0 None None 0 "()"] show ?thesis by blast
qed

end
