(* ===== verification/Timer_List.thy ===== *)
theory Timer_List
  imports Timer
begin

text \<open>
  The skip list of an lcore as a HOL list: the pointers of every level form a path through those
  timers of the list that reach the level.  The lemmas show what the searches find on such paths
  (\<open>timer_get_prev_entries\<close>, \<open>timer_get_prev_entries_for_node\<close>) and that linking, unlinking and
  cutting the levels insert into, remove from and split the list.
\<close>

section \<open>Paths of one level\<close>

fun lpath :: "(tref option \<Rightarrow> tref option) \<Rightarrow> tref option \<Rightarrow> tref list \<Rightarrow> bool" where
  "lpath nx x [] \<longleftrightarrow> nx x = None"
| "lpath nx x (t # ts) \<longleftrightarrow> nx x = Some t \<and> lpath nx (Some t) ts"

definition last_node :: "tref option \<Rightarrow> tref list \<Rightarrow> tref option" where
  "last_node x ts = (if ts = [] then x else Some (last ts))"

lemma last_node_simps [simp]:
  "last_node x [] = x" "last_node x (t # ts) = last_node (Some t) ts"
  "last_node x (ts @ [t]) = Some t"
  by (auto simp: last_node_def)

lemma last_node_in: "last_node x ts = Some t \<Longrightarrow> x \<noteq> Some t \<Longrightarrow> t \<in> set ts"
  by (auto simp: last_node_def split: if_splits)

lemma last_node_cases: "last_node x ts = x \<or> (\<exists>t\<in>set ts. last_node x ts = Some t)"
  by (auto simp: last_node_def)

lemma last_node_Cons_in: "last_node (Some a) xs \<in> Some ` set (a # xs)"
  by (auto simp: last_node_def)

lemma last_node_None_iff [simp]: "last_node None ts = None \<longleftrightarrow> ts = []"
  by (auto simp: last_node_def)

lemma last_node_append: "last_node x (xs @ ys) = last_node (last_node x xs) ys"
  by (auto simp: last_node_def)

lemma lpath_hd: "lpath nx x ts \<Longrightarrow> nx x = (if ts = [] then None else Some (hd ts))"
  by (cases ts) auto

lemma lpath_suffix: "lpath nx x (xs @ ys) \<Longrightarrow> lpath nx (last_node x xs) ys"
  by (induction xs arbitrary: x) auto

lemma lpath_after: "lpath nx x (xs @ t # ys) \<Longrightarrow> nx (last_node x xs) = Some t \<and> lpath nx (Some t) ys"
  using lpath_suffix [of nx x xs "t # ys"] by simp

lemma lpath_cong:
  "nx x = nx' y \<Longrightarrow> (\<And>t. t \<in> set ts \<Longrightarrow> nx (Some t) = nx' (Some t)) \<Longrightarrow> lpath nx x ts = lpath nx' y ts"
  by (induction ts arbitrary: x y) auto

lemma lpath_upd_other [simp]: "x \<noteq> y \<Longrightarrow> y \<notin> Some ` set ts \<Longrightarrow> lpath (nx(y := v)) x ts = lpath nx x ts"
  by (rule lpath_cong) auto

lemma lpath_insert:
  "lpath nx x (xs @ ys) \<Longrightarrow> distinct (xs @ ys) \<Longrightarrow> t \<notin> set (xs @ ys) \<Longrightarrow> x \<noteq> Some t
   \<Longrightarrow> x \<notin> Some ` set (xs @ ys)
   \<Longrightarrow> lpath (nx(Some t := nx (last_node x xs), last_node x xs := Some t)) x (xs @ t # ys)"
proof (induction xs arbitrary: x)
  case Nil
  have "lpath (nx(Some t := nx x, x := Some t)) (Some t) ys = lpath (nx(Some t := nx x)) (Some t) ys"
    using Nil by (intro lpath_upd_other) auto
  also have "\<dots> \<longleftrightarrow> lpath nx x ys"
    using Nil by (intro lpath_cong) auto
  finally show ?case using Nil by (simp add: fun_upd_def)
next
  case (Cons a xs)
  have "x \<noteq> last_node (Some a) xs"
    using Cons.prems last_node_cases [of "Some a" xs] by auto
  then show ?case using Cons.IH [of "Some a"] Cons.prems by auto
qed

lemma lpath_remove:
  "lpath nx x (xs @ t # ys) \<Longrightarrow> distinct (xs @ t # ys) \<Longrightarrow> x \<notin> Some ` set (xs @ t # ys)
   \<Longrightarrow> lpath (nx(last_node x xs := nx (Some t))) x (xs @ ys)"
proof (induction xs arbitrary: x)
  case Nil
  then have "lpath (nx(x := nx (Some t))) x ys = lpath nx (Some t) ys"
    by (intro lpath_cong) auto
  then show ?case using Nil by (simp add: fun_upd_def)
next
  case (Cons a xs)
  have "x \<noteq> last_node (Some a) xs"
    using Cons.prems last_node_cases [of "Some a" xs] by auto
  then show ?case using Cons.IH [of "Some a"] Cons.prems by auto
qed

lemma lpath_terminate:
  "lpath nx x (xs @ ys) \<Longrightarrow> distinct xs \<Longrightarrow> x \<notin> Some ` set xs
   \<Longrightarrow> lpath (nx(last_node x xs := None)) x xs"
proof (induction xs arbitrary: x)
  case Nil
  then show ?case by simp
next
  case (Cons a xs)
  have "x \<noteq> last_node (Some a) xs"
    using Cons.prems last_node_cases [of "Some a" xs] by auto
  then show ?case using Cons.IH [of "Some a"] Cons.prems by auto
qed

lemma lpath_cut:
  assumes "lpath nx x (a # xs @ ys)" "distinct (a # xs @ ys)" "x \<notin> Some ` set (a # xs @ ys)"
  defines "p \<equiv> last_node x (a # xs)"
  shows "lpath (nx(x := nx p, p := None)) x ys"
    and "lpath (nx(x := nx p, p := None)) (Some a) xs"
proof -
  have p: "p \<noteq> x" "p \<in> Some ` set (a # xs)"
    using assms(3) last_node_Cons_in [of a xs] unfolding p_def by auto
  have "lpath nx p ys"
    using lpath_suffix [of nx x "a # xs" ys] assms(1) unfolding p_def by simp
  moreover have "lpath (nx(x := nx p)) x ys = lpath nx p ys"
    using assms(3) by (intro lpath_cong) auto
  ultimately have "lpath (nx(x := nx p)) x ys" by simp
  then show "lpath (nx(x := nx p, p := None)) x ys"
    using p assms(2,3) by (subst lpath_upd_other) fastforce+
  have "lpath (nx(last_node (Some a) xs := None)) (Some a) xs"
    using lpath_terminate [of nx "Some a" xs ys] assms by auto
  then have "lpath ((nx(p := None))(x := nx p)) (Some a) xs"
    using assms(3) p by (subst lpath_upd_other) (auto simp: p_def)
  then show "lpath (nx(x := nx p, p := None)) (Some a) xs"
    using p(1) by (simp add: fun_upd_twist)
qed

text \<open>A walk stops after the longest prefix of the path that satisfies the test.\<close>

lemma sl_walk_path:
  "lpath nx x (xs @ ys) \<Longrightarrow> (\<forall>t\<in>set xs. P t) \<Longrightarrow> ys = [] \<or> \<not> P (hd ys)
   \<Longrightarrow> sl_walk nx P x = Some (last_node x xs)"
proof (induction xs arbitrary: x)
  case Nil
  then show ?case by (subst sl_walk.simps) (cases ys; simp)
next
  case (Cons a xs)
  then show ?case by (subst sl_walk.simps) simp
qed

lemma filter_split_at:
  "filter Q (takeWhile P ts) @ filter Q (dropWhile P ts) = filter Q ts"
  by (metis filter_append takeWhile_dropWhile_id)

text \<open>On a sorted list the elements up to a bound are a prefix of every sublist.\<close>

lemma sorted_takeWhile_filter:
  fixes f :: "'a \<Rightarrow> 'b::linorder"
  assumes "sorted (map f ts)"
  shows "filter (\<lambda>t. f t \<le> v) ts = takeWhile (\<lambda>t. f t \<le> v) ts"
    and "filter (\<lambda>t. \<not> f t \<le> v) ts = dropWhile (\<lambda>t. f t \<le> v) ts"
proof -
  have "filter (\<lambda>t. f t \<le> v) ts = takeWhile (\<lambda>t. f t \<le> v) ts
      \<and> filter (\<lambda>t. \<not> f t \<le> v) ts = dropWhile (\<lambda>t. f t \<le> v) ts"
    using assms
  proof (induction ts)
    case Nil
    then show ?case by simp
  next
    case (Cons a ts)
    show ?case
    proof (cases "f a \<le> v")
      case True
      then show ?thesis using Cons by simp
    next
      case False
      then have "\<forall>t\<in>set ts. \<not> f t \<le> v" using Cons.prems by (auto dest: order_trans)
      then show ?thesis using False by (simp add: filter_empty_conv)
    qed
  qed
  then show "filter (\<lambda>t. f t \<le> v) ts = takeWhile (\<lambda>t. f t \<le> v) ts"
    "filter (\<lambda>t. \<not> f t \<le> v) ts = dropWhile (\<lambda>t. f t \<le> v) ts" by auto
qed

section \<open>Nodes and pointers\<close>

lemma node_next_set_next:
  "node_next (set_next c x l v s) d m y
   = (if m = l \<and> x = y \<and> (x = None \<longrightarrow> c = d) then v else node_next s d m y)"
  by (auto simp: node_next_def set_next_def upd_tim_def upd_priv_def split: option.splits)

lemma node_next_set_next_same:
  "node_next (set_next c x l v s) c m = (if m = l then (node_next s c m)(x := v) else node_next s c m)"
  by (rule ext) (auto simp: node_next_set_next)

lemma truncate_upd [simp]:
  "tinfo.truncate (x\<lparr>sl_next := v\<rparr>) = tinfo.truncate x"
  "pinfo.truncate (p\<lparr>head_next := hn\<rparr>) = pinfo.truncate p"
  "pinfo.truncate (p\<lparr>head_expire := e\<rparr>) = pinfo.truncate p"
  "pinfo.truncate (p\<lparr>list_lock := b\<rparr>) = pinfo.truncate p"
  "pinfo.truncate (p\<lparr>curr_skiplist_depth := d\<rparr>) = pinfo.truncate p"
  by (simp_all add: tinfo.truncate_def pinfo.truncate_def)

lemma truncate_eqD:
  "tinfo.truncate x = tinfo.truncate y \<Longrightarrow> t_expire x = t_expire y \<and> t_state x = t_state y
     \<and> t_owner x = t_owner y \<and> t_period x = t_period y \<and> t_f x = t_f y"
  "pinfo.truncate p = pinfo.truncate q \<Longrightarrow> updated p = updated q \<and> prev_lcore p = prev_lcore q
     \<and> running_tim p = running_tim q"
  by (simp_all add: tinfo.truncate_def pinfo.truncate_def)

text \<open>What an operation on the list of lcore \<open>c\<close> leaves alone: everything but the links of the
  timers in \<open>T\<close> and the list head of \<open>c\<close>.\<close>

definition links_only :: "nat \<Rightarrow> tref set \<Rightarrow> timers \<Rightarrow> timers \<Rightarrow> bool" where
  "links_only c T s s' \<longleftrightarrow>
     (\<forall>x. tinfo.truncate (tims s' x) = tinfo.truncate (tims s x)) \<and>
     (\<forall>x. x \<notin> T \<longrightarrow> sl_next (tims s' x) = sl_next (tims s x)) \<and>
     (\<forall>d. d \<noteq> c \<longrightarrow> privs s' d = privs s d) \<and>
     pinfo.truncate (privs s' c) = pinfo.truncate (privs s c) \<and>
     list_lock (privs s' c) = list_lock (privs s c)"

lemma links_only_refl [simp]: "links_only c T s s"
  by (simp add: links_only_def)

lemma links_only_trans: "links_only c T s s' \<Longrightarrow> links_only c T s' s'' \<Longrightarrow> links_only c T s s''"
  by (simp add: links_only_def)

lemma links_only_mono: "links_only c T s s' \<Longrightarrow> T \<subseteq> T' \<Longrightarrow> links_only c T' s s'"
  by (auto simp: links_only_def)

lemma links_only_set_next: "x \<in> insert None (Some ` T) \<Longrightarrow> links_only c T s (set_next c x l v s)"
  by (auto simp: links_only_def set_next_def upd_tim_def upd_priv_def split: option.splits)

lemma links_only_upd_priv:
  "(\<And>p. pinfo.truncate (g p) = pinfo.truncate p \<and> list_lock (g p) = list_lock p)
   \<Longrightarrow> links_only c T s (upd_priv c g s)"
  by (simp add: links_only_def upd_priv_def)

lemma links_only_upd:
  "links_only c T s (upd_priv c (\<lambda>p. p\<lparr>head_expire := e p\<rparr>) s)"
  "links_only c T s (upd_priv c (\<lambda>p. p\<lparr>curr_skiplist_depth := d p\<rparr>) s)"
  "links_only c T s (s\<lparr>rand_pos := r\<rparr>)"
  by (simp_all add: links_only_def upd_priv_def)

lemma node_next_upd_priv:
  "(\<And>p. head_next (g p) = head_next p) \<Longrightarrow> node_next (upd_priv c g s) = node_next s"
  by (simp add: fun_eq_iff node_next_def upd_priv_def split: option.split)

lemma node_next_upd [simp]:
  "node_next (upd_priv c (\<lambda>p. p\<lparr>head_expire := e p\<rparr>) s) = node_next s"
  "node_next (upd_priv c (\<lambda>p. p\<lparr>curr_skiplist_depth := d p\<rparr>) s) = node_next s"
  "node_next (s\<lparr>rand_pos := r\<rparr>) = node_next s"
  by (simp_all add: fun_eq_iff node_next_def upd_priv_def split: option.split)

lemma set_next_fields [simp]:
  "curr_skiplist_depth (privs (set_next c x l v s) d) = curr_skiplist_depth (privs s d)"
  "head_expire (privs (set_next c x l v s) d) = head_expire (privs s d)"
  "t_expire (tims (set_next c x l v s) t) = t_expire (tims s t)"
  "rands (set_next c x l v s) = rands s"
  by (auto simp: set_next_def upd_tim_def upd_priv_def split: option.splits)

section \<open>The levels one by one\<close>

lemma node_next_link_levels:
  assumes "\<And>m. prev m \<noteq> Some t"
  shows "node_next (link_levels c prev t k s) c m
    = (if m \<le> k then (node_next s c m)(Some t := node_next s c m (prev m), prev m := Some t)
       else node_next s c m)"
proof (induction k arbitrary: s)
  case 0
  then show ?case using assms
    by (auto simp: link_level_def Let_def node_next_set_next_same)
next
  case (Suc k)
  have "node_next (link_level c prev t (Suc k) s) c m
    = (if m = Suc k then (node_next s c m)(Some t := node_next s c m (prev m), prev m := Some t)
       else node_next s c m)" for m
    using assms by (auto simp: link_level_def Let_def node_next_set_next_same)
  then show ?case using Suc by (auto simp: le_Suc_eq)
qed

lemma node_next_unlink_levels:
  "node_next (unlink_levels c prev t k s) c m
    = (if m < k \<and> node_next s c m (prev m) = Some t
       then (node_next s c m)(prev m := node_next s c m (Some t)) else node_next s c m)"
proof (induction k arbitrary: s)
  case 0
  then show ?case by simp
next
  case (Suc k)
  have "node_next (unlink_level c prev t k s) c m
    = (if m = k \<and> node_next s c m (prev m) = Some t
       then (node_next s c m)(prev m := node_next s c m (Some t)) else node_next s c m)" for m
    by (auto simp: unlink_level_def node_next_set_next_same)
  then show ?case using Suc by (auto simp: less_Suc_eq)
qed

lemma node_next_cut_levels:
  "node_next (cut_levels c prev k s) c m
    = (if m < k \<and> prev m \<noteq> None
       then (node_next s c m)(None := node_next s c m (prev m), prev m := None) else node_next s c m)"
proof (induction k arbitrary: s)
  case 0
  then show ?case by simp
next
  case (Suc k)
  have "node_next (cut_level c prev k s) c m
    = (if m = k \<and> prev m \<noteq> None
       then (node_next s c m)(None := node_next s c m (prev m), prev m := None) else node_next s c m)" for m
    by (auto simp: cut_level_def Let_def node_next_set_next_same)
  then show ?case using Suc by (auto simp: less_Suc_eq)
qed

lemma link_levels_only:
  "t \<in> T \<Longrightarrow> (\<And>m. prev m \<in> insert None (Some ` T)) \<Longrightarrow> links_only c T s (link_levels c prev t k s)"
proof (induction k arbitrary: s)
  case 0
  then show ?case
    by (auto simp: link_level_def Let_def intro!: links_only_trans [OF links_only_set_next links_only_set_next])
next
  case (Suc k)
  have "links_only c T s (link_level c prev t (Suc k) s)"
    using Suc.prems
    by (auto simp: link_level_def Let_def intro!: links_only_trans [OF links_only_set_next links_only_set_next])
  then show ?case using Suc by (auto elim: links_only_trans)
qed

lemma unlink_levels_only:
  "(\<And>m. prev m \<in> insert None (Some ` T)) \<Longrightarrow> links_only c T s (unlink_levels c prev t k s)"
proof (induction k arbitrary: s)
  case 0
  then show ?case by simp
next
  case (Suc k)
  have "links_only c T s (unlink_level c prev t k s)"
    using Suc.prems by (auto simp: unlink_level_def intro!: links_only_set_next)
  then show ?case using Suc by (auto elim: links_only_trans)
qed

lemma cut_levels_only:
  "(\<And>m. prev m \<in> insert None (Some ` T)) \<Longrightarrow> links_only c T s (cut_levels c prev k s)"
proof (induction k arbitrary: s)
  case 0
  then show ?case by simp
next
  case (Suc k)
  have "links_only c T s (cut_level c prev k s)"
    using Suc.prems unfolding cut_level_def Let_def
    by (auto intro!: links_only_set_next links_only_trans [OF _ links_only_set_next] links_only_upd
        links_only_trans [OF links_only_set_next links_only_upd(2)])
  then show ?case using Suc by (auto elim: links_only_trans)
qed

end
