(* ===== verification/Timer_Skip.thy ===== *)
theory Timer_Skip
  imports Timer_List
begin

text \<open>
  The operations on the skip list of one lcore, over the list of its pending timers: \<open>timer_add\<close>
  inserts after the timers that expire no later, \<open>timer_unlink\<close> (the body of \<open>timer_del\<close>) removes,
  and cutting at a time splits the list there.  \<open>lv\<close> is the level each timer reaches; the list is
  the same whatever the random levels are.
\<close>

section \<open>A list and its levels\<close>

definition sl_list :: "timers \<Rightarrow> nat \<Rightarrow> (tref \<Rightarrow> nat) \<Rightarrow> tref list \<Rightarrow> bool" where
  "sl_list s c lv ts \<longleftrightarrow>
     (\<forall>l. lpath (node_next s c l) None (filter (\<lambda>t. l \<le> lv t) ts)) \<and>
     distinct ts \<and> sorted (map (\<lambda>t. t_expire (tims s t)) ts)"

definition sl_depth :: "(tref \<Rightarrow> nat) \<Rightarrow> tref list \<Rightarrow> nat \<Rightarrow> bool" where
  "sl_depth lv ts d \<longleftrightarrow> d \<le> MAX_SKIPLIST_DEPTH \<and> (\<forall>l. l < d \<longleftrightarrow> (\<exists>t\<in>set ts. l \<le> lv t))"

definition insert_after :: "('a \<Rightarrow> 'b::linorder) \<Rightarrow> 'a \<Rightarrow> 'a list \<Rightarrow> 'a list" where
  "insert_after f t ts = takeWhile (\<lambda>x. f x \<le> f t) ts @ t # dropWhile (\<lambda>x. f x \<le> f t) ts"

lemma set_insert_after [simp]: "set (insert_after f t ts) = insert t (set ts)"
proof -
  have "set ts = set (takeWhile (\<lambda>x. f x \<le> f t) ts) \<union> set (dropWhile (\<lambda>x. f x \<le> f t) ts)"
    by (metis set_append takeWhile_dropWhile_id)
  then show ?thesis by (simp add: insert_after_def)
qed

lemma distinct_insert_after [simp]: "distinct (insert_after f t ts) \<longleftrightarrow> distinct ts \<and> t \<notin> set ts"
proof -
  have "distinct (takeWhile (\<lambda>x. f x \<le> f t) ts @ dropWhile (\<lambda>x. f x \<le> f t) ts) = distinct ts"
    "set (takeWhile (\<lambda>x. f x \<le> f t) ts @ dropWhile (\<lambda>x. f x \<le> f t) ts) = set ts" by simp_all
  then show ?thesis unfolding insert_after_def distinct_append set_append by auto
qed

lemma sorted_insert_after:
  assumes "sorted (map f ts)"
  shows "sorted (map f (insert_after f t ts))"
proof -
  define as bs where "as = takeWhile (\<lambda>x. f x \<le> f t) ts" and "bs = dropWhile (\<lambda>x. f x \<le> f t) ts"
  have "\<forall>x\<in>set bs. f t \<le> f x"
    using sorted_takeWhile_filter(2) [OF assms, of "f t", symmetric] unfolding bs_def by auto
  moreover have "\<forall>x\<in>set as. f x \<le> f t"
    unfolding as_def by (auto dest: set_takeWhileD)
  moreover have "sorted (map f (as @ bs))"
    using assms unfolding as_def bs_def by simp
  ultimately have "sorted (map f (as @ t # bs))"
    by (simp add: sorted_append)
  then show ?thesis by (simp add: insert_after_def as_def bs_def)
qed

lemma filter_insert_after:
  assumes "t \<notin> set ts"
  shows "filter (\<lambda>x. l \<le> (lv(t := k)) x) (insert_after f t ts)
    = filter (\<lambda>x. l \<le> lv x) (takeWhile (\<lambda>x. f x \<le> f t) ts) @ (if l \<le> k then [t] else [])
      @ filter (\<lambda>x. l \<le> lv x) (dropWhile (\<lambda>x. f x \<le> f t) ts)"
proof -
  have "\<forall>x\<in>set (takeWhile (\<lambda>x. f x \<le> f t) ts) \<union> set (dropWhile (\<lambda>x. f x \<le> f t) ts). x \<noteq> t"
    using assms by (auto dest: set_takeWhileD set_dropWhileD)
  then show ?thesis
    unfolding insert_after_def by (auto intro!: filter_cong arg_cong2 [where f = append])
qed

section \<open>Searching\<close>

lemma sl_walk_from:
  assumes "lpath nx None (xs @ ys)" "\<forall>t\<in>set xs. P t" "ys = [] \<or> \<not> P (hd ys)"
    "x = None \<or> x \<in> Some ` set xs"
  shows "sl_walk nx P x = Some (last_node None xs)"
proof (cases x)
  case None
  then show ?thesis using sl_walk_path [OF assms(1-3)] by simp
next
  case (Some t)
  then obtain as bs where xs: "xs = as @ t # bs" using assms(4) by (auto dest: split_list)
  have "lpath nx (Some t) (bs @ ys)" using lpath_after [of nx None as t "bs @ ys"] assms(1) xs by simp
  from sl_walk_path [where P = P and xs = bs and ys = ys, OF this] show ?thesis
    using assms(2,3) xs Some by (simp add: last_node_append)
qed

lemma sl_walk_stays:
  assumes "lpath nx None ts" "x = None \<or> x \<in> Some ` set ts"
  shows "\<exists>y. sl_walk nx P x = Some y \<and> (y = None \<or> y \<in> Some ` set ts)"
proof -
  obtain as where as: "lpath nx x as" "set as \<subseteq> set ts"
  proof (cases x)
    case None
    then show ?thesis using assms that by auto
  next
    case (Some t)
    then obtain us vs where "ts = us @ t # vs" using assms(2) by (auto dest: split_list)
    then show ?thesis using lpath_after [of nx None us t vs] assms(1) Some that [of vs] by auto
  qed
  have "sl_walk nx P x = Some (last_node x (takeWhile P as))"
    using as(1) hd_dropWhile [of P as]
    by (intro sl_walk_path [of _ _ _ "dropWhile P as"]) (auto dest: set_takeWhileD)
  moreover have "last_node x (takeWhile P as) = x \<or> last_node x (takeWhile P as) \<in> Some ` set as"
    using last_node_cases [of x "takeWhile P as"] set_takeWhileD by fastforce
  ultimately show ?thesis using as(2) assms(2) by auto
qed

lemma lpath_next_in:
  assumes "lpath nx None ts" "x = None \<or> x \<in> Some ` set ts"
  shows "nx x = None \<or> nx x \<in> Some ` set ts"
proof (cases x)
  case None
  then show ?thesis using lpath_hd [OF assms(1)] by auto
next
  case (Some t)
  then obtain us vs where ts: "ts = us @ t # vs" using assms(2) by (auto dest: split_list)
  then show ?thesis using lpath_after [of nx None us t vs] lpath_hd [of nx x vs] assms(1) Some by auto
qed

abbreviation due :: "timers \<Rightarrow> u64 \<Rightarrow> tref list \<Rightarrow> tref list" where
  "due s tv \<equiv> takeWhile (\<lambda>t. t_expire (tims s t) \<le> tv)"

abbreviation beyond :: "timers \<Rightarrow> u64 \<Rightarrow> tref list \<Rightarrow> tref list" where
  "beyond s tv \<equiv> dropWhile (\<lambda>t. t_expire (tims s t) \<le> tv)"

lemma beyond_late:
  "sl_list s c lv ts \<Longrightarrow> t \<in> set (beyond s tv ts) \<Longrightarrow> tv < t_expire (tims s t)"
  using sorted_takeWhile_filter(2) [of "\<lambda>t. t_expire (tims s t)" ts tv, symmetric]
  by (auto simp: sl_list_def)

lemma due_early: "t \<in> set (due s tv ts) \<Longrightarrow> t \<in> set ts \<and> t_expire (tims s t) \<le> tv"
  by (auto dest: set_takeWhileD)

lemma sl_list_split:
  "sl_list s c lv ts \<Longrightarrow> lpath (node_next s c l) None
     (filter (\<lambda>t. l \<le> lv t) (due s tv ts) @ filter (\<lambda>t. l \<le> lv t) (beyond s tv ts))"
  unfolding sl_list_def filter_split_at by blast

lemma prev_levels_path:
  assumes L: "sl_list s c lv ts"
  shows "prev lvl = last_node None (filter (\<lambda>t. lvl \<le> lv t) (due s tv ts))
    \<Longrightarrow> \<exists>prev'. prev_levels s c tv lvl prev = Some prev'
      \<and> (\<forall>l<lvl. prev' l = last_node None (filter (\<lambda>t. l \<le> lv t) (due s tv ts)))
      \<and> (\<forall>l\<ge>lvl. prev' l = prev l)"
proof (induction lvl arbitrary: prev)
  case 0
  then show ?case by simp
next
  case (Suc lvl)
  let ?xs = "filter (\<lambda>t. lvl \<le> lv t) (due s tv ts)"
  let ?ys = "filter (\<lambda>t. lvl \<le> lv t) (beyond s tv ts)"
  have stop: "?ys = [] \<or> \<not> t_expire (tims s (hd ?ys)) \<le> tv"
    using beyond_late [OF L, of "hd ?ys" tv] hd_in_set [of ?ys] by (force simp: not_le)
  have "prev (Suc lvl) = None \<or> prev (Suc lvl) \<in> Some ` set ?xs"
    using Suc.prems last_node_cases [of None "filter (\<lambda>t. Suc lvl \<le> lv t) (due s tv ts)"] by auto
  then have walk: "sl_walk (node_next s c lvl) (\<lambda>t. t_expire (tims s t) \<le> tv) (prev (Suc lvl))
      = Some (last_node None ?xs)"
    using sl_list_split [OF L, of lvl tv] stop
    by (intro sl_walk_from [of _ ?xs ?ys]) (auto dest: set_takeWhileD)
  have "\<exists>prev'. prev_levels s c tv lvl (prev(lvl := last_node None ?xs)) = Some prev'
      \<and> (\<forall>l<lvl. prev' l = last_node None (filter (\<lambda>t. l \<le> lv t) (due s tv ts)))
      \<and> (\<forall>l\<ge>lvl. prev' l = (prev(lvl := last_node None ?xs)) l)"
    by (rule Suc.IH) simp
  then obtain prev' where
    "prev_levels s c tv lvl (prev(lvl := last_node None ?xs)) = Some prev'"
    "\<forall>l<lvl. prev' l = last_node None (filter (\<lambda>t. l \<le> lv t) (due s tv ts))"
    "\<forall>l\<ge>lvl. prev' l = (prev(lvl := last_node None ?xs)) l" by blast
  then show ?case using walk by (auto simp: less_Suc_eq)
qed

lemma no_level_above: "sl_depth lv ts d \<Longrightarrow> d \<le> l \<Longrightarrow> set us \<subseteq> set ts \<Longrightarrow> filter (\<lambda>t. l \<le> lv t) us = []"
  unfolding sl_depth_def filter_empty_conv by (metis leD order_trans subsetD)

lemma timer_get_prev_entries_list:
  assumes L: "sl_list s c lv ts" and D: "sl_depth lv ts (curr_skiplist_depth (privs s c))"
  shows "\<exists>prev. timer_get_prev_entries tv c s = Some prev
    \<and> (\<forall>l. prev l = last_node None (filter (\<lambda>t. l \<le> lv t) (due s tv ts)))"
proof -
  let ?d = "curr_skiplist_depth (privs s c)"
  have none: "last_node None (filter (\<lambda>t. l \<le> lv t) (due s tv ts)) = None" if "?d \<le> l" for l
    using no_level_above [OF D that, of "due s tv ts"] by (auto dest: set_takeWhileD)
  from prev_levels_path [OF L, of "\<lambda>_. None" ?d tv] none obtain prev where
    "timer_get_prev_entries tv c s = Some prev"
    "\<forall>l<?d. prev l = last_node None (filter (\<lambda>t. l \<le> lv t) (due s tv ts))" "\<forall>l\<ge>?d. prev l = None"
    unfolding timer_get_prev_entries_def by auto
  then show ?thesis using none by (metis not_le)
qed

lemma prev_levels_for_node_ok:
  assumes "\<And>i. i < k \<Longrightarrow> \<exists>y. sl_walk (node_next s c i)
      (\<lambda>t. t \<noteq> tim \<and> t_expire (tims s t) \<le> t_expire (tims s tim)) (prev i) = Some y \<and> R i y"
  shows "\<exists>prev'. prev_levels_for_node s c tim k prev = Some prev'
    \<and> (\<forall>i<k. R i (prev' i)) \<and> (\<forall>i\<ge>k. prev' i = prev i)"
  using assms
proof (induction k arbitrary: prev)
  case 0
  then show ?case by simp
next
  case (Suc k)
  obtain y where y: "sl_walk (node_next s c k)
      (\<lambda>t. t \<noteq> tim \<and> t_expire (tims s t) \<le> t_expire (tims s tim)) (prev k) = Some y" "R k y"
    using Suc.prems by blast
  have "\<exists>prev'. prev_levels_for_node s c tim k (prev(k := y)) = Some prev'
    \<and> (\<forall>i<k. R i (prev' i)) \<and> (\<forall>i\<ge>k. prev' i = (prev(k := y)) i)"
    using Suc.prems by (intro Suc.IH) (auto simp: less_Suc_eq)
  then show ?case using y by (auto simp: less_Suc_eq)
qed

text \<open>For a timer of the list the second search finds the node before it at each of its levels.\<close>

lemma for_node_found:
  assumes L: "sl_list s c lv (xs @ t # ys)" and D: "sl_depth lv (xs @ t # ys) (curr_skiplist_depth (privs s c))"
    and e: "t_expire (tims s t) \<noteq> 0"
  shows "\<exists>prev. timer_get_prev_entries_for_node t c s = Some prev
    \<and> (\<forall>i<curr_skiplist_depth (privs s c).
         prev i = None \<or> prev i \<in> Some ` set (filter (\<lambda>x. i \<le> lv x) (xs @ t # ys)))
    \<and> (\<forall>i<curr_skiplist_depth (privs s c). i \<le> lv t \<longrightarrow> prev i = last_node None (filter (\<lambda>x. i \<le> lv x) xs))
    \<and> (\<forall>i\<ge>curr_skiplist_depth (privs s c). prev i = None)"
proof -
  let ?d = "curr_skiplist_depth (privs s c)" and ?ts = "xs @ t # ys" and ?e = "t_expire (tims s t)"
  let ?f = "\<lambda>i. filter (\<lambda>x. i \<le> lv x)"
  obtain prev where prev: "timer_get_prev_entries (?e - 1) c s = Some prev"
    "\<And>l. prev l = last_node None (?f l (due s (?e - 1) ?ts))"
    using timer_get_prev_entries_list [OF L D] by blast
  have less: "x \<le> ?e - 1 \<longleftrightarrow> x < ?e" for x
    using e by (metis less_eq_dec_iff word_gt_0 linorder_not_le)
  have "due s (?e - 1) ?ts = takeWhile (\<lambda>x. t_expire (tims s x) < ?e) xs"
    unfolding less by (rule takeWhile_tail) simp
  then have before: "set (due s (?e - 1) ?ts) \<subseteq> set xs"
    by (auto dest: set_takeWhileD)
  have path: "lpath (node_next s c i) None (?f i ?ts)" for i
    using L by (simp add: sl_list_def)
  have on: "prev i = None \<or> prev i \<in> Some ` set (?f i xs)" for i
    using before last_node_cases [of None "?f i (due s (?e - 1) ?ts)"] unfolding prev(2) by auto
  have xs_le: "t_expire (tims s x) \<le> ?e" "x \<noteq> t" if "x \<in> set xs" for x
    using L that by (auto simp: sl_list_def sorted_append)
  define R where "R i y \<longleftrightarrow> (y = None \<or> y \<in> Some ` set (?f i ?ts))
      \<and> (i \<le> lv t \<longrightarrow> y = last_node None (?f i xs))" for i y
  have "\<exists>y. sl_walk (node_next s c i) (\<lambda>x. x \<noteq> t \<and> t_expire (tims s x) \<le> ?e) (prev i) = Some y \<and> R i y"
    if "i < ?d" for i
  proof (cases "i \<le> lv t")
    case True
    have "sl_walk (node_next s c i) (\<lambda>x. x \<noteq> t \<and> t_expire (tims s x) \<le> ?e) (prev i)
        = Some (last_node None (?f i xs))"
      using path [of i] on [of i] True xs_le
      by (intro sl_walk_from [of _ _ "t # ?f i ys"]) auto
    then show ?thesis
      using last_node_cases [of None "?f i xs"] by (auto simp: R_def)
  next
    case False
    then show ?thesis
      using sl_walk_stays [OF path [of i], of "prev i"] on [of i] by (force simp: R_def)
  qed
  from prev_levels_for_node_ok [where R = R and k = ?d, OF this] obtain prev' where
    "timer_get_prev_entries_for_node t c s = Some prev'" "\<forall>i<?d. R i (prev' i)" "\<forall>i\<ge>?d. prev' i = prev i"
    using prev(1) unfolding timer_get_prev_entries_for_node_def by auto
  moreover have "prev i = None" if "?d \<le> i" for i
    using on [of i] no_level_above [OF D that, of xs] by (auto simp: subset_iff)
  ultimately show ?thesis by (intro exI [of _ prev']) (auto simp: R_def)
qed

text \<open>For a timer outside the list the search returns as well, before no link to it.\<close>

lemma for_node_absent:
  assumes L: "sl_list s c lv ts" and D: "sl_depth lv ts (curr_skiplist_depth (privs s c))" and t: "t \<notin> set ts"
  shows "\<exists>prev. timer_get_prev_entries_for_node t c s = Some prev
    \<and> (\<forall>i<curr_skiplist_depth (privs s c). node_next s c i (prev i) \<noteq> Some t)"
proof -
  let ?f = "\<lambda>i. filter (\<lambda>x. i \<le> lv x)"
  obtain prev where prev: "timer_get_prev_entries (t_expire (tims s t) - 1) c s = Some prev"
    "\<And>l. prev l = last_node None (?f l (due s (t_expire (tims s t) - 1) ts))"
    using timer_get_prev_entries_list [OF L D] by blast
  have path: "lpath (node_next s c i) None (?f i ts)" for i
    using L by (simp add: sl_list_def)
  have on: "prev i = None \<or> prev i \<in> Some ` set (?f i ts)" for i
    using last_node_cases [of None "?f i (due s (t_expire (tims s t) - 1) ts)"] unfolding prev(2)
    by (auto dest: set_takeWhileD)
  have "\<exists>y. sl_walk (node_next s c i) (\<lambda>x. x \<noteq> t \<and> t_expire (tims s x) \<le> t_expire (tims s t)) (prev i) = Some y
      \<and> node_next s c i y \<noteq> Some t" for i
  proof -
    obtain y where "sl_walk (node_next s c i)
        (\<lambda>x. x \<noteq> t \<and> t_expire (tims s x) \<le> t_expire (tims s t)) (prev i) = Some y"
      "y = None \<or> y \<in> Some ` set (?f i ts)"
      using sl_walk_stays [OF path [of i] on [of i]] by blast
    moreover from lpath_next_in [OF path [of i] this(2)] have "node_next s c i y \<noteq> Some t"
      using t by auto
    ultimately show ?thesis by blast
  qed
  from prev_levels_for_node_ok [where R = "\<lambda>i y. node_next s c i y \<noteq> Some t"
      and k = "curr_skiplist_depth (privs s c)", OF this] show ?thesis
    using prev(1) unfolding timer_get_prev_entries_for_node_def by auto
qed

section \<open>Adding, unlinking, cutting\<close>

lemma links_onlyD:
  assumes "links_only c T s s'"
  shows "t_expire (tims s' x) = t_expire (tims s x)" "t_state (tims s' x) = t_state (tims s x)"
    "t_owner (tims s' x) = t_owner (tims s x)"
  using assms truncate_eqD(1) [of "tims s' x" "tims s x"] unfolding links_only_def by auto

lemma first_expire_path:
  "sl_list s c lv ts \<Longrightarrow> head_next (privs s c) 0 = (if ts = [] then None else Some (hd ts))
     \<and> first_expire c s = (if ts = [] then 0 else t_expire (tims s (hd ts)))"
  unfolding sl_list_def first_expire_def
  by (drule conjunct1, drule spec [of _ 0]) (auto dest!: lpath_hd simp: node_next_def)

lemma skiplist_level_le:
  "timer_get_skiplist_level d r \<le> d \<and> timer_get_skiplist_level d r < MAX_SKIPLIST_DEPTH"
  by (auto simp: timer_get_skiplist_level_def Let_def MAX_SKIPLIST_DEPTH_def)

theorem timer_add_inserts:
  assumes L: "sl_list s c lv ts" and D: "sl_depth lv ts (curr_skiplist_depth (privs s c))" and t: "t \<notin> set ts"
  defines "ts' \<equiv> insert_after (\<lambda>x. t_expire (tims s x)) t ts"
  shows "\<exists>s' k. timer_add t c s = Some s' \<and> sl_list s' c (lv(t := k)) ts'
    \<and> sl_depth (lv(t := k)) ts' (curr_skiplist_depth (privs s' c))
    \<and> head_expire (privs s' c) = first_expire c s' \<and> links_only c (insert t (set ts)) s s'"
proof -
  let ?d = "curr_skiplist_depth (privs s c)" and ?e = "t_expire (tims s t)"
  let ?f = "\<lambda>i. filter (\<lambda>x. i \<le> lv x)"
  define k where "k = timer_get_skiplist_level ?d (rands s (rand_pos s))"
  have k: "k \<le> ?d" "k < MAX_SKIPLIST_DEPTH" using skiplist_level_le unfolding k_def by auto
  obtain prev where prev: "timer_get_prev_entries ?e c s = Some prev"
    "\<And>l. prev l = last_node None (?f l (due s ?e ts))"
    using timer_get_prev_entries_list [OF L D] by blast
  have on: "prev l \<in> insert None (Some ` set ts)" for l
    using last_node_cases [of None "?f l (due s ?e ts)"] unfolding prev(2) by (auto dest: set_takeWhileD)
  have pt: "prev l \<noteq> Some t" for l using on [of l] t by auto
  define s1 where "s1 = s\<lparr>rand_pos := rand_pos s + 1\<rparr>"
  define s2 where "s2 = (if k = ?d then upd_priv c (\<lambda>p. p\<lparr>curr_skiplist_depth := ?d + 1\<rparr>) s1 else s1)"
  define s3 where "s3 = link_levels c prev t k s2"
  define s4 where "s4 = upd_priv c (\<lambda>p. p\<lparr>head_expire := first_expire c s3\<rparr>) s3"
  have run: "timer_add t c s = Some s4"
    using prev(1) by (simp add: timer_add_def k_def s1_def s2_def s3_def s4_def Let_def)
  have "links_only c (insert t (set ts)) s2 s3"
    unfolding s3_def using on by (intro link_levels_only) blast+
  moreover have "links_only c (insert t (set ts)) s s2"
    unfolding s2_def s1_def by (auto intro: links_only_trans [OF links_only_upd(3) links_only_upd(2)] links_only_upd)
  ultimately have only: "links_only c (insert t (set ts)) s s4"
    unfolding s4_def by (elim links_only_trans) (intro links_only_upd_priv, simp)
  have "node_next s2 = node_next s" by (simp add: s2_def s1_def)
  then have nx: "node_next s4 c l = (if l \<le> k
      then (node_next s c l)(Some t := node_next s c l (prev l), prev l := Some t) else node_next s c l)" for l
    by (simp add: s4_def s3_def node_next_link_levels [OF pt])
  have "lpath (node_next s4 c l) None (filter (\<lambda>x. l \<le> (lv(t := k)) x) ts')" for l
  proof (cases "l \<le> k")
    case True
    then show ?thesis
      using lpath_insert [OF sl_list_split [OF L, of l ?e], of t] L t
      unfolding ts'_def filter_insert_after [OF t] nx prev(2) filter_split_at by (simp add: sl_list_def)
  next
    case False
    then show ?thesis
      using sl_list_split [OF L, of l ?e] unfolding ts'_def filter_insert_after [OF t] nx by simp
  qed
  then have "sl_list s4 c (lv(t := k)) ts'"
    using L t sorted_insert_after [of "\<lambda>x. t_expire (tims s x)" ts t]
    by (simp add: sl_list_def ts'_def links_onlyD [OF only])
  moreover have "curr_skiplist_depth (privs s4 c) = (if k = ?d then ?d + 1 else ?d)"
  proof -
    have "curr_skiplist_depth (privs s3 c) = curr_skiplist_depth (privs s2 c)" for c
      unfolding s3_def by (induction k arbitrary: s2) (simp_all add: link_level_def Let_def)
    then show ?thesis by (simp add: s4_def s2_def s1_def upd_priv_def)
  qed
  then have "sl_depth (lv(t := k)) ts' (curr_skiplist_depth (privs s4 c))"
    using D k t unfolding sl_depth_def ts'_def by (auto simp: less_Suc_eq)
  moreover have "head_expire (privs s4 c) = first_expire c s4"
    by (simp add: s4_def upd_priv_def first_expire_def split: option.split)
  ultimately show ?thesis using run only by blast
qed

text \<open>Lowering the depth finds the number of levels in use.\<close>

lemma lower_depth_le: "lower_depth h d \<le> d"
  by (induction d) auto

lemma lower_depth_levels:
  "(\<And>l. l < d \<Longrightarrow> (h l \<noteq> None) = E l) \<Longrightarrow> (\<And>l m. E m \<Longrightarrow> l \<le> m \<Longrightarrow> E l) \<Longrightarrow> (\<And>l. d \<le> l \<Longrightarrow> \<not> E l)
   \<Longrightarrow> l < lower_depth h d \<longleftrightarrow> E l"
proof (induction d)
  case 0
  then show ?case by simp
next
  case (Suc d)
  show ?case
  proof (cases "E d")
    case True
    then have "h d \<noteq> None" using Suc.prems(1) by simp
    moreover have "E l \<longleftrightarrow> l < Suc d" using True Suc.prems(2,3) by (metis less_Suc_eq_le not_less)
    ultimately show ?thesis by auto
  next
    case False
    then have "h d = None" using Suc.prems(1) by blast
    moreover have "l < lower_depth h d \<longleftrightarrow> E l"
    proof (rule Suc.IH)
      show "\<not> E l" if "d \<le> l" for l using that False Suc.prems(3) by (metis Suc_leI le_neq_implies_less)
    qed (use Suc.prems in auto)
    ultimately show ?thesis by simp
  qed
qed

lemma links_only_del_expire:
  "links_only c T s (if b then upd_priv c (\<lambda>p. p\<lparr>head_expire := e\<rparr>) s else s)"
  by (auto intro: links_only_upd_priv)

text \<open>The list after the first step of \<open>timer_unlink\<close>, which only writes the head's expiry time.\<close>

lemma sl_list_cong:
  "node_next s' c = node_next s c \<Longrightarrow> (\<And>t. t_expire (tims s' t) = t_expire (tims s t))
   \<Longrightarrow> sl_list s' c lv ts = sl_list s c lv ts"
  by (simp add: sl_list_def)

definition del_expire :: "tref \<Rightarrow> nat \<Rightarrow> timers \<Rightarrow> timers" where
  "del_expire tim c s = (if head_next (privs s c) 0 = Some tim
     then upd_priv c (\<lambda>p. p\<lparr>head_expire :=
            (case sl_next (tims s tim) 0 of None \<Rightarrow> 0 | Some n \<Rightarrow> t_expire (tims s n))\<rparr>) s
     else s)"

lemma del_expire_facts:
  "node_next (del_expire t c s) = node_next s" "tims (del_expire t c s) = tims s"
  "curr_skiplist_depth (privs (del_expire t c s) c) = curr_skiplist_depth (privs s c)"
  "links_only c T s (del_expire t c s)"
  by (simp_all add: del_expire_def node_next_upd_priv links_only_upd_priv)
     (simp_all add: upd_priv_def)

lemma timer_unlink_steps:
  "timer_unlink t c s = do {
     prev \<leftarrow> timer_get_prev_entries_for_node t c (del_expire t c s);
     let s = unlink_levels c prev t (curr_skiplist_depth (privs s c)) (del_expire t c s);
     Some (upd_priv c (\<lambda>p. p\<lparr>curr_skiplist_depth := lower_depth (head_next p) (curr_skiplist_depth p)\<rparr>) s) }"
  by (simp add: timer_unlink_def Let_def del_expire_facts flip: del_expire_def)

lemma unlink_levels_fields:
  "curr_skiplist_depth (privs (unlink_levels c prev t k s) d) = curr_skiplist_depth (privs s d)"
  "head_expire (privs (unlink_levels c prev t k s) d) = head_expire (privs s d)"
  by (induction k arbitrary: s) (auto simp: unlink_level_def)

theorem timer_unlink_removes:
  assumes L: "sl_list s c lv (xs @ t # ys)" and D: "sl_depth lv (xs @ t # ys) (curr_skiplist_depth (privs s c))"
    and e: "t_expire (tims s t) \<noteq> 0" and H: "head_expire (privs s c) = first_expire c s"
  shows "\<exists>s'. timer_unlink t c s = Some s' \<and> sl_list s' c lv (xs @ ys)
    \<and> sl_depth lv (xs @ ys) (curr_skiplist_depth (privs s' c))
    \<and> head_expire (privs s' c) = first_expire c s' \<and> links_only c (set (xs @ t # ys)) s s'"
proof -
  let ?d = "curr_skiplist_depth (privs s c)" and ?ts = "xs @ t # ys"
  let ?f = "\<lambda>i. filter (\<lambda>x. i \<le> lv x)"
  define s1 where "s1 = del_expire t c s"
  note s1 = del_expire_facts [where t = t and c = c and s = s, folded s1_def]
  have L1: "sl_list s1 c lv ?ts" using L sl_list_cong [of s1 c s] s1 by simp
  obtain prev where prev: "timer_get_prev_entries_for_node t c s1 = Some prev"
    "\<And>i. i < ?d \<Longrightarrow> prev i = None \<or> prev i \<in> Some ` set (?f i ?ts)"
    "\<And>i. i < ?d \<Longrightarrow> i \<le> lv t \<Longrightarrow> prev i = last_node None (?f i xs)" "\<And>i. ?d \<le> i \<Longrightarrow> prev i = None"
    using for_node_found [OF L1] D e s1 by auto
  have on: "prev i \<in> insert None (Some ` set ?ts)" for i
    using prev(2,4) [of i] filter_is_subset [of "\<lambda>x. i \<le> lv x" ?ts] by (cases "i < ?d") (blast, simp)
  define s2 where "s2 = unlink_levels c prev t ?d s1"
  define s3 where "s3 = upd_priv c (\<lambda>p. p\<lparr>curr_skiplist_depth :=
      lower_depth (head_next p) (curr_skiplist_depth p)\<rparr>) s2"
  have run: "timer_unlink t c s = Some s3"
    using prev(1) by (simp add: timer_unlink_steps s1_def s2_def s3_def Let_def)
  have "links_only c (set ?ts) s1 s2"
    unfolding s2_def using on by (intro unlink_levels_only) blast
  then have "links_only c (set ?ts) s s2"
    using s1(4) links_only_trans by blast
  then have only: "links_only c (set ?ts) s s3"
    unfolding s3_def by (elim links_only_trans) (intro links_only_upd_priv, simp)
  have nx: "node_next s3 c i = (if i < ?d \<and> node_next s c i (prev i) = Some t
       then (node_next s c i)(prev i := node_next s c i (Some t)) else node_next s c i)" for i
    by (simp add: s3_def s2_def node_next_unlink_levels s1)
  have p0: "lpath (node_next s c i) None (?f i ?ts)" for i
    using L unfolding sl_list_def by blast
  have path: "lpath (node_next s3 c i) None (?f i (xs @ ys))" for i
  proof (cases "i < ?d \<and> i \<le> lv t")
    case True
    have "lpath (node_next s c i) None (?f i xs @ t # ?f i ys)"
      using p0 [of i] True by simp
    moreover from lpath_after [OF this] True have "node_next s c i (prev i) = Some t"
      by (simp add: prev(3))
    moreover have "distinct (?f i xs @ t # ?f i ys)"
      using L unfolding sl_list_def by auto
    ultimately have "lpath ((node_next s c i)(last_node None (?f i xs) := node_next s c i (Some t))) None
        (?f i xs @ ?f i ys)"
      by (intro lpath_remove) auto
    then show ?thesis
      using \<open>node_next s c i (prev i) = Some t\<close> True prev(3) unfolding nx by simp
  next
    case False
    then have f: "?f i ?ts = ?f i (xs @ ys)"
      using no_level_above [OF D, of i ?ts] no_level_above [OF D, of i "xs @ ys"] by auto
    have p: "lpath (node_next s c i) None (?f i (xs @ ys))"
      using p0 [of i] unfolding f .
    have "node_next s c i (prev i) \<noteq> Some t" if "i < ?d"
      using lpath_next_in [OF p, of "prev i"] prev(2) [OF that] f L by (auto simp: sl_list_def)
    then show ?thesis using p unfolding nx by auto
  qed
  then have L3: "sl_list s3 c lv (xs @ ys)"
    using L links_onlyD [OF only] by (auto simp: sl_list_def sorted_append)
  have "head_next (privs s3 c) i = None \<longleftrightarrow> ?f i (xs @ ys) = []" for i
    using lpath_hd [OF path [of i]] by (auto simp: node_next_def)
  then have "(head_next (privs s2 c) i \<noteq> None) = (\<exists>x\<in>set (xs @ ys). i \<le> lv x)" for i
    by (auto simp: s3_def upd_priv_def filter_empty_conv)
  then have "l < lower_depth (head_next (privs s2 c)) ?d \<longleftrightarrow> (\<exists>x\<in>set (xs @ ys). l \<le> lv x)" for l
    using D by (intro lower_depth_levels) (auto simp: sl_depth_def intro: order_trans)
  moreover have "curr_skiplist_depth (privs s3 c) = lower_depth (head_next (privs s2 c)) ?d"
    by (simp add: s3_def upd_priv_def s2_def unlink_levels_fields s1)
  ultimately have D3: "sl_depth lv (xs @ ys) (curr_skiplist_depth (privs s3 c))"
    using D lower_depth_le [of "head_next (privs s2 c)" ?d] by (auto simp: sl_depth_def)
  have "sl_next (tims s t) 0 = (if ys = [] then None else Some (hd ys))"
    using lpath_after [of "node_next s c 0" None xs t ys] lpath_hd [of "node_next s c 0" "Some t" ys] p0 [of 0]
    by (simp add: node_next_def)
  moreover have "head_expire (privs s3 c) = head_expire (privs s1 c)"
    by (simp add: s3_def s2_def upd_priv_def unlink_levels_fields)
  ultimately have "head_expire (privs s3 c) = first_expire c s3"
    using first_expire_path [OF L] first_expire_path [OF L3] H links_onlyD [OF only] L
    by (cases xs) (auto simp: s1_def del_expire_def upd_priv_def sl_list_def)
  then show ?thesis using run L3 D3 only by blast
qed

text \<open>For a timer outside the list, \<open>timer_unlink\<close> changes nothing.\<close>

theorem timer_unlink_absent:
  assumes L: "sl_list s c lv ts" and D: "sl_depth lv ts (curr_skiplist_depth (privs s c))" and t: "t \<notin> set ts"
  shows "timer_unlink t c s = Some s"
proof -
  have "head_next (privs s c) 0 \<noteq> Some t"
    using first_expire_path [OF L] t by auto
  then have s1: "del_expire t c s = s" by (simp add: del_expire_def)
  obtain prev where prev: "timer_get_prev_entries_for_node t c s = Some prev"
    "\<And>i. i < curr_skiplist_depth (privs s c) \<Longrightarrow> node_next s c i (prev i) \<noteq> Some t"
    using for_node_absent [OF L D t] by blast
  have "unlink_levels c prev t k s = s" if "k \<le> curr_skiplist_depth (privs s c)" for k
    using that prev(2) by (induction k) (auto simp: unlink_level_def)
  moreover have "(head_next (privs s c) i \<noteq> None) = (\<exists>x\<in>set ts. i \<le> lv x)" for i
  proof -
    have "lpath (node_next s c i) None (filter (\<lambda>t. i \<le> lv t) ts)" using L unfolding sl_list_def by blast
    from lpath_hd [OF this] show ?thesis by (auto simp: node_next_def filter_empty_conv)
  qed
  then have "l < lower_depth (head_next (privs s c)) (curr_skiplist_depth (privs s c))
      \<longleftrightarrow> (\<exists>x\<in>set ts. l \<le> lv x)" for l
    using D by (intro lower_depth_levels) (auto simp: sl_depth_def intro: order_trans)
  then have "l < lower_depth (head_next (privs s c)) (curr_skiplist_depth (privs s c))
      \<longleftrightarrow> l < curr_skiplist_depth (privs s c)" for l
    using D by (simp add: sl_depth_def)
  then have "lower_depth (head_next (privs s c)) (curr_skiplist_depth (privs s c)) = curr_skiplist_depth (privs s c)"
    by (meson less_irrefl linorder_neqE_nat)
  ultimately show ?thesis
    using prev(1) by (simp add: timer_unlink_steps s1 upd_priv_def)
qed

text \<open>The cut at a time.\<close>

lemma cut_levels_fields:
  "curr_skiplist_depth (privs (cut_levels c prev k s) c)
     = curr_skiplist_depth (privs s c) - card {m. m < k \<and> prev m \<noteq> None \<and> node_next s c m (prev m) = None}"
proof (induction k arbitrary: s)
  case 0
  then show ?case by simp
next
  case (Suc k)
  let ?C = "\<lambda>m. prev m \<noteq> None \<and> node_next s c m (prev m) = None"
  have "node_next (cut_level c prev k s) c m = node_next s c m" if "m < k" for m
    using that by (auto simp: cut_level_def Let_def node_next_set_next_same)
  then have "{m. m < k \<and> prev m \<noteq> None \<and> node_next (cut_level c prev k s) c m (prev m) = None} = {m. m < k \<and> ?C m}"
    by auto
  moreover have "curr_skiplist_depth (privs (cut_level c prev k s) c)
      = curr_skiplist_depth (privs s c) - (if ?C k then 1 else 0)"
    by (simp add: cut_level_def Let_def upd_priv_def)
  moreover have "{m. m < Suc k \<and> ?C m} = (if ?C k then insert k {m. m < k \<and> ?C m} else {m. m < k \<and> ?C m})"
    by (auto simp: less_Suc_eq)
  ultimately show ?case using Suc by simp
qed

lemma sl_levels_exist: "\<exists>d::nat. \<forall>l. l < d \<longleftrightarrow> (\<exists>t\<in>set ts. l \<le> lv t)"
proof (cases "ts = []")
  case True
  then show ?thesis by (intro exI [of _ 0]) simp
next
  case False
  then have "(\<exists>t\<in>set ts. l \<le> lv t) \<longleftrightarrow> l \<le> Max (lv ` set ts)" for l
    by (simp add: Max_ge_iff)
  then show ?thesis by (intro exI [of _ "Suc (Max (lv ` set ts))"]) (auto simp: less_Suc_eq_le)
qed

lemma cut_depth:
  assumes D: "sl_depth lv ts d" and sub: "set us \<subseteq> set ts"
  shows "sl_depth lv us (d - card {m. m < d \<and> \<not> (\<exists>t\<in>set us. m \<le> lv t)})"
proof -
  obtain d' where d': "\<And>l. l < d' \<longleftrightarrow> (\<exists>t\<in>set us. l \<le> lv t)" using sl_levels_exist by blast
  have "d' \<le> d"
    using D sub d' unfolding sl_depth_def by (meson not_less subsetD less_irrefl)
  moreover have "{m. m < d \<and> \<not> (\<exists>t\<in>set us. m \<le> lv t)} = {d'..<d}"
    unfolding d' [symmetric] by auto
  ultimately show ?thesis using D d' by (simp add: sl_depth_def)
qed

theorem cut_levels_splits:
  assumes L: "sl_list s c lv ts" and D: "sl_depth lv ts (curr_skiplist_depth (privs s c))"
    and ne: "due s tv ts \<noteq> []"
    and prev: "timer_get_prev_entries tv c s = Some prev"
  defines "s' \<equiv> cut_levels c prev (curr_skiplist_depth (privs s c)) s"
  shows "sl_list s' c lv (beyond s tv ts)" and "sl_depth lv (beyond s tv ts) (curr_skiplist_depth (privs s' c))"
    and "lpath (\<lambda>x. sl_next (tims s' (the x)) 0) (Some (hd (due s tv ts))) (tl (due s tv ts))"
    and "links_only c (set ts) s s'"
proof -
  let ?d = "curr_skiplist_depth (privs s c)"
  let ?f = "\<lambda>i. filter (\<lambda>x. i \<le> lv x)" and ?us = "due s tv ts" and ?bs = "beyond s tv ts"
  have p: "prev l = last_node None (?f l ?us)" for l
    using timer_get_prev_entries_list [OF L D, of tv] prev by auto
  have "prev l \<in> insert None (Some ` set ts)" for l
    using last_node_cases [of None "?f l ?us"] unfolding p by (auto dest: set_takeWhileD)
  then show only: "links_only c (set ts) s s'"
    unfolding s'_def by (intro cut_levels_only) blast
  have dist: "distinct (?f l ?us @ ?f l ?bs)" for l
    using L unfolding filter_split_at sl_list_def by simp
  have nx: "node_next s' c l = (if l < ?d \<and> ?f l ?us \<noteq> []
       then (node_next s c l)(None := node_next s c l (prev l), prev l := None) else node_next s c l)" for l
    by (simp add: s'_def node_next_cut_levels p)
  have none: "?f l ?us = []" if "?d \<le> l" for l
    using no_level_above [OF D that, of ?us] by (auto dest: set_takeWhileD)
  have cut: "lpath (node_next s' c l) None (?f l ?bs)
      \<and> (?f l ?us \<noteq> [] \<longrightarrow> lpath (node_next s' c l) (Some (hd (?f l ?us))) (tl (?f l ?us)))" for l
  proof (cases "?f l ?us")
    case Nil
    then show ?thesis using sl_list_split [OF L, of l tv] by (simp add: nx)
  next
    case (Cons a us)
    then have "l < ?d" using none [of l] by (metis list.distinct(1) not_le)
    then show ?thesis
      using lpath_cut [of "node_next s c l" None a us "?f l ?bs"] sl_list_split [OF L, of l tv] dist [of l] Cons
      by (simp add: nx p)
  qed
  show "sl_list s' c lv ?bs"
    using L cut links_onlyD [OF only] sorted_takeWhile_filter(2) [of "\<lambda>t. t_expire (tims s t)" ts tv, symmetric]
    by (auto simp: sl_list_def sorted_filter)
  have "lpath (node_next s' c 0) (Some (hd ?us)) (tl ?us)" using cut [of 0] ne by simp
  then show "lpath (\<lambda>x. sl_next (tims s' (the x)) 0) (Some (hd ?us)) (tl ?us)"
    by (subst lpath_cong) (auto simp: node_next_def)
  have "{m. m < ?d \<and> prev m \<noteq> None \<and> node_next s c m (prev m) = None}
      = {m. m < ?d \<and> \<not> (\<exists>t\<in>set ?bs. m \<le> lv t)}"
  proof -
    have "prev m \<noteq> None \<and> node_next s c m (prev m) = None \<longleftrightarrow> \<not> (\<exists>t\<in>set ?bs. m \<le> lv t)" if "m < ?d" for m
    proof -
      have "node_next s c m (prev m) = None \<longleftrightarrow> ?f m ?bs = []"
        using lpath_hd [OF lpath_suffix [OF sl_list_split [OF L, of m tv]]] by (simp add: p)
      moreover have "?f m ?us @ ?f m ?bs \<noteq> []"
        using D that unfolding sl_depth_def filter_split_at by (auto simp: filter_empty_conv)
      ultimately show ?thesis by (auto simp: p filter_empty_conv)
    qed
    then show ?thesis by blast
  qed
  then show "sl_depth lv ?bs (curr_skiplist_depth (privs s' c))"
    using cut_depth [OF D, of ?bs] unfolding s'_def cut_levels_fields by (simp add: set_dropWhileD subset_iff)
qed

end
