(* ===== verification/Timer_Spec.thy ===== *)
theory Timer_Spec
  imports Timer_Skip
begin

text \<open>
  What the timer library promises, without pointers and levels: every lcore has a queue of pending
  timers ordered by expiry time, timers of equal time in the order they were set.  A reset puts the
  timer into a queue after those that expire no later, a stop takes it out, and a management pass
  runs the due prefix of the caller's queue.  \<open>None\<close> marks the uses outside the contract: an expiry
  time of 0 (which \<open>timer_del\<close> cannot find again), an lcore out of range, \<open>rte_timer_init\<close> on a pending
  timer.
\<close>

record queues =
  a_info :: "tref \<Rightarrow> tinfo"
  a_priv :: "nat \<Rightarrow> pinfo"
  a_list :: "nat \<Rightarrow> tref list"

definition upd_info :: "tref \<Rightarrow> (tinfo \<Rightarrow> tinfo) \<Rightarrow> queues \<Rightarrow> queues" where
  "upd_info t g a = a\<lparr>a_info := (a_info a)(t := g (a_info a t))\<rparr>"

definition upd_pinfo :: "nat \<Rightarrow> (pinfo \<Rightarrow> pinfo) \<Rightarrow> queues \<Rightarrow> queues" where
  "upd_pinfo c g a = a\<lparr>a_priv := (a_priv a)(c := g (a_priv a c))\<rparr>"

definition upd_list :: "nat \<Rightarrow> (tref list \<Rightarrow> tref list) \<Rightarrow> queues \<Rightarrow> queues" where
  "upd_list c g a = a\<lparr>a_list := (a_list a)(c := g (a_list a c))\<rparr>"

definition q_expire :: "queues \<Rightarrow> tref \<Rightarrow> u64" where
  "q_expire a = (\<lambda>t. t_expire (a_info a t))"

text \<open>A timer that another lcore configures, or that runs and is not the one whose callback is being
  executed by the caller, cannot be changed.\<close>

definition q_busy :: "nat \<Rightarrow> tref \<Rightarrow> queues \<Rightarrow> bool" where
  "q_busy me t a \<longleftrightarrow>
     t_state (a_info a t) = RTE_TIMER_RUNNING \<and>
       (t_owner (a_info a t) \<noteq> int (me mod 2 ^ 16) \<or> Some t \<noteq> running_tim (a_priv a me))
     \<or> t_state (a_info a t) = RTE_TIMER_CONFIG"

definition q_detach :: "nat \<Rightarrow> tref \<Rightarrow> queues \<Rightarrow> queues" where
  "q_detach me t a =
     (let a = (if t_state (a_info a t) = RTE_TIMER_RUNNING \<and> me < RTE_MAX_LCORE
               then upd_pinfo me (updated_update (\<lambda>_. True)) a else a) in
      if t_state (a_info a t) = RTE_TIMER_PENDING
      then upd_list (nat (t_owner (a_info a t))) (remove1 t) a else a)"

definition q_place :: "tref \<Rightarrow> nat \<Rightarrow> tinfo \<Rightarrow> queues \<Rightarrow> queues" where
  "q_place t c i a = (let a = upd_info t (\<lambda>_. i) a in upd_list c (insert_after (q_expire a) t) a)"

definition q_reset :: "(nat \<Rightarrow> bool) \<Rightarrow> nat \<Rightarrow> tref \<Rightarrow> u64 \<Rightarrow> u64 \<Rightarrow> nat \<Rightarrow> nat \<Rightarrow> queues \<Rightarrow> (int \<times> queues) option" where
  "q_reset en me t ex period tim_lcore f a = do {
     (c, prv) \<leftarrow> pick_lcore en me tim_lcore (\<lambda>c. prev_lcore (a_priv a c));
     let a = a\<lparr>a_priv := (\<lambda>c. (a_priv a c)\<lparr>prev_lcore := prv c\<rparr>)\<rparr>;
     if q_busy me t a then Some (- 1, a)
     else if ex = 0 \<or> RTE_MAX_LCORE \<le> c then None
     else Some (0, q_place t c \<lparr>t_expire = ex, t_state = RTE_TIMER_PENDING, t_owner = int c,
                               t_period = period, t_f = f\<rparr> (q_detach me t a)) }"

definition q_stop :: "nat \<Rightarrow> tref \<Rightarrow> queues \<Rightarrow> int \<times> queues" where
  "q_stop me t a =
     (if q_busy me t a then (- 1, a)
      else (0, upd_info t (\<lambda>i. i\<lparr>t_state := RTE_TIMER_STOP, t_owner := RTE_TIMER_NO_OWNER\<rparr>) (q_detach me t a)))"

primrec q_call :: "(nat \<Rightarrow> bool) \<Rightarrow> nat \<Rightarrow> tcall \<Rightarrow> queues \<Rightarrow> (int \<times> queues) option" where
  "q_call en me (TReset now t ticks ty c f) a =
     q_reset en me t (now + ticks) (if ty = PERIODICAL then ticks else 0) c f a"
| "q_call en me (TStop t) a = Some (q_stop me t a)"

primrec q_calls :: "(nat \<Rightarrow> bool) \<Rightarrow> nat \<Rightarrow> tcall list \<Rightarrow> queues \<Rightarrow> (int list \<times> queues) option" where
  "q_calls en me [] a = Some ([], a)"
| "q_calls en me (op # ops) a = do {
     (r, a) \<leftarrow> q_call en me op a;
     (rs, a) \<leftarrow> q_calls en me ops a;
     Some (r # rs, a) }"

text \<open>After its callback a timer that was not touched stops, or goes back into the queue one period
  after it was due.\<close>

definition q_finish :: "nat \<Rightarrow> tref \<Rightarrow> queues \<Rightarrow> queues option" where
  "q_finish me t a =
     (let i = a_info a t in
      if updated (a_priv a me) then Some a
      else if t_period i = 0 then
        Some (upd_info t (\<lambda>i. i\<lparr>t_state := RTE_TIMER_STOP, t_owner := RTE_TIMER_NO_OWNER\<rparr>) a)
      else if t_expire i + t_period i = 0 then None
      else Some (q_place t me (i\<lparr>t_expire := t_expire i + t_period i, t_state := RTE_TIMER_PENDING,
                                 t_owner := int me\<rparr>) a))"

primrec q_run :: "(nat \<Rightarrow> bool) \<Rightarrow> nat \<Rightarrow> (tref \<Rightarrow> tcall list) \<Rightarrow> tref list \<Rightarrow> queues
    \<Rightarrow> ((tref \<times> int list) list \<times> queues) option" where
  "q_run en me cb [] a = Some ([], upd_pinfo me (running_tim_update (\<lambda>_. None)) a)"
| "q_run en me cb (t # ts) a = do {
     (rs, a) \<leftarrow> q_calls en me (cb t) (upd_pinfo me (\<lambda>p. p\<lparr>updated := False, running_tim := Some t\<rparr>) a);
     a \<leftarrow> q_finish me t a;
     (lg, a) \<leftarrow> q_run en me cb ts a;
     Some ((t, rs) # lg, a) }"

definition q_due :: "queues \<Rightarrow> nat \<Rightarrow> u64 \<Rightarrow> tref list" where
  "q_due a c now = takeWhile (\<lambda>t. q_expire a t \<le> now) (a_list a c)"

definition q_start :: "nat \<Rightarrow> u64 \<Rightarrow> queues \<Rightarrow> queues" where
  "q_start me now a =
     a\<lparr>a_list := (a_list a)(me := dropWhile (\<lambda>t. q_expire a t \<le> now) (a_list a me)),
       a_info := (\<lambda>t. if t \<in> set (q_due a me now)
                      then (a_info a t)\<lparr>t_state := RTE_TIMER_RUNNING, t_owner := int me\<rparr> else a_info a t)\<rparr>"

definition q_manage :: "(nat \<Rightarrow> bool) \<Rightarrow> nat \<Rightarrow> u64 \<Rightarrow> (tref \<Rightarrow> tcall list) \<Rightarrow> queues
    \<Rightarrow> ((tref \<times> int list) list \<times> queues) option" where
  "q_manage en me now cb a =
     (if RTE_MAX_LCORE \<le> me then None
      else if q_due a me now = [] then Some ([], a)
      else q_run en me cb (q_due a me now) (q_start me now a))"

section \<open>Programs\<close>

text \<open>Any sequence of calls by any lcores.\<close>

datatype tevent = EInit tref | ECall nat tcall | EManage nat u64 "tref \<Rightarrow> tcall list"
datatype toutput = ODone | ORet int | ORan "(tref \<times> int list) list"

primrec timer_event :: "(nat \<Rightarrow> bool) \<Rightarrow> tevent \<Rightarrow> timers \<Rightarrow> (toutput \<times> timers) option" where
  "timer_event en (EInit t) s = Some (ODone, rte_timer_init t s)"
| "timer_event en (ECall me op) s = do { (r, s) \<leftarrow> tcall_exec en me op s; Some (ORet r, s) }"
| "timer_event en (EManage me now cb) s = do { (lg, s) \<leftarrow> rte_timer_manage en me now cb s; Some (ORan lg, s) }"

primrec timer_events :: "(nat \<Rightarrow> bool) \<Rightarrow> tevent list \<Rightarrow> timers \<Rightarrow> (toutput list \<times> timers) option" where
  "timer_events en [] s = Some ([], s)"
| "timer_events en (e # es) s = do {
     (o1, s) \<leftarrow> timer_event en e s;
     (os, s) \<leftarrow> timer_events en es s;
     Some (o1 # os, s) }"

primrec q_event :: "(nat \<Rightarrow> bool) \<Rightarrow> tevent \<Rightarrow> queues \<Rightarrow> (toutput \<times> queues) option" where
  "q_event en (EInit t) a =
     (if t_state (a_info a t) = RTE_TIMER_PENDING then None
      else Some (ODone, upd_info t (\<lambda>i. i\<lparr>t_state := RTE_TIMER_STOP, t_owner := RTE_TIMER_NO_OWNER\<rparr>) a))"
| "q_event en (ECall me op) a = do { (r, a) \<leftarrow> q_call en me op a; Some (ORet r, a) }"
| "q_event en (EManage me now cb) a = do { (lg, a) \<leftarrow> q_manage en me now cb a; Some (ORan lg, a) }"

primrec q_events :: "(nat \<Rightarrow> bool) \<Rightarrow> tevent list \<Rightarrow> queues \<Rightarrow> (toutput list \<times> queues) option" where
  "q_events en [] a = Some ([], a)"
| "q_events en (e # es) a = do {
     (o1, a) \<leftarrow> q_event en e a;
     (os, a) \<leftarrow> q_events en es a;
     Some (o1 # os, a) }"

section \<open>The queues stay well formed\<close>

text \<open>A timer is pending exactly when it is in a queue, that of its owner.\<close>

definition queues_wf :: "queues \<Rightarrow> bool" where
  "queues_wf a \<longleftrightarrow>
     (\<forall>c. distinct (a_list a c) \<and> sorted (map (q_expire a) (a_list a c)) \<and> 0 \<notin> q_expire a ` set (a_list a c)) \<and>
     (\<forall>c t. t \<in> set (a_list a c) \<longrightarrow> t_state (a_info a t) = RTE_TIMER_PENDING \<and> t_owner (a_info a t) = int c) \<and>
     (\<forall>t. t_state (a_info a t) = RTE_TIMER_PENDING \<longrightarrow>
        0 \<le> t_owner (a_info a t) \<and> t_owner (a_info a t) < int RTE_MAX_LCORE \<and>
        t \<in> set (a_list a (nat (t_owner (a_info a t)))))"

lemma q_fields [simp]:
  "a_list (upd_info t g a) = a_list a" "a_priv (upd_info t g a) = a_priv a"
  "a_info (upd_info t g a) = (a_info a)(t := g (a_info a t))"
  "a_list (upd_pinfo c p a) = a_list a" "a_info (upd_pinfo c p a) = a_info a"
  "a_priv (upd_pinfo c p a) = (a_priv a)(c := p (a_priv a c))"
  "a_info (upd_list c h a) = a_info a" "a_priv (upd_list c h a) = a_priv a"
  "a_list (upd_list c h a) = (a_list a)(c := h (a_list a c))"
  by (simp_all add: upd_info_def upd_pinfo_def upd_list_def)

lemma sorted_map_cong: "(\<And>x. x \<in> set xs \<Longrightarrow> f x = g x) \<Longrightarrow> sorted (map f xs) = sorted (map g xs)"
  using map_cong by metis

lemma sorted_map_remove1: "sorted (map f xs) \<Longrightarrow> sorted (map f (remove1 t xs))"
  by (induction xs) (auto dest: notin_set_remove1)

lemma queues_wf_priv: "a_info a' = a_info a \<Longrightarrow> a_list a' = a_list a \<Longrightarrow> queues_wf a \<Longrightarrow> queues_wf a'"
  by (simp add: queues_wf_def q_expire_def)

text \<open>The state after \<open>q_detach\<close>, where the timer is in no queue whatever its state says.\<close>

definition wf_but :: "tref \<Rightarrow> queues \<Rightarrow> bool" where
  "wf_but t a \<longleftrightarrow>
     (\<forall>c. distinct (a_list a c) \<and> sorted (map (q_expire a) (a_list a c)) \<and> 0 \<notin> q_expire a ` set (a_list a c)) \<and>
     (\<forall>c x. x \<in> set (a_list a c) \<longrightarrow> x \<noteq> t \<and> t_state (a_info a x) = RTE_TIMER_PENDING \<and> t_owner (a_info a x) = int c) \<and>
     (\<forall>x. x \<noteq> t \<longrightarrow> t_state (a_info a x) = RTE_TIMER_PENDING \<longrightarrow>
        0 \<le> t_owner (a_info a x) \<and> t_owner (a_info a x) < int RTE_MAX_LCORE \<and>
        x \<in> set (a_list a (nat (t_owner (a_info a x)))))"

lemma wf_but_notin: "queues_wf a \<Longrightarrow> t_state (a_info a t) \<noteq> RTE_TIMER_PENDING \<Longrightarrow> wf_but t a"
  unfolding queues_wf_def wf_but_def by blast

lemma wf_but_upd: "wf_but t a \<Longrightarrow> wf_but t (upd_info t g a)"
proof -
  assume a: "wf_but t a"
  have eq: "map (q_expire (upd_info t g a)) (a_list a c) = map (q_expire a) (a_list a c)"
    "q_expire (upd_info t g a) ` set (a_list a c) = q_expire a ` set (a_list a c)" for c
    using a by (auto simp: wf_but_def q_expire_def intro!: image_cong)
  show ?thesis using a unfolding wf_but_def q_fields(1) eq by simp
qed

lemma wf_but_back:
  "wf_but t a \<Longrightarrow> t_state (a_info a t) \<noteq> RTE_TIMER_PENDING \<Longrightarrow> queues_wf a"
  by (auto simp: wf_but_def queues_wf_def)

lemma q_detach_wf:
  assumes "queues_wf a" shows "wf_but t (q_detach me t a)"
proof (cases "t_state (a_info a t) = RTE_TIMER_PENDING")
  case False
  have "queues_wf (q_detach me t a)"
    using False by (intro queues_wf_priv [OF _ _ assms]) (simp_all add: q_detach_def Let_def)
  then show ?thesis using False by (intro wf_but_notin) (simp_all add: q_detach_def Let_def)
next
  case True
  let ?o = "nat (t_owner (a_info a t))"
  have t: "t \<in> set (a_list a c) \<Longrightarrow> c = ?o" for c using assms by (force simp: queues_wf_def)
  have eq: "q_detach me t a = upd_list ?o (remove1 t) a"
    using True by (simp add: q_detach_def Let_def)
  have d: "distinct (a_list a ?o)" using assms by (simp add: queues_wf_def)
  show ?thesis
    unfolding eq wf_but_def
  proof (intro conjI allI impI)
    fix c
    show "distinct (a_list (upd_list ?o (remove1 t) a) c)" using assms by (simp add: queues_wf_def)
    show "sorted (map (q_expire (upd_list ?o (remove1 t) a)) (a_list (upd_list ?o (remove1 t) a) c))"
      using assms by (auto simp: queues_wf_def q_expire_def intro: sorted_map_remove1)
    show "0 \<notin> q_expire (upd_list ?o (remove1 t) a) ` set (a_list (upd_list ?o (remove1 t) a) c)"
      using assms by (auto simp: queues_wf_def q_expire_def dest: notin_set_remove1)
  next
    fix c x assume x: "x \<in> set (a_list (upd_list ?o (remove1 t) a) c)"
    then show "x \<noteq> t" using t d by (auto split: if_splits)
    have "x \<in> set (a_list a c)" using x by (auto split: if_splits dest: set_remove1_subset [THEN subsetD])
    then show "t_state (a_info (upd_list ?o (remove1 t) a) x) = RTE_TIMER_PENDING"
      "t_owner (a_info (upd_list ?o (remove1 t) a) x) = int c"
      using assms by (auto simp: queues_wf_def)
  next
    fix x assume x: "x \<noteq> t" "t_state (a_info (upd_list ?o (remove1 t) a) x) = RTE_TIMER_PENDING"
    then have "0 \<le> t_owner (a_info a x) \<and> t_owner (a_info a x) < int RTE_MAX_LCORE \<and>
        x \<in> set (a_list a (nat (t_owner (a_info a x))))"
      using assms unfolding queues_wf_def by simp
    then show "0 \<le> t_owner (a_info (upd_list ?o (remove1 t) a) x)"
      "t_owner (a_info (upd_list ?o (remove1 t) a) x) < int RTE_MAX_LCORE"
      "x \<in> set (a_list (upd_list ?o (remove1 t) a) (nat (t_owner (a_info (upd_list ?o (remove1 t) a) x))))"
      using x(1) by auto
  qed
qed

lemma q_place_wf:
  assumes a: "wf_but t a" and i: "t_state i = RTE_TIMER_PENDING" "t_owner i = int c" "c < RTE_MAX_LCORE" "t_expire i \<noteq> 0"
  shows "queues_wf (q_place t c i a)"
proof -
  define b where "b = upd_info t (\<lambda>_. i) a"
  have b: "wf_but t b" unfolding b_def using a by (rule wf_but_upd)
  have it: "a_info b t = i" by (simp add: b_def)
  have eq: "q_place t c i a = upd_list c (insert_after (q_expire b) t) b"
    by (simp add: q_place_def b_def Let_def)
  have qe: "q_expire (upd_list c h b) = q_expire b" for h by (simp add: fun_eq_iff q_expire_def)
  show ?thesis
    unfolding eq queues_wf_def qe
  proof (intro conjI allI impI)
    fix d
    show "distinct (a_list (upd_list c (insert_after (q_expire b) t) b) d)"
      using b by (auto simp: wf_but_def)
    show "sorted (map (q_expire b) (a_list (upd_list c (insert_after (q_expire b) t) b) d))"
      using b by (auto simp: wf_but_def intro: sorted_insert_after)
    show "0 \<notin> q_expire b ` set (a_list (upd_list c (insert_after (q_expire b) t) b) d)"
      using b i(4) it by (auto simp: wf_but_def q_expire_def)
  next
    fix x assume x: "t_state (a_info (upd_list c (insert_after (q_expire b) t) b) x) = RTE_TIMER_PENDING"
    let ?o = "t_owner (a_info (upd_list c (insert_after (q_expire b) t) b) x)"
    show "0 \<le> ?o" "?o < int RTE_MAX_LCORE"
      "x \<in> set (a_list (upd_list c (insert_after (q_expire b) t) b) (nat ?o))"
      using b i it x by (cases "x = t"; force simp: wf_but_def)+
  qed (use b i it in \<open>auto simp: wf_but_def split: if_splits\<close>)
qed

lemma q_busy_info: "a_info a' = a_info a \<Longrightarrow> (\<And>c. running_tim (a_priv a' c) = running_tim (a_priv a c))
    \<Longrightarrow> q_busy me t a' = q_busy me t a"
  by (simp add: q_busy_def)

lemma q_reset_wf:
  assumes "queues_wf a" and q: "q_reset en me t ex p lc f a = Some (r, a')"
  shows "queues_wf a'"
proof -
  obtain c prv where "pick_lcore en me lc (\<lambda>c. prev_lcore (a_priv a c)) = Some (c, prv)"
    using q by (auto simp: q_reset_def bind_eq_Some_conv)
  moreover define b where "b = a\<lparr>a_priv := (\<lambda>c. (a_priv a c)\<lparr>prev_lcore := prv c\<rparr>)\<rparr>"
  moreover have "queues_wf b"
    unfolding b_def by (rule queues_wf_priv [OF _ _ assms(1)]) simp_all
  ultimately show ?thesis
    using q by (auto simp: q_reset_def Let_def split: if_splits intro!: q_place_wf q_detach_wf)
qed

lemma q_stop_wf: "queues_wf a \<Longrightarrow> queues_wf (snd (q_stop me t a))"
  by (auto simp: q_stop_def intro!: wf_but_back [of t] wf_but_upd q_detach_wf)

lemma q_call_wf: "queues_wf a \<Longrightarrow> q_call en me op a = Some (r, a') \<Longrightarrow> queues_wf a'"
  using q_stop_wf [of a me] by (cases op) (auto intro: q_reset_wf simp: prod_eq_iff)

lemma q_calls_wf: "queues_wf a \<Longrightarrow> q_calls en me ops a = Some (rs, a') \<Longrightarrow> queues_wf a'"
  by (induction ops arbitrary: a rs) (auto simp: bind_eq_Some_conv dest: q_call_wf)

end
