(* ===== verification/Timer_Runs.thy ===== *)
theory Timer_Runs
  imports Timer_Spec
begin

text \<open>
  The management pass over the queues: whatever the callbacks call, it runs the due timers one after
  the other, because a timer that waits for its turn is in the running state and every reset or stop
  of it is refused.  The queues stay well formed along every program.
\<close>

lemma q_detach_info [simp]: "a_info (q_detach me t a) = a_info a"
  by (simp add: q_detach_def Let_def)

lemma q_detach_running [simp]: "running_tim (a_priv (q_detach me t a) c) = running_tim (a_priv a c)"
  by (simp add: q_detach_def Let_def)

lemma q_detach_updated:
  "updated (a_priv (q_detach me t a) me)
     = (updated (a_priv a me) \<or> (t_state (a_info a t) = RTE_TIMER_RUNNING \<and> me < RTE_MAX_LCORE))"
  by (auto simp: q_detach_def Let_def)

lemma q_place_fields [simp]:
  "a_info (q_place t c i a) = (a_info a)(t := i)" "a_priv (q_place t c i a) = a_priv a"
  by (simp_all add: q_place_def Let_def)

text \<open>What one call keeps: which timer runs, the timers waiting to run, and, unless it is recorded in
  \<open>updated\<close>, the timer whose callback makes the call.\<close>

definition call_keeps :: "nat \<Rightarrow> queues \<Rightarrow> queues \<Rightarrow> bool" where
  "call_keeps me a a' \<longleftrightarrow>
     (\<forall>c. running_tim (a_priv a' c) = running_tim (a_priv a c)) \<and>
     (\<forall>x. t_state (a_info a x) = RTE_TIMER_RUNNING \<and> Some x \<noteq> running_tim (a_priv a me) \<longrightarrow> a_info a' x = a_info a x) \<and>
     (\<forall>x. t_state (a_info a x) = RTE_TIMER_RUNNING \<and> me < RTE_MAX_LCORE
        \<longrightarrow> updated (a_priv a' me) \<or> a_info a' x = a_info a x) \<and>
     (updated (a_priv a me) \<longrightarrow> updated (a_priv a' me))"

lemma call_keeps_refl: "call_keeps me a a"
  by (simp add: call_keeps_def)

lemma call_keeps_trans: "call_keeps me a b \<Longrightarrow> call_keeps me b c \<Longrightarrow> call_keeps me a c"
  unfolding call_keeps_def by (intro conjI allI impI) (metis+)

lemma q_stop_keeps: "call_keeps me a (snd (q_stop me t a))"
  by (auto simp: q_stop_def call_keeps_def q_detach_updated q_busy_def)

lemma q_reset_keeps: "q_reset en me t ex p lc f a = Some (r, a') \<Longrightarrow> call_keeps me a a'"
  by (auto simp: q_reset_def call_keeps_def Let_def bind_eq_Some_conv q_detach_updated q_busy_def split: if_splits)

lemma q_call_keeps: "q_call en me op a = Some (r, a') \<Longrightarrow> call_keeps me a a'"
  using q_stop_keeps [of me a] by (cases op) (auto intro: q_reset_keeps simp: prod_eq_iff)

lemma q_calls_keeps: "q_calls en me ops a = Some (rs, a') \<Longrightarrow> call_keeps me a a'"
proof (induction ops arbitrary: a rs)
  case Nil
  then show ?case by (simp add: call_keeps_refl)
next
  case (Cons op ops)
  then show ?case by (auto simp: bind_eq_Some_conv intro: call_keeps_trans dest: q_call_keeps)
qed

section \<open>A pass over the due timers\<close>

lemma q_finish_wf:
  assumes "queues_wf a" "t_state (a_info a t) = RTE_TIMER_RUNNING \<or> updated (a_priv a me)" "me < RTE_MAX_LCORE"
    "q_finish me t a = Some a'"
  shows "queues_wf a'" and "\<And>x. x \<noteq> t \<Longrightarrow> a_info a' x = a_info a x"
proof -
  have *: "wf_but t a" if "\<not> updated (a_priv a me)"
    using assms(1,2) that by (intro wf_but_notin) auto
  show "queues_wf a'"
  proof (cases "updated (a_priv a me)")
    case True
    then show ?thesis using assms(1,4) by (simp add: q_finish_def Let_def)
  next
    case False
    note b = * [OF this]
    show ?thesis
    proof (cases "t_period (a_info a t) = 0")
      case True
      then show ?thesis
        using assms(4) False wf_but_back [OF wf_but_upd [OF b]] by (auto simp: q_finish_def Let_def)
    next
      case nz: False
      then show ?thesis
        using assms(3,4) False q_place_wf [OF b] by (auto simp: q_finish_def Let_def split: if_splits)
    qed
  qed
  show "a_info a' x = a_info a x" if "x \<noteq> t" for x
    using assms(4) that by (auto simp: q_finish_def Let_def split: if_splits)
qed

definition q_mark :: "nat \<Rightarrow> tref \<Rightarrow> queues \<Rightarrow> queues" where
  "q_mark me t = upd_pinfo me (\<lambda>p. p\<lparr>updated := False, running_tim := Some t\<rparr>)"

lemma q_mark_wf: "queues_wf a \<Longrightarrow> queues_wf (q_mark me t a)"
  by (rule queues_wf_priv [rotated 2]) (simp_all add: q_mark_def)

text \<open>The callback of \<open>t\<close> leaves the timers that wait alone, and \<open>t\<close> itself unless it says so.\<close>

lemma q_callback_keeps:
  assumes "q_calls en me ops (q_mark me t a) = Some (rs, b)"
  shows "\<And>x. x \<noteq> t \<Longrightarrow> t_state (a_info a x) = RTE_TIMER_RUNNING \<Longrightarrow> a_info b x = a_info a x"
    and "me < RTE_MAX_LCORE \<Longrightarrow> t_state (a_info a t) = RTE_TIMER_RUNNING
      \<Longrightarrow> updated (a_priv b me) \<or> a_info b t = a_info a t"
    and "running_tim (a_priv b me) = Some t"
  using q_calls_keeps [OF assms] by (auto simp: call_keeps_def q_mark_def)

theorem q_run_all:
  assumes "queues_wf a" "distinct ts" "\<forall>x\<in>set ts. t_state (a_info a x) = RTE_TIMER_RUNNING"
    "me < RTE_MAX_LCORE" "q_run en me cb ts a = Some (lg, a')"
  shows "queues_wf a' \<and> map fst lg = ts"
  using assms
proof (induction ts arbitrary: a lg)
  case Nil
  then show ?case by (auto intro: queues_wf_priv [rotated 2])
next
  case (Cons t ts)
  from Cons.prems(5) obtain rs b b' lg' where
    q: "q_calls en me (cb t) (q_mark me t a) = Some (rs, b)" "q_finish me t b = Some b'"
    "q_run en me cb ts b' = Some (lg', a')" and lg: "lg = (t, rs) # lg'"
    by (auto simp: bind_eq_Some_conv q_mark_def)
  have b: "queues_wf b" using q(1) Cons.prems(1) by (blast intro: q_calls_wf q_mark_wf)
  have tb: "t_state (a_info b t) = RTE_TIMER_RUNNING \<or> updated (a_priv b me)"
    using q_callback_keeps(2) [OF q(1)] Cons.prems(3,4) by auto
  have "t_state (a_info b' x) = RTE_TIMER_RUNNING" if "x \<in> set ts" for x
  proof -
    have "x \<noteq> t" "t_state (a_info a x) = RTE_TIMER_RUNNING" using that Cons.prems(2,3) by auto
    then show ?thesis
      using q_callback_keeps(1) [OF q(1)] q_finish_wf(2) [OF b tb Cons.prems(4) q(2)] by simp
  qed
  then show ?case
    using Cons.IH [of b' lg'] q_finish_wf(1) [OF b tb Cons.prems(4) q(2)] Cons.prems q(3) lg by simp
qed

lemma q_due_sorted:
  "queues_wf a \<Longrightarrow> set (q_due a c now) = {t \<in> set (a_list a c). q_expire a t \<le> now}"
  "queues_wf a \<Longrightarrow> distinct (q_due a c now) \<and> sorted (map (q_expire a) (q_due a c now))"
proof -
  assume a: "queues_wf a"
  then have eq: "q_due a c now = filter (\<lambda>t. q_expire a t \<le> now) (a_list a c)"
    using sorted_takeWhile_filter(1) [of "q_expire a" "a_list a c" now] by (simp add: queues_wf_def q_due_def)
  then show "set (q_due a c now) = {t \<in> set (a_list a c). q_expire a t \<le> now}" by auto
  show "distinct (q_due a c now) \<and> sorted (map (q_expire a) (q_due a c now))"
    using a unfolding eq queues_wf_def by (auto intro: sorted_filter)
qed

lemma q_start_list:
  "a_list (q_start me now a) c = (if c = me then filter (\<lambda>t. \<not> q_expire a t \<le> now) (a_list a me) else a_list a c)"
  if "queues_wf a"
  using sorted_takeWhile_filter(2) [of "q_expire a" "a_list a me" now] that
  by (simp add: queues_wf_def q_start_def)

lemma q_start_info:
  "a_info (q_start me now a) t = (if t \<in> set (q_due a me now)
     then (a_info a t)\<lparr>t_state := RTE_TIMER_RUNNING, t_owner := int me\<rparr> else a_info a t)"
  "q_expire (q_start me now a) = q_expire a"
  by (auto simp: q_start_def q_expire_def fun_eq_iff)

lemma q_start_wf:
  assumes a: "queues_wf a" shows "queues_wf (q_start me now a)"
proof -
  have own: "c = nat (t_owner (a_info a t))" if "t \<in> set (a_list a c)" for c t
    using a that by (force simp: queues_wf_def)
  have mem: "t \<in> set (a_list (q_start me now a) c) \<longleftrightarrow> t \<in> set (a_list a c) \<and> t \<notin> set (q_due a me now)" for c t
    using own [of t c] own [of t me] by (auto simp: q_start_list [OF a] q_due_sorted(1) [OF a])
  show ?thesis
    unfolding queues_wf_def q_start_info(2)
  proof (intro conjI allI impI)
    fix c
    show "distinct (a_list (q_start me now a) c)" "sorted (map (q_expire a) (a_list (q_start me now a) c))"
      using a by (auto simp: q_start_list [OF a] queues_wf_def intro: sorted_filter)
    show "0 \<notin> q_expire a ` set (a_list (q_start me now a) c)"
      using a mem by (auto simp: queues_wf_def)
    fix t assume "t \<in> set (a_list (q_start me now a) c)"
    then show "t_state (a_info (q_start me now a) t) = RTE_TIMER_PENDING"
      "t_owner (a_info (q_start me now a) t) = int c"
      using a mem by (auto simp: queues_wf_def q_start_info)
  next
    fix t assume t: "t_state (a_info (q_start me now a) t) = RTE_TIMER_PENDING"
    then have i: "t \<notin> set (q_due a me now)" "a_info (q_start me now a) t = a_info a t"
      by (auto simp: q_start_info split: if_splits)
    then have "0 \<le> t_owner (a_info a t) \<and> t_owner (a_info a t) < int RTE_MAX_LCORE
        \<and> t \<in> set (a_list a (nat (t_owner (a_info a t))))"
      using a t unfolding queues_wf_def by metis
    then show "0 \<le> t_owner (a_info (q_start me now a) t)" "t_owner (a_info (q_start me now a) t) < int RTE_MAX_LCORE"
      "t \<in> set (a_list (q_start me now a) (nat (t_owner (a_info (q_start me now a) t))))"
      using i mem by simp_all
  qed
qed

lemma q_manage_wf:
  assumes "queues_wf a" "q_manage en me now cb a = Some (lg, a')"
  shows "queues_wf a' \<and> map fst lg = q_due a me now"
proof (cases "q_due a me now = []")
  case True
  then show ?thesis using assms by (auto simp: q_manage_def split: if_splits)
next
  case False
  then have "q_run en me cb (q_due a me now) (q_start me now a) = Some (lg, a')" "me < RTE_MAX_LCORE"
    using assms(2) by (auto simp: q_manage_def split: if_splits)
  moreover have "distinct (q_due a me now)"
    "\<forall>x\<in>set (q_due a me now). t_state (a_info (q_start me now a) x) = RTE_TIMER_RUNNING"
    using q_due_sorted(2) [OF assms(1)] by (auto simp: q_start_info)
  ultimately show ?thesis
    using q_run_all [OF q_start_wf [OF assms(1)]] by blast
qed

lemma q_stopped_wf:
  "queues_wf a \<Longrightarrow> t_state (a_info a t) \<noteq> RTE_TIMER_PENDING \<Longrightarrow>
   queues_wf (upd_info t (\<lambda>i. i\<lparr>t_state := RTE_TIMER_STOP, t_owner := RTE_TIMER_NO_OWNER\<rparr>) a)"
  by (rule wf_but_back [OF wf_but_upd [OF wf_but_notin]]) simp_all

lemma q_event_wf: "queues_wf a \<Longrightarrow> q_event en e a = Some (r, a') \<Longrightarrow> queues_wf a'"
  by (cases e)
     (auto simp: bind_eq_Some_conv q_stopped_wf dest: q_call_wf q_manage_wf split: if_splits)

lemma q_events_wf: "queues_wf a \<Longrightarrow> q_events en es a = Some (os, a') \<Longrightarrow> queues_wf a'"
  by (induction es arbitrary: a os) (auto simp: bind_eq_Some_conv dest: q_event_wf)

end
