(* ===== verification/Timer_Refine.thy ===== *)
theory Timer_Refine
  imports Timer_Runs
begin

text \<open>
  The skip lists implement the queues: \<open>refines lv K s a\<close> says that the fields of timers and lcores
  agree, that the skip list of every lcore holds its queue (with levels \<open>lv\<close>) and that \<open>K\<close> are the
  lcores whose lock is held.  Every step of the code keeps the relation while the queues make the
  corresponding step.
\<close>

section \<open>The relation\<close>

definition sl_ok :: "timers \<Rightarrow> nat \<Rightarrow> (tref \<Rightarrow> nat) \<Rightarrow> tref list \<Rightarrow> bool" where
  "sl_ok s c lv ts \<longleftrightarrow> sl_list s c lv ts \<and> sl_depth lv ts (curr_skiplist_depth (privs s c)) \<and>
     head_expire (privs s c) = first_expire c s"

definition refines :: "(tref \<Rightarrow> nat) \<Rightarrow> nat set \<Rightarrow> timers \<Rightarrow> queues \<Rightarrow> bool" where
  "refines lv K s a \<longleftrightarrow>
     (\<forall>t. tinfo.truncate (tims s t) = a_info a t) \<and>
     (\<forall>c. pinfo.truncate (privs s c) = a_priv a c) \<and>
     (\<forall>c. list_lock (privs s c) \<longleftrightarrow> c \<in> K) \<and>
     (\<forall>c. sl_ok s c lv (a_list a c)) \<and>
     (\<forall>c d t. t \<in> set (a_list a c) \<longrightarrow> t \<in> set (a_list a d) \<longrightarrow> c = d) \<and>
     (\<forall>c t. t \<in> set (a_list a c) \<longrightarrow> q_expire a t \<noteq> 0)"

lemma truncate_fields [simp]:
  "t_expire (tinfo.truncate x) = t_expire x" "t_state (tinfo.truncate x) = t_state x"
  "t_owner (tinfo.truncate x) = t_owner x" "t_period (tinfo.truncate x) = t_period x"
  "t_f (tinfo.truncate x) = t_f x"
  "updated (pinfo.truncate p) = updated p" "prev_lcore (pinfo.truncate p) = prev_lcore p"
  "running_tim (pinfo.truncate p) = running_tim p"
  by (simp_all add: tinfo.truncate_def pinfo.truncate_def)

lemma truncate_set [simp]:
  "tinfo.truncate (x\<lparr>t_state := st, t_owner := ow\<rparr>) = (tinfo.truncate x)\<lparr>t_state := st, t_owner := ow\<rparr>"
  "tinfo.truncate (x\<lparr>t_period := p, t_expire := e, t_f := f\<rparr>)
     = (tinfo.truncate x)\<lparr>t_period := p, t_expire := e, t_f := f\<rparr>"
  "pinfo.truncate (q\<lparr>updated := u\<rparr>) = (pinfo.truncate q)\<lparr>updated := u\<rparr>"
  "pinfo.truncate (q\<lparr>running_tim := r\<rparr>) = (pinfo.truncate q)\<lparr>running_tim := r\<rparr>"
  "pinfo.truncate (q\<lparr>prev_lcore := n\<rparr>) = (pinfo.truncate q)\<lparr>prev_lcore := n\<rparr>"
  by (simp_all add: tinfo.truncate_def pinfo.truncate_def)

lemma refinesD:
  assumes "refines lv K s a"
  shows "a_info a t = tinfo.truncate (tims s t)" "a_priv a c = pinfo.truncate (privs s c)"
    "list_lock (privs s c) \<longleftrightarrow> c \<in> K" "sl_ok s c lv (a_list a c)"
    "t \<in> set (a_list a c) \<Longrightarrow> t \<in> set (a_list a d) \<Longrightarrow> c = d"
    "t \<in> set (a_list a c) \<Longrightarrow> t_expire (tims s t) \<noteq> 0"
proof -
  show i: "a_info a t = tinfo.truncate (tims s t)" for t using assms by (simp add: refines_def)
  show "t_expire (tims s t) \<noteq> 0" if "t \<in> set (a_list a c)"
  proof -
    have "t_expire (a_info a t) \<noteq> 0" using assms that by (simp add: refines_def q_expire_def)
    then show ?thesis by (simp add: i)
  qed
qed (use assms in \<open>auto simp: refines_def\<close>)

lemma refines_expire: "refines lv K s a \<Longrightarrow> (\<lambda>t. t_expire (tims s t)) = q_expire a"
  by (simp add: fun_eq_iff q_expire_def refinesD(1))

text \<open>A list only depends on its head, the links and expiry times of its members and their levels.\<close>

lemma sl_ok_cong:
  assumes ok: "sl_ok s c lv ts"
    and nx: "\<And>l x. x \<in> insert None (Some ` set ts) \<Longrightarrow> node_next s' c l x = node_next s c l x"
    and ex: "\<And>t. t \<in> set ts \<Longrightarrow> t_expire (tims s' t) = t_expire (tims s t)"
    and lv: "\<And>t. t \<in> set ts \<Longrightarrow> lv' t = lv t"
    and d: "curr_skiplist_depth (privs s' c) = curr_skiplist_depth (privs s c)"
    and h: "head_expire (privs s' c) = head_expire (privs s c)"
  shows "sl_ok s' c lv' ts"
proof -
  have f: "filter (\<lambda>t. l \<le> lv' t) ts = filter (\<lambda>t. l \<le> lv t) ts" for l
    using lv by (intro filter_cong) auto
  have "lpath (node_next s' c l) None (filter (\<lambda>t. l \<le> lv t) ts)
      = lpath (node_next s c l) None (filter (\<lambda>t. l \<le> lv t) ts)" for l
    using nx by (intro lpath_cong) auto
  moreover have "sorted (map (\<lambda>t. t_expire (tims s' t)) ts) = sorted (map (\<lambda>t. t_expire (tims s t)) ts)"
    using ex by (intro sorted_map_cong) simp
  ultimately have L: "sl_list s' c lv' ts"
    using ok unfolding sl_ok_def sl_list_def f by simp
  have "first_expire c s' = first_expire c s"
    using first_expire_path [OF L] first_expire_path [of s c lv ts] ok ex by (simp add: sl_ok_def)
  moreover have "sl_depth lv' ts = sl_depth lv ts"
    using lv by (auto simp: fun_eq_iff sl_depth_def)
  ultimately show ?thesis using ok L d h by (simp add: sl_ok_def)
qed

text \<open>Changes of a timer's fields, of an lcore's fields, and of the locks.\<close>

lemma refines_upd_tim:
  assumes R: "refines lv K s a" and g: "sl_next (g (tims s t)) = sl_next (tims s t)"
    and i: "tinfo.truncate (g (tims s t)) = i"
    and e: "(\<forall>c. t \<notin> set (a_list a c)) \<or> t_expire i = t_expire (a_info a t)"
  shows "refines lv K (upd_tim t g s) (upd_info t (\<lambda>_. i) a)"
proof -
  let ?s = "upd_tim t g s"
  have ex: "t_expire (tims ?s x) = t_expire (tims s x)" if "x \<in> set (a_list a c)" for x c
    using e i that by (auto simp: upd_tim_def refinesD(1) [OF R])
  have nx: "node_next ?s = node_next s"
    using g by (auto simp: fun_eq_iff node_next_def upd_tim_def split: option.split)
  have "sl_ok ?s c lv (a_list a c)" for c
    by (rule sl_ok_cong [OF refinesD(4) [OF R]]) (use ex nx in \<open>auto simp: upd_tim_def\<close>)
  moreover have "q_expire (upd_info t (\<lambda>_. i) a) x \<noteq> 0" if "x \<in> set (a_list a c)" for c x
    using ex [OF that] refinesD(6) [OF R that] i by (auto simp: q_expire_def upd_tim_def refinesD(1) [OF R])
  ultimately show ?thesis
    using R i by (auto simp: refines_def) (simp_all add: upd_tim_def)
qed

lemma refines_privs:
  assumes R: "refines lv K s a"
    and g: "\<And>c. head_next (P c) = head_next (privs s c)" "\<And>c. head_expire (P c) = head_expire (privs s c)"
      "\<And>c. curr_skiplist_depth (P c) = curr_skiplist_depth (privs s c)" "\<And>c. list_lock (P c) = (c \<in> K')"
  shows "refines lv K' (s\<lparr>privs := P\<rparr>) (a\<lparr>a_priv := (\<lambda>c. pinfo.truncate (P c))\<rparr>)"
proof -
  have nx: "node_next (s\<lparr>privs := P\<rparr>) = node_next s"
    using g(1) by (auto simp: fun_eq_iff node_next_def split: option.split)
  have "sl_ok (s\<lparr>privs := P\<rparr>) c lv (a_list a c)" for c
    by (rule sl_ok_cong [OF refinesD(4) [OF R]]) (simp_all add: nx g)
  then show ?thesis using R g by (simp add: refines_def q_expire_def)
qed

lemma refines_upd_priv:
  assumes R: "refines lv K s a"
    and g: "head_next (g (privs s c)) = head_next (privs s c)" "head_expire (g (privs s c)) = head_expire (privs s c)"
      "curr_skiplist_depth (g (privs s c)) = curr_skiplist_depth (privs s c)"
      "list_lock (g (privs s c)) = list_lock (privs s c)" "pinfo.truncate (g (privs s c)) = p (a_priv a c)"
  shows "refines lv K (upd_priv c g s) (upd_pinfo c p a)"
proof -
  have "refines lv K (upd_priv c g s) (a\<lparr>a_priv := (\<lambda>d. pinfo.truncate (((privs s)(c := g (privs s c))) d))\<rparr>)"
    unfolding upd_priv_def by (rule refines_privs [OF R]) (simp_all add: g refinesD(3) [OF R])
  moreover have "(\<lambda>d. pinfo.truncate (((privs s)(c := g (privs s c))) d)) = (a_priv a)(c := p (a_priv a c))"
    by (auto simp: fun_eq_iff g refinesD(2) [OF R])
  ultimately show ?thesis by (simp add: upd_pinfo_def)
qed

lemma refines_lock:
  assumes R: "refines lv K s a"
  shows "c \<notin> K \<Longrightarrow> \<exists>s'. list_lock_take c s = Some s' \<and> tims s' = tims s \<and> refines lv (insert c K) s' a"
    and "refines lv (K - {c}) (list_lock_release c s) a"
proof -
  have r: "refines lv (if b then insert c K else K - {c}) (upd_priv c (list_lock_update (\<lambda>_. b)) s) a" for b
  proof -
    have "refines lv (if b then insert c K else K - {c}) (upd_priv c (list_lock_update (\<lambda>_. b)) s)
        (a\<lparr>a_priv := (\<lambda>d. pinfo.truncate (((privs s)(c := list_lock_update (\<lambda>_. b) (privs s c))) d))\<rparr>)"
      unfolding upd_priv_def by (rule refines_privs [OF R]) (auto simp: refinesD(3) [OF R])
    moreover have "(\<lambda>d. pinfo.truncate (((privs s)(c := list_lock_update (\<lambda>_. b) (privs s c))) d)) = a_priv a"
      by (auto simp: fun_eq_iff refinesD(2) [OF R])
    ultimately show ?thesis by simp
  qed
  show "c \<notin> K \<Longrightarrow> \<exists>s'. list_lock_take c s = Some s' \<and> tims s' = tims s \<and> refines lv (insert c K) s' a"
    using r [of True] by (simp add: list_lock_take_def refinesD(3) [OF R] upd_priv_def)
  show "refines lv (K - {c}) (list_lock_release c s) a"
    using r [of False] by (simp add: list_lock_release_def)
qed

text \<open>A change of one list.\<close>

lemma refines_list:
  assumes R: "refines lv K s a" and ok: "sl_ok s' c lv' ts'" and only: "links_only c T s s'"
    and other: "\<And>d x. d \<noteq> c \<Longrightarrow> x \<in> set (a_list a d) \<Longrightarrow> x \<notin> T \<and> lv' x = lv x"
    and sub: "set ts' \<subseteq> T" and nz: "\<And>x. x \<in> set ts' \<Longrightarrow> q_expire a x \<noteq> 0"
  shows "refines lv' K s' (upd_list c (\<lambda>_. ts') a)"
proof -
  have "sl_ok s' d lv' (a_list a d)" if "d \<noteq> c" for d
    by (rule sl_ok_cong [OF refinesD(4) [OF R]])
       (use only other that in \<open>auto simp: links_only_def node_next_def links_onlyD [OF only]\<close>)
  moreover have "pinfo.truncate (privs s' d) = pinfo.truncate (privs s d)"
    "list_lock (privs s' d) = list_lock (privs s d)" for d
    using only by (cases "d = c"; simp add: links_only_def)+
  moreover have "tinfo.truncate (tims s' x) = tinfo.truncate (tims s x)" for x
    using only by (simp add: links_only_def)
  moreover have "x \<notin> set ts'" if "x \<in> set (a_list a d)" "d \<noteq> c" for x d
    using other that sub by blast
  ultimately show ?thesis
    using R ok nz by (auto simp: refines_def q_expire_def)
qed

section \<open>Adding and deleting\<close>

lemma timer_add_refines:
  assumes R: "refines lv K s a" and t: "\<And>d. t \<notin> set (a_list a d)" and e: "t_expire (a_info a t) \<noteq> 0"
  shows "\<exists>s' lv'. timer_add t c s = Some s' \<and> refines lv' K s' (upd_list c (insert_after (q_expire a) t) a)
    \<and> (\<forall>x. x \<noteq> t \<and> (\<forall>d. x \<notin> set (a_list a d)) \<longrightarrow> sl_next (tims s' x) = sl_next (tims s x))"
proof -
  from timer_add_inserts [of s c lv "a_list a c" t] obtain s' k where s': "timer_add t c s = Some s'"
    "sl_ok s' c (lv(t := k)) (insert_after (q_expire a) t (a_list a c))"
    "links_only c (insert t (set (a_list a c))) s s'"
    using refinesD(4) [OF R, of c] t unfolding sl_ok_def refines_expire [OF R] by auto
  have "refines (lv(t := k)) K s' (upd_list c (\<lambda>_. insert_after (q_expire a) t (a_list a c)) a)"
    using t refinesD(5,6) [OF R] e
    by (intro refines_list [OF R s'(2,3)]) (auto simp: q_expire_def refinesD(1) [OF R])
  then have "refines (lv(t := k)) K s' (upd_list c (insert_after (q_expire a) t) a)"
    by (simp add: upd_list_def)
  then show ?thesis using s' by (auto simp: links_only_def)
qed

lemma timer_unlink_refines:
  assumes R: "refines lv K s a" and t: "t \<in> set (a_list a c)"
  shows "\<exists>s'. timer_unlink t c s = Some s' \<and> refines lv K s' (upd_list c (remove1 t) a)
    \<and> (\<forall>x. x \<notin> set (a_list a c) \<longrightarrow> sl_next (tims s' x) = sl_next (tims s x))"
proof -
  obtain xs ys where l: "a_list a c = xs @ t # ys" using t by (auto dest: split_list)
  have ok: "sl_ok s c lv (xs @ t # ys)" using refinesD(4) [OF R, of c] l by simp
  then have "distinct (xs @ t # ys)" by (simp add: sl_ok_def sl_list_def)
  then have rm: "remove1 t (a_list a c) = xs @ ys" by (simp add: l remove1_append)
  from timer_unlink_removes [of s c lv xs t ys] obtain s' where s': "timer_unlink t c s = Some s'"
    "sl_ok s' c lv (xs @ ys)" "links_only c (set (a_list a c)) s s'"
    using ok refinesD(6) [OF R t] l by (auto simp: sl_ok_def)
  have "refines lv K s' (upd_list c (\<lambda>_. xs @ ys) a)"
  proof (rule refines_list [OF R s'(2,3)])
    show "x \<notin> set (a_list a c) \<and> lv x = lv x" if "d \<noteq> c" "x \<in> set (a_list a d)" for d x
      using refinesD(5) [OF R that(2)] that(1) by blast
    show "q_expire a x \<noteq> 0" if "x \<in> set (xs @ ys)" for x
      using refinesD(6) [OF R, of x c] that l by (auto simp: q_expire_def refinesD(1) [OF R])
  qed (use l in auto)
  then have "refines lv K s' (upd_list c (remove1 t) a)"
    using rm by (simp add: upd_list_def)
  then show ?thesis using s' by (auto simp: links_only_def)
qed

section \<open>Reset and stop\<close>

text \<open>The code marks a timer as being configured before it takes it out of its list.\<close>

definition waiting :: "queues \<Rightarrow> tref \<Rightarrow> bool" where
  "waiting a x \<longleftrightarrow> (\<forall>d. x \<notin> set (a_list a d))"

definition links_kept :: "(tref \<Rightarrow> bool) \<Rightarrow> timers \<Rightarrow> timers \<Rightarrow> bool" where
  "links_kept P s s' \<longleftrightarrow> (\<forall>x. P x \<longrightarrow> sl_next (tims s' x) = sl_next (tims s x))"

lemma links_kept_trans:
  "links_kept P s s' \<Longrightarrow> (\<And>x. P x \<Longrightarrow> Q x) \<Longrightarrow> links_kept Q s' s'' \<Longrightarrow> links_kept P s s''"
  by (simp add: links_kept_def)

lemma config_refines:
  assumes R: "refines lv K s a"
  shows "timer_set_config_state me t s = (if q_busy me t a then None
      else Some ((t_state (a_info a t), t_owner (a_info a t)),
                 upd_tim t (\<lambda>x. x\<lparr>t_state := RTE_TIMER_CONFIG, t_owner := owner_of me\<rparr>) s))"
  by (auto simp: timer_set_config_state_def q_busy_def Let_def refinesD(1,2) [OF R])

lemma timer_del_refines:
  assumes R: "refines lv K s a" and t: "t \<in> set (a_list a c)" and c: "c < RTE_MAX_LCORE"
    and lk: "c \<noteq> me \<or> \<not> loc \<Longrightarrow> c \<notin> K"
  shows "\<exists>s'. timer_del me t (int c) loc s = Some s' \<and> refines lv K s' (upd_list c (remove1 t) a)
    \<and> links_kept (waiting a) s s'"
proof (cases "c \<noteq> me \<or> \<not> loc")
  case True
  obtain s1 where s1: "list_lock_take c s = Some s1" "tims s1 = tims s" "refines lv (insert c K) s1 a"
    using refines_lock(1) [OF R lk [OF True]] by blast
  obtain s2 where s2: "timer_unlink t c s1 = Some s2" "refines lv (insert c K) s2 (upd_list c (remove1 t) a)"
    "\<forall>x. x \<notin> set (a_list a c) \<longrightarrow> sl_next (tims s2 x) = sl_next (tims s1 x)"
    using timer_unlink_refines [OF s1(3) t] by blast
  have "refines lv K (list_lock_release c s2) (upd_list c (remove1 t) a)"
    using refines_lock(2) [OF s2(2), of c] lk [OF True] by simp
  then show ?thesis
    using s1 s2 True c by (auto simp: timer_del_def Let_def links_kept_def waiting_def list_lock_release_def upd_priv_def)
next
  case False
  then show ?thesis
    using timer_unlink_refines [OF R t] c by (auto simp: timer_del_def Let_def links_kept_def waiting_def)
qed

lemma place_eq:
  assumes "t_expire (g (a_info a t)) = t_expire (a_info a t)"
  shows "upd_info t g (upd_list c (insert_after (q_expire a) t) a) = q_place t c (g (a_info a t)) a"
proof -
  have "q_expire (upd_info t (\<lambda>_. g (a_info a t)) a) = q_expire a"
    using assms by (auto simp: q_expire_def fun_eq_iff)
  then show ?thesis by (simp add: q_place_def Let_def upd_info_def upd_list_def)
qed

lemma timer_attach_refines:
  assumes R: "refines lv K s a" and t: "waiting a t" and e: "t_expire (a_info a t) \<noteq> 0" and c: "c < RTE_MAX_LCORE"
    and lk: "c \<noteq> me \<or> \<not> loc \<Longrightarrow> c \<notin> K"
  shows "\<exists>s' lv'. timer_attach me t c loc s = Some s'
    \<and> refines lv' K s' (q_place t c ((a_info a t)\<lparr>t_state := RTE_TIMER_PENDING, t_owner := int c\<rparr>) a)
    \<and> links_kept (\<lambda>x. x \<noteq> t \<and> waiting a x) s s'"
proof -
  let ?lk = "c \<noteq> me \<or> \<not> loc" and ?g = "\<lambda>x. x\<lparr>t_state := RTE_TIMER_PENDING, t_owner := int c\<rparr>"
  let ?K = "if ?lk then insert c K else K"
  have t': "\<And>d. t \<notin> set (a_list a d)" using t by (simp add: waiting_def)
  obtain s1 where s1: "(if ?lk then list_lock_take c s else Some s) = Some s1" "tims s1 = tims s" "refines lv ?K s1 a"
    using refines_lock(1) [OF R, of c] lk R by (cases ?lk) auto
  obtain s2 lv' where s2: "timer_add t c s1 = Some s2"
    "refines lv' ?K s2 (upd_list c (insert_after (q_expire a) t) a)"
    "\<forall>x. x \<noteq> t \<and> (\<forall>d. x \<notin> set (a_list a d)) \<longrightarrow> sl_next (tims s2 x) = sl_next (tims s1 x)"
    using timer_add_refines [OF s1(3) t' e] by blast
  define s3 where "s3 = upd_tim t ?g s2"
  have "refines lv' ?K s3 (upd_info t (\<lambda>_. ?g (a_info a t)) (upd_list c (insert_after (q_expire a) t) a))"
    unfolding s3_def using refinesD(1) [OF s2(2), of t] by (intro refines_upd_tim [OF s2(2)]) simp_all
  also have "upd_info t (\<lambda>_. ?g (a_info a t)) (upd_list c (insert_after (q_expire a) t) a)
      = upd_info t ?g (upd_list c (insert_after (q_expire a) t) a)"
    by (simp add: upd_info_def upd_list_def)
  also have "\<dots> = q_place t c (?g (a_info a t)) a"
    by (rule place_eq) simp
  finally have r3: "refines lv' ?K s3 (q_place t c (?g (a_info a t)) a)" .
  have "refines lv' K (if ?lk then list_lock_release c s3 else s3) (q_place t c (?g (a_info a t)) a)"
    using refines_lock(2) [OF r3, of c] r3 lk by (cases ?lk) auto
  moreover have "timer_attach me t c loc s = Some (if ?lk then list_lock_release c s3 else s3)"
    using s1(1) s2(1) c by (simp add: timer_attach_def Let_def s3_def split: if_splits)
  moreover have "links_kept (\<lambda>x. x \<noteq> t \<and> waiting a x) s (if ?lk then list_lock_release c s3 else s3)"
    using s1(2) s2(3)
    by (auto simp: links_kept_def waiting_def s3_def upd_tim_def list_lock_release_def upd_priv_def)
  ultimately show ?thesis by blast
qed

lemma detach_refines:
  assumes R: "refines lv K s (upd_info t (\<lambda>_. i) a)" and wf: "queues_wf a" and t: "t_expire i = t_expire (a_info a t)"
    and lk: "\<And>c. c \<noteq> me \<or> \<not> loc \<Longrightarrow> c \<notin> K"
  shows "\<exists>s'. timer_detach me t (t_state (a_info a t), t_owner (a_info a t)) loc s = Some s'
    \<and> refines lv K s' (upd_info t (\<lambda>_. i) (q_detach me t a)) \<and> links_kept (waiting a) s s'"
proof -
  define b where "b = (if t_state (a_info a t) = RTE_TIMER_RUNNING \<and> me < RTE_MAX_LCORE
      then upd_pinfo me (updated_update (\<lambda>_. True)) a else a)"
  define s1 where "s1 = (if t_state (a_info a t) = RTE_TIMER_RUNNING \<and> me < RTE_MAX_LCORE
      then upd_priv me (updated_update (\<lambda>_. True)) s else s)"
  have "refines lv K (upd_priv me (updated_update (\<lambda>_. True)) s)
      (upd_pinfo me (updated_update (\<lambda>_. True)) (upd_info t (\<lambda>_. i) a))"
    using refinesD(2) [OF R, of me] by (intro refines_upd_priv [OF R]) simp_all
  moreover have "upd_pinfo me (updated_update (\<lambda>_. True)) (upd_info t (\<lambda>_. i) a)
      = upd_info t (\<lambda>_. i) (upd_pinfo me (updated_update (\<lambda>_. True)) a)"
    by (simp add: upd_pinfo_def upd_info_def)
  ultimately have R1: "refines lv K s1 (upd_info t (\<lambda>_. i) b)"
    using R by (auto simp: s1_def b_def)
  have k1: "links_kept P s s1" for P by (simp add: s1_def links_kept_def upd_priv_def)
  show ?thesis
  proof (cases "t_state (a_info a t) = RTE_TIMER_PENDING")
    case False
    then have "q_detach me t a = b" by (simp add: q_detach_def b_def Let_def)
    then show ?thesis using False R1 k1 by (simp add: timer_detach_def s1_def Let_def)
  next
    case True
    define c where "c = nat (t_owner (a_info a t))"
    have "0 \<le> t_owner (a_info a t)" "t_owner (a_info a t) < int RTE_MAX_LCORE" "t \<in> set (a_list a c)"
      using wf True unfolding queues_wf_def c_def by blast+
    then have c: "c < RTE_MAX_LCORE" "t_owner (a_info a t) = int c" "t \<in> set (a_list a c)"
      by (simp_all add: c_def)
    have ab: "a_list (upd_info t (\<lambda>_. i) b) = a_list a" by (simp add: b_def)
    have tc: "t \<in> set (a_list (upd_info t (\<lambda>_. i) b) c)" using c(3) ab by simp
    obtain s2 where "timer_del me t (int c) loc s1 = Some s2"
      "refines lv K s2 (upd_list c (remove1 t) (upd_info t (\<lambda>_. i) b))"
      "links_kept (waiting (upd_info t (\<lambda>_. i) b)) s1 s2"
      using timer_del_refines [OF R1 tc c(1) lk] by blast
    moreover have "upd_list c (remove1 t) (upd_info t (\<lambda>_. i) b) = upd_info t (\<lambda>_. i) (q_detach me t a)"
      using True by (simp add: q_detach_def b_def c_def Let_def upd_list_def upd_info_def)
    moreover have "links_kept (waiting a) s s2"
      using calculation(3) k1 ab by (auto simp: links_kept_def waiting_def b_def)
    ultimately show ?thesis using True c(2) by (auto simp: timer_detach_def s1_def Let_def)
  qed
qed

text \<open>The timers whose links a call must leave alone: those in no queue which the call cannot change.\<close>

definition untouched :: "nat \<Rightarrow> queues \<Rightarrow> tref \<Rightarrow> bool" where
  "untouched me a x \<longleftrightarrow> waiting a x \<and> q_busy me x a"

lemma prev_lcores_refines:
  assumes R: "refines lv K s a"
  shows "refines lv K (set_prev_lcores prv s) (a\<lparr>a_priv := (\<lambda>c. (a_priv a c)\<lparr>prev_lcore := prv c\<rparr>)\<rparr>)"
proof -
  have "refines lv K (s\<lparr>privs := (\<lambda>c. (privs s c)\<lparr>prev_lcore := prv c\<rparr>)\<rparr>)
      (a\<lparr>a_priv := (\<lambda>c. pinfo.truncate ((privs s c)\<lparr>prev_lcore := prv c\<rparr>))\<rparr>)"
    by (rule refines_privs [OF R]) (simp_all add: refinesD(3) [OF R])
  then show ?thesis by (simp add: set_prev_lcores_def refinesD(2) [OF R])
qed

lemma waiting_detach: "queues_wf a \<Longrightarrow> waiting (q_detach me t a) t"
  using q_detach_wf [of a t me] by (auto simp: wf_but_def waiting_def)

lemma waiting_detach_mono: "waiting a x \<Longrightarrow> waiting (q_detach me t a) x"
  by (auto simp: waiting_def q_detach_def Let_def dest: set_remove1_subset [THEN subsetD])

lemma reset_refines:
  assumes R: "refines lv {} s a" and wf: "queues_wf a" and q: "q_reset en me t ex p tc f a = Some (r, a')"
  shows "\<exists>s' lv'. timer_reset_at en me t ex p tc f False s = Some (r, s') \<and> refines lv' {} s' a'
    \<and> links_kept (untouched me a) s s'"
proof -
  obtain c prv where pick: "pick_lcore en me tc (\<lambda>c. prev_lcore (a_priv a c)) = Some (c, prv)"
    using q by (auto simp: q_reset_def bind_eq_Some_conv)
  have pick': "pick_lcore en me tc (\<lambda>c. prev_lcore (privs s c)) = Some (c, prv)"
    using pick by (simp add: refinesD(2) [OF R])
  define b where "b = a\<lparr>a_priv := (\<lambda>c. (a_priv a c)\<lparr>prev_lcore := prv c\<rparr>)\<rparr>"
  define s1 where "s1 = set_prev_lcores prv s"
  have R1: "refines lv {} s1 b" unfolding s1_def b_def by (rule prev_lcores_refines [OF R])
  have wb: "queues_wf b" unfolding b_def by (rule queues_wf_priv [OF _ _ wf]) simp_all
  have t1: "tims s1 = tims s" by (simp add: s1_def set_prev_lcores_def)
  have busy: "q_busy me x b = q_busy me x a" for x by (rule q_busy_info) (simp_all add: b_def)
  have wait: "waiting b = waiting a" by (simp add: fun_eq_iff waiting_def b_def)
  show ?thesis
  proof (cases "q_busy me t b")
    case True
    then have "r = - 1" "a' = b" using q pick by (auto simp: q_reset_def b_def)
    then show ?thesis
      using True R1 t1 pick' config_refines [OF R1, of me t]
      by (auto simp: timer_reset_at_def s1_def links_kept_def)
  next
    case False
    define i where "i = \<lparr>t_expire = ex, t_state = RTE_TIMER_PENDING, t_owner = int c, t_period = p, t_f = f\<rparr>"
    have q': "ex \<noteq> 0" "c < RTE_MAX_LCORE" "r = 0" "a' = q_place t c i (q_detach me t b)"
      using q pick False by (auto simp: q_reset_def b_def i_def split: if_splits)
    define i1 where "i1 = (a_info b t)\<lparr>t_state := RTE_TIMER_CONFIG, t_owner := owner_of me\<rparr>"
    define s2 where "s2 = upd_tim t (\<lambda>x. x\<lparr>t_state := RTE_TIMER_CONFIG, t_owner := owner_of me\<rparr>) s1"
    have R2: "refines lv {} s2 (upd_info t (\<lambda>_. i1) b)"
      unfolding s2_def by (rule refines_upd_tim [OF R1]) (simp_all add: i1_def refinesD(1) [OF R1])
    obtain s3 where s3: "timer_detach me t (t_state (a_info b t), t_owner (a_info b t)) False s2 = Some s3"
      "refines lv {} s3 (upd_info t (\<lambda>_. i1) (q_detach me t b))" "links_kept (waiting b) s2 s3"
      using detach_refines [OF R2 wb, of me False] by (auto simp: i1_def)
    define i2 where "i2 = i1\<lparr>t_period := p, t_expire := ex, t_f := f\<rparr>"
    define s4 where "s4 = upd_tim t (\<lambda>x. x\<lparr>t_period := p, t_expire := ex, t_f := f\<rparr>) s3"
    have "refines lv {} s4 (upd_info t (\<lambda>_. i2) (upd_info t (\<lambda>_. i1) (q_detach me t b)))"
      unfolding s4_def using waiting_detach [OF wb, of me t] refinesD(1) [OF s3(2), of t]
      by (intro refines_upd_tim [OF s3(2)]) (simp_all add: i2_def waiting_def)
    then have R4: "refines lv {} s4 (upd_info t (\<lambda>_. i2) (q_detach me t b))"
      by (simp add: upd_info_def)
    obtain s5 lv' where s5: "timer_attach me t c False s4 = Some s5"
      "refines lv' {} s5 (q_place t c (i2\<lparr>t_state := RTE_TIMER_PENDING, t_owner := int c\<rparr>)
         (upd_info t (\<lambda>_. i2) (q_detach me t b)))"
      "links_kept (\<lambda>x. x \<noteq> t \<and> waiting (q_detach me t b) x) s4 s5"
      using timer_attach_refines [OF R4, of t c me False] waiting_detach [OF wb, of me t] q'(1,2)
      by (auto simp: i2_def waiting_def)
    have "i2\<lparr>t_state := RTE_TIMER_PENDING, t_owner := int c\<rparr> = i"
      by (simp add: i2_def i1_def i_def)
    then have fin: "q_place t c (i2\<lparr>t_state := RTE_TIMER_PENDING, t_owner := int c\<rparr>)
        (upd_info t (\<lambda>_. i2) (q_detach me t b)) = a'"
      by (simp add: q'(4) q_place_def Let_def upd_info_def)
    have "timer_reset_at en me t ex p tc f False s = Some (r, s5)"
      using pick' False config_refines [OF R1, of me t] s3(1) s5(1) q'(3)
      by (simp add: timer_reset_at_def Let_def s1_def s2_def s4_def)
    moreover have "links_kept (untouched me a) s s5"
      using s3(3) s5(3) False t1
      by (auto simp: links_kept_def untouched_def s2_def s4_def upd_tim_def wait busy waiting_detach_mono)
    ultimately show ?thesis using s5(2) fin by auto
  qed
qed

end
