(* ===== verification/Timer_Props.thy ===== *)
theory Timer_Props
  imports Timer_Refine
begin

text \<open>
  The properties of the timer library: every program runs on the skip lists as on the queues, a
  management pass runs exactly the pending timers that are due, and two defects (a timer whose expiry
  time is 0 is not found again, and stopping the timers of another lcore takes a lock twice).
\<close>

section \<open>Calls\<close>

lemma stop_with_refines:
  assumes R: "refines lv K s a" and wf: "queues_wf a" and q: "q_stop me t a = (r, a')"
    and lk: "\<And>c. c \<noteq> me \<or> \<not> loc \<Longrightarrow> c \<notin> K"
  shows "\<exists>s'. timer_stop_with me t loc s = Some (r, s') \<and> refines lv K s' a' \<and> links_kept (untouched me a) s s'"
proof (cases "q_busy me t a")
  case True
  then have "r = - 1" "a' = a" using q by (auto simp: q_stop_def)
  then show ?thesis
    using True R config_refines [OF R, of me t] by (simp add: timer_stop_with_def links_kept_def)
next
  case False
  let ?stop = "\<lambda>x::tinfo. x\<lparr>t_state := RTE_TIMER_STOP, t_owner := RTE_TIMER_NO_OWNER\<rparr>"
  have q': "r = 0" "a' = upd_info t ?stop (q_detach me t a)"
    using q False by (auto simp: q_stop_def)
  define i1 where "i1 = (a_info a t)\<lparr>t_state := RTE_TIMER_CONFIG, t_owner := owner_of me\<rparr>"
  define s2 where "s2 = upd_tim t (\<lambda>x. x\<lparr>t_state := RTE_TIMER_CONFIG, t_owner := owner_of me\<rparr>) s"
  have R2: "refines lv K s2 (upd_info t (\<lambda>_. i1) a)"
    unfolding s2_def by (rule refines_upd_tim [OF R]) (simp_all add: i1_def refinesD(1) [OF R])
  obtain s3 where s3: "timer_detach me t (t_state (a_info a t), t_owner (a_info a t)) loc s2 = Some s3"
    "refines lv K s3 (upd_info t (\<lambda>_. i1) (q_detach me t a))" "links_kept (waiting a) s2 s3"
    using detach_refines [OF R2 wf _ lk] by (auto simp: i1_def)
  define s4 where "s4 = upd_tim t (\<lambda>x. x\<lparr>t_state := RTE_TIMER_STOP, t_owner := RTE_TIMER_NO_OWNER\<rparr>) s3"
  have "refines lv K s4 (upd_info t (\<lambda>_. ?stop i1) (upd_info t (\<lambda>_. i1) (q_detach me t a)))"
    unfolding s4_def using refinesD(1) [OF s3(2), of t] by (intro refines_upd_tim [OF s3(2)]) simp_all
  moreover have "upd_info t (\<lambda>_. ?stop i1) (upd_info t (\<lambda>_. i1) (q_detach me t a)) = a'"
    by (simp add: q'(2) upd_info_def i1_def)
  moreover have "timer_stop_with me t loc s = Some (r, s4)"
    using False config_refines [OF R, of me t] s3(1) q'(1)
    by (simp add: timer_stop_with_def s2_def s4_def)
  moreover have "links_kept (untouched me a) s s4"
    using s3(3) False by (auto simp: links_kept_def untouched_def s2_def s4_def upd_tim_def)
  ultimately show ?thesis by auto
qed

lemma stop_refines:
  assumes "refines lv {} s a" "queues_wf a" "q_stop me t a = (r, a')"
  shows "\<exists>s'. rte_timer_stop me t s = Some (r, s') \<and> refines lv {} s' a' \<and> links_kept (untouched me a) s s'"
  unfolding rte_timer_stop_def by (rule stop_with_refines [OF assms]) simp

lemma call_refines:
  assumes "refines lv {} s a" "queues_wf a" "q_call en me op a = Some (r, a')"
  shows "\<exists>s' lv'. tcall_exec en me op s = Some (r, s') \<and> refines lv' {} s' a' \<and> links_kept (untouched me a) s s'"
  using assms stop_refines [OF assms(1,2)] reset_refines [OF assms(1,2)]
  by (cases op) (fastforce simp: rte_timer_reset_def)+

text \<open>A timer that is marked running and is not the one whose callback runs.\<close>

definition held :: "nat \<Rightarrow> queues \<Rightarrow> tref \<Rightarrow> bool" where
  "held me a x \<longleftrightarrow> t_state (a_info a x) = RTE_TIMER_RUNNING \<and> Some x \<noteq> running_tim (a_priv a me)"

lemma wf_waiting: "queues_wf a \<Longrightarrow> t_state (a_info a x) \<noteq> RTE_TIMER_PENDING \<Longrightarrow> waiting a x"
  unfolding queues_wf_def waiting_def by blast

lemma held_untouched: "queues_wf a \<Longrightarrow> held me a x \<Longrightarrow> untouched me a x"
  by (auto simp: held_def untouched_def waiting_def q_busy_def queues_wf_def)

lemma held_keeps: "call_keeps me a a' \<Longrightarrow> held me a x \<Longrightarrow> held me a' x"
  by (simp add: call_keeps_def held_def)

lemma calls_refine:
  assumes "refines lv {} s a" "queues_wf a" "q_calls en me ops a = Some (rs, a')"
  shows "\<exists>s' lv'. tcalls_exec en me ops s = Some (rs, s') \<and> refines lv' {} s' a' \<and> links_kept (held me a) s s'"
  using assms
proof (induction ops arbitrary: lv s a rs)
  case Nil
  then show ?case by (auto simp: links_kept_def)
next
  case (Cons op ops)
  obtain r b rs' where q: "q_call en me op a = Some (r, b)" "q_calls en me ops b = Some (rs', a')" "rs = r # rs'"
    using Cons.prems(3) by (auto simp: bind_eq_Some_conv)
  obtain s1 lv1 where s1: "tcall_exec en me op s = Some (r, s1)" "refines lv1 {} s1 b" "links_kept (untouched me a) s s1"
    using call_refines [OF Cons.prems(1,2) q(1)] by blast
  obtain s2 lv2 where s2: "tcalls_exec en me ops s1 = Some (rs', s2)" "refines lv2 {} s2 a'" "links_kept (held me b) s1 s2"
    using Cons.IH [OF s1(2) q_call_wf [OF Cons.prems(2) q(1)] q(2)] by blast
  have "links_kept (held me a) s s1"
    using s1(3) held_untouched [OF Cons.prems(2)] by (simp add: links_kept_def)
  then have "links_kept (held me a) s s2"
    using held_keeps [OF q_call_keeps [OF q(1)]] s2(3) by (rule links_kept_trans)
  then show ?case using s1(1) s2(1,2) q(3) by auto
qed

section \<open>The management pass\<close>

lemma owner_of_small:
  assumes "me < RTE_MAX_LCORE" shows "owner_of me = int me"
proof -
  have "sint (word_of_nat me :: u16) = signed_take_bit 15 (int me)"
    by (simp add: signed_of_nat)
  also have "\<dots> = int me"
    using assms by (intro signed_take_bit_int_eq_self) (simp_all add: RTE_MAX_LCORE_def)
  finally show ?thesis by (simp add: owner_of_def)
qed

lemma set_prev_lcores_same: "set_prev_lcores (\<lambda>c. prev_lcore (privs s c)) s = s"
  by (simp add: set_prev_lcores_def)

lemma finish_refines:
  assumes R: "refines lv {} s a" and wf: "queues_wf a" and me: "me < RTE_MAX_LCORE"
    and t: "t_state (a_info a t) = RTE_TIMER_RUNNING \<or> updated (a_priv a me)" and q: "q_finish me t a = Some a'"
  shows "\<exists>s' lv'. run_finish en me t s = Some s' \<and> refines lv' {} s' a'
    \<and> links_kept (\<lambda>x. x \<noteq> t \<and> waiting a x) s s'"
proof -
  let ?i = "a_info a t"
  consider (upd) "updated (a_priv a me)" | (single) "\<not> updated (a_priv a me)" "t_period ?i = 0"
    | (periodic) "\<not> updated (a_priv a me)" "t_period ?i \<noteq> 0" by blast
  then show ?thesis
  proof cases
    case upd
    then show ?thesis using q R refinesD(2) [OF R, of me]
      by (auto simp: q_finish_def run_finish_def links_kept_def Let_def)
  next
    case single
    let ?g = "\<lambda>x. x\<lparr>t_state := RTE_TIMER_STOP, t_owner := RTE_TIMER_NO_OWNER\<rparr>"
    have "refines lv {} (upd_tim t ?g s) (upd_info t (\<lambda>_. ?g ?i) a)"
      by (rule refines_upd_tim [OF R]) (simp_all add: refinesD(1) [OF R])
    then show ?thesis using q single
      by (auto simp: q_finish_def run_finish_def links_kept_def Let_def refinesD(1,2) [OF R] upd_tim_def upd_info_def)
  next
    case periodic
    have w: "waiting a t" using t wf periodic(1) by (auto simp: waiting_def queues_wf_def)
    have q': "t_expire ?i + t_period ?i \<noteq> 0" "a' = q_place t me (?i\<lparr>t_expire := t_expire ?i + t_period ?i,
        t_state := RTE_TIMER_PENDING, t_owner := int me\<rparr>) a"
      using q periodic by (auto simp: q_finish_def Let_def split: if_splits)
    obtain s1 where s1: "list_lock_take me s = Some s1" "tims s1 = tims s" "refines lv {me} s1 a"
      using refines_lock(1) [OF R, of me] by auto
    let ?g2 = "\<lambda>x. x\<lparr>t_state := RTE_TIMER_PENDING, t_owner := int me\<rparr>"
    let ?g3 = "\<lambda>x. x\<lparr>t_state := RTE_TIMER_CONFIG, t_owner := owner_of me\<rparr>"
    let ?g4 = "\<lambda>x. x\<lparr>t_period := t_period ?i, t_expire := t_expire ?i + t_period ?i, t_f := t_f ?i\<rparr>"
    define s2 where "s2 = upd_tim t ?g2 s1"
    define a2 where "a2 = upd_info t (\<lambda>_. ?g2 ?i) a"
    have R2: "refines lv {me} s2 a2"
      unfolding s2_def a2_def by (rule refines_upd_tim [OF s1(3)]) (simp_all add: refinesD(1) [OF s1(3)])
    define s3 where "s3 = upd_tim t ?g3 s2"
    have "refines lv {me} s3 (upd_info t (\<lambda>_. ?g3 (a_info a2 t)) a2)"
      unfolding s3_def by (rule refines_upd_tim [OF R2]) (simp_all add: refinesD(1) [OF R2])
    then have R3: "refines lv {me} s3 (upd_info t (\<lambda>_. ?g3 ?i) a)" by (simp add: a2_def upd_info_def)
    have "sl_ok s3 me lv (a_list a me)" using refinesD(4) [OF R3, of me] by simp
    then have un: "timer_unlink t me s3 = Some s3"
      using w by (intro timer_unlink_absent [of s3 me lv "a_list a me"]) (auto simp: sl_ok_def waiting_def)
    define s4 where "s4 = upd_tim t ?g4 s3"
    have "refines lv {me} s4 (upd_info t (\<lambda>_. ?g4 (?g3 ?i)) (upd_info t (\<lambda>_. ?g3 ?i) a))"
      unfolding s4_def using w refinesD(1) [OF R3, of t] by (intro refines_upd_tim [OF R3]) (simp_all add: waiting_def)
    then have R4: "refines lv {me} s4 (upd_info t (\<lambda>_. ?g4 (?g3 ?i)) a)" by (simp add: upd_info_def)
    obtain s5 lv' where s5: "timer_attach me t me True s4 = Some s5"
      "refines lv' {me} s5 (q_place t me (?g2 (?g4 (?g3 ?i))) (upd_info t (\<lambda>_. ?g4 (?g3 ?i)) a))"
      "links_kept (\<lambda>x. x \<noteq> t \<and> waiting a x) s4 s5"
      using timer_attach_refines [OF R4, of t me me True] w q'(1) me by (auto simp: waiting_def)
    have "q_place t me (?g2 (?g4 (?g3 ?i))) (upd_info t (\<lambda>_. ?g4 (?g3 ?i)) a) = a'"
      by (simp add: q'(2) q_place_def Let_def upd_info_def)
    then have R6: "refines lv' {} (list_lock_release me s5) a'"
      using refines_lock(2) [OF s5(2), of me] by simp
    have pick: "pick_lcore en me me prv = Some (me, prv)" for prv
      using me by (simp add: pick_lcore_def LCORE_ID_ANY_def RTE_MAX_LCORE_def)
    have nb: "\<not> q_busy me t a2" "t_state (a_info a2 t) = RTE_TIMER_PENDING" "t_owner (a_info a2 t) = int me"
      by (simp_all add: q_busy_def a2_def)
    have "timer_reset_at en me t (t_expire ?i + t_period ?i) (t_period ?i) me (t_f ?i) True s2 = Some (0, s5)"
      using config_refines [OF R2, of me t] nb un s5(1) me
      by (simp add: timer_reset_at_def pick set_prev_lcores_same timer_detach_def timer_del_def Let_def s3_def s4_def)
    moreover have "t_expire (tims s2 t) = t_expire ?i" "t_period (tims s2 t) = t_period ?i" "t_f (tims s2 t) = t_f ?i"
      using s1(2) by (simp_all add: s2_def upd_tim_def refinesD(1) [OF R])
    ultimately have "run_finish en me t s = Some (list_lock_release me s5)"
      using periodic s1(1) by (simp add: run_finish_def refinesD(1,2) [OF R] Let_def flip: s2_def)
    moreover have "links_kept (\<lambda>x. x \<noteq> t \<and> waiting a x) s (list_lock_release me s5)"
      using s5(3) s1(2) by (auto simp: links_kept_def s2_def s3_def s4_def upd_tim_def list_lock_release_def upd_priv_def)
    ultimately show ?thesis using R6 by blast
  qed
qed

abbreviation run_path :: "timers \<Rightarrow> tref list \<Rightarrow> bool" where
  "run_path s ts \<equiv> ts \<noteq> [] \<longrightarrow> lpath (\<lambda>x. sl_next (tims s (the x)) 0) (Some (hd ts)) (tl ts)"

abbreviation first_of :: "tref list \<Rightarrow> tref option" where
  "first_of ts \<equiv> (if ts = [] then None else Some (hd ts))"

lemma run_path_next: "run_path s (t # ts) \<Longrightarrow> sl_next (tims s t) 0 = first_of ts \<and> run_path s ts"
  by (cases ts) auto

lemma run_path_cong:
  assumes p: "run_path s ts" and e: "\<And>x. x \<in> set ts \<Longrightarrow> sl_next (tims s' x) = sl_next (tims s x)"
  shows "run_path s' ts"
proof
  assume ne: "ts \<noteq> []"
  then have "lpath (\<lambda>x. sl_next (tims s (the x)) 0) (Some (hd ts)) (tl ts)" using p by blast
  moreover have "lpath (\<lambda>x. sl_next (tims s (the x)) 0) (Some (hd ts)) (tl ts)
      = lpath (\<lambda>x. sl_next (tims s' (the x)) 0) (Some (hd ts)) (tl ts)"
    by (rule lpath_cong) (use ne in \<open>simp_all add: e list.set_sel(2)\<close>)
  ultimately show "lpath (\<lambda>x. sl_next (tims s' (the x)) 0) (Some (hd ts)) (tl ts)" by blast
qed

lemma run_transition_marks:
  assumes "run_path s ts" "distinct ts" "\<forall>x\<in>set ts. t_state (tims s x) = RTE_TIMER_PENDING"
  shows "run_transition me pp (first_of ts) rf s = Some (rf, s\<lparr>tims := (\<lambda>x. if x \<in> set ts
     then (tims s x)\<lparr>t_state := RTE_TIMER_RUNNING, t_owner := owner_of me\<rparr> else tims s x)\<rparr>)"
  using assms
proof (induction ts arbitrary: s pp)
  case Nil
  then show ?case by (simp add: run_transition.simps)
next
  case (Cons t ts)
  let ?s = "upd_tim t (\<lambda>x. x\<lparr>t_state := RTE_TIMER_RUNNING, t_owner := owner_of me\<rparr>) s"
  note nx = run_path_next [OF Cons.prems(1)]
  have "run_path ?s ts"
    by (rule run_path_cong [OF conjunct2 [OF nx]]) (simp add: upd_tim_def)
  then have "run_transition me (Some t) (first_of ts) rf ?s = Some (rf, ?s\<lparr>tims := (\<lambda>x. if x \<in> set ts
     then (tims ?s x)\<lparr>t_state := RTE_TIMER_RUNNING, t_owner := owner_of me\<rparr> else tims ?s x)\<rparr>)"
    using Cons.prems(2,3) by (intro Cons.IH) (auto simp: upd_tim_def)
  moreover have "run_transition me pp (Some t) rf s = run_transition me (Some t) (first_of ts) rf ?s"
    using Cons.prems(3) nx by (subst run_transition.simps) (simp add: timer_set_running_state_def)
  moreover have "?s\<lparr>tims := (\<lambda>x. if x \<in> set ts
     then (tims ?s x)\<lparr>t_state := RTE_TIMER_RUNNING, t_owner := owner_of me\<rparr> else tims ?s x)\<rparr>
     = s\<lparr>tims := (\<lambda>x. if x \<in> set (t # ts)
     then (tims s x)\<lparr>t_state := RTE_TIMER_RUNNING, t_owner := owner_of me\<rparr> else tims s x)\<rparr>"
    using Cons.prems(2) by (intro timers.equality ext) (auto simp: upd_tim_def)
  ultimately show ?case by simp
qed

text \<open>The callbacks, one after the other along the cut-off list.\<close>

lemma timers_run_refines:
  assumes "refines lv {} s a" "queues_wf a" "distinct ts"
    "\<forall>x\<in>set ts. t_state (a_info a x) = RTE_TIMER_RUNNING" "me < RTE_MAX_LCORE" "run_path s ts"
    "q_run en me cb ts a = Some (lg, a')"
  shows "\<exists>s' lv'. run_timers en me cb (first_of ts) s = Some (lg, s') \<and> refines lv' {} s' a'"
  using assms
proof (induction ts arbitrary: lv s a lg)
  case Nil
  let ?f = "running_tim_update (\<lambda>_. None)"
  have "refines lv {} (upd_priv me ?f s) (upd_pinfo me ?f a)"
    by (rule refines_upd_priv [OF Nil.prems(1)]) (simp_all add: refinesD(2) [OF Nil.prems(1)])
  then show ?case using Nil.prems(7) by (auto simp: run_timers.simps)
next
  case (Cons t ts)
  obtain rs b b' lg' where q: "q_calls en me (cb t) (q_mark me t a) = Some (rs, b)" "q_finish me t b = Some b'"
    "q_run en me cb ts b' = Some (lg', a')" and lg: "lg = (t, rs) # lg'"
    using Cons.prems(7) by (auto simp: bind_eq_Some_conv q_mark_def)
  let ?m = "\<lambda>p. p\<lparr>updated := False, running_tim := Some t\<rparr>"
  have "refines lv {} (upd_priv me ?m s) (q_mark me t a)"
    unfolding q_mark_def by (rule refines_upd_priv [OF Cons.prems(1)])
      (simp_all add: refinesD(2) [OF Cons.prems(1)] pinfo.truncate_def)
  from calls_refine [OF this q_mark_wf [OF Cons.prems(2)] q(1)] obtain s1 lv1 where
    s1: "tcalls_exec en me (cb t) (upd_priv me ?m s) = Some (rs, s1)" "refines lv1 {} s1 b"
    "links_kept (held me (q_mark me t a)) (upd_priv me ?m s) s1" by blast
  have wb: "queues_wf b" using q(1) Cons.prems(2) by (blast intro: q_calls_wf q_mark_wf)
  have tb: "t_state (a_info b t) = RTE_TIMER_RUNNING \<or> updated (a_priv b me)"
    using q_callback_keeps(2) [OF q(1)] Cons.prems(4,5) by auto
  obtain s2 lv2 where s2: "run_finish en me t s1 = Some s2" "refines lv2 {} s2 b'"
    "links_kept (\<lambda>x. x \<noteq> t \<and> waiting b x) s1 s2"
    using finish_refines [OF s1(2) wb Cons.prems(5) tb q(2)] by blast
  have keep: "sl_next (tims s2 x) = sl_next (tims s x) \<and> t_state (a_info b' x) = RTE_TIMER_RUNNING"
    if "x \<in> set ts" for x
  proof -
    have x: "x \<noteq> t" "t_state (a_info a x) = RTE_TIMER_RUNNING" using that Cons.prems(3,4) by auto
    then have bx: "a_info b x = a_info a x" using q_callback_keeps(1) [OF q(1)] by blast
    then have "waiting b x" using wf_waiting [OF wb, of x] x(2) by simp
    then show ?thesis
      using s1(3) s2(3) x bx q_finish_wf(2) [OF wb tb Cons.prems(5) q(2)]
      by (simp add: links_kept_def held_def q_mark_def upd_priv_def)
  qed
  note nx = run_path_next [OF Cons.prems(6)]
  have "run_path s2 ts" by (rule run_path_cong [OF conjunct2 [OF nx]]) (simp add: keep)
  then obtain s3 lv3 where "run_timers en me cb (first_of ts) s2 = Some (lg', s3)" "refines lv3 {} s3 a'"
    using Cons.IH [OF s2(2) q_finish_wf(1) [OF wb tb Cons.prems(5) q(2)] _ _ Cons.prems(5) _ q(3)]
      Cons.prems(3) keep by auto
  then show ?case
    using s1(1) s2(1) nx lg by (subst run_timers.simps) (simp, blast)
qed

lemma refines_marks:
  assumes R: "refines lv K s a" and D: "\<And>x. x \<in> D \<Longrightarrow> waiting a x"
  shows "refines lv K (s\<lparr>tims := (\<lambda>x. if x \<in> D then (tims s x)\<lparr>t_state := st, t_owner := ow\<rparr> else tims s x)\<rparr>)
    (a\<lparr>a_info := (\<lambda>x. if x \<in> D then (a_info a x)\<lparr>t_state := st, t_owner := ow\<rparr> else a_info a x)\<rparr>)"
    (is "refines lv K ?s ?a")
proof -
  have "sl_ok ?s c lv (a_list a c)" for c
    by (rule sl_ok_cong [OF refinesD(4) [OF R]]) (auto simp: node_next_def split: option.split)
  then show ?thesis using R by (auto simp: refines_def q_expire_def)
qed

lemma beyond_q: "refines lv K s a \<Longrightarrow> beyond s now ts = dropWhile (\<lambda>t. q_expire a t \<le> now) ts"
  "refines lv K s a \<Longrightarrow> due s now (a_list a c) = q_due a c now"
  using refines_expire [of lv K s a] by (simp_all add: q_due_def fun_eq_iff)

text \<open>Cutting and marking is the start of the pass on the queues.\<close>

lemma start_refines:
  assumes R: "refines lv {me} s a" and wf: "queues_wf a" and me: "me < RTE_MAX_LCORE" and ne: "q_due a me now \<noteq> []"
  shows "\<exists>prev s3. timer_get_prev_entries now me s = Some prev
    \<and> run_transition me None (head_next (privs s me) 0) (head_next (privs s me) 0)
        (cut_levels me prev (curr_skiplist_depth (privs s me)) s) = Some (first_of (q_due a me now), s3)
    \<and> refines lv {me} (upd_priv me (\<lambda>p. p\<lparr>head_expire := first_expire me s3\<rparr>) s3) (q_start me now a)
    \<and> run_path s3 (q_due a me now)"
proof -
  let ?ts = "a_list a me" and ?due = "q_due a me now"
  let ?mark = "\<lambda>s. s\<lparr>tims := (\<lambda>x. if x \<in> set ?due
     then (tims s x)\<lparr>t_state := RTE_TIMER_RUNNING, t_owner := owner_of me\<rparr> else tims s x)\<rparr>"
  have L: "sl_list s me lv ?ts" and D: "sl_depth lv ?ts (curr_skiplist_depth (privs s me))"
    using refinesD(4) [OF R, of me] by (auto simp: sl_ok_def)
  obtain prev where prev: "timer_get_prev_entries now me s = Some prev"
    using timer_get_prev_entries_list [OF L D] by blast
  define s1 where "s1 = cut_levels me prev (curr_skiplist_depth (privs s me)) s"
  note cut = cut_levels_splits [OF L D _ prev, unfolded beyond_q [OF R], OF ne, folded s1_def]
  define s2 where "s2 = upd_priv me (\<lambda>p. p\<lparr>head_expire := first_expire me s1\<rparr>) s1"
  have only: "links_only me (set ?ts) s s2"
    unfolding s2_def by (rule links_only_trans [OF cut(4)]) (intro links_only_upd_priv, simp)
  have "first_expire me s2 = first_expire me s1"
    by (simp add: s2_def first_expire_def upd_priv_def split: option.split)
  moreover have "node_next s2 me = node_next s1 me" "tims s2 = tims s1"
    "head_expire (privs s2 me) = first_expire me s1"
    "curr_skiplist_depth (privs s2 me) = curr_skiplist_depth (privs s1 me)"
    unfolding s2_def by (simp add: node_next_upd_priv) (simp_all add: upd_priv_def)
  ultimately have "sl_ok s2 me lv (dropWhile (\<lambda>t. q_expire a t \<le> now) ?ts)"
    using cut(1,2) sl_list_cong [of s2 me s1] by (simp add: sl_ok_def)
  then have R2: "refines lv {me} s2 (upd_list me (\<lambda>_. dropWhile (\<lambda>t. q_expire a t \<le> now) ?ts) a)"
    using refinesD(5) [OF R] refinesD(6) [OF R, of _ me] refines_expire [OF R, symmetric]
    by (intro refines_list [OF R _ only]) (auto dest: set_dropWhileD)
  have wm: "waiting (upd_list me (\<lambda>_. dropWhile (\<lambda>t. q_expire a t \<le> now) ?ts) a) x" if "x \<in> set ?due" for x
  proof -
    have x: "x \<in> set ?ts" "q_expire a x \<le> now" using that q_due_sorted(1) [OF wf] by auto
    have "dropWhile (\<lambda>t. q_expire a t \<le> now) ?ts = filter (\<lambda>t. \<not> q_expire a t \<le> now) ?ts"
      using q_start_list [OF wf, of me now me] by (simp add: q_start_def)
    then have "x \<notin> set (dropWhile (\<lambda>t. q_expire a t \<le> now) ?ts)"
      using x(2) by simp
    then show ?thesis using refinesD(5) [OF R x(1)] by (auto simp: waiting_def)
  qed
  let ?a = "upd_list me (\<lambda>_. dropWhile (\<lambda>t. q_expire a t \<le> now) ?ts) a"
  have eq: "?a\<lparr>a_info := (\<lambda>x. if x \<in> set ?due
      then (a_info ?a x)\<lparr>t_state := RTE_TIMER_RUNNING, t_owner := int me\<rparr> else a_info ?a x)\<rparr> = q_start me now a"
    by (simp add: q_start_def upd_list_def cong: if_cong)
  have R4: "refines lv {me} (?mark s2) (q_start me now a)"
    unfolding owner_of_small [OF me] eq [symmetric] by (rule refines_marks [OF R2 wm])
  have "?mark s2 = upd_priv me (\<lambda>p. p\<lparr>head_expire := first_expire me (?mark s1)\<rparr>) (?mark s1)"
    by (auto simp: s2_def upd_priv_def first_expire_def split: option.split cong: if_cong)
  moreover have "head_next (privs s me) 0 = first_of ?due"
    using first_expire_path [OF L] ne by (cases ?ts) (auto simp: q_due_def split: if_splits)
  moreover have "\<forall>x\<in>set ?due. t_state (tims s1 x) = RTE_TIMER_PENDING"
    using wf q_due_sorted(1) [OF wf] links_onlyD(2) [OF cut(4)] refinesD(1) [OF R] by (force simp: queues_wf_def)
  then have "run_transition me None (first_of ?due) (first_of ?due) s1 = Some (first_of ?due, ?mark s1)"
    using cut(3) q_due_sorted(2) [OF wf] by (intro run_transition_marks) auto
  moreover have "run_path (?mark s1) ?due"
    by (rule run_path_cong [of ?due s1]) (use cut(3) in simp_all)
  ultimately show ?thesis using prev R4 by (auto simp: s1_def)
qed

lemma manage_refines:
  assumes R: "refines lv {} s a" and wf: "queues_wf a" and q: "q_manage en me now cb a = Some (lg, a')"
  shows "\<exists>s' lv'. rte_timer_manage en me now cb s = Some (lg, s') \<and> refines lv' {} s' a'"
proof -
  let ?ts = "a_list a me"
  have me: "me < RTE_MAX_LCORE" using q by (simp add: q_manage_def split: if_splits)
  have ok: "sl_ok s me lv ?ts" using refinesD(4) [OF R] .
  have hd: "head_next (privs s me) 0 = first_of ?ts" "first_expire me s = (if ?ts = [] then 0 else q_expire a (hd ?ts))"
    "head_expire (privs s me) = first_expire me s"
    using first_expire_path [of s me lv ?ts] ok refines_expire [OF R] by (auto simp: sl_ok_def fun_eq_iff)
  have due: "q_due a me now = [] \<longleftrightarrow> ?ts = [] \<or> first_expire me s > now"
    using hd(2) by (cases ?ts) (auto simp: q_due_def)
  show ?thesis
  proof (cases "q_due a me now = []")
    case True
    then show ?thesis using q me R due hd by (auto simp: q_manage_def rte_timer_manage_def)
  next
    case False
    obtain s1 where s1: "list_lock_take me s = Some s1" "tims s1 = tims s" "refines lv {me} s1 a"
      using refines_lock(1) [OF R, of me] by auto
    have "sl_ok s1 me lv ?ts" using refinesD(4) [OF s1(3)] .
    then have h1: "head_next (privs s1 me) 0 = first_of ?ts" "first_expire me s1 = first_expire me s"
      using first_expire_path [of s1 me lv ?ts] hd(2) s1(2) refines_expire [OF R] by (auto simp: sl_ok_def fun_eq_iff)
    obtain prev s3 where s3: "timer_get_prev_entries now me s1 = Some prev"
      "run_transition me None (head_next (privs s1 me) 0) (head_next (privs s1 me) 0)
         (cut_levels me prev (curr_skiplist_depth (privs s1 me)) s1) = Some (first_of (q_due a me now), s3)"
      "refines lv {me} (upd_priv me (\<lambda>p. p\<lparr>head_expire := first_expire me s3\<rparr>) s3) (q_start me now a)"
      "run_path s3 (q_due a me now)"
      using start_refines [OF s1(3) wf me False] by blast
    define s4 where "s4 = list_lock_release me (upd_priv me (\<lambda>p. p\<lparr>head_expire := first_expire me s3\<rparr>) s3)"
    have R4: "refines lv {} s4 (q_start me now a)"
      unfolding s4_def using refines_lock(2) [OF s3(3), of me] by simp
    have "run_path s4 (q_due a me now)"
      by (rule run_path_cong [OF s3(4)]) (simp add: s4_def list_lock_release_def upd_priv_def)
    moreover have "\<forall>x\<in>set (q_due a me now). t_state (a_info (q_start me now a) x) = RTE_TIMER_RUNNING"
      by (simp add: q_start_info)
    moreover have "q_run en me cb (q_due a me now) (q_start me now a) = Some (lg, a')"
      using q me False by (simp add: q_manage_def)
    ultimately obtain s5 lv' where
      "run_timers en me cb (first_of (q_due a me now)) s4 = Some (lg, s5)" "refines lv' {} s5 a'"
      using timers_run_refines [OF R4 q_start_wf [OF wf] _ _ me] q_due_sorted(2) [OF wf] by blast
    moreover have "rte_timer_manage en me now cb s = run_timers en me cb (first_of (q_due a me now)) s4"
    proof -
      have "?ts \<noteq> []" "\<not> now < first_expire me s" using False due by auto
      then show ?thesis
        using False hd h1 me s1(1) s3(1,2) by (simp add: rte_timer_manage_def Let_def s4_def)
    qed
    ultimately show ?thesis by auto
  qed
qed

lemma event_refines:
  assumes R: "refines lv {} s a" and wf: "queues_wf a" and q: "q_event en e a = Some (r, a')"
  shows "\<exists>s' lv'. timer_event en e s = Some (r, s') \<and> refines lv' {} s' a'"
proof (cases e)
  case (EInit t)
  let ?g = "\<lambda>x. x\<lparr>t_state := RTE_TIMER_STOP, t_owner := RTE_TIMER_NO_OWNER\<rparr>"
  have "refines lv {} (rte_timer_init t s) (upd_info t (\<lambda>_. ?g (a_info a t)) a)"
    unfolding rte_timer_init_def by (rule refines_upd_tim [OF R]) (simp_all add: refinesD(1) [OF R])
  then show ?thesis using q EInit by (auto simp: upd_info_def split: if_splits)
next
  case (ECall me op)
  then show ?thesis using q call_refines [OF R wf] by (fastforce simp: bind_eq_Some_conv)
next
  case (EManage me now cb)
  then show ?thesis using q manage_refines [OF R wf] by (fastforce simp: bind_eq_Some_conv)
qed

lemma events_refine:
  "refines lv {} s a \<Longrightarrow> queues_wf a \<Longrightarrow> q_events en es a = Some (os, a')
   \<Longrightarrow> \<exists>s' lv'. timer_events en es s = Some (os, s') \<and> refines lv' {} s' a'"
proof (induction es arbitrary: lv s a os)
  case Nil
  then show ?case by auto
next
  case (Cons e es)
  obtain o1 b os' where q: "q_event en e a = Some (o1, b)" "q_events en es b = Some (os', a')" "os = o1 # os'"
    using Cons.prems(3) by (auto simp: bind_eq_Some_conv)
  obtain s1 lv1 where "timer_event en e s = Some (o1, s1)" "refines lv1 {} s1 b"
    using event_refines [OF Cons.prems(1,2) q(1)] by blast
  then show ?case
    using Cons.IH [OF _ q_event_wf [OF Cons.prems(2) q(1)] q(2)] q(3) by fastforce
qed

section \<open>Properties\<close>

text \<open>The library after \<open>rte_timer_subsystem_init\<close> and its queues: nothing is pending.\<close>

definition q_init :: "timers \<Rightarrow> queues" where
  "q_init s = \<lparr>a_info = (\<lambda>t. tinfo.truncate (tims s t)), a_priv = (\<lambda>c. pinfo.truncate (priv_timer_init c)),
     a_list = (\<lambda>_. [])\<rparr>"

lemma init_refines: "refines lv {} (rte_timer_subsystem_init s) (q_init s)"
  by (auto simp: refines_def q_init_def rte_timer_subsystem_init_def priv_timer_init_def sl_ok_def sl_list_def
      sl_depth_def first_expire_def node_next_def)

lemma q_init_wf: "(\<forall>t. t_state (tims s t) \<noteq> RTE_TIMER_PENDING) \<Longrightarrow> queues_wf (q_init s)"
  by (simp add: queues_wf_def q_init_def)

end
