(* ===== verification/Timer_Claims.thy ===== *)
theory Timer_Claims
  imports Timer_Props
begin

text \<open>
  The statements about the timer library: programs on skip lists run as on queues, a management pass
  runs exactly the due timers, the stack's periodic ARP timer fires in every pass, and two defects.
\<close>

text \<open>A library without timers set: every timer is stopped.\<close>

definition timers_zero :: timers where
  "timers_zero = \<lparr>tims = (\<lambda>_. \<lparr>t_expire = 0, t_state = RTE_TIMER_STOP, t_owner = 0, t_period = 0, t_f = 0,
       sl_next = (\<lambda>_. None)\<rparr>),
     privs = priv_timer_init, rands = (\<lambda>n. of_nat (4 ^ (n mod 3 + 1))), rand_pos = 0\<rparr>"

definition timer_program :: "tevent list" where
  "timer_program = [EInit 0, EInit 1, EInit 2,
     ECall 3 (TReset 100 0 50 SINGLE 3 7), ECall 3 (TReset 101 1 10 PERIODICAL 3 8),
     ECall 4 (TReset 105 2 45 SINGLE 3 9), ECall 3 (TStop 0), ECall 3 (TReset 106 0 44 SINGLE LCORE_ID_ANY 7)]"

lemma idle_start [simp]: "\<forall>t. t_state (tims timers_zero t) \<noteq> RTE_TIMER_PENDING"
  by (simp add: timers_zero_def)

text \<open>C16. Every program of resets, stops, initialisations and management passes, by any lcores and with
  any callbacks, runs on the skip lists as it runs on the ordered queues: the same return values, the
  same timers run in the same order, and at the end the same fields and the same queue on every lcore,
  whatever random levels the timers got.\<close>

theorem timer_run_refines:
  assumes "\<forall>t. t_state (tims s t) \<noteq> RTE_TIMER_PENDING" "q_events en es (q_init s) = Some (os, a)"
  shows "\<exists>s'. timer_events en es (rte_timer_subsystem_init s) = Some (os, s')
    \<and> (\<forall>t. tinfo.truncate (tims s' t) = a_info a t)
    \<and> (\<forall>c. lpath (node_next s' c 0) None (a_list a c))"
proof -
  obtain s' lv where s': "timer_events en es (rte_timer_subsystem_init s) = Some (os, s')" "refines lv {} s' a"
    using events_refine [OF init_refines q_init_wf [OF assms(1)] assms(2)] by blast
  have "lpath (node_next s' c 0) None (filter (\<lambda>t. 0 \<le> lv t) (a_list a c))" for c
    using refinesD(4) [OF s'(2), of c] unfolding sl_ok_def sl_list_def by blast
  then show ?thesis using s' refinesD(1) [OF s'(2)] by auto
qed

lemma timer_run_refines_witness:
  "\<exists>os s'. timer_events (\<lambda>c. c = 3) timer_program (rte_timer_subsystem_init timers_zero) = Some (os, s')
    \<and> lpath (node_next s' 3 0) None [1, 2, 0]"
proof -
  have "\<exists>os a. q_events (\<lambda>c. c = 3) timer_program (q_init timers_zero) = Some (os, a) \<and> a_list a 3 = [1, 2, 0]"
    by (simp add: timer_program_def q_init_def timers_zero_def q_reset_def q_stop_def q_busy_def pick_lcore_def
        LCORE_ID_ANY_def RTE_MAX_LCORE_def q_place_def q_detach_def Let_def insert_after_def q_expire_def
        priv_timer_init_def rte_get_next_lcore_def next_lcore_loop.simps upd_info_def upd_list_def upd_pinfo_def
        tinfo.truncate_def pinfo.truncate_def)
  then obtain os a where "q_events (\<lambda>c. c = 3) timer_program (q_init timers_zero) = Some (os, a)"
    "a_list a 3 = [1, 2, 0]" by blast
  then show ?thesis using timer_run_refines [OF idle_start] by metis
qed

lemma q_events_append:
  "q_events en (xs @ ys) a = do { (os, b) \<leftarrow> q_events en xs a; (os', c) \<leftarrow> q_events en ys b; Some (os @ os', c) }"
proof (induction xs arbitrary: a)
  case Nil
  show ?case by (cases "q_events en ys a") auto
next
  case (Cons e es)
  show ?case
  proof (cases "q_event en e a")
    case (Some r)
    then show ?thesis
      by (cases r; cases "q_events en es (snd r)"; cases "q_events en ys (snd (the (q_events en es (snd r))))")
         (auto simp: Cons)
  qed simp
qed

text \<open>The pending timers of an lcore, read off the implementation.\<close>

lemma pending_queue:
  assumes R: "refines lv K s a" and wf: "queues_wf a" and c: "c < RTE_MAX_LCORE"
  shows "set (a_list a c) = {t. rte_timer_pending t s \<and> t_owner (tims s t) = int c}"
proof -
  have "t \<in> set (a_list a c) \<longleftrightarrow> t_state (a_info a t) = RTE_TIMER_PENDING \<and> t_owner (a_info a t) = int c" for t
  proof
    assume t: "t_state (a_info a t) = RTE_TIMER_PENDING \<and> t_owner (a_info a t) = int c"
    then have "t \<in> set (a_list a (nat (t_owner (a_info a t))))" using wf unfolding queues_wf_def by blast
    then show "t \<in> set (a_list a c)" using t by simp
  qed (use wf in \<open>auto simp: queues_wf_def\<close>)
  then show ?thesis by (auto simp: rte_timer_pending_def refinesD(1) [OF R])
qed

text \<open>C17. A management pass runs the callbacks of exactly the timers that are pending on the calling lcore
  and have expired, each once, earliest first: no timer runs early, none is missed or run twice, whatever
  the callbacks reset and stop.\<close>

theorem timer_manage_due:
  assumes "\<forall>t. t_state (tims s t) \<noteq> RTE_TIMER_PENDING"
    and "q_events en (es @ [EManage me now cb]) (q_init s) \<noteq> None"
  shows "\<exists>os s1 lg s2. timer_events en es (rte_timer_subsystem_init s) = Some (os, s1)
    \<and> rte_timer_manage en me now cb s1 = Some (lg, s2) \<and> distinct (map fst lg)
    \<and> sorted (map (\<lambda>t. t_expire (tims s1 t)) (map fst lg))
    \<and> set (map fst lg) = {t. rte_timer_pending t s1 \<and> t_owner (tims s1 t) = int me \<and> t_expire (tims s1 t) \<le> now}"
proof -
  obtain os a lg a' where q: "q_events en es (q_init s) = Some (os, a)" "q_manage en me now cb a = Some (lg, a')"
    using assms(2) by (fastforce simp: q_events_append bind_eq_Some_conv split: prod.splits)
  note wf = q_events_wf [OF q_init_wf [OF assms(1)] q(1)]
  obtain s1 lv where s1: "timer_events en es (rte_timer_subsystem_init s) = Some (os, s1)" "refines lv {} s1 a"
    using events_refine [OF init_refines q_init_wf [OF assms(1)] q(1)] by blast
  obtain s2 where s2: "rte_timer_manage en me now cb s1 = Some (lg, s2)"
    using manage_refines [OF s1(2) wf q(2)] by blast
  have me: "me < RTE_MAX_LCORE" using q(2) by (simp add: q_manage_def split: if_splits)
  have m: "map fst lg = q_due a me now" using q_manage_wf [OF wf q(2)] by blast
  have e: "q_expire a = (\<lambda>t. t_expire (tims s1 t))" using refines_expire [OF s1(2)] by simp
  show ?thesis
  proof (intro exI conjI)
    show "sorted (map (\<lambda>t. t_expire (tims s1 t)) (map fst lg))" "distinct (map fst lg)"
      unfolding m e [symmetric] using q_due_sorted(2) [OF wf] by auto
    show "set (map fst lg) = {t. rte_timer_pending t s1 \<and> t_owner (tims s1 t) = int me \<and> t_expire (tims s1 t) \<le> now}"
      unfolding m q_due_sorted(1) [OF wf] pending_queue [OF s1(2) wf me] by (auto simp: e)
  qed (fact s1(1) s2)+
qed

lemmas q_eval = q_init_def timers_zero_def q_reset_def q_stop_def q_busy_def pick_lcore_def
  LCORE_ID_ANY_def RTE_MAX_LCORE_def q_place_def q_detach_def Let_def insert_after_def q_expire_def
  priv_timer_init_def rte_get_next_lcore_def next_lcore_loop.simps upd_info_def upd_list_def upd_pinfo_def
  tinfo.truncate_def pinfo.truncate_def q_manage_def q_due_def q_start_def q_finish_def

lemma timer_manage_due_witness:
  "\<exists>os s1 lg s2. timer_events (\<lambda>c. c = 3) timer_program (rte_timer_subsystem_init timers_zero) = Some (os, s1)
    \<and> rte_timer_manage (\<lambda>c. c = 3) 3 150 (\<lambda>t. if t = 1 then [TStop 2, TReset 150 0 9 SINGLE 3 7] else []) s1 = Some (lg, s2)
    \<and> set (map fst lg) = {t. rte_timer_pending t s1 \<and> t_owner (tims s1 t) = 3 \<and> t_expire (tims s1 t) \<le> 150}"
proof -
  have "q_events (\<lambda>c. c = 3) (timer_program @ [EManage 3 150 (\<lambda>t. if t = 1 then [TStop 2, TReset 150 0 9 SINGLE 3 7] else [])])
      (q_init timers_zero) \<noteq> None"
    by (simp add: timer_program_def q_eval)
  from timer_manage_due [OF idle_start this] show ?thesis by auto
qed

section \<open>The ARP timer\<close>

text \<open>The calls of \<open>tcp_from_king.c\<close> on its timer: \<open>rte_timer_init\<close>, a periodic \<open>rte_timer_reset\<close> with a
  period of \<open>hz\<close> cycles on the lcore of \<open>main\<close>, then one \<open>rte_timer_manage\<close> per elapsed resolution. The
  callback does not touch timers.\<close>

definition arp_timer_program :: "nat \<Rightarrow> u64 \<Rightarrow> u64 \<Rightarrow> u64 list \<Rightarrow> tevent list" where
  "arp_timer_program me t0 hz nows =
     [EInit 0, ECall me (TReset t0 0 hz PERIODICAL me 0)] @ map (\<lambda>now. EManage me now (\<lambda>_. [])) nows"

definition arp_queue :: "nat \<Rightarrow> u64 \<Rightarrow> u64 \<Rightarrow> queues \<Rightarrow> bool" where
  "arp_queue me e hz a \<longleftrightarrow> a_list a me = [0] \<and> t_expire (a_info a 0) = e \<and> t_period (a_info a 0) = hz"

lemma arp_pass:
  assumes "arp_queue me e hz a" "e \<le> now" "hz \<noteq> 0" "e + hz \<noteq> 0" "me < RTE_MAX_LCORE"
  shows "\<exists>a'. q_manage en me now (\<lambda>_. []) a = Some ([(0, [])], a') \<and> arp_queue me (e + hz) hz a'"
  using assms
  by (auto simp: arp_queue_def q_manage_def q_due_def q_expire_def q_start_def q_finish_def Let_def
      q_place_def insert_after_def)

lemma arp_passes:
  assumes "hz \<noteq> 0" "me < RTE_MAX_LCORE" "arp_queue me e hz a"
    "\<And>k. k < length nows \<Longrightarrow> unat e + k * unat hz \<le> unat (nows ! k)"
    "unat e + length nows * unat hz < 2 ^ 64" "e \<noteq> 0"
  shows "\<exists>a'. q_events en (map (\<lambda>now. EManage me now (\<lambda>_. [])) nows) a = Some (replicate (length nows) (ORan [(0, [])]), a')"
  using assms(3-)
proof (induction nows arbitrary: e a)
  case Nil
  then show ?case by simp
next
  case (Cons now nows)
  have le: "e \<le> now" using Cons.prems(2) [of 0] by (simp add: word_le_nat_alt)
  have u: "unat (e + hz) = unat e + unat hz"
    using Cons.prems(3) by (simp add: unat_word_ariths)
  then have nz: "e + hz \<noteq> 0" using Cons.prems(4) by (metis add_is_0 unat_0 unat_eq_zero)
  obtain a1 where a1: "q_manage en me now (\<lambda>_. []) a = Some ([(0, [])], a1)" "arp_queue me (e + hz) hz a1"
    using arp_pass [OF Cons.prems(1) le assms(1) nz assms(2)] by blast
  have "unat (e + hz) + k * unat hz \<le> unat (nows ! k)" if "k < length nows" for k
    using Cons.prems(2) [of "Suc k"] that u by simp
  then obtain a' where "q_events en (map (\<lambda>now. EManage me now (\<lambda>_. [])) nows) a1
      = Some (replicate (length nows) (ORan [(0, [])]), a')"
    using Cons.IH [OF a1(2)] Cons.prems(3) u nz by fastforce
  then show ?case using a1(1) by simp
qed

text \<open>C18. The stack's ARP timer: while the clock does not wrap, every management pass made at or after
  the next due time \<open>t0 + k * hz\<close> runs the callback exactly once and the timer stays armed; passes do not
  make up for periods that went by in between.\<close>

theorem arp_timer_ticks:
  assumes "\<forall>t. t_state (tims s t) \<noteq> RTE_TIMER_PENDING" and "me < RTE_MAX_LCORE" and "hz \<noteq> 0"
    and "\<And>k. k < length nows \<Longrightarrow> unat t0 + (k + 1) * unat hz \<le> unat (nows ! k)"
    and "unat t0 + (length nows + 1) * unat hz < 2 ^ 64"
  shows "\<exists>s'. timer_events en (arp_timer_program me t0 hz nows) (rte_timer_subsystem_init s)
    = Some ([ODone, ORet 0] @ replicate (length nows) (ORan [(0, [])]), s')"
proof -
  have u: "unat (t0 + hz) = unat t0 + unat hz"
    using assms(5) by (simp add: unat_word_ariths)
  then have nz: "t0 + hz \<noteq> 0" using assms(3) by (metis add_is_0 unat_0 unat_eq_zero)
  have st: "t_state (tims s 0) \<noteq> RTE_TIMER_PENDING" using assms(1) by blast
  have "\<exists>a. q_events en [EInit 0, ECall me (TReset t0 0 hz PERIODICAL me 0)] (q_init s) = Some ([ODone, ORet 0], a)
      \<and> arp_queue me (t0 + hz) hz a"
    using assms(2) nz st
    by (simp add: q_init_def q_reset_def pick_lcore_def LCORE_ID_ANY_def RTE_MAX_LCORE_def Let_def q_busy_def
        q_detach_def q_place_def insert_after_def arp_queue_def)
  then obtain a where a: "q_events en [EInit 0, ECall me (TReset t0 0 hz PERIODICAL me 0)] (q_init s)
      = Some ([ODone, ORet 0], a)" "arp_queue me (t0 + hz) hz a" by blast
  have "unat (t0 + hz) + k * unat hz \<le> unat (nows ! k)" if "k < length nows" for k
    using assms(4) [OF that] u by simp
  then obtain a' where "q_events en (map (\<lambda>now. EManage me now (\<lambda>_. [])) nows) a
      = Some (replicate (length nows) (ORan [(0, [])]), a')"
    using arp_passes [OF assms(3,2) a(2)] u nz assms(5) by fastforce
  then have "q_events en (arp_timer_program me t0 hz nows) (q_init s)
      = Some ([ODone, ORet 0] @ replicate (length nows) (ORan [(0, [])]), a')"
    using a(1) by (simp only: arp_timer_program_def q_events_append) simp
  then show ?thesis
    using events_refine [OF init_refines q_init_wf [OF assms(1)]] by blast
qed

lemma arp_timer_ticks_witness:
  "\<exists>s'. timer_events (\<lambda>_. True) (arp_timer_program 0 1000 50 [1060, 1200]) (rte_timer_subsystem_init timers_zero)
    = Some ([ODone, ORet 0, ORan [(0, [])], ORan [(0, [])]], s')"
proof -
  have "unat (1000 :: u64) + (k + 1) * unat (50 :: u64) \<le> unat ([1060, 1200 :: u64] ! k)"
    if "k < length [1060, 1200 :: u64]" for k
  proof -
    have "k = 0 \<or> k = 1" using that by auto
    then show ?thesis by auto
  qed
  from arp_timer_ticks [OF idle_start, of 0 50 "[1060, 1200]" 1000 "\<lambda>_. True", OF _ _ this] show ?thesis
    by (simp add: RTE_MAX_LCORE_def)
qed

section \<open>Stopping all timers\<close>

lemma level0_next:
  assumes "refines lv K s a"
  shows "head_next (privs s c) 0 = first_of (a_list a c)"
    and "a_list a c = xs @ t # ys \<Longrightarrow> sl_next (tims s t) 0 = first_of ys"
proof -
  have ok: "sl_list s c lv (a_list a c)" using refinesD(4) [OF assms, of c] by (simp add: sl_ok_def)
  show "head_next (privs s c) 0 = first_of (a_list a c)" using first_expire_path [OF ok] by simp
  have "lpath (node_next s c 0) None (filter (\<lambda>t. 0 \<le> lv t) (a_list a c))" using ok unfolding sl_list_def by blast
  then show "sl_next (tims s t) 0 = first_of ys" if "a_list a c = xs @ t # ys"
    using lpath_after [of "node_next s c 0" None xs t ys] lpath_hd [of "node_next s c 0" "Some t" ys] that
    by (simp add: node_next_def)
qed

lemma stop_list_own:
  assumes "refines lv {me} s a" "queues_wf a" "a_list a me = ts"
  shows "\<exists>s' a'. stop_list en me (\<lambda>_. []) (first_of ts) s = Some s' \<and> refines lv {me} s' a' \<and> queues_wf a'
    \<and> a_list a' me = [] \<and> (\<forall>x. x \<notin> set ts \<longrightarrow> a_info a' x = a_info a x)"
  using assms
proof (induction ts arbitrary: s a)
  case Nil
  then show ?case by (auto simp: stop_list.simps)
next
  case (Cons t ts)
  have t: "t_state (a_info a t) = RTE_TIMER_PENDING" "t_owner (a_info a t) = int me" "distinct (t # ts)"
    using Cons.prems(2,3) by (metis list.set_intros(1) queues_wf_def)+
  have "\<not> q_busy me t a" using t by (simp add: q_busy_def)
  then obtain b where b: "q_stop me t a = (0, b)" "b = upd_info t (\<lambda>i. i\<lparr>t_state := RTE_TIMER_STOP,
      t_owner := RTE_TIMER_NO_OWNER\<rparr>) (q_detach me t a)" by (simp add: q_stop_def)
  obtain s1 where s1: "timer_stop_with me t True s = Some (0, s1)" "refines lv {me} s1 b"
    using stop_with_refines [OF Cons.prems(1,2) b(1), of True] by auto
  have "a_list b me = ts" using t Cons.prems(3) by (simp add: b(2) q_detach_def Let_def)
  then obtain s2 a2 where s2: "stop_list en me (\<lambda>_. []) (first_of ts) s1 = Some s2" "refines lv {me} s2 a2"
    "queues_wf a2" "a_list a2 me = []" "\<forall>x. x \<notin> set ts \<longrightarrow> a_info a2 x = a_info b x"
    using Cons.IH [OF s1(2)] q_stop_wf [OF Cons.prems(2), of me t] b(1) by auto
  have "stop_list en me (\<lambda>_. []) (Some t) s = Some s2"
    using s1(1) s2(1) level0_next(2) [OF Cons.prems(1), of me "[]" t ts] Cons.prems(3)
    by (subst stop_list.simps) simp
  then show ?case using s2 by (auto simp: b(2))
qed

lemma stop_list_other:
  assumes R: "refines lv {c} s a" and wf: "queues_wf a" and c: "c \<noteq> me" and ne: "a_list a c \<noteq> []"
  shows "stop_list en me cb (first_of (a_list a c)) s = None"
proof -
  obtain t ts where ts: "a_list a c = t # ts" using ne by (cases "a_list a c") auto
  have t: "t_state (a_info a t) = RTE_TIMER_PENDING" "t_owner (a_info a t) = int c"
    using wf ts by (metis list.set_intros(1) queues_wf_def)+
  let ?s = "upd_tim t (\<lambda>x. x\<lparr>t_state := RTE_TIMER_CONFIG, t_owner := owner_of me\<rparr>) s"
  have "timer_set_config_state me t s = Some ((RTE_TIMER_PENDING, int c), ?s)"
    using t config_refines [OF R, of me t] by (simp add: q_busy_def)
  moreover have "list_lock_take c ?s = None"
    using refinesD(3) [OF R, of c] by (simp add: list_lock_take_def upd_tim_def)
  ultimately have "timer_stop_with me t True s = None"
    using c by (simp add: timer_stop_with_def timer_detach_def timer_del_def Let_def)
  then show ?thesis using ts by (subst stop_list.simps) simp
qed

text \<open>C19. \<open>rte_timer_stop_all\<close> over an lcore's list: when the caller walks its own list it returns with no
  timer pending there and every other timer as it was; when it walks the list of another lcore on which a
  timer is pending it never returns, because \<open>timer_del\<close> takes the list's lock again, which the walk
  already holds (\<open>local_is_locked\<close> is only believed for the caller's own list).\<close>

theorem timer_stop_all:
  assumes "\<forall>t. t_state (tims s t) \<noteq> RTE_TIMER_PENDING" "q_events en es (q_init s) = Some (os, a)"
    and "timer_events en es (rte_timer_subsystem_init s) = Some (os, s1)" "c < RTE_MAX_LCORE"
  shows "if c = me then \<exists>s2. rte_timer_stop_all en me (\<lambda>_. []) [c] s1 = Some s2
           \<and> (\<forall>t. \<not> (rte_timer_pending t s2 \<and> t_owner (tims s2 t) = int c))
           \<and> (\<forall>t. \<not> (rte_timer_pending t s1 \<and> t_owner (tims s1 t) = int c)
                \<longrightarrow> tinfo.truncate (tims s2 t) = tinfo.truncate (tims s1 t))
         else (\<exists>t. rte_timer_pending t s1 \<and> t_owner (tims s1 t) = int c)
           \<longrightarrow> rte_timer_stop_all en me cb (c # cs) s1 = None"
proof -
  note wf = q_events_wf [OF q_init_wf [OF assms(1)] assms(2)]
  obtain lv where R: "refines lv {} s1 a"
    using events_refine [OF init_refines q_init_wf [OF assms(1)] assms(2)] assms(3) by auto
  note pend = pending_queue [OF R wf assms(4)]
  obtain s2 where s2: "list_lock_take c s1 = Some s2" "tims s2 = tims s1" "refines lv {c} s2 a"
    using refines_lock(1) [OF R, of c] by auto
  note hd = level0_next(1) [OF s2(3), of c]
  show ?thesis
  proof (cases "c = me")
    case True
    obtain s3 a3 where s3: "stop_list en me (\<lambda>_. []) (first_of (a_list a me)) s2 = Some s3" "refines lv {me} s3 a3"
      "queues_wf a3" "a_list a3 me = []" "\<forall>x. x \<notin> set (a_list a me) \<longrightarrow> a_info a3 x = a_info a x"
      using stop_list_own [OF s2(3) [unfolded True] wf refl] by blast
    define s4 where "s4 = list_lock_release me s3"
    have R4: "refines lv {} s4 a3" unfolding s4_def using refines_lock(2) [OF s3(2), of me] by simp
    have "rte_timer_stop_all en me (\<lambda>_. []) [c] s1 = Some s4"
      using s2(1) s3(1) hd True by (cases "a_list a me = []") (simp_all add: s4_def)
    moreover have "{t. rte_timer_pending t s4 \<and> t_owner (tims s4 t) = int c} = {}"
      using pending_queue [OF R4 s3(3) assms(4)] s3(4) True by simp
    moreover have "tinfo.truncate (tims s4 t) = tinfo.truncate (tims s1 t)" if "t \<notin> set (a_list a me)" for t
      using s3(5) that by (simp add: refinesD(1) [OF R4] refinesD(1) [OF R])
    ultimately show ?thesis using True pend by auto
  next
    case False
    have "rte_timer_stop_all en me cb (c # cs) s1 = None" if "set (a_list a c) \<noteq> {}"
      using stop_list_other [OF s2(3) wf False, of en cb] that s2(1) hd by simp
    then show ?thesis using False pend by auto
  qed
qed

lemma timer_stop_all_witness:
  "\<exists>os s1. timer_events (\<lambda>c. c = 3) timer_program (rte_timer_subsystem_init timers_zero) = Some (os, s1)
    \<and> (\<exists>s2. rte_timer_stop_all (\<lambda>c. c = 3) 3 (\<lambda>_. []) [3] s1 = Some s2
         \<and> (\<forall>t. \<not> (rte_timer_pending t s2 \<and> t_owner (tims s2 t) = 3)))"
proof -
  have "\<exists>r. q_events (\<lambda>c. c = 3) timer_program (q_init timers_zero) = Some r"
    by (simp add: timer_program_def q_eval)
  then obtain os a where q: "q_events (\<lambda>c. c = 3) timer_program (q_init timers_zero) = Some (os, a)" by auto
  obtain s1 where s1: "timer_events (\<lambda>c. c = 3) timer_program (rte_timer_subsystem_init timers_zero) = Some (os, s1)"
    using events_refine [OF init_refines q_init_wf [OF idle_start] q] by blast
  show ?thesis
    using timer_stop_all [OF idle_start q s1, of 3 3] s1 by (auto simp: RTE_MAX_LCORE_def)
qed

section \<open>Expiry time 0\<close>

text \<open>\<open>timer_del\<close> looks for the timer among those that expire before \<open>expire - 1\<close>, which wraps when
  \<open>expire\<close> is 0: the search ends behind the last timer of every level, nothing is unlinked, and the
  timer that the caller now marks as stopped is still in the list.\<close>

theorem timer_unlink_zero:
  assumes L: "sl_list s c lv ts" and D: "sl_depth lv ts (curr_skiplist_depth (privs s c))"
    and e: "t_expire (tims s t) = 0"
  shows "\<exists>s'. timer_unlink t c s = Some s' \<and> sl_list s' c lv ts"
proof -
  let ?f = "\<lambda>i. filter (\<lambda>x. i \<le> lv x)" and ?d = "curr_skiplist_depth (privs s c)"
  define s1 where "s1 = del_expire t c s"
  note s1 = del_expire_facts [where t = t and c = c and s = s, folded s1_def]
  have L1: "sl_list s1 c lv ts" using L sl_list_cong [of s1 c s] s1 by simp
  obtain prev where prev: "timer_get_prev_entries (t_expire (tims s1 t) - 1) c s1 = Some prev"
    "\<And>l. prev l = last_node None (?f l (due s1 (t_expire (tims s1 t) - 1) ts))"
    using timer_get_prev_entries_list [OF L1, of "t_expire (tims s1 t) - 1"] D s1(3) by auto
  have all: "due s1 (t_expire (tims s1 t) - 1) ts = ts"
    using e s1(2) by (simp add: takeWhile_eq_all_conv)
  have p: "prev l = last_node None (?f l ts)" for l by (simp only: prev(2) all)
  have "lpath (node_next s1 c l) None (?f l ts @ [])" for l
    using L1 by (simp add: sl_list_def)
  from lpath_suffix [OF this] have none: "node_next s1 c l (prev l) = None" for l by (simp add: p)
  then have walk: "sl_walk (node_next s1 c i) P (prev i) = Some (prev i)" for i P
    by (subst sl_walk.simps) simp
  have "\<exists>prev'. prev_levels_for_node s1 c t ?d prev = Some prev' \<and> (\<forall>i<?d. prev' i = prev i) \<and> (\<forall>i\<ge>?d. prev' i = prev i)"
    by (rule prev_levels_for_node_ok) (simp add: walk)
  then obtain prev' where prev': "timer_get_prev_entries_for_node t c s1 = Some prev'" "\<And>i. prev' i = prev i"
    using prev(1) s1(3) unfolding timer_get_prev_entries_for_node_def by (auto simp: not_less) (metis not_le)
  have "unlink_levels c prev' t k s1 = s1" for k
    by (induction k) (simp_all add: unlink_level_def prev'(2) none)
  then have "timer_unlink t c s = Some (upd_priv c (\<lambda>p. p\<lparr>curr_skiplist_depth :=
      lower_depth (head_next p) (curr_skiplist_depth p)\<rparr>) s1)" (is "_ = Some ?s")
    using prev'(1) by (simp add: timer_unlink_steps flip: s1_def)
  moreover have "sl_list ?s c lv ts"
    using L1 sl_list_cong [of ?s c s1] by (simp add: upd_priv_def) (simp add: node_next_upd_priv flip: upd_priv_def)
  ultimately show ?thesis by blast
qed

end
