(* ===== verification/Dll.thy ===== *)
theory Dll
  imports Prelude
begin

text \<open>
  The doubly linked lists of the repository at the level of their pointers: the macros
  \<open>LL_ADD\<close>/\<open>LL_REMOVE\<close> (\<open>2.4_ustack/tcp_from_king.c\<close>), \<open>List_insert\<close>/\<open>List_remove\<close>
  (\<open>contact_folder/contact.c\<close>) and \<open>List_insert\<close>/\<open>List_delete\<close> (\<open>thread_folder/thread_pool.c\<close>), and the
  interface they share: inserting at the head and removing a member, as operations on the list that
  a chain of nodes stands for.  The other theories use the HOL lists this interface justifies.
\<close>

section \<open>Nodes\<close>

text \<open>The links of all nodes, by address; a null pointer is \<open>None\<close>.\<close>

record links =
  nxt :: "nat \<Rightarrow> nat option"
  prv :: "nat \<Rightarrow> nat option"

definition set_next :: "nat \<Rightarrow> nat option \<Rightarrow> links \<Rightarrow> links" where
  "set_next a q h = h\<lparr>nxt := (nxt h)(a := q)\<rparr>"

definition set_prev :: "nat \<Rightarrow> nat option \<Rightarrow> links \<Rightarrow> links" where
  "set_prev a q h = h\<lparr>prv := (prv h)(a := q)\<rparr>"

lemma set_link_simps [simp]:
  "nxt (set_next a q h) = (nxt h)(a := q)" "prv (set_next a q h) = prv h"
  "prv (set_prev a q h) = (prv h)(a := q)" "nxt (set_prev a q h) = nxt h"
  by (simp_all add: set_next_def set_prev_def)

section \<open>The macros\<close>

text \<open>Each takes the item, the links and the head pointer, and returns the new links and head.\<close>

definition LL_ADD :: "nat \<Rightarrow> links \<times> nat option \<Rightarrow> links \<times> nat option" where
  "LL_ADD item hl =
    (case hl of (h, list) \<Rightarrow>
       let h = set_prev item None h;
           h = set_next item list h;
           h = (case list of None \<Rightarrow> h | Some l \<Rightarrow> set_prev l (Some item) h)
       in (h, Some item))"

definition LL_REMOVE :: "nat \<Rightarrow> links \<times> nat option \<Rightarrow> links \<times> nat option" where
  "LL_REMOVE item hl =
    (case hl of (h, list) \<Rightarrow>
       let h = (case prv h item of None \<Rightarrow> h | Some w \<Rightarrow> set_next w (nxt h item) h);
           h = (case nxt h item of None \<Rightarrow> h | Some y \<Rightarrow> set_prev y (prv h item) h);
           list = (if list = Some item then nxt h item else list)
       in (set_prev item None (set_next item None h), list))"

definition List_insert :: "nat \<Rightarrow> links \<times> nat option \<Rightarrow> links \<times> nat option" where
  "List_insert item hl =
    (case hl of (h, list) \<Rightarrow>
       let h = set_next item list h;
           h = set_prev item None h;
           h = (case list of None \<Rightarrow> h | Some l \<Rightarrow> set_prev l (Some item) h)
       in (h, Some item))"

definition List_delete :: "nat \<Rightarrow> links \<times> nat option \<Rightarrow> links \<times> nat option" where
  "List_delete item hl =
    (case hl of (h, list) \<Rightarrow>
       let h = (case nxt h item of None \<Rightarrow> h | Some y \<Rightarrow> set_prev y (prv h item) h)
       in case prv h item of
            Some w \<Rightarrow> (set_next w (nxt h item) h, list)
          | None \<Rightarrow> (h, nxt h item))"

definition List_remove :: "nat \<Rightarrow> links \<times> nat option \<Rightarrow> links \<times> nat option" where
  "List_remove item hl =
    (case hl of (h, list) \<Rightarrow>
       let h = (case nxt h item of None \<Rightarrow> h | Some y \<Rightarrow> set_prev y (prv h item) h);
           (h, list) = (case prv h item of
             Some w \<Rightarrow> (set_next w (nxt h item) h, list)
           | None \<Rightarrow> (h, nxt h item))
       in (set_prev item None (set_next item None h), list))"

section \<open>Chains\<close>

text \<open>From the pointer \<open>p\<close>, whose predecessor is \<open>pr\<close>, the nodes \<open>xs\<close> lead to the pointer \<open>q\<close>.\<close>

fun chain :: "links \<Rightarrow> nat option \<Rightarrow> nat option \<Rightarrow> nat list \<Rightarrow> nat option \<Rightarrow> bool" where
  "chain h pr p [] q \<longleftrightarrow> p = q"
| "chain h pr p (x # xs) q \<longleftrightarrow> p = Some x \<and> prv h x = pr \<and> chain h (Some x) (nxt h x) xs q"

definition last_of :: "nat option \<Rightarrow> nat list \<Rightarrow> nat option" where
  "last_of pr xs = (if xs = [] then pr else Some (last xs))"

definition is_list :: "links \<times> nat option \<Rightarrow> nat list \<Rightarrow> bool" where
  "is_list hl xs \<longleftrightarrow> distinct xs \<and> chain (fst hl) None (snd hl) xs None"

lemma chain_append:
  "chain h pr p (xs @ ys) q \<longleftrightarrow> (\<exists>m. chain h pr p xs m \<and> chain h (last_of pr xs) m ys q)"
  by (induction xs arbitrary: pr p) (auto simp: last_of_def)

lemma chain_other:
  "\<forall>a\<in>set xs. nxt h' a = nxt h a \<and> prv h' a = prv h a \<Longrightarrow> chain h' pr p xs q = chain h pr p xs q"
  by (induction xs arbitrary: pr p) auto

lemma chain_set_other:
  "a \<notin> set xs \<Longrightarrow> chain (set_next a v h) pr p xs q = chain h pr p xs q"
  "a \<notin> set xs \<Longrightarrow> chain (set_prev a v h) pr p xs q = chain h pr p xs q"
  by (rule chain_other; auto)+

lemma chain_relink_last:
  "chain h pr p xs m \<Longrightarrow> distinct xs \<Longrightarrow> xs \<noteq> [] \<Longrightarrow> chain (set_next (last xs) m' h) pr p xs m'"
proof (induction xs arbitrary: pr p)
  case (Cons x xs)
  then show ?case by (cases "xs = []") auto
qed simp

lemma chain_relink_hd:
  "chain h pr m (y # ys) q \<Longrightarrow> distinct (y # ys) \<Longrightarrow> chain (set_prev y pr' h) pr' m (y # ys) q"
  by (simp add: chain_set_other)

lemma chain_unique: "chain h pr p xs None \<Longrightarrow> chain h pr' p ys None \<Longrightarrow> xs = ys"
proof (induction xs arbitrary: p pr pr' ys)
  case Nil
  then show ?case by (cases ys) auto
next
  case (Cons x xs)
  then show ?case by (cases ys) auto
qed

lemma is_list_unique: "is_list hl xs \<Longrightarrow> is_list hl ys \<Longrightarrow> xs = ys"
  by (auto simp: is_list_def dest: chain_unique)

lemma is_list_empty: "is_list (h, None) []"
  by (simp add: is_list_def)

text \<open>The head of a list, and the neighbours of a member.\<close>

lemma is_list_split:
  assumes "is_list (h, p) (xs @ x # ys)"
  shows "prv h x = last_of None xs" "nxt h x = (case ys of [] \<Rightarrow> None | y # _ \<Rightarrow> Some y)"
    "chain h None p xs (Some x)" "chain h (Some x) (nxt h x) ys None"
    "p = (case xs of [] \<Rightarrow> Some x | w # _ \<Rightarrow> Some w)"
proof -
  have c: "chain h None p xs (Some x)" "prv h x = last_of None xs" "chain h (Some x) (nxt h x) ys None"
    using assms by (auto simp: is_list_def chain_append)
  then show "chain h None p xs (Some x)" "prv h x = last_of None xs" "chain h (Some x) (nxt h x) ys None"
    by simp_all
  show "nxt h x = (case ys of [] \<Rightarrow> None | y # _ \<Rightarrow> Some y)" using c(3) by (cases ys) simp_all
  show "p = (case xs of [] \<Rightarrow> Some x | w # _ \<Rightarrow> Some w)" using c(1) by (cases xs) simp_all
qed

text \<open>What every removal does to the neighbours.\<close>

definition unlinked :: "nat \<Rightarrow> links \<Rightarrow> links" where
  "unlinked x h =
    (let h' = (case nxt h x of None \<Rightarrow> h | Some y \<Rightarrow> set_prev y (prv h x) h)
     in case prv h x of None \<Rightarrow> h' | Some w \<Rightarrow> set_next w (nxt h x) h')"

lemma unlinked_list:
  assumes "is_list (h, p) (xs @ x # ys)"
    and "\<forall>a\<in>set (xs @ ys). nxt h' a = nxt (unlinked x h) a \<and> prv h' a = prv (unlinked x h) a"
    and "p' = (if xs = [] then nxt h x else p)"
  shows "is_list (h', p') (xs @ ys)"
proof -
  let ?u = "unlinked x h"
  note s = is_list_split [OF assms(1)]
  have d: "distinct (xs @ x # ys)" using assms(1) by (simp add: is_list_def)
  have "chain ?u None p' (xs @ ys) None"
  proof (cases xs rule: rev_cases)
    case Nil
    then show ?thesis
      using s d assms(3) by (cases ys) (auto simp: unlinked_def last_of_def chain_set_other)
  next
    case (snoc ws w)
    let ?h = "case nxt h x of None \<Rightarrow> h | Some y \<Rightarrow> set_prev y (Some w) h"
    have u: "?u = set_next w (nxt h x) ?h" using s(1) snoc by (simp add: unlinked_def last_of_def cong: option.case_cong)
    have y: "nxt h x = Some y \<Longrightarrow> y \<in> set ys" for y using s(2) by (cases ys) auto
    then have "nxt h x = Some y \<Longrightarrow> y \<notin> set xs" for y using d by auto
    then have "chain ?h None p xs (Some x)"
      using s(3) by (auto simp: chain_set_other split: option.splits)
    then have 1: "chain ?u None p xs (nxt h x)"
      unfolding u using chain_relink_last [of ?h None p xs "Some x" "nxt h x"] d snoc by simp
    have "chain ?h (Some w) (nxt h x) ys None"
      using s(2,4) d by (cases ys) (auto simp: chain_set_other)
    then have 2: "chain ?u (last_of None xs) (nxt h x) ys None"
      unfolding u using d snoc by (simp add: last_of_def chain_set_other)
    show ?thesis using 1 2 assms(3) unfolding chain_append using snoc by auto
  qed
  moreover have "chain h' None p' (xs @ ys) None = chain ?u None p' (xs @ ys) None"
    by (rule chain_other) (use assms(2) in blast)
  ultimately show ?thesis using d by (simp add: is_list_def)
qed

section \<open>The interface\<close>

datatype list_op = Add nat | Remove nat

text \<open>Inserting a new node and removing a member, and which nodes they touch.\<close>

locale head_list =
  fixes add :: "nat \<Rightarrow> links \<times> nat option \<Rightarrow> links \<times> nat option"
    and remove :: "nat \<Rightarrow> links \<times> nat option \<Rightarrow> links \<times> nat option"
  assumes add_law: "is_list hl xs \<Longrightarrow> x \<notin> set xs \<Longrightarrow> is_list (add x hl) (x # xs)"
    and remove_law: "is_list hl xs \<Longrightarrow> x \<in> set xs \<Longrightarrow> is_list (remove x hl) (remove1 x xs)"
    and add_frame: "is_list hl xs \<Longrightarrow> a \<notin> set (x # xs) \<Longrightarrow>
      nxt (fst (add x hl)) a = nxt (fst hl) a \<and> prv (fst (add x hl)) a = prv (fst hl) a"
    and remove_frame: "is_list hl xs \<Longrightarrow> x \<in> set xs \<Longrightarrow> a \<notin> set xs \<Longrightarrow>
      nxt (fst (remove x hl)) a = nxt (fst hl) a \<and> prv (fst (remove x hl)) a = prv (fst hl) a"
begin

fun run :: "list_op list \<Rightarrow> links \<times> nat option \<Rightarrow> links \<times> nat option" where
  "run [] hl = hl"
| "run (Add x # ops) hl = run ops (add x hl)"
| "run (Remove x # ops) hl = run ops (remove x hl)"

lemma add_remove: "is_list hl xs \<Longrightarrow> x \<notin> set xs \<Longrightarrow> is_list (remove x (add x hl)) xs"
  using remove_law [OF add_law] by fastforce

text \<open>A list disjoint from the one operated on stays as it is.\<close>

lemma add_disjoint:
  assumes "is_list hl xs" "is_list (fst hl, q) ys" "set ys \<inter> set (x # xs) = {}"
  shows "is_list (fst (add x hl), q) ys"
proof -
  have "chain (fst (add x hl)) None q ys None = chain (fst hl) None q ys None"
    by (rule chain_other) (use assms add_frame in blast)
  then show ?thesis using assms(2) by (simp add: is_list_def)
qed

lemma remove_disjoint:
  assumes "is_list hl xs" "x \<in> set xs" "is_list (fst hl, q) ys" "set ys \<inter> set xs = {}"
  shows "is_list (fst (remove x hl), q) ys"
proof -
  have "chain (fst (remove x hl)) None q ys None = chain (fst hl) None q ys None"
    by (rule chain_other) (use assms remove_frame in blast)
  then show ?thesis using assms(3) by (simp add: is_list_def)
qed

end

text \<open>The abstract run, and when its operations are allowed: only fresh nodes are added and only members
  removed.\<close>

fun list_run :: "list_op list \<Rightarrow> nat list \<Rightarrow> nat list" where
  "list_run [] xs = xs"
| "list_run (Add x # ops) xs = list_run ops (x # xs)"
| "list_run (Remove x # ops) xs = list_run ops (remove1 x xs)"

fun list_ok :: "list_op list \<Rightarrow> nat list \<Rightarrow> bool" where
  "list_ok [] xs \<longleftrightarrow> True"
| "list_ok (Add x # ops) xs \<longleftrightarrow> x \<notin> set xs \<and> list_ok ops (x # xs)"
| "list_ok (Remove x # ops) xs \<longleftrightarrow> x \<in> set xs \<and> list_ok ops (remove1 x xs)"

context head_list
begin

lemma run_refines: "is_list hl xs \<Longrightarrow> list_ok ops xs \<Longrightarrow> is_list (run ops hl) (list_run ops xs)"
  by (induction ops hl arbitrary: xs rule: run.induct) (auto simp: add_law remove_law)

end

section \<open>The macros provide it\<close>

lemma add_chain:
  assumes "is_list (h, p) xs" "x \<notin> set xs" "nxt h' x = p" "prv h' x = None"
    and "\<forall>a\<in>set xs. nxt h' a = nxt h a \<and> prv h' a = (if p = Some a then Some x else prv h a)"
  shows "is_list (h', Some x) (x # xs)"
proof (cases xs)
  case Nil
  then show ?thesis using assms by (simp add: is_list_def)
next
  case (Cons y ys)
  have c: "p = Some y" "chain h (Some y) (nxt h y) ys None" "distinct (x # y # ys)"
    using assms(1,2) Cons by (auto simp: is_list_def)
  have "chain h' (Some y) (nxt h' y) ys None = chain h (Some y) (nxt h' y) ys None"
    by (rule chain_other) (use assms(5) c(1,3) Cons in auto)
  then show ?thesis using assms(3-5) c Cons by (simp add: is_list_def)
qed

lemma in_list_cases:
  assumes "is_list (h, p) xs" "x \<in> set xs"
  obtains us vs where "xs = us @ x # vs" "remove1 x xs = us @ vs" "x \<notin> set (us @ vs)" "is_list (h, p) (us @ x # vs)"
proof -
  obtain us vs where u: "xs = us @ x # vs" using assms(2) by (auto simp: in_set_conv_decomp)
  moreover from this have "x \<notin> set (us @ vs)" using assms(1) by (simp add: is_list_def)
  ultimately show thesis using that assms(1) by (simp add: remove1_append)
qed

lemma neighbour_mem:
  assumes "is_list (h, p) (us @ x # vs)"
  shows "prv h x = Some w \<Longrightarrow> w \<in> set us" "nxt h x = Some y \<Longrightarrow> y \<in> set vs" "p = Some x \<longleftrightarrow> us = []"
    "prv h x = None \<longleftrightarrow> us = []"
proof -
  note s = is_list_split [OF assms]
  have d: "distinct (us @ x # vs)" using assms by (simp add: is_list_def)
  show "prv h x = Some w \<Longrightarrow> w \<in> set us" "prv h x = None \<longleftrightarrow> us = []"
    using s(1) by (auto simp: last_of_def split: if_splits)
  show "nxt h x = Some y \<Longrightarrow> y \<in> set vs" using s(2) by (cases vs) auto
  show "p = Some x \<longleftrightarrow> us = []" using s(5) d by (cases us) auto
qed

lemma insert_law:
  assumes "is_list hl xs" "x \<notin> set xs"
  shows "is_list (List_insert x hl) (x # xs)" "is_list (LL_ADD x hl) (x # xs)"
proof -
  obtain h p where hl: "hl = (h, p)" by (cases hl)
  have i: "is_list (h, p) xs" using assms(1) hl by simp
  have "p \<noteq> Some x" using i assms(2) by (cases xs) (auto simp: is_list_def)
  then show "is_list (List_insert x hl) (x # xs)" "is_list (LL_ADD x hl) (x # xs)"
    unfolding hl List_insert_def LL_ADD_def prod.case Let_def
    by (intro add_chain [OF i assms(2)]; use assms(2) in \<open>auto split: option.splits\<close>)+
qed

lemma insert_frame:
  assumes "is_list hl xs" "a \<notin> set (x # xs)"
  shows "nxt (fst (List_insert x hl)) a = nxt (fst hl) a \<and> prv (fst (List_insert x hl)) a = prv (fst hl) a"
    and "nxt (fst (LL_ADD x hl)) a = nxt (fst hl) a \<and> prv (fst (LL_ADD x hl)) a = prv (fst hl) a"
proof -
  obtain h p where hl: "hl = (h, p)" by (cases hl)
  have "p \<noteq> Some a" using assms hl by (cases xs) (auto simp: is_list_def)
  then show "nxt (fst (List_insert x hl)) a = nxt (fst hl) a \<and> prv (fst (List_insert x hl)) a = prv (fst hl) a"
    "nxt (fst (LL_ADD x hl)) a = nxt (fst hl) a \<and> prv (fst (LL_ADD x hl)) a = prv (fst hl) a"
    using assms(2) hl by (auto simp: List_insert_def LL_ADD_def Let_def split: option.splits)
qed

text \<open>Each removal unlinks the item, sets the head, and may clear the links of the item.\<close>

lemma removal_forms:
  assumes "is_list (h, p) (us @ x # vs)"
  shows "List_delete x (h, p) = (unlinked x h, if us = [] then nxt h x else p)"
    and "List_remove x (h, p) = (set_prev x None (set_next x None (unlinked x h)), if us = [] then nxt h x else p)"
    and "\<forall>a. a \<noteq> x \<longrightarrow> nxt (fst (LL_REMOVE x (h, p))) a = nxt (unlinked x h) a
      \<and> prv (fst (LL_REMOVE x (h, p))) a = prv (unlinked x h) a"
    and "snd (LL_REMOVE x (h, p)) = (if us = [] then nxt h x else p)"
proof -
  note n = neighbour_mem [OF assms]
  have d: "x \<notin> set us" "x \<notin> set vs" using assms by (auto simp: is_list_def)
  have ne: "nxt h x \<noteq> Some x" "prv h x \<noteq> Some x" using n(1,2) d by auto
  show "List_delete x (h, p) = (unlinked x h, if us = [] then nxt h x else p)"
    and "List_remove x (h, p) = (set_prev x None (set_next x None (unlinked x h)), if us = [] then nxt h x else p)"
    using n(4) ne by (auto simp: List_delete_def List_remove_def unlinked_def Let_def split: option.splits)
  show "\<forall>a. a \<noteq> x \<longrightarrow> nxt (fst (LL_REMOVE x (h, p))) a = nxt (unlinked x h) a
      \<and> prv (fst (LL_REMOVE x (h, p))) a = prv (unlinked x h) a"
    and "snd (LL_REMOVE x (h, p)) = (if us = [] then nxt h x else p)"
    using n(3) ne by (auto simp: LL_REMOVE_def unlinked_def Let_def split: option.splits)
qed

lemma unlinked_frame:
  assumes "is_list (h, p) (us @ x # vs)" "a \<notin> set (us @ vs)"
  shows "nxt (unlinked x h) a = nxt h a \<and> prv (unlinked x h) a = prv h a"
  using neighbour_mem(1,2) [OF assms(1)] assms(2)
  by (auto simp: unlinked_def Let_def split: option.splits)

lemma removal_law:
  assumes "is_list hl xs" "x \<in> set xs"
  shows "is_list (List_delete x hl) (remove1 x xs)" "is_list (List_remove x hl) (remove1 x xs)"
    "is_list (LL_REMOVE x hl) (remove1 x xs)"
proof -
  obtain h p where hl: "hl = (h, p)" by (cases hl)
  obtain us vs where u: "xs = us @ x # vs" "remove1 x xs = us @ vs" "x \<notin> set (us @ vs)" "is_list (h, p) (us @ x # vs)"
    by (rule in_list_cases [OF assms(1) [unfolded hl] assms(2)])
  note f = removal_forms [OF u(4)]
  have ll: "LL_REMOVE x (h, p) = (fst (LL_REMOVE x (h, p)), if us = [] then nxt h x else p)"
    by (rule prod_eqI) (simp_all add: f(4))
  show "is_list (List_delete x hl) (remove1 x xs)" "is_list (List_remove x hl) (remove1 x xs)"
    unfolding hl u(2) f(1,2) by (rule unlinked_list [OF u(4)]; use u(3) in auto)+
  show "is_list (LL_REMOVE x hl) (remove1 x xs)"
    unfolding hl u(2) by (subst ll) (rule unlinked_list [OF u(4)]; use u(3) f(3) in auto)
qed

lemma removal_frame:
  assumes "is_list hl xs" "x \<in> set xs" "a \<notin> set xs"
  shows "nxt (fst (List_delete x hl)) a = nxt (fst hl) a \<and> prv (fst (List_delete x hl)) a = prv (fst hl) a"
    "nxt (fst (List_remove x hl)) a = nxt (fst hl) a \<and> prv (fst (List_remove x hl)) a = prv (fst hl) a"
    "nxt (fst (LL_REMOVE x hl)) a = nxt (fst hl) a \<and> prv (fst (LL_REMOVE x hl)) a = prv (fst hl) a"
proof -
  obtain h p where hl: "hl = (h, p)" by (cases hl)
  obtain us vs where u: "xs = us @ x # vs" "is_list (h, p) (us @ x # vs)"
    by (rule in_list_cases [OF assms(1) [unfolded hl] assms(2)])
  have "a \<noteq> x" "a \<notin> set (us @ vs)" using assms(3) u(1) by auto
  then show "nxt (fst (List_delete x hl)) a = nxt (fst hl) a \<and> prv (fst (List_delete x hl)) a = prv (fst hl) a"
    "nxt (fst (List_remove x hl)) a = nxt (fst hl) a \<and> prv (fst (List_remove x hl)) a = prv (fst hl) a"
    "nxt (fst (LL_REMOVE x hl)) a = nxt (fst hl) a \<and> prv (fst (LL_REMOVE x hl)) a = prv (fst hl) a"
    using removal_forms [OF u(2)] unlinked_frame [OF u(2)] unfolding hl by simp_all
qed

interpretation stack_list: head_list LL_ADD LL_REMOVE
  by unfold_locales (fact insert_law removal_law insert_frame removal_frame)+

interpretation contact_list: head_list List_insert List_remove
  by unfold_locales (fact insert_law removal_law insert_frame removal_frame)+

interpretation pool_list: head_list List_insert List_delete
  by unfold_locales (fact insert_law removal_law insert_frame removal_frame)+

section \<open>Properties\<close>

text \<open>C32. The pointer lists of the stack are lists: after any sequence of \<open>LL_ADD\<close> of fresh nodes and \<open>LL_REMOVE\<close> of
  members, the head pointer leads through the \<open>next\<close> links to exactly the nodes of the list so
  obtained, in order, with matching \<open>prev\<close> links; that list is the only one the pointers stand for,
  and a second list over other nodes is left alone.\<close>

theorem dll_run_refines:
  assumes "is_list hl xs" "list_ok ops xs"
  shows "is_list (stack_list.run ops hl) (list_run ops xs)
    \<and> (\<forall>zs. is_list (stack_list.run ops hl) zs \<longrightarrow> zs = list_run ops xs)"
  using stack_list.run_refines [OF assms] is_list_unique by blast

lemma dll_run_refines_witness:
  "is_list (stack_list.run [Add 1, Add 2, Add 3, Remove 2] (\<lparr>nxt = (\<lambda>_. None), prv = (\<lambda>_. None)\<rparr>, None)) [3, 1]"
  using dll_run_refines [OF is_list_empty, of "[Add 1, Add 2, Add 3, Remove 2]"] by simp

end
