(* ===== verification/Contact.thy ===== *)
theory Contact
  imports Dll
begin

text \<open>
  The contact book (\<open>contact_folder/contact.c\<close>): persons in heap nodes linked through \<open>prev\<close> and \<open>next\<close>, the
  commands of its menu, and the text format it saves and loads.

  Strings are \<open>char\<close> arrays of fixed length (lists of characters) in which the text ends at the first
  zero byte (\<open>strcmp\<close> with a word that has one never reads past it).  \<open>scanf("%s")\<close> of a word that does not fit, a store past an array, and printing an array
  without a zero byte are faults.  Two functions end without a \<open>return\<close> on the path their caller uses:
  what the caller then sees is \<open>stale_ret\<close> and \<open>stale_ptr\<close>.  Input words and file names are arguments of
  the commands; what is printed is a result.
\<close>

section \<open>Data\<close>

abbreviation NUL :: char where "NUL \<equiv> CHR 0x00"

definition name_length :: nat where "name_length = 20"
definition phone_length :: nat where "phone_length = 12"
definition buffer_size :: nat where "buffer_size = 1024"

record person =
  p_name :: string
  p_phone :: string

text \<open>\<open>people\<close> and \<open>clinks\<close> are the nodes by address, \<open>chead\<close> and \<open>ccount\<close> the structure \<open>contact\<close>; \<open>malloc\<close>
  returns the addresses in turn, while \<open>can_malloc\<close> says so, with memory that holds \<open>junk\<close>; \<open>live\<close> are the
  nodes allocated and not freed.  \<open>can_open\<close> says which files the process may open.\<close>

record contact =
  people :: "nat \<Rightarrow> person"
  clinks :: links
  chead :: "nat option"
  ccount :: int
  live :: "nat set"
  next_addr :: nat
  can_malloc :: "nat \<Rightarrow> bool"
  junk :: "nat \<Rightarrow> person"
  files :: "string \<Rightarrow> string option"
  can_open :: "string \<Rightarrow> bool"
  stale_ret :: int
  stale_ptr :: "nat option"

datatype contact_fault = Overflow | NullPtr | WildPtr | NoTerminator

type_synonym 'a cres = "contact_fault + ('a \<times> contact)"

text \<open>The text of an array; \<open>None\<close> when a string function would run past its end.\<close>

definition cstr :: "string \<Rightarrow> string option" where
  "cstr a = (if NUL \<in> set a then Some (takeWhile (\<lambda>c. c \<noteq> NUL) a) else None)"

text \<open>\<open>scanf("%s", a)\<close> with the word \<open>w\<close>.\<close>

definition scan_word :: "string \<Rightarrow> string \<Rightarrow> string option" where
  "scan_word a w =
    (if length w < length a then Some (w @ NUL # drop (Suc (length w)) a) else None)"

section \<open>The list\<close>

text \<open>\<open>contact_search\<close> follows the links; a cyclic list would make it run forever (\<open>None\<close>).  Not finding the
  name, it ends without a \<open>return\<close>.\<close>

partial_function (option) contact_walk ::
  "contact \<Rightarrow> string \<Rightarrow> nat option \<Rightarrow> (contact_fault + nat option) option" where
  "contact_walk c name ps =
    (if ps = None then Some (Inr None)
     else let item = the ps
          in if item \<notin> live c then Some (Inl WildPtr)
             else if cstr (p_name (people c item)) = cstr name then Some (Inr (Some item))
             else contact_walk c name (nxt (clinks c) item))"

definition contact_search :: "string \<Rightarrow> contact \<Rightarrow> (contact_fault + nat option) option" where
  "contact_search name c =
    (case contact_walk c name (chead c) of
       Some (Inr None) \<Rightarrow> Some (Inr (stale_ptr c))
     | r \<Rightarrow> r)"

declare contact_walk.simps [code]

text \<open>\<open>contact_travel\<close> and the loop of \<open>contact_save\<close>: the texts of all nodes, in order, up to the first array
  without a zero byte.\<close>

definition node_text :: "contact \<Rightarrow> nat \<Rightarrow> contact_fault + string \<times> string" where
  "node_text c a =
    (if a \<notin> live c then Inl WildPtr
     else case (cstr (p_name (people c a)), cstr (p_phone (people c a))) of
       (Some n, Some t) \<Rightarrow> Inr (n, t)
     | _ \<Rightarrow> Inl NoTerminator)"

partial_function (option) contact_texts ::
  "contact \<Rightarrow> nat option \<Rightarrow> (string \<times> string) list \<Rightarrow> (contact_fault + (string \<times> string) list) option" where
  "contact_texts c ps out =
    (if ps = None then Some (Inr out)
     else case node_text c (the ps) of
       Inl e \<Rightarrow> Some (Inl e)
     | Inr nt \<Rightarrow> contact_texts c (nxt (clinks c) (the ps)) (out @ [nt]))"

declare contact_texts.simps [code]

definition contact_travel :: "contact \<Rightarrow> (contact_fault + (string \<times> string) list) option" where
  "contact_travel c = contact_texts c (chead c) []"

text \<open>The \<open>head\<close> argument is the address of \<open>c->people\<close>, never null; the value returned is the stale one.\<close>

definition contact_insert :: "nat \<Rightarrow> contact \<Rightarrow> int \<times> contact" where
  "contact_insert p c =
    (case List_insert p (clinks c, chead c) of
       (h, ls) \<Rightarrow> (stale_ret c, c\<lparr>clinks := h, chead := ls\<rparr>))"

definition contact_remove :: "nat option \<Rightarrow> contact \<Rightarrow> int cres" where
  "contact_remove p c =
    (case p of
       None \<Rightarrow> Inl NullPtr
     | Some a \<Rightarrow>
         if a \<notin> live c then Inl WildPtr
         else case List_remove a (clinks c, chead c) of
           (h, ls) \<Rightarrow> Inr (stale_ret c, c\<lparr>clinks := h, chead := ls\<rparr>))"

definition new_person :: "contact \<Rightarrow> nat option \<times> contact" where
  "new_person c =
    (let a = next_addr c
     in if can_malloc c a
        then (Some a, c\<lparr>next_addr := Suc a, live := insert a (live c), people := (people c)(a := junk c a)\<rparr>)
        else (None, c\<lparr>next_addr := Suc a\<rparr>))"

definition set_person :: "nat \<Rightarrow> person \<Rightarrow> contact \<Rightarrow> contact" where
  "set_person a p c = c\<lparr>people := (people c)(a := p)\<rparr>"

definition free_person :: "nat \<Rightarrow> contact \<Rightarrow> contact" where
  "free_person a c = c\<lparr>live := live c - {a}\<rparr>"

section \<open>Commands\<close>

definition INSERT :: "string \<Rightarrow> string \<Rightarrow> contact \<Rightarrow> int cres" where
  "INSERT name phone c =
    (case new_person c of
       (None, c) \<Rightarrow> Inr (-1, c)
     | (Some p, c) \<Rightarrow>
        (case scan_word (p_name (people c p)) name of
           None \<Rightarrow> Inl Overflow
         | Some nm \<Rightarrow>
            (case scan_word (p_phone (people c p)) phone of
               None \<Rightarrow> Inl Overflow
             | Some ph \<Rightarrow>
                (case contact_insert p (set_person p \<lparr>p_name = nm, p_phone = ph\<rparr> c) of
                   (temp, c) \<Rightarrow>
                     if temp = -1 then Inr (-1, free_person p c)
                     else Inr (0, c\<lparr>ccount := ccount c + 1\<rparr>)))))"

definition PTINT :: "contact \<Rightarrow> (string \<times> string) list cres option" where
  "PTINT c = map_option (map_sum id (\<lambda>out. (out, c))) (contact_travel c)"

definition SEARCH :: "string \<Rightarrow> contact \<Rightarrow> (string \<times> string) option cres option" where
  "SEARCH name c =
    (case scan_word (replicate name_length NUL) name of
       None \<Rightarrow> Some (Inl Overflow)
     | Some temp_name \<Rightarrow>
        (case contact_search temp_name c of
           None \<Rightarrow> None
         | Some (Inl e) \<Rightarrow> Some (Inl e)
         | Some (Inr None) \<Rightarrow> Some (Inr (None, c))
         | Some (Inr (Some p)) \<Rightarrow> Some (map_sum id (\<lambda>nt. (Some nt, c)) (node_text c p))))"

text \<open>\<open>contact_remove\<close> follows a null pointer, and then \<open>free\<close> is called, even when no name matched.\<close>

definition DELETE :: "string \<Rightarrow> contact \<Rightarrow> int cres option" where
  "DELETE name c =
    (case scan_word (replicate name_length NUL) name of
       None \<Rightarrow> Some (Inl Overflow)
     | Some temp_name \<Rightarrow>
        (case contact_search temp_name c of
           None \<Rightarrow> None
         | Some (Inl e) \<Rightarrow> Some (Inl e)
         | Some (Inr p) \<Rightarrow>
             Some (case contact_remove p c of
                     Inl e \<Rightarrow> Inl e
                   | Inr (_, c) \<Rightarrow> (let c = free_person (the p) c in Inr (0, c\<lparr>ccount := ccount c - 1\<rparr>)))))"

section \<open>Files\<close>

definition file_line :: "string \<times> string \<Rightarrow> string" where
  "file_line np = fst np @ '','' @ snd np @ [CHR 0x0A]"

text \<open>\<open>fopen(f,"w")\<close> empties the file before the list is looked at; its result is not checked.  One node is
  allocated and cleared for nothing.\<close>

definition contact_save :: "string \<Rightarrow> contact \<Rightarrow> int cres option" where
  "contact_save f c =
    (let c = (if can_open c f then c\<lparr>files := (files c)(f \<mapsto> [])\<rparr> else c)
     in if chead c = None then Some (Inr (-1, c))
        else case new_person c of
          (None, c) \<Rightarrow> Some (Inl NullPtr)
        | (Some p, c) \<Rightarrow>
            let c = set_person p \<lparr>p_name = replicate name_length NUL, p_phone = replicate phone_length NUL\<rparr> c
            in if \<not> can_open c f then Some (Inl NullPtr)
               else case contact_texts c (chead c) [] of
                 None \<Rightarrow> None
               | Some (Inl e) \<Rightarrow> Some (Inl e)
               | Some (Inr nts) \<Rightarrow>
                   Some (Inr (stale_ret c, c\<lparr>files := (files c)(f \<mapsto> concat (map file_line nts))\<rparr>)))"

text \<open>\<open>fgets\<close>: the characters up to and including a newline, at most \<open>buffer_size - 1\<close>.\<close>

fun take_line :: "nat \<Rightarrow> string \<Rightarrow> string \<times> string" where
  "take_line 0 s = ([], s)"
| "take_line n [] = ([], [])"
| "take_line (Suc n) (ch # s) =
    (if ch = CHR 0x0A then ([ch], s) else case take_line n s of (l, r) \<Rightarrow> (ch # l, r))"

text \<open>Storing a piece of text at the start of an array, without a zero byte.\<close>

definition overlay :: "string \<Rightarrow> string \<Rightarrow> string" where
  "overlay s a = s @ drop (length s) a"

text \<open>\<open>FILE_MSG\<close>: the name ends at the first comma of the buffer, wherever it is; the phone number is the
  rest of the line.\<close>

definition FILE_MSG :: "string \<Rightarrow> nat \<Rightarrow> string \<Rightarrow> string \<Rightarrow> (string \<times> string) option" where
  "FILE_MSG buf len name phone =
    (let nm = takeWhile (\<lambda>ch. ch \<noteq> CHR '','') buf;
         ph = take (len - Suc (length nm)) (drop (Suc (length nm)) buf)
     in if length nm > length name \<or> length ph > length phone then None
        else Some (overlay nm name, overlay ph phone))"

lemma take_line_length: "take_line n s = (l, r) \<Longrightarrow> length l + length r = length s"
  by (induction n s arbitrary: l rule: take_line.induct) (auto split: if_splits prod.splits)

lemma take_line_nonempty: "take_line (Suc n) (ch # s) = (l, r) \<Longrightarrow> l \<noteq> []"
  by (auto split: if_splits prod.splits)

lemma take_line_shorter:
  assumes "file \<noteq> []" "(l, r) = take_line (buffer_size - 1) file"
  shows "length r < length file"
proof -
  obtain ch s where f: "file = ch # s" using assms(1) by (auto simp: neq_Nil_conv)
  have t: "take_line (Suc 1022) (ch # s) = (l, r)" using assms(2) f by (simp add: buffer_size_def)
  show ?thesis using take_line_length [OF t] take_line_nonempty [OF t] f by (auto simp: neq_Nil_conv)
qed

text \<open>One line: the arrays \<open>buffer\<close>, \<open>temp_name\<close> and \<open>temp_phone\<close> keep what earlier lines left in them.\<close>

definition load_one :: "contact \<Rightarrow> string \<Rightarrow> string \<Rightarrow> nat option \<times> contact" where
  "load_one c temp_name temp_phone =
    (case new_person c of
       (None, c) \<Rightarrow> (None, c)
     | (Some p, c) \<Rightarrow>
         let c = set_person p \<lparr>p_name = take name_length temp_name, p_phone = take phone_length temp_phone\<rparr> c;
             (_, c) = contact_insert p c
         in (Some p, c\<lparr>ccount := ccount c + 1\<rparr>))"

function load_loop :: "string \<Rightarrow> string \<Rightarrow> string \<Rightarrow> string \<Rightarrow> contact \<Rightarrow> int cres" where
  "load_loop file buffer temp_name temp_phone c =
    (if file = [] then Inr (stale_ret c, c)
     else case take_line (buffer_size - 1) file of
       (line, rest) \<Rightarrow>
         let buffer = overlay (line @ [NUL]) buffer;
             len = length (takeWhile (\<lambda>ch. ch \<noteq> NUL) buffer)
         in case FILE_MSG buffer len temp_name temp_phone of
              None \<Rightarrow> Inl Overflow
            | Some (temp_name, temp_phone) \<Rightarrow>
                (case load_one c temp_name temp_phone of
                   (None, c) \<Rightarrow> Inr (-1, c)
                 | (Some _, c) \<Rightarrow> load_loop rest buffer temp_name temp_phone c))"
  by pat_completeness auto
termination
  by (relation "measure (\<lambda>(file, _). length file)") (auto dest: take_line_shorter)

declare load_loop.simps [simp del]

definition contact_load :: "string \<Rightarrow> contact \<Rightarrow> int cres" where
  "contact_load f c =
    (case (can_open c f, files c f) of
       (True, Some file) \<Rightarrow>
         load_loop file (replicate buffer_size NUL) (replicate name_length NUL) (replicate name_length NUL) c
     | _ \<Rightarrow> Inr (-1, c))"

definition SAVE :: "string \<Rightarrow> contact \<Rightarrow> int cres option" where
  "SAVE fname c =
    (case scan_word (replicate name_length NUL) fname of
       None \<Rightarrow> Some (Inl Overflow)
     | Some _ \<Rightarrow> map_option (map_sum id (\<lambda>(_, c). (stale_ret c, c))) (contact_save fname c))"

definition LOAD :: "string \<Rightarrow> contact \<Rightarrow> int cres option" where
  "LOAD fname c =
    (case scan_word (replicate name_length NUL) fname of
       None \<Rightarrow> Some (Inl Overflow)
     | Some _ \<Rightarrow> Some (map_sum id (\<lambda>(_, c). (0, c)) (contact_load fname c)))"

section \<open>The menu\<close>

text \<open>One turn of the loop of \<open>main\<close>: the number chosen with the words then typed; what is printed of the
  contacts is the result.  Any other number does nothing.\<close>

datatype menu_choice =
  CONTACT_INSERT string string | CONTACT_REMOVE string | CONTACT_SEARCH string | CONTACT_PRINT
| FILE_SAVE string | FILE_LOAD string | Other_choice

definition silent :: "int cres \<Rightarrow> (string \<times> string) list cres" where
  "silent = map_sum id (\<lambda>(_, c). ([], c))"

fun menu_step :: "menu_choice \<Rightarrow> contact \<Rightarrow> (string \<times> string) list cres option" where
  "menu_step (CONTACT_INSERT name phone) c = Some (silent (INSERT name phone c))"
| "menu_step (CONTACT_REMOVE name) c = map_option silent (DELETE name c)"
| "menu_step (CONTACT_SEARCH name) c =
    map_option (map_sum id (\<lambda>(nt, c). (case nt of None \<Rightarrow> [] | Some nt \<Rightarrow> [nt], c))) (SEARCH name c)"
| "menu_step CONTACT_PRINT c = PTINT c"
| "menu_step (FILE_SAVE f) c = map_option silent (SAVE f c)"
| "menu_step (FILE_LOAD f) c = map_option silent (LOAD f c)"
| "menu_step Other_choice c = Some (Inr ([], c))"

fun menu_run :: "menu_choice list \<Rightarrow> contact \<Rightarrow> (string \<times> string) list list cres option" where
  "menu_run [] c = Some (Inr ([], c))"
| "menu_run (ch # chs) c =
    (case menu_step ch c of
       None \<Rightarrow> None
     | Some (Inl e) \<Rightarrow> Some (Inl e)
     | Some (Inr (out, c)) \<Rightarrow> map_option (map_sum id (\<lambda>(outs, c). (out # outs, c))) (menu_run chs c))"

end
