(* ===== verification/Contact_Props.thy ===== *)
theory Contact_Props
  imports Contact
begin

text \<open>
  The contact book as a list of names and phone numbers: what its commands do to that list, in any
  order, what is saved, and what loading a file makes of it.
\<close>

section \<open>The book a state stands for\<close>

definition person_ok :: "person \<Rightarrow> bool" where
  "person_ok p \<longleftrightarrow> length (p_name p) = name_length \<and> length (p_phone p) = phone_length
     \<and> NUL \<in> set (p_name p) \<and> NUL \<in> set (p_phone p)"

definition text_of :: "string \<Rightarrow> string" where
  "text_of a = takeWhile (\<lambda>c. c \<noteq> NUL) a"

definition person_text :: "person \<Rightarrow> string \<times> string" where
  "person_text p = (text_of (p_name p), text_of (p_phone p))"

text \<open>What the operations rely on and leave alone: memory is available, arrays have their declared length,
  and the value a missing \<open>return\<close> leaves behind is not \<open>-1\<close>.\<close>

definition env_ok :: "contact \<Rightarrow> bool" where
  "env_ok c \<longleftrightarrow> (\<forall>a. can_malloc c a) \<and> stale_ret c \<noteq> -1
     \<and> (\<forall>a. length (p_name (junk c a)) = name_length \<and> length (p_phone (junk c a)) = phone_length)"

definition book :: "contact \<Rightarrow> nat list \<Rightarrow> bool" where
  "book c as \<longleftrightarrow> is_list (clinks c, chead c) as \<and> set as \<subseteq> live c \<and> (\<forall>a\<in>live c. a < next_addr c)
     \<and> ccount c = int (length as) \<and> (\<forall>a\<in>set as. person_ok (people c a))"

definition book_text :: "contact \<Rightarrow> nat list \<Rightarrow> (string \<times> string) list" where
  "book_text c as = map (\<lambda>a. person_text (people c a)) as"

lemma text_of_terminated: "NUL \<notin> set s \<Longrightarrow> text_of (s @ NUL # r) = s"
  unfolding text_of_def by (induction s) auto

lemma cstr_text: "NUL \<in> set a \<Longrightarrow> cstr a = Some (text_of a)"
  by (simp add: cstr_def text_of_def)

lemma scan_word_ok:
  assumes "length w < length a"
  obtains b where "scan_word a w = Some b" "length b = length a" "NUL \<in> set b" "NUL \<notin> set w \<longrightarrow> text_of b = w"
  using that [of "w @ NUL # drop (Suc (length w)) a"] assms by (simp add: scan_word_def text_of_terminated)

section \<open>Walking the list\<close>

lemma contact_walk_find:
  assumes "chain (clinks c) pr p as None" "set as \<subseteq> live c"
  shows "contact_walk c w p = Some (Inr (find (\<lambda>a. cstr (p_name (people c a)) = cstr w) as))"
  using assms
proof (induction as arbitrary: pr p)
  case Nil
  then show ?case by (subst contact_walk.simps) simp
next
  case (Cons a as)
  show ?case
    using Cons.prems by (subst contact_walk.simps) (auto simp: Let_def Cons.IH)
qed

lemma contact_texts_all:
  assumes "chain (clinks c) pr p as None" "set as \<subseteq> live c" "\<forall>a\<in>set as. person_ok (people c a)"
  shows "contact_texts c p out = Some (Inr (out @ book_text c as))"
  using assms
proof (induction as arbitrary: pr p out)
  case Nil
  then show ?case by (subst contact_texts.simps) (simp add: book_text_def)
next
  case (Cons a as)
  have "node_text c a = Inr (person_text (people c a))"
    using Cons.prems by (simp add: node_text_def person_ok_def cstr_text person_text_def)
  then show ?case
    using Cons.prems Cons.IH [of "Some a" "nxt (clinks c) a"]
    by (subst contact_texts.simps) (simp add: book_text_def)
qed

lemma book_travel: "book c as \<Longrightarrow> contact_travel c = Some (Inr (book_text c as))"
  unfolding contact_travel_def using contact_texts_all [of c None "chead c" as "[]"]
  by (simp add: book_def is_list_def)

text \<open>The node with a name, if there is one.\<close>

definition named :: "contact \<Rightarrow> string \<Rightarrow> nat \<Rightarrow> bool" where
  "named c n a \<longleftrightarrow> fst (person_text (people c a)) = n"

lemma book_search:
  assumes "book c as" "cstr w = Some n"
  shows "contact_search w c = Some (Inr (case find (named c n) as of None \<Rightarrow> stale_ptr c | Some a \<Rightarrow> Some a))"
proof -
  have "find (\<lambda>a. cstr (p_name (people c a)) = cstr w) as = find (named c n) as"
    by (rule find_cong)
      (use assms in \<open>auto simp: book_def person_ok_def cstr_text named_def person_text_def\<close>)
  then show ?thesis
    using contact_walk_find [of c None "chead c" as w] assms(1)
    by (simp add: contact_search_def book_def is_list_def split: option.splits)
qed

lemma find_named_text:
  "find (named c n) as = None \<longleftrightarrow> n \<notin> fst ` set (book_text c as)"
  by (auto simp: find_None_iff named_def book_text_def)

section \<open>The commands\<close>

definition same_env :: "contact \<Rightarrow> contact \<Rightarrow> bool" where
  "same_env c c' \<longleftrightarrow> can_malloc c' = can_malloc c \<and> junk c' = junk c \<and> can_open c' = can_open c
     \<and> stale_ret c' = stale_ret c \<and> stale_ptr c' = stale_ptr c"

lemma same_env_refl [simp]: "same_env c c"
  by (simp add: same_env_def)

lemma same_env_trans: "same_env c c' \<Longrightarrow> same_env c' c'' \<Longrightarrow> same_env c c''"
  by (simp add: same_env_def)

lemma same_env_ok: "same_env c c' \<Longrightarrow> env_ok c \<Longrightarrow> env_ok c'"
  by (simp add: same_env_def env_ok_def)

lemma book_text_cong: "\<forall>a\<in>set as. people c' a = people c a \<Longrightarrow> book_text c' as = book_text c as"
  by (simp add: book_text_def)

text \<open>A person in a new node at the head.\<close>

definition added :: "contact \<Rightarrow> nat list \<Rightarrow> nat \<Rightarrow> person \<Rightarrow> contact \<Rightarrow> bool" where
  "added c as a q c2 \<longleftrightarrow> book (c2\<lparr>ccount := ccount c2 + 1\<rparr>) (a # as)
     \<and> book_text (c2\<lparr>ccount := ccount c2 + 1\<rparr>) (a # as) = person_text q # book_text c as
     \<and> same_env c c2 \<and> files c2 = files c"

lemma book_add:
  assumes "book c as" "env_ok c"
  obtains a c1 where "new_person c = (Some a, c1)" "people c1 a = junk c a"
    and "same_env c c1" "files c1 = files c"
    and "\<forall>q r c2. person_ok q \<longrightarrow> contact_insert a (set_person a q c1) = (r, c2) \<longrightarrow>
      r = stale_ret c \<and> added c as a q c2"
proof (rule that)
  let ?a = "next_addr c"
  let ?c1 = "c\<lparr>next_addr := Suc ?a, live := insert ?a (live c), people := (people c)(?a := junk c ?a)\<rparr>"
  show "new_person c = (Some ?a, ?c1)" using assms(2) by (simp add: new_person_def Let_def env_ok_def)
  show "people ?c1 ?a = junk c ?a" "same_env c ?c1" "files ?c1 = files c" by (simp_all add: same_env_def)
  show "\<forall>q r c2. person_ok q \<longrightarrow> contact_insert ?a (set_person ?a q ?c1) = (r, c2) \<longrightarrow>
      r = stale_ret c \<and> added c as ?a q c2"
  proof (intro allI impI)
  fix q r c2
  assume q: "person_ok q" and i: "contact_insert ?a (set_person ?a q ?c1) = (r, c2)"
  have fresh: "?a \<notin> set as" using assms(1) by (auto simp: book_def)
  obtain h p where hp: "List_insert ?a (clinks c, chead c) = (h, p)" by (cases "List_insert ?a (clinks c, chead c)")
  have l: "is_list (h, p) (?a # as)"
    using contact_list.add_law [OF _ fresh] assms(1) hp by (metis book_def)
  have r: "r = stale_ret c" and c2: "c2 = (set_person ?a q ?c1)\<lparr>clinks := h, chead := p\<rparr>"
    using i by (auto simp: contact_insert_def set_person_def hp)
  have "book (c2\<lparr>ccount := ccount c2 + 1\<rparr>) (?a # as)"
    using assms(1) l q fresh unfolding c2 set_person_def by (auto simp: book_def less_Suc_eq)
  moreover have "book_text (c2\<lparr>ccount := ccount c2 + 1\<rparr>) (?a # as) = person_text q # book_text c as"
    using fresh unfolding c2 set_person_def book_text_def by auto
  moreover have "same_env c c2" "files c2 = files c" unfolding c2 set_person_def same_env_def by simp_all
  ultimately show "r = stale_ret c \<and> added c as ?a q c2" using r by (simp add: added_def)
  qed
qed

lemma INSERT_book:
  assumes "book c as" "env_ok c" "length n < name_length" "length t < phone_length"
    and "NUL \<notin> set n" "NUL \<notin> set t"
  shows "\<exists>c' a. INSERT n t c = Inr (0, c') \<and> book c' (a # as) \<and> book_text c' (a # as) = (n, t) # book_text c as
    \<and> same_env c c' \<and> files c' = files c"
proof -
  obtain a c1 where n: "new_person c = (Some a, c1)" "people c1 a = junk c a"
      "same_env c c1" "files c1 = files c"
    and add: "\<forall>q r c2. person_ok q \<longrightarrow> contact_insert a (set_person a q c1) = (r, c2) \<longrightarrow>
      r = stale_ret c \<and> added c as a q c2"
    by (rule book_add [OF assms(1,2)])
  have j: "length (p_name (junk c a)) = name_length" "length (p_phone (junk c a)) = phone_length" "stale_ret c \<noteq> -1"
    using assms(2) by (simp_all add: env_ok_def)
  obtain nm where nm: "scan_word (p_name (junk c a)) n = Some nm" "length nm = name_length" "NUL \<in> set nm" "text_of nm = n"
    using scan_word_ok [of n "p_name (junk c a)"] assms(3,5) j by metis
  obtain ph where ph: "scan_word (p_phone (junk c a)) t = Some ph" "length ph = phone_length" "NUL \<in> set ph" "text_of ph = t"
    using scan_word_ok [of t "p_phone (junk c a)"] assms(4,6) j by metis
  let ?q = "\<lparr>p_name = nm, p_phone = ph\<rparr>"
  obtain r c2 where i: "contact_insert a (set_person a ?q c1) = (r, c2)" by (cases "contact_insert a (set_person a ?q c1)")
  have q: "person_ok ?q" "person_text ?q = (n, t)" using nm ph by (simp_all add: person_ok_def person_text_def)
  have ad: "r = stale_ret c" "added c as a ?q c2" using add q(1) i by blast+
  have "INSERT n t c = Inr (0, c2\<lparr>ccount := ccount c2 + 1\<rparr>)"
    using ad j by (simp add: INSERT_def n nm ph i)
  moreover have "same_env c (c2\<lparr>ccount := ccount c2 + 1\<rparr>)" using ad by (simp add: same_env_def added_def)
  ultimately show ?thesis using ad q(2) unfolding added_def by force
qed

text \<open>The first contact of that name is removed.\<close>

definition delete_first :: "string \<Rightarrow> (string \<times> string) list \<Rightarrow> (string \<times> string) list" where
  "delete_first n xs = takeWhile (\<lambda>x. fst x \<noteq> n) xs @ tl (dropWhile (\<lambda>x. fst x \<noteq> n) xs)"

lemma find_satisfies: "find P xs = Some a \<Longrightarrow> P a"
  by (auto simp: find_Some_iff)

lemma map_remove_found:
  "find (\<lambda>x. fst (f x) = n) as = Some a \<Longrightarrow> map f (remove1 a as) = delete_first n (map f as)"
  by (induction as) (auto simp: delete_first_def split: if_splits dest: find_satisfies)

lemma scan_zeros:
  assumes "length n < name_length" "NUL \<notin> set n"
  obtains w where "scan_word (replicate name_length NUL) n = Some w" "cstr w = Some n"
  by (rule scan_word_ok [of n "replicate name_length NUL"]) (use assms in \<open>auto simp: cstr_text\<close>)

lemma book_remove:
  assumes "book c as" "a \<in> set as"
  obtains c1 where "contact_remove (Some a) c = Inr (stale_ret c, c1)"
    and "book (free_person a c1\<lparr>ccount := ccount c1 - 1\<rparr>) (remove1 a as)"
    and "people c1 = people c" "same_env c c1" "files c1 = files c"
proof -
  obtain h p where hp: "List_remove a (clinks c, chead c) = (h, p)" by (cases "List_remove a (clinks c, chead c)")
  have l: "is_list (h, p) (remove1 a as)"
    using contact_list.remove_law [OF _ assms(2)] assms(1) hp by (metis book_def)
  let ?c = "c\<lparr>clinks := h, chead := p\<rparr>"
  have d: "distinct as" "length as > 0" using assms by (auto simp: book_def is_list_def)
  show thesis
  proof (rule that)
    show "contact_remove (Some a) c = Inr (stale_ret c, ?c)"
      using assms hp by (auto simp: contact_remove_def book_def)
    show "book (free_person a ?c\<lparr>ccount := ccount ?c - 1\<rparr>) (remove1 a as)"
      using assms l d unfolding free_person_def book_def
      by (auto simp: length_remove1 of_nat_diff Suc_le_eq)
    show "people ?c = people c" "same_env c ?c" "files ?c = files c" by (simp_all add: same_env_def)
  qed
qed

lemma find_named:
  assumes "n \<in> fst ` set (book_text c as)"
  obtains a where "find (named c n) as = Some a" "a \<in> set as" "fst (person_text (people c a)) = n"
proof -
  obtain a where a: "find (named c n) as = Some a" using assms find_named_text [of c n as] by (cases "find (named c n) as") auto
  then have "a \<in> set as" "named c n a" by (auto simp: find_Some_iff)
  then show thesis using that a by (simp add: named_def)
qed

lemma DELETE_book:
  assumes "book c as" "length n < name_length" "NUL \<notin> set n" "n \<in> fst ` set (book_text c as)"
  shows "\<exists>c' as'. DELETE n c = Some (Inr (0, c')) \<and> book c' as'
    \<and> book_text c' as' = delete_first n (book_text c as) \<and> same_env c c' \<and> files c' = files c"
proof -
  obtain w where w: "scan_word (replicate name_length NUL) n = Some w" "cstr w = Some n"
    by (rule scan_zeros [OF assms(2,3)])
  obtain a where a: "find (named c n) as = Some a" "a \<in> set as" by (rule find_named [OF assms(4)])
  obtain c1 where r: "contact_remove (Some a) c = Inr (stale_ret c, c1)"
      "book (free_person a c1\<lparr>ccount := ccount c1 - 1\<rparr>) (remove1 a as)"
      "people c1 = people c" "same_env c c1" "files c1 = files c"
    by (rule book_remove [OF assms(1) a(2)])
  let ?c = "free_person a c1\<lparr>ccount := ccount c1 - 1\<rparr>"
  have "DELETE n c = Some (Inr (0, ?c))"
    using book_search [OF assms(1) w(2)] by (simp add: DELETE_def w a r Let_def free_person_def)
  moreover have "book_text ?c (remove1 a as) = delete_first n (book_text c as)"
    using map_remove_found [of "\<lambda>a. person_text (people c a)" n as a] a(1)
    by (simp add: book_text_def named_def [abs_def] free_person_def r(3))
  moreover have "same_env c ?c" "files ?c = files c" using r(4,5) by (simp_all add: same_env_def free_person_def)
  ultimately show ?thesis using r(2) by blast
qed

lemma SEARCH_book:
  assumes "book c as" "length n < name_length" "NUL \<notin> set n" "n \<in> fst ` set (book_text c as)"
  shows "SEARCH n c = Some (Inr (find (\<lambda>x. fst x = n) (book_text c as), c))"
proof -
  obtain w where w: "scan_word (replicate name_length NUL) n = Some w" "cstr w = Some n"
    by (rule scan_zeros [OF assms(2,3)])
  obtain a where a: "find (named c n) as = Some a" "a \<in> set as" by (rule find_named [OF assms(4)])
  have "node_text c a = Inr (person_text (people c a))"
    using assms(1) a(2) by (auto simp: node_text_def book_def person_ok_def cstr_text person_text_def)
  moreover have "find (\<lambda>x. fst x = n) (book_text c as) = Some (person_text (people c a))"
    using a(1) unfolding book_text_def
    by (induction as) (auto simp: named_def split: if_splits)
  ultimately show ?thesis
    using book_search [OF assms(1) w(2)] by (simp add: SEARCH_def w a)
qed

text \<open>Saving writes the lines in the order of the list; an empty book leaves an empty file.\<close>

definition book_file :: "(string \<times> string) list \<Rightarrow> string" where
  "book_file xs = concat (map file_line xs)"

lemma SAVE_book:
  assumes "book c as" "env_ok c" "length f < name_length" "can_open c f"
  shows "\<exists>r c'. SAVE f c = Some (Inr (r, c')) \<and> book c' as \<and> book_text c' as = book_text c as
    \<and> same_env c c' \<and> files c' = (files c)(f \<mapsto> book_file (book_text c as))"
proof -
  have w: "\<exists>w. scan_word (replicate name_length NUL) f = Some w" using assms(3) by (simp add: scan_word_def)
  let ?c = "c\<lparr>files := (files c)(f \<mapsto> [])\<rparr>"
  show ?thesis
  proof (cases "chead c")
    case None
    then have "as = []" using assms(1) by (cases as) (auto simp: book_def is_list_def)
    then show ?thesis
      using w None assms by (auto simp: SAVE_def contact_save_def Let_def book_text_def book_file_def book_def same_env_def)
  next
    case (Some p)
    let ?z = "\<lparr>p_name = replicate name_length NUL, p_phone = replicate phone_length NUL\<rparr>"
    obtain a c1 where n: "new_person ?c = (Some a, c1)" and a: "a = next_addr c"
      and c1: "c1 = ?c\<lparr>next_addr := Suc a, live := insert a (live c), people := (people c)(a := junk c a)\<rparr>"
      using assms(2) by (simp add: new_person_def Let_def env_ok_def)
    define c2 where "c2 = set_person a ?z c1"
    have fresh: "a \<notin> set as" using assms(1) a by (auto simp: book_def)
    have b: "book c2 as" "book_text c2 as = book_text c as" "chead c2 = chead c" "same_env c c2"
        "files c2 = (files c)(f \<mapsto> [])" "can_open c2 = can_open c"
      using assms(1) fresh a
      by (auto simp: c2_def c1 set_person_def book_def same_env_def less_Suc_eq book_text_def)
    have t: "contact_texts c2 (Some p) [] = Some (Inr (book_text c as))"
      using book_travel [OF b(1)] b(2,3) Some by (simp add: contact_travel_def)
    let ?c3 = "c2\<lparr>files := (files c)(f \<mapsto> book_file (book_text c as))\<rparr>"
    have "contact_save f c = Some (Inr (stale_ret c2, ?c3))"
      using Some assms(4) n t b by (simp add: contact_save_def c2_def [symmetric] book_file_def)
    then have "SAVE f c = Some (Inr (stale_ret c2, ?c3))"
      using w by (auto simp: SAVE_def)
    moreover have "book ?c3 as" "book_text ?c3 as = book_text c as" "same_env c ?c3"
      using b by (simp_all add: book_def book_text_def same_env_def)
    ultimately show ?thesis by (intro exI conjI) (assumption | simp)+
  qed
qed

section \<open>Loading\<close>

abbreviation NL :: char where "NL \<equiv> CHR 0x0A"

lemma take_line_newline: "NL \<notin> set l \<Longrightarrow> length l < k \<Longrightarrow> take_line k (l @ NL # r) = (l @ [NL], r)"
proof (induction l arbitrary: k)
  case Nil
  then show ?case by (cases k) auto
next
  case (Cons ch l)
  then show ?case by (cases k) auto
qed

text \<open>A line the buffers can take.\<close>

definition line_ok :: "string \<times> string \<Rightarrow> bool" where
  "line_ok nt \<longleftrightarrow> set (fst nt) \<inter> {CHR '','', NL, NUL} = {} \<and> set (snd nt) \<inter> {NL, NUL} = {}
     \<and> length (fst nt) \<le> name_length \<and> length (snd nt) < name_length"

text \<open>What the arrays hold after each line, and the persons made of them.\<close>

fun loaded :: "string \<Rightarrow> string \<Rightarrow> (string \<times> string) list \<Rightarrow> person list" where
  "loaded tn tp [] = []"
| "loaded tn tp (nt # xs) =
    (let tn = overlay (fst nt) tn; tp = overlay (snd nt @ [NL]) tp
     in \<lparr>p_name = take name_length tn, p_phone = take phone_length tp\<rparr> # loaded tn tp xs)"

lemma FILE_MSG_line:
  assumes "line_ok nt" "length tn = name_length" "length tp = name_length"
  shows "let buffer = overlay (file_line nt @ [NUL]) buf
    in FILE_MSG buffer (length (takeWhile (\<lambda>ch. ch \<noteq> NUL) buffer)) tn tp
      = Some (overlay (fst nt) tn, overlay (snd nt @ [NL]) tp)"
proof -
  obtain n t where nt: "nt = (n, t)" by (cases nt)
  obtain r where b: "overlay (file_line nt @ [NUL]) buf = n @ CHR '','' # t @ NL # NUL # r"
    by (simp add: overlay_def file_line_def nt)
  have 1: "takeWhile (\<lambda>ch. ch \<noteq> NUL) (n @ CHR '','' # t @ NL # NUL # r) = n @ CHR '','' # t @ [NL]"
  proof -
    have "takeWhile (\<lambda>ch. ch \<noteq> NUL) ((n @ CHR '','' # t @ [NL]) @ NUL # r) = n @ CHR '','' # t @ [NL]"
      by (subst takeWhile_append2) (use assms(1) nt in \<open>auto simp: line_ok_def\<close>)
    then show ?thesis by simp
  qed
  have 2: "takeWhile (\<lambda>ch. ch \<noteq> CHR '','') (n @ CHR '','' # t @ NL # NUL # r) = n"
    using assms(1) nt by (subst takeWhile_append2) (auto simp: line_ok_def)
  show ?thesis
    using assms nt unfolding b Let_def FILE_MSG_def 1 2 by (simp add: line_ok_def)
qed

lemma load_one_book:
  assumes "book c as" "env_ok c" "person_ok \<lparr>p_name = take name_length tn, p_phone = take phone_length tp\<rparr>"
  obtains a c' where "load_one c tn tp = (Some a, c')" "book c' (a # as)" "same_env c c'" "files c' = files c"
    and "book_text c' (a # as)
      = person_text \<lparr>p_name = take name_length tn, p_phone = take phone_length tp\<rparr> # book_text c as"
proof -
  let ?q = "\<lparr>p_name = take name_length tn, p_phone = take phone_length tp\<rparr>"
  obtain a c1 where n: "new_person c = (Some a, c1)"
    and add: "\<forall>q r c2. person_ok q \<longrightarrow> contact_insert a (set_person a q c1) = (r, c2) \<longrightarrow>
      r = stale_ret c \<and> added c as a q c2"
    by (rule book_add [OF assms(1,2)])
  obtain r c2 where i: "contact_insert a (set_person a ?q c1) = (r, c2)" by (cases "contact_insert a (set_person a ?q c1)")
  have "added c as a ?q c2" using add assms(3) i by blast
  then show thesis
    using n i by (intro that [of a "c2\<lparr>ccount := ccount c2 + 1\<rparr>"]) (auto simp: load_one_def added_def same_env_def)
qed

lemma load_loop_book:
  assumes "book c as" "env_ok c" "\<forall>nt\<in>set xs. line_ok nt" "\<forall>q\<in>set (loaded tn tp xs). person_ok q"
    and "length tn = name_length" "length tp = name_length"
  shows "\<exists>r c' as'. load_loop (book_file xs) buf tn tp c = Inr (r, c') \<and> book c' as' \<and> same_env c c'
    \<and> files c' = files c \<and> book_text c' as' = rev (map person_text (loaded tn tp xs)) @ book_text c as"
  using assms
proof (induction xs arbitrary: c as buf tn tp)
  case Nil
  then show ?case by (auto simp: load_loop.simps book_file_def)
next
  case (Cons nt xs)
  let ?tn = "overlay (fst nt) tn" and ?tp = "overlay (snd nt @ [NL]) tp"
  let ?q = "\<lparr>p_name = take name_length ?tn, p_phone = take phone_length ?tp\<rparr>"
  have f: "book_file (nt # xs) = (fst nt @ CHR '','' # snd nt) @ NL # book_file xs"
    by (simp add: book_file_def file_line_def)
  have g: "book_file (nt # xs) \<noteq> []" unfolding f by simp
  have l: "line_ok nt" and q: "person_ok ?q" using Cons.prems by (simp_all add: Let_def)
  have t: "take_line (buffer_size - 1) (book_file (nt # xs)) = (file_line nt, book_file xs)"
    unfolding f using l
    by (subst take_line_newline) (auto simp: line_ok_def file_line_def buffer_size_def name_length_def)
  obtain a c1 where o: "load_one c ?tn ?tp = (Some a, c1)" "book c1 (a # as)" "same_env c c1" "files c1 = files c"
      "book_text c1 (a # as) = person_text ?q # book_text c as"
    by (rule load_one_book [OF Cons.prems(1,2) q])
  let ?buf = "overlay (file_line nt @ [NUL]) buf"
  have s: "load_loop (book_file (nt # xs)) buf tn tp c = load_loop (book_file xs) ?buf ?tn ?tp c1"
    using FILE_MSG_line [OF l Cons.prems(5,6), of buf]
    by (subst load_loop.simps) (simp add: t o(1) Let_def g del: One_nat_def)
  have lens: "length ?tn = name_length" "length ?tp = name_length"
    using l Cons.prems(5,6) by (simp_all add: overlay_def line_ok_def)
  obtain r c' as' where "load_loop (book_file xs) ?buf ?tn ?tp c1 = Inr (r, c')" "book c' as'" "same_env c1 c'"
      "files c' = files c1"
      "book_text c' as' = rev (map person_text (loaded ?tn ?tp xs)) @ book_text c1 (a # as)"
    using Cons.IH [OF o(2) same_env_ok [OF o(3) Cons.prems(2)] _ _ lens, of ?buf] Cons.prems(3,4)
    by (auto simp: Let_def)
  then show ?case
    using s o same_env_trans [OF o(3)] by (intro exI [of _ r] exI [of _ c'] exI [of _ as']) (simp add: Let_def)
qed

lemma LOAD_book:
  assumes "book c as" "env_ok c" "length f < name_length" "can_open c f" "files c f = Some (book_file xs)"
    and "\<forall>nt\<in>set xs. line_ok nt"
    and "\<forall>q\<in>set (loaded (replicate name_length NUL) (replicate name_length NUL) xs). person_ok q"
  shows "\<exists>c' as'. LOAD f c = Some (Inr (0, c')) \<and> book c' as' \<and> same_env c c' \<and> files c' = files c
    \<and> book_text c' as'
      = rev (map person_text (loaded (replicate name_length NUL) (replicate name_length NUL) xs)) @ book_text c as"
proof -
  have "\<exists>w. scan_word (replicate name_length NUL) f = Some w" using assms(3) by (simp add: scan_word_def)
  then show ?thesis
    using load_loop_book [OF assms(1,2,6,7), of "replicate buffer_size NUL"] assms(4,5)
    by (fastforce simp: LOAD_def contact_load_def)
qed

text \<open>When all lines have the same lengths, nothing of an earlier line shows.\<close>

lemma take_zero_tail:
  assumes "length a < k" "k \<le> length a + j" "NUL \<notin> set a"
  shows "text_of (take k (a @ replicate j NUL)) = a" "NUL \<in> set (take k (a @ replicate j NUL))"
proof -
  obtain i where i: "min (k - length a) j = Suc i" using assms(1,2) by (cases "min (k - length a) j") auto
  have t: "take k (a @ replicate j NUL) = a @ NUL # replicate i NUL"
    using assms(1,2) i by (simp add: min_def split: if_splits)
  show "text_of (take k (a @ replicate j NUL)) = a" "NUL \<in> set (take k (a @ replicate j NUL))"
    unfolding t by (simp_all add: text_of_terminated assms(3))
qed

lemma loaded_texts:
  assumes "\<forall>nt\<in>set xs. line_ok nt \<and> length (fst nt) = k \<and> length (snd nt) = m"
    and "k < name_length" "m + 1 < phone_length"
    and "length a = k" "length b = m + 1"
  shows "(\<forall>q\<in>set (loaded (a @ replicate (name_length - k) NUL) (b @ replicate (name_length - (m + 1)) NUL) xs). person_ok q)
    \<and> map person_text (loaded (a @ replicate (name_length - k) NUL) (b @ replicate (name_length - (m + 1)) NUL) xs)
      = map (\<lambda>(n, t). (n, t @ [NL])) xs"
  using assms
proof (induction xs arbitrary: a b)
  case (Cons nt xs)
  obtain n t where nt: "nt = (n, t)" by (cases nt)
  have l: "length n = k" "length t = m" "NUL \<notin> set n" "NUL \<notin> set (t @ [NL])"
    using Cons.prems(1) nt by (auto simp: line_ok_def)
  have o: "overlay n (a @ replicate (name_length - k) NUL) = n @ replicate (name_length - k) NUL"
    "overlay (t @ [NL]) (b @ replicate (name_length - (m + 1)) NUL) = (t @ [NL]) @ replicate (name_length - (m + 1)) NUL"
    using l Cons.prems(4,5) by (simp_all add: overlay_def)
  have n: "text_of (take name_length (n @ replicate (name_length - k) NUL)) = n"
      "NUL \<in> set (take name_length (n @ replicate (name_length - k) NUL))"
    by (rule take_zero_tail; use l Cons.prems(2) in simp)+
  have t: "text_of (take phone_length ((t @ [NL]) @ replicate (name_length - (m + 1)) NUL)) = t @ [NL]"
      "NUL \<in> set (take phone_length ((t @ [NL]) @ replicate (name_length - (m + 1)) NUL))"
    by (rule take_zero_tail; use l Cons.prems(3) in \<open>simp add: phone_length_def name_length_def\<close>)+
  have s: "loaded (a @ replicate (name_length - k) NUL) (b @ replicate (name_length - (m + 1)) NUL) (nt # xs)
    = \<lparr>p_name = take name_length (n @ replicate (name_length - k) NUL),
       p_phone = take phone_length ((t @ [NL]) @ replicate (name_length - (m + 1)) NUL)\<rparr>
      # loaded (n @ replicate (name_length - k) NUL) ((t @ [NL]) @ replicate (name_length - (m + 1)) NUL) xs"
    unfolding loaded.simps Let_def nt fst_conv snd_conv o ..
  have q: "person_ok \<lparr>p_name = take name_length (n @ replicate (name_length - k) NUL),
       p_phone = take phone_length ((t @ [NL]) @ replicate (name_length - (m + 1)) NUL)\<rparr>"
    using n(2) t(2) l Cons.prems(2,3) by (simp add: person_ok_def phone_length_def name_length_def)
  have "length (t @ [NL]) = m + 1" using l(2) by simp
  then show ?case
    using Cons.IH [of n "t @ [NL]"] Cons.prems(1-3) l(1) n(1) t(1) q unfolding s
    by (simp add: person_text_def nt)
qed simp

section \<open>The specification\<close>

type_synonym book_state = "(string \<times> string) list \<times> (string \<Rightarrow> string option)"

text \<open>The commands on a list of names and numbers and on the files, and when they are in order: words fit
  their arrays, names removed or searched for are in the book, files can be opened.\<close>

fun spec_step :: "menu_choice \<Rightarrow> book_state \<Rightarrow> (string \<times> string) list \<times> book_state" where
  "spec_step (CONTACT_INSERT n t) (xs, fs) = ([], (n, t) # xs, fs)"
| "spec_step (CONTACT_REMOVE n) (xs, fs) = ([], delete_first n xs, fs)"
| "spec_step (CONTACT_SEARCH n) (xs, fs) =
    (case find (\<lambda>x. fst x = n) xs of None \<Rightarrow> [] | Some x \<Rightarrow> [x], xs, fs)"
| "spec_step CONTACT_PRINT (xs, fs) = (xs, xs, fs)"
| "spec_step (FILE_SAVE f) (xs, fs) = ([], xs, fs(f \<mapsto> book_file xs))"
| "spec_step (FILE_LOAD f) (xs, fs) = ([], xs, fs)"
| "spec_step Other_choice (xs, fs) = ([], xs, fs)"

definition word_ok :: "nat \<Rightarrow> string \<Rightarrow> bool" where
  "word_ok k w \<longleftrightarrow> length w < k \<and> NUL \<notin> set w"

fun in_order :: "(string \<Rightarrow> bool) \<Rightarrow> menu_choice \<Rightarrow> (string \<times> string) list \<Rightarrow> bool" where
  "in_order opens (CONTACT_INSERT n t) xs \<longleftrightarrow> word_ok name_length n \<and> word_ok phone_length t"
| "in_order opens (CONTACT_REMOVE n) xs \<longleftrightarrow> word_ok name_length n \<and> n \<in> fst ` set xs"
| "in_order opens (CONTACT_SEARCH n) xs \<longleftrightarrow> word_ok name_length n \<and> n \<in> fst ` set xs"
| "in_order opens CONTACT_PRINT xs \<longleftrightarrow> True"
| "in_order opens (FILE_SAVE f) xs \<longleftrightarrow> length f < name_length \<and> opens f"
| "in_order opens (FILE_LOAD f) xs \<longleftrightarrow> False"
| "in_order opens Other_choice xs \<longleftrightarrow> True"

fun spec_run :: "menu_choice list \<Rightarrow> book_state \<Rightarrow> (string \<times> string) list list \<times> book_state" where
  "spec_run [] b = ([], b)"
| "spec_run (ch # chs) b =
    (case spec_step ch b of (out, b) \<Rightarrow> case spec_run chs b of (outs, b) \<Rightarrow> (out # outs, b))"

fun all_in_order :: "(string \<Rightarrow> bool) \<Rightarrow> menu_choice list \<Rightarrow> book_state \<Rightarrow> bool" where
  "all_in_order opens [] b \<longleftrightarrow> True"
| "all_in_order opens (ch # chs) b \<longleftrightarrow>
    in_order opens ch (fst b) \<and> all_in_order opens chs (snd (spec_step ch b))"

lemma menu_step_refines:
  assumes "book c as" "env_ok c" "in_order (can_open c) ch (book_text c as)"
  shows "\<exists>out c' as'. menu_step ch c = Some (Inr (out, c')) \<and> book c' as' \<and> same_env c c'
    \<and> spec_step ch (book_text c as, files c) = (out, book_text c' as', files c')"
proof (cases ch)
  case (CONTACT_INSERT n t)
  then show ?thesis
    using INSERT_book [OF assms(1,2), of n t] assms(3) by (fastforce simp: word_ok_def silent_def)
next
  case (CONTACT_REMOVE n)
  then show ?thesis
    using DELETE_book [OF assms(1), of n] assms(3) by (fastforce simp: word_ok_def silent_def)
next
  case (CONTACT_SEARCH n)
  then show ?thesis
    using SEARCH_book [OF assms(1), of n] assms by (auto simp: word_ok_def)
next
  case CONTACT_PRINT
  then show ?thesis using book_travel [OF assms(1)] assms(1) by (auto simp: PTINT_def)
next
  case (FILE_SAVE f)
  then show ?thesis
    using SAVE_book [OF assms(1,2), of f] assms(3) by (fastforce simp: silent_def)
qed (use assms in auto)

section \<open>Properties\<close>

text \<open>C33. Used as intended, the contact book is a list.  Take a sequence of insertions, removals, searches,
  printing and saving in which every name typed has fewer than 20 characters, every number fewer than 12,
  none with a zero byte, every name removed or searched for is in the book at that moment, and every file
  name has fewer than 20 characters and can be opened (\<open>all_in_order\<close>).  Suppose further that memory is
  always granted, and that what the missing \<open>return\<close> of \<open>contact_insert\<close> leaves behind is never \<open>-1\<close>
  (\<open>env_ok\<close>).  From any well-formed book the sequence then ends without a fault, keeps the doubly linked nodes
  a well-formed list whose length is the counter, prints what the same commands on a list of names and
  numbers give, and writes the files that list has.  Nothing is claimed without these conditions: longer
  words overrun their arrays, an unknown name or a file that cannot be opened is followed through a null or
  arbitrary pointer, and a value of \<open>-1\<close> makes \<open>INSERT\<close> free a node that is in the list.\<close>

theorem contact_run_refines:
  assumes "book c as" "env_ok c" "all_in_order (can_open c) chs (book_text c as, files c)"
  shows "\<exists>outs c' as'. menu_run chs c = Some (Inr (outs, c')) \<and> book c' as'
    \<and> spec_run chs (book_text c as, files c) = (outs, book_text c' as', files c')
    \<and> ccount c' = int (length (book_text c' as'))"
  using assms
proof (induction chs arbitrary: c as)
  case Nil
  then show ?case by (auto simp: book_text_def book_def)
next
  case (Cons ch chs)
  obtain out c' as' where s: "menu_step ch c = Some (Inr (out, c'))" "book c' as'" "same_env c c'"
      "spec_step ch (book_text c as, files c) = (out, book_text c' as', files c')"
    using menu_step_refines [OF Cons.prems(1,2), of ch] Cons.prems(3) by auto
  have "env_ok c'" "can_open c' = can_open c"
    using same_env_ok [OF s(3) Cons.prems(2)] s(3) by (simp_all add: same_env_def)
  then show ?case
    using Cons.IH [OF s(2)] Cons.prems(3) s(1,4) by fastforce
qed

definition empty_contact :: contact where
  "empty_contact = \<lparr>people = (\<lambda>_. \<lparr>p_name = [], p_phone = []\<rparr>), clinks = \<lparr>nxt = (\<lambda>_. None), prv = (\<lambda>_. None)\<rparr>,
     chead = None, ccount = 0, live = {}, next_addr = 0, can_malloc = (\<lambda>_. True),
     junk = (\<lambda>_. \<lparr>p_name = replicate name_length NUL, p_phone = replicate phone_length NUL\<rparr>),
     files = (\<lambda>_. None), can_open = (\<lambda>_. True), stale_ret = 0, stale_ptr = None\<rparr>"

lemma empty_contact_book: "book empty_contact []" "env_ok empty_contact" "book_text empty_contact [] = []"
  by (simp_all add: empty_contact_def book_def is_list_def env_ok_def book_text_def)

lemma contact_run_refines_witness:
  "\<exists>c'. menu_run [CONTACT_INSERT ''Ann'' ''12'', CONTACT_INSERT ''Bob'' ''34'', CONTACT_PRINT, CONTACT_REMOVE ''Ann'',
      CONTACT_PRINT] empty_contact
    = Some (Inr ([[], [], [(''Bob'', ''34''), (''Ann'', ''12'')], [], [(''Bob'', ''34'')]], c')) \<and> ccount c' = 1"
proof -
  let ?cmds = "[CONTACT_INSERT ''Ann'' ''12'', CONTACT_INSERT ''Bob'' ''34'', CONTACT_PRINT, CONTACT_REMOVE ''Ann'', CONTACT_PRINT]"
  have "all_in_order (can_open empty_contact) ?cmds (book_text empty_contact [], files empty_contact)"
    by (auto simp: empty_contact_book(3) word_ok_def name_length_def phone_length_def)
  from contact_run_refines [OF empty_contact_book(1,2) this] obtain outs c' as' where
    r: "menu_run ?cmds empty_contact = Some (Inr (outs, c'))" "ccount c' = int (length (book_text c' as'))"
    and "spec_run ?cmds (book_text empty_contact [], files empty_contact) = (outs, book_text c' as', files c')" by blast
  then have "outs = [[], [], [(''Bob'', ''34''), (''Ann'', ''12'')], [], [(''Bob'', ''34'')]]"
      "book_text c' as' = [(''Bob'', ''34'')]"
    by (auto simp: empty_contact_book(3) delete_first_def)
  then show ?thesis using r by simp
qed


definition ann_book :: contact where
  "ann_book = empty_contact\<lparr>files := (files empty_contact)(''f'' \<mapsto> book_file [(''Bob'', ''34''), (''Ann'', ''12'')])\<rparr>"

lemma ann_book_empty: "book ann_book []" "env_ok ann_book" "book_text ann_book [] = []" "can_open ann_book f"
    "files ann_book ''f'' = Some (book_file [(''Bob'', ''34''), (''Ann'', ''12'')])"
  by (simp_all add: ann_book_def empty_contact_def book_def is_list_def env_ok_def book_text_def)

lemma two_contacts: "\<exists>c as. book c as \<and> env_ok c \<and> can_open c ''f'' \<and> book_text c as = [(''Bob'', ''34''), (''Ann'', ''12'')]"
proof -
  have w: "length ''Ann'' < name_length" "length ''Bob'' < name_length" "length ''12'' < phone_length"
      "length ''34'' < phone_length" "NUL \<notin> set ''Ann''" "NUL \<notin> set ''Bob''" "NUL \<notin> set ''12''" "NUL \<notin> set ''34''"
    by (simp_all add: name_length_def phone_length_def)
  obtain c1 a where 1: "book c1 [a]" "same_env empty_contact c1" "book_text c1 [a] = [(''Ann'', ''12'')]"
    using INSERT_book [OF empty_contact_book(1,2) w(1,3,5,7)] empty_contact_book(3) by auto
  obtain c2 b where 2: "book c2 [b, a]" "same_env c1 c2" "book_text c2 [b, a] = [(''Bob'', ''34''), (''Ann'', ''12'')]"
    using INSERT_book [OF 1(1) same_env_ok [OF 1(2) empty_contact_book(2)] w(2,4,6,8)] 1(3) by auto
  have "same_env empty_contact c2" using 1(2) 2(2) by (rule same_env_trans)
  then have "env_ok c2" "can_open c2 ''f''"
    using same_env_ok [OF _ empty_contact_book(2)] by (auto simp: same_env_def empty_contact_def)
  then show ?thesis using 2 by blast
qed


text \<open>Loading keeps what a longer line left behind: of two lines, the second with a shorter name and a
  number not longer than the first, the second contact is read with the end of the first name, and
  with the end of the first line after its own newline.\<close>

theorem contact_load_leftovers:
  assumes "book c as" "env_ok c" "length f < name_length" "can_open c f"
    and "files c f = Some (book_file [(n1, t1), (n2, t2)])" "line_ok (n1, t1)" "line_ok (n2, t2)"
    and "length n2 < length n1" "length n1 < name_length" "length t2 \<le> length t1" "length t1 + 1 < phone_length"
  shows "\<exists>c' as'. menu_step (FILE_LOAD f) c = Some (Inr ([], c')) \<and> book c' as'
    \<and> book_text c' as' = (n2 @ drop (length n2) n1, (t2 @ [NL]) @ drop (length t2 + 1) (t1 @ [NL]))
        # (n1, t1 @ [NL]) # book_text c as"
proof -
  let ?z = "replicate name_length NUL" and ?i = "name_length - length n1" and ?j = "name_length - (length t1 + 1)"
  let ?n = "n2 @ drop (length n2) n1" and ?t = "(t2 @ [NL]) @ drop (length t2 + 1) (t1 @ [NL])"
  have o: "overlay n1 ?z = n1 @ replicate ?i NUL" "overlay (t1 @ [NL]) ?z = (t1 @ [NL]) @ replicate ?j NUL"
    by (simp_all add: overlay_def)
  have o3: "overlay u (v @ r) = (u @ drop (length u) v) @ r" if "length u \<le> length v" for u v r :: string
    using that by (simp add: overlay_def)
  have o2: "overlay n2 (n1 @ replicate ?i NUL) = ?n @ replicate ?i NUL"
    "overlay (t2 @ [NL]) ((t1 @ [NL]) @ replicate ?j NUL) = ?t @ replicate ?j NUL"
    using o3 [of n2 n1] o3 [of "t2 @ [NL]" "t1 @ [NL]"] assms(8,10) by simp_all
  have d: "NUL \<notin> set (drop (length n2) n1)" "NUL \<notin> set (drop (length t2 + 1) (t1 @ [NL]))"
    using assms(6) by (auto simp: line_ok_def dest: in_set_dropD)
  have nuls: "NUL \<notin> set n1" "NUL \<notin> set (t1 @ [NL])" "NUL \<notin> set ?n" "NUL \<notin> set ?t"
    using assms(6,7) d by (auto simp: line_ok_def)
  have lens: "length ?n = length n1" "length ?t = length t1 + 1" using assms(8,10) by simp_all
  have n: "text_of (take name_length (n1 @ replicate ?i NUL)) = n1" "NUL \<in> set (take name_length (n1 @ replicate ?i NUL))"
      "text_of (take name_length (?n @ replicate ?i NUL)) = ?n" "NUL \<in> set (take name_length (?n @ replicate ?i NUL))"
    by (rule take_zero_tail; use assms(9) nuls lens in simp)+
  have t: "text_of (take phone_length ((t1 @ [NL]) @ replicate ?j NUL)) = t1 @ [NL]"
      "NUL \<in> set (take phone_length ((t1 @ [NL]) @ replicate ?j NUL))"
      "text_of (take phone_length (?t @ replicate ?j NUL)) = ?t" "NUL \<in> set (take phone_length (?t @ replicate ?j NUL))"
    by (rule take_zero_tail; use assms(11) nuls lens in \<open>simp add: phone_length_def name_length_def\<close>)+
  let ?q1 = "\<lparr>p_name = take name_length (n1 @ replicate ?i NUL), p_phone = take phone_length ((t1 @ [NL]) @ replicate ?j NUL)\<rparr>"
  let ?q2 = "\<lparr>p_name = take name_length (?n @ replicate ?i NUL), p_phone = take phone_length (?t @ replicate ?j NUL)\<rparr>"
  have l: "loaded ?z ?z [(n1, t1), (n2, t2)] = [?q1, ?q2]"
    unfolding loaded.simps Let_def fst_conv snd_conv o o2 ..
  have ok: "person_ok ?q1" "person_ok ?q2"
    using n t lens assms(9,11) by (simp_all add: person_ok_def phone_length_def name_length_def)
  have pt: "person_text ?q1 = (n1, t1 @ [NL])" "person_text ?q2 = (?n, ?t)" using n t by (simp_all add: person_text_def)
  have lo: "\<forall>nt\<in>set [(n1, t1), (n2, t2)]. line_ok nt" "\<forall>q\<in>set (loaded ?z ?z [(n1, t1), (n2, t2)]). person_ok q"
    unfolding l using assms(6,7) ok by simp_all
  show ?thesis
    using LOAD_book [OF assms(1-5) lo] pt unfolding l by (fastforce simp: silent_def)
qed

definition bob_book :: contact where
  "bob_book = empty_contact\<lparr>files := (files empty_contact)(''f'' \<mapsto> book_file [(''Robert'', ''345''), (''Al'', ''1'')])\<rparr>"

lemma contact_load_leftovers_witness:
  "\<exists>c' as'. menu_step (FILE_LOAD ''f'') bob_book = Some (Inr ([], c')) \<and> book c' as'
    \<and> map fst (book_text c' as') = [''Albert'', ''Robert'']"
proof -
  have "book bob_book []" "env_ok bob_book" "length ''f'' < name_length" "can_open bob_book ''f''"
      "files bob_book ''f'' = Some (book_file [(''Robert'', ''345''), (''Al'', ''1'')])" "book_text bob_book [] = []"
    by (simp_all add: bob_book_def empty_contact_def book_def is_list_def env_ok_def book_text_def name_length_def)
  note b = this
  show ?thesis
    using contact_load_leftovers [OF b(1-5)] b(6) by (force simp: line_ok_def name_length_def phone_length_def)
qed

text \<open>Removing a name that is not in the book follows a null pointer when the missing \<open>return\<close> of the search
  leaves one behind.\<close>

lemma contact_delete_unknown_crashes:
  assumes "book c as" "length n < name_length" "NUL \<notin> set n" "n \<notin> fst ` set (book_text c as)" "stale_ptr c = None"
  shows "menu_step (CONTACT_REMOVE n) c = Some (Inl NullPtr)"
proof -
  obtain w where w: "scan_word (replicate name_length NUL) n = Some w" "cstr w = Some n"
    by (rule scan_zeros [OF assms(2,3)])
  have "find (named c n) as = None" using assms(4) find_named_text by blast
  then show ?thesis
    using book_search [OF assms(1) w(2)] assms(5) by (simp add: DELETE_def w contact_remove_def silent_def)
qed

text \<open>A number of eleven digits fits when typed in, but after saving and loading its newline takes the place of
  the zero byte, and printing the book reads past the array.\<close>

lemma contact_long_phone_unterminated:
  "case menu_run [CONTACT_INSERT ''Al'' ''13800001111'', FILE_SAVE ''f'', FILE_LOAD ''f'', CONTACT_PRINT] empty_contact
    of Some (Inl e) \<Rightarrow> e = NoTerminator | _ \<Rightarrow> False"
  by code_simp

end
