(* ===== verification/Thread_Pool.thy ===== *)
theory Thread_Pool
  imports Dll "HOL-Library.Multiset"
begin

text \<open>
  The thread pool (\<open>thread_folder/thread_pool.c\<close>): worker threads that take tasks from a list under a
  mutex and sleep on a condition variable, and the thread that creates them, pushes tasks and
  deletes the pool.  A step is what one thread does between two points at which others can
  interfere: taking the mutex, each pass through the locked region up to the wait, sleeping, running a
  task, and each access the deleting thread makes without the mutex.  Wake-ups are those POSIX allows: one waiting
  thread per signal, all of them per broadcast, any of them spuriously.
\<close>

section \<open>State\<close>

text \<open>Where a worker is: before the lock; in the loop that tests the list, with the mutex; decided to wait, still with
  the mutex; asleep; awake but without the mutex; running a task; returned.  \<open>NoThread\<close> is a worker for
  which no thread could be created, or an address that is none.\<close>

datatype worker_pc = Start | Locked | ToWait | Waiting | Woken | Running nat | Done | NoThread

text \<open>Where the controlling thread is: outside \<open>nthreadpool_delete\<close>, setting the \<open>stop\<close> fields, joining, returned.\<close>

datatype control_pc = Idle | Stopping "nat option" | Joining "nat option" | Deleted

text \<open>The task list and the worker list are linked nodes.  \<open>workers\<close> records the worker nodes allocated, \<open>pushed\<close> and \<open>finished\<close> record the tasks pushed and the
  tasks whose function has returned.\<close>

record pool =
  tlinks :: links
  task_list :: "nat option"
  wlinks :: links
  worker_list :: "nat option"
  stop :: "nat \<Rightarrow> int"
  wpc :: "nat \<Rightarrow> worker_pc"
  holder :: "nat option"
  cpc :: control_pc
  workers :: "nat list"
  pushed :: "nat list"
  finished :: "nat list"

definition set_pc :: "nat \<Rightarrow> worker_pc \<Rightarrow> pool \<Rightarrow> pool" where
  "set_pc w pc p = p\<lparr>wpc := (wpc p)(w := pc)\<rparr>"

definition empty_pool :: pool where
  "empty_pool = \<lparr>tlinks = \<lparr>nxt = (\<lambda>_. None), prv = (\<lambda>_. None)\<rparr>, task_list = None,
     wlinks = \<lparr>nxt = (\<lambda>_. None), prv = (\<lambda>_. None)\<rparr>, worker_list = None, stop = (\<lambda>_. 0),
     wpc = (\<lambda>_. NoThread), holder = None, cpc = Idle, workers = [], pushed = [], finished = []\<rparr>"

section \<open>The threads\<close>

text \<open>The next step of worker \<open>w\<close>, if it has one.\<close>

definition nthreadpool_callback :: "nat \<Rightarrow> pool \<Rightarrow> pool option" where
  "nthreadpool_callback w p =
    (case wpc p w of
       Start \<Rightarrow> if holder p = None then Some (set_pc w Locked (p\<lparr>holder := Some w\<rparr>)) else None
     | Locked \<Rightarrow>
         if stop p w = 1 then Some (set_pc w Done (p\<lparr>holder := None\<rparr>))
         else (case task_list p of
                 None \<Rightarrow> Some (set_pc w ToWait p)
               | Some t \<Rightarrow>
                   (case List_delete t (tlinks p, task_list p) of
                      (h, ls) \<Rightarrow> Some (set_pc w (Running t) (p\<lparr>tlinks := h, task_list := ls, holder := None\<rparr>))))
     | ToWait \<Rightarrow> Some (set_pc w Waiting (p\<lparr>holder := None\<rparr>))
     | Waiting \<Rightarrow> None
     | Woken \<Rightarrow> if holder p = None then Some (set_pc w Locked (p\<lparr>holder := Some w\<rparr>)) else None
     | Running t \<Rightarrow> Some (set_pc w Start (p\<lparr>finished := finished p @ [t]\<rparr>))
     | Done \<Rightarrow> None
     | NoThread \<Rightarrow> None)"

text \<open>One turn of the loop of \<open>nthreadpool_creat\<close>, given the node, the value its uncleared \<open>stop\<close> field holds
  (\<open>memset\<close> is given the size of the pointer), and whether the thread was created.\<close>

definition creat_worker :: "nat \<Rightarrow> int \<Rightarrow> bool \<Rightarrow> pool \<Rightarrow> pool" where
  "creat_worker w junk created p =
    (case List_insert w (wlinks p, worker_list p) of
       (h, ls) \<Rightarrow> set_pc w (if created then Start else NoThread)
         (p\<lparr>wlinks := h, worker_list := ls, stop := (stop p)(w := junk), workers := w # workers p\<rparr>))"

text \<open>The whole function, for outcomes of \<open>malloc\<close> (\<open>None\<close>: no memory) and of \<open>pthread_create\<close>.\<close>

fun creat_loop :: "(nat \<times> int \<times> bool) option list \<Rightarrow> pool \<Rightarrow> int \<times> pool" where
  "creat_loop [] p = (0, p)"
| "creat_loop (None # outs) p = (-1, p)"
| "creat_loop (Some (w, junk, created) # outs) p =
    (let p = creat_worker w junk created p in if created then creat_loop outs p else (-1, p))"

definition nthreadpool_creat :: "int \<Rightarrow> (nat \<Rightarrow> (nat \<times> int \<times> bool) option) \<Rightarrow> int \<times> pool" where
  "nthreadpool_creat workernum outcome =
    (let workernum = (if workernum < 1 then 1 else workernum)
     in creat_loop (map outcome [0..<nat workernum]) empty_pool)"

text \<open>Pushing is one locked region; \<open>wake\<close> is the thread the signal wakes, if any waits.\<close>

definition nthreadpool_push :: "nat \<Rightarrow> nat option \<Rightarrow> pool \<Rightarrow> pool option" where
  "nthreadpool_push t wake p =
    (if holder p \<noteq> None then None
     else case List_insert t (tlinks p, task_list p) of
       (h, ls) \<Rightarrow>
         let p = p\<lparr>tlinks := h, task_list := ls, pushed := pushed p @ [t]\<rparr>
         in Some (case wake of None \<Rightarrow> p | Some w \<Rightarrow> set_pc w Woken p))"

text \<open>The steps of \<open>nthreadpool_delete\<close>.  A worker is joined when it has returned; the pointer to the next one is
  read from the node just freed, where \<open>after_free\<close> is what memory then holds.\<close>

definition nthreadpool_delete :: "(nat \<Rightarrow> nat option \<Rightarrow> nat option) \<Rightarrow> pool \<Rightarrow> pool option" where
  "nthreadpool_delete after_free p =
    (case cpc p of
       Idle \<Rightarrow> Some (p\<lparr>cpc := Stopping (worker_list p)\<rparr>)
     | Stopping (Some w) \<Rightarrow> Some (p\<lparr>stop := (stop p)(w := 1), cpc := Stopping (nxt (wlinks p) w)\<rparr>)
     | Stopping None \<Rightarrow>
         if holder p \<noteq> None then None
         else Some (p\<lparr>wpc := (\<lambda>w. if wpc p w = Waiting then Woken else wpc p w), cpc := Joining (worker_list p)\<rparr>)
     | Joining (Some w) \<Rightarrow>
         if wpc p w = Done then Some (p\<lparr>cpc := Joining (after_free w (nxt (wlinks p) w))\<rparr>) else None
     | Joining None \<Rightarrow> Some (p\<lparr>worker_list := None, cpc := Deleted\<rparr>)
     | Deleted \<Rightarrow> None)"

section \<open>Interleavings\<close>

inductive pool_step :: "(nat \<Rightarrow> nat option \<Rightarrow> nat option) \<Rightarrow> pool \<Rightarrow> pool \<Rightarrow> bool" for after_free where
  worker: "nthreadpool_callback w p = Some q \<Longrightarrow> pool_step after_free p q"
| spurious: "wpc p w = Waiting \<Longrightarrow> pool_step after_free p (set_pc w Woken p)"
| creat: "cpc p = Idle \<Longrightarrow> w \<notin> set (workers p) \<Longrightarrow> pool_step after_free p (creat_worker w junk created p)"
| push: "cpc p = Idle \<Longrightarrow> t \<notin> set (pushed p) \<Longrightarrow>
    (case wake of None \<Rightarrow> \<forall>w. wpc p w \<noteq> Waiting | Some w \<Rightarrow> wpc p w = Waiting) \<Longrightarrow>
    nthreadpool_push t wake p = Some q \<Longrightarrow> pool_step after_free p q"
| delete: "nthreadpool_delete after_free p = Some q \<Longrightarrow> pool_step after_free p q"

inductive_cases pool_stepE: "pool_step after_free p q"

inductive pool_reachable :: "(nat \<Rightarrow> nat option \<Rightarrow> nat option) \<Rightarrow> pool \<Rightarrow> bool" for after_free where
  start: "pool_reachable after_free empty_pool"
| step: "pool_reachable after_free p \<Longrightarrow> pool_step after_free p q \<Longrightarrow> pool_reachable after_free q"

section \<open>Steps of one worker\<close>

text \<open>The possible steps of a worker, one by one.\<close>

lemma callback_cases:
  assumes "nthreadpool_callback w p = Some q"
  obtains
    (lock) "wpc p w = Start \<or> wpc p w = Woken" "holder p = None" "q = set_pc w Locked (p\<lparr>holder := Some w\<rparr>)"
  | (exit) "wpc p w = Locked" "stop p w = 1" "q = set_pc w Done (p\<lparr>holder := None\<rparr>)"
  | (empty) "wpc p w = Locked" "stop p w \<noteq> 1" "task_list p = None" "q = set_pc w ToWait p"
  | (take) t h ls where "wpc p w = Locked" "stop p w \<noteq> 1" "task_list p = Some t"
      "List_delete t (tlinks p, task_list p) = (h, ls)"
      "q = set_pc w (Running t) (p\<lparr>tlinks := h, task_list := ls, holder := None\<rparr>)"
  | (wait) "wpc p w = ToWait" "q = set_pc w Waiting (p\<lparr>holder := None\<rparr>)"
  | (run) t where "wpc p w = Running t" "q = set_pc w Start (p\<lparr>finished := finished p @ [t]\<rparr>)"
  using assms unfolding nthreadpool_callback_def
  by (cases "wpc p w") (auto split: if_splits option.splits prod.splits)

lemma set_pc_simps [simp]:
  "wpc (set_pc w pc p) = (wpc p)(w := pc)" "holder (set_pc w pc p) = holder p" "stop (set_pc w pc p) = stop p"
  "task_list (set_pc w pc p) = task_list p" "tlinks (set_pc w pc p) = tlinks p" "cpc (set_pc w pc p) = cpc p"
  "worker_list (set_pc w pc p) = worker_list p" "wlinks (set_pc w pc p) = wlinks p"
  "workers (set_pc w pc p) = workers p" "pushed (set_pc w pc p) = pushed p" "finished (set_pc w pc p) = finished p"
  by (simp_all add: set_pc_def)

lemma creat_worker_simps [simp]:
  "wpc (creat_worker w j b p) = (wpc p)(w := if b then Start else NoThread)"
  "holder (creat_worker w j b p) = holder p" "stop (creat_worker w j b p) = (stop p)(w := j)"
  "task_list (creat_worker w j b p) = task_list p" "tlinks (creat_worker w j b p) = tlinks p"
  "cpc (creat_worker w j b p) = cpc p" "workers (creat_worker w j b p) = w # workers p"
  "pushed (creat_worker w j b p) = pushed p" "finished (creat_worker w j b p) = finished p"
  "(wlinks (creat_worker w j b p), worker_list (creat_worker w j b p)) = List_insert w (wlinks p, worker_list p)"
  by (simp_all add: creat_worker_def split: prod.splits)

lemma push_cases:
  assumes "nthreadpool_push t wake p = Some q"
  obtains h ls where "holder p = None" "List_insert t (tlinks p, task_list p) = (h, ls)"
    "q = (case wake of None \<Rightarrow> id | Some w \<Rightarrow> set_pc w Woken) (p\<lparr>tlinks := h, task_list := ls, pushed := pushed p @ [t]\<rparr>)"
  using assms unfolding nthreadpool_push_def
  by (cases "List_insert t (tlinks p, task_list p)"; cases wake) (auto simp: Let_def split: if_splits)

lemma delete_cases:
  assumes "nthreadpool_delete after_free p = Some q"
  obtains
    (start) "cpc p = Idle" "q = p\<lparr>cpc := Stopping (worker_list p)\<rparr>"
  | (stop) w where "cpc p = Stopping (Some w)" "q = p\<lparr>stop := (stop p)(w := 1), cpc := Stopping (nxt (wlinks p) w)\<rparr>"
  | (broadcast) "cpc p = Stopping None" "holder p = None"
      "q = p\<lparr>wpc := (\<lambda>w. if wpc p w = Waiting then Woken else wpc p w), cpc := Joining (worker_list p)\<rparr>"
  | (join) w where "cpc p = Joining (Some w)" "wpc p w = Done" "q = p\<lparr>cpc := Joining (after_free w (nxt (wlinks p) w))\<rparr>"
  | (return) "cpc p = Joining None" "q = p\<lparr>worker_list := None, cpc := Deleted\<rparr>"
  using assms unfolding nthreadpool_delete_def
  by (cases "cpc p") (auto split: if_splits option.splits)

section \<open>The invariant\<close>

fun running :: "worker_pc \<Rightarrow> nat multiset" where
  "running (Running t) = {#t#}"
| "running _ = {#}"

definition running_tasks :: "pool \<Rightarrow> nat multiset" where
  "running_tasks p = (\<Sum>w\<in>set (workers p). running (wpc p w))"

lemma running_move:
  assumes "workers q = workers p" "wpc q = (wpc p)(w := pc)" "w \<in> set (workers p)"
  shows "running_tasks q + running (wpc p w) = running_tasks p + running pc"
  using assms by (simp add: running_tasks_def sum.remove [of "set (workers p)" w] algebra_simps)

text \<open>Every task pushed is in the list, being run, or finished; nodes of workers form the worker list.\<close>

definition tasks_inv :: "pool \<Rightarrow> bool" where
  "tasks_inv p \<longleftrightarrow> distinct (pushed p) \<and> (\<exists>ts. is_list (tlinks p, task_list p) ts
     \<and> mset ts + running_tasks p + mset (finished p) = mset (pushed p))"

definition workers_inv :: "pool \<Rightarrow> bool" where
  "workers_inv p \<longleftrightarrow> (\<forall>w. wpc p w \<noteq> NoThread \<longrightarrow> w \<in> set (workers p))
     \<and> (cpc p \<noteq> Deleted \<longrightarrow> is_list (wlinks p, worker_list p) (workers p))"

text \<open>The mutex, and what a worker that decided to wait knows.\<close>

definition mutex_inv :: "pool \<Rightarrow> bool" where
  "mutex_inv p \<longleftrightarrow> (\<forall>w. wpc p w = Locked \<or> wpc p w = ToWait \<longrightarrow> holder p = Some w)
     \<and> (\<forall>w. holder p = Some w \<longrightarrow> wpc p w = Locked \<or> wpc p w = ToWait) \<and> (\<forall>w. wpc p w = ToWait \<longrightarrow> task_list p = None)"

lemma workers_inv_step: "pool_step after_free p q \<Longrightarrow> workers_inv p \<Longrightarrow> workers_inv q"
proof (erule pool_stepE)
  fix w assume "nthreadpool_callback w p = Some q" "workers_inv p"
  then show ?thesis by (elim callback_cases) (auto simp: workers_inv_def)
next
  fix w assume "q = set_pc w Woken p" "wpc p w = Waiting" "workers_inv p"
  then show ?thesis by (auto simp: workers_inv_def)
next
  fix w junk created
  assume "q = creat_worker w junk created p" "cpc p = Idle" "w \<notin> set (workers p)" "workers_inv p"
  then show ?thesis
    using contact_list.add_law [of "(wlinks p, worker_list p)" "workers p" w] by (auto simp: workers_inv_def)
next
  fix t wake assume "nthreadpool_push t wake p = Some q" "workers_inv p"
    "case wake of None \<Rightarrow> \<forall>w. wpc p w \<noteq> Waiting | Some w \<Rightarrow> wpc p w = Waiting"
  then show ?thesis by (elim push_cases) (auto simp: workers_inv_def split: option.splits)
next
  assume "nthreadpool_delete after_free p = Some q" "workers_inv p"
  then show ?thesis by (elim delete_cases) (auto simp: workers_inv_def)
qed

lemma mutex_held:
  "mutex_inv p \<Longrightarrow> wpc p w = Locked \<or> wpc p w = ToWait \<Longrightarrow> holder p = Some w \<and> (\<forall>v. v \<noteq> w \<longrightarrow> wpc p v \<noteq> Locked \<and> wpc p v \<noteq> ToWait)"
  unfolding mutex_inv_def by (metis option.inject)

lemma mutex_inv_step: "pool_step after_free p q \<Longrightarrow> mutex_inv p \<Longrightarrow> workers_inv p \<Longrightarrow> mutex_inv q"
proof (erule pool_stepE)
  fix w assume s: "nthreadpool_callback w p = Some q" and m: "mutex_inv p"
  then show ?thesis
    by (elim callback_cases) (simp_all add: mutex_inv_def, (metis option.inject option.distinct(1) worker_pc.distinct)+)
next
  fix w assume "q = set_pc w Woken p" "wpc p w = Waiting" "mutex_inv p"
  then show ?thesis by (auto simp: mutex_inv_def)
next
  fix w junk created
  assume "q = creat_worker w junk created p" "w \<notin> set (workers p)" "mutex_inv p" "workers_inv p"
  moreover from this have "wpc p w = NoThread" by (auto simp: workers_inv_def)
  ultimately show ?thesis by (simp add: mutex_inv_def) (metis worker_pc.distinct)
next
  fix t wake assume "nthreadpool_push t wake p = Some q" "mutex_inv p"
    "case wake of None \<Rightarrow> \<forall>w. wpc p w \<noteq> Waiting | Some w \<Rightarrow> wpc p w = Waiting"
  then show ?thesis by (elim push_cases) (auto simp: mutex_inv_def split: option.splits)
next
  assume "nthreadpool_delete after_free p = Some q" "mutex_inv p"
  then show ?thesis by (elim delete_cases) (auto simp: mutex_inv_def)
qed

text \<open>A step that leaves the list, the tasks being run and the history as they are.\<close>

lemma tasks_inv_frame:
  "tasks_inv p \<Longrightarrow> tlinks q = tlinks p \<Longrightarrow> task_list q = task_list p \<Longrightarrow> running_tasks q = running_tasks p \<Longrightarrow>
    finished q = finished p \<Longrightarrow> pushed q = pushed p \<Longrightarrow> tasks_inv q"
  by (simp add: tasks_inv_def)

lemma running_same:
  assumes "workers_inv p" "wpc p w \<noteq> NoThread" "workers q = workers p" "wpc q = (wpc p)(w := pc)"
    "running pc = running (wpc p w)"
  shows "running_tasks q = running_tasks p"
  using running_move [OF assms(3,4)] assms(1,2,5) by (simp add: workers_inv_def)

lemma tasks_inv_callback:
  assumes s: "nthreadpool_callback w p = Some q" and t: "tasks_inv p" and wi: "workers_inv p"
  shows "tasks_inv q"
  using s
proof (cases rule: callback_cases)
  case lock
  then show ?thesis by (intro tasks_inv_frame [OF t] running_same [OF wi, where w = w and pc = Locked]) auto
next
  case exit
  then show ?thesis by (intro tasks_inv_frame [OF t] running_same [OF wi, where w = w and pc = Done]) auto
next
  case empty
  then show ?thesis by (intro tasks_inv_frame [OF t] running_same [OF wi, where w = w and pc = ToWait]) auto
next
  case wait
  then show ?thesis by (intro tasks_inv_frame [OF t] running_same [OF wi, where w = w and pc = Waiting]) auto
next
  case (take a h ls)
  obtain ts where ts: "is_list (tlinks p, task_list p) ts" "mset ts + running_tasks p + mset (finished p) = mset (pushed p)"
    using t by (auto simp: tasks_inv_def)
  have a: "a \<in> set ts" using ts(1) take(3) by (cases ts) (auto simp: is_list_def)
  have "is_list (h, ls) (remove1 a ts)" using pool_list.remove_law [OF ts(1) a] take(4) by simp
  moreover have "running_tasks q = add_mset a (running_tasks p)"
    using running_move [of q p w "Running a"] wi take by (simp add: workers_inv_def)
  moreover have "mset (remove1 a ts) + add_mset a (running_tasks p) + mset (finished p) = mset (pushed p)"
    using a ts(2) by (metis add_mset_add_single insert_DiffM2 mset_remove1 set_mset_mset union_commute union_assoc)
  moreover have "distinct (pushed p)" using t by (simp add: tasks_inv_def)
  ultimately show ?thesis
    using take(5) unfolding tasks_inv_def by (intro conjI exI [of _ "remove1 a ts"]) simp_all
next
  case (run a)
  obtain ts where ts: "is_list (tlinks p, task_list p) ts" "mset ts + running_tasks p + mset (finished p) = mset (pushed p)"
    using t by (auto simp: tasks_inv_def)
  have r: "running_tasks p = running_tasks q + {#a#}"
    using running_move [of q p w Start] wi run by (simp add: workers_inv_def)
  have "mset ts + running_tasks q + mset (finished p @ [a]) = mset (pushed p)"
    using ts(2) unfolding r by simp
  then show ?thesis
    using t ts(1) run unfolding tasks_inv_def by (intro conjI exI [of _ ts]) simp_all
qed

lemma tasks_inv_step:
  assumes "pool_step after_free p q" and t: "tasks_inv p" and wi: "workers_inv p"
  shows "tasks_inv q"
  using assms(1)
proof (rule pool_stepE)
  fix w assume "nthreadpool_callback w p = Some q"
  then show ?thesis using t wi by (rule tasks_inv_callback)
next
  fix w assume "q = set_pc w Woken p" "wpc p w = Waiting"
  then show ?thesis by (intro tasks_inv_frame [OF t] running_same [OF wi, where w = w and pc = Woken]) auto
next
  fix w junk created
  assume q: "q = creat_worker w junk created p" and w: "w \<notin> set (workers p)"
  have "(\<Sum>v\<in>set (workers p). running (wpc q v)) = running_tasks p"
    unfolding running_tasks_def by (rule sum.cong) (use q w in auto)
  then have "running_tasks q = running_tasks p"
    using q w by (simp add: running_tasks_def)
  then show ?thesis using q by (intro tasks_inv_frame [OF t]) auto
next
  fix a wake
  assume p: "nthreadpool_push a wake p = Some q" and a: "a \<notin> set (pushed p)"
    and k: "case wake of None \<Rightarrow> \<forall>w. wpc p w \<noteq> Waiting | Some w \<Rightarrow> wpc p w = Waiting"
  obtain ts where ts: "is_list (tlinks p, task_list p) ts" "mset ts + running_tasks p + mset (finished p) = mset (pushed p)"
    using t by (auto simp: tasks_inv_def)
  have "set ts \<subseteq> set (pushed p)" using ts(2) by (metis mset_subset_eq_add_left set_mset_mono set_mset_mset subset_mset.add_increasing2 zero_le union_assoc)
  then have f: "a \<notin> set ts" using a by blast
  from p show ?thesis
  proof (rule push_cases)
    fix h ls
    assume i: "List_insert a (tlinks p, task_list p) = (h, ls)"
      and q: "q = (case wake of None \<Rightarrow> id | Some w \<Rightarrow> set_pc w Woken) (p\<lparr>tlinks := h, task_list := ls, pushed := pushed p @ [a]\<rparr>)"
    have "running_tasks q = running_tasks p"
    proof (cases wake)
      case None
      then show ?thesis using q by (simp add: running_tasks_def)
    next
      case (Some w)
      then show ?thesis using q k by (intro running_same [OF wi, where w = w and pc = Woken]) auto
    qed
    moreover have "is_list (h, ls) (a # ts)" using pool_list.add_law [OF ts(1) f] i by simp
    ultimately show ?thesis
      using t ts(2) a q unfolding tasks_inv_def
      by (intro conjI exI [of _ "a # ts"]) (auto split: option.splits)
  qed
next
  assume "nthreadpool_delete after_free p = Some q"
  moreover have "running (if c then Woken else pc) = running pc" if "c \<Longrightarrow> pc = Waiting" for c pc using that by auto
  ultimately show ?thesis
    by (elim delete_cases) (auto intro!: tasks_inv_frame [OF t] sum.cong simp: running_tasks_def)
qed

section \<open>Wake-ups\<close>

definition active :: "worker_pc \<Rightarrow> bool" where
  "active pc \<longleftrightarrow> pc \<notin> {Waiting, Done, NoThread}"

text \<open>While the pool is not being deleted, a worker that sleeps was not told to stop; and if there is a task and
  someone sleeps, some worker that was not told to stop is awake.\<close>

definition awake :: "pool \<Rightarrow> nat \<Rightarrow> bool" where
  "awake p w \<longleftrightarrow> active (wpc p w) \<and> stop p w \<noteq> 1"

definition wake_inv :: "pool \<Rightarrow> bool" where
  "wake_inv p \<longleftrightarrow> cpc p = Idle \<longrightarrow>
     (\<forall>w. wpc p w = ToWait \<or> wpc p w = Waiting \<longrightarrow> stop p w \<noteq> 1)
     \<and> (task_list p \<noteq> None \<longrightarrow> (\<exists>w. awake p w) \<or> (\<forall>w. wpc p w \<noteq> Waiting))"

lemma wake_invI:
  assumes "wake_inv p" "cpc q = Idle \<Longrightarrow> cpc p = Idle"
    and "\<And>v. cpc q = Idle \<Longrightarrow> wpc q v = ToWait \<or> wpc q v = Waiting \<Longrightarrow>
      (wpc p v = ToWait \<or> wpc p v = Waiting) \<and> stop q v = stop p v \<or> stop q v \<noteq> 1"
    and "\<And>v. task_list q \<noteq> None \<Longrightarrow> awake p v \<Longrightarrow> awake q v"
    and "\<And>v. task_list q \<noteq> None \<Longrightarrow> wpc q v = Waiting \<Longrightarrow> wpc p v = Waiting"
    and "task_list q \<noteq> None \<Longrightarrow> task_list p \<noteq> None \<or> (\<exists>u. awake q u) \<or> (\<forall>v. wpc q v \<noteq> Waiting)"
  shows "wake_inv q"
  unfolding wake_inv_def
proof (intro impI conjI allI)
  fix w assume "cpc q = Idle" "wpc q w = ToWait \<or> wpc q w = Waiting"
  then show "stop q w \<noteq> 1" using assms(1-3) unfolding wake_inv_def by metis
next
  assume "cpc q = Idle" "task_list q \<noteq> None"
  then show "(\<exists>w. awake q w) \<or> (\<forall>w. wpc q w \<noteq> Waiting)" using assms(1,2,4-6) unfolding wake_inv_def by blast
qed

text \<open>A step of one worker that is awake after it.\<close>

lemma wake_inv_move:
  assumes "wake_inv p" "wpc q = (wpc p)(w := pc)" "stop q = stop p" "cpc q = cpc p" "active pc"
    "pc = ToWait \<longrightarrow> stop p w \<noteq> 1" "task_list q \<noteq> None \<longrightarrow> task_list p \<noteq> None \<or> stop p w \<noteq> 1"
  shows "wake_inv q"
proof (rule wake_invI [OF assms(1)])
  have n: "pc \<noteq> Waiting" using assms(5) by (auto simp: active_def)
  show "cpc q = Idle \<Longrightarrow> cpc p = Idle" using assms(4) by simp
  show "wpc q v = ToWait \<or> wpc q v = Waiting \<Longrightarrow>
      (wpc p v = ToWait \<or> wpc p v = Waiting) \<and> stop q v = stop p v \<or> stop q v \<noteq> 1" for v
    using assms(2,3,6) n by (cases "v = w") auto
  show "awake p v \<Longrightarrow> awake q v" for v using assms(2,3,5) by (cases "v = w") (auto simp: awake_def)
  show "wpc q v = Waiting \<Longrightarrow> wpc p v = Waiting" for v using assms(2) n by (cases "v = w") auto
  show "task_list p \<noteq> None \<or> (\<exists>u. awake q u) \<or> (\<forall>v. wpc q v \<noteq> Waiting)" if "task_list q \<noteq> None"
  proof -
    have "stop p w \<noteq> 1 \<Longrightarrow> awake q w" using assms(2,3,5) by (simp add: awake_def)
    then show ?thesis using assms(7) that by blast
  qed
qed

lemma wake_inv_callback:
  assumes s: "nthreadpool_callback w p = Some q" and k: "wake_inv p" and m: "mutex_inv p"
  shows "wake_inv q"
  using s
proof (cases rule: callback_cases)
  case lock
  then show ?thesis by (intro wake_inv_move [OF k, where w = w and pc = Locked]) (auto simp: active_def)
next
  case exit
  then show ?thesis by (intro wake_invI [OF k]) (auto simp: awake_def split: if_splits)
next
  case empty
  then show ?thesis by (intro wake_inv_move [OF k, where w = w and pc = ToWait]) (auto simp: active_def)
next
  case (take t h ls)
  then show ?thesis by (intro wake_inv_move [OF k, where w = w and pc = "Running t"]) (auto simp: active_def)
next
  case wait
  then have "task_list q = None" using m by (auto simp: mutex_inv_def)
  then show ?thesis using wait by (intro wake_invI [OF k]) (auto split: if_splits)
next
  case (run t)
  then show ?thesis by (intro wake_inv_move [OF k, where w = w and pc = Start]) (auto simp: active_def)
qed

lemma wake_inv_step:
  assumes "pool_step after_free p q" and k: "wake_inv p" and m: "mutex_inv p" and wi: "workers_inv p"
  shows "wake_inv q"
  using assms(1)
proof (rule pool_stepE)
  fix w assume "nthreadpool_callback w p = Some q"
  then show ?thesis using k m by (rule wake_inv_callback)
next
  fix w assume "q = set_pc w Woken p" "wpc p w = Waiting"
  then show ?thesis by (intro wake_inv_move [OF k, where w = w and pc = Woken]) (auto simp: active_def)
next
  fix w junk created
  assume q: "q = creat_worker w junk created p" and w: "w \<notin> set (workers p)"
  have n: "wpc p w = NoThread" using w wi by (auto simp: workers_inv_def)
  then show ?thesis using q by (intro wake_invI [OF k]) (auto simp: awake_def active_def split: if_splits)
next
  fix a wake
  assume p: "nthreadpool_push a wake p = Some q" and c: "cpc p = Idle"
    and w: "case wake of None \<Rightarrow> \<forall>w. wpc p w \<noteq> Waiting | Some w \<Rightarrow> wpc p w = Waiting"
  show ?thesis
  proof (cases wake)
    case None
    from p show ?thesis by (rule push_cases) (use None w k in \<open>auto simp: wake_inv_def\<close>)
  next
    case (Some v)
    have "stop p v \<noteq> 1" using k c w Some by (auto simp: wake_inv_def)
    from p show ?thesis
      by (rule push_cases) (rule wake_inv_move [OF k, where w = v and pc = Woken], use Some \<open>stop p v \<noteq> 1\<close> in \<open>auto simp: active_def\<close>)
  qed
next
  assume "nthreadpool_delete after_free p = Some q"
  then show ?thesis using k by (elim delete_cases) (auto simp: wake_inv_def)
qed

section \<open>Stopping\<close>

text \<open>The pointer walks the worker list, behind it all workers are told to stop; after the broadcast nobody sleeps
  or is about to.\<close>

definition hd_opt :: "nat list \<Rightarrow> nat option" where
  "hd_opt xs = (case xs of [] \<Rightarrow> None | x # _ \<Rightarrow> Some x)"

definition stop_inv :: "pool \<Rightarrow> bool" where
  "stop_inv p \<longleftrightarrow>
     (\<forall>r. cpc p = Stopping r \<longrightarrow> (\<exists>us vs. workers p = us @ vs \<and> (\<forall>u\<in>set us. stop p u = 1) \<and> r = hd_opt vs))
     \<and> ((\<exists>r. cpc p = Joining r) \<or> cpc p = Deleted \<longrightarrow>
         (\<forall>w\<in>set (workers p). stop p w = 1 \<and> wpc p w \<noteq> ToWait \<and> wpc p w \<noteq> Waiting))"

lemma list_head: "is_list (h, r) ws \<Longrightarrow> r = hd_opt ws"
  by (cases ws) (auto simp: is_list_def hd_opt_def)

lemma stop_inv_frame:
  "stop_inv p \<Longrightarrow> cpc q = cpc p \<Longrightarrow> workers q = workers p \<Longrightarrow> stop q = stop p \<Longrightarrow> wpc q = (wpc p)(w := pc) \<Longrightarrow>
    pc = ToWait \<or> pc = Waiting \<longrightarrow> stop p w \<noteq> 1 \<or> w \<notin> set (workers p) \<or> wpc p w = ToWait \<Longrightarrow> stop_inv q"
  unfolding stop_inv_def by (auto split: if_splits)

lemma stop_inv_callback:
  assumes "nthreadpool_callback w p = Some q" "stop_inv p"
  shows "stop_inv q"
  using assms(1)
proof (cases rule: callback_cases)
  case lock
  then show ?thesis by (intro stop_inv_frame [OF assms(2), where w = w and pc = Locked]) auto
next
  case exit
  then show ?thesis by (intro stop_inv_frame [OF assms(2), where w = w and pc = Done]) auto
next
  case empty
  then show ?thesis by (intro stop_inv_frame [OF assms(2), where w = w and pc = ToWait]) auto
next
  case (take t h ls)
  then show ?thesis by (intro stop_inv_frame [OF assms(2), where w = w and pc = "Running t"]) auto
next
  case wait
  then show ?thesis by (intro stop_inv_frame [OF assms(2), where w = w and pc = Waiting]) auto
next
  case (run t)
  then show ?thesis by (intro stop_inv_frame [OF assms(2), where w = w and pc = Start]) auto
qed

lemma stop_inv_delete:
  assumes "nthreadpool_delete after_free p = Some q" "stop_inv p" "workers_inv p" "mutex_inv p"
  shows "stop_inv q"
  using assms(1)
proof (cases rule: delete_cases)
  case start
  have "is_list (wlinks p, worker_list p) (workers p)" using assms(3) start(1) by (simp add: workers_inv_def)
  then have "worker_list p = hd_opt (workers p)" by (rule list_head)
  then have q: "cpc q = Stopping (hd_opt (workers p))" "workers q = workers p" using start by simp_all
  show ?thesis
    unfolding stop_inv_def q by (intro conjI allI impI exI [of _ "[]"] exI [of _ "workers p"]) auto
next
  case (stop w)
  obtain us vs where u: "workers p = us @ vs" "\<forall>u\<in>set us. stop p u = 1" "Some w = hd_opt vs"
    using assms(2) stop(1) unfolding stop_inv_def by blast
  then obtain vs' where v: "vs = w # vs'" by (cases vs) (auto simp: hd_opt_def)
  have "is_list (wlinks p, worker_list p) (us @ w # vs')"
    using assms(3) stop(1) u(1) v by (simp add: workers_inv_def)
  then have "nxt (wlinks p) w = hd_opt vs'" using is_list_split(2) by (simp add: hd_opt_def)
  then have "cpc q = Stopping (hd_opt vs') \<and> workers q = (us @ [w]) @ vs' \<and> (\<forall>u\<in>set (us @ [w]). pool.stop q u = 1)"
    using stop(2) u v by auto
  then show ?thesis unfolding stop_inv_def by (intro conjI allI impI exI [of _ "us @ [w]"] exI [of _ vs']) auto
next
  case broadcast
  obtain us vs where u: "workers p = us @ vs" "\<forall>u\<in>set us. stop p u = 1" "None = hd_opt vs"
    using assms(2) broadcast(1) unfolding stop_inv_def by blast
  then have "\<forall>u\<in>set (workers p). stop p u = 1" by (cases vs) (auto simp: hd_opt_def)
  moreover have "wpc p w \<noteq> ToWait" for w using assms(4) broadcast(2) by (auto simp: mutex_inv_def)
  ultimately show ?thesis using broadcast by (simp add: stop_inv_def)
next
  case (join w)
  then show ?thesis using assms(2) by (simp add: stop_inv_def)
next
  case return
  then show ?thesis using assms(2) by (simp add: stop_inv_def)
qed

lemma stop_inv_step:
  assumes "pool_step after_free p q" "stop_inv p" "workers_inv p" "mutex_inv p"
  shows "stop_inv q"
  using assms(1)
proof (rule pool_stepE)
  fix w assume "nthreadpool_callback w p = Some q"
  then show ?thesis using assms(2) by (rule stop_inv_callback)
next
  fix w assume "q = set_pc w Woken p" "wpc p w = Waiting"
  then show ?thesis by (intro stop_inv_frame [OF assms(2), where w = w and pc = Woken]) auto
next
  fix w junk created assume "q = creat_worker w junk created p" "cpc p = Idle"
  then show ?thesis by (simp add: stop_inv_def)
next
  fix a wake assume p: "nthreadpool_push a wake p = Some q" and c: "cpc p = Idle"
  from p show ?thesis by (rule push_cases) (use c in \<open>simp add: stop_inv_def split: option.splits\<close>)
next
  assume "nthreadpool_delete after_free p = Some q"
  then show ?thesis using assms(2-4) by (rule stop_inv_delete)
qed

definition pool_inv :: "pool \<Rightarrow> bool" where
  "pool_inv p \<longleftrightarrow> workers_inv p \<and> mutex_inv p \<and> tasks_inv p \<and> wake_inv p \<and> stop_inv p"

lemma pool_inv_empty: "pool_inv empty_pool"
  by (simp add: pool_inv_def empty_pool_def workers_inv_def mutex_inv_def tasks_inv_def wake_inv_def stop_inv_def
      is_list_def running_tasks_def)

lemma pool_inv_step: "pool_step after_free p q \<Longrightarrow> pool_inv p \<Longrightarrow> pool_inv q"
  unfolding pool_inv_def
  using workers_inv_step mutex_inv_step tasks_inv_step wake_inv_step stop_inv_step by blast

lemma pool_reachable_inv: "pool_reachable after_free p \<Longrightarrow> pool_inv p"
  by (induction rule: pool_reachable.induct) (auto intro: pool_inv_empty pool_inv_step)

end
