(* ===== verification/Thread_Pool_Props.thy ===== *)
theory Thread_Pool_Props
  imports Thread_Pool
begin

text \<open>
  What the invariant of the thread pool means: every task is run at most once, wake-ups are not lost, and a pool that is
  being deleted comes to rest.
\<close>

section \<open>Runs of the workers alone\<close>

definition worker_step :: "pool \<Rightarrow> pool \<Rightarrow> bool" where
  "worker_step p q \<longleftrightarrow> (\<exists>w. nthreadpool_callback w p = Some q)"

lemma worker_steps_reachable:
  "worker_step\<^sup>*\<^sup>* p q \<Longrightarrow> pool_reachable after_free p \<Longrightarrow> pool_reachable after_free q"
  by (induction rule: rtranclp_induct)
    (auto simp: worker_step_def intro: pool_reachable.step pool_step.worker)

text \<open>A schedule, for concrete runs.\<close>

datatype action = Work nat | Creat nat int bool | Push nat "nat option" | Delete

fun schedule :: "action list \<Rightarrow> pool \<Rightarrow> pool option" where
  "schedule [] p = Some p"
| "schedule (Work w # as) p = (case nthreadpool_callback w p of None \<Rightarrow> None | Some q \<Rightarrow> schedule as q)"
| "schedule (Creat w j b # as) p =
    (if cpc p = Idle \<and> w \<notin> set (workers p) then schedule as (creat_worker w j b p) else None)"
| "schedule (Push t wake # as) p =
    (if cpc p = Idle \<and> t \<notin> set (pushed p)
        \<and> (case wake of None \<Rightarrow> \<forall>w\<in>set (workers p). wpc p w \<noteq> Waiting | Some w \<Rightarrow> wpc p w = Waiting)
     then (case nthreadpool_push t wake p of None \<Rightarrow> None | Some q \<Rightarrow> schedule as q) else None)"
| "schedule (Delete # as) p =
    (case nthreadpool_delete (\<lambda>_ q. q) p of None \<Rightarrow> None | Some q \<Rightarrow> schedule as q)"

lemma schedule_reachable:
  "schedule as p = Some q \<Longrightarrow> pool_reachable (\<lambda>_ q. q) p \<Longrightarrow> pool_reachable (\<lambda>_ q. q) q"
proof (induction as p rule: schedule.induct)
  case (4 t wake as p)
  have w: "wpc p w = Waiting \<Longrightarrow> w \<in> set (workers p)" for w
    using pool_reachable_inv [OF 4(3)] by (auto simp: pool_inv_def workers_inv_def)
  from 4 obtain p' where p: "cpc p = Idle" "t \<notin> set (pushed p)" "nthreadpool_push t wake p = Some p'"
    "case wake of None \<Rightarrow> \<forall>w\<in>set (workers p). wpc p w \<noteq> Waiting | Some w \<Rightarrow> wpc p w = Waiting"
    "schedule as p' = Some q"
    by (auto split: if_splits option.splits)
  have "pool_reachable (\<lambda>_ q. q) p'"
    by (rule pool_reachable.step [OF 4(3) pool_step.push [OF p(1,2) _ p(3)]])
      (use p(4) w in \<open>auto split: option.splits\<close>)
  then show ?case using 4(1) p by simp
qed (auto split: if_splits option.splits intro: pool_reachable.step pool_step.intros)

section \<open>Tasks\<close>

lemma running_member: "finite A \<Longrightarrow> w \<in> A \<Longrightarrow> f w = Running t \<Longrightarrow> t \<in># (\<Sum>v\<in>A. running (f v))"
  by (simp add: sum.remove [of A w])

lemma running_twice:
  assumes "finite A" "v \<in> A" "w \<in> A" "v \<noteq> w" "f v = Running t" "f w = Running t"
  shows "2 \<le> count (\<Sum>u\<in>A. running (f u)) t"
  using assms by (simp add: sum.remove [of A v] sum.remove [of "A - {v}" w])

lemma distinct_count: "distinct xs \<longleftrightarrow> (\<forall>t. count (mset xs) t \<le> 1)"
  unfolding distinct_count_atmost_1
  by (metis count_greater_eq_one_iff count_mset_0_iff le_antisym le_numeral_extra(4) set_mset_mset zero_le)

lemma running_tasks_set: "workers_inv p \<Longrightarrow> set_mset (running_tasks p) = {t. \<exists>w. wpc p w = Running t}"
proof -
  assume w: "workers_inv p"
  have "set_mset (\<Sum>v\<in>A. running (wpc p v)) = {t. \<exists>v\<in>A. wpc p v = Running t}" if "finite A" for A
    using that
  proof (induction A rule: finite_induct)
    case (insert x A)
    then show ?case by (cases "wpc p x") auto
  qed simp
  from this [of "set (workers p)"] have "set_mset (running_tasks p) = {t. \<exists>v\<in>set (workers p). wpc p v = Running t}"
    by (simp add: running_tasks_def)
  moreover have "wpc p v = Running t \<Longrightarrow> v \<in> set (workers p)" for v t
    using w by (auto simp: workers_inv_def)
  ultimately show ?thesis by blast
qed

text \<open>C35. In every state the pool can reach, the tasks pushed are exactly those in the task list, those a worker is
  running and those that have been run; no task is in two of these, none has been run twice, and no
  two workers run the same one.\<close>

theorem pool_tasks_once:
  assumes "pool_reachable after_free p"
  shows "\<exists>ts. is_list (tlinks p, task_list p) ts \<and> distinct (ts @ finished p)
    \<and> set ts \<union> {t. \<exists>w. wpc p w = Running t} \<union> set (finished p) = set (pushed p)
    \<and> (\<forall>w t. wpc p w = Running t \<longrightarrow> t \<notin> set (ts @ finished p))
    \<and> (\<forall>v w t. wpc p v = Running t \<and> wpc p w = Running t \<longrightarrow> v = w)"
proof -
  have i: "workers_inv p" "tasks_inv p" using pool_reachable_inv [OF assms] by (simp_all add: pool_inv_def)
  obtain ts where ts: "is_list (tlinks p, task_list p) ts" "mset ts + running_tasks p + mset (finished p) = mset (pushed p)"
    and d: "distinct (pushed p)" using i(2) by (auto simp: tasks_inv_def)
  have c: "count (mset ts) t + count (running_tasks p) t + count (mset (finished p)) t \<le> 1" for t
    using d unfolding distinct_count ts(2) [symmetric] by simp
  have r: "wpc p w = Running t \<Longrightarrow> w \<in> set (workers p) \<and> t \<in># running_tasks p" for w t
    using i(1) running_member [of "set (workers p)" w "wpc p" t] by (auto simp: workers_inv_def running_tasks_def)
  have "distinct (ts @ finished p)"
    unfolding distinct_count by (metis c add_leD1 add.commute add.left_commute count_union mset_append)
  moreover have "set ts \<union> {t. \<exists>w. wpc p w = Running t} \<union> set (finished p) = set (pushed p)"
    using arg_cong [OF ts(2), of set_mset] running_tasks_set [OF i(1)] by simp
  moreover have "t \<notin> set (ts @ finished p)" if "wpc p w = Running t" for w t
  proof -
    have "0 < count (running_tasks p) t" using r [OF that] by (simp only: count_greater_zero_iff)
    then have "count (mset ts) t = 0" "count (mset (finished p)) t = 0" using c [of t] by linarith+
    then show ?thesis by (simp add: count_eq_zero_iff)
  qed
  moreover have "v = w" if "wpc p v = Running t" "wpc p w = Running t" for v w t
    using c [of t] running_twice [of "set (workers p)" v w "wpc p" t] r [OF that(1)] r [OF that(2)] that
    unfolding running_tasks_def by fastforce
  ultimately show ?thesis using ts(1) by blast
qed

definition run_prefix :: "action list" where
  "run_prefix = [Creat 0 0 True, Creat 1 0 True, Work 0, Work 0, Work 0, Work 1, Work 1, Work 1, Push 7 (Some 0), Push 8 (Some 1)]"

definition busy_pool :: pool where
  "busy_pool = the (schedule (run_prefix @ [Work 0, Work 0, Work 0]) empty_pool)"

lemma busy_pool_reachable:
  "pool_reachable (\<lambda>_ q. q) busy_pool" "pushed busy_pool = [7, 8]" "finished busy_pool = [8]" "task_list busy_pool = Some 7"
proof -
  have "schedule (run_prefix @ [Work 0, Work 0, Work 0]) empty_pool \<noteq> None" by code_simp
  then show "pool_reachable (\<lambda>_ q. q) busy_pool"
    unfolding busy_pool_def using schedule_reachable pool_reachable.start by (metis option.exhaust_sel)
  show "pushed busy_pool = [7, 8]" "finished busy_pool = [8]" "task_list busy_pool = Some 7"
    by code_simp+
qed

lemma pool_tasks_once_witness:
  "\<exists>ts. is_list (tlinks busy_pool, task_list busy_pool) ts \<and> distinct (ts @ [8]) \<and> set ts \<subseteq> {7, 8}"
  using pool_tasks_once [OF busy_pool_reachable(1)] by (auto simp: busy_pool_reachable)

section \<open>No wake-up is lost\<close>

lemma worker_step_into: "nthreadpool_callback w p = Some q \<Longrightarrow> worker_step\<^sup>*\<^sup>* q r \<Longrightarrow> worker_step\<^sup>*\<^sup>* p r"
  by (meson converse_rtranclp_into_rtranclp worker_step_def)

text \<open>A worker with the mutex takes the task; one that is awake gets there when the mutex is free.\<close>

lemma locked_takes:
  assumes "wpc p v = Locked" "stop p v \<noteq> 1" "task_list p = Some t"
  shows "\<exists>q. worker_step\<^sup>*\<^sup>* p q \<and> wpc q v = Running t"
proof -
  obtain h ls where "List_delete t (tlinks p, task_list p) = (h, ls)" by (cases "List_delete t (tlinks p, task_list p)")
  then have "nthreadpool_callback v p = Some (set_pc v (Running t) (p\<lparr>tlinks := h, task_list := ls, holder := None\<rparr>))"
    using assms by (simp add: nthreadpool_callback_def)
  then have "worker_step\<^sup>*\<^sup>* p (set_pc v (Running t) (p\<lparr>tlinks := h, task_list := ls, holder := None\<rparr>))"
    by (rule worker_step_into) simp
  then show ?thesis by (intro exI conjI) (assumption, simp)
qed

lemma ready_takes:
  assumes "wpc p v = Start \<or> wpc p v = Woken" "holder p = None" "stop p v \<noteq> 1" "task_list p = Some t"
  shows "\<exists>q. worker_step\<^sup>*\<^sup>* p q \<and> wpc q v = Running t"
proof -
  let ?q = "set_pc v Locked (p\<lparr>holder := Some v\<rparr>)"
  have "nthreadpool_callback v p = Some ?q" using assms(1,2) by (auto simp: nthreadpool_callback_def)
  then show ?thesis using locked_takes [of ?q v t] assms(3,4) worker_step_into by fastforce
qed

lemma awake_takes:
  assumes "awake p v" "holder p = None" "task_list p = Some t" "mutex_inv p"
  shows "\<exists>q. worker_step\<^sup>*\<^sup>* p q \<and> wpc q v = Running t"
proof (cases "wpc p v")
  case (Running a)
  let ?q = "set_pc v Start (p\<lparr>finished := finished p @ [a]\<rparr>)"
  have "nthreadpool_callback v p = Some ?q" using Running by (simp add: nthreadpool_callback_def)
  then show ?thesis using ready_takes [of ?q v t] assms worker_step_into by (fastforce simp: awake_def)
qed (use assms ready_takes in \<open>auto simp: awake_def active_def mutex_inv_def\<close>)

text \<open>C36. No wake-up is lost: if the pool is not being deleted, a task is in the list and a worker sleeps, then the
  workers that are awake can, on their own, take the task at the head of the list.\<close>

theorem pool_no_lost_wakeup:
  assumes "pool_reachable after_free p" "cpc p = Idle" "task_list p = Some t" "wpc p w = Waiting"
  shows "\<exists>q v. worker_step\<^sup>*\<^sup>* p q \<and> wpc q v = Running t"
proof -
  have i: "mutex_inv p" "wake_inv p" using pool_reachable_inv [OF assms(1)] by (simp_all add: pool_inv_def)
  obtain v where v: "awake p v" using i(2) assms(2-4) by (auto simp: wake_inv_def)
  show ?thesis
  proof (cases "holder p")
    case None
    then show ?thesis using awake_takes [OF v _ assms(3) i(1)] by blast
  next
    case (Some u)
    then have u: "wpc p u = Locked" using i(1) assms(3) by (auto simp: mutex_inv_def)
    show ?thesis
    proof (cases "stop p u = 1")
      case False
      then show ?thesis using locked_takes [OF u _ assms(3)] by blast
    next
      case True
      let ?q = "set_pc u Done (p\<lparr>holder := None\<rparr>)"
      have s: "nthreadpool_callback u p = Some ?q" using u True by (simp add: nthreadpool_callback_def)
      have "pool_reachable after_free ?q"
        by (rule pool_reachable.step [OF assms(1) pool_step.worker [OF s]])
      then have "mutex_inv ?q" using pool_reachable_inv by (auto simp: pool_inv_def)
      moreover have "awake ?q v" using v True by (auto simp: awake_def)
      ultimately show ?thesis using awake_takes [of ?q v t] assms(3) worker_step_into [OF s] by fastforce
    qed
  qed
qed

definition sleepy_pool :: pool where
  "sleepy_pool = the (schedule [Creat 0 0 True, Creat 1 0 True, Work 0, Work 0, Work 0, Work 1, Work 1, Work 1,
     Push 7 (Some 0)] empty_pool)"

lemma sleepy_pool_reachable:
  "pool_reachable (\<lambda>_ q. q) sleepy_pool" "cpc sleepy_pool = Idle" "task_list sleepy_pool = Some 7"
  "wpc sleepy_pool 1 = Waiting"
proof -
  have "schedule [Creat 0 0 True, Creat 1 0 True, Work 0, Work 0, Work 0, Work 1, Work 1, Work 1,
     Push 7 (Some 0)] empty_pool \<noteq> None" by code_simp
  then show "pool_reachable (\<lambda>_ q. q) sleepy_pool"
    unfolding sleepy_pool_def using schedule_reachable pool_reachable.start by (metis option.exhaust_sel)
  show "cpc sleepy_pool = Idle" "task_list sleepy_pool = Some 7" "wpc sleepy_pool 1 = Waiting" by code_simp+
qed

lemma pool_no_lost_wakeup_witness: "\<exists>q v. worker_step\<^sup>*\<^sup>* sleepy_pool q \<and> wpc q v = Running 7"
  by (rule pool_no_lost_wakeup [OF sleepy_pool_reachable])

section \<open>Deletion comes to rest\<close>

text \<open>The steps a worker has left once everybody is told to stop.\<close>

fun rank :: "worker_pc \<Rightarrow> nat" where
  "rank (Running t) = 3"
| "rank Start = 2"
| "rank Woken = 2"
| "rank Locked = 1"
| "rank _ = 0"

definition left_steps :: "pool \<Rightarrow> nat" where
  "left_steps p = (\<Sum>w\<in>set (workers p). rank (wpc p w))"

lemma left_steps_bound: "left_steps p \<le> 3 * length (workers p)"
proof -
  have "rank pc \<le> 3" for pc by (cases pc) auto
  then have "left_steps p \<le> of_nat (card (set (workers p))) * 3"
    unfolding left_steps_def by (intro sum_bounded_above) auto
  also have "\<dots> \<le> 3 * length (workers p)" using card_length [of "workers p"] by simp
  finally show ?thesis .
qed

lemma worker_step_left:
  assumes "worker_step p q" "pool_inv p" "cpc p = Joining r"
  shows "left_steps q < left_steps p" "cpc q = Joining r" "workers q = workers p"
proof -
  obtain w where s: "nthreadpool_callback w p = Some q" using assms(1) by (auto simp: worker_step_def)
  have w: "w \<in> set (workers p)"
    using assms(2) s by (elim callback_cases) (auto simp: pool_inv_def workers_inv_def)
  have st: "stop p w = 1" "wpc p w \<noteq> ToWait" using assms(2,3) w by (auto simp: pool_inv_def stop_inv_def)
  have "\<exists>pc. wpc q = (wpc p)(w := pc) \<and> rank pc < rank (wpc p w) \<and> cpc q = Joining r \<and> workers q = workers p"
    using s assms(3) st by (elim callback_cases) auto
  then obtain pc where q: "wpc q = (wpc p)(w := pc)" "rank pc < rank (wpc p w)"
    and c: "cpc q = Joining r" "workers q = workers p" by blast
  show "cpc q = Joining r" "workers q = workers p" by (fact c)+
  show "left_steps q < left_steps p"
    unfolding left_steps_def c(2) using q w by (simp add: sum.remove [of "set (workers p)" w])
qed

text \<open>C37. After the broadcast of \<open>nthreadpool_delete\<close> no worker sleeps or is about to, so none waits for a signal that does
  not come; the workers make at most three steps each, and when none can make another, all of them have
  returned, so that every join returns.\<close>

theorem pool_delete_rests:
  assumes "pool_reachable after_free p" "cpc p = Joining r"
  shows "(\<forall>w. wpc p w \<noteq> Waiting \<and> wpc p w \<noteq> ToWait)
    \<and> (\<forall>n q. (worker_step ^^ n) p q \<longrightarrow> n \<le> 3 * length (workers p))
    \<and> ((\<forall>q. \<not> worker_step p q) \<longrightarrow> (\<forall>w. wpc p w = Done \<or> wpc p w = NoThread))"
proof (intro conjI)
  have i: "pool_inv p" by (rule pool_reachable_inv [OF assms(1)])
  show s: "\<forall>w. wpc p w \<noteq> Waiting \<and> wpc p w \<noteq> ToWait"
  proof
    fix w
    have "w \<in> set (workers p) \<or> wpc p w = NoThread" using i by (auto simp: pool_inv_def workers_inv_def)
    moreover have "w \<in> set (workers p) \<Longrightarrow> wpc p w \<noteq> ToWait \<and> wpc p w \<noteq> Waiting"
      using i assms(2) by (auto simp: pool_inv_def stop_inv_def)
    ultimately show "wpc p w \<noteq> Waiting \<and> wpc p w \<noteq> ToWait" by auto
  qed
  have "n + left_steps q \<le> left_steps p \<and> cpc q = Joining r \<and> pool_inv q" if "(worker_step ^^ n) p q" for n q
    using that
  proof (induction n arbitrary: q)
    case (Suc n)
    then obtain u where u: "(worker_step ^^ n) p u" "worker_step u q" by auto
    have "pool_inv q" using u(2) Suc.IH [OF u(1)] pool_inv_step pool_step.worker unfolding worker_step_def by metis
    then show ?case using Suc.IH [OF u(1)] worker_step_left [OF u(2)] by fastforce
  qed (use i assms(2) in auto)
  then show "\<forall>n q. (worker_step ^^ n) p q \<longrightarrow> n \<le> 3 * length (workers p)"
    using left_steps_bound [of p] by fastforce
  show "(\<forall>q. \<not> worker_step p q) \<longrightarrow> (\<forall>w. wpc p w = Done \<or> wpc p w = NoThread)"
  proof (intro impI allI)
    fix w assume stuck: "\<forall>q. \<not> worker_step p q"
    then have n: "nthreadpool_callback v p = None" for v
      unfolding worker_step_def by (metis option.exhaust)
    have "holder p = None"
    proof (cases "holder p")
      case (Some u)
      then have "wpc p u = Locked \<or> wpc p u = ToWait" using i by (simp add: pool_inv_def mutex_inv_def)
      then show ?thesis using n [of u] by (auto simp: nthreadpool_callback_def split: option.splits if_splits prod.splits)
    qed
    then show "wpc p w = Done \<or> wpc p w = NoThread"
      using n [of w] s by (cases "wpc p w") (auto simp: nthreadpool_callback_def split: option.splits if_splits prod.splits)
  qed
qed

definition joining_pool :: pool where
  "joining_pool = the (schedule [Creat 0 0 True, Creat 1 0 True, Work 0, Work 0, Work 0, Work 1, Work 1,
     Delete, Delete, Delete, Work 1, Delete] empty_pool)"

lemma joining_pool_reachable:
  "pool_reachable (\<lambda>_ q. q) joining_pool" "cpc joining_pool = Joining (Some 1)" "wpc joining_pool 0 = Woken"
proof -
  have "schedule [Creat 0 0 True, Creat 1 0 True, Work 0, Work 0, Work 0, Work 1, Work 1,
     Delete, Delete, Delete, Work 1, Delete] empty_pool \<noteq> None" by code_simp
  then show "pool_reachable (\<lambda>_ q. q) joining_pool"
    unfolding joining_pool_def using schedule_reachable pool_reachable.start by (metis option.exhaust_sel)
  show "cpc joining_pool = Joining (Some 1)" "wpc joining_pool 0 = Woken" by code_simp+
qed

lemma pool_delete_rests_witness: "\<exists>q. worker_step joining_pool q"
  using pool_delete_rests [OF joining_pool_reachable(1,2)] joining_pool_reachable(3)
  by (metis worker_pc.simps)

text \<open>Tasks still in the list when the pool is deleted are neither run nor freed.\<close>

lemma pool_delete_drops_tasks: "\<exists>p. pool_reachable (\<lambda>_ q. q) p \<and> cpc p = Deleted \<and> task_list p = Some 7 \<and> finished p = []"
proof -
  let ?as = "[Creat 0 0 True, Push 7 None, Delete, Delete, Delete, Work 0, Work 0, Delete, Delete]"
  have "case schedule ?as empty_pool of None \<Rightarrow> False | Some p \<Rightarrow> cpc p = Deleted \<and> task_list p = Some 7 \<and> finished p = []"
    by code_simp
  then show ?thesis using schedule_reachable [OF _ pool_reachable.start, of ?as] by (auto split: option.splits)
qed

section \<open>Creation\<close>

text \<open>Creating the workers of a pool is a run of creation steps, and when no allocation or thread creation fails the
  function returns 0 with as many workers as asked for, or one if fewer than one was asked for.\<close>

lemma creat_loop_reachable:
  assumes "creat_loop outs p = (r, q)" "pool_reachable after_free p" "cpc p = Idle"
    and "distinct (map fst (map the (filter (\<lambda>x. x \<noteq> None) outs)))"
    and "\<forall>x\<in>set outs. x \<noteq> None \<longrightarrow> fst (the x) \<notin> set (workers p)"
  shows "pool_reachable after_free q"
  using assms
proof (induction outs p rule: creat_loop.induct)
  case (3 w junk created outs p)
  let ?p = "creat_worker w junk created p"
  have r: "pool_reachable after_free ?p"
    by (rule pool_reachable.step [OF 3(3) pool_step.creat]) (use 3(4,6) in auto)
  show ?case
  proof (cases created)
    case True
    have "\<forall>x\<in>set outs. x \<noteq> None \<longrightarrow> fst (the x) \<notin> set (workers ?p)" using 3(5,6) by force
    then show ?thesis using 3(1) [OF refl True] 3(2,4,5) r True by (simp add: Let_def ex_bool_eq)
  qed (use 3(2) r in \<open>simp add: Let_def\<close>)
qed auto

lemma creat_loop_all:
  "\<forall>x\<in>set outs. \<exists>w j. x = Some (w, j, True) \<Longrightarrow> creat_loop outs p = (r, q) \<Longrightarrow>
    r = 0 \<and> workers q = rev (map (fst \<circ> the) outs) @ workers p"
  by (induction outs p rule: creat_loop.induct) (auto simp: Let_def)

lemma nthreadpool_creat_workers:
  assumes "nthreadpool_creat n outcome = (r, q)" "\<forall>i. \<exists>w j. outcome i = Some (w, j, True)"
  shows "r = 0 \<and> length (workers q) = nat (max 1 n)"
  using creat_loop_all [of "map outcome [0..<nat (if n < 1 then 1 else n)]" empty_pool r q] assms
  by (auto simp: nthreadpool_creat_def Let_def empty_pool_def max_def)

end
