(* ===== verification/Web.thy ===== *)
theory Web
  imports Prelude
begin

text \<open>
  The web server of \<open>2.1/reactor.c\<close> and \<open>2.1/webserver.c\<close>: an epoll loop calls the callbacks
  stored for a descriptor, and a connection goes through the states 0 (request received), 1 (header
  sent) and 2 (file sent). The state holds the connection table, what epoll watches each
  descriptor for, and the log of the socket calls made on each descriptor.  What the kernel answers
  (\<open>accept\<close>, \<open>recv\<close>, the size of \<open>index.html\<close>) comes with the event.
\<close>

section \<open>The state\<close>

datatype rcallback = Accept_cb | Recv_cb
datatype event = EPOLLIN | EPOLLOUT

definition BUFFER_LEN :: nat where "BUFFER_LEN = 1024"

record conn =
  conn_fd :: int
  rbuffer :: "u8 list"
  rlen :: int
  wbuffer :: "u8 list"
  wlen :: int
  r_action :: "rcallback option"
  send_callback :: bool
  sate :: int

datatype call = CAccept | CRecv int | CSend "u8 list" | CSendfile int int | CClose

record web =
  conn_list :: "nat \<Rightarrow> conn"
  watch :: "nat \<Rightarrow> event option"
  calls :: "(nat \<times> call) list"
  overread :: bool  \<comment> \<open>a \<open>printf\<close> of the request has read past \<open>rbuffer\<close>\<close>

definition zero_conn :: conn where
  "zero_conn = \<lparr>conn_fd = 0, rbuffer = replicate BUFFER_LEN 0, rlen = 0, wbuffer = replicate BUFFER_LEN 0,
     wlen = 0, r_action = None, send_callback = False, sate = 0\<rparr>"

definition upd_conn :: "nat \<Rightarrow> (conn \<Rightarrow> conn) \<Rightarrow> web \<Rightarrow> web" where
  "upd_conn fd g w = w\<lparr>conn_list := (conn_list w)(fd := g (conn_list w fd))\<rparr>"

definition log_call :: "nat \<Rightarrow> call \<Rightarrow> web \<Rightarrow> web" where
  "log_call fd c w = w\<lparr>calls := calls w @ [(fd, c)]\<rparr>"

text \<open>\<open>EPOLL_CTL_ADD\<close> fails on a watched descriptor and \<open>EPOLL_CTL_MOD\<close> on one that is not.\<close>

definition set_event :: "nat \<Rightarrow> event \<Rightarrow> bool \<Rightarrow> web \<Rightarrow> web" where
  "set_event fd ev flag w =
     (if flag \<noteq> (watch w fd \<noteq> None) then w\<lparr>watch := (watch w)(fd := Some ev)\<rparr> else w)"

definition close_fd :: "nat \<Rightarrow> web \<Rightarrow> web" where
  "close_fd fd w = log_call fd CClose (w\<lparr>watch := (watch w)(fd := None)\<rparr>)"

section \<open>The callbacks\<close>

definition text_bytes :: "string \<Rightarrow> u8 list" where
  "text_bytes s = map (\<lambda>c. of_nat (of_char c)) s"

definition show_long :: "int \<Rightarrow> string" where
  "show_long n = (if n < 0 then ''-'' else '''') @ show_base 10 (nat \<bar>n\<bar>)"

definition response_header :: "int \<Rightarrow> u8 list" where
  "response_header sz = text_bytes ''HTTP/1.1 200 OK'' @ [13, 10] @ text_bytes ''Content-Length: ''
     @ text_bytes (show_long sz) @ [13, 10, 13, 10]"

definition http_request :: "nat \<Rightarrow> web \<Rightarrow> web" where
  "http_request fd w =
     upd_conn fd (\<lambda>c. c\<lparr>sate := 0\<rparr>) (w\<lparr>overread := overread w \<or> 0 \<notin> set (rbuffer (conn_list w fd))\<rparr>)"

text \<open>\<open>sz\<close> is \<open>st.st_size\<close>: the size of \<open>index.html\<close>, or whatever the structure holds when the file
  cannot be opened, which is not checked.\<close>

definition http_response :: "nat \<Rightarrow> int \<Rightarrow> web \<Rightarrow> web" where
  "http_response fd sz w =
     (let clear = (\<lambda>c. c\<lparr>wbuffer := replicate BUFFER_LEN 0, wlen := 0\<rparr>);
          w = (if sate (conn_list w fd) = 0 then
                 upd_conn fd (\<lambda>c. c\<lparr>wbuffer := response_header sz @ [0]
                     @ drop (length (response_header sz) + 1) (wbuffer c),
                   wlen := int (length (response_header sz)), sate := 1\<rparr>) w
               else if sate (conn_list w fd) = 1 then
                 upd_conn fd (\<lambda>c. (clear c)\<lparr>sate := 2\<rparr>) (log_call fd (CSendfile (conn_fd (conn_list w fd)) sz) w)
               else w)
      in if sate (conn_list w fd) = 2 then upd_conn fd clear w else w)"

definition recv_cb :: "nat \<Rightarrow> int \<Rightarrow> u8 list \<Rightarrow> web \<Rightarrow> web" where
  "recv_cb fd count bytes w =
     (if count \<le> 0 then close_fd fd w
      else let w = log_call fd (CRecv count) w;
               w = upd_conn fd (\<lambda>c. c\<lparr>rbuffer := bytes @ drop (length bytes) (rbuffer c), rlen := count, wlen := count\<rparr>) w
           in http_request fd (set_event fd EPOLLOUT False w))"

definition send_cb :: "nat \<Rightarrow> int \<Rightarrow> web \<Rightarrow> web" where
  "send_cb fd sz w =
     (let w = http_response fd sz w; c = conn_list w fd in
      if sate c = 1 then
        set_event fd EPOLLOUT False (log_call fd (CSend (take (nat (wlen c)) (wbuffer c))) w)
      else if sate c = 2 then set_event fd EPOLLIN False w
      else if sate c = 0 then set_event fd EPOLLOUT False w
      else w)"

definition accept_cb :: "int \<Rightarrow> web \<Rightarrow> web" where
  "accept_cb clientfd w =
     (if clientfd < 0 then w
      else let fd = nat clientfd;
               w = upd_conn fd (\<lambda>c. c\<lparr>conn_fd := clientfd, r_action := Some Recv_cb, send_callback := True,
                     rbuffer := replicate BUFFER_LEN 0, rlen := 0, wbuffer := replicate BUFFER_LEN 0, wlen := 0\<rparr>) w
           in set_event fd EPOLLIN True (log_call fd CAccept w))"

text \<open>One entry of the array \<open>epoll_wait\<close> fills: a call through a null pointer is a fault.\<close>

record ready =
  e_fd :: nat
  e_in :: bool
  e_out :: bool
  e_accept :: int
  e_count :: int
  e_bytes :: "u8 list"
  e_size :: int

definition web_event :: "ready \<Rightarrow> web \<Rightarrow> web option" where
  "web_event e w =
     (let fd = e_fd e;
          w1 = (if \<not> e_in e then Some w else
            (case r_action (conn_list w fd) of
               None \<Rightarrow> None
             | Some Accept_cb \<Rightarrow> Some (accept_cb (e_accept e) w)
             | Some Recv_cb \<Rightarrow> Some (recv_cb fd (e_count e) (e_bytes e) w)))
      in case w1 of None \<Rightarrow> None
         | Some w \<Rightarrow> if \<not> e_out e then Some w
                     else if send_callback (conn_list w fd) then Some (send_cb fd (e_size e) w) else None)"

primrec web_run :: "ready list \<Rightarrow> web \<Rightarrow> web option" where
  "web_run [] w = Some w"
| "web_run (e # es) w = (case web_event e w of None \<Rightarrow> None | Some w \<Rightarrow> web_run es w)"

text \<open>\<open>main\<close> before its loop: the listening sockets.\<close>

definition web_start :: "nat list \<Rightarrow> web" where
  "web_start socks = fold (\<lambda>fd w. set_event fd EPOLLIN True
       (upd_conn fd (\<lambda>c. c\<lparr>conn_fd := int fd, r_action := Some Accept_cb\<rparr>) w)) socks
     \<lparr>conn_list = (\<lambda>_. zero_conn), watch = (\<lambda>_. None), calls = [], overread = False\<rparr>"

section \<open>The protocol of a connection\<close>

text \<open>What may happen on a descriptor: it is accepted; a request is received, answered by a header and
  then the file; it is closed instead of receiving a request.\<close>

datatype phase = Unused | Idle | Requested | Answering | Listening

fun phase_step :: "phase \<Rightarrow> call \<Rightarrow> phase option" where
  "phase_step Unused CAccept = Some Idle"
| "phase_step Idle (CRecv n) = (if n > 0 then Some Requested else None)"
| "phase_step Idle CClose = Some Unused"
| "phase_step Requested (CSend bs) = (if \<exists>sz. bs = response_header sz then Some Answering else None)"
| "phase_step Answering (CSendfile out sz) = Some Idle"
| "phase_step _ _ = None"

primrec phase_run :: "phase \<Rightarrow> call list \<Rightarrow> phase option" where
  "phase_run p [] = Some p"
| "phase_run p (c # cs) = (case phase_step p c of None \<Rightarrow> None | Some p \<Rightarrow> phase_run p cs)"

lemma phase_run_snoc: "phase_run p (cs @ [c]) = (case phase_run p cs of None \<Rightarrow> None | Some q \<Rightarrow> phase_step q c)"
  by (induction cs arbitrary: p) (auto split: option.splits)

definition calls_on :: "nat \<Rightarrow> web \<Rightarrow> call list" where
  "calls_on fd w = map snd (filter (\<lambda>c. fst c = fd) (calls w))"

definition phase_of :: "nat \<Rightarrow> web \<Rightarrow> phase" where
  "phase_of fd w = (case watch w fd of None \<Rightarrow> Unused
     | Some EPOLLIN \<Rightarrow> if r_action (conn_list w fd) = Some Accept_cb then Listening else Idle
     | Some EPOLLOUT \<Rightarrow> if sate (conn_list w fd) = 0 then Requested else Answering)"

text \<open>What the kernel reports: readiness a descriptor is watched for, an accepted descriptor that is not
  open, at most as many bytes as asked for.\<close>

definition kernel_ok :: "ready \<Rightarrow> web \<Rightarrow> bool" where
  "kernel_ok e w \<longleftrightarrow>
     (e_in e \<longrightarrow> watch w (e_fd e) = Some EPOLLIN) \<and> (e_out e \<longrightarrow> watch w (e_fd e) = Some EPOLLOUT) \<and>
     (0 \<le> e_accept e \<longrightarrow> watch w (nat (e_accept e)) = None) \<and>
     (0 < e_count e \<longrightarrow> int (length (e_bytes e)) = e_count e \<and> length (e_bytes e) \<le> BUFFER_LEN)"

primrec kernel_run :: "ready list \<Rightarrow> web \<Rightarrow> bool" where
  "kernel_run [] w = True"
| "kernel_run (e # es) w \<longleftrightarrow> kernel_ok e w \<and> (case web_event e w of None \<Rightarrow> True | Some w \<Rightarrow> kernel_run es w)"

definition web_inv :: "nat set \<Rightarrow> web \<Rightarrow> bool" where
  "web_inv socks w \<longleftrightarrow>
     (\<forall>fd\<in>socks. watch w fd = Some EPOLLIN \<and> r_action (conn_list w fd) = Some Accept_cb \<and> calls_on fd w = []) \<and>
     (\<forall>fd. fd \<notin> socks \<longrightarrow> phase_run Unused (calls_on fd w) = Some (phase_of fd w)) \<and>
     (\<forall>fd. fd \<notin> socks \<and> watch w fd \<noteq> None \<longrightarrow> r_action (conn_list w fd) = Some Recv_cb
        \<and> send_callback (conn_list w fd) \<and> conn_fd (conn_list w fd) = int fd) \<and>
     (\<forall>fd. watch w fd = Some EPOLLOUT \<longrightarrow> sate (conn_list w fd) \<in> {0, 1}) \<and>
     (\<forall>fd. length (rbuffer (conn_list w fd)) = BUFFER_LEN)"

section \<open>The invariant\<close>

lemma web_fields [simp]:
  "conn_list (upd_conn fd g w) = (conn_list w)(fd := g (conn_list w fd))" "watch (upd_conn fd g w) = watch w"
  "calls (upd_conn fd g w) = calls w"
  "conn_list (log_call fd c w) = conn_list w" "watch (log_call fd c w) = watch w"
  "calls (log_call fd c w) = calls w @ [(fd, c)]"
  "conn_list (set_event fd ev flag w) = conn_list w" "calls (set_event fd ev flag w) = calls w"
  "watch (set_event fd ev flag w) = (if flag \<noteq> (watch w fd \<noteq> None) then (watch w)(fd := Some ev) else watch w)"
  "conn_list (close_fd fd w) = conn_list w" "watch (close_fd fd w) = (watch w)(fd := None)"
  "calls (close_fd fd w) = calls w @ [(fd, CClose)]"
  by (auto simp: upd_conn_def log_call_def set_event_def close_fd_def)

lemma calls_on_eq: "calls w' = calls w \<Longrightarrow> calls_on fd w' = calls_on fd w"
  by (simp add: calls_on_def)

lemma calls_on_snoc: "calls w' = calls w @ [(fd, c)] \<Longrightarrow> calls_on d w' = calls_on d w @ (if d = fd then [c] else [])"
  by (simp add: calls_on_def)

text \<open>A step on one descriptor: only its own connection, watch and calls change, by one call that the
  protocol allows.\<close>

lemma web_inv_step:
  assumes inv: "web_inv socks w" and fd: "fd \<notin> socks"
    and calls: "calls w' = calls w @ [(fd, c)]"
    and watch: "\<And>d. d \<noteq> fd \<Longrightarrow> watch w' d = watch w d" and conn: "\<And>d. d \<noteq> fd \<Longrightarrow> conn_list w' d = conn_list w d"
    and step: "phase_step (phase_of fd w) c = Some (phase_of fd w')"
    and act: "watch w' fd \<noteq> None \<Longrightarrow> r_action (conn_list w' fd) = Some Recv_cb \<and> send_callback (conn_list w' fd)
      \<and> conn_fd (conn_list w' fd) = int fd"
    and st: "watch w' fd = Some EPOLLOUT \<Longrightarrow> sate (conn_list w' fd) \<in> {0, 1}"
    and len: "length (rbuffer (conn_list w' fd)) = BUFFER_LEN"
  shows "web_inv socks w'"
proof -
  have "phase_of d w' = phase_of d w" if "d \<noteq> fd" for d
    using that watch conn by (simp add: phase_of_def)
  then have "phase_run Unused (calls_on d w') = Some (phase_of d w')" if "d \<notin> socks" for d
    using inv that step by (cases "d = fd") (simp_all add: web_inv_def calls_on_snoc [OF calls] phase_run_snoc)
  moreover have "calls_on d w' = calls_on d w" "watch w' d = watch w d" "conn_list w' d = conn_list w d" if "d \<in> socks" for d
  proof -
    have "d \<noteq> fd" using that fd by blast
    then show "calls_on d w' = calls_on d w" "watch w' d = watch w d" "conn_list w' d = conn_list w d"
      using watch conn by (simp_all add: calls_on_snoc [OF calls])
  qed
  moreover have "r_action (conn_list w' d) = Some Recv_cb \<and> send_callback (conn_list w' d) \<and> conn_fd (conn_list w' d) = int d"
    if "d \<notin> socks" "watch w' d \<noteq> None" for d
    using that inv watch conn act by (cases "d = fd") (auto simp: web_inv_def)
  moreover have "sate (conn_list w' d) \<in> {0, 1}" if "watch w' d = Some EPOLLOUT" for d
    using that inv watch conn st by (cases "d = fd") (auto simp: web_inv_def)
  moreover have "length (rbuffer (conn_list w' d)) = BUFFER_LEN" for d
    using inv conn len by (cases "d = fd") (auto simp: web_inv_def)
  ultimately show ?thesis using inv by (simp add: web_inv_def)
qed

lemma recv_cb_inv:
  assumes inv: "web_inv socks w" and fd: "fd \<notin> socks" "watch w fd = Some EPOLLIN"
    and k: "0 < count \<Longrightarrow> length bytes \<le> BUFFER_LEN"
  shows "web_inv socks (recv_cb fd count bytes w)"
proof (cases "count \<le> 0")
  case True
  show ?thesis
    by (rule web_inv_step [OF inv fd(1), where c = CClose])
       (use inv fd True in \<open>auto simp: recv_cb_def phase_of_def web_inv_def\<close>)
next
  case False
  show ?thesis
    by (rule web_inv_step [OF inv fd(1), where c = "CRecv count"])
       (use inv fd False k in \<open>auto simp: recv_cb_def http_request_def phase_of_def web_inv_def Let_def\<close>)
qed

lemma accept_cb_inv:
  assumes inv: "web_inv socks w" and k: "0 \<le> clientfd \<Longrightarrow> watch w (nat clientfd) = None"
  shows "web_inv socks (accept_cb clientfd w)"
proof (cases "clientfd < 0")
  case True
  then show ?thesis using inv by (simp add: accept_cb_def)
next
  case False
  then have "nat clientfd \<notin> socks" using inv k by (auto simp: web_inv_def)
  then show ?thesis
    by (rule web_inv_step [OF inv, where c = CAccept])
       (use inv False k in \<open>auto simp: accept_cb_def phase_of_def web_inv_def Let_def\<close>)
qed

lemma take_header: "take (length h) (h @ x) = h"
  by simp

lemma send_cb_inv:
  assumes inv: "web_inv socks w" and fd: "fd \<notin> socks" "watch w fd = Some EPOLLOUT"
  shows "web_inv socks (send_cb fd sz w)"
proof -
  have s: "sate (conn_list w fd) = 0 \<or> sate (conn_list w fd) = 1" using inv fd by (auto simp: web_inv_def)
  then show ?thesis
  proof
    assume s0: "sate (conn_list w fd) = 0"
    show ?thesis
      by (rule web_inv_step [OF inv fd(1), where c = "CSend (response_header sz)"])
         (use inv fd s0 in \<open>auto simp: send_cb_def http_response_def phase_of_def web_inv_def Let_def\<close>)
  next
    assume s1: "sate (conn_list w fd) = 1"
    show ?thesis
      by (rule web_inv_step [OF inv fd(1), where c = "CSendfile (conn_fd (conn_list w fd)) sz"])
         (use inv fd s1 in \<open>auto simp: send_cb_def http_response_def phase_of_def web_inv_def Let_def\<close>)
  qed
qed

lemma web_event_inv:
  assumes inv: "web_inv socks w" and k: "kernel_ok e w"
  shows "\<exists>w'. web_event e w = Some w' \<and> web_inv socks w'"
proof -
  consider "\<not> e_in e" "\<not> e_out e" | "e_in e" "\<not> e_out e" "e_fd e \<in> socks" | "e_in e" "\<not> e_out e" "e_fd e \<notin> socks"
    | "\<not> e_in e" "e_out e"
    using k by (auto simp: kernel_ok_def)
  then show ?thesis
  proof cases
    case 1
    then show ?thesis using inv by (simp add: web_event_def)
  next
    case 2
    then have "r_action (conn_list w (e_fd e)) = Some Accept_cb" using inv by (simp add: web_inv_def)
    then show ?thesis using 2 accept_cb_inv [OF inv] k by (simp add: web_event_def kernel_ok_def)
  next
    case 3
    then have "r_action (conn_list w (e_fd e)) = Some Recv_cb" "watch w (e_fd e) = Some EPOLLIN"
      using inv k by (simp_all add: web_inv_def kernel_ok_def)
    then show ?thesis using 3 recv_cb_inv [OF inv 3(3)] k by (auto simp: web_event_def kernel_ok_def)
  next
    case 4
    then have w: "watch w (e_fd e) = Some EPOLLOUT" using k by (simp add: kernel_ok_def)
    then have "e_fd e \<notin> socks" using inv by (auto simp: web_inv_def)
    moreover have "send_callback (conn_list w (e_fd e))" using inv w calculation by (simp add: web_inv_def)
    ultimately show ?thesis using 4 send_cb_inv [OF inv _ w] by (simp add: web_event_def)
  qed
qed

lemma web_run_inv:
  "web_inv socks w \<Longrightarrow> kernel_run es w \<Longrightarrow> \<exists>w'. web_run es w = Some w' \<and> web_inv socks w'"
proof (induction es arbitrary: w)
  case Nil
  then show ?case by simp
next
  case (Cons e es)
  then obtain w1 where w1: "web_event e w = Some w1" "web_inv socks w1" using web_event_inv by fastforce
  then show ?case using Cons.IH [OF w1(2)] Cons.prems(2) by simp
qed

lemma web_start_inv: "web_inv (set socks) (web_start socks)"
proof -
  have "web_inv (set xs \<union> S) (fold (\<lambda>fd w. set_event fd EPOLLIN True
       (upd_conn fd (\<lambda>c. c\<lparr>conn_fd := int fd, r_action := Some Accept_cb\<rparr>) w)) xs w)"
    if "web_inv S w" "\<forall>fd. fd \<notin> S \<longrightarrow> watch w fd = None" "calls w = []" for xs S w
    using that
  proof (induction xs arbitrary: S w)
    case Nil
    then show ?case by simp
  next
    case (Cons x xs)
    let ?w = "set_event x EPOLLIN True (upd_conn x (\<lambda>c. c\<lparr>conn_fd := int x, r_action := Some Accept_cb\<rparr>) w)"
    have "web_inv (insert x S) ?w"
      using Cons.prems by (auto simp: web_inv_def calls_on_def phase_of_def)
    moreover have "\<forall>fd. fd \<notin> insert x S \<longrightarrow> watch ?w fd = None" using Cons.prems(2) by simp
    ultimately have "web_inv (set xs \<union> insert x S) (fold (\<lambda>fd w. set_event fd EPOLLIN True
       (upd_conn fd (\<lambda>c. c\<lparr>conn_fd := int fd, r_action := Some Accept_cb\<rparr>) w)) xs ?w)"
      using Cons.prems(3) by (intro Cons.IH) simp_all
    then show ?case by simp
  qed
  from this [of "{}" "\<lparr>conn_list = (\<lambda>_. zero_conn), watch = (\<lambda>_. None), calls = [], overread = False\<rparr>" socks]
  show ?thesis
    by (simp add: web_start_def web_inv_def calls_on_def phase_of_def zero_conn_def)
qed

section \<open>Properties\<close>

text \<open>C38. Whatever clients send and in whatever order descriptors become ready, the server calls no null
  callback, and on every connection each request is answered by one header and one file, in this
  order and before the next request is received; the connection is closed only in between.\<close>

theorem web_protocol:
  assumes "kernel_run es (web_start socks)"
  shows "\<exists>w. web_run es (web_start socks) = Some w
    \<and> (\<forall>fd. fd \<notin> set socks \<longrightarrow> phase_run Unused (calls_on fd w) = Some (phase_of fd w))
    \<and> (\<forall>fd. fd \<notin> set socks \<longrightarrow> (watch w fd = Some EPOLLOUT \<longleftrightarrow> phase_of fd w \<in> {Requested, Answering}))"
proof -
  obtain w where w: "web_run es (web_start socks) = Some w" "web_inv (set socks) w"
    using web_run_inv [OF web_start_inv assms] by blast
  have "watch w fd = Some EPOLLOUT \<longleftrightarrow> phase_of fd w \<in> {Requested, Answering}" if "fd \<notin> set socks" for fd
    using w(2) that by (cases "watch w fd") (auto simp: phase_of_def web_inv_def split: event.splits)
  then show ?thesis using w by (auto simp: web_inv_def)
qed

definition web_demo :: "ready list" where
  "web_demo = [
     \<lparr>e_fd = 3, e_in = True, e_out = False, e_accept = 7, e_count = 0, e_bytes = [], e_size = 0\<rparr>,
     \<lparr>e_fd = 7, e_in = True, e_out = False, e_accept = -1, e_count = 2, e_bytes = [71, 69], e_size = 0\<rparr>,
     \<lparr>e_fd = 7, e_in = False, e_out = True, e_accept = -1, e_count = 0, e_bytes = [], e_size = 5\<rparr>,
     \<lparr>e_fd = 7, e_in = False, e_out = True, e_accept = -1, e_count = 0, e_bytes = [], e_size = 5\<rparr>]"

lemma web_protocol_witness:
  "\<exists>w. web_run web_demo (web_start [3]) = Some w
    \<and> (\<forall>fd. fd \<notin> set [3] \<longrightarrow> phase_run Unused (calls_on fd w) = Some (phase_of fd w))"
proof -
  have "kernel_run web_demo (web_start [3])"
    by (simp add: web_demo_def web_start_def kernel_ok_def web_event_def accept_cb_def recv_cb_def http_request_def
        send_cb_def http_response_def Let_def BUFFER_LEN_def)
  from web_protocol [OF this] show ?thesis by blast
qed

text \<open>A request that fills the buffer without a zero byte is printed past its end.\<close>

lemma web_request_overread:
  assumes "length bytes = BUFFER_LEN" "0 \<notin> set bytes" "length (rbuffer (conn_list w fd)) = BUFFER_LEN"
  shows "overread (recv_cb fd (int BUFFER_LEN) bytes w)"
  using assms by (auto simp: recv_cb_def http_request_def Let_def BUFFER_LEN_def upd_conn_def set_event_def log_call_def)

end
