(* ===== verification/Dns.thy ===== *)
theory Dns
  imports Prelude
begin

text \<open>
  The DNS client of \<open>dns_folder/dns.c\<close>: a host name is cut at its dots into labels, each written with
  its length in front (\<open>question_create\<close>), and the question is appended to a header
  (\<open>build_dns\<close>).  A heap block or array is a list of bytes with its exact size; a store past its end or
  through a null pointer is a fault.  What \<open>memcpy\<close> reads past a block is the argument \<open>beyond\<close>, and
  whether \<open>malloc\<close> and \<open>strdup\<close> succeed is an argument.
\<close>

datatype mem_fault = NullPointer | OutOfBounds

type_synonym cstring = "u8 list"  \<comment> \<open>the bytes before the terminator\<close>

definition dot :: u8 where "dot = 46"

record dns_head =
  h_id :: u16
  h_flags :: u16
  h_qdcount :: u16
  h_adcount :: u16
  h_nscount :: u16
  h_arcount :: u16

record dns_question =
  q_name :: "u8 list option"
  q_length :: int
  q_qtype :: u16
  q_qclass :: u16

definition zero_head :: dns_head where
  "zero_head = \<lparr>h_id = 0, h_flags = 0, h_qdcount = 0, h_adcount = 0, h_nscount = 0, h_arcount = 0\<rparr>"

definition zero_question :: dns_question where
  "zero_question = \<lparr>q_name = None, q_length = 0, q_qtype = 0, q_qclass = 0\<rparr>"

text \<open>\<open>memset(head,0,sizeof(head))\<close> clears the eight bytes of a pointer's size, four fields of six.\<close>

definition header_creater :: "u16 \<Rightarrow> dns_head \<Rightarrow> dns_head" where
  "header_creater random h =
     (let h = h\<lparr>h_id := 0, h_flags := 0, h_qdcount := 0, h_adcount := 0\<rparr>
      in h\<lparr>h_id := random, h_flags := htons 0x0100, h_qdcount := htons 1\<rparr>)"

text \<open>The successive results of \<open>strtok\<close> with the delimiter \<open>.\<close>: leading dots are skipped.\<close>

function strtok_all :: "cstring \<Rightarrow> cstring list" where
  "strtok_all s = (let s = dropWhile (\<lambda>c. c = dot) s in
     if s = [] then [] else takeWhile (\<lambda>c. c \<noteq> dot) s # strtok_all (drop 1 (dropWhile (\<lambda>c. c \<noteq> dot) s)))"
  by pat_completeness auto
termination
proof (relation "measure length")
  fix s x :: cstring
  assume x: "x = dropWhile (\<lambda>c. c = dot) s" and ne: "x \<noteq> []"
  have "length (dropWhile (\<lambda>c. c \<noteq> dot) x) \<le> length x" by (rule length_dropWhile_le)
  moreover have "hd x \<noteq> dot" using ne unfolding x by (rule hd_dropWhile)
  then have "length (drop 1 (dropWhile (\<lambda>c. c \<noteq> dot) x)) < length x"
    using ne length_dropWhile_le [of "\<lambda>c. c \<noteq> dot" "tl x"] by (cases x) auto
  ultimately show "(drop 1 (dropWhile (\<lambda>c. c \<noteq> dot) x), s) \<in> measure length"
    using length_dropWhile_le [of "\<lambda>c. c = dot" s] unfolding x by simp
qed auto

declare strtok_all.simps [simp del]

definition poke :: "nat \<Rightarrow> u8 list \<Rightarrow> u8 list \<Rightarrow> mem_fault + u8 list" where
  "poke p xs buf = (if p + length xs \<le> length buf then Inr (take p buf @ xs @ drop (p + length xs) buf)
                    else Inl OutOfBounds)"

text \<open>The loop of \<open>question_create\<close>: a length byte, then the label with its terminator.\<close>

primrec write_labels :: "nat \<Rightarrow> cstring list \<Rightarrow> u8 list \<Rightarrow> mem_fault + u8 list" where
  "write_labels qname [] buf = Inr buf"
| "write_labels qname (temp # ts) buf =
     (case poke qname [of_nat (length temp)] buf of Inl e \<Rightarrow> Inl e
      | Inr buf \<Rightarrow> (case poke (qname + 1) (temp @ [0]) buf of Inl e \<Rightarrow> Inl e
      | Inr buf \<Rightarrow> write_labels (qname + 1 + length temp) ts buf))"

definition question_create :: "bool \<Rightarrow> bool \<Rightarrow> cstring \<Rightarrow> dns_question \<Rightarrow> mem_fault + dns_question" where
  "question_create malloc_ok strdup_ok hostname q =
     (if \<not> malloc_ok then Inl NullPointer
      else let name = replicate (length hostname + 2) 0;
               q = q\<lparr>q_length := int (length hostname + 2), q_qtype := htons 1, q_qclass := htons 1\<rparr> in
        if \<not> strdup_ok then Inr (q\<lparr>q_name := None\<rparr>)
        else case write_labels 0 (strtok_all hostname) name of
          Inl e \<Rightarrow> Inl e
        | Inr name \<Rightarrow> Inr (q\<lparr>q_name := Some name\<rparr>))"

definition head_bytes :: "dns_head \<Rightarrow> u8 list" where
  "head_bytes h = le16 (h_id h) @ le16 (h_flags h) @ le16 (h_qdcount h) @ le16 (h_adcount h)
     @ le16 (h_nscount h) @ le16 (h_arcount h)"

definition read_at :: "(nat \<Rightarrow> u8) \<Rightarrow> u8 list option \<Rightarrow> nat \<Rightarrow> mem_fault + u8 list" where
  "read_at beyond p n = (case p of None \<Rightarrow> Inl NullPointer
     | Some b \<Rightarrow> Inr (map (\<lambda>i. if i < length b then b ! i else beyond i) [0..<n]))"

definition sizeof_question :: nat where "sizeof_question = 16"

text \<open>\<open>build_dns\<close> copies \<open>sizeof(question)\<close> bytes of the name, then goes on behind its real length.\<close>

definition build_dns :: "(nat \<Rightarrow> u8) \<Rightarrow> dns_head \<Rightarrow> dns_question \<Rightarrow> u8 list \<Rightarrow> mem_fault + nat \<times> u8 list" where
  "build_dns beyond h q request =
     (case poke 0 (head_bytes h) request of Inl e \<Rightarrow> Inl e | Inr request \<Rightarrow>
     (case read_at beyond (q_name q) sizeof_question of Inl e \<Rightarrow> Inl e | Inr name \<Rightarrow>
     (case poke 12 name request of Inl e \<Rightarrow> Inl e | Inr request \<Rightarrow>
      let offset = nat (12 + q_length q) in
     (case poke offset (le16 (q_qtype q)) request of Inl e \<Rightarrow> Inl e | Inr request \<Rightarrow>
     (case poke (offset + 2) (le16 (q_qclass q)) request of Inl e \<Rightarrow> Inl e | Inr request \<Rightarrow>
      Inr (offset + 4, request))))))"

text \<open>\<open>dns_udp\<close> up to the request: \<open>question_create(&q, domain)\<close> has its arguments exchanged, so it reads
  the zeroed structure \<open>q\<close> as an empty host name and fills the memory of \<open>domain\<close> as a question.\<close>

definition dns_udp :: "(nat \<Rightarrow> u8) \<Rightarrow> bool \<Rightarrow> bool \<Rightarrow> u16 \<Rightarrow> cstring \<Rightarrow> mem_fault + nat \<times> u8 list" where
  "dns_udp beyond malloc_ok strdup_ok random domain =
     (let h = header_creater random zero_head; q = zero_question in
      case question_create malloc_ok strdup_ok [] zero_question of
        Inl e \<Rightarrow> Inl e
      | Inr domain_memory \<Rightarrow> build_dns beyond h q (replicate 1024 0))"

section \<open>The wire format\<close>

definition wire_labels :: "cstring list \<Rightarrow> u8 list" where
  "wire_labels ls = concat (map (\<lambda>l. of_nat (length l) # l) ls)"

definition dns_query :: "u16 \<Rightarrow> cstring list \<Rightarrow> u8 list" where
  "dns_query qid ls = le16 qid @ [1, 0, 0, 1, 0, 0, 0, 0, 0, 0] @ wire_labels ls @ [0] @ [0, 1, 0, 1]"

text \<open>A receiver's decoding of the name.\<close>

function decode_name :: "u8 list \<Rightarrow> (cstring list \<times> u8 list) option" where
  "decode_name [] = None"
| "decode_name (n # bs) =
     (if n = 0 then Some ([], bs)
      else if length bs < unat n then None
      else map_option (apfst ((#) (take (unat n) bs))) (decode_name (drop (unat n) bs)))"
  by pat_completeness auto
termination by (relation "measure length") (auto simp: less_Suc_eq_le)

definition good_labels :: "cstring list \<Rightarrow> bool" where
  "good_labels ls \<longleftrightarrow> ls \<noteq> [] \<and> (\<forall>l\<in>set ls. l \<noteq> [] \<and> length l \<le> 63 \<and> dot \<notin> set l \<and> 0 \<notin> set l)"

primrec dotted :: "cstring list \<Rightarrow> cstring" where
  "dotted [] = []"
| "dotted (l # ls) = l @ (if ls = [] then [] else dot # dotted ls)"

lemma decode_wire:
  "(\<forall>l\<in>set ls. l \<noteq> [] \<and> length l \<le> 63) \<Longrightarrow> decode_name (wire_labels ls @ 0 # rest) = Some (ls, rest)"
proof (induction ls)
  case Nil
  then show ?case by (simp add: wire_labels_def)
next
  case (Cons l ls)
  have n: "unat (of_nat (length l) :: u8) = length l"
    using Cons.prems by (intro unat_of_nat_small) auto
  then have "(of_nat (length l) :: u8) \<noteq> 0"
    using Cons.prems by (metis length_0_conv list.set_intros(1) unat_0)
  then show ?case using Cons n by (simp add: wire_labels_def)
qed

lemma wire_nonzero:
  assumes "good_labels ls" shows "0 \<notin> set (wire_labels ls)"
proof -
  have "(of_nat (length l) :: u8) \<noteq> 0" if "l \<in> set ls" for l
  proof -
    have "unat (of_nat (length l) :: u8) = length l"
      using assms that by (intro unat_of_nat_small) (auto simp: good_labels_def)
    then show ?thesis using assms that by (metis good_labels_def length_0_conv unat_0)
  qed
  then show ?thesis using assms by (auto simp: wire_labels_def good_labels_def)
qed

lemma strtok_dotted: "good_labels ls \<Longrightarrow> strtok_all (dotted ls) = ls"
proof (induction ls)
  case Nil
  then show ?case by (simp add: good_labels_def)
next
  case (Cons l ls)
  obtain c cs where l: "l = c # cs" "c \<noteq> dot" using Cons.prems by (cases l) (auto simp: good_labels_def)
  have nd: "\<forall>x\<in>set l. x \<noteq> dot" using Cons.prems by (auto simp: good_labels_def)
  show ?case
  proof (cases "ls = []")
    case True
    have "strtok_all [] = []" by (simp add: strtok_all.simps)
    moreover have "dropWhile (\<lambda>c. c \<noteq> dot) cs = []" "takeWhile (\<lambda>c. c \<noteq> dot) cs = cs" using nd l by auto
    ultimately show ?thesis using True l by (subst strtok_all.simps) (simp del: dropWhile_eq_Nil_conv)
  next
    case False
    then have "good_labels ls" using Cons.prems by (auto simp: good_labels_def)
    then have "strtok_all (dotted ls) = ls" by (rule Cons.IH)
    then show ?thesis using False l nd by (subst strtok_all.simps) (simp add: takeWhile_append dropWhile_append)
  qed
qed

lemma length_wire: "length (wire_labels ls) = (\<Sum>l\<leftarrow>ls. length l + 1)"
  by (induction ls) (auto simp: wire_labels_def)

lemma length_dotted: "ls \<noteq> [] \<Longrightarrow> length (dotted ls) + 1 = length (wire_labels ls)"
  by (induction ls) (auto simp: wire_labels_def)

text \<open>The labels are written one behind the other into the zeroed block.\<close>

lemma write_labels_ok:
  "length (wire_labels ls) < k \<Longrightarrow> write_labels (length done) ls (done @ replicate k 0)
   = Inr (done @ wire_labels ls @ replicate (k - length (wire_labels ls)) 0)"
proof (induction ls arbitrary: "done" k)
  case Nil
  then show ?case by (simp add: wire_labels_def)
next
  case (Cons l ls)
  have k: "length l + 1 + length (wire_labels ls) < k" using Cons.prems by (simp add: wire_labels_def)
  have "poke (length done) [of_nat (length l)] (done @ replicate k 0)
      = Inr (done @ of_nat (length l) # replicate (k - 1) 0)"
    using k by (simp add: poke_def)
  moreover have "poke (length done + 1) (l @ [0]) (done @ of_nat (length l) # replicate (k - 1) 0)
      = Inr ((done @ of_nat (length l) # l) @ replicate (k - 1 - length l) 0)"
  proof -
    obtain j where "k = length l + 2 + j" using k le_Suc_ex [of "length l + 2" k] by auto
    then show ?thesis by (simp add: poke_def)
  qed
  moreover have "write_labels (length (done @ of_nat (length l) # l)) ls
        ((done @ of_nat (length l) # l) @ replicate (k - 1 - length l) 0)
      = Inr ((done @ of_nat (length l) # l) @ wire_labels ls
          @ replicate (k - 1 - length l - length (wire_labels ls)) 0)"
    using k by (intro Cons.IH) simp
  ultimately show ?case by (simp add: wire_labels_def)
qed

section \<open>Properties\<close>

lemma question_create_ok:
  assumes "good_labels ls"
  shows "question_create True True (dotted ls) q = Inr (q\<lparr>q_name := Some (wire_labels ls @ [0]),
    q_length := int (length (dotted ls) + 2), q_qtype := htons 1, q_qclass := htons 1\<rparr>)"
proof -
  have "length (dotted ls) + 2 = length (wire_labels ls) + 1"
    using length_dotted [of ls] assms by (simp add: good_labels_def)
  then show ?thesis
    using write_labels_ok [of ls "length (dotted ls) + 2" "[]"] strtok_dotted [OF assms]
    by (simp add: question_create_def Let_def)
qed

lemma le16_consts:
  "le16 (htons 0x0100) = [1, 0]" "le16 (htons 1) = [0, 1]" "le16 0 = [0, 0]"
  by (simp_all add: le16_def bswap16_def)

lemma head_bytes_query: "head_bytes (header_creater r zero_head) = le16 r @ [1, 0, 0, 1, 0, 0, 0, 0, 0, 0]"
  by (simp add: head_bytes_def header_creater_def zero_head_def Let_def le16_consts)

lemma take_read:
  "take (length w) (map (\<lambda>i. if i < length w then w ! i else b i) [0..<n]) = take n w"
  by (rule nth_equalityI) auto

lemma build_dns_bytes:
  assumes n: "length (wire_labels ls) \<le> 1000"
    and q: "q = \<lparr>q_name = Some (wire_labels ls @ [0]), q_length = int (length (wire_labels ls) + 1),
      q_qtype = htons 1, q_qclass = htons 1\<rparr>"
  shows "\<exists>request. build_dns beyond (header_creater r zero_head) q (replicate 1024 0)
      = Inr (17 + length (wire_labels ls), request)
    \<and> take (17 + length (wire_labels ls)) request
      = le16 r @ [1, 0, 0, 1, 0, 0, 0, 0, 0, 0] @
        (take 16 (wire_labels ls @ [0]) @ replicate (length (wire_labels ls) + 1 - 16) 0) @ [0, 1, 0, 1]"
proof -
  let ?w = "wire_labels ls @ [0]" and ?h = "le16 r @ [1, 0, 0, 1, 0, 0, 0, 0, 0, 0]"
  define nm where "nm = map (\<lambda>i. if i < length ?w then ?w ! i else beyond i) [0..<16]"
  have nm: "length nm = 16" "take (length ?w) nm = take 16 ?w"
    unfolding nm_def take_read by simp_all
  have h: "length ?h = 12" by simp
  define r1 where "r1 = ?h @ nm @ replicate 996 (0 :: u8)"
  have p1: "poke 0 ?h (replicate 1024 0) = Inr (?h @ replicate 1012 0)"
    by (simp add: poke_def)
  have p2: "poke 12 nm (?h @ replicate 1012 0) = Inr r1"
    using h nm(1) by (simp add: poke_def r1_def)
  let ?o = "12 + length ?w"
  have l1: "length r1 = 1024" using nm(1) by (simp add: r1_def)
  define r2 where "r2 = take ?o r1 @ [0, 1] @ drop (?o + 2) r1"
  have p3: "poke ?o [0, 1] r1 = Inr r2"
    using n l1 by (simp add: poke_def r2_def)
  have l2: "length r2 = 1024" "take (?o + 2) r2 = take ?o r1 @ [0, 1]"
    using n l1 by (simp_all add: r2_def)
  define r3 where "r3 = take (?o + 2) r2 @ [0, 1] @ drop (?o + 4) r2"
  have p4: "poke (?o + 2) [0, 1] r2 = Inr r3"
    using n l2(1) by (simp add: poke_def r3_def)
  have "read_at beyond (q_name q) sizeof_question = Inr nm" "nat (12 + q_length q) = ?o"
    "le16 (q_qtype q) = [0, 1]" "le16 (q_qclass q) = [0, 1]"
    by (simp_all add: q read_at_def nm_def sizeof_question_def le16_consts nat_add_distrib)
  then have "build_dns beyond (header_creater r zero_head) q (replicate 1024 0) = Inr (?o + 4, r3)"
    unfolding build_dns_def head_bytes_query p1 Let_def by (simp only: p2 p3 p4 sum.case)
  moreover have "take (?o + 4) r3 = take ?o r1 @ [0, 1, 0, 1]"
    using n l1 l2 by (simp add: r3_def)
  moreover have "take ?o r1 = ?h @ take 16 ?w @ replicate (length ?w - 16) 0"
  proof -
    have t: "take (12 + k) (hd12 @ xs) = hd12 @ take k xs" if "length hd12 = 12" for k and hd12 xs :: "u8 list"
      using that by simp
    have "take ?o r1 = ?h @ take (length ?w) (nm @ replicate 996 0)"
      unfolding r1_def by (rule t [OF h])
    also have "take (length ?w) (nm @ replicate 996 (0 :: u8)) = take (length ?w) nm @ replicate (length ?w - 16) 0"
      using nm(1) n by (simp only: take_append) (simp add: min_def)
    finally show ?thesis by (simp only: nm(2))
  qed
  ultimately show ?thesis by (intro exI [of _ r3]) (simp add: add.commute)
qed

text \<open>C39. The query for a host name: encoded by \<open>question_create\<close> and built into the request, it is the
  DNS query for the labels of the name (which a receiver decodes to these labels) exactly when the
  name has at most 15 characters; of a longer name only the first 16 bytes of the encoding are
  copied.\<close>

theorem dns_query_built:
  assumes ls: "good_labels ls" and n: "length (dotted ls) < 1000"
  shows "\<exists>q off request. question_create True True (dotted ls) zero_question = Inr q
    \<and> build_dns beyond (header_creater r zero_head) q (replicate 1024 0) = Inr (off, request)
    \<and> (take off request = dns_query r ls \<longleftrightarrow> length (dotted ls) \<le> 15)
    \<and> decode_name (drop 12 (dns_query r ls)) = Some (ls, [0, 1, 0, 1])"
proof -
  let ?w = "wire_labels ls"
  have len: "length (dotted ls) + 1 = length ?w"
    using ls by (intro length_dotted) (simp add: good_labels_def)
  define q where "q = \<lparr>q_name = Some (?w @ [0]), q_length = int (length ?w + 1), q_qtype = htons 1, q_qclass = htons 1\<rparr>"
  have qc: "question_create True True (dotted ls) zero_question = Inr q"
    using question_create_ok [OF ls, of zero_question] len by (simp add: q_def zero_question_def)
  have "length ?w \<le> 1000" using n len by simp
  from build_dns_bytes [OF this q_def, of beyond r] obtain request where
    b: "build_dns beyond (header_creater r zero_head) q (replicate 1024 0) = Inr (17 + length ?w, request)"
    "take (17 + length ?w) request = le16 r @ [1, 0, 0, 1, 0, 0, 0, 0, 0, 0] @
        (take 16 (?w @ [0]) @ replicate (length ?w + 1 - 16) 0) @ [0, 1, 0, 1]" by blast
  have "take (17 + length ?w) request = dns_query r ls
      \<longleftrightarrow> take 16 (?w @ [0]) @ replicate (length ?w + 1 - 16) 0 = ?w @ [0]"
    unfolding b(2) dns_query_def by (simp only: append_assoc same_append_eq append_eq_append_conv) auto
  also have "\<dots> \<longleftrightarrow> length ?w \<le> 16"
  proof
    assume eq: "take 16 (?w @ [0]) @ replicate (length ?w + 1 - 16) 0 = ?w @ [0]"
    show "length ?w \<le> 16"
    proof (rule ccontr)
      assume "\<not> length ?w \<le> 16"
      then have "(take 16 (?w @ [0]) @ replicate (length ?w + 1 - 16) 0) ! 16 = 0" "(?w @ [0]) ! 16 \<in> set ?w"
        by (simp_all add: nth_append)
      then show False using eq wire_nonzero [OF ls] by metis
    qed
  next
    assume "length ?w \<le> 16"
    then consider "length ?w \<le> 15" | "length ?w = 16" by linarith
    then show "take 16 (?w @ [0]) @ replicate (length ?w + 1 - 16) 0 = ?w @ [0]" by cases simp_all
  qed
  finally show ?thesis
    using qc b(1) len decode_wire [of ls "[0, 1, 0, 1]"] ls
    by (auto simp: dns_query_def good_labels_def)
qed

definition demo_name :: "cstring list" where
  "demo_name = [[119, 119, 119], [98, 97, 105, 100, 117], [99, 111, 109]]"  \<comment> \<open>www.baidu.com\<close>

lemma dns_query_built_witness:
  "\<exists>q off request. question_create True True (dotted demo_name) zero_question = Inr q
    \<and> build_dns (\<lambda>_. 0) (header_creater 7 zero_head) q (replicate 1024 0) = Inr (off, request)
    \<and> take off request = dns_query 7 demo_name"
proof -
  have "good_labels demo_name" "length (dotted demo_name) < 1000" "length (dotted demo_name) \<le> 15"
    by (auto simp: good_labels_def demo_name_def dot_def)
  from dns_query_built [OF this(1,2), of "\<lambda>_. 0" 7] this(3) show ?thesis by blast
qed

text \<open>The program itself never gets that far: the exchanged arguments leave \<open>q.name\<close> null.\<close>

lemma dns_udp_crashes: "dns_udp beyond malloc_ok strdup_ok random domain = Inl NullPointer"
proof -
  have "strtok_all [] = []" by (simp add: strtok_all.simps)
  moreover have "length (head_bytes h) = 12" for h by (simp add: head_bytes_def)
  ultimately show ?thesis
    by (simp add: dns_udp_def question_create_def build_dns_def zero_question_def read_at_def poke_def Let_def)
qed

end
