(* ===== verification/Count.thy ===== *)
theory Count
  imports Prelude
begin

text \<open>
  The word counter of \<open>count_folder/count.c\<close>: \<open>count_txt\<close> runs a two-state machine over the bytes of a
  file. The byte returned by \<open>fgetc\<close> is stored in a (signed) \<open>char\<close> before it is compared with
  \<open>EOF\<close>, so a byte 0xff ends the loop as the end of the file does.
  The counter, an \<open>int\<close> of the code, is unbounded here: files with fewer than \<open>2 ^ 31\<close> words.
\<close>

definition judge_word :: "u8 \<Rightarrow> bool" where
  "judge_word c \<longleftrightarrow> c \<notin> {32, 10, 9, 43, 45, 42, 47, 61, 59, 44, 40, 41, 123, 125}"

primrec count_loop :: "bool \<Rightarrow> int \<Rightarrow> u8 list \<Rightarrow> int" where
  "count_loop inside word [] = word"
| "count_loop inside word (c # cs) =
     (if c = 0xff then word
      else if \<not> judge_word c then count_loop False word cs
      else if \<not> inside then count_loop True (word + 1) cs
      else count_loop inside word cs)"

definition count_txt :: "u8 list option \<Rightarrow> int" where
  "count_txt file = (case file of None \<Rightarrow> - 1 | Some cs \<Rightarrow> count_loop False 0 cs)"

text \<open>The places where a word starts.\<close>

definition word_starts :: "bool \<Rightarrow> u8 list \<Rightarrow> nat set" where
  "word_starts inside p = {i. i < length p \<and> judge_word (p ! i) \<and> (if i = 0 then \<not> inside else \<not> judge_word (p ! (i - 1)))}"

lemma word_starts_Cons:
  "word_starts inside (c # p) = (if judge_word c \<and> \<not> inside then {0} else {}) \<union> Suc ` word_starts (judge_word c) p"
  (is "?l = ?r")
proof
  show "?l \<subseteq> ?r"
  proof
    fix i assume "i \<in> ?l"
    then show "i \<in> ?r" by (cases i) (auto simp: word_starts_def nth_Cons' split: if_splits)
  qed
  show "?r \<subseteq> ?l" by (auto simp: word_starts_def nth_Cons' split: if_splits)
qed

lemma count_loop_starts:
  "count_loop inside word cs = word + int (card (word_starts inside (takeWhile (\<lambda>c. c \<noteq> 0xff) cs)))"
proof (induction cs arbitrary: inside word)
  case Nil
  then show ?case by (simp add: word_starts_def)
next
  case (Cons c cs)
  let ?p = "takeWhile (\<lambda>c. c \<noteq> 0xff) cs"
  show ?case
  proof (cases "c = 0xff")
    case True
    then show ?thesis by (simp add: word_starts_def)
  next
    case False
    have "finite (word_starts b q)" for b q by (simp add: word_starts_def)
    then have "card (word_starts inside (c # ?p))
        = (if judge_word c \<and> \<not> inside then 1 else 0) + card (word_starts (judge_word c) ?p)"
      unfolding word_starts_Cons by (subst card_Un_disjoint) (auto simp: card_image)
    then show ?thesis using False by (auto simp: Cons)
  qed
qed

text \<open>C40. The word count of an existing file is the number of places in its text where a word character
  stands at the start or behind a separator; the text ends at the first byte 0xff, where the
  conversion to \<open>char\<close> makes it equal to \<open>EOF\<close>.\<close>

theorem count_txt_words:
  "count_txt (Some cs) = int (card {i. i < length p \<and> judge_word (p ! i) \<and> (i = 0 \<or> \<not> judge_word (p ! (i - 1)))})"
  if "p = takeWhile (\<lambda>c. c \<noteq> 0xff) cs"
proof -
  have "word_starts False p = {i. i < length p \<and> judge_word (p ! i) \<and> (i = 0 \<or> \<not> judge_word (p ! (i - 1)))}"
    by (auto simp: word_starts_def split: if_splits)
  then show ?thesis using count_loop_starts [of False 0 cs] that by (simp add: count_txt_def)
qed

lemma count_txt_words_witness:
  "int (card {i. i < 3 \<and> judge_word ([105, 32, 43 :: u8] ! i) \<and> (i = 0 \<or> \<not> judge_word ([105, 32, 43 :: u8] ! (i - 1)))}) = 1"
proof -
  have "count_txt (Some [105, 32, 43, 255, 105]) = 1" by (simp add: count_txt_def judge_word_def)
  then show ?thesis using count_txt_words [of "[105, 32, 43]" "[105, 32, 43, 255, 105]"] by (simp add: numeral_3_eq_3)
qed

end
