(* ===== verification/Spec2Isabelle.thy ===== *)
theory Spec2Isabelle
  imports Pkt_Props Server Ring_Alone Mempool_Create_Runs Timer_Claims Contact_Props Thread_Pool_Props Web Dns Count
begin

text \<open>
  A verification development for the user-space TCP/IP stack of this repository
  (\<open>2.4_ustack/tcp_from_king.c\<close>), for the parts of DPDK 19.08.2 it is built on, and for other
  programs of the repository.

  The program.  \<open>main\<close> initialises a port and a kernel network interface and then moves packets
  between the port's driver and two rings, \<open>in\<close> and \<open>out\<close>.  A worker, \<open>pkt_process\<close>, takes bursts from
  \<open>in\<close>, learns the sender's hardware address, and hands every packet to UDP, TCP or the kernel; then
  it answers requests of the kernel and lets UDP and TCP put their queued data into frames on \<open>out\<close>.
  A timer sends ARP requests.  Two servers use the stack through a socket interface (\<open>nsocket\<close> to
  \<open>nclose\<close>).  All queues (\<open>in\<close>, \<open>out\<close>, and one send and one receive buffer per socket and connection)
  are rings of \<open>librte_ring\<close>.

  The theories, from the bottom:

  \<^item> \<open>Prelude\<close>: machine integers, byte order, packet memory, faults and the result type, list lemmas.
  \<^item> \<open>Queue\<close>: the interface of bounded FIFO queues, as locales; \<open>Ring\<close>, \<open>Ring_Refine\<close>, \<open>Ring_Queue\<close>: the ring
    (\<open>rte_ring.h\<close>, \<open>rte_ring_generic.h\<close>, \<open>rte_ring.c\<close>) at the level of its 32-bit head and tail indices,
    its refinement to a list, and its interpretation as a queue; \<open>Ring_Concurrent\<close>,
    \<open>Ring_Concurrent_Props\<close>, \<open>Ring_Alone\<close>: the ring under any interleaving of producers and consumers, first
    in first out and free of deadlock, and its agreement with the sequential operations; \<open>Kni_Fifo\<close>: the FIFO
    shared with the kernel (\<open>rte_kni_fifo.h\<close>).
  \<^item> \<open>Cksum\<close>: the Internet checksum (\<open>rte_ip.h\<close>).
  \<^item> \<open>Eal\<close>: heap, named memory zones, packet buffers, creation and release of rings (\<open>rte_malloc.c\<close>,
    \<open>eal_common_memzone.c\<close>, \<open>rte_mbuf.h\<close>).
  \<^item> \<open>State\<close>: the structures and static variables of the stack; \<open>Arp\<close>: the ARP table (a map whose first
    binding stays, as a locale and its interpretation), its frames and its timer; \<open>Fd\<close>: descriptors
    (an allocator of identifiers, as a locale and its interpretation) and the searches for sockets;
    \<open>Frame\<close>: the fields of an IPv4 frame; \<open>Udp\<close> and \<open>Tcp\<close>: reception, frames and transmission.
  \<^item> \<open>Tcp_Machine\<close> and \<open>Tcp_Refine\<close>: the state machine of the control blocks as a step relation, and the
    proof that processing a segment makes at most one of its steps; \<open>Tcp_Props\<close> and \<open>Tcp_Claims\<close>: what
    each handler does on every kind of segment, the handshake, the frames as a standard receiver reads
    them, two peers whose ring names collide.
  \<^item> \<open>Socket\<close> and \<open>Socket_Props\<close>: the socket calls, and data carried from one stack to another.
  \<^item> \<open>Kni\<close>: the kernel network interface (\<open>rte_kni.c\<close>) and the port control of \<open>rte_ethdev.c\<close>; \<open>Pkt\<close> and
    \<open>Pkt_Props\<close>: the worker, the loop of \<open>main\<close>, its start-up, and the ownership of packet buffers.
  \<^item> \<open>Server\<close>: the UDP and TCP echo servers.
  \<^item> \<open>Timer\<close>: the timer library (\<open>rte_timer.c\<close>) down to the pointers of its skip lists; \<open>Timer_List\<close> and
    \<open>Timer_Skip\<close>: searching, inserting, removing and cutting as operations on HOL lists; \<open>Timer_Spec\<close> and
    \<open>Timer_Runs\<close>: ordered queues as its specification, and their invariant; \<open>Timer_Refine\<close> and
    \<open>Timer_Props\<close>: the refinement, callbacks included; \<open>Timer_Claims\<close>: its statements and the stack's
    ARP timer.
  \<^item> \<open>Stack\<close>: the lock-free stack (\<open>rte_stack_lf.h\<close>, \<open>rte_stack_lf_generic.h\<close>), one step per access to its
    two linked lists; \<open>Stack_Lf\<close> and \<open>Stack_Steps\<close>: its invariant and the proof that every step keeps it;
    \<open>Stack_Props\<close>: its histories are those of an atomic stack as long as no call leaves its retry loop on the
    \<open>success\<close> it never initialised, whatever that holds; a call alone ends; and the two ways in which the
    retry loop goes wrong.  \<open>Stack_Std\<close>: the standard stack, creation and release (\<open>rte_stack.c\<close>).
  \<^item> \<open>Mempool\<close>: memory pools (\<open>rte_mempool.h\<close>, \<open>rte_mempool_ops.c\<close>, the ring and the stack driver): drivers,
    caches, get and put; \<open>Mempool_Cache\<close>: a driver as a locale, the laws of get, put and flush over it, its
    five interpretations; \<open>Mempool_Props\<close>: runs of gets, puts and flushes by the cores.
  \<^item> \<open>Mempool_Create\<close>: sizes of objects, memory zones, creation and release of pools (\<open>rte_mempool.c\<close>,
    \<open>rte_mempool_ops_default.c\<close>); \<open>Mempool_Layout\<close> and \<open>Mempool_Create_Props\<close>: where the objects of a created
    pool lie; \<open>Mempool_Create_Runs\<close>: creation succeeds when there is memory, holders of objects share no
    memory, and what happens to requests that are too large.
  \<^item> \<open>Dll\<close>: the list macros of the stack, the contact book and the thread pool at the level of their
    pointers, the interface of lists they implement, as a locale with three interpretations.
  \<^item> \<open>Contact\<close> and \<open>Contact_Props\<close>: the contact book (\<open>contact_folder/contact.c\<close>), its commands as a refinement
    of a list of names and numbers as long as words fit their arrays, names and files exist and memory is
    granted, and what saving and loading keep.
  \<^item> \<open>Thread_Pool\<close> and \<open>Thread_Pool_Props\<close>: the thread pool (\<open>thread_folder/thread_pool.c\<close>) as a step relation of
    interleaved threads, its invariant, and that tasks are run once, wake-ups are not lost and
    deletion comes to rest.
  \<^item> \<open>Web\<close>: the web server (\<open>2.1/reactor.c\<close>, \<open>2.1/webserver.c\<close>), its callbacks and the protocol of a
    connection; \<open>Dns\<close>: the encoding of a DNS query (\<open>dns_folder/dns.c\<close>); \<open>Count\<close>: the word counter
    (\<open>count_folder/count.c\<close>).

  How the model relates to the code.  A C function is a HOL function of the same name from a state
  record to its return value and the new state; a C structure is a record with the fields of the
  structure, and a static variable a field of the state (\<open>stack\<close>).  An operation on which the process
  is lost (\<open>rte_exit\<close>, a null pointer, a write past a packet buffer, a control block used as a socket)
  returns \<open>Inl\<close> of a \<open>fault\<close>; a call that waits on a condition variable returns \<open>Blocks\<close>.  Linked lists
  are HOL lists from the head.  Packet memory is a function from offsets to bytes; multi-byte
  fields are read and written little-endian as on x86-64, so byte order is explicit.  Integers have
  the width of the code wherever they can wrap (ring indices, sequence numbers, lengths,
  checksums).

  What is an argument or an unconstrained field: whether the heap can satisfy a request (\<open>malloc_ok\<close>),
  memory the code reads without having written it (\<open>beyond\<close>, \<open>junk_frag\<close>, \<open>junk_rcv_nxt\<close>), random
  numbers, the addresses and page sizes of the memory of the EAL (\<open>eal_memory\<close>), what the driver receives and accepts, the results of the driver and of the kernel, and
  the events of the kernel's epoll.

  Bounds.  Three loops of the creation of pools take a bound: \<open>populate_zones\<close> one round per missing object, as
  each round adds one, and \<open>populate_groups\<close> and \<open>group_len\<close> one per byte of the chunk, as each round moves by a
  page; \<open>mempool_create_full\<close> shows that it is enough where one zone takes all objects.  Elsewhere no definition uses fuel: counted loops recurse on a list or a number, the compare-and-set
  loops of the ring are total because without interference the first attempt succeeds, and the
  search of the descriptor bitmap and the loop over the lines of a file terminate by a measure.  The
  searches of the contact book and the walks of the timer lists run until a null pointer and are partial
  functions, shown to return on well-formed lists.  The endless loops of the threads are
  given by their bodies.  The counter of \<open>count_txt\<close> is an unbounded integer: the model is the code's for files
  with fewer than \<open>2 ^ 31\<close> words.  A packet buffer given back is the next one taken, whereas the ring behind
  \<open>rte_pktmbuf_pool\<close> hands out the oldest; no statement depends on the order of free buffers.

  Not modelled: in the stack, preemption inside a critical section (a handler is one step, its lock omitted), the
  memory order of processors weaker than sequential consistency, chained packet buffers outside the checksum,
  logging and printing, the variant of the lock-free stack for other processors, contiguous blocks and anonymous memory
  of pools, further instances of timer data and \<open>rte_timer_alt_manage\<close>, \<open>rte_ring\<close> lookup and dump functions, \<open>rte_kni_release\<close>, the set-up of driver
  queues, the code of \<open>tcp_from_king.c\<close> that is compiled out (DDoS detection, ICMP replies, its own epoll),
  the earlier drafts in \<open>2.4_ustack\<close>, which do not compile, and the examples that only call the
  kernel or a third-party library.
\<close>

end
